(* ===== verification/Prelude.thy ===== *)
theory Prelude
  imports Main "HOL-Library.Word" "HOL-Library.Multiset"
begin

text \<open>
  The shared layer of the development: names for the C integer types, \<^verbatim>\<open>size_t\<close> arithmetic
  with its wrap-around, the allocation script that decides whether each \<^verbatim>\<open>malloc\<close>,
  \<^verbatim>\<open>calloc\<close> or \<^verbatim>\<open>realloc\<close> succeeds, the loops several components share (first
  occurrence de-duplication, the enclosing-row scan), the contract of \<^verbatim>\<open>qsort\<close>, and the
  generic lemmas about them.
\<close>

unbundle bit_operations_syntax

type_synonym u8 = "8 word"
type_synonym u32 = "32 word"
type_synonym u64 = "64 word"

named_theorems sz_simps \<open>bounds and values of size_t arithmetic\<close>
named_theorems sink_laws \<open>what one append does to each field of a sink\<close>

section \<open>size_t\<close>

text \<open>
  A \<^verbatim>\<open>size_t\<close> is a natural number below \<open>2 ^ 64\<close>; its sums and products wrap.
\<close>

definition SIZE_MAX :: nat where
  "SIZE_MAX = 2 ^ 64 - 1"

definition sz_add :: "nat \<Rightarrow> nat \<Rightarrow> nat" where
  "sz_add a b = (a + b) mod 2 ^ 64"

definition sz_mul :: "nat \<Rightarrow> nat \<Rightarrow> nat" where
  "sz_mul a b = (a * b) mod 2 ^ 64"

lemma SIZE_MAX_less: "n \<le> SIZE_MAX \<longleftrightarrow> n < 2 ^ 64"
  by (simp add: SIZE_MAX_def) linarith

lemma sz_add_exact [sz_simps]: "a + b \<le> SIZE_MAX \<Longrightarrow> sz_add a b = a + b"
  by (simp add: sz_add_def SIZE_MAX_less)

lemma sz_mul_exact [sz_simps]: "a * b \<le> SIZE_MAX \<Longrightarrow> sz_mul a b = a * b"
  by (simp add: sz_mul_def SIZE_MAX_less)

lemma sz_add_le [sz_simps]: "sz_add a b \<le> SIZE_MAX"
  by (simp add: sz_add_def SIZE_MAX_less)

lemma sz_mul_le [sz_simps]: "sz_mul a b \<le> SIZE_MAX"
  by (simp add: sz_mul_def SIZE_MAX_less)

lemma div_SIZE_MAX_mult: "n \<le> SIZE_MAX div e \<Longrightarrow> n * e \<le> SIZE_MAX"
  by (metis div_times_less_eq_dividend dual_order.trans mult_le_mono1)

text \<open>The narrowing of a \<^verbatim>\<open>size_t\<close> to a C \<^verbatim>\<open>int\<close> or \<^verbatim>\<open>int32_t\<close>.\<close>

definition to_int32 :: "nat \<Rightarrow> int" where
  "to_int32 n = (int n + 2 ^ 31) mod 2 ^ 32 - 2 ^ 31"

lemma to_int32_small: "n < 2 ^ 31 \<Longrightarrow> to_int32 n = int n"
  by (simp add: to_int32_def)

lemma mod_add_inj:
  assumes "i < n" "j < n" "(a + i) mod n = (a + j) mod (n::nat)"
  shows "i = j"
proof -
  have half: "x = y" if "x \<le> y" "y < n" "(a + x) mod n = (a + y) mod n" for x y
  proof -
    have "n dvd (a + y) - (a + x)" using that mod_eq_dvd_iff_nat [of "a + x" "a + y" n] by simp
    then show ?thesis using that by (auto dest: dvd_imp_le)
  qed
  show ?thesis using half [of i j] half [of j i] assms by (cases "i \<le> j") auto
qed

section \<open>Allocation\<close>

text \<open>
  The heap's answers are an allocation script: the outcome of each coming allocation in turn,
  and success once the script is used up. Every finite run of a program with any pattern of
  out-of-memory failures is a run under some script; \<open>[]\<close> is the run in which none fails.
\<close>

type_synonym heap = "bool list"

fun alloc :: "heap \<Rightarrow> bool \<times> heap" where
  "alloc [] = (True, [])"
| "alloc (b # bs) = (b, bs)"

section \<open>Loops over a list\<close>

lemma foldl_invar: "P s \<Longrightarrow> (\<And>s x. x \<in> set xs \<Longrightarrow> P s \<Longrightarrow> P (f s x)) \<Longrightarrow> P (foldl f s xs)"
  by (induction xs arbitrary: s) auto

section \<open>First-occurrence de-duplication\<close>

definition nub :: "'a list \<Rightarrow> 'a list" where
  "nub xs = rev (remdups (rev xs))"

lemma nub_Nil [simp]: "nub [] = []"
  by (simp add: nub_def)

lemma set_nub [simp]: "set (nub xs) = set xs"
  by (simp add: nub_def)

lemma distinct_nub [simp]: "distinct (nub xs)"
  by (simp add: nub_def)

lemma nub_snoc: "nub (xs @ [x]) = (if x \<in> set xs then nub xs else nub xs @ [x])"
  by (simp add: nub_def)

lemma length_nub: "length (nub xs) = card (set xs)"
  by (metis distinct_card distinct_nub set_nub)

section \<open>The enclosing-row scan\<close>

text \<open>
  A table ascending by a key, scanned from the front: remember a row whose key does not exceed
  the sought value, stop at the first row whose key does. \<^verbatim>\<open>emu_line_lookup\<close>,
  \<^verbatim>\<open>asmtest_srcmap_lookup\<close> and the version pick of the code-image recorder are this loop.
\<close>

fun scan_le :: "('r \<Rightarrow> 'k::linorder) \<Rightarrow> 'k \<Rightarrow> 'r option \<Rightarrow> 'r list \<Rightarrow> 'r option" where
  "scan_le key off hit [] = hit"
| "scan_le key off hit (r # rs) = (if key r \<le> off then scan_le key off (Some r) rs else hit)"

lemma scan_le_takeWhile:
  "scan_le key off hit rs =
     (let ps = takeWhile (\<lambda>r. key r \<le> off) rs in if ps = [] then hit else Some (last ps))"
  by (induction rs arbitrary: hit) (auto simp: Let_def)

lemma takeWhile_sorted_filter:
  "sorted (map key rs) \<Longrightarrow> takeWhile (\<lambda>r. key r \<le> off) rs = filter (\<lambda>r. key r \<le> off) rs"
proof (induction rs)
  case (Cons r rs)
  have "filter (\<lambda>x. key x \<le> off) rs = []" if "\<not> key r \<le> off"
    using that Cons.prems by (fastforce simp: filter_empty_conv)
  with Cons show ?case by simp
qed simp

lemma scan_le_sorted:
  "sorted (map key rs) \<Longrightarrow> scan_le key off None rs =
     (let ps = filter (\<lambda>r. key r \<le> off) rs in if ps = [] then None else Some (last ps))"
  by (simp add: scan_le_takeWhile takeWhile_sorted_filter)

lemma scan_le_None_iff:
  "sorted (map key rs) \<Longrightarrow> scan_le key off None rs = None \<longleftrightarrow> (\<forall>r\<in>set rs. off < key r)"
  by (auto simp: scan_le_sorted Let_def filter_empty_conv not_le)

lemma last_filter_max:
  "sorted (map key rs) \<Longrightarrow> filter P rs \<noteq> [] \<Longrightarrow> x \<in> set rs \<Longrightarrow> P x \<Longrightarrow> key x \<le> key (last (filter P rs))"
proof (induction rs)
  case (Cons r rs)
  show ?case
  proof (cases "filter P rs = []")
    case True
    with Cons.prems show ?thesis by (auto simp: filter_empty_conv split: if_splits)
  next
    case False
    then have "last (filter P rs) \<in> set rs"
      by (metis filter_is_subset last_in_set subsetD)
    with Cons False show ?thesis by auto
  qed
qed simp

lemma scan_le_Some:
  assumes "sorted (map key rs)" and "scan_le key off None rs = Some r"
  shows "r \<in> set rs \<and> key r \<le> off \<and> (\<forall>x\<in>set rs. key x \<le> off \<longrightarrow> key x \<le> key r)"
proof -
  let ?ps = "filter (\<lambda>r. key r \<le> off) rs"
  from assms have ne: "?ps \<noteq> []" and r: "r = last ?ps"
    by (auto simp: scan_le_sorted Let_def split: if_splits)
  from ne r have "r \<in> set ?ps" using last_in_set by blast
  with r ne last_filter_max [OF assms(1), of "\<lambda>r. key r \<le> off"] show ?thesis by auto
qed

section \<open>Printed numbers\<close>

text \<open>The \<^verbatim>\<open>%zu\<close>, \<^verbatim>\<open>%llu\<close>, \<^verbatim>\<open>%u\<close> and \<^verbatim>\<open>%d\<close> conversions (base 10) and \<^verbatim>\<open>%llx\<close> (base 16).\<close>

definition digit_char :: "nat \<Rightarrow> char" where
  "digit_char d = char_of (if d < 10 then 48 + d else 87 + d)"

fun fmt_base :: "nat \<Rightarrow> nat \<Rightarrow> string" where
  "fmt_base b n = (if n < b \<or> b < 2 then [digit_char n] else fmt_base b (n div b) @ [digit_char (n mod b)])"

declare fmt_base.simps [simp del]

abbreviation "fmt_dec \<equiv> fmt_base 10"
abbreviation "fmt_hex \<equiv> fmt_base 16"

definition fmt_int :: "int \<Rightarrow> string" where
  "fmt_int i = (if i < 0 then ''-'' @ fmt_dec (nat (- i)) else fmt_dec (nat i))"

text \<open>Reading digits back, most significant first.\<close>

definition char_digit :: "char \<Rightarrow> nat" where
  "char_digit c = (let v = of_char c in if v < 58 then v - 48 else v - 87)"

definition read_base :: "nat \<Rightarrow> string \<Rightarrow> nat" where
  "read_base b s = foldl (\<lambda>n c. n * b + char_digit c) 0 s"

lemma char_digit_char: "d < 16 \<Longrightarrow> char_digit (digit_char d) = d"
  by (auto simp: char_digit_def digit_char_def Let_def)

lemma read_fmt_base: "2 \<le> b \<Longrightarrow> b \<le> 16 \<Longrightarrow> read_base b (fmt_base b n) = n"
proof (induction b n rule: fmt_base.induct)
  case (1 b n)
  show ?case
  proof (cases "n < b")
    case False
    with 1 have "read_base b (fmt_base b (n div b)) = n div b" by simp
    moreover have "n mod b < 16" using 1 by (metis mod_less_divisor not_le order_less_le_trans
        zero_less_numeral le_trans not_less_eq_eq numeral_2_eq_2 le0)
    ultimately show ?thesis using False 1
      by (simp add: fmt_base.simps [of b n] read_base_def char_digit_char)
  qed (use 1 in \<open>simp add: fmt_base.simps [of b n] read_base_def char_digit_char\<close>)
qed

section \<open>qsort\<close>

text \<open>
  The C library's \<^verbatim>\<open>qsort\<close> permutes the array into an order that respects the comparison
  and promises nothing about elements that compare equal. The model takes the sorting function
  as a parameter with exactly this contract.
\<close>

definition is_qsort :: "('a \<Rightarrow> 'k::linorder) \<Rightarrow> ('a list \<Rightarrow> 'a list) \<Rightarrow> bool" where
  "is_qsort key qs \<longleftrightarrow> (\<forall>xs. mset (qs xs) = mset xs \<and> sorted (map key (qs xs)))"

lemma is_qsort_sort_key: "is_qsort key (sort_key key)"
  by (simp add: is_qsort_def)

lemma is_qsortD:
  assumes "is_qsort key qs"
  shows "mset (qs xs) = mset xs" "set (qs xs) = set xs" "length (qs xs) = length xs"
    "sorted (map key (qs xs))"
  using assms by (auto simp: is_qsort_def dest: mset_eq_setD mset_eq_length)

lemma qsort_inj_key: "is_qsort key qs \<Longrightarrow> inj key \<Longrightarrow> qs xs = sort_key key xs"
  by (metis inj_on_subset is_qsortD(1,4) subset_UNIV sort_key_inj_key_eq)

end
