(* ===== verification/Perf_Ring.thy ===== *)
theory Perf_Ring
  imports Prelude
begin

text \<open>
  The data ring of a perf event as the drains of \<^verbatim>\<open>src/src/ibs_backend.c\<close> read it: the bytes between tail and head are copied out, whatever their place in the
  ring, and walked record by record. The kernel is outside the program: of a write it is assumed that the bytes of whole records
  follow the unread ones, and that the reader's tail is left alone (\<open>kernel_put\<close>).
\<close>

section \<open>Bytes\<close>

text \<open>\<^verbatim>\<open>memcpy\<close> of a little-endian integer of \<open>n\<close> bytes.\<close>

definition ld :: "nat \<Rightarrow> u8 list \<Rightarrow> nat \<Rightarrow> nat" where
  "ld n bs p = horner_sum unat 256 (take n (drop p bs))"

definition ld_u64 :: "u8 list \<Rightarrow> nat \<Rightarrow> u64" where
  "ld_u64 bs p = of_nat (ld 8 bs p)"

definition ld_u32 :: "u8 list \<Rightarrow> nat \<Rightarrow> u32" where
  "ld_u32 bs p = of_nat (ld 4 bs p)"

primrec le :: "nat \<Rightarrow> nat \<Rightarrow> u8 list" where
  "le 0 v = []"
| "le (Suc n) v = of_nat v # le n (v div 256)"

lemma length_le [simp]: "length (le n v) = n"
  by (induction n arbitrary: v) simp_all

lemma horner_le: "v < 256 ^ n \<Longrightarrow> horner_sum unat 256 (le n v) = v"
proof (induction n arbitrary: v)
  case (Suc n)
  then have "v div 256 < 256 ^ n" by (simp add: less_mult_imp_div_less mult.commute)
  with Suc.IH show ?case by (simp add: unat_of_nat)
qed simp

lemma ld_le: "v < 256 ^ n \<Longrightarrow> length pre = p \<Longrightarrow> ld n (pre @ le n v @ rest) p = v"
  by (simp add: ld_def horner_le)

lemma ld_le_0: "v < 256 ^ n \<Longrightarrow> ld n (le n v @ rest) 0 = v"
  using ld_le [where pre = "[]" and p = 0] by simp

lemma ld_skip: "length pre \<le> p \<Longrightarrow> ld n (pre @ bs) p = ld n bs (p - length pre)"
  by (simp add: ld_def)

section \<open>The ring\<close>

record perf_ring =
  pr_data :: "u8 list"
  pr_head :: u64
  pr_tail :: u64

abbreviation "pr_size r \<equiv> length (pr_data r)"

definition ring_span :: "perf_ring \<Rightarrow> nat" where
  "ring_span r = (let span = unat (pr_head r - pr_tail r) in if span > pr_size r then pr_size r else span)"

definition ring_copy :: "perf_ring \<Rightarrow> nat \<Rightarrow> u8 list" where
  "ring_copy r span = map (\<lambda>i. pr_data r ! (unat (pr_tail r + of_nat i) mod pr_size r)) [0..<span]"

text \<open>
  The walk over the records: type, two bytes of flags, size. \<open>f\<close> is what the caller does with a record of a type.
\<close>

function perf_walk :: "(nat \<Rightarrow> u8 list \<Rightarrow> 's \<Rightarrow> 's) \<Rightarrow> u8 list \<Rightarrow> nat \<Rightarrow> 's \<Rightarrow> 's" where
  "perf_walk f scratch off s =
     (if off + 8 \<le> length scratch
      then let size = ld 2 scratch (off + 6) in
        if size = 0 \<or> off + size > length scratch then s
        else perf_walk f scratch (off + size) (f (ld 4 scratch off) (take size (drop off scratch)) s)
      else s)"
  by pat_completeness auto
termination
  by (relation "measure (\<lambda>(f, scratch, off, s). length scratch - off)") auto

declare perf_walk.simps [simp del]

definition PERF_RECORD_LOST :: nat where "PERF_RECORD_LOST = 2"
definition PERF_RECORD_THROTTLE :: nat where "PERF_RECORD_THROTTLE = 5"
definition PERF_RECORD_SAMPLE :: nat where "PERF_RECORD_SAMPLE = 9"

lemmas perf_types = PERF_RECORD_LOST_def PERF_RECORD_THROTTLE_def PERF_RECORD_SAMPLE_def

section \<open>Whole records\<close>

record perf_rec =
  rc_type :: nat
  rc_misc :: nat
  rc_body :: "u8 list"

definition rec_bytes :: "perf_rec \<Rightarrow> u8 list" where
  "rec_bytes r = le 4 (rc_type r) @ le 2 (rc_misc r) @ le 2 (8 + length (rc_body r)) @ rc_body r"

definition rec_ok :: "perf_rec \<Rightarrow> bool" where
  "rec_ok r \<longleftrightarrow> rc_type r < 2 ^ 32 \<and> 8 + length (rc_body r) < 2 ^ 16"

lemma length_rec_bytes [simp]: "length (rec_bytes r) = 8 + length (rc_body r)"
  by (simp add: rec_bytes_def)

lemma rec_header:
  assumes "rec_ok r"
  shows "ld 4 (pre @ rec_bytes r @ rest) (length pre) = rc_type r"
    and "ld 2 (pre @ rec_bytes r @ rest) (length pre + 6) = 8 + length (rc_body r)"
proof -
  have t: "rc_type r < 256 ^ 4" and s: "8 + length (rc_body r) < 256 ^ 2" using assms by (simp_all add: rec_ok_def)
  show "ld 4 (pre @ rec_bytes r @ rest) (length pre) = rc_type r"
    unfolding rec_bytes_def using ld_le [OF t, of pre] by simp
  show "ld 2 (pre @ rec_bytes r @ rest) (length pre + 6) = 8 + length (rc_body r)"
    unfolding rec_bytes_def using ld_le [OF s, of "pre @ le 4 (rc_type r) @ le 2 (rc_misc r)" "length pre + 6"] by simp
qed

lemma walk_step:
  assumes "rec_ok r"
  shows "perf_walk f (pre @ rec_bytes r @ rest) (length pre) s =
     perf_walk f ((pre @ rec_bytes r) @ rest) (length (pre @ rec_bytes r)) (f (rc_type r) (rec_bytes r) s)"
  using rec_header [OF assms, of pre rest] by (subst perf_walk.simps) (simp add: Let_def)

lemma walk_end: "perf_walk f pre (length pre) s = s"
  by (subst perf_walk.simps) simp

lemma walk_from:
  "list_all rec_ok rs \<Longrightarrow>
   perf_walk f (pre @ concat (map rec_bytes rs)) (length pre) s = foldl (\<lambda>s r. f (rc_type r) (rec_bytes r) s) s rs"
proof (induction rs arbitrary: pre s)
  case (Cons r rs)
  then show ?case using walk_step [of r f pre "concat (map rec_bytes rs)" s] Cons.IH [of "pre @ rec_bytes r"] by simp
qed (simp add: walk_end)

text \<open>A walk over the bytes of whole records meets each of them once, in order.\<close>

lemma walk_records: "list_all rec_ok rs \<Longrightarrow> perf_walk f (concat (map rec_bytes rs)) 0 s = foldl (\<lambda>s r. f (rc_type r) (rec_bytes r) s) s rs"
  using walk_from [of rs f "[]"] by simp

section \<open>The producer\<close>

text \<open>The unread bytes of the ring, whose size is a power of two.\<close>

definition ring_holds :: "perf_ring \<Rightarrow> u8 list \<Rightarrow> bool" where
  "ring_holds r bs \<longleftrightarrow> length bs \<le> pr_size r \<and> pr_size r < 2 ^ 64 \<and> pr_size r dvd 2 ^ 64 \<and> pr_head r - pr_tail r = of_nat (length bs) \<and>
     (\<forall>i<length bs. pr_data r ! (unat (pr_tail r + of_nat i) mod pr_size r) = bs ! i)"

lemma holds_span: "ring_holds r bs \<Longrightarrow> ring_span r = length bs"
  by (simp add: ring_holds_def ring_span_def Let_def unat_of_nat)

lemma holds_copy: "ring_holds r bs \<Longrightarrow> ring_copy r (ring_span r) = bs"
  by (rule nth_equalityI) (auto simp: holds_span ring_copy_def, simp add: ring_holds_def)

text \<open>
  The kernel adds the records \<open>rs\<close> to a ring whose records have all been read.
\<close>

definition kernel_put :: "(perf_ring \<Rightarrow> perf_ring) \<Rightarrow> perf_rec list \<Rightarrow> bool" where
  "kernel_put mv rs \<longleftrightarrow>
     (\<forall>r. ring_holds r [] \<longrightarrow> length (concat (map rec_bytes rs)) \<le> pr_size r \<longrightarrow>
        ring_holds (mv r) (concat (map rec_bytes rs)) \<and> pr_tail (mv r) = pr_tail r \<and> pr_size (mv r) = pr_size r)"

text \<open>Such a producer exists: it stores byte after byte, modulo a size that divides the range of the head.\<close>

definition put_bytes :: "u8 list \<Rightarrow> perf_ring \<Rightarrow> perf_ring" where
  "put_bytes bs r = r\<lparr>pr_data := foldl (\<lambda>d i. d[unat (pr_head r + of_nat i) mod pr_size r := bs ! i]) (pr_data r) [0..<length bs],
                     pr_head := pr_head r + of_nat (length bs)\<rparr>"

lemma slot_mod: "n dvd 2 ^ 64 \<Longrightarrow> unat (t + of_nat i :: u64) mod n = (unat t + i) mod n"
  by (simp add: unat_word_ariths unat_of_nat mod_mod_cancel mod_add_right_eq)

lemma slot_inj: "n dvd 2 ^ 64 \<Longrightarrow> i < n \<Longrightarrow> j < n \<Longrightarrow> unat (t + of_nat i :: u64) mod n = unat (t + of_nat j) mod n \<Longrightarrow> i = j"
  by (rule mod_add_inj) (simp_all add: slot_mod)

lemma foldl_store_length: "length (foldl (\<lambda>d i. d[g i := v i]) d is) = length d"
  by (induction "is" arbitrary: d) simp_all

lemma foldl_store:
  "m \<le> n \<Longrightarrow> inj_on g {..<n} \<Longrightarrow> g ` {..<n} \<subseteq> {..<length d} \<Longrightarrow> i < m \<Longrightarrow> foldl (\<lambda>d i. d[g i := v i]) d [0..<m] ! g i = v i"
proof (induction m)
  case (Suc m)
  have len: "g m < length (foldl (\<lambda>d i. d[g i := v i]) d [0..<m])" using Suc.prems(1,3) image_subset_iff [of g "{..<n}" "{..<length d}"] by (simp add: foldl_store_length)
  show ?case
  proof (cases "i = m")
    case False
    then have "g i \<noteq> g m" using Suc.prems by (auto dest: inj_onD)
    then show ?thesis using False Suc by simp
  qed (use len in simp)
qed simp

lemma put_bytes_holds:
  assumes "ring_holds r []" "length bs \<le> pr_size r"
  shows "ring_holds (put_bytes bs r) bs \<and> pr_tail (put_bytes bs r) = pr_tail r \<and> pr_size (put_bytes bs r) = pr_size r"
proof -
  let ?g = "\<lambda>i. unat (pr_head r + of_nat i) mod pr_size r"
  have ht: "pr_head r = pr_tail r" and lt: "pr_size r < 2 ^ 64" "pr_size r dvd 2 ^ 64" using assms(1) by (simp_all add: ring_holds_def)
  have "inj_on ?g {..<pr_size r}" by (rule inj_onI) (auto intro: slot_inj [OF lt(2)])
  moreover have "?g ` {..<pr_size r} \<subseteq> {..<pr_size r}" by (cases "pr_data r") auto
  ultimately have "foldl (\<lambda>d i. d[?g i := bs ! i]) (pr_data r) [0..<length bs] ! ?g i = bs ! i" if "i < length bs" for i
    using foldl_store [of "length bs" "pr_size r" ?g] assms(2) that by blast
  then show ?thesis using ht lt assms(2) by (simp add: ring_holds_def put_bytes_def foldl_store_length)
qed

lemma put_bytes_kernel: "kernel_put (put_bytes (concat (map rec_bytes rs))) rs"
  using put_bytes_holds unfolding kernel_put_def by blast

end
