(* ===== verification/Elf_File.thy ===== *)
theory Elf_File
  imports Perf_Ring "HOL-Library.Monad_Syntax" "HOL-Library.Sublist"
begin

text \<open>
  The ELF reader of the command-line tool, \<^verbatim>\<open>src/cli/asmspy_proc.c\<close>: the section table, the build-id and debug-link notes, the checksum of a debug file, and
  the function symbols and PLT stubs of a module. The bytes come from files of the inspected process, so none of them is trusted. A mapping is
  a byte list; a read outside it is \<open>None\<close>, and every function that reads returns \<open>None\<close> as soon as one of its reads does. Offsets and sizes are
  natural numbers below \<open>2 ^ 64\<close> whose sums and products wrap, as \<^verbatim>\<open>uint64_t\<close> and \<^verbatim>\<open>size_t\<close> do.
\<close>

section \<open>Reads of a mapping\<close>

definition rd :: "nat \<Rightarrow> u8 list \<Rightarrow> nat \<Rightarrow> nat option" where
  "rd n m p = (if p + n \<le> length m then Some (ld n m p) else None)"

text \<open>\<^verbatim>\<open>memchr\<close> for a NUL among \<open>k\<close> bytes, the C string at an offset, and \<^verbatim>\<open>memcpy\<close> of \<open>k\<close> bytes.\<close>

definition span0 :: "u8 list \<Rightarrow> nat" where
  "span0 bs = length (takeWhile (\<lambda>b. b \<noteq> 0) bs)"

definition memchr0 :: "u8 list \<Rightarrow> nat \<Rightarrow> nat \<Rightarrow> nat option option" where
  "memchr0 m p k =
     (let l = span0 (take k (drop p m)) in
      if l = k then Some None else if p + l < length m then Some (Some l) else None)"

definition to_str :: "u8 list \<Rightarrow> string" where
  "to_str bs = map (\<lambda>b. char_of (unat b)) bs"

definition cstr :: "u8 list \<Rightarrow> nat \<Rightarrow> string option" where
  "cstr m p = (let l = span0 (drop p m) in if p + l < length m then Some (to_str (take l (drop p m))) else None)"

definition rd_bytes :: "nat \<Rightarrow> u8 list \<Rightarrow> nat \<Rightarrow> u8 list option" where
  "rd_bytes n m p = (if p + n \<le> length m then Some (take n (drop p m)) else None)"

text \<open>
  The name at an offset of a string table: none when the offset is past the table or the name does not end inside it, as every user of such a table
  checks with \<^verbatim>\<open>memchr\<close> before it reads the string.
\<close>

definition name_in :: "u8 list \<Rightarrow> nat \<Rightarrow> nat \<Rightarrow> nat \<Rightarrow> string option option" where
  "name_in m tab tmax off =
     (if off \<ge> tmax then Some None
      else do {
        nul \<leftarrow> memchr0 m (sz_add tab off) (tmax - off);
        if nul = None then Some None else do { nm \<leftarrow> cstr m (sz_add tab off); Some (Some nm) } })"

text \<open>A loop over the indices of a table: the body says whether to go on. The result says whether the loop ran to its end.\<close>

primrec each :: "('i \<Rightarrow> 's \<Rightarrow> (bool \<times> 's) option) \<Rightarrow> 'i list \<Rightarrow> 's \<Rightarrow> (bool \<times> 's) option" where
  "each f [] s = Some (True, s)"
| "each f (i # is) s = do { (go, s') \<leftarrow> f i s; if go then each f is s' else Some (False, s') }"

section \<open>Headers\<close>

record ehdr =
  e_ident :: "u8 list"
  e_type :: nat
  e_phoff :: nat
  e_shoff :: nat
  e_phentsize :: nat
  e_phnum :: nat
  e_shentsize :: nat
  e_shnum :: nat
  e_shstrndx :: nat

record shdr =
  sh_name :: nat
  sh_type :: nat
  sh_addr :: nat
  sh_offset :: nat
  sh_size :: nat
  sh_link :: nat
  sh_entsize :: nat

record elf_sym =
  st_name :: nat
  st_info :: nat
  st_shndx :: nat
  st_value :: nat
  st_size :: nat

definition sizeof_Ehdr :: nat where "sizeof_Ehdr = 64"
definition sizeof_Shdr :: nat where "sizeof_Shdr = 64"
definition sizeof_Phdr :: nat where "sizeof_Phdr = 56"
definition sizeof_Sym :: nat where "sizeof_Sym = 24"
definition sizeof_Rela :: nat where "sizeof_Rela = 24"
definition sizeof_Nhdr :: nat where "sizeof_Nhdr = 12"

lemmas sizeofs = sizeof_Ehdr_def sizeof_Shdr_def sizeof_Phdr_def sizeof_Sym_def sizeof_Rela_def sizeof_Nhdr_def

definition rd_ehdr :: "u8 list \<Rightarrow> ehdr option" where
  "rd_ehdr m = do {
     ident \<leftarrow> rd_bytes 16 m 0; ty \<leftarrow> rd 2 m 16; phoff \<leftarrow> rd 8 m 32; shoff \<leftarrow> rd 8 m 40; phentsize \<leftarrow> rd 2 m 54; phnum \<leftarrow> rd 2 m 56;
     shentsize \<leftarrow> rd 2 m 58; shnum \<leftarrow> rd 2 m 60; shstrndx \<leftarrow> rd 2 m 62;
     Some \<lparr>e_ident = ident, e_type = ty, e_phoff = phoff, e_shoff = shoff, e_phentsize = phentsize, e_phnum = phnum,
       e_shentsize = shentsize, e_shnum = shnum, e_shstrndx = shstrndx\<rparr> }"

definition rd_shdr :: "u8 list \<Rightarrow> nat \<Rightarrow> shdr option" where
  "rd_shdr m p = do {
     name \<leftarrow> rd 4 m p; ty \<leftarrow> rd 4 m (sz_add p 4); ad \<leftarrow> rd 8 m (sz_add p 16); off \<leftarrow> rd 8 m (sz_add p 24); sz \<leftarrow> rd 8 m (sz_add p 32);
     link \<leftarrow> rd 4 m (sz_add p 40); entsize \<leftarrow> rd 8 m (sz_add p 56);
     Some \<lparr>sh_name = name, sh_type = ty, sh_addr = ad, sh_offset = off, sh_size = sz, sh_link = link, sh_entsize = entsize\<rparr> }"

definition rd_sym :: "u8 list \<Rightarrow> nat \<Rightarrow> elf_sym option" where
  "rd_sym m p = do {
     name \<leftarrow> rd 4 m p; info \<leftarrow> rd 1 m (sz_add p 4); shndx \<leftarrow> rd 2 m (sz_add p 6); val \<leftarrow> rd 8 m (sz_add p 8); sz \<leftarrow> rd 8 m (sz_add p 16);
     Some \<lparr>st_name = name, st_info = info, st_shndx = shndx, st_value = val, st_size = sz\<rparr> }"

definition ELFMAG :: "u8 list" where "ELFMAG = [0x7f, 0x45, 0x4c, 0x46]"

definition elf_ok :: "u8 list \<Rightarrow> bool option" where
  "elf_ok m =
     (let flen = length m in
      if flen < sizeof_Ehdr then Some False
      else do {
        eh \<leftarrow> rd_ehdr m;
        Some (if take 4 (e_ident eh) \<noteq> ELFMAG \<or> e_ident eh ! 4 \<noteq> 2 then False
              else if e_shoff eh = 0 \<or> e_shentsize eh < sizeof_Shdr then False
              else if e_shoff eh > flen \<or> e_shnum eh > (flen - e_shoff eh) div e_shentsize eh then False
              else True) })"

definition ASMSPY_SHDR :: "u8 list \<Rightarrow> ehdr \<Rightarrow> nat \<Rightarrow> shdr option" where
  "ASMSPY_SHDR m eh idx = rd_shdr m (sz_add (e_shoff eh) (sz_mul idx (e_shentsize eh)))"

text \<open>The size of a section, clamped to the mapping.\<close>

definition clamped :: "u8 list \<Rightarrow> shdr \<Rightarrow> nat" where
  "clamped m s = (if sh_size s \<le> length m - sh_offset s then sh_size s else length m - sh_offset s)"

section \<open>Sections by name\<close>

definition SHT_NOBITS :: nat where "SHT_NOBITS = 8"

definition find_section_body :: "u8 list \<Rightarrow> ehdr \<Rightarrow> nat \<Rightarrow> nat \<Rightarrow> string \<Rightarrow> nat \<Rightarrow> shdr option \<Rightarrow> (bool \<times> shdr option) option" where
  "find_section_body m eh names nmax want i acc = do {
     s \<leftarrow> ASMSPY_SHDR m eh i;
     nm \<leftarrow> name_in m names nmax (sh_name s);
     Some (if nm \<noteq> Some want then (True, None)
           else if sh_type s = SHT_NOBITS \<or> sh_offset s \<ge> length m \<or> sh_size s > length m - sh_offset s then (False, None)
           else (False, Some s)) }"

text \<open>The section's header; its bytes are the \<open>sh_size\<close> bytes at \<open>sh_offset\<close>.\<close>

definition find_section :: "u8 list \<Rightarrow> string \<Rightarrow> shdr option option" where
  "find_section m want = do {
     ok \<leftarrow> elf_ok m;
     if \<not> ok then Some None
     else do {
       eh \<leftarrow> rd_ehdr m;
       if e_shstrndx eh = 0 \<or> e_shstrndx eh \<ge> e_shnum eh then Some None
       else do {
         shstr \<leftarrow> ASMSPY_SHDR m eh (e_shstrndx eh);
         if sh_offset shstr \<ge> length m then Some None
         else map_option snd (each (find_section_body m eh (sh_offset shstr) (clamped m shstr) want) [0..<e_shnum eh] None) } } }"

section \<open>Notes\<close>

text \<open>\<^verbatim>\<open>(x + 3) & ~3\<close>.\<close>

definition up4 :: "nat \<Rightarrow> nat" where
  "up4 x = (let y = sz_add x 3 in y - y mod 4)"

definition NT_GNU_BUILD_ID :: nat where "NT_GNU_BUILD_ID = 3"

function build_id_loop :: "u8 list \<Rightarrow> nat \<Rightarrow> nat \<Rightarrow> nat \<Rightarrow> nat \<Rightarrow> u8 list option" where
  "build_id_loop m nd nlen outcap p =
     (if p + sizeof_Nhdr \<le> nlen then do {
        namesz \<leftarrow> rd 4 m (sz_add nd p); descsz \<leftarrow> rd 4 m (sz_add nd (p + 4)); ty \<leftarrow> rd 4 m (sz_add nd (p + 8));
        let rest = nlen - p - sizeof_Nhdr;
        let np = up4 namesz;
        if np > rest then Some []
        else do {
          let dp = up4 descsz;
          if dp > rest - np then Some []
          else do {
            let name = sz_add nd (p + sizeof_Nhdr);
            gnu \<leftarrow> (if ty = NT_GNU_BUILD_ID \<and> namesz = 4 then rd_bytes 4 m name else Some []);
            if ty = NT_GNU_BUILD_ID \<and> namesz = 4 \<and> gnu = [0x47, 0x4e, 0x55, 0] \<and> descsz \<noteq> 0 \<and> descsz \<le> outcap
            then rd_bytes descsz m (sz_add name np)
            else build_id_loop m nd nlen outcap (p + sizeof_Nhdr + np + dp) } } }
      else Some [])"
  by pat_completeness auto
termination
  by (relation "measure (\<lambda>(m, nd, nlen, outcap, p). nlen - p)") (auto simp: sizeofs)

declare build_id_loop.simps [simp del]

text \<open>The bytes of the build-id: none when the file has no such note.\<close>

definition elf_build_id :: "u8 list \<Rightarrow> nat \<Rightarrow> u8 list option" where
  "elf_build_id m outcap = do {
     s \<leftarrow> find_section m ''.note.gnu.build-id'';
     case s of None \<Rightarrow> Some [] | Some s \<Rightarrow> build_id_loop m (sh_offset s) (sh_size s) outcap 0 }"

text \<open>The file name and the checksum of the debug link.\<close>

definition elf_debuglink :: "u8 list \<Rightarrow> nat \<Rightarrow> (string \<times> u32) option option" where
  "elf_debuglink m namecap = do {
     s \<leftarrow> find_section m ''.gnu_debuglink'';
     case s of None \<Rightarrow> Some None
     | Some s \<Rightarrow> do {
         nul \<leftarrow> memchr0 m (sh_offset s) (sh_size s);
         case nul of None \<Rightarrow> Some None
         | Some nlen \<Rightarrow>
             if nlen = 0 \<or> nlen \<ge> namecap then Some None
             else let crcoff = (nlen + 4) - (nlen + 4) mod 4 in
               if sh_size s < 4 \<or> crcoff > sh_size s - 4 then Some None
               else do {
                 name \<leftarrow> rd_bytes nlen m (sh_offset s);
                 crc \<leftarrow> rd 4 m (sz_add (sh_offset s) crcoff);
                 Some (Some (to_str name, of_nat crc)) } } }"

section \<open>No read leaves the mapping\<close>

lemma rd_Some [simp]: "p + n \<le> length m \<Longrightarrow> rd n m p = Some (ld n m p)"
  by (simp add: rd_def)

lemma rd_bytes_Some [simp]: "p + n \<le> length m \<Longrightarrow> rd_bytes n m p = Some (take n (drop p m))"
  by (simp add: rd_bytes_def)

lemma ld_bound: "ld n bs p < 256 ^ n"
proof -
  have "horner_sum unat 256 (xs :: u8 list) < 256 ^ length xs" for xs
  proof (induction xs)
    case (Cons x xs)
    have "unat x < 256" using unsigned_less [of x] by simp
    with Cons show ?case by simp
  qed simp
  then have "ld n bs p < 256 ^ length (take n (drop p bs))" unfolding ld_def .
  also have "\<dots> \<le> 256 ^ n" by (intro power_increasing) simp_all
  finally show ?thesis .
qed

lemma span0_le: "span0 bs \<le> length bs"
  by (simp add: span0_def length_takeWhile_le)

lemma span0_take: "span0 (take k bs) < k \<Longrightarrow> span0 (take k bs) < length bs \<Longrightarrow> span0 (take k bs) = span0 bs"
  by (induction bs arbitrary: k) (auto simp: span0_def take_Cons split: nat.splits)

text \<open>A successful \<^verbatim>\<open>memchr\<close> makes the string readable.\<close>

lemma memchr0_in: "p + k \<le> length m \<Longrightarrow> memchr0 m p k \<noteq> None"
  using span0_le [of "take k (drop p m)"] by (auto simp: memchr0_def Let_def)

lemma memchr0_bound: "memchr0 m p k = Some (Some l) \<Longrightarrow> l < k \<and> p + l < length m"
  using span0_le [of "take k (drop p m)"] by (auto simp: memchr0_def Let_def split: if_splits)

lemma memchr0_cstr: "memchr0 m p k = Some (Some l) \<Longrightarrow> cstr m p = Some (to_str (take l (drop p m)))"
proof -
  assume a: "memchr0 m p k = Some (Some l)"
  then have l: "l = span0 (take k (drop p m))" "l < k" "p + l < length m"
    using memchr0_bound [OF a] by (auto simp: memchr0_def Let_def split: if_splits)
  then have "span0 (drop p m) = l" using span0_take [of k "drop p m"] by simp
  with l show ?thesis by (simp add: cstr_def)
qed

lemma rd_shdr_in: "p + sizeof_Shdr \<le> length m \<Longrightarrow> length m \<le> SIZE_MAX \<Longrightarrow> \<exists>s. rd_shdr m p = Some s"
  by (simp add: rd_shdr_def sizeofs sz_simps)

lemma rd_sym_in: "p + sizeof_Sym \<le> length m \<Longrightarrow> length m \<le> SIZE_MAX \<Longrightarrow> \<exists>s. rd_sym m p = Some s"
  by (simp add: rd_sym_def sizeofs sz_simps)

lemma rd_ehdr_in: "sizeof_Ehdr \<le> length m \<Longrightarrow> \<exists>eh. rd_ehdr m = Some eh"
  by (simp add: rd_ehdr_def sizeofs)

lemma elf_ok_total: "\<exists>b. elf_ok m = Some b"
  using rd_ehdr_in [of m] by (auto simp: elf_ok_def Let_def not_less)

lemma elf_okD:
  assumes "elf_ok m = Some True"
  obtains eh where "rd_ehdr m = Some eh" "e_shoff eh + e_shnum eh * e_shentsize eh \<le> length m" "sizeof_Shdr \<le> e_shentsize eh"
    "sizeof_Ehdr \<le> length m"
proof -
  obtain eh where "rd_ehdr m = Some eh" and l: "sizeof_Ehdr \<le> length m" and e: "sizeof_Shdr \<le> e_shentsize eh" "e_shoff eh \<le> length m"
    "e_shnum eh \<le> (length m - e_shoff eh) div e_shentsize eh"
    using assms by (auto simp: elf_ok_def Let_def bind_eq_Some_conv split: if_splits)
  moreover from e have "e_shnum eh * e_shentsize eh \<le> length m - e_shoff eh"
    by (metis div_times_less_eq_dividend le_trans mult_le_mono1)
  ultimately show ?thesis using that [of eh] e by simp
qed

text \<open>The check of the header puts every entry of the section table inside the mapping.\<close>

lemma table_in:
  assumes "e_shoff eh + e_shnum eh * e_shentsize eh \<le> length m" "sizeof_Shdr \<le> e_shentsize eh" "length m \<le> SIZE_MAX" "i < e_shnum eh"
  shows "\<exists>s. ASMSPY_SHDR m eh i = Some s"
proof -
  have "i * e_shentsize eh + e_shentsize eh \<le> e_shnum eh * e_shentsize eh"
    using mult_le_mono1 [of "Suc i" "e_shnum eh" "e_shentsize eh"] assms(4) by (simp add: add.commute)
  then have "e_shoff eh + i * e_shentsize eh + sizeof_Shdr \<le> length m" using assms(1,2) by linarith
  then show ?thesis using rd_shdr_in assms(3) by (simp add: ASMSPY_SHDR_def sz_simps)
qed

lemma clamped_in: "sh_offset s < length m \<Longrightarrow> sh_offset s + clamped m s \<le> length m"
  by (auto simp: clamped_def)

lemma name_in_total: "tab + tmax \<le> length m \<Longrightarrow> length m \<le> SIZE_MAX \<Longrightarrow> \<exists>r. name_in m tab tmax off = Some r"
proof (cases "off < tmax")
  case True
  assume "tab + tmax \<le> length m" "length m \<le> SIZE_MAX"
  then have "memchr0 m (tab + off) (tmax - off) \<noteq> None" "sz_add tab off = tab + off"
    using True memchr0_in [of "tab + off" "tmax - off" m] by (simp_all add: sz_simps)
  then show ?thesis using True memchr0_cstr by (fastforce simp: name_in_def)
qed (simp add: name_in_def)

lemma each_total:
  assumes "\<And>i s. i \<in> set is \<Longrightarrow> \<exists>r. f i s = Some r"
  shows "\<exists>r. each f is s = Some r"
  using assms
proof (induction "is" arbitrary: s)
  case (Cons i "is")
  obtain go s' where "f i s = Some (go, s')" using Cons.prems [of i s] by auto
  moreover have "each f is s' \<noteq> None" using Cons.IH [of s'] Cons.prems by fastforce
  ultimately show ?case by (cases go) auto
qed auto

lemma each_invar:
  assumes "each f is s = Some (go, s')" "P s" "\<And>i s go s'. i \<in> set is \<Longrightarrow> f i s = Some (go, s') \<Longrightarrow> P s \<Longrightarrow> P s'"
  shows "P s'"
  using assms
proof (induction "is" arbitrary: s)
  case (Cons i "is")
  from Cons.prems(1) obtain g s1 where st: "f i s = Some (g, s1)" "(if g then each f is s1 else Some (False, s1)) = Some (go, s')"
    by (auto simp: bind_eq_Some_conv split: prod.splits)
  then have "P s1" using Cons.prems(2) Cons.prems(3) [of i s] by simp
  moreover have "P s'" if "each f is s1 = Some (go, s')" by (rule Cons.IH [OF that \<open>P s1\<close>]) (use Cons.prems(3) in auto)
  ultimately show ?case using st(2) by (cases g) auto
qed simp

lemma find_section_total:
  assumes "length m \<le> SIZE_MAX"
  shows "\<exists>r. find_section m want = Some r"
proof -
  obtain b where b: "elf_ok m = Some b" using elf_ok_total by blast
  show ?thesis
  proof (cases b)
    case True
    with b obtain eh where eh: "rd_ehdr m = Some eh" "e_shoff eh + e_shnum eh * e_shentsize eh \<le> length m" "sizeof_Shdr \<le> e_shentsize eh"
      by (auto elim: elf_okD)
    note tab = table_in [OF eh(2,3) assms]
    have "\<exists>r. each (find_section_body m eh (sh_offset s) (clamped m s) want) [0..<e_shnum eh] None = Some r" if "sh_offset s < length m" for s
    proof (rule each_total)
      fix i a assume "i \<in> set [0..<e_shnum eh]"
      then obtain sh where "ASMSPY_SHDR m eh i = Some sh" using tab [of i] by auto
      then show "\<exists>r. find_section_body m eh (sh_offset s) (clamped m s) want i a = Some r"
        using name_in_total [OF clamped_in [OF that] assms, of "sh_name sh"] by (auto simp: find_section_body_def)
    qed
    then have "\<exists>r. map_option snd (each (find_section_body m eh (sh_offset s) (clamped m s) want) [0..<e_shnum eh] None) = Some r" if "sh_offset s < length m" for s
      using that by (metis option.map(2))
    then show ?thesis using True b eh(1) tab [of "e_shstrndx eh"] by (auto simp: find_section_def not_le simp del: map_option_eq_Some)
  qed (simp add: find_section_def b)
qed

lemma find_section_in:
  assumes "find_section m want = Some (Some s)"
  shows "sh_offset s < length m \<and> sh_offset s + sh_size s \<le> length m"
proof -
  let ?P = "\<lambda>r. case r of None \<Rightarrow> True | Some s \<Rightarrow> sh_offset s < length m \<and> sh_offset s + sh_size s \<le> length m"
  from assms obtain eh names nmax go where "each (find_section_body m eh names nmax want) [0..<e_shnum eh] None = Some (go, Some s)"
    by (auto simp: find_section_def bind_eq_Some_conv split: if_splits)
  then have "?P (Some s)"
    by (rule each_invar [where P = ?P]) (auto simp: find_section_body_def bind_eq_Some_conv split: if_splits)
  then show ?thesis by simp
qed

lemma up4_ge: "x < 2 ^ 32 \<Longrightarrow> x \<le> up4 x"
  by (simp add: up4_def sz_add_def Let_def)

lemma build_id_loop_total:
  assumes "nd + nlen \<le> length m" "length m \<le> SIZE_MAX"
  shows "\<exists>r. build_id_loop m nd nlen outcap p = Some r"
proof (induction "nlen - p" arbitrary: p rule: less_induct)
  case less
  show ?case
  proof (cases "p + sizeof_Nhdr \<le> nlen")
    case True
    let ?ns = "ld 4 m (nd + p)" and ?ds = "ld 4 m (nd + (p + 4))" and ?rest = "nlen - p - sizeof_Nhdr"
    have add: "sz_add nd x = nd + x" if "x \<le> nlen" for x using assms that by (simp add: sz_simps)
    have hdr: "rd 4 m (sz_add nd (p + k)) = Some (ld 4 m (nd + (p + k)))" if "k \<le> 8" for k
      using True that assms by (simp add: add sizeofs)
    note hdrs = hdr [of 0, simplified] hdr [of 4, simplified] hdr [of 8, simplified]
    have bnd: "?ns < 2 ^ 32" "?ds < 2 ^ 32" using ld_bound [of 4 m] by simp_all
    show ?thesis
    proof (cases "up4 ?ns \<le> ?rest \<and> up4 ?ds \<le> ?rest - up4 ?ns")
      case fit: True
      let ?p' = "p + sizeof_Nhdr + up4 ?ns + up4 ?ds"
      have desc: "nd + (p + sizeof_Nhdr) + up4 ?ns + ?ds \<le> length m" and name: "?ns \<le> up4 ?ns" using fit True assms up4_ge bnd by fastforce+
      have "\<exists>r. build_id_loop m nd nlen outcap ?p' = Some r" using True by (intro less) (simp add: sizeofs)
      moreover have "sz_add nd (p + sizeof_Nhdr) = nd + (p + sizeof_Nhdr)" using True by (intro add) simp
      moreover have "sz_add (nd + (p + sizeof_Nhdr)) (up4 ?ns) = nd + (p + sizeof_Nhdr) + up4 ?ns" using desc assms(2) by (intro sz_add_exact) linarith
      moreover have "nd + (p + sizeof_Nhdr) + 4 \<le> length m" if "?ns = 4" using that name desc by linarith
      ultimately show ?thesis
        using True fit desc by (subst build_id_loop.simps) (auto simp: hdrs Let_def)
    qed (use True in \<open>subst build_id_loop.simps, auto simp: hdrs Let_def\<close>)
  qed (simp add: build_id_loop.simps)
qed

lemma elf_build_id_total: "length m \<le> SIZE_MAX \<Longrightarrow> \<exists>r. elf_build_id m outcap = Some r"
proof -
  assume m: "length m \<le> SIZE_MAX"
  obtain os where os: "find_section m ''.note.gnu.build-id'' = Some os" using find_section_total [OF m] by blast
  show ?thesis
  proof (cases os)
    case (Some s)
    then have "sh_offset s + sh_size s \<le> length m" using os find_section_in by blast
    then show ?thesis using os Some build_id_loop_total m by (simp add: elf_build_id_def)
  qed (simp add: elf_build_id_def os)
qed

lemma elf_debuglink_total:
  assumes "length m \<le> SIZE_MAX"
  shows "\<exists>r. elf_debuglink m namecap = Some r"
proof -
  obtain os where os: "find_section m ''.gnu_debuglink'' = Some os" using find_section_total [OF assms] by blast
  show ?thesis
  proof (cases os)
    case (Some s)
    then have b: "sh_offset s + sh_size s \<le> length m" using os find_section_in by blast
    then obtain oz where oz: "memchr0 m (sh_offset s) (sh_size s) = Some oz" using memchr0_in by blast
    show ?thesis
    proof (cases oz)
      case (Some l)
      then have "l < sh_size s" using oz memchr0_bound by blast
      moreover have "sz_add (sh_offset s) c = sh_offset s + c" if "c \<le> sh_size s" for c using that b assms by (simp add: sz_simps)
      ultimately show ?thesis using b os \<open>os = Some s\<close> oz Some by (auto simp: elf_debuglink_def Let_def not_less)
    qed (simp add: elf_debuglink_def os Some oz)
  qed (simp add: elf_debuglink_def os)
qed

lemma build_id_loop_bound: "build_id_loop m nd nlen outcap p = Some r \<Longrightarrow> length r \<le> outcap"
proof (induction m nd nlen outcap p rule: build_id_loop.induct)
  case (1 m nd nlen outcap p)
  show ?case
    using 1(2) by (subst (asm) build_id_loop.simps) (auto simp: bind_eq_Some_conv Let_def rd_bytes_def split: if_splits dest!: 1(1))
qed

lemma elf_build_id_bound: "elf_build_id m outcap = Some r \<Longrightarrow> length r \<le> outcap"
  by (auto simp: elf_build_id_def bind_eq_Some_conv split: option.splits dest: build_id_loop_bound)

end
