(* ===== verification/Elf_Syms.thy ===== *)
theory Elf_Syms
  imports Elf_File
begin

text \<open>
  The function symbols of a process, \<^verbatim>\<open>src/cli/asmspy_proc.c\<close>: the modules of its memory map, the verified search for a module's debug file, and the table
  \<^verbatim>\<open>asmspy_symtab_load\<close> fills from the symbol sections and the PLT. Outside the program are the files a path opens (\<open>fs\<close>), the demangler
  \<^verbatim>\<open>__cxa_demangle\<close> (\<open>cxa\<close>, \<open>None\<close> when its status is an error), the conversion of a line of the memory map by \<^verbatim>\<open>sscanf\<close> and the order \<^verbatim>\<open>qsort\<close> gives equal keys.
\<close>

section \<open>Files\<close>

record finfo =
  fi_regular :: bool
  fi_uid :: nat
  fi_bytes :: "u8 list"

type_synonym files = "string \<Rightarrow> finfo option"

definition map_info :: "finfo option \<Rightarrow> u8 list option" where
  "map_info f = (case f of None \<Rightarrow> None | Some i \<Rightarrow> if \<not> fi_regular i \<or> length (fi_bytes i) < sizeof_Ehdr then None else Some (fi_bytes i))"

definition map_file :: "files \<Rightarrow> string \<Rightarrow> u8 list option" where
  "map_file fs path = map_info (fs path)"

definition asmspy_elf_class :: "finfo option \<Rightarrow> int" where
  "asmspy_elf_class exe =
     (case map_info exe of
        None \<Rightarrow> 0
      | Some m \<Rightarrow> if length m \<ge> 16 \<and> take 4 m = ELFMAG then if m ! 4 = 1 then 32 else if m ! 4 = 2 then 64 else 0 else 0)"

section \<open>The checksum\<close>

definition crc_step :: "u32 \<Rightarrow> u32" where
  "crc_step c = (if c AND 1 \<noteq> 0 then 0xedb88320 XOR drop_bit 1 c else drop_bit 1 c)"

definition crc_tab :: "u32 list" where
  "crc_tab = map (\<lambda>i. (crc_step ^^ 8) (of_nat i)) [0..<256]"

definition crc32_bytes :: "u8 list \<Rightarrow> u32" where
  "crc32_bytes m = foldl (\<lambda>crc b. crc_tab ! unat ((crc XOR ucast b) AND 0xff) XOR drop_bit 8 crc) 0xffffffff m XOR 0xffffffff"

definition crc32_file :: "files \<Rightarrow> string \<Rightarrow> u32 option" where
  "crc32_file fs path = (case map_file fs path of None \<Rightarrow> None | Some m \<Rightarrow> Some (crc32_bytes m))"

section \<open>Debug files\<close>

definition PATH_MAX :: nat where "PATH_MAX = 4096"

definition debug_dir :: "string option \<Rightarrow> string" where
  "debug_dir env = (case env of Some d \<Rightarrow> if d \<noteq> [] then d else ''/usr/lib/debug'' | None \<Rightarrow> ''/usr/lib/debug'')"

definition debug_id_matches :: "files \<Rightarrow> string \<Rightarrow> u8 list \<Rightarrow> bool option" where
  "debug_id_matches fs path ident =
     (case map_file fs path of
        None \<Rightarrow> Some False
      | Some m \<Rightarrow> do { got \<leftarrow> elf_build_id m 64; Some (length got = length ident \<and> got = ident) })"

definition hex_digit :: "nat \<Rightarrow> char" where
  "hex_digit d = ''0123456789abcdef'' ! d"

definition hex_byte :: "u8 \<Rightarrow> string" where
  "hex_byte b = [hex_digit (unat b div 16), hex_digit (unat b mod 16)]"

text \<open>\<^verbatim>\<open>strrchr\<close> for a slash: the part after the last one, and the part before it.\<close>

definition after_slash :: "string \<Rightarrow> string" where
  "after_slash s = rev (takeWhile (\<lambda>c. c \<noteq> CHR ''/'') (rev s))"

definition before_slash :: "string \<Rightarrow> string" where
  "before_slash s = rev (drop 1 (dropWhile (\<lambda>c. c \<noteq> CHR ''/'') (rev s)))"

fun debuglink_try :: "files \<Rightarrow> u32 \<Rightarrow> string list \<Rightarrow> string option" where
  "debuglink_try fs want [] = None"
| "debuglink_try fs want (cand # cands) =
     (if length cand \<ge> PATH_MAX then debuglink_try fs want cands
      else case crc32_file fs cand of
        None \<Rightarrow> debuglink_try fs want cands
      | Some got \<Rightarrow> if got \<noteq> want then debuglink_try fs want cands else Some cand)"

definition find_debug_link :: "files \<Rightarrow> string option \<Rightarrow> u8 list \<Rightarrow> string \<Rightarrow> string option option" where
  "find_debug_link fs env m modpath = do {
     link \<leftarrow> elf_debuglink m PATH_MAX;
     case link of
       None \<Rightarrow> Some None
     | Some (link, want) \<Rightarrow>
         let bn = after_slash link in
         if bn = [] \<or> bn = ''.'' \<or> bn = ''..'' then Some None
         else let dir = before_slash (take (PATH_MAX - 1) modpath) in
           Some (debuglink_try fs want [dir @ ''/'' @ bn, dir @ ''/.debug/'' @ bn, debug_dir env @ dir @ ''/'' @ bn]) }"

definition build_id_path :: "string option \<Rightarrow> u8 list \<Rightarrow> string" where
  "build_id_path env ident =
     (let hex = concat (map hex_byte ident) in debug_dir env @ ''/.build-id/'' @ take 2 hex @ ''/'' @ drop 2 hex @ ''.debug'')"

definition find_debug_file :: "files \<Rightarrow> string option \<Rightarrow> u8 list \<Rightarrow> string \<Rightarrow> string option option" where
  "find_debug_file fs env m modpath = do {
     ident \<leftarrow> elf_build_id m 64;
     let cand = build_id_path env ident;
     hit \<leftarrow> (if length ident \<ge> 2 \<and> length cand < PATH_MAX then debug_id_matches fs cand ident else Some False);
     if hit then Some (Some cand) else find_debug_link fs env m modpath }"

section \<open>The table\<close>

record asmspy_sym =
  sy_addr :: u64
  sy_size :: u64
  sy_name :: string
  sy_module :: string

text \<open>The table with its capacity and the coming answers of the allocator.\<close>

record asmspy_symtab =
  tb_v :: "asmspy_sym list"
  tb_cap :: nat
  tb_heap :: heap

definition demangle_dup :: "(string \<Rightarrow> string option) \<Rightarrow> heap \<Rightarrow> string \<Rightarrow> string option \<times> heap" where
  "demangle_dup cxa h name =
     (let len = length name; is_plt = (len > 4 \<and> drop (len - 4) name = ''@plt''); base = (if is_plt then len - 4 else len) in
      if base < 2 \<or> name ! 0 \<noteq> CHR ''_'' \<or> name ! 1 \<noteq> CHR ''Z'' then (None, h)
      else if base \<ge> 512 then (None, h)
      else case cxa (take base name) of
        None \<Rightarrow> (None, h)
      | Some dem \<Rightarrow>
          if \<not> is_plt then (Some dem, h)
          else case alloc h of (ok, h') \<Rightarrow> if ok then (Some (dem @ ''@plt''), h') else (None, h'))"

definition sym_push :: "(string \<Rightarrow> string option) \<Rightarrow> asmspy_symtab \<Rightarrow> u64 \<Rightarrow> u64 \<Rightarrow> string \<Rightarrow> string \<Rightarrow> int \<times> asmspy_symtab" where
  "sym_push cxa t addr sz name module =
     (if name = [] then (0, t)
      else case (if length (tb_v t) = tb_cap t
                 then case alloc (tb_heap t) of (ok, h) \<Rightarrow>
                   (ok, t\<lparr>tb_cap := if \<not> ok then tb_cap t else if tb_cap t \<noteq> 0 then sz_mul (tb_cap t) 2 else 512, tb_heap := h\<rparr>)
                 else (True, t)) of
        (False, t) \<Rightarrow> (-1, t)
      | (True, t) \<Rightarrow>
          (case demangle_dup cxa (tb_heap t) name of (dem, h1) \<Rightarrow>
           case (case dem of Some d \<Rightarrow> (Some d, h1) | None \<Rightarrow> (case alloc h1 of (ok, h) \<Rightarrow> (if ok then Some name else None, h))) of (nm, h2) \<Rightarrow>
           case alloc h2 of (mok, h3) \<Rightarrow>
             (case nm of
                Some n \<Rightarrow> if mok then (0, t\<lparr>tb_v := tb_v t @ [\<lparr>sy_addr = addr, sy_size = sz, sy_name = n, sy_module = module\<rparr>], tb_heap := h3\<rparr>)
                          else (-1, t\<lparr>tb_heap := h3\<rparr>)
              | None \<Rightarrow> (-1, t\<lparr>tb_heap := h3\<rparr>))))"

section \<open>Symbol sections\<close>

definition SHT_SYMTAB :: nat where "SHT_SYMTAB = 2"
definition SHT_RELA :: nat where "SHT_RELA = 4"
definition SHT_DYNSYM :: nat where "SHT_DYNSYM = 11"
definition STT_FUNC :: nat where "STT_FUNC = 2"
definition SHN_UNDEF :: nat where "SHN_UNDEF = 0"

text \<open>One entry of a symbol section: \<open>False\<close> when the table could not grow.\<close>

definition scan_entry :: "(string \<Rightarrow> string option) \<Rightarrow> u8 list \<Rightarrow> shdr \<Rightarrow> nat \<Rightarrow> nat \<Rightarrow> u64 \<Rightarrow> string \<Rightarrow> nat \<Rightarrow> asmspy_symtab \<Rightarrow> (bool \<times> asmspy_symtab) option" where
  "scan_entry cxa m s strtab strmax bias modname j t = do {
     sy \<leftarrow> rd_sym m (sz_add (sh_offset s) (sz_mul j (sh_entsize s)));
     if st_info sy mod 16 \<noteq> STT_FUNC then Some (True, t)
     else if st_shndx sy = SHN_UNDEF \<or> st_value sy = 0 then Some (True, t)
     else do {
       nm \<leftarrow> name_in m strtab strmax (st_name sy);
       case nm of
         None \<Rightarrow> Some (True, t)
       | Some nm \<Rightarrow>
           (case sym_push cxa t (bias + of_nat (st_value sy)) (of_nat (st_size sy)) nm modname of (rc, t') \<Rightarrow> Some (rc = 0, t')) } }"

text \<open>One section: the state is whether a section of the type was found, and the table.\<close>

definition scan_section :: "(string \<Rightarrow> string option) \<Rightarrow> u8 list \<Rightarrow> ehdr \<Rightarrow> nat \<Rightarrow> u64 \<Rightarrow> string \<Rightarrow> nat \<Rightarrow> int \<times> asmspy_symtab \<Rightarrow> (bool \<times> int \<times> asmspy_symtab) option" where
  "scan_section cxa m eh want bias modname i st = do {
     s \<leftarrow> ASMSPY_SHDR m eh i;
     if sh_type s \<noteq> want then Some (True, st)
     else if sh_entsize s < sizeof_Sym \<or> sh_link s \<ge> e_shnum eh then Some (True, 1, snd st)
     else do {
       strh \<leftarrow> ASMSPY_SHDR m eh (sh_link s);
       if sh_offset strh \<ge> length m then Some (True, 1, snd st)
       else if sh_offset s > length m \<or> sh_size s > length m - sh_offset s then Some (True, 1, snd st)
       else do {
         (go, t) \<leftarrow> each (scan_entry cxa m s (sh_offset strh) (clamped m strh) bias modname) [0..<sh_size s div sh_entsize s] (snd st);
         Some (if go then (True, 1, t) else (False, -1, t)) } } }"

definition scan_elf_syms :: "(string \<Rightarrow> string option) \<Rightarrow> u8 list \<Rightarrow> nat \<Rightarrow> u64 \<Rightarrow> string \<Rightarrow> asmspy_symtab \<Rightarrow> (int \<times> asmspy_symtab) option" where
  "scan_elf_syms cxa m want bias modname t = do {
     ok \<leftarrow> elf_ok m;
     if \<not> ok then Some (0, t)
     else do { eh \<leftarrow> rd_ehdr m; map_option snd (each (scan_section cxa m eh want bias modname) [0..<e_shnum eh] (0, t)) } }"

section \<open>PLT stubs\<close>

text \<open>The last \<^verbatim>\<open>.rela.plt\<close>, \<^verbatim>\<open>.plt\<close> and \<^verbatim>\<open>.plt.sec\<close> of the table.\<close>

definition plt_section :: "u8 list \<Rightarrow> ehdr \<Rightarrow> nat \<Rightarrow> nat \<Rightarrow> nat \<Rightarrow> shdr option \<times> shdr option \<times> shdr option \<Rightarrow> (bool \<times> shdr option \<times> shdr option \<times> shdr option) option" where
  "plt_section m eh shnames shmax i acc = do {
     s \<leftarrow> ASMSPY_SHDR m eh i;
     nm \<leftarrow> name_in m shnames shmax (sh_name s);
     case acc of (rela, plt, pltsec) \<Rightarrow>
       Some (True,
         if sh_type s = SHT_RELA \<and> nm = Some ''.rela.plt'' then (Some s, plt, pltsec)
         else if nm = Some ''.plt'' then (rela, Some s, pltsec)
         else if nm = Some ''.plt.sec'' then (rela, plt, Some s)
         else (rela, plt, pltsec)) }"

definition JUMP_SLOT :: nat where "JUMP_SLOT = 7"

text \<open>\<^verbatim>\<open>snprintf\<close> into the 160 bytes of \<^verbatim>\<open>pn\<close>.\<close>

definition plt_name :: "string \<Rightarrow> string" where
  "plt_name nm = take 159 (nm @ ''@plt'')"

definition plt_entry :: "(string \<Rightarrow> string option) \<Rightarrow> u8 list \<Rightarrow> shdr \<Rightarrow> shdr \<Rightarrow> shdr \<Rightarrow> (nat \<Rightarrow> u64) \<Rightarrow> u64 \<Rightarrow> string \<Rightarrow> nat \<Rightarrow> asmspy_symtab \<Rightarrow> (bool \<times> asmspy_symtab) option" where
  "plt_entry cxa m rela dsym dstr slot es modname i t = do {
     info \<leftarrow> rd 8 m (sz_add (sz_add (sh_offset rela) (sz_mul i (sh_entsize rela))) 8);
     if info mod 2 ^ 32 \<noteq> JUMP_SLOT then Some (True, t)
     else let si = info div 2 ^ 32 in
     if si = 0 \<or> si \<ge> sh_size dsym div sh_entsize dsym then Some (True, t)
     else do {
       name \<leftarrow> rd 4 m (sz_add (sh_offset dsym) (sz_mul si (sh_entsize dsym)));
       nm \<leftarrow> name_in m (sh_offset dstr) (clamped m dstr) name;
       case nm of
         None \<Rightarrow> Some (True, t)
       | Some nm \<Rightarrow>
           if nm = [] then Some (True, t)
           else case sym_push cxa t (slot i) es (plt_name nm) modname of (rc, t') \<Rightarrow> Some (rc = 0, t') } }"

text \<open>The stubs of a \<^verbatim>\<open>.rela.plt\<close> and of the section that holds them; a bare \<^verbatim>\<open>.plt\<close> starts with the resolver's slot.\<close>

definition plt_stubs :: "(string \<Rightarrow> string option) \<Rightarrow> u8 list \<Rightarrow> ehdr \<Rightarrow> u64 \<Rightarrow> string \<Rightarrow> shdr \<Rightarrow> shdr \<Rightarrow> bool \<Rightarrow> asmspy_symtab \<Rightarrow> asmspy_symtab option" where
  "plt_stubs cxa m eh bias modname rela stub bare t =
     (let flen = length m in
      if sh_entsize rela < sizeof_Rela \<or> sh_offset rela \<ge> flen \<or> sh_size rela > flen - sh_offset rela \<or> sh_link rela \<ge> e_shnum eh then Some t
      else do {
        dsym \<leftarrow> ASMSPY_SHDR m eh (sh_link rela);
        if sh_link dsym \<ge> e_shnum eh then Some t
        else do {
          dstr \<leftarrow> ASMSPY_SHDR m eh (sh_link dsym);
          if sh_entsize dsym < sizeof_Sym \<or> sh_offset dsym \<ge> flen \<or> sh_size dsym > flen - sh_offset dsym \<or> sh_offset dstr \<ge> flen then Some t
          else
            let es = (if sh_entsize stub \<noteq> 0 then of_nat (sh_entsize stub) else 16); slot0 = (if bare then 1 else 0) in
            map_option snd (each (plt_entry cxa m rela dsym dstr (\<lambda>i. bias + of_nat (sh_addr stub) + (slot0 + of_nat i) * es) es modname)
              [0..<sh_size rela div sh_entsize rela] t) } })"

definition scan_plt :: "(string \<Rightarrow> string option) \<Rightarrow> u8 list \<Rightarrow> ehdr \<Rightarrow> u64 \<Rightarrow> string \<Rightarrow> asmspy_symtab \<Rightarrow> asmspy_symtab option" where
  "scan_plt cxa m eh bias modname t =
     (if e_shstrndx eh = 0 \<or> e_shstrndx eh \<ge> e_shnum eh then Some t
      else do {
        shstr \<leftarrow> ASMSPY_SHDR m eh (e_shstrndx eh);
        if sh_offset shstr \<ge> length m then Some t
        else do {
          (go, rela, plt, pltsec) \<leftarrow> each (plt_section m eh (sh_offset shstr) (clamped m shstr)) [0..<e_shnum eh] (None, None, None);
          case (rela, if pltsec \<noteq> None then pltsec else plt) of
            (Some rela, Some stub) \<Rightarrow> plt_stubs cxa m eh bias modname rela stub (pltsec = None) t
          | _ \<Rightarrow> Some t } })"

section \<open>Modules\<close>

record module_t =
  mo_path :: string
  mo_load_start :: u64
  mo_is_exe :: bool

definition MAX_VADDR :: nat where "MAX_VADDR = 2 ^ 64 - 1"

definition PT_LOAD :: nat where "PT_LOAD = 1"

definition min_vaddr_body :: "u8 list \<Rightarrow> ehdr \<Rightarrow> nat \<Rightarrow> nat \<Rightarrow> (bool \<times> nat) option" where
  "min_vaddr_body m eh i mv =
     (let p = sz_add (e_phoff eh) (sz_mul i (e_phentsize eh)) in
      if sz_add p sizeof_Phdr > length m then Some (False, mv)
      else do {
        ty \<leftarrow> rd 4 m p;
        if ty = PT_LOAD then do {
          va \<leftarrow> rd 8 m (sz_add p 16);
          Some (True, if va < mv then va else mv) }
        else Some (True, mv) })"

definition load_bias :: "u8 list \<Rightarrow> ehdr \<Rightarrow> u64 \<Rightarrow> u64 option" where
  "load_bias m eh load_start = do {
     mv \<leftarrow> (if e_phoff eh \<noteq> 0 \<and> e_phentsize eh \<ge> sizeof_Phdr then map_option snd (each (min_vaddr_body m eh) [0..<e_phnum eh] MAX_VADDR) else Some MAX_VADDR);
     Some (load_start - of_nat (if mv = MAX_VADDR then 0 else mv)) }"

text \<open>The module's own symbols, else those of its debug file, else the dynamic ones: exactly one source is read.\<close>

definition module_symbols :: "(string \<Rightarrow> string option) \<Rightarrow> files \<Rightarrow> string option \<Rightarrow> u8 list \<Rightarrow> u64 \<Rightarrow> string \<Rightarrow> string \<Rightarrow> asmspy_symtab \<Rightarrow> (int \<times> asmspy_symtab) option" where
  "module_symbols cxa fs env m bias modname path t = do {
     (got, t) \<leftarrow> scan_elf_syms cxa m SHT_SYMTAB bias modname t;
     (got, t) \<leftarrow> (if got = 0 then do {
          dbg \<leftarrow> find_debug_file fs env m path;
          case dbg of
            None \<Rightarrow> Some (got, t)
          | Some dbg \<Rightarrow>
              (case map_file fs dbg of None \<Rightarrow> Some (got, t) | Some dm \<Rightarrow> scan_elf_syms cxa dm SHT_SYMTAB bias modname t) }
        else Some (got, t));
     if got = 0 then scan_elf_syms cxa m SHT_DYNSYM bias modname t else Some (got, t) }"

text \<open>\<open>exe\<close> is the file \<^verbatim>\<open>/proc/<pid>/exe\<close> opens.\<close>

definition load_module_syms :: "(string \<Rightarrow> string option) \<Rightarrow> files \<Rightarrow> string option \<Rightarrow> finfo option \<Rightarrow> module_t \<Rightarrow> asmspy_symtab \<Rightarrow> asmspy_symtab option" where
  "load_module_syms cxa fs env exe mo t =
     (case (if mo_is_exe mo then map_info exe else map_file fs (mo_path mo)) of
        None \<Rightarrow> Some t
      | Some m \<Rightarrow> do {
          let modname = after_slash (mo_path mo);
          ok \<leftarrow> elf_ok m;
          if \<not> ok then Some t
          else do {
            eh \<leftarrow> rd_ehdr m;
            bias \<leftarrow> load_bias m eh (mo_load_start mo);
            (got, t) \<leftarrow> module_symbols cxa fs env m bias modname (mo_path mo) t;
            if got < 0 then Some t else scan_plt cxa m eh bias modname t } })"

text \<open>
  The lines of the memory map. \<open>conv\<close> is what \<^verbatim>\<open>sscanf\<close> converts of a line, \<open>None\<close> for fewer than four fields: the start, the file offset and the
  position of the path.
\<close>

definition strip_deleted :: "string \<Rightarrow> string" where
  "strip_deleted path =
     (case find (\<lambda>k. prefix '' (deleted)'' (drop k path)) [0..<length path] of None \<Rightarrow> path | Some k \<Rightarrow> take k path)"

fun find_module :: "string \<Rightarrow> module_t list \<Rightarrow> nat" where
  "find_module path [] = 0"
| "find_module path (m # ms) = (if mo_path m = path then 0 else Suc (find_module path ms))"

fun scan_modules_loop :: "(string \<Rightarrow> (u64 \<times> u64 \<times> nat) option) \<Rightarrow> string \<Rightarrow> string list \<Rightarrow> nat \<Rightarrow> heap \<Rightarrow> module_t list \<Rightarrow> module_t list \<times> heap" where
  "scan_modules_loop conv exe_path [] cap h mods = (mods, h)"
| "scan_modules_loop conv exe_path (line # lines) cap h mods =
     (case conv line of
        None \<Rightarrow> scan_modules_loop conv exe_path lines cap h mods
      | Some (start, off, pathpos) \<Rightarrow>
          (let path = takeWhile (\<lambda>c. c \<noteq> CHR ''\<newline>'') (drop pathpos line) in
           if pathpos = 0 \<or> \<not> prefix ''/'' path then scan_modules_loop conv exe_path lines cap h mods
           else let path = strip_deleted path; k = find_module path mods in
             if off \<noteq> 0 then scan_modules_loop conv exe_path lines cap h mods
             else if k < length mods
             then scan_modules_loop conv exe_path lines cap h
                    (if start < mo_load_start (mods ! k) then mods[k := (mods ! k)\<lparr>mo_load_start := start\<rparr>] else mods)
             else let new = \<lparr>mo_path = take (PATH_MAX - 1) path, mo_load_start = start, mo_is_exe = (exe_path \<noteq> [] \<and> path = exe_path)\<rparr> in
               if length mods = cap
               then case alloc h of (ok, h') \<Rightarrow>
                 if ok then scan_modules_loop conv exe_path lines (sz_mul cap 2) h' (mods @ [new]) else (mods, h')
               else scan_modules_loop conv exe_path lines cap h (mods @ [new])))"

text \<open>\<open>None\<close> is the result \<open>-1\<close>; \<open>maps\<close> and \<open>exe_link\<close> are \<open>None\<close> when the map does not open and when the link does not read.\<close>

definition scan_modules :: "(string \<Rightarrow> (u64 \<times> u64 \<times> nat) option) \<Rightarrow> string list option \<Rightarrow> string option \<Rightarrow> heap \<Rightarrow> module_t list option \<times> heap" where
  "scan_modules conv maps exe_link h =
     (case maps of
        None \<Rightarrow> (None, h)
      | Some lines \<Rightarrow>
          (let exe_path = (case exe_link of None \<Rightarrow> [] | Some p \<Rightarrow> take (PATH_MAX - 1) p) in
           case alloc h of (ok, h) \<Rightarrow>
             if \<not> ok then (None, h)
             else case scan_modules_loop conv exe_path lines 64 h [] of (mods, h) \<Rightarrow> (Some mods, h)))"

primrec load_modules :: "(string \<Rightarrow> string option) \<Rightarrow> files \<Rightarrow> string option \<Rightarrow> finfo option \<Rightarrow> module_t list \<Rightarrow> asmspy_symtab \<Rightarrow> asmspy_symtab option" where
  "load_modules cxa fs env exe [] t = Some t"
| "load_modules cxa fs env exe (m # ms) t = do { t' \<leftarrow> load_module_syms cxa fs env exe m t; load_modules cxa fs env exe ms t' }"

definition asmspy_symtab_load ::
  "(asmspy_sym list \<Rightarrow> asmspy_sym list) \<Rightarrow> (string \<Rightarrow> string option) \<Rightarrow> files \<Rightarrow> string option \<Rightarrow> finfo option \<Rightarrow> (string \<Rightarrow> (u64 \<times> u64 \<times> nat) option) \<Rightarrow>
   string list option \<Rightarrow> string option \<Rightarrow> heap \<Rightarrow> (int \<times> asmspy_symtab) option" where
  "asmspy_symtab_load qs cxa fs env exe conv maps exe_link h =
     (case scan_modules conv maps exe_link h of
        (None, h) \<Rightarrow> Some (-1, \<lparr>tb_v = [], tb_cap = 0, tb_heap = h\<rparr>)
      | (Some mods, h) \<Rightarrow> do {
          t \<leftarrow> load_modules cxa fs env exe mods \<lparr>tb_v = [], tb_cap = 0, tb_heap = h\<rparr>;
          Some (0, if tb_v t = [] then t else t\<lparr>tb_v := qs (tb_v t)\<rparr>) })"

section \<open>The checksum is the bit-serial one\<close>

text \<open>The reference: the shift register is fed one bit at a time, the low bit of each byte first.\<close>

definition crc_bit :: "u32 \<Rightarrow> bool \<Rightarrow> u32" where
  "crc_bit c b = (if odd c \<noteq> b then 0xedb88320 XOR drop_bit 1 c else drop_bit 1 c)"

definition bits_of :: "u8 list \<Rightarrow> bool list" where
  "bits_of m = concat (map (\<lambda>b. map (bit b) [0..<8]) m)"

definition crc32_ref :: "bool list \<Rightarrow> u32" where
  "crc32_ref bs = NOT (foldl crc_bit (NOT 0) bs)"

lemma crc_step_bit: "crc_step c = crc_bit c False"
  by (simp add: crc_step_def crc_bit_def and_one_eq odd_iff_mod_2_eq_one)

lemma crc_step_xor: "crc_step (a XOR b) = crc_step a XOR crc_step b"
proof -
  have "odd (a XOR b) \<longleftrightarrow> odd a \<noteq> odd b" by (simp add: even_xor_iff)
  then show ?thesis by (simp add: crc_step_bit crc_bit_def drop_bit_xor ac_simps)
qed

lemma crc_steps_xor: "(crc_step ^^ n) (a XOR b) = (crc_step ^^ n) a XOR (crc_step ^^ n) b"
  by (induction n arbitrary: a b) (simp_all add: crc_step_xor)

lemma bit_length: "bit (b :: u8) n \<Longrightarrow> n < 8" "bit (c :: u32) n \<Longrightarrow> n < 32"
  using bit_imp_le_length [of b n] bit_imp_le_length [of c n] by simp_all

lemma crc_steps_shift: "take_bit n c = 0 \<Longrightarrow> (crc_step ^^ n) c = drop_bit n c"
proof (induction n arbitrary: c)
  case (Suc n)
  have z: "\<not> bit c k" if "k < Suc n" for k using that arg_cong [OF Suc.prems, of "\<lambda>w. bit w k"] by (simp add: bit_take_bit_iff)
  have "even c" "take_bit n (drop_bit 1 c) = 0"
    using z [of 0] by (simp add: bit_0) (rule bit_eqI, use z in \<open>auto simp: bit_simps\<close>)
  moreover have "crc_step c = drop_bit 1 c" using \<open>even c\<close> by (simp add: crc_step_bit crc_bit_def)
  ultimately show ?case using Suc.IH [of "drop_bit 1 c"] by (simp add: funpow_swap1 drop_bit_drop_bit)
qed simp

lemma crc_steps_table: "(crc_step ^^ 8) x = crc_tab ! unat (x AND 0xff) XOR drop_bit 8 x"
proof -
  have low: "x AND 0xff = take_bit 8 x" by (simp add: take_bit_eq_mask mask_eq_exp_minus_1)
  have "unat (take_bit 8 x) < 256" using take_bit_nat_less_exp [of 8 "unat x"] by (simp add: unsigned_take_bit_eq)
  then have "crc_tab ! unat (take_bit 8 x) = (crc_step ^^ 8) (take_bit 8 x)" by (simp add: crc_tab_def)
  moreover have "x = take_bit 8 x XOR push_bit 8 (drop_bit 8 x)"
    by (rule bit_word_eqI) (auto simp: bit_xor_iff bit_take_bit_iff bit_push_bit_iff bit_drop_bit_eq)
  moreover have "(crc_step ^^ 8) (push_bit 8 (drop_bit 8 x)) = drop_bit 8 x"
    by (subst crc_steps_shift) (auto intro!: bit_word_eqI simp: bit_simps, use bit_length(2) in fastforce)
  ultimately show ?thesis using crc_steps_xor [of 8 "take_bit 8 x" "push_bit 8 (drop_bit 8 x)"] by (simp add: low)
qed

lemma crc_feed: "length bs \<le> 32 \<Longrightarrow> foldl crc_bit c bs = (crc_step ^^ length bs) (c XOR horner_sum of_bool 2 bs)"
proof (induction bs arbitrary: c)
  case (Cons b bs)
  let ?h = "horner_sum of_bool 2 bs :: u32"
  define g where "g = push_bit 1 ?h"
  have g: "bit g n \<longleftrightarrow> 0 < n \<and> n < 32 \<and> bit ?h (n - 1)" for n unfolding g_def by (subst bit_push_bit_iff) auto
  have "horner_sum of_bool 2 (b # bs) = of_bool b XOR g"
    by (rule bit_word_eqI) (auto simp: g bit_xor_iff bit_of_bool_iff bit_horner_sum_bit_iff nth_Cons simp del: horner_sum_simps split: nat.splits)
  moreover have "crc_step g = ?h"
    by (rule bit_word_eqI) (use Cons.prems in \<open>auto simp: crc_step_bit crc_bit_def g bit_drop_bit_eq bit_horner_sum_bit_iff simp flip: bit_0\<close>)
  moreover have "crc_bit c b = crc_step (c XOR of_bool b)"
    by (auto simp: crc_step_bit crc_bit_def even_xor_iff drop_bit_xor drop_bit_of_bool)
  ultimately show ?case using Cons by (simp add: funpow_swap1 crc_step_xor xor.assoc [symmetric])
qed simp

lemma crc_byte: "foldl crc_bit c (map (bit (b :: u8)) [0..<8]) = crc_tab ! unat ((c XOR ucast b) AND 0xff) XOR drop_bit 8 c"
proof -
  have "horner_sum of_bool 2 (map (bit b) [0..<8]) = (ucast b :: u32)"
  proof (rule bit_word_eqI)
    show "bit (horner_sum of_bool 2 (map (bit b) [0..<8]) :: u32) n \<longleftrightarrow> bit (ucast b :: u32) n" for n
      by (cases "n < 8") (auto simp: bit_simps bit_horner_sum_bit_iff simp del: upt_Suc dest: bit_length)
  qed
  moreover have "drop_bit 8 (ucast b :: u32) = 0" by (rule bit_word_eqI) (auto simp: bit_simps dest: bit_imp_le_length)
  ultimately show ?thesis using crc_feed [of "map (bit b) [0..<8]" c] crc_steps_table [of "c XOR ucast b"] by (simp add: drop_bit_xor)
qed

text \<open>
  The checksum that decides whether a debug file belongs to a module is the CRC-32 of its definition: the routine with a table of 256 entries that works a byte at a time
  gives, on every file, what the shift register fed bit by bit gives.
\<close>

theorem crc32_table_bitserial: "crc32_bytes m = crc32_ref (bits_of m)"
proof -
  have "foldl crc_bit c (bits_of m) = foldl (\<lambda>crc b. crc_tab ! unat ((crc XOR ucast b) AND 0xff) XOR drop_bit 8 crc) c m" for c
    by (induction m arbitrary: c) (simp_all add: bits_of_def crc_byte del: upt_Suc)
  moreover have "(0xffffffff :: u32) = NOT 0" by simp
  moreover have "x XOR NOT 0 = NOT x" for x :: u32 by simp
  ultimately show ?thesis by (simp only: crc32_bytes_def crc32_ref_def)
qed

section \<open>No read of the symbol tables leaves the mapping\<close>

lemma entry_in:
  assumes "off + sz \<le> length m" "length m \<le> SIZE_MAX" "j < sz div entsize"
  shows "sz_add off (sz_mul j entsize) + entsize \<le> length m"
proof -
  have "j * entsize + entsize \<le> (sz div entsize) * entsize" using assms(3) mult_le_mono1 [of "Suc j" "sz div entsize" entsize] by (simp add: add.commute)
  also have "\<dots> \<le> sz" by (rule div_times_less_eq_dividend)
  finally show ?thesis using assms(1,2) by (simp add: sz_simps)
qed

lemma scan_entry_total:
  assumes "sh_offset s + sh_size s \<le> length m" "length m \<le> SIZE_MAX" "j < sh_size s div sh_entsize s" "sizeof_Sym \<le> sh_entsize s"
    and "strtab + strmax \<le> length m"
  shows "\<exists>r. scan_entry cxa m s strtab strmax bias modname j t = Some r"
proof -
  have "sz_add (sh_offset s) (sz_mul j (sh_entsize s)) + sizeof_Sym \<le> length m" using entry_in [OF assms(1-3)] assms(4) by simp
  then obtain sy where sy: "rd_sym m (sz_add (sh_offset s) (sz_mul j (sh_entsize s))) = Some sy" using rd_sym_in assms(2) by blast
  moreover obtain nm where "name_in m strtab strmax (st_name sy) = Some nm" using name_in_total assms(2,5) by blast
  ultimately show ?thesis by (auto simp: scan_entry_def split: option.splits prod.splits)
qed

lemma scan_section_total:
  assumes "\<And>i. i < e_shnum eh \<Longrightarrow> \<exists>s. ASMSPY_SHDR m eh i = Some s" "length m \<le> SIZE_MAX" "i < e_shnum eh"
  shows "\<exists>r. scan_section cxa m eh want bias modname i st = Some r"
proof -
  obtain s where s: "ASMSPY_SHDR m eh i = Some s" using assms(1,3) by blast
  show ?thesis
  proof (cases "sizeof_Sym \<le> sh_entsize s \<and> sh_link s < e_shnum eh")
    case True
    then obtain strh where strh: "ASMSPY_SHDR m eh (sh_link s) = Some strh" using assms(1) by blast
    show ?thesis
    proof (cases "sh_offset strh < length m \<and> sh_offset s + sh_size s \<le> length m")
      case fit: True
      have "\<exists>r. each (scan_entry cxa m s (sh_offset strh) (clamped m strh) bias modname) [0..<sh_size s div sh_entsize s] (snd st) = Some r"
        by (rule each_total, rule scan_entry_total) (use fit True clamped_in assms(2) in auto)
      then obtain r where "each (scan_entry cxa m s (sh_offset strh) (clamped m strh) bias modname) [0..<sh_size s div sh_entsize s] (snd st) = Some r" by blast
      then show ?thesis using s strh by (cases r) (auto simp: scan_section_def)
    qed (use s strh in \<open>auto simp: scan_section_def\<close>)
  qed (auto simp: scan_section_def s)
qed

lemma scan_elf_syms_total:
  assumes "length m \<le> SIZE_MAX"
  shows "\<exists>r. scan_elf_syms cxa m want bias modname t = Some r"
proof (cases "elf_ok m = Some True")
  case True
  then obtain eh where eh: "rd_ehdr m = Some eh" "e_shoff eh + e_shnum eh * e_shentsize eh \<le> length m" "sizeof_Shdr \<le> e_shentsize eh"
    by (auto elim: elf_okD)
  have "each (scan_section cxa m eh want bias modname) [0..<e_shnum eh] (0, t) \<noteq> None"
    using each_total [of "[0..<e_shnum eh]" "scan_section cxa m eh want bias modname" "(0, t)"] scan_section_total [OF table_in [OF eh(2,3) assms] assms] by simp
  then show ?thesis using True eh(1) by (auto simp: scan_elf_syms_def)
next
  case False
  then show ?thesis using elf_ok_total [of m] by (auto simp: scan_elf_syms_def)
qed

lemma plt_section_total:
  assumes "\<And>i. i < e_shnum eh \<Longrightarrow> \<exists>s. ASMSPY_SHDR m eh i = Some s" "length m \<le> SIZE_MAX" "i < e_shnum eh" "shnames + shmax \<le> length m"
  shows "\<exists>r. plt_section m eh shnames shmax i acc = Some r"
proof -
  obtain s where s: "ASMSPY_SHDR m eh i = Some s" using assms(1,3) by blast
  moreover obtain nm where "name_in m shnames shmax (sh_name s) = Some nm" using name_in_total assms(2,4) by blast
  ultimately show ?thesis by (auto simp: plt_section_def split: prod.splits)
qed

lemma plt_entry_total:
  assumes "length m \<le> SIZE_MAX" "sh_offset rela + sh_size rela \<le> length m" "i < sh_size rela div sh_entsize rela" "sizeof_Rela \<le> sh_entsize rela"
    and "sh_offset dsym + sh_size dsym \<le> length m" "sizeof_Sym \<le> sh_entsize dsym" "sh_offset dstr < length m"
  shows "\<exists>r. plt_entry cxa m rela dsym dstr slot es modname i t = Some r"
proof -
  let ?p = "sz_add (sh_offset rela) (sz_mul i (sh_entsize rela))"
  have "?p + 24 \<le> length m" using entry_in [OF assms(2,1,3)] assms(4) by (simp add: sizeofs)
  then have "\<exists>info. rd 8 m (sz_add ?p 8) = Some info" using assms(1) by (simp add: sz_simps)
  then obtain info where info: "rd 8 m (sz_add ?p 8) = Some info" by blast
  show ?thesis
  proof (cases "info div 2 ^ 32 < sh_size dsym div sh_entsize dsym")
    case True
    have "\<exists>name. rd 4 m (sz_add (sh_offset dsym) (sz_mul (info div 2 ^ 32) (sh_entsize dsym))) = Some name"
      using entry_in [OF assms(5,1) True] assms(6) by (simp add: sizeofs)
    then obtain name where name: "rd 4 m (sz_add (sh_offset dsym) (sz_mul (info div 2 ^ 32) (sh_entsize dsym))) = Some name" by blast
    moreover obtain nm where "name_in m (sh_offset dstr) (clamped m dstr) name = Some nm" using name_in_total clamped_in assms(1,7) by blast
    ultimately show ?thesis using info by (auto simp: plt_entry_def Let_def split: option.splits prod.splits)
  qed (auto simp: plt_entry_def info Let_def)
qed

lemma plt_stubs_total:
  assumes "\<And>i. i < e_shnum eh \<Longrightarrow> \<exists>s. ASMSPY_SHDR m eh i = Some s" "length m \<le> SIZE_MAX"
  shows "\<exists>r. plt_stubs cxa m eh bias modname rela stub bare t = Some r"
proof (cases "sizeof_Rela \<le> sh_entsize rela \<and> sh_offset rela + sh_size rela \<le> length m \<and> sh_link rela < e_shnum eh")
  case True
  then obtain dsym where dsym: "ASMSPY_SHDR m eh (sh_link rela) = Some dsym" using assms(1) by blast
  show ?thesis
  proof (cases "sh_link dsym < e_shnum eh")
    case link: True
    then obtain dstr where dstr: "ASMSPY_SHDR m eh (sh_link dsym) = Some dstr" using assms(1) by blast
    have "each (plt_entry cxa m rela dsym dstr slot es modname) [0..<sh_size rela div sh_entsize rela] t \<noteq> None"
      if "sizeof_Sym \<le> sh_entsize dsym" "sh_offset dsym < length m" "sh_size dsym \<le> length m - sh_offset dsym" "sh_offset dstr < length m" for slot es
      unfolding not_None_eq by (rule each_total, rule plt_entry_total) (use that assms(2) True in auto)
    then show ?thesis using True dsym link dstr by (simp add: plt_stubs_def Let_def not_less not_le ex_simps) metis
  qed (auto simp: plt_stubs_def dsym Let_def)
qed (auto simp: plt_stubs_def Let_def)

lemma scan_plt_total:
  assumes "length m \<le> SIZE_MAX" "rd_ehdr m = Some eh" "elf_ok m = Some True"
  shows "\<exists>r. scan_plt cxa m eh bias modname t = Some r"
proof -
  have tab: "\<exists>s. ASMSPY_SHDR m eh i = Some s" if "i < e_shnum eh" for i
    using assms that by (auto elim!: elf_okD intro!: table_in)
  show ?thesis
  proof (cases "e_shstrndx eh = 0 \<or> e_shstrndx eh \<ge> e_shnum eh")
    case False
    then obtain shstr where shstr: "ASMSPY_SHDR m eh (e_shstrndx eh) = Some shstr" using tab [of "e_shstrndx eh"] by auto
    show ?thesis
    proof (cases "sh_offset shstr < length m")
      case True
      have "\<exists>r. each (plt_section m eh (sh_offset shstr) (clamped m shstr)) [0..<e_shnum eh] (None, None, None) = Some r"
        by (rule each_total, rule plt_section_total) (use tab assms(1) clamped_in [OF True] in auto)
      then obtain go rela plt pltsec where secs: "each (plt_section m eh (sh_offset shstr) (clamped m shstr)) [0..<e_shnum eh] (None, None, None) = Some (go, rela, plt, pltsec)"
        by (metis surj_pair)
      show ?thesis using False shstr True secs plt_stubs_total [OF tab assms(1)] by (auto simp: scan_plt_def split: option.splits)
    qed (use False shstr in \<open>simp add: scan_plt_def\<close>)
  qed (simp add: scan_plt_def)
qed

section \<open>Modules\<close>

text \<open>Every file a path opens fits the address space.\<close>

definition files_fit :: "files \<Rightarrow> finfo option \<Rightarrow> bool" where
  "files_fit fs exe \<longleftrightarrow> (\<forall>f\<in>insert exe (range fs). \<forall>m. map_info f = Some m \<longrightarrow> length m \<le> SIZE_MAX)"

definition module_file :: "files \<Rightarrow> finfo option \<Rightarrow> module_t \<Rightarrow> u8 list option" where
  "module_file fs exe mo = (if mo_is_exe mo then map_info exe else map_file fs (mo_path mo))"

lemma files_fit_map: "files_fit fs exe \<Longrightarrow> map_file fs p = Some m \<Longrightarrow> length m \<le> SIZE_MAX"
  by (auto simp: files_fit_def map_file_def)

lemma files_fit_module: "files_fit fs exe \<Longrightarrow> module_file fs exe mo = Some m \<Longrightarrow> length m \<le> SIZE_MAX"
  by (auto simp: files_fit_def module_file_def map_file_def split: if_splits)

lemma bind_total: "\<exists>x. a = Some x \<Longrightarrow> (\<And>x. \<exists>r. f x = Some r) \<Longrightarrow> \<exists>r. Option.bind a f = Some r"
  by auto

lemma find_debug_file_total:
  assumes "files_fit fs exe" "length m \<le> SIZE_MAX"
  shows "\<exists>r. find_debug_file fs env m modpath = Some r"
proof -
  obtain ident where ident: "elf_build_id m 64 = Some ident" using elf_build_id_total assms(2) by blast
  have "\<exists>b. debug_id_matches fs p i = Some b" for p i
  proof (cases "map_file fs p")
    case (Some d)
    then obtain r where "elf_build_id d 64 = Some r" using elf_build_id_total files_fit_map [OF assms(1)] by blast
    with Some show ?thesis by (simp add: debug_id_matches_def)
  qed (auto simp: debug_id_matches_def)
  moreover have "\<exists>r. find_debug_link fs env m modpath = Some r"
    using elf_debuglink_total [OF assms(2), of PATH_MAX] by (auto simp: find_debug_link_def Let_def split: option.splits)
  ultimately show ?thesis unfolding find_debug_file_def ident Let_def bind.bind_lunit by (intro bind_total) auto
qed

text \<open>
  A debug file is used only when it is proved to be the module's: if the search returns a path, a mappable file is there, and either its build-id is the module's own, of at least
  two bytes, or the CRC-32 of its bytes, computed bit by bit, is the one the module's debug link records, and the path ends in the link's base name.
\<close>

theorem debug_file_verified:
  assumes "find_debug_file fs env m modpath = Some (Some p)"
  shows "\<exists>d. map_file fs p = Some d \<and>
    ((\<exists>ident. 2 \<le> length ident \<and> elf_build_id m 64 = Some ident \<and> elf_build_id d 64 = Some ident) \<or>
     (\<exists>link want. elf_debuglink m PATH_MAX = Some (Some (link, want)) \<and> crc32_ref (bits_of d) = want \<and> suffix (CHR ''/'' # after_slash link) p))"
proof -
  have tried: "p \<in> set cands \<and> (\<exists>d. map_file fs p = Some d \<and> crc32_ref (bits_of d) = want)" if "debuglink_try fs want cands = Some p" for want cands
    using that by (induction cands) (auto simp: crc32_file_def crc32_table_bitserial split: if_splits option.splits)
  have link: "\<exists>link want d. elf_debuglink m PATH_MAX = Some (Some (link, want)) \<and> map_file fs p = Some d \<and> crc32_ref (bits_of d) = want \<and>
      suffix (CHR ''/'' # after_slash link) p"
    if "find_debug_link fs env m modpath = Some (Some p)"
  proof -
    from that obtain link want where l: "elf_debuglink m PATH_MAX = Some (Some (link, want))"
      by (auto simp: find_debug_link_def bind_eq_Some_conv split: option.splits)
    let ?dir = "before_slash (take (PATH_MAX - 1) modpath)"
    have "debuglink_try fs want [?dir @ ''/'' @ after_slash link, ?dir @ ''/.debug/'' @ after_slash link, debug_dir env @ ?dir @ ''/'' @ after_slash link] = Some p"
      using that by (simp add: find_debug_link_def l Let_def split: if_splits)
    from tried [OF this] l show ?thesis by (auto simp: suffix_def)
  qed
  obtain ident hit where id: "elf_build_id m 64 = Some ident" "2 \<le> length ident \<and> debug_id_matches fs (build_id_path env ident) ident = Some hit \<or> \<not> hit"
      "(if hit then Some (Some (build_id_path env ident)) else find_debug_link fs env m modpath) = Some (Some p)"
    using assms unfolding find_debug_file_def by (fastforce simp: bind_eq_Some_conv Let_def split: if_splits)
  show ?thesis
  proof (cases hit)
    case True
    then show ?thesis using id by (auto simp: debug_id_matches_def bind_eq_Some_conv split: option.splits)
  next
    case False
    then show ?thesis using id(3) link by auto
  qed
qed

section \<open>The program headers\<close>

lemma min_vaddr_body_total:
  assumes "e_phoff eh + i * e_phentsize eh + sizeof_Phdr \<le> SIZE_MAX"
  shows "\<exists>r. min_vaddr_body m eh i mv = Some r"
proof -
  have "sz_mul i (e_phentsize eh) = i * e_phentsize eh" "sz_add (e_phoff eh) (i * e_phentsize eh) = e_phoff eh + i * e_phentsize eh"
    using assms by (simp_all add: sz_simps)
  moreover have "sz_add (e_phoff eh + i * e_phentsize eh) k = e_phoff eh + i * e_phentsize eh + k" if "k \<le> 56" for k
    using assms that by (simp add: sz_simps sizeofs)
  ultimately show ?thesis by (auto simp: min_vaddr_body_def Let_def sizeofs)
qed

lemma load_bias_total:
  assumes "rd_ehdr m = Some eh" "e_phoff eh \<le> 2 ^ 63"
  shows "\<exists>b. load_bias m eh start = Some b"
proof -
  have "e_phentsize eh < 2 ^ 16" "e_phnum eh < 2 ^ 16"
    using assms(1) ld_bound [of 2 m 54] ld_bound [of 2 m 56] by (auto simp: rd_ehdr_def rd_def bind_eq_Some_conv split: if_splits)
  then have "i * e_phentsize eh \<le> 2 ^ 16 * 2 ^ 16" if "i < e_phnum eh" for i using that by (intro mult_le_mono) simp_all
  then have "e_phoff eh + i * e_phentsize eh + sizeof_Phdr \<le> SIZE_MAX" if "i < e_phnum eh" for i
    using that assms(2) by (fastforce simp: sizeofs SIZE_MAX_def)
  then have "\<exists>r. each (min_vaddr_body m eh) [0..<e_phnum eh] MAX_VADDR = Some r"
    by (intro each_total min_vaddr_body_total) simp
  then show ?thesis by (auto simp: load_bias_def)
qed

lemma module_symbols_total:
  assumes "files_fit fs exe" "length m \<le> SIZE_MAX"
  shows "\<exists>r. module_symbols cxa fs env m bias modname path t = Some r"
proof -
  note scan = scan_elf_syms_total
  obtain g1 t1 where 1: "scan_elf_syms cxa m SHT_SYMTAB bias modname t = Some (g1, t1)" using scan [OF assms(2)] by (metis surj_pair)
  obtain dbg where dbg: "find_debug_file fs env m path = Some dbg" using find_debug_file_total [OF assms] by blast
  have "\<exists>r. (case dbg of None \<Rightarrow> Some (g1, t1) | Some dbg \<Rightarrow>
      (case map_file fs dbg of None \<Rightarrow> Some (g1, t1) | Some dm \<Rightarrow> scan_elf_syms cxa dm SHT_SYMTAB bias modname t1)) = Some r"
    using scan [OF files_fit_map [OF assms(1)]] by (simp split: option.splits)
  then obtain g2 t2 where 2: "(case dbg of None \<Rightarrow> Some (g1, t1) | Some dbg \<Rightarrow>
      (case map_file fs dbg of None \<Rightarrow> Some (g1, t1) | Some dm \<Rightarrow> scan_elf_syms cxa dm SHT_SYMTAB bias modname t1)) = Some (g2, t2)"
    by (metis surj_pair)
  show ?thesis
  proof (cases "g1 = 0")
    case True
    then show ?thesis using 1 dbg 2 [unfolded True] scan [OF assms(2), of cxa SHT_DYNSYM bias modname] by (simp add: module_symbols_def)
  qed (use 1 in \<open>simp add: module_symbols_def\<close>)
qed

text \<open>
  Reading the symbols of a module never touches a byte outside the mapped file, whatever the file holds: the section table, the symbol and string tables, the notes, the
  relocations, and the same of the debug file that is found for it. The one condition is that the module's program headers do not start in the upper half of the offsets.
\<close>

theorem module_reads_in_bounds:
  assumes "files_fit fs exe"
    and "\<And>m eh. module_file fs exe mo = Some m \<Longrightarrow> rd_ehdr m = Some eh \<Longrightarrow> e_phoff eh \<le> 2 ^ 63"
  shows "\<exists>t'. load_module_syms cxa fs env exe mo t = Some t'"
proof (cases "module_file fs exe mo")
  case None
  then show ?thesis by (simp add: load_module_syms_def module_file_def)
next
  case (Some m)
  then have len: "length m \<le> SIZE_MAX" using files_fit_module assms(1) by blast
  note ld = load_module_syms_def [of cxa fs env exe mo t, folded module_file_def]
  show ?thesis
  proof (cases "elf_ok m = Some True")
    case True
    then obtain eh where eh: "rd_ehdr m = Some eh" by (auto elim: elf_okD)
    obtain bias where bias: "load_bias m eh (mo_load_start mo) = Some bias" using load_bias_total assms(2) Some eh by blast
    obtain got t1 where "module_symbols cxa fs env m bias (after_slash (mo_path mo)) (mo_path mo) t = Some (got, t1)"
      using module_symbols_total [OF assms(1) len] by (metis surj_pair)
    then show ?thesis using Some True eh bias scan_plt_total [OF len eh True] by (simp add: ld)
  next
    case False
    then show ?thesis using elf_ok_total [of m] Some by (auto simp: ld)
  qed
qed

text \<open>
  Without the condition it fails. A file that passes the header check, whose program headers start in the last 56 bytes of the offsets, makes the bound check of the header loop wrap
  round, and the loop reads before the mapping.
\<close>

theorem program_headers_wrap:
  assumes "module_file fs exe mo = Some m" "elf_ok m = Some True" "rd_ehdr m = Some eh"
    and "2 ^ 64 \<le> e_phoff eh + sizeof_Phdr" "e_phoff eh < 2 ^ 64" "0 < e_phnum eh" "sizeof_Phdr \<le> e_phentsize eh" "length m < 2 ^ 63"
  shows "load_module_syms cxa fs env exe mo t = None"
proof -
  have "sizeof_Ehdr \<le> length m" using assms(2) by (auto elim: elf_okD)
  moreover have "(e_phoff eh + 56) mod 2 ^ 64 = e_phoff eh + 56 - 2 ^ 64" using assms(4,5) by (simp add: le_mod_geq sizeofs)
  ultimately have "min_vaddr_body m eh 0 MAX_VADDR = None"
    using assms(4,5,8) by (simp add: min_vaddr_body_def Let_def sz_mul_def sz_add_def sizeofs rd_def)
  then have "each (min_vaddr_body m eh) [0..<e_phnum eh] MAX_VADDR = None" using assms(6) by (simp add: upt_rec [of 0])
  then have "load_bias m eh (mo_load_start mo) = None" using assms(4,7) by (simp add: load_bias_def sizeofs)
  then show ?thesis using assms(1-3) by (simp add: load_module_syms_def module_file_def)
qed

section \<open>Examples\<close>

definition elf_header :: "nat \<Rightarrow> nat \<Rightarrow> nat \<Rightarrow> nat \<Rightarrow> nat \<Rightarrow> u8 list" where
  "elf_header phoff phnum shoff shnum shstrndx =
     ELFMAG @ [2, 1, 1, 0] @ replicate 8 0 @ le 2 3 @ le 2 62 @ le 4 1 @ le 8 0 @ le 8 phoff @ le 8 shoff @ le 4 0 @ le 2 64 @ le 2 56 @ le 2 phnum @
     le 2 64 @ le 2 shnum @ le 2 shstrndx"

definition elf_section :: "nat \<Rightarrow> nat \<Rightarrow> nat \<Rightarrow> nat \<Rightarrow> nat \<Rightarrow> nat \<Rightarrow> u8 list" where
  "elf_section name ty off sz link entsize =
     le 4 name @ le 4 ty @ le 8 0 @ le 8 0 @ le 8 off @ le 8 sz @ le 4 link @ le 4 0 @ le 8 0 @ le 8 entsize"

lemma length_elf_header [simp]: "length (elf_header phoff phnum shoff shnum shstrndx) = 64"
  by (simp add: elf_header_def ELFMAG_def)

lemma length_elf_section [simp]: "length (elf_section name ty off sz link entsize) = 64"
  by (simp add: elf_section_def)

lemmas ld_at = ld_skip ld_le_0 ld_le_0 [where rest = "[]", simplified]

lemma rd_elf_header:
  assumes "phoff < 2 ^ 64" "phnum < 2 ^ 16" "shoff < 2 ^ 64" "shnum < 2 ^ 16" "shstrndx < 2 ^ 16"
  shows "rd_ehdr (elf_header phoff phnum shoff shnum shstrndx @ rest) =
    Some \<lparr>e_ident = ELFMAG @ [2, 1, 1, 0] @ replicate 8 0, e_type = 3, e_phoff = phoff, e_shoff = shoff, e_phentsize = 56, e_phnum = phnum,
      e_shentsize = 64, e_shnum = shnum, e_shstrndx = shstrndx\<rparr>"
proof -
  let ?ident = "ELFMAG @ [2, 1, 1, 0] @ replicate 8 (0 :: u8)"
  have i: "length ?ident = 16" by (simp add: ELFMAG_def)
  define ident where "ident = ?ident"
  have h: "elf_header phoff phnum shoff shnum shstrndx = ident @ le 2 3 @ le 2 62 @ le 4 1 @ le 8 0 @ le 8 phoff @ le 8 shoff @ le 4 0 @ le 2 64 @ le 2 56 @ le 2 phnum @
     le 2 64 @ le 2 shnum @ le 2 shstrndx" by (simp add: elf_header_def ident_def)
  have l: "length ident = 16" using i by (simp add: ident_def)
  show ?thesis using assms by (simp add: rd_ehdr_def h l rd_def rd_bytes_def ld_at del: le.simps) (simp add: ident_def)
qed

lemma rd_elf_section:
  assumes "length pre = p" "p + 64 \<le> SIZE_MAX" "name < 2 ^ 32" "ty < 2 ^ 32" "off < 2 ^ 64" "sz < 2 ^ 64" "link < 2 ^ 32" "entsize < 2 ^ 64"
  shows "rd_shdr (pre @ elf_section name ty off sz link entsize @ rest) p =
    Some \<lparr>sh_name = name, sh_type = ty, sh_addr = 0, sh_offset = off, sh_size = sz, sh_link = link, sh_entsize = entsize\<rparr>"
proof -
  have "sz_add p k = p + k" if "k \<le> 64" for k using assms(2) that by (simp add: sz_simps)
  then show ?thesis using assms by (simp add: rd_shdr_def elf_section_def rd_def ld_at del: le.simps)
qed

lemma to_str_chars: "to_str (map (\<lambda>c. of_nat (of_char c)) s) = s"
proof -
  have "unat (of_nat (of_char c) :: u8) = of_char c" for c by (simp add: unat_of_nat)
  then show ?thesis by (simp add: to_str_def map_idI)
qed

lemma span0_chars: "\<forall>b\<in>set bs. b \<noteq> 0 \<Longrightarrow> span0 (bs @ 0 # rest) = length bs"
  by (simp add: span0_def)

lemma name_in_at:
  assumes "length pre = tab" "length tpre = off" "off + length s < tmax" "tab + tmax \<le> SIZE_MAX" "\<forall>c\<in>set s. of_nat (of_char c) \<noteq> (0 :: u8)"
  shows "name_in (pre @ tpre @ map (\<lambda>c. of_nat (of_char c)) s @ 0 # rest) tab tmax off = Some (Some s)"
proof -
  let ?bs = "map (\<lambda>c. of_nat (of_char c) :: u8) s" and ?k = "tmax - off"
  have z: "\<forall>b\<in>set ?bs. b \<noteq> 0" using assms(5) by auto
  have "span0 (take ?k (?bs @ 0 # rest)) = length s"
    using span0_chars [OF z, of "take (?k - length s - 1) rest"] assms(3) by (simp add: take_Cons' le_less_trans)
  moreover have "sz_add tab off = tab + off" using assms by (simp add: sz_simps)
  ultimately show ?thesis using assms span0_chars [OF z, of rest] by (simp add: name_in_def memchr0_def cstr_def to_str_chars Let_def)
qed

text \<open>A file with a build-id of two bytes.\<close>

definition id_names :: "u8 list" where
  "id_names = 0 # map (\<lambda>c. of_nat (of_char c)) ''.note.gnu.build-id'' @ [0]"

definition id_note :: "u8 list" where
  "id_note = le 4 4 @ le 4 2 @ le 4 3 @ [0x47, 0x4e, 0x55, 0, 0xab, 0xcd, 0, 0]"

definition id_elf :: "u8 list" where
  "id_elf = elf_header 0 0 64 2 1 @ elf_section 1 7 212 20 0 0 @ elf_section 0 3 192 20 0 0 @ id_names @ id_note"

definition id_files :: files where
  "id_files p = (if p = ''/bin/a'' \<or> p = ''/usr/lib/debug/.build-id/ab/cd.debug'' then Some \<lparr>fi_regular = True, fi_uid = 0, fi_bytes = id_elf\<rparr> else None)"

lemma length_id [simp]: "length id_names = 20" "length id_note = 20" "length id_elf = 232"
  by (simp_all add: id_names_def id_note_def id_elf_def)

lemma id_ehdr:
  "rd_ehdr id_elf = Some \<lparr>e_ident = ELFMAG @ [2, 1, 1, 0] @ replicate 8 0, e_type = 3, e_phoff = 0, e_shoff = 64, e_phentsize = 56, e_phnum = 0,
     e_shentsize = 64, e_shnum = 2, e_shstrndx = 1\<rparr>"
  by (simp add: id_elf_def rd_elf_header)

lemma id_ok: "elf_ok id_elf = Some True"
  by (simp add: elf_ok_def id_ehdr sizeofs ELFMAG_def)

lemma id_shdrs:
  "rd_shdr id_elf 64 = Some \<lparr>sh_name = 1, sh_type = 7, sh_addr = 0, sh_offset = 212, sh_size = 20, sh_link = 0, sh_entsize = 0\<rparr>"
  "rd_shdr id_elf 128 = Some \<lparr>sh_name = 0, sh_type = 3, sh_addr = 0, sh_offset = 192, sh_size = 20, sh_link = 0, sh_entsize = 0\<rparr>"
  using rd_elf_section [of "elf_header 0 0 64 2 1" 64 1 7 212 20 0 0]
    rd_elf_section [of "elf_header 0 0 64 2 1 @ elf_section 1 7 212 20 0 0" 128 0 3 192 20 0 0]
  by (simp_all add: id_elf_def SIZE_MAX_def)

lemma id_drop: "193 \<le> p \<Longrightarrow> drop p id_elf = drop (p - 192) (id_names @ id_note)"
  by (simp add: id_elf_def)

lemma id_name: "name_in id_elf 192 20 1 = Some (Some ''.note.gnu.build-id'')"
  using name_in_at [where pre = "elf_header 0 0 64 2 1 @ elf_section 1 7 212 20 0 0 @ elf_section 0 3 192 20 0 0" and tpre = "[0]" and
      s = "''.note.gnu.build-id''" and tab = 192 and off = 1 and tmax = 20 and rest = id_note]
  by (simp add: id_elf_def id_names_def SIZE_MAX_def)

lemma id_section: "find_section id_elf ''.note.gnu.build-id'' = Some (Some \<lparr>sh_name = 1, sh_type = 7, sh_addr = 0, sh_offset = 212, sh_size = 20, sh_link = 0, sh_entsize = 0\<rparr>)"
  using id_name by (simp add: find_section_def id_ok id_ehdr ASMSPY_SHDR_def sz_mul_def sz_add_def id_shdrs clamped_def upt_rec find_section_body_def SHT_NOBITS_def)

lemma id_note_words: "rd 4 id_elf 212 = Some 4" "rd 4 id_elf 216 = Some 2" "rd 4 id_elf 220 = Some 3"
  by (simp_all add: rd_def) (simp_all add: id_elf_def id_note_def ld_at del: le.simps)

lemma id_note_tail: "rd_bytes 4 id_elf 224 = Some [0x47, 0x4e, 0x55, 0]" "rd_bytes 2 id_elf 228 = Some [0xab, 0xcd]"
  by (simp_all add: rd_bytes_def) (simp_all add: id_elf_def id_note_def del: le.simps)

lemma id_build_id: "elf_build_id id_elf 64 = Some [0xab, 0xcd]"
  by (simp add: elf_build_id_def id_section build_id_loop.simps sz_add_def sizeofs id_note_words id_note_tail up4_def NT_GNU_BUILD_ID_def)

theorem debug_file_verified_witness:
  "find_debug_file id_files None id_elf ''/bin/a'' = Some (Some ''/usr/lib/debug/.build-id/ab/cd.debug'') \<and>
   (\<exists>d. map_file id_files ''/usr/lib/debug/.build-id/ab/cd.debug'' = Some d \<and>
    ((\<exists>ident. 2 \<le> length ident \<and> elf_build_id id_elf 64 = Some ident \<and> elf_build_id d 64 = Some ident) \<or>
     (\<exists>link want. elf_debuglink id_elf PATH_MAX = Some (Some (link, want)) \<and> crc32_ref (bits_of d) = want \<and>
       suffix (CHR ''/'' # after_slash link) ''/usr/lib/debug/.build-id/ab/cd.debug'')))"
proof -
  have p: "build_id_path None [0xab, 0xcd] = ''/usr/lib/debug/.build-id/ab/cd.debug''"
    by (simp add: build_id_path_def debug_dir_def hex_byte_def hex_digit_def)
  have f: "find_debug_file id_files None id_elf ''/bin/a'' = Some (Some ''/usr/lib/debug/.build-id/ab/cd.debug'')"
    unfolding find_debug_file_def id_build_id
    by (simp add: p PATH_MAX_def debug_id_matches_def map_file_def map_info_def id_files_def sizeofs id_build_id)
  show ?thesis using f debug_file_verified [OF f] by blast
qed

lemma id_files_fit: "files_fit id_files None"
  by (auto simp: files_fit_def id_files_def map_info_def SIZE_MAX_def split: if_splits)

theorem module_reads_in_bounds_witness:
  "(\<forall>m eh. module_file id_files None \<lparr>mo_path = ''/bin/a'', mo_load_start = 0x400000, mo_is_exe = False\<rparr> = Some m \<longrightarrow> rd_ehdr m = Some eh \<longrightarrow> e_phoff eh \<le> 2 ^ 63) \<and>
   (\<exists>t'. load_module_syms (\<lambda>_. None) id_files None None \<lparr>mo_path = ''/bin/a'', mo_load_start = 0x400000, mo_is_exe = False\<rparr> \<lparr>tb_v = [], tb_cap = 0, tb_heap = []\<rparr> = Some t')"
proof -
  let ?mo = "\<lparr>mo_path = ''/bin/a'', mo_load_start = 0x400000, mo_is_exe = False\<rparr>"
  have h: "e_phoff eh \<le> 2 ^ 63" if "module_file id_files None ?mo = Some m" "rd_ehdr m = Some eh" for m eh
    using that by (auto simp: module_file_def map_file_def map_info_def id_files_def id_ehdr split: if_splits)
  show ?thesis using h module_reads_in_bounds [OF id_files_fit, of ?mo] by blast
qed

text \<open>A header alone, with its program headers at the offset \<open>2 ^ 64 - 8\<close>.\<close>

definition wrap_exe :: finfo where
  "wrap_exe = \<lparr>fi_regular = True, fi_uid = 0, fi_bytes = elf_header (2 ^ 64 - 8) 1 64 0 0\<rparr>"

theorem program_headers_wrap_witness:
  "load_module_syms (\<lambda>_. None) (\<lambda>_. None) None (Some wrap_exe) \<lparr>mo_path = ''/bin/a'', mo_load_start = 0x400000, mo_is_exe = True\<rparr> \<lparr>tb_v = [], tb_cap = 0, tb_heap = []\<rparr> = None"
proof -
  let ?m = "elf_header (2 ^ 64 - 8) 1 64 0 0"
  have m: "module_file (\<lambda>_. None) (Some wrap_exe) \<lparr>mo_path = ''/bin/a'', mo_load_start = 0x400000, mo_is_exe = True\<rparr> = Some ?m"
    by (simp add: module_file_def map_info_def wrap_exe_def sizeofs)
  have h: "rd_ehdr ?m = Some \<lparr>e_ident = ELFMAG @ [2, 1, 1, 0] @ replicate 8 0, e_type = 3, e_phoff = 2 ^ 64 - 8, e_shoff = 64, e_phentsize = 56, e_phnum = 1,
      e_shentsize = 64, e_shnum = 0, e_shstrndx = 0\<rparr>"
    using rd_elf_header [of "2 ^ 64 - 8" 1 64 0 0 "[]"] by simp
  have ok: "elf_ok ?m = Some True" by (simp add: elf_ok_def h [simplified] sizeofs ELFMAG_def)
  show ?thesis by (rule program_headers_wrap [OF m ok h]) (simp_all add: sizeofs)
qed

end
