(* ===== verification/Sink.thy ===== *)
theory Sink
  imports Prelude
begin

text \<open>
  The append / truncate contract every trace sink of the program follows: a buffer with a fixed
  capacity takes entries in order until it is full and drops the rest, never overwriting. A
  backend feeds a sink with events; an event may carry no entry for a dimension, one, or several.
  \<open>bounded_sink\<close> is the ordered form (instruction streams), \<open>dedup_sink\<close> the
  distinct-set form (basic-block coverage). The laws are about one event; the locales carry them
  to whole runs.
\<close>

section \<open>The ordered buffer\<close>

locale bounded_sink =
  fixes push :: "'s \<Rightarrow> 'e \<Rightarrow> 's"
    and sel :: "'e \<Rightarrow> 'a list"
    and invar :: "'s \<Rightarrow> bool"
    and items :: "'s \<Rightarrow> 'a list"
    and cap :: "'s \<Rightarrow> nat"
  assumes invar_push: "invar s \<Longrightarrow> invar (push s e)"
    and cap_push: "invar s \<Longrightarrow> cap (push s e) = cap s"
    and items_push: "invar s \<Longrightarrow> items (push s e) = items s @ take (cap s - length (items s)) (sel e)"
begin

lemma invar_run: "invar s \<Longrightarrow> invar (foldl push s es)"
  by (induction es arbitrary: s) (auto simp: invar_push)

lemma cap_run: "invar s \<Longrightarrow> cap (foldl push s es) = cap s"
  by (induction es arbitrary: s) (auto simp: invar_push cap_push)

lemma items_run:
  "invar s \<Longrightarrow> items (foldl push s es) = items s @ take (cap s - length (items s)) (concat (map sel es))"
proof (induction es rule: rev_induct)
  case (snoc e es)
  then show ?case
    by (simp add: items_push invar_run cap_run min_def)
qed simp

lemma length_run:
  "invar s \<Longrightarrow> length (items s) \<le> cap s \<Longrightarrow> length (items (foldl push s es)) \<le> cap s"
  by (simp add: items_run)

end

section \<open>The distinct set\<close>

text \<open>Adding to a full set loses the entry; adding a member changes nothing.\<close>

definition add_distinct :: "nat \<Rightarrow> 'a list \<Rightarrow> 'a \<Rightarrow> 'a list" where
  "add_distinct cap xs x =
     (if x \<in> set xs then xs else if length xs < cap then xs @ [x] else xs)"

lemma take_nub_snoc: "add_distinct cap (take cap (nub xs)) x = take cap (nub (xs @ [x]))"
proof (cases "length (nub xs) < cap")
  case False
  then have "length (take cap (nub xs)) = cap" by simp
  with False show ?thesis by (auto simp: add_distinct_def nub_snoc)
qed (auto simp: add_distinct_def nub_snoc)

lemma foldl_add_distinct: "foldl (add_distinct cap) (take cap (nub xs)) ys = take cap (nub (xs @ ys))"
  by (induction ys arbitrary: xs) (simp_all add: take_nub_snoc)

locale dedup_sink =
  fixes push :: "'s \<Rightarrow> 'e \<Rightarrow> 's"
    and sel :: "'e \<Rightarrow> 'a list"
    and invar :: "'s \<Rightarrow> bool"
    and items :: "'s \<Rightarrow> 'a list"
    and cap :: "'s \<Rightarrow> nat"
  assumes invar_push: "invar s \<Longrightarrow> invar (push s e)"
    and cap_push: "invar s \<Longrightarrow> cap (push s e) = cap s"
    and items_push: "invar s \<Longrightarrow> items (push s e) = foldl (add_distinct (cap s)) (items s) (sel e)"
begin

lemma invar_run: "invar s \<Longrightarrow> invar (foldl push s es)"
  by (induction es arbitrary: s) (auto simp: invar_push)

lemma cap_run: "invar s \<Longrightarrow> cap (foldl push s es) = cap s"
  by (induction es arbitrary: s) (auto simp: invar_push cap_push)

lemma items_run:
  "invar s \<Longrightarrow> items s = take (cap s) (nub xs) \<Longrightarrow>
   items (foldl push s es) = take (cap s) (nub (xs @ concat (map sel es)))"
  by (induction es rule: rev_induct)
    (simp_all add: items_push invar_run cap_run foldl_add_distinct)

lemma distinct_run:
  assumes "invar s" "items s = []"
  shows "distinct (items (foldl push s es))" "set (items (foldl push s es)) \<subseteq> set (concat (map sel es))"
  using items_run [of s "[]" es] assms set_take_subset [of "cap s" "nub (concat (map sel es))"]
  by auto

end

end
