(* ===== verification/Trace.thy ===== *)
theory Trace
  imports Sink
begin

text \<open>
  The engine-neutral execution-trace sink of \<^verbatim>\<open>src/src/trace.c\<close> and its record
  \<^verbatim>\<open>asmtest_trace_t\<close> (\<^verbatim>\<open>src/include/asmtest_trace.h\<close>): the two fill points, the opaque-handle
  accessors, the coverage predicates and the reports. A caller-owned buffer is \<open>None\<close> for
  \<^verbatim>\<open>NULL\<close> or the entries stored so far, whose number is the C field \<^verbatim>\<open>insns_len\<close> or
  \<^verbatim>\<open>blocks_len\<close>; the slots above it are never read. A trace pointer that may be \<^verbatim>\<open>NULL\<close> is an
  option. Text written to a \<^verbatim>\<open>FILE\<close> is the string it appends.
\<close>

section \<open>The record\<close>

record asmtest_trace =
  t_insns :: "u64 list option"
  t_insns_cap :: nat
  t_insns_total :: u64
  t_blocks :: "u64 list option"
  t_blocks_cap :: nat
  t_blocks_total :: u64
  t_truncated :: bool

definition buf_of :: "'a list option \<Rightarrow> 'a list" where
  "buf_of b = (case b of None \<Rightarrow> [] | Some xs \<Rightarrow> xs)"

lemma buf_of_simps [simp]: "buf_of None = []" "buf_of (Some xs) = xs"
  by (simp_all add: buf_of_def)

abbreviation "t_insns_len t \<equiv> length (buf_of (t_insns t))"
abbreviation "t_blocks_len t \<equiv> length (buf_of (t_blocks t))"

section \<open>Fill points\<close>

definition append_insn :: "asmtest_trace \<Rightarrow> u64 \<Rightarrow> asmtest_trace" where
  "append_insn t off =
     (let t1 = (case t_insns t of
                  None \<Rightarrow> t
                | Some xs \<Rightarrow> if length xs < t_insns_cap t then t\<lparr>t_insns := Some (xs @ [off])\<rparr>
                             else t\<lparr>t_truncated := True\<rparr>)
      in t1\<lparr>t_insns_total := t_insns_total t1 + 1\<rparr>)"

definition trace_append_insn :: "asmtest_trace option \<Rightarrow> u64 \<Rightarrow> asmtest_trace option" where
  "trace_append_insn t off = map_option (\<lambda>t. append_insn t off) t"

definition append_block :: "asmtest_trace \<Rightarrow> u64 \<Rightarrow> asmtest_trace" where
  "append_block t off =
     (let t1 = t\<lparr>t_blocks_total := t_blocks_total t + 1\<rparr>
      in case t_blocks t1 of
           None \<Rightarrow> t1
         | Some bs \<Rightarrow> if off \<in> set bs then t1
                      else if length bs < t_blocks_cap t1 then t1\<lparr>t_blocks := Some (bs @ [off])\<rparr>
                      else t1\<lparr>t_truncated := True\<rparr>)"

definition trace_append_block :: "asmtest_trace option \<Rightarrow> u64 \<Rightarrow> asmtest_trace option" where
  "trace_append_block t off = map_option (\<lambda>t. append_block t off) t"

section \<open>Allocation and accessors\<close>

definition zero_trace :: asmtest_trace where
  "zero_trace = \<lparr>t_insns = None, t_insns_cap = 0, t_insns_total = 0,
                 t_blocks = None, t_blocks_cap = 0, t_blocks_total = 0, t_truncated = False\<rparr>"

definition new_insns :: "heap \<Rightarrow> nat \<Rightarrow> asmtest_trace \<Rightarrow> asmtest_trace \<times> heap" where
  "new_insns h cap t =
     (if cap = 0 then (t, h)
      else case alloc h of (ok, h') \<Rightarrow>
        (if ok then t\<lparr>t_insns := Some [], t_insns_cap := cap\<rparr> else t, h'))"

definition new_blocks :: "heap \<Rightarrow> nat \<Rightarrow> asmtest_trace \<Rightarrow> asmtest_trace \<times> heap" where
  "new_blocks h cap t =
     (if cap = 0 then (t, h)
      else case alloc h of (ok, h') \<Rightarrow>
        (if ok then t\<lparr>t_blocks := Some [], t_blocks_cap := cap\<rparr> else t, h'))"

definition asmtest_trace_new :: "heap \<Rightarrow> nat \<Rightarrow> nat \<Rightarrow> asmtest_trace option \<times> heap" where
  "asmtest_trace_new h insns_cap blocks_cap =
     (case alloc h of (ok, h0) \<Rightarrow>
        if \<not> ok then (None, h0)
        else case new_insns h0 insns_cap zero_trace of (t1, h1) \<Rightarrow>
          case new_blocks h1 blocks_cap t1 of (t2, h2) \<Rightarrow> (Some t2, h2))"

definition asmtest_emu_trace_new :: "heap \<Rightarrow> nat \<Rightarrow> nat \<Rightarrow> asmtest_trace option \<times> heap" where
  "asmtest_emu_trace_new h insns_cap blocks_cap = asmtest_trace_new h insns_cap blocks_cap"

definition asmtest_emu_trace_insns_total :: "asmtest_trace \<Rightarrow> u64" where
  "asmtest_emu_trace_insns_total t = t_insns_total t"

definition asmtest_emu_trace_blocks_len :: "asmtest_trace \<Rightarrow> nat" where
  "asmtest_emu_trace_blocks_len t = t_blocks_len t"

definition asmtest_emu_trace_insns_len :: "asmtest_trace \<Rightarrow> nat" where
  "asmtest_emu_trace_insns_len t = t_insns_len t"

definition asmtest_emu_trace_blocks_total :: "asmtest_trace \<Rightarrow> u64" where
  "asmtest_emu_trace_blocks_total t = t_blocks_total t"

definition asmtest_emu_trace_truncated :: "asmtest_trace \<Rightarrow> int" where
  "asmtest_emu_trace_truncated t = (if t_truncated t then 1 else 0)"

definition asmtest_emu_trace_block_at :: "asmtest_trace \<Rightarrow> nat \<Rightarrow> u64" where
  "asmtest_emu_trace_block_at t i = (if i < t_blocks_len t then buf_of (t_blocks t) ! i else 0)"

definition asmtest_emu_trace_insn_at :: "asmtest_trace \<Rightarrow> nat \<Rightarrow> u64" where
  "asmtest_emu_trace_insn_at t i = (if i < t_insns_len t then buf_of (t_insns t) ! i else 0)"

definition asmtest_emu_trace_covered :: "asmtest_trace \<Rightarrow> u64 \<Rightarrow> int" where
  "asmtest_emu_trace_covered t off = (if off \<in> set (buf_of (t_blocks t)) then 1 else 0)"

definition asmtest_trace_covered :: "asmtest_trace option \<Rightarrow> u64 \<Rightarrow> int" where
  "asmtest_trace_covered t off =
     (case t of None \<Rightarrow> 0
      | Some t \<Rightarrow> (case t_blocks t of None \<Rightarrow> 0 | Some bs \<Rightarrow> if off \<in> set bs then 1 else 0))"

definition emu_trace_covered :: "asmtest_trace option \<Rightarrow> u64 \<Rightarrow> bool" where
  "emu_trace_covered t off \<longleftrightarrow> asmtest_trace_covered t off \<noteq> 0"

section \<open>Reports\<close>

text \<open>
  \<^verbatim>\<open>sorted_blocks\<close> returns \<open>[]\<close> where the C function returns \<^verbatim>\<open>NULL\<close> with a count of 0
  (no trace, no buffer, no entries, no memory). Block offsets are totally ordered by
  \<^verbatim>\<open>cmp_u64\<close>, so \<^verbatim>\<open>qsort\<close> has one result.
\<close>

abbreviation nl :: string where
  "nl \<equiv> [CHR 0x0A]"

definition cmp_u64 :: "u64 \<Rightarrow> u64 \<Rightarrow> int" where
  "cmp_u64 x y = (if x > y then 1 else 0) - (if x < y then 1 else 0)"

definition sorted_blocks :: "heap \<Rightarrow> asmtest_trace option \<Rightarrow> u64 list \<times> heap" where
  "sorted_blocks h t =
     (let bs = (case t of None \<Rightarrow> [] | Some t \<Rightarrow> buf_of (t_blocks t)) in
      if bs = [] then ([], h)
      else case alloc h of (ok, h') \<Rightarrow> (if ok then sort bs else [], h'))"

definition hex_list :: "u64 list \<Rightarrow> string" where
  "hex_list xs = concat (map (\<lambda>x. '' 0x'' @ fmt_hex (unat x)) xs)"

definition emu_trace_report :: "heap \<Rightarrow> asmtest_trace option \<Rightarrow> string option \<Rightarrow> string option \<times> heap" where
  "emu_trace_report h t out =
     (case (t, out) of
        (Some t, Some o0) \<Rightarrow>
          (let o1 = o0 @ ''coverage: '' @ fmt_dec (t_blocks_len t) @ '' distinct blocks, '' @
                    fmt_dec (unat (t_blocks_total t)) @ '' block entries, '' @
                    fmt_dec (unat (t_insns_total t)) @ '' instructions'' @
                    (if t_truncated t then '' (truncated)'' else []) @ nl
           in case sorted_blocks h (Some t) of (s, h') \<Rightarrow>
                (Some (if s = [] then o1 else o1 @ ''  blocks:'' @ hex_list s @ nl), h'))
      | _ \<Rightarrow> (out, h))"

definition asmtest_trace_report :: "heap \<Rightarrow> asmtest_trace option \<Rightarrow> string option \<Rightarrow> string option \<times> heap" where
  "asmtest_trace_report h t out = emu_trace_report h t out"

definition emu_coverage_uncovered ::
  "heap \<Rightarrow> asmtest_trace option \<Rightarrow> asmtest_trace option \<Rightarrow> string option \<Rightarrow> nat \<times> string option \<times> heap" where
  "emu_coverage_uncovered h covered universe out =
     (case universe of None \<Rightarrow> (0, out, h)
      | Some u \<Rightarrow> (case t_blocks u of None \<Rightarrow> (0, out, h)
        | Some ub \<Rightarrow> (case alloc h of (ok, h') \<Rightarrow>
            if \<not> ok then (0, out, h')
            else let miss = sort (filter (\<lambda>b. \<not> emu_trace_covered covered b) ub) in
              (length miss,
               map_option (\<lambda>o0. o0 @ ''coverage: '' @ fmt_dec (length ub - length miss) @ ''/'' @
                    fmt_dec (length ub) @ '' blocks covered'' @ nl @
                    (if miss = [] then [] else ''  uncovered:'' @ hex_list miss @ nl)) out, h'))))"

definition emu_trace_lcov ::
  "heap \<Rightarrow> asmtest_trace option \<Rightarrow> string option \<Rightarrow> string option \<Rightarrow> string option \<times> heap" where
  "emu_trace_lcov h t name out =
     (case (t, out) of
        (Some t, Some o0) \<Rightarrow>
          (case sorted_blocks h (Some t) of (s, h') \<Rightarrow>
             (Some (o0 @ ''TN:'' @ nl @
                ''SF:'' @ (case name of None \<Rightarrow> ''routine'' | Some n \<Rightarrow> n) @ nl @
                concat (map (\<lambda>x. ''DA:'' @ fmt_dec (unat x) @ '',1'' @ nl) s) @
                ''LF:'' @ fmt_dec (length s) @ nl @ ''LH:'' @ fmt_dec (length s) @ nl @
                ''end_of_record'' @ nl), h'))
      | _ \<Rightarrow> (out, h))"

section \<open>The sink contracts\<close>

text \<open>What a backend does to a trace: one instruction, or one block entry, at a time.\<close>

datatype trace_event = Insn u64 | Block u64

fun trace_step :: "asmtest_trace \<Rightarrow> trace_event \<Rightarrow> asmtest_trace" where
  "trace_step t (Insn off) = append_insn t off"
| "trace_step t (Block off) = append_block t off"

fun insn_off :: "trace_event \<Rightarrow> u64 list" where
  "insn_off (Insn off) = [off]"
| "insn_off (Block off) = []"

fun block_off :: "trace_event \<Rightarrow> u64 list" where
  "block_off (Insn off) = []"
| "block_off (Block off) = [off]"

definition insn_offs :: "trace_event list \<Rightarrow> u64 list" where
  "insn_offs es = concat (map insn_off es)"

definition block_offs :: "trace_event list \<Rightarrow> u64 list" where
  "block_offs es = concat (map block_off es)"

definition trace_run :: "asmtest_trace \<Rightarrow> trace_event list \<Rightarrow> asmtest_trace" where
  "trace_run t es = foldl trace_step t es"

lemma trace_step_fields [sink_laws]:
  "t_insns_cap (trace_step t e) = t_insns_cap t"
  "t_blocks_cap (trace_step t e) = t_blocks_cap t"
  "t_insns_total (trace_step t e) = t_insns_total t + of_nat (length (insn_off e))"
  "t_blocks_total (trace_step t e) = t_blocks_total t + of_nat (length (block_off e))"
  by (cases e; simp add: append_insn_def append_block_def Let_def split: option.split)+

lemma trace_step_insns [sink_laws]:
  "t_insns (trace_step t e) =
     map_option (\<lambda>xs. xs @ take (t_insns_cap t - length xs) (insn_off e)) (t_insns t)"
  by (cases e) (auto simp: append_insn_def append_block_def Let_def option.map_ident split: option.split)

lemma trace_step_blocks [sink_laws]:
  "t_blocks (trace_step t e) =
     map_option (\<lambda>bs. foldl (add_distinct (t_blocks_cap t)) bs (block_off e)) (t_blocks t)"
  by (cases e) (auto simp: append_insn_def append_block_def add_distinct_def Let_def option.map_ident
      split: option.split)

interpretation tin: bounded_sink trace_step insn_off "\<lambda>t. t_insns t \<noteq> None"
    "\<lambda>t. buf_of (t_insns t)" t_insns_cap
  by unfold_locales (auto simp: sink_laws)

interpretation tbl: dedup_sink trace_step block_off "\<lambda>t. t_blocks t \<noteq> None"
    "\<lambda>t. buf_of (t_blocks t)" t_blocks_cap
  by unfold_locales (auto simp: sink_laws)

lemma run_totals:
  "t_insns_total (trace_run t es) = t_insns_total t + of_nat (length (insn_offs es))"
  "t_blocks_total (trace_run t es) = t_blocks_total t + of_nat (length (block_offs es))"
  by (induction es arbitrary: t)
    (simp_all add: trace_run_def insn_offs_def block_offs_def sink_laws algebra_simps)

text \<open>One event loses an entry exactly when the buffer it is for is full.\<close>

fun event_lost :: "asmtest_trace \<Rightarrow> trace_event \<Rightarrow> bool" where
  "event_lost t (Insn off) \<longleftrightarrow> t_insns t \<noteq> None \<and> t_insns_cap t \<le> t_insns_len t"
| "event_lost t (Block off) \<longleftrightarrow>
     t_blocks t \<noteq> None \<and> off \<notin> set (buf_of (t_blocks t)) \<and> t_blocks_cap t \<le> t_blocks_len t"

lemma trace_step_truncated: "t_truncated (trace_step t e) \<longleftrightarrow> t_truncated t \<or> event_lost t e"
  by (cases e) (auto simp: append_insn_def append_block_def Let_def split: option.split)

text \<open>A new trace: both buffers empty.\<close>

definition fresh_trace :: "nat \<Rightarrow> nat \<Rightarrow> asmtest_trace" where
  "fresh_trace ic bc = zero_trace\<lparr>t_insns := Some [], t_insns_cap := ic,
                                  t_blocks := Some [], t_blocks_cap := bc\<rparr>"

lemma trace_new_fresh:
  "0 < ic \<Longrightarrow> 0 < bc \<Longrightarrow> asmtest_trace_new [] ic bc = (Some (fresh_trace ic bc), [])"
  by (simp add: asmtest_trace_new_def new_insns_def new_blocks_def fresh_trace_def)

lemma fresh_run_insns: "buf_of (t_insns (trace_run (fresh_trace ic bc) es)) = take ic (insn_offs es)"
  using tin.items_run [of "fresh_trace ic bc" es]
  by (simp add: fresh_trace_def trace_run_def insn_offs_def)

lemma fresh_run_blocks: "buf_of (t_blocks (trace_run (fresh_trace ic bc) es)) = take bc (nub (block_offs es))"
  using tbl.items_run [of "fresh_trace ic bc" "[]" es]
  by (simp add: fresh_trace_def trace_run_def block_offs_def)

lemma fresh_run_caps:
  "t_insns_cap (trace_run (fresh_trace ic bc) es) = ic"
  "t_blocks_cap (trace_run (fresh_trace ic bc) es) = bc"
  "t_insns (trace_run (fresh_trace ic bc) es) \<noteq> None"
  "t_blocks (trace_run (fresh_trace ic bc) es) \<noteq> None"
  using tin.cap_run [of "fresh_trace ic bc" es] tbl.cap_run [of "fresh_trace ic bc" es]
    tin.invar_run [of "fresh_trace ic bc" es] tbl.invar_run [of "fresh_trace ic bc" es]
  by (simp_all add: fresh_trace_def trace_run_def)

lemma take_full_subset: "length (nub xs) \<le> n \<Longrightarrow> set (take n (nub xs)) = set xs"
  by simp

lemma fresh_run_truncated:
  "t_truncated (trace_run (fresh_trace ic bc) es) \<longleftrightarrow>
     ic < length (insn_offs es) \<or> bc < length (nub (block_offs es))"
proof (induction es rule: rev_induct)
  case Nil
  then show ?case by (simp add: trace_run_def fresh_trace_def zero_trace_def insn_offs_def block_offs_def)
next
  case (snoc e es)
  let ?t = "trace_run (fresh_trace ic bc) es"
  have "t_truncated (trace_run (fresh_trace ic bc) (es @ [e])) \<longleftrightarrow> t_truncated ?t \<or> event_lost ?t e"
    by (simp add: trace_run_def trace_step_truncated)
  also have "\<dots> \<longleftrightarrow> ic < length (insn_offs (es @ [e])) \<or> bc < length (nub (block_offs (es @ [e])))"
  proof (cases e)
    case (Insn off)
    with snoc show ?thesis
      by (auto simp: fresh_run_insns fresh_run_caps insn_offs_def block_offs_def)
  next
    case (Block off)
    have sub: "set (take bc (nub (block_offs es))) \<subseteq> set (block_offs es)"
      using set_take_subset [of bc "nub (block_offs es)"] by simp
    have all: "set (take bc (nub (block_offs es))) = set (block_offs es)"
      if "\<not> bc < length (nub (block_offs es))" using that by (simp add: take_full_subset)
    show ?thesis
      using snoc Block sub all
      by (auto simp: fresh_run_blocks fresh_run_caps insn_offs_def block_offs_def nub_snoc min_def
          split: if_splits)
  qed
  finally show ?case .
qed

section \<open>Properties\<close>

text \<open>
  C40: The sink contract for a whole run. Whatever instructions and block entries a backend feeds to
  a new trace, the instruction stream is the first \<^verbatim>\<open>insns_cap\<close> offsets in execution order, the
  block set is the first \<^verbatim>\<open>blocks_cap\<close> distinct block offsets in order of first entry, the totals
  count every event (modulo 2^64), and \<^verbatim>\<open>truncated\<close> is set exactly when one of the two buffers
  lost an entry.
\<close>

theorem trace_sink_contract:
  assumes "0 < insns_cap" and "0 < blocks_cap"
  shows "\<exists>t. asmtest_trace_new [] insns_cap blocks_cap = (Some t, []) \<and>
     t_insns (trace_run t es) = Some (take insns_cap (insn_offs es)) \<and>
     t_blocks (trace_run t es) = Some (take blocks_cap (nub (block_offs es))) \<and>
     t_insns_total (trace_run t es) = of_nat (length (insn_offs es)) \<and>
     t_blocks_total (trace_run t es) = of_nat (length (block_offs es)) \<and>
     (t_truncated (trace_run t es) \<longleftrightarrow>
        insns_cap < length (insn_offs es) \<or> blocks_cap < card (set (block_offs es)))"
proof -
  let ?t = "fresh_trace insns_cap blocks_cap"
  have "t_insns (trace_run ?t es) = Some (take insns_cap (insn_offs es))"
    "t_blocks (trace_run ?t es) = Some (take blocks_cap (nub (block_offs es)))"
    using fresh_run_insns [of insns_cap blocks_cap es] fresh_run_blocks [of insns_cap blocks_cap es]
      fresh_run_caps(3,4) [of insns_cap blocks_cap es] by auto
  moreover have "t_insns_total ?t = 0" "t_blocks_total ?t = 0"
    by (simp_all add: fresh_trace_def zero_trace_def)
  ultimately show ?thesis
    using trace_new_fresh [OF assms]
    by (simp add: run_totals fresh_run_truncated length_nub)
qed

theorem trace_sink_contract_witness:
  "\<exists>t. asmtest_trace_new [] 2 1 = (Some t, []) \<and>
     t_insns (trace_run t [Block 0, Insn 0, Insn 4, Block 8, Insn 8]) = Some [0, 4] \<and>
     t_truncated (trace_run t [Block 0, Insn 0, Insn 4, Block 8, Insn 8])"
  using trace_sink_contract [of 2 1 "[Block 0, Insn 0, Insn 4, Block 8, Insn 8]"]
  by (auto simp: insn_offs_def)

text \<open>
  Coverage is decided by what ran. After a run that fits its block buffer, the two coverage
  predicates answer 1 (true) exactly for the block offsets the run entered, and the uncovered
  report of a second such run against it returns the number of block offsets of the second run
  that the first never entered.
\<close>

theorem coverage_is_what_ran:
  assumes "card (set (block_offs es)) \<le> bc" and "card (set (block_offs us)) \<le> uc"
  shows "asmtest_trace_covered (Some (trace_run (fresh_trace ic bc) es)) off =
           (if off \<in> set (block_offs es) then 1 else 0) \<and>
         fst (emu_coverage_uncovered [] (Some (trace_run (fresh_trace ic bc) es))
            (Some (trace_run (fresh_trace jc uc) us)) out) =
           card (set (block_offs us) - set (block_offs es))"
proof -
  have b: "t_blocks (trace_run (fresh_trace i c) xs) = Some (nub (block_offs xs))"
    if "card (set (block_offs xs)) \<le> c" for i c xs
    using fresh_run_blocks [of i c xs] fresh_run_caps(4) [of i c xs] that by (auto simp: length_nub)
  let ?t = "trace_run (fresh_trace ic bc) es"
  have c: "asmtest_trace_covered (Some ?t) x = (if x \<in> set (block_offs es) then 1 else 0)" for x
    by (simp add: asmtest_trace_covered_def b [OF assms(1)])
  let ?miss = "filter (\<lambda>b. \<not> emu_trace_covered (Some ?t) b) (nub (block_offs us))"
  have "fst (emu_coverage_uncovered [] (Some ?t) (Some (trace_run (fresh_trace jc uc) us)) out) = length ?miss"
    by (simp add: emu_coverage_uncovered_def b [OF assms(2)] Let_def)
  also have "\<dots> = card (set ?miss)" by (rule distinct_card [symmetric]) simp
  also have "set ?miss = set (block_offs us) - set (block_offs es)"
    by (auto simp: emu_trace_covered_def c)
  finally show ?thesis using c by blast
qed

theorem coverage_is_what_ran_witness:
  "fst (emu_coverage_uncovered [] (Some (trace_run (fresh_trace 1 2) [Block 0, Block 4]))
     (Some (trace_run (fresh_trace 1 3) [Block 0, Block 8])) None) = 1"
  using coverage_is_what_ran [of "[Block 0, Block 4]" 2 "[Block 0, Block 8]" 3 1 0 1 None]
  by (simp add: block_offs_def)

end
