(* ===== verification/Grow.thy ===== *)
theory Grow
  imports Prelude
begin

text \<open>
  The overflow-checked geometric growth of \<^verbatim>\<open>src/src/asmtest_grow.h\<close>: \<open>asmtest_grow\<close>
  for append pools and \<open>asmtest_grow_pow2\<close> for open-addressed pools. Contents survive a
  \<^verbatim>\<open>realloc\<close>, so the model returns only the new capacity. The two loops double a positive
  capacity, so 64 rounds pass every \<^verbatim>\<open>size_t\<close>: the fuel of 64 (65 for the loop that
  doubles before it tests) is never used up, which the lemmas below prove.
\<close>

section \<open>Operations\<close>

text \<open>The doubling loop of \<^verbatim>\<open>asmtest_grow\<close>, with its early \<^verbatim>\<open>break\<close> at \<open>need\<close>.\<close>

fun grow_loop :: "nat \<Rightarrow> nat \<Rightarrow> nat \<Rightarrow> nat \<Rightarrow> nat option" where
  "grow_loop 0 maxcap need ncap = (if ncap < need then None else Some ncap)"
| "grow_loop (Suc fuel) maxcap need ncap =
     (if ncap < need
      then if ncap > maxcap div 2 then Some need
           else grow_loop fuel maxcap need (sz_mul ncap 2)
      else Some ncap)"

text \<open>
  Returns the C result (\<open>True\<close> for 1), the capacity left in \<^verbatim>\<open>*cap\<close> and the rest of the
  allocation script.
\<close>

definition asmtest_grow :: "heap \<Rightarrow> nat \<Rightarrow> nat \<Rightarrow> nat \<Rightarrow> bool \<times> nat \<times> heap" where
  "asmtest_grow h cap need elem =
     (if need \<le> cap then (True, cap, h)
      else let maxcap = SIZE_MAX div elem in
        if need > maxcap then (False, cap, h)
        else case grow_loop 64 maxcap need (if cap \<noteq> 0 then cap else 8) of
               None \<Rightarrow> (False, cap, h)
             | Some ncap \<Rightarrow>
                 (case alloc h of (ok, h') \<Rightarrow> if ok then (True, ncap, h') else (False, cap, h')))"

fun pow2_loop :: "nat \<Rightarrow> nat \<Rightarrow> nat \<Rightarrow> nat \<Rightarrow> nat option" where
  "pow2_loop 0 maxcap min_slots ncap = None"
| "pow2_loop (Suc fuel) maxcap min_slots ncap =
     (if ncap > maxcap div 2 then None
      else let ncap' = sz_mul ncap 2 in
        if ncap' \<ge> min_slots then Some ncap' else pow2_loop fuel maxcap min_slots ncap')"

definition asmtest_grow_pow2 :: "nat \<Rightarrow> nat \<Rightarrow> nat \<Rightarrow> nat option" where
  "asmtest_grow_pow2 cap min_slots elem =
     pow2_loop 65 (SIZE_MAX div elem) min_slots (if cap \<noteq> 0 then cap else 1)"

section \<open>The append pool\<close>

lemma double_exact: "n \<le> maxcap div 2 \<Longrightarrow> maxcap \<le> SIZE_MAX \<Longrightarrow> sz_mul n 2 = n * 2 \<and> n * 2 \<le> maxcap"
  by (auto intro!: sz_mul_exact)

lemma grow_loop_spec:
  assumes "need \<le> maxcap" "maxcap \<le> SIZE_MAX" "n \<le> maxcap \<or> need \<le> n" "need < n * 2 ^ fuel"
  shows "\<exists>r. grow_loop fuel maxcap need n = Some r \<and> need \<le> r \<and> n \<le> r \<and> (r \<le> maxcap \<or> r = n)"
  using assms
proof (induction fuel arbitrary: n)
  case (Suc fuel)
  show ?case
  proof (cases "n < need \<and> n \<le> maxcap div 2")
    case True
    with double_exact [of n maxcap] Suc.prems
    have d: "sz_mul n 2 = n * 2" "n * 2 \<le> maxcap" by auto
    from Suc.IH [of "n * 2"] Suc.prems d
    obtain r where "grow_loop fuel maxcap need (n * 2) = Some r" "need \<le> r" "n * 2 \<le> r"
      "r \<le> maxcap \<or> r = n * 2" by (auto simp: mult.assoc)
    with True d show ?thesis by auto
  qed (use Suc.prems in auto)
qed simp

lemma grow_loop_returns:
  assumes "need \<le> maxcap" "maxcap \<le> SIZE_MAX" "cap < need"
  obtains r where "grow_loop 64 maxcap need (if cap \<noteq> 0 then cap else 8) = Some r"
    "need \<le> r" "r \<le> maxcap \<or> r = 8"
proof -
  let ?n = "if cap \<noteq> 0 then cap else (8::nat)"
  from assms have "need < 1 * 2 ^ 64" using SIZE_MAX_less by force
  also have "\<dots> \<le> ?n * 2 ^ 64" by (intro mult_le_mono1) auto
  finally have f: "need < ?n * 2 ^ 64" .
  have "?n \<le> maxcap \<or> need \<le> ?n \<or> (maxcap < 8 \<and> ?n = 8)" using assms by auto
  then consider "?n \<le> maxcap \<or> need \<le> ?n" | "need \<le> ?n" using assms by fastforce
  then have "?n \<le> maxcap \<or> need \<le> ?n" by cases auto
  from grow_loop_spec [OF assms(1,2) this f] assms show ?thesis
    by (auto split: if_splits intro: that)
qed

lemma grow_already: "need \<le> cap \<Longrightarrow> asmtest_grow h cap need elem = (True, cap, h)"
  by (simp add: asmtest_grow_def)

lemma grow_cases:
  assumes "asmtest_grow h cap need elem = (ok, cap', h')" "need > cap"
  shows "ok \<Longrightarrow> need \<le> cap'" "\<not> ok \<Longrightarrow> cap' = cap"
proof -
  show "need \<le> cap'" if ok
  proof -
    from that assms have le: "need \<le> SIZE_MAX div elem"
      by (auto simp: asmtest_grow_def Let_def split: if_splits)
    moreover have "SIZE_MAX div elem \<le> SIZE_MAX" by simp
    ultimately obtain r where "grow_loop 64 (SIZE_MAX div elem) need (if cap \<noteq> 0 then cap else 8) = Some r"
      "need \<le> r" using grow_loop_returns [of need _ cap] assms(2) by metis
    with assms that le show ?thesis
      by (auto simp: asmtest_grow_def Let_def split: if_splits prod.splits)
  qed
  show "cap' = cap" if "\<not> ok"
    using that assms by (auto simp: asmtest_grow_def Let_def split: if_splits prod.splits option.splits)
qed

text \<open>With memory available, growth succeeds exactly when the request is representable.\<close>

lemma grow_succeeds:
  assumes "need \<le> SIZE_MAX div elem"
  shows "fst (asmtest_grow [] cap need elem)"
proof (cases "need \<le> cap")
  case False
  with assms grow_loop_returns [of need "SIZE_MAX div elem" cap]
  obtain r where "grow_loop 64 (SIZE_MAX div elem) need (if cap \<noteq> 0 then cap else 8) = Some r"
    by (metis div_le_dividend not_le)
  with assms False show ?thesis by (auto simp: asmtest_grow_def Let_def)
qed (simp add: asmtest_grow_def)

section \<open>The open-addressed pool\<close>

lemma pow2_loop_pow2:
  "pow2_loop fuel maxcap m (2 ^ k) = Some r \<Longrightarrow> maxcap \<le> SIZE_MAX \<Longrightarrow> \<exists>j > k. r = 2 ^ j"
proof (induction fuel arbitrary: k)
  case (Suc fuel)
  with double_exact [of "2 ^ k" maxcap] have d: "sz_mul (2 ^ k) 2 = 2 ^ Suc k"
    by (auto simp: Let_def split: if_splits)
  show ?case
  proof (cases "2 ^ Suc k \<ge> m")
    case True
    with Suc.prems d show ?thesis by (auto simp: Let_def split: if_splits)
  next
    case False
    with Suc.prems d Suc.IH [of "Suc k"] show ?thesis
      by (auto simp: Let_def split: if_splits)
  qed
qed simp

lemma pow2_loop_bounds:
  "pow2_loop fuel maxcap m n = Some r \<Longrightarrow> maxcap \<le> SIZE_MAX \<Longrightarrow> 2 * n \<le> r \<and> m \<le> r \<and> r \<le> maxcap"
proof (induction fuel arbitrary: n)
  case (Suc fuel)
  with double_exact [of n maxcap] have d: "sz_mul n 2 = n * 2" "n * 2 \<le> maxcap"
    by (auto simp: Let_def split: if_splits)
  show ?case
  proof (cases "n * 2 \<ge> m")
    case False
    with Suc.prems d Suc.IH [of "n * 2"] show ?thesis by (auto simp: Let_def split: if_splits)
  qed (use Suc.prems d in \<open>auto simp: Let_def split: if_splits\<close>)
qed simp

text \<open>The loop gives up only where the doubling would leave \<open>maxcap\<close>, never for want of fuel.\<close>

lemma pow2_loop_None:
  "pow2_loop fuel maxcap m n = None \<Longrightarrow> maxcap \<le> SIZE_MAX \<Longrightarrow> maxcap < n * 2 ^ fuel \<Longrightarrow>
   \<exists>j. maxcap < n * 2 ^ Suc j \<and> (\<forall>i\<le>j. 0 < i \<longrightarrow> n * 2 ^ i < m)"
proof (induction fuel arbitrary: n)
  case (Suc fuel)
  show ?case
  proof (cases "n \<le> maxcap div 2")
    case True
    with double_exact [of n maxcap] Suc.prems have d: "sz_mul n 2 = n * 2" by auto
    with True Suc.prems Suc.IH [of "n * 2"] have small: "n * 2 < m" and
      "\<exists>j. maxcap < n * 2 * 2 ^ Suc j \<and> (\<forall>i\<le>j. 0 < i \<longrightarrow> n * 2 * 2 ^ i < m)"
      by (auto simp: Let_def mult.assoc split: if_splits)
    then obtain j where j: "maxcap < n * 2 * 2 ^ Suc j" "\<forall>i\<le>j. 0 < i \<longrightarrow> n * 2 * 2 ^ i < m"
      by blast
    have "n * 2 ^ i < m" if "i \<le> Suc j" "0 < i" for i
      using that small j(2) [rule_format, of "i - 1"] by (cases i; cases "i = 1") auto
    with j(1) show ?thesis by (intro exI [of _ "Suc j"]) (auto simp: mult.assoc)
  next
    case False
    then show ?thesis by (intro exI [of _ 0]) auto
  qed
next
  case 0
  then show ?case by (intro exI [of _ 0]) auto
qed

text \<open>One round of the loop.\<close>

lemma pow2_stop: "n > maxcap div 2 \<Longrightarrow> pow2_loop fuel maxcap m n = None"
  by (cases fuel) simp_all

lemma pow2_step:
  "n \<le> maxcap div 2 \<Longrightarrow> maxcap \<le> SIZE_MAX \<Longrightarrow> 0 < fuel \<Longrightarrow>
   pow2_loop fuel maxcap m n = (if m \<le> 2 * n then Some (2 * n) else pow2_loop (fuel - 1) maxcap m (2 * n))"
  using double_exact [of n maxcap] by (cases fuel) (auto simp: Let_def mult.commute)

section \<open>Properties\<close>

lemma grow_result:
  assumes "elem \<le> SIZE_MAX div 8" and "cap < need" and "need \<le> SIZE_MAX div elem"
  obtains r where "asmtest_grow h cap need elem =
       (case alloc h of (ok, h') \<Rightarrow> if ok then (True, r, h') else (False, cap, h'))"
    "need \<le> r" "r * elem \<le> SIZE_MAX"
proof -
  obtain r where r: "grow_loop 64 (SIZE_MAX div elem) need (if cap \<noteq> 0 then cap else 8) = Some r"
    "need \<le> r" "r \<le> SIZE_MAX div elem \<or> r = 8"
    using grow_loop_returns [OF assms(3) _ assms(2)] by (metis div_le_dividend)
  have "r * elem \<le> SIZE_MAX"
    using r(3) div_SIZE_MAX_mult [of r elem] div_SIZE_MAX_mult [OF assms(1)] by (auto simp: mult.commute)
  with r assms(2,3) show ?thesis
    by (intro that [of r]) (simp_all add: asmtest_grow_def Let_def)
qed

text \<open>
  Overflow-checked growth. For an element that is not absurdly large, \<^verbatim>\<open>asmtest_grow\<close> always
  returns; it fails exactly when the request is above \<^verbatim>\<open>SIZE_MAX / elem\<close> or the allocator
  fails, leaving the capacity alone; when it succeeds the capacity covers the request and, unless
  it was already enough, the byte count handed to \<^verbatim>\<open>realloc\<close> did not wrap.
\<close>

theorem grow_correct:
  assumes "elem \<le> SIZE_MAX div 8" and "asmtest_grow h cap need elem = (ok, cap', h')"
  shows "(ok \<longleftrightarrow> need \<le> cap \<or> need \<le> SIZE_MAX div elem \<and> fst (alloc h)) \<and>
    (\<not> ok \<longrightarrow> cap' = cap) \<and>
    (ok \<longrightarrow> need \<le> cap' \<and> (cap' = cap \<or> cap' * elem \<le> SIZE_MAX))"
proof (cases "need \<le> cap")
  case True
  with assms show ?thesis by (auto simp: grow_already)
next
  case False
  show ?thesis
  proof (cases "need \<le> SIZE_MAX div elem")
    case True
    from False have "cap < need" by simp
    from grow_result [OF assms(1) this True, of h] obtain r where
      "asmtest_grow h cap need elem = (case alloc h of (ok, h') \<Rightarrow> if ok then (True, r, h') else (False, cap, h'))"
      "need \<le> r" "r * elem \<le> SIZE_MAX" .
    with True False assms(2) show ?thesis by (cases "alloc h") (auto split: if_splits)
  next
    case F2: False
    with False assms(2) have "\<not> ok" "cap' = cap" by (auto simp: asmtest_grow_def Let_def)
    with False F2 show ?thesis by simp
  qed
qed

lemma grow_loop_numeral:
  "grow_loop (numeral k) maxcap need ncap =
     (if ncap < need
      then if ncap > maxcap div 2 then Some need
           else grow_loop (pred_numeral k) maxcap need (sz_mul ncap 2)
      else Some ncap)"
  by (simp add: numeral_eq_Suc)

theorem grow_correct_witness:
  "asmtest_grow [] 0 9 24 = (True, 16, []) \<and> (9::nat) \<le> 16"
proof -
  have g: "asmtest_grow [] 0 9 24 = (True, 16, [])"
    by (simp add: asmtest_grow_def SIZE_MAX_def sz_mul_def grow_loop_numeral)
  have "(24::nat) \<le> SIZE_MAX div 8" by (simp add: SIZE_MAX_def)
  from grow_correct [OF this g] g show ?thesis by simp
qed

end
