(* ===== verification/Srcmap.thy ===== *)
theory Srcmap
  imports Trace Grow
begin

text \<open>
  Attribution of native offsets, the second half of \<^verbatim>\<open>src/src/trace.c\<close>: source-line coverage
  (\<^verbatim>\<open>emu_line_*\<close>), the widened rows (\<^verbatim>\<open>asmtest_srcmap_*\<close>) and the version-keyed registry
  (\<^verbatim>\<open>asmtest_srcreg_*\<close>). A map whose pointer or entry array is \<^verbatim>\<open>NULL\<close>, or whose count is 0, takes
  the same early return everywhere and is the empty list of rows here.
\<close>

section \<open>Source lines\<close>

record emu_line_entry =
  le_offset :: u64
  le_line :: u32

definition emu_line_lookup :: "emu_line_entry list \<Rightarrow> u64 \<Rightarrow> emu_line_entry option" where
  "emu_line_lookup rows off = scan_le le_offset off None rows"

record line_cov =
  lc_line :: u32
  lc_hit :: bool

definition cmp_line_cov :: "line_cov \<Rightarrow> line_cov \<Rightarrow> int" where
  "cmp_line_cov a b = (if lc_line a > lc_line b then 1 else 0) - (if lc_line a < lc_line b then 1 else 0)"

text \<open>Mark the first row of the line and stop there.\<close>

fun mark_line :: "u32 \<Rightarrow> line_cov list \<Rightarrow> line_cov list" where
  "mark_line ln [] = []"
| "mark_line ln (c # cs) = (if lc_line c = ln then c\<lparr>lc_hit := True\<rparr> # cs else c # mark_line ln cs)"

definition mark_block :: "emu_line_entry list \<Rightarrow> line_cov list \<Rightarrow> u64 \<Rightarrow> line_cov list" where
  "mark_block rows lc b =
     (case emu_line_lookup rows b of None \<Rightarrow> lc | Some en \<Rightarrow> mark_line (le_line en) lc)"

definition distinct_lines :: "emu_line_entry list \<Rightarrow> line_cov list" where
  "distinct_lines es = map (\<lambda>l. \<lparr>lc_line = l, lc_hit = False\<rparr>) (nub (map le_line es))"

definition source_coverage ::
  "heap \<Rightarrow> asmtest_trace option \<Rightarrow> emu_line_entry list \<Rightarrow> line_cov list option \<times> heap" where
  "source_coverage h covered rows =
     (if rows = [] then (None, h)
      else case alloc h of (ok, h') \<Rightarrow>
        if \<not> ok then (None, h')
        else let bs = (case covered of None \<Rightarrow> [] | Some t \<Rightarrow> buf_of (t_blocks t))
             in (Some (sort_key lc_line (foldl (mark_block rows) (distinct_lines rows) bs)), h'))"

definition emu_trace_source_report ::
  "heap \<Rightarrow> asmtest_trace option \<Rightarrow> emu_line_entry list \<Rightarrow> string option \<Rightarrow> nat \<times> string option \<times> heap" where
  "emu_trace_source_report h covered rows out =
     (case source_coverage h covered rows of
        (None, h') \<Rightarrow> (0, out, h')
      | (Some lc, h') \<Rightarrow>
          (let n = length lc; hit = length (filter lc_hit lc) in
           (n - hit,
            map_option (\<lambda>o0. o0 @ ''source coverage: '' @ fmt_dec hit @ ''/'' @ fmt_dec n @
               '' lines covered'' @ nl @
               (if hit < n then ''  uncovered lines:'' @
                  concat (map (\<lambda>c. '' '' @ fmt_dec (unat (lc_line c))) (filter (Not \<circ> lc_hit) lc)) @ nl
                else [])) out, h')))"

definition emu_trace_lcov_source ::
  "heap \<Rightarrow> asmtest_trace option \<Rightarrow> emu_line_entry list \<Rightarrow> string option \<Rightarrow> string option \<Rightarrow> string option \<times> heap" where
  "emu_trace_lcov_source h covered rows source_file out =
     (case out of None \<Rightarrow> (None, h)
      | Some o0 \<Rightarrow> (case source_coverage h covered rows of (r, h') \<Rightarrow>
          (let lc = (case r of None \<Rightarrow> [] | Some lc \<Rightarrow> lc) in
           (Some (o0 @ ''TN:'' @ nl @
              ''SF:'' @ (case source_file of None \<Rightarrow> ''routine'' | Some n \<Rightarrow> n) @ nl @
              concat (map (\<lambda>c. ''DA:'' @ fmt_dec (unat (lc_line c)) @ '','' @
                 (if lc_hit c then ''1'' else ''0'') @ nl) lc) @
              ''LF:'' @ fmt_dec (length lc) @ nl @ ''LH:'' @ fmt_dec (length (filter lc_hit lc)) @ nl @
              ''end_of_record'' @ nl), h'))))"

section \<open>Widened rows\<close>

record srcmap_entry =
  se_offset :: u64
  se_value :: int
  se_kind :: nat
  se_file_id :: u32
  se_col :: u32

record asmtest_srcmap =
  sm_entries :: "srcmap_entry list"
  sm_files :: "string option list option"

definition ASMTEST_SRC_LINE :: nat where "ASMTEST_SRC_LINE = 1"
definition ASMTEST_SRC_IL :: nat where "ASMTEST_SRC_IL = 2"
definition ASMTEST_SRC_BCI :: nat where "ASMTEST_SRC_BCI = 3"

definition asmtest_srcmap_lookup :: "srcmap_entry list \<Rightarrow> u64 \<Rightarrow> srcmap_entry option" where
  "asmtest_srcmap_lookup rows off = scan_le se_offset off None rows"

text \<open>The label buffer has 64 bytes; the longest label, a full 32-bit value, has 17.\<close>

definition srcmap_label :: "srcmap_entry \<Rightarrow> string" where
  "srcmap_label en =
     (if se_kind en = ASMTEST_SRC_LINE then ''line '' @ fmt_int (se_value en)
      else if se_kind en = ASMTEST_SRC_IL then
        (if se_value en = -1 then ''NO_MAPPING''
         else if se_value en = -2 then ''PROLOG''
         else if se_value en = -3 then ''EPILOG''
         else ''IL_0x'' @ fmt_hex (nat (se_value en mod 2 ^ 32)))
      else if se_kind en = ASMTEST_SRC_BCI then ''bci '' @ fmt_int (se_value en)
      else ''value '' @ fmt_int (se_value en))"

definition srcmap_file :: "asmtest_srcmap option \<Rightarrow> srcmap_entry \<Rightarrow> string option" where
  "srcmap_file m en =
     (case m of None \<Rightarrow> None
      | Some m \<Rightarrow> (case sm_files m of None \<Rightarrow> None
        | Some fs \<Rightarrow> if se_file_id en \<noteq> 0xFFFFFFFF \<and> unat (se_file_id en) < length fs
                     then fs ! unat (se_file_id en) else None))"

definition srcmap_line :: "asmtest_srcmap option \<Rightarrow> u64 \<Rightarrow> srcmap_entry option \<Rightarrow> string" where
  "srcmap_line m off r =
     ''  +0x'' @ fmt_hex (unat off) @ ''  '' @
     (case r of None \<Rightarrow> ''<unattributed>''
      | Some en \<Rightarrow> (case srcmap_file m en of
            Some f \<Rightarrow> (if f \<noteq> [] then f @ '':'' else []) @ srcmap_label en
          | None \<Rightarrow> srcmap_label en)) @ nl"

definition asmtest_srcmap_report ::
  "asmtest_trace option \<Rightarrow> asmtest_srcmap option \<Rightarrow> string option \<Rightarrow> nat \<times> string option" where
  "asmtest_srcmap_report covered m out =
     (case covered of None \<Rightarrow> (0, out)
      | Some t \<Rightarrow> (case t_blocks t of None \<Rightarrow> (0, out)
        | Some bs \<Rightarrow>
            (let rows = (case m of None \<Rightarrow> [] | Some m \<Rightarrow> sm_entries m);
                 un = length (filter (\<lambda>b. asmtest_srcmap_lookup rows b = None) bs)
             in (un, map_option (\<lambda>o0. o0 @
                   concat (map (\<lambda>b. srcmap_line m b (asmtest_srcmap_lookup rows b)) bs) @
                   ''srcmap: '' @ fmt_dec (length bs - un) @ ''/'' @ fmt_dec (length bs) @
                   '' covered blocks attributed'' @ nl) out))))"

section \<open>The version-keyed registry\<close>

record srcreg_ent =
  sr_code_addr :: u64
  sr_code_size :: u64
  sr_when :: u64
  sr_rows :: "srcmap_entry list"
  sr_file :: "string option"

record asmtest_srcreg =
  sr_ents :: "srcreg_ent list"
  sr_cap :: nat

definition asmtest_srcreg_new :: "heap \<Rightarrow> asmtest_srcreg option \<times> heap" where
  "asmtest_srcreg_new h =
     (case alloc h of (ok, h') \<Rightarrow> (if ok then Some \<lparr>sr_ents = [], sr_cap = 0\<rparr> else None, h'))"

text \<open>
  Three allocations may happen, in this order: the pool, the copy of the rows, the copy of the
  file name. A failure of any leaves the entries as they were (the pool may have grown).
\<close>

definition srcreg_copy ::
  "heap \<Rightarrow> asmtest_srcreg \<Rightarrow> srcreg_ent \<Rightarrow> srcmap_entry list \<Rightarrow> string option \<Rightarrow> int \<times> asmtest_srcreg \<times> heap" where
  "srcreg_copy h reg e rows file =
     (case (if rows = [] then (True, h) else alloc h) of (ok1, h1) \<Rightarrow>
        if \<not> ok1 then (-1, reg, h1)
        else case (if file = None then (True, h1) else alloc h1) of (ok2, h2) \<Rightarrow>
          if \<not> ok2 then (-1, reg, h2)
          else (0, reg\<lparr>sr_ents := sr_ents reg @ [e\<lparr>sr_rows := rows, sr_file := file\<rparr>]\<rparr>, h2))"

definition asmtest_srcreg_add ::
  "heap \<Rightarrow> asmtest_srcreg option \<Rightarrow> u64 \<Rightarrow> u64 \<Rightarrow> u64 \<Rightarrow> srcmap_entry list \<Rightarrow> string option
     \<Rightarrow> int \<times> asmtest_srcreg option \<times> heap" where
  "asmtest_srcreg_add h r code_addr code_size when rows file =
     (case r of None \<Rightarrow> (-1, None, h)
      | Some reg \<Rightarrow>
        if code_size = 0 then (-1, r, h)
        else case (if length (sr_ents reg) = sr_cap reg
                   then asmtest_grow h (sr_cap reg) (length (sr_ents reg) + 1) 48
                   else (True, sr_cap reg, h)) of (ok, cap', h0) \<Rightarrow>
          if \<not> ok then (-1, r, h0)
          else case srcreg_copy h0 (reg\<lparr>sr_cap := cap'\<rparr>)
                  \<lparr>sr_code_addr = code_addr, sr_code_size = code_size, sr_when = when,
                   sr_rows = [], sr_file = None\<rparr> rows file of
                 (rc, reg', h') \<Rightarrow> (rc, Some reg', h'))"

definition srcreg_in :: "u64 \<Rightarrow> srcreg_ent \<Rightarrow> bool" where
  "srcreg_in addr e \<longleftrightarrow> \<not> (addr < sr_code_addr e \<or> addr \<ge> sr_code_addr e + sr_code_size e)"

definition srcreg_pick :: "u64 \<Rightarrow> u64 \<Rightarrow> srcreg_ent option \<Rightarrow> srcreg_ent \<Rightarrow> srcreg_ent option" where
  "srcreg_pick addr when best e =
     (if \<not> srcreg_in addr e then best
      else if when \<noteq> 0 \<and> sr_when e > when then best
      else case best of None \<Rightarrow> Some e
           | Some b \<Rightarrow> if sr_when e > sr_when b then Some e else best)"

text \<open>The C result 1 with its three out-parameters is \<open>Some\<close>; 0 is \<open>None\<close>.\<close>

definition asmtest_srcreg_resolve ::
  "asmtest_srcreg option \<Rightarrow> u64 \<Rightarrow> u64 \<Rightarrow> (srcmap_entry \<times> u64 \<times> string option) option" where
  "asmtest_srcreg_resolve r addr when =
     (case r of None \<Rightarrow> None
      | Some reg \<Rightarrow>
        (case foldl (srcreg_pick addr when) None (sr_ents reg) of None \<Rightarrow> None
         | Some best \<Rightarrow>
           (case asmtest_srcmap_lookup (sr_rows best) (addr - sr_code_addr best) of
              None \<Rightarrow> None
            | Some row \<Rightarrow> Some (row, sr_code_addr best, sr_file best))))"

section \<open>Line coverage\<close>

text \<open>A line is hit when a covered block resolves to a row that names it.\<close>

definition line_hit :: "emu_line_entry list \<Rightarrow> u64 list \<Rightarrow> u32 \<Rightarrow> bool" where
  "line_hit rows bs l \<longleftrightarrow> (\<exists>b\<in>set bs. map_option le_line (emu_line_lookup rows b) = Some l)"

lemma mark_line_map:
  "distinct ls \<Longrightarrow> mark_line ln (map (\<lambda>l. \<lparr>lc_line = l, lc_hit = P l\<rparr>) ls) =
     map (\<lambda>l. \<lparr>lc_line = l, lc_hit = P l \<or> l = ln\<rparr>) ls"
  by (induction ls) auto

lemma mark_blocks_map:
  "foldl (mark_block rows) (distinct_lines rows) bs =
     map (\<lambda>l. \<lparr>lc_line = l, lc_hit = line_hit rows bs l\<rparr>) (nub (map le_line rows))"
proof (induction bs rule: rev_induct)
  case Nil
  then show ?case by (simp add: distinct_lines_def line_hit_def)
next
  case (snoc b bs)
  then show ?case
    by (cases "emu_line_lookup rows b")
      (auto simp: mark_block_def mark_line_map line_hit_def)
qed

lemma source_coverage_ok:
  "rows \<noteq> [] \<Longrightarrow> source_coverage [] (Some t) rows =
     (Some (sort_key lc_line (map (\<lambda>l. \<lparr>lc_line = l, lc_hit = line_hit rows (buf_of (t_blocks t)) l\<rparr>)
        (nub (map le_line rows)))), [])"
  by (simp add: source_coverage_def mark_blocks_map)

lemma length_filter_sort_key: "length (filter P (sort_key k xs)) = length (filter P xs)"
  by (metis mset_filter mset_sort size_mset)

lemma source_report_hits:
  assumes "rows \<noteq> []"
  shows "fst (emu_trace_source_report [] (Some t) rows out) =
     card {l \<in> le_line ` set rows. \<not> line_hit rows (buf_of (t_blocks t)) l}"
proof -
  let ?P = "line_hit rows (buf_of (t_blocks t))" and ?ls = "nub (map le_line rows)"
  have "fst (emu_trace_source_report [] (Some t) rows out) = length ?ls - length (filter ?P ?ls)"
    using assms
    by (simp add: emu_trace_source_report_def source_coverage_ok length_filter_sort_key
        filter_map o_def Let_def)
  also have "\<dots> = length (filter (\<lambda>l. \<not> ?P l) ?ls)"
    using sum_length_filter_compl [of ?P ?ls] by simp
  also have "\<dots> = card (set (filter (\<lambda>l. \<not> ?P l) ?ls))"
    by (rule distinct_card [symmetric]) simp
  finally show ?thesis by (simp only: set_filter set_nub list.set_map)
qed

section \<open>Resolution in time\<close>

definition srcreg_eligible :: "u64 \<Rightarrow> u64 \<Rightarrow> srcreg_ent \<Rightarrow> bool" where
  "srcreg_eligible addr when e \<longleftrightarrow> srcreg_in addr e \<and> (when = 0 \<or> sr_when e \<le> when)"

lemma srcreg_pick_eligible:
  "srcreg_pick addr when best e =
     (if srcreg_eligible addr when e
      then case best of None \<Rightarrow> Some e | Some b \<Rightarrow> if sr_when e > sr_when b then Some e else best
      else best)"
  by (auto simp: srcreg_pick_def srcreg_eligible_def)

lemma srcreg_fold_pick:
  "(foldl (srcreg_pick addr when) None es = None \<longleftrightarrow> (\<forall>e\<in>set es. \<not> srcreg_eligible addr when e)) \<and>
   (\<forall>b. foldl (srcreg_pick addr when) None es = Some b \<longrightarrow>
      b \<in> set es \<and> srcreg_eligible addr when b \<and>
      (\<forall>e\<in>set es. srcreg_eligible addr when e \<longrightarrow> sr_when e \<le> sr_when b))"
proof (induction es rule: rev_induct)
  case (snoc e es)
  obtain r where r: "foldl (srcreg_pick addr when) None es = r" by simp
  from snoc show ?case
    unfolding foldl_append foldl_Cons foldl_Nil r
    by (cases r) (auto simp: srcreg_pick_eligible intro: order_less_imp_le order_trans)
qed simp

lemmas srcreg_fold_None = srcreg_fold_pick [THEN conjunct1]
lemmas srcreg_fold_Some = srcreg_fold_pick [THEN conjunct2, rule_format]

lemma srcreg_resolve_Some:
  assumes "asmtest_srcreg_resolve (Some reg) addr when = Some (row, base, file)"
  obtains e where "e \<in> set (sr_ents reg)" "srcreg_eligible addr when e"
    "\<And>x. x \<in> set (sr_ents reg) \<Longrightarrow> srcreg_eligible addr when x \<Longrightarrow> sr_when x \<le> sr_when e"
    "base = sr_code_addr e" "file = sr_file e"
    "asmtest_srcmap_lookup (sr_rows e) (addr - base) = Some row"
  using assms srcreg_fold_Some [of addr "when" "sr_ents reg"]
  by (auto simp: asmtest_srcreg_resolve_def split: option.splits)

text \<open>Without wrap-around the membership test is the half-open interval.\<close>

lemma srcreg_in_interval:
  "unat (sr_code_addr e) + unat (sr_code_size e) < 2 ^ 64 \<Longrightarrow>
   srcreg_in addr e \<longleftrightarrow> unat (sr_code_addr e) \<le> unat addr \<and>
                     unat addr < unat (sr_code_addr e) + unat (sr_code_size e)"
  by (auto simp: srcreg_in_def word_less_nat_alt word_le_nat_alt unat_word_ariths)

lemma srcreg_add_ok:
  assumes "code_size \<noteq> 0" "length (sr_ents reg) < 2 ^ 50"
  shows "\<exists>cap'. asmtest_srcreg_add [] (Some reg) a code_size w rows file =
     (0, Some (reg\<lparr>sr_cap := cap', sr_ents := sr_ents reg @
        [\<lparr>sr_code_addr = a, sr_code_size = code_size, sr_when = w, sr_rows = rows, sr_file = file\<rparr>]\<rparr>), [])"
proof -
  have "Suc (length (sr_ents reg)) \<le> SIZE_MAX div 48"
    using assms by (simp add: SIZE_MAX_def)
  from grow_succeeds [OF this, of "sr_cap reg"]
  obtain cap' where g: "asmtest_grow [] (sr_cap reg) (Suc (length (sr_ents reg))) 48 = (True, cap', [])"
    by (auto simp: asmtest_grow_def Let_def split: if_splits prod.splits option.splits)
  show ?thesis
    using assms g
    by (intro exI [of _ "if length (sr_ents reg) = sr_cap reg then cap' else sr_cap reg"])
      (auto simp: asmtest_srcreg_add_def srcreg_copy_def)
qed

section \<open>Properties\<close>

text \<open>
  Row lookup on a table ascending by offset. \<^verbatim>\<open>asmtest_srcmap_lookup\<close> returns no row exactly
  when every row starts above the offset; otherwise it returns a row that starts at or below the
  offset and no row of the table starts between it and the offset.
\<close>

theorem srcmap_lookup_enclosing:
  assumes "sorted (map se_offset rows)"
  shows "(asmtest_srcmap_lookup rows off = None \<longleftrightarrow> (\<forall>r\<in>set rows. off < se_offset r)) \<and>
    (\<forall>r. asmtest_srcmap_lookup rows off = Some r \<longrightarrow>
       r \<in> set rows \<and> se_offset r \<le> off \<and> (\<forall>x\<in>set rows. se_offset x \<le> off \<longrightarrow> se_offset x \<le> se_offset r))"
  unfolding asmtest_srcmap_lookup_def
  using scan_le_None_iff [OF assms, of off] scan_le_Some [OF assms, of off] by blast

abbreviation demo_row :: "u64 \<Rightarrow> int \<Rightarrow> srcmap_entry" where
  "demo_row off v \<equiv> \<lparr>se_offset = off, se_value = v, se_kind = 1, se_file_id = 0, se_col = 0\<rparr>"

theorem srcmap_lookup_enclosing_witness:
  "asmtest_srcmap_lookup [demo_row 4 10, demo_row 8 11] 3 = None \<and>
   asmtest_srcmap_lookup [demo_row 4 10, demo_row 8 11] 9 \<noteq> None"
  using srcmap_lookup_enclosing [of "[demo_row 4 10, demo_row 8 11]" 3]
    srcmap_lookup_enclosing [of "[demo_row 4 10, demo_row 8 11]" 9]
  by simp

text \<open>
  Resolution in time. When the registry resolves an address at an instant, the row comes from
  a registered method body whose range holds the address and which was registered no later than
  the instant (or the instant is 0, "latest"); no other such body was registered later; and the
  row is the enclosing row of the address relative to that body's base.
\<close>

theorem srcreg_resolve_newest:
  assumes "asmtest_srcreg_resolve (Some reg) addr when = Some (row, base, file)"
  shows "\<exists>e\<in>set (sr_ents reg). base = sr_code_addr e \<and> file = sr_file e \<and> srcreg_in addr e \<and>
     (when = 0 \<or> sr_when e \<le> when) \<and>
     asmtest_srcmap_lookup (sr_rows e) (addr - base) = Some row \<and>
     (\<forall>x\<in>set (sr_ents reg). srcreg_in addr x \<and> (when = 0 \<or> sr_when x \<le> when) \<longrightarrow> sr_when x \<le> sr_when e)"
  using assms by (rule srcreg_resolve_Some) (auto simp: srcreg_eligible_def)

abbreviation demo_reg :: asmtest_srcreg where
  "demo_reg \<equiv> \<lparr>sr_ents =
     [\<lparr>sr_code_addr = 100, sr_code_size = 50, sr_when = 1, sr_rows = [demo_row 0 7], sr_file = None\<rparr>,
      \<lparr>sr_code_addr = 100, sr_code_size = 50, sr_when = 5, sr_rows = [demo_row 0 9], sr_file = None\<rparr>],
     sr_cap = 8\<rparr>"

theorem srcreg_resolve_newest_witness:
  "asmtest_srcreg_resolve (Some demo_reg) 120 3 = Some (demo_row 0 7, 100, None) \<and>
   (\<exists>e\<in>set (sr_ents demo_reg). 100 = sr_code_addr e \<and> sr_when e \<le> 3)"
proof -
  have "asmtest_srcreg_resolve (Some demo_reg) 120 3 = Some (demo_row 0 7, 100, None)"
    by (simp add: asmtest_srcreg_resolve_def srcreg_pick_def srcreg_in_def asmtest_srcmap_lookup_def)
  with srcreg_resolve_newest [OF this] show ?thesis by auto
qed

text \<open>
  Source-line coverage. With memory available and a non-empty line table, the uncovered count of
  \<^verbatim>\<open>emu_trace_source_report\<close> is the number of lines of the table that no covered block resolves to.
\<close>

theorem source_report_counts:
  assumes "rows \<noteq> []"
  shows "fst (emu_trace_source_report [] (Some t) rows out) =
     card {l \<in> le_line ` set rows. \<not> (\<exists>b\<in>set (buf_of (t_blocks t)).
        map_option le_line (emu_line_lookup rows b) = Some l)}"
  using source_report_hits [OF assms, of t out] by (simp only: line_hit_def)

theorem source_report_counts_witness:
  "fst (emu_trace_source_report [] (Some zero_trace) [\<lparr>le_offset = 0, le_line = 3\<rparr>] None) =
   card {l \<in> {3}. \<not> (\<exists>b\<in>set (buf_of (t_blocks zero_trace)).
     map_option le_line (emu_line_lookup [\<lparr>le_offset = 0, le_line = 3\<rparr>] b) = Some l)}"
  using source_report_counts [of "[\<lparr>le_offset = 0, le_line = 3\<rparr>]" zero_trace None] by simp

end
