(* ===== verification/Valtrace.thy ===== *)
theory Valtrace
  imports Sink Trace
begin

text \<open>
  The L0 value-trace sink: the records of \<^verbatim>\<open>src/include/asmtest_valtrace.h\<close> and the first part of
  \<^verbatim>\<open>src/src/dataflow.c\<close>. A step is one executed instruction; \<open>asmtest_valtrace_append\<close> stores its
  offset and its operand records, each stamped with the step's index, and drops what does not
  fit. Step indices are \<^verbatim>\<open>uint32_t\<close>: natural numbers taken modulo \<open>2 ^ 32\<close> where the code
  narrows a \<^verbatim>\<open>size_t\<close>.
\<close>

section \<open>Records\<close>

datatype at_loc_kind = AT_LOC_REG | AT_LOC_MEM_ABS | AT_LOC_MEM_OFF

record at_val_rec =
  vr_kind :: at_loc_kind
  vr_reg :: nat
  vr_base :: nat
  vr_index :: nat
  vr_scale :: int
  vr_disp :: int
  vr_addr :: u64
  vr_size :: nat
  vr_is_write :: bool
  vr_value_valid :: bool
  vr_wide :: bool
  vr_wide_off :: nat
  vr_value :: u64
  vr_step :: nat

text \<open>The sixteen general registers in the header's order, the vector lanes as raw bytes.\<close>

record asmtest_regfile =
  rf_gpr :: "u64 list"
  rf_rip :: u64
  rf_rflags :: u64
  rf_xmm :: "u8 list list"
  rf_mxcsr :: u32
  rf_has_vec :: bool

definition zero_regfile :: asmtest_regfile where
  "zero_regfile = \<lparr>rf_gpr = replicate 16 0, rf_rip = 0, rf_rflags = 0,
                   rf_xmm = replicate 16 (replicate 16 0), rf_mxcsr = 0, rf_has_vec = False\<rparr>"

record asmtest_valtrace =
  vt_insn_off :: "u64 list option"
  vt_steps_cap :: nat
  vt_steps_total :: u64
  vt_regfile :: "asmtest_regfile list option"
  vt_regfile_fp :: bool
  vt_recs :: "at_val_rec list option"
  vt_recs_cap :: nat
  vt_recs_total :: u64
  vt_wide :: "u8 list option"
  vt_wide_cap :: nat
  vt_truncated :: bool
  vt_mem_space :: at_loc_kind

abbreviation "vt_steps_len v \<equiv> length (buf_of (vt_insn_off v))"
abbreviation "vt_recs_len v \<equiv> length (buf_of (vt_recs v))"
abbreviation "vt_wide_len v \<equiv> length (buf_of (vt_wide v))"

section \<open>Operations\<close>

definition zero_valtrace :: asmtest_valtrace where
  "zero_valtrace = \<lparr>vt_insn_off = None, vt_steps_cap = 0, vt_steps_total = 0,
     vt_regfile = None, vt_regfile_fp = False, vt_recs = None, vt_recs_cap = 0, vt_recs_total = 0,
     vt_wide = None, vt_wide_cap = 0, vt_truncated = False, vt_mem_space = AT_LOC_REG\<rparr>"

text \<open>One optional buffer of the constructor: skipped at capacity 0, absent when memory runs out.\<close>

definition opt_calloc :: "heap \<Rightarrow> nat \<Rightarrow> ('a list option \<times> nat) \<times> heap" where
  "opt_calloc h cap =
     (if cap = 0 then ((None, 0), h)
      else case alloc h of (ok, h') \<Rightarrow> (if ok then (Some [], cap) else (None, 0), h'))"

definition asmtest_valtrace_new :: "heap \<Rightarrow> nat \<Rightarrow> nat \<Rightarrow> nat \<Rightarrow> asmtest_valtrace option \<times> heap" where
  "asmtest_valtrace_new h steps_cap recs_cap wide_cap =
     (case alloc h of (ok, h0) \<Rightarrow>
        if \<not> ok then (None, h0)
        else case opt_calloc h0 steps_cap of ((io, sc), h1) \<Rightarrow>
          case opt_calloc h1 recs_cap of ((rs, rc), h2) \<Rightarrow>
          case opt_calloc h2 wide_cap of ((w, wc), h3) \<Rightarrow>
            (Some (zero_valtrace\<lparr>vt_insn_off := io, vt_steps_cap := sc, vt_recs := rs, vt_recs_cap := rc,
                                 vt_wide := w, vt_wide_cap := wc, vt_mem_space := AT_LOC_MEM_ABS\<rparr>), h3))"

definition asmtest_valtrace_arm_regfile ::
  "heap \<Rightarrow> asmtest_valtrace option \<Rightarrow> bool \<times> asmtest_valtrace option \<times> heap" where
  "asmtest_valtrace_arm_regfile h vo =
     (case vo of None \<Rightarrow> (False, None, h)
      | Some v \<Rightarrow>
        if vt_steps_cap v = 0 then (False, vo, h)
        else if vt_regfile v \<noteq> None then (True, vo, h)
        else case alloc h of (ok, h') \<Rightarrow>
          if ok then (True, Some (v\<lparr>vt_regfile := Some (replicate (vt_steps_cap v) zero_regfile)\<rparr>), h')
          else (False, vo, h'))"

definition asmtest_valtrace_arm_fpregs ::
  "heap \<Rightarrow> asmtest_valtrace option \<Rightarrow> bool \<times> asmtest_valtrace option \<times> heap" where
  "asmtest_valtrace_arm_fpregs h vo =
     (case asmtest_valtrace_arm_regfile h vo of (ok, vo', h') \<Rightarrow>
        if \<not> ok then (False, vo', h')
        else (True, map_option (\<lambda>v. v\<lparr>vt_regfile_fp := True\<rparr>) vo', h'))"

text \<open>The record loop of \<^verbatim>\<open>asmtest_valtrace_append\<close>.\<close>

definition append_rec :: "nat \<Rightarrow> asmtest_valtrace \<Rightarrow> at_val_rec \<Rightarrow> asmtest_valtrace" where
  "append_rec step_idx v r =
     (case vt_recs v of
        None \<Rightarrow> v\<lparr>vt_truncated := True\<rparr>
      | Some rs \<Rightarrow> if length rs < vt_recs_cap v
                   then v\<lparr>vt_recs := Some (rs @ [r\<lparr>vr_step := step_idx\<rparr>])\<rparr>
                   else v\<lparr>vt_truncated := True\<rparr>)"

definition valtrace_append :: "asmtest_valtrace \<Rightarrow> u64 \<Rightarrow> at_val_rec list \<Rightarrow> asmtest_valtrace" where
  "valtrace_append v off recs =
     (let v1 = v\<lparr>vt_steps_total := vt_steps_total v + 1,
                 vt_recs_total := vt_recs_total v + of_nat (length recs)\<rparr>
      in case vt_insn_off v1 of
           None \<Rightarrow> v1\<lparr>vt_truncated := True\<rparr>
         | Some xs \<Rightarrow>
             if \<not> length xs < vt_steps_cap v1 then v1\<lparr>vt_truncated := True\<rparr>
             else foldl (append_rec (length xs mod 2 ^ 32)) (v1\<lparr>vt_insn_off := Some (xs @ [off])\<rparr>) recs)"

definition asmtest_valtrace_append ::
  "asmtest_valtrace option \<Rightarrow> u64 \<Rightarrow> at_val_rec list \<Rightarrow> asmtest_valtrace option" where
  "asmtest_valtrace_append vo off recs = map_option (\<lambda>v. valtrace_append v off recs) vo"

text \<open>\<open>None\<close> in the first component is \<^verbatim>\<open>(size_t)-1\<close>.\<close>

definition asmtest_valtrace_stash_wide ::
  "asmtest_valtrace option \<Rightarrow> u8 list \<Rightarrow> nat option \<times> asmtest_valtrace option" where
  "asmtest_valtrace_stash_wide vo bytes =
     (case vo of None \<Rightarrow> (None, None)
      | Some v \<Rightarrow>
        if bytes = [] then (None, vo)
        else case vt_wide v of
               None \<Rightarrow> (None, Some (v\<lparr>vt_truncated := True\<rparr>))
             | Some w \<Rightarrow> if sz_add (length w) (length bytes) > vt_wide_cap v
                         then (None, Some (v\<lparr>vt_truncated := True\<rparr>))
                         else (Some (length w), Some (v\<lparr>vt_wide := Some (w @ bytes)\<rparr>)))"

definition asmtest_valtrace_steps :: "asmtest_valtrace option \<Rightarrow> nat" where
  "asmtest_valtrace_steps vo = (case vo of None \<Rightarrow> 0 | Some v \<Rightarrow> vt_steps_len v)"

definition asmtest_valtrace_recs :: "asmtest_valtrace option \<Rightarrow> nat" where
  "asmtest_valtrace_recs vo = (case vo of None \<Rightarrow> 0 | Some v \<Rightarrow> vt_recs_len v)"

section \<open>One append\<close>

abbreviation stamp :: "nat \<Rightarrow> at_val_rec \<Rightarrow> at_val_rec" where
  "stamp s r \<equiv> r\<lparr>vr_step := s\<rparr>"

lemma append_recs_fields:
  "vt_insn_off (foldl (append_rec i) v rs) = vt_insn_off v"
  "vt_steps_cap (foldl (append_rec i) v rs) = vt_steps_cap v"
  "vt_recs_cap (foldl (append_rec i) v rs) = vt_recs_cap v"
  "vt_steps_total (foldl (append_rec i) v rs) = vt_steps_total v"
  "vt_recs_total (foldl (append_rec i) v rs) = vt_recs_total v"
  by (induction rs arbitrary: v) (auto simp: append_rec_def split: option.split)

lemma append_recs_recs:
  "vt_recs (foldl (append_rec i) v rs) =
     map_option (\<lambda>xs. xs @ take (vt_recs_cap v - length xs) (map (stamp i) rs)) (vt_recs v)"
proof (induction rs arbitrary: v)
  case Nil
  then show ?case by (simp add: option.map_ident)
next
  case (Cons r rs)
  then show ?case
    by (auto simp: append_rec_def take_Cons' Suc_diff_le [symmetric] option.map_comp
        split: option.split)
qed

lemma append_recs_truncated:
  "vt_recs v = Some xs \<Longrightarrow> length xs \<le> vt_recs_cap v \<Longrightarrow>
   vt_truncated (foldl (append_rec i) v rs) \<longleftrightarrow> vt_truncated v \<or> vt_recs_cap v < length xs + length rs"
  by (induction rs arbitrary: v xs) (auto simp: append_rec_def)

lemmas append_recs_laws = append_recs_fields append_recs_recs

lemma valtrace_append_fields [sink_laws]:
  "vt_steps_cap (valtrace_append v off rs) = vt_steps_cap v"
  "vt_recs_cap (valtrace_append v off rs) = vt_recs_cap v"
  "vt_steps_total (valtrace_append v off rs) = vt_steps_total v + 1"
  "vt_recs_total (valtrace_append v off rs) = vt_recs_total v + of_nat (length rs)"
  by (auto simp: valtrace_append_def Let_def append_recs_laws split: option.split)

lemma valtrace_append_insn_off [sink_laws]:
  "vt_insn_off (valtrace_append v off rs) =
     map_option (\<lambda>xs. xs @ take (vt_steps_cap v - length xs) [off]) (vt_insn_off v)"
  by (auto simp: valtrace_append_def Let_def append_recs_laws split: option.split)

lemma valtrace_append_recs [sink_laws]:
  "vt_recs (valtrace_append v off rs) =
     (case vt_insn_off v of
        None \<Rightarrow> vt_recs v
      | Some xs \<Rightarrow> if length xs < vt_steps_cap v
          then map_option (\<lambda>ys. ys @ take (vt_recs_cap v - length ys)
                 (map (stamp (length xs mod 2 ^ 32)) rs)) (vt_recs v)
          else vt_recs v)"
  by (auto simp: valtrace_append_def Let_def append_recs_laws split: option.split)

section \<open>Runs\<close>

text \<open>A producer's run: the offset and operand records of each executed step, in order.\<close>

type_synonym vstep = "u64 \<times> at_val_rec list"

definition valtrace_step :: "asmtest_valtrace \<Rightarrow> vstep \<Rightarrow> asmtest_valtrace" where
  "valtrace_step v s = valtrace_append v (fst s) (snd s)"

definition valtrace_run :: "asmtest_valtrace \<Rightarrow> vstep list \<Rightarrow> asmtest_valtrace" where
  "valtrace_run v ss = foldl valtrace_step v ss"

interpretation vst: bounded_sink valtrace_step "\<lambda>s. [fst s]" "\<lambda>v. vt_insn_off v \<noteq> None"
    "\<lambda>v. buf_of (vt_insn_off v)" vt_steps_cap
  by unfold_locales (auto simp: valtrace_step_def sink_laws)

definition fresh_valtrace :: "nat \<Rightarrow> nat \<Rightarrow> asmtest_valtrace" where
  "fresh_valtrace sc rc = zero_valtrace\<lparr>vt_insn_off := Some [], vt_steps_cap := sc,
      vt_recs := Some [], vt_recs_cap := rc, vt_mem_space := AT_LOC_MEM_ABS\<rparr>"

lemma valtrace_new_fresh:
  "0 < sc \<Longrightarrow> 0 < rc \<Longrightarrow> asmtest_valtrace_new [] sc rc 0 = (Some (fresh_valtrace sc rc), [])"
  by (simp add: asmtest_valtrace_new_def opt_calloc_def fresh_valtrace_def zero_valtrace_def)

text \<open>The operand stream of a run: each step's records stamped with its index.\<close>

definition stamped :: "vstep list \<Rightarrow> at_val_rec list" where
  "stamped ss = concat (map (\<lambda>(i, s). map (stamp (i mod 2 ^ 32)) (snd s)) (enumerate 0 ss))"

lemma stamped_snoc: "stamped (ss @ [s]) = stamped ss @ map (stamp (length ss mod 2 ^ 32)) (snd s)"
  by (simp add: stamped_def enumerate_append_eq)

lemma stamped_Nil [simp]: "stamped [] = []"
  by (simp add: stamped_def)

lemma fresh_valtrace_offs:
  "buf_of (vt_insn_off (valtrace_run (fresh_valtrace sc rc) ss)) = take sc (map fst ss)"
  using vst.items_run [of "fresh_valtrace sc rc" ss]
  by (simp add: fresh_valtrace_def valtrace_run_def concat_map_singleton)

lemma fresh_valtrace_invar:
  "vt_insn_off (valtrace_run (fresh_valtrace sc rc) ss) \<noteq> None"
  "vt_steps_cap (valtrace_run (fresh_valtrace sc rc) ss) = sc"
  using vst.invar_run [of "fresh_valtrace sc rc" ss] vst.cap_run [of "fresh_valtrace sc rc" ss]
  by (simp_all add: fresh_valtrace_def valtrace_run_def)

lemma fresh_valtrace_offs_Some:
  "vt_insn_off (valtrace_run (fresh_valtrace sc rc) ss) = Some (take sc (map fst ss))"
  using fresh_valtrace_offs [of sc rc ss] fresh_valtrace_invar(1) [of sc rc ss] by auto

lemma valtrace_run_rcap: "vt_recs_cap (valtrace_run v ss) = vt_recs_cap v"
  by (induction ss arbitrary: v) (simp_all add: valtrace_run_def valtrace_step_def sink_laws)

lemma fresh_valtrace_recs:
  "vt_recs (valtrace_run (fresh_valtrace sc rc) ss) = Some (take rc (stamped (take sc ss)))"
proof (induction ss rule: rev_induct)
  case Nil
  then show ?case by (simp add: valtrace_run_def fresh_valtrace_def)
next
  case (snoc s ss)
  let ?v = "valtrace_run (fresh_valtrace sc rc) ss"
  have c: "vt_recs_cap ?v = rc" by (simp add: valtrace_run_rcap fresh_valtrace_def)
  have "valtrace_run (fresh_valtrace sc rc) (ss @ [s]) = valtrace_append ?v (fst s) (snd s)"
    by (simp add: valtrace_run_def valtrace_step_def)
  with snoc c show ?case
    by (cases "length ss < sc")
      (simp_all add: sink_laws fresh_valtrace_offs_Some fresh_valtrace_invar stamped_snoc min_def)
qed

lemma fresh_valtrace_truncated:
  "vt_truncated (valtrace_run (fresh_valtrace sc rc) ss) \<longleftrightarrow>
     sc < length ss \<or> rc < length (stamped (take sc ss))"
proof (induction ss rule: rev_induct)
  case Nil
  then show ?case by (simp add: valtrace_run_def fresh_valtrace_def zero_valtrace_def)
next
  case (snoc s ss)
  let ?v = "valtrace_run (fresh_valtrace sc rc) ss"
  have c: "vt_recs_cap ?v = rc" by (simp add: valtrace_run_rcap fresh_valtrace_def)
  let ?v1 = "?v\<lparr>vt_steps_total := vt_steps_total ?v + 1,
       vt_recs_total := vt_recs_total ?v + of_nat (length (snd s)),
       vt_insn_off := Some (take sc (map fst ss) @ [fst s])\<rparr>"
  have "vt_truncated (foldl (append_rec i) ?v1 (snd s)) \<longleftrightarrow>
      vt_truncated ?v \<or> rc < min rc (length (stamped (take sc ss))) + length (snd s)" for i
    using append_recs_truncated [of ?v1 _ i "snd s"] fresh_valtrace_recs [of sc rc ss] c
    by (simp add: min.commute)
  with snoc show ?case
    by (auto simp: valtrace_run_def valtrace_step_def valtrace_append_def Let_def stamped_snoc min_def
        fresh_valtrace_offs_Some [unfolded valtrace_run_def]
        fresh_valtrace_invar(2) [unfolded valtrace_run_def] split: if_splits)
qed

text \<open>The append contract the def-use builder relies on: records grouped by ascending step.\<close>

lemma stamped_steps: "length ss \<le> 2 ^ 32 \<Longrightarrow> r \<in> set (stamped ss) \<Longrightarrow> vr_step r < length ss"
  by (induction ss rule: rev_induct) (auto simp: stamped_snoc less_SucI)

lemma sorted_stamped: "length ss \<le> 2 ^ 32 \<Longrightarrow> sorted (map vr_step (stamped ss))"
proof (induction ss rule: rev_induct)
  case (snoc s ss)
  then have "length ss \<le> 2 ^ 32" by simp
  moreover have "length ss mod 2 ^ 32 = length ss" using snoc.prems by simp
  ultimately show ?case
    using snoc stamped_steps [of ss]
    by (auto simp: stamped_snoc sorted_append o_def sorted_wrt_map simp flip: map_replicate_const
        intro: less_imp_le)
qed simp

end
