(* ===== verification/Open_Addressing.thy ===== *)
theory Open_Addressing
  imports Prelude
begin

text \<open>
  Open-addressed hash tables with linear probing, as the last-writer map of
  \<^verbatim>\<open>src/src/dataflow.c\<close> uses them: a power-of-two array, the home slot of a key is its hash masked
  by \<open>cap - 1\<close>, a probe moves to \<^verbatim>\<open>(j + 1) & (cap - 1)\<close> while the slot is used by another key. A
  slot is \<open>None\<close> where its \<^verbatim>\<open>used\<close> byte is 0. The probe loop of the C code ends only at a free slot
  or at the key; after \<open>cap\<close> moves without either it has seen every slot and would go round for
  ever, which is the answer \<open>Spin\<close>. The lemmas show that \<open>Spin\<close> cannot happen while one slot is
  free, and that probing implements a finite map from keys to entries.
\<close>

datatype probe_result = Hit nat | Free nat | Spin

definition oa_next :: "nat \<Rightarrow> nat \<Rightarrow> nat" where
  "oa_next cap j = (j + 1) AND (cap - 1)"

definition oa_slot :: "u64 \<Rightarrow> nat \<Rightarrow> nat" where
  "oa_slot h cap = unat h AND (cap - 1)"

fun probe :: "nat \<Rightarrow> 'e option list \<Rightarrow> ('e \<Rightarrow> bool) \<Rightarrow> nat \<Rightarrow> probe_result" where
  "probe 0 tab p j = Spin"
| "probe (Suc n) tab p j =
     (case tab ! j of None \<Rightarrow> Free j
      | Some e \<Rightarrow> if p e then Hit j else probe n tab p (oa_next (length tab) j))"

definition oa_find :: "'e option list \<Rightarrow> ('e \<Rightarrow> bool) \<Rightarrow> u64 \<Rightarrow> probe_result" where
  "oa_find tab p h = probe (length tab) tab p (oa_slot h (length tab))"

text \<open>Re-insertion into a larger array: each used entry goes to the first free slot from its home.\<close>

definition oa_place :: "('e \<Rightarrow> u64) \<Rightarrow> 'e option list \<Rightarrow> 'e \<Rightarrow> 'e option list" where
  "oa_place hf ne e = (case oa_find ne (\<lambda>_. False) (hf e) of Free j \<Rightarrow> ne[j := Some e] | _ \<Rightarrow> ne)"

definition oa_rehash :: "('e \<Rightarrow> u64) \<Rightarrow> 'e option list \<Rightarrow> 'e option list \<Rightarrow> 'e option list" where
  "oa_rehash hf ne tab =
     foldl (\<lambda>ne eo. case eo of None \<Rightarrow> ne | Some e \<Rightarrow> oa_place hf ne e) ne tab"

text \<open>The used slots.\<close>

definition oa_ents :: "'e option list \<Rightarrow> 'e list" where
  "oa_ents tab = map the (filter (\<lambda>x. x \<noteq> None) tab)"

abbreviation oa_used :: "'e option list \<Rightarrow> nat" where
  "oa_used tab \<equiv> length (oa_ents tab)"

lemma set_oa_ents [simp]: "e \<in> set (oa_ents tab) \<longleftrightarrow> Some e \<in> set tab"
  by (force simp: oa_ents_def)

lemma oa_ents_simps [simp]:
  "oa_ents [] = []" "oa_ents (None # tab) = oa_ents tab" "oa_ents (Some e # tab) = e # oa_ents tab"
  by (simp_all add: oa_ents_def)

lemma oa_used_le: "oa_used tab \<le> length tab"
  by (simp add: oa_ents_def)

lemma oa_free_slot: "None \<in> set tab \<longleftrightarrow> oa_used tab < length tab"
proof (induction tab)
  case (Cons x tab)
  then show ?case using oa_used_le [of tab] by (cases x) auto
qed simp

lemma oa_used_update:
  "j < length tab \<Longrightarrow> oa_used (tab[j := Some e]) = (if tab ! j = None then Suc (oa_used tab) else oa_used tab)"
proof (induction tab arbitrary: j)
  case (Cons x tab)
  then show ?case by (cases x; cases j) auto
qed simp

lemma oa_rehash_ents: "oa_rehash hf ne tab = foldl (oa_place hf) ne (oa_ents tab)"
  unfolding oa_rehash_def
proof (induction tab arbitrary: ne)
  case (Cons x tab)
  then show ?case by (cases x) simp_all
qed simp

lemma distinct_key_ents:
  "(\<And>i j e e'. i < length tab \<Longrightarrow> j < length tab \<Longrightarrow> tab ! i = Some e \<Longrightarrow> tab ! j = Some e' \<Longrightarrow>
      key e = key e' \<Longrightarrow> i = j) \<Longrightarrow> distinct (map key (oa_ents tab))"
proof (induction tab)
  case (Cons x tab)
  have "i = j" if "i < length tab" "j < length tab" "tab ! i = Some e" "tab ! j = Some e'" "key e = key e'"
    for i j e e'
    using Cons.prems [of "Suc i" "Suc j" e e'] that by simp
  then have d: "distinct (map key (oa_ents tab))" by (intro Cons.IH) blast
  have "key e \<notin> key ` set (oa_ents tab)" if "x = Some e" for e
  proof
    assume "key e \<in> key ` set (oa_ents tab)"
    then obtain e' where "key e = key e'" "Some e' \<in> set tab" by auto
    then obtain j where "j < length tab" "tab ! j = Some e'" "key e = key e'"
      by (auto simp: in_set_conv_nth)
    with Cons.prems [of 0 "Suc j" e e'] that show False by simp
  qed
  with d show ?case by (cases x) simp_all
qed simp

section \<open>Masks are remainders\<close>

lemma and_mask_mod: "cap = 2 ^ k \<Longrightarrow> (n::nat) AND (cap - 1) = n mod cap"
  by (metis mask_eq_exp_minus_1 take_bit_eq_mask take_bit_eq_mod)

lemma oa_next_mod: "cap = 2 ^ k \<Longrightarrow> oa_next cap j = (j + 1) mod cap"
  unfolding oa_next_def by (rule and_mask_mod)

lemma oa_slot_less: "cap = 2 ^ k \<Longrightarrow> oa_slot h cap < cap"
  unfolding oa_slot_def by (subst and_mask_mod) simp_all

section \<open>The probe sequence\<close>

text \<open>Slot \<open>d\<close> of the probe sequence that starts at \<open>j\<close>.\<close>

abbreviation seq :: "'e option list \<Rightarrow> nat \<Rightarrow> nat \<Rightarrow> 'e option" where
  "seq tab j d \<equiv> tab ! ((j + d) mod length tab)"

definition busy :: "'e option list \<Rightarrow> ('e \<Rightarrow> bool) \<Rightarrow> nat \<Rightarrow> nat \<Rightarrow> bool" where
  "busy tab p j n \<longleftrightarrow> (\<forall>d<n. \<exists>e. seq tab j d = Some e \<and> \<not> p e)"

lemma probe_walk:
  "length tab = 2 ^ k \<Longrightarrow> j < length tab \<Longrightarrow> busy tab p j n \<Longrightarrow>
   probe (n + m) tab p j = probe m tab p ((j + n) mod length tab)"
proof (induction n arbitrary: j)
  case (Suc n)
  let ?j = "(j + 1) mod length tab"
  from Suc.prems(3) obtain e where e: "tab ! j = Some e" "\<not> p e"
    using Suc.prems(2) by (force simp: busy_def)
  have "seq tab ?j d = seq tab j (Suc d)" for d by (simp add: mod_add_left_eq)
  then have "busy tab p ?j n" using Suc.prems(3) by (auto simp: busy_def)
  then have "probe (n + m) tab p ?j = probe m tab p ((?j + n) mod length tab)"
    using Suc.prems by (intro Suc.IH) auto
  with e Suc.prems(1) show ?case by (simp add: oa_next_mod [of _ k] mod_add_left_eq)
qed simp

lemma probe_stop:
  assumes "length tab = 2 ^ k" "j < length tab" "busy tab p j n" "n < length tab"
  shows "seq tab j n = None \<Longrightarrow> probe (length tab) tab p j = Free ((j + n) mod length tab)"
    and "seq tab j n = Some e \<Longrightarrow> p e \<Longrightarrow> probe (length tab) tab p j = Hit ((j + n) mod length tab)"
proof -
  define i where "i = (j + n) mod length tab"
  obtain m where m: "n + Suc m = length tab" using assms(4) less_imp_Suc_add by (metis add_Suc_right)
  have "probe (n + Suc m) tab p j = probe (Suc m) tab p i"
    unfolding i_def by (rule probe_walk [OF assms(1-3)])
  then have w: "probe (length tab) tab p j = probe (Suc m) tab p i" by (simp only: m)
  show "probe (length tab) tab p j = Free ((j + n) mod length tab)" if "seq tab j n = None"
    using that unfolding w i_def [symmetric] by simp
  show "probe (length tab) tab p j = Hit ((j + n) mod length tab)" if "seq tab j n = Some e" "p e"
    using that unfolding w i_def [symmetric] by simp
qed

text \<open>A free slot anywhere ends every probe.\<close>

lemma seq_covers:
  assumes "j < (cap::nat)" "i < cap"
  shows "\<exists>d<cap. (j + d) mod cap = i"
proof (cases "j \<le> i")
  case True
  with assms show ?thesis by (intro exI [of _ "i - j"]) auto
next
  case False
  then have "j + (cap - j + i) = cap + i" using assms by simp
  then have "(j + (cap - j + i)) mod cap = i" using assms by simp
  with False assms show ?thesis by (intro exI [of _ "cap - j + i"]) auto
qed

lemma probe_ends:
  assumes "length tab = 2 ^ k" "j < length tab" "None \<in> set tab"
  obtains n where "n < length tab" "busy tab p j n"
    "seq tab j n = None \<or> (\<exists>e. seq tab j n = Some e \<and> p e)"
proof -
  let ?Q = "\<lambda>n. seq tab j n = None \<or> (\<exists>e. seq tab j n = Some e \<and> p e)"
  from assms(3) obtain i where "i < length tab" "tab ! i = None" by (auto simp: in_set_conv_nth)
  then obtain d where d: "d < length tab" "?Q d" using seq_covers [OF assms(2)] by metis
  define n where "n = (LEAST n. ?Q n)"
  have "?Q n" unfolding n_def by (rule LeastI [of ?Q, OF d(2)])
  moreover have "n \<le> d" unfolding n_def by (rule Least_le [of ?Q, OF d(2)])
  moreover have "busy tab p j n"
    unfolding busy_def
  proof (intro allI impI)
    fix d assume "d < n"
    then have "\<not> ?Q d" unfolding n_def by (rule not_less_Least)
    then show "\<exists>e. seq tab j d = Some e \<and> \<not> p e" by (cases "seq tab j d") simp_all
  qed
  ultimately show ?thesis using d(1) by (intro that [of n]) simp_all
qed

lemma probe_Hit: "probe n tab p j = Hit i \<Longrightarrow> \<exists>e. tab ! i = Some e \<and> p e"
  by (induction n arbitrary: j) (auto split: option.splits if_splits)

lemma probe_Hit_less:
  "probe n tab p j = Hit i \<Longrightarrow> length tab = 2 ^ k \<Longrightarrow> j < length tab \<Longrightarrow> i < length tab"
  by (induction n arbitrary: j) (auto simp: oa_next_mod [of _ k] split: option.splits if_splits)

lemma probe_cong: "(\<And>e. Some e \<in> set tab \<Longrightarrow> p e = q e) \<Longrightarrow> length tab = 2 ^ k \<Longrightarrow> j < length tab \<Longrightarrow>
   probe n tab p j = probe n tab q j"
proof (induction n arbitrary: j)
  case (Suc n)
  have "oa_next (length tab) j < length tab" using Suc.prems by (simp add: oa_next_mod [of _ k])
  with Suc have "probe n tab p (oa_next (length tab) j) = probe n tab q (oa_next (length tab) j)" by blast
  with Suc.prems show ?case
    by (auto split: option.splits) (metis nth_mem)+
qed simp

section \<open>The table as a map\<close>

locale open_addressing =
  fixes key :: "'e \<Rightarrow> 'k" and hash :: "'k \<Rightarrow> u64"
begin

abbreviation matches :: "'k \<Rightarrow> 'e \<Rightarrow> bool" where
  "matches k e \<equiv> key e = k"

text \<open>
  Every entry sits on the probe sequence of its own key with no free slot and no entry of the
  same key before it.
\<close>

definition chained :: "'e option list \<Rightarrow> bool" where
  "chained tab \<longleftrightarrow> (\<forall>i<length tab. \<forall>e. tab ! i = Some e \<longrightarrow>
     (\<exists>d<length tab. (oa_slot (hash (key e)) (length tab) + d) mod length tab = i \<and>
        busy tab (matches (key e)) (oa_slot (hash (key e)) (length tab)) d))"

definition table_ok :: "'e option list \<Rightarrow> bool" where
  "table_ok tab \<longleftrightarrow> (\<exists>k. length tab = 2 ^ k) \<and> None \<in> set tab \<and> chained tab"

definition tget :: "'e option list \<Rightarrow> 'k \<Rightarrow> 'e option" where
  "tget tab k = (case oa_find tab (matches k) (hash k) of Hit j \<Rightarrow> tab ! j | _ \<Rightarrow> None)"

lemma table_ok_find_at:
  assumes "table_ok tab" "i < length tab" "tab ! i = Some e"
  shows "oa_find tab (matches (key e)) (hash (key e)) = Hit i"
proof -
  let ?j = "oa_slot (hash (key e)) (length tab)"
  from assms(1) obtain k where k: "length tab = 2 ^ k" by (auto simp: table_ok_def)
  from assms obtain d where "d < length tab" "(?j + d) mod length tab = i" "busy tab (matches (key e)) ?j d"
    by (auto simp: table_ok_def chained_def)
  with probe_stop(2) [OF k oa_slot_less [OF k], of "matches (key e)" "hash (key e)" d e] assms(3)
  show ?thesis by (auto simp: oa_find_def)
qed

lemma find_not_Spin:
  assumes "table_ok tab"
  shows "oa_find tab p h \<noteq> Spin"
proof -
  from assms obtain k where k: "length tab = 2 ^ k" and n: "None \<in> set tab" by (auto simp: table_ok_def)
  show ?thesis
    using probe_ends [OF k oa_slot_less [OF k, of h] n, of p] probe_stop [OF k oa_slot_less [OF k, of h]]
    unfolding oa_find_def by (metis probe_result.distinct(3,5))
qed

lemma tget_Some: "table_ok tab \<Longrightarrow> tget tab k = Some e \<longleftrightarrow> Some e \<in> set tab \<and> key e = k"
proof
  assume ok: "table_ok tab" and "tget tab k = Some e"
  then obtain j where j: "oa_find tab (matches k) (hash k) = Hit j" "tab ! j = Some e"
    by (auto simp: tget_def split: probe_result.splits)
  from ok obtain n where "length tab = 2 ^ n" by (auto simp: table_ok_def)
  with j show "Some e \<in> set tab \<and> key e = k"
    using probe_Hit [of _ tab "matches k"] probe_Hit_less [of _ tab "matches k"] oa_slot_less
    unfolding oa_find_def by (metis nth_mem option.inject)
next
  assume ok: "table_ok tab" and "Some e \<in> set tab \<and> key e = k"
  then obtain i where "i < length tab" "tab ! i = Some e" "key e = k" by (auto simp: in_set_conv_nth)
  with table_ok_find_at [OF ok] show "tget tab k = Some e" by (auto simp: tget_def)
qed

lemma find_Free_None: "table_ok tab \<Longrightarrow> oa_find tab (matches k) (hash k) = Free j \<Longrightarrow> tget tab k = None"
  by (simp add: tget_def)

lemma distinct_keys:
  "table_ok tab \<Longrightarrow> i < length tab \<Longrightarrow> j < length tab \<Longrightarrow> tab ! i = Some e \<Longrightarrow> tab ! j = Some e' \<Longrightarrow>
   key e = key e' \<Longrightarrow> i = j"
  by (metis table_ok_find_at probe_result.inject(1))

lemma find_Free:
  assumes "table_ok tab" "oa_find tab p h = Free j"
  obtains n where "n < length tab" "busy tab p (oa_slot h (length tab)) n"
    "(oa_slot h (length tab) + n) mod length tab = j" "tab ! j = None" "j < length tab"
proof -
  from assms(1) obtain k where k: "length tab = 2 ^ k" and nn: "None \<in> set tab" by (auto simp: table_ok_def)
  note s = oa_slot_less [OF k, of h]
  obtain n where n: "n < length tab" "busy tab p (oa_slot h (length tab)) n"
    "seq tab (oa_slot h (length tab)) n = None \<or>
     (\<exists>e. seq tab (oa_slot h (length tab)) n = Some e \<and> p e)"
    by (rule probe_ends [OF k s nn])
  with probe_stop [OF k s n(2,1)] assms(2) have
    "seq tab (oa_slot h (length tab)) n = None" "(oa_slot h (length tab) + n) mod length tab = j"
    unfolding oa_find_def by (metis probe_result.distinct(1), metis probe_result.distinct(1) probe_result.inject(2))
  moreover have "0 < length tab" using n(1) by (rule le_less_trans [OF le0])
  ultimately show ?thesis using n by (intro that [of n]) auto
qed

lemma busy_insert: "tab ! j = None \<Longrightarrow> busy tab p i d \<Longrightarrow> busy (tab[j := Some e]) p i d"
  unfolding busy_def by (metis length_list_update nth_list_update_neq option.distinct(1))

lemma insert_Free:
  assumes "table_ok tab" "oa_find tab (matches (key e)) (hash (key e)) = Free j"
    "Suc (oa_used tab) < length tab"
  shows "table_ok (tab[j := Some e])"
    and "Some x \<in> set (tab[j := Some e]) \<longleftrightarrow> x = e \<or> Some x \<in> set tab"
    and "oa_used (tab[j := Some e]) = Suc (oa_used tab)"
proof -
  obtain n where n: "n < length tab" "busy tab (matches (key e)) (oa_slot (hash (key e)) (length tab)) n"
    "(oa_slot (hash (key e)) (length tab) + n) mod length tab = j" "tab ! j = None" "j < length tab"
    by (rule find_Free [OF assms(1,2)])
  have "chained (tab[j := Some e])"
    unfolding chained_def
  proof (intro allI impI)
    fix i x assume i: "i < length (tab[j := Some e])" and x: "tab[j := Some e] ! i = Some x"
    let ?h = "oa_slot (hash (key x)) (length (tab[j := Some e]))"
    show "\<exists>d<length (tab[j := Some e]). (?h + d) mod length (tab[j := Some e]) = i \<and>
        busy (tab[j := Some e]) (matches (key x)) ?h d"
    proof (cases "i = j")
      case True
      with x n(5) have "x = e" by simp
      with n True busy_insert [OF n(4,2), of e] show ?thesis by auto
    next
      case False
      with x have "tab ! i = Some x" by simp
      with assms(1) i obtain d where "d < length tab"
        "(oa_slot (hash (key x)) (length tab) + d) mod length tab = i"
        "busy tab (matches (key x)) (oa_slot (hash (key x)) (length tab)) d"
        by (auto simp: table_ok_def chained_def)
      with busy_insert [OF n(4)] show ?thesis by auto
    qed
  qed
  moreover have used: "oa_used (tab[j := Some e]) = Suc (oa_used tab)"
    using n by (simp add: oa_used_update)
  ultimately show "table_ok (tab[j := Some e])"
    using assms(1,3) by (simp add: table_ok_def oa_free_slot)
  show "oa_used (tab[j := Some e]) = Suc (oa_used tab)" by (rule used)
  show "Some x \<in> set (tab[j := Some e]) \<longleftrightarrow> x = e \<or> Some x \<in> set tab"
    using n(4,5) by (auto simp: in_set_conv_nth nth_list_update split: if_splits) (metis option.distinct(1))
qed

lemma update_Hit:
  assumes "table_ok tab" "oa_find tab (matches (key e)) (hash (key e)) = Hit j"
  shows "table_ok (tab[j := Some e])"
    and "Some x \<in> set (tab[j := Some e]) \<longleftrightarrow> x = e \<or> (Some x \<in> set tab \<and> key x \<noteq> key e)"
    and "oa_used (tab[j := Some e]) = oa_used tab"
proof -
  from assms(1) obtain k where k: "length tab = 2 ^ k" by (auto simp: table_ok_def)
  from assms(2) have j: "j < length tab"
    unfolding oa_find_def using probe_Hit_less oa_slot_less k by metis
  from assms(2) obtain e0 where e0: "tab ! j = Some e0" "key e0 = key e"
    unfolding oa_find_def using probe_Hit by blast
  have b: "busy (tab[j := Some e]) (matches q) i d" if "busy tab (matches q) i d" for q i d
    using that e0 j unfolding busy_def
    by (metis length_list_update nth_list_update_eq nth_list_update_neq option.inject)
  have "chained (tab[j := Some e])"
    unfolding chained_def
  proof (intro allI impI)
    fix i x assume i: "i < length (tab[j := Some e])" and x: "tab[j := Some e] ! i = Some x"
    then obtain x0 where "tab ! i = Some x0" "key x0 = key x"
      using e0 j by (cases "i = j") auto
    with assms(1) i obtain d where "d < length tab"
      "(oa_slot (hash (key x)) (length tab) + d) mod length tab = i"
      "busy tab (matches (key x)) (oa_slot (hash (key x)) (length tab)) d"
      unfolding table_ok_def chained_def by (metis length_list_update)
    with b show "\<exists>d<length (tab[j := Some e]).
        (oa_slot (hash (key x)) (length (tab[j := Some e])) + d) mod length (tab[j := Some e]) = i \<and>
        busy (tab[j := Some e]) (matches (key x)) (oa_slot (hash (key x)) (length (tab[j := Some e]))) d"
      by auto
  qed
  moreover show used: "oa_used (tab[j := Some e]) = oa_used tab"
    using j e0 by (simp add: oa_used_update)
  ultimately show "table_ok (tab[j := Some e])"
    using assms(1) by (simp add: table_ok_def oa_free_slot)
  have uniq: "i = j" if "i < length tab" "tab ! i = Some x" "key x = key e" for i x
    using distinct_keys [OF assms(1) that(1) j that(2) e0(1)] that(3) e0(2) by simp
  show "Some x \<in> set (tab[j := Some e]) \<longleftrightarrow> x = e \<or> (Some x \<in> set tab \<and> key x \<noteq> key e)"
  proof
    assume "Some x \<in> set (tab[j := Some e])"
    then obtain i where i: "i < length tab" "tab[j := Some e] ! i = Some x"
      by (auto simp: in_set_conv_nth)
    show "x = e \<or> (Some x \<in> set tab \<and> key x \<noteq> key e)"
    proof (cases "i = j")
      case False
      then have "tab ! i = Some x" using i by simp
      with i(1) False uniq [of i x] nth_mem [of i tab] show ?thesis by auto
    qed (use i j in simp)
  next
    assume "x = e \<or> (Some x \<in> set tab \<and> key x \<noteq> key e)"
    then show "Some x \<in> set (tab[j := Some e])"
    proof
      assume "x = e"
      with j show ?thesis by (simp add: set_update_memI)
    next
      assume x: "Some x \<in> set tab \<and> key x \<noteq> key e"
      then obtain i where i: "i < length tab" "tab ! i = Some x" by (auto simp: in_set_conv_nth)
      with x e0 have "i \<noteq> j" by auto
      with i nth_mem [of i "tab[j := Some e]"] show ?thesis by simp
    qed
  qed
qed

text \<open>Both ways of storing an entry are the map update at its key.\<close>

lemma tget_eqI:
  assumes "table_ok tab" "table_ok tab'"
    and "\<And>x. Some x \<in> set tab' \<longleftrightarrow> x = e \<or> (Some x \<in> set tab \<and> key x \<noteq> key e)"
  shows "tget tab' = (tget tab)(key e \<mapsto> e)"
proof (rule ext)
  fix k
  have "tget tab' k = Some x \<longleftrightarrow> ((tget tab)(key e \<mapsto> e)) k = Some x" for x
    using assms(3) [of x] by (auto simp: tget_Some [OF assms(1)] tget_Some [OF assms(2)])
  then show "tget tab' k = ((tget tab)(key e \<mapsto> e)) k"
    by (metis not_None_eq)
qed

lemma tget_update_Hit:
  "table_ok tab \<Longrightarrow> oa_find tab (matches (key e)) (hash (key e)) = Hit j \<Longrightarrow>
   tget (tab[j := Some e]) = (tget tab)(key e \<mapsto> e)"
  by (rule tget_eqI) (simp_all add: update_Hit)

lemma tget_insert_Free:
  assumes "table_ok tab" "oa_find tab (matches (key e)) (hash (key e)) = Free j"
    "Suc (oa_used tab) < length tab"
  shows "tget (tab[j := Some e]) = (tget tab)(key e \<mapsto> e)"
proof (rule tget_eqI)
  have "tget tab (key e) = None" by (rule find_Free_None [OF assms(1,2)])
  then have "Some x \<in> set tab \<Longrightarrow> key x \<noteq> key e" for x
    using tget_Some [OF assms(1), of "key e" x] by force
  then show "Some x \<in> set (tab[j := Some e]) \<longleftrightarrow> x = e \<or> (Some x \<in> set tab \<and> key x \<noteq> key e)" for x
    using insert_Free(2) [OF assms] by blast
qed (use insert_Free [OF assms] assms in auto)

lemma find_False:
  assumes "table_ok tab" "tget tab (key e) = None"
  shows "oa_find tab (\<lambda>_. False) (hash (key e)) = oa_find tab (matches (key e)) (hash (key e))"
proof -
  from assms(1) obtain k where k: "length tab = 2 ^ k" by (auto simp: table_ok_def)
  show ?thesis
    unfolding oa_find_def
  proof (rule probe_cong [OF _ k oa_slot_less [OF k]])
    show "False = matches (key e) x" if "Some x \<in> set tab" for x
      using that tget_Some [OF assms(1), of "key e" x] assms(2) by simp
  qed
qed

lemma place_new:
  assumes "table_ok ne" "tget ne (key e) = None" "Suc (oa_used ne) < length ne"
  shows "table_ok (oa_place (hash \<circ> key) ne e)"
    and "oa_used (oa_place (hash \<circ> key) ne e) = Suc (oa_used ne)"
    and "length (oa_place (hash \<circ> key) ne e) = length ne"
    and "tget (oa_place (hash \<circ> key) ne e) = (tget ne)(key e \<mapsto> e)"
    and "Some x \<in> set (oa_place (hash \<circ> key) ne e) \<longleftrightarrow> x = e \<or> Some x \<in> set ne"
proof -
  obtain j where j: "oa_find ne (matches (key e)) (hash (key e)) = Free j"
  proof (cases "oa_find ne (matches (key e)) (hash (key e))")
    case (Hit i)
    then have "\<exists>x. ne ! i = Some x" unfolding oa_find_def using probe_Hit by blast
    with Hit assms(2) show ?thesis by (auto simp: tget_def)
  qed (use find_not_Spin [OF assms(1)] in auto)
  then have p: "oa_place (hash \<circ> key) ne e = ne[j := Some e]"
    by (simp add: oa_place_def find_False [OF assms(1,2)])
  show "table_ok (oa_place (hash \<circ> key) ne e)"
    "oa_used (oa_place (hash \<circ> key) ne e) = Suc (oa_used ne)"
    "length (oa_place (hash \<circ> key) ne e) = length ne"
    "tget (oa_place (hash \<circ> key) ne e) = (tget ne)(key e \<mapsto> e)"
    "Some x \<in> set (oa_place (hash \<circ> key) ne e) \<longleftrightarrow> x = e \<or> Some x \<in> set ne"
    using insert_Free [OF assms(1) j assms(3)] tget_insert_Free [OF assms(1) j assms(3)]
    by (simp_all add: p)
qed

lemma place_all:
  "table_ok ne \<Longrightarrow> distinct (map key es) \<Longrightarrow> (\<And>e. e \<in> set es \<Longrightarrow> tget ne (key e) = None) \<Longrightarrow>
   oa_used ne + length es < length ne \<Longrightarrow>
   table_ok (foldl (oa_place (hash \<circ> key)) ne es) \<and>
   oa_used (foldl (oa_place (hash \<circ> key)) ne es) = oa_used ne + length es \<and>
   length (foldl (oa_place (hash \<circ> key)) ne es) = length ne \<and>
   (\<forall>x. Some x \<in> set (foldl (oa_place (hash \<circ> key)) ne es) \<longleftrightarrow> x \<in> set es \<or> Some x \<in> set ne)"
proof (induction es arbitrary: ne)
  case (Cons e es)
  let ?ne = "oa_place (hash \<circ> key) ne e"
  have te: "tget ne (key e) = None" and "Suc (oa_used ne) < length ne"
    using Cons.prems(3,4) by simp_all
  note pn = place_new [OF Cons.prems(1) this]
  from Cons.prems(2) have fresh: "key e \<notin> key ` set es" by simp
  have "tget ?ne (key x) = None" if "x \<in> set es" for x
  proof -
    have "key x \<noteq> key e" using that fresh by (metis imageI)
    then show ?thesis using that Cons.prems(3) [of x] pn(4) by simp
  qed
  then have "table_ok (foldl (oa_place (hash \<circ> key)) ?ne es) \<and>
     oa_used (foldl (oa_place (hash \<circ> key)) ?ne es) = oa_used ?ne + length es \<and>
     length (foldl (oa_place (hash \<circ> key)) ?ne es) = length ?ne \<and>
     (\<forall>x. Some x \<in> set (foldl (oa_place (hash \<circ> key)) ?ne es) \<longleftrightarrow> x \<in> set es \<or> Some x \<in> set ?ne)"
    using Cons.prems(2,4) pn(2,3) by (intro Cons.IH [OF pn(1)]) simp_all
  then show ?case unfolding foldl_Cons pn(2,3,5) by auto
qed simp

lemma table_ok_replicate: "table_ok (replicate (2 ^ k) None)"
  by (auto simp: table_ok_def chained_def)

lemma rehash_ok:
  assumes "table_ok tab \<or> tab = []" "oa_used tab < 2 ^ k"
  defines "ne \<equiv> oa_rehash (hash \<circ> key) (replicate (2 ^ k) None) tab"
  shows "table_ok ne \<and> oa_used ne = oa_used tab \<and> length ne = 2 ^ k \<and>
     (\<forall>e. Some e \<in> set ne \<longleftrightarrow> Some e \<in> set tab)"
proof -
  let ?r = "replicate (2 ^ k) None :: 'e option list"
  have r: "oa_used ?r = 0" by (simp add: oa_ents_def)
  have rn: "tget ?r q = None" for q
    using tget_Some [OF table_ok_replicate [of k], of q] by (metis in_set_replicate not_None_eq)
  have d: "distinct (map key (oa_ents tab))"
    using assms(1) distinct_keys by (auto intro: distinct_key_ents)
  show ?thesis
    using place_all [where ne = ?r, OF table_ok_replicate d rn] assms(2) r
    unfolding ne_def oa_rehash_ents by simp
qed

text \<open>Equal contents, equal maps.\<close>

lemma tget_contents:
  assumes "table_ok tab" "table_ok tab'" "\<And>e. Some e \<in> set tab' \<longleftrightarrow> Some e \<in> set tab"
  shows "tget tab' = tget tab"
proof (rule ext)
  fix k
  have "tget tab' k = Some x \<longleftrightarrow> tget tab k = Some x" for x
    using assms(3) tget_Some [OF assms(1)] tget_Some [OF assms(2)] by simp
  then show "tget tab' k = tget tab k" by (metis not_None_eq)
qed

text \<open>
  A table with its element count, as the maps of the program keep it: not yet allocated, or loaded
  below three quarters of a power-of-two capacity whose byte size is representable and which is
  within a constant of the count, so growth only fails for want of memory.
\<close>

definition tinv :: "nat \<Rightarrow> nat \<Rightarrow> 'e option list \<Rightarrow> nat \<Rightarrow> bool" where
  "tinv elem seed tab cnt \<longleftrightarrow>
     (if tab = [] then cnt = 0
      else table_ok tab \<and> cnt = oa_used tab \<and> cnt * 4 < length tab * 3 \<and>
           length tab * elem \<le> SIZE_MAX \<and> length tab \<le> seed + 4 * cnt)"

definition tabs :: "'e option list \<Rightarrow> 'k \<Rightarrow> 'e option" where
  "tabs tab k = (if tab = [] then None else tget tab k)"

text \<open>A capacity that one more entry leaves below the load limit.\<close>

definition tfits :: "nat \<Rightarrow> nat \<Rightarrow> nat \<Rightarrow> nat \<Rightarrow> bool" where
  "tfits elem seed n cnt \<longleftrightarrow>
     cnt < n \<and> (cnt + 1) * 4 < n * 3 \<and> n * elem \<le> SIZE_MAX \<and> n \<le> seed + 4 * cnt"

definition tstore :: "'e option list \<Rightarrow> nat \<Rightarrow> 'e \<Rightarrow> 'e option list \<times> nat" where
  "tstore tab cnt e = (case oa_find tab (matches (key e)) (hash (key e)) of
       Hit j \<Rightarrow> (tab[j := Some e], cnt) | Free j \<Rightarrow> (tab[j := Some e], cnt + 1) | Spin \<Rightarrow> (tab, cnt))"

lemma tstore_ok:
  assumes "table_ok tab" "cnt = oa_used tab" "tfits elem seed (length tab) cnt" "tstore tab cnt e = (tab', cnt')"
  shows "tinv elem seed tab' cnt'" "tabs tab' = (tabs tab)(key e \<mapsto> e)" "cnt' \<le> cnt + 1"
proof -
  have ne: "tab \<noteq> []" and sp: "Suc (oa_used tab) < length tab" using assms(2,3) by (auto simp: tfits_def)
  have "tinv elem seed tab' cnt' \<and> tget tab' = (tget tab)(key e \<mapsto> e) \<and> cnt' \<le> cnt + 1 \<and> tab' \<noteq> []"
  proof (cases "oa_find tab (matches (key e)) (hash (key e))")
    case (Hit j)
    then show ?thesis
      using assms ne update_Hit [OF assms(1) Hit] tget_update_Hit [OF assms(1) Hit]
      by (auto simp: tstore_def tinv_def tfits_def)
  next
    case (Free j)
    then show ?thesis
      using assms ne insert_Free [OF assms(1) Free sp] tget_insert_Free [OF assms(1) Free sp]
      by (auto simp: tstore_def tinv_def tfits_def)
  qed (use find_not_Spin [OF assms(1)] in simp)
  with ne show "tinv elem seed tab' cnt'" "tabs tab' = (tabs tab)(key e \<mapsto> e)" "cnt' \<le> cnt + 1"
    by (auto simp: tabs_def fun_eq_iff)
qed

lemma regrow_ok:
  assumes "tinv elem seed tab cnt" "cnt < 2 ^ k"
  defines "ne \<equiv> oa_rehash (hash \<circ> key) (replicate (2 ^ k) None) tab"
  shows "table_ok ne" "cnt = oa_used ne" "length ne = 2 ^ k" "tabs ne = tabs tab"
proof -
  have "table_ok tab \<or> tab = []" and u: "oa_used tab = cnt"
    using assms(1) by (auto simp: tinv_def split: if_splits)
  with rehash_ok [of tab k] assms(2)
  have r: "table_ok ne" "oa_used ne = cnt" "length ne = 2 ^ k" "\<And>e. Some e \<in> set ne \<longleftrightarrow> Some e \<in> set tab"
    by (simp_all add: ne_def)
  show "table_ok ne" "cnt = oa_used ne" "length ne = 2 ^ k" by (simp_all add: r)
  have n0: "ne \<noteq> []" using r(3) by auto
  show "tabs ne = tabs tab"
  proof (cases "tab = []")
    case True
    then have "tget ne q = None" for q
      using tget_Some [OF r(1), of q] r(4) by (cases "tget ne q") auto
    with True n0 show ?thesis by (simp add: tabs_def fun_eq_iff)
  next
    case False
    then have "tget ne = tget tab"
      using assms(1) r(1,4) by (intro tget_contents) (auto simp: tinv_def)
    with False n0 show ?thesis by (simp add: tabs_def fun_eq_iff)
  qed
qed

lemma regrow_store_ok:
  assumes "tinv elem seed tab cnt" "tfits elem seed (2 ^ k) cnt"
    "tstore (oa_rehash (hash \<circ> key) (replicate (2 ^ k) None) tab) cnt e = (tab', cnt')"
  shows "tinv elem seed tab' cnt'" "tabs tab' = (tabs tab)(key e \<mapsto> e)" "cnt' \<le> cnt + 1"
proof -
  have "cnt < 2 ^ k" using assms(2) by (simp add: tfits_def)
  note r = regrow_ok [OF assms(1) this]
  show "tinv elem seed tab' cnt'" "tabs tab' = (tabs tab)(key e \<mapsto> e)" "cnt' \<le> cnt + 1"
    using tstore_ok [OF r(1,2) _ assms(3)] assms(2) r(3,4) by auto
qed

text \<open>A load test that does not wrap.\<close>

lemma tinv_load:
  assumes "tinv elem seed tab cnt" "tab \<noteq> []" "16 \<le> elem"
  shows "sz_mul (sz_add cnt 1) 4 \<ge> sz_mul (length tab) 3 \<longleftrightarrow> length tab * 3 \<le> (cnt + 1) * 4"
proof -
  have c: "length tab * elem \<le> SIZE_MAX" "cnt * 4 < length tab * 3" "0 < length tab"
    using assms by (auto simp: tinv_def)
  then have "length tab * 16 \<le> SIZE_MAX" using assms(3) by (meson le_trans mult_le_mono2)
  then have a: "(cnt + 1) * 4 \<le> SIZE_MAX" using c(2,3) by simp
  have b: "length tab * 3 \<le> SIZE_MAX" using \<open>length tab * 16 \<le> SIZE_MAX\<close> by simp
  have "cnt + 1 \<le> SIZE_MAX" using a by simp
  with a b show ?thesis by (simp add: sz_mul_exact sz_add_exact)
qed

lemma tinv_fits: "tinv elem seed tab cnt \<Longrightarrow> tab \<noteq> [] \<Longrightarrow> \<not> length tab * 3 \<le> (cnt + 1) * 4 \<Longrightarrow>
   tfits elem seed (length tab) cnt"
  by (auto simp: tinv_def tfits_def)

lemma tinv_double:
  assumes "tinv elem seed tab cnt" "tab \<noteq> []" "length tab * 3 \<le> (cnt + 1) * 4" "length tab \<le> SIZE_MAX div elem div 2"
    "4 \<le> seed"
  shows "tfits elem seed (2 * length tab) cnt"
proof -
  have "2 * length tab \<le> SIZE_MAX div elem" using assms(4) by linarith
  from div_SIZE_MAX_mult [OF this] have r: "2 * length tab * elem \<le> SIZE_MAX" .
  have c: "cnt * 4 < length tab * 3" "0 < length tab" using assms(1,2) by (auto simp: tinv_def)
  have "c * 4 < l * 3 \<Longrightarrow> 0 < l \<Longrightarrow> (c + 1) * 4 < 2 * l * 3" for c l :: nat by presburger
  from this [OF c] c r assms(3,5) show ?thesis by (simp add: tfits_def)
qed

end

section \<open>Clients of a table\<close>

text \<open>
  What a client that never sees an allocation fail relies on: while the table has room for one
  more put, the put is the map update and uses up one unit of room. Carried to sequences of puts.
\<close>

locale budget_map =
  fixes put :: "'m \<Rightarrow> 'k \<Rightarrow> 'v \<Rightarrow> 'm"
    and get :: "'m \<Rightarrow> 'k \<rightharpoonup> 'v"
    and room :: "'m \<Rightarrow> nat \<Rightarrow> bool"
  assumes room_put: "room m (Suc n) \<Longrightarrow> room (put m k v) n"
    and get_put: "room m (Suc n) \<Longrightarrow> get (put m k v) = (get m)(k \<mapsto> v)"
begin

lemma puts_room: "room m (length kvs + n) \<Longrightarrow> room (foldl (\<lambda>m (k, v). put m k v) m kvs) n"
  by (induction kvs arbitrary: m) (auto dest: room_put)

lemma puts_get:
  "room m (length kvs + n) \<Longrightarrow> get (foldl (\<lambda>m (k, v). put m k v) m kvs) = get m ++ map_of (rev kvs)"
proof (induction kvs arbitrary: m)
  case (Cons kv kvs)
  obtain k v where kv: "kv = (k, v)" by (cases kv)
  have "get (put m k v) = (get m)(k \<mapsto> v)" using Cons.prems get_put by simp
  with Cons kv show ?case by (auto simp: room_put map_add_def fun_eq_iff split: option.split)
qed simp

text \<open>Marking a set of keys with one value.\<close>

lemma mark_room: "room m (length ks + n) \<Longrightarrow> room (foldl (\<lambda>m k. put m k v) m ks) n"
  by (induction ks arbitrary: m) (auto dest: room_put)

lemma mark_get:
  "room m (length ks + n) \<Longrightarrow>
   get (foldl (\<lambda>m k. put m k v) m ks) = (\<lambda>k. if k \<in> set ks then Some v else get m k)"
proof (induction ks arbitrary: m)
  case (Cons k ks)
  have "get (put m k v) = (get m)(k \<mapsto> v)" using Cons.prems get_put by simp
  with Cons show ?case by (auto simp: room_put fun_eq_iff)
qed simp

end

end
