(* ===== verification/Lastwriter.thy ===== *)
theory Lastwriter
  imports Open_Addressing Grow
begin

text \<open>
  The last-writer map of \<^verbatim>\<open>src/src/dataflow.c\<close> (\<^verbatim>\<open>lw_map\<close>): an open-addressed table from
  \<open>(kind, a)\<close> to the step that last wrote the location. The array's length is the C field
  \<^verbatim>\<open>cap\<close>. \<open>lw_inv\<close> is what every reachable map satisfies; under it the operations are those of a
  finite map, and they always end.
\<close>

section \<open>Operations\<close>

record lw_ent =
  lw_kind :: u8
  lw_a :: u64
  lw_step :: nat

record lw_map =
  lw_e :: "lw_ent option list"
  lw_cnt :: nat

abbreviation "lw_cap m \<equiv> length (lw_e m)"

definition lw_empty :: lw_map where
  "lw_empty = \<lparr>lw_e = [], lw_cnt = 0\<rparr>"

definition lw_hash :: "u8 \<Rightarrow> u64 \<Rightarrow> u64" where
  "lw_hash kind a =
     (let h = a * 0x9E3779B97F4A7C15 + ucast kind;
          h = h XOR drop_bit 29 h;
          h = h * 0xBF58476D1CE4E5B9
      in h XOR drop_bit 32 h)"

text \<open>\<^verbatim>\<open>sizeof(lw_ent)\<close>\<close>

definition lw_sizeof :: nat where
  "lw_sizeof = 24"

fun lw_grow_loop :: "nat \<Rightarrow> nat \<Rightarrow> nat \<Rightarrow> nat option" where
  "lw_grow_loop 0 ncap target = None"
| "lw_grow_loop (Suc fuel) ncap target =
     (if ncap < target
      then case asmtest_grow_pow2 ncap (sz_add ncap 1) lw_sizeof of
             None \<Rightarrow> None
           | Some g \<Rightarrow> lw_grow_loop fuel g target
      else Some ncap)"

definition lw_grow :: "heap \<Rightarrow> lw_map \<Rightarrow> nat \<Rightarrow> bool \<times> lw_map \<times> heap" where
  "lw_grow h m want =
     (case asmtest_grow_pow2 (lw_cap m) (if lw_cap m \<noteq> 0 then lw_cap m else 64) lw_sizeof of
        None \<Rightarrow> (False, m, h)
      | Some n0 \<Rightarrow>
          if want > SIZE_MAX div 2 then (False, m, h)
          else case lw_grow_loop 65 n0 (sz_mul want 2) of
                 None \<Rightarrow> (False, m, h)
               | Some ncap \<Rightarrow>
                   (case alloc h of (ok, h') \<Rightarrow>
                      if \<not> ok then (False, m, h')
                      else (True, m\<lparr>lw_e := oa_rehash (\<lambda>e. lw_hash (lw_kind e) (lw_a e))
                                               (replicate ncap None) (lw_e m)\<rparr>, h')))"

definition lw_find :: "lw_map \<Rightarrow> u8 \<Rightarrow> u64 \<Rightarrow> probe_result" where
  "lw_find m kind a = oa_find (lw_e m) (\<lambda>e. lw_kind e = kind \<and> lw_a e = a) (lw_hash kind a)"

text \<open>The store once the load-factor test is done. The answer \<open>Spin\<close> is unreachable (\<open>lw_find_ends\<close>).\<close>

definition lw_store :: "lw_map \<Rightarrow> u8 \<Rightarrow> u64 \<Rightarrow> nat \<Rightarrow> lw_map" where
  "lw_store m kind a step =
     (let ent = \<lparr>lw_kind = kind, lw_a = a, lw_step = step\<rparr> in
      case lw_find m kind a of
        Hit j \<Rightarrow> m\<lparr>lw_e := (lw_e m)[j := Some ent]\<rparr>
      | Free j \<Rightarrow> m\<lparr>lw_e := (lw_e m)[j := Some ent], lw_cnt := lw_cnt m + 1\<rparr>
      | Spin \<Rightarrow> m)"

definition lw_full :: "lw_map \<Rightarrow> bool" where
  "lw_full m \<longleftrightarrow> lw_cap m = 0 \<or> sz_mul (sz_add (lw_cnt m) 1) 4 \<ge> sz_mul (lw_cap m) 3"

definition lw_put :: "heap \<Rightarrow> lw_map \<Rightarrow> u8 \<Rightarrow> u64 \<Rightarrow> nat \<Rightarrow> lw_map \<times> heap" where
  "lw_put h m kind a step =
     (if lw_full m
      then case lw_grow h m (sz_add (lw_cnt m) 1) of (ok, m', h') \<Rightarrow>
             if ok then (lw_store m' kind a step, h') else (m', h')
      else (lw_store m kind a step, h))"

definition lw_get :: "lw_map \<Rightarrow> u8 \<Rightarrow> u64 \<Rightarrow> nat option" where
  "lw_get m kind a =
     (if lw_cap m = 0 then None
      else case lw_find m kind a of
             Hit j \<Rightarrow> (case lw_e m ! j of None \<Rightarrow> None | Some e \<Rightarrow> Some (lw_step e))
           | _ \<Rightarrow> None)"

section \<open>The table\<close>

abbreviation lw_key :: "lw_ent \<Rightarrow> u8 \<times> u64" where
  "lw_key e \<equiv> (lw_kind e, lw_a e)"

abbreviation lw_keyhash :: "u8 \<times> u64 \<Rightarrow> u64" where
  "lw_keyhash k \<equiv> lw_hash (fst k) (snd k)"

interpretation lw: open_addressing lw_key lw_keyhash .

lemma lw_find_key: "lw_find m kind a = oa_find (lw_e m) (\<lambda>e. lw_key e = (kind, a)) (lw_keyhash (kind, a))"
  by (simp add: lw_find_def)

lemma lw_rehash_key:
  "oa_rehash (\<lambda>e. lw_hash (lw_kind e) (lw_a e)) = oa_rehash (lw_keyhash \<circ> lw_key)"
  by (simp add: o_def)

definition lw_inv :: "lw_map \<Rightarrow> bool" where
  "lw_inv m \<longleftrightarrow> lw.tinv lw_sizeof 64 (lw_e m) (lw_cnt m)"

lemma lw_invD:
  "lw_inv m \<Longrightarrow> lw_e m = [] \<Longrightarrow> lw_cnt m = 0"
  "lw_inv m \<Longrightarrow> lw_e m \<noteq> [] \<Longrightarrow> lw.table_ok (lw_e m) \<and> lw_cnt m = oa_used (lw_e m) \<and>
     lw_cnt m * 4 < lw_cap m * 3 \<and> lw_cap m * lw_sizeof \<le> SIZE_MAX \<and> lw_cap m \<le> 64 + 4 * lw_cnt m"
  by (simp_all add: lw_inv_def lw.tinv_def)

definition lw_abs :: "lw_map \<Rightarrow> u8 \<times> u64 \<rightharpoonup> nat" where
  "lw_abs m k = lw_get m (fst k) (snd k)"

lemma lw_inv_empty [simp]: "lw_inv lw_empty"
  by (simp add: lw_inv_def lw.tinv_def lw_empty_def)

lemma lw_abs_empty [simp]: "lw_abs lw_empty = Map.empty"
  by (simp add: lw_abs_def lw_get_def lw_empty_def fun_eq_iff)

lemma lw_find_ends: "lw_inv m \<Longrightarrow> lw_e m \<noteq> [] \<Longrightarrow> lw_find m kind a \<noteq> Spin"
  by (simp add: lw_invD lw_find_key lw.find_not_Spin)

lemma lw_abs_tget: "lw_e m \<noteq> [] \<Longrightarrow> lw_abs m k = map_option lw_step (lw.tget (lw_e m) k)"
  by (cases k) (auto simp: lw_abs_def lw_get_def lw_find_key lw.tget_def split: probe_result.split option.split)

lemma lw_abs_tabs: "lw_abs m k = map_option lw_step (lw.tabs (lw_e m) k)"
  by (cases "lw_e m = []") (simp_all add: lw_abs_tget lw.tabs_def, simp add: lw_abs_def lw_get_def)

lemma lw_full_exact: "lw_inv m \<Longrightarrow> lw_e m \<noteq> [] \<Longrightarrow> lw_full m \<longleftrightarrow> lw_cap m * 3 \<le> (lw_cnt m + 1) * 4"
  using lw.tinv_load [of lw_sizeof 64 "lw_e m" "lw_cnt m"] by (simp add: lw_inv_def lw_full_def lw_sizeof_def)

lemma lw_store_tstore:
  "lw.tstore (lw_e m) (lw_cnt m) \<lparr>lw_kind = kind, lw_a = a, lw_step = step\<rparr> =
     (lw_e (lw_store m kind a step), lw_cnt (lw_store m kind a step))"
  by (simp add: lw.tstore_def lw_store_def lw_find_key Let_def split: probe_result.split)

text \<open>A store below the load limit is the map update.\<close>

definition lw_fits :: "lw_map \<Rightarrow> nat \<Rightarrow> bool" where
  "lw_fits m n \<longleftrightarrow> lw.tfits lw_sizeof 64 n (lw_cnt m)"

lemma lw_store_ok:
  assumes "lw_inv m" "lw_e m \<noteq> []" "\<not> lw_full m"
  shows "lw_inv (lw_store m kind a step)"
    and "lw_abs (lw_store m kind a step) = (lw_abs m)((kind, a) \<mapsto> step)"
    and "lw_cnt (lw_store m kind a step) \<le> lw_cnt m + 1"
proof -
  have "lw.table_ok (lw_e m)" "lw_cnt m = oa_used (lw_e m)" using lw_invD(2) assms by blast+
  moreover have "lw.tfits lw_sizeof 64 (lw_cap m) (lw_cnt m)"
    using assms lw_full_exact lw.tinv_fits by (auto simp: lw_inv_def)
  ultimately show "lw_inv (lw_store m kind a step)"
    "lw_abs (lw_store m kind a step) = (lw_abs m)((kind, a) \<mapsto> step)"
    "lw_cnt (lw_store m kind a step) \<le> lw_cnt m + 1"
    using lw.tstore_ok [OF _ _ _ lw_store_tstore] by (auto simp: lw_inv_def lw_abs_tabs fun_eq_iff)
qed

section \<open>Growth\<close>

lemma lw_grow_loop_enough: "target \<le> n \<Longrightarrow> lw_grow_loop 65 n target = Some n"
  by (simp add: numeral_eq_Suc)

lemma pow2_double:
  assumes "0 < cap"
  shows "asmtest_grow_pow2 cap cap elem =
     (if cap > SIZE_MAX div elem div 2 then None else Some (2 * cap))"
  using assms pow2_step [of cap "SIZE_MAX div elem" 65 cap]
  by (auto simp: asmtest_grow_pow2_def pow2_stop)

lemma pow2_first: "asmtest_grow_pow2 0 64 lw_sizeof = Some 64"
  by (simp add: asmtest_grow_pow2_def pow2_step SIZE_MAX_def lw_sizeof_def)

text \<open>
  What growing a full map does: it fails where the doubled array would exceed the address space,
  and otherwise asks for the next power of two, which one more entry leaves below the load limit.
\<close>

definition lw_regrown :: "lw_map \<Rightarrow> nat \<Rightarrow> lw_map" where
  "lw_regrown m n =
     m\<lparr>lw_e := oa_rehash (\<lambda>e. lw_hash (lw_kind e) (lw_a e)) (replicate n None) (lw_e m)\<rparr>"

lemma lw_rehash_ok:
  assumes "lw_inv m" "lw_fits m (2 ^ k)"
  shows "lw_inv (lw_store (lw_regrown m (2 ^ k)) kind a step)"
    and "lw_abs (lw_store (lw_regrown m (2 ^ k)) kind a step) = (lw_abs m)((kind, a) \<mapsto> step)"
    and "lw_cnt (lw_store (lw_regrown m (2 ^ k)) kind a step) \<le> lw_cnt m + 1"
proof -
  let ?m = "lw_regrown m (2 ^ k)"
  have "lw.tstore (oa_rehash (lw_keyhash \<circ> lw_key) (replicate (2 ^ k) None) (lw_e m)) (lw_cnt m)
      \<lparr>lw_kind = kind, lw_a = a, lw_step = step\<rparr> = (lw_e (lw_store ?m kind a step), lw_cnt (lw_store ?m kind a step))"
    using lw_store_tstore [of ?m kind a step] by (simp add: lw_regrown_def lw_rehash_key)
  from lw.regrow_store_ok [OF _ _ this] assms show "lw_inv (lw_store ?m kind a step)"
    "lw_abs (lw_store ?m kind a step) = (lw_abs m)((kind, a) \<mapsto> step)"
    "lw_cnt (lw_store ?m kind a step) \<le> lw_cnt m + 1"
    by (auto simp: lw_inv_def lw_fits_def lw_abs_tabs fun_eq_iff)
qed

lemma lw_grow_empty:
  assumes "lw_inv m" "lw_e m = []"
  shows "lw_fits m (2 ^ 6)" "lw_grow h m (sz_add (lw_cnt m) 1) =
      (case alloc h of (ok, h') \<Rightarrow> if \<not> ok then (False, m, h') else (True, lw_regrown m (2 ^ 6), h'))"
proof -
  have z: "lw_cnt m = 0" using assms by (simp add: lw_invD)
  then show "lw_fits m (2 ^ 6)" by (simp add: lw_fits_def lw.tfits_def SIZE_MAX_def lw_sizeof_def)
  have "sz_add 0 1 = 1" "sz_mul 1 2 = 2" by (simp_all add: sz_add_def sz_mul_def)
  then show "lw_grow h m (sz_add (lw_cnt m) 1) =
      (case alloc h of (ok, h') \<Rightarrow> if \<not> ok then (False, m, h') else (True, lw_regrown m (2 ^ 6), h'))"
    using assms z lw_grow_loop_enough [of 2 64]
    by (simp add: lw_grow_def lw_regrown_def pow2_first SIZE_MAX_def split: prod.split)
qed

lemma lw_grow_double:
  assumes "lw_inv m" "lw_e m \<noteq> []" "lw_full m" "lw_cap m \<le> SIZE_MAX div 24 div 2"
  shows "lw_fits m (2 * lw_cap m)" "lw_grow h m (sz_add (lw_cnt m) 1) =
      (case alloc h of (ok, h') \<Rightarrow> if \<not> ok then (False, m, h') else (True, lw_regrown m (2 * lw_cap m), h'))"
proof -
  have i: "lw_cnt m * 4 < lw_cap m * 3" "lw_cap m * 24 \<le> SIZE_MAX"
    using lw_invD(2) [OF assms(1,2)] by (auto simp: lw_sizeof_def)
  have full: "lw_cap m * 3 \<le> (lw_cnt m + 1) * 4"
    using lw_full_exact [OF assms(1,2)] assms(3) by simp
  have pos: "0 < lw_cap m" using assms(2) by simp
  have lt: "lw_cnt m < lw_cap m" using i(1) by linarith
  have e1: "sz_add (lw_cnt m) 1 = lw_cnt m + 1" using i pos by (intro sz_add_exact) linarith
  have "lw_cnt m * 2 + 2 \<le> SIZE_MAX" using i pos by linarith
  then have e2: "sz_mul (lw_cnt m + 1) 2 = (lw_cnt m + 1) * 2" by (intro sz_mul_exact) simp
  have lp: "lw_grow_loop 65 (2 * lw_cap m) ((lw_cnt m + 1) * 2) = Some (2 * lw_cap m)"
    using lt by (intro lw_grow_loop_enough) simp
  have w: "\<not> lw_cnt m + 1 > SIZE_MAX div 2" using i pos by linarith
  have p: "asmtest_grow_pow2 (lw_cap m) (lw_cap m) 24 = Some (2 * lw_cap m)"
    using pow2_double [OF pos, of 24] assms(4) by simp
  show "lw_grow h m (sz_add (lw_cnt m) 1) =
      (case alloc h of (ok, h') \<Rightarrow> if \<not> ok then (False, m, h') else (True, lw_regrown m (2 * lw_cap m), h'))"
    using w e1 e2 lp p pos unfolding lw_grow_def lw_regrown_def lw_sizeof_def by simp
  show "lw_fits m (2 * lw_cap m)"
    using assms full lw.tinv_double [of lw_sizeof 64] by (simp add: lw_inv_def lw_fits_def lw_sizeof_def)
qed

lemma lw_grow_overflow:
  "lw_e m \<noteq> [] \<Longrightarrow> SIZE_MAX div 24 div 2 < lw_cap m \<Longrightarrow> lw_grow h m want = (False, m, h)"
  by (simp add: lw_grow_def lw_sizeof_def pow2_double)

lemma lw_grow_cases:
  assumes "lw_inv m" "lw_full m"
  obtains "lw_e m \<noteq> []" "SIZE_MAX div 24 div 2 < lw_cap m" "lw_grow h m (sz_add (lw_cnt m) 1) = (False, m, h)"
  | k where "lw_fits m (2 ^ k)" "lw_grow h m (sz_add (lw_cnt m) 1) =
      (case alloc h of (ok, h') \<Rightarrow> if \<not> ok then (False, m, h') else (True, lw_regrown m (2 ^ k), h'))"
proof (cases "lw_e m = []")
  case True
  with lw_grow_empty [OF assms(1)] that(2) show ?thesis by blast
next
  case False
  then obtain k where k: "lw_cap m = 2 ^ k" using lw_invD(2) [OF assms(1)] by (auto simp: lw.table_ok_def)
  then have d: "2 * lw_cap m = 2 ^ Suc k" by simp
  show ?thesis
  proof (cases "lw_cap m \<le> SIZE_MAX div 24 div 2")
    case True
    show ?thesis using lw_grow_double [OF assms(1) False assms(2) True] unfolding d by (rule that(2))
  next
    case False2: False
    then show ?thesis using lw_grow_overflow [OF False] that(1) [OF False] by simp
  qed
qed

text \<open>A put either updates the map or, when memory runs out, leaves it as it was.\<close>

lemma lw_put_inv:
  assumes "lw_inv m"
  shows "lw_inv (fst (lw_put h m kind a step))"
    and "lw_abs (fst (lw_put h m kind a step)) = (lw_abs m)((kind, a) \<mapsto> step) \<or>
         fst (lw_put h m kind a step) = m"
    and "lw_cnt (fst (lw_put h m kind a step)) \<le> lw_cnt m + 1"
    and "h = [] \<Longrightarrow> lw_cnt m < 2 ^ 50 \<Longrightarrow>
         snd (lw_put h m kind a step) = [] \<and> lw_abs (fst (lw_put h m kind a step)) = (lw_abs m)((kind, a) \<mapsto> step)"
proof -
  let ?r = "lw_put h m kind a step"
  have "lw_inv (fst ?r) \<and> (lw_abs (fst ?r) = (lw_abs m)((kind, a) \<mapsto> step) \<or> fst ?r = m) \<and>
      lw_cnt (fst ?r) \<le> lw_cnt m + 1 \<and>
      (h = [] \<and> lw_cnt m < 2 ^ 50 \<longrightarrow> snd ?r = [] \<and> lw_abs (fst ?r) = (lw_abs m)((kind, a) \<mapsto> step))"
  proof (cases "lw_full m")
    case True
    from assms True show ?thesis
    proof (cases rule: lw_grow_cases [of m h])
      case 1
      have "lw_cap m \<le> 64 + 4 * lw_cnt m" using lw_invD(2) [OF assms 1(1)] by simp
      with 1 True assms show ?thesis by (auto simp: lw_put_def SIZE_MAX_def)
    next
      case (2 k)
      from 2(2) True assms lw_rehash_ok [OF assms 2(1), of kind a step] show ?thesis
        by (cases "alloc h") (auto simp: lw_put_def)
    qed
  next
    case False
    then have ne: "lw_e m \<noteq> []" by (auto simp: lw_full_def)
    with lw_store_ok [OF assms ne False, of kind a step] False show ?thesis by (simp add: lw_put_def)
  qed
  then show "lw_inv (fst ?r)" "lw_abs (fst ?r) = (lw_abs m)((kind, a) \<mapsto> step) \<or> fst ?r = m"
    "lw_cnt (fst ?r) \<le> lw_cnt m + 1"
    "h = [] \<Longrightarrow> lw_cnt m < 2 ^ 50 \<Longrightarrow> snd ?r = [] \<and> lw_abs (fst ?r) = (lw_abs m)((kind, a) \<mapsto> step)"
    by auto
qed

section \<open>Properties\<close>

text \<open>
  C3: The last-writer table is a finite map. On every table the code can build, a put under any
  pattern of allocation failures keeps the invariant, its probe loop ends, and it either maps the
  key to the step and changes no other key, or leaves the table as it was; with memory available
  (and fewer than 2^50 entries) it always takes effect.
\<close>

theorem lw_put_refines_map:
  assumes "lw_inv m"
  shows "lw_inv (fst (lw_put h m kind a step)) \<and>
    (lw_abs (fst (lw_put h m kind a step)) = (lw_abs m)((kind, a) \<mapsto> step) \<or>
     fst (lw_put h m kind a step) = m) \<and>
    (h = [] \<and> lw_cnt m < 2 ^ 50 \<longrightarrow>
       lw_abs (fst (lw_put h m kind a step)) = (lw_abs m)((kind, a) \<mapsto> step)) \<and>
    (lw_e m \<noteq> [] \<longrightarrow> lw_find m kind a \<noteq> Spin)"
  using lw_put_inv [OF assms, of h kind a step] lw_find_ends [OF assms, of kind a] by blast

lemma lw_cnt_empty: "lw_cnt lw_empty = 0"
  by (simp add: lw_empty_def)

theorem lw_put_refines_map_witness:
  "lw_get (fst (lw_put [] lw_empty 1 77 5)) 1 77 = Some 5 \<and>
   lw_get (fst (lw_put [] lw_empty 1 77 5)) 1 78 = None"
proof -
  have "lw_abs (fst (lw_put [] lw_empty 1 77 5)) = [(1, 77) \<mapsto> 5]"
    using lw_put_refines_map [OF lw_inv_empty, of "[]" 1 77 5] lw_cnt_empty by simp
  from fun_cong [OF this, of "(1, 77)"] fun_cong [OF this, of "(1, 78)"] show ?thesis
    by (simp add: lw_abs_def)
qed

section \<open>As a client sees it\<close>

definition lw_set :: "lw_map \<Rightarrow> u8 \<times> u64 \<Rightarrow> nat \<Rightarrow> lw_map" where
  "lw_set m k step = fst (lw_put [] m (fst k) (snd k) step)"

definition lw_room :: "lw_map \<Rightarrow> nat \<Rightarrow> bool" where
  "lw_room m n \<longleftrightarrow> lw_inv m \<and> lw_cnt m + n \<le> 2 ^ 50"

interpretation lwb: budget_map lw_set lw_abs lw_room
proof
  fix m n and k :: "u8 \<times> u64" and v
  assume "lw_room m (Suc n)"
  then have i: "lw_inv m" and c: "lw_cnt m + Suc n \<le> 2 ^ 50" by (auto simp: lw_room_def)
  then have "lw_cnt m < 2 ^ 50" by linarith
  with lw_put_inv [OF i, of "[]" "fst k" "snd k" v] c
  show "lw_room (lw_set m k v) n" "lw_abs (lw_set m k v) = (lw_abs m)(k \<mapsto> v)"
    by (auto simp: lw_room_def lw_set_def)
qed

lemma lw_put_room: "lw_room m (Suc n) \<Longrightarrow> lw_put [] m kind a step = (lw_set m (kind, a) step, [])"
proof -
  assume "lw_room m (Suc n)"
  then have i: "lw_inv m" and c: "lw_cnt m < 2 ^ 50" by (auto simp: lw_room_def)
  show ?thesis using lw_put_inv(4) [OF i refl c, of kind a step] by (simp add: lw_set_def prod_eq_iff)
qed

lemma lw_room_empty: "n \<le> 2 ^ 50 \<Longrightarrow> lw_room lw_empty n"
  by (simp add: lw_room_def lw_cnt_empty)

lemma lw_room_less: "lw_room m k \<Longrightarrow> n \<le> k \<Longrightarrow> lw_room m n"
  by (simp add: lw_room_def)

text \<open>
  The growth test comes before the probe, so at the load limit a failed allocation also loses the
  update of a key that is already there: the table keeps the older step.
\<close>

lemma lw_put_oom_stale:
  assumes "lw_inv m" "lw_full m"
  shows "lw_abs (fst (lw_put (False # h) m kind a step)) = lw_abs m"
  using assms(1,2) by (cases rule: lw_grow_cases [of m "False # h"]) (simp_all add: lw_put_def assms(2))

end
