(* ===== verification/Defuse.thy ===== *)
theory Defuse
  imports Lastwriter Valtrace
begin

text \<open>
  The L1 def-use builder of \<^verbatim>\<open>src/src/dataflow.c\<close>: register aliases resolved to bytes of their
  64-bit container (\<open>reg_slice\<close>), reads resolved to the distinct steps that last wrote their bytes
  (\<open>emit_read\<close>), writes recorded per byte (\<open>apply_write\<close>), one pass over the records in step
  order (\<open>asmtest_defuse_build\<close>). \<open>defuse_spec\<close> is the graph the header promises, stated with no map:
  the last writer of a location is the greatest earlier step that wrote it.
\<close>

section \<open>Register aliases\<close>

text \<open>
  The \<^verbatim>\<open>X86_REG_*\<close> literals of the file: the container's own id is the 64-bit form, and the lists
  are, in order, the 64-, 32-, 16- and 8-bit forms (and the high byte for a, b, c, d).
\<close>

definition reg_groups :: "(nat \<times> nat list) list" where
  "reg_groups =
    [(35, [35, 19, 3, 2, 1]), (37, [37, 21, 8, 5, 4]), (38, [38, 22, 12, 10, 9]),
     (40, [40, 24, 18, 16, 13]), (43, [43, 29, 45, 46]), (39, [39, 23, 14, 15]),
     (36, [36, 20, 6, 7]), (44, [44, 30, 47, 48]),
     (106, [106, 226, 234, 218]), (107, [107, 227, 235, 219]), (108, [108, 228, 236, 220]),
     (109, [109, 229, 237, 221]), (110, [110, 230, 238, 222]), (111, [111, 231, 239, 223]),
     (112, [112, 232, 240, 224]), (113, [113, 233, 241, 225])]"

text \<open>The first switch: which container an id folds into.\<close>

definition reg_container :: "nat \<Rightarrow> nat option" where
  "reg_container reg = map_option fst (find (\<lambda>g. reg \<in> set (snd g)) reg_groups)"

definition regs64 :: "nat list" where
  "regs64 = [35, 37, 38, 40, 43, 39, 36, 44, 106, 107, 108, 109, 110, 111, 112, 113]"
definition regs32 :: "nat list" where
  "regs32 = [19, 21, 22, 24, 29, 23, 20, 30, 226, 227, 228, 229, 230, 231, 232, 233]"
definition regs16 :: "nat list" where
  "regs16 = [3, 8, 12, 18, 45, 14, 6, 47, 234, 235, 236, 237, 238, 239, 240, 241]"
definition regs8lo :: "nat list" where
  "regs8lo = [2, 5, 10, 16, 46, 15, 7, 48, 218, 219, 220, 221, 222, 223, 224, 225]"
definition regs8hi :: "nat list" where
  "regs8hi = [1, 4, 9, 13]"

text \<open>The second switch: byte offset and length.\<close>

definition reg_shape :: "nat \<Rightarrow> (nat \<times> nat) option" where
  "reg_shape reg =
     (if reg \<in> set regs64 then Some (0, 8)
      else if reg \<in> set regs32 then Some (0, 4)
      else if reg \<in> set regs16 then Some (0, 2)
      else if reg \<in> set regs8lo then Some (0, 1)
      else if reg \<in> set regs8hi then Some (1, 1)
      else None)"

definition reg_slice :: "nat \<Rightarrow> (nat \<times> nat \<times> nat) option" where
  "reg_slice reg =
     (case reg_container reg of None \<Rightarrow> None
      | Some c \<Rightarrow> map_option (\<lambda>(off, len). (c, off, len)) (reg_shape reg))"

section \<open>Edges\<close>

record asmtest_defuse_edge =
  de_from_step :: nat
  de_to_step :: nat
  de_loc :: at_val_rec

record edgevec =
  ev_v :: "asmtest_defuse_edge list"
  ev_cap :: nat

definition edge_push :: "heap \<Rightarrow> edgevec \<Rightarrow> nat \<Rightarrow> nat \<Rightarrow> at_val_rec \<Rightarrow> edgevec \<times> heap" where
  "edge_push h ev from to loc =
     (case (if length (ev_v ev) = ev_cap ev
            then asmtest_grow h (ev_cap ev) (length (ev_v ev) + 1) 80
            else (True, ev_cap ev, h)) of (ok, cap', h') \<Rightarrow>
        if \<not> ok then (ev, h')
        else (\<lparr>ev_v = ev_v ev @ [\<lparr>de_from_step = from, de_to_step = to, de_loc = loc\<rparr>], ev_cap = cap'\<rparr>, h'))"

definition edges_push :: "heap \<Rightarrow> edgevec \<Rightarrow> nat list \<Rightarrow> nat \<Rightarrow> at_val_rec \<Rightarrow> edgevec \<times> heap" where
  "edges_push h ev prods to loc = foldl (\<lambda>(ev, h) p. edge_push h ev p to loc) (ev, h) prods"

section \<open>Reads and writes\<close>

definition rec_bytes :: "at_val_rec \<Rightarrow> nat" where
  "rec_bytes r = (let s = (if vr_size r \<noteq> 0 then vr_size r else 1) in if s > 64 then 64 else s)"

definition collect_distinct :: "lw_map \<Rightarrow> u8 \<Rightarrow> u64 \<Rightarrow> nat \<Rightarrow> nat list" where
  "collect_distinct m kind base n =
     foldl (\<lambda>prod b. case lw_get m kind (base + of_nat b) of
                       None \<Rightarrow> prod
                     | Some p \<Rightarrow> if p \<in> set prod then prod
                                 else if length prod < 64 then prod @ [p] else prod)
           [] [0..<n]"

definition put_range :: "heap \<Rightarrow> lw_map \<Rightarrow> u8 \<Rightarrow> u64 \<Rightarrow> nat \<Rightarrow> nat \<Rightarrow> lw_map \<times> heap" where
  "put_range h m kind base n step =
     foldl (\<lambda>(m, h) b. lw_put h m kind (base + of_nat b) step) (m, h) [0..<n]"

abbreviation slice_base :: "nat \<Rightarrow> nat \<Rightarrow> u64" where
  "slice_base container off \<equiv> push_bit 8 (of_nat container) OR of_nat off"

definition emit_read :: "heap \<Rightarrow> at_val_rec \<Rightarrow> lw_map \<Rightarrow> edgevec \<Rightarrow> nat \<Rightarrow> edgevec \<times> heap" where
  "emit_read h rec m ev step =
     (if vr_kind rec = AT_LOC_REG then
        (case reg_slice (vr_reg rec) of
           Some (container, off, len) \<Rightarrow>
             edges_push h ev (collect_distinct m 2 (slice_base container off) len) step rec
         | None \<Rightarrow> (case lw_get m 0 (of_nat (vr_reg rec)) of
                     None \<Rightarrow> (ev, h)
                   | Some p \<Rightarrow> edge_push h ev p step rec))
      else edges_push h ev (collect_distinct m 1 (vr_addr rec) (rec_bytes rec)) step rec)"

definition apply_write :: "heap \<Rightarrow> at_val_rec \<Rightarrow> lw_map \<Rightarrow> nat \<Rightarrow> lw_map \<times> heap" where
  "apply_write h rec m step =
     (if vr_kind rec = AT_LOC_REG then
        (case reg_slice (vr_reg rec) of
           Some (container, off, len) \<Rightarrow>
             put_range h m 2 (slice_base container off) (if len = 4 then 8 else len) step
         | None \<Rightarrow> lw_put h m 0 (of_nat (vr_reg rec)) step)
      else put_range h m 1 (vr_addr rec) (rec_bytes rec) step)"

section \<open>The builder\<close>

record asmtest_defuse =
  dg_edges :: "asmtest_defuse_edge list"
  dg_nsteps :: nat

definition read_phase :: "nat \<Rightarrow> lw_map \<Rightarrow> at_val_rec list \<Rightarrow> edgevec \<times> heap \<Rightarrow> edgevec \<times> heap" where
  "read_phase step m grp s =
     foldl (\<lambda>(ev, h) r. if \<not> vr_is_write r then emit_read h r m ev step else (ev, h)) s grp"

definition write_phase :: "nat \<Rightarrow> at_val_rec list \<Rightarrow> lw_map \<times> heap \<Rightarrow> lw_map \<times> heap" where
  "write_phase step grp s =
     foldl (\<lambda>(m, h) r. if vr_is_write r then apply_write h r m step else (m, h)) s grp"

fun defuse_loop :: "nat \<Rightarrow> nat \<Rightarrow> at_val_rec list \<Rightarrow> lw_map \<Rightarrow> edgevec \<Rightarrow> heap \<Rightarrow> edgevec \<times> heap" where
  "defuse_loop 0 step rs m ev h = (ev, h)"
| "defuse_loop (Suc k) step rs m ev h =
     (let grp = takeWhile (\<lambda>r. vr_step r = step) rs;
          rest = dropWhile (\<lambda>r. vr_step r = step) rs
      in case read_phase step m grp (ev, h) of (ev1, h1) \<Rightarrow>
           case write_phase step grp (m, h1) of (m1, h2) \<Rightarrow>
             defuse_loop k (step + 1) rest m1 ev1 h2)"

definition asmtest_defuse_build :: "heap \<Rightarrow> asmtest_valtrace option \<Rightarrow> asmtest_defuse option \<times> heap" where
  "asmtest_defuse_build h vo =
     (case vo of None \<Rightarrow> (None, h)
      | Some v \<Rightarrow> (case alloc h of (ok, h0) \<Rightarrow>
          if \<not> ok then (None, h0)
          else case defuse_loop (vt_steps_len v mod 2 ^ 32) 0 (buf_of (vt_recs v)) lw_empty
                      \<lparr>ev_v = [], ev_cap = 0\<rparr> h0 of (ev, h') \<Rightarrow>
            (Some \<lparr>dg_edges = ev_v ev, dg_nsteps = vt_steps_len v\<rparr>, h')))"

section \<open>The specification\<close>

type_synonym loc = "u8 \<times> u64"

definition byte_locs :: "u8 \<Rightarrow> u64 \<Rightarrow> nat \<Rightarrow> loc list" where
  "byte_locs kind base n = map (\<lambda>b. (kind, base + of_nat b)) [0..<n]"

text \<open>The locations a read consults and a write defines.\<close>

definition rd_locs :: "at_val_rec \<Rightarrow> loc list" where
  "rd_locs r =
     (if vr_kind r = AT_LOC_REG then
        (case reg_slice (vr_reg r) of
           Some (c, off, len) \<Rightarrow> byte_locs 2 (slice_base c off) len
         | None \<Rightarrow> [(0, of_nat (vr_reg r))])
      else byte_locs 1 (vr_addr r) (rec_bytes r))"

definition wr_locs :: "at_val_rec \<Rightarrow> loc list" where
  "wr_locs r =
     (if vr_kind r = AT_LOC_REG then
        (case reg_slice (vr_reg r) of
           Some (c, off, len) \<Rightarrow> byte_locs 2 (slice_base c off) (if len = 4 then 8 else len)
         | None \<Rightarrow> [(0, of_nat (vr_reg r))])
      else byte_locs 1 (vr_addr r) (rec_bytes r))"

definition writes_at :: "at_val_rec list \<Rightarrow> nat \<Rightarrow> loc \<Rightarrow> bool" where
  "writes_at recs s l \<longleftrightarrow> (\<exists>r\<in>set recs. vr_step r = s \<and> vr_is_write r \<and> l \<in> set (wr_locs r))"

definition last_writer :: "at_val_rec list \<Rightarrow> nat \<Rightarrow> loc \<Rightarrow> nat option" where
  "last_writer recs t l =
     (let ws = filter (\<lambda>s. writes_at recs s l) [0..<t] in if ws = [] then None else Some (last ws))"

definition read_edges :: "at_val_rec list \<Rightarrow> nat \<Rightarrow> at_val_rec \<Rightarrow> asmtest_defuse_edge list" where
  "read_edges recs t r =
     map (\<lambda>p. \<lparr>de_from_step = p, de_to_step = t, de_loc = r\<rparr>)
       (nub (List.map_filter (last_writer recs t) (rd_locs r)))"

definition step_edges :: "at_val_rec list \<Rightarrow> nat \<Rightarrow> asmtest_defuse_edge list" where
  "step_edges recs t =
     concat (map (read_edges recs t) (filter (\<lambda>r. vr_step r = t \<and> \<not> vr_is_write r) recs))"

definition defuse_spec :: "at_val_rec list \<Rightarrow> nat \<Rightarrow> asmtest_defuse_edge list" where
  "defuse_spec recs n = concat (map (step_edges recs) [0..<n])"

lemma last_writer_Suc:
  "last_writer recs (Suc t) l = (if writes_at recs t l then Some t else last_writer recs t l)"
  by (simp add: last_writer_def Let_def)

lemma last_writer_0 [simp]: "last_writer recs 0 = Map.empty"
  by (simp add: last_writer_def fun_eq_iff)

lemma last_writer_Some:
  "last_writer recs t l = Some s \<longleftrightarrow>
     s < t \<and> writes_at recs s l \<and> (\<forall>s'. s < s' \<and> s' < t \<longrightarrow> \<not> writes_at recs s' l)"
proof (induction t)
  case (Suc t)
  then show ?case by (auto simp: last_writer_Suc less_Suc_eq)
qed simp

section \<open>The builder against the specification\<close>

lemma length_byte_locs [simp]: "length (byte_locs kind base n) = n"
  by (simp add: byte_locs_def)

lemma put_range_marks:
  "lw_room m (n + k) \<Longrightarrow>
   put_range [] m kind base n step = (foldl (\<lambda>m l. lw_set m l step) m (byte_locs kind base n), [])"
proof (induction n arbitrary: k)
  case (Suc n)
  have "lw_room m (n + Suc k)" using Suc.prems by simp
  moreover from this have "lw_room (foldl (\<lambda>m l. lw_set m l step) m (byte_locs kind base n)) (Suc k)"
    by (intro lwb.mark_room) simp
  ultimately show ?case
    using Suc.IH [of "Suc k"] by (simp add: put_range_def byte_locs_def lw_put_room)
qed (simp add: put_range_def byte_locs_def)

lemma reg_slice_len:
  assumes "reg_slice reg = Some (c, off, len)"
  shows "len \<in> {1, 2, 4, 8}"
  using assms by (auto simp: reg_slice_def reg_shape_def split: option.splits if_splits)

lemma rec_bytes_le: "rec_bytes r \<le> 64"
  by (simp add: rec_bytes_def Let_def)

lemma length_locs: "length (wr_locs r) \<le> 64" "length (rd_locs r) \<le> 64"
  using rec_bytes_le [of r] by (auto simp: wr_locs_def rd_locs_def split: option.split dest: reg_slice_len)

lemma apply_write_marks:
  "lw_room m (length (wr_locs r) + n) \<Longrightarrow>
   apply_write [] r m step = (foldl (\<lambda>m l. lw_set m l step) m (wr_locs r), [])"
  by (auto simp: apply_write_def wr_locs_def put_range_marks lw_put_room split: option.splits)

definition grp_writes :: "at_val_rec list \<Rightarrow> (u8 \<times> u64) list" where
  "grp_writes grp = concat (map wr_locs (filter vr_is_write grp))"

lemma length_grp_writes: "length (grp_writes grp) \<le> 64 * length grp"
proof (induction grp)
  case (Cons r grp)
  then show ?case using length_locs(1) [of r] by (simp add: grp_writes_def)
qed (simp add: grp_writes_def)

lemma write_phase_marks:
  "lw_room m (length (grp_writes grp) + n) \<Longrightarrow>
   write_phase step grp (m, []) = (foldl (\<lambda>m l. lw_set m l step) m (grp_writes grp), [])"
proof (induction grp arbitrary: m)
  case (Cons r grp)
  show ?case
  proof (cases "vr_is_write r")
    case True
    with Cons.prems have rm: "lw_room m (length (wr_locs r) + (length (grp_writes grp) + n))"
      by (simp add: grp_writes_def add.assoc)
    let ?m = "foldl (\<lambda>m l. lw_set m l step) m (wr_locs r)"
    have "apply_write [] r m step = (?m, [])" using rm by (rule apply_write_marks)
    moreover have "lw_room ?m (length (grp_writes grp) + n)" using rm by (rule lwb.mark_room)
    ultimately show ?thesis using True Cons.IH [of ?m] by (simp add: write_phase_def grp_writes_def)
  next
    case False
    with Cons show ?thesis by (simp add: write_phase_def grp_writes_def)
  qed
qed (simp add: write_phase_def grp_writes_def)

text \<open>A group of writes advances the last writers by one step.\<close>

lemma in_grp_writes:
  "grp = filter (\<lambda>r. vr_step r = t) recs \<Longrightarrow> l \<in> set (grp_writes grp) \<longleftrightarrow> writes_at recs t l"
  by (auto simp: grp_writes_def writes_at_def)

lemma write_phase_last_writer:
  assumes "lw_room m (length (grp_writes grp) + n)" "lw_abs m = last_writer recs t"
    "grp = filter (\<lambda>r. vr_step r = t) recs"
  obtains m' where "write_phase t grp (m, []) = (m', [])" "lw_room m' n" "lw_abs m' = last_writer recs (Suc t)"
proof -
  let ?m = "foldl (\<lambda>m l. lw_set m l t) m (grp_writes grp)"
  have "lw_abs ?m = last_writer recs (Suc t)"
    using lwb.mark_get [OF assms(1), of t] assms(2) in_grp_writes [OF assms(3)]
    by (simp add: fun_eq_iff last_writer_Suc)
  then show ?thesis
    using that [of ?m] write_phase_marks [OF assms(1)] lwb.mark_room [OF assms(1)] by blast
qed

text \<open>The capped collector never reaches its cap: it collects the distinct producers.\<close>

lemma map_filter_snoc:
  "List.map_filter f (xs @ [x]) = List.map_filter f xs @ (case f x of None \<Rightarrow> [] | Some y \<Rightarrow> [y])"
  by (simp add: List.map_filter_def split: option.split)

lemma length_map_filter: "length (List.map_filter f xs) \<le> length xs"
  by (simp add: List.map_filter_def)

lemma length_nub_le: "length (nub xs) \<le> length xs"
  by (simp add: length_nub card_length)

lemma collect_distinct_take:
  "collect_distinct m kind base n = take 64 (nub (List.map_filter (lw_abs m) (byte_locs kind base n)))"
proof (induction n)
  case 0
  then show ?case by (simp add: collect_distinct_def byte_locs_def List.map_filter_def)
next
  case (Suc n)
  let ?l = "(kind, base + of_nat n)" and ?xs = "List.map_filter (lw_abs m) (byte_locs kind base n)"
  have b: "byte_locs kind base (Suc n) = byte_locs kind base n @ [?l]" by (simp add: byte_locs_def)
  have "collect_distinct m kind base (Suc n) =
      (case lw_abs m ?l of None \<Rightarrow> take 64 (nub ?xs) | Some p \<Rightarrow> add_distinct 64 (take 64 (nub ?xs)) p)"
    unfolding Suc [symmetric]
    by (cases "lw_get m kind (base + of_nat n)") (simp_all add: collect_distinct_def lw_abs_def add_distinct_def)
  also have "\<dots> = take 64 (nub (List.map_filter (lw_abs m) (byte_locs kind base (Suc n))))"
    by (simp add: b map_filter_snoc take_nub_snoc split: option.split)
  finally show ?case .
qed

lemma collect_distinct_nub:
  "n \<le> 64 \<Longrightarrow> collect_distinct m kind base n = nub (List.map_filter (lw_abs m) (byte_locs kind base n))"
  using length_nub_le [of "List.map_filter (lw_abs m) (byte_locs kind base n)"]
    length_map_filter [of "lw_abs m" "byte_locs kind base n"]
  by (simp add: collect_distinct_take)

definition edges_room :: "edgevec \<Rightarrow> nat \<Rightarrow> bool" where
  "edges_room ev n \<longleftrightarrow> length (ev_v ev) + n \<le> 2 ^ 50"

abbreviation mk_edge :: "nat \<Rightarrow> at_val_rec \<Rightarrow> nat \<Rightarrow> asmtest_defuse_edge" where
  "mk_edge to loc p \<equiv> \<lparr>de_from_step = p, de_to_step = to, de_loc = loc\<rparr>"

lemma edge_push_room:
  assumes "edges_room ev (Suc n)"
  obtains cap' where "edge_push [] ev p to loc = (\<lparr>ev_v = ev_v ev @ [mk_edge to loc p], ev_cap = cap'\<rparr>, [])"
proof -
  have "length (ev_v ev) + 1 \<le> SIZE_MAX div 80"
    using assms by (simp add: edges_room_def SIZE_MAX_def)
  from grow_succeeds [OF this, of "ev_cap ev"]
  obtain cap' where g: "asmtest_grow [] (ev_cap ev) (length (ev_v ev) + 1) 80 = (True, cap', [])"
    by (auto simp: asmtest_grow_def Let_def split: if_splits prod.splits option.splits)
  show ?thesis
    by (rule that [of "if length (ev_v ev) = ev_cap ev then cap' else ev_cap ev"])
      (use g in \<open>auto simp: edge_push_def\<close>)
qed

lemma edges_push_room:
  "edges_room ev (length ps) \<Longrightarrow>
   \<exists>cap'. edges_push [] ev ps to loc = (\<lparr>ev_v = ev_v ev @ map (mk_edge to loc) ps, ev_cap = cap'\<rparr>, [])"
proof (induction ps arbitrary: ev)
  case Nil
  then show ?case by (intro exI [of _ "ev_cap ev"]) (simp add: edges_push_def)
next
  case (Cons p ps)
  from Cons.prems obtain cap' where
    p: "edge_push [] ev p to loc = (\<lparr>ev_v = ev_v ev @ [mk_edge to loc p], ev_cap = cap'\<rparr>, [])"
    using edge_push_room [of ev "length ps" p to loc] by auto
  let ?ev = "\<lparr>ev_v = ev_v ev @ [mk_edge to loc p], ev_cap = cap'\<rparr>"
  have "edges_room ?ev (length ps)" using Cons.prems by (simp add: edges_room_def)
  from Cons.IH [OF this] p show ?case by (auto simp: edges_push_def)
qed

lemma length_read_edges: "length (read_edges recs t r) \<le> 64"
  using length_nub_le [of "List.map_filter (last_writer recs t) (rd_locs r)"]
    length_map_filter [of "last_writer recs t" "rd_locs r"] length_locs(2) [of r]
  by (simp add: read_edges_def)

lemma emit_read_push:
  "emit_read [] r m ev t = edges_push [] ev (nub (List.map_filter (lw_abs m) (rd_locs r))) t r"
proof -
  have n: "nub [x] = [x]" for x :: nat by (simp add: nub_def)
  show ?thesis
    using rec_bytes_le [of r]
    by (auto simp: emit_read_def rd_locs_def collect_distinct_nub lw_abs_def List.map_filter_def n
        edges_push_def split: option.splits dest!: reg_slice_len)
qed

lemma emit_read_edges:
  assumes "edges_room ev (length (read_edges recs t r))" "lw_abs m = last_writer recs t"
  shows "\<exists>cap'. emit_read [] r m ev t = (\<lparr>ev_v = ev_v ev @ read_edges recs t r, ev_cap = cap'\<rparr>, [])"
  using edges_push_room [of ev _ t r] assms by (simp add: emit_read_push read_edges_def)

lemma read_phase_edges:
  "lw_abs m = last_writer recs t \<Longrightarrow>
   edges_room ev (length (concat (map (read_edges recs t) (filter (\<lambda>r. \<not> vr_is_write r) grp)))) \<Longrightarrow>
   \<exists>cap'. read_phase t m grp (ev, []) =
     (\<lparr>ev_v = ev_v ev @ concat (map (read_edges recs t) (filter (\<lambda>r. \<not> vr_is_write r) grp)), ev_cap = cap'\<rparr>, [])"
proof (induction grp arbitrary: ev)
  case Nil
  then show ?case by (intro exI [of _ "ev_cap ev"]) (simp add: read_phase_def)
next
  case (Cons r grp)
  show ?case
  proof (cases "vr_is_write r")
    case False
    from Cons.prems False have "edges_room ev (length (read_edges recs t r))"
      by (simp add: edges_room_def)
    with emit_read_edges Cons.prems(1) obtain cap' where
      e: "emit_read [] r m ev t = (\<lparr>ev_v = ev_v ev @ read_edges recs t r, ev_cap = cap'\<rparr>, [])" by blast
    show ?thesis
      using Cons.IH [of "\<lparr>ev_v = ev_v ev @ read_edges recs t r, ev_cap = cap'\<rparr>"] Cons.prems False e
      by (auto simp: read_phase_def edges_room_def)
  qed (use Cons in \<open>auto simp: read_phase_def\<close>)
qed

text \<open>Records in step order: the group of the current step is a prefix of what is left.\<close>

lemma group_prefix:
  fixes t
  assumes "sorted (map vr_step recs)"
  defines "rs \<equiv> filter (\<lambda>r. t \<le> vr_step r) recs"
  shows "takeWhile (\<lambda>r. vr_step r = t) rs = filter (\<lambda>r. vr_step r = t) recs"
    and "dropWhile (\<lambda>r. vr_step r = t) rs = filter (\<lambda>r. Suc t \<le> vr_step r) recs"
proof -
  have "takeWhile (\<lambda>r. vr_step r = t) rs = filter (\<lambda>r. vr_step r = t) recs \<and>
    dropWhile (\<lambda>r. vr_step r = t) rs = filter (\<lambda>r. Suc t \<le> vr_step r) recs"
    using assms(1) unfolding rs_def
  proof (induction recs)
    case (Cons r recs)
    show ?case
    proof (cases "vr_step r \<le> t")
      case False
      with Cons.prems have "\<forall>x\<in>set recs. Suc t \<le> vr_step x" by auto
      then have "filter (\<lambda>r. vr_step r = t) recs = []" "filter (\<lambda>r. t \<le> vr_step r) recs = recs"
        "filter (\<lambda>r. Suc t \<le> vr_step r) recs = recs"
        by (force simp: filter_empty_conv filter_id_conv)+
      with False show ?thesis by auto
    qed (use Cons in auto)
  qed simp
  then show "takeWhile (\<lambda>r. vr_step r = t) rs = filter (\<lambda>r. vr_step r = t) recs"
    "dropWhile (\<lambda>r. vr_step r = t) rs = filter (\<lambda>r. Suc t \<le> vr_step r) recs" by blast+
qed

lemma length_concat_reads:
  "length (concat (map (read_edges recs t) (filter (\<lambda>r. \<not> vr_is_write r) grp))) \<le> 64 * length grp"
proof (induction grp)
  case (Cons r grp)
  then show ?case using length_read_edges [of recs t r] by simp
qed simp

lemma defuse_loop_spec:
  assumes "sorted (map vr_step recs)"
  shows "lw_abs m = last_writer recs t \<Longrightarrow> rs = filter (\<lambda>r. t \<le> vr_step r) recs \<Longrightarrow>
    lw_room m (64 * length rs) \<Longrightarrow> edges_room ev (64 * length rs) \<Longrightarrow>
    \<exists>cap'. defuse_loop k t rs m ev [] =
      (\<lparr>ev_v = ev_v ev @ concat (map (step_edges recs) [t..<t + k]), ev_cap = cap'\<rparr>, [])"
proof (induction k arbitrary: t rs m ev)
  case 0
  show ?case by (intro exI [of _ "ev_cap ev"]) simp
next
  case (Suc k)
  let ?grp = "filter (\<lambda>r. vr_step r = t) recs" and ?rest = "filter (\<lambda>r. Suc t \<le> vr_step r) recs"
  have g: "takeWhile (\<lambda>r. vr_step r = t) rs = ?grp" "dropWhile (\<lambda>r. vr_step r = t) rs = ?rest"
    using group_prefix [OF assms, of t] Suc.prems(2) by simp_all
  have len: "length rs = length ?grp + length ?rest"
    using g by (metis length_append takeWhile_dropWhile_id)
  let ?es = "concat (map (read_edges recs t) (filter (\<lambda>r. \<not> vr_is_write r) ?grp))"
  have es: "?es = step_edges recs t" by (simp add: step_edges_def conj_commute)
  have "edges_room ev (length ?es)"
    using Suc.prems(4) length_concat_reads [of recs t ?grp] len by (simp add: edges_room_def)
  from read_phase_edges [OF Suc.prems(1) this] obtain cap' where
    rp: "read_phase t m ?grp (ev, []) = (\<lparr>ev_v = ev_v ev @ step_edges recs t, ev_cap = cap'\<rparr>, [])"
    unfolding es by blast
  let ?ev = "\<lparr>ev_v = ev_v ev @ step_edges recs t, ev_cap = cap'\<rparr>"
  have "lw_room m (length (grp_writes ?grp) + 64 * length ?rest)"
    using length_grp_writes [of ?grp] len by (intro lw_room_less [OF Suc.prems(3)]) simp
  from write_phase_last_writer [OF this Suc.prems(1) refl] obtain m' where
    wp: "write_phase t ?grp (m, []) = (m', [])" "lw_room m' (64 * length ?rest)"
      "lw_abs m' = last_writer recs (Suc t)" .
  have "edges_room ?ev (64 * length ?rest)"
    using Suc.prems(4) length_concat_reads [of recs t ?grp] len unfolding es by (simp add: edges_room_def)
  from Suc.IH [OF wp(3) refl wp(2) this] obtain cap'' where
    "defuse_loop k (Suc t) ?rest m' ?ev [] =
      (\<lparr>ev_v = ev_v ?ev @ concat (map (step_edges recs) [Suc t..<Suc t + k]), ev_cap = cap''\<rparr>, [])" by blast
  moreover have "[t..<t + Suc k] = t # [Suc t..<Suc t + k]" by (simp add: upt_conv_Cons del: upt_Suc)
  ultimately show ?case using g rp wp(1) by (simp del: upt_Suc)
qed

lemma defuse_build_spec:
  assumes "sorted (map vr_step (buf_of (vt_recs v)))" "vt_steps_len v < 2 ^ 32" "vt_recs_len v \<le> 2 ^ 44"
  shows "asmtest_defuse_build [] (Some v) =
    (Some \<lparr>dg_edges = defuse_spec (buf_of (vt_recs v)) (vt_steps_len v), dg_nsteps = vt_steps_len v\<rparr>, [])"
proof -
  let ?rs = "buf_of (vt_recs v)"
  have b: "64 * length ?rs \<le> 2 ^ 50" using assms(3) by simp
  have "\<exists>cap'. defuse_loop (vt_steps_len v) 0 ?rs lw_empty \<lparr>ev_v = [], ev_cap = 0\<rparr> [] =
      (\<lparr>ev_v = concat (map (step_edges ?rs) [0..<vt_steps_len v]), ev_cap = cap'\<rparr>, [])"
    using defuse_loop_spec [OF assms(1), of lw_empty 0 ?rs "\<lparr>ev_v = [], ev_cap = 0\<rparr>" "vt_steps_len v"]
      lw_room_empty [OF b] b by (simp add: edges_room_def)
  then show ?thesis
    using assms(2) by (auto simp: asmtest_defuse_build_def defuse_spec_def)
qed

lemma in_defuse_spec:
  "e \<in> set (defuse_spec recs n) \<longleftrightarrow>
     de_to_step e < n \<and> de_loc e \<in> set recs \<and> vr_step (de_loc e) = de_to_step e \<and> \<not> vr_is_write (de_loc e) \<and>
     (\<exists>l\<in>set (rd_locs (de_loc e)). last_writer recs (de_to_step e) l = Some (de_from_step e))"
  by (cases e) (force simp: defuse_spec_def step_edges_def read_edges_def map_filter_def)

section \<open>Edges point forward, whatever the allocator does\<close>

definition lw_below :: "nat \<Rightarrow> lw_map \<Rightarrow> bool" where
  "lw_below t m \<longleftrightarrow> lw_inv m \<and> (\<forall>l s. lw_abs m l = Some s \<longrightarrow> s < t)"

definition edges_fwd :: "nat \<Rightarrow> edgevec \<Rightarrow> bool" where
  "edges_fwd n ev \<longleftrightarrow> (\<forall>e\<in>set (ev_v ev). de_from_step e < de_to_step e \<and> de_to_step e < n)"

lemma lw_put_below:
  assumes "lw_below t m" "step < t"
  shows "lw_below t (fst (lw_put h m kind a step))"
proof -
  from assms(1) have i: "lw_inv m" and b: "\<And>l s. lw_abs m l = Some s \<Longrightarrow> s < t" by (auto simp: lw_below_def)
  from lw_put_inv(2) [OF i, of h kind a step] show ?thesis
  proof
    assume "lw_abs (fst (lw_put h m kind a step)) = (lw_abs m)((kind, a) \<mapsto> step)"
    then show ?thesis
      using lw_put_inv(1) [OF i, of h kind a step] b assms(2) by (auto simp: lw_below_def)
  qed (use assms in simp)
qed

lemma put_range_below:
  "lw_below t m \<Longrightarrow> step < t \<Longrightarrow> lw_below t (fst (put_range h m kind base n step))"
proof (induction n)
  case (Suc n)
  then show ?case
    by (cases "put_range h m kind base n step") (simp add: put_range_def lw_put_below)
qed (simp add: put_range_def)

lemma apply_write_below: "lw_below t m \<Longrightarrow> step < t \<Longrightarrow> lw_below t (fst (apply_write h r m step))"
  by (auto simp: apply_write_def lw_put_below put_range_below split: option.split)

lemma write_phase_below:
  "lw_below t (fst s) \<Longrightarrow> step < t \<Longrightarrow> lw_below t (fst (write_phase step grp s))"
  unfolding write_phase_def
  by (rule foldl_invar [where P = "\<lambda>s. lw_below t (fst s)"]) (auto intro: apply_write_below)

lemma edge_push_fwd: "edges_fwd n ev \<Longrightarrow> p < to \<Longrightarrow> to < n \<Longrightarrow> edges_fwd n (fst (edge_push h ev p to loc))"
  by (auto simp: edge_push_def edges_fwd_def split: prod.split)

lemma edges_push_fwd:
  "edges_fwd n ev \<Longrightarrow> (\<And>p. p \<in> set ps \<Longrightarrow> p < to) \<Longrightarrow> to < n \<Longrightarrow> edges_fwd n (fst (edges_push h ev ps to loc))"
proof (induction ps arbitrary: ev h)
  case (Cons p ps)
  have "edges_fwd n (fst (edge_push h ev p to loc))" using Cons.prems by (intro edge_push_fwd) auto
  with Cons.IH [of "fst (edge_push h ev p to loc)" "snd (edge_push h ev p to loc)"] Cons.prems show ?case
    by (simp add: edges_push_def)
qed (simp add: edges_push_def)

lemma collect_distinct_below: "lw_below t m \<Longrightarrow> p \<in> set (collect_distinct m kind base n) \<Longrightarrow> p < t"
  by (auto simp: collect_distinct_take lw_below_def map_filter_def dest!: in_set_takeD)

lemma emit_read_fwd:
  "edges_fwd n ev \<Longrightarrow> lw_below t m \<Longrightarrow> t < n \<Longrightarrow> edges_fwd n (fst (emit_read h r m ev t))"
  by (auto simp: emit_read_def lw_below_def lw_abs_def split: option.split
      intro!: edges_push_fwd edge_push_fwd intro: collect_distinct_below [unfolded lw_below_def])

lemma read_phase_fwd:
  "edges_fwd n (fst s) \<Longrightarrow> lw_below t m \<Longrightarrow> t < n \<Longrightarrow> edges_fwd n (fst (read_phase t m grp s))"
  unfolding read_phase_def
  by (rule foldl_invar [where P = "\<lambda>s. edges_fwd n (fst s)"]) (auto intro: emit_read_fwd)

lemma lw_below_mono: "lw_below t m \<Longrightarrow> t \<le> u \<Longrightarrow> lw_below u m"
  by (force simp: lw_below_def)

lemma defuse_loop_fwd:
  "lw_below t m \<Longrightarrow> edges_fwd n ev \<Longrightarrow> t + k \<le> n \<Longrightarrow> edges_fwd n (fst (defuse_loop k t rs m ev h))"
proof (induction k arbitrary: t rs m ev h)
  case (Suc k)
  let ?grp = "takeWhile (\<lambda>r. vr_step r = t) rs"
  obtain ev1 h1 where rp: "read_phase t m ?grp (ev, h) = (ev1, h1)" by (cases "read_phase t m ?grp (ev, h)")
  obtain m1 h2 where wp: "write_phase t ?grp (m, h1) = (m1, h2)" by (cases "write_phase t ?grp (m, h1)")
  have "edges_fwd n ev1"
    using read_phase_fwd [of n "(ev, h)" t m ?grp] Suc.prems rp by simp
  moreover have "lw_below (Suc t) m1"
    using write_phase_below [of "Suc t" "(m, h1)" t ?grp] lw_below_mono [OF Suc.prems(1)] wp by simp
  ultimately show ?case using Suc.IH [of "Suc t" m1 ev1] Suc.prems(3) rp wp by (simp add: Let_def)
qed simp

lemma build_edge_bounds:
  assumes "asmtest_defuse_build h (Some v) = (Some g, h')" "e \<in> set (dg_edges g)"
  shows "de_from_step e < de_to_step e" "de_to_step e < dg_nsteps g"
proof -
  let ?n = "vt_steps_len v mod 2 ^ 32"
  obtain h0 ev where l: "defuse_loop ?n 0 (buf_of (vt_recs v)) lw_empty \<lparr>ev_v = [], ev_cap = 0\<rparr> h0 = (ev, h')"
    "g = \<lparr>dg_edges = ev_v ev, dg_nsteps = vt_steps_len v\<rparr>"
    using assms(1) by (auto simp: asmtest_defuse_build_def split: prod.splits if_splits)
  have "edges_fwd ?n ev"
    using defuse_loop_fwd [of 0 lw_empty ?n "\<lparr>ev_v = [], ev_cap = 0\<rparr>" ?n "buf_of (vt_recs v)" h0] l(1)
    by (simp add: lw_below_def edges_fwd_def)
  with assms(2) l(2) show "de_from_step e < de_to_step e" "de_to_step e < dg_nsteps g"
    by (auto simp: edges_fwd_def intro: order_less_le_trans [OF _ mod_less_eq_dividend])
qed

section \<open>Properties\<close>

abbreviation demo_rec :: "nat \<Rightarrow> bool \<Rightarrow> at_val_rec" where
  "demo_rec reg wr \<equiv> \<lparr>vr_kind = AT_LOC_REG, vr_reg = reg, vr_base = 0, vr_index = 0, vr_scale = 0,
     vr_disp = 0, vr_addr = 0, vr_size = 8, vr_is_write = wr, vr_value_valid = False, vr_wide = False,
     vr_wide_off = 0, vr_value = 0, vr_step = 0\<rparr>"

text \<open>
  Every edge points forward in time. Under any pattern of allocation failures, every edge of a
  graph the builder returns goes from an earlier to a later step, and the later one is a step of the
  trace.
\<close>

theorem defuse_edges_forward:
  assumes "asmtest_defuse_build h (Some v) = (Some g, h')" and "e \<in> set (dg_edges g)"
  shows "de_from_step e < de_to_step e \<and> de_to_step e < dg_nsteps g"
  using build_edge_bounds [OF assms] by blast

text \<open>Step 0 writes EAX, step 1 reads AH: the read depends on step 0.\<close>

abbreviation demo_trace :: asmtest_valtrace where
  "demo_trace \<equiv> (fresh_valtrace 4 4)\<lparr>vt_insn_off := Some [0, 2],
     vt_recs := Some [demo_rec 19 True, (demo_rec 1 False)\<lparr>vr_step := 1\<rparr>]\<rparr>"

theorem defuse_edges_forward_witness:
  "\<exists>g. asmtest_defuse_build [] (Some demo_trace) = (Some g, []) \<and>
     mk_edge 1 ((demo_rec 1 False)\<lparr>vr_step := 1\<rparr>) 0 \<in> set (dg_edges g) \<and> (1::nat) < dg_nsteps g"
proof -
  let ?e = "mk_edge 1 ((demo_rec 1 False)\<lparr>vr_step := 1\<rparr>) 0"
  let ?rs = "[demo_rec 19 True, (demo_rec 1 False)\<lparr>vr_step := 1\<rparr>]"
  let ?g = "\<lparr>dg_edges = defuse_spec ?rs (Suc (Suc 0)), dg_nsteps = Suc (Suc 0)\<rparr>"
  have b: "asmtest_defuse_build [] (Some demo_trace) = (Some ?g, [])"
    using defuse_build_spec [of demo_trace] by simp
  have s: "reg_slice 19 = Some (35, 0, 4)" "reg_slice (Suc 0) = Some (35, 1, 1)"
    by (simp_all add: reg_slice_def reg_container_def reg_groups_def reg_shape_def regs64_def regs32_def
        regs16_def regs8lo_def regs8hi_def)
  have "(2, 8961) \<in> set (rd_locs (de_loc ?e))"
    by (simp add: rd_locs_def s byte_locs_def)
  moreover have "last_writer ?rs 1 (2, 8961) = Some 0"
    by (auto simp: last_writer_Some writes_at_def wr_locs_def s byte_locs_def upt_rec)
  ultimately have "?e \<in> set (dg_edges ?g)"
    unfolding asmtest_defuse.simps in_defuse_spec by auto
  with b defuse_edges_forward [OF b this] show ?thesis by (intro exI [of _ ?g]) simp
qed

text \<open>The slices: the second switch knows every id the first one maps, and no slice leaves its container.\<close>

lemma reg_container_bound: "reg_container reg = Some c \<Longrightarrow> c < 256"
  by (auto simp: reg_container_def reg_groups_def split: if_splits)

lemma reg_shape_total: "reg_container reg = Some c \<Longrightarrow> reg_shape reg \<noteq> None"
  by (auto simp: reg_container_def reg_groups_def reg_shape_def regs64_def regs32_def regs16_def
      regs8lo_def regs8hi_def split: if_splits)

lemma reg_slice_bounds:
  assumes "reg_slice reg = Some (c, off, len)"
  shows "c < 256 \<and> 0 < len \<and> off + len \<le> 8 \<and> off + (if len = 4 then 8 else len) \<le> 8"
  using assms reg_container_bound [of reg c]
  by (auto simp: reg_slice_def reg_shape_def split: option.splits if_splits)

lemma slice_base_val:
  assumes "c < 256" "off < 8"
  shows "slice_base c off = (of_nat (c * 256 + off) :: u64)"
proof -
  have "push_bit 8 (of_nat c :: u64) = of_nat (c * 256)" by (simp add: push_bit_eq_mult)
  moreover have "push_bit 8 (of_nat c :: u64) AND of_nat off = 0"
  proof -
    have "take_bit 3 off = off" using assms(2) by (simp add: take_bit_nat_eq_self)
    then have "of_nat off = (take_bit 3 (of_nat off) :: u64)" by (simp add: take_bit_of_nat)
    then have "push_bit 8 (of_nat c :: u64) AND of_nat off =
        push_bit 8 (of_nat c) AND take_bit 3 (of_nat off)" by simp
    then show ?thesis by (auto simp: bit_eq_iff bit_simps)
  qed
  ultimately show ?thesis using disjunctive_add_eq_or [of "push_bit 8 (of_nat c :: u64)" "of_nat off"] by simp
qed

text \<open>Byte \<open>b\<close> of a container has the location key \<open>256 * c + b\<close>.\<close>

lemma in_slice_locs:
  assumes "c < 256" "off + n \<le> 8"
  shows "l \<in> set (byte_locs 2 (slice_base c off) n) \<longleftrightarrow> (\<exists>b. off \<le> b \<and> b < off + n \<and> l = (2, of_nat (c * 256 + b)))"
proof (cases "n = 0")
  case False
  then have s: "slice_base c off = (of_nat (c * 256 + off) :: u64)" using assms by (intro slice_base_val) auto
  have "byte_locs 2 (slice_base c off) n = map (\<lambda>b. (2, of_nat (c * 256 + (off + b)))) [0..<n]"
    by (simp add: byte_locs_def s add.assoc)
  then have "l \<in> set (byte_locs 2 (slice_base c off) n) \<longleftrightarrow> (\<exists>d<n. l = (2, of_nat (c * 256 + (off + d))))"
    by auto
  also have "\<dots> \<longleftrightarrow> (\<exists>b. off \<le> b \<and> b < off + n \<and> l = (2, of_nat (c * 256 + b)))"
    by (metis add_less_cancel_left le_Suc_ex le_add1)
  finally show ?thesis .
qed (simp add: byte_locs_def)

lemma slice_key_inj:
  assumes "c < 256" "c' < 256" "b < 8" "b' < 8" "(of_nat (c * 256 + b) :: u64) = of_nat (c' * 256 + b')"
  shows "c = c' \<and> b = b'"
proof -
  have "c * 256 + b = c' * 256 + b'"
    using assms(1-4) arg_cong [OF assms(5), of unat] by (simp add: unat_of_nat del: of_nat_add of_nat_mult)
  then have "(c * 256 + b) div 256 = (c' * 256 + b') div 256" "(c * 256 + b) mod 256 = (c' * 256 + b') mod 256"
    by simp_all
  then show ?thesis using assms(3,4) by simp
qed



section \<open>Cells\<close>

text \<open>
  What a record touches, by what it means: a byte of a 64-bit general register, another register as a whole, a byte of memory in its address space. An operand's memory is its first
  64 bytes; a size of 0 counts as one byte.
\<close>

datatype cell = GpByte nat nat | OtherReg nat | MemByte at_loc_kind u64

definition mem_cells :: "at_val_rec \<Rightarrow> cell set" where
  "mem_cells r = {MemByte (vr_kind r) (vr_addr r + of_nat i) | i. i < min 64 (max 1 (vr_size r))}"

definition rd_cells :: "at_val_rec \<Rightarrow> cell set" where
  "rd_cells r =
     (if vr_kind r = AT_LOC_REG
      then case reg_slice (vr_reg r) of Some (c, off, len) \<Rightarrow> {GpByte c b | b. off \<le> b \<and> b < off + len} | None \<Rightarrow> {OtherReg (vr_reg r)}
      else mem_cells r)"

definition wr_cells :: "at_val_rec \<Rightarrow> cell set" where
  "wr_cells r =
     (if vr_kind r = AT_LOC_REG
      then case reg_slice (vr_reg r) of
             Some (c, off, len) \<Rightarrow> {GpByte c b | b. off \<le> b \<and> b < off + (if len = 4 then 8 else len)}
           | None \<Rightarrow> {OtherReg (vr_reg r)}
      else mem_cells r)"

definition defines_cell :: "at_val_rec list \<Rightarrow> nat \<Rightarrow> cell \<Rightarrow> bool" where
  "defines_cell recs s c \<longleftrightarrow> (\<exists>r\<in>set recs. vr_step r = s \<and> vr_is_write r \<and> c \<in> wr_cells r)"

text \<open>The memory records of a trace share one address space, and register ids are those of a \<^verbatim>\<open>uint32_t\<close>.\<close>

definition one_space :: "at_loc_kind \<Rightarrow> at_val_rec list \<Rightarrow> bool" where
  "one_space k recs \<longleftrightarrow> (\<forall>r\<in>set recs. vr_kind r \<in> {AT_LOC_REG, k} \<and> vr_reg r < 2 ^ 32)"

fun key_of :: "cell \<Rightarrow> loc" where
  "key_of (GpByte c b) = (2, of_nat (c * 256 + b))"
| "key_of (OtherReg n) = (0, of_nat n)"
| "key_of (MemByte k a) = (1, a)"

fun cell_ok :: "at_loc_kind \<Rightarrow> cell \<Rightarrow> bool" where
  "cell_ok k (GpByte c b) \<longleftrightarrow> c < 256 \<and> b < 8"
| "cell_ok k (OtherReg n) \<longleftrightarrow> n < 2 ^ 32"
| "cell_ok k (MemByte k' a) \<longleftrightarrow> k' = k"

lemma key_of_inj: "cell_ok k c \<Longrightarrow> cell_ok k d \<Longrightarrow> key_of c = key_of d \<Longrightarrow> c = d"
proof (cases c; cases d)
  fix x y assume "cell_ok k c" "cell_ok k d" "key_of c = key_of d" "c = OtherReg x" "d = OtherReg y"
  then have "unat (of_nat x :: u64) = unat (of_nat y :: u64)" "x < 2 ^ 64" "y < 2 ^ 64" by auto
  then show "c = d" using \<open>c = OtherReg x\<close> \<open>d = OtherReg y\<close> by (simp add: unat_of_nat)
qed (auto dest: slice_key_inj)

lemma mem_keys: "set (byte_locs 1 (vr_addr r) (rec_bytes r)) = key_of ` mem_cells r"
proof -
  have "rec_bytes r = min 64 (max 1 (vr_size r))" by (simp add: rec_bytes_def Let_def min_def max_def)
  then show ?thesis by (auto simp: byte_locs_def mem_cells_def image_iff) (metis key_of.simps(3))
qed

lemma slice_keys:
  "reg_slice reg = Some (c, off, len) \<Longrightarrow> off + n \<le> 8 \<Longrightarrow> set (byte_locs 2 (slice_base c off) n) = key_of ` {GpByte c b | b. off \<le> b \<and> b < off + n}"
  using in_slice_locs [of c off n] reg_slice_bounds [of reg c off len] by (auto simp: set_eq_iff image_iff)

lemma rd_keys: "set (rd_locs r) = key_of ` rd_cells r"
  by (auto simp: rd_locs_def rd_cells_def mem_keys slice_keys reg_slice_bounds split: option.splits)

lemma wr_keys: "set (wr_locs r) = key_of ` wr_cells r"
proof (cases "vr_kind r = AT_LOC_REG \<and> reg_slice (vr_reg r) \<noteq> None")
  case True
  then obtain c off len where "reg_slice (vr_reg r) = Some (c, off, len)" by auto
  then show ?thesis using True slice_keys [of "vr_reg r" c off len] reg_slice_bounds [of "vr_reg r" c off len] by (auto simp: wr_locs_def wr_cells_def)
qed (auto simp: wr_locs_def wr_cells_def mem_keys split: option.splits)

lemma cells_ok:
  assumes "one_space k recs" "r \<in> set recs"
  shows "c \<in> rd_cells r \<or> c \<in> wr_cells r \<Longrightarrow> cell_ok k c"
proof -
  have "vr_kind r \<in> {AT_LOC_REG, k}" "vr_reg r < 2 ^ 32" using assms by (auto simp: one_space_def)
  then show "c \<in> rd_cells r \<or> c \<in> wr_cells r \<Longrightarrow> cell_ok k c"
    by (auto simp: rd_cells_def wr_cells_def mem_cells_def split: option.splits if_splits dest: reg_slice_bounds)
qed

lemma writes_at_cell:
  assumes "one_space k recs" "cell_ok k c"
  shows "writes_at recs s (key_of c) \<longleftrightarrow> defines_cell recs s c"
  using key_of_inj [OF assms(2)] cells_ok [OF assms(1)] by (fastforce simp: writes_at_def defines_cell_def wr_keys)

text \<open>An edge of the trace: a read record of step \<open>t\<close>, and the last step before it that wrote one of the cells it reads.\<close>

definition flow_edge :: "at_val_rec list \<Rightarrow> asmtest_defuse_edge \<Rightarrow> bool" where
  "flow_edge recs e \<longleftrightarrow>
     de_loc e \<in> set recs \<and> vr_step (de_loc e) = de_to_step e \<and> \<not> vr_is_write (de_loc e) \<and> de_from_step e < de_to_step e \<and>
     (\<exists>c\<in>rd_cells (de_loc e). defines_cell recs (de_from_step e) c \<and>
        (\<forall>s. de_from_step e < s \<and> s < de_to_step e \<longrightarrow> \<not> defines_cell recs s c))"

lemma defuse_spec_flow:
  assumes "one_space k recs" "\<And>r. r \<in> set recs \<Longrightarrow> vr_step r < n"
  shows "e \<in> set (defuse_spec recs n) \<longleftrightarrow> flow_edge recs e"
proof -
  have cell: "(\<exists>l\<in>set (rd_locs r). f < t \<and> writes_at recs f l \<and> (\<forall>s. f < s \<and> s < t \<longrightarrow> \<not> writes_at recs s l)) \<longleftrightarrow>
      f < t \<and> (\<exists>c\<in>rd_cells r. defines_cell recs f c \<and> (\<forall>s. f < s \<and> s < t \<longrightarrow> \<not> defines_cell recs s c))" if "r \<in> set recs" for r f t
    using writes_at_cell [OF assms(1)] cells_ok [OF assms(1) that] by (auto simp: rd_keys)
  have "e \<in> set (defuse_spec recs n) \<longleftrightarrow>
      de_loc e \<in> set recs \<and> vr_step (de_loc e) = de_to_step e \<and> \<not> vr_is_write (de_loc e) \<and>
      (\<exists>l\<in>set (rd_locs (de_loc e)). de_from_step e < de_to_step e \<and> writes_at recs (de_from_step e) l \<and>
        (\<forall>s. de_from_step e < s \<and> s < de_to_step e \<longrightarrow> \<not> writes_at recs s l))"
    unfolding in_defuse_spec last_writer_Some using assms(2) [of "de_loc e"]
    by (cases "vr_step (de_loc e) = de_to_step e") (simp_all only: simp_thms, blast)
  then show ?thesis using cell [of "de_loc e" "de_from_step e" "de_to_step e"] unfolding flow_edge_def by argo
qed

text \<open>
  C1: The def-use builder is exact. Take the value trace of any producer run (up to 2^32 - 1 steps and 2^44 records kept) whose memory records are all absolute or all routine-relative, with
  memory available. The graph has an edge from step \<open>p\<close> to step \<open>t\<close> for a read record exactly when the record is a read of step \<open>t\<close> and, for one of the cells it reads, \<open>p\<close> is the last
  step before \<open>t\<close> that wrote that cell. A cell is a byte of a 64-bit general register, where a 32-bit write defines all eight bytes, any other register (each vector register id is one
  cell), or a byte of memory among the first 64 of the operand. (A trace that mixes the two address spaces is not covered: the builder keys both alike.)
\<close>

theorem defuse_exact:
  fixes ss :: "vstep list"
  assumes "0 < steps_cap" "steps_cap < 2 ^ 32" "0 < recs_cap" "recs_cap \<le> 2 ^ 44"
  defines "recs \<equiv> take recs_cap (stamped (take steps_cap ss))"
  assumes "one_space k recs"
  shows "\<exists>v g. asmtest_valtrace_new [] steps_cap recs_cap 0 = (Some v, []) \<and>
    asmtest_defuse_build [] (Some (valtrace_run v ss)) = (Some g, []) \<and>
    dg_nsteps g = min steps_cap (length ss) \<and>
    (\<forall>e. e \<in> set (dg_edges g) \<longleftrightarrow> flow_edge recs e)"
proof -
  let ?v = "valtrace_run (fresh_valtrace steps_cap recs_cap) ss"
  have n: "vt_steps_len ?v = min steps_cap (length ss)" by (simp add: fresh_valtrace_offs min.commute)
  have r: "buf_of (vt_recs ?v) = recs" by (simp add: fresh_valtrace_recs recs_def)
  have l32: "length (take steps_cap ss) \<le> 2 ^ 32" using assms(2) by simp
  have "sorted (map vr_step recs)"
    unfolding recs_def take_map [symmetric] using sorted_stamped [OF l32] by (rule sorted_wrt_take)
  moreover have "vt_recs_len ?v \<le> 2 ^ 44" unfolding r recs_def using assms(4) by simp
  ultimately have b: "asmtest_defuse_build [] (Some ?v) =
      (Some \<lparr>dg_edges = defuse_spec recs (vt_steps_len ?v), dg_nsteps = vt_steps_len ?v\<rparr>, [])"
    using defuse_build_spec [of ?v] assms(2) unfolding r n by simp
  have st: "vr_step r < min steps_cap (length ss)" if "r \<in> set recs" for r
    using that stamped_steps [OF l32, of r] by (auto simp: recs_def dest: in_set_takeD)
  note edge = defuse_spec_flow [OF assms(6) st]
  show ?thesis
    using valtrace_new_fresh [OF assms(1,3)] b unfolding n
    by (intro exI conjI allI) (assumption | simp add: edge)+
qed

theorem defuse_exact_witness:
  "\<exists>v g. asmtest_valtrace_new [] 4 16 0 = (Some v, []) \<and>
    asmtest_defuse_build [] (Some (valtrace_run v [(0, [demo_rec 19 True]), (3, [demo_rec 35 False])])) =
      (Some g, []) \<and> dg_nsteps g = 2"
proof -
  have "one_space AT_LOC_MEM_ABS (take 16 (stamped (take 4 [(0, [demo_rec 19 True]), (3, [demo_rec 35 False])])))"
    by (simp add: one_space_def stamped_def)
  with defuse_exact [of 4 16 AT_LOC_MEM_ABS "[(0, [demo_rec 19 True]), (3, [demo_rec 35 False])]"] show ?thesis by auto
qed



text \<open>
  The memory axis has one key space: a routine-relative record and an absolute one with the same
  number meet, although they name different memory.
\<close>

lemma mem_spaces_share_keys:
  "vr_kind a = AT_LOC_MEM_ABS \<Longrightarrow> vr_kind b = AT_LOC_MEM_OFF \<Longrightarrow> vr_addr a = vr_addr b \<Longrightarrow>
   vr_size a = vr_size b \<Longrightarrow> wr_locs a = rd_locs b"
  by (simp add: wr_locs_def rd_locs_def rec_bytes_def)

end
