(* ===== verification/Slice.thy ===== *)
theory Slice
  imports Defuse
begin

text \<open>
  The L2 slices of \<^verbatim>\<open>src/src/dataflow.c\<close>: a breadth-first search over the def-use edges from one
  step, forward (producer to consumer) or backward, and the membership test. The queue \<^verbatim>\<open>q\<close> and the
  visited flags \<^verbatim>\<open>vis\<close> are lists, the read position \<^verbatim>\<open>qh\<close> an index; the array \<^verbatim>\<open>q\<close> has one slot per
  step, which the search never exceeds (\<open>bfs_inv\<close>). The result is the sorted set of steps
  reachable in the chosen direction.
\<close>

section \<open>Operations\<close>

text \<open>\<open>None\<close> is a \<^verbatim>\<open>NULL\<close> array.\<close>

record asmtest_slice =
  sl_steps :: "nat list option"

definition edge_ends :: "bool \<Rightarrow> asmtest_defuse_edge \<Rightarrow> nat \<times> nat" where
  "edge_ends forward e = (if forward then (de_from_step e, de_to_step e) else (de_to_step e, de_from_step e))"

definition visit_edge :: "bool \<Rightarrow> nat \<Rightarrow> bool list \<times> nat list \<Rightarrow> asmtest_defuse_edge \<Rightarrow> bool list \<times> nat list" where
  "visit_edge forward u s e =
     (case s of (vis, q) \<Rightarrow> case edge_ends forward e of (a, b) \<Rightarrow>
        if a = u \<and> b < length vis \<and> \<not> vis ! b then (vis[b := True], q @ [b]) else (vis, q))"

definition scan_edges :: "bool \<Rightarrow> asmtest_defuse_edge list \<Rightarrow> nat \<Rightarrow> bool list \<times> nat list \<Rightarrow> bool list \<times> nat list" where
  "scan_edges forward es u s = foldl (visit_edge forward u) s es"

text \<open>The search ends: every round takes one entry off the queue, and only unvisited steps enter it.\<close>

abbreviation unvisited :: "bool list \<Rightarrow> nat" where
  "unvisited vis \<equiv> length (filter Not vis)"

lemma unvisited_update: "b < length vis \<Longrightarrow> \<not> vis ! b \<Longrightarrow> Suc (unvisited (vis[b := True])) = unvisited vis"
proof (induction vis arbitrary: b)
  case (Cons x vis)
  then show ?case by (cases b) auto
qed simp

lemma scan_edges_measure:
  "length (snd (scan_edges fw es u (vis, q))) + unvisited (fst (scan_edges fw es u (vis, q))) = length q + unvisited vis \<and>
   length q \<le> length (snd (scan_edges fw es u (vis, q)))"
proof (induction es arbitrary: vis q)
  case (Cons e es)
  obtain a b where ab: "edge_ends fw e = (a, b)" by (cases "edge_ends fw e")
  show ?case
  proof (cases "a = u \<and> b < length vis \<and> \<not> vis ! b")
    case True
    with Cons.IH [of "vis[b := True]" "q @ [b]"] unvisited_update [of b vis] ab show ?thesis
      by (simp add: scan_edges_def visit_edge_def)
  next
    case False
    with Cons.IH [of vis q] ab show ?thesis by (auto simp: scan_edges_def visit_edge_def)
  qed
qed (simp add: scan_edges_def)

function bfs :: "bool \<Rightarrow> asmtest_defuse_edge list \<Rightarrow> bool list \<Rightarrow> nat list \<Rightarrow> nat \<Rightarrow> bool list \<times> nat list" where
  "bfs forward es vis q qh =
     (if qh < length q
      then case scan_edges forward es (q ! qh) (vis, q) of (vis', q') \<Rightarrow> bfs forward es vis' q' (qh + 1)
      else (vis, q))"
  by auto
termination
proof (relation "measure (\<lambda>(fw, es, vis, q, qh). 2 * unvisited vis + (length q - qh))", goal_cases)
  case (2 forward es vis q qh vis' q')
  from 2(2) [symmetric] scan_edges_measure [of forward es "q ! qh" vis q]
  have "length q' + unvisited vis' = length q + unvisited vis" "length q \<le> length q'" by simp_all
  with 2(1) show ?case by simp
qed simp

declare bfs.simps [simp del]

text \<open>
  The collecting loop's counter is a \<^verbatim>\<open>uint32_t\<close> tested against a \<^verbatim>\<open>size_t\<close>: with \<open>2 ^ 32\<close> steps or more
  the test never fails and the loop does not end, the value \<open>None\<close>.
\<close>

definition collect_steps :: "bool list \<Rightarrow> nat list option" where
  "collect_steps vis = (if length vis < 2 ^ 32 then Some (filter (\<lambda>k. vis ! k) [0..<length vis]) else None)"

definition cmp_u32 :: "u32 \<Rightarrow> u32 \<Rightarrow> int" where
  "cmp_u32 x y = (if x > y then 1 else 0) - (if x < y then 1 else 0)"

text \<open>The outer option is termination, the inner one the C pointer.\<close>

definition slice_dir ::
  "heap \<Rightarrow> asmtest_defuse option \<Rightarrow> nat \<Rightarrow> bool \<Rightarrow> (asmtest_slice option \<times> heap) option" where
  "slice_dir h go origin forward =
     (case alloc h of (ok, h0) \<Rightarrow>
        if \<not> ok then Some (None, h0)
        else case go of
          None \<Rightarrow> Some (Some \<lparr>sl_steps = None\<rparr>, h0)
        | Some g \<Rightarrow>
            if origin \<ge> dg_nsteps g then Some (Some \<lparr>sl_steps = None\<rparr>, h0)
            else case alloc h0 of (ok1, h1) \<Rightarrow> case alloc h1 of (ok2, h2) \<Rightarrow>
              if \<not> ok1 \<or> \<not> ok2 then Some (Some \<lparr>sl_steps = None\<rparr>, h2)
              else let vis = fst (bfs forward (dg_edges g)
                                   ((replicate (dg_nsteps g) False)[origin := True]) [origin] 0)
                   in case alloc h2 of (ok3, h3) \<Rightarrow>
                        if \<not> ok3 then Some (Some \<lparr>sl_steps = None\<rparr>, h3)
                        else map_option (\<lambda>xs. (Some \<lparr>sl_steps = Some (sort xs)\<rparr>, h3)) (collect_steps vis))"

definition asmtest_slice_forward where
  "asmtest_slice_forward h g seed = slice_dir h g (vr_step seed) True"

definition asmtest_slice_backward where
  "asmtest_slice_backward h g sink = slice_dir h g (vr_step sink) False"

definition asmtest_slice_forward_seed where
  "asmtest_slice_forward_seed h g seed = slice_dir h g (case seed of None \<Rightarrow> 0 | Some s \<Rightarrow> vr_step s) True"

definition asmtest_slice_backward_seed where
  "asmtest_slice_backward_seed h g seed = slice_dir h g (case seed of None \<Rightarrow> 0 | Some s \<Rightarrow> vr_step s) False"

definition asmtest_slice_contains :: "asmtest_slice option \<Rightarrow> nat \<Rightarrow> int" where
  "asmtest_slice_contains s step =
     (case s of None \<Rightarrow> 0
      | Some s \<Rightarrow> (case sl_steps s of None \<Rightarrow> 0 | Some xs \<Rightarrow> if step \<in> set xs then 1 else 0))"

section \<open>The search\<close>

text \<open>One step along an edge, inside the trace.\<close>

definition dep_rel :: "bool \<Rightarrow> asmtest_defuse_edge list \<Rightarrow> nat \<Rightarrow> (nat \<times> nat) set" where
  "dep_rel forward es n = {(a, b). b < n \<and> (a, b) \<in> edge_ends forward ` set es}"

definition visited :: "bool list \<Rightarrow> nat set" where
  "visited vis = {k. k < length vis \<and> vis ! k}"

lemma visited_update: "b < length vis \<Longrightarrow> visited (vis[b := True]) = insert b (visited vis)"
  by (auto simp: visited_def nth_list_update)

lemma scan_edges_spec:
  assumes "scan_edges fw es u (vis, q) = (vis', q')"
  shows "length vis' = length vis \<and> (\<exists>ns. q' = q @ ns \<and> distinct ns \<and>
     set ns = {b. (u, b) \<in> dep_rel fw es (length vis)} - visited vis \<and>
     visited vis' = visited vis \<union> set ns)"
  using assms
proof (induction es arbitrary: vis q)
  case Nil
  then show ?case by (auto simp: scan_edges_def dep_rel_def)
next
  case (Cons e es)
  obtain a b where ab: "edge_ends fw e = (a, b)" by (cases "edge_ends fw e")
  show ?case
  proof (cases "a = u \<and> b < length vis \<and> \<not> vis ! b")
    case True
    with Cons.prems ab have "scan_edges fw es u (vis[b := True], q @ [b]) = (vis', q')"
      by (simp add: scan_edges_def visit_edge_def)
    from Cons.IH [OF this] obtain ns where ns: "length vis' = length vis" "q' = q @ [b] @ ns" "distinct ns"
      "set ns = {b. (u, b) \<in> dep_rel fw es (length vis)} - visited (vis[b := True])"
      "visited vis' = visited (vis[b := True]) \<union> set ns" by auto
    show ?thesis
      using ns True ab visited_update [of b vis]
      by (intro conjI exI [of _ "b # ns"]) (auto simp: dep_rel_def visited_def)
  next
    case False
    with Cons.prems ab have "scan_edges fw es u (vis, q) = (vis', q')"
      by (auto simp: scan_edges_def visit_edge_def)
    from Cons.IH [OF this] False ab show ?thesis
      by (auto simp: dep_rel_def visited_def)
  qed
qed

definition bfs_inv :: "bool \<Rightarrow> asmtest_defuse_edge list \<Rightarrow> nat \<Rightarrow> nat \<Rightarrow> bool list \<Rightarrow> nat list \<Rightarrow> nat \<Rightarrow> bool" where
  "bfs_inv fw es n origin vis q qh \<longleftrightarrow>
     length vis = n \<and> distinct q \<and> set q = visited vis \<and> qh \<le> length q \<and> origin \<in> set q \<and>
     set q \<subseteq> {k. (origin, k) \<in> (dep_rel fw es n)\<^sup>*} \<and>
     (\<forall>i<qh. \<forall>b. (q ! i, b) \<in> dep_rel fw es n \<longrightarrow> b \<in> set q)"

lemma bfs_inv_step:
  assumes "bfs_inv fw es n origin vis q qh" "qh < length q" "scan_edges fw es (q ! qh) (vis, q) = (vis', q')"
  shows "bfs_inv fw es n origin vis' q' (qh + 1)"
proof -
  let ?u = "q ! qh"
  from scan_edges_spec [OF assms(3)] assms(1) obtain ns where ns: "length vis' = n" "q' = q @ ns" "distinct ns"
    "set ns = {b. (?u, b) \<in> dep_rel fw es n} - set q" "visited vis' = set q \<union> set ns"
    by (auto simp: bfs_inv_def)
  have u: "?u \<in> set q" using assms(2) by simp
  have new: "set ns \<subseteq> {k. (origin, k) \<in> (dep_rel fw es n)\<^sup>*}"
    using ns(4) u assms(1) by (auto simp: bfs_inv_def intro: rtrancl_into_rtrancl)
  have "(q' ! i, b) \<in> dep_rel fw es n \<Longrightarrow> b \<in> set q'" if "i < qh + 1" for i b
    using that ns(2,4) assms(1,2) by (cases "i = qh") (auto simp: bfs_inv_def nth_append less_Suc_eq)
  then show ?thesis using assms(1,2) ns new by (auto simp: bfs_inv_def)
qed

lemma bfs_inv_end:
  "bfs_inv fw es n origin vis q qh \<Longrightarrow> \<exists>qh'. bfs_inv fw es n origin (fst (bfs fw es vis q qh)) (snd (bfs fw es vis q qh)) qh' \<and>
     qh' = length (snd (bfs fw es vis q qh))"
proof (induction fw es vis q qh rule: bfs.induct)
  case (1 forward es vis q qh)
  show ?case
  proof (cases "qh < length q")
    case True
    obtain vis' q' where s: "scan_edges forward es (q ! qh) (vis, q) = (vis', q')"
      by (cases "scan_edges forward es (q ! qh) (vis, q)")
    from "1.IH" [OF True s [symmetric] bfs_inv_step [OF "1.prems" True s]] True s show ?thesis
      by (simp add: bfs.simps [of forward es vis q qh])
  next
    case False
    then have r: "bfs forward es vis q qh = (vis, q)" by (simp add: bfs.simps [of forward es vis q qh])
    from False "1.prems" show ?thesis unfolding r by (auto simp: bfs_inv_def)
  qed
qed

lemma bfs_reachable:
  assumes "origin < n"
  shows "visited (fst (bfs fw es ((replicate n False)[origin := True]) [origin] 0)) =
      {k. (origin, k) \<in> (dep_rel fw es n)\<^sup>*}" (is "visited (fst ?r) = ?R")
    and "length (fst (bfs fw es ((replicate n False)[origin := True]) [origin] 0)) = n"
    and "length (snd (bfs fw es ((replicate n False)[origin := True]) [origin] 0)) \<le> n"
proof -
  let ?vis = "(replicate n False)[origin := True]"
  have "visited ?vis = {origin}" using assms by (auto simp: visited_def nth_list_update)
  then have "bfs_inv fw es n origin ?vis [origin] 0" by (simp add: bfs_inv_def)
  from bfs_inv_end [OF this] have
    i: "bfs_inv fw es n origin (fst ?r) (snd ?r) (length (snd ?r))" by auto
  then have "?R \<subseteq> set (snd ?r)"
  proof (intro subsetI, elim CollectE)
    fix k assume "(origin, k) \<in> (dep_rel fw es n)\<^sup>*"
    then show "k \<in> set (snd ?r)"
      by induction (use i in \<open>auto simp: bfs_inv_def in_set_conv_nth\<close>)
  qed
  with i show "visited (fst ?r) = ?R" by (auto simp: bfs_inv_def)
  from i show "length (fst ?r) = n" by (simp add: bfs_inv_def)
  from i have "set (snd ?r) \<subseteq> {0..<n}" "distinct (snd ?r)" by (auto simp: bfs_inv_def visited_def)
  then have "card (set (snd ?r)) \<le> n" using card_mono [of "{0..<n}" "set (snd ?r)"] by simp
  then show "length (snd ?r) \<le> n" using \<open>distinct (snd ?r)\<close> by (simp add: distinct_card)
qed

lemma slice_dir_ok:
  assumes "dg_nsteps g < 2 ^ 32" "origin < dg_nsteps g"
  obtains xs where "slice_dir [] (Some g) origin fw = Some (Some \<lparr>sl_steps = Some xs\<rparr>, [])"
    "sorted xs" "distinct xs" "set xs = {k. (origin, k) \<in> (dep_rel fw (dg_edges g) (dg_nsteps g))\<^sup>*}"
proof -
  let ?vis = "fst (bfs fw (dg_edges g) ((replicate (dg_nsteps g) False)[origin := True]) [origin] 0)"
  note r = bfs_reachable [OF assms(2), of fw "dg_edges g"]
  let ?xs = "filter (\<lambda>k. ?vis ! k) [0..<dg_nsteps g]"
  have s: "slice_dir [] (Some g) origin fw = Some (Some \<lparr>sl_steps = Some (sort ?xs)\<rparr>, [])"
    using assms r(2) by (simp add: slice_dir_def collect_steps_def Let_def)
  have "set ?xs = visited ?vis" using r(2) by (auto simp: visited_def)
  with r(1) s show ?thesis by (intro that [of "sort ?xs"]) simp_all
qed

section \<open>Properties\<close>

text \<open>
  C4: A slice is reachability. On a graph of fewer than 2^32 steps, with memory available, the search
  ends, its queue never holds more entries than it has slots, and the forward (backward) slice from
  a step of the trace is the ascending, duplicate-free list of exactly the steps reachable from it
  along def-use edges taken from producer to consumer (from consumer to producer).
\<close>

theorem slice_is_reachability:
  assumes "dg_nsteps g < 2 ^ 32" and "origin < dg_nsteps g"
  shows "\<exists>xs. slice_dir [] (Some g) origin forward = Some (Some \<lparr>sl_steps = Some xs\<rparr>, []) \<and>
    sorted xs \<and> distinct xs \<and>
    (\<forall>k. k \<in> set xs \<longleftrightarrow>
       (origin, k) \<in> {(a, b). b < dg_nsteps g \<and> (\<exists>e\<in>set (dg_edges g). (a, b) =
          (if forward then (de_from_step e, de_to_step e) else (de_to_step e, de_from_step e)))}\<^sup>*) \<and>
    length (snd (bfs forward (dg_edges g) ((replicate (dg_nsteps g) False)[origin := True]) [origin] 0))
      \<le> dg_nsteps g"
proof -
  have d: "dep_rel forward (dg_edges g) (dg_nsteps g) =
     {(a, b). b < dg_nsteps g \<and> (\<exists>e\<in>set (dg_edges g). (a, b) =
          (if forward then (de_from_step e, de_to_step e) else (de_to_step e, de_from_step e)))}"
    by (auto simp: dep_rel_def edge_ends_def image_iff)
  obtain xs where "slice_dir [] (Some g) origin forward = Some (Some \<lparr>sl_steps = Some xs\<rparr>, [])"
    "sorted xs" "distinct xs" "set xs = {k. (origin, k) \<in> (dep_rel forward (dg_edges g) (dg_nsteps g))\<^sup>*}"
    using slice_dir_ok [OF assms] by blast
  with bfs_reachable(3) [OF assms(2), of forward "dg_edges g"] show ?thesis unfolding d by blast
qed

abbreviation demo_graph :: asmtest_defuse where
  "demo_graph \<equiv> \<lparr>dg_edges = [mk_edge 1 (demo_rec 1 False) 0], dg_nsteps = 3\<rparr>"

theorem slice_is_reachability_witness:
  "\<exists>xs. slice_dir [] (Some demo_graph) 0 True = Some (Some \<lparr>sl_steps = Some xs\<rparr>, []) \<and> 1 \<in> set xs"
proof -
  obtain xs where xs: "slice_dir [] (Some demo_graph) 0 True = Some (Some \<lparr>sl_steps = Some xs\<rparr>, [])"
    and m: "\<forall>k. k \<in> set xs \<longleftrightarrow> (0, k) \<in> {(a, b). b < dg_nsteps demo_graph \<and> (\<exists>e\<in>set (dg_edges demo_graph). (a, b) =
          (if True then (de_from_step e, de_to_step e) else (de_to_step e, de_from_step e)))}\<^sup>*"
    using slice_is_reachability [of demo_graph 0 True] by auto
  have "1 \<in> set xs" unfolding m [rule_format] by (rule r_into_rtrancl) simp
  with xs show ?thesis by blast
qed

lemma dep_rel_converse:
  assumes "\<And>e. e \<in> set es \<Longrightarrow> de_from_step e < n \<and> de_to_step e < n"
  shows "dep_rel False es n = (dep_rel True es n)\<inverse>"
  using assms by (fastforce simp: dep_rel_def edge_ends_def)

text \<open>
  Forward and backward slices are dual. For a graph the builder makes of any value trace, under
  any pattern of allocation failures while it is built, the forward slice of step \<open>i\<close> contains step
  \<open>j\<close> exactly when the backward slice of \<open>j\<close> contains \<open>i\<close>; both searches return, and a forward
  slice holds no step before its origin.
\<close>

theorem slice_duality:
  assumes "asmtest_defuse_build h (Some v) = (Some g, h')" and "dg_nsteps g < 2 ^ 32"
    and "vr_step a < dg_nsteps g" and "vr_step b < dg_nsteps g"
  shows "\<exists>sf sb. asmtest_slice_forward [] (Some g) a = Some (sf, []) \<and>
    asmtest_slice_backward [] (Some g) b = Some (sb, []) \<and>
    asmtest_slice_contains sf (vr_step b) = asmtest_slice_contains sb (vr_step a) \<and>
    (\<forall>k. asmtest_slice_contains sf k = 1 \<longrightarrow> vr_step a \<le> k)"
proof -
  let ?es = "dg_edges g" and ?n = "dg_nsteps g"
  note b = build_edge_bounds [OF assms(1)]
  have c: "dep_rel False ?es ?n = (dep_rel True ?es ?n)\<inverse>"
    by (intro dep_rel_converse) (use b in \<open>auto intro: order_less_trans\<close>)
  have up: "i \<le> k" if "(i, k) \<in> (dep_rel True ?es ?n)\<^sup>*" for i k
    using that by induction (auto simp: dep_rel_def edge_ends_def dest!: b(1))
  from slice_dir_ok [OF assms(2,3), of True] obtain xs where
    xs: "slice_dir [] (Some g) (vr_step a) True = Some (Some \<lparr>sl_steps = Some xs\<rparr>, [])"
      "set xs = {k. (vr_step a, k) \<in> (dep_rel True ?es ?n)\<^sup>*}" .
  from slice_dir_ok [OF assms(2,4), of False] obtain ys where
    ys: "slice_dir [] (Some g) (vr_step b) False = Some (Some \<lparr>sl_steps = Some ys\<rparr>, [])"
      "set ys = {k. (vr_step b, k) \<in> (dep_rel False ?es ?n)\<^sup>*}" .
  have "vr_step b \<in> set xs \<longleftrightarrow> vr_step a \<in> set ys"
    unfolding xs(2) ys(2) c by (simp add: rtrancl_converse)
  with xs ys up show ?thesis
    by (auto simp: asmtest_slice_forward_def asmtest_slice_backward_def asmtest_slice_contains_def)
qed

theorem slice_duality_witness:
  "\<exists>g sf sb. asmtest_defuse_build [] (Some demo_trace) = (Some g, []) \<and>
    asmtest_slice_forward [] (Some g) (demo_rec 19 True) = Some (sf, []) \<and>
    asmtest_slice_backward [] (Some g) ((demo_rec 1 False)\<lparr>vr_step := 1\<rparr>) = Some (sb, []) \<and>
    asmtest_slice_contains sf 1 = asmtest_slice_contains sb 0"
proof -
  let ?g = "\<lparr>dg_edges = defuse_spec (buf_of (vt_recs demo_trace)) (vt_steps_len demo_trace), dg_nsteps = vt_steps_len demo_trace\<rparr>"
  have b: "asmtest_defuse_build [] (Some demo_trace) = (Some ?g, [])"
    using defuse_build_spec [of demo_trace] by simp
  from slice_duality [OF b, of "demo_rec 19 True" "(demo_rec 1 False)\<lparr>vr_step := 1\<rparr>"] b show ?thesis by auto
qed

end
