(* ===== verification/Gcmove.thy ===== *)
theory Gcmove
  imports Valtrace
begin

text \<open>
  GC-move canonicalization, \<^verbatim>\<open>src/src/dataflow_gcmove.c\<close>: an address recorded at a step is forwarded
  through every compaction that takes effect later, one batch of move ranges at a time, to the
  object's final resting place. The move array is a list, \<open>[]\<close> for \<^verbatim>\<open>NULL\<close> or no entries, which
  take the same return. \<^verbatim>\<open>qsort\<close> by step is a parameter with the contract \<open>is_qsort mv_step\<close>:
  moves of one batch may come out in any order.
\<close>

section \<open>Operations\<close>

record asmtest_gcmove =
  mv_old_base :: u64
  mv_new_base :: u64
  mv_len :: u64
  mv_step :: nat

definition in_span :: "u64 \<Rightarrow> u64 \<Rightarrow> u64 \<Rightarrow> bool" where
  "in_span base len x \<longleftrightarrow> x \<ge> base \<and> x - base < len"

fun fwd_batch :: "asmtest_gcmove list \<Rightarrow> u64 \<Rightarrow> u64" where
  "fwd_batch [] cur = cur"
| "fwd_batch (m # ms) cur =
     (if in_span (mv_old_base m) (mv_len m) cur then mv_new_base m + (cur - mv_old_base m)
      else fwd_batch ms cur)"

text \<open>The outer loop takes the maximal run of moves with one step as a batch.\<close>

function canon_loop :: "nat \<Rightarrow> asmtest_gcmove list \<Rightarrow> u64 \<Rightarrow> u64" where
  "canon_loop step [] cur = cur"
| "canon_loop step (m # ms) cur =
     (let b = m # takeWhile (\<lambda>x. mv_step x = mv_step m) ms;
          rest = dropWhile (\<lambda>x. mv_step x = mv_step m) ms
      in canon_loop step rest (if mv_step m > step then fwd_batch b cur else cur))"
  by pat_completeness auto
termination
  by (relation "measure (\<lambda>(step, ms, cur). length ms)") (simp_all add: length_dropWhile_le le_imp_less_Suc)

definition asmtest_gcmove_canon :: "asmtest_gcmove list \<Rightarrow> nat \<Rightarrow> u64 \<Rightarrow> u64" where
  "asmtest_gcmove_canon moves step phys = (if moves = [] then phys else canon_loop step moves phys)"

definition gcmove_cmp_step :: "asmtest_gcmove \<Rightarrow> asmtest_gcmove \<Rightarrow> int" where
  "gcmove_cmp_step a b = (if mv_step a > mv_step b then 1 else 0) - (if mv_step a < mv_step b then 1 else 0)"

fun moves_ordered :: "asmtest_gcmove list \<Rightarrow> bool" where
  "moves_ordered (a # b # ms) \<longleftrightarrow> \<not> mv_step b < mv_step a \<and> moves_ordered (b # ms)"
| "moves_ordered ms \<longleftrightarrow> True"

text \<open>The in-place rewrite of the records, with the count of those that changed.\<close>

definition rewrite_rec :: "(at_val_rec \<Rightarrow> u64) \<Rightarrow> nat \<times> at_val_rec list \<Rightarrow> at_val_rec \<Rightarrow> nat \<times> at_val_rec list" where
  "rewrite_rec f s r =
     (case s of (changed, done) \<Rightarrow>
        if vr_kind r \<noteq> AT_LOC_MEM_ABS then (changed, done @ [r])
        else if f r \<noteq> vr_addr r then (changed + 1, done @ [r\<lparr>vr_addr := f r\<rparr>])
        else (changed, done @ [r]))"

definition rewrite_recs :: "(at_val_rec \<Rightarrow> u64) \<Rightarrow> asmtest_valtrace \<Rightarrow> nat \<times> asmtest_valtrace" where
  "rewrite_recs f v =
     (case vt_recs v of None \<Rightarrow> (0, v)
      | Some rs \<Rightarrow> (case foldl (rewrite_rec f) (0, []) rs of (n, rs') \<Rightarrow> (n, v\<lparr>vt_recs := Some rs'\<rparr>)))"

text \<open>\<open>None\<close> for the count is \<^verbatim>\<open>(size_t)-1\<close>.\<close>

definition asmtest_gcmove_canonicalize ::
  "(asmtest_gcmove list \<Rightarrow> asmtest_gcmove list) \<Rightarrow> heap \<Rightarrow> asmtest_valtrace option \<Rightarrow> asmtest_gcmove list
     \<Rightarrow> nat option \<times> asmtest_valtrace option \<times> heap" where
  "asmtest_gcmove_canonicalize qs h vo moves =
     (case vo of None \<Rightarrow> (None, None, h)
      | Some v \<Rightarrow>
        if moves = [] then (Some 0, vo, h)
        else case (if moves_ordered moves then (moves, h)
                   else case alloc h of (ok, h') \<Rightarrow> (if ok then qs moves else moves, h')) of
          (sorted_moves, h') \<Rightarrow>
            (case rewrite_recs (\<lambda>r. asmtest_gcmove_canon sorted_moves (vr_step r) (vr_addr r)) v of
               (n, v') \<Rightarrow> (Some n, Some v', h')))"

section \<open>Batches\<close>

abbreviation at_step :: "nat \<Rightarrow> asmtest_gcmove list \<Rightarrow> asmtest_gcmove list" where
  "at_step s ms \<equiv> filter (\<lambda>m. mv_step m = s) ms"

text \<open>On a sorted array the loop applies, in step order, the whole batch of each later step.\<close>

definition canon_steps :: "asmtest_gcmove list \<Rightarrow> nat list \<Rightarrow> u64 \<Rightarrow> u64" where
  "canon_steps ms ss cur = foldl (\<lambda>c s. fwd_batch (at_step s ms) c) cur ss"

lemma fwd_batch_none: "(\<And>m. m \<in> set b \<Longrightarrow> \<not> in_span (mv_old_base m) (mv_len m) cur) \<Longrightarrow> fwd_batch b cur = cur"
  by (induction b) auto

lemma canon_steps_empty: "(\<And>s. s \<in> set ss \<Longrightarrow> at_step s ms = []) \<Longrightarrow> canon_steps ms ss cur = cur"
  by (induction ss arbitrary: cur) (simp_all add: canon_steps_def)

lemma batch_split:
  assumes "sorted (map mv_step (m # ms))"
  shows "m # takeWhile (\<lambda>x. mv_step x = mv_step m) ms = at_step (mv_step m) (m # ms)"
    and "dropWhile (\<lambda>x. mv_step x = mv_step m) ms = filter (\<lambda>x. mv_step m < mv_step x) (m # ms)"
  using assms
proof (induction ms)
  case (Cons x ms)
  {
    case 1
    show ?case
    proof (cases "mv_step x = mv_step m")
      case False
      then have "\<forall>y\<in>set ms. mv_step y \<noteq> mv_step m" using 1 by fastforce
      with False show ?thesis by (simp add: filter_empty_conv)
    qed (use Cons 1 in auto)
  next
    case 2
    show ?case
    proof (cases "mv_step x = mv_step m")
      case False
      then have "\<forall>y\<in>set (x # ms). mv_step m < mv_step y" using 2 by fastforce
      then have "filter (\<lambda>y. mv_step m < mv_step y) (x # ms) = x # ms" by (simp add: filter_id_conv)
      with False show ?thesis by simp
    qed (use Cons 2 in auto)
  }
qed simp_all

lemma at_step_later: "mv_step m < s \<Longrightarrow> at_step s (filter (\<lambda>x. mv_step m < mv_step x) ms) = at_step s ms"
  by (induction ms) auto

lemma canon_steps_cong: "(\<And>s. s \<in> set ss \<Longrightarrow> at_step s ms = at_step s ms') \<Longrightarrow> canon_steps ms ss = canon_steps ms' ss"
  unfolding canon_steps_def by (rule ext, rule foldl_cong) simp_all

text \<open>The boundaries of a move set, ascending, each once.\<close>

definition steps_of :: "asmtest_gcmove list \<Rightarrow> nat list" where
  "steps_of ms = sorted_list_of_set (mv_step ` set ms)"

lemma set_steps_of [simp]: "set (steps_of ms) = mv_step ` set ms"
  by (simp add: steps_of_def)

lemma slos_Cons:
  "finite R \<Longrightarrow> (\<forall>s\<in>R. (a::nat) < s) \<Longrightarrow> sorted_list_of_set (insert a R) = a # sorted_list_of_set R"
  by (subst sorted_list_of_set_insert) (auto intro!: insort_is_Cons simp: less_imp_le)

lemma steps_of_Cons:
  assumes "sorted (map mv_step (m # ms))"
  shows "steps_of (m # ms) = mv_step m # steps_of (dropWhile (\<lambda>x. mv_step x = mv_step m) ms)"
proof -
  let ?R = "mv_step ` set (dropWhile (\<lambda>x. mv_step x = mv_step m) ms)"
  have r: "?R = {s \<in> mv_step ` set (m # ms). mv_step m < s}"
    unfolding batch_split(2) [OF assms] by auto
  have "mv_step ` set (m # ms) = insert (mv_step m) ?R"
    using assms unfolding r by (auto simp: order_le_less)
  moreover have "\<forall>s\<in>?R. mv_step m < s" "finite ?R" unfolding r by auto
  ultimately show ?thesis
    unfolding steps_of_def
    by (metis slos_Cons)
qed

definition later :: "nat \<Rightarrow> asmtest_gcmove list \<Rightarrow> nat list" where
  "later step ms = filter (\<lambda>s. step < s) (steps_of ms)"

lemma canon_loop_steps:
  "sorted (map mv_step ms) \<Longrightarrow> canon_loop step ms cur = canon_steps ms (later step ms) cur"
proof (induction step ms cur rule: canon_loop.induct)
  case (1 step cur)
  then show ?case by (simp add: canon_steps_def later_def steps_of_def)
next
  case (2 step m ms cur)
  let ?b = "m # takeWhile (\<lambda>x. mv_step x = mv_step m) ms"
  let ?rest = "dropWhile (\<lambda>x. mv_step x = mv_step m) ms"
  let ?c = "if mv_step m > step then fwd_batch ?b cur else cur"
  note sp = batch_split [OF "2.prems"]
  have srt: "sorted (map mv_step ?rest)"
    using "2.prems" unfolding sp(2) by (rule sorted_filter)
  have later: "later step (m # ms) = (if step < mv_step m then [mv_step m] else []) @ later step ?rest"
    by (simp add: later_def steps_of_Cons [OF "2.prems"])
  have "at_step s ?rest = at_step s (m # ms)" if "s \<in> set (later step ?rest)" for s
    using that unfolding sp(2) later_def by (intro at_step_later) auto
  then have cg: "canon_steps ?rest (later step ?rest) = canon_steps (m # ms) (later step ?rest)"
    by (rule canon_steps_cong)
  have "canon_loop step (m # ms) cur = canon_loop step ?rest ?c" by (simp add: Let_def)
  also have "\<dots> = canon_steps (m # ms) (later step ?rest) ?c"
    using "2.IH" [OF refl refl srt] cg by simp
  also have "\<dots> = canon_steps (m # ms) (later step (m # ms)) cur"
    unfolding later sp(1) by (simp add: canon_steps_def)
  finally show ?case .
qed

section \<open>What a batch does\<close>

text \<open>The old spans of one batch are disjoint: what the event stream promises.\<close>

definition old_disjoint :: "asmtest_gcmove list \<Rightarrow> bool" where
  "old_disjoint ms \<longleftrightarrow> (\<forall>m\<in>set ms. \<forall>m'\<in>set ms. \<forall>x. mv_step m = mv_step m' \<longrightarrow>
     in_span (mv_old_base m) (mv_len m) x \<longrightarrow> in_span (mv_old_base m') (mv_len m') x \<longrightarrow> m = m')"

lemma fwd_batch_hit:
  assumes "old_disjoint b" "\<And>m. m \<in> set b \<Longrightarrow> mv_step m = s" "m \<in> set b" "in_span (mv_old_base m) (mv_len m) x"
  shows "fwd_batch b x = mv_new_base m + (x - mv_old_base m)"
  using assms
proof (induction b)
  case (Cons c b)
  show ?case
  proof (cases "in_span (mv_old_base c) (mv_len c) x")
    case True
    then have "c = m" using Cons.prems by (auto simp: old_disjoint_def)
    with True show ?thesis by simp
  next
    case False
    with Cons.prems have "m \<in> set b" "old_disjoint b" by (auto simp: old_disjoint_def)
    with Cons False show ?thesis by simp
  qed
qed simp

lemma old_disjoint_at_step: "old_disjoint ms \<Longrightarrow> old_disjoint (at_step s ms)"
  by (auto simp: old_disjoint_def)

text \<open>The order of the ranges within a batch does not matter.\<close>

lemma fwd_batch_set:
  assumes "old_disjoint ms" "set ms = set ms'"
  shows "fwd_batch (at_step s ms) x = fwd_batch (at_step s ms') x"
proof (cases "\<exists>m\<in>set ms. mv_step m = s \<and> in_span (mv_old_base m) (mv_len m) x")
  case True
  then obtain m where m: "m \<in> set ms" "mv_step m = s" "in_span (mv_old_base m) (mv_len m) x" by blast
  have "old_disjoint ms'" using assms(1) unfolding old_disjoint_def assms(2) .
  note d = old_disjoint_at_step [OF assms(1), of s] old_disjoint_at_step [OF this, of s]
  have "m \<in> set (at_step s ms)" "m \<in> set (at_step s ms')" using m(1,2) assms(2) by simp_all
  with fwd_batch_hit [OF d(1) _ _ m(3), of s] fwd_batch_hit [OF d(2) _ _ m(3), of s] show ?thesis by simp
next
  case False
  then have "fwd_batch (at_step s ms) x = x" "fwd_batch (at_step s ms') x = x"
    using assms(2) by (auto intro!: fwd_batch_none)
  then show ?thesis by simp
qed

lemma canon_steps_set:
  assumes "old_disjoint ms" "set ms = set ms'"
  shows "canon_steps ms ss x = canon_steps ms' ss x"
proof -
  have "(\<lambda>c s. fwd_batch (at_step s ms) c) = (\<lambda>c s. fwd_batch (at_step s ms') c)"
    by (intro ext) (rule fwd_batch_set [OF assms])
  then show ?thesis by (simp only: canon_steps_def)
qed

text \<open>Where the byte at \<open>x\<close> at step \<open>step\<close> ends up: every later boundary's batch, in time order.\<close>

definition final_addr :: "asmtest_gcmove list \<Rightarrow> nat \<Rightarrow> u64 \<Rightarrow> u64" where
  "final_addr ms step x = canon_steps ms (later step ms) x"

lemma canon_final: "sorted (map mv_step ms) \<Longrightarrow> asmtest_gcmove_canon ms step x = final_addr ms step x"
  by (auto simp: asmtest_gcmove_canon_def final_addr_def canon_loop_steps)
    (simp add: canon_steps_def later_def steps_of_def)

lemma final_addr_set:
  assumes "old_disjoint ms" "set ms = set ms'"
  shows "final_addr ms step x = final_addr ms' step x"
  unfolding final_addr_def later_def steps_of_def assms(2) by (rule canon_steps_set [OF assms])

text \<open>Following an object: forwarding to the end is following it to a later step and forwarding from there.\<close>

lemma later_split:
  assumes "s \<le> s'"
  shows "later s ms = later s (filter (\<lambda>m. mv_step m \<le> s') ms) @ later s' ms"
proof -
  have a: "mv_step ` set (filter (\<lambda>m. mv_step m \<le> s') ms) = {t \<in> mv_step ` set ms. t \<le> s'}" by auto
  have "sorted_wrt (<) (later s (filter (\<lambda>m. mv_step m \<le> s') ms) @ later s' ms)"
    unfolding later_def steps_of_def a
    by (auto simp: sorted_wrt_append sorted_wrt_filter sorted_list_of_set.strict_sorted_key_list_of_set)
  moreover have "sorted_wrt (<) (later s ms)"
    unfolding later_def steps_of_def
    by (simp add: sorted_wrt_filter sorted_list_of_set.strict_sorted_key_list_of_set)
  moreover have "set (later s ms) = set (later s (filter (\<lambda>m. mv_step m \<le> s') ms) @ later s' ms)"
    using assms by (auto simp: later_def)
  ultimately show ?thesis by (intro strict_sorted_equal) simp_all
qed

lemma final_addr_follow:
  assumes "s \<le> s'"
  shows "final_addr ms s x = final_addr ms s' (final_addr (filter (\<lambda>m. mv_step m \<le> s') ms) s x)"
proof -
  let ?ms = "filter (\<lambda>m. mv_step m \<le> s') ms"
  have f: "filter (\<lambda>m. mv_step m = t) ?ms = at_step t ms" if "t \<in> set (later s ?ms)" for t
    using that by (auto simp: later_def intro: filter_cong)
  have "canon_steps ?ms (later s ?ms) = canon_steps ms (later s ?ms)"
    by (rule canon_steps_cong) (rule f)
  then show ?thesis
    unfolding final_addr_def later_split [OF assms, of ms] by (simp add: canon_steps_def)
qed

section \<open>The pass\<close>

lemma moves_ordered_sorted: "moves_ordered ms \<longleftrightarrow> sorted (map mv_step ms)"
  by (induction ms rule: moves_ordered.induct) (auto simp: not_less intro: order_trans)

definition recanon :: "(at_val_rec \<Rightarrow> u64) \<Rightarrow> at_val_rec \<Rightarrow> at_val_rec" where
  "recanon f r = (if vr_kind r = AT_LOC_MEM_ABS then r\<lparr>vr_addr := f r\<rparr> else r)"

lemma rewrite_fold:
  "foldl (rewrite_rec f) (n, done) rs = (n + length (filter (\<lambda>r. recanon f r \<noteq> r) rs), done @ map (recanon f) rs)"
proof (induction rs arbitrary: n "done")
  case (Cons r rs)
  have "r\<lparr>vr_addr := vr_addr r\<rparr> = r" by simp
  moreover have "r\<lparr>vr_addr := a\<rparr> = r \<longleftrightarrow> a = vr_addr r" for a by (cases r) auto
  ultimately show ?case using Cons by (auto simp: rewrite_rec_def recanon_def)
qed simp

lemma rewrite_recs_map:
  "rewrite_recs f v = (length (filter (\<lambda>r. recanon f r \<noteq> r) (buf_of (vt_recs v))),
      v\<lparr>vt_recs := map_option (map (recanon f)) (vt_recs v)\<rparr>)"
  by (cases "vt_recs v") (auto simp: rewrite_recs_def rewrite_fold)

lemma final_addr_Nil [simp]: "final_addr [] step x = x"
  by (simp add: final_addr_def canon_steps_def later_def steps_of_def)

lemma recanon_same: "f r = vr_addr r \<Longrightarrow> recanon f r = r"
  by (simp add: recanon_def)

lemma canonicalize_final:
  assumes "is_qsort mv_step qs" "old_disjoint moves"
  defines "F \<equiv> \<lambda>r. final_addr moves (vr_step r) (vr_addr r)"
  shows "asmtest_gcmove_canonicalize qs [] (Some v) moves =
    (Some (length (filter (\<lambda>r. recanon F r \<noteq> r) (buf_of (vt_recs v)))),
     Some (v\<lparr>vt_recs := map_option (map (recanon F)) (vt_recs v)\<rparr>), [])"
proof (cases "moves = []")
  case True
  then have r: "recanon F = id" by (auto simp: F_def recanon_same)
  show ?thesis using True by (simp add: asmtest_gcmove_canonicalize_def r option.map_id)
next
  case False
  let ?ms = "if moves_ordered moves then moves else qs moves"
  have s: "sorted (map mv_step ?ms)" "set ?ms = set moves"
    using is_qsortD(2,4) [OF assms(1), of moves] by (simp_all add: moves_ordered_sorted)
  have "asmtest_gcmove_canon ?ms step x = final_addr moves step x" for step x
    unfolding canon_final [OF s(1)] using final_addr_set [OF assms(2) s(2) [symmetric]] by simp
  then have "(\<lambda>r. asmtest_gcmove_canon ?ms (vr_step r) (vr_addr r)) = F" by (simp add: F_def fun_eq_iff)
  with False show ?thesis
    by (cases "moves_ordered moves") (simp_all add: asmtest_gcmove_canonicalize_def rewrite_recs_map)
qed

section \<open>Properties\<close>

text \<open>
  The ground truth: where the byte that is at \<open>x\<close> at step \<open>s\<close> is at a later step. A compaction at a step moves the byte with the range that holds it, at the same offset, or leaves it.
\<close>

inductive resides :: "asmtest_gcmove list \<Rightarrow> u64 \<Rightarrow> nat \<Rightarrow> u64 \<Rightarrow> nat \<Rightarrow> bool" for moves x s where
  start: "resides moves x s x s"
| stay: "resides moves x s y t \<Longrightarrow>
     (\<And>m. m \<in> set moves \<Longrightarrow> mv_step m = Suc t \<Longrightarrow> \<not> (unat (mv_old_base m) \<le> unat y \<and> unat y < unat (mv_old_base m) + unat (mv_len m))) \<Longrightarrow>
     resides moves x s y (Suc t)"
| move: "resides moves x s y t \<Longrightarrow> m \<in> set moves \<Longrightarrow> mv_step m = Suc t \<Longrightarrow> unat y = unat (mv_old_base m) + unat d \<Longrightarrow> d < mv_len m \<Longrightarrow>
     resides moves x s (mv_new_base m + d) (Suc t)"

lemma in_span_unat: "in_span base len x \<longleftrightarrow> unat base \<le> unat x \<and> unat x < unat base + unat len"
proof (cases "base \<le> x")
  case True
  then show ?thesis by (auto simp: in_span_def word_le_nat_alt word_less_nat_alt unat_sub)
qed (simp add: in_span_def word_le_nat_alt)

lemma final_addr_step: "final_addr ms s y = final_addr ms (Suc s) (fwd_batch (at_step (Suc s) ms) y)"
proof -
  let ?h = "if at_step (Suc s) ms = [] then [] else [Suc s]"
  have "set (later s ms) = set (?h @ later (Suc s) ms)"
    by (auto simp: later_def filter_empty_conv image_iff less_Suc_eq_le) (metis Suc_leI le_neq_implies_less)
  moreover have "sorted_wrt (<) (later s ms)" "sorted_wrt (<) (?h @ later (Suc s) ms)"
    unfolding later_def steps_of_def
    by (auto simp: sorted_wrt_append sorted_wrt_filter sorted_list_of_set.strict_sorted_key_list_of_set)
  ultimately have "later s ms = ?h @ later (Suc s) ms" by (intro strict_sorted_equal) simp_all
  then show ?thesis by (simp add: final_addr_def canon_steps_def)
qed

lemma resides_final:
  assumes "old_disjoint ms" "resides ms x s y t"
  shows "final_addr ms s x = final_addr ms t y"
  using assms(2)
proof (induction rule: resides.induct)
  case (stay y t)
  then have "fwd_batch (at_step (Suc t) ms) y = y" by (intro fwd_batch_none) (auto simp: in_span_unat)
  then show ?case using stay.IH final_addr_step [of ms t y] by simp
next
  case (move y t m d)
  have "(of_nat (unat y) :: u64) = of_nat (unat (mv_old_base m) + unat d)" by (simp only: move.hyps(4))
  then have o: "y - mv_old_base m = d" by simp
  have "in_span (mv_old_base m) (mv_len m) y" using move.hyps(4,5) by (simp add: in_span_unat word_less_nat_alt)
  then have "fwd_batch (at_step (Suc t) ms) y = mv_new_base m + (y - mv_old_base m)"
    using move.hyps by (intro fwd_batch_hit [OF old_disjoint_at_step [OF assms(1)], of _ "Suc t"]) auto
  then show ?case using move.IH final_addr_step [of ms t y] o by simp
qed simp

lemma final_addr_last: "(\<And>m. m \<in> set ms \<Longrightarrow> mv_step m \<le> s) \<Longrightarrow> final_addr ms s x = x"
  by (auto simp: final_addr_def canon_steps_def later_def filter_empty_conv not_less intro!: foldl_Nil [THEN trans, rotated])

text \<open>
  C11: Canonicalization follows the object. Let the moves be in step order and the old ranges of one compaction be disjoint. If the byte at \<open>x\<close> at step \<open>s\<close> is at \<open>y\<close> at
  step \<open>t\<close>, each compaction between them having carried it at its offset in the range that held it, then the access to \<open>x\<close> at \<open>s\<close> and the access to \<open>y\<close> at \<open>t\<close> get the same key;
  and if no compaction follows \<open>t\<close>, that key is \<open>y\<close>, the byte's last address.
\<close>

theorem gcmove_follows_object:
  assumes "sorted (map mv_step moves)" "old_disjoint moves" "resides moves x s y t"
  shows "asmtest_gcmove_canon moves s x = asmtest_gcmove_canon moves t y \<and>
    ((\<forall>m\<in>set moves. mv_step m \<le> t) \<longrightarrow> asmtest_gcmove_canon moves s x = y)"
  using resides_final [OF assms(2,3)] final_addr_last [of moves t y] by (simp add: canon_final assms(1))

abbreviation demo_moves :: "asmtest_gcmove list" where
  "demo_moves \<equiv> [\<lparr>mv_old_base = 100, mv_new_base = 60, mv_len = 8, mv_step = 5\<rparr>,
                  \<lparr>mv_old_base = 60, mv_new_base = 20, mv_len = 8, mv_step = 9\<rparr>]"

theorem gcmove_follows_object_witness:
  "resides demo_moves 103 4 23 9 \<and> asmtest_gcmove_canon demo_moves 4 103 = 23"
proof -
  have d: "old_disjoint demo_moves" by (auto simp: old_disjoint_def)
  have st: "resides demo_moves 103 4 63 (Suc t)" if "resides demo_moves 103 4 63 t" "t \<noteq> 4" "t \<noteq> 8" for t
    using that by (intro resides.stay [OF that(1)]) auto
  have "resides demo_moves 103 4 (mv_new_base (hd demo_moves) + 3) (Suc 4)"
    by (rule resides.move [OF resides.start]) simp_all
  then have "resides demo_moves 103 4 63 5" by simp
  then have "resides demo_moves 103 4 63 8" using st [of 5] st [of 6] st [of 7] by simp
  then have "resides demo_moves 103 4 (mv_new_base (last demo_moves) + 3) (Suc 8)"
    by (rule resides.move) simp_all
  then have r: "resides demo_moves 103 4 23 9" by (simp add: eval_nat_numeral)
  have "sorted (map mv_step demo_moves)" "\<forall>m\<in>set demo_moves. mv_step m \<le> 9" by simp_all
  then show ?thesis using gcmove_follows_object [OF _ d r] r by blast
qed

text \<open>
  The pass rewrites exactly the absolute memory records, each to the final resting place of its
  address, and returns how many changed. The result does not depend on the order of the move array
  nor on how \<^verbatim>\<open>qsort\<close> arranges moves of one compaction, as long as the old ranges of one
  compaction are disjoint.
\<close>

theorem gcmove_canonicalize_exact:
  assumes "is_qsort mv_step qs" and "old_disjoint moves"
  shows "\<exists>v' n. asmtest_gcmove_canonicalize qs [] (Some v) moves = (Some n, Some v', []) \<and>
    v' = v\<lparr>vt_recs := vt_recs v'\<rparr> \<and>
    vt_recs v' = map_option (map (\<lambda>r. if vr_kind r = AT_LOC_MEM_ABS
       then r\<lparr>vr_addr := final_addr moves (vr_step r) (vr_addr r)\<rparr> else r)) (vt_recs v) \<and>
    n = length (filter (\<lambda>r. vr_kind r = AT_LOC_MEM_ABS \<and> final_addr moves (vr_step r) (vr_addr r) \<noteq> vr_addr r)
       (buf_of (vt_recs v)))"
proof -
  have "r\<lparr>vr_addr := a\<rparr> = r \<longleftrightarrow> a = vr_addr r" for r :: at_val_rec and a by (cases r) auto
  then have c: "recanon f r \<noteq> r \<longleftrightarrow> vr_kind r = AT_LOC_MEM_ABS \<and> f r \<noteq> vr_addr r" for f r
    by (auto simp: recanon_def)
  have e: "recanon f = (\<lambda>r. if vr_kind r = AT_LOC_MEM_ABS then r\<lparr>vr_addr := f r\<rparr> else r)" for f
    by (simp add: fun_eq_iff recanon_def)
  show ?thesis
    using canonicalize_final [OF assms, of v] unfolding c unfolding e
    by (intro exI conjI) (assumption | simp)+
qed

theorem gcmove_canonicalize_exact_witness:
  "\<exists>v' n. asmtest_gcmove_canonicalize (sort_key mv_step) [] (Some zero_valtrace) (rev demo_moves) = (Some n, Some v', [])"
proof -
  have "old_disjoint (rev demo_moves)" by (auto simp: old_disjoint_def)
  from gcmove_canonicalize_exact [OF is_qsort_sort_key this, of zero_valtrace] show ?thesis by blast
qed

end
