(* ===== verification/Objid.thy ===== *)
theory Objid
  imports Gcmove "HOL-Library.Product_Lexorder"
begin

text \<open>
  Object identity, \<^verbatim>\<open>src/src/dataflow_objid.c\<close>: the inverse walk through the compactions
  (\<open>asmtest_objid_locate\<close>), the removal of overlapping new spans it needs, the owner of an address at
  a step, and the pass that keys each absolute memory record on its object. \<^verbatim>\<open>qsort\<close> by step and
  new base is a parameter with the contract \<open>is_qsort\<close> for that key.
\<close>

section \<open>Operations\<close>

record asmtest_gcnode =
  nd_addr :: u64
  nd_size :: u64
  nd_type_id :: u64

fun inv_batch :: "asmtest_gcmove list \<Rightarrow> u64 \<Rightarrow> u64" where
  "inv_batch [] cur = cur"
| "inv_batch (m # ms) cur =
     (if in_span (mv_new_base m) (mv_len m) cur then mv_old_base m + (cur - mv_new_base m)
      else inv_batch ms cur)"

lemma dropWhile_last_less:
  assumes "ms \<noteq> []"
  shows "length (dropWhile (\<lambda>x. mv_step x = mv_step (last ms)) (rev ms)) < length ms"
proof -
  obtain ys y where ms: "ms = ys @ [y]" using assms by (cases ms rule: rev_cases) auto
  have "length (dropWhile (\<lambda>x. mv_step x = mv_step y) (rev ys)) \<le> length (rev ys)" by (rule length_dropWhile_le)
  then show ?thesis by (simp add: ms)
qed

text \<open>Batches from the end of the array; within one batch the ranges are tried from its start.\<close>

function locate_loop :: "nat \<Rightarrow> asmtest_gcmove list \<Rightarrow> u64 \<Rightarrow> u64" where
  "locate_loop step ms cur =
     (if ms = [] then cur
      else let bstep = mv_step (last ms);
               b = rev (takeWhile (\<lambda>x. mv_step x = bstep) (rev ms));
               rest = rev (dropWhile (\<lambda>x. mv_step x = bstep) (rev ms))
           in locate_loop step rest (if bstep > step then inv_batch b cur else cur))"
  by auto

termination
  by (relation "measure (\<lambda>(step, ms, cur). length ms)") (simp_all add: dropWhile_last_less)

declare locate_loop.simps [simp del]

definition asmtest_objid_locate :: "asmtest_gcmove list \<Rightarrow> nat \<Rightarrow> u64 \<Rightarrow> u64" where
  "asmtest_objid_locate moves step snap_addr = (if moves = [] then snap_addr else locate_loop step moves snap_addr)"

definition objid_key :: "asmtest_gcmove \<Rightarrow> nat \<times> u64" where
  "objid_key m = (mv_step m, mv_new_base m)"

definition objid_cmp_step_new :: "asmtest_gcmove \<Rightarrow> asmtest_gcmove \<Rightarrow> int" where
  "objid_cmp_step_new x y =
     (if mv_step x \<noteq> mv_step y then (if mv_step x > mv_step y then 1 else 0) - (if mv_step x < mv_step y then 1 else 0)
      else (if mv_new_base x > mv_new_base y then 1 else 0) - (if mv_new_base x < mv_new_base y then 1 else 0))"

type_synonym msort = "asmtest_gcmove list \<Rightarrow> asmtest_gcmove list"

text \<open>\<open>None\<close> is \<^verbatim>\<open>NULL\<close>.\<close>

definition objid_sorted_copy :: "msort \<Rightarrow> heap \<Rightarrow> asmtest_gcmove list \<Rightarrow> asmtest_gcmove list option \<times> heap" where
  "objid_sorted_copy qs h moves =
     (if moves = [] then (None, h)
      else case alloc h of (ok, h') \<Rightarrow> (if ok then Some (qs moves) else None, h'))"

text \<open>One batch of the in-place filter: \<open>have\<close> and \<open>maxend\<close> are its running maximum of the ends.\<close>

fun dj_batch :: "bool \<Rightarrow> u64 \<Rightarrow> asmtest_gcmove list \<Rightarrow> asmtest_gcmove list" where
  "dj_batch hv maxend [] = []"
| "dj_batch hv maxend (m # ms) =
     (let en = mv_new_base m + mv_len m;
          bad = (hv \<and> mv_new_base m < maxend) \<or> (case ms of [] \<Rightarrow> False | n # _ \<Rightarrow> mv_new_base n < en);
          rest = (if \<not> hv \<or> en > maxend then dj_batch True en ms else dj_batch hv maxend ms)
      in if bad then rest else m # rest)"

function objid_disjointify_new :: "asmtest_gcmove list \<Rightarrow> asmtest_gcmove list" where
  "objid_disjointify_new [] = []"
| "objid_disjointify_new (m # ms) =
     (let b = m # takeWhile (\<lambda>x. mv_step x = mv_step m) ms;
          rest = dropWhile (\<lambda>x. mv_step x = mv_step m) ms
      in dj_batch False 0 b @ objid_disjointify_new rest)"
  by pat_completeness auto
termination
  by (relation "measure length") (simp_all add: length_dropWhile_le le_imp_less_Suc)

fun owner_from :: "nat \<Rightarrow> asmtest_gcnode list \<Rightarrow> asmtest_gcmove list \<Rightarrow> nat \<Rightarrow> u64 \<Rightarrow> (nat \<times> u64) option" where
  "owner_from i [] dj step raw_addr = None"
| "owner_from i (nd # nodes) dj step raw_addr =
     (if nd_size nd = 0 then owner_from (i + 1) nodes dj step raw_addr
      else let base = asmtest_objid_locate dj step (nd_addr nd) in
        if in_span base (nd_size nd) raw_addr then Some (i, raw_addr - base)
        else owner_from (i + 1) nodes dj step raw_addr)"

definition objid_owner_prepared ::
  "asmtest_gcnode list \<Rightarrow> asmtest_gcmove list \<Rightarrow> nat \<Rightarrow> u64 \<Rightarrow> (nat \<times> u64) option" where
  "objid_owner_prepared nodes dj step raw_addr = owner_from 0 nodes dj step raw_addr"

text \<open>\<open>None\<close> is the result -1; a hit carries the two out-parameters.\<close>

definition asmtest_objid_owner ::
  "msort \<Rightarrow> heap \<Rightarrow> asmtest_gcnode list \<Rightarrow> asmtest_gcmove list \<Rightarrow> nat \<Rightarrow> u64 \<Rightarrow> (nat \<times> u64) option \<times> heap" where
  "asmtest_objid_owner qs h nodes moves step raw_addr =
     (if nodes = [] then (None, h)
      else if moves = [] then (objid_owner_prepared nodes [] step raw_addr, h)
      else case objid_sorted_copy qs h moves of
             (None, h') \<Rightarrow> (None, h')
           | (Some dj, h') \<Rightarrow> (objid_owner_prepared nodes (objid_disjointify_new dj) step raw_addr, h'))"

definition ASMTEST_OBJID_NOOBJ :: u64 where
  "ASMTEST_OBJID_NOOBJ = push_bit 63 1"

text \<open>The collision test against the live nodes.\<close>

definition in_live_node :: "asmtest_gcnode list \<Rightarrow> u64 \<Rightarrow> bool" where
  "in_live_node nodes c \<longleftrightarrow> (\<exists>nd\<in>set nodes. nd_size nd \<noteq> 0 \<and> in_span (nd_addr nd) (nd_size nd) c)"

definition objid_addr ::
  "asmtest_gcnode list \<Rightarrow> asmtest_gcmove list \<Rightarrow> asmtest_gcmove list \<Rightarrow> at_val_rec \<Rightarrow> u64" where
  "objid_addr nodes full dj r =
     (case objid_owner_prepared nodes dj (vr_step r) (vr_addr r) of
        Some (owner, offset) \<Rightarrow> nd_addr (nodes ! owner) + offset
      | None \<Rightarrow> (let c = asmtest_gcmove_canon full (vr_step r) (vr_addr r) in
                 if in_live_node nodes c then c OR ASMTEST_OBJID_NOOBJ else c))"

definition asmtest_objid_canonicalize ::
  "msort \<Rightarrow> msort \<Rightarrow> heap \<Rightarrow> asmtest_valtrace option \<Rightarrow> asmtest_gcnode list \<Rightarrow> asmtest_gcmove list
     \<Rightarrow> nat option \<times> asmtest_valtrace option \<times> heap" where
  "asmtest_objid_canonicalize qs_step qs h vo nodes moves =
     (case vo of None \<Rightarrow> (None, None, h)
      | Some v \<Rightarrow>
        if nodes = [] then asmtest_gcmove_canonicalize qs_step h vo moves
        else if moves = [] then
          (case rewrite_recs (objid_addr nodes [] []) v of (n, v') \<Rightarrow> (Some n, Some v', h))
        else case objid_sorted_copy qs h moves of (full, h1) \<Rightarrow>
          case objid_sorted_copy qs h1 moves of (dj, h2) \<Rightarrow>
            (case (full, dj) of
               (Some full, Some dj) \<Rightarrow>
                 (case rewrite_recs (objid_addr nodes full (objid_disjointify_new dj)) v of
                    (n, v') \<Rightarrow> (Some n, Some v', h2))
             | _ \<Rightarrow> asmtest_gcmove_canonicalize qs_step h2 vo moves))"

section \<open>The inverse walk\<close>

lemma batch_split_last:
  assumes "sorted (map mv_step ms)" "ms \<noteq> []"
  defines "s \<equiv> mv_step (last ms)"
  shows "rev (takeWhile (\<lambda>x. mv_step x = s) (rev ms)) = at_step s ms"
    and "rev (dropWhile (\<lambda>x. mv_step x = s) (rev ms)) = filter (\<lambda>x. mv_step x < s) ms"
proof -
  have le: "\<forall>x\<in>set ms. mv_step x \<le> s"
    using assms(1,2) unfolding s_def by (induction ms) (auto split: if_splits)
  have "rev (takeWhile (\<lambda>x. mv_step x = s) (rev ms)) = at_step s ms \<and>
      rev (dropWhile (\<lambda>x. mv_step x = s) (rev ms)) = filter (\<lambda>x. mv_step x < s) ms"
    using assms(1) le
  proof (induction ms rule: rev_induct)
    case (snoc x ms)
    show ?case
    proof (cases "mv_step x = s")
      case True
      with snoc show ?thesis by (simp add: sorted_append)
    next
      case False
      with snoc.prems have lt: "\<forall>y\<in>set (ms @ [x]). mv_step y < s" by (fastforce simp: sorted_append)
      then have "at_step s (ms @ [x]) = []" "filter (\<lambda>x. mv_step x < s) (ms @ [x]) = ms @ [x]"
        by (auto simp: filter_empty_conv filter_id_conv)
      with False show ?thesis by simp
    qed
  qed simp
  then show "rev (takeWhile (\<lambda>x. mv_step x = s) (rev ms)) = at_step s ms"
    "rev (dropWhile (\<lambda>x. mv_step x = s) (rev ms)) = filter (\<lambda>x. mv_step x < s) ms" by blast+
qed

lemma steps_of_last:
  assumes "sorted (map mv_step ms)" "ms \<noteq> []"
  shows "steps_of ms = steps_of (filter (\<lambda>x. mv_step x < mv_step (last ms)) ms) @ [mv_step (last ms)]"
proof -
  let ?s = "mv_step (last ms)"
  have le: "\<forall>x\<in>set ms. mv_step x \<le> ?s" using assms by (induction ms) (auto split: if_splits)
  have "mv_step ` set ms = insert ?s (mv_step ` set (filter (\<lambda>x. mv_step x < ?s) ms))"
    using le assms(2) by (force simp: order_le_less)
  then have "set (steps_of ms) = set (steps_of (filter (\<lambda>x. mv_step x < ?s) ms) @ [?s])" by simp
  moreover have "sorted_wrt (<) (steps_of (filter (\<lambda>x. mv_step x < ?s) ms) @ [?s])"
    by (auto simp: steps_of_def sorted_wrt_append)
  moreover have "sorted_wrt (<) (steps_of ms)" by (simp add: steps_of_def)
  ultimately show ?thesis by (intro strict_sorted_equal) simp_all
qed

definition inv_steps :: "asmtest_gcmove list \<Rightarrow> nat list \<Rightarrow> u64 \<Rightarrow> u64" where
  "inv_steps ms ss cur = foldr (\<lambda>s c. inv_batch (at_step s ms) c) ss cur"

lemma inv_steps_cong:
  "(\<And>s. s \<in> set ss \<Longrightarrow> at_step s ms = at_step s ms') \<Longrightarrow> inv_steps ms ss cur = inv_steps ms' ss cur"
  unfolding inv_steps_def by (induction ss) simp_all

lemma locate_loop_steps:
  "sorted (map mv_step ms) \<Longrightarrow> locate_loop step ms cur = inv_steps ms (later step ms) cur"
proof (induction step ms cur rule: locate_loop.induct)
  case (1 step ms cur)
  show ?case
  proof (cases "ms = []")
    case True
    then show ?thesis by (simp add: locate_loop.simps inv_steps_def later_def steps_of_def)
  next
    case False
    let ?s = "mv_step (last ms)"
    let ?rest = "filter (\<lambda>x. mv_step x < ?s) ms"
    let ?c = "if step < ?s then inv_batch (at_step ?s ms) cur else cur"
    note sp = batch_split_last [OF "1.prems" False]
    have srt: "sorted (map mv_step ?rest)" using "1.prems" by (rule sorted_filter)
    have at: "at_step t ?rest = at_step t ms" if "t \<in> set (later step ?rest)" for t
      using that by (auto simp: later_def intro!: filter_cong)
    have "locate_loop step ms cur = locate_loop step ?rest ?c"
      using False by (subst locate_loop.simps) (simp add: Let_def sp)
    also have "\<dots> = inv_steps ?rest (later step ?rest) ?c"
      using "1.IH" [OF False refl refl refl] srt unfolding sp by simp
    also have "\<dots> = inv_steps ms (later step ?rest) ?c" using at by (rule inv_steps_cong)
    also have "\<dots> = inv_steps ms (later step ms) cur"
      by (simp add: later_def [of step ms] steps_of_last [OF "1.prems" False] inv_steps_def later_def)
    finally show ?thesis .
  qed
qed

lemma locate_steps: "sorted (map mv_step ms) \<Longrightarrow> asmtest_objid_locate ms step x = inv_steps ms (later step ms) x"
  by (auto simp: asmtest_objid_locate_def locate_loop_steps)
    (simp add: inv_steps_def later_def steps_of_def)

section \<open>Forwarding and locating are inverse\<close>

definition new_disjoint :: "asmtest_gcmove list \<Rightarrow> bool" where
  "new_disjoint ms \<longleftrightarrow> (\<forall>m\<in>set ms. \<forall>m'\<in>set ms. \<forall>x. mv_step m = mv_step m' \<longrightarrow>
     in_span (mv_new_base m) (mv_len m) x \<longrightarrow> in_span (mv_new_base m') (mv_len m') x \<longrightarrow> m = m')"

definition no_wrap :: "asmtest_gcmove list \<Rightarrow> bool" where
  "no_wrap ms \<longleftrightarrow> (\<forall>m\<in>set ms. unat (mv_old_base m) + unat (mv_len m) \<le> 2 ^ 64 \<and>
     unat (mv_new_base m) + unat (mv_len m) \<le> 2 ^ 64)"

lemma in_span_offset:
  assumes "unat base + unat len \<le> 2 ^ 64" "d < len"
  shows "in_span base len (base + d)"
proof -
  have "unat base + unat d < 2 ^ 64" using assms by (simp add: word_less_nat_alt)
  then have "unat (base + d) = unat base + unat d" by (simp add: unat_word_ariths)
  then show ?thesis using assms(2) by (simp add: in_span_def word_le_nat_alt)
qed

lemma inv_batch_none: "(\<And>m. m \<in> set b \<Longrightarrow> \<not> in_span (mv_new_base m) (mv_len m) y) \<Longrightarrow> inv_batch b y = y"
  by (induction b) auto

lemma inv_batch_hit:
  assumes "new_disjoint b" "\<And>m. m \<in> set b \<Longrightarrow> mv_step m = s" "m \<in> set b" "in_span (mv_new_base m) (mv_len m) y"
  shows "inv_batch b y = mv_old_base m + (y - mv_new_base m)"
  using assms
proof (induction b)
  case (Cons c b)
  show ?case
  proof (cases "in_span (mv_new_base c) (mv_len c) y")
    case True
    then have "c = m" using Cons.prems by (auto simp: new_disjoint_def)
    with True show ?thesis by simp
  next
    case False
    with Cons.prems have "m \<in> set b" "new_disjoint b" by (auto simp: new_disjoint_def)
    with Cons False show ?thesis by simp
  qed
qed simp

lemma new_disjoint_at_step: "new_disjoint ms \<Longrightarrow> new_disjoint (at_step s ms)"
  by (auto simp: new_disjoint_def)

text \<open>
  A byte survives a batch when the batch relocates it, or relocates nothing onto it.
\<close>

definition kept :: "asmtest_gcmove list \<Rightarrow> u64 \<Rightarrow> bool" where
  "kept b x \<longleftrightarrow> (\<exists>m\<in>set b. in_span (mv_old_base m) (mv_len m) x) \<or>
               (\<forall>m\<in>set b. \<not> in_span (mv_new_base m) (mv_len m) x)"

fun survives :: "asmtest_gcmove list \<Rightarrow> nat list \<Rightarrow> u64 \<Rightarrow> bool" where
  "survives ms [] x \<longleftrightarrow> True"
| "survives ms (s # ss) x \<longleftrightarrow> kept (at_step s ms) x \<and> survives ms ss (fwd_batch (at_step s ms) x)"

lemma inv_fwd_batch:
  assumes "old_disjoint ms" "new_disjoint ms" "no_wrap ms" "kept (at_step s ms) x"
  shows "inv_batch (at_step s ms) (fwd_batch (at_step s ms) x) = x"
proof (cases "\<exists>m\<in>set (at_step s ms). in_span (mv_old_base m) (mv_len m) x")
  case True
  then obtain m where m: "m \<in> set (at_step s ms)" "in_span (mv_old_base m) (mv_len m) x" by blast
  let ?y = "mv_new_base m + (x - mv_old_base m)"
  have f: "fwd_batch (at_step s ms) x = ?y"
    by (rule fwd_batch_hit [OF old_disjoint_at_step [OF assms(1)] _ m]) simp
  have "in_span (mv_new_base m) (mv_len m) ?y"
    using m assms(3) by (intro in_span_offset) (auto simp: no_wrap_def in_span_def)
  from inv_batch_hit [OF new_disjoint_at_step [OF assms(2)] _ m(1) this, of s] show ?thesis unfolding f by simp
next
  case False
  then have "fwd_batch (at_step s ms) x = x" by (intro fwd_batch_none) blast
  moreover have "inv_batch (at_step s ms) x = x" using False assms(4) by (intro inv_batch_none) (auto simp: kept_def)
  ultimately show ?thesis by simp
qed

lemma inv_canon_steps:
  assumes "old_disjoint ms" "new_disjoint ms" "no_wrap ms"
  shows "survives ms ss x \<Longrightarrow> inv_steps ms ss (canon_steps ms ss x) = x"
proof (induction ss arbitrary: x)
  case (Cons s ss)
  then have "inv_steps ms ss (canon_steps ms ss (fwd_batch (at_step s ms) x)) = fwd_batch (at_step s ms) x"
    by simp
  then show ?case
    using inv_fwd_batch [OF assms, of s x] Cons.prems by (simp add: inv_steps_def canon_steps_def)
qed (simp add: inv_steps_def canon_steps_def)

text \<open>An object moves as a unit: going back, each batch holds all of it or touches none of it.\<close>

fun moves_whole :: "asmtest_gcmove list \<Rightarrow> nat list \<Rightarrow> u64 \<Rightarrow> u64 \<Rightarrow> bool" where
  "moves_whole ms [] y n \<longleftrightarrow> True"
| "moves_whole ms (s # rs) y n \<longleftrightarrow>
     ((\<exists>m\<in>set (at_step s ms). in_span (mv_new_base m) (mv_len m) y \<and>
          unat (y - mv_new_base m) + unat n \<le> unat (mv_len m)) \<or>
      (\<forall>m\<in>set (at_step s ms). \<forall>d. d < n \<longrightarrow>
          \<not> in_span (mv_new_base m) (mv_len m) (y + d) \<and> \<not> in_span (mv_old_base m) (mv_len m) (y + d))) \<and>
     moves_whole ms rs (inv_batch (at_step s ms) y) n"

lemma fwd_inv_batch:
  assumes "old_disjoint ms" "new_disjoint ms" "no_wrap ms" "moves_whole ms (s # rs) y n" "d < n"
  shows "fwd_batch (at_step s ms) (inv_batch (at_step s ms) y + d) = y + d"
proof (cases "\<exists>m\<in>set (at_step s ms). in_span (mv_new_base m) (mv_len m) y \<and>
          unat (y - mv_new_base m) + unat n \<le> unat (mv_len m)")
  case True
  then obtain m where m: "m \<in> set (at_step s ms)" "in_span (mv_new_base m) (mv_len m) y"
    "unat (y - mv_new_base m) + unat n \<le> unat (mv_len m)" by blast
  let ?e = "(y - mv_new_base m) + d"
  have i: "inv_batch (at_step s ms) y = mv_old_base m + (y - mv_new_base m)"
    by (rule inv_batch_hit [OF new_disjoint_at_step [OF assms(2)] _ m(1,2), of s]) simp
  have lt: "unat (y - mv_new_base m) + unat d < unat (mv_len m)" using m(3) assms(5) by (simp add: word_less_nat_alt)
  also have "\<dots> < 2 ^ 64" using unsigned_less [of "mv_len m"] by simp
  finally have "unat ?e = unat (y - mv_new_base m) + unat d" by (simp add: unat_word_ariths)
  then have "?e < mv_len m" using lt by (simp add: word_less_nat_alt)
  then have "in_span (mv_old_base m) (mv_len m) (mv_old_base m + ?e)"
    using m(1) assms(3) by (intro in_span_offset) (auto simp: no_wrap_def)
  from fwd_batch_hit [OF old_disjoint_at_step [OF assms(1)] _ m(1) this, of s]
  show ?thesis unfolding i by (simp add: add.assoc)
next
  case False
  with assms(4) have t: "\<forall>m\<in>set (at_step s ms). \<forall>d. d < n \<longrightarrow>
      \<not> in_span (mv_new_base m) (mv_len m) (y + d) \<and> \<not> in_span (mv_old_base m) (mv_len m) (y + d)" by auto
  have "0 < n" using assms(5) by (metis word_gt_0 word_not_simps(1))
  with t have "inv_batch (at_step s ms) y = y" by (intro inv_batch_none) (metis add.right_neutral)
  moreover have "fwd_batch (at_step s ms) (y + d) = y + d" using t assms(5) by (intro fwd_batch_none) blast
  ultimately show ?thesis by simp
qed

lemma canon_inv_steps:
  assumes "old_disjoint ms" "new_disjoint ms" "no_wrap ms" "d < n"
  shows "moves_whole ms (rev ss) y n \<Longrightarrow> canon_steps ms ss (inv_steps ms ss y + d) = y + d"
proof (induction ss arbitrary: y rule: rev_induct)
  case (snoc s ss)
  have "canon_steps ms ss (inv_steps ms ss (inv_batch (at_step s ms) y) + d) = inv_batch (at_step s ms) y + d"
    using snoc by simp
  then show ?case
    using fwd_inv_batch [OF assms(1-3) _ assms(4), of s "rev ss" y] snoc.prems
    by (simp add: canon_steps_def inv_steps_def)
qed (simp add: canon_steps_def inv_steps_def)

section \<open>Dropping overlapping new spans\<close>

abbreviation new_end :: "asmtest_gcmove \<Rightarrow> u64" where
  "new_end m \<equiv> mv_new_base m + mv_len m"

text \<open>A range that is not empty and whose end is representable.\<close>

definition proper :: "asmtest_gcmove \<Rightarrow> bool" where
  "proper m \<longleftrightarrow> 0 < mv_len m \<and> unat (mv_new_base m) + unat (mv_len m) < 2 ^ 64"

lemma proper_less: "proper m \<Longrightarrow> mv_new_base m < new_end m"
  by (simp add: proper_def word_less_nat_alt unat_word_ariths)

definition apart :: "asmtest_gcmove \<Rightarrow> asmtest_gcmove \<Rightarrow> bool" where
  "apart m n \<longleftrightarrow> new_end n \<le> mv_new_base m \<or> new_end m \<le> mv_new_base n"

lemma apart_later: "proper n \<Longrightarrow> mv_new_base m \<le> mv_new_base n \<Longrightarrow> apart m n \<longleftrightarrow> new_end m \<le> mv_new_base n"
  using proper_less [of n] by (auto simp: apart_def)

lemma apart_sym: "apart m n \<longleftrightarrow> apart n m"
  by (auto simp: apart_def)

definition run_max :: "bool \<Rightarrow> u64 \<Rightarrow> asmtest_gcmove list \<Rightarrow> bool" where
  "run_max hv mx pre \<longleftrightarrow> (hv \<longleftrightarrow> pre \<noteq> []) \<and> (hv \<longrightarrow> mx \<in> new_end ` set pre \<and> (\<forall>p\<in>set pre. new_end p \<le> mx))"

lemma run_max_step:
  assumes "run_max hv mx pre"
  shows "run_max True (if \<not> hv \<or> new_end m > mx then new_end m else mx) (m # pre)"
proof (cases "\<not> hv \<or> new_end m > mx")
  case True
  have "new_end p \<le> new_end m" if "p \<in> set pre" for p
  proof -
    from that have hv using assms by (auto simp: run_max_def)
    with True have "mx < new_end m" by simp
    moreover have "new_end p \<le> mx" using \<open>hv\<close> that assms by (simp add: run_max_def)
    ultimately show ?thesis by simp
  qed
  with True show ?thesis by (simp add: run_max_def)
next
  case False
  with assms show ?thesis by (auto simp: run_max_def)
qed

lemma run_max_bad: "run_max hv mx pre \<Longrightarrow> (hv \<and> x < mx) \<longleftrightarrow> (\<exists>p\<in>set pre. x < new_end p)"
  by (auto simp: run_max_def intro: less_le_trans)

lemma next_bad:
  assumes "sorted (map mv_new_base ms)"
  shows "(case ms of [] \<Rightarrow> False | n # _ \<Rightarrow> mv_new_base n < e) \<longleftrightarrow> (\<exists>n\<in>set ms. mv_new_base n < e)"
  using assms by (cases ms) (auto intro: le_less_trans)

lemma dj_batch_set:
  assumes "sorted (map mv_new_base ms)" "distinct ms" "\<And>m. m \<in> set ms \<Longrightarrow> proper m" "run_max hv mx pre"
  shows "set (dj_batch hv mx ms) =
    {m \<in> set ms. (\<forall>p\<in>set pre. new_end p \<le> mv_new_base m) \<and> (\<forall>n\<in>set ms. n \<noteq> m \<longrightarrow> apart m n)}"
  using assms
proof (induction ms arbitrary: hv mx pre)
  case (Cons m ms)
  let ?mx = "if \<not> hv \<or> new_end m > mx then new_end m else mx"
  let ?rest = "dj_batch True ?mx ms"
  have later: "apart m n \<longleftrightarrow> new_end m \<le> mv_new_base n" if "n \<in> set ms" for n
    using that Cons.prems by (intro apart_later) auto
  have "set ?rest = {x \<in> set ms. (\<forall>p\<in>set (m # pre). new_end p \<le> mv_new_base x) \<and> (\<forall>n\<in>set ms. n \<noteq> x \<longrightarrow> apart x n)}"
    using Cons.prems by (intro Cons.IH run_max_step) auto
  also have "\<dots> = {x \<in> set ms. (\<forall>p\<in>set pre. new_end p \<le> mv_new_base x) \<and> (\<forall>n\<in>set (m # ms). n \<noteq> x \<longrightarrow> apart x n)}"
    using later Cons.prems(2) apart_sym by (auto 0 3)
  finally have rest: "set ?rest = \<dots>" .
  define bad where "bad \<longleftrightarrow> (hv \<and> mv_new_base m < mx) \<or> (case ms of [] \<Rightarrow> False | n # _ \<Rightarrow> mv_new_base n < new_end m)"
  have s: "sorted (map mv_new_base ms)" using Cons.prems(1) by simp
  have bad: "\<not> bad \<longleftrightarrow> (\<forall>p\<in>set pre. new_end p \<le> mv_new_base m) \<and> (\<forall>n\<in>set ms. apart m n)"
    unfolding bad_def run_max_bad [OF Cons.prems(4)] next_bad [OF s] using later by (auto simp: not_less)
  have "dj_batch hv mx (m # ms) = (if bad then ?rest else m # ?rest)"
    by (auto simp: Let_def bad_def)
  then have "set (dj_batch hv mx (m # ms)) = (if bad then {} else {m}) \<union> set ?rest" by simp
  also have "\<dots> = {x \<in> set (m # ms). (\<forall>p\<in>set pre. new_end p \<le> mv_new_base x) \<and> (\<forall>n\<in>set (m # ms). n \<noteq> x \<longrightarrow> apart x n)}"
    unfolding rest using bad Cons.prems(2) by (auto split: if_splits)
  finally show ?case .
qed simp

lemma disjointify_set:
  "sorted (map mv_step ms) \<Longrightarrow> set (objid_disjointify_new ms) = (\<Union>s. set (dj_batch False 0 (at_step s ms)))"
proof (induction ms rule: objid_disjointify_new.induct)
  case (2 m ms)
  let ?rest = "dropWhile (\<lambda>x. mv_step x = mv_step m) ms"
  note sp = batch_split [OF "2.prems"]
  have srt: "sorted (map mv_step ?rest)" using "2.prems" unfolding sp(2) by (rule sorted_filter)
  have r: "at_step s ?rest = (if mv_step m < s then at_step s (m # ms) else [])" for s
    unfolding sp(2) using at_step_later [of m s "m # ms"] by (auto simp: filter_empty_conv)
  have e: "at_step s (m # ms) = []" if "s < mv_step m" for s
    using that "2.prems" by (fastforce simp: filter_empty_conv)
  have "set (objid_disjointify_new (m # ms)) =
      set (dj_batch False 0 (at_step (mv_step m) (m # ms))) \<union> (\<Union>s. set (dj_batch False 0 (at_step s ?rest)))"
    using "2.IH" [OF refl refl srt] by (simp add: Let_def sp(1) del: filter.simps)
  also have "\<dots> = (\<Union>s. set (dj_batch False 0 (at_step s (m # ms))))" (is "?A \<union> ?B = (\<Union>s. ?f s)")
  proof
    show "?A \<union> ?B \<subseteq> (\<Union>s. ?f s)" unfolding r by (auto split: if_splits)
    have "?f s \<subseteq> ?A \<union> ?B" for s
      using e [of s] by (cases s "mv_step m" rule: linorder_cases) (auto simp: r simp del: filter.simps)
    then show "(\<Union>s. ?f s) \<subseteq> ?A \<union> ?B" by blast
  qed
  finally show ?case .
qed simp

lemma sorted_objid_key:
  "sorted (map objid_key ms) \<Longrightarrow> sorted (map mv_step ms) \<and> sorted (map mv_new_base (at_step s ms))"
  by (induction ms) (fastforce simp: objid_key_def less_eq_prod_def)+

lemma disjointify_exact:
  assumes "sorted (map objid_key ms)" "distinct ms" "\<And>m. m \<in> set ms \<Longrightarrow> proper m"
  shows "set (objid_disjointify_new ms) = {m \<in> set ms. \<forall>n\<in>set ms. mv_step n = mv_step m \<longrightarrow> n \<noteq> m \<longrightarrow> apart m n}"
proof -
  note s = sorted_objid_key [OF assms(1)]
  have "set (dj_batch False 0 (at_step s ms)) = {m \<in> set (at_step s ms). \<forall>n\<in>set (at_step s ms). n \<noteq> m \<longrightarrow> apart m n}" for s
    using dj_batch_set [of "at_step s ms" False 0 "[]"] s assms by (simp add: run_max_def)
  then show ?thesis unfolding disjointify_set [OF s [THEN conjunct1]] by auto
qed

section \<open>Owners\<close>

lemma owner_from_Some:
  "owner_from k nodes dj step x = Some (i, off) \<Longrightarrow>
   k \<le> i \<and> i < k + length nodes \<and> nd_size (nodes ! (i - k)) \<noteq> 0 \<and>
   (let nd = nodes ! (i - k); base = asmtest_objid_locate dj step (nd_addr nd)
    in in_span base (nd_size nd) x \<and> off = x - base)"
proof (induction nodes arbitrary: k)
  case (Cons nd nodes)
  have rec: ?case if "owner_from (Suc k) nodes dj step x = Some (i, off)"
  proof -
    note ih = Cons.IH [OF that]
    then have "i - k = Suc (i - Suc k)" by auto
    with ih show ?thesis by (simp add: Let_def)
  qed
  with Cons.prems show ?case by (auto simp: Let_def split: if_splits)
qed simp

lemmas owner_Some = owner_from_Some [of 0, simplified, folded objid_owner_prepared_def]

lemma noobj_high: "2 ^ 63 \<le> unat (c OR ASMTEST_OBJID_NOOBJ)"
proof -
  have "ASMTEST_OBJID_NOOBJ AND (c OR ASMTEST_OBJID_NOOBJ) = ASMTEST_OBJID_NOOBJ"
    by (auto simp: bit_eq_iff bit_simps)
  then have "ASMTEST_OBJID_NOOBJ \<le> c OR ASMTEST_OBJID_NOOBJ" by (metis word_and_le1)
  moreover have "unat ASMTEST_OBJID_NOOBJ = 2 ^ 63" by (simp add: ASMTEST_OBJID_NOOBJ_def)
  ultimately show ?thesis by (simp add: word_le_nat_alt)
qed

lemma in_span_less: "in_span base len x \<Longrightarrow> unat x < unat base + unat len"
  using unat_sub [of base x] by (auto simp: in_span_def word_less_nat_alt)

section \<open>Properties\<close>

text \<open>
  C12: Locating inverts forwarding. For moves in step order whose ranges do not wrap and are disjoint
  in the old and in the new space within each compaction, a byte that survives every later compaction
  (each relocates it, or relocates nothing onto it) is located back exactly where it was from its
  canonical address. Distinct surviving bytes therefore have distinct canonical addresses.
\<close>

theorem objid_locate_inverts_canon:
  assumes "sorted (map mv_step moves)" "old_disjoint moves" "new_disjoint moves" "no_wrap moves"
    and "survives moves (later step moves) x"
  shows "asmtest_objid_locate moves step (asmtest_gcmove_canon moves step x) = x"
  using inv_canon_steps [OF assms(2-5)] by (simp add: locate_steps canon_final assms(1) final_addr_def)

theorem objid_locate_inverts_canon_witness:
  "asmtest_objid_locate demo_moves 0 (asmtest_gcmove_canon demo_moves 0 103) = 103"
proof -
  have l: "later 0 demo_moves = [5, 9]" by (simp add: later_def steps_of_def)
  have "survives demo_moves (later 0 demo_moves) 103" unfolding l by (simp add: kept_def in_span_def)
  moreover have "old_disjoint demo_moves" "new_disjoint demo_moves" "no_wrap demo_moves"
    by (auto simp: old_disjoint_def new_disjoint_def no_wrap_def)
  ultimately show ?thesis by (intro objid_locate_inverts_canon) simp_all
qed

text \<open>
  The overlap filter is exact. From a move array sorted by step and new base, without duplicates,
  with non-empty ranges whose ends are representable, \<^verbatim>\<open>objid_disjointify_new\<close> keeps exactly the
  ranges whose new span meets no other new span of the same compaction: both sides of every overlap
  go, and nothing else.
\<close>

theorem objid_disjointify_exact:
  assumes "is_qsort objid_key qs" "distinct moves" "\<forall>m\<in>set moves. proper m"
  shows "set (objid_disjointify_new (qs moves)) =
    {m \<in> set moves. \<forall>n\<in>set moves. mv_step n = mv_step m \<longrightarrow> n \<noteq> m \<longrightarrow>
       mv_new_base n + mv_len n \<le> mv_new_base m \<or> mv_new_base m + mv_len m \<le> mv_new_base n}"
proof -
  note q = is_qsortD [OF assms(1), of moves]
  have "distinct (qs moves)" using q(1) assms(2) by (metis mset_eq_imp_distinct_iff)
  with disjointify_exact [OF q(4)] assms(3) q(2) show ?thesis by (simp add: apart_def)
qed

theorem objid_disjointify_exact_witness:
  "set (objid_disjointify_new (sort_key objid_key demo_moves)) \<subseteq> set demo_moves"
proof -
  have "\<forall>m\<in>set demo_moves. proper m" by (simp add: proper_def)
  from objid_disjointify_exact [OF is_qsort_sort_key _ this] show ?thesis by auto
qed

text \<open>
  Object identity agrees with address identity on owned bytes. When no range was dropped and the
  owning node moves as a unit through every compaction after the step, the key the pass gives an
  owned record, the node's snapshot address plus the offset, is the canonical address of the record.
\<close>

theorem objid_owned_is_canon:
  assumes "sorted (map mv_step moves)" "old_disjoint moves" "new_disjoint moves" "no_wrap moves"
    and "objid_owner_prepared nodes moves (vr_step r) (vr_addr r) = Some (i, off)"
    and "moves_whole moves (rev (later (vr_step r) moves)) (nd_addr (nodes ! i)) (nd_size (nodes ! i))"
  shows "objid_addr nodes moves moves r = asmtest_gcmove_canon moves (vr_step r) (vr_addr r)"
proof -
  let ?nd = "nodes ! i" and ?L = "later (vr_step r) moves"
  let ?base = "asmtest_objid_locate moves (vr_step r) (nd_addr ?nd)"
  have o: "in_span ?base (nd_size ?nd) (vr_addr r)" "off = vr_addr r - ?base"
    using owner_Some [OF assms(5)] by (simp_all add: Let_def)
  then have lt: "off < nd_size ?nd" by (simp add: in_span_def)
  have "vr_addr r = ?base + off" using o(2) by simp
  then have "asmtest_gcmove_canon moves (vr_step r) (vr_addr r) = canon_steps moves ?L (inv_steps moves ?L (nd_addr ?nd) + off)"
    by (simp add: canon_final assms(1) final_addr_def locate_steps)
  also have "\<dots> = nd_addr ?nd + off" using canon_inv_steps [OF assms(2-4) lt assms(6)] .
  finally show ?thesis using assms(5) by (simp add: objid_addr_def)
qed

abbreviation demo_nodes :: "asmtest_gcnode list" where
  "demo_nodes \<equiv> [\<lparr>nd_addr = 20, nd_size = 8, nd_type_id = 0\<rparr>]"

abbreviation demo_mem :: "u64 \<Rightarrow> at_val_rec" where
  "demo_mem a \<equiv> \<lparr>vr_kind = AT_LOC_MEM_ABS, vr_reg = 0, vr_base = 0, vr_index = 0, vr_scale = 0,
     vr_disp = 0, vr_addr = a, vr_size = 8, vr_is_write = False, vr_value_valid = False, vr_wide = False,
     vr_wide_off = 0, vr_value = 0, vr_step = 0\<rparr>"

theorem objid_owned_is_canon_witness:
  "objid_addr demo_nodes demo_moves demo_moves (demo_mem 103) = asmtest_gcmove_canon demo_moves 0 103"
proof -
  have s: "sorted (map mv_step demo_moves)" by simp
  have d: "old_disjoint demo_moves" "new_disjoint demo_moves" "no_wrap demo_moves"
    by (auto simp: old_disjoint_def new_disjoint_def no_wrap_def)
  have l: "later 0 demo_moves = [5, 9]" by (simp add: later_def steps_of_def)
  have "asmtest_objid_locate demo_moves 0 20 = 100"
    using locate_steps [OF s, of 0 20] unfolding l by (simp add: inv_steps_def in_span_def)
  then have "objid_owner_prepared demo_nodes demo_moves 0 103 = Some (0, 3)"
    by (simp add: objid_owner_prepared_def in_span_def)
  moreover have "moves_whole demo_moves (rev (later 0 demo_moves)) 20 8"
    unfolding l by (simp add: in_span_def)
  ultimately show ?thesis using objid_owned_is_canon [OF s d, of demo_nodes "demo_mem 103" 0 3] by simp
qed

lemma objid_addr_alias:
  assumes "\<forall>nd\<in>set nodes. unat (nd_addr nd) + unat (nd_size nd) \<le> 2 ^ 63"
  shows "in_live_node nodes (objid_addr nodes full dj r) \<longleftrightarrow>
    objid_owner_prepared nodes dj (vr_step r) (vr_addr r) \<noteq> None"
proof (cases "objid_owner_prepared nodes dj (vr_step r) (vr_addr r)")
  case None
  let ?c = "asmtest_gcmove_canon full (vr_step r) (vr_addr r)"
  have "\<not> in_live_node nodes (?c OR ASMTEST_OBJID_NOOBJ)"
  proof
    assume "in_live_node nodes (?c OR ASMTEST_OBJID_NOOBJ)"
    then obtain nd where nd: "nd \<in> set nodes" "in_span (nd_addr nd) (nd_size nd) (?c OR ASMTEST_OBJID_NOOBJ)"
      by (auto simp: in_live_node_def)
    then have "unat (?c OR ASMTEST_OBJID_NOOBJ) < unat (nd_addr nd) + unat (nd_size nd)"
      by (intro in_span_less)
    with noobj_high [of ?c] assms nd(1) show False by fastforce
  qed
  with None show ?thesis by (auto simp: objid_addr_def Let_def)
next
  case (Some p)
  obtain i off where p: "p = (i, off)" by (cases p)
  have o: "i < length nodes" "nd_size (nodes ! i) \<noteq> 0" "off < nd_size (nodes ! i)"
    using owner_Some [of nodes dj "vr_step r" "vr_addr r" i off] Some p by (auto simp: Let_def in_span_def)
  then have "unat (nd_addr (nodes ! i)) + unat (nd_size (nodes ! i)) \<le> 2 ^ 64"
    using assms by (auto dest!: bspec [of _ _ "nodes ! i"])
  from in_span_offset [OF this o(3)] o have "in_live_node nodes (nd_addr (nodes ! i) + off)"
    unfolding in_live_node_def by (intro bexI [of _ "nodes ! i"]) auto
  with Some p show ?thesis by (simp add: objid_addr_def)
qed



end
