(* ===== verification/Method.thy ===== *)
theory Method
  imports Valtrace
begin

text \<open>
  Program counter to method and version, \<^verbatim>\<open>src/src/dataflow_method.c\<close>: the owner of a program counter
  in a method map, and the attribution of every step of a value trace. A method map is a list, \<open>[]\<close>
  for \<^verbatim>\<open>NULL\<close> or no entries. A C \<^verbatim>\<open>int\<close> is an \<open>int\<close>, with the narrowing of an index written out.
\<close>

section \<open>Operations\<close>

record asmtest_method =
  me_addr :: u64
  me_size :: u64
  me_name :: "string option"
  me_version :: u64

record asmtest_method_attr =
  ma_method :: int
  ma_record :: int
  ma_version :: u64

definition method_owns :: "asmtest_method \<Rightarrow> u64 \<Rightarrow> bool" where
  "method_owns m pc =
     (if me_size m = 0 then pc = me_addr m
      else let en = me_addr m + me_size m in
        if en < me_addr m then pc \<ge> me_addr m else pc \<ge> me_addr m \<and> pc < en)"

text \<open>One round of the scan; the state is \<^verbatim>\<open>best\<close> and \<^verbatim>\<open>best_ver\<close>.\<close>

definition resolve_step :: "u64 \<Rightarrow> int \<times> u64 \<Rightarrow> nat \<times> asmtest_method \<Rightarrow> int \<times> u64" where
  "resolve_step pc s im =
     (case s of (best, best_ver) \<Rightarrow> case im of (i, m) \<Rightarrow>
        if \<not> method_owns m pc then s
        else if best < 0 \<or> me_version m \<ge> best_ver then (to_int32 i, me_version m) else s)"

definition asmtest_method_resolve_pc :: "asmtest_method list \<Rightarrow> u64 \<Rightarrow> int" where
  "asmtest_method_resolve_pc methods pc = fst (foldl (resolve_step pc) (-1, 0) (enumerate 0 methods))"

definition names_equal :: "string option \<Rightarrow> string option \<Rightarrow> bool" where
  "names_equal a b = (case (a, b) of (Some x, Some y) \<Rightarrow> x = y | _ \<Rightarrow> False)"

text \<open>The inner loop marks every later unmarked record of the same name.\<close>

definition mark_same :: "asmtest_method list \<Rightarrow> nat \<Rightarrow> int \<Rightarrow> int list \<Rightarrow> int list" where
  "mark_same methods i this_id ids =
     foldl (\<lambda>ids j. if ids ! j < 0 \<and> names_equal (me_name (methods ! i)) (me_name (methods ! j))
                    then ids[j := this_id] else ids) ids [i + 1..<length methods]"

definition assign_id :: "asmtest_method list \<Rightarrow> int list \<times> int \<Rightarrow> nat \<Rightarrow> int list \<times> int" where
  "assign_id methods s i =
     (case s of (ids, next_id) \<Rightarrow>
        if ids ! i \<ge> 0 then s
        else (mark_same methods i next_id (ids[i := next_id]), next_id + 1))"

definition method_ids :: "asmtest_method list \<Rightarrow> int list" where
  "method_ids methods =
     fst (foldl (assign_id methods) (replicate (length methods) (-1), 0) [0..<length methods])"

definition attribute_pc :: "asmtest_method list \<Rightarrow> int list option \<Rightarrow> u64 \<Rightarrow> asmtest_method_attr" where
  "attribute_pc methods ids pc =
     (let rec = asmtest_method_resolve_pc methods pc in
      if rec \<ge> 0 then \<lparr>ma_method = (case ids of None \<Rightarrow> -1 | Some ids \<Rightarrow> ids ! nat rec),
                       ma_record = rec, ma_version = me_version (methods ! nat rec)\<rparr>
      else \<lparr>ma_method = -1, ma_record = rec, ma_version = 0\<rparr>)"

text \<open>The entries written to \<^verbatim>\<open>out\<close>; \<open>out_cap = None\<close> is a \<^verbatim>\<open>NULL\<close> buffer.\<close>

definition asmtest_method_attribute ::
  "heap \<Rightarrow> asmtest_method list \<Rightarrow> asmtest_valtrace option \<Rightarrow> nat option
     \<Rightarrow> int \<times> asmtest_method_attr list \<times> heap" where
  "asmtest_method_attribute h methods vo out_cap =
     (case (vo, out_cap) of
        (Some v, Some cap) \<Rightarrow>
          (case (if methods = [] then (None, h)
                 else case alloc h of (ok, h') \<Rightarrow> (if ok then Some (method_ids methods) else None, h')) of
             (ids, h') \<Rightarrow>
               (let nsteps = min (vt_steps_len v) cap in
                (to_int32 nsteps, map (attribute_pc methods ids) (take nsteps (buf_of (vt_insn_off v))), h')))
      | _ \<Rightarrow> (-1, [], h))"

section \<open>The owner of a program counter\<close>

text \<open>The greatest version among the owners, the last record among equals.\<close>

definition best_at :: "asmtest_method list \<Rightarrow> u64 \<Rightarrow> nat \<Rightarrow> bool" where
  "best_at ms pc i \<longleftrightarrow> i < length ms \<and> method_owns (ms ! i) pc \<and>
     (\<forall>j<length ms. method_owns (ms ! j) pc \<longrightarrow>
        me_version (ms ! j) < me_version (ms ! i) \<or> (me_version (ms ! j) = me_version (ms ! i) \<and> j \<le> i))"

lemma best_at_new:
  assumes "method_owns m pc" "\<And>j. j < length ms \<Longrightarrow> method_owns (ms ! j) pc \<Longrightarrow> me_version (ms ! j) \<le> me_version m"
  shows "best_at (ms @ [m]) pc (length ms)"
  using assms by (auto simp: best_at_def nth_append less_Suc_eq order_le_less)

lemma best_at_old:
  assumes "best_at ms pc i" "method_owns m pc \<longrightarrow> me_version m < me_version (ms ! i)"
  shows "best_at (ms @ [m]) pc i"
  using assms by (auto simp: best_at_def nth_append less_Suc_eq)

lemma best_at_le: "best_at ms pc i \<Longrightarrow> j < length ms \<Longrightarrow> method_owns (ms ! j) pc \<Longrightarrow> me_version (ms ! j) \<le> me_version (ms ! i)"
  by (auto simp: best_at_def)

lemma resolve_fold:
  assumes "length ms < 2 ^ 31"
  shows "(foldl (resolve_step pc) (-1, 0) (enumerate 0 ms) = (-1, 0) \<and> (\<forall>m\<in>set ms. \<not> method_owns m pc)) \<or>
    (\<exists>i. best_at ms pc i \<and> foldl (resolve_step pc) (-1, 0) (enumerate 0 ms) = (int i, me_version (ms ! i)))"
  using assms
proof (induction ms rule: rev_induct)
  case (snoc m ms)
  let ?r = "foldl (resolve_step pc) (-1, 0) (enumerate 0 ms)"
  have e: "foldl (resolve_step pc) (-1, 0) (enumerate 0 (ms @ [m])) = resolve_step pc ?r (length ms, m)"
    by (simp add: enumerate_append_eq)
  have l: "to_int32 (length ms) = int (length ms)" using snoc.prems by (intro to_int32_small) simp
  have "length ms < 2 ^ 31" using snoc.prems by simp
  from snoc.IH [OF this] show ?case
  proof (elim disjE conjE exE)
    assume r: "?r = (-1, 0)" and none: "\<forall>m\<in>set ms. \<not> method_owns m pc"
    show ?case
    proof (cases "method_owns m pc")
      case True
      then have "best_at (ms @ [m]) pc (length ms)" using none by (intro best_at_new) auto
      then show ?thesis unfolding e r using True l
        by (intro disjI2 exI [of _ "length ms"]) (simp add: resolve_step_def)
    next
      case False
      then show ?thesis unfolding e r using none by (simp add: resolve_step_def)
    qed
  next
    fix i assume b: "best_at ms pc i" and r: "?r = (int i, me_version (ms ! i))"
    have i: "i < length ms" using b by (simp add: best_at_def)
    show ?case
    proof (cases "method_owns m pc \<and> me_version (ms ! i) \<le> me_version m")
      case True
      then have "best_at (ms @ [m]) pc (length ms)"
        using best_at_le [OF b] by (intro best_at_new) (auto intro: order_trans)
      then show ?thesis unfolding e r using True l
        by (intro disjI2 exI [of _ "length ms"]) (simp add: resolve_step_def)
    next
      case False
      then have "best_at (ms @ [m]) pc i" by (intro best_at_old [OF b]) auto
      then show ?thesis unfolding e r using False i
        by (intro disjI2 exI [of _ i]) (auto simp: resolve_step_def nth_append)
    qed
  qed
qed simp

section \<open>Identities\<close>

abbreviation same_method :: "asmtest_method list \<Rightarrow> nat \<Rightarrow> nat \<Rightarrow> bool" where
  "same_method ms i j \<equiv> i = j \<or> names_equal (me_name (ms ! i)) (me_name (ms ! j))"

lemma names_equal_sym: "names_equal a b \<longleftrightarrow> names_equal b a"
  by (auto simp: names_equal_def split: option.splits)

lemma names_equal_trans: "names_equal a b \<Longrightarrow> names_equal b c \<Longrightarrow> names_equal a c"
  by (auto simp: names_equal_def split: option.splits)

lemma same_trans: "same_method ms i j \<Longrightarrow> same_method ms j k \<Longrightarrow> same_method ms i k"
  using names_equal_trans by blast

lemma same_sym: "same_method ms i j \<longleftrightarrow> same_method ms j i"
  using names_equal_sym by blast

lemma mark_same_nth:
  assumes "length ids = length ms" "0 \<le> t"
  shows "length (mark_same ms i t ids) = length ms \<and> (\<forall>j<length ms. mark_same ms i t ids ! j =
     (if i < j \<and> ids ! j < 0 \<and> names_equal (me_name (ms ! i)) (me_name (ms ! j)) then t else ids ! j))"
proof -
  define f where "f = (\<lambda>ids j. if ids ! j < (0::int) \<and> names_equal (me_name (ms ! i)) (me_name (ms ! j))
                    then ids[j := t] else ids)"
  have "n \<le> length ms \<Longrightarrow> length (foldl f ids [i + 1..<n]) = length ms \<and> (\<forall>j<length ms. foldl f ids [i + 1..<n] ! j =
     (if i < j \<and> j < n \<and> ids ! j < 0 \<and> names_equal (me_name (ms ! i)) (me_name (ms ! j)) then t else ids ! j))" for n
  proof (induction n)
    case (Suc n)
    show ?case
    proof (cases "i + 1 \<le> n")
      case True
      with Suc show ?thesis by (auto simp: f_def nth_list_update less_Suc_eq)
    next
      case False
      then have e: "foldl f ids [i + 1..<Suc n] = ids" by simp
      show ?thesis unfolding e using False assms(1) by auto
    qed
  qed (simp add: assms)
  from this [of "length ms"] show ?thesis by (auto simp: mark_same_def f_def)
qed

definition ids_ok :: "asmtest_method list \<Rightarrow> nat \<Rightarrow> int list \<Rightarrow> int \<Rightarrow> bool" where
  "ids_ok ms p ids nx \<longleftrightarrow> length ids = length ms \<and> 0 \<le> nx \<and>
     (\<forall>j<length ms. -1 \<le> ids ! j \<and> ids ! j < nx \<and> (0 \<le> ids ! j \<longleftrightarrow> (\<exists>k<p. same_method ms k j))) \<and>
     (\<forall>j<length ms. \<forall>l<length ms. 0 \<le> ids ! j \<longrightarrow> 0 \<le> ids ! l \<longrightarrow> (ids ! j = ids ! l \<longleftrightarrow> same_method ms j l)) \<and>
     (\<forall>x. 0 \<le> x \<and> x < nx \<longrightarrow> x \<in> set ids)"

lemma ids_ok_skip:
  assumes "ids_ok ms p ids nx" "p < length ms" "0 \<le> ids ! p"
  shows "ids_ok ms (Suc p) ids nx"
proof -
  obtain k where k: "k < p" "same_method ms k p" using assms by (auto simp: ids_ok_def)
  have "(\<exists>i<Suc p. same_method ms i j) \<longleftrightarrow> (\<exists>i<p. same_method ms i j)" for j
    using k same_trans [where ms = ms and i = k and j = p and k = j] by (auto simp: less_Suc_eq)
  with assms(1) show ?thesis by (simp add: ids_ok_def)
qed

lemma ids_ok_new:
  assumes "ids_ok ms p ids nx" "p < length ms" "ids ! p < 0"
  shows "ids_ok ms (Suc p) (mark_same ms p nx (ids[p := nx])) (nx + 1)"
proof -
  let ?r = "mark_same ms p nx (ids[p := nx])"
  have len: "length ids = length ms" and nx: "0 \<le> nx" using assms(1) by (auto simp: ids_ok_def)
  have old: "0 \<le> ids ! j" if "j < p" for j
    using that assms(1,2) by (auto simp: ids_ok_def)
  have mk: "length ?r = length ms" "\<And>j. j < length ms \<Longrightarrow> ?r ! j =
      (if p < j \<and> ids[p := nx] ! j < 0 \<and> names_equal (me_name (ms ! p)) (me_name (ms ! j)) then nx else ids[p := nx] ! j)"
    using mark_same_nth [of "ids[p := nx]" ms nx p] len nx by auto
  have r2: "?r ! j = (if ids ! j < 0 \<and> same_method ms p j then nx else ids ! j)" if "j < length ms" for j
  proof (cases "j = p")
    case True
    with mk(2) [OF that] that assms(2,3) len show ?thesis by simp
  next
    case False
    with mk(2) [OF that] old [of j] show ?thesis by (cases "j < p") auto
  qed
  note r = mk(1) r2
  note inv = assms(1) [unfolded ids_ok_def]
  have pos: "0 \<le> ?r ! j \<longleftrightarrow> (\<exists>k<Suc p. same_method ms k j)" if "j < length ms" for j
    using that r(2) inv nx by (auto simp: less_Suc_eq not_less)
  have up: "0 \<le> ids ! l" if "0 \<le> ids ! j" "same_method ms j l" "j < length ms" "l < length ms" for j l
    using that inv same_trans [where ms = ms and j = j and k = l] by (metis (no_types, lifting))
  have cls: "?r ! j = ?r ! l \<longleftrightarrow> same_method ms j l"
    if jl: "j < length ms" "l < length ms" "0 \<le> ?r ! j" "0 \<le> ?r ! l" for j l
  proof (cases "ids ! j < 0"; cases "ids ! l < 0")
    assume n: "ids ! j < 0" "ids ! l < 0"
    then have "same_method ms p j" "same_method ms p l" using jl r(2) by (auto split: if_splits)
    then show ?thesis
      using n r(2) jl same_sym [of p j ms] same_trans [where ms = ms and i = j and j = p and k = l] by auto
  next
    assume n: "ids ! j < 0" "\<not> ids ! l < 0"
    then have "?r ! j = nx" "?r ! l = ids ! l" using jl r(2) by (auto split: if_splits)
    moreover have "ids ! l < nx" using inv jl by blast
    moreover have "\<not> same_method ms j l" using up [of l j] n jl same_sym [of j l ms] by auto
    ultimately show ?thesis by auto
  next
    assume n: "\<not> ids ! j < 0" "ids ! l < 0"
    then have "?r ! l = nx" "?r ! j = ids ! j" using jl r(2) by (auto split: if_splits)
    moreover have "ids ! j < nx" using inv jl by blast
    moreover have "\<not> same_method ms j l" using up [of j l] n jl by auto
    ultimately show ?thesis by auto
  next
    assume n: "\<not> ids ! j < 0" "\<not> ids ! l < 0"
    then show ?thesis using inv jl r(2) by auto
  qed
  have bd: "-1 \<le> ?r ! j \<and> ?r ! j < nx + 1" if "j < length ms" for j
    using that r(2) inv nx by (auto intro: order_trans less_trans)
  have all: "x \<in> set ?r" if "0 \<le> x" "x < nx + 1" for x
  proof (cases "x = nx")
    case True
    then have "?r ! p = x" using r(2) assms(2,3) by simp
    with assms(2) r(1) show ?thesis by (metis nth_mem)
  next
    case False
    then have "x \<in> set ids" using inv that by simp
    then obtain j where "j < length ms" "ids ! j = x" using len by (metis in_set_conv_nth)
    with r that(1) show ?thesis by (metis not_less nth_mem)
  qed
  show ?thesis unfolding ids_ok_def using r(1) pos cls nx bd all by auto
qed

lemma method_ids_ok: "\<exists>nx. ids_ok ms (length ms) (method_ids ms) nx"
proof -
  have "p \<le> length ms \<Longrightarrow> case foldl (assign_id ms) (replicate (length ms) (-1), 0) [0..<p] of (ids, nx) \<Rightarrow> ids_ok ms p ids nx" for p
  proof (induction p)
    case (Suc p)
    then show ?case
      by (auto simp: assign_id_def ids_ok_skip ids_ok_new not_le split: prod.splits)
  qed (auto simp: ids_ok_def)
  from this [of "length ms"] show ?thesis by (auto simp: method_ids_def split: prod.splits)
qed

section \<open>Properties\<close>

text \<open>
  Method resolution. On a map of fewer than 2^31 records, \<^verbatim>\<open>asmtest_method_resolve_pc\<close> returns -1
  exactly when no record owns the program counter; otherwise the index it returns is an owner, no
  owner has a greater version, and among owners of that version it is the last.
\<close>

theorem method_resolve_newest:
  fixes pc :: u64
  assumes "length methods < 2 ^ 31"
  defines "r \<equiv> asmtest_method_resolve_pc methods pc"
  shows "(r = -1 \<longleftrightarrow> (\<forall>m\<in>set methods. \<not> method_owns m pc)) \<and>
    (r \<noteq> -1 \<longrightarrow> 0 \<le> r \<and> nat r < length methods \<and> method_owns (methods ! nat r) pc \<and>
      (\<forall>j<length methods. method_owns (methods ! j) pc \<longrightarrow>
         me_version (methods ! j) < me_version (methods ! nat r) \<or>
         (me_version (methods ! j) = me_version (methods ! nat r) \<and> j \<le> nat r)))"
  using resolve_fold [OF assms(1), of pc]
proof (elim disjE conjE exE)
  fix i assume b: "best_at methods pc i"
    and "foldl (resolve_step pc) (-1, 0) (enumerate 0 methods) = (int i, me_version (methods ! i))"
  then have "r = int i" by (simp add: r_def asmtest_method_resolve_pc_def)
  with b show ?thesis by (auto simp: best_at_def)
qed (simp add: r_def asmtest_method_resolve_pc_def)

abbreviation demo_methods :: "asmtest_method list" where
  "demo_methods \<equiv> [\<lparr>me_addr = 100, me_size = 50, me_name = Some ''f'', me_version = 0\<rparr>,
                    \<lparr>me_addr = 100, me_size = 50, me_name = Some ''f'', me_version = 1\<rparr>,
                    \<lparr>me_addr = 400, me_size = 0, me_name = None, me_version = 0\<rparr>]"

theorem method_resolve_newest_witness:
  "asmtest_method_resolve_pc demo_methods 120 = 1 \<and> method_owns (demo_methods ! 1) 120"
proof -
  have "asmtest_method_resolve_pc demo_methods 120 = 1"
    by (simp add: asmtest_method_resolve_pc_def resolve_step_def method_owns_def to_int32_def)
  with method_resolve_newest [of demo_methods 120] show ?thesis by simp
qed

text \<open>
  Method identities. The identity table gives every record an identity; two records share it
  exactly when they are the same record or have equal names (a record without a name shares with
  none); and the identities in use are consecutive from 0.
\<close>

theorem method_ids_by_name:
  assumes "i < length methods" and "j < length methods"
  shows "0 \<le> method_ids methods ! i \<and>
    (method_ids methods ! i = method_ids methods ! j \<longleftrightarrow>
       i = j \<or> (me_name (methods ! i) \<noteq> None \<and> me_name (methods ! i) = me_name (methods ! j))) \<and>
    (\<exists>n. set (method_ids methods) = {0..<n})"
proof -
  obtain nx where k: "ids_ok methods (length methods) (method_ids methods) nx" using method_ids_ok by blast
  have len: "length (method_ids methods) = length methods" using k by (simp add: ids_ok_def)
  have nn: "0 \<le> method_ids methods ! l" if "l < length methods" for l using k that unfolding ids_ok_def by blast
  have "set (method_ids methods) = {0..<nx}"
    using k len nn by (auto simp: ids_ok_def in_set_conv_nth)
  moreover have "names_equal (me_name (methods ! i)) (me_name (methods ! j)) \<longleftrightarrow>
      me_name (methods ! i) \<noteq> None \<and> me_name (methods ! i) = me_name (methods ! j)"
    by (auto simp: names_equal_def split: option.splits)
  ultimately show ?thesis using k assms nn unfolding ids_ok_def by auto
qed

theorem method_ids_by_name_witness:
  "method_ids demo_methods ! 0 = method_ids demo_methods ! 1 \<and>
   method_ids demo_methods ! 0 \<noteq> method_ids demo_methods ! 2"
  using method_ids_by_name [of 0 demo_methods 1] method_ids_by_name [of 0 demo_methods 2] by simp

end
