(* ===== verification/Helpers.thy ===== *)
theory Helpers
  imports Defuse Method "HOL-Library.Sublist"
begin

text \<open>
  Runtime-helper summaries, \<^verbatim>\<open>src/src/dataflow_helpers.c\<close>: the pattern table of known helpers, the map
  from a register to the value the caller last wrote, the rewriting of the record stream (the records
  inside a recognized helper run are replaced by the helper's declared reads and writes at its first
  step), and the def-use graph built over the rewritten stream. A table or array is a list, \<open>[]\<close> for
  \<^verbatim>\<open>NULL\<close> or no entries.
\<close>

section \<open>The helper table\<close>

datatype at_helper_loc_kind = AT_HELPER_REG | AT_HELPER_MEM_AT_REG

record asmtest_helper_loc =
  hl_kind :: at_helper_loc_kind
  hl_reg :: nat
  hl_size :: nat

record asmtest_helper =
  hp_name :: "string option"
  hp_ins :: "asmtest_helper_loc list"
  hp_outs :: "asmtest_helper_loc list"

text \<open>\<^verbatim>\<open>strncmp (a, b, n) == 0\<close> of two strings.\<close>

definition strncmp_eq :: "string \<Rightarrow> string \<Rightarrow> nat \<Rightarrow> bool" where
  "strncmp_eq a b n \<longleftrightarrow> take n a = take n b"

fun match_loop :: "nat \<Rightarrow> asmtest_helper list \<Rightarrow> string \<Rightarrow> int" where
  "match_loop i [] name = -1"
| "match_loop i (H # hs) name =
     (case hp_name H of
        None \<Rightarrow> match_loop (i + 1) hs name
      | Some pat \<Rightarrow>
          let plen = length pat in
          if plen > 0 \<and> pat ! (plen - 1) = CHR ''*''
          then if strncmp_eq name pat (plen - 1) then to_int32 i else match_loop (i + 1) hs name
          else if name = pat then to_int32 i else match_loop (i + 1) hs name)"

definition asmtest_helper_match :: "asmtest_helper list \<Rightarrow> string option \<Rightarrow> int" where
  "asmtest_helper_match helpers name = (case name of None \<Rightarrow> -1 | Some n \<Rightarrow> match_loop 0 helpers n)"

abbreviation HLP_X86_RAX :: nat where "HLP_X86_RAX \<equiv> 35"
abbreviation HLP_X86_RDI :: nat where "HLP_X86_RDI \<equiv> 39"
abbreviation HLP_X86_RSI :: nat where "HLP_X86_RSI \<equiv> 43"

definition reg_loc :: "nat \<Rightarrow> asmtest_helper_loc" where
  "reg_loc reg = \<lparr>hl_kind = AT_HELPER_REG, hl_reg = reg, hl_size = 0\<rparr>"

definition mem_loc :: "nat \<Rightarrow> nat \<Rightarrow> asmtest_helper_loc" where
  "mem_loc reg w = \<lparr>hl_kind = AT_HELPER_MEM_AT_REG, hl_reg = reg, hl_size = w\<rparr>"

definition DEFAULT_HELPERS :: "asmtest_helper list" where
  "DEFAULT_HELPERS =
    [\<lparr>hp_name = Some ''CORINFO_HELP_NEW*'', hp_ins = [reg_loc HLP_X86_RDI], hp_outs = [reg_loc HLP_X86_RAX]\<rparr>,
     \<lparr>hp_name = Some ''JIT_New*'', hp_ins = [reg_loc HLP_X86_RDI], hp_outs = [reg_loc HLP_X86_RAX]\<rparr>,
     \<lparr>hp_name = Some ''CORINFO_HELP_ASSIGN_REF*'', hp_ins = [reg_loc HLP_X86_RSI], hp_outs = [mem_loc HLP_X86_RDI 8]\<rparr>,
     \<lparr>hp_name = Some ''JIT_WriteBarrier*'', hp_ins = [reg_loc HLP_X86_RSI], hp_outs = [mem_loc HLP_X86_RDI 8]\<rparr>,
     \<lparr>hp_name = Some ''CORINFO_HELP_RUNTIMEHANDLE*'', hp_ins = [reg_loc HLP_X86_RDI], hp_outs = [reg_loc HLP_X86_RAX]\<rparr>,
     \<lparr>hp_name = Some ''JIT_GenericHandle*'', hp_ins = [reg_loc HLP_X86_RDI], hp_outs = [reg_loc HLP_X86_RAX]\<rparr>]"

section \<open>The register-value map\<close>

record rv_ent =
  rv_reg :: nat
  rv_val :: u64

record rv_map =
  rv_e :: "rv_ent option list"
  rv_cnt :: nat

abbreviation "rv_cap m \<equiv> length (rv_e m)"

definition rv_empty :: rv_map where
  "rv_empty = \<lparr>rv_e = [], rv_cnt = 0\<rparr>"

definition rv_hash :: "nat \<Rightarrow> u64" where
  "rv_hash reg =
     (let h = of_nat reg * 0x9E3779B97F4A7C15;
          h = h XOR drop_bit 29 h;
          h = h * 0xBF58476D1CE4E5B9
      in h XOR drop_bit 32 h)"

text \<open>\<^verbatim>\<open>sizeof(rv_ent)\<close>\<close>

definition rv_sizeof :: nat where
  "rv_sizeof = 16"

definition rv_grow :: "heap \<Rightarrow> rv_map \<Rightarrow> bool \<times> rv_map \<times> heap" where
  "rv_grow h m =
     (case asmtest_grow_pow2 (rv_cap m) (if rv_cap m \<noteq> 0 then rv_cap m else 32) rv_sizeof of
        None \<Rightarrow> (False, m, h)
      | Some ncap \<Rightarrow>
          (case alloc h of (ok, h') \<Rightarrow>
             if \<not> ok then (False, m, h')
             else (True, m\<lparr>rv_e := oa_rehash (\<lambda>e. rv_hash (rv_reg e)) (replicate ncap None) (rv_e m)\<rparr>, h')))"

definition rv_find :: "rv_map \<Rightarrow> nat \<Rightarrow> probe_result" where
  "rv_find m reg = oa_find (rv_e m) (\<lambda>e. rv_reg e = reg) (rv_hash reg)"

text \<open>The store once the load-factor test is done. The answer \<open>Spin\<close> is unreachable.\<close>

definition rv_store :: "rv_map \<Rightarrow> nat \<Rightarrow> u64 \<Rightarrow> rv_map" where
  "rv_store m reg val =
     (let ent = \<lparr>rv_reg = reg, rv_val = val\<rparr> in
      case rv_find m reg of
        Hit j \<Rightarrow> m\<lparr>rv_e := (rv_e m)[j := Some ent]\<rparr>
      | Free j \<Rightarrow> m\<lparr>rv_e := (rv_e m)[j := Some ent], rv_cnt := rv_cnt m + 1\<rparr>
      | Spin \<Rightarrow> m)"

definition rv_full :: "rv_map \<Rightarrow> bool" where
  "rv_full m \<longleftrightarrow> rv_cap m = 0 \<or> sz_mul (sz_add (rv_cnt m) 1) 4 \<ge> sz_mul (rv_cap m) 3"

definition rv_put :: "heap \<Rightarrow> rv_map \<Rightarrow> nat \<Rightarrow> u64 \<Rightarrow> rv_map \<times> heap" where
  "rv_put h m reg val =
     (if rv_full m
      then case rv_grow h m of (ok, m', h') \<Rightarrow> if ok then (rv_store m' reg val, h') else (m', h')
      else (rv_store m reg val, h))"

definition rv_get :: "rv_map \<Rightarrow> nat \<Rightarrow> u64 option" where
  "rv_get m reg =
     (if rv_cap m = 0 then None
      else case rv_find m reg of
             Hit j \<Rightarrow> (case rv_e m ! j of None \<Rightarrow> None | Some e \<Rightarrow> Some (rv_val e))
           | _ \<Rightarrow> None)"

section \<open>The rewritten records\<close>

record recvec =
  rc_v :: "at_val_rec list"
  rc_cap :: nat

definition rec_push :: "heap \<Rightarrow> recvec \<Rightarrow> at_val_rec \<Rightarrow> bool \<times> recvec \<times> heap" where
  "rec_push h rv r =
     (case (if length (rc_v rv) = rc_cap rv
            then asmtest_grow h (rc_cap rv) (length (rc_v rv) + 1) 72
            else (True, rc_cap rv, h)) of (ok, cap', h') \<Rightarrow>
        if \<not> ok then (False, rv, h')
        else (True, \<lparr>rc_v = rc_v rv @ [r], rc_cap = cap'\<rparr>, h'))"

definition zero_rec :: at_val_rec where
  "zero_rec = \<lparr>vr_kind = AT_LOC_REG, vr_reg = 0, vr_base = 0, vr_index = 0, vr_scale = 0, vr_disp = 0,
     vr_addr = 0, vr_size = 0, vr_is_write = False, vr_value_valid = False, vr_wide = False,
     vr_wide_off = 0, vr_value = 0, vr_step = 0\<rparr>"

definition emit_helper_loc ::
  "heap \<Rightarrow> recvec \<Rightarrow> asmtest_helper_loc \<Rightarrow> bool \<Rightarrow> nat \<Rightarrow> rv_map \<Rightarrow> bool \<times> recvec \<times> heap" where
  "emit_helper_loc h out loc is_write step regvals =
     (let r = zero_rec\<lparr>vr_step := step, vr_is_write := is_write\<rparr> in
      if hl_kind loc = AT_HELPER_REG
      then rec_push h out (r\<lparr>vr_kind := AT_LOC_REG, vr_reg := hl_reg loc\<rparr>)
      else case rv_get regvals (hl_reg loc) of
             None \<Rightarrow> (True, out, h)
           | Some base \<Rightarrow>
               rec_push h out (r\<lparr>vr_kind := AT_LOC_MEM_ABS, vr_addr := base,
                                 vr_size := (if hl_size loc \<noteq> 0 then hl_size loc else 8)\<rparr>))"

fun emit_locs ::
  "heap \<Rightarrow> recvec \<Rightarrow> asmtest_helper_loc list \<Rightarrow> bool \<Rightarrow> nat \<Rightarrow> rv_map \<Rightarrow> bool \<times> recvec \<times> heap" where
  "emit_locs h out [] is_write step regvals = (True, out, h)"
| "emit_locs h out (l # ls) is_write step regvals =
     (case emit_helper_loc h out l is_write step regvals of (ok, out', h') \<Rightarrow>
        if ok then emit_locs h' out' ls is_write step regvals else (False, out', h'))"

text \<open>An ordinary step: its records are copied and its register values tracked.\<close>

fun copy_step :: "heap \<Rightarrow> recvec \<Rightarrow> rv_map \<Rightarrow> at_val_rec list \<Rightarrow> bool \<times> recvec \<times> rv_map \<times> heap" where
  "copy_step h out regvals [] = (True, out, regvals, h)"
| "copy_step h out regvals (r # rs) =
     (case rec_push h out r of (ok, out', h') \<Rightarrow>
        if \<not> ok then (False, out', regvals, h')
        else if vr_kind r = AT_LOC_REG \<and> vr_is_write r \<and> vr_value_valid r
             then case rv_put h' regvals (vr_reg r) (vr_value r) of (regvals', h'') \<Rightarrow>
                    copy_step h'' out' regvals' rs
             else copy_step h' out' regvals rs)"

text \<open>The first record index of each step and one past the last.\<close>

fun rstart_loop :: "at_val_rec list \<Rightarrow> nat \<Rightarrow> nat list \<Rightarrow> nat list" where
  "rstart_loop recs ci [] = []"
| "rstart_loop recs ci (s # ss) =
     (let ci' = ci + length (takeWhile (\<lambda>r. vr_step r < s) (drop ci recs)) in ci' # rstart_loop recs ci' ss)"

definition rstart :: "at_val_rec list \<Rightarrow> nat \<Rightarrow> nat list" where
  "rstart recs nsteps = rstart_loop recs 0 [0..<nsteps + 1]"

definition step_helper :: "asmtest_method list \<Rightarrow> asmtest_helper list \<Rightarrow> u64 \<Rightarrow> int" where
  "step_helper methods helpers pc =
     (let rec = asmtest_method_resolve_pc methods pc in
      if rec \<ge> 0 then asmtest_helper_match helpers (me_name (methods ! nat rec)) else -1)"

function sum_loop ::
  "asmtest_helper list \<Rightarrow> int list \<Rightarrow> nat list \<Rightarrow> at_val_rec list \<Rightarrow> nat \<Rightarrow> recvec \<Rightarrow> rv_map \<Rightarrow> heap
     \<Rightarrow> bool \<times> recvec \<times> heap" where
  "sum_loop helpers hi rst recs s out regvals h =
     (if s < length hi then
        if hi ! s < 0 then
          (case copy_step h out regvals (take (rst ! (s + 1) - rst ! s) (drop (rst ! s) recs)) of
             (ok, out1, regvals1, h1) \<Rightarrow>
               if ok then sum_loop helpers hi rst recs (s + 1) out1 regvals1 h1 else (False, out1, h1))
        else
          (let b = s + length (takeWhile (\<lambda>x. x = hi ! s) (drop (s + 1) hi));
               H = helpers ! nat (hi ! s)
           in case emit_locs h out (hp_ins H) False (s mod 2 ^ 32) regvals of (ok, out1, h1) \<Rightarrow>
                if \<not> ok then (False, out1, h1)
                else case emit_locs h1 out1 (hp_outs H) True (s mod 2 ^ 32) regvals of (ok, out2, h2) \<Rightarrow>
                  if ok then sum_loop helpers hi rst recs (b + 1) out2 regvals h2 else (False, out2, h2))
      else (True, out, h))"
  by auto
termination
  by (relation "measure (\<lambda>(helpers, hi, rst, recs, s, out, regvals, h). length hi - s)") auto

declare sum_loop.simps [simp del]

definition shim :: "asmtest_valtrace \<Rightarrow> recvec \<Rightarrow> asmtest_valtrace" where
  "shim v out = zero_valtrace\<lparr>vt_insn_off := vt_insn_off v, vt_steps_cap := vt_steps_len v,
     vt_steps_total := of_nat (vt_steps_len v),
     vt_recs := (if rc_cap out = 0 then None else Some (rc_v out)), vt_recs_cap := length (rc_v out),
     vt_recs_total := of_nat (length (rc_v out)), vt_mem_space := vt_mem_space v\<rparr>"

definition asmtest_defuse_build_summarized ::
  "heap \<Rightarrow> asmtest_valtrace option \<Rightarrow> asmtest_method list \<Rightarrow> asmtest_helper list
     \<Rightarrow> asmtest_defuse option \<times> heap" where
  "asmtest_defuse_build_summarized h vo methods helpers =
     (case vo of None \<Rightarrow> (None, h)
      | Some v \<Rightarrow>
        if helpers = [] \<or> methods = [] then asmtest_defuse_build h vo
        else let nsteps = vt_steps_len v; recs = buf_of (vt_recs v) in
          case (if nsteps > 0 then alloc h else (True, h)) of (ok, h1) \<Rightarrow>
            if \<not> ok then asmtest_defuse_build h1 vo
            else let hi = map (step_helper methods helpers) (buf_of (vt_insn_off v)) in
              case alloc h1 of (ok, h2) \<Rightarrow>
                if \<not> ok then asmtest_defuse_build h2 vo
                else case sum_loop helpers hi (rstart recs nsteps) recs 0 \<lparr>rc_v = [], rc_cap = 0\<rparr> rv_empty h2 of
                  (ok, out, h3) \<Rightarrow>
                    if \<not> ok then asmtest_defuse_build h3 vo
                    else asmtest_defuse_build h3 (Some (shim v out)))"

section \<open>The register-value map is a finite map\<close>

interpretation rvt: open_addressing rv_reg rv_hash .

definition rv_inv :: "rv_map \<Rightarrow> bool" where
  "rv_inv m \<longleftrightarrow> rvt.tinv rv_sizeof 32 (rv_e m) (rv_cnt m)"

lemma rv_invD:
  "rv_inv m \<Longrightarrow> rv_e m \<noteq> [] \<Longrightarrow> rvt.table_ok (rv_e m) \<and> rv_cnt m = oa_used (rv_e m) \<and> rv_cap m \<le> 32 + 4 * rv_cnt m"
  by (simp add: rv_inv_def rvt.tinv_def)

lemma rv_inv_empty [simp]: "rv_inv rv_empty"
  by (simp add: rv_inv_def rvt.tinv_def rv_empty_def)

lemma rv_get_empty [simp]: "rv_get rv_empty = Map.empty"
  by (simp add: rv_get_def rv_empty_def fun_eq_iff)

lemma rv_get_tabs: "rv_get m k = map_option rv_val (rvt.tabs (rv_e m) k)"
  by (auto simp: rv_get_def rv_find_def rvt.tabs_def rvt.tget_def split: probe_result.split option.split)

lemma rv_full_exact: "rv_inv m \<Longrightarrow> rv_e m \<noteq> [] \<Longrightarrow> rv_full m \<longleftrightarrow> rv_cap m * 3 \<le> (rv_cnt m + 1) * 4"
  using rvt.tinv_load [of rv_sizeof 32 "rv_e m" "rv_cnt m"] by (simp add: rv_inv_def rv_full_def rv_sizeof_def)

lemma rv_store_tstore:
  "rvt.tstore (rv_e m) (rv_cnt m) \<lparr>rv_reg = reg, rv_val = val\<rparr> = (rv_e (rv_store m reg val), rv_cnt (rv_store m reg val))"
  by (simp add: rvt.tstore_def rv_store_def rv_find_def Let_def split: probe_result.split)

lemma rv_store_ok:
  assumes "rv_inv m" "rv_e m \<noteq> []" "\<not> rv_full m"
  shows "rv_inv (rv_store m reg val)" "rv_get (rv_store m reg val) = (rv_get m)(reg \<mapsto> val)"
    "rv_cnt (rv_store m reg val) \<le> rv_cnt m + 1"
proof -
  have "rvt.table_ok (rv_e m)" "rv_cnt m = oa_used (rv_e m)" using rv_invD assms by blast+
  moreover have "rvt.tfits rv_sizeof 32 (rv_cap m) (rv_cnt m)"
    using assms rv_full_exact rvt.tinv_fits by (auto simp: rv_inv_def)
  ultimately show "rv_inv (rv_store m reg val)" "rv_get (rv_store m reg val) = (rv_get m)(reg \<mapsto> val)"
    "rv_cnt (rv_store m reg val) \<le> rv_cnt m + 1"
    using rvt.tstore_ok [OF _ _ _ rv_store_tstore] by (auto simp: rv_inv_def rv_get_tabs fun_eq_iff)
qed

definition rv_regrown :: "rv_map \<Rightarrow> nat \<Rightarrow> rv_map" where
  "rv_regrown m n = m\<lparr>rv_e := oa_rehash (\<lambda>e. rv_hash (rv_reg e)) (replicate n None) (rv_e m)\<rparr>"

lemma rv_rehash_ok:
  assumes "rv_inv m" "rvt.tfits rv_sizeof 32 (2 ^ k) (rv_cnt m)"
  shows "rv_inv (rv_store (rv_regrown m (2 ^ k)) reg val)"
    "rv_get (rv_store (rv_regrown m (2 ^ k)) reg val) = (rv_get m)(reg \<mapsto> val)"
    "rv_cnt (rv_store (rv_regrown m (2 ^ k)) reg val) \<le> rv_cnt m + 1"
proof -
  let ?m = "rv_regrown m (2 ^ k)"
  have "rvt.tstore (oa_rehash (rv_hash \<circ> rv_reg) (replicate (2 ^ k) None) (rv_e m)) (rv_cnt m)
      \<lparr>rv_reg = reg, rv_val = val\<rparr> = (rv_e (rv_store ?m reg val), rv_cnt (rv_store ?m reg val))"
    using rv_store_tstore [of ?m reg val] by (simp add: rv_regrown_def o_def)
  from rvt.regrow_store_ok [OF _ _ this] assms show "rv_inv (rv_store ?m reg val)"
    "rv_get (rv_store ?m reg val) = (rv_get m)(reg \<mapsto> val)" "rv_cnt (rv_store ?m reg val) \<le> rv_cnt m + 1"
    by (auto simp: rv_inv_def rv_get_tabs fun_eq_iff)
qed

lemma rv_grow_full:
  assumes "rv_inv m" "rv_full m" "rv_cnt m < 2 ^ 50"
  obtains k where "rvt.tfits rv_sizeof 32 (2 ^ k) (rv_cnt m)" "rv_grow [] m = (True, rv_regrown m (2 ^ k), [])"
proof (cases "rv_e m = []")
  case True
  then have "rv_cnt m = 0" using assms(1) by (simp add: rv_inv_def rvt.tinv_def)
  then have "rvt.tfits rv_sizeof 32 (2 ^ 5) (rv_cnt m)" by (simp add: rvt.tfits_def rv_sizeof_def SIZE_MAX_def)
  moreover have "asmtest_grow_pow2 0 32 rv_sizeof = Some (2 ^ 5)"
    by (simp add: asmtest_grow_pow2_def pow2_step SIZE_MAX_def rv_sizeof_def)
  ultimately show ?thesis using True by (intro that [of 5]) (simp_all add: rv_grow_def rv_regrown_def)
next
  case False
  have i: "rvt.table_ok (rv_e m)" "rv_cap m \<le> 32 + 4 * rv_cnt m" using rv_invD [OF assms(1) False] by auto
  then obtain k where k: "rv_cap m = 2 ^ k" by (auto simp: rvt.table_ok_def)
  have le: "rv_cap m \<le> SIZE_MAX div 16 div 2" using i(2) assms(3) by (simp add: SIZE_MAX_def)
  have "asmtest_grow_pow2 (rv_cap m) (rv_cap m) rv_sizeof = Some (2 ^ Suc k)"
    using pow2_double [of "rv_cap m" 16] le False k by (simp add: rv_sizeof_def)
  then have "rv_grow [] m = (True, rv_regrown m (2 ^ Suc k), [])" using False by (simp add: rv_grow_def rv_regrown_def)
  moreover have "rvt.tfits rv_sizeof 32 (2 * rv_cap m) (rv_cnt m)"
    using assms(1,2) False rv_full_exact le by (intro rvt.tinv_double) (auto simp: rv_inv_def rv_sizeof_def)
  ultimately show ?thesis using that [of "Suc k"] k by simp
qed

lemma rv_put_ok:
  assumes "rv_inv m" "rv_cnt m < 2 ^ 50"
  obtains m' where "rv_put [] m reg val = (m', [])" "rv_inv m'" "rv_get m' = (rv_get m)(reg \<mapsto> val)"
    "rv_cnt m' \<le> rv_cnt m + 1"
proof (cases "rv_full m")
  case True
  from assms(1) True assms(2) obtain k where
    k: "rvt.tfits rv_sizeof 32 (2 ^ k) (rv_cnt m)" "rv_grow [] m = (True, rv_regrown m (2 ^ k), [])"
    by (rule rv_grow_full)
  show ?thesis
    using rv_rehash_ok [OF assms(1) k(1), of reg val] k(2) True
    by (intro that [of "rv_store (rv_regrown m (2 ^ k)) reg val"]) (simp_all add: rv_put_def)
next
  case False
  then have "rv_e m \<noteq> []" by (auto simp: rv_full_def)
  from rv_store_ok [OF assms(1) this False, of reg val] False show ?thesis
    by (intro that [of "rv_store m reg val"]) (simp_all add: rv_put_def)
qed

definition rv_set :: "rv_map \<Rightarrow> nat \<Rightarrow> u64 \<Rightarrow> rv_map" where
  "rv_set m reg val = fst (rv_put [] m reg val)"

definition rv_room :: "rv_map \<Rightarrow> nat \<Rightarrow> bool" where
  "rv_room m n \<longleftrightarrow> rv_inv m \<and> rv_cnt m + n \<le> 2 ^ 50"

lemma rv_put_room:
  assumes "rv_room m (Suc n)"
  shows "rv_put [] m reg val = (rv_set m reg val, [])" "rv_room (rv_set m reg val) n"
    "rv_get (rv_set m reg val) = (rv_get m)(reg \<mapsto> val)"
proof -
  have "rv_inv m" "rv_cnt m < 2 ^ 50" using assms by (auto simp: rv_room_def)
  then obtain m' where "rv_put [] m reg val = (m', [])" "rv_inv m'" "rv_get m' = (rv_get m)(reg \<mapsto> val)"
    "rv_cnt m' \<le> rv_cnt m + 1" by (rule rv_put_ok)
  with assms show "rv_put [] m reg val = (rv_set m reg val, [])" "rv_room (rv_set m reg val) n"
    "rv_get (rv_set m reg val) = (rv_get m)(reg \<mapsto> val)"
    by (auto simp: rv_set_def rv_room_def)
qed

interpretation rvb: budget_map rv_set rv_get rv_room
  by unfold_locales (rule rv_put_room; assumption)+

section \<open>What the rewriting produces\<close>

abbreviation at_step :: "at_val_rec list \<Rightarrow> nat \<Rightarrow> at_val_rec list" where
  "at_step recs s \<equiv> filter (\<lambda>r. vr_step r = s) recs"

text \<open>The register values the caller's records carry.\<close>

definition carried :: "at_val_rec list \<Rightarrow> (nat \<times> u64) list" where
  "carried rs = map (\<lambda>r. (vr_reg r, vr_value r))
     (filter (\<lambda>r. vr_kind r = AT_LOC_REG \<and> vr_is_write r \<and> vr_value_valid r) rs)"

text \<open>What is known of a register before step \<open>s\<close>: its last carried value outside every helper.\<close>

definition caller_recs :: "int list \<Rightarrow> at_val_rec list \<Rightarrow> nat \<Rightarrow> at_val_rec list" where
  "caller_recs hi recs s = concat (map (\<lambda>t. if hi ! t < 0 then at_step recs t else []) [0..<s])"

definition caller_vals :: "int list \<Rightarrow> at_val_rec list \<Rightarrow> nat \<Rightarrow> nat \<rightharpoonup> u64" where
  "caller_vals hi recs s = map_of (rev (carried (caller_recs hi recs s)))"

definition loc_recs :: "(nat \<rightharpoonup> u64) \<Rightarrow> bool \<Rightarrow> nat \<Rightarrow> asmtest_helper_loc \<Rightarrow> at_val_rec list" where
  "loc_recs vals is_write s loc =
     (if hl_kind loc = AT_HELPER_REG
      then [zero_rec\<lparr>vr_step := s, vr_is_write := is_write, vr_reg := hl_reg loc\<rparr>]
      else case vals (hl_reg loc) of None \<Rightarrow> []
           | Some base \<Rightarrow> [zero_rec\<lparr>vr_step := s, vr_is_write := is_write, vr_kind := AT_LOC_MEM_ABS,
               vr_addr := base, vr_size := (if hl_size loc \<noteq> 0 then hl_size loc else 8)\<rparr>])"

definition run_start :: "int list \<Rightarrow> nat \<Rightarrow> bool" where
  "run_start hi s \<longleftrightarrow> 0 \<le> hi ! s \<and> (s = 0 \<or> hi ! (s - 1) \<noteq> hi ! s)"

definition sum_step :: "asmtest_helper list \<Rightarrow> int list \<Rightarrow> at_val_rec list \<Rightarrow> nat \<Rightarrow> at_val_rec list" where
  "sum_step helpers hi recs s =
     (if hi ! s < 0 then at_step recs s
      else if run_start hi s
           then concat (map (loc_recs (caller_vals hi recs s) False s) (hp_ins (helpers ! nat (hi ! s)))) @
                concat (map (loc_recs (caller_vals hi recs s) True s) (hp_outs (helpers ! nat (hi ! s))))
           else [])"

definition sum_stream :: "asmtest_helper list \<Rightarrow> int list \<Rightarrow> at_val_rec list \<Rightarrow> nat \<Rightarrow> at_val_rec list" where
  "sum_stream helpers hi recs s = concat (map (sum_step helpers hi recs) [0..<s])"

lemma sum_stream_Suc: "sum_stream helpers hi recs (Suc s) = sum_stream helpers hi recs s @ sum_step helpers hi recs s"
  by (simp add: sum_stream_def)

section \<open>The pieces of the rewriting\<close>

definition rc_holds :: "recvec \<Rightarrow> at_val_rec list \<Rightarrow> bool" where
  "rc_holds out xs \<longleftrightarrow> rc_v out = xs \<and> length xs \<le> rc_cap out"

lemma rec_push_room:
  assumes "rc_holds out xs" "length xs < 2 ^ 50"
  obtains out' where "rec_push [] out r = (True, out', [])" "rc_holds out' (xs @ [r])"
proof (cases "length (rc_v out) = rc_cap out")
  case True
  have "length xs + 1 \<le> SIZE_MAX div 72" using assms(2) by (simp add: SIZE_MAX_def)
  from grow_succeeds [OF this, of "length xs"]
  obtain cap' where g: "asmtest_grow [] (length xs) (length xs + 1) 72 = (True, cap', [])"
    by (auto simp: asmtest_grow_def Let_def split: if_splits prod.splits option.splits)
  from grow_cases(1) [OF g] have "length xs + 1 \<le> cap'" by simp
  with g True assms show ?thesis
    by (intro that [of "\<lparr>rc_v = xs @ [r], rc_cap = cap'\<rparr>"]) (simp_all add: rec_push_def rc_holds_def)
next
  case False
  with assms show ?thesis
    by (intro that [of "\<lparr>rc_v = xs @ [r], rc_cap = rc_cap out\<rparr>"]) (auto simp: rec_push_def rc_holds_def)
qed

lemma emit_helper_loc_room:
  assumes "rc_holds out xs" "length xs < 2 ^ 50"
  obtains out' where "emit_helper_loc [] out l w s regvals = (True, out', [])"
    "rc_holds out' (xs @ loc_recs (rv_get regvals) w s l)"
proof -
  define r where "r = zero_rec\<lparr>vr_step := s, vr_is_write := w\<rparr>"
  have k: "zero_rec\<lparr>vr_step := s, vr_is_write := w, vr_kind := AT_LOC_REG, vr_reg := q\<rparr> =
      zero_rec\<lparr>vr_step := s, vr_is_write := w, vr_reg := q\<rparr>" for q by (simp add: zero_rec_def)
  show ?thesis
  proof (cases "hl_kind l = AT_HELPER_REG")
    case True
    show ?thesis
      by (rule rec_push_room [OF assms, of "zero_rec\<lparr>vr_step := s, vr_is_write := w, vr_reg := hl_reg l\<rparr>"], rule that)
        (simp_all add: True emit_helper_loc_def loc_recs_def k)
  next
    case False
    show ?thesis
    proof (cases "rv_get regvals (hl_reg l)")
      case None
      then show ?thesis using assms False by (intro that [of out]) (simp_all add: emit_helper_loc_def loc_recs_def)
    next
      case (Some base)
      show ?thesis
        by (rule rec_push_room [OF assms, of "zero_rec\<lparr>vr_step := s, vr_is_write := w, vr_kind := AT_LOC_MEM_ABS,
              vr_addr := base, vr_size := (if hl_size l \<noteq> 0 then hl_size l else 8)\<rparr>"], rule that)
          (simp_all add: False Some emit_helper_loc_def loc_recs_def)
    qed
  qed
qed

lemma emit_locs_room:
  "rc_holds out xs \<Longrightarrow> length xs + length (concat (map (loc_recs (rv_get regvals) w s) ls)) < 2 ^ 50 \<Longrightarrow>
   \<exists>out'. emit_locs [] out ls w s regvals = (True, out', []) \<and>
     rc_holds out' (xs @ concat (map (loc_recs (rv_get regvals) w s) ls))"
proof (induction ls arbitrary: out xs)
  case (Cons l ls)
  obtain out1 where e: "emit_helper_loc [] out l w s regvals = (True, out1, [])"
    "rc_holds out1 (xs @ loc_recs (rv_get regvals) w s l)"
    using emit_helper_loc_room [OF Cons.prems(1)] Cons.prems(2) by (metis add_lessD1)
  with Cons.IH [OF e(2)] Cons.prems(2) show ?case by auto
qed simp

lemma copy_step_room:
  "rc_holds out xs \<Longrightarrow> length xs + length rs < 2 ^ 50 \<Longrightarrow> rv_room m (length rs + n) \<Longrightarrow>
   \<exists>out' m'. copy_step [] out m rs = (True, out', m', []) \<and> rc_holds out' (xs @ rs) \<and> rv_room m' n \<and>
     rv_get m' = rv_get m ++ map_of (rev (carried rs))"
proof (induction rs arbitrary: out xs m)
  case Nil
  then show ?case by (simp add: carried_def)
next
  case (Cons r rs)
  have "length xs < 2 ^ 50" using Cons.prems(2) by simp
  from Cons.prems(1) this obtain out1 where p: "rec_push [] out r = (True, out1, [])" "rc_holds out1 (xs @ [r])"
    by (rule rec_push_room)
  let ?t = "vr_kind r = AT_LOC_REG \<and> vr_is_write r \<and> vr_value_valid r"
  define m1 where "m1 = (if ?t then rv_set m (vr_reg r) (vr_value r) else m)"
  have rm: "rv_room m (Suc (length rs + n))" using Cons.prems(3) by simp
  have r1: "rv_room m1 (length rs + n)" and g1: "rv_get m1 = rv_get m ++ map_of (carried [r])"
    using rv_put_room(2,3) [OF rm] rm by (auto simp: m1_def carried_def rv_room_def)
  have "copy_step [] out m (r # rs) = copy_step [] out1 m1 rs"
    using p(1) rv_put_room(1) [OF rm] by (simp add: m1_def)
  moreover have "carried (r # rs) = carried [r] @ carried rs" by (simp add: carried_def)
  moreover have "map_of (rev (carried [r])) = map_of (carried [r])" by (simp add: carried_def)
  ultimately show ?case using Cons.IH [OF p(2) _ r1] Cons.prems(2) g1 by auto
qed

text \<open>The record boundaries.\<close>

lemma takeWhile_resume:
  "n \<le> length (takeWhile P xs) \<Longrightarrow> n + length (takeWhile P (drop n xs)) = length (takeWhile P xs)"
proof (induction n arbitrary: xs)
  case (Suc n)
  then obtain x ys where "xs = x # ys" "P x" by (cases xs) (auto split: if_splits)
  with Suc show ?case by simp
qed simp

lemma takeWhile_less_mono: "(s::nat) \<le> t \<Longrightarrow> length (takeWhile (\<lambda>r. f r < s) xs) \<le> length (takeWhile (\<lambda>r. f r < t) xs)"
  by (induction xs) auto

lemma rstart_loop_eq:
  "sorted ss \<Longrightarrow> (\<And>s. s \<in> set ss \<Longrightarrow> ci \<le> length (takeWhile (\<lambda>r. vr_step r < s) recs)) \<Longrightarrow>
   rstart_loop recs ci ss = map (\<lambda>s. length (takeWhile (\<lambda>r. vr_step r < s) recs)) ss"
proof (induction ss arbitrary: ci)
  case (Cons s ss)
  have c: "ci + length (takeWhile (\<lambda>r. vr_step r < s) (drop ci recs)) = length (takeWhile (\<lambda>r. vr_step r < s) recs)"
    using Cons.prems(2) by (intro takeWhile_resume) simp
  have "rstart_loop recs (length (takeWhile (\<lambda>r. vr_step r < s) recs)) ss =
      map (\<lambda>s. length (takeWhile (\<lambda>r. vr_step r < s) recs)) ss"
    using Cons.prems(1) by (intro Cons.IH) (auto intro: takeWhile_less_mono)
  with c show ?case by simp
qed simp

lemma rstart_nth: "s \<le> n \<Longrightarrow> rstart recs n ! s = length (takeWhile (\<lambda>r. vr_step r < s) recs)"
  using rstart_loop_eq [of "[0..<n + 1]" 0 recs] by (simp add: rstart_def del: upt_Suc)

lemma sorted_split_less:
  assumes "sorted (map vr_step recs)"
  shows "takeWhile (\<lambda>r. vr_step r < t) recs = filter (\<lambda>r. vr_step r < t) recs"
    "dropWhile (\<lambda>r. vr_step r < t) recs = filter (\<lambda>r. t \<le> vr_step r) recs"
proof -
  have "takeWhile (\<lambda>r. vr_step r < t) recs = filter (\<lambda>r. vr_step r < t) recs \<and>
    dropWhile (\<lambda>r. vr_step r < t) recs = filter (\<lambda>r. t \<le> vr_step r) recs"
    using assms
  proof (induction recs)
    case (Cons r recs)
    have "filter (\<lambda>r. vr_step r < t) recs = []" "filter (\<lambda>r. t \<le> vr_step r) recs = recs" if "t \<le> vr_step r"
      using Cons.prems that by (force simp: filter_empty_conv filter_id_conv)+
    with Cons show ?case by auto
  qed simp
  then show "takeWhile (\<lambda>r. vr_step r < t) recs = filter (\<lambda>r. vr_step r < t) recs"
    "dropWhile (\<lambda>r. vr_step r < t) recs = filter (\<lambda>r. t \<le> vr_step r) recs" by blast+
qed

lemma step_slice:
  assumes "sorted (map vr_step recs)" "s < n"
  shows "take (rstart recs n ! (s + 1) - rstart recs n ! s) (drop (rstart recs n ! s) recs) = at_step recs s"
proof -
  let ?a = "\<lambda>t. takeWhile (\<lambda>r. vr_step r < t) recs"
  note sp = sorted_split_less [OF assms(1)]
  have "length (filter (\<lambda>r. vr_step r < Suc s) recs) = length (filter (\<lambda>r. vr_step r < s) recs) + length (at_step recs s)"
    by (induction recs) auto
  then have k: "rstart recs n ! (s + 1) - rstart recs n ! s = length (at_step recs s)"
    using assms(2) by (simp add: rstart_nth sp)
  have d: "drop (rstart recs n ! s) recs = filter (\<lambda>r. s \<le> vr_step r) recs"
    using assms(2) by (simp add: rstart_nth sp(2) [symmetric] dropWhile_eq_drop)
  from group_prefix(1) [OF assms(1), of s] show ?thesis unfolding k d by (metis takeWhile_eq_take)
qed

section \<open>The loop\<close>

lemma caller_vals_Suc:
  "caller_vals hi recs (Suc s) =
     (if hi ! s < 0 then caller_vals hi recs s ++ map_of (rev (carried (at_step recs s))) else caller_vals hi recs s)"
  by (simp add: caller_vals_def caller_recs_def carried_def)

lemma run_quiet:
  assumes "0 \<le> hi ! s" "\<And>t. s < t \<Longrightarrow> t \<le> b \<Longrightarrow> hi ! t = hi ! s" "s \<le> b"
  shows "sum_stream helpers hi recs (Suc b) = sum_stream helpers hi recs (Suc s) \<and>
    caller_vals hi recs (Suc b) = caller_vals hi recs s"
  using assms(3,2)
proof (induction b rule: dec_induct)
  case base
  then show ?case using assms(1) by (simp add: caller_vals_Suc)
next
  case (step b)
  have "hi ! Suc b = hi ! s" using step.prems step.hyps by simp
  moreover have "hi ! b = hi ! s" using step.prems [of b] step.hyps by (cases "b = s") auto
  ultimately have "sum_step helpers hi recs (Suc b) = []" "caller_vals hi recs (Suc (Suc b)) = caller_vals hi recs (Suc b)"
    using assms(1) by (simp_all add: sum_step_def run_start_def caller_vals_Suc)
  with step show ?case by (simp add: sum_stream_Suc)
qed

lemma run_end:
  assumes "s < length hi"
  defines "b \<equiv> s + length (takeWhile (\<lambda>x. x = hi ! s) (drop (s + 1) hi))"
  shows "\<And>t. s < t \<Longrightarrow> t \<le> b \<Longrightarrow> hi ! t = hi ! s" "b < length hi" "b + 1 < length hi \<Longrightarrow> hi ! (b + 1) \<noteq> hi ! b"
proof -
  let ?w = "takeWhile (\<lambda>x. x = hi ! s) (drop (s + 1) hi)"
  have l: "length ?w \<le> length hi - (s + 1)" using length_takeWhile_le [of _ "drop (s + 1) hi"] by simp
  then show lt: "b < length hi" using assms(1) by (simp add: b_def)
  show same: "hi ! t = hi ! s" if "s < t" "t \<le> b" for t
  proof -
    have i: "t - (s + 1) < length ?w" using that by (simp add: b_def)
    then have "?w ! (t - (s + 1)) = hi ! t" using that assms(1) by (simp add: takeWhile_nth)
    moreover have "?w ! (t - (s + 1)) = hi ! s" using nth_mem [OF i] set_takeWhileD by metis
    ultimately show ?thesis by simp
  qed
  show "hi ! (b + 1) \<noteq> hi ! b" if "b + 1 < length hi"
  proof -
    have "length ?w < length (drop (s + 1) hi)" using that by (simp add: b_def)
    from nth_length_takeWhile [OF this] have "hi ! (b + 1) \<noteq> hi ! s" using assms(1) by (simp add: b_def)
    moreover have "hi ! b = hi ! s" using same [of b] by (cases "b = s") (auto simp: b_def)
    ultimately show ?thesis by simp
  qed
qed

definition remaining :: "at_val_rec list \<Rightarrow> nat \<Rightarrow> nat" where
  "remaining recs s = length (filter (\<lambda>r. s \<le> vr_step r) recs)"

lemma remaining_Suc: "remaining recs s = length (at_step recs s) + remaining recs (Suc s)"
  unfolding remaining_def by (induction recs) auto

lemma remaining_mono: "s \<le> t \<Longrightarrow> remaining recs t \<le> remaining recs s"
  unfolding remaining_def by (induction recs) auto

lemma sum_stream_mono: "s \<le> t \<Longrightarrow> length (sum_stream helpers hi recs s) \<le> length (sum_stream helpers hi recs t)"
  by (induction t rule: dec_induct) (auto simp: sum_stream_Suc)

lemma sum_loop_spec:
  assumes "sorted (map vr_step recs)" "length hi < 2 ^ 32"
    "length (sum_stream helpers hi recs (length hi)) < 2 ^ 50"
  shows "s \<le> length hi \<Longrightarrow> s = 0 \<or> s = length hi \<or> hi ! (s - 1) \<noteq> hi ! s \<or> hi ! s < 0 \<Longrightarrow>
    rc_holds out (sum_stream helpers hi recs s) \<Longrightarrow> rv_get m = caller_vals hi recs s \<Longrightarrow>
    rv_room m (remaining recs s) \<Longrightarrow>
    \<exists>out'. sum_loop helpers hi (rstart recs (length hi)) recs s out m [] = (True, out', []) \<and>
      rc_holds out' (sum_stream helpers hi recs (length hi))"
proof (induction "length hi - s" arbitrary: s out m rule: less_induct)
  case less
  let ?st = "sum_stream helpers hi recs" and ?rst = "rstart recs (length hi)"
  have total: "length (?st t) < 2 ^ 50" if "t \<le> length hi" for t
    using sum_stream_mono [OF that, of helpers hi recs] assms(3) by simp
  show ?case
  proof (cases "s < length hi")
    case False
    with less.prems show ?thesis by (subst sum_loop.simps) auto
  next
    case True
    show ?thesis
    proof (cases "hi ! s < 0")
      case neg: True
      have sl: "take (?rst ! (s + 1) - ?rst ! s) (drop (?rst ! s) recs) = at_step recs s"
        using True by (intro step_slice [OF assms(1)])
      have st: "?st (Suc s) = ?st s @ at_step recs s" using neg by (simp add: sum_stream_Suc sum_step_def)
      have "length (?st s) + length (at_step recs s) < 2 ^ 50"
        using total [of "Suc s"] True unfolding st by simp
      from copy_step_room [OF less.prems(3) this, of m "remaining recs (Suc s)"] less.prems(5)
      obtain out1 m1 where c: "copy_step [] out m (at_step recs s) = (True, out1, m1, [])"
        "rc_holds out1 (?st (Suc s))" "rv_room m1 (remaining recs (Suc s))" "rv_get m1 = caller_vals hi recs (Suc s)"
        unfolding st using remaining_Suc [of recs s] neg less.prems(4) by (auto simp: caller_vals_Suc)
      have "\<exists>out'. sum_loop helpers hi ?rst recs (Suc s) out1 m1 [] = (True, out', []) \<and> rc_holds out' (?st (length hi))"
        using True neg c by (intro less.hyps) auto
      then show ?thesis using True neg sl c(1) by (subst sum_loop.simps) simp
    next
      case pos: False
      define b where "b = s + length (takeWhile (\<lambda>x. x = hi ! s) (drop (s + 1) hi))"
      then have bs: "s + length (takeWhile (\<lambda>x. x = hi ! s) (drop (Suc s) hi)) = b" by simp
      have sb: "s \<le> b" by (simp add: b_def)
      let ?H = "helpers ! nat (hi ! s)" and ?v = "caller_vals hi recs s"
      note re = run_end [OF True, folded b_def]
      have rs: "run_start hi s" using pos less.prems(2) True by (auto simp: run_start_def)
      have sm: "s mod 2 ^ 32 = s" using True assms(2) by simp
      have st: "?st (Suc s) = ?st s @ concat (map (loc_recs ?v False s) (hp_ins ?H)) @ concat (map (loc_recs ?v True s) (hp_outs ?H))"
        using pos rs by (simp add: sum_stream_Suc sum_step_def)
      have tl: "length (?st (Suc s)) < 2 ^ 50" using total [of "Suc s"] True by simp
      obtain out1 where e1: "emit_locs [] out (hp_ins ?H) False s m = (True, out1, [])"
        "rc_holds out1 (?st s @ concat (map (loc_recs ?v False s) (hp_ins ?H)))"
        using emit_locs_room [OF less.prems(3), of m False s "hp_ins ?H"] tl unfolding st less.prems(4) by auto
      obtain out2 where e2: "emit_locs [] out1 (hp_outs ?H) True s m = (True, out2, [])" "rc_holds out2 (?st (Suc s))"
        using emit_locs_room [OF e1(2), of m True s "hp_outs ?H"] tl unfolding st less.prems(4) by auto
      have q: "?st (Suc b) = ?st (Suc s)" "caller_vals hi recs (Suc b) = ?v"
        using run_quiet [of hi s b helpers recs] pos re(1) sb by auto
      have "rv_room m (remaining recs (Suc b))"
        using less.prems(5) remaining_mono [of s "Suc b" recs] sb by (auto simp: rv_room_def)
      moreover have "Suc b = 0 \<or> Suc b = length hi \<or> hi ! (Suc b - 1) \<noteq> hi ! Suc b \<or> hi ! Suc b < 0"
        using re(2,3) by (cases "Suc b < length hi") auto
      ultimately have "\<exists>out'. sum_loop helpers hi ?rst recs (Suc b) out2 m [] = (True, out', []) \<and> rc_holds out' (?st (length hi))"
        using re(2) sb True e2(2) less.prems(4) by (intro less.hyps) (simp_all add: q)
      then show ?thesis using True pos e1(1) e2(1) sm by (subst sum_loop.simps) (simp add: Let_def bs)
    qed
  qed
qed

section \<open>The summarizing builder\<close>

abbreviation helper_steps :: "asmtest_method list \<Rightarrow> asmtest_helper list \<Rightarrow> u64 list \<Rightarrow> int list" where
  "helper_steps methods helpers offs \<equiv> map (step_helper methods helpers) offs"

lemma sum_step_at: "r \<in> set (sum_step helpers hi recs s) \<Longrightarrow> vr_step r = s"
  by (auto simp: sum_step_def loc_recs_def zero_rec_def split: if_splits option.splits)

lemma sorted_sum_stream: "sorted (map vr_step (sum_stream helpers hi recs n))"
proof (induction n)
  case (Suc n)
  have "vr_step r < n" if "r \<in> set (sum_stream helpers hi recs n)" for r
    using that by (auto simp: sum_stream_def dest: sum_step_at)
  moreover have "map vr_step (sum_step helpers hi recs n) = replicate (length (sum_step helpers hi recs n)) n"
    by (rule replicate_eqI) (auto dest: sum_step_at)
  ultimately show ?case using Suc by (force simp: sum_stream_Suc sorted_append)
qed (simp add: sum_stream_def)

lemma build_summarized_spec:
  assumes "methods \<noteq> []" "helpers \<noteq> []" "sorted (map vr_step (buf_of (vt_recs v)))" "vt_steps_len v < 2 ^ 32"
    "vt_recs_len v \<le> 2 ^ 44"
  defines "hi \<equiv> helper_steps methods helpers (buf_of (vt_insn_off v))"
  defines "out \<equiv> sum_stream helpers hi (buf_of (vt_recs v)) (vt_steps_len v)"
  assumes "length out \<le> 2 ^ 44"
  shows "asmtest_defuse_build_summarized [] (Some v) methods helpers =
    (Some \<lparr>dg_edges = defuse_spec out (vt_steps_len v), dg_nsteps = vt_steps_len v\<rparr>, [])"
proof -
  let ?recs = "buf_of (vt_recs v)"
  have l: "length hi = vt_steps_len v" by (simp add: hi_def)
  have "rc_holds \<lparr>rc_v = [], rc_cap = 0\<rparr> (sum_stream helpers hi ?recs 0)" by (simp add: rc_holds_def sum_stream_def)
  moreover have "rv_get rv_empty = caller_vals hi ?recs 0" by (simp add: caller_vals_def caller_recs_def carried_def)
  moreover have "remaining ?recs 0 \<le> 2 ^ 44" using assms(5) by (simp add: remaining_def)
  then have "rv_room rv_empty (remaining ?recs 0)" by (simp add: rv_room_def) (simp add: rv_empty_def)
  moreover have "length (sum_stream helpers hi ?recs (length hi)) < 2 ^ 50" using assms(8) unfolding l out_def by simp
  ultimately obtain rc where rc: "sum_loop helpers hi (rstart ?recs (length hi)) ?recs 0 \<lparr>rc_v = [], rc_cap = 0\<rparr> rv_empty [] =
      (True, rc, [])" "rc_holds rc out"
    using sum_loop_spec [OF assms(3), of hi helpers 0 "\<lparr>rc_v = [], rc_cap = 0\<rparr>" rv_empty] assms(4)
    unfolding l out_def by auto
  have s: "buf_of (vt_recs (shim v rc)) = out" "vt_steps_len (shim v rc) = vt_steps_len v"
    using rc(2) by (auto simp: shim_def zero_valtrace_def rc_holds_def)
  have "asmtest_defuse_build [] (Some (shim v rc)) =
      (Some \<lparr>dg_edges = defuse_spec out (vt_steps_len v), dg_nsteps = vt_steps_len v\<rparr>, [])"
    using defuse_build_spec [of "shim v rc"] assms(4,8) sorted_sum_stream unfolding s out_def by blast
  with rc(1) assms(1,2) show ?thesis
    unfolding l by (auto simp: asmtest_defuse_build_summarized_def hi_def Let_def)
qed

section \<open>Properties\<close>

text \<open>One pattern against one name.\<close>

definition pattern_matches :: "string option \<Rightarrow> string \<Rightarrow> bool" where
  "pattern_matches pat name \<longleftrightarrow>
     (\<exists>p. pat = Some p \<and> (if p \<noteq> [] \<and> last p = CHR ''*'' then prefix (butlast p) name else p = name))"

lemma strncmp_prefix: "p \<noteq> [] \<Longrightarrow> strncmp_eq name p (length p - 1) \<longleftrightarrow> prefix (butlast p) name"
  unfolding strncmp_eq_def butlast_conv_take [symmetric]
  by (metis append_eq_conv_conj append_take_drop_id length_butlast prefix_def)

lemma match_loop_spec:
  "i + length hs < 2 ^ 31 \<Longrightarrow>
   (match_loop i hs name = -1 \<and> (\<forall>H\<in>set hs. \<not> pattern_matches (hp_name H) name)) \<or>
   (\<exists>j<length hs. match_loop i hs name = int (i + j) \<and> pattern_matches (hp_name (hs ! j)) name \<and>
      (\<forall>k<j. \<not> pattern_matches (hp_name (hs ! k)) name))"
proof (induction hs arbitrary: i)
  case (Cons H hs)
  have pm: "match_loop i (H # hs) name =
      (if pattern_matches (hp_name H) name then int i else match_loop (Suc i) hs name)"
    using Cons.prems strncmp_prefix [of _ name] to_int32_small [of i]
    by (auto simp: pattern_matches_def Let_def last_conv_nth split: option.split)
  show ?case
  proof (cases "pattern_matches (hp_name H) name")
    case True
    with pm show ?thesis by (intro disjI2 exI [of _ 0]) simp
  next
    case False
    have "Suc i + length hs < 2 ^ 31" using Cons.prems by simp
    from Cons.IH [OF this] show ?thesis
    proof (elim disjE exE conjE)
      fix j assume j: "j < length hs" "match_loop (Suc i) hs name = int (Suc i + j)"
        "pattern_matches (hp_name (hs ! j)) name" "\<forall>k<j. \<not> pattern_matches (hp_name (hs ! k)) name"
      then have "\<forall>k<Suc j. \<not> pattern_matches (hp_name ((H # hs) ! k)) name"
        using False by (auto simp: less_Suc_eq_0_disj)
      with j pm False show ?thesis by (intro disjI2 exI [of _ "Suc j"]) simp
    qed (use pm False in simp)
  qed
qed simp

text \<open>
  Helper matching. In a table of fewer than 2^31 entries the matcher returns the first entry whose
  pattern is the name, or ends in a star and is a prefix of it up to the star, and -1 exactly when no
  entry matches; an entry with no pattern never matches.
\<close>

theorem helper_match_first:
  assumes "length helpers < 2 ^ 31"
  shows "(asmtest_helper_match helpers (Some name) = -1 \<and>
      (\<forall>H\<in>set helpers. \<not> pattern_matches (hp_name H) name)) \<or>
    (\<exists>j<length helpers. asmtest_helper_match helpers (Some name) = int j \<and>
       pattern_matches (hp_name (helpers ! j)) name \<and> (\<forall>k<j. \<not> pattern_matches (hp_name (helpers ! k)) name))"
  using match_loop_spec [of 0 helpers name] assms by (simp add: asmtest_helper_match_def)

theorem helper_match_first_witness:
  "asmtest_helper_match DEFAULT_HELPERS (Some ''JIT_WriteBarrier_Fast'') = 3 \<and>
   pattern_matches (hp_name (DEFAULT_HELPERS ! 3)) ''JIT_WriteBarrier_Fast''"
proof -
  have m: "asmtest_helper_match DEFAULT_HELPERS (Some ''JIT_WriteBarrier_Fast'') = 3"
    by (simp add: asmtest_helper_match_def DEFAULT_HELPERS_def strncmp_eq_def to_int32_def)
  have "length DEFAULT_HELPERS < 2 ^ 31" by (simp add: DEFAULT_HELPERS_def)
  from helper_match_first [OF this, of "''JIT_WriteBarrier_Fast''"] m show ?thesis by auto
qed

text \<open>
  The pointer value a caller left: the value of its last write, outside every helper, that touched the register. Values are tracked for a helper table when every such write to a pointer
  register of the table is a write of the whole register that carries its value.
\<close>

definition reg_cells :: "nat \<Rightarrow> cell set" where
  "reg_cells reg = rd_cells (zero_rec\<lparr>vr_reg := reg\<rparr>)"

definition touches_reg :: "nat \<Rightarrow> at_val_rec \<Rightarrow> bool" where
  "touches_reg reg r \<longleftrightarrow> vr_is_write r \<and> wr_cells r \<inter> reg_cells reg \<noteq> {}"

definition left_value :: "int list \<Rightarrow> at_val_rec list \<Rightarrow> nat \<Rightarrow> nat \<rightharpoonup> u64" where
  "left_value hi recs s reg =
     (let ws = filter (touches_reg reg) (caller_recs hi recs s) in if ws = [] then None else Some (vr_value (last ws)))"

definition pointers_tracked :: "asmtest_helper list \<Rightarrow> int list \<Rightarrow> at_val_rec list \<Rightarrow> bool" where
  "pointers_tracked helpers hi recs \<longleftrightarrow>
     (\<forall>H\<in>set helpers. \<forall>l\<in>set (hp_ins H @ hp_outs H). hl_kind l = AT_HELPER_MEM_AT_REG \<longrightarrow>
        (\<forall>r\<in>set (caller_recs hi recs (length hi)). touches_reg (hl_reg l) r \<longrightarrow> vr_reg r = hl_reg l \<and> vr_value_valid r))"

text \<open>The stream the summary stands for.\<close>

definition summary_step :: "asmtest_helper list \<Rightarrow> int list \<Rightarrow> at_val_rec list \<Rightarrow> nat \<Rightarrow> at_val_rec list" where
  "summary_step helpers hi recs s =
     (if hi ! s < 0 then filter (\<lambda>r. vr_step r = s) recs
      else if s = 0 \<or> hi ! (s - 1) \<noteq> hi ! s
           then concat (map (loc_recs (left_value hi recs s) False s) (hp_ins (helpers ! nat (hi ! s)))) @
                concat (map (loc_recs (left_value hi recs s) True s) (hp_outs (helpers ! nat (hi ! s))))
           else [])"

lemma touches_reg_kind: "touches_reg reg r \<Longrightarrow> vr_kind r = AT_LOC_REG"
  by (auto simp: touches_reg_def reg_cells_def rd_cells_def wr_cells_def mem_cells_def zero_rec_def split: if_splits option.splits)

lemma touches_own: "vr_kind r = AT_LOC_REG \<Longrightarrow> vr_is_write r \<Longrightarrow> touches_reg (vr_reg r) r"
proof (cases "reg_slice (vr_reg r)")
  case (Some x)
  assume r: "vr_kind r = AT_LOC_REG" "vr_is_write r"
  obtain c off len where x: "x = (c, off, len)" by (cases x)
  have "GpByte c off \<in> wr_cells r" "GpByte c off \<in> reg_cells (vr_reg r)"
    using reg_slice_bounds [of "vr_reg r" c off len] Some x r(1) by (auto simp: reg_cells_def rd_cells_def wr_cells_def zero_rec_def)
  then show ?thesis using r by (auto simp: touches_reg_def)
qed (simp add: touches_reg_def reg_cells_def rd_cells_def wr_cells_def zero_rec_def)

lemma map_of_rev_last:
  "map_of (rev (map f xs)) k = (let ys = filter (\<lambda>x. fst (f x) = k) xs in if ys = [] then None else Some (snd (f (last ys))))"
  by (induction xs rule: rev_induct) (auto simp: Let_def split: if_splits) 

lemma caller_vals_left:
  assumes "\<And>r. r \<in> set (caller_recs hi recs s) \<Longrightarrow> touches_reg reg r \<Longrightarrow> vr_reg r = reg \<and> vr_value_valid r"
  shows "caller_vals hi recs s reg = left_value hi recs s reg"
proof -
  let ?c = "caller_recs hi recs s"
  have "filter (\<lambda>r. vr_reg r = reg) (filter (\<lambda>r. vr_kind r = AT_LOC_REG \<and> vr_is_write r \<and> vr_value_valid r) ?c) = filter (touches_reg reg) ?c"
    using assms touches_reg_kind touches_own by (auto simp: touches_reg_def [of reg] intro!: filter_cong)
  then show ?thesis by (simp add: caller_vals_def carried_def map_of_rev_last left_value_def Let_def)
qed

lemma summary_step_tracked:
  assumes "pointers_tracked helpers hi recs" "s < length hi" "0 \<le> hi ! s \<Longrightarrow> nat (hi ! s) < length helpers"
  shows "sum_step helpers hi recs s = summary_step helpers hi recs s"
proof (cases "hi ! s < 0")
  case False
  let ?H = "helpers ! nat (hi ! s)"
  have H: "?H \<in> set helpers" using False assms(3) by simp
  have sub: "set (caller_recs hi recs s) \<subseteq> set (caller_recs hi recs (length hi))"
    using assms(2) by (fastforce simp: caller_recs_def)
  have "loc_recs (caller_vals hi recs s) w s l = loc_recs (left_value hi recs s) w s l" if "l \<in> set (hp_ins ?H @ hp_outs ?H)" for l w
  proof (cases "hl_kind l")
    case AT_HELPER_MEM_AT_REG
    then have "caller_vals hi recs s (hl_reg l) = left_value hi recs s (hl_reg l)"
      using assms(1) H that sub by (intro caller_vals_left) (auto simp: pointers_tracked_def)
    then show ?thesis by (simp add: loc_recs_def)
  qed (simp add: loc_recs_def)
  then have "concat (map (loc_recs (caller_vals hi recs s) w s) ls) = concat (map (loc_recs (left_value hi recs s) w s) ls)" if "ls \<in> {hp_ins ?H, hp_outs ?H}" for w ls
    using that by (intro arg_cong [of _ _ concat] map_cong) auto
  with False show ?thesis unfolding sum_step_def summary_step_def run_start_def by simp
qed (simp add: sum_step_def summary_step_def)

lemma step_helper_bound:
  assumes "length helpers < 2 ^ 31"
  shows "0 \<le> step_helper methods helpers pc \<Longrightarrow> nat (step_helper methods helpers pc) < length helpers"
proof -
  have "nat (match_loop 0 helpers n) < length helpers" if "0 \<le> match_loop 0 helpers n" for n
    using match_loop_spec [of 0 helpers n] assms that by auto
  then show "0 \<le> step_helper methods helpers pc \<Longrightarrow> nat (step_helper methods helpers pc) < length helpers"
    by (auto simp: step_helper_def asmtest_helper_match_def Let_def split: if_splits option.splits)
qed


text \<open>Step 0 loads RDI, steps 1 and 2 run inside \<^verbatim>\<open>JIT_New\<close>, step 3 reads RAX.\<close>

abbreviation demo_methods :: "asmtest_method list" where
  "demo_methods \<equiv> [\<lparr>me_addr = 0x100, me_size = 0x10, me_name = Some ''JIT_NewS'', me_version = 0\<rparr>]"

abbreviation demo_steps :: "vstep list" where
  "demo_steps \<equiv> [(0, [demo_rec 39 True]), (0x100, [demo_rec 40 True]), (0x104, [demo_rec 35 True]), (9, [demo_rec 35 False])]"

lemma demo_hi: "helper_steps demo_methods DEFAULT_HELPERS (map fst demo_steps) = [-1, 1, 1, -1]"
  by (simp add: step_helper_def asmtest_method_resolve_pc_def resolve_step_def method_owns_def to_int32_def
      asmtest_helper_match_def DEFAULT_HELPERS_def strncmp_eq_def Let_def)

lemma demo_stamped:
  "stamped demo_steps = [demo_rec 39 True, (demo_rec 40 True)\<lparr>vr_step := 1\<rparr>, (demo_rec 35 True)\<lparr>vr_step := 2\<rparr>,
     (demo_rec 35 False)\<lparr>vr_step := 3\<rparr>]"
  by (simp add: stamped_def)

lemma demo_stream:
  "concat (map (sum_step DEFAULT_HELPERS [-1, 1, 1, -1] (stamped demo_steps)) [0..<4]) =
   [demo_rec 39 True, zero_rec\<lparr>vr_step := 1, vr_is_write := False, vr_reg := 39\<rparr>,
    zero_rec\<lparr>vr_step := 1, vr_is_write := True, vr_reg := 35\<rparr>, (demo_rec 35 False)\<lparr>vr_step := 3\<rparr>]"
proof -
  have "[0..<4] = [0, 1, 2, 3::nat]" by (simp add: upt_rec)
  then show ?thesis unfolding demo_stamped
    by (simp add: sum_step_def run_start_def DEFAULT_HELPERS_def reg_loc_def loc_recs_def)
qed

text \<open>Step 0 loads the address 4096 into RDI, step 1 runs \<^verbatim>\<open>JIT_WriteBarrier\<close>, step 2 reads the memory there.\<close>

abbreviation wb_methods :: "asmtest_method list" where
  "wb_methods \<equiv> [\<lparr>me_addr = 0x100, me_size = 0x10, me_name = Some ''JIT_WriteBarrier'', me_version = 0\<rparr>]"

abbreviation wb_load :: at_val_rec where
  "wb_load \<equiv> \<lparr>vr_kind = AT_LOC_REG, vr_reg = 39, vr_base = 0, vr_index = 0, vr_scale = 0, vr_disp = 0, vr_addr = 0, vr_size = 8, vr_is_write = True,
     vr_value_valid = True, vr_wide = False, vr_wide_off = 0, vr_value = 4096, vr_step = 0\<rparr>"

abbreviation wb_use :: "nat \<Rightarrow> at_val_rec" where
  "wb_use s \<equiv> \<lparr>vr_kind = AT_LOC_MEM_ABS, vr_reg = 0, vr_base = 0, vr_index = 0, vr_scale = 0, vr_disp = 0, vr_addr = 4096, vr_size = 8, vr_is_write = False,
     vr_value_valid = False, vr_wide = False, vr_wide_off = 0, vr_value = 0, vr_step = s\<rparr>"

abbreviation wb_steps :: "vstep list" where
  "wb_steps \<equiv> [(0, [wb_load]), (0x100, [demo_rec 40 True]), (9, [wb_use 0])]"

lemma wb_hi: "helper_steps wb_methods DEFAULT_HELPERS (map fst wb_steps) = [-1, 3, -1]"
  by (simp add: step_helper_def asmtest_method_resolve_pc_def resolve_step_def method_owns_def to_int32_def
      asmtest_helper_match_def DEFAULT_HELPERS_def strncmp_eq_def Let_def)

lemma wb_stamped: "stamped wb_steps = [wb_load, (demo_rec 40 True)\<lparr>vr_step := 1\<rparr>, wb_use 2]"
  by (simp add: stamped_def)

lemma wb_regs: "reg_slice 39 = Some (39, 0, 8)"
  by (simp add: reg_slice_def reg_container_def reg_groups_def reg_shape_def regs64_def regs32_def regs16_def regs8lo_def regs8hi_def)

lemma wb_touches: "touches_reg 39 wb_load"
  using touches_own [of wb_load] by simp

lemma wb_callers: "caller_recs [-1, 3, -1] (stamped wb_steps) (Suc 0) = [wb_load]" "caller_recs [-1, 3, -1] (stamped wb_steps) (Suc (Suc (Suc 0))) = [wb_load, wb_use 2]"
  unfolding wb_stamped by (simp_all add: caller_recs_def upt_rec)

lemma wb_tracked: "pointers_tracked DEFAULT_HELPERS [-1, 3, -1] (stamped wb_steps)"
  using touches_reg_kind [of _ "wb_use 2"]
  by (auto simp: pointers_tracked_def wb_callers DEFAULT_HELPERS_def reg_loc_def mem_loc_def)

lemma wb_summary:
  "concat (map (summary_step DEFAULT_HELPERS [-1, 3, -1] (stamped wb_steps)) [0..<3]) =
   [wb_load, zero_rec\<lparr>vr_step := 1, vr_is_write := False, vr_reg := 43\<rparr>,
    zero_rec\<lparr>vr_step := 1, vr_is_write := True, vr_kind := AT_LOC_MEM_ABS, vr_addr := 4096, vr_size := 8\<rparr>, wb_use 2]"
proof -
  have u: "[0..<3] = [0, 1, 2::nat]" by (simp add: upt_rec)
  have v: "left_value [-1, 3, -1] (stamped wb_steps) (Suc 0) 39 = Some 4096" by (simp add: left_value_def wb_callers wb_touches)
  show ?thesis unfolding u using v [unfolded wb_stamped] unfolding wb_stamped
    by (simp add: summary_step_def DEFAULT_HELPERS_def reg_loc_def mem_loc_def loc_recs_def)
qed


text \<open>
  Helper bodies are opaque. Every edge of the summarized graph of a trace whose records are in step
  order joins steps outside the helpers and first steps of helper runs; an edge into a helper run is for
  one of the helper's declared inputs, and an edge out of one is supplied by one of its declared outputs.
\<close>

theorem helper_runs_opaque:
  assumes "methods \<noteq> []" "helpers \<noteq> []" "sorted (map vr_step (buf_of (vt_recs v)))" "vt_steps_len v < 2 ^ 32"
    "vt_recs_len v \<le> 2 ^ 44"
  defines "hi \<equiv> helper_steps methods helpers (buf_of (vt_insn_off v))" and "recs \<equiv> buf_of (vt_recs v)"
  assumes "length (concat (map (sum_step helpers hi recs) [0..<vt_steps_len v])) \<le> 2 ^ 44"
    and "asmtest_defuse_build_summarized [] (Some v) methods helpers = (Some g, h')" and "e \<in> set (dg_edges g)"
  shows "(hi ! de_from_step e < 0 \<or> run_start hi (de_from_step e)) \<and> (hi ! de_to_step e < 0 \<or> run_start hi (de_to_step e)) \<and>
    (run_start hi (de_to_step e) \<longrightarrow>
       (\<exists>l\<in>set (hp_ins (helpers ! nat (hi ! de_to_step e))).
          de_loc e \<in> set (loc_recs (caller_vals hi recs (de_to_step e)) False (de_to_step e) l))) \<and>
    (run_start hi (de_from_step e) \<longrightarrow>
       (\<exists>l\<in>set (hp_outs (helpers ! nat (hi ! de_from_step e))).
          \<exists>w\<in>set (loc_recs (caller_vals hi recs (de_from_step e)) True (de_from_step e) l).
            set (wr_locs w) \<inter> set (rd_locs (de_loc e)) \<noteq> {}))"
proof -
  let ?n = "vt_steps_len v"
  define out where "out = sum_stream helpers hi recs ?n"
  have "length out \<le> 2 ^ 44" using assms(8) by (simp add: out_def sum_stream_def)
  then have "e \<in> set (defuse_spec out ?n)"
    using build_summarized_spec [OF assms(1-5)] assms(9,10) unfolding hi_def recs_def out_def by auto
  then have e: "de_loc e \<in> set out" "vr_step (de_loc e) = de_to_step e" "\<not> vr_is_write (de_loc e)"
    and "\<exists>l\<in>set (rd_locs (de_loc e)). last_writer out (de_to_step e) l = Some (de_from_step e)"
    by (auto simp: in_defuse_spec)
  then obtain l w where w: "l \<in> set (rd_locs (de_loc e))" "w \<in> set out" "vr_step w = de_from_step e" "vr_is_write w"
    "l \<in> set (wr_locs w)" by (auto simp: last_writer_Some writes_at_def)
  have mem: "r \<in> set (sum_step helpers hi recs (vr_step r))" if "r \<in> set out" for r
    using that by (auto simp: out_def sum_stream_def dest: sum_step_at)
  note m1 = mem [OF e(1), unfolded e(2)] and m2 = mem [OF w(2), unfolded w(3)]
  have side: "\<not> vr_is_write r" if "r \<in> set (loc_recs vals False s q)" for r vals s q
    using that by (auto simp: loc_recs_def zero_rec_def split: if_splits option.splits)
  have side': "vr_is_write r" if "r \<in> set (loc_recs vals True s q)" for r vals s q
    using that by (auto simp: loc_recs_def zero_rec_def split: if_splits option.splits)
  show ?thesis
    using m1 m2 e(3) w(1,4,5) by (auto simp: sum_step_def run_start_def split: if_splits dest: side side')
qed

abbreviation demo_val :: asmtest_valtrace where
  "demo_val \<equiv> (fresh_valtrace 4 16)\<lparr>vt_insn_off := Some (map fst demo_steps), vt_recs := Some (stamped demo_steps)\<rparr>"

theorem helper_runs_opaque_witness:
  "\<exists>g e. asmtest_defuse_build_summarized [] (Some demo_val) demo_methods DEFAULT_HELPERS = (Some g, []) \<and>
     e \<in> set (dg_edges g) \<and> de_from_step e = 1 \<and> de_to_step e = 3 \<and>
     (\<exists>l\<in>set (hp_outs (DEFAULT_HELPERS ! 1)). \<exists>w\<in>set (loc_recs (caller_vals [-1, 1, 1, -1] (stamped demo_steps) 1) True 1 l).
        set (wr_locs w) \<inter> set (rd_locs (de_loc e)) \<noteq> {})"
proof -
  let ?out = "[demo_rec 39 True, zero_rec\<lparr>vr_step := 1, vr_is_write := False, vr_reg := 39\<rparr>,
    zero_rec\<lparr>vr_step := 1, vr_is_write := True, vr_reg := 35\<rparr>, (demo_rec 35 False)\<lparr>vr_step := 3\<rparr>]"
  let ?e = "mk_edge 3 ((demo_rec 35 False)\<lparr>vr_step := 3\<rparr>) 1" and ?g = "\<lparr>dg_edges = defuse_spec ?out 4, dg_nsteps = 4\<rparr>"
  have v: "buf_of (vt_insn_off demo_val) = map fst demo_steps" "buf_of (vt_recs demo_val) = stamped demo_steps"
    "length (map fst demo_steps) = 4" by simp_all
  have h: "demo_methods \<noteq> []" "DEFAULT_HELPERS \<noteq> []" "sorted (map vr_step (buf_of (vt_recs demo_val)))"
    "vt_steps_len demo_val < 2 ^ 32" "vt_recs_len demo_val \<le> 2 ^ 44"
    by (simp_all add: DEFAULT_HELPERS_def demo_stamped)
  have len: "length (concat (map (sum_step DEFAULT_HELPERS [-1, 1, 1, -1] (stamped demo_steps)) [0..<4])) \<le> 2 ^ 44"
    unfolding demo_stream by simp
  have b: "asmtest_defuse_build_summarized [] (Some demo_val) demo_methods DEFAULT_HELPERS = (Some ?g, [])"
    using build_summarized_spec [OF h] len unfolding v sum_stream_def demo_hi demo_stream by simp
  have s: "reg_slice 35 = Some (35, 0, 8)" "reg_slice 39 = Some (39, 0, 8)"
    by (simp_all add: reg_slice_def reg_container_def reg_groups_def reg_shape_def regs64_def regs32_def
        regs16_def regs8lo_def regs8hi_def)
  have "(2, 8960) \<in> set (rd_locs (de_loc ?e))" by (simp add: rd_locs_def s byte_locs_def upt_rec)
  moreover have "last_writer ?out 3 (2, 8960) = Some 1"
    by (auto simp: last_writer_Some writes_at_def wr_locs_def s byte_locs_def zero_rec_def upt_rec)
  ultimately have e: "?e \<in> set (dg_edges ?g)" unfolding asmtest_defuse.simps in_defuse_spec by auto
  from helper_runs_opaque [OF h _ b e] len show ?thesis
    unfolding v demo_hi using b e by (intro exI [of _ ?g] exI [of _ ?e]) (simp add: run_start_def)
qed

lemma concat_at_step: "sorted (map vr_step recs) \<Longrightarrow> concat (map (at_step recs) [0..<n]) = filter (\<lambda>r. vr_step r < n) recs"
proof (induction n)
  case (Suc n)
  have "filter (\<lambda>r. vr_step r < n) recs @ at_step recs n = filter (\<lambda>r. vr_step r < Suc n) recs"
    using Suc.prems
  proof (induction recs)
    case (Cons r recs)
    have "filter (\<lambda>r. vr_step r < n) recs = []" if "n \<le> vr_step r"
      using Cons.prems that by (force simp: filter_empty_conv)
    with Cons show ?case by auto
  qed simp
  with Suc show ?case by simp
qed simp

text \<open>
  Nothing is invented. When no step of a trace with records in step order resolves to a known helper,
  the summarizing builder returns the plain def-use graph.
\<close>

theorem summarized_plain:
  assumes "sorted (map vr_step (buf_of (vt_recs v)))" "vt_steps_len v < 2 ^ 32" "vt_recs_len v \<le> 2 ^ 44"
    and "\<And>r. r \<in> set (buf_of (vt_recs v)) \<Longrightarrow> vr_step r < vt_steps_len v"
    and "\<And>pc. pc \<in> set (buf_of (vt_insn_off v)) \<Longrightarrow> step_helper methods helpers pc < 0"
  shows "asmtest_defuse_build_summarized [] (Some v) methods helpers = asmtest_defuse_build [] (Some v)"
proof (cases "methods = [] \<or> helpers = []")
  case False
  let ?hi = "helper_steps methods helpers (buf_of (vt_insn_off v))" and ?recs = "buf_of (vt_recs v)"
  have "sum_stream helpers ?hi ?recs (vt_steps_len v) = concat (map (at_step ?recs) [0..<vt_steps_len v])"
    using assms(5) by (auto simp: sum_stream_def sum_step_def intro!: arg_cong [of _ _ concat])
  also have "\<dots> = ?recs" using assms(4) by (simp add: concat_at_step [OF assms(1)] filter_id_conv)
  finally show ?thesis
    using build_summarized_spec [of methods helpers v] defuse_build_spec [OF assms(1-3)] assms(1-3) False by simp
qed (auto simp: asmtest_defuse_build_summarized_def)

theorem summarized_plain_witness:
  "asmtest_defuse_build_summarized [] (Some demo_trace) demo_methods DEFAULT_HELPERS = asmtest_defuse_build [] (Some demo_trace)"
  by (rule summarized_plain)
    (auto simp: step_helper_def asmtest_method_resolve_pc_def resolve_step_def method_owns_def)

text \<open>
  The register-value map is keyed on the bare register id, so a write of EDI (id 23), which replaces
  all of RDI for the def-use builder, leaves the pointer known for RDI (id 39) as it was.
\<close>

lemma edi_write_leaves_rdi_known:
  assumes "hi ! s < 0" "at_step recs s = [r]" "vr_reg r = 23"
  shows "caller_vals hi recs (Suc s) HLP_X86_RDI = caller_vals hi recs s HLP_X86_RDI"
  using assms by (auto simp: caller_vals_Suc carried_def map_add_def)

end
