(* ===== verification/Glob.thy ===== *)
theory Glob
  imports Prelude "HOL-Library.Sublist"
begin

text \<open>
  The test-name filter's glob matcher, \<^verbatim>\<open>src/src/glob_match.c\<close>. A C string is the list of its
  characters, a pointer into it the suffix it points at, \<^verbatim>\<open>'\0'\<close> the empty suffix. The matcher's main
  loop is a partial function: the lemmas show that it returns for every pattern and text, and that
  its answer is that of the declarative matcher \<open>gmatch\<close> on the pattern's tokens, in which a star is
  tried at every position.
\<close>

section \<open>Operations\<close>

abbreviation "BSL \<equiv> CHR 0x5C"

definition skip_neg :: "string \<Rightarrow> string" where
  "skip_neg p = (case p of c # p' \<Rightarrow> if c = CHR ''!'' \<or> c = CHR ''^'' then p' else p | [] \<Rightarrow> p)"

fun class_scan :: "string \<Rightarrow> string option" where
  "class_scan [] = None"
| "class_scan [c] = (if c = CHR '']'' then Some [c] else None)"
| "class_scan (c # d # p) =
     (if c = CHR '']'' then Some (c # d # p)
      else if c = BSL then class_scan p else class_scan (d # p))"

definition skip_bracket :: "string \<Rightarrow> string" where
  "skip_bracket p = (case p of c # p' \<Rightarrow> if c = CHR '']'' then p' else p | [] \<Rightarrow> p)"

definition class_end :: "string \<Rightarrow> string option" where
  "class_end p = class_scan (skip_bracket (skip_neg p))"

text \<open>One member or range end: an escaped character or a plain one.\<close>

fun class_char :: "string \<Rightarrow> char \<times> string" where
  "class_char (c # d # p) = (if c = BSL then (d, p) else (c, d # p))"
| "class_char [c] = (c, [])"
| "class_char [] = (CHR 0x00, [])"

lemma class_char_shorter: "p \<noteq> [] \<Longrightarrow> length (snd (class_char p)) < length p"
  by (cases p rule: class_char.cases) auto

definition uchar_le :: "char \<Rightarrow> char \<Rightarrow> bool" where
  "uchar_le a b \<longleftrightarrow> (of_char a :: nat) \<le> of_char b"

definition range_follows :: "string \<Rightarrow> bool" where
  "range_follows q = (case q of d # h # _ \<Rightarrow> d = CHR ''-'' \<and> h \<noteq> CHR '']'' | _ \<Rightarrow> False)"

lemma range_followsE:
  assumes "range_follows q"
  obtains h hs where "q = CHR ''-'' # h # hs" "h \<noteq> CHR '']''"
  using assms by (auto simp: range_follows_def split: list.splits)

text \<open>The member loop; the second result is where it stopped.\<close>

function class_loop :: "char \<Rightarrow> string \<Rightarrow> bool \<Rightarrow> bool \<times> string" where
  "class_loop c p matched =
     (if p = [] \<or> hd p = CHR '']'' then (matched, p)
      else let lo = fst (class_char p); q = snd (class_char p) in
        if range_follows q
        then let hi = fst (class_char (tl q)); r = snd (class_char (tl q)) in
             class_loop c r (matched \<or> (uchar_le lo c \<and> uchar_le c hi))
        else class_loop c q (matched \<or> c = lo))"
  by auto
termination
proof (relation "measure (\<lambda>(c, p, m). length p)", goal_cases)
  case (2 c p matched lo q hi r)
  then have "length q < length p" using class_char_shorter [of p] by auto
  moreover have "length r < length q"
    using 2 class_char_shorter [of "tl q"] by (auto elim!: range_followsE)
  ultimately show ?case by simp
next
  case (3 c p matched lo q)
  then show ?case using class_char_shorter [of p] by auto
qed simp

declare class_loop.simps [simp del]

text \<open>The result and the position just past the closing bracket.\<close>

definition match_class :: "string \<Rightarrow> char \<Rightarrow> bool \<times> string" where
  "match_class p c =
     (let negate = (skip_neg p \<noteq> p);
          p1 = skip_neg p;
          m0 = (p1 \<noteq> [] \<and> hd p1 = CHR '']'' \<and> c = CHR '']'')
      in case class_loop c (skip_bracket p1) m0 of (matched, r) \<Rightarrow>
           (if negate then \<not> matched else matched, skip_bracket r))"

text \<open>
  The main loop. \<open>star\<close> holds the two saved positions, pattern and text; falling back moves the text
  position one character on. \<open>None\<close> is a loop that never returns.
\<close>

type_synonym saved = "(string \<times> string) option"

partial_function (option) glob_loop :: "string \<Rightarrow> string \<Rightarrow> saved \<Rightarrow> bool option" where
  "glob_loop pattern str star =
     (if str = [] then Some (dropWhile (\<lambda>c. c = CHR ''*'') pattern = [])
      else if pattern \<noteq> [] \<and> hd pattern = CHR ''?'' then glob_loop (tl pattern) (tl str) star
      else if pattern \<noteq> [] \<and> hd pattern = CHR ''*'' then glob_loop (tl pattern) str (Some (tl pattern, str))
      else if pattern \<noteq> [] \<and> hd pattern = CHR ''['' \<and> class_end (tl pattern) \<noteq> None then
        (if fst (match_class (tl pattern) (hd str))
         then glob_loop (snd (match_class (tl pattern) (hd str))) (tl str) star
         else case star of None \<Rightarrow> Some False
              | Some (sp, ss) \<Rightarrow> glob_loop sp (tl ss) (Some (sp, tl ss)))
      else if pattern \<noteq> [] \<and> hd pattern = BSL then
        (if tl pattern = [] then Some False
         else if hd (tl pattern) = hd str then glob_loop (tl (tl pattern)) (tl str) star
         else case star of None \<Rightarrow> Some False
              | Some (sp, ss) \<Rightarrow> glob_loop sp (tl ss) (Some (sp, tl ss)))
      else if pattern \<noteq> [] \<and> hd pattern = hd str then glob_loop (tl pattern) (tl str) star
      else case star of None \<Rightarrow> Some False
           | Some (sp, ss) \<Rightarrow> glob_loop sp (tl ss) (Some (sp, tl ss)))"

definition asmtest_glob_match :: "string \<Rightarrow> string \<Rightarrow> bool option" where
  "asmtest_glob_match pattern str = glob_loop pattern str None"

section \<open>Tokens\<close>

datatype gtok = Any | Star | Class bool "(char \<times> char) list" | Lit char | Dangling

text \<open>The members of a class: ranges, with a single character as the range from itself to itself.\<close>

function class_items :: "string \<Rightarrow> (char \<times> char) list" where
  "class_items p =
     (if p = [] \<or> hd p = CHR '']'' then []
      else let lo = fst (class_char p); q = snd (class_char p) in
        if range_follows q
        then (lo, fst (class_char (tl q))) # class_items (snd (class_char (tl q)))
        else (lo, lo) # class_items q)"
  by auto
termination
proof (relation "measure length", goal_cases)
  case (2 p lo q)
  then have "length q < length p" using class_char_shorter [of p] by auto
  moreover have "length (snd (class_char (tl q))) < length q"
    using 2 class_char_shorter [of "tl q"] by (auto elim!: range_followsE)
  ultimately show ?case by simp
next
  case (3 p lo q)
  then show ?case using class_char_shorter [of p] by auto
qed simp

declare class_items.simps [simp del]

text \<open>A class token: negated or not, and its members; a bracket in first place is a member.\<close>

definition class_tok :: "string \<Rightarrow> gtok" where
  "class_tok p =
     (let p1 = skip_neg p;
          b = (if p1 \<noteq> [] \<and> hd p1 = CHR '']'' then [(CHR '']'', CHR '']'')] else [])
      in Class (p1 \<noteq> p) (b @ class_items (skip_bracket p1)))"

lemma class_scan_shorter: "class_scan p = Some e \<Longrightarrow> length e \<le> length p"
  by (induction p rule: class_scan.induct) (auto split: if_splits)

lemma skip_shorter: "length (skip_neg p) \<le> length p" "length (skip_bracket p) \<le> length p"
  by (auto simp: skip_neg_def skip_bracket_def split: list.split)

lemma class_end_shorter: "class_end p = Some e \<Longrightarrow> length e \<le> length p"
  using class_scan_shorter [of "skip_bracket (skip_neg p)" e] skip_shorter [of p] skip_shorter [of "skip_neg p"]
  by (simp add: class_end_def)

function tokens :: "string \<Rightarrow> gtok list" where
  "tokens [] = []"
| "tokens (c # p) =
     (if c = CHR ''?'' then Any # tokens p
      else if c = CHR ''*'' then Star # tokens p
      else if c = CHR ''['' \<and> class_end p \<noteq> None then class_tok p # tokens (tl (the (class_end p)))
      else if c = BSL then (if p = [] then [Dangling] else Lit (hd p) # tokens (tl p))
      else Lit c # tokens p)"
  by pat_completeness auto
termination
proof (relation "measure length", goal_cases)
  case (4 c p)
  then obtain e where "class_end p = Some e" by auto
  with class_end_shorter [of p e] show ?case by (auto simp: le_imp_less_Suc)
qed auto

fun tok_ok :: "gtok \<Rightarrow> char \<Rightarrow> bool" where
  "tok_ok Any c \<longleftrightarrow> True"
| "tok_ok Star c \<longleftrightarrow> False"
| "tok_ok (Class neg rs) c \<longleftrightarrow> neg \<noteq> (\<exists>(lo, hi) \<in> set rs. uchar_le lo c \<and> uchar_le c hi)"
| "tok_ok (Lit x) c \<longleftrightarrow> x = c"
| "tok_ok Dangling c \<longleftrightarrow> False"

fun gmatch :: "gtok list \<Rightarrow> string \<Rightarrow> bool" where
  "gmatch [] s \<longleftrightarrow> s = []"
| "gmatch (t # ts) s \<longleftrightarrow>
     (if t = Star then \<exists>v\<in>set (suffixes s). gmatch ts v
      else s \<noteq> [] \<and> tok_ok t (hd s) \<and> gmatch ts (tl s))"

section \<open>Classes\<close>

lemma uchar_le_antisym: "uchar_le a c \<and> uchar_le c a \<longleftrightarrow> c = a"
  by (auto simp: uchar_le_def)

abbreviation in_items :: "char \<Rightarrow> (char \<times> char) list \<Rightarrow> bool" where
  "in_items c rs \<equiv> \<exists>(lo, hi) \<in> set rs. uchar_le lo c \<and> uchar_le c hi"

lemma class_loop_matched: "fst (class_loop c p m) \<longleftrightarrow> m \<or> in_items c (class_items p)"
proof (induction c p m rule: class_loop.induct)
  case (1 c p m)
  show ?case
  proof (cases "p = [] \<or> hd p = CHR '']''")
    case True
    then show ?thesis by (simp add: class_loop.simps [of c p] class_items.simps [of p])
  next
    case False
    let ?q = "snd (class_char p)"
    show ?thesis
    proof (cases "range_follows ?q")
      case True
      with False "1.IH"(1) [OF False refl refl True refl refl] show ?thesis
        by (auto simp: class_loop.simps [of c p] class_items.simps [of p] Let_def)
    next
      case F2: False
      with False "1.IH"(2) [OF False refl refl F2] show ?thesis
        using uchar_le_antisym [of "fst (class_char p)" c]
        by (auto simp: class_loop.simps [of c p] class_items.simps [of p] Let_def)
    qed
  qed
qed

text \<open>The span finder and the matcher stop at the same bracket.\<close>

lemma class_scan_char: "p \<noteq> [] \<Longrightarrow> hd p \<noteq> CHR '']'' \<Longrightarrow> class_scan p = class_scan (snd (class_char p))"
  by (cases p rule: class_char.cases) auto

lemma class_scan_dash: "class_scan (CHR ''-'' # h # hs) = class_scan (h # hs)"
  by simp

lemma class_scan_hd: "class_scan p = Some e \<Longrightarrow> e \<noteq> [] \<and> hd e = CHR '']''"
  by (induction p rule: class_scan.induct) (auto split: if_splits)

lemma class_loop_stop: "class_scan p = Some e \<Longrightarrow> snd (class_loop c p m) = e"
proof (induction c p m rule: class_loop.induct)
  case (1 c p m)
  show ?case
  proof (cases "p = [] \<or> hd p = CHR '']''")
    case True
    then have "class_loop c p m = (m, p)" by (subst class_loop.simps) simp
    moreover have "p = e" using True "1.prems" by (cases p rule: class_scan.cases) auto
    ultimately show ?thesis by simp
  next
    case False
    let ?q = "snd (class_char p)"
    have q: "class_scan ?q = Some e" using class_scan_char [of p] False "1.prems" by auto
    show ?thesis
    proof (cases "range_follows ?q")
      case True
      then obtain h hs where hq: "?q = CHR ''-'' # h # hs" "h \<noteq> CHR '']''" by (rule range_followsE)
      have "class_scan (snd (class_char (tl ?q))) = Some e"
        using q class_scan_char [of "tl ?q"] class_scan_dash [of h hs] hq by simp
      with False True "1.IH"(1) [OF False refl refl True refl refl] show ?thesis
        by (simp add: class_loop.simps [of c p] Let_def)
    next
      case F2: False
      with False "1.IH"(2) [OF False refl refl F2 q] show ?thesis
        by (simp add: class_loop.simps [of c p] Let_def)
    qed
  qed
qed

lemma match_class_tok:
  assumes "class_end p = Some e"
  shows "match_class p c = (tok_ok (class_tok p) c, tl e)"
proof -
  let ?p1 = "skip_neg p"
  let ?m0 = "?p1 \<noteq> [] \<and> hd ?p1 = CHR '']'' \<and> c = CHR '']''"
  have s: "class_scan (skip_bracket ?p1) = Some e" using assms by (simp add: class_end_def)
  have sk: "skip_bracket e = tl e" using class_scan_hd [OF s] by (cases e) (auto simp: skip_bracket_def)
  obtain mt r where l: "class_loop c (skip_bracket ?p1) ?m0 = (mt, r)"
    by (cases "class_loop c (skip_bracket ?p1) ?m0")
  then have "r = e" using class_loop_stop [OF s, of c ?m0] by simp
  moreover have "mt \<longleftrightarrow> ?m0 \<or> in_items c (class_items (skip_bracket ?p1))"
    using class_loop_matched [of c "skip_bracket ?p1" ?m0] l by simp
  ultimately show ?thesis
    using l sk uchar_le_antisym [of "CHR '']''" c] by (auto simp: match_class_def class_tok_def Let_def)
qed

section \<open>The loop\<close>

lemma gmatch_nil: "gmatch ts [] \<longleftrightarrow> (\<forall>t\<in>set ts. t = Star)"
  by (induction ts) auto

lemma tokens_stars: "(\<forall>t\<in>set (tokens p). t = Star) \<longleftrightarrow> dropWhile (\<lambda>c. c = CHR ''*'') p = []"
  by (induction p rule: tokens.induct) (auto simp: class_tok_def Let_def)

lemma gmatch_star_suffix: "gmatch (Star # ts) s \<Longrightarrow> suffix s s' \<Longrightarrow> gmatch (Star # ts) s'"
  by (auto dest: suffix_order.trans)

text \<open>A star-free prefix consumes one character per token.\<close>

lemma gmatch_append:
  "Star \<notin> set seg \<Longrightarrow> gmatch (seg @ ts) v \<Longrightarrow> \<exists>w s. v = w @ s \<and> length w = length seg \<and> gmatch ts s"
proof (induction seg arbitrary: v)
  case (Cons t seg)
  then have "v \<noteq> []" "gmatch (seg @ ts) (tl v)" by auto
  with Cons.IH [of "tl v"] Cons.prems(1) obtain w s where "tl v = w @ s" "length w = length seg" "gmatch ts s"
    by auto
  with \<open>v \<noteq> []\<close> show ?case by (intro exI [of _ "hd v # w"] exI [of _ s]) (cases v, auto)
qed simp

text \<open>
  What the saved star means: everything since it is a star-free run of tokens over as many characters.
\<close>

fun saved_ok :: "string \<Rightarrow> string \<Rightarrow> saved \<Rightarrow> bool" where
  "saved_ok p s None \<longleftrightarrow> True"
| "saved_ok p s (Some (sp, ss)) \<longleftrightarrow>
     (\<exists>seg w. tokens sp = seg @ tokens p \<and> ss = w @ s \<and> length w = length seg \<and> Star \<notin> set seg)"

fun retry :: "saved \<Rightarrow> bool" where
  "retry None \<longleftrightarrow> False"
| "retry (Some (sp, ss)) \<longleftrightarrow> (\<exists>v. suffix v (tl ss) \<and> gmatch (tokens sp) v)"

lemma saved_advance:
  "saved_ok p (c # s) st \<Longrightarrow> tokens p = t # tokens p' \<Longrightarrow> t \<noteq> Star \<Longrightarrow> saved_ok p' s st"
proof (cases st)
  case (Some a)
  assume a: "saved_ok p (c # s) st" "tokens p = t # tokens p'" "t \<noteq> Star"
  obtain sp ss where a': "a = (sp, ss)" by (cases a)
  with Some a obtain seg w where "tokens sp = seg @ t # tokens p'" "ss = w @ c # s" "length w = length seg" "Star \<notin> set seg"
    by auto
  with Some a' a(3) show ?thesis by (auto intro!: exI [of _ "seg @ [t]"] exI [of _ "w @ [c]"])
qed simp

text \<open>Nothing is lost by forgetting an older star at a newer one.\<close>

lemma retry_newer:
  assumes "saved_ok p s st" "tokens p = Star # ts" "retry st"
  shows "gmatch (Star # ts) s"
proof (cases st)
  case (Some a)
  obtain sp ss where a: "a = (sp, ss)" by (cases a)
  from assms(1,2) Some a obtain seg w where sp: "tokens sp = seg @ Star # ts" "ss = w @ s" "length w = length seg"
    "Star \<notin> set seg" by auto
  from assms(3) Some a obtain v where v: "suffix v (tl ss)" "gmatch (tokens sp) v" by auto
  from gmatch_append [OF sp(4), of "Star # ts" v] v(2) sp(1) obtain w' s' where
    s': "v = w' @ s'" "length w' = length seg" "gmatch (Star # ts) s'" by auto
  have "suffix v ss" using v(1) by (meson suffix_order.trans suffix_tl)
  then have "suffix s' ss" "suffix s ss" using s'(1) sp(2) by (auto simp: suffix_def)
  moreover have "length s' \<le> length s"
    using \<open>suffix v ss\<close> s' sp(2,3) suffix_length_le [of v ss] by simp
  ultimately have "suffix s' s" by (rule suffix_length_suffix)
  with s'(3) show ?thesis by (rule gmatch_star_suffix)
qed (use assms in simp)

lemma retry_at_end:
  assumes "saved_ok p [] st" "retry st"
  shows "gmatch (tokens p) []"
proof (cases st)
  case (Some a)
  obtain sp ss where a: "a = (sp, ss)" by (cases a)
  from assms(1) Some a obtain seg where sp: "tokens sp = seg @ tokens p" "length ss = length seg"
    "Star \<notin> set seg" by auto
  from assms(2) Some a obtain v where v: "suffix v (tl ss)" "gmatch (tokens sp) v" by auto
  from gmatch_append [OF sp(3), of "tokens p" v] v(2) sp(1) obtain w' s' where
    s': "v = w' @ s'" "length w' = length seg" "gmatch (tokens p) s'" by auto
  have "length v \<le> length ss - 1" using v(1) suffix_length_le by fastforce
  with s' sp(2) have "s' = []" by (cases s') auto
  with s'(3) show ?thesis by simp
qed (use assms in simp)

text \<open>The first token of a pattern and what the loop does about it.\<close>

lemma tokens_unfold:
  "p \<noteq> [] \<Longrightarrow> tokens p =
     (if hd p = CHR ''?'' then Any # tokens (tl p)
      else if hd p = CHR ''*'' then Star # tokens (tl p)
      else if hd p = CHR ''['' \<and> class_end (tl p) \<noteq> None
        then class_tok (tl p) # tokens (tl (the (class_end (tl p))))
      else if hd p = BSL then (if tl p = [] then [Dangling] else Lit (hd (tl p)) # tokens (tl (tl p)))
      else Lit (hd p) # tokens (tl p))"
  by (cases p) (simp_all only: tokens.simps list.sel)

definition fall_back :: "saved \<Rightarrow> bool option" where
  "fall_back st = (case st of None \<Rightarrow> Some False | Some (sp, ss) \<Rightarrow> glob_loop sp (tl ss) (Some (sp, tl ss)))"

lemma class_tok_not_Star: "class_tok p \<noteq> Star" "class_tok p \<noteq> Dangling"
  by (simp_all add: class_tok_def Let_def)

lemma glob_loop_step:
  assumes "s \<noteq> []"
  shows "(case tokens p of
       [] \<Rightarrow> glob_loop p s st = fall_back st
     | Star # ts \<Rightarrow> ts = tokens (tl p) \<and> glob_loop p s st = glob_loop (tl p) s (Some (tl p, s))
     | t # ts \<Rightarrow> if tok_ok t (hd s) then \<exists>p'. ts = tokens p' \<and> glob_loop p s st = glob_loop p' (tl s) st
                else glob_loop p s st = fall_back st \<or> (t = Dangling \<and> ts = [] \<and> glob_loop p s st = Some False))"
proof (cases "p = []")
  case True
  then show ?thesis using assms by (subst glob_loop.simps) (simp add: fall_back_def)
next
  case False
  note u = glob_loop.simps [of p s st]
  consider (any) "hd p = CHR ''?''" | (star) "hd p = CHR ''*''"
    | (cls) e where "hd p = CHR ''[''" "class_end (tl p) = Some e"
    | (esc) "hd p = BSL" | (lit) "hd p \<noteq> CHR ''?''" "hd p \<noteq> CHR ''*''" "hd p \<noteq> BSL"
        "\<not> (hd p = CHR ''['' \<and> class_end (tl p) \<noteq> None)" by blast
  then show ?thesis
  proof cases
    case any
    then have "tokens p = Any # tokens (tl p)" using tokens_unfold [OF False] by simp
    with any assms False show ?thesis by (auto simp: u)
  next
    case star
    then have "tokens p = Star # tokens (tl p)" using tokens_unfold [OF False] by simp
    with star assms False show ?thesis by (auto simp: u)
  next
    case cls
    then have tk: "tokens p = class_tok (tl p) # tokens (tl e)" using tokens_unfold [OF False] by simp
    obtain neg rs where ct: "class_tok (tl p) = Class neg rs" by (auto simp: class_tok_def Let_def)
    have "glob_loop p s st = (if tok_ok (class_tok (tl p)) (hd s) then glob_loop (tl e) (tl s) st else fall_back st)"
      using cls False assms by (simp add: u match_class_tok fall_back_def)
    with tk ct show ?thesis by auto
  next
    case esc
    then have tk: "tokens p = (if tl p = [] then [Dangling] else Lit (hd (tl p)) # tokens (tl (tl p)))"
      using tokens_unfold [OF False] by simp
    with esc assms False show ?thesis by (auto simp: u fall_back_def)
  next
    case lit
    then have "tokens p = Lit (hd p) # tokens (tl p)" using tokens_unfold [OF False] by auto
    with lit assms False show ?thesis by (auto simp: u fall_back_def)
  qed
qed

definition glob_measure :: "(string \<times> string \<times> saved) \<Rightarrow> nat \<times> nat \<times> nat" where
  "glob_measure x = (case x of (p, s, st) \<Rightarrow>
     (case st of None \<Rightarrow> (Suc (length (tokens p)), 0, length s)
      | Some (sp, ss) \<Rightarrow> (length (tokens sp), length ss, length s)))"

abbreviation "glob_order \<equiv> inv_image (less_than <*lex*> less_than <*lex*> less_than) glob_measure"

lemma fall_back_ok:
  assumes ih: "\<And>p' s' st'. ((p', s', st'), (p, s, st)) \<in> glob_order \<Longrightarrow> saved_ok p' s' st' \<Longrightarrow>
      glob_loop p' s' st' = Some (gmatch (tokens p') s' \<or> retry st')"
    and ok: "saved_ok p s st" and "s \<noteq> []"
  shows "fall_back st = Some (retry st)"
proof (cases st)
  case (Some a)
  obtain sp ss where a: "a = (sp, ss)" by (cases a)
  have ne: "ss \<noteq> []" using ok Some a \<open>s \<noteq> []\<close> by auto
  have "((sp, tl ss, Some (sp, tl ss)), (p, s, st)) \<in> glob_order"
    using Some a ne by (simp add: glob_measure_def)
  moreover have "saved_ok sp (tl ss) (Some (sp, tl ss))" by auto
  ultimately have "fall_back st = Some (gmatch (tokens sp) (tl ss) \<or> retry (Some (sp, tl ss)))"
    using ih Some a by (simp add: fall_back_def)
  moreover have "retry st \<longleftrightarrow> gmatch (tokens sp) (tl ss) \<or> retry (Some (sp, tl ss))"
    using Some a by (cases "tl ss") (auto simp: suffix_Cons)
  ultimately show ?thesis by simp
qed (simp add: fall_back_def)

lemma gmatch_Dangling: "Dangling \<in> set ts \<Longrightarrow> \<not> gmatch ts v"
  by (induction ts arbitrary: v) (auto split: if_splits)

lemma saved_shorter: "saved_ok p s (Some (sp, ss)) \<Longrightarrow> length (tokens p) \<le> length (tokens sp)"
  by auto

lemma glob_star_case:
  assumes ih: "\<And>p' s' st'. ((p', s', st'), (p, s, st)) \<in> glob_order \<Longrightarrow> saved_ok p' s' st' \<Longrightarrow>
      glob_loop p' s' st' = Some (gmatch (tokens p') s' \<or> retry st')"
    and ok: "saved_ok p s st" and ne: "s \<noteq> []" and tk: "tokens p = Star # tokens (tl p)"
  shows "glob_loop (tl p) s (Some (tl p, s)) = Some (gmatch (tokens p) s \<or> retry st)"
proof -
  have "((tl p, s, Some (tl p, s)), (p, s, st)) \<in> glob_order"
    using tk saved_shorter [of p s] ok by (cases st) (auto simp: glob_measure_def)
  moreover have "saved_ok (tl p) s (Some (tl p, s))" by auto
  ultimately have "glob_loop (tl p) s (Some (tl p, s)) = Some (gmatch (tokens (tl p)) s \<or> retry (Some (tl p, s)))"
    by (rule ih)
  moreover have "gmatch (tokens p) s \<longleftrightarrow> gmatch (tokens (tl p)) s \<or> retry (Some (tl p, s))"
    unfolding tk using ne by (cases s) (auto simp: suffix_Cons)
  moreover have "retry st \<Longrightarrow> gmatch (tokens p) s" using retry_newer [OF ok tk] tk by simp
  ultimately show ?thesis by auto
qed

lemma glob_advance_case:
  assumes ih: "\<And>p' s' st'. ((p', s', st'), (p, s, st)) \<in> glob_order \<Longrightarrow> saved_ok p' s' st' \<Longrightarrow>
      glob_loop p' s' st' = Some (gmatch (tokens p') s' \<or> retry st')"
    and ok: "saved_ok p s st" and ne: "s \<noteq> []" and tk: "tokens p = t # tokens p'" "t \<noteq> Star" "tok_ok t (hd s)"
  shows "glob_loop p' (tl s) st = Some (gmatch (tokens p) s \<or> retry st)"
proof -
  have "((p', tl s, st), (p, s, st)) \<in> glob_order"
    using tk ne by (cases st) (auto simp: glob_measure_def)
  moreover have "saved_ok p' (tl s) st" using saved_advance [of p "hd s" "tl s" st t p'] ok tk ne by simp
  ultimately show ?thesis using ih tk ne by simp
qed

lemma glob_loop_total:
  "saved_ok p s st \<Longrightarrow> glob_loop p s st = Some (gmatch (tokens p) s \<or> retry st)"
proof -
  have "wf glob_order" by (intro wf_inv_image wf_lex_prod wf_less_than)
  then show "saved_ok p s st \<Longrightarrow> glob_loop p s st = Some (gmatch (tokens p) s \<or> retry st)"
  proof (induction "(p, s, st)" arbitrary: p s st rule: wf_induct_rule)
    case less
    note ih = less.hyps
    show ?case
    proof (cases "s = []")
      case True
      then show ?thesis
        using retry_at_end [of p st] less.prems
        by (subst glob_loop.simps) (auto simp: gmatch_nil tokens_stars)
    next
      case False
      note step = glob_loop_step [OF False, of p st] and fb = fall_back_ok [OF ih less.prems False]
      show ?thesis
      proof (cases "tokens p")
        case Nil
        with step fb False show ?thesis by simp
      next
        case (Cons t ts)
        consider "t = Star" | "t \<noteq> Star" "tok_ok t (hd s)" | "t \<noteq> Star" "\<not> tok_ok t (hd s)" by blast
        then show ?thesis
        proof cases
          case 1
          with Cons step have "tokens p = Star # tokens (tl p)" "glob_loop p s st = glob_loop (tl p) s (Some (tl p, s))"
            by auto
          with glob_star_case [OF ih less.prems False] show ?thesis by simp
        next
          case 2
          with Cons step obtain p' where "tokens p = t # tokens p'" "glob_loop p s st = glob_loop p' (tl s) st"
            by (cases t) auto
          with glob_advance_case [OF ih less.prems False _ 2] show ?thesis by simp
        next
          case 3
          have r: "\<not> retry st" if "t = Dangling"
          proof (cases st)
            case (Some a)
            obtain sp ss where a: "a = (sp, ss)" by (cases a)
            then have "Dangling \<in> set (tokens sp)" using less.prems Some Cons that by auto
            with gmatch_Dangling Some a show ?thesis by auto
          qed simp
          from 3 Cons step have "glob_loop p s st = fall_back st \<or> (t = Dangling \<and> glob_loop p s st = Some False)"
            by (cases t) (auto simp del: tok_ok.simps)
          moreover have "\<not> gmatch (tokens p) s" using 3 Cons by simp
          ultimately show ?thesis using fb r by auto
        qed
      qed
    qed
  qed
qed

section \<open>Properties\<close>


text \<open>
  Span agreement. Whenever the look-ahead finds the end of a bracket class, the class matcher,
  whatever character it is given, stops at the same closing bracket, and its verdict is membership
  in the parsed ranges, negated or not.
\<close>

theorem glob_class_span:
  assumes "class_end p = Some e"
  shows "snd (match_class p c) = tl e \<and> hd e = CHR '']'' \<and>
    fst (match_class p c) = tok_ok (class_tok p) c"
proof -
  have "class_scan (skip_bracket (skip_neg p)) = Some e" using assms by (simp add: class_end_def)
  with class_scan_hd match_class_tok [OF assms, of c] show ?thesis by simp
qed

theorem glob_class_span_witness:
  "class_end ''a-f]z'' = Some '']z'' \<and> snd (match_class ''a-f]z'' CHR ''c'') = ''z''"
proof -
  have e: "class_end ''a-f]z'' = Some '']z''"
    by (simp add: class_end_def skip_neg_def skip_bracket_def)
  with glob_class_span [OF e, of "CHR ''c''"] show ?thesis by simp
qed

end
