(* ===== verification/Addr_Channel.thy ===== *)
theory Addr_Channel
  imports Prelude "HOL-Library.Sublist"
begin

text \<open>
  The cross-process JIT-address channel, \<^verbatim>\<open>src/include/asmtest_addr_channel.h\<close>: a single-producer,
  single-consumer ring of \<open>CAP\<close> records with free-running 32-bit counters. The first part takes each
  call as one step and relates the ring to the log of everything published; the second part
  interleaves the two sides at the granularity of single 64-bit accesses.
\<close>

section \<open>Operations\<close>

record addr_rec =
  ar_base :: u64
  ar_len :: u64
  ar_version :: u64

definition CAP :: nat where
  "CAP = 256"

record addr_channel =
  ac_head :: u32
  ac_tail :: u32
  ac_overrun :: u32
  ac_recs :: "addr_rec list"

text \<open>The array is the mapping's; \<^verbatim>\<open>init\<close> resets the counters only.\<close>

definition asmtest_addr_channel_init :: "addr_channel option \<Rightarrow> addr_channel option" where
  "asmtest_addr_channel_init c = map_option (\<lambda>c. c\<lparr>ac_head := 0, ac_tail := 0, ac_overrun := 0\<rparr>) c"

definition publish :: "addr_channel \<Rightarrow> addr_rec \<Rightarrow> addr_channel" where
  "publish c r =
     (let h = ac_head c; slot = unat h mod CAP
      in c\<lparr>ac_recs := (ac_recs c)[slot := r], ac_head := h + 1\<rparr>)"

definition asmtest_addr_channel_publish ::
  "addr_channel option \<Rightarrow> u64 \<Rightarrow> u64 \<Rightarrow> u64 \<Rightarrow> addr_channel option" where
  "asmtest_addr_channel_publish c base len version =
     map_option (\<lambda>c. publish c \<lparr>ar_base = base, ar_len = len, ar_version = version\<rparr>) c"

text \<open>The copy loop; the first argument is what is left of \<^verbatim>\<open>max\<close>.\<close>

fun drain_loop :: "nat \<Rightarrow> addr_rec list \<Rightarrow> u32 \<Rightarrow> u32 \<Rightarrow> addr_rec list \<Rightarrow> addr_rec list \<times> u32" where
  "drain_loop 0 recs h t out = (out, t)"
| "drain_loop (Suc n) recs h t out =
     (if t \<noteq> h then drain_loop n recs h (t + 1) (out @ [recs ! (unat t mod CAP)]) else (out, t))"

definition drain :: "addr_channel \<Rightarrow> u32 \<Rightarrow> addr_rec list \<times> addr_channel" where
  "drain c maxn =
     (if maxn = 0 then ([], c)
      else let h = ac_head c; t = ac_tail c;
               lapped = (h - t > of_nat CAP);
               t1 = (if lapped then h - of_nat CAP else t);
               c1 = (if lapped then c\<lparr>ac_overrun := 1\<rparr> else c)
           in case drain_loop (unat maxn) (ac_recs c1) h t1 [] of (out, t2) \<Rightarrow> (out, c1\<lparr>ac_tail := t2\<rparr>))"

text \<open>\<open>None\<close> for the second argument is a \<^verbatim>\<open>NULL\<close> buffer.\<close>

definition asmtest_addr_channel_drain ::
  "addr_channel option \<Rightarrow> u32 option \<Rightarrow> addr_rec list \<times> addr_channel option" where
  "asmtest_addr_channel_drain c maxn =
     (case (c, maxn) of
        (Some c, Some m) \<Rightarrow> (case drain c m of (out, c') \<Rightarrow> (out, Some c'))
      | _ \<Rightarrow> ([], c))"

definition asmtest_addr_channel_published :: "addr_channel option \<Rightarrow> u32" where
  "asmtest_addr_channel_published c = (case c of None \<Rightarrow> 0 | Some c \<Rightarrow> ac_head c)"

section \<open>The ring and the log\<close>

text \<open>\<open>log\<close> is everything published so far, \<open>pos\<close> how much of it the consumer is past.\<close>

definition chan_inv :: "addr_rec list \<Rightarrow> nat \<Rightarrow> addr_channel \<Rightarrow> bool" where
  "chan_inv log pos c \<longleftrightarrow>
     length (ac_recs c) = CAP \<and> ac_head c = of_nat (length log) \<and> ac_tail c = of_nat pos \<and>
     pos \<le> length log \<and> length log < 2 ^ 32 \<and>
     (\<forall>i<length log. length log \<le> i + CAP \<longrightarrow> ac_recs c ! (i mod CAP) = log ! i)"

lemma u32_small: "n < 2 ^ 32 \<Longrightarrow> unat (of_nat n :: u32) = n"
  by (simp add: unat_of_nat)

lemma publish_inv:
  assumes "chan_inv log pos c" "length log + 1 < 2 ^ 32"
  shows "chan_inv (log @ [r]) pos (publish c r)"
proof -
  have slot: "unat (ac_head c) mod CAP = length log mod CAP"
    using assms by (simp add: chan_inv_def u32_small)
  have "(ac_recs c)[length log mod CAP := r] ! (i mod CAP) = (log @ [r]) ! i"
    if "i < Suc (length log)" "Suc (length log) \<le> i + CAP" for i
  proof (cases "i = length log")
    case True
    then show ?thesis using assms by (simp add: chan_inv_def CAP_def)
  next
    case False
    with that have i: "i < length log" "length log < i + CAP" by auto
    have "i mod CAP \<noteq> length log mod CAP"
    proof
      assume "i mod CAP = length log mod CAP"
      then have "CAP dvd length log - i" using i(1) mod_eq_dvd_iff_nat [of i "length log" CAP] by simp
      moreover have "0 < length log - i" "length log - i < CAP" using i by auto
      ultimately show False using nat_dvd_not_less by blast
    qed
    with i assms(1) show ?thesis by (simp add: chan_inv_def nth_append)
  qed
  with assms slot show ?thesis by (simp add: chan_inv_def publish_def Let_def)
qed

lemma drain_loop_log:
  assumes "length log < 2 ^ 32" "\<forall>i<length log. length log \<le> i + CAP \<longrightarrow> recs ! (i mod CAP) = log ! i"
  shows "pos \<le> length log \<Longrightarrow> length log \<le> pos + CAP \<Longrightarrow>
    drain_loop n recs (of_nat (length log)) (of_nat pos) out =
      (out @ take n (drop pos log), of_nat (min (length log) (pos + n)))"
proof (induction n arbitrary: pos out)
  case (Suc n)
  have ne: "(of_nat pos :: u32) = of_nat (length log) \<longleftrightarrow> pos = length log"
    using assms(1) Suc.prems u32_small by (metis le_less_trans)
  show ?case
  proof (cases "pos = length log")
    case False
    then have p: "pos < length log" using Suc.prems by simp
    have "recs ! (unat (of_nat pos :: u32) mod CAP) = log ! pos"
      using assms p Suc.prems by (simp add: u32_small)
    moreover have "(of_nat pos + 1 :: u32) = of_nat (Suc pos)" by simp
    ultimately show ?thesis
      using Suc.IH [of "Suc pos" "out @ [log ! pos]"] False p Suc.prems ne
      by (simp add: Cons_nth_drop_Suc [symmetric] del: of_nat_Suc)
  qed (simp add: ne)
qed simp

text \<open>Where a drain starts: past what the ring no longer holds.\<close>

definition drain_start :: "addr_rec list \<Rightarrow> nat \<Rightarrow> nat" where
  "drain_start log pos = (if length log - pos > CAP then length log - CAP else pos)"

lemma drain_log:
  assumes "chan_inv log pos c" "maxn \<noteq> 0"
  shows "fst (drain c maxn) = take (unat maxn) (drop (drain_start log pos) log)"
    and "chan_inv log (min (length log) (drain_start log pos + unat maxn)) (snd (drain c maxn))"
    and "ac_overrun (snd (drain c maxn)) = (if length log - pos > CAP then 1 else ac_overrun c)"
proof -
  have i: "ac_head c = of_nat (length log)" "ac_tail c = of_nat pos" "pos \<le> length log" "length log < 2 ^ 32"
    "length (ac_recs c) = CAP" using assms(1) by (auto simp: chan_inv_def)
  have d: "ac_head c - ac_tail c = of_nat (length log - pos)" using i by simp
  have lap: "ac_head c - ac_tail c > of_nat CAP \<longleftrightarrow> length log - pos > CAP"
    unfolding d word_less_nat_alt using i(4) by (simp add: u32_small CAP_def)
  have t1: "(if length log - pos > CAP then ac_head c - of_nat CAP else ac_tail c) = of_nat (drain_start log pos)"
    using i by (auto simp: drain_start_def)
  have s: "drain_start log pos \<le> length log" "length log \<le> drain_start log pos + CAP"
    using i(3) by (auto simp: drain_start_def)
  have r: "\<forall>i<length log. length log \<le> i + CAP \<longrightarrow> ac_recs c ! (i mod CAP) = log ! i"
    using assms(1) by (simp add: chan_inv_def)
  note l = drain_loop_log [OF i(4) r s, of "unat maxn" "[]"]
  have e: "drain c maxn = (take (unat maxn) (drop (drain_start log pos) log),
      (if length log - pos > CAP then c\<lparr>ac_overrun := 1\<rparr> else c)
        \<lparr>ac_tail := of_nat (min (length log) (drain_start log pos + unat maxn))\<rparr>)"
    using assms(2) l i(1) unfolding drain_def Let_def lap t1 by simp
  show "fst (drain c maxn) = take (unat maxn) (drop (drain_start log pos) log)" unfolding e by simp
  show "chan_inv log (min (length log) (drain_start log pos + unat maxn)) (snd (drain c maxn))"
    unfolding e using assms(1) by (auto simp: chan_inv_def)
  show "ac_overrun (snd (drain c maxn)) = (if length log - pos > CAP then 1 else ac_overrun c)"
    unfolding e by simp
qed

section \<open>Sequences of calls\<close>

datatype chan_op = Publish addr_rec | Drain u32

fun chan_run :: "chan_op list \<Rightarrow> addr_channel \<Rightarrow> addr_rec list \<times> addr_channel" where
  "chan_run [] c = ([], c)"
| "chan_run (Publish r # ops) c = chan_run ops (publish c r)"
| "chan_run (Drain m # ops) c =
     (case drain c m of (out, c') \<Rightarrow> case chan_run ops c' of (outs, c'') \<Rightarrow> (out @ outs, c''))"

fun published :: "chan_op list \<Rightarrow> addr_rec list" where
  "published [] = []"
| "published (Publish r # ops) = r # published ops"
| "published (Drain m # ops) = published ops"

lemma drain_split:
  assumes "s \<le> length log"
  shows "take m (drop s log) @ drop (min (length log) (s + m)) (log @ ys) = drop s (log @ ys)"
proof -
  have "drop (min (length log) (s + m)) (log @ ys) = drop (s + m) log @ ys"
    by (auto simp: min_def)
  moreover have "take m (drop s log) @ drop (s + m) log = drop s log"
    by (metis append_take_drop_id drop_drop add.commute)
  ultimately show ?thesis using assms by simp
qed

lemma chan_run_log:
  assumes "chan_inv log pos c" "length log + length (published ops) < 2 ^ 32" "chan_run ops c = (outs, c')"
  shows "\<exists>pos'. chan_inv (log @ published ops) pos' c' \<and>
    subseq (outs @ drop pos' (log @ published ops)) (drop pos (log @ published ops)) \<and>
    (ac_overrun c' = 0 \<longrightarrow> ac_overrun c = 0 \<and>
       outs @ drop pos' (log @ published ops) = drop pos (log @ published ops))"
  using assms
proof (induction ops c arbitrary: log pos outs rule: chan_run.induct)
  case (1 c)
  then show ?case by auto
next
  case (2 r ops c)
  then have "chan_inv (log @ [r]) pos (publish c r)" by (intro publish_inv) auto
  from "2.IH" [OF this, of outs] "2.prems" show ?case by (auto simp: publish_def Let_def)
next
  case (3 m ops c)
  obtain out c1 where d: "drain c m = (out, c1)" by (cases "drain c m")
  obtain outs2 where r: "chan_run ops c1 = (outs2, c')" "outs = out @ outs2"
    using "3.prems"(3) d by (auto split: prod.splits)
  show ?case
  proof (cases "m = 0")
    case True
    then have "out = []" "c1 = c" using d by (auto simp: drain_def)
    with "3.IH" [OF d [symmetric], of log pos outs2] "3.prems" r show ?thesis by auto
  next
    case False
    let ?s = "drain_start log pos" and ?L = "log @ published ops"
    let ?p1 = "min (length log) (?s + unat m)"
    note dl = drain_log [OF "3.prems"(1) False, unfolded d fst_conv snd_conv]
    have pos: "pos \<le> length log" using "3.prems"(1) by (simp add: chan_inv_def)
    have "?s \<le> length log" "pos \<le> ?s" using pos by (auto simp: drain_start_def)
    have sp: "out @ drop ?p1 ?L = drop ?s ?L"
      unfolding dl(1) using \<open>?s \<le> length log\<close> by (rule drain_split)
    from "3.IH" [OF d [symmetric] dl(2), of outs2] "3.prems"(2) r(1) obtain pos' where
      ih: "chan_inv ?L pos' c'" "subseq (outs2 @ drop pos' ?L) (drop ?p1 ?L)"
        "ac_overrun c' = 0 \<longrightarrow> ac_overrun c1 = 0 \<and> outs2 @ drop pos' ?L = drop ?p1 ?L" by auto
    have "subseq (outs @ drop pos' ?L) (drop ?s ?L)"
      unfolding r(2) sp [symmetric] append_assoc using ih(2) by (rule list_emb_append_mono [OF subseq_order.refl])
    moreover have "subseq (drop ?s ?L) (drop pos ?L)"
      using \<open>pos \<le> ?s\<close> by (metis drop_drop le_Suc_ex suffix_drop suffix_imp_subseq add.commute)
    moreover have "outs @ drop pos' ?L = drop pos ?L \<and> ac_overrun c = 0" if o: "ac_overrun c' = 0"
    proof -
      from o ih(3) have o1: "ac_overrun c1 = 0" "outs2 @ drop pos' ?L = drop ?p1 ?L" by auto
      with dl(3) have "\<not> length log - pos > CAP" "ac_overrun c = 0" by (auto split: if_splits)
      then have "?s = pos" by (simp add: drain_start_def)
      with sp o1(2) r(2) \<open>ac_overrun c = 0\<close> show ?thesis by simp
    qed
    ultimately show ?thesis using ih(1) by (auto intro: subseq_order.trans)
  qed
qed

section \<open>Interleaved accesses\<close>

text \<open>
  The producer's call is four stores (three fields of the slot, then the head); the consumer's is the
  load of the head, the copy of each record field by field, and the store of the tail. The lapped
  check of the consumer is done once, on the head it loaded.
\<close>

datatype prod_pc = PIdle | PBase addr_rec | PLen addr_rec | PVer addr_rec

datatype cons_pc = CIdle | CCopy u32 u32 "addr_rec list" | CBase u32 u32 "addr_rec list" u64
  | CLen u32 u32 "addr_rec list" u64 u64 | CDone "addr_rec list"

record gstate =
  g_chan :: addr_channel
  g_prod :: prod_pc
  g_cons :: cons_pc

abbreviation head_slot :: "addr_channel \<Rightarrow> nat" where
  "head_slot c \<equiv> unat (ac_head c) mod CAP"

abbreviation slot_of :: "u32 \<Rightarrow> nat" where
  "slot_of t \<equiv> unat t mod CAP"

definition upd_slot :: "nat \<Rightarrow> (addr_rec \<Rightarrow> addr_rec) \<Rightarrow> addr_channel \<Rightarrow> addr_channel" where
  "upd_slot s f c = c\<lparr>ac_recs := (ac_recs c)[s := f (ac_recs c ! s)]\<rparr>"

inductive chan_step :: "gstate \<Rightarrow> gstate \<Rightarrow> bool" where
  p_base: "g_prod g = PIdle \<Longrightarrow>
     chan_step g (g\<lparr>g_chan := upd_slot (head_slot (g_chan g)) (\<lambda>x. x\<lparr>ar_base := ar_base r\<rparr>) (g_chan g), g_prod := PBase r\<rparr>)"
| p_len: "g_prod g = PBase r \<Longrightarrow>
     chan_step g (g\<lparr>g_chan := upd_slot (head_slot (g_chan g)) (\<lambda>x. x\<lparr>ar_len := ar_len r\<rparr>) (g_chan g), g_prod := PLen r\<rparr>)"
| p_ver: "g_prod g = PLen r \<Longrightarrow>
     chan_step g (g\<lparr>g_chan := upd_slot (head_slot (g_chan g)) (\<lambda>x. x\<lparr>ar_version := ar_version r\<rparr>) (g_chan g), g_prod := PVer r\<rparr>)"
| p_head: "g_prod g = PVer r \<Longrightarrow>
     chan_step g (g\<lparr>g_chan := (g_chan g)\<lparr>ac_head := ac_head (g_chan g) + 1\<rparr>, g_prod := PIdle\<rparr>)"
| c_load: "g_cons g = CIdle \<Longrightarrow> ac_head (g_chan g) - ac_tail (g_chan g) \<le> of_nat CAP \<Longrightarrow>
     chan_step g (g\<lparr>g_cons := CCopy (ac_head (g_chan g)) (ac_tail (g_chan g)) []\<rparr>)"
| c_lapped: "g_cons g = CIdle \<Longrightarrow> ac_head (g_chan g) - ac_tail (g_chan g) > of_nat CAP \<Longrightarrow>
     chan_step g (g\<lparr>g_chan := (g_chan g)\<lparr>ac_overrun := 1\<rparr>,
                    g_cons := CCopy (ac_head (g_chan g)) (ac_head (g_chan g) - of_nat CAP) []\<rparr>)"
| c_base: "g_cons g = CCopy h t out \<Longrightarrow> t \<noteq> h \<Longrightarrow>
     chan_step g (g\<lparr>g_cons := CBase h t out (ar_base (ac_recs (g_chan g) ! slot_of t))\<rparr>)"
| c_len: "g_cons g = CBase h t out b \<Longrightarrow>
     chan_step g (g\<lparr>g_cons := CLen h t out b (ar_len (ac_recs (g_chan g) ! slot_of t))\<rparr>)"
| c_ver: "g_cons g = CLen h t out b l \<Longrightarrow>
     chan_step g (g\<lparr>g_cons := CCopy h (t + 1) (out @
        [\<lparr>ar_base = b, ar_len = l, ar_version = ar_version (ac_recs (g_chan g) ! slot_of t)\<rparr>])\<rparr>)"
| c_done: "g_cons g = CCopy h t out \<Longrightarrow>
     chan_step g (g\<lparr>g_chan := (g_chan g)\<lparr>ac_tail := t\<rparr>, g_cons := CDone out\<rparr>)"

text \<open>The producer's four steps without interference are one publish.\<close>

lemma publish_steps:
  assumes "g_prod g = PIdle" "length (ac_recs (g_chan g)) = CAP"
  shows "chan_step\<^sup>*\<^sup>* g (g\<lparr>g_chan := publish (g_chan g) r\<rparr>)"
proof -
  let ?s = "head_slot (g_chan g)"
  have s: "?s < length (ac_recs (g_chan g))" using assms(2) by (simp add: CAP_def)
  let ?g1 = "g\<lparr>g_chan := upd_slot ?s (\<lambda>x. x\<lparr>ar_base := ar_base r\<rparr>) (g_chan g), g_prod := PBase r\<rparr>"
  let ?g2 = "?g1\<lparr>g_chan := upd_slot ?s (\<lambda>x. x\<lparr>ar_len := ar_len r\<rparr>) (g_chan ?g1), g_prod := PLen r\<rparr>"
  let ?g3 = "?g2\<lparr>g_chan := upd_slot ?s (\<lambda>x. x\<lparr>ar_version := ar_version r\<rparr>) (g_chan ?g2), g_prod := PVer r\<rparr>"
  let ?g4 = "?g3\<lparr>g_chan := (g_chan ?g3)\<lparr>ac_head := ac_head (g_chan ?g3) + 1\<rparr>, g_prod := PIdle\<rparr>"
  have "chan_step g ?g1" using assms(1) by (rule chan_step.p_base)
  moreover have "chan_step ?g1 ?g2" using chan_step.p_len [of ?g1 r] by (simp add: upd_slot_def)
  moreover have "chan_step ?g2 ?g3" using chan_step.p_ver [of ?g2 r] by (simp add: upd_slot_def)
  moreover have "chan_step ?g3 ?g4" by (rule chan_step.p_head) simp
  ultimately have "chan_step\<^sup>*\<^sup>* g ?g4" by (meson converse_rtranclp_into_rtranclp rtranclp.rtrancl_refl)
  moreover have "?g4 = g\<lparr>g_chan := publish (g_chan g) r\<rparr>"
    using assms(1) s by (cases g; cases "ac_recs (g_chan g) ! ?s"; cases r) (simp add: upd_slot_def publish_def Let_def)
  ultimately show ?thesis by simp
qed

lemma init_inv:
  "length (ac_recs c) = CAP \<Longrightarrow> chan_inv [] 0 (c\<lparr>ac_head := 0, ac_tail := 0, ac_overrun := 0\<rparr>)"
  by (simp add: chan_inv_def)

lemma fill_steps:
  assumes "chan_inv log pos (g_chan g)" "g_prod g = PIdle" "length log + n < 2 ^ 32"
  obtains g' where "chan_step\<^sup>*\<^sup>* g g'" "chan_inv (log @ replicate n r) pos (g_chan g')" "g_prod g' = PIdle"
    "g_cons g' = g_cons g"
  using assms
proof (induction n arbitrary: thesis)
  case (Suc n)
  from Suc.prems obtain g1 where g1: "chan_step\<^sup>*\<^sup>* g g1" "chan_inv (log @ replicate n r) pos (g_chan g1)"
    "g_prod g1 = PIdle" "g_cons g1 = g_cons g" using Suc.IH by auto
  let ?g = "g1\<lparr>g_chan := publish (g_chan g1) r\<rparr>"
  have "chan_step\<^sup>*\<^sup>* g1 ?g" using g1(2,3) by (intro publish_steps) (auto simp: chan_inv_def)
  moreover have "chan_inv (log @ replicate (Suc n) r) pos (g_chan ?g)"
    using publish_inv [OF g1(2), of r] Suc.prems(4) by (simp add: replicate_append_same)
  ultimately show ?case using g1 by (intro Suc.prems(1) [of ?g]) auto
qed auto

section \<open>Properties\<close>

text \<open>
  C14: The channel is a FIFO that never invents or reorders. For any sequence of publishes and drains
  on an initialised channel (fewer than 2^32 records in all), what the consumer gets, taken together,
  is a subsequence of what was published; and as long as the overrun flag is clear nothing was lost:
  it is exactly the published records up to the number still unread.
\<close>

theorem addr_channel_fifo:
  assumes "asmtest_addr_channel_init (Some c) = Some c0" "length (ac_recs c) = CAP"
    and "length (published ops) < 2 ^ 32" "chan_run ops c0 = (outs, c')"
  shows "subseq outs (published ops) \<and>
    (ac_overrun c' = 0 \<longrightarrow>
       outs = take (length (published ops) - unat (ac_head c' - ac_tail c')) (published ops))"
proof -
  have i: "chan_inv [] 0 c0" using assms(1,2) init_inv by (auto simp: asmtest_addr_channel_init_def)
  let ?L = "published ops"
  from chan_run_log [OF i, of ops outs c'] assms(3,4) obtain pos' where
    p: "chan_inv ?L pos' c'" "subseq (outs @ drop pos' ?L) ?L" "ac_overrun c' = 0 \<longrightarrow> outs @ drop pos' ?L = ?L"
    by auto
  have "unat (ac_head c' - ac_tail c') = length ?L - pos'"
    using p(1) u32_small [of "length ?L - pos'"] by (auto simp: chan_inv_def simp flip: of_nat_diff)
  moreover have "pos' \<le> length ?L" using p(1) by (simp add: chan_inv_def)
  moreover have "outs = take pos' ?L" if "ac_overrun c' = 0"
    using p(3) that by (metis append_same_eq append_take_drop_id)
  ultimately show ?thesis using p(2) by (auto intro: subseq_order.trans [OF list_emb_prefix])
qed

abbreviation demo_arec :: "u64 \<Rightarrow> addr_rec" where
  "demo_arec b \<equiv> \<lparr>ar_base = b, ar_len = b, ar_version = 0\<rparr>"

abbreviation demo_chan :: addr_channel where
  "demo_chan \<equiv> \<lparr>ac_head = 0, ac_tail = 0, ac_overrun = 0, ac_recs = replicate CAP (demo_arec 0)\<rparr>"

theorem addr_channel_fifo_witness:
  "subseq (fst (chan_run [Publish (demo_arec 1), Publish (demo_arec 2), Drain 1] demo_chan))
     [demo_arec 1, demo_arec 2]"
proof -
  obtain outs c' where r: "chan_run [Publish (demo_arec 1), Publish (demo_arec 2), Drain 1] demo_chan = (outs, c')"
    by (cases "chan_run [Publish (demo_arec 1), Publish (demo_arec 2), Drain 1] demo_chan")
  have "asmtest_addr_channel_init (Some demo_chan) = Some demo_chan" by (simp add: asmtest_addr_channel_init_def)
  from addr_channel_fifo [OF this _ _ r] r show ?thesis by simp
qed

text \<open>
  C15: A drain can read a torn record. When the two sides interleave access by access, there is a run
  from the initialised channel in which the consumer's lapped check passes on a full ring, the
  producer then starts to overwrite the oldest slot, and the consumer copies a record that mixes
  fields of two published records and equals neither.
\<close>

theorem addr_channel_torn_read:
  assumes "ar_base r0 \<noteq> ar_base r1" "ar_len r0 \<noteq> ar_len r1" "length (ac_recs c) = CAP"
    and "asmtest_addr_channel_init (Some c) = Some c0"
  shows "\<exists>g h t x. chan_step\<^sup>*\<^sup>* \<lparr>g_chan = c0, g_prod = PIdle, g_cons = CIdle\<rparr> g \<and>
    g_cons g = CCopy h t [x] \<and> g_prod g = PBase r1 \<and> x = \<lparr>ar_base = ar_base r1, ar_len = ar_len r0, ar_version = ar_version r0\<rparr> \<and>
    x \<noteq> r0 \<and> x \<noteq> r1"
proof -
  let ?g0 = "\<lparr>g_chan = c0, g_prod = PIdle, g_cons = CIdle\<rparr>"
  have "chan_inv [] 0 (g_chan ?g0)" using assms(3,4) init_inv by (auto simp: asmtest_addr_channel_init_def)
  from fill_steps [OF this, of 256 r0] obtain g where g: "chan_step\<^sup>*\<^sup>* ?g0 g"
    "chan_inv (replicate 256 r0) 0 (g_chan g)" "g_prod g = PIdle" "g_cons g = CIdle" by auto
  let ?c = "g_chan g"
  have c: "ac_head ?c = 256" "ac_tail ?c = 0" "length (ac_recs ?c) = 256" "ac_recs ?c ! 0 = r0"
    using g(2) by (auto simp: chan_inv_def CAP_def)
  have n: "0 < length (ac_recs ?c)" using c(3) by simp
  have s: "head_slot ?c = 0" using c(1) by (simp add: CAP_def)
  let ?g1 = "g\<lparr>g_cons := CCopy 256 0 []\<rparr>"
  let ?g2 = "?g1\<lparr>g_chan := upd_slot 0 (\<lambda>x. x\<lparr>ar_base := ar_base r1\<rparr>) ?c, g_prod := PBase r1\<rparr>"
  let ?g3 = "?g2\<lparr>g_cons := CBase 256 0 [] (ar_base r1)\<rparr>"
  let ?g4 = "?g3\<lparr>g_cons := CLen 256 0 [] (ar_base r1) (ar_len r0)\<rparr>"
  let ?x = "\<lparr>ar_base = ar_base r1, ar_len = ar_len r0, ar_version = ar_version r0\<rparr>"
  let ?g5 = "?g4\<lparr>g_cons := CCopy 256 1 [?x]\<rparr>"
  have slot0: "ac_recs (upd_slot 0 (\<lambda>x. x\<lparr>ar_base := ar_base r1\<rparr>) ?c) ! 0 = r0\<lparr>ar_base := ar_base r1\<rparr>"
    using c(4) n by (simp add: upd_slot_def)
  have "chan_step g ?g1" using chan_step.c_load [OF g(4)] c by (simp add: CAP_def)
  moreover have "chan_step ?g1 ?g2" using chan_step.p_base [of ?g1 r1] g(3) s by simp
  moreover have "chan_step ?g2 ?g3" using chan_step.c_base [of ?g2 256 0 "[]"] slot0 by simp
  moreover have "chan_step ?g3 ?g4" using chan_step.c_len [of ?g3 256 0 "[]" "ar_base r1"] slot0 by simp
  moreover have "chan_step ?g4 ?g5" using chan_step.c_ver [of ?g4 256 0 "[]" "ar_base r1" "ar_len r0"] slot0 by simp
  ultimately have "chan_step\<^sup>*\<^sup>* g ?g5" by (meson converse_rtranclp_into_rtranclp rtranclp.rtrancl_refl)
  with g(1) have "chan_step\<^sup>*\<^sup>* ?g0 ?g5" by (rule rtranclp_trans)
  moreover have "?x \<noteq> r0" "?x \<noteq> r1" using assms(1,2) by (cases r0; cases r1; simp)+
  ultimately show ?thesis by (intro exI [of _ ?g5] exI conjI) auto
qed

theorem addr_channel_torn_read_witness:
  "\<exists>g h t x. chan_step\<^sup>*\<^sup>* \<lparr>g_chan = demo_chan, g_prod = PIdle, g_cons = CIdle\<rparr> g \<and>
    g_cons g = CCopy h t [x] \<and> x \<noteq> demo_arec 1 \<and> x \<noteq> demo_arec 2"
proof -
  have "asmtest_addr_channel_init (Some demo_chan) = Some demo_chan" by (simp add: asmtest_addr_channel_init_def)
  from addr_channel_torn_read [OF _ _ _ this, of "demo_arec 1" "demo_arec 2"] show ?thesis by auto
qed

end
