(* ===== verification/Descent.thy ===== *)
theory Descent
  imports Sink Grow
begin

text \<open>
  The call-descent handle of \<^verbatim>\<open>src/src/descent.c\<close> and \<^verbatim>\<open>src/include/asmtest_descent_internal.h\<close>: the
  configuration setters, the allow and deny regions, the frames and call edges a step loop appends,
  the block-boundary tracker, and the accessors. A pool is the list of its entries with its
  capacity. The callback pointers are only stored here; they are their addresses.
\<close>

section \<open>Records\<close>

record descent_region =
  rg_base :: u64
  rg_len :: u64

record asmtest_blockseq =
  bq_have_prev :: bool
  bq_expected_next :: u64

record descent_edge =
  ed_site :: u64
  ed_target :: u64
  ed_depth :: u32
  ed_from_frame :: int

record descent_frame =
  fr_base :: u64
  fr_len :: u64
  fr_depth :: u32
  fr_parent :: int
  fr_insns :: "u64 list"
  fr_insns_cap :: nat
  fr_blocks :: "u64 list"
  fr_blocks_cap :: nat
  fr_seq :: asmtest_blockseq

record asmtest_descent =
  ds_level :: nat
  ds_max_depth :: u32
  ds_insn_budget :: u64
  ds_watchdog_ms :: u32
  ds_allow :: "descent_region list"
  ds_allow_cap :: nat
  ds_deny :: "descent_region list"
  ds_deny_cap :: nat
  ds_resolver :: u64
  ds_resolver_user :: u64
  ds_denylist :: u64
  ds_denylist_user :: u64
  ds_edges :: "descent_edge list"
  ds_edges_cap :: nat
  ds_frames :: "descent_frame list"
  ds_frames_cap :: nat
  ds_truncated :: bool
  ds_depth_capped :: bool
  ds_use_default_denylist :: bool
  ds_default_denylist_applied :: bool

definition DEFAULT_MAX_DEPTH :: u32 where "DEFAULT_MAX_DEPTH = 8"
definition DEFAULT_INSN_BUDGET :: u64 where "DEFAULT_INSN_BUDGET = 4096"
definition DEFAULT_WATCHDOG_MS :: u32 where "DEFAULT_WATCHDOG_MS = 2000"

section \<open>Construction and configuration\<close>

definition zero_descent :: asmtest_descent where
  "zero_descent = \<lparr>ds_level = 0, ds_max_depth = 0, ds_insn_budget = 0, ds_watchdog_ms = 0,
     ds_allow = [], ds_allow_cap = 0, ds_deny = [], ds_deny_cap = 0, ds_resolver = 0, ds_resolver_user = 0,
     ds_denylist = 0, ds_denylist_user = 0, ds_edges = [], ds_edges_cap = 0, ds_frames = [], ds_frames_cap = 0,
     ds_truncated = False, ds_depth_capped = False, ds_use_default_denylist = False,
     ds_default_denylist_applied = False\<rparr>"

definition asmtest_descent_new :: "heap \<Rightarrow> nat \<Rightarrow> asmtest_descent option \<times> heap" where
  "asmtest_descent_new h level =
     (case alloc h of (ok, h') \<Rightarrow>
        (if ok then Some (zero_descent\<lparr>ds_level := level, ds_max_depth := DEFAULT_MAX_DEPTH,
                            ds_insn_budget := DEFAULT_INSN_BUDGET, ds_watchdog_ms := DEFAULT_WATCHDOG_MS\<rparr>)
         else None, h'))"

definition asmtest_descent_set_max_depth :: "asmtest_descent option \<Rightarrow> u32 \<Rightarrow> asmtest_descent option" where
  "asmtest_descent_set_max_depth d m =
     map_option (\<lambda>d. d\<lparr>ds_max_depth := if m \<noteq> 0 then m else DEFAULT_MAX_DEPTH\<rparr>) d"

definition asmtest_descent_set_insn_budget :: "asmtest_descent option \<Rightarrow> u64 \<Rightarrow> asmtest_descent option" where
  "asmtest_descent_set_insn_budget d b =
     map_option (\<lambda>d. d\<lparr>ds_insn_budget := if b \<noteq> 0 then b else DEFAULT_INSN_BUDGET\<rparr>) d"

definition asmtest_descent_set_watchdog_ms :: "asmtest_descent option \<Rightarrow> u32 \<Rightarrow> asmtest_descent option" where
  "asmtest_descent_set_watchdog_ms d ms =
     map_option (\<lambda>d. d\<lparr>ds_watchdog_ms := if ms \<noteq> 0 then ms else DEFAULT_WATCHDOG_MS\<rparr>) d"

definition PTRACE_OK :: int where "PTRACE_OK = 0"
definition PTRACE_EINVAL :: int where "PTRACE_EINVAL = -1"
definition PTRACE_ETRACE :: int where "PTRACE_ETRACE = -8"

definition region_add ::
  "heap \<Rightarrow> descent_region list \<Rightarrow> nat \<Rightarrow> u64 \<Rightarrow> u64 \<Rightarrow> int \<times> descent_region list \<times> nat \<times> heap" where
  "region_add h arr cap base rlen =
     (case asmtest_grow h cap (length arr + 1) 16 of (ok, cap', h') \<Rightarrow>
        if \<not> ok then (PTRACE_ETRACE, arr, cap', h')
        else (PTRACE_OK, arr @ [\<lparr>rg_base = base, rg_len = rlen\<rparr>], cap', h'))"

definition asmtest_descent_allow_region ::
  "heap \<Rightarrow> asmtest_descent option \<Rightarrow> u64 \<Rightarrow> u64 \<Rightarrow> int \<times> asmtest_descent option \<times> heap" where
  "asmtest_descent_allow_region h dd base len =
     (case dd of None \<Rightarrow> (PTRACE_EINVAL, None, h)
      | Some d \<Rightarrow> (case region_add h (ds_allow d) (ds_allow_cap d) base len of (rc, a, c, h') \<Rightarrow>
          (rc, Some (d\<lparr>ds_allow := a, ds_allow_cap := c\<rparr>), h')))"

definition asmtest_descent_deny_region ::
  "heap \<Rightarrow> asmtest_descent option \<Rightarrow> u64 \<Rightarrow> u64 \<Rightarrow> int \<times> asmtest_descent option \<times> heap" where
  "asmtest_descent_deny_region h dd base len =
     (case dd of None \<Rightarrow> (PTRACE_EINVAL, None, h)
      | Some d \<Rightarrow> (case region_add h (ds_deny d) (ds_deny_cap d) base len of (rc, a, c, h') \<Rightarrow>
          (rc, Some (d\<lparr>ds_deny := a, ds_deny_cap := c\<rparr>), h')))"

definition asmtest_descent_set_resolver :: "asmtest_descent option \<Rightarrow> u64 \<Rightarrow> u64 \<Rightarrow> asmtest_descent option" where
  "asmtest_descent_set_resolver d fn user = map_option (\<lambda>d. d\<lparr>ds_resolver := fn, ds_resolver_user := user\<rparr>) d"

definition asmtest_descent_set_denylist :: "asmtest_descent option \<Rightarrow> u64 \<Rightarrow> u64 \<Rightarrow> asmtest_descent option" where
  "asmtest_descent_set_denylist d fn user = map_option (\<lambda>d. d\<lparr>ds_denylist := fn, ds_denylist_user := user\<rparr>) d"

definition asmtest_descent_use_default_denylist :: "asmtest_descent option \<Rightarrow> asmtest_descent option" where
  "asmtest_descent_use_default_denylist d = map_option (\<lambda>d. d\<lparr>ds_use_default_denylist := True\<rparr>) d"

section \<open>Mutators\<close>

text \<open>The first region whose \<^verbatim>\<open>[base, base + len)\<close> holds the address, the sum taken modulo \<open>2 ^ 64\<close>.\<close>

definition region_holds :: "u64 \<Rightarrow> descent_region \<Rightarrow> bool" where
  "region_holds addr r \<longleftrightarrow> addr \<ge> rg_base r \<and> addr < rg_base r + rg_len r"

definition asmtest_descent_region_contains :: "descent_region list \<Rightarrow> u64 \<Rightarrow> (u64 \<times> u64) option" where
  "asmtest_descent_region_contains arr addr =
     map_option (\<lambda>r. (rg_base r, rg_len r)) (find (region_holds addr) arr)"

definition asmtest_blockseq_boundary :: "asmtest_blockseq \<Rightarrow> u64 \<Rightarrow> nat \<Rightarrow> bool \<times> asmtest_blockseq" where
  "asmtest_blockseq_boundary s off len =
     (\<not> bq_have_prev s \<or> off \<noteq> bq_expected_next s,
      if len = 0 then s\<lparr>bq_have_prev := False\<rparr>
      else \<lparr>bq_have_prev = True, bq_expected_next = off + of_nat len\<rparr>)"

definition asmtest_descent_push_frame ::
  "heap \<Rightarrow> asmtest_descent option \<Rightarrow> u64 \<Rightarrow> u64 \<Rightarrow> u32 \<Rightarrow> int \<Rightarrow> int \<times> asmtest_descent option \<times> heap" where
  "asmtest_descent_push_frame h dd base len depth parent =
     (case dd of None \<Rightarrow> (-1, None, h)
      | Some d \<Rightarrow> (case asmtest_grow h (ds_frames_cap d) (length (ds_frames d) + 1) 88 of (ok, cap', h') \<Rightarrow>
          if \<not> ok then (-1, Some (d\<lparr>ds_truncated := True\<rparr>), h')
          else (to_int32 (length (ds_frames d)),
                Some (d\<lparr>ds_frames_cap := cap', ds_frames := ds_frames d @
                  [\<lparr>fr_base = base, fr_len = len, fr_depth = depth, fr_parent = parent, fr_insns = [],
                    fr_insns_cap = 0, fr_blocks = [], fr_blocks_cap = 0,
                    fr_seq = \<lparr>bq_have_prev = False, bq_expected_next = 0\<rparr>\<rparr>]\<rparr>), h')))"

text \<open>The two pools of a frame; the flag says whether an entry was lost.\<close>

definition add_block :: "heap \<Rightarrow> descent_frame \<Rightarrow> u64 \<Rightarrow> descent_frame \<times> bool \<times> heap" where
  "add_block h f off =
     (if off \<in> set (fr_blocks f) then (f, False, h)
      else case asmtest_grow h (fr_blocks_cap f) (length (fr_blocks f) + 1) 8 of (ok, cap', h') \<Rightarrow>
        if ok then (f\<lparr>fr_blocks := fr_blocks f @ [off], fr_blocks_cap := cap'\<rparr>, False, h') else (f, True, h'))"

definition add_insn :: "heap \<Rightarrow> descent_frame \<Rightarrow> u64 \<Rightarrow> descent_frame \<times> bool \<times> heap" where
  "add_insn h f off =
     (case asmtest_grow h (fr_insns_cap f) (length (fr_insns f) + 1) 8 of (ok, cap', h') \<Rightarrow>
        if ok then (f\<lparr>fr_insns := fr_insns f @ [off], fr_insns_cap := cap'\<rparr>, False, h') else (f, True, h'))"

definition frame_record :: "heap \<Rightarrow> descent_frame \<Rightarrow> u64 \<Rightarrow> nat \<Rightarrow> bool \<times> descent_frame \<times> bool \<times> heap" where
  "frame_record h f off insn_len =
     (case asmtest_blockseq_boundary (fr_seq f) off insn_len of (new_block, seq') \<Rightarrow>
        let f0 = f\<lparr>fr_seq := seq'\<rparr> in
        case (if new_block then add_block h f0 off else (f0, False, h)) of (f1, lost1, h1) \<Rightarrow>
        case add_insn h1 f1 off of (f2, lost2, h2) \<Rightarrow>
          (new_block, f2, lost1 \<or> lost2 \<or> insn_len = 0, h2))"

definition asmtest_descent_frame_record ::
  "heap \<Rightarrow> asmtest_descent option \<Rightarrow> int \<Rightarrow> u64 \<Rightarrow> nat \<Rightarrow> int \<times> asmtest_descent option \<times> heap" where
  "asmtest_descent_frame_record h dd fi off insn_len =
     (case dd of None \<Rightarrow> (0, None, h)
      | Some d \<Rightarrow>
        if fi < 0 \<or> nat fi \<ge> length (ds_frames d) then (0, dd, h)
        else case frame_record h (ds_frames d ! nat fi) off insn_len of (new_block, f, lost, h') \<Rightarrow>
          (if new_block then 1 else 0,
           Some (d\<lparr>ds_frames := (ds_frames d)[nat fi := f], ds_truncated := ds_truncated d \<or> lost\<rparr>), h'))"

definition asmtest_descent_add_edge ::
  "heap \<Rightarrow> asmtest_descent option \<Rightarrow> u64 \<Rightarrow> u64 \<Rightarrow> u32 \<Rightarrow> int \<Rightarrow> asmtest_descent option \<times> heap" where
  "asmtest_descent_add_edge h dd site target depth from_frame =
     (case dd of None \<Rightarrow> (None, h)
      | Some d \<Rightarrow> (case asmtest_grow h (ds_edges_cap d) (length (ds_edges d) + 1) 24 of (ok, cap', h') \<Rightarrow>
          if \<not> ok then (Some (d\<lparr>ds_truncated := True\<rparr>), h')
          else (Some (d\<lparr>ds_edges_cap := cap', ds_edges := ds_edges d @
                  [\<lparr>ed_site = site, ed_target = target, ed_depth = depth, ed_from_frame = from_frame\<rparr>]\<rparr>), h')))"

definition asmtest_descent_mark_truncated :: "asmtest_descent option \<Rightarrow> asmtest_descent option" where
  "asmtest_descent_mark_truncated d = map_option (\<lambda>d. d\<lparr>ds_truncated := True\<rparr>) d"

definition asmtest_descent_mark_depth_capped :: "asmtest_descent option \<Rightarrow> asmtest_descent option" where
  "asmtest_descent_mark_depth_capped d = map_option (\<lambda>d. d\<lparr>ds_depth_capped := True\<rparr>) d"

section \<open>Accessors\<close>

definition edge_at :: "asmtest_descent option \<Rightarrow> nat \<Rightarrow> descent_edge option" where
  "edge_at dd i = (case dd of None \<Rightarrow> None | Some d \<Rightarrow> if i < length (ds_edges d) then Some (ds_edges d ! i) else None)"

definition frame_at :: "asmtest_descent option \<Rightarrow> nat \<Rightarrow> descent_frame option" where
  "frame_at dd f = (case dd of None \<Rightarrow> None | Some d \<Rightarrow> if f < length (ds_frames d) then Some (ds_frames d ! f) else None)"

definition dflt :: "'b \<Rightarrow> ('a \<Rightarrow> 'b) \<Rightarrow> 'a option \<Rightarrow> 'b" where
  "dflt z f x = (case x of None \<Rightarrow> z | Some y \<Rightarrow> f y)"

definition asmtest_descent_edges_len where "asmtest_descent_edges_len dd = dflt 0 (\<lambda>d. length (ds_edges d)) dd"
definition asmtest_descent_edge_site where "asmtest_descent_edge_site dd i = dflt 0 ed_site (edge_at dd i)"
definition asmtest_descent_edge_target where "asmtest_descent_edge_target dd i = dflt 0 ed_target (edge_at dd i)"
definition asmtest_descent_edge_depth where "asmtest_descent_edge_depth dd i = dflt 0 ed_depth (edge_at dd i)"
definition asmtest_descent_frames_len where "asmtest_descent_frames_len dd = dflt 0 (\<lambda>d. length (ds_frames d)) dd"
definition asmtest_descent_frame_base where "asmtest_descent_frame_base dd f = dflt 0 fr_base (frame_at dd f)"
definition asmtest_descent_frame_len where "asmtest_descent_frame_len dd f = dflt 0 fr_len (frame_at dd f)"
definition asmtest_descent_frame_depth where "asmtest_descent_frame_depth dd f = dflt 0 fr_depth (frame_at dd f)"
definition asmtest_descent_frame_parent where "asmtest_descent_frame_parent dd f = dflt (-1) fr_parent (frame_at dd f)"
definition asmtest_descent_frame_insn_count where
  "asmtest_descent_frame_insn_count dd f = dflt 0 (\<lambda>x. length (fr_insns x)) (frame_at dd f)"
definition asmtest_descent_frame_insn_at where
  "asmtest_descent_frame_insn_at dd f i =
     dflt (0::u64) (\<lambda>x. if i < length (fr_insns x) then fr_insns x ! i else 0) (frame_at dd f)"
definition asmtest_descent_frame_block_count where
  "asmtest_descent_frame_block_count dd f = dflt 0 (\<lambda>x. length (fr_blocks x)) (frame_at dd f)"
definition asmtest_descent_frame_block_at where
  "asmtest_descent_frame_block_at dd f i =
     dflt (0::u64) (\<lambda>x. if i < length (fr_blocks x) then fr_blocks x ! i else 0) (frame_at dd f)"
definition asmtest_descent_truncated where
  "asmtest_descent_truncated dd = (if dflt False ds_truncated dd then 1 else (0::int))"
definition asmtest_descent_depth_capped where
  "asmtest_descent_depth_capped dd = (if dflt False ds_depth_capped dd then 1 else (0::int))"

section \<open>What a frame records\<close>

text \<open>
  The rule the tracker implements: an instruction opens a block when it is the first, when the one
  before did not decode, or when it is not where the one before falls through to.
\<close>

definition opens_block :: "(u64 \<times> nat) list \<Rightarrow> u64 \<Rightarrow> bool" where
  "opens_block before off \<longleftrightarrow>
     before = [] \<or> snd (last before) = 0 \<or> off \<noteq> fst (last before) + of_nat (snd (last before))"

definition block_starts :: "(u64 \<times> nat) list \<Rightarrow> u64 list" where
  "block_starts is = map (\<lambda>i. fst (is ! i)) (filter (\<lambda>i. opens_block (take i is) (fst (is ! i))) [0..<length is])"

lemma block_starts_snoc:
  "block_starts (is @ [(off, l)]) = block_starts is @ (if opens_block is off then [off] else [])"
proof -
  have "filter (\<lambda>i. opens_block (take i (is @ [(off, l)])) (fst ((is @ [(off, l)]) ! i))) [0..<length is] =
      filter (\<lambda>i. opens_block (take i is) (fst (is ! i))) [0..<length is]"
    by (rule filter_cong) (auto simp: nth_append)
  then show ?thesis by (auto simp: block_starts_def nth_append)
qed

fun record_all :: "heap \<Rightarrow> descent_frame \<times> bool \<Rightarrow> (u64 \<times> nat) list \<Rightarrow> descent_frame \<times> bool" where
  "record_all h s [] = s"
| "record_all h (f, tr) ((off, l) # is) =
     (case frame_record h f off l of (nb, f', lost, h') \<Rightarrow> record_all h' (f', tr \<or> lost) is)"

definition seq_ok :: "(u64 \<times> nat) list \<Rightarrow> asmtest_blockseq \<Rightarrow> bool" where
  "seq_ok is s \<longleftrightarrow> (if is = [] \<or> snd (last is) = 0 then \<not> bq_have_prev s
     else bq_have_prev s \<and> bq_expected_next s = fst (last is) + of_nat (snd (last is)))"

lemma boundary_ok:
  "seq_ok is s \<Longrightarrow> fst (asmtest_blockseq_boundary s off l) = opens_block is off \<and>
     seq_ok (is @ [(off, l)]) (snd (asmtest_blockseq_boundary s off l))"
  by (auto simp: seq_ok_def asmtest_blockseq_boundary_def opens_block_def split: if_splits)

lemma grow_pool:
  assumes "n < 2 ^ 50"
  obtains cap' where "asmtest_grow [] cap (n + 1) 8 = (True, cap', [])"
proof -
  have "n + 1 \<le> SIZE_MAX div 8" using assms by (simp add: SIZE_MAX_def)
  from grow_succeeds [OF this, of cap] show ?thesis
    by (auto simp: asmtest_grow_def Let_def split: if_splits prod.splits option.splits intro!: that)
qed

lemma add_block_ok:
  assumes "length (fr_blocks f) < 2 ^ 50"
  shows "\<exists>c. add_block [] f off = (f\<lparr>fr_blocks := fr_blocks f @ (if off \<in> set (fr_blocks f) then [] else [off]),
     fr_blocks_cap := c\<rparr>, False, [])"
proof (cases "off \<in> set (fr_blocks f)")
  case True
  then show ?thesis by (intro exI [of _ "fr_blocks_cap f"]) (simp add: add_block_def)
next
  case False
  obtain cap' where "asmtest_grow [] (fr_blocks_cap f) (length (fr_blocks f) + 1) 8 = (True, cap', [])"
    by (rule grow_pool [OF assms])
  with False show ?thesis by (intro exI [of _ cap']) (simp add: add_block_def)
qed

lemma add_insn_ok:
  assumes "length (fr_insns f) < 2 ^ 50"
  shows "\<exists>c. add_insn [] f off = (f\<lparr>fr_insns := fr_insns f @ [off], fr_insns_cap := c\<rparr>, False, [])"
proof -
  obtain cap' where "asmtest_grow [] (fr_insns_cap f) (length (fr_insns f) + 1) 8 = (True, cap', [])"
    by (rule grow_pool [OF assms])
  then show ?thesis by (intro exI [of _ cap']) (simp add: add_insn_def)
qed

definition frame_ok :: "(u64 \<times> nat) list \<Rightarrow> descent_frame \<Rightarrow> bool" where
  "frame_ok is f \<longleftrightarrow> fr_insns f = map fst is \<and> fr_blocks f = nub (block_starts is) \<and> seq_ok is (fr_seq f)"

lemma length_block_starts: "length (block_starts is) \<le> length is"
proof -
  have "length (filter P [0..<length is]) \<le> length [0..<length is]" for P by (rule length_filter_le)
  then show ?thesis by (simp add: block_starts_def)
qed

lemma frame_record_ok:
  assumes "frame_ok is f" "length is < 2 ^ 50"
  shows "\<exists>f'. frame_record [] f off l = (opens_block is off, f', l = 0, []) \<and> frame_ok (is @ [(off, l)]) f'"
proof -
  obtain nb sq where b: "asmtest_blockseq_boundary (fr_seq f) off l = (nb, sq)"
    by (cases "asmtest_blockseq_boundary (fr_seq f) off l")
  with boundary_ok [of "is" "fr_seq f" off l] assms(1) have
    nb: "nb = opens_block is off" and sq: "seq_ok (is @ [(off, l)]) sq" by (auto simp: frame_ok_def)
  let ?f0 = "f\<lparr>fr_seq := sq\<rparr>"
  have "length (nub (block_starts is)) \<le> length (block_starts is)" by (simp add: length_nub card_length)
  with length_block_starts [of "is"] assms have "length (fr_blocks ?f0) < 2 ^ 50"
    by (simp add: frame_ok_def)
  from add_block_ok [OF this, of off] obtain c where
    ab: "add_block [] ?f0 off = (?f0\<lparr>fr_blocks := fr_blocks ?f0 @ (if off \<in> set (fr_blocks ?f0) then [] else [off]),
      fr_blocks_cap := c\<rparr>, False, [])" by blast
  let ?f1 = "if nb then fst (add_block [] ?f0 off) else ?f0"
  have "length (fr_insns ?f1) < 2 ^ 50" using ab assms by (simp add: frame_ok_def)
  from add_insn_ok [OF this, of off] obtain c2 where
    ai: "add_insn [] ?f1 off = (?f1\<lparr>fr_insns := fr_insns ?f1 @ [off], fr_insns_cap := c2\<rparr>, False, [])" by blast
  have e: "frame_record [] f off l = (nb, ?f1\<lparr>fr_insns := fr_insns ?f1 @ [off], fr_insns_cap := c2\<rparr>, l = 0, [])"
    using b ab ai by (cases nb) (simp_all add: frame_record_def)
  show ?thesis
    unfolding e nb using assms(1) sq ab nb
    by (auto simp: frame_ok_def block_starts_snoc nub_snoc)
qed

lemma record_all_ok:
  "frame_ok pre f \<Longrightarrow> length pre + length is < 2 ^ 50 \<Longrightarrow>
   \<exists>f'. record_all [] (f, tr) is = (f', tr \<or> (\<exists>(off, l)\<in>set is. l = 0)) \<and> frame_ok (pre @ is) f'"
proof (induction "is" arbitrary: pre f tr)
  case (Cons x xs)
  obtain off l where x: "x = (off, l)" by (cases x)
  from frame_record_ok [OF Cons.prems(1), of off l] Cons.prems(2) obtain f' where
    f': "frame_record [] f off l = (opens_block pre off, f', l = 0, [])" "frame_ok (pre @ [(off, l)]) f'" by auto
  from Cons.IH [OF f'(2), of "tr \<or> l = 0"] Cons.prems(2) obtain f'' where
    "record_all [] (f', tr \<or> l = 0) xs = (f'', (tr \<or> l = 0) \<or> (\<exists>(off, l)\<in>set xs. l = 0))"
    "frame_ok ((pre @ [(off, l)]) @ xs) f''" by auto
  with f' x show ?case by auto
qed simp

section \<open>Properties\<close>

text \<open>
  What a descended frame holds. After any sequence of fewer than 2^50 recorded instructions (offset
  and length) on a new frame, with memory available, the frame's instruction stream is the offsets in
  order, its block set is the distinct block starts in order of first entry, where an instruction
  starts a block when it is the first, follows an undecodable one, or is not the fall-through of the
  one before, and the truncation flag was raised exactly when some instruction had length 0.
\<close>

theorem descent_frame_contents:
  assumes "asmtest_descent_push_frame h (Some d) base len depth parent = (fi, Some d', h')" "fi \<noteq> -1"
    and "length is < 2 ^ 50"
  shows "\<exists>f'. record_all [] (last (ds_frames d'), False) is = (f', \<exists>(off, l)\<in>set is. l = 0) \<and>
    fr_insns f' = map fst is \<and>
    fr_blocks f' = nub (map (\<lambda>i. fst (is ! i)) (filter (\<lambda>i. i = 0 \<or> snd (is ! (i - 1)) = 0 \<or>
       fst (is ! i) \<noteq> fst (is ! (i - 1)) + of_nat (snd (is ! (i - 1)))) [0..<length is]))"
proof -
  have ok: "frame_ok [] (last (ds_frames d'))"
    using assms(1,2) by (auto simp: asmtest_descent_push_frame_def frame_ok_def block_starts_def seq_ok_def
        split: prod.splits if_splits)
  have "opens_block (take i is) (fst (is ! i)) \<longleftrightarrow> i = 0 \<or> snd (is ! (i - 1)) = 0 \<or>
      fst (is ! i) \<noteq> fst (is ! (i - 1)) + of_nat (snd (is ! (i - 1)))" if "i < length is" for i
  proof (cases "i = 0")
    case False
    then have ne: "take i is \<noteq> []" using that by auto
    have "last (take i is) = is ! (i - 1)"
      using last_conv_nth [OF ne] that False by (simp add: min_def)
    with ne False show ?thesis by (simp add: opens_block_def)
  qed (simp add: opens_block_def)
  then have "filter (\<lambda>i. opens_block (take i is) (fst (is ! i))) [0..<length is] =
      filter (\<lambda>i. i = 0 \<or> snd (is ! (i - 1)) = 0 \<or>
       fst (is ! i) \<noteq> fst (is ! (i - 1)) + of_nat (snd (is ! (i - 1)))) [0..<length is]"
    by (intro filter_cong) auto
  with record_all_ok [OF ok, of "is" False] assms(3) show ?thesis
    by (auto simp: frame_ok_def block_starts_def)
qed

theorem descent_frame_contents_witness:
  "\<exists>d' h' f'. asmtest_descent_push_frame [] (Some zero_descent) 4096 64 0 (-1) = (0, Some d', h') \<and>
    record_all [] (last (ds_frames d'), False) [(0, 3), (3, 2), (16, 1)] = (f', False) \<and>
    fr_insns f' = [0, 3, 16]"
proof -
  obtain cap' where g: "asmtest_grow [] 0 (Suc 0) 88 = (True, cap', [])"
    using grow_succeeds [of 1 88 0] by (cases "asmtest_grow [] 0 1 88")
      (auto simp: SIZE_MAX_def asmtest_grow_def Let_def split: if_splits prod.splits option.splits)
  then obtain d' h' where p: "asmtest_descent_push_frame [] (Some zero_descent) 4096 64 0 (-1) = (0, Some d', h')"
    by (simp add: asmtest_descent_push_frame_def zero_descent_def to_int32_def)
  from descent_frame_contents [OF p, of "[(0, 3), (3, 2), (16, 1)]"] p show ?thesis by auto
qed

end
