(* ===== verification/Codeimage.thy ===== *)
theory Codeimage
  imports Grow
begin

text \<open>
  The code-image recorder, \<^verbatim>\<open>src/src/codeimage.c\<close>: a timeline of the bytes of tracked code regions, so
  that a later query finds the bytes that were live at a trace position. The kernel is a parameter: a
  record of the system calls the recorder makes on the state \<open>'w\<close> of the target process, with the
  documented behaviour of soft-dirty tracking as the predicate \<open>soft_dirty_os\<close>. Every operation runs
  under the recorder's lock, so an operation is one step; the target does not run during one. \<open>None\<close>
  as a result is a loop that does not end.
\<close>

section \<open>State\<close>

record ci_version =
  cv_seq :: u64
  cv_bytes :: "u8 list"

record ci_region =
  cr_base :: u64
  cr_len :: nat
  cr_first_page :: u64
  cr_npages :: nat
  cr_vers :: "ci_version list"
  cr_cap_ver :: nat

text \<open>The event queue of the eBPF detector; its entries stay abstract.\<close>

record 'ev ci_bpf =
  cb_q :: "'ev list"
  cb_head :: nat
  cb_count :: nat

record 'ev asmtest_codeimage =
  ci_page_size :: u64
  ci_pagemap_scan_ok :: bool
  ci_seq :: u64
  ci_regions :: "ci_region list"
  ci_cap_reg :: nat
  ci_bpf :: "'ev ci_bpf option"

definition ASMTEST_CI_OK :: int where "ASMTEST_CI_OK = 0"
definition ASMTEST_CI_EINVAL :: int where "ASMTEST_CI_EINVAL = -1"
definition ASMTEST_CI_EUNAVAIL :: int where "ASMTEST_CI_EUNAVAIL = -3"
definition ASMTEST_CI_ENOENT :: int where "ASMTEST_CI_ENOENT = -7"

lemmas ci_codes = ASMTEST_CI_OK_def ASMTEST_CI_EINVAL_def ASMTEST_CI_EUNAVAIL_def ASMTEST_CI_ENOENT_def

text \<open>
  The system calls: whether the availability probe succeeds, writing \<^verbatim>\<open>clear_refs\<close>, opening
  \<^verbatim>\<open>pagemap\<close>, reading an eight-byte entry of it at an offset, the \<^verbatim>\<open>PAGEMAP_SCAN\<close> ioctl (the regions it
  reports), \<^verbatim>\<open>process_vm_readv\<close> (the bytes read) and \<^verbatim>\<open>sysconf(_SC_PAGESIZE)\<close>.
\<close>

record 'w ci_os =
  os_available :: bool
  os_clear_refs :: "'w \<Rightarrow> bool \<times> 'w"
  os_open_pagemap :: "'w \<Rightarrow> bool"
  os_pread :: "'w \<Rightarrow> u64 \<Rightarrow> u64 option"
  os_scan :: "'w \<Rightarrow> u64 \<Rightarrow> u64 \<Rightarrow> nat \<Rightarrow> (u64 \<times> u64) list option"
  os_readv :: "'w \<Rightarrow> u64 \<Rightarrow> nat \<Rightarrow> u8 list option"
  os_page_size :: int
  os_scan_ok :: bool

section \<open>Soft-dirty helpers\<close>

definition ci_arm :: "'w ci_os \<Rightarrow> 'w \<Rightarrow> int \<times> 'w" where
  "ci_arm os w = (case os_clear_refs os w of (ok, w') \<Rightarrow> (if ok then ASMTEST_CI_OK else ASMTEST_CI_EUNAVAIL, w'))"

definition CI_PM_SOFT_DIRTY :: u64 where
  "CI_PM_SOFT_DIRTY = push_bit 55 1"

definition ci_page_dirty_manual :: "'w ci_os \<Rightarrow> 'w \<Rightarrow> u64 \<Rightarrow> u64 \<Rightarrow> bool" where
  "ci_page_dirty_manual os w ps page_addr =
     (if \<not> os_open_pagemap os w then False
      else case os_pread os w (page_addr div ps * 8) of
             None \<Rightarrow> False
           | Some entry \<Rightarrow> entry AND CI_PM_SOFT_DIRTY \<noteq> 0)"

text \<open>
  The pages of one reported range, marked in the dirty array; the second component is \<^verbatim>\<open>any\<close>. A step
  that wraps never reaches the end of the range.
\<close>

function mark_pages :: "u64 \<Rightarrow> u64 \<Rightarrow> u64 \<Rightarrow> u64 \<Rightarrow> bool list \<times> bool \<Rightarrow> (bool list \<times> bool) option" where
  "mark_pages ps first p e st =
     (if p < e then
        let idx = unat ((p - first) div ps);
            st' = (if idx < length (fst st) then ((fst st)[idx := True], True) else st)
        in if p < p + ps then mark_pages ps first (p + ps) e st' else None
      else Some st)"
  by auto
termination
  by (relation "measure (\<lambda>(ps, first, p, e, st). unat e - unat p)") (auto simp: word_less_nat_alt)

declare mark_pages.simps [simp del]

fun mark_regions :: "u64 \<Rightarrow> u64 \<Rightarrow> (u64 \<times> u64) list \<Rightarrow> bool list \<times> bool \<Rightarrow> (bool list \<times> bool) option" where
  "mark_regions ps first [] st = Some st"
| "mark_regions ps first (v # vec) st =
     (case mark_pages ps first (fst v) (snd v) st of None \<Rightarrow> None | Some st' \<Rightarrow> mark_regions ps first vec st')"

definition page_addr :: "u64 \<Rightarrow> ci_region \<Rightarrow> nat \<Rightarrow> u64" where
  "page_addr ps r i = cr_first_page r + of_nat i * ps"

definition manual_pages :: "'w ci_os \<Rightarrow> 'w \<Rightarrow> u64 \<Rightarrow> ci_region \<Rightarrow> bool list \<times> bool \<Rightarrow> bool list \<times> bool" where
  "manual_pages os w ps r st =
     foldl (\<lambda>st i. if ci_page_dirty_manual os w ps (page_addr ps r i) then ((fst st)[i := True], True) else st)
       st [0..<cr_npages r]"

definition ci_region_dirty ::
  "'w ci_os \<Rightarrow> heap \<Rightarrow> 'w \<Rightarrow> 'ev asmtest_codeimage \<Rightarrow> ci_region \<Rightarrow> ((bool list \<times> bool) \<times> heap) option" where
  "ci_region_dirty os h w img r =
     (let ps = ci_page_size img;
          st0 = (replicate (cr_npages r) False, False);
          manual = (\<lambda>h. Some (manual_pages os w ps r st0, h))
      in if ci_pagemap_scan_ok img \<and> os_open_pagemap os w then
           (case alloc h of (ok, h') \<Rightarrow>
              if \<not> ok then manual h'
              else case os_scan os w (cr_first_page r) (cr_first_page r + of_nat (cr_npages r) * ps) (cr_npages r) of
                     None \<Rightarrow> manual h'
                   | Some vec \<Rightarrow> map_option (\<lambda>st. (st, h')) (mark_regions ps (cr_first_page r) vec st0))
         else manual h)"

section \<open>Byte capture\<close>

definition ci_read_region :: "'w ci_os \<Rightarrow> heap \<Rightarrow> 'w \<Rightarrow> u64 \<Rightarrow> nat \<Rightarrow> u8 list option \<times> heap" where
  "ci_read_region os h w base len =
     (case alloc h of (ok, h') \<Rightarrow>
        if \<not> ok then (None, h')
        else (case os_readv os w base len of
                None \<Rightarrow> None
              | Some bytes \<Rightarrow> if length bytes = len then Some bytes else None, h'))"

definition ci_region_add_version ::
  "heap \<Rightarrow> u64 \<Rightarrow> ci_region \<Rightarrow> u8 list \<Rightarrow> int \<times> u64 \<times> ci_region \<times> heap" where
  "ci_region_add_version h seq r bytes =
     (case (if length (cr_vers r) = cr_cap_ver r
            then asmtest_grow h (cr_cap_ver r) (length (cr_vers r) + 1) 16
            else (True, cr_cap_ver r, h)) of (ok, cap', h') \<Rightarrow>
        if \<not> ok then (ASMTEST_CI_EUNAVAIL, seq, r, h')
        else (ASMTEST_CI_OK, seq + 1,
              r\<lparr>cr_vers := cr_vers r @ [\<lparr>cv_seq = seq + 1, cv_bytes = bytes\<rparr>], cr_cap_ver := cap'\<rparr>, h'))"

section \<open>Track, refresh, query\<close>

definition asmtest_codeimage_new :: "'w ci_os \<Rightarrow> heap \<Rightarrow> 'ev asmtest_codeimage option \<times> heap" where
  "asmtest_codeimage_new os h =
     (case alloc h of (ok, h') \<Rightarrow>
        if \<not> ok then (None, h')
        else (Some \<lparr>ci_page_size = (if os_page_size os \<le> 0 then 4096 else of_int (os_page_size os)),
                    ci_pagemap_scan_ok = os_scan_ok os, ci_seq = 0, ci_regions = [], ci_cap_reg = 0,
                    ci_bpf = None\<rparr>, h'))"

text \<open>The body of the scan loop for region \<open>i\<close>: the status and whether a version was added.\<close>

definition scan_one ::
  "'w ci_os \<Rightarrow> 'w \<Rightarrow> nat \<Rightarrow> 'ev asmtest_codeimage \<Rightarrow> heap \<Rightarrow> (int \<times> bool \<times> 'ev asmtest_codeimage \<times> heap) option" where
  "scan_one os w i img h =
     (let r = ci_regions img ! i in
      case (if cr_npages r \<le> 64 then (True, h) else alloc h) of (ok, h1) \<Rightarrow>
        if \<not> ok then Some (ASMTEST_CI_EUNAVAIL, False, img, h1)
        else case ci_region_dirty os h1 w img r of
          None \<Rightarrow> None
        | Some ((dirty, any), h2) \<Rightarrow>
            if \<not> any then Some (ASMTEST_CI_OK, False, img, h2)
            else case ci_read_region os h2 w (cr_base r) (cr_len r) of
              (None, h3) \<Rightarrow> Some (ASMTEST_CI_OK, False, img, h3)
            | (Some bytes, h3) \<Rightarrow>
                (case ci_region_add_version h3 (ci_seq img) r bytes of (rc, seq', r', h4) \<Rightarrow>
                   Some (rc, rc = ASMTEST_CI_OK, img\<lparr>ci_seq := seq', ci_regions := (ci_regions img)[i := r']\<rparr>, h4)))"

fun scan_loop ::
  "'w ci_os \<Rightarrow> 'w \<Rightarrow> nat list \<Rightarrow> int \<Rightarrow> 'ev asmtest_codeimage \<Rightarrow> heap \<Rightarrow> (int \<times> 'ev asmtest_codeimage \<times> heap) option" where
  "scan_loop os w [] new_versions img h = Some (new_versions, img, h)"
| "scan_loop os w (i # is) new_versions img h =
     (case scan_one os w i img h of
        None \<Rightarrow> None
      | Some (rc, added, img', h') \<Rightarrow>
          if rc \<noteq> ASMTEST_CI_OK then Some (ASMTEST_CI_EUNAVAIL, img', h')
          else scan_loop os w is (if added then new_versions + 1 else new_versions) img' h')"

definition ci_scan_range ::
  "'w ci_os \<Rightarrow> 'w \<Rightarrow> 'ev asmtest_codeimage \<Rightarrow> heap \<Rightarrow> nat \<Rightarrow> nat \<Rightarrow> (int \<times> 'ev asmtest_codeimage \<times> heap) option" where
  "ci_scan_range os w img h lo hi = scan_loop os w [lo..<hi] 0 img h"

text \<open>The region record of \<^verbatim>\<open>track\<close> before its first version.\<close>

definition new_region :: "u64 \<Rightarrow> u64 \<Rightarrow> nat \<Rightarrow> ci_region" where
  "new_region ps b len =
     (let first = b AND NOT (ps - 1);
          lst = (b + of_nat len - 1) AND NOT (ps - 1)
      in \<lparr>cr_base = b, cr_len = len, cr_first_page = first, cr_npages = unat ((lst - first) div ps) + 1,
          cr_vers = [], cr_cap_ver = 0\<rparr>)"

text \<open>
  The target is not stopped: \<open>tgt\<close> is what it does to the world after the regions have been scanned and read and before the soft-dirty bits are cleared. (A write to a region that comes while the scan runs is as good as
  one before the scan or one after it, as the scan still sees it or not.)
\<close>

definition ci_track_locked ::
  "'w ci_os \<Rightarrow> ('w \<Rightarrow> 'w) \<Rightarrow> 'w \<Rightarrow> heap \<Rightarrow> 'ev asmtest_codeimage \<Rightarrow> u64 \<Rightarrow> nat \<Rightarrow> (int \<times> 'ev asmtest_codeimage \<times> 'w \<times> heap) option" where
  "ci_track_locked os tgt w h img b len =
     (case (if length (ci_regions img) = ci_cap_reg img
            then asmtest_grow h (ci_cap_reg img) (length (ci_regions img) + 1) 56
            else (True, ci_cap_reg img, h)) of (ok, cap', h1) \<Rightarrow>
        if \<not> ok then Some (ASMTEST_CI_EUNAVAIL, img, w, h1)
        else let img1 = img\<lparr>ci_cap_reg := cap'\<rparr> in
          case ci_read_region os h1 w b len of
            (None, h2) \<Rightarrow> Some (ASMTEST_CI_EUNAVAIL, img1, w, h2)
          | (Some bytes, h2) \<Rightarrow>
              (case ci_region_add_version h2 (ci_seq img1) (new_region (ci_page_size img1) b len) bytes of
                 (rc, seq', r', h3) \<Rightarrow>
                   if rc \<noteq> ASMTEST_CI_OK then Some (ASMTEST_CI_EUNAVAIL, img1, w, h3)
                   else let img2 = img1\<lparr>ci_seq := seq', ci_regions := ci_regions img1 @ [r']\<rparr> in
                     case (if length (ci_regions img2) > 1
                           then ci_scan_range os w img2 h3 0 (length (ci_regions img2) - 1)
                           else Some (0, img2, h3)) of
                       None \<Rightarrow> None
                     | Some (sc, img3, h4) \<Rightarrow>
                         if sc < 0 then Some (sc, img3, w, h4)
                         else case ci_arm os (tgt w) of (rc, w') \<Rightarrow> Some (rc, img3, w', h4)))"

definition asmtest_codeimage_track ::
  "'w ci_os \<Rightarrow> ('w \<Rightarrow> 'w) \<Rightarrow> 'w \<Rightarrow> heap \<Rightarrow> 'ev asmtest_codeimage option \<Rightarrow> u64 \<Rightarrow> nat
     \<Rightarrow> (int \<times> 'ev asmtest_codeimage option \<times> 'w \<times> heap) option" where
  "asmtest_codeimage_track os tgt w h imgo b len =
     (case imgo of None \<Rightarrow> Some (ASMTEST_CI_EINVAL, None, w, h)
      | Some img \<Rightarrow>
        if b = 0 \<or> len = 0 then Some (ASMTEST_CI_EINVAL, imgo, w, h)
        else if \<not> os_available os then Some (ASMTEST_CI_EUNAVAIL, imgo, w, h)
        else map_option (\<lambda>(rc, img', w', h'). (rc, Some img', w', h')) (ci_track_locked os tgt w h img b len))"

definition ci_refresh_locked ::
  "'w ci_os \<Rightarrow> ('w \<Rightarrow> 'w) \<Rightarrow> 'w \<Rightarrow> heap \<Rightarrow> 'ev asmtest_codeimage \<Rightarrow> (int \<times> 'ev asmtest_codeimage \<times> 'w \<times> heap) option" where
  "ci_refresh_locked os tgt w h img =
     (if ci_regions img = [] then Some (0, img, w, h)
      else case ci_scan_range os w img h 0 (length (ci_regions img)) of
             None \<Rightarrow> None
           | Some (n, img', h') \<Rightarrow>
               if n < 0 then Some (n, img', w, h')
               else case ci_arm os (tgt w) of (rc, w') \<Rightarrow>
                 Some (if rc \<noteq> ASMTEST_CI_OK then rc else n, img', w', h'))"

definition asmtest_codeimage_refresh ::
  "'w ci_os \<Rightarrow> ('w \<Rightarrow> 'w) \<Rightarrow> 'w \<Rightarrow> heap \<Rightarrow> 'ev asmtest_codeimage option \<Rightarrow> (int \<times> 'ev asmtest_codeimage option \<times> 'w \<times> heap) option" where
  "asmtest_codeimage_refresh os tgt w h imgo =
     (case imgo of None \<Rightarrow> Some (ASMTEST_CI_EINVAL, None, w, h)
      | Some img \<Rightarrow> map_option (\<lambda>(rc, img', w', h'). (rc, Some img', w', h')) (ci_refresh_locked os tgt w h img))"

definition asmtest_codeimage_now :: "'ev asmtest_codeimage option \<Rightarrow> u64" where
  "asmtest_codeimage_now imgo = (case imgo of None \<Rightarrow> 0 | Some img \<Rightarrow> ci_seq img)"

fun pick_version :: "u64 \<Rightarrow> ci_version option \<Rightarrow> ci_version list \<Rightarrow> ci_version option" where
  "pick_version t pick [] = pick"
| "pick_version t pick (v # vs) = (if t = 0 \<or> cv_seq v \<le> t then pick_version t (Some v) vs else pick)"

text \<open>The result is the code and, on success, the bytes behind \<^verbatim>\<open>*out\<close> and \<^verbatim>\<open>*out_len\<close>.\<close>

fun ci_bytes_at_locked :: "ci_region list \<Rightarrow> u64 \<Rightarrow> u64 \<Rightarrow> int \<times> (u8 list \<times> nat) option" where
  "ci_bytes_at_locked [] a t = (ASMTEST_CI_ENOENT, None)"
| "ci_bytes_at_locked (r # rs) a t =
     (if a < cr_base r \<or> a \<ge> cr_base r + of_nat (cr_len r) then ci_bytes_at_locked rs a t
      else case pick_version t None (cr_vers r) of
             None \<Rightarrow> (ASMTEST_CI_ENOENT, None)
           | Some pick \<Rightarrow>
               (let off = unat (a - cr_base r) in (ASMTEST_CI_OK, Some (drop off (cv_bytes pick), cr_len r - off))))"

definition asmtest_codeimage_bytes_at ::
  "'ev asmtest_codeimage option \<Rightarrow> u64 \<Rightarrow> u64 \<Rightarrow> int \<times> (u8 list \<times> nat) option" where
  "asmtest_codeimage_bytes_at imgo addr t =
     (case imgo of None \<Rightarrow> (ASMTEST_CI_EINVAL, None)
      | Some img \<Rightarrow> if addr = 0 then (ASMTEST_CI_EINVAL, None) else ci_bytes_at_locked (ci_regions img) addr t)"

text \<open>A buffer of \<open>size\<close> bytes; the count returned and the bytes read.\<close>

definition asmtest_codeimage_read_live ::
  "'w ci_os \<Rightarrow> 'w \<Rightarrow> 'ev asmtest_codeimage option \<Rightarrow> u64 \<Rightarrow> nat \<Rightarrow> int \<times> u8 list" where
  "asmtest_codeimage_read_live os w imgo addr sz =
     (if imgo = None \<or> sz = 0 then (ASMTEST_CI_EINVAL, [])
      else let psz = (if os_page_size os > 0 then of_int (os_page_size os) else 4096);
               page_end = (addr + psz) AND NOT (psz - 1);
               avail = unat (page_end - addr);
               n = (if sz > avail then avail else sz)
           in case os_readv os w addr n of
                None \<Rightarrow> (ASMTEST_CI_ENOENT, [])
              | Some bytes \<Rightarrow> if bytes = [] then (ASMTEST_CI_ENOENT, []) else (int (length bytes), bytes))"

section \<open>The event queue\<close>

definition CI_BPF_QCAP :: nat where
  "CI_BPF_QCAP = 256"

definition ci_bpf_on_event :: "'ev asmtest_codeimage \<Rightarrow> 'ev \<Rightarrow> 'ev asmtest_codeimage" where
  "ci_bpf_on_event img ev =
     (case ci_bpf img of None \<Rightarrow> img
      | Some b \<Rightarrow>
        if cb_count b \<ge> CI_BPF_QCAP then img
        else let slot = (cb_head b + cb_count b) mod CI_BPF_QCAP in
          img\<lparr>ci_bpf := Some (b\<lparr>cb_q := (cb_q b)[slot := ev], cb_count := cb_count b + 1\<rparr>)\<rparr>)"

definition asmtest_codeimage_next :: "'ev asmtest_codeimage option \<Rightarrow> int \<times> 'ev option \<times> 'ev asmtest_codeimage option" where
  "asmtest_codeimage_next imgo =
     (case imgo of None \<Rightarrow> (ASMTEST_CI_EINVAL, None, None)
      | Some img \<Rightarrow> (case ci_bpf img of
          None \<Rightarrow> (ASMTEST_CI_EINVAL, None, imgo)
        | Some b \<Rightarrow>
            if cb_count b = 0 then (0, None, imgo)
            else (1, Some (cb_q b ! cb_head b),
                  Some (img\<lparr>ci_bpf := Some (b\<lparr>cb_head := (cb_head b + 1) mod CI_BPF_QCAP, cb_count := cb_count b - 1\<rparr>)\<rparr>))))"

section \<open>The timeline only grows\<close>

text \<open>What an operation may do to the timeline as it stood at sequence \<open>n\<close>: append later versions and regions.\<close>

definition reg_ext :: "u64 \<Rightarrow> ci_region \<Rightarrow> ci_region \<Rightarrow> bool" where
  "reg_ext n r r' \<longleftrightarrow> cr_base r' = cr_base r \<and> cr_len r' = cr_len r \<and> cr_first_page r' = cr_first_page r \<and>
     cr_npages r' = cr_npages r \<and> (\<exists>vs. cr_vers r' = cr_vers r @ vs \<and> (\<forall>v\<in>set vs. n < cv_seq v))"

definition ci_ext :: "u64 \<Rightarrow> 'ev asmtest_codeimage \<Rightarrow> 'ev asmtest_codeimage \<Rightarrow> bool" where
  "ci_ext n img img' \<longleftrightarrow>
     length (ci_regions img) \<le> length (ci_regions img') \<and>
     (\<forall>i<length (ci_regions img). reg_ext n (ci_regions img ! i) (ci_regions img' ! i)) \<and>
     (\<forall>i. length (ci_regions img) \<le> i \<and> i < length (ci_regions img') \<longrightarrow> (\<forall>v\<in>set (cr_vers (ci_regions img' ! i)). n < cv_seq v)) \<and>
     ci_page_size img' = ci_page_size img"

lemma reg_ext_refl [simp]: "reg_ext n r r"
  by (simp add: reg_ext_def)

lemma reg_ext_trans: "reg_ext n a b \<Longrightarrow> reg_ext n b c \<Longrightarrow> reg_ext n a c"
  by (force simp: reg_ext_def)

lemma ci_ext_refl [simp]: "ci_ext n img img"
  by (auto simp: ci_ext_def)

lemma ci_ext_trans:
  assumes "ci_ext n a b" "ci_ext n b c"
  shows "ci_ext n a c"
  unfolding ci_ext_def
proof (intro conjI allI impI)
  let ?la = "length (ci_regions a)" and ?lb = "length (ci_regions b)" and ?lc = "length (ci_regions c)"
  show "?la \<le> ?lc" "ci_page_size c = ci_page_size a" using assms by (auto simp: ci_ext_def)
  show "reg_ext n (ci_regions a ! i) (ci_regions c ! i)" if "i < ?la" for i
  proof -
    have "i < ?lb" using that assms(1) by (simp add: ci_ext_def)
    then show ?thesis using that assms reg_ext_trans by (auto simp: ci_ext_def)
  qed
  show "\<forall>v\<in>set (cr_vers (ci_regions c ! i)). n < cv_seq v" if "?la \<le> i \<and> i < ?lc" for i
  proof (cases "i < ?lb")
    case True
    then have "reg_ext n (ci_regions b ! i) (ci_regions c ! i)" using assms(2) by (simp add: ci_ext_def)
    then obtain vs where "cr_vers (ci_regions c ! i) = cr_vers (ci_regions b ! i) @ vs" "\<forall>v\<in>set vs. n < cv_seq v"
      by (auto simp: reg_ext_def)
    moreover have "\<forall>v\<in>set (cr_vers (ci_regions b ! i)). n < cv_seq v"
      using True that assms(1) by (auto simp: ci_ext_def)
    ultimately show ?thesis by auto
  next
    case False
    then have "?lb \<le> i" by simp
    then show ?thesis using that assms(2) unfolding ci_ext_def by blast
  qed
qed

lemma u64_succ: "unat (n::u64) + 1 < 2 ^ 64 \<Longrightarrow> n < n + 1 \<and> unat (n + 1) = unat n + 1"
  by (simp add: word_less_nat_alt unat_word_ariths)

lemma add_version_cases:
  assumes "ci_region_add_version h seq r bytes = (rc, seq', r', h')"
  obtains "rc = ASMTEST_CI_EUNAVAIL" "seq' = seq" "r' = r"
  | cap' where "rc = ASMTEST_CI_OK" "seq' = seq + 1"
      "r' = r\<lparr>cr_vers := cr_vers r @ [\<lparr>cv_seq = seq + 1, cv_bytes = bytes\<rparr>], cr_cap_ver := cap'\<rparr>"
proof -
  obtain ok cap' h1 where g: "(if length (cr_vers r) = cr_cap_ver r
      then asmtest_grow h (cr_cap_ver r) (length (cr_vers r) + 1) 16 else (True, cr_cap_ver r, h)) = (ok, cap', h1)"
    by (cases "if length (cr_vers r) = cr_cap_ver r
      then asmtest_grow h (cr_cap_ver r) (length (cr_vers r) + 1) 16 else (True, cr_cap_ver r, h)") auto
  from assms that(1) that(2) [of cap'] show ?thesis
    unfolding ci_region_add_version_def g by (cases ok) (auto simp del: ci_region.update_convs)
qed

lemma set_region_ext:
  "i < length (ci_regions img) \<Longrightarrow> reg_ext n (ci_regions img ! i) r' \<Longrightarrow>
   ci_ext n img (img\<lparr>ci_seq := s, ci_regions := (ci_regions img)[i := r']\<rparr>)"
  by (auto simp: ci_ext_def nth_list_update)

text \<open>One region scanned: nothing, or one later version of that region.\<close>

lemma scan_one_cases:
  assumes "scan_one os w i img h = Some (rc, added, img', h')"
  obtains "img' = img" "\<not> added"
  | bytes cap' where "rc = ASMTEST_CI_OK" "added" "os_readv os w (cr_base (ci_regions img ! i)) (cr_len (ci_regions img ! i)) = Some bytes"
      "length bytes = cr_len (ci_regions img ! i)"
      "img' = img\<lparr>ci_seq := ci_seq img + 1, ci_regions := (ci_regions img)[i := (ci_regions img ! i)\<lparr>cr_vers :=
          cr_vers (ci_regions img ! i) @ [\<lparr>cv_seq = ci_seq img + 1, cv_bytes = bytes\<rparr>], cr_cap_ver := cap'\<rparr>]\<rparr>"
proof -
  from assms show ?thesis
    by (auto simp: scan_one_def Let_def ci_read_region_def ASMTEST_CI_OK_def ASMTEST_CI_EUNAVAIL_def
        split: prod.splits if_splits option.splits elim!: add_version_cases intro: that)
qed

lemma scan_one_ext:
  assumes "scan_one os w i img h = Some (rc, added, img', h')" "i < length (ci_regions img)" "n \<le> ci_seq img"
    "unat (ci_seq img) + 1 < 2 ^ 64"
  shows "ci_ext n img img'" "n \<le> ci_seq img'" "unat (ci_seq img') \<le> unat (ci_seq img) + 1"
    "length (ci_regions img') = length (ci_regions img)"
proof -
  have "ci_ext n img img' \<and> n \<le> ci_seq img' \<and> unat (ci_seq img') \<le> unat (ci_seq img) + 1 \<and>
      length (ci_regions img') = length (ci_regions img)"
    using assms(1)
  proof (cases rule: scan_one_cases)
    case (2 bytes cap')
    have "n < ci_seq img + 1" using u64_succ [OF assms(4)] assms(3) by (blast intro: order_le_less_trans)
    moreover have "reg_ext n (ci_regions img ! i) ((ci_regions img ! i)\<lparr>cr_vers :=
        cr_vers (ci_regions img ! i) @ [\<lparr>cv_seq = ci_seq img + 1, cv_bytes = bytes\<rparr>], cr_cap_ver := cap'\<rparr>)"
      using calculation by (simp add: reg_ext_def)
    ultimately show ?thesis using 2(5) set_region_ext [OF assms(2)] u64_succ [OF assms(4)] by simp
  qed (use assms(3) in simp)
  then show "ci_ext n img img'" "n \<le> ci_seq img'" "unat (ci_seq img') \<le> unat (ci_seq img) + 1"
    "length (ci_regions img') = length (ci_regions img)" by blast+
qed

lemma scan_loop_ext:
  "scan_loop os w is k img h = Some (rc, img', h') \<Longrightarrow> \<forall>i\<in>set is. i < length (ci_regions img) \<Longrightarrow>
   n \<le> ci_seq img \<Longrightarrow> unat (ci_seq img) + length is < 2 ^ 64 \<Longrightarrow>
   ci_ext n img img' \<and> length (ci_regions img') = length (ci_regions img)"
proof (induction "is" arbitrary: k img h)
  case (Cons i "is")
  from Cons.prems(1) obtain rc1 added img1 h1 where
    o: "scan_one os w i img h = Some (rc1, added, img1, h1)" and
    r: "if rc1 \<noteq> ASMTEST_CI_OK then img' = img1 else scan_loop os w is (if added then k + 1 else k) img1 h1 = Some (rc, img', h')"
    by (auto split: option.splits if_splits)
  have "i < length (ci_regions img)" "unat (ci_seq img) + 1 < 2 ^ 64" using Cons.prems(2,4) by auto
  note e = scan_one_ext [OF o this(1) Cons.prems(3) this(2)]
  show ?case
  proof (cases "rc1 = ASMTEST_CI_OK")
    case True
    have "ci_ext n img1 img' \<and> length (ci_regions img') = length (ci_regions img1)"
      using r True Cons.prems(2,4) e by (intro Cons.IH [of "if added then k + 1 else k" img1 h1]) auto
    with e ci_ext_trans show ?thesis by metis
  qed (use r e in simp)
qed simp

lemma track_ext:
  assumes "ci_track_locked os tgt w h img b len = Some (rc, img', w', h')" "n \<le> ci_seq img"
    "unat (ci_seq img) + length (ci_regions img) + 1 < 2 ^ 64"
  shows "ci_ext n img img'"
proof -
  obtain ok cap' h1 where g: "(if length (ci_regions img) = ci_cap_reg img
      then asmtest_grow h (ci_cap_reg img) (length (ci_regions img) + 1) 56 else (True, ci_cap_reg img, h)) = (ok, cap', h1)"
    by (metis prod_cases3)
  let ?img1 = "img\<lparr>ci_cap_reg := cap'\<rparr>"
  have e1: "ci_ext n img ?img1" by (auto simp: ci_ext_def)
  show ?thesis
  proof (cases ok)
    case True
    obtain bo h2 where rd: "ci_read_region os h1 w b len = (bo, h2)" by fastforce
    show ?thesis
    proof (cases bo)
      case None
      with assms(1) e1 True rd show ?thesis unfolding ci_track_locked_def g by (simp add: Let_def)
    next
      case (Some bytes)
      obtain rc1 seq' r' h3 where
        av: "ci_region_add_version h2 (ci_seq ?img1) (new_region (ci_page_size ?img1) b len) bytes = (rc1, seq', r', h3)"
        by (metis prod_cases4)
      from av show ?thesis
      proof (cases rule: add_version_cases)
        case 1
        with assms(1) e1 True rd Some av show ?thesis
          unfolding ci_track_locked_def g by (auto simp: Let_def ci_codes)
      next
        case (2 cap2)
        let ?img2 = "?img1\<lparr>ci_seq := seq', ci_regions := ci_regions ?img1 @ [r']\<rparr>"
        have "unat (ci_seq img) + 1 < 2 ^ 64" using assms(3) by linarith
        then have s: "n < seq'" "unat seq' = unat (ci_seq img) + 1"
          using 2(2) assms(2) u64_succ [of "ci_seq img"] by (auto intro: order_le_less_trans)
        have "\<forall>v\<in>set (cr_vers r'). n < cv_seq v" using 2 s(1) by (simp add: new_region_def Let_def)
        then have e2: "ci_ext n img ?img2" by (auto simp: ci_ext_def nth_append less_Suc_eq)
        from assms(1) True rd Some av 2(1) obtain sc h4 where
          sc: "(if length (ci_regions ?img2) > 1 then ci_scan_range os w ?img2 h3 0 (length (ci_regions ?img2) - 1)
               else Some (0, ?img2, h3)) = Some (sc, img', h4)"
          unfolding ci_track_locked_def g by (auto simp: Let_def split: option.splits if_splits prod.splits)
        have "ci_ext n ?img2 img'"
        proof (cases "length (ci_regions ?img2) > 1")
          case True
          then have "scan_loop os w [0..<length (ci_regions img)] 0 ?img2 h3 = Some (sc, img', h4)"
            using sc by (simp add: ci_scan_range_def)
          from scan_loop_ext [OF this, of n] s assms(3) show ?thesis by simp
        qed (use sc in simp)
        with e2 ci_ext_trans show ?thesis by blast
      qed
    qed
  qed (use assms(1) in \<open>simp add: ci_track_locked_def g\<close>)
qed

lemma refresh_ext:
  assumes "ci_refresh_locked os tgt w h img = Some (rc, img', w', h')" "n \<le> ci_seq img"
    "unat (ci_seq img) + length (ci_regions img) + 1 < 2 ^ 64"
  shows "ci_ext n img img'"
proof (cases "ci_regions img = []")
  case False
  with assms(1) obtain k h1 where "scan_loop os w [0..<length (ci_regions img)] 0 img h = Some (k, img', h1)"
    by (auto simp: ci_refresh_locked_def ci_scan_range_def split: option.splits if_splits prod.splits)
  from scan_loop_ext [OF this, of n] assms(2,3) show ?thesis by simp
qed (use assms(1) in \<open>simp add: ci_refresh_locked_def\<close>)

text \<open>A query about the past does not see what is appended.\<close>

lemma pick_later: "t \<noteq> 0 \<Longrightarrow> \<forall>v\<in>set vs. t < cv_seq v \<Longrightarrow> pick_version t p (us @ vs) = pick_version t p us"
proof (induction us arbitrary: p)
  case Nil
  then show ?case by (cases vs) auto
qed simp

lemma bytes_later:
  "t \<noteq> 0 \<Longrightarrow> \<forall>r\<in>set rs. \<forall>v\<in>set (cr_vers r). t < cv_seq v \<Longrightarrow> ci_bytes_at_locked rs a t = (ASMTEST_CI_ENOENT, None)"
proof (induction rs)
  case (Cons r rs)
  have "pick_version t None (cr_vers r) = None" using Cons.prems pick_later [of t "cr_vers r" None "[]"] by simp
  with Cons show ?case by simp
qed simp

lemma bytes_ext:
  "list_all2 (reg_ext t) rs xs \<Longrightarrow> t \<noteq> 0 \<Longrightarrow> \<forall>r\<in>set ys. \<forall>v\<in>set (cr_vers r). t < cv_seq v \<Longrightarrow>
   ci_bytes_at_locked (xs @ ys) a t = ci_bytes_at_locked rs a t"
proof (induction rs xs rule: list_all2_induct)
  case Nil
  then show ?case by (simp add: bytes_later)
next
  case (Cons r rs x xs)
  from Cons.hyps(1) obtain vs where vs: "cr_vers x = cr_vers r @ vs" "\<forall>v\<in>set vs. t < cv_seq v"
    "cr_base x = cr_base r" "cr_len x = cr_len r" by (auto simp: reg_ext_def)
  then have "pick_version t None (cr_vers x) = pick_version t None (cr_vers r)" using Cons.prems pick_later by simp
  with vs(3,4) Cons.IH [OF Cons.prems] show ?case by (simp only: append_Cons ci_bytes_at_locked.simps)
qed

lemma bytes_at_ext:
  assumes "ci_ext t img img'" "t \<noteq> 0"
  shows "ci_bytes_at_locked (ci_regions img') a t = ci_bytes_at_locked (ci_regions img) a t"
proof -
  let ?k = "length (ci_regions img)"
  have l: "list_all2 (reg_ext t) (ci_regions img) (take ?k (ci_regions img'))"
    using assms(1) by (auto simp: ci_ext_def list_all2_conv_all_nth)
  have "\<forall>r\<in>set (drop ?k (ci_regions img')). \<forall>v\<in>set (cr_vers r). t < cv_seq v"
  proof
    fix r assume "r \<in> set (drop ?k (ci_regions img'))"
    then obtain i where "i < length (ci_regions img') - ?k" "r = ci_regions img' ! (?k + i)"
      using assms(1) by (auto simp: ci_ext_def in_set_conv_nth)
    moreover from this have "?k \<le> ?k + i \<and> ?k + i < length (ci_regions img')" by simp
    ultimately show "\<forall>v\<in>set (cr_vers r). t < cv_seq v" using assms(1) unfolding ci_ext_def by blast
  qed
  from bytes_ext [OF l assms(2) this, of a] show ?thesis by simp
qed

section \<open>Soft-dirty tracking\<close>

abbreviation page_of :: "u64 \<Rightarrow> u64 \<Rightarrow> u64" where
  "page_of ps a \<equiv> a AND NOT (ps - 1)"

text \<open>
  What the kernel documents, for a target with memory \<open>mem\<close> and soft-dirty pages \<open>sd\<close> and for a write
  \<open>wr\<close> of the target: clearing the references resets every bit and touches no memory, a read returns
  memory, the pagemap entry of a page has its soft-dirty bit at position 55, a scan with room for
  every page reports exactly the soft-dirty pages of its range, a write marks its page.
\<close>

definition soft_dirty_os ::
  "'w ci_os \<Rightarrow> ('w \<Rightarrow> u64 \<Rightarrow> u8 option) \<Rightarrow> ('w \<Rightarrow> u64 \<Rightarrow> bool) \<Rightarrow> ('w \<Rightarrow> u64 \<Rightarrow> u8 \<Rightarrow> 'w) \<Rightarrow> u64 \<Rightarrow> bool" where
  "soft_dirty_os os mem sd wr ps \<longleftrightarrow>
     (\<exists>k<64. ps = 2 ^ k) \<and>
     (\<forall>w w'. os_clear_refs os w = (True, w') \<longrightarrow> mem w' = mem w \<and> (\<forall>p. \<not> sd w' p)) \<and>
     (\<forall>w w'. os_clear_refs os w = (False, w') \<longrightarrow> mem w' = mem w \<and> sd w' = sd w) \<and>
     (\<forall>w a n bs. os_readv os w a n = Some bs \<longrightarrow> (\<forall>i<length bs. mem w (a + of_nat i) = Some (bs ! i))) \<and>
     (\<forall>w. os_open_pagemap os w) \<and>
     (\<forall>w p. page_of ps p = p \<longrightarrow> (\<exists>entry. os_pread os w (p div ps * 8) = Some entry \<and> (bit entry 55 \<longleftrightarrow> sd w p))) \<and>
     (\<forall>w s e n vec. os_scan os w s e n = Some vec \<and> s \<le> e \<and> unat (e - s) \<le> n * unat ps \<longrightarrow>
        (\<forall>p. page_of ps p = p \<and> s \<le> p \<and> p < e \<and> sd w p \<longrightarrow> (\<exists>v\<in>set vec. fst v \<le> p \<and> p < snd v)) \<and>
        (\<forall>v\<in>set vec. page_of ps (fst v) = fst v \<and> page_of ps (snd v) = snd v \<and> s \<le> fst v \<and> fst v < snd v \<and>
           snd v \<le> e \<and> sd w (fst v))) \<and>
     (\<forall>w a b. mem (wr w a b) = (mem w)(a \<mapsto> b) \<and> (\<forall>p. sd (wr w a b) p \<longleftrightarrow> sd w p \<or> p = page_of ps a))"

lemma soft_dirty_osD:
  assumes "soft_dirty_os os mem sd wr ps"
  shows "\<exists>k<64. ps = 2 ^ k"
    "os_clear_refs os w = (True, w') \<Longrightarrow> mem w' = mem w \<and> (\<forall>p. \<not> sd w' p)"
    "os_clear_refs os w = (False, w') \<Longrightarrow> mem w' = mem w \<and> sd w' = sd w"
    "os_readv os w a n = Some bs \<Longrightarrow> i < length bs \<Longrightarrow> mem w (a + of_nat i) = Some (bs ! i)"
    "os_open_pagemap os w"
    "page_of ps p = p \<Longrightarrow> \<exists>entry. os_pread os w (p div ps * 8) = Some entry \<and> (bit entry 55 \<longleftrightarrow> sd w p)"
    "os_scan os w s e n = Some vec \<Longrightarrow> s \<le> e \<Longrightarrow> unat (e - s) \<le> n * unat ps \<Longrightarrow>
       (\<forall>p. page_of ps p = p \<and> s \<le> p \<and> p < e \<and> sd w p \<longrightarrow> (\<exists>v\<in>set vec. fst v \<le> p \<and> p < snd v)) \<and>
       (\<forall>v\<in>set vec. page_of ps (fst v) = fst v \<and> page_of ps (snd v) = snd v \<and> s \<le> fst v \<and> fst v < snd v \<and>
          snd v \<le> e \<and> sd w (fst v))"
    "mem (wr w a b) = (mem w)(a \<mapsto> b) \<and> (\<forall>p. sd (wr w a b) p \<longleftrightarrow> sd w p \<or> p = page_of ps a)"
proof -
  note d = assms [unfolded soft_dirty_os_def]
  show "\<exists>k<64. ps = 2 ^ k"
    by (rule d [THEN conjunct1])
  show "mem w' = mem w \<and> (\<forall>p. \<not> sd w' p)" if "os_clear_refs os w = (True, w')" for w w'
    using d [THEN conjunct2, THEN conjunct1, rule_format, OF that(1)] that by blast
  show "mem w' = mem w \<and> sd w' = sd w" if "os_clear_refs os w = (False, w')" for w w'
    using d [THEN conjunct2, THEN conjunct2, THEN conjunct1, rule_format, OF that(1)] that by blast
  show "mem w (a + of_nat i) = Some (bs ! i)" if "os_readv os w a n = Some bs" "i < length bs" for w a n bs i
    using d [THEN conjunct2, THEN conjunct2, THEN conjunct2, THEN conjunct1, rule_format, OF that(1)] that by blast
  show "os_open_pagemap os w" for w
    by (rule d [THEN conjunct2, THEN conjunct2, THEN conjunct2, THEN conjunct2, THEN conjunct1, rule_format])
  show "\<exists>entry. os_pread os w (p div ps * 8) = Some entry \<and> (bit entry 55 \<longleftrightarrow> sd w p)" if "page_of ps p = p" for p w
    using d [THEN conjunct2, THEN conjunct2, THEN conjunct2, THEN conjunct2, THEN conjunct2, THEN conjunct1, rule_format, OF that] .
  show "(\<forall>p. page_of ps p = p \<and> s \<le> p \<and> p < e \<and> sd w p \<longrightarrow> (\<exists>v\<in>set vec. fst v \<le> p \<and> p < snd v)) \<and>
       (\<forall>v\<in>set vec. page_of ps (fst v) = fst v \<and> page_of ps (snd v) = snd v \<and> s \<le> fst v \<and> fst v < snd v \<and>
          snd v \<le> e \<and> sd w (fst v))" if "os_scan os w s e n = Some vec" "s \<le> e" "unat (e - s) \<le> n * unat ps" for w s e n vec
    using d [THEN conjunct2, THEN conjunct2, THEN conjunct2, THEN conjunct2, THEN conjunct2, THEN conjunct2, THEN conjunct1, rule_format, of w s e n vec, OF conjI, OF that(1) conjI, OF that(2,3)] .
  show "mem (wr w a b) = (mem w)(a \<mapsto> b) \<and> (\<forall>p. sd (wr w a b) p \<longleftrightarrow> sd w p \<or> p = page_of ps a)" for w a b
    by (rule d [THEN conjunct2, THEN conjunct2, THEN conjunct2, THEN conjunct2, THEN conjunct2, THEN conjunct2, THEN conjunct2, rule_format])
qed

section \<open>Page geometry\<close>

lemma u64_bound: "unat (a::u64) < 2 ^ 64"
  using unsigned_less [of a, where 'a = nat] by simp

lemma unat_inj: "unat (a::u64) = unat b \<Longrightarrow> a = b"
  by (metis of_nat_unat ucast_id)

lemma unat_pow2:
  assumes "k < 64"
  shows "unat ((2::u64) ^ k) = 2 ^ k"
proof -
  have "unat (of_nat (2 ^ k) :: u64) = 2 ^ k mod 2 ^ 64" by (simp only: unat_of_nat) simp
  also have "\<dots> = 2 ^ k" using assms by (intro mod_less power_strict_increasing) simp_all
  finally show ?thesis by simp
qed

lemma unat_page_of:
  assumes "k < 64"
  shows "unat (page_of (2 ^ k) (a::u64)) = unat a div 2 ^ k * 2 ^ k"
proof -
  have "page_of (2 ^ k) a = push_bit k (drop_bit k a)"
    by (rule bit_eqI) (auto simp: bit_simps mask_eq_exp_minus_1 [symmetric])
  moreover have "unat a div 2 ^ k * 2 ^ k < 2 ^ 64"
    using unsigned_less [of a, where 'a = nat] by (intro le_less_trans [OF div_times_less_eq_dividend]) simp
  moreover have "unat (a div 2 ^ k) = unat a div 2 ^ k" using assms by (simp add: unat_div unat_pow2)
  ultimately show ?thesis
    using assms by (simp add: push_bit_eq_mult drop_bit_eq_div unat_word_ariths(2) unat_pow2)
qed

text \<open>A region as \<^verbatim>\<open>track\<close> makes it, below the last page of the address space.\<close>

definition reg_ok :: "u64 \<Rightarrow> ci_region \<Rightarrow> bool" where
  "reg_ok ps r \<longleftrightarrow> 0 < cr_len r \<and> unat (cr_base r) + cr_len r + unat ps \<le> 2 ^ 64 \<and>
     cr_first_page r = page_of ps (cr_base r) \<and>
     cr_npages r = unat ((page_of ps (cr_base r + of_nat (cr_len r) - 1) - page_of ps (cr_base r)) div ps) + 1"

lemma unat_offset: "unat (a::u64) + i < 2 ^ 64 \<Longrightarrow> unat (a + of_nat i) = unat a + i"
  by (simp add: unat_word_ariths unat_of_nat)

lemma reg_pages:
  assumes "reg_ok ps r" "ps = 2 ^ k" "k < 64"
  defines "f \<equiv> unat (cr_base r) div 2 ^ k" and "l \<equiv> (unat (cr_base r) + cr_len r - 1) div 2 ^ k"
  shows "unat (cr_first_page r) = f * 2 ^ k" "cr_npages r = l - f + 1" "f \<le> l" "(l + 1) * 2 ^ k < 2 ^ 64"
    "i \<le> cr_npages r \<Longrightarrow> unat (page_addr ps r i) = (f + i) * 2 ^ k"
proof -
  have len: "0 < cr_len r" and top: "unat (cr_base r) + cr_len r + 2 ^ k \<le> 2 ^ 64"
    using assms(1-3) by (auto simp: reg_ok_def unat_pow2)
  have lst: "unat (cr_base r + of_nat (cr_len r) - 1) = unat (cr_base r) + cr_len r - 1"
  proof -
    have "cr_base r + of_nat (cr_len r) - 1 = cr_base r + of_nat (cr_len r - 1)"
      using len by (simp add: of_nat_diff)
    moreover have "unat (cr_base r) + (cr_len r - 1) < 2 ^ 64" using len top by linarith
    ultimately show ?thesis using unat_offset [of "cr_base r" "cr_len r - 1"] len by (simp add: add_diff_eq)
  qed
  show fp: "unat (cr_first_page r) = f * 2 ^ k" using assms(1-3) by (simp add: reg_ok_def unat_page_of f_def)
  show fl: "f \<le> l" using len unfolding f_def l_def by (intro div_le_mono) simp
  have "l * 2 ^ k \<le> unat (cr_base r) + cr_len r - 1" unfolding l_def by (rule div_times_less_eq_dividend)
  then show lt: "(l + 1) * 2 ^ k < 2 ^ 64" using top len by simp
  have lp: "unat (page_of ps (cr_base r + of_nat (cr_len r) - 1)) = l * 2 ^ k"
    using assms(2,3) by (simp add: unat_page_of lst l_def)
  have "unat (page_of ps (cr_base r + of_nat (cr_len r) - 1) - page_of ps (cr_base r)) = l * 2 ^ k - f * 2 ^ k"
    using lp fp fl assms(1) by (subst unat_sub) (simp_all add: reg_ok_def word_le_nat_alt)
  then have "unat ((page_of ps (cr_base r + of_nat (cr_len r) - 1) - page_of ps (cr_base r)) div ps) = l - f"
    using assms(2,3) by (simp add: unat_div unat_pow2 diff_mult_distrib [symmetric])
  then show np: "cr_npages r = l - f + 1" using assms(1) by (simp add: reg_ok_def)
  show "unat (page_addr ps r i) = (f + i) * 2 ^ k" if "i \<le> cr_npages r"
  proof -
    have "(f + i) * 2 ^ k \<le> (l + 1) * 2 ^ k" using that np fl by (intro mult_le_mono1) simp
    then have "unat (cr_first_page r) + i * 2 ^ k < 2 ^ 64" using fp lt by (simp add: algebra_simps)
    from unat_offset [OF this] show ?thesis
      using fp assms(2) by (simp add: page_addr_def algebra_simps)
  qed
qed

lemma aligned_multiple:
  assumes "page_of ps p = p" "ps = 2 ^ k" "k < 64"
  shows "unat p = unat p div 2 ^ k * 2 ^ k"
  using assms unat_page_of [of k p] by simp

lemma page_addr_aligned:
  assumes "reg_ok ps r" "ps = 2 ^ k" "k < 64" "i \<le> cr_npages r"
  shows "page_of ps (page_addr ps r i) = page_addr ps r i"
  using reg_pages(5) [OF assms] unat_page_of [OF assms(3), of "page_addr ps r i"] assms(2)
  by (intro unat_inj) simp

text \<open>Every byte of a region lies in one of its pages, and every aligned address of its span is one of them.\<close>

lemma byte_page:
  assumes "reg_ok ps r" "ps = 2 ^ k" "k < 64" "j < cr_len r"
  shows "\<exists>i<cr_npages r. page_of ps (cr_base r + of_nat j) = page_addr ps r i"
proof -
  note g = reg_pages [OF assms(1-3)]
  have u: "unat (cr_base r + of_nat j) = unat (cr_base r) + j"
    using assms(1,4) by (intro unat_offset) (simp add: reg_ok_def)
  define i where "i = (unat (cr_base r) + j) div 2 ^ k - unat (cr_base r) div 2 ^ k"
  have a: "unat (cr_base r) div 2 ^ k \<le> (unat (cr_base r) + j) div 2 ^ k" by (intro div_le_mono) simp
  have b: "(unat (cr_base r) + j) div 2 ^ k \<le> (unat (cr_base r) + cr_len r - 1) div 2 ^ k"
    using assms(4) by (intro div_le_mono) simp
  have i: "i < cr_npages r" unfolding i_def g(2) using a b by linarith
  then have "unat (page_addr ps r i) = (unat (cr_base r) div 2 ^ k + i) * 2 ^ k" using g(5) by simp
  also have "\<dots> = unat (page_of ps (cr_base r + of_nat j))"
    using a assms(2,3) by (simp add: unat_page_of u i_def)
  finally show ?thesis using i by (metis unat_inj)
qed

lemma span_page:
  assumes "reg_ok ps r" "ps = 2 ^ k" "k < 64" "page_of ps p = p" "cr_first_page r \<le> p" "p < page_addr ps r (cr_npages r)"
  shows "\<exists>i<cr_npages r. p = page_addr ps r i"
proof -
  note g = reg_pages [OF assms(1-3)]
  define x where "x = unat p div 2 ^ k"
  have x: "unat p = x * 2 ^ k" using aligned_multiple [OF assms(4,2,3)] by (simp add: x_def)
  let ?f = "unat (cr_base r) div 2 ^ k"
  have "?f * 2 ^ k \<le> x * 2 ^ k" "x * 2 ^ k < (?f + cr_npages r) * 2 ^ k"
    using assms(5,6) x g(1) g(5) [of "cr_npages r"] by (simp_all add: word_le_nat_alt word_less_nat_alt)
  then have "?f \<le> x" "x < ?f + cr_npages r" by simp_all
  then have "x - ?f < cr_npages r" "unat (page_addr ps r (x - ?f)) = unat p" using g(5) [of "x - ?f"] x by auto
  then show ?thesis by (metis unat_inj)
qed

section \<open>A region is reported dirty exactly when one of its pages is\<close>

lemma mark_pages_any:
  assumes "ps = 2 ^ k" "k < 64" "unat first = f * 2 ^ k"
  shows "unat p = (f + x) * 2 ^ k \<Longrightarrow> unat e = (f + y) * 2 ^ k \<Longrightarrow> x \<le> y \<Longrightarrow> y \<le> length (fst st) \<Longrightarrow>
    \<exists>d. length d = length (fst st) \<and> mark_pages ps first p e st = Some (d, snd st \<or> p < e)"
proof (induction "y - x" arbitrary: x p st)
  case 0
  then have "\<not> p < e" by (simp add: word_less_nat_alt)
  then show ?case by (intro exI [of _ "fst st"]) (simp add: mark_pages.simps [of ps first p e st])
next
  case (Suc n)
  then have xy: "x < y" by simp
  have pe: "p < e" using xy Suc.prems(1,2) by (simp add: word_less_nat_alt)
  have "unat (p - first) = x * 2 ^ k"
    using Suc.prems(1) assms(3) by (subst unat_sub) (simp_all add: word_le_nat_alt algebra_simps)
  then have idx: "unat ((p - first) div ps) = x" using assms(1,2) by (simp add: unat_div unat_pow2)
  have "(f + Suc x) * 2 ^ k \<le> (f + y) * 2 ^ k" using xy by (intro mult_le_mono1) simp
  moreover have s: "unat p + 2 ^ k = (f + Suc x) * 2 ^ k" unfolding Suc.prems(1) by simp
  ultimately have "unat p + 2 ^ k < 2 ^ 64"
    using Suc.prems(2) u64_bound [of e] by (metis le_less_trans)
  then have np: "unat (p + ps) = (f + Suc x) * 2 ^ k" using unat_offset [of p "2 ^ k"] s assms(1) by simp
  then have up: "p < p + ps" unfolding word_less_nat_alt s [symmetric] by simp
  let ?st = "((fst st)[x := True], True)"
  have "\<exists>d. length d = length (fst ?st) \<and> mark_pages ps first (p + ps) e ?st = Some (d, snd ?st \<or> p + ps < e)"
    using Suc.hyps(2) Suc.prems np xy by (intro Suc.hyps(1) [of "Suc x"]) auto
  moreover have "mark_pages ps first p e st = mark_pages ps first (p + ps) e ?st"
    using pe up idx xy Suc.prems(4) by (simp add: mark_pages.simps [of ps first p e st] Let_def)
  ultimately show ?case using pe by simp
qed

lemma mark_regions_any:
  assumes "ps = 2 ^ k" "k < 64" "unat first = f * 2 ^ k"
  shows "\<forall>v\<in>set vec. fst v < snd v \<and> (\<exists>x y. unat (fst v) = (f + x) * 2 ^ k \<and> unat (snd v) = (f + y) * 2 ^ k \<and> y \<le> n) \<Longrightarrow>
    length (fst st) = n \<Longrightarrow> \<exists>d. mark_regions ps first vec st = Some (d, snd st \<or> vec \<noteq> [])"
proof (induction vec arbitrary: st)
  case Nil
  then show ?case by (intro exI [of _ "fst st"]) simp
next
  case (Cons v vec)
  then obtain x y where v: "unat (fst v) = (f + x) * 2 ^ k" "unat (snd v) = (f + y) * 2 ^ k" "y \<le> n" "fst v < snd v" by auto
  then have "(f + x) * 2 ^ k < (f + y) * 2 ^ k" by (simp add: word_less_nat_alt)
  then have "x \<le> y" by simp
  from mark_pages_any [OF assms v(1,2) this, of st] v(3,4) Cons.prems(2) obtain d where
    d: "length d = n" "mark_pages ps first (fst v) (snd v) st = Some (d, True)" by auto
  from Cons.IH [of "(d, True)"] d Cons.prems(1) show ?case by auto
qed

lemma manual_pages_any:
  "snd (manual_pages os w ps r st) \<longleftrightarrow> snd st \<or> (\<exists>i<cr_npages r. ci_page_dirty_manual os w ps (page_addr ps r i))"
proof -
  have "snd (foldl (\<lambda>st i. if ci_page_dirty_manual os w ps (page_addr ps r i) then ((fst st)[i := True], True) else st) st [0..<n]) \<longleftrightarrow>
      snd st \<or> (\<exists>i<n. ci_page_dirty_manual os w ps (page_addr ps r i))" for n
    by (induction n) (auto simp: less_Suc_eq)
  then show ?thesis by (simp add: manual_pages_def)
qed

definition reg_dirty :: "('w \<Rightarrow> u64 \<Rightarrow> bool) \<Rightarrow> 'w \<Rightarrow> u64 \<Rightarrow> ci_region \<Rightarrow> bool" where
  "reg_dirty sd w ps r \<longleftrightarrow> (\<exists>i<cr_npages r. sd w (page_addr ps r i))"

lemma page_dirty_manual_sd:
  assumes "soft_dirty_os os mem sd wr ps" "page_of ps p = p"
  shows "ci_page_dirty_manual os w ps p \<longleftrightarrow> sd w p"
proof -
  obtain entry where e: "os_pread os w (p div ps * 8) = Some entry" "bit entry 55 \<longleftrightarrow> sd w p"
    using soft_dirty_osD(6) [OF assms] by blast
  have "entry AND CI_PM_SOFT_DIRTY \<noteq> 0 \<longleftrightarrow> bit entry 55"
    unfolding CI_PM_SOFT_DIRTY_def bit_iff_and_push_bit_not_eq_0 ..
  with e soft_dirty_osD(5) [OF assms(1)] show ?thesis by (simp add: ci_page_dirty_manual_def)
qed

lemma region_dirty_exact:
  assumes os: "soft_dirty_os os mem sd wr ps" and ok: "reg_ok ps r" and ps: "ci_page_size img = ps"
  shows "\<exists>d h'. ci_region_dirty os h w img r = Some ((d, reg_dirty sd w ps r), h') \<and> (h = [] \<longrightarrow> h' = [])"
proof -
  obtain k where k: "ps = 2 ^ k" "k < 64" using soft_dirty_osD(1) [OF os] by blast
  note g = reg_pages [OF ok k]
  let ?st0 = "(replicate (cr_npages r) False, False)" and ?e = "cr_first_page r + of_nat (cr_npages r) * ps"
  have "snd (manual_pages os w ps r ?st0) \<longleftrightarrow> reg_dirty sd w ps r"
    using page_dirty_manual_sd [OF os page_addr_aligned [OF ok k]] by (auto simp: manual_pages_any reg_dirty_def)
  then obtain d0 where man: "manual_pages os w ps r ?st0 = (d0, reg_dirty sd w ps r)"
    by (cases "manual_pages os w ps r ?st0") auto
  show ?thesis
  proof (cases "ci_pagemap_scan_ok img \<and> os_open_pagemap os w \<and> fst (alloc h) \<and> os_scan os w (cr_first_page r) ?e (cr_npages r) \<noteq> None")
    case True
    then obtain vec where vec: "os_scan os w (cr_first_page r) ?e (cr_npages r) = Some vec" by auto
    have e: "?e = page_addr ps r (cr_npages r)" by (simp add: page_addr_def)
    then have ue: "unat ?e = (unat (cr_base r) div 2 ^ k + cr_npages r) * 2 ^ k" using g(5) by simp
    have le: "cr_first_page r \<le> ?e" using ue g(1) by (simp add: word_le_nat_alt algebra_simps)
    have "unat (?e - cr_first_page r) = cr_npages r * 2 ^ k"
      using le ue g(1) by (subst unat_sub) (simp_all add: algebra_simps)
    then have room: "unat (?e - cr_first_page r) \<le> cr_npages r * unat ps" using k by (simp add: unat_pow2)
    note sc = soft_dirty_osD(7) [OF os vec le room]
    have "\<exists>x y. unat (fst v) = (unat (cr_base r) div 2 ^ k + x) * 2 ^ k \<and> unat (snd v) = (unat (cr_base r) div 2 ^ k + y) * 2 ^ k \<and>
        y \<le> cr_npages r" if "v \<in> set vec" for v
    proof -
      have a: "page_of ps (fst v) = fst v" "page_of ps (snd v) = snd v" "cr_first_page r \<le> fst v" "fst v < snd v" "snd v \<le> ?e"
        using sc that by blast+
      define x y where "x = unat (fst v) div 2 ^ k - unat (cr_base r) div 2 ^ k" and "y = unat (snd v) div 2 ^ k - unat (cr_base r) div 2 ^ k"
      let ?f = "unat (cr_base r) div 2 ^ k"
      have m: "unat (fst v) = unat (fst v) div 2 ^ k * 2 ^ k" "unat (snd v) = unat (snd v) div 2 ^ k * 2 ^ k"
        using aligned_multiple a(1,2) k by blast+
      have "?f * 2 ^ k \<le> unat (fst v) div 2 ^ k * 2 ^ k" "unat (fst v) div 2 ^ k * 2 ^ k < unat (snd v) div 2 ^ k * 2 ^ k"
        "unat (snd v) div 2 ^ k * 2 ^ k \<le> (?f + cr_npages r) * 2 ^ k"
        using a(3-5) g(1) ue m by (simp_all add: word_le_nat_alt word_less_nat_alt)
      then have "?f \<le> unat (fst v) div 2 ^ k" "?f \<le> unat (snd v) div 2 ^ k" "unat (snd v) div 2 ^ k \<le> ?f + cr_npages r" by simp_all
      with m show ?thesis by (intro exI [of _ x] exI [of _ y]) (simp add: x_def y_def)
    qed
    then obtain d where d: "mark_regions ps (cr_first_page r) vec ?st0 = Some (d, vec \<noteq> [])"
      using mark_regions_any [OF k g(1), of vec "cr_npages r" ?st0] sc by auto
    have "vec \<noteq> [] \<longleftrightarrow> reg_dirty sd w ps r"
    proof
      assume "vec \<noteq> []"
      then obtain v where "v \<in> set vec" by (cases vec) auto
      with sc have "page_of ps (fst v) = fst v" "cr_first_page r \<le> fst v" "fst v < ?e" "sd w (fst v)" by auto
      with span_page [OF ok k, of "fst v"] show "reg_dirty sd w ps r" by (auto simp: reg_dirty_def e)
    next
      assume "reg_dirty sd w ps r"
      then obtain i where i: "i < cr_npages r" "sd w (page_addr ps r i)" by (auto simp: reg_dirty_def)
      have "unat (page_addr ps r i) = (unat (cr_base r) div 2 ^ k + i) * 2 ^ k" using g(5) i(1) by simp
      then have "cr_first_page r \<le> page_addr ps r i" "page_addr ps r i < ?e"
        using g(1) ue i(1) by (simp_all add: word_le_nat_alt word_less_nat_alt algebra_simps)
      with sc i page_addr_aligned [OF ok k, of i] show "vec \<noteq> []" by fastforce
    qed
    with True vec d ps show ?thesis by (cases "alloc h"; cases h) (auto simp: ci_region_dirty_def Let_def)
  next
    case False
    with man ps show ?thesis
      by (cases h) (auto simp: ci_region_dirty_def Let_def split: prod.splits option.splits)
  qed
qed

section \<open>No change goes unnoticed\<close>

text \<open>The newest version of a region is what the target holds now.\<close>

definition reg_current :: "('w \<Rightarrow> u64 \<Rightarrow> u8 option) \<Rightarrow> 'w \<Rightarrow> ci_region \<Rightarrow> bool" where
  "reg_current mem w r \<longleftrightarrow> cr_vers r \<noteq> [] \<and> length (cv_bytes (last (cr_vers r))) = cr_len r \<and>
     (\<forall>i<cr_len r. mem w (cr_base r + of_nat i) = Some (cv_bytes (last (cr_vers r)) ! i))"

text \<open>The invariant: a region is current, or one of its pages is soft-dirty and the next scan will see it.\<close>

definition ci_sync :: "('w \<Rightarrow> u64 \<Rightarrow> u8 option) \<Rightarrow> ('w \<Rightarrow> u64 \<Rightarrow> bool) \<Rightarrow> u64 \<Rightarrow> 'ev asmtest_codeimage \<Rightarrow> 'w \<Rightarrow> bool" where
  "ci_sync mem sd ps img w \<longleftrightarrow> ci_page_size img = ps \<and>
     (\<forall>r\<in>set (ci_regions img). reg_ok ps r \<and> (reg_current mem w r \<or> reg_dirty sd w ps r))"

definition readable :: "'w ci_os \<Rightarrow> 'w \<Rightarrow> 'ev asmtest_codeimage \<Rightarrow> bool" where
  "readable os w img \<longleftrightarrow> (\<forall>r\<in>set (ci_regions img). \<exists>bs. os_readv os w (cr_base r) (cr_len r) = Some bs \<and> length bs = cr_len r)"

abbreviation shapes :: "'ev asmtest_codeimage \<Rightarrow> (u64 \<times> nat) list" where
  "shapes img \<equiv> map (\<lambda>r. (cr_base r, cr_len r)) (ci_regions img)"

lemma readable_shapes: "readable os w img \<longleftrightarrow> (\<forall>(b, n)\<in>set (shapes img). \<exists>bs. os_readv os w b n = Some bs \<and> length bs = n)"
  by (simp add: readable_def)

lemma grow_heap: "asmtest_grow [] cap need elem = (ok, cap', h') \<Longrightarrow> h' = []"
  by (auto simp: asmtest_grow_def Let_def split: if_splits option.splits)

lemma add_version_heap: "ci_region_add_version [] seq r bytes = (rc, seq', r', h') \<Longrightarrow> h' = []"
  by (auto simp: ci_region_add_version_def split: prod.splits if_splits dest: grow_heap)

lemma added_current:
  assumes "soft_dirty_os os mem sd wr ps" "os_readv os w (cr_base r) (cr_len r) = Some bytes" "length bytes = cr_len r"
  shows "reg_current mem w (r\<lparr>cr_vers := vs @ [\<lparr>cv_seq = s, cv_bytes = bytes\<rparr>], cr_cap_ver := c\<rparr>)"
  using soft_dirty_osD(4) [OF assms(1,2)] assms(3) by (simp add: reg_current_def)

lemma reg_ok_vers [simp]:
  "reg_ok ps (r\<lparr>cr_vers := vs, cr_cap_ver := c\<rparr>) = reg_ok ps r"
  "reg_dirty sd w ps (r\<lparr>cr_vers := vs, cr_cap_ver := c\<rparr>) = reg_dirty sd w ps r"
  by (simp_all add: reg_ok_def reg_dirty_def page_addr_def)

lemma scan_one_sync:
  assumes os: "soft_dirty_os os mem sd wr ps" and sy: "ci_sync mem sd ps img w" and i: "i < length (ci_regions img)"
    and rd: "readable os w img"
  obtains rc added img' where "scan_one os w i img [] = Some (rc, added, img', [])" "ci_sync mem sd ps img' w"
    "shapes img' = shapes img" "rc = ASMTEST_CI_OK \<Longrightarrow> reg_current mem w (ci_regions img' ! i)"
    "\<And>j. j < length (ci_regions img) \<Longrightarrow> reg_current mem w (ci_regions img ! j) \<Longrightarrow> reg_current mem w (ci_regions img' ! j)"
proof -
  let ?r = "ci_regions img ! i"
  have r: "reg_ok ps ?r" "reg_current mem w ?r \<or> reg_dirty sd w ps ?r" and ps: "ci_page_size img = ps"
    using sy i by (auto simp: ci_sync_def)
  obtain d where d: "ci_region_dirty os [] w img ?r = Some ((d, reg_dirty sd w ps ?r), [])"
    using region_dirty_exact [OF os r(1) ps, of "[]" w] by auto
  obtain bytes where b: "os_readv os w (cr_base ?r) (cr_len ?r) = Some bytes" "length bytes = cr_len ?r"
    using rd nth_mem [OF i] unfolding readable_def by blast
  show ?thesis
  proof (cases "reg_dirty sd w ps ?r")
    case False
    then have "scan_one os w i img [] = Some (ASMTEST_CI_OK, False, img, [])" using d by (simp add: scan_one_def Let_def)
    then show ?thesis by (rule that) (use sy r(2) False in auto)
  next
    case True
    obtain rc seq' r' h4 where av: "ci_region_add_version [] (ci_seq img) ?r bytes = (rc, seq', r', h4)" by (metis prod_cases4)
    then have h4: "h4 = []" by (rule add_version_heap)
    let ?img = "img\<lparr>ci_seq := seq', ci_regions := (ci_regions img)[i := r']\<rparr>"
    have so: "scan_one os w i img [] = Some (rc, rc = ASMTEST_CI_OK, ?img, [])"
      using d True b av h4 by (simp add: scan_one_def Let_def ci_read_region_def)
    have r': "reg_ok ps r'" "cr_base r' = cr_base ?r" "cr_len r' = cr_len ?r" "reg_dirty sd w ps r'"
      "rc = ASMTEST_CI_OK \<Longrightarrow> reg_current mem w r'" "reg_current mem w ?r \<Longrightarrow> reg_current mem w r'"
      using av r(1) True added_current [OF os b]
      by (cases rule: add_version_cases; simp add: ci_codes; fail)+
    have "ci_sync mem sd ps ?img w"
      unfolding ci_sync_def using sy r'(1,4) ps by (auto simp: ci_sync_def dest!: set_update_subset_insert [THEN subsetD])
    moreover have "shapes ?img = shapes img"
      using r'(2,3) i by (simp add: map_update list_update_same_conv)
    ultimately show ?thesis
      by (rule that [OF so]) (use r'(5,6) i in \<open>auto simp: nth_list_update\<close>)
  qed
qed

lemma scan_loop_sync:
  assumes os: "soft_dirty_os os mem sd wr ps"
  shows "ci_sync mem sd ps img w \<Longrightarrow> \<forall>i\<in>set is. i < length (ci_regions img) \<Longrightarrow> readable os w img \<Longrightarrow> 0 \<le> k \<Longrightarrow>
    \<exists>rc img'. scan_loop os w is k img [] = Some (rc, img', []) \<and> ci_sync mem sd ps img' w \<and> shapes img' = shapes img \<and>
      (\<forall>j<length (ci_regions img). reg_current mem w (ci_regions img ! j) \<or> (j \<in> set is \<and> 0 \<le> rc) \<longrightarrow>
         reg_current mem w (ci_regions img' ! j))"
proof (induction "is" arbitrary: k img)
  case Nil
  then show ?case by simp
next
  case (Cons i "is")
  have i: "i < length (ci_regions img)" using Cons.prems(2) by simp
  obtain rc1 added img1 where one: "scan_one os w i img [] = Some (rc1, added, img1, [])" "ci_sync mem sd ps img1 w"
    "shapes img1 = shapes img" "rc1 = ASMTEST_CI_OK \<Longrightarrow> reg_current mem w (ci_regions img1 ! i)"
    "\<And>j. j < length (ci_regions img) \<Longrightarrow> reg_current mem w (ci_regions img ! j) \<Longrightarrow> reg_current mem w (ci_regions img1 ! j)"
    by (rule scan_one_sync [OF os Cons.prems(1) i Cons.prems(3)]) blast
  have len: "length (ci_regions img1) = length (ci_regions img)" using one(3) map_eq_imp_length_eq by blast
  show ?case
  proof (cases "rc1 = ASMTEST_CI_OK")
    case False
    with one show ?thesis by (auto simp: ci_codes)
  next
    case True
    have rd: "readable os w img1" using Cons.prems(3) one(3) by (simp add: readable_shapes)
    have bd: "\<forall>i\<in>set is. i < length (ci_regions img1)" and k: "0 \<le> (if added then k + 1 else k)"
      using Cons.prems(2,4) len by auto
    from Cons.IH [OF one(2) bd rd k] obtain rc img' where "scan_loop os w is (if added then k + 1 else k) img1 [] = Some (rc, img', [])"
      "ci_sync mem sd ps img' w" "shapes img' = shapes img1"
      "\<forall>j<length (ci_regions img1). reg_current mem w (ci_regions img1 ! j) \<or> (j \<in> set is \<and> 0 \<le> rc) \<longrightarrow>
         reg_current mem w (ci_regions img' ! j)"
      by blast
    with True one len show ?thesis by (auto simp: ci_codes)
  qed
qed

lemma write_sync:
  assumes os: "soft_dirty_os os mem sd wr ps" and sy: "ci_sync mem sd ps img w"
  shows "ci_sync mem sd ps img (wr w a b)"
  unfolding ci_sync_def
proof (intro conjI ballI)
  show "ci_page_size img = ps" using sy by (simp add: ci_sync_def)
  fix r assume "r \<in> set (ci_regions img)"
  with sy have ok: "reg_ok ps r" and r: "reg_current mem w r \<or> reg_dirty sd w ps r" by (auto simp: ci_sync_def)
  show "reg_ok ps r" by (rule ok)
  have sd: "sd (wr w a b) p \<longleftrightarrow> sd w p \<or> p = page_of ps a" and m: "mem (wr w a b) = (mem w)(a \<mapsto> b)" for p
    using soft_dirty_osD(8) [OF os] by blast+
  obtain k where k: "ps = 2 ^ k" "k < 64" using soft_dirty_osD(1) [OF os] by blast
  show "reg_current mem (wr w a b) r \<or> reg_dirty sd (wr w a b) ps r"
  proof (cases "\<exists>j<cr_len r. a = cr_base r + of_nat j")
    case True
    then obtain j where "j < cr_len r" "a = cr_base r + of_nat j" by blast
    with byte_page [OF ok k, of j] have "\<exists>i<cr_npages r. page_addr ps r i = page_of ps a" by metis
    then show ?thesis by (auto simp: reg_dirty_def sd)
  next
    case False
    with r show ?thesis by (auto simp: reg_current_def reg_dirty_def m sd)
  qed
qed

lemma arm_sync:
  assumes os: "soft_dirty_os os mem sd wr ps" and sy: "ci_sync mem sd ps img w"
    and all: "\<forall>j<length (ci_regions img). reg_current mem w (ci_regions img ! j)" and arm: "ci_arm os w = (rc, w')"
  shows "ci_sync mem sd ps img w'" "\<forall>r\<in>set (ci_regions img). reg_current mem w' r" "rc \<in> {ASMTEST_CI_OK, ASMTEST_CI_EUNAVAIL}"
proof -
  obtain ok where c: "os_clear_refs os w = (ok, w')" using arm by (auto simp: ci_arm_def split: prod.splits)
  have m: "mem w' = mem w" using soft_dirty_osD(2,3) [OF os, of w w'] c by (cases ok) auto
  show cur: "\<forall>r\<in>set (ci_regions img). reg_current mem w' r" using all m by (auto simp: in_set_conv_nth reg_current_def)
  then show "ci_sync mem sd ps img w'" using sy by (simp add: ci_sync_def)
  show "rc \<in> {ASMTEST_CI_OK, ASMTEST_CI_EUNAVAIL}" using arm by (auto simp: ci_arm_def split: prod.splits)
qed

lemma refresh_scan:
  assumes os: "soft_dirty_os os mem sd wr ps" and sy: "ci_sync mem sd ps img w" and rd: "readable os w img"
  obtains rc img' w' where "ci_refresh_locked os tgt w [] img = Some (rc, img', w', [])" "ci_sync mem sd ps img' w"
    "0 \<le> rc \<longrightarrow> (\<forall>r\<in>set (ci_regions img'). reg_current mem w r) \<and> (ci_regions img' \<noteq> [] \<longrightarrow> ci_arm os (tgt w) = (ASMTEST_CI_OK, w'))"
    "w' = w \<or> (\<forall>r\<in>set (ci_regions img'). reg_current mem w r) \<and> (\<exists>rc. ci_arm os (tgt w) = (rc, w'))"
proof (cases "ci_regions img = []")
  case True
  then show ?thesis using sy by (intro that [of 0 img w]) (simp_all add: ci_refresh_locked_def)
next
  case False
  let ?is = "[0..<length (ci_regions img)]"
  obtain n img' where sc: "scan_loop os w ?is 0 img [] = Some (n, img', [])" "ci_sync mem sd ps img' w" "shapes img' = shapes img"
    "\<forall>j<length (ci_regions img). reg_current mem w (ci_regions img ! j) \<or> (j \<in> set ?is \<and> 0 \<le> n) \<longrightarrow> reg_current mem w (ci_regions img' ! j)"
    using scan_loop_sync [OF os sy _ rd, of ?is 0] by auto
  have len: "length (ci_regions img') = length (ci_regions img)" using sc(3) map_eq_imp_length_eq by blast
  show ?thesis
  proof (cases "n < 0")
    case True
    then show ?thesis using sc False by (intro that [of n img' w]) (simp_all add: ci_refresh_locked_def ci_scan_range_def)
  next
    case nn: False
    obtain rc w' where arm: "ci_arm os (tgt w) = (rc, w')" by fastforce
    have "\<forall>r\<in>set (ci_regions img'). reg_current mem w r" using sc(4) nn len by (auto simp: in_set_conv_nth)
    moreover have "rc \<in> {ASMTEST_CI_OK, ASMTEST_CI_EUNAVAIL}" using arm by (auto simp: ci_arm_def split: prod.splits)
    ultimately show ?thesis using sc(1,2) nn False arm
      by (intro that [of "if rc \<noteq> ASMTEST_CI_OK then rc else n" img' w']) (auto simp: ci_refresh_locked_def ci_scan_range_def ci_codes)
  qed
qed

lemma refresh_sync:
  assumes os: "soft_dirty_os os mem sd wr ps" and sy: "ci_sync mem sd ps img w" and rd: "readable os w img"
    and r: "ci_refresh_locked os id w [] img = Some (rc, img', w', h')"
  shows "ci_sync mem sd ps img' w'"
proof -
  have s: "ci_sync mem sd ps img' w" "w' = w \<or> (\<forall>r\<in>set (ci_regions img'). reg_current mem w r) \<and> (\<exists>rc. ci_arm os w = (rc, w'))"
    using refresh_scan [OF os sy rd, of id] r by (auto simp: id_def)
  from s(2) show ?thesis
  proof
    assume "(\<forall>r\<in>set (ci_regions img'). reg_current mem w r) \<and> (\<exists>rc. ci_arm os w = (rc, w'))"
    then obtain c where "ci_arm os w = (c, w')" "\<forall>j<length (ci_regions img'). reg_current mem w (ci_regions img' ! j)" by auto
    then show ?thesis using arm_sync(1) [OF os s(1)] by blast
  qed (use s(1) in simp)
qed

lemma new_region_ok:
  "0 < len \<Longrightarrow> unat b + len + unat ps \<le> 2 ^ 64 \<Longrightarrow> reg_ok ps (new_region ps b len)"
  by (simp add: reg_ok_def new_region_def Let_def)

lemma track_sync:
  assumes os: "soft_dirty_os os mem sd wr ps" and sy: "ci_sync mem sd ps img w" and rd: "readable os w img"
    and len: "0 < len" "unat b + len + unat ps \<le> 2 ^ 64"
  obtains rc img' w' h' where "ci_track_locked os id w [] img b len = Some (rc, img', w', h')" "ci_sync mem sd ps img' w'"
proof -
  obtain ok cap' h1 where g: "(if length (ci_regions img) = ci_cap_reg img
      then asmtest_grow [] (ci_cap_reg img) (length (ci_regions img) + 1) 56 else (True, ci_cap_reg img, [])) = (ok, cap', h1)"
    by (metis prod_cases3)
  then have h1: "h1 = []" using grow_heap by (auto split: if_splits)
  let ?img1 = "img\<lparr>ci_cap_reg := cap'\<rparr>" and ?r = "new_region ps b len"
  have ps: "ci_page_size img = ps" and sy1: "ci_sync mem sd ps ?img1 w" using sy by (simp_all add: ci_sync_def)
  note tr = ci_track_locked_def [of os id w "[]" img b len, unfolded g]
  show ?thesis
  proof (cases "ok \<and> fst (ci_read_region os [] w b len) \<noteq> None")
    case False
    then show ?thesis using that tr sy sy1 h1
      by (cases ok; cases "ci_read_region os [] w b len") (auto simp: Let_def)
  next
    case True
    then obtain bytes where b: "ci_read_region os [] w b len = (Some bytes, [])"
      by (auto simp: ci_read_region_def split: option.splits)
    then have bb: "os_readv os w (cr_base ?r) (cr_len ?r) = Some bytes" "length bytes = cr_len ?r"
      by (auto simp: ci_read_region_def new_region_def Let_def split: option.splits if_splits)
    obtain rc seq' r' h3 where av: "ci_region_add_version [] (ci_seq img) ?r bytes = (rc, seq', r', h3)" by (metis prod_cases4)
    then have h3: "h3 = []" by (rule add_version_heap)
    from av show ?thesis
    proof (cases rule: add_version_cases)
      case 1
      then show ?thesis using that tr sy1 True h1 b av ps by (auto simp: Let_def ci_codes)
    next
      case (2 cap2)
      let ?img2 = "?img1\<lparr>ci_seq := seq', ci_regions := ci_regions img @ [r']\<rparr>" and ?is = "[0..<length (ci_regions img)]"
      have r': "reg_ok ps r'" "reg_current mem w r'" "(cr_base r', cr_len r') = (b, len)"
      proof -
        show "reg_ok ps r'" unfolding 2(3) reg_ok_vers by (rule new_region_ok [OF len])
        show "reg_current mem w r'" unfolding 2(3) by (rule added_current [OF os bb])
        show "(cr_base r', cr_len r') = (b, len)" using 2(3) by (simp add: new_region_def Let_def)
      qed
      have sy2: "ci_sync mem sd ps ?img2 w" using sy1 r' by (auto simp: ci_sync_def)
      have rd2: "readable os w ?img2" using rd r'(3) bb by (auto simp: readable_def new_region_def Let_def)
      obtain n img' where sc: "scan_loop os w ?is 0 ?img2 [] = Some (n, img', [])" "ci_sync mem sd ps img' w" "shapes img' = shapes ?img2"
        "\<forall>j<length (ci_regions ?img2). reg_current mem w (ci_regions ?img2 ! j) \<or> (j \<in> set ?is \<and> 0 \<le> n) \<longrightarrow> reg_current mem w (ci_regions img' ! j)"
        using scan_loop_sync [OF os sy2 _ rd2, of ?is 0] by auto
      have if_sc: "(if length (ci_regions ?img2) > 1 then ci_scan_range os w ?img2 [] 0 (length (ci_regions ?img2) - 1)
          else Some (0, ?img2, [])) = Some (n, img', [])"
        using sc(1) by (auto simp: ci_scan_range_def)
      have tr2: "ci_track_locked os id w [] img b len =
          (if n < 0 then Some (n, img', w, []) else case ci_arm os w of (rc, w') \<Rightarrow> Some (rc, img', w', []))"
        using tr True h1 b av h3 ps 2(1) if_sc by (simp add: Let_def)
      show ?thesis
      proof (cases "n < 0")
        case True
        then show ?thesis using tr2 sc(2) that by simp
      next
        case nn: False
        obtain rc w' where arm: "ci_arm os w = (rc, w')" by fastforce
        have "length (ci_regions img') = length (ci_regions ?img2)" using sc(3) map_eq_imp_length_eq by blast
        moreover have "reg_current mem w (ci_regions ?img2 ! j)" if "\<not> j < length (ci_regions img)" "j < length (ci_regions ?img2)" for j
          using that r'(2) by (simp add: nth_append)
        ultimately have "\<forall>j<length (ci_regions img'). reg_current mem w (ci_regions img' ! j)"
          using sc(4) nn by (metis atLeast_upt lessThan_iff not_less)
        from arm_sync(1) [OF os sc(2) this arm] tr2 nn arm show ?thesis using that by simp
      qed
    qed
  qed
qed

section \<open>Recorder and target together\<close>

text \<open>
  The states of a new image and its target under target writes, tracks and refreshes, in any order,
  with memory available to the recorder and every tracked region readable when it is scanned.
\<close>

inductive ci_reach :: "'w ci_os \<Rightarrow> ('w \<Rightarrow> u64 \<Rightarrow> u8 \<Rightarrow> 'w) \<Rightarrow> u64 \<Rightarrow> 'ev asmtest_codeimage \<Rightarrow> 'w \<Rightarrow> bool"
  for os :: "'w ci_os" and wr and ps where
  start: "asmtest_codeimage_new os [] = (Some img, h') \<Longrightarrow> ci_page_size img = ps \<Longrightarrow> ci_reach os wr ps img w"
| target: "ci_reach os wr ps img w \<Longrightarrow> ci_reach os wr ps img (wr w a b)"
| track: "ci_reach os wr ps img w \<Longrightarrow> readable os w img \<Longrightarrow> unat b + len + unat ps \<le> 2 ^ 64 \<Longrightarrow>
    asmtest_codeimage_track os id w [] (Some img) b len = Some (rc, Some img', w', h') \<Longrightarrow> ci_reach os wr ps img' w'"
| refresh: "ci_reach os wr ps img w \<Longrightarrow> readable os w img \<Longrightarrow>
    asmtest_codeimage_refresh os id w [] (Some img) = Some (rc, Some img', w', h') \<Longrightarrow> ci_reach os wr ps img' w'"

lemma reach_sync:
  assumes "ci_reach os wr ps img w" "soft_dirty_os os mem sd wr ps"
  shows "ci_sync mem sd ps img w"
  using assms(1)
proof (induction rule: ci_reach.induct)
  case (start img h' w)
  then show ?case by (auto simp: asmtest_codeimage_new_def ci_sync_def)
next
  case (target img w a b)
  then show ?case by (intro write_sync [OF assms(2)])
next
  case (track img w b len rc img' w' h')
  show ?case
  proof (cases "b = 0 \<or> len = 0 \<or> \<not> os_available os")
    case True
    then show ?thesis using track by (auto simp: asmtest_codeimage_track_def split: if_splits)
  next
    case False
    then have "0 < len" by simp
    from track_sync [OF assms(2) track.IH track.hyps(2) this track.hyps(3)] obtain rc1 img1 w1 h1 where
      "ci_track_locked os id w [] img b len = Some (rc1, img1, w1, h1)" "ci_sync mem sd ps img1 w1" .
    with track.hyps(4) False show ?thesis by (simp add: asmtest_codeimage_track_def)
  qed
next
  case (refresh img w rc img' w' h')
  then have "ci_refresh_locked os id w [] img = Some (rc, img', w', h')" by (auto simp: asmtest_codeimage_refresh_def)
  then show ?case by (rule refresh_sync [OF assms(2) refresh.IH refresh.hyps(2)])
qed

lemma pick_newest: "vs \<noteq> [] \<Longrightarrow> pick_version 0 p vs = Some (last vs)"
  by (induction vs arbitrary: p) auto

lemma newest_is_live:
  assumes "\<forall>r\<in>set rs. reg_ok ps r \<and> reg_current mem w r" "ci_bytes_at_locked rs a 0 = (rc, Some (bs, n))"
  shows "length bs = n \<and> 0 < n \<and> (\<forall>i<n. mem w (a + of_nat i) = Some (bs ! i))"
  using assms
proof (induction rs)
  case (Cons r rs)
  show ?case
  proof (cases "a < cr_base r \<or> a \<ge> cr_base r + of_nat (cr_len r)")
    case True
    with Cons show ?thesis by simp
  next
    case False
    have ok: "reg_ok ps r" and cur: "reg_current mem w r" using Cons.prems(1) by auto
    define off where "off = unat (a - cr_base r)"
    have a: "a = cr_base r + of_nat off" by (simp add: off_def)
    have top: "unat (cr_base r) + cr_len r < 2 ^ 64 + 1" using ok by (simp add: reg_ok_def)
    have ps0: "0 < unat ps \<or> unat (cr_base r) + cr_len r \<le> 2 ^ 64" using ok by (simp add: reg_ok_def)
    have "off < cr_len r"
    proof (cases "unat (cr_base r) + cr_len r < 2 ^ 64")
      case True
      then have "unat (cr_base r + of_nat (cr_len r)) = unat (cr_base r) + cr_len r" by (rule unat_offset)
      moreover have "unat a < unat (cr_base r + of_nat (cr_len r))" using False by (simp add: word_less_nat_alt not_le)
      moreover have "off = unat a - unat (cr_base r)" unfolding off_def using False by (subst unat_sub) auto
      ultimately show ?thesis using ok by (auto simp: reg_ok_def)
    next
      case wrap: False
      then have "unat (cr_base r) + cr_len r = 2 ^ 64" using top by simp
      then have "cr_base r + of_nat (cr_len r) = 0" by (intro unat_inj) (simp add: unat_word_ariths unat_of_nat mod_add_right_eq)
      with False show ?thesis by simp
    qed
    with Cons.prems(2) False cur have "n = cr_len r - off" "bs = drop off (cv_bytes (last (cr_vers r)))"
      by (auto simp: reg_current_def pick_newest off_def Let_def)
    moreover have "mem w (a + of_nat i) = Some (cv_bytes (last (cr_vers r)) ! (off + i))" if "i < cr_len r - off" for i
    proof -
      have "off + i < cr_len r" using that by simp
      then have "mem w (cr_base r + of_nat (off + i)) = Some (cv_bytes (last (cr_vers r)) ! (off + i))"
        using cur unfolding reg_current_def by blast
      then show ?thesis by (simp add: a add.assoc)
    qed
    ultimately show ?thesis using \<open>off < cr_len r\<close> cur by (auto simp: reg_current_def)
  qed
qed simp

section \<open>Properties\<close>

text \<open>
  C9: The past does not change. Whatever the kernel answers and whichever allocations fail, after a track
  or a refresh a query for a recorded instant (a nonzero sequence not above \<^verbatim>\<open>now\<close>) gives exactly the
  answer it gave before; the sequence counter must not wrap during the operation.
\<close>

theorem codeimage_history_stable:
  assumes "asmtest_codeimage_track os tgt w h (Some img) b len = Some (rc, Some img', w', h') \<or>
      asmtest_codeimage_refresh os tgt w h (Some img) = Some (rc, Some img', w', h')"
    and "t \<noteq> 0" "t \<le> asmtest_codeimage_now (Some img)" "unat (ci_seq img) + length (ci_regions img) + 1 < 2 ^ 64"
  shows "asmtest_codeimage_bytes_at (Some img') a t = asmtest_codeimage_bytes_at (Some img) a t"
proof -
  have t: "t \<le> ci_seq img" using assms(3) by (simp add: asmtest_codeimage_now_def)
  have "ci_ext t img img'"
    using assms(1) track_ext [OF _ t assms(4)] refresh_ext [OF _ t assms(4)]
    by (auto simp: asmtest_codeimage_track_def asmtest_codeimage_refresh_def split: if_splits)
  from bytes_at_ext [OF this assms(2)] show ?thesis by (simp add: asmtest_codeimage_bytes_at_def)
qed

text \<open>
  C8: A refresh records what the target held when it was scanned. On a kernel with soft-dirty tracking, with every allocation granted and every tracked region readable when it is scanned, after any interleaving of target
  writes, tracks and refreshes that the target did not write into, a refresh returns; when it reports success, every byte a query for the newest version returns is the byte the target held at the scan. The target may do anything
  between the scan and the clearing of the soft-dirty bits (\<open>tgt\<close>), and its memory after the refresh is then what it made of it: so the newest version is the target's memory when it writes nothing in between, and a write that does fall
  there is in no version. A write of the last kind is not seen by a later refresh either, and a failed allocation of the read buffer loses a write while success is reported (\<open>refresh_race_loses_write\<close>, \<open>refresh_oom_loses_write\<close>).
\<close>

theorem codeimage_refresh_current:
  assumes "soft_dirty_os os mem sd wr ps" "ci_reach os wr ps img w" "readable os w img"
  shows "\<exists>rc img' w'. asmtest_codeimage_refresh os tgt w [] (Some img) = Some (rc, Some img', w', []) \<and>
    (0 \<le> rc \<longrightarrow> (\<forall>a rc bs n. asmtest_codeimage_bytes_at (Some img') a 0 = (rc, Some (bs, n)) \<longrightarrow>
       length bs = n \<and> 0 < n \<and> (\<forall>i<n. mem w (a + of_nat i) = Some (bs ! i)) \<and> mem w' = mem (tgt w)))"
proof -
  obtain rc img' w' where
    r: "ci_refresh_locked os tgt w [] img = Some (rc, img', w', [])" "ci_sync mem sd ps img' w"
      "0 \<le> rc \<longrightarrow> (\<forall>r\<in>set (ci_regions img'). reg_current mem w r) \<and> (ci_regions img' \<noteq> [] \<longrightarrow> ci_arm os (tgt w) = (ASMTEST_CI_OK, w'))"
    by (rule refresh_scan [OF assms(1) reach_sync [OF assms(2,1)] assms(3)])
  have "length bs = n \<and> 0 < n \<and> (\<forall>i<n. mem w (a + of_nat i) = Some (bs ! i)) \<and> mem w' = mem (tgt w)"
    if z: "0 \<le> rc" and y: "asmtest_codeimage_bytes_at (Some img') a 0 = (c, Some (bs, n))" for a c bs n
  proof -
    have q: "ci_bytes_at_locked (ci_regions img') a 0 = (c, Some (bs, n))"
      using y by (auto simp: asmtest_codeimage_bytes_at_def split: if_splits)
    then have "ci_regions img' \<noteq> []" by auto
    then obtain ok where "os_clear_refs os (tgt w) = (ok, w')" using r(3) z by (auto simp: ci_arm_def split: prod.splits)
    then have "mem w' = mem (tgt w)" using soft_dirty_osD(2,3) [OF assms(1), of "tgt w" w'] by (cases ok) auto
    then show ?thesis using newest_is_live [OF _ q, of ps mem w] r(2,3) z by (auto simp: ci_sync_def)
  qed
  with r(1) show ?thesis by (auto simp: asmtest_codeimage_refresh_def)
qed

text \<open>A kernel with 4 KiB pages; the state of the target is its memory and its soft-dirty pages.\<close>

type_synonym demo_world = "(u64 \<Rightarrow> u8 option) \<times> (u64 \<Rightarrow> bool)"

definition demo_os :: "demo_world ci_os" where
  "demo_os = \<lparr>os_available = True, os_clear_refs = (\<lambda>w. (True, fst w, \<lambda>_. False)), os_open_pagemap = (\<lambda>_. True),
     os_pread = (\<lambda>w off. Some (if snd w (off div 8 * 4096) then CI_PM_SOFT_DIRTY else 0)),
     os_scan = (\<lambda>w s e n. None), os_readv = (\<lambda>w a n. those (map (\<lambda>i. fst w (a + of_nat i)) [0..<n])),
     os_page_size = 4096, os_scan_ok = False\<rparr>"

definition demo_write :: "demo_world \<Rightarrow> u64 \<Rightarrow> u8 \<Rightarrow> demo_world" where
  "demo_write w a b = ((fst w)(a \<mapsto> b), (snd w)(page_of 4096 a := True))"

lemma those_Some: "those xs = Some ys \<longleftrightarrow> xs = map Some ys"
  by (induction xs arbitrary: ys) (auto split: option.splits simp: Cons_eq_map_conv)

lemma demo_page_index:
  assumes "page_of 4096 p = (p::u64)"
  shows "p div 4096 * 8 div 8 * 4096 = p"
proof -
  have p: "unat p = unat p div 4096 * 4096"
    using aligned_multiple [OF assms, of 12] by simp
  have "unat p div 4096 < 2 ^ 52" using u64_bound [of p] by simp
  then have "unat (p div 4096 * 8) = unat p div 4096 * 8" by (simp add: unat_word_ariths)
  then have "unat (p div 4096 * 8 div 8) = unat p div 4096" by (simp add: unat_div)
  then have "unat (p div 4096 * 8 div 8 * 4096) = unat p div 4096 * 4096"
    using p u64_bound [of p] by (simp add: unat_word_ariths(2))
  with p show ?thesis by (intro unat_inj) simp
qed

lemma demo_os_ok: "soft_dirty_os demo_os fst snd demo_write 4096"
  unfolding soft_dirty_os_def
proof (intro conjI allI impI)
  show "\<exists>k<64. (4096::u64) = 2 ^ k" by (intro exI [of _ 12]) simp
  show "\<exists>entry. os_pread demo_os w (p div 4096 * 8) = Some entry \<and> (bit entry 55 \<longleftrightarrow> snd w p)"
    if "page_of 4096 p = p" for w p
    using demo_page_index [OF that] by (auto simp: demo_os_def CI_PM_SOFT_DIRTY_def bit_simps)
  show "fst w (a + of_nat i) = Some (bs ! i)" if "os_readv demo_os w a n = Some bs" "i < length bs" for w a n bs i
  proof -
    have e: "map (\<lambda>i. fst w (a + of_nat i)) [0..<n] = map Some bs" using that(1) by (simp add: demo_os_def those_Some)
    then have "n = length bs" using map_eq_imp_length_eq by fastforce
    with e that(2) show ?thesis by (metis (no_types, lifting) add_0 length_upt minus_nat.diff_0 nth_map nth_upt)
  qed
qed (auto simp: demo_os_def demo_write_def)

abbreviation demo_w0 :: demo_world where
  "demo_w0 \<equiv> (\<lambda>a. Some 0, \<lambda>p. False)"

abbreviation demo_img0 :: "unit asmtest_codeimage" where
  "demo_img0 \<equiv> \<lparr>ci_page_size = 4096, ci_pagemap_scan_ok = False, ci_seq = 0, ci_regions = [], ci_cap_reg = 0, ci_bpf = None\<rparr>"

abbreviation demo_img1 :: "unit asmtest_codeimage" where
  "demo_img1 \<equiv> \<lparr>ci_page_size = 4096, ci_pagemap_scan_ok = False, ci_seq = 1, ci_regions =
     [\<lparr>cr_base = 0x1000, cr_len = 2, cr_first_page = 0x1000, cr_npages = 1,
       cr_vers = [\<lparr>cv_seq = 1, cv_bytes = [0, 0]\<rparr>], cr_cap_ver = 8\<rparr>], ci_cap_reg = 8, ci_bpf = None\<rparr>"

lemma demo_new: "asmtest_codeimage_new demo_os [] = (Some demo_img0, [])"
  by (simp add: asmtest_codeimage_new_def demo_os_def)

lemma demo_grow: "asmtest_grow [] 0 (Suc 0) 56 = (True, 8, [])" "asmtest_grow [] 0 (Suc 0) 16 = (True, 8, [])"
  by (simp_all add: asmtest_grow_def SIZE_MAX_def grow_loop_numeral)

lemma demo_upt: "[0..<2] = [0, Suc 0]"
  by (simp add: upt_rec)

lemma demo_track: "asmtest_codeimage_track demo_os id demo_w0 [] (Some demo_img0) 0x1000 2 = Some (0, Some demo_img1, demo_w0, [])"
  by (simp add: asmtest_codeimage_track_def ci_track_locked_def ci_read_region_def ci_region_add_version_def
      demo_os_def demo_grow new_region_def Let_def ci_arm_def ci_codes demo_upt)

abbreviation demo_img2 :: "unit asmtest_codeimage" where
  "demo_img2 \<equiv> \<lparr>ci_page_size = 4096, ci_pagemap_scan_ok = False, ci_seq = 2, ci_regions =
     [\<lparr>cr_base = 0x1000, cr_len = 2, cr_first_page = 0x1000, cr_npages = 1,
       cr_vers = [\<lparr>cv_seq = 1, cv_bytes = [0, 0]\<rparr>, \<lparr>cv_seq = 2, cv_bytes = [0, 7]\<rparr>], cr_cap_ver = 8\<rparr>],
     ci_cap_reg = 8, ci_bpf = None\<rparr>"

lemma demo_refresh:
  "asmtest_codeimage_refresh demo_os id (demo_write demo_w0 0x1001 7) [] (Some demo_img1) =
     Some (1, Some demo_img2, ((\<lambda>a. Some 0)(0x1001 \<mapsto> 7), \<lambda>_. False), [])"
  by (simp add: asmtest_codeimage_refresh_def ci_refresh_locked_def ci_scan_range_def scan_one_def ci_region_dirty_def
      manual_pages_def ci_page_dirty_manual_def page_addr_def ci_read_region_def ci_region_add_version_def
      demo_os_def demo_write_def demo_upt Let_def ci_arm_def ci_codes CI_PM_SOFT_DIRTY_def)

theorem codeimage_history_stable_witness:
  "asmtest_codeimage_bytes_at (Some demo_img1) 0x1001 1 = (0, Some ([0], 1)) \<and>
   asmtest_codeimage_bytes_at (Some demo_img2) 0x1001 1 = asmtest_codeimage_bytes_at (Some demo_img1) 0x1001 1"
proof -
  have "asmtest_codeimage_bytes_at (Some demo_img2) 0x1001 1 = asmtest_codeimage_bytes_at (Some demo_img1) 0x1001 1"
    by (rule codeimage_history_stable [OF disjI2 [OF demo_refresh]]) (simp_all add: asmtest_codeimage_now_def)
  then show ?thesis by (simp add: asmtest_codeimage_bytes_at_def ci_codes)
qed

theorem codeimage_refresh_current_witness:
  "asmtest_codeimage_bytes_at (Some demo_img2) 0x1000 0 = (0, Some ([0, 7], 2)) \<and>
   map (\<lambda>i. ((\<lambda>a. Some 0)(0x1001 \<mapsto> 7 :: u8)) (0x1000 + of_nat i :: u64)) [0, 1] = [Some 0, Some 7]"
proof -
  let ?w = "demo_write demo_w0 0x1001 7"
  have b: "asmtest_codeimage_bytes_at (Some demo_img2) 0x1000 0 = (0, Some ([0, 7], 2))"
    by (simp add: asmtest_codeimage_bytes_at_def ci_codes)
  have "ci_reach demo_os demo_write 4096 demo_img1 demo_w0"
    by (rule ci_reach.track [OF ci_reach.start [OF demo_new] _ _ demo_track]) (simp_all add: readable_def)
  then have re: "ci_reach demo_os demo_write 4096 demo_img1 ?w" by (rule ci_reach.target)
  have "readable demo_os ?w demo_img1" by (simp add: readable_def demo_os_def demo_write_def demo_upt)
  from codeimage_refresh_current [OF demo_os_ok re this, of id] b
  have "\<forall>i<2. fst (demo_write demo_w0 0x1001 7) (0x1000 + of_nat i :: u64) = Some ([0, 7 :: u8] ! i)"
    unfolding demo_refresh option.inject prod.inject by fastforce
  then have "\<forall>i<2. ((\<lambda>a. Some 0)(0x1001 \<mapsto> 7)) (0x1000 + of_nat i :: u64) = Some ([0, 7 :: u8] ! i)" by (simp add: demo_write_def)
  from spec [OF this, of 0] spec [OF this, of 1] b show ?thesis by simp
qed

section \<open>The event queue is a bounded FIFO\<close>

definition bpf_ok :: "'ev ci_bpf \<Rightarrow> bool" where
  "bpf_ok b \<longleftrightarrow> length (cb_q b) = CI_BPF_QCAP \<and> cb_head b < CI_BPF_QCAP \<and> cb_count b \<le> CI_BPF_QCAP"

definition bpf_abs :: "'ev ci_bpf \<Rightarrow> 'ev list" where
  "bpf_abs b = map (\<lambda>i. cb_q b ! ((cb_head b + i) mod CI_BPF_QCAP)) [0..<cb_count b]"

text \<open>
  The emission queue is a bounded FIFO. On a queue in a valid state, the ring-buffer callback appends
  the event, or drops it when 256 are waiting, and \<^verbatim>\<open>asmtest_codeimage_next\<close> returns and removes the
  oldest event, or reports an empty queue; both keep the state valid.
\<close>

theorem bpf_queue_fifo:
  assumes "ci_bpf img = Some b" "bpf_ok b"
  shows "(\<exists>b1. ci_bpf (ci_bpf_on_event img ev) = Some b1 \<and> bpf_ok b1 \<and>
      bpf_abs b1 = (if length (bpf_abs b) < CI_BPF_QCAP then bpf_abs b @ [ev] else bpf_abs b)) \<and>
    (\<exists>b2. asmtest_codeimage_next (Some img) =
        (if bpf_abs b = [] then (0, None, Some img) else (1, Some (hd (bpf_abs b)), Some (img\<lparr>ci_bpf := Some b2\<rparr>))) \<and>
      (bpf_abs b \<noteq> [] \<longrightarrow> bpf_ok b2 \<and> bpf_abs b2 = tl (bpf_abs b)))"
proof -
  have pos: "0 < CI_BPF_QCAP" by (simp add: CI_BPF_QCAP_def)
  let ?s = "(cb_head b + cb_count b) mod CI_BPF_QCAP"
  have q: "length (cb_q b) = CI_BPF_QCAP" using assms(2) by (simp add: bpf_ok_def)
  have slot: "(cb_q b)[?s := ev] ! ((cb_head b + i) mod CI_BPF_QCAP) =
      (if i = cb_count b then ev else cb_q b ! ((cb_head b + i) mod CI_BPF_QCAP))" if "cb_count b < CI_BPF_QCAP" "i \<le> cb_count b" for i
  proof (cases "i = cb_count b")
    case False
    then have "(cb_head b + i) mod CI_BPF_QCAP \<noteq> ?s" using that mod_add_inj [of i CI_BPF_QCAP "cb_count b" "cb_head b"] by auto
    then show ?thesis using False by simp
  qed (use q pos in simp)
  have one: "\<exists>b1. ci_bpf (ci_bpf_on_event img ev) = Some b1 \<and> bpf_ok b1 \<and>
      bpf_abs b1 = (if length (bpf_abs b) < CI_BPF_QCAP then bpf_abs b @ [ev] else bpf_abs b)"
  proof (cases "cb_count b < CI_BPF_QCAP")
    case True
    with assms slot show ?thesis by (auto simp: ci_bpf_on_event_def bpf_ok_def bpf_abs_def Let_def)
  qed (use assms in \<open>auto simp: ci_bpf_on_event_def bpf_abs_def bpf_ok_def\<close>)
  have two: "\<exists>b2. asmtest_codeimage_next (Some img) =
        (if bpf_abs b = [] then (0, None, Some img) else (1, Some (hd (bpf_abs b)), Some (img\<lparr>ci_bpf := Some b2\<rparr>))) \<and>
      (bpf_abs b \<noteq> [] \<longrightarrow> bpf_ok b2 \<and> bpf_abs b2 = tl (bpf_abs b))"
  proof (cases "cb_count b")
    case (Suc n)
    let ?b = "b\<lparr>cb_head := (cb_head b + 1) mod CI_BPF_QCAP, cb_count := cb_count b - 1\<rparr>"
    have a: "bpf_abs b = cb_q b ! cb_head b # map (\<lambda>i. cb_q b ! ((cb_head b + Suc i) mod CI_BPF_QCAP)) [0..<n]"
      using assms(2) Suc by (simp add: bpf_abs_def bpf_ok_def upt_conv_Cons map_Suc_upt [symmetric] del: upt_Suc)
    have "bpf_abs ?b = tl (bpf_abs b)" unfolding a by (simp add: bpf_abs_def Suc mod_add_left_eq)
    moreover have "bpf_ok ?b" using assms(2) pos by (auto simp: bpf_ok_def)
    ultimately show ?thesis using assms(1) Suc a by (intro exI [of _ ?b]) (simp add: asmtest_codeimage_next_def)
  qed (use assms(1) in \<open>simp add: asmtest_codeimage_next_def bpf_abs_def\<close>)
  from one two show ?thesis by (rule conjI)
qed

abbreviation demo_bpf :: "nat ci_bpf" where
  "demo_bpf \<equiv> \<lparr>cb_q = (replicate 256 0)[255 := 9], cb_head = 255, cb_count = 1\<rparr>"

theorem bpf_queue_fifo_witness:
  "\<exists>b1. ci_bpf (ci_bpf_on_event \<lparr>ci_page_size = 4096, ci_pagemap_scan_ok = False, ci_seq = 0, ci_regions = [],
       ci_cap_reg = 0, ci_bpf = Some demo_bpf\<rparr> 4) = Some b1 \<and> bpf_abs b1 = [9, 4]"
proof -
  let ?img = "\<lparr>ci_page_size = 4096, ci_pagemap_scan_ok = False, ci_seq = 0, ci_regions = [], ci_cap_reg = 0, ci_bpf = Some demo_bpf\<rparr>"
  have "ci_bpf ?img = Some demo_bpf" "bpf_ok demo_bpf" by (simp_all add: bpf_ok_def CI_BPF_QCAP_def)
  moreover have "bpf_abs demo_bpf = [9]" by (simp add: bpf_abs_def CI_BPF_QCAP_def)
  ultimately show ?thesis using bpf_queue_fifo [of ?img demo_bpf 4] by (auto simp: CI_BPF_QCAP_def)
qed

section \<open>A failed allocation during a scan\<close>

text \<open>
  \<^verbatim>\<open>ci_read_region\<close> answers \<^verbatim>\<open>NULL\<close> for a region that is gone and for a failed \<^verbatim>\<open>malloc\<close> alike, and the scan
  goes on in both cases: the refresh then reports success with no new version and clears the
  soft-dirty bit, so the change is never seen again.
\<close>

lemma refresh_oom_loses_write:
  "asmtest_codeimage_refresh demo_os id (demo_write demo_w0 0x1001 7) [False] (Some demo_img1) =
     Some (0, Some demo_img1, ((\<lambda>a. Some 0)(0x1001 \<mapsto> 7), \<lambda>_. False), [])"
  by (simp add: asmtest_codeimage_refresh_def ci_refresh_locked_def ci_scan_range_def scan_one_def ci_region_dirty_def
      manual_pages_def ci_page_dirty_manual_def page_addr_def ci_read_region_def
      demo_os_def demo_write_def Let_def ci_arm_def ci_codes CI_PM_SOFT_DIRTY_def)


section \<open>A write between the scan and the clearing\<close>

text \<open>
  The target writes after its region was read and before the soft-dirty bits are cleared. The refresh reports success, the next one finds nothing to do, and the newest version is stale.
\<close>

lemma refresh_race_loses_write:
  "asmtest_codeimage_refresh demo_os (\<lambda>w. demo_write w 0x1001 7) demo_w0 [] (Some demo_img1) =
     Some (0, Some demo_img1, ((\<lambda>a. Some 0)(0x1001 \<mapsto> 7), \<lambda>_. False), []) \<and>
   asmtest_codeimage_refresh demo_os id ((\<lambda>a. Some 0)(0x1001 \<mapsto> 7), \<lambda>_. False) [] (Some demo_img1) =
     Some (0, Some demo_img1, ((\<lambda>a. Some 0)(0x1001 \<mapsto> 7), \<lambda>_. False), []) \<and>
   asmtest_codeimage_bytes_at (Some demo_img1) 0x1000 0 = (0, Some ([0, 0], 2))"
  by (simp add: asmtest_codeimage_refresh_def ci_refresh_locked_def ci_scan_range_def scan_one_def ci_region_dirty_def
      manual_pages_def ci_page_dirty_manual_def page_addr_def ci_read_region_def asmtest_codeimage_bytes_at_def
      demo_os_def demo_write_def Let_def ci_arm_def ci_codes CI_PM_SOFT_DIRTY_def)

end
