(* ===== verification/Bs_Recon.thy ===== *)
theory Bs_Recon
  imports Prelude
begin

text \<open>
  Block-step reconstruction, \<^verbatim>\<open>src/src/bs_recon.c\<close>: the classification of one instruction against the
  next observed stop, and the scan for the instruction that ended a straight-line run. What the
  disassembler (Capstone, behind \<^verbatim>\<open>asmtest_disas_*\<close>) says about the bytes at an offset is a parameter, a
  decoder; the lemmas assume of it only that an instruction ends inside the bytes it was given.
\<close>

section \<open>Operations\<close>

text \<open>
  The answers about one offset: \<open>di_len\<close>, \<open>di_call\<close> and \<open>di_ret\<close> of \<^verbatim>\<open>asmtest_disas_probe\<close>, \<open>di_branch\<close> of
  \<^verbatim>\<open>asmtest_disas_is_branch\<close>, \<open>di_target\<close> of \<^verbatim>\<open>asmtest_disas_branch_target\<close> and \<open>di_uncond\<close> of
  \<^verbatim>\<open>asmtest_disas_is_uncond_jump\<close>.
\<close>

record insn_info =
  di_len :: nat
  di_call :: bool
  di_ret :: bool
  di_branch :: bool
  di_target :: "u64 option"
  di_uncond :: bool

type_synonym decoder = "u64 \<Rightarrow> insn_info"

datatype br_kind = BR_NONE | BR_COND_MISS | BR_COND_HIT | BR_HARD_HIT | BR_HARD_MISS | BR_HARD_UNKNOWN

definition classify_branch :: "decoder \<Rightarrow> u64 \<Rightarrow> u64 \<Rightarrow> br_kind \<times> nat" where
  "classify_branch dec off next_pc =
     (let i = dec off; l = di_len i in
      if l = 0 then (BR_NONE, l)
      else if \<not> di_branch i then (BR_NONE, l)
      else if di_ret i then (BR_HARD_UNKNOWN, l)
      else case di_target i of
             None \<Rightarrow> (BR_HARD_UNKNOWN, l)
           | Some target \<Rightarrow>
               if di_call i \<or> di_uncond i
               then (if target = next_pc then BR_HARD_HIT else BR_HARD_MISS, l)
               else (if target = next_pc then BR_COND_HIT else BR_COND_MISS, l))"

datatype bs_result = BS_FAIL | BS_OK u64 | BS_AMBIGUOUS u64

definition bs_undecided :: "u64 \<Rightarrow> nat \<Rightarrow> bs_result" where
  "bs_undecided first_cand ncand = (if ncand = 0 then BS_FAIL else BS_AMBIGUOUS first_cand)"

definition bs_decided :: "u64 \<Rightarrow> nat \<Rightarrow> bs_result" where
  "bs_decided first_cand ncand =
     (if ncand = 0 then BS_FAIL else if ncand = 1 then BS_OK first_cand else BS_AMBIGUOUS first_cand)"

text \<open>The guard counts the rounds that are left.\<close>

fun scan_loop :: "decoder \<Rightarrow> nat \<Rightarrow> u64 \<Rightarrow> nat \<Rightarrow> u64 \<Rightarrow> u64 \<Rightarrow> nat \<Rightarrow> bs_result" where
  "scan_loop dec len next_pc 0 walk first_cand ncand = bs_undecided first_cand ncand"
| "scan_loop dec len next_pc (Suc guard) walk first_cand ncand =
     (if unat walk \<ge> len then bs_undecided first_cand ncand
      else case classify_branch dec walk next_pc of (k, l) \<Rightarrow>
        if l = 0 then bs_undecided first_cand ncand
        else if k = BR_COND_HIT \<or> k = BR_HARD_HIT then
          (let first' = (if ncand = 0 then walk else first_cand) in
           if k = BR_HARD_HIT then bs_decided first' (ncand + 1)
           else scan_loop dec len next_pc guard (walk + of_nat l) first' (ncand + 1))
        else if k = BR_HARD_UNKNOWN then
          (if ncand = 0 then BS_OK walk else bs_decided first_cand ncand)
        else if k = BR_HARD_MISS then bs_decided first_cand ncand
        else scan_loop dec len next_pc guard (walk + of_nat l) first_cand ncand)"

definition asmtest_bs_scan_terminator :: "decoder \<Rightarrow> nat \<Rightarrow> u64 \<Rightarrow> u64 \<Rightarrow> bs_result" where
  "asmtest_bs_scan_terminator dec len from_off next_pc = scan_loop dec len next_pc (len + 1) from_off 0 0"

section \<open>The run\<close>

abbreviation kind :: "decoder \<Rightarrow> u64 \<Rightarrow> u64 \<Rightarrow> br_kind" where
  "kind dec next_pc off \<equiv> fst (classify_branch dec off next_pc)"
abbreviation ilen :: "decoder \<Rightarrow> u64 \<Rightarrow> nat" where
  "ilen dec off \<equiv> di_len (dec off)"

lemma classify_len: "snd (classify_branch dec off next_pc) = ilen dec off"
  by (simp add: classify_branch_def Let_def split: option.split)

text \<open>
  What the bytes say of an instruction: it is a branch that is always taken, a direct branch to a stop, a branch whose target is not static.
\<close>

definition always_taken :: "insn_info \<Rightarrow> bool" where
  "always_taken i \<longleftrightarrow> di_branch i \<and> (di_ret i \<or> di_call i \<or> di_uncond i \<or> di_target i = None)"

definition reaches :: "insn_info \<Rightarrow> u64 \<Rightarrow> bool" where
  "reaches i next_pc \<longleftrightarrow> di_branch i \<and> \<not> di_ret i \<and> di_target i = Some next_pc"

definition target_unknown :: "insn_info \<Rightarrow> bool" where
  "target_unknown i \<longleftrightarrow> di_branch i \<and> (di_ret i \<or> di_target i = None)"

lemma kind_meaning:
  assumes "ilen dec x \<noteq> 0"
  shows "kind dec next_pc x \<in> {BR_NONE, BR_COND_MISS, BR_COND_HIT} \<longleftrightarrow> \<not> always_taken (dec x)"
    "kind dec next_pc x \<in> {BR_COND_HIT, BR_HARD_HIT} \<longleftrightarrow> reaches (dec x) next_pc"
    "kind dec next_pc x = BR_HARD_UNKNOWN \<longleftrightarrow> target_unknown (dec x)"
  using assms by (auto simp: classify_branch_def always_taken_def reaches_def target_unknown_def Let_def split: option.splits)

text \<open>
  The offsets a run from \<open>w\<close> may execute: \<open>w\<close> itself, and on from each decodable instruction that is
  not always taken. \<open>candidates\<close> are the direct branches on it that can go to the next stop,
  \<open>unknowns\<close> the always-taken ones whose target is not static. The run provably ends when an always-taken branch lies on it.
\<close>

inductive runs :: "decoder \<Rightarrow> nat \<Rightarrow> u64 \<Rightarrow> u64 \<Rightarrow> bool" for dec len where
  here: "unat w < len \<Longrightarrow> ilen dec w \<noteq> 0 \<Longrightarrow> runs dec len w w"
| later: "unat w < len \<Longrightarrow> ilen dec w \<noteq> 0 \<Longrightarrow> \<not> always_taken (dec w) \<Longrightarrow>
     runs dec len (w + of_nat (ilen dec w)) x \<Longrightarrow> runs dec len w x"

inductive_cases runsE: "runs dec len w x"

definition candidates :: "decoder \<Rightarrow> nat \<Rightarrow> u64 \<Rightarrow> u64 \<Rightarrow> u64 set" where
  "candidates dec len next_pc w = {x. runs dec len w x \<and> reaches (dec x) next_pc}"

definition unknowns :: "decoder \<Rightarrow> nat \<Rightarrow> u64 \<Rightarrow> u64 set" where
  "unknowns dec len w = {x. runs dec len w x \<and> target_unknown (dec x)}"

definition run_closed :: "decoder \<Rightarrow> nat \<Rightarrow> u64 \<Rightarrow> bool" where
  "run_closed dec len w \<longleftrightarrow> (\<exists>x. runs dec len w x \<and> always_taken (dec x))"

lemma runs_unfold:
  "runs dec len w x \<longleftrightarrow> unat w < len \<and> ilen dec w \<noteq> 0 \<and>
     (x = w \<or> (\<not> always_taken (dec w) \<and> runs dec len (w + of_nat (ilen dec w)) x))"
  by (blast intro: runs.intros elim: runsE)

lemma no_run: "unat w \<ge> len \<or> ilen dec w = 0 \<Longrightarrow>
    candidates dec len next_pc w = {} \<and> unknowns dec len w = {} \<and> \<not> run_closed dec len w"
  by (auto simp: candidates_def unknowns_def run_closed_def runs_unfold [of dec len w])

lemma sets_unfold:
  fixes next_pc :: u64
  assumes "unat w < len" "ilen dec w \<noteq> 0"
  defines "k \<equiv> kind dec next_pc w" and "w' \<equiv> w + of_nat (ilen dec w)"
  shows "candidates dec len next_pc w = (if k \<in> {BR_COND_HIT, BR_HARD_HIT} then {w} else {}) \<union>
      (if k \<in> {BR_NONE, BR_COND_MISS, BR_COND_HIT} then candidates dec len next_pc w' else {})"
    and "unknowns dec len w = (if k = BR_HARD_UNKNOWN then {w} else {}) \<union>
      (if k \<in> {BR_NONE, BR_COND_MISS, BR_COND_HIT} then unknowns dec len w' else {})"
    and "run_closed dec len w \<longleftrightarrow> (if k \<in> {BR_NONE, BR_COND_MISS, BR_COND_HIT} then run_closed dec len w' else True)"
  using assms(1,2) unfolding k_def w'_def kind_meaning [of dec w, OF assms(2)]
  by (auto simp: candidates_def unknowns_def run_closed_def runs_unfold [of dec len w])

section \<open>The scan\<close>

definition scan_spec :: "decoder \<Rightarrow> nat \<Rightarrow> u64 \<Rightarrow> u64 \<Rightarrow> u64 \<Rightarrow> nat \<Rightarrow> bs_result \<Rightarrow> bool" where
  "scan_spec dec len next_pc w first n r \<longleftrightarrow>
     (let C = candidates dec len next_pc w; U = unknowns dec len w; closed = run_closed dec len w in
      case r of
        BS_FAIL \<Rightarrow> n = 0 \<and> C = {} \<and> U = {}
      | BS_OK t \<Rightarrow> closed \<and> ((n = 0 \<and> (C = {t} \<or> (C = {} \<and> U = {t}))) \<or> (n = 1 \<and> t = first \<and> C = {}))
      | BS_AMBIGUOUS t \<Rightarrow>
          (0 < n \<longrightarrow> t = first \<and> \<not> (closed \<and> n = 1 \<and> C = {})) \<and>
          (n = 0 \<longrightarrow> t \<in> C \<and> (\<forall>c\<in>C. runs dec len t c) \<and> \<not> (closed \<and> C = {t})))"

lemma scan_undecided:
  "candidates dec len next_pc w = {} \<Longrightarrow> unknowns dec len w = {} \<Longrightarrow> \<not> run_closed dec len w \<Longrightarrow>
   scan_spec dec len next_pc w first n (bs_undecided first n)"
  by (simp add: scan_spec_def bs_undecided_def)

lemma step_advance:
  assumes "\<And>off. unat off < len \<Longrightarrow> unat off + ilen dec off \<le> len" "len < 2 ^ 64" "unat w < len" "ilen dec w \<noteq> 0"
  shows "unat w < unat (w + of_nat (ilen dec w))"
proof -
  have b: "unat w + ilen dec w \<le> len" using assms by simp
  then have "unat (of_nat (ilen dec w) :: u64) = ilen dec w" using assms(2) by (simp add: unat_of_nat)
  then have "unat (w + of_nat (ilen dec w)) = unat w + ilen dec w"
    using b assms(2) by (simp add: unat_word_ariths)
  with assms(4) show ?thesis by simp
qed

lemma runs_forward:
  assumes "\<And>off. unat off < len \<Longrightarrow> unat off + ilen dec off \<le> len" "len < 2 ^ 64" "runs dec len w x"
  shows "unat w \<le> unat x"
  using assms(3)
proof (induction rule: runs.induct)
  case (later w x)
  then show ?case using step_advance [OF assms(1,2), of w] by simp
qed simp

lemma scan_loop_spec:
  assumes dec: "\<And>off. unat off < len \<Longrightarrow> unat off + ilen dec off \<le> len" "len < 2 ^ 64"
  shows "len \<le> unat w + g \<Longrightarrow> scan_spec dec len next_pc w first n (scan_loop dec len next_pc g w first n)"
proof (induction g arbitrary: w first n)
  case 0
  then show ?case using no_run [of len w dec next_pc] by (simp add: scan_undecided)
next
  case (Suc g)
  let ?r = "scan_loop dec len next_pc (Suc g) w first n"
  show ?case
  proof (cases "unat w < len \<and> ilen dec w \<noteq> 0")
    case False
    then have "?r = bs_undecided first n"
      using classify_len [of dec w next_pc] by (auto split: prod.split)
    with False no_run [of len w dec next_pc] show ?thesis by (auto simp: scan_undecided)
  next
    case True
    let ?w' = "w + of_nat (ilen dec w)"
    note su = sets_unfold [where w = w and len = len and dec = dec and next_pc = next_pc,
        OF True [THEN conjunct1] True [THEN conjunct2]]
    have g: "len \<le> unat ?w' + g" using step_advance [OF dec, of w] True Suc.prems by fastforce
    obtain k where k: "classify_branch dec w next_pc = (k, ilen dec w)"
      using classify_len [of dec w next_pc] by (metis prod.collapse)
    note ih = Suc.IH [OF g]
    show ?thesis
    proof (cases k)
      case BR_COND_HIT
      let ?f = "if n = 0 then w else first"
      have r: "?r = scan_loop dec len next_pc g ?w' ?f (n + 1)"
        using True k BR_COND_HIT by (simp add: Let_def)
      have "candidates dec len next_pc w = insert w (candidates dec len next_pc ?w')"
        "unknowns dec len w = unknowns dec len ?w'" "run_closed dec len w = run_closed dec len ?w'"
        using su k BR_COND_HIT by simp_all
      moreover have "w \<notin> candidates dec len next_pc ?w'"
        using runs_forward [OF dec, of ?w' w] step_advance [OF dec, of w] True by (auto simp: candidates_def)
      moreover have "runs dec len w c" if "c \<in> candidates dec len next_pc w" for c using that by (simp add: candidates_def)
      moreover obtain res where res: "scan_loop dec len next_pc g ?w' ?f (n + 1) = res" by simp
      ultimately show ?thesis
        using ih [of ?f "n + 1"] unfolding r res
        by (cases res; cases "n = 0") (auto simp: scan_spec_def Let_def)
    next
      case BR_HARD_HIT
      then have "?r = bs_decided (if n = 0 then w else first) (n + 1)" using True k by (simp add: Let_def)
      moreover have "candidates dec len next_pc w = {w}" "run_closed dec len w" using su k BR_HARD_HIT by simp_all
      ultimately show ?thesis by (auto simp: scan_spec_def bs_decided_def Let_def)
    next
      case BR_HARD_UNKNOWN
      then have "?r = (if n = 0 then BS_OK w else bs_decided first n)" using True k by simp
      moreover have "candidates dec len next_pc w = {}" "unknowns dec len w = {w}" "run_closed dec len w"
        using su k BR_HARD_UNKNOWN by simp_all
      ultimately show ?thesis by (auto simp: scan_spec_def bs_decided_def Let_def)
    next
      case BR_HARD_MISS
      then have "?r = bs_decided first n" using True k by simp
      moreover have "candidates dec len next_pc w = {}" "unknowns dec len w = {}" "run_closed dec len w"
        using su k BR_HARD_MISS by simp_all
      ultimately show ?thesis by (auto simp: scan_spec_def bs_decided_def Let_def)
    next
      case BR_NONE
      then have "?r = scan_loop dec len next_pc g ?w' first n" using True k by simp
      with ih [of first n] su k BR_NONE show ?thesis by (simp add: scan_spec_def)
    next
      case BR_COND_MISS
      then have "?r = scan_loop dec len next_pc g ?w' first n" using True k by simp
      with ih [of first n] su k BR_COND_MISS show ?thesis by (simp add: scan_spec_def)
    qed
  qed
qed

lemma scan_terminator_spec:
  assumes "\<And>off. unat off < len \<Longrightarrow> unat off + ilen dec off \<le> len" "len < 2 ^ 64"
  shows "scan_spec dec len next_pc from_off 0 0 (asmtest_bs_scan_terminator dec len from_off next_pc)"
  unfolding asmtest_bs_scan_terminator_def by (rule scan_loop_spec [OF assms]) simp_all

section \<open>Properties\<close>

text \<open>
  C16: The terminator scan never guesses. Take a decoder whose instructions end inside the region, and the instructions the run from \<open>from_off\<close> may execute: each decodable
  one is followed by the next unless it is an always-taken branch. The scan reports a proven terminator exactly when an always-taken branch closes the run and either one direct branch
  on it can reach the next stop, which is the one reported, or none can and the run ends in a return or an indirect branch, which is the one reported. (A return that closes a run is not weighed against a
  direct branch on it that can reach the stop.) It reports failure exactly
  when there is neither kind of terminator, and otherwise an ambiguous result that names the first direct branch that can reach the next stop.
\<close>

theorem bs_scan_never_guesses:
  fixes next_pc from_off :: u64
  assumes "\<And>off. unat off < len \<Longrightarrow> unat off + di_len (dec off) \<le> len" and "len < 2 ^ 64"
  defines "C \<equiv> candidates dec len next_pc from_off" and "U \<equiv> unknowns dec len from_off"
  shows "case asmtest_bs_scan_terminator dec len from_off next_pc of
      BS_OK t \<Rightarrow> run_closed dec len from_off \<and> (C = {t} \<or> (C = {} \<and> U = {t}))
    | BS_AMBIGUOUS t \<Rightarrow> t \<in> C \<and> (\<forall>c\<in>C. runs dec len t c) \<and> \<not> (run_closed dec len from_off \<and> C = {t})
    | BS_FAIL \<Rightarrow> C = {} \<and> U = {}"
  using scan_terminator_spec [OF assms(1,2), of next_pc from_off]
  by (simp add: scan_spec_def C_def U_def Let_def split: bs_result.splits)

text \<open>Two conditionals to the same target, then a return.\<close>

definition demo_dec :: decoder where
  "demo_dec off =
     (if off = 0 then \<lparr>di_len = 2, di_call = False, di_ret = False, di_branch = True, di_target = Some 64, di_uncond = False\<rparr>
      else if off = 2 then \<lparr>di_len = 2, di_call = False, di_ret = False, di_branch = True, di_target = Some 64, di_uncond = False\<rparr>
      else if off = 4 then \<lparr>di_len = 1, di_call = False, di_ret = True, di_branch = True, di_target = None, di_uncond = False\<rparr>
      else \<lparr>di_len = 0, di_call = False, di_ret = False, di_branch = False, di_target = None, di_uncond = False\<rparr>)"

lemmas scan_loop_numeral = scan_loop.simps(2) [of _ _ _ "pred_numeral g" for g, folded numeral_eq_Suc]

theorem bs_scan_never_guesses_witness:
  "asmtest_bs_scan_terminator demo_dec 5 0 64 = BS_AMBIGUOUS 0 \<and> 0 \<in> candidates demo_dec 5 64 0 \<and>
   asmtest_bs_scan_terminator demo_dec 5 2 64 = BS_OK 2"
proof -
  have d: "unat off + di_len (demo_dec off) \<le> 5" if "unat off < 5" for off
    using that by (auto simp: demo_dec_def)
  have r: "asmtest_bs_scan_terminator demo_dec 5 0 64 = BS_AMBIGUOUS 0"
    "asmtest_bs_scan_terminator demo_dec 5 2 64 = BS_OK 2"
    by (simp_all add: asmtest_bs_scan_terminator_def classify_branch_def demo_dec_def scan_loop_numeral
        bs_decided_def)
  from bs_scan_never_guesses [OF d, of 64 0] r show ?thesis by simp
qed

end
