(* ===== verification/Amd_Lbr.thy ===== *)
theory Amd_Lbr
  imports Bs_Recon Trace "HOL-Library.Sublist"
begin

text \<open>
  The branch-record tier, \<^verbatim>\<open>src/src/amd_backend.c\<close>, and the pairing of branch-trap stops of
  \<^verbatim>\<open>src/src/ss_btf.c\<close>: the replay of a stack of taken branches into instructions and blocks, the stitching
  of overlapping stacks, and the completeness flags of the decoders. A \<^verbatim>\<open>struct perf_branch_entry\<close> is the four
  of its fields the code reads; whether the kernel header has the \<^verbatim>\<open>spec\<close> field is the flag \<open>have_spec\<close>. The
  disassembler is the decoder of \<open>Bs_Recon\<close>. Addresses and offsets are 64-bit words; a \<^verbatim>\<open>NULL\<close> base is 0.
  The lemmas relate the replay to an execution: a chain of steps, some of them taken branches.
\<close>

section \<open>Host probes\<close>

definition AMD_LBR_DEPTH :: int where
  "AMD_LBR_DEPTH = 16"

text \<open>The string at hand begins a token's delimiter or ends.\<close>

definition token_ends :: "string \<Rightarrow> bool" where
  "token_ends s \<longleftrightarrow> s = [] \<or> hd s \<in> {CHR '' '', CHR 0x0A, CHR 0x09}"

fun flags_scan :: "string \<Rightarrow> string \<Rightarrow> bool" where
  "flags_scan flag [] = False"
| "flags_scan flag (c # tok) =
     (if c = CHR '' '' \<and> take (length flag) tok = flag \<and> token_ends (drop (length flag) tok) then True
      else flags_scan flag tok)"

definition asmtest_amd_flags_have :: "string option \<Rightarrow> string option \<Rightarrow> bool" where
  "asmtest_amd_flags_have line flag =
     (case (line, flag) of (Some l, Some f) \<Rightarrow> f \<noteq> [] \<and> flags_scan f l | _ \<Rightarrow> False)"

text \<open>
  \<open>max_leaf\<close> is EAX of CPUID leaf 0x80000000 and \<open>ebx\<close> is EBX of leaf 0x80000022, \<open>None\<close> where the leaf is not
  supported; \<open>cached\<close> is the function's static variable, whose new value is the result.
\<close>

definition asmtest_amd_lbr_depth :: "u32 option \<Rightarrow> u32 option \<Rightarrow> int \<Rightarrow> int" where
  "asmtest_amd_lbr_depth max_leaf ebx cached =
     (if cached > 0 then cached
      else case (max_leaf, ebx) of
        (Some eax, Some b) \<Rightarrow>
          (let sz = drop_bit 4 b AND 0x3f in
           if eax \<ge> 0x80000022 \<and> 1 \<le> sz \<and> sz \<le> 64 then int (unat sz) else AMD_LBR_DEPTH)
      | _ \<Rightarrow> AMD_LBR_DEPTH)"

section \<open>Replay\<close>

record perf_branch_entry =
  pb_from :: u64
  pb_to :: u64
  pb_abort :: bool
  pb_spec :: nat

definition PERF_BR_SPEC_WRONG_PATH :: nat where
  "PERF_BR_SPEC_WRONG_PATH = 1"

definition br_dropped :: "bool \<Rightarrow> perf_branch_entry \<Rightarrow> bool" where
  "br_dropped have_spec e \<longleftrightarrow> pb_abort e \<or> (have_spec \<and> pb_spec e = PERF_BR_SPEC_WRONG_PATH)"

definition in_region :: "u64 \<Rightarrow> nat \<Rightarrow> u64 \<Rightarrow> bool" where
  "in_region base_ip len a \<longleftrightarrow> base_ip \<le> a \<and> a < base_ip + of_nat len"

text \<open>
  The two passes of the entry fill. A round of either loop advances by at least one byte, so the number
  of rounds that are left starts at the distance.
\<close>

fun entry_clean :: "decoder \<Rightarrow> u64 \<Rightarrow> nat \<Rightarrow> u64 \<Rightarrow> bool" where
  "entry_clean dec target 0 off = (\<not> off < target)"
| "entry_clean dec target (Suc rounds) off =
     (if off < target then
        (let i = dec off; l = di_len i in
         if l = 0 \<or> di_ret i then False
         else if di_branch i then False
         else if off + of_nat l > target then False
         else entry_clean dec target rounds (off + of_nat l))
      else True)"

fun commit_run :: "decoder \<Rightarrow> u64 \<Rightarrow> nat \<Rightarrow> u64 \<Rightarrow> asmtest_trace \<Rightarrow> bool \<times> asmtest_trace" where
  "commit_run dec target 0 off t = (\<not> off < target, t)"
| "commit_run dec target (Suc rounds) off t =
     (if off < target then
        (let l = di_len (dec off) in
         if l = 0 then (False, t)
         else commit_run dec target rounds (off + of_nat l) (append_insn t off))
      else (True, t))"

definition amd_entry_fill :: "decoder \<Rightarrow> u64 \<Rightarrow> nat \<Rightarrow> u64 \<Rightarrow> asmtest_trace \<Rightarrow> bool \<times> asmtest_trace" where
  "amd_entry_fill dec base_ip len target_ip t =
     (if target_ip \<le> base_ip \<or> target_ip > base_ip + of_nat len then (False, t)
      else let target = target_ip - base_ip in
        if \<not> entry_clean dec target (unat target) 0 then (False, t)
        else commit_run dec target (unat target) 0 t)"

abbreviation set_truncated :: "asmtest_trace \<Rightarrow> asmtest_trace" where
  "set_truncated t \<equiv> t\<lparr>t_truncated := True\<rparr>"

text \<open>
  The walk to a recorded branch source. The guard counts the rounds that are left; \<open>False\<close> is the early
  return of the whole replay.
\<close>

fun amd_walk :: "decoder \<Rightarrow> u64 \<Rightarrow> nat \<Rightarrow> u64 \<Rightarrow> nat \<Rightarrow> u64 \<Rightarrow> asmtest_trace \<Rightarrow> bool \<times> asmtest_trace" where
  "amd_walk dec base_ip len from_off 0 off t = (False, set_truncated t)"
| "amd_walk dec base_ip len from_off (Suc guard) off t =
     (let i = dec off; l = di_len i in
      if l = 0 then (False, set_truncated t)
      else let t1 = append_insn t off in
        if off = from_off then (True, t1)
        else if di_branch i \<and> (di_target i = None \<or> di_call i) then (False, set_truncated t1)
        else if di_branch i \<and> di_uncond i then
          (let tgt = the (di_target i) in
           if \<not> in_region base_ip len tgt then (False, set_truncated t1)
           else let no = tgt - base_ip in
             if no > from_off then (False, set_truncated t1)
             else amd_walk dec base_ip len from_off guard no (append_block t1 no))
        else let off1 = off + of_nat l in
          if off1 > from_off then (False, set_truncated t1)
          else amd_walk dec base_ip len from_off guard off1 (if di_branch i then append_block t1 off1 else t1))"

definition land_at :: "decoder \<Rightarrow> u64 \<Rightarrow> nat \<Rightarrow> bool \<Rightarrow> u64 \<Rightarrow> asmtest_trace \<Rightarrow> asmtest_trace" where
  "land_at dec base_ip len entered to t =
     (if \<not> entered \<and> to > base_ip
      then (case amd_entry_fill dec base_ip len to t of (filled, t1) \<Rightarrow>
              if filled then t1 else append_block (set_truncated t1) (to - base_ip))
      else append_block t (to - base_ip))"

text \<open>The branch loop, oldest record first. The result is whether it ran to its end, the last position and the trace.\<close>

fun replay_loop :: "bool \<Rightarrow> decoder \<Rightarrow> u64 \<Rightarrow> nat \<Rightarrow> u64 \<Rightarrow> bool \<Rightarrow> asmtest_trace \<Rightarrow> perf_branch_entry list \<Rightarrow>
    bool \<times> u64 \<times> asmtest_trace" where
  "replay_loop have_spec dec base_ip len ip entered t [] = (True, ip, t)"
| "replay_loop have_spec dec base_ip len ip entered t (e # es) =
     (if br_dropped have_spec e then replay_loop have_spec dec base_ip len ip entered t es
      else let src = pb_from e; to = pb_to e;
               decode = (in_region base_ip len ip \<and> src \<ge> ip \<and> src < base_ip + of_nat len) in
        case (if decode then amd_walk dec base_ip len (src - base_ip) (len + 1) (ip - base_ip) t else (True, t)) of
          (False, t1) \<Rightarrow> (False, ip, t1)
        | (True, t1) \<Rightarrow>
            if in_region base_ip len to
            then replay_loop have_spec dec base_ip len to True (land_at dec base_ip len (entered \<or> decode) to t1) es
            else replay_loop have_spec dec base_ip len to (entered \<or> decode) t1 es)"

text \<open>The offset after the exit instruction that ends the run from \<open>off\<close>; 0 when there is none.\<close>

fun tail_scan :: "decoder \<Rightarrow> u64 \<Rightarrow> nat \<Rightarrow> nat \<Rightarrow> u64 \<Rightarrow> u64" where
  "tail_scan dec base_ip len 0 off = 0"
| "tail_scan dec base_ip len (Suc guard) off =
     (if \<not> unat off < len then 0
      else let i = dec off; l = di_len i in
        if l = 0 then 0
        else if di_ret i then off + of_nat l
        else if di_branch i then
          (case di_target i of
             Some tgt \<Rightarrow> if di_uncond i \<and> \<not> in_region base_ip len tgt then off + of_nat l else 0
           | None \<Rightarrow> 0)
        else tail_scan dec base_ip len guard (off + of_nat l))"

definition tail_fill :: "decoder \<Rightarrow> u64 \<Rightarrow> nat \<Rightarrow> u64 \<Rightarrow> asmtest_trace \<Rightarrow> bool \<times> asmtest_trace" where
  "tail_fill dec base_ip len ip t =
     (if \<not> t_truncated t \<and> in_region base_ip len ip then
        (let start_off = ip - base_ip; exit_end = tail_scan dec base_ip len (len + 1) start_off in
         if exit_end > start_off
         then (True, snd (commit_run dec exit_end (unat (exit_end - start_off)) start_off (append_block t start_off)))
         else (False, t))
      else (False, t))"

text \<open>The records are newest first. The result is \<^verbatim>\<open>*out_reached_exit\<close> and the trace.\<close>

definition amd_replay :: "bool \<Rightarrow> decoder \<Rightarrow> perf_branch_entry list \<Rightarrow> u64 \<Rightarrow> nat \<Rightarrow> asmtest_trace \<Rightarrow> bool \<times> asmtest_trace" where
  "amd_replay have_spec dec br base_ip len t =
     (case replay_loop have_spec dec base_ip len base_ip False (append_block t 0) (rev br) of
        (False, ip, t1) \<Rightarrow> (False, t1)
      | (True, ip, t1) \<Rightarrow> tail_fill dec base_ip len ip t1)"

section \<open>Decoding one stack\<close>

definition ASMTEST_HW_OK :: int where "ASMTEST_HW_OK = 0"
definition ASMTEST_HW_ENOSYS :: int where "ASMTEST_HW_ENOSYS = - 5"
definition ASMTEST_HW_EDECODE :: int where "ASMTEST_HW_EDECODE = - 8"

lemmas hw_codes = ASMTEST_HW_OK_def ASMTEST_HW_ENOSYS_def ASMTEST_HW_EDECODE_def

text \<open>
  \<open>dec\<close> is \<open>None\<close> where \<^verbatim>\<open>asmtest_disas_available\<close> answers 0. The results are the status, \<^verbatim>\<open>*reached_exit\<close> and the trace.
\<close>

definition asmtest_amd_decode_reach_hw :: "bool \<Rightarrow> decoder option \<Rightarrow> int \<Rightarrow> perf_branch_entry list \<Rightarrow> nat \<Rightarrow> u64 \<Rightarrow> nat \<Rightarrow>
    asmtest_trace option \<Rightarrow> int \<times> bool \<times> asmtest_trace option" where
  "asmtest_amd_decode_reach_hw have_spec dec depth br hw_nbr base len trace =
     (case trace of
        None \<Rightarrow> (ASMTEST_HW_EDECODE, False, None)
      | Some t \<Rightarrow>
          if br = [] \<or> base = 0 \<or> len = 0 then (ASMTEST_HW_EDECODE, False, Some t)
          else case dec of
            None \<Rightarrow> (ASMTEST_HW_ENOSYS, False, Some t)
          | Some d \<Rightarrow>
              (case amd_replay have_spec d br base len t of (reached, t1) \<Rightarrow>
                 (ASMTEST_HW_OK, reached, Some (if to_int32 hw_nbr \<ge> depth then set_truncated t1 else t1))))"

definition asmtest_amd_decode_reach where
  "asmtest_amd_decode_reach have_spec dec depth br base len trace =
     asmtest_amd_decode_reach_hw have_spec dec depth br (length br) base len trace"

definition asmtest_amd_decode where
  "asmtest_amd_decode have_spec dec depth br base len trace =
     (case asmtest_amd_decode_reach have_spec dec depth br base len trace of (rc, _, trace1) \<Rightarrow> (rc, trace1))"

section \<open>Stitching\<close>

definition amd_edge_eq :: "perf_branch_entry \<Rightarrow> perf_branch_entry \<Rightarrow> bool" where
  "amd_edge_eq a b \<longleftrightarrow> pb_from a = pb_from b \<and> pb_to a = pb_to b"

fun span_loop :: "decoder \<Rightarrow> u64 \<Rightarrow> nat \<Rightarrow> u64 \<Rightarrow> nat \<Rightarrow> u64 \<Rightarrow> bool" where
  "span_loop dec base_ip len fo 0 off = True"
| "span_loop dec base_ip len fo (Suc guard) off =
     (if \<not> off < fo then True
      else let i = dec off; l = di_len i; straight = off + of_nat l in
        if l = 0 then False
        else if di_uncond i \<and> di_target i \<noteq> None then
          (let tgt = the (di_target i) in
           if \<not> in_region base_ip len tgt then True
           else let no = tgt - base_ip in
             if no > fo then False else span_loop dec base_ip len fo guard no)
        else if straight > fo then False
        else span_loop dec base_ip len fo guard straight)"

text \<open>\<open>code\<close> is \<open>None\<close> when there are no bytes to check against or no disassembler.\<close>

definition amd_span_decodable :: "decoder option \<Rightarrow> u64 \<Rightarrow> nat \<Rightarrow> u64 \<Rightarrow> u64 \<Rightarrow> bool" where
  "amd_span_decodable code base_ip len from_ip to_ip =
     (case code of
        None \<Rightarrow> True
      | Some dec \<Rightarrow>
          if len = 0 then True
          else if \<not> in_region base_ip len from_ip \<or> to_ip < base_ip \<or> to_ip > base_ip + of_nat len then True
          else if to_ip < from_ip then False
          else span_loop dec base_ip len (to_ip - base_ip) (len + 1) (from_ip - base_ip))"

text \<open>The merged records are in execution order, the stacks newest first, as in the code.\<close>

definition shift_ok :: "decoder option \<Rightarrow> u64 \<Rightarrow> nat \<Rightarrow> perf_branch_entry list \<Rightarrow> perf_branch_entry list \<Rightarrow> nat \<Rightarrow> bool" where
  "shift_ok code base_ip len out s d \<longleftrightarrow>
     (let m = length s; n = length out; L = m - d in
      L \<le> n \<and> (\<forall>j\<in>set [0..<L]. amd_edge_eq (s ! (m - 1 - j)) (out ! (n - L + j))) \<and>
      amd_span_decodable code base_ip len (pb_to (out ! (n - 1))) (pb_from (s ! (d - 1))))"

fun append_new :: "nat \<Rightarrow> perf_branch_entry list \<Rightarrow> bool \<Rightarrow> perf_branch_entry list \<Rightarrow> perf_branch_entry list \<times> bool" where
  "append_new out_cap out gap [] = (out, gap)"
| "append_new out_cap out gap (e # es) =
     (if length out \<ge> out_cap then (out, True) else append_new out_cap (out @ [e]) gap es)"

fun stitch_loop :: "decoder option \<Rightarrow> u64 \<Rightarrow> nat \<Rightarrow> nat \<Rightarrow> perf_branch_entry list \<Rightarrow> bool \<Rightarrow>
    perf_branch_entry list list \<Rightarrow> perf_branch_entry list \<times> bool" where
  "stitch_loop code base_ip len out_cap out gap [] = (out, gap)"
| "stitch_loop code base_ip len out_cap out gap (s # ss) =
     (if s = [] then stitch_loop code base_ip len out_cap out gap ss
      else case find (shift_ok code base_ip len out s) [1..<length s] of
        None \<Rightarrow> (out, True)
      | Some d \<Rightarrow>
          (case append_new out_cap out gap (map (\<lambda>j. s ! (length s - 1 - j)) [length s - d..<length s]) of
             (out1, gap1) \<Rightarrow> stitch_loop code base_ip len out_cap out1 gap1 ss))"

text \<open>The stitched records, newest first, and \<^verbatim>\<open>*gap\<close>.\<close>

definition asmtest_amd_stitch :: "decoder option \<Rightarrow> perf_branch_entry list list \<Rightarrow> u64 \<Rightarrow> nat \<Rightarrow> nat \<Rightarrow>
    perf_branch_entry list \<times> bool" where
  "asmtest_amd_stitch code samples base_ip len out_cap =
     (case samples of
        [] \<Rightarrow> ([], False)
      | s # ss \<Rightarrow>
          if out_cap = 0 then ([], False)
          else let seed = take out_cap (map (\<lambda>j. s ! (length s - 1 - j)) [0..<length s]);
                   gap = (0 < length s \<and> length seed < length s)
            in case stitch_loop code base_ip len out_cap seed gap ss of (out, gap1) \<Rightarrow> (rev out, gap1))"

definition asmtest_amd_decode_stitched :: "bool \<Rightarrow> decoder option \<Rightarrow> perf_branch_entry list \<Rightarrow> u64 \<Rightarrow> nat \<Rightarrow>
    asmtest_trace option \<Rightarrow> bool \<Rightarrow> int \<times> asmtest_trace option" where
  "asmtest_amd_decode_stitched have_spec dec br base len trace gap =
     (case trace of
        None \<Rightarrow> (ASMTEST_HW_EDECODE, None)
      | Some t \<Rightarrow>
          if br = [] \<or> base = 0 \<or> len = 0 then (ASMTEST_HW_EDECODE, Some t)
          else case dec of
            None \<Rightarrow> (ASMTEST_HW_ENOSYS, Some t)
          | Some d \<Rightarrow>
              (let t1 = snd (amd_replay have_spec d br base len t)
               in (ASMTEST_HW_OK, Some (if gap then set_truncated t1 else t1))))"

section \<open>Branch-trap stops\<close>

definition zero_entry :: perf_branch_entry where
  "zero_entry = \<lparr>pb_from = 0, pb_to = 0, pb_abort = False, pb_spec = 0\<rparr>"

fun pair_loop :: "decoder \<Rightarrow> nat \<Rightarrow> u64 \<Rightarrow> nat \<Rightarrow> u64 list \<Rightarrow> perf_branch_entry list \<Rightarrow> perf_branch_entry list \<times> bool" where
  "pair_loop dec len base_ip out_cap (prev # s # stops) out =
     (if \<not> length out < out_cap then (out, False)
      else case asmtest_bs_scan_terminator dec len (prev - base_ip) s of
        BS_OK term \<Rightarrow>
          (let out1 = out @ [zero_entry\<lparr>pb_from := base_ip + term, pb_to := s\<rparr>] in
           if \<not> in_region base_ip len s then (out1, False)
           else pair_loop dec len base_ip out_cap (s # stops) out1)
      | _ \<Rightarrow> (out, True))"
| "pair_loop dec len base_ip out_cap stops out = (out, False)"

definition asmtest_ss_btf_pair_stops :: "decoder \<Rightarrow> nat \<Rightarrow> u64 \<Rightarrow> u64 list \<Rightarrow> nat \<Rightarrow> perf_branch_entry list \<times> bool" where
  "asmtest_ss_btf_pair_stops dec len base_ip stops out_cap =
     (if len = 0 \<or> out_cap = 0 then ([], False)
      else case dropWhile (\<lambda>s. \<not> in_region base_ip len s) stops of
        [] \<Rightarrow> ([], False)
      | rest \<Rightarrow> (case pair_loop dec len base_ip out_cap rest [] of (out, gap) \<Rightarrow> (rev out, gap)))"

section \<open>Executions\<close>

text \<open>
  One step of the processor: an instruction, whether it was a taken branch, and where it went. In the
  region a step is one the decoder allows: a branch that is taken goes to its static target when it has one,
  and an instruction that is not taken is no return, call or unconditional jump and continues inside
  the region. Of the code outside only this is assumed: it enters the region by a branch.
\<close>

record exec_step =
  st_at :: u64
  st_taken :: bool
  st_next :: u64

definition step_ok :: "decoder \<Rightarrow> u64 \<Rightarrow> nat \<Rightarrow> exec_step \<Rightarrow> bool" where
  "step_ok dec base_ip len s \<longleftrightarrow>
     (if in_region base_ip len (st_at s)
      then (let i = dec (st_at s - base_ip) in di_len i \<noteq> 0 \<and>
        (if st_taken s then di_branch i \<and> (\<not> di_ret i \<longrightarrow> di_target i \<in> {None, Some (st_next s)})
         else \<not> di_uncond i \<and> \<not> di_ret i \<and> (di_branch i \<longrightarrow> di_target i \<noteq> None \<and> \<not> di_call i) \<and>
           st_next s = st_at s + of_nat (di_len i) \<and> in_region base_ip len (st_next s)))
      else st_taken s \<or> \<not> in_region base_ip len (st_next s))"

fun exec_ok :: "decoder \<Rightarrow> u64 \<Rightarrow> nat \<Rightarrow> u64 \<Rightarrow> exec_step list \<Rightarrow> bool" where
  "exec_ok dec base_ip len a [] = True"
| "exec_ok dec base_ip len a (s # ss) = (st_at s = a \<and> step_ok dec base_ip len s \<and> exec_ok dec base_ip len (st_next s) ss)"

text \<open>What the hardware records: the taken branches.\<close>

definition taken_edges :: "exec_step list \<Rightarrow> (u64 \<times> u64) list" where
  "taken_edges ss = map (\<lambda>s. (st_at s, st_next s)) (filter st_taken ss)"

definition edge_of :: "perf_branch_entry \<Rightarrow> u64 \<times> u64" where
  "edge_of e = (pb_from e, pb_to e)"

text \<open>What the trace should hold: the instructions of the region, and a block start after each of its branches and at each entry.\<close>

definition step_events :: "decoder \<Rightarrow> u64 \<Rightarrow> nat \<Rightarrow> exec_step \<Rightarrow> trace_event list" where
  "step_events dec base_ip len s =
     (if in_region base_ip len (st_at s) then [Insn (st_at s - base_ip)] else []) @
     (if in_region base_ip len (st_next s) \<and>
         (st_taken s \<or> (in_region base_ip len (st_at s) \<and> di_branch (dec (st_at s - base_ip))))
      then [Block (st_next s - base_ip)] else [])"

definition exec_events :: "decoder \<Rightarrow> u64 \<Rightarrow> nat \<Rightarrow> exec_step list \<Rightarrow> trace_event list" where
  "exec_events dec base_ip len ss = concat (map (step_events dec base_ip len) ss)"

definition enters_at_base :: "u64 \<Rightarrow> nat \<Rightarrow> u64 \<Rightarrow> exec_step list \<Rightarrow> bool" where
  "enters_at_base base_ip len a ss \<longleftrightarrow>
     (if in_region base_ip len a then a = base_ip
      else case find (\<lambda>s. in_region base_ip len (st_next s)) ss of None \<Rightarrow> True | Some s \<Rightarrow> st_next s = base_ip)"

text \<open>The region lies in the address space, and an instruction of it ends inside it.\<close>

definition good_region :: "decoder \<Rightarrow> u64 \<Rightarrow> nat \<Rightarrow> bool" where
  "good_region dec base_ip len \<longleftrightarrow>
     unat base_ip + len < 2 ^ 64 \<and> (\<forall>off. unat off < len \<longrightarrow> unat off + di_len (dec off) \<le> len)"

abbreviation untaken :: "exec_step list \<Rightarrow> bool" where
  "untaken us \<equiv> \<forall>u\<in>set us. \<not> st_taken u"

lemma exec_ok_append:
  "exec_ok dec base_ip len a (us @ vs) \<longleftrightarrow>
     exec_ok dec base_ip len a us \<and> exec_ok dec base_ip len (if us = [] then a else st_next (last us)) vs"
  by (induction us arbitrary: a) auto

lemma exec_events_simps [simp]:
  "exec_events dec base_ip len [] = []"
  "exec_events dec base_ip len (s # ss) = step_events dec base_ip len s @ exec_events dec base_ip len ss"
  "exec_events dec base_ip len (us @ ss) = exec_events dec base_ip len us @ exec_events dec base_ip len ss"
  by (simp_all add: exec_events_def)

lemma trace_run_simps [simp]:
  "trace_run t [] = t" "trace_run t (e # es) = trace_run (trace_step t e) es"
  "trace_run t (es @ fs) = trace_run (trace_run t es) fs"
  by (simp_all add: trace_run_def)

lemma block_offs_simps [simp]:
  "block_offs [] = []" "block_offs (e # es) = block_off e @ block_offs es" "block_offs (es @ fs) = block_offs es @ block_offs fs"
  by (simp_all add: block_offs_def)

lemma in_region_unat:
  "unat base_ip + len < 2 ^ 64 \<Longrightarrow>
   in_region base_ip len a \<longleftrightarrow> unat base_ip \<le> unat a \<and> unat a < unat base_ip + len"
  by (simp add: in_region_def word_le_nat_alt word_less_nat_alt unat_word_ariths unat_of_nat)

lemma off_unat: "unat base_ip \<le> unat a \<Longrightarrow> unat (a - base_ip) = unat a - unat base_ip"
  by (simp add: unat_sub word_le_nat_alt)

lemma step_untaken:
  assumes "good_region dec base_ip len" "step_ok dec base_ip len s" "\<not> st_taken s" "in_region base_ip len (st_at s)"
  defines "i \<equiv> dec (st_at s - base_ip)"
  shows "in_region base_ip len (st_next s)" "unat (st_next s) = unat (st_at s) + di_len i" "0 < di_len i"
    "\<not> di_uncond i" "\<not> di_ret i" "di_branch i \<Longrightarrow> di_target i \<noteq> None \<and> \<not> di_call i"
    "st_next s - base_ip = (st_at s - base_ip) + of_nat (di_len i)"
proof -
  show "in_region base_ip len (st_next s)" "0 < di_len i" "\<not> di_uncond i" "\<not> di_ret i"
    "di_branch i \<Longrightarrow> di_target i \<noteq> None \<and> \<not> di_call i"
    and e: "st_next s - base_ip = (st_at s - base_ip) + of_nat (di_len i)"
    using assms(2-4) unfolding i_def by (auto simp: step_ok_def Let_def)
  have g: "unat base_ip + len < 2 ^ 64" using assms(1) by (simp add: good_region_def)
  have r: "unat base_ip \<le> unat (st_at s)" "unat (st_at s) < unat base_ip + len"
    using assms(4) in_region_unat [OF g] by auto
  then have "unat (st_at s - base_ip) < len" by (simp add: off_unat)
  then have "unat (st_at s - base_ip) + di_len i \<le> len" using assms(1) by (simp add: good_region_def i_def)
  then have "unat (st_at s) + di_len i \<le> unat base_ip + len" using r by (simp add: off_unat)
  moreover have "st_next s = st_at s + of_nat (di_len i)" using e by (simp add: algebra_simps)
  ultimately show "unat (st_next s) = unat (st_at s) + di_len i" using g by (simp add: unat_word_ariths unat_of_nat)
qed

lemma run_mono:
  assumes "good_region dec base_ip len"
  shows "exec_ok dec base_ip len a (us @ [s]) \<Longrightarrow> untaken us \<Longrightarrow> in_region base_ip len a \<Longrightarrow>
    in_region base_ip len (st_at s) \<and> unat a + length us \<le> unat (st_at s)"
proof (induction us arbitrary: a)
  case (Cons u us)
  then have u: "st_at u = a" "step_ok dec base_ip len u" "\<not> st_taken u" "exec_ok dec base_ip len (st_next u) (us @ [s])"
    by auto
  note n = step_untaken(1-3) [OF assms u(2,3), unfolded u(1), OF Cons.prems(3)]
  show ?case using Cons.IH [OF u(4) _ n(1)] Cons.prems(2) n(2,3) by auto
qed simp

lemma run_outside:
  "exec_ok dec base_ip len a (us @ [s]) \<Longrightarrow> untaken us \<Longrightarrow> \<not> in_region base_ip len a \<Longrightarrow>
    \<not> in_region base_ip len (st_at s) \<and> exec_events dec base_ip len us = []"
  by (induction us arbitrary: a) (auto simp: step_ok_def step_events_def)

lemma walk_exact:
  assumes g: "good_region dec base_ip len"
  shows "exec_ok dec base_ip len a (us @ [s]) \<Longrightarrow> untaken us \<Longrightarrow> in_region base_ip len a \<Longrightarrow>
    unat (st_at s) - unat a < guard \<Longrightarrow>
    amd_walk dec base_ip len (st_at s - base_ip) guard (a - base_ip) t =
      (True, trace_run t (exec_events dec base_ip len us @ [Insn (st_at s - base_ip)]))"
proof (induction us arbitrary: a t guard)
  case Nil
  then obtain n where "guard = Suc n" by (cases guard) auto
  with Nil show ?case by (auto simp: step_ok_def Let_def)
next
  case (Cons u us)
  let ?i = "dec (a - base_ip)"
  from Cons.prems have u: "st_at u = a" "step_ok dec base_ip len u" "\<not> st_taken u" "exec_ok dec base_ip len (st_next u) (us @ [s])"
    by auto
  note n = step_untaken [OF g u(2,3), unfolded u(1), OF Cons.prems(3)]
  have m: "in_region base_ip len (st_at s)" "unat (st_next u) \<le> unat (st_at s)"
    using run_mono [OF g u(4)] Cons.prems(2) n(1) by auto
  have b: "unat base_ip \<le> unat (st_next u)" "unat base_ip \<le> unat (st_at s)"
    using n(1) m(1) g in_region_unat [of base_ip len] by (auto simp: good_region_def)
  obtain k where k: "guard = Suc k" using Cons.prems(4) by (cases guard) auto
  have ne: "a - base_ip \<noteq> st_at s - base_ip" using m(2) n(2,3) by auto
  have le: "\<not> a - base_ip + of_nat (di_len ?i) > st_at s - base_ip"
    using m(2) b unfolding n(7) [symmetric] by (simp add: word_less_nat_alt off_unat)
  have f: "unat (st_at s) - unat (st_next u) < k" using Cons.prems(4) k n(2,3) m(2) by linarith
  have "amd_walk dec base_ip len (st_at s - base_ip) guard (a - base_ip) t =
      amd_walk dec base_ip len (st_at s - base_ip) k (st_next u - base_ip)
        (if di_branch ?i then append_block (append_insn t (a - base_ip)) (st_next u - base_ip) else append_insn t (a - base_ip))"
    using n(3-6) ne le unfolding k n(7) by (cases "di_branch ?i") (auto simp: Let_def)
  also have "\<dots> = (True, trace_run (trace_run t (step_events dec base_ip len u))
      (exec_events dec base_ip len us @ [Insn (st_at s - base_ip)]))"
    using Cons.IH [OF u(4) _ n(1) f] Cons.prems(2,3) n(1) u(1,3) by (simp add: step_events_def)
  finally show ?case by simp
qed

section \<open>The replay of a complete record\<close>

lemma taken_edges_Cons:
  assumes "taken_edges ss = x # xs"
  obtains us s vs where "ss = us @ s # vs" "untaken us" "st_taken s" "x = (st_at s, st_next s)" "xs = taken_edges vs"
proof -
  from assms have "filter st_taken ss \<noteq> []" by (auto simp: taken_edges_def)
  then have "\<exists>s\<in>set ss. st_taken s" by (auto simp: filter_empty_conv)
  from split_list_first_prop [OF this] obtain us s vs where s: "ss = us @ s # vs" "st_taken s" "untaken us" by blast
  then have "filter st_taken us = []" by (simp add: filter_empty_conv)
  with s assms show thesis by (intro that [of us s vs]) (simp_all add: taken_edges_def)
qed

definition base_entry :: "u64 \<Rightarrow> nat \<Rightarrow> exec_step list \<Rightarrow> bool" where
  "base_entry base_ip len ss \<longleftrightarrow> (\<forall>s. find (\<lambda>s. in_region base_ip len (st_next s)) ss = Some s \<longrightarrow> st_next s = base_ip)"

lemma find_append: "find P (us @ vs) = (case find P us of None \<Rightarrow> find P vs | Some x \<Rightarrow> Some x)"
  by (induction us) auto

lemma outside_find:
  "exec_ok dec base_ip len a (us @ [s]) \<Longrightarrow> untaken us \<Longrightarrow> \<not> in_region base_ip len a \<Longrightarrow>
    find (\<lambda>s. in_region base_ip len (st_next s)) us = None"
  by (induction us arbitrary: a) (auto simp: step_ok_def)

lemma base_entry_split:
  "find (\<lambda>s. in_region base_ip len (st_next s)) us = None \<Longrightarrow>
   base_entry base_ip len (us @ s # vs) \<longleftrightarrow>
     (if in_region base_ip len (st_next s) then st_next s = base_ip else base_entry base_ip len vs)"
  by (simp add: base_entry_def find_append)

lemma land_plain: "entered \<or> to = base_ip \<Longrightarrow> land_at dec base_ip len entered to t = append_block t (to - base_ip)"
  by (auto simp: land_at_def)

lemma replay_one:
  assumes g: "good_region dec base_ip len" and e: "exec_ok dec base_ip len a (us @ [s])" "untaken us" "st_taken s"
    and ip: "in_region base_ip len a \<longrightarrow> ip = a"
    and en: "entered \<or> in_region base_ip len a \<or> (in_region base_ip len (st_next s) \<longrightarrow> st_next s = base_ip)"
    and b: "\<not> br_dropped hs r" "edge_of r = (st_at s, st_next s)"
  shows "replay_loop hs dec base_ip len ip entered t (r # es) =
    replay_loop hs dec base_ip len (st_next s) (entered \<or> in_region base_ip len a \<or> in_region base_ip len (st_next s))
      (trace_run t (exec_events dec base_ip len (us @ [s]))) es"
proof (cases "in_region base_ip len a")
  case True
  have gb: "unat base_ip + len < 2 ^ 64" using g by (simp add: good_region_def)
  have m: "in_region base_ip len (st_at s)" "unat a \<le> unat (st_at s)" using run_mono [OF g e(1,2) True] by auto
  have d: "st_at s \<ge> a" "st_at s < base_ip + of_nat len" using m by (auto simp: word_le_nat_alt in_region_def)
  have f: "unat (st_at s) - unat a < len + 1" using m True in_region_unat [OF gb] by auto
  show ?thesis
    using b True ip d m walk_exact [OF g e(1,2) True f, of t] e(3)
    by (simp add: edge_of_def land_plain step_events_def Let_def del: amd_walk.simps)
next
  case False
  note o = run_outside [OF e(1,2) False]
  from o have nd: "(in_region base_ip len ip \<and> st_at s \<ge> ip \<and> st_at s < base_ip + of_nat len) = False"
    by (auto simp: in_region_def)
  have "replay_loop hs dec base_ip len ip entered t (r # es) =
    (if in_region base_ip len (st_next s)
     then replay_loop hs dec base_ip len (st_next s) True (land_at dec base_ip len entered (st_next s) t) es
     else replay_loop hs dec base_ip len (st_next s) entered t es)"
    using b by (simp add: edge_of_def Let_def nd)
  moreover have "in_region base_ip len (st_next s) \<Longrightarrow>
      land_at dec base_ip len entered (st_next s) t = append_block t (st_next s - base_ip)"
    using en False by (intro land_plain) blast
  ultimately show ?thesis using False o e(3) by (simp add: step_events_def)
qed

lemma replay_exact:
  assumes g: "good_region dec base_ip len"
  shows "exec_ok dec base_ip len a ss \<Longrightarrow> map edge_of (filter (\<lambda>e. \<not> br_dropped hs e) br) = taken_edges ss \<Longrightarrow>
    (ss \<noteq> [] \<longrightarrow> st_taken (last ss)) \<Longrightarrow> (in_region base_ip len a \<longrightarrow> ip = a) \<Longrightarrow>
    entered \<or> in_region base_ip len a \<or> base_entry base_ip len ss \<Longrightarrow>
    replay_loop hs dec base_ip len ip entered t br =
      (True, if ss = [] then ip else st_next (last ss), trace_run t (exec_events dec base_ip len ss))"
proof (induction br arbitrary: a ss ip entered t)
  case Nil
  then have "ss = []" by (auto simp: taken_edges_def filter_empty_conv)
  then show ?case by simp
next
  case (Cons r br)
  show ?case
  proof (cases "br_dropped hs r")
    case True
    with Cons.prems Cons.IH [of a ss ip entered t] show ?thesis by simp
  next
    case False
    with Cons.prems(2) have "taken_edges ss = edge_of r # map edge_of (filter (\<lambda>e. \<not> br_dropped hs e) br)" by simp
    then obtain us s vs where s: "ss = us @ s # vs" "untaken us" "st_taken s" "edge_of r = (st_at s, st_next s)"
      "map edge_of (filter (\<lambda>e. \<not> br_dropped hs e) br) = taken_edges vs"
      by (rule taken_edges_Cons)
    have e: "exec_ok dec base_ip len a (us @ [s])" "exec_ok dec base_ip len (st_next s) vs"
      using Cons.prems(1) unfolding s(1) by (auto simp: exec_ok_append)
    let ?R = "in_region base_ip len"
    have be: "entered \<or> ?R a \<or> ?R (st_next s) \<or> base_entry base_ip len vs"
      "entered \<or> ?R a \<or> (?R (st_next s) \<longrightarrow> st_next s = base_ip)"
      using Cons.prems(5) base_entry_split [OF outside_find [OF e(1) s(2)], of s vs] unfolding s(1)
      by (cases "in_region base_ip len a"; simp split: if_splits)+
    have "replay_loop hs dec base_ip len ip entered t (r # br) =
        replay_loop hs dec base_ip len (st_next s) (entered \<or> ?R a \<or> ?R (st_next s))
          (trace_run t (exec_events dec base_ip len (us @ [s]))) br"
      by (rule replay_one [OF g e(1) s(2,3) Cons.prems(4) be(2) False s(4)])
    also have "\<dots> = (True, if vs = [] then st_next s else st_next (last vs),
        trace_run (trace_run t (exec_events dec base_ip len (us @ [s]))) (exec_events dec base_ip len vs))"
      by (rule Cons.IH [OF e(2) s(5)]) (use Cons.prems(3) be(1) in \<open>simp_all add: s(1) split: if_splits\<close>)
    finally show ?thesis by (simp add: s(1))
  qed
qed

lemma replay_of_execution:
  assumes "good_region dec base_ip len" and "exec_ok dec base_ip len a ss" and "enters_at_base base_ip len a ss"
    and "ss \<noteq> []" "st_taken (last ss)" "\<not> in_region base_ip len (st_next (last ss))"
    and "map edge_of (filter (\<lambda>e. \<not> br_dropped have_spec e) br) = rev (taken_edges ss)"
  shows "amd_replay have_spec dec br base_ip len t =
    (False, trace_run t (Block 0 # exec_events dec base_ip len ss))"
proof -
  have r: "map edge_of (filter (\<lambda>e. \<not> br_dropped have_spec e) (rev br)) = taken_edges ss"
    using assms(7) by (simp add: rev_filter [symmetric] rev_map [symmetric])
  have "replay_loop have_spec dec base_ip len base_ip False (append_block t 0) (rev br) =
      (True, if ss = [] then base_ip else st_next (last ss), trace_run (append_block t 0) (exec_events dec base_ip len ss))"
    by (rule replay_exact [OF assms(1,2) r])
      (use assms(3,5) in \<open>auto simp: enters_at_base_def base_entry_def split: if_splits option.splits\<close>)
  with assms(4,6) show ?thesis by (simp add: amd_replay_def tail_fill_def)
qed

text \<open>
  C17: The branch-record replay is exact. Take any execution of code that may call out of the region and come back,
  entered at the region's base, whose last branch leaves the region, and the record of its taken branches
  (newest first, with aborted and wrong-path entries anywhere in it). The replay's trace is the trace of the
  execution itself: the block at the entry, then every instruction of the region that ran, in order, with a block start
  after each branch and at each return into the region; no instruction is lost or made up and the replay
  sets no truncation.
\<close>

theorem amd_replay_exact:
  assumes "good_region dec base_ip len" and "exec_ok dec base_ip len a ss" and "enters_at_base base_ip len a ss"
    and "ss \<noteq> []" "st_taken (last ss)" "\<not> in_region base_ip len (st_next (last ss))"
    and "map edge_of (filter (\<lambda>e. \<not> br_dropped have_spec e) br) = rev (taken_edges ss)"
  shows "amd_replay have_spec dec br base_ip len t =
    (False, trace_run t (Block 0 # exec_events dec base_ip len ss))"
  by (rule replay_of_execution [OF assms])

section \<open>The replay of a record that lacks the exit\<close>

text \<open>An instruction that leaves the region for good: a return, or a direct jump out of it.\<close>

definition is_exit :: "decoder \<Rightarrow> u64 \<Rightarrow> nat \<Rightarrow> exec_step \<Rightarrow> bool" where
  "is_exit dec base_ip len x \<longleftrightarrow> in_region base_ip len (st_at x) \<and> st_taken x \<and> \<not> in_region base_ip len (st_next x) \<and>
     (let i = dec (st_at x - base_ip) in di_ret i \<or> (di_uncond i \<and> di_target i = Some (st_next x)))"

abbreviation branch_free :: "decoder \<Rightarrow> u64 \<Rightarrow> exec_step list \<Rightarrow> bool" where
  "branch_free dec base_ip us \<equiv> \<forall>u\<in>set us. \<not> st_taken u \<and> \<not> di_branch (dec (st_at u - base_ip))"

lemma exit_end:
  assumes "good_region dec base_ip len" "step_ok dec base_ip len x" "in_region base_ip len (st_at x)"
  shows "unat (st_at x - base_ip + of_nat (di_len (dec (st_at x - base_ip)))) =
      unat (st_at x - base_ip) + di_len (dec (st_at x - base_ip))"
    "unat (st_at x - base_ip) < len" "0 < di_len (dec (st_at x - base_ip))"
proof -
  have g: "unat base_ip + len < 2 ^ 64" using assms(1) by (simp add: good_region_def)
  show l: "unat (st_at x - base_ip) < len" using assms(3) in_region_unat [OF g] by (auto simp: off_unat)
  then have "unat (st_at x - base_ip) + di_len (dec (st_at x - base_ip)) \<le> len" using assms(1) by (simp add: good_region_def)
  with g show "unat (st_at x - base_ip + of_nat (di_len (dec (st_at x - base_ip)))) =
      unat (st_at x - base_ip) + di_len (dec (st_at x - base_ip))" by (simp add: unat_word_ariths unat_of_nat)
  show "0 < di_len (dec (st_at x - base_ip))" using assms(2,3) by (simp add: step_ok_def Let_def)
qed

lemma run_offsets:
  assumes "good_region dec base_ip len" "exec_ok dec base_ip len a (u # us @ [x])" "untaken (u # us)" "in_region base_ip len a"
  defines "i \<equiv> dec (a - base_ip)"
  shows "st_at u = a" "in_region base_ip len (st_next u)" "exec_ok dec base_ip len (st_next u) (us @ [x])"
    "st_next u - base_ip = (a - base_ip) + of_nat (di_len i)" "0 < di_len i" "\<not> di_ret i"
    "unat (st_next u - base_ip) = unat (a - base_ip) + di_len i" "unat (st_next u - base_ip) \<le> unat (st_at x - base_ip)"
    "unat (a - base_ip) < len"
proof -
  have g: "unat base_ip + len < 2 ^ 64" using assms(1) by (simp add: good_region_def)
  have u: "st_at u = a" "step_ok dec base_ip len u" "\<not> st_taken u" "exec_ok dec base_ip len (st_next u) (us @ [x])"
    using assms by auto
  note n = step_untaken [OF assms(1) u(2,3), unfolded u(1), OF assms(4)]
  show "st_at u = a" "in_region base_ip len (st_next u)" "exec_ok dec base_ip len (st_next u) (us @ [x])"
    "st_next u - base_ip = (a - base_ip) + of_nat (di_len i)" "0 < di_len i" "\<not> di_ret i"
    using u n by (auto simp: i_def)
  have b: "unat base_ip \<le> unat a" "unat a < unat base_ip + len" using assms(4) in_region_unat [OF g] by auto
  then show "unat (a - base_ip) < len" by (simp add: off_unat)
  show "unat (st_next u - base_ip) = unat (a - base_ip) + di_len i"
    using b n(2) by (simp add: off_unat i_def)
  show "unat (st_next u - base_ip) \<le> unat (st_at x - base_ip)"
    using run_mono [OF assms(1) u(4)] assms(3) n(1,2) b by (auto simp: off_unat)
qed

lemma tail_scan_exact:
  assumes g: "good_region dec base_ip len" and x: "is_exit dec base_ip len x"
  shows "exec_ok dec base_ip len a (us @ [x]) \<Longrightarrow> branch_free dec base_ip us \<Longrightarrow> in_region base_ip len a \<Longrightarrow>
    unat (st_at x - base_ip) - unat (a - base_ip) < guard \<Longrightarrow>
    tail_scan dec base_ip len guard (a - base_ip) = st_at x - base_ip + of_nat (di_len (dec (st_at x - base_ip)))"
proof (induction us arbitrary: a guard)
  case Nil
  then have s: "st_at x = a" "step_ok dec base_ip len x" by auto
  then obtain n where "guard = Suc n" using Nil by (cases guard) auto
  with s exit_end [OF g s(2)] x show ?case
    by (auto simp: is_exit_def step_ok_def Let_def)
next
  case (Cons u us)
  have r: "st_at u = a" "in_region base_ip len (st_next u)" "exec_ok dec base_ip len (st_next u) (us @ [x])"
    "st_next u - base_ip = (a - base_ip) + of_nat (di_len (dec (a - base_ip)))" "0 < di_len (dec (a - base_ip))"
    "\<not> di_ret (dec (a - base_ip))" "unat (a - base_ip) < len"
    "unat (st_next u - base_ip) = unat (a - base_ip) + di_len (dec (a - base_ip))"
    "unat (st_next u - base_ip) \<le> unat (st_at x - base_ip)"
    using run_offsets [OF g, of a u us x] Cons.prems by auto
  obtain k where k: "guard = Suc k" using Cons.prems(4) by (cases guard) auto
  have f: "unat (st_at x - base_ip) - unat (st_next u - base_ip) < k" using Cons.prems(4) r k by linarith
  show ?case using Cons.IH [OF r(3) _ r(2) f] Cons.prems(2) r k by (simp add: Let_def)
qed

lemma commit_exact:
  assumes g: "good_region dec base_ip len" and x: "is_exit dec base_ip len x"
  defines "e \<equiv> st_at x - base_ip + of_nat (di_len (dec (st_at x - base_ip)))"
  shows "exec_ok dec base_ip len a (us @ [x]) \<Longrightarrow> branch_free dec base_ip us \<Longrightarrow> in_region base_ip len a \<Longrightarrow>
    unat e - unat (a - base_ip) \<le> rounds \<Longrightarrow>
    commit_run dec e rounds (a - base_ip) t = (True, trace_run t (exec_events dec base_ip len (us @ [x])))"
proof (induction us arbitrary: a t rounds)
  case Nil
  then have s: "st_at x = a" "step_ok dec base_ip len x" by auto
  note l = exit_end [OF g s(2), unfolded s(1), OF Nil(3)]
  have lt: "a - base_ip < e" unfolding e_def s(1) word_less_nat_alt l(1) using l(3) by simp
  obtain n where n: "rounds = Suc n" using Nil(4) lt by (cases rounds) (auto simp: word_less_nat_alt)
  have "commit_run dec e n e t' = (True, t')" for t' by (cases n) auto
  then show ?case using s l lt n x by (simp add: is_exit_def step_events_def e_def)
next
  case (Cons u us)
  have r: "st_at u = a" "in_region base_ip len (st_next u)" "exec_ok dec base_ip len (st_next u) (us @ [x])"
    "st_next u - base_ip = (a - base_ip) + of_nat (di_len (dec (a - base_ip)))" "0 < di_len (dec (a - base_ip))"
    "unat (st_next u - base_ip) = unat (a - base_ip) + di_len (dec (a - base_ip))"
    "unat (st_next u - base_ip) \<le> unat (st_at x - base_ip)"
    using run_offsets [OF g, of a u us x] Cons.prems by auto
  have "step_ok dec base_ip len x" using Cons.prems(1) by (auto simp: exec_ok_append)
  then have "unat (st_at x - base_ip) < unat e" using exit_end [OF g] x by (simp add: is_exit_def e_def)
  then have lt: "a - base_ip < e" "unat (a - base_ip) < unat e" using r by (auto simp: word_less_nat_alt)
  then obtain k where k: "rounds = Suc k" using Cons.prems(4) by (cases rounds) auto
  have f: "unat e - unat (st_next u - base_ip) \<le> k" using Cons.prems(4) r k by linarith
  have "\<not> st_taken u" "\<not> di_branch (dec (a - base_ip))" using Cons.prems(2) r(1) by auto
  then show ?case
    using Cons.IH [OF r(3) _ r(2) f] Cons.prems(2,3) r k lt by (simp add: Let_def step_events_def)
qed

lemma insns_keep_blocks_total:
  "\<forall>e\<in>set es. \<exists>off. e = Insn off \<Longrightarrow> trace_run (t\<lparr>t_blocks_total := n\<rparr>) es = (trace_run t es)\<lparr>t_blocks_total := n\<rparr>"
proof (induction es arbitrary: t)
  case (Cons e es)
  then obtain off where "e = Insn off" by auto
  moreover have "append_insn (t\<lparr>t_blocks_total := n\<rparr>) off = (append_insn t off)\<lparr>t_blocks_total := n\<rparr>"
    by (simp add: append_insn_def Let_def split: option.split)
  ultimately show ?case using Cons by simp
qed simp

lemma insns_no_blocks: "\<forall>e\<in>set es. \<exists>off. e = Insn off \<Longrightarrow> block_offs es = []"
  by (induction es) (auto simp: block_offs_def)

lemma word_dist: "a < b \<Longrightarrow> unat b - unat a \<le> unat (b - a)" for a b :: u64
  by (simp add: unat_sub)

lemma append_block_again:
  "\<not> t_truncated (append_block t off) \<Longrightarrow>
   append_block (append_block t off) off = (append_block t off)\<lparr>t_blocks_total := t_blocks_total t + 2\<rparr>"
  by (auto simp: append_block_def Let_def split: option.splits if_splits)

lemma branch_free_events:
  "branch_free dec base_ip us \<Longrightarrow> is_exit dec base_ip len x \<Longrightarrow>
   \<forall>e\<in>set (exec_events dec base_ip len (us @ [x])). \<exists>off. e = Insn off"
  by (auto simp: exec_events_def step_events_def is_exit_def split: if_splits)

lemma tail_fill_exact:
  assumes g: "good_region dec base_ip len" and e: "exec_ok dec base_ip len a (us @ [x])" "branch_free dec base_ip us"
      "is_exit dec base_ip len x" "in_region base_ip len a" and t: "\<not> t_truncated t"
  shows "tail_fill dec base_ip len a t =
    (True, trace_run (append_block t (a - base_ip)) (exec_events dec base_ip len (us @ [x])))"
proof -
  let ?e = "st_at x - base_ip + of_nat (di_len (dec (st_at x - base_ip)))"
  have gb: "unat base_ip + len < 2 ^ 64" using g by (simp add: good_region_def)
  have u: "untaken us" using e(2) by simp
  have x: "step_ok dec base_ip len x" "in_region base_ip len (st_at x)" using e by (auto simp: exec_ok_append is_exit_def)
  note l = exit_end [OF g x]
  have "unat (a - base_ip) \<le> unat (st_at x - base_ip)"
    using run_mono [OF g e(1) u e(4)] e(4) in_region_unat [OF gb] by (auto simp: off_unat)
  with l have lt: "a - base_ip < ?e" by (simp add: word_less_nat_alt)
  have s: "tail_scan dec base_ip len (len + 1) (a - base_ip) = ?e"
    by (rule tail_scan_exact [OF g e(3,1,2,4)]) (use l(2) in simp)
  from commit_exact [OF g e(3,1,2,4) word_dist [OF lt], of "append_block t (a - base_ip)"] show ?thesis
    using t e(4) lt unfolding tail_fill_def Let_def s by simp
qed

text \<open>The newest block start is that of the block the execution is in.\<close>

lemma last_block:
  assumes "exec_ok dec base_ip len a ss" "ss \<noteq> [] \<longrightarrow> st_taken (last ss)"
    "in_region base_ip len (if ss = [] then a else st_next (last ss))" "ss = [] \<longrightarrow> a = base_ip"
  shows "\<exists>es. Block 0 # exec_events dec base_ip len ss = es @ [Block ((if ss = [] then a else st_next (last ss)) - base_ip)]"
proof (cases ss rule: rev_cases)
  case (snoc us s)
  with assms show ?thesis
    by (cases "in_region base_ip len (st_at s)") (auto simp: step_events_def)
qed (use assms in simp)

text \<open>
  A record that stops short of the exit is completed exactly. Let an execution's last recorded branch land in the region
  (or, with no record, let it start at the base), and let it run from there without a branch to a return or
  a direct jump out of the region that is not recorded. As long as no buffer is full, the replay still gives every instruction and every distinct
  block of the whole execution and reports that the exit was reached. Its count of block entries is one too high: the
  last block is entered twice.
\<close>

theorem amd_replay_tail:
  assumes "good_region dec base_ip len" and "exec_ok dec base_ip len a (ss @ us @ [x])" and "enters_at_base base_ip len a ss"
    and "if ss = [] then a = base_ip else st_taken (last ss) \<and> in_region base_ip len (st_next (last ss))"
    and "branch_free dec base_ip us" and "is_exit dec base_ip len x"
    and "map edge_of (filter (\<lambda>e. \<not> br_dropped have_spec e) br) = rev (taken_edges ss)"
    and "\<not> t_truncated (trace_run t (Block 0 # exec_events dec base_ip len ss))"
  shows "amd_replay have_spec dec br base_ip len t =
    (True, (trace_run t (Block 0 # exec_events dec base_ip len (ss @ us @ [x])))
       \<lparr>t_blocks_total := t_blocks_total (trace_run t (Block 0 # exec_events dec base_ip len (ss @ us @ [x]))) + 1\<rparr>)"
proof -
  let ?p = "if ss = [] then a else st_next (last ss)"
  let ?E = "Block 0 # exec_events dec base_ip len ss" and ?F = "exec_events dec base_ip len (us @ [x])"
  have r: "map edge_of (filter (\<lambda>e. \<not> br_dropped have_spec e) (rev br)) = taken_edges ss"
    using assms(7) by (simp add: rev_filter [symmetric] rev_map [symmetric])
  have e: "exec_ok dec base_ip len a ss" "exec_ok dec base_ip len ?p (us @ [x])" using assms(2) by (auto simp: exec_ok_append)
  have "in_region base_ip len base_ip"
    using assms(1,6) in_region_unat [of base_ip len] by (auto simp: good_region_def is_exit_def)
  then have p: "in_region base_ip len ?p" using assms(4) by (auto split: if_splits)
  have "replay_loop have_spec dec base_ip len base_ip False (append_block t 0) (rev br) =
      (True, if ss = [] then base_ip else st_next (last ss), trace_run (append_block t 0) (exec_events dec base_ip len ss))"
    by (rule replay_exact [OF assms(1) e(1) r])
      (use assms(3,4) in \<open>auto simp: enters_at_base_def base_entry_def split: if_splits option.splits\<close>)
  then have "amd_replay have_spec dec br base_ip len t = tail_fill dec base_ip len ?p (trace_run t ?E)"
    using assms(4) by (auto simp: amd_replay_def)
  also have "\<dots> = (True, trace_run (append_block (trace_run t ?E) (?p - base_ip)) ?F)"
    by (rule tail_fill_exact [OF assms(1) e(2) assms(5,6) p assms(8)])
  also obtain es where es: "?E = es @ [Block (?p - base_ip)]"
    using last_block [OF e(1) _ p] assms(4) by (auto split: if_splits)
  have "append_block (trace_run t ?E) (?p - base_ip) = (trace_run t ?E)\<lparr>t_blocks_total := t_blocks_total (trace_run t es) + 2\<rparr>"
    using append_block_again [of "trace_run t es" "?p - base_ip"] assms(8) unfolding es by simp
  also have "trace_run \<dots> ?F = (trace_run (trace_run t ?E) ?F)\<lparr>t_blocks_total := t_blocks_total (trace_run t es) + 2\<rparr>"
    by (rule insns_keep_blocks_total [OF branch_free_events [OF assms(5,6)]])
  also have "t_blocks_total (trace_run t es) + 2 = t_blocks_total (trace_run (trace_run t ?E) ?F) + 1"
  proof -
    have "block_offs ?F = []" by (rule insns_no_blocks [OF branch_free_events [OF assms(5,6)]])
    then show ?thesis unfolding run_totals es by simp
  qed
  finally show ?thesis by simp
qed

section \<open>Stitching\<close>

lemma span_loop_exact:
  assumes g: "good_region dec base_ip len"
  shows "exec_ok dec base_ip len a (us @ [s]) \<Longrightarrow> untaken us \<Longrightarrow> in_region base_ip len a \<Longrightarrow>
    span_loop dec base_ip len (st_at s - base_ip) guard (a - base_ip)"
proof (induction us arbitrary: a guard)
  case Nil
  then show ?case by (cases guard) auto
next
  case (Cons u us)
  have r: "in_region base_ip len (st_next u)" "exec_ok dec base_ip len (st_next u) (us @ [s])"
    "st_next u - base_ip = (a - base_ip) + of_nat (di_len (dec (a - base_ip)))" "0 < di_len (dec (a - base_ip))"
    "unat (st_next u - base_ip) \<le> unat (st_at s - base_ip)"
    using run_offsets [OF g, of a u us s] Cons.prems by auto
  have nu: "\<not> di_uncond (dec (a - base_ip))"
    using step_untaken(4) [OF g, of u] Cons.prems by auto
  have "\<not> a - base_ip + of_nat (di_len (dec (a - base_ip))) > st_at s - base_ip"
    using r(5) unfolding r(3) [symmetric] by (simp add: word_less_nat_alt)
  then show ?case using Cons.IH [OF r(2) _ r(1)] Cons.prems(2) r(3,4) nu
    by (cases guard) (simp_all add: Let_def)
qed

lemma span_exact:
  assumes g: "good_region dec base_ip len" and e: "exec_ok dec base_ip len a (us @ [s])" "untaken us"
  shows "amd_span_decodable (Some dec) base_ip len a (st_at s)"
proof (cases "in_region base_ip len a")
  case True
  have "a \<le> st_at s" using run_mono [OF g e True] by (simp add: word_le_nat_alt)
  then show ?thesis using span_loop_exact [OF g e True] by (auto simp: amd_span_decodable_def simp del: span_loop.simps)
qed (simp add: amd_span_decodable_def)

definition linked :: "decoder option \<Rightarrow> u64 \<Rightarrow> nat \<Rightarrow> perf_branch_entry list \<Rightarrow> bool" where
  "linked code base_ip len es \<longleftrightarrow>
     (\<forall>i. Suc i < length es \<longrightarrow> amd_span_decodable code base_ip len (pb_to (es ! i)) (pb_from (es ! Suc i)))"

lemma exec_linked:
  assumes g: "good_region dec base_ip len"
  shows "exec_ok dec base_ip len a ss \<Longrightarrow> map edge_of es = taken_edges ss \<Longrightarrow> linked (Some dec) base_ip len es"
proof (induction es arbitrary: a ss)
  case (Cons e es)
  then have "taken_edges ss = edge_of e # map edge_of es" by simp
  then obtain us s vs where s: "ss = us @ s # vs" "untaken us" "st_taken s" "edge_of e = (st_at s, st_next s)"
    "map edge_of es = taken_edges vs" by (rule taken_edges_Cons)
  have v: "exec_ok dec base_ip len (st_next s) vs" using Cons.prems(1) s(1) by (auto simp: exec_ok_append)
  have "amd_span_decodable (Some dec) base_ip len (pb_to e) (pb_from (hd es))" if "es \<noteq> []"
  proof -
    from that s(5) have "taken_edges vs = edge_of (hd es) # map edge_of (tl es)" by (cases es) auto
    then obtain us' s' vs' where s': "vs = us' @ s' # vs'" "untaken us'" "edge_of (hd es) = (st_at s', st_next s')"
      by (rule taken_edges_Cons)
    have "exec_ok dec base_ip len (st_next s) (us' @ [s'])" using v s'(1) by (auto simp: exec_ok_append)
    from span_exact [OF g this s'(2)] s(4) s'(3) show ?thesis by (simp add: edge_of_def)
  qed
  with Cons.IH [OF v s(5)] show ?case
    by (auto simp: linked_def nth_Cons hd_conv_nth split: nat.splits)
qed (simp add: linked_def)

text \<open>The consecutive pairs of edges of a list of records.\<close>

definition edge_pairs :: "perf_branch_entry list \<Rightarrow> ((u64 \<times> u64) \<times> (u64 \<times> u64)) set" where
  "edge_pairs xs = {(edge_of (xs ! i), edge_of (xs ! Suc i)) | i. Suc i < length xs}"

lemma edge_pairs_Nil [simp]: "edge_pairs [] = {}"
  by (simp add: edge_pairs_def)

lemma edge_pairs_Cons [simp]:
  "edge_pairs (x # xs) = (if xs = [] then {} else {(edge_of x, edge_of (hd xs))}) \<union> edge_pairs xs"
proof -
  have e: "(\<exists>i. P i) \<longleftrightarrow> P 0 \<or> (\<exists>i. P (Suc i))" for P :: "nat \<Rightarrow> bool" by (metis not0_implies_Suc)
  show ?thesis unfolding edge_pairs_def by (subst e) (auto simp: hd_conv_nth)
qed

lemma edge_pairs_append:
  "edge_pairs (xs @ ys) = edge_pairs xs \<union> edge_pairs ys \<union>
     (if xs = [] \<or> ys = [] then {} else {(edge_of (last xs), edge_of (hd ys))})"
  by (induction xs) (auto simp: hd_append)

lemma edge_pairs_rev: "edge_pairs (rev xs) = (edge_pairs xs)\<inverse>"
  by (induction xs) (auto simp: edge_pairs_append last_rev)

lemma edge_pairs_sub: "edge_pairs (take n xs) \<subseteq> edge_pairs xs" "edge_pairs (drop n xs) \<subseteq> edge_pairs xs"
  by (metis append_take_drop_id edge_pairs_append sup.cobounded1 sup.coboundedI1 sup.cobounded2)+

lemma append_new_eq:
  "length out \<le> out_cap \<Longrightarrow>
   append_new out_cap out gap es = (out @ take (out_cap - length out) es, gap \<or> out_cap < length out + length es)"
  by (induction es arbitrary: out) (auto simp: Suc_diff_le take_Cons' )

lemma new_edges: "d \<le> length s \<Longrightarrow> map (\<lambda>j. s ! (length s - 1 - j)) [length s - d..<length s] = drop (length s - d) (rev s)"
  by (rule nth_equalityI) (simp_all add: rev_nth)

lemma edge_eq_edge_of: "amd_edge_eq a b \<longleftrightarrow> edge_of a = edge_of b"
  by (simp add: amd_edge_eq_def edge_of_def)

text \<open>An accepted shift: the window's older edges are the merged tail.\<close>

lemma shift_overlap:
  assumes "shift_ok code base_ip len out s d" "0 < d" "d < length s"
  shows "out \<noteq> []" "edge_of (last out) = edge_of (rev s ! (length s - d - 1))"
proof -
  let ?L = "length s - d"
  have l: "?L \<le> length out" "\<forall>j<?L. edge_of (s ! (length s - 1 - j)) = edge_of (out ! (length out - ?L + j))"
    using assms(1) by (auto simp: shift_ok_def Let_def edge_eq_edge_of)
  then show "out \<noteq> []" using assms(3) by auto
  have "?L - 1 < ?L" using assms(3) by simp
  with l(2) have "edge_of (s ! (length s - 1 - (?L - 1))) = edge_of (out ! (length out - ?L + (?L - 1)))" by blast
  with l(1) assms(2,3) \<open>out \<noteq> []\<close> show "edge_of (last out) = edge_of (rev s ! (length s - d - 1))"
    by (simp add: rev_nth last_conv_nth)
qed

lemma stitch_step_pairs:
  assumes "shift_ok code base_ip len out s d" "0 < d" "d < length s"
  shows "edge_pairs (out @ take q (drop (length s - d) (rev s))) \<subseteq> edge_pairs out \<union> edge_pairs (rev s)"
proof (cases "take q (drop (length s - d) (rev s)) = []")
  case False
  let ?m = "length s - d"
  note o = shift_overlap [OF assms]
  have "hd (take q (drop ?m (rev s))) = rev s ! ?m" using False assms(2,3) by (simp add: hd_take hd_drop_conv_nth)
  then have "(edge_of (last out), edge_of (hd (take q (drop ?m (rev s))))) \<in> edge_pairs (rev s)"
    using o(2) assms(2,3) unfolding edge_pairs_def by (auto intro!: exI [of _ "?m - 1"] simp: Suc_diff_Suc)
  moreover have "edge_pairs (take q (drop ?m (rev s))) \<subseteq> edge_pairs (rev s)" using edge_pairs_sub by blast
  ultimately show ?thesis using False o(1) by (auto simp: edge_pairs_append)
qed (use assms(2,3) in auto)

lemma find_upt_Some: "find P [1..<m] = Some d \<Longrightarrow> P d \<and> 0 < d \<and> d < m"
  by (auto simp: find_Some_iff)

lemma stitch_loop_pairs:
  "length out \<le> out_cap \<Longrightarrow> edge_pairs (fst (stitch_loop code base_ip len out_cap out gap ss)) \<subseteq>
     edge_pairs out \<union> (\<Union>s\<in>set ss. edge_pairs (rev s))"
proof (induction ss arbitrary: out gap)
  case (Cons s ss)
  show ?case
  proof (cases "s = [] \<or> find (shift_ok code base_ip len out s) [1..<length s] = None")
    case True
    then show ?thesis using Cons.IH [OF Cons.prems, of gap] by auto
  next
    case False
    then obtain d where d: "find (shift_ok code base_ip len out s) [1..<length s] = Some d" by auto
    note f = find_upt_Some [OF d]
    let ?o = "out @ take (out_cap - length out) (drop (length s - d) (rev s))"
    obtain gap1 where "append_new out_cap out gap (map (\<lambda>j. s ! (length s - 1 - j)) [length s - d..<length s]) = (?o, gap1)"
      using f Cons.prems new_edges [of d s] by (simp add: append_new_eq)
    with d False have "stitch_loop code base_ip len out_cap out gap (s # ss) = stitch_loop code base_ip len out_cap ?o gap1 ss"
      by simp
    moreover have "length ?o \<le> out_cap" using Cons.prems by simp
    ultimately show ?thesis
      using Cons.IH [of ?o gap1] stitch_step_pairs [of code base_ip len out s d "out_cap - length out"] f by fastforce
  qed
qed simp

text \<open>
  Stitching makes up no transition. Whatever stacks it is given, dropped samples and unrelated stacks included, any two
  consecutive edges of the stitched record are consecutive edges of one of the stacks, so the sequence
  never joins two branches that the hardware did not record one after the other.
\<close>

theorem amd_stitch_sound:
  "edge_pairs (fst (asmtest_amd_stitch code samples base_ip len out_cap)) \<subseteq> (\<Union>s\<in>set samples. edge_pairs s)"
proof (cases samples)
  case (Cons s ss)
  show ?thesis
  proof (cases "out_cap = 0")
    case False
    let ?seed = "take out_cap (rev s)"
    have seed: "map (\<lambda>j. s ! (length s - 1 - j)) [0..<length s] = rev s" using new_edges [of "length s" s] by simp
    obtain out gap where o: "stitch_loop code base_ip len out_cap ?seed (0 < length s \<and> length ?seed < length s) ss = (out, gap)"
      by fastforce
    have "edge_pairs out \<subseteq> edge_pairs ?seed \<union> (\<Union>s\<in>set ss. edge_pairs (rev s))"
      using stitch_loop_pairs [of ?seed out_cap code base_ip len "0 < length s \<and> length ?seed < length s" ss] unfolding o by simp
    also have "\<dots> \<subseteq> edge_pairs (rev s) \<union> (\<Union>s\<in>set ss. edge_pairs (rev s))"
      by (intro Un_mono edge_pairs_sub subset_refl)
    finally have "edge_pairs out \<subseteq> edge_pairs (rev s) \<union> (\<Union>s\<in>set ss. edge_pairs (rev s))" .
    then have "edge_pairs out \<subseteq> (\<Union>s\<in>set samples. edge_pairs s)\<inverse>"
      by (simp add: edge_pairs_rev Cons converse_Un converse_UNION)
    then have "edge_pairs (rev out) \<subseteq> (\<Union>s\<in>set samples. edge_pairs s)"
      unfolding edge_pairs_rev by (metis converse_converse converse_mono)
    moreover have "fst (asmtest_amd_stitch code samples base_ip len out_cap) = rev out"
      using o False unfolding Cons asmtest_amd_stitch_def Let_def list.case seed by simp
    ultimately show ?thesis by simp
  qed (simp add: asmtest_amd_stitch_def Cons)
qed (simp add: asmtest_amd_stitch_def)

section \<open>Stitching a contiguous sampling\<close>

text \<open>The stack after the first \<open>i\<close> of the branches \<open>E\<close>, on hardware of the given depth, oldest first.\<close>

definition lbr_window :: "nat \<Rightarrow> perf_branch_entry list \<Rightarrow> nat \<Rightarrow> perf_branch_entry list" where
  "lbr_window depth E i = drop (i - depth) (take i E)"

text \<open>One sample after every branch from the \<open>k\<close>-th on, each newest first.\<close>

definition lbr_samples :: "nat \<Rightarrow> perf_branch_entry list \<Rightarrow> nat \<Rightarrow> perf_branch_entry list list" where
  "lbr_samples depth E k = map (\<lambda>i. rev (lbr_window depth E i)) [k..<Suc (length E)]"

lemma contiguous_shift:
  assumes "linked code base_ip len E" "2 \<le> depth" "0 < i" "i < length E"
  defines "s \<equiv> rev (lbr_window depth E (Suc i))"
  shows "shift_ok code base_ip len (take i E) s 1" "1 < length s" "drop (length s - 1) (rev s) = [E ! i]"
proof -
  let ?m = "length s"
  have m: "?m = min depth (Suc i)" using assms(4) by (auto simp: s_def lbr_window_def)
  show l: "1 < ?m" using assms(2,3) m by simp
  have n: "rev s ! j = E ! (Suc i - ?m + j)" if "j < ?m" for j
    using that assms(4) m unfolding s_def lbr_window_def by (auto simp: min_def)
  have sn: "s ! j = E ! (i - j)" if "j < ?m" for j
  proof -
    have "?m \<le> Suc i" using m by simp
    then have "Suc i - ?m + (?m - 1 - j) = i - j" "?m - Suc (?m - 1 - j) = j" using that by linarith+
    with n [of "?m - 1 - j"] that show ?thesis by (simp add: rev_nth)
  qed
  have "?m - 1 < ?m" "0 < ?m" using l by linarith+
  then show "drop (?m - 1) (rev s) = [E ! i]"
    using Cons_nth_drop_Suc [of "?m - 1" "rev s"] sn [of 0] by (simp add: rev_nth)
  have "amd_span_decodable code base_ip len (pb_to (E ! (i - 1))) (pb_from (E ! i))"
    using spec [OF assms(1) [unfolded linked_def], of "i - 1"] assms(3,4) by simp
  moreover have "s ! (?m - 1 - j) = E ! (i - (?m - 1) + j)" if "j < ?m - 1" for j
  proof -
    have "?m \<le> Suc i" using m by simp
    then have "i - (?m - 1 - j) = i - (?m - 1) + j" "?m - 1 - j < ?m" using that by linarith+
    with sn [of "?m - 1 - j"] show ?thesis by metis
  qed
  ultimately show "shift_ok code base_ip len (take i E) s 1"
    using assms(3,4) sn [OF \<open>0 < ?m\<close>] m by (simp add: shift_ok_def Let_def amd_edge_eq_def)
qed

lemma stitch_full:
  "length out = out_cap \<Longrightarrow> stitch_loop code base_ip len out_cap out True ss = (out, True)"
proof (induction ss)
  case (Cons s ss)
  then show ?case by (auto simp: append_new_eq split: option.split)
qed simp

lemma stitch_overflow:
  assumes "length out = out_cap" "s \<noteq> []"
  shows "stitch_loop code base_ip len out_cap out gap (s # ss) = (out, True)"
proof (cases "find (shift_ok code base_ip len out s) [1..<length s]")
  case (Some d)
  then have "0 < d" "d < length s" using find_upt_Some by blast+
  with Some assms show ?thesis using stitch_full [OF assms(1)] by (simp add: append_new_eq)
qed (use assms in simp)

lemma stitch_contiguous_loop:
  assumes "linked code base_ip len E" "2 \<le> depth" "0 < i" "i \<le> length E" "i \<le> out_cap"
  shows "stitch_loop code base_ip len out_cap (take i E) False (lbr_samples depth E (Suc i)) =
    (take out_cap E, out_cap < length E)"
  using assms(3-5)
proof (induction "length E - i" arbitrary: i)
  case 0
  then show ?case by (simp add: lbr_samples_def)
next
  case (Suc n)
  let ?s = "rev (lbr_window depth E (Suc i))"
  have i: "i < length E" using Suc.hyps(2) by simp
  then have ss: "lbr_samples depth E (Suc i) = ?s # lbr_samples depth E (Suc (Suc i))"
    by (simp add: lbr_samples_def upt_conv_Cons del: upt_Suc)
  note c = contiguous_shift [OF assms(1,2) Suc.prems(1) i]
  have ne: "?s \<noteq> []" using c(2) by auto
  show ?case
  proof (cases "i = out_cap")
    case True
    have "length (take i E) = out_cap" using True i by simp
    from stitch_overflow [OF this ne] show ?thesis unfolding ss using True i by simp
  next
    case False
    have "[1..<length ?s] = 1 # [2..<length ?s]" using c(2) upt_conv_Cons [of 1 "length ?s"] by (simp add: numeral_2_eq_2)
    then have f: "find (shift_ok code base_ip len (take i E) ?s) [1..<length ?s] = Some 1" using c(1) by simp
    have a: "append_new out_cap (take i E) False (map (\<lambda>j. ?s ! (length ?s - 1 - j)) [length ?s - 1..<length ?s]) =
        (take (Suc i) E, False)"
      using Suc.prems(3) False i unfolding new_edges [OF less_imp_le [OF c(2)]] c(3)
      by (simp add: append_new_eq take_Suc_conv_app_nth)
    have "stitch_loop code base_ip len out_cap (take i E) False (lbr_samples depth E (Suc i)) =
        stitch_loop code base_ip len out_cap (take (Suc i) E) False (lbr_samples depth E (Suc (Suc i)))"
      unfolding ss stitch_loop.simps(2) f option.case a using ne by simp
    also have "\<dots> = (take out_cap E, out_cap < length E)"
      by (rule Suc.hyps(1)) (use Suc.hyps(2) Suc.prems i False in auto)
    finally show ?thesis .
  qed
qed

lemma stitch_contiguous:
  assumes "linked code base_ip len E" "2 \<le> depth" "0 < k" "k \<le> depth" "k \<le> length E" "0 < out_cap"
  shows "asmtest_amd_stitch code (lbr_samples depth E k) base_ip len out_cap = (rev (take out_cap E), out_cap < length E)"
proof -
  let ?s = "rev (take k E)"
  have ss: "lbr_samples depth E k = ?s # lbr_samples depth E (Suc k)"
    using assms(4,5) by (simp add: lbr_samples_def lbr_window_def upt_conv_Cons del: upt_Suc)
  have seed: "map (\<lambda>j. ?s ! (length ?s - 1 - j)) [0..<length ?s] = take k E" using new_edges [of "length ?s" ?s] by simp
  have "stitch_loop code base_ip len out_cap (take out_cap (take k E)) (out_cap < k) (lbr_samples depth E (Suc k)) =
      (take out_cap E, out_cap < length E)"
  proof (cases "out_cap < k")
    case True
    with stitch_full [of "take out_cap E" out_cap] assms(5) show ?thesis by (simp add: min_def)
  next
    case False
    with stitch_contiguous_loop [OF assms(1-3,5)] show ?thesis by (simp add: min_def)
  qed
  moreover have "(0 < length ?s \<and> length (take out_cap (take k E)) < length ?s) = (out_cap < k)" using assms(3,5) by auto
  ultimately show ?thesis
    using assms(6) unfolding ss asmtest_amd_stitch_def Let_def list.case seed by simp
qed

lemma stitched_exact:
  assumes "good_region dec base_ip len" "base_ip \<noteq> 0" and "exec_ok dec base_ip len a ss" "enters_at_base base_ip len a ss"
    and "ss \<noteq> []" "st_taken (last ss)" "\<not> in_region base_ip len (st_next (last ss))" and "0 < len"
    and "map edge_of E = taken_edges ss" "\<forall>e\<in>set E. \<not> br_dropped have_spec e"
    and "2 \<le> depth" "0 < k" "k \<le> depth" "k \<le> length E" "length E \<le> out_cap"
  shows "asmtest_amd_stitch (Some dec) (lbr_samples depth E k) base_ip len out_cap = (rev E, False)"
    "asmtest_amd_decode_stitched have_spec (Some dec) (rev E) base_ip len (Some t) False =
      (ASMTEST_HW_OK, Some (trace_run t (Block 0 # exec_events dec base_ip len ss)))"
proof -
  have "linked (Some dec) base_ip len E" by (rule exec_linked [OF assms(1,3,9)])
  from stitch_contiguous [OF this assms(11-14), of out_cap] assms(12,14,15)
  show "asmtest_amd_stitch (Some dec) (lbr_samples depth E k) base_ip len out_cap = (rev E, False)" by simp
  have "map edge_of (filter (\<lambda>e. \<not> br_dropped have_spec e) (rev E)) = rev (taken_edges ss)"
    using assms(9,10) by (simp add: rev_filter [symmetric] rev_map [symmetric])
  from replay_of_execution [OF assms(1,3,4,5,6,7) this, of t] assms(2,8,12,14)
  show "asmtest_amd_decode_stitched have_spec (Some dec) (rev E) base_ip len (Some t) False =
      (ASMTEST_HW_OK, Some (trace_run t (Block 0 # exec_events dec base_ip len ss)))" by (auto simp: asmtest_amd_decode_stitched_def)
qed

text \<open>
  C18: Stitched windows are decoded to the execution itself. Let the hardware keep the last \<open>depth\<close> (at least two) taken branches of an
  execution that enters the region at its base and ends by leaving it, and let a stack be sampled after every
  branch from the first \<open>depth\<close> ones on. Then stitching finds no gap and yields the complete record, far past the depth, and decoding
  it gives a trace of exactly the instructions and blocks of the region that ran, provided only that the
  output array holds the record. The check on spliced code accepts every genuine splice.
\<close>

theorem amd_tier_b_exact:
  assumes "good_region dec base_ip len" "base_ip \<noteq> 0" and "exec_ok dec base_ip len a ss" "enters_at_base base_ip len a ss"
    and "ss \<noteq> []" "st_taken (last ss)" "\<not> in_region base_ip len (st_next (last ss))" and "0 < len"
    and "map edge_of E = taken_edges ss" "\<forall>e\<in>set E. \<not> br_dropped have_spec e"
    and "2 \<le> depth" "0 < k" "k \<le> depth" "k \<le> length E" "length E \<le> out_cap"
  shows "\<exists>br. asmtest_amd_stitch (Some dec) (lbr_samples depth E k) base_ip len out_cap = (br, False) \<and>
    asmtest_amd_decode_stitched have_spec (Some dec) br base_ip len (Some t) False =
      (ASMTEST_HW_OK, Some (trace_run t (Block 0 # exec_events dec base_ip len ss)))"
  using stitched_exact [OF assms] by blast

section \<open>One stack\<close>

lemma lbr_depth_bounds: "0 < asmtest_amd_lbr_depth max_leaf ebx 0 \<and> asmtest_amd_lbr_depth max_leaf ebx 0 \<le> 64"
proof -
  have "0 < int (unat sz) \<and> int (unat sz) \<le> 64" if "1 \<le> sz" "sz \<le> 64" for sz :: u32
  proof -
    have "0 < unat sz" "unat sz \<le> 64" using that by (simp_all add: word_le_nat_alt)
    then show ?thesis by linarith
  qed
  then show ?thesis by (auto simp: asmtest_amd_lbr_depth_def AMD_LBR_DEPTH_def Let_def split: option.split)
qed


text \<open>A flag is found exactly when it stands in the line as a token of its own, after a space.\<close>

lemma flags_scan_iff: "flags_scan flag line \<longleftrightarrow> (\<exists>pre post. line = pre @ CHR '' '' # flag @ post \<and> token_ends post)"
proof (induction line)
  case (Cons c tok)
  have "(\<exists>pre post. c # tok = pre @ CHR '' '' # flag @ post \<and> token_ends post) \<longleftrightarrow>
      (c = CHR '' '' \<and> (\<exists>post. tok = flag @ post \<and> token_ends post)) \<or> (\<exists>pre post. tok = pre @ CHR '' '' # flag @ post \<and> token_ends post)"
    by (auto simp: Cons_eq_append_conv)
  moreover have "(\<exists>post. tok = flag @ post \<and> token_ends post) \<longleftrightarrow> take (length flag) tok = flag \<and> token_ends (drop (length flag) tok)"
    by (metis append_eq_conv_conj append_take_drop_id)
  ultimately show ?case using Cons by auto
qed simp

section \<open>Branch-trap stops of an execution\<close>

text \<open>No return or indirect branch of the execution goes where a direct branch of the region can go.\<close>

definition indirect_apart :: "decoder \<Rightarrow> u64 \<Rightarrow> nat \<Rightarrow> exec_step list \<Rightarrow> bool" where
  "indirect_apart dec base_ip len ss \<longleftrightarrow>
     (\<forall>s\<in>set ss. st_taken s \<longrightarrow> in_region base_ip len (st_at s) \<longrightarrow>
        di_ret (dec (st_at s - base_ip)) \<or> di_target (dec (st_at s - base_ip)) = None \<longrightarrow>
        (\<forall>off. unat off < len \<longrightarrow> di_target (dec off) \<noteq> Some (st_next s)))"

text \<open>The edges up to the one that leaves the region.\<close>

fun upto_exit :: "u64 \<Rightarrow> nat \<Rightarrow> (u64 \<times> u64) list \<Rightarrow> (u64 \<times> u64) list" where
  "upto_exit base_ip len [] = []"
| "upto_exit base_ip len (e # es) = e # (if in_region base_ip len (snd e) then upto_exit base_ip len es else [])"

lemma exec_runs:
  assumes g: "good_region dec base_ip len"
  shows "exec_ok dec base_ip len a (us @ [s]) \<Longrightarrow> untaken us \<Longrightarrow> in_region base_ip len a \<Longrightarrow>
    runs dec len (a - base_ip) (st_at s - base_ip)"
proof (induction us arbitrary: a)
  case Nil
  then show ?case using exit_end [OF g, of s] by (auto intro: runs.here)
next
  case (Cons u us)
  have r: "st_at u = a" "in_region base_ip len (st_next u)" "exec_ok dec base_ip len (st_next u) (us @ [s])"
    "st_next u - base_ip = (a - base_ip) + of_nat (di_len (dec (a - base_ip)))" "0 < di_len (dec (a - base_ip))"
    "\<not> di_ret (dec (a - base_ip))" "unat (a - base_ip) < len"
    using run_offsets [OF g, of a u us s] Cons.prems by auto
  have b: "\<not> di_uncond (dec (a - base_ip))" "di_branch (dec (a - base_ip)) \<Longrightarrow> di_target (dec (a - base_ip)) \<noteq> None \<and> \<not> di_call (dec (a - base_ip))"
    using step_untaken(4,6) [OF g, of u] Cons.prems by auto
  have "\<not> always_taken (dec (a - base_ip))" using r(6) b by (auto simp: always_taken_def)
  then show ?case using Cons.IH [OF r(3) _ r(2)] Cons.prems(2) r by (auto intro: runs.later)
qed

lemma scan_finds:
  assumes g: "good_region dec base_ip len" and e: "exec_ok dec base_ip len a (us @ [s])" "untaken us" "st_taken s" "in_region base_ip len a"
    and ap: "indirect_apart dec base_ip len (us @ [s])"
    and r: "asmtest_bs_scan_terminator dec len (a - base_ip) (st_next s) = BS_OK x"
  shows "base_ip + x = st_at s"
proof -
  let ?C = "candidates dec len (st_next s) (a - base_ip)" and ?U = "unknowns dec len (a - base_ip)"
  let ?s = "st_at s - base_ip"
  have d: "\<And>off. unat off < len \<Longrightarrow> unat off + ilen dec off \<le> len" "len < 2 ^ 64" using g by (auto simp: good_region_def)
  have s: "in_region base_ip len (st_at s)" "step_ok dec base_ip len s" using run_mono [OF g e(1,2,4)] e(1) by (auto simp: exec_ok_append)
  note run = exec_runs [OF g e(1,2,4)]
  have cu: "?C = {x} \<or> (?C = {} \<and> ?U = {x})"
    using scan_terminator_spec [OF d, of "st_next s" "a - base_ip"] unfolding r by (simp add: scan_spec_def Let_def)
  have tgt: "di_target (dec off) = Some (st_next s) \<and> unat off < len" if "off \<in> ?C" for off
  proof -
    from that have k: "runs dec len (a - base_ip) off" "reaches (dec off) (st_next s)" by (auto simp: candidates_def)
    from k(1) have "unat off < len" by induction auto
    with k(2) show ?thesis by (auto simp: reaches_def)
  qed
  have "?s \<in> ?C \<or> (?s \<in> ?U \<and> ?C = {})"
  proof (cases "di_ret (dec ?s) \<or> di_target (dec ?s) = None")
    case True
    then have "\<forall>off. unat off < len \<longrightarrow> di_target (dec off) \<noteq> Some (st_next s)"
      using ap s(1) e(3) by (auto simp: indirect_apart_def)
    then have "?C = {}" using tgt by blast
    moreover have "target_unknown (dec ?s)"
      using True s e(3) by (auto simp: target_unknown_def step_ok_def Let_def)
    ultimately show ?thesis using run by (simp add: unknowns_def)
  next
    case False
    then have "reaches (dec ?s) (st_next s)"
      using s e(3) by (auto simp: reaches_def step_ok_def Let_def)
    then show ?thesis using run by (simp add: candidates_def)
  qed
  with cu have "?s = x" by auto
  then show ?thesis by (metis add.commute diff_add_cancel)
qed

lemma pair_loop_spec:
  assumes g: "good_region dec base_ip len"
  shows "exec_ok dec base_ip len a ss \<Longrightarrow> in_region base_ip len a \<Longrightarrow> indirect_apart dec base_ip len ss \<Longrightarrow> length out \<le> out_cap \<Longrightarrow>
    taken_edges ss = es \<Longrightarrow> pair_loop dec len base_ip out_cap (a # map snd es) out = (out1, gap) \<Longrightarrow>
    \<exists>k. map edge_of out1 = map edge_of out @ take k (upto_exit base_ip len es) \<and>
      (\<not> gap \<longrightarrow> map edge_of out1 = map edge_of out @ take (out_cap - length out) (upto_exit base_ip len es))"
proof (induction es arbitrary: a ss out)
  case Nil
  then show ?case by simp
next
  case (Cons e es)
  from Cons.prems(5) obtain us s vs where s: "ss = us @ s # vs" "untaken us" "st_taken s" "e = (st_at s, st_next s)" "taken_edges vs = es"
    by (metis taken_edges_Cons)
  have x: "exec_ok dec base_ip len a (us @ [s])" "exec_ok dec base_ip len (st_next s) vs"
    "indirect_apart dec base_ip len (us @ [s])" "indirect_apart dec base_ip len vs"
    using Cons.prems(1,3) unfolding s(1) by (auto simp: exec_ok_append indirect_apart_def)
  show ?case
  proof (cases "length out < out_cap")
    case False
    then show ?thesis using Cons.prems(4,6) by (auto simp: s(4))
  next
    case room: True
    show ?thesis
    proof (cases "asmtest_bs_scan_terminator dec len (a - base_ip) (st_next s)")
      case (BS_OK t)
      let ?o = "out @ [zero_entry\<lparr>pb_from := st_at s, pb_to := st_next s\<rparr>]"
      have t: "base_ip + t = st_at s" by (rule scan_finds [OF g x(1) s(2,3) Cons.prems(2) x(3) BS_OK])
      have o: "map edge_of ?o = map edge_of out @ [e]" by (simp add: edge_of_def s(4))
      have c: "out_cap - length out = Suc (out_cap - length ?o)" using room by simp
      show ?thesis
      proof (cases "in_region base_ip len (st_next s)")
        case True
        then have "pair_loop dec len base_ip out_cap (st_next s # map snd es) ?o = (out1, gap)"
          using Cons.prems(6) room BS_OK t by (simp add: s(4))
        from Cons.IH [OF x(2) True x(4) _ s(5) this] room
        obtain k where "map edge_of out1 = map edge_of ?o @ take k (upto_exit base_ip len es)"
          "\<not> gap \<longrightarrow> map edge_of out1 = map edge_of ?o @ take (out_cap - length ?o) (upto_exit base_ip len es)" by auto
        then show ?thesis using True unfolding o c
          by (intro exI [of _ "Suc k"]) (simp add: s(4))
      next
        case False
        then have "out1 = ?o" "\<not> gap" using Cons.prems(6) room BS_OK t by (simp_all add: s(4))
        then show ?thesis using False unfolding c
          by (intro exI [of _ 1]) (simp add: s(4) edge_of_def)
      qed
    qed (use Cons.prems(6) room in \<open>auto simp: s(4) intro!: exI [of _ 0]\<close>)
  qed
qed

lemma first_stop:
  assumes "exec_ok dec base_ip len a ss" "dropWhile (\<lambda>x. \<not> in_region base_ip len x) (map snd (taken_edges ss)) = p # ps"
  obtains vs where "exec_ok dec base_ip len p vs" "in_region base_ip len p" "ps = map snd (taken_edges vs)" "set vs \<subseteq> set ss"
    "taken_edges vs = tl (dropWhile (\<lambda>e. \<not> in_region base_ip len (snd e)) (taken_edges ss))"
proof -
  from assms have "\<exists>vs. exec_ok dec base_ip len p vs \<and> in_region base_ip len p \<and> ps = map snd (taken_edges vs) \<and> set vs \<subseteq> set ss \<and>
    taken_edges vs = tl (dropWhile (\<lambda>e. \<not> in_region base_ip len (snd e)) (taken_edges ss))"
  proof (induction ss arbitrary: a)
    case (Cons s ss)
    show ?case
    proof (cases "st_taken s \<and> in_region base_ip len (st_next s)")
      case True
      with Cons.prems show ?thesis by (intro exI [of _ ss]) (auto simp: taken_edges_def)
    next
      case False
      with Cons.prems have "exec_ok dec base_ip len (st_next s) ss"
        "dropWhile (\<lambda>x. \<not> in_region base_ip len x) (map snd (taken_edges ss)) = p # ps"
        by (auto simp: taken_edges_def split: if_splits)
      from Cons.IH [OF this] False show ?thesis by (auto simp: taken_edges_def)
    qed
  qed (simp add: taken_edges_def)
  with that show thesis by blast
qed

text \<open>
  Pairing branch-trap stops recovers the branches that were taken. From nothing but the addresses where an execution stopped
  after each taken branch, the pairing returns (newest first) branches of the execution: those after its first stop in
  the region, in order, up to the one that leaves the region. When it reports no gap none is missing, as far as
  the output array goes; when it does, they are a faithful prefix. This needs that no return or indirect branch goes where a direct branch can go.
\<close>

theorem btf_pair_stops_exact:
  assumes "good_region dec base_ip len" and "exec_ok dec base_ip len a ss" and "indirect_apart dec base_ip len ss" and "0 < len"
    and "asmtest_ss_btf_pair_stops dec len base_ip (map snd (taken_edges ss)) out_cap = (out, gap)"
  defines "edges \<equiv> upto_exit base_ip len (tl (dropWhile (\<lambda>e. \<not> in_region base_ip len (snd e)) (taken_edges ss)))"
  shows "prefix (map edge_of (rev out)) edges \<and> (\<not> gap \<longrightarrow> map edge_of (rev out) = take out_cap edges)"
proof (cases "out_cap = 0 \<or> dropWhile (\<lambda>x. \<not> in_region base_ip len x) (map snd (taken_edges ss)) = []")
  case True
  then have o: "out = []" "\<not> gap" using assms(4,5)
    by (auto simp: asmtest_ss_btf_pair_stops_def simp del: dropWhile_eq_Nil_conv split: if_splits)
  have "take out_cap edges = []"
  proof (cases "out_cap = 0")
    case False
    with True have d: "dropWhile (\<lambda>e. \<not> in_region base_ip len (snd e)) (taken_edges ss) = []"
      by (auto simp: dropWhile_eq_Nil_conv)
    show ?thesis unfolding edges_def d by simp
  qed simp
  then show ?thesis by (simp add: o)
next
  case False
  then obtain p ps where p: "dropWhile (\<lambda>x. \<not> in_region base_ip len x) (map snd (taken_edges ss)) = p # ps"
    by (meson neq_Nil_conv)
  obtain vs where vs: "exec_ok dec base_ip len p vs" "in_region base_ip len p" "ps = map snd (taken_edges vs)" "set vs \<subseteq> set ss"
    "taken_edges vs = tl (dropWhile (\<lambda>e. \<not> in_region base_ip len (snd e)) (taken_edges ss))"
    by (rule first_stop [OF assms(2) p])
  have "indirect_apart dec base_ip len vs" using assms(3) vs(4) by (auto simp: indirect_apart_def)
  moreover have "pair_loop dec len base_ip out_cap (p # map snd (taken_edges vs)) [] = (rev out, gap)"
    using assms(4,5) False p vs(3) by (auto simp: asmtest_ss_btf_pair_stops_def split: prod.splits)
  ultimately obtain k where "map edge_of (rev out) = take k (upto_exit base_ip len (taken_edges vs))"
    "\<not> gap \<longrightarrow> map edge_of (rev out) = take out_cap (upto_exit base_ip len (taken_edges vs))"
    using pair_loop_spec [OF assms(1) vs(1,2) _ _ refl, of "[]" out_cap "rev out" gap] by auto
  then show ?thesis unfolding edges_def vs(5) [symmetric] by (auto simp: take_is_prefix)
qed

section \<open>A loop\<close>

text \<open>
  At offset 0 a conditional branch to offset 4, at 2 a jump back to 0, at 4 a return; the region is at 0x1000. The execution goes
  round once and returns to 0x5000.
\<close>

definition loop_dec :: decoder where
  "loop_dec off =
     (if off = 0 then \<lparr>di_len = 2, di_call = False, di_ret = False, di_branch = True, di_target = Some 0x1004, di_uncond = False\<rparr>
      else if off = 2 then \<lparr>di_len = 2, di_call = False, di_ret = False, di_branch = True, di_target = Some 0x1000, di_uncond = True\<rparr>
      else if off = 4 then \<lparr>di_len = 1, di_call = False, di_ret = True, di_branch = True, di_target = None, di_uncond = False\<rparr>
      else \<lparr>di_len = 0, di_call = False, di_ret = False, di_branch = False, di_target = None, di_uncond = False\<rparr>)"

abbreviation loop_exec :: "exec_step list" where
  "loop_exec \<equiv> [\<lparr>st_at = 0x1000, st_taken = False, st_next = 0x1002\<rparr>, \<lparr>st_at = 0x1002, st_taken = True, st_next = 0x1000\<rparr>,
     \<lparr>st_at = 0x1000, st_taken = True, st_next = 0x1004\<rparr>]"

abbreviation loop_ret :: exec_step where
  "loop_ret \<equiv> \<lparr>st_at = 0x1004, st_taken = True, st_next = 0x5000\<rparr>"

abbreviation loop_call :: exec_step where
  "loop_call \<equiv> \<lparr>st_at = 0x9000, st_taken = True, st_next = 0x1000\<rparr>"

definition rec_of :: "u64 \<Rightarrow> u64 \<Rightarrow> perf_branch_entry" where
  "rec_of src dst = \<lparr>pb_from = src, pb_to = dst, pb_abort = False, pb_spec = 0\<rparr>"

lemma loop_good: "good_region loop_dec 0x1000 5"
  by (auto simp: good_region_def loop_dec_def)

lemma loop_exec_ok: "exec_ok loop_dec 0x1000 5 0x1000 (loop_exec @ [loop_ret])"
  by (simp add: step_ok_def in_region_def loop_dec_def Let_def)

lemmas loop_eval = in_region_def loop_dec_def Let_def step_events_def exec_events_def taken_edges_def edge_of_def rec_of_def
  br_dropped_def PERF_BR_SPEC_WRONG_PATH_def enters_at_base_def fresh_trace_def zero_trace_def trace_run_def
  append_insn_def append_block_def is_exit_def

lemmas amd_walk_numeral = amd_walk.simps(2) [of _ _ _ _ "pred_numeral g" for g, folded numeral_eq_Suc]

theorem amd_replay_exact_witness:
  "t_insns (snd (amd_replay False loop_dec [rec_of 0x1004 0x5000, rec_of 0x1000 0x1004, rec_of 0x1002 0x1000] 0x1000 5 (fresh_trace 8 8))) =
     Some [0, 2, 0, 4]"
proof -
  have "amd_replay False loop_dec [rec_of 0x1004 0x5000, rec_of 0x1000 0x1004, rec_of 0x1002 0x1000] 0x1000 5 (fresh_trace 8 8) =
      (False, trace_run (fresh_trace 8 8) (Block 0 # exec_events loop_dec 0x1000 5 (loop_exec @ [loop_ret])))"
    by (rule amd_replay_exact [OF loop_good loop_exec_ok]) (simp_all add: loop_eval)
  then show ?thesis by (simp add: loop_eval)
qed

theorem amd_replay_tail_witness:
  "\<exists>t. amd_replay False loop_dec [rec_of 0x1000 0x1004, rec_of 0x1002 0x1000] 0x1000 5 (fresh_trace 8 8) = (True, t) \<and>
     t_insns t = Some [0, 2, 0, 4] \<and> t_blocks t = Some [0, 2, 4] \<and> t_blocks_total t = 5"
proof -
  let ?t = "trace_run (fresh_trace 8 8) (Block 0 # exec_events loop_dec 0x1000 5 (loop_exec @ [] @ [loop_ret]))"
  have "amd_replay False loop_dec [rec_of 0x1000 0x1004, rec_of 0x1002 0x1000] 0x1000 5 (fresh_trace 8 8) =
      (True, ?t\<lparr>t_blocks_total := t_blocks_total ?t + 1\<rparr>)"
    by (rule amd_replay_tail [where a = "0x1000", OF loop_good]) (use loop_exec_ok in \<open>simp_all add: loop_eval\<close>)
  then show ?thesis by (simp add: loop_eval)
qed

theorem amd_tier_b_exact_witness:
  "\<exists>br t. asmtest_amd_stitch (Some loop_dec) (lbr_samples 2 [rec_of 0x1002 0x1000, rec_of 0x1000 0x1004, rec_of 0x1004 0x5000] 1) 0x1000 5 3 = (br, False) \<and>
     asmtest_amd_decode_stitched False (Some loop_dec) br 0x1000 5 (Some (fresh_trace 8 8)) False = (ASMTEST_HW_OK, Some t) \<and>
     t_insns t = Some [0, 2, 0, 4] \<and> \<not> t_truncated t"
proof -
  let ?t = "trace_run (fresh_trace 8 8) (Block 0 # exec_events loop_dec 0x1000 5 (loop_exec @ [loop_ret]))"
  have "\<exists>br. asmtest_amd_stitch (Some loop_dec) (lbr_samples 2 [rec_of 0x1002 0x1000, rec_of 0x1000 0x1004, rec_of 0x1004 0x5000] 1) 0x1000 5 3 = (br, False) \<and>
     asmtest_amd_decode_stitched False (Some loop_dec) br 0x1000 5 (Some (fresh_trace 8 8)) False = (ASMTEST_HW_OK, Some ?t)"
    by (rule amd_tier_b_exact [OF loop_good _ loop_exec_ok]) (simp_all add: loop_eval)
  moreover have "t_insns ?t = Some [0, 2, 0, 4]" "\<not> t_truncated ?t" by (simp_all add: loop_eval)
  ultimately show ?thesis by blast
qed

lemma loop_replay:
  "amd_replay False loop_dec [rec_of 0x1004 0x5000, rec_of 0x1000 0x1004, rec_of 0x1002 0x1000] 0x1000 5 (fresh_trace 8 8) =
      (False, trace_run (fresh_trace 8 8) (Block 0 # exec_events loop_dec 0x1000 5 (loop_exec @ [loop_ret])))"
  by (rule replay_of_execution [OF loop_good loop_exec_ok]) (simp_all add: loop_eval)


lemma loop_pairs:
  "asmtest_ss_btf_pair_stops loop_dec 5 0x1000 [0x1000, 0x1000, 0x1004, 0x5000] 8 =
     ([rec_of 0x1004 0x5000, rec_of 0x1000 0x1004, rec_of 0x1002 0x1000], False)"
  by (simp add: asmtest_ss_btf_pair_stops_def asmtest_bs_scan_terminator_def classify_branch_def scan_loop_numeral
      bs_decided_def zero_entry_def rec_of_def in_region_def loop_dec_def)

theorem btf_pair_stops_exact_witness:
  "fst (asmtest_ss_btf_pair_stops loop_dec 5 0x1000 (map snd (taken_edges (loop_call # loop_exec @ [loop_ret]))) 8) =
     [rec_of 0x1004 0x5000, rec_of 0x1000 0x1004, rec_of 0x1002 0x1000] \<and>
   upto_exit 0x1000 5 (tl (dropWhile (\<lambda>e. \<not> in_region 0x1000 5 (snd e)) (taken_edges (loop_call # loop_exec @ [loop_ret])))) =
     [(0x1002, 0x1000), (0x1000, 0x1004), (0x1004, 0x5000)]"
proof -
  let ?ss = "loop_call # loop_exec @ [loop_ret]"
  have e: "exec_ok loop_dec 0x1000 5 0x9000 ?ss" using loop_exec_ok by (simp add: step_ok_def in_region_def)
  have i: "indirect_apart loop_dec 0x1000 5 ?ss" by (auto simp: indirect_apart_def in_region_def loop_dec_def)
  have p: "asmtest_ss_btf_pair_stops loop_dec 5 0x1000 (map snd (taken_edges ?ss)) 8 =
      ([rec_of 0x1004 0x5000, rec_of 0x1000 0x1004, rec_of 0x1002 0x1000], False)"
    using loop_pairs by (simp add: taken_edges_def)
  from btf_pair_stops_exact [OF loop_good e i _ p] p show ?thesis
    by (simp add: edge_of_def rec_of_def taken_edges_def in_region_def)
qed

section \<open>Limits of the tier\<close>

text \<open>
  The walk of the reduced branch filter ends at its first visit of the recorded source. With the jump back not recorded, the replay of
  the loop loses the whole round before the exit and reports nothing.
\<close>

lemma reduced_filter_loses_round:
  "\<exists>t. amd_replay False loop_dec [rec_of 0x1004 0x5000, rec_of 0x1000 0x1004] 0x1000 5 (fresh_trace 8 8) = (False, t) \<and>
     t_insns t = Some [0, 4] \<and> \<not> t_truncated t"
  by (simp add: amd_replay_def tail_fill_def land_at_def amd_walk_numeral loop_eval)

text \<open>
  Four rounds of a loop, sampled after the second and the fourth branch by a stack of depth two: the third sample was dropped. The stacks
  are equal, the smallest shift matches, the splice decodes, and the stitched record has three rounds with no gap.
\<close>

lemmas span_loop_numeral = span_loop.simps(2) [of _ _ _ _ "pred_numeral g" for g, folded numeral_eq_Suc]

lemma stitch_undercounts:
  "asmtest_amd_stitch (Some loop_dec) [[rec_of 0x1002 0x1000, rec_of 0x1002 0x1000], [rec_of 0x1002 0x1000, rec_of 0x1002 0x1000]] 0x1000 5 16 =
     ([rec_of 0x1002 0x1000, rec_of 0x1002 0x1000, rec_of 0x1002 0x1000], False)"
  by (simp add: asmtest_amd_stitch_def shift_ok_def amd_edge_eq_def amd_span_decodable_def span_loop_numeral loop_eval)

end
