(* ===== verification/Callgraph.thy ===== *)
theory Callgraph
  imports Open_Addressing
begin

text \<open>
  The whole-process call graph of the command-line tool: the index over an append-only table, \<^verbatim>\<open>src/cli/asmspy_ghash.h\<close>, and
  the builder that uses two of them, \<^verbatim>\<open>gnode_get\<close>, \<^verbatim>\<open>grecord\<close> and \<^verbatim>\<open>graph_emit\<close> of \<^verbatim>\<open>src/cli/asmspy_engine.c\<close>. A slot of the index is \<open>None\<close> where
  the C array holds 0, and \<open>Some i\<close> where it holds \<open>i + 1\<close>; an unallocated index is \<open>[]\<close>. Every loop that may go round for ever answers \<open>None\<close>. What
  \<^verbatim>\<open>asmspy_resolve\<close> says about an address (it may reread the target's symbols) is an argument of each operation.
\<close>

section \<open>The index\<close>

type_synonym ghash = "nat option list"

definition asmspy_gh_mix :: "u64 \<Rightarrow> u64" where
  "asmspy_gh_mix x0 =
     (let x1 = x0 + 0x9E3779B97F4A7C15;
          x2 = (x1 XOR drop_bit 30 x1) * 0xBF58476D1CE4E5B9;
          x3 = (x2 XOR drop_bit 27 x2) * 0x94D049BB133111EB
      in x3 XOR drop_bit 31 x3)"

text \<open>The conversion of \<^verbatim>\<open>idx + 1\<close> to \<^verbatim>\<open>uint32_t\<close>.\<close>

definition gh_slot_val :: "nat \<Rightarrow> nat option" where
  "gh_slot_val idx = (let v = (idx + 1) mod 2 ^ 32 in if v = 0 then None else Some (v - 1))"

definition asmspy_gh_find :: "ghash \<Rightarrow> u64 \<Rightarrow> (nat \<Rightarrow> bool) \<Rightarrow> nat option option" where
  "asmspy_gh_find slots h64 eq =
     (if slots = [] then Some None
      else case oa_find slots eq h64 of Hit i \<Rightarrow> Some (slots ! i) | Free _ \<Rightarrow> Some None | Spin \<Rightarrow> None)"

definition asmspy_gh_put :: "ghash \<Rightarrow> u64 \<Rightarrow> nat \<Rightarrow> ghash option" where
  "asmspy_gh_put slots h64 idx =
     (if slots = [] then Some slots
      else case oa_find slots (\<lambda>_. False) h64 of Free i \<Rightarrow> Some (slots[i := gh_slot_val idx]) | _ \<Rightarrow> None)"

text \<open>The 65th doubling of a positive \<^verbatim>\<open>size_t\<close> is 0, from which the loop does not return.\<close>

fun gh_cap_loop :: "nat \<Rightarrow> nat \<Rightarrow> nat \<Rightarrow> nat option" where
  "gh_cap_loop 0 n nc = None"
| "gh_cap_loop (Suc rounds) n nc =
     (if sz_mul (sz_add n 1) 10 \<ge> sz_mul nc 7 then gh_cap_loop rounds n (sz_mul nc 2) else Some nc)"

fun gh_fill :: "(nat \<Rightarrow> u64) \<Rightarrow> nat list \<Rightarrow> ghash \<Rightarrow> ghash option" where
  "gh_fill hashof [] slots = Some slots"
| "gh_fill hashof (k # ks) slots =
     (case asmspy_gh_put slots (hashof k) k of None \<Rightarrow> None | Some s \<Rightarrow> gh_fill hashof ks s)"

definition asmspy_gh_grow :: "heap \<Rightarrow> ghash \<Rightarrow> nat \<Rightarrow> (nat \<Rightarrow> u64) \<Rightarrow> (bool \<times> ghash \<times> heap) option" where
  "asmspy_gh_grow h slots n hashof =
     (if slots \<noteq> [] \<and> sz_mul (sz_add n 1) 10 < sz_mul (length slots) 7 then Some (True, slots, h)
      else case gh_cap_loop 65 n (if slots \<noteq> [] then sz_mul (length slots) 2 else 128) of
        None \<Rightarrow> None
      | Some nc \<Rightarrow>
          (case alloc h of (ok, h1) \<Rightarrow>
             if \<not> ok then Some (False, [], h1)
             else map_option (\<lambda>s. (True, s, h1)) (gh_fill hashof [0..<n] (replicate nc None))))"

section \<open>The builder\<close>

record asmspy_sym =
  sy_addr :: u64
  sy_name :: string
  sy_module :: string

record asmspy_gnode =
  gn_addr :: u64
  gn_name :: string
  gn_module :: string
  gn_external :: bool
  gn_invocations :: u64
  gn_out_calls :: u64
  gn_fanout :: u32

record gedge =
  ge_caller :: nat
  ge_callee :: nat
  ge_count :: u64

record graph =
  gr_node :: "asmspy_gnode list"
  gr_ncap :: nat
  gr_nidx :: ghash
  gr_edge :: "gedge list"
  gr_ecap :: nat
  gr_eidx :: ghash

definition gh_node_hash :: "graph \<Rightarrow> nat \<Rightarrow> u64" where
  "gh_node_hash g i = asmspy_gh_mix (gn_addr (gr_node g ! i))"

definition gnode_eq :: "graph \<Rightarrow> u64 \<Rightarrow> nat \<Rightarrow> bool" where
  "gnode_eq g key k \<longleftrightarrow> gn_addr (gr_node g ! k) = key"

definition gh_edge_hash_kv :: "nat \<Rightarrow> nat \<Rightarrow> u64" where
  "gh_edge_hash_kv caller callee =
     asmspy_gh_mix (of_nat caller * 0x9E3779B97F4A7C15) XOR asmspy_gh_mix (of_nat callee + 0x165667B19E3779F9)"

definition gh_edge_hash :: "graph \<Rightarrow> nat \<Rightarrow> u64" where
  "gh_edge_hash g i = gh_edge_hash_kv (ge_caller (gr_edge g ! i)) (ge_callee (gr_edge g ! i))"

definition gedge_eq :: "graph \<Rightarrow> nat \<Rightarrow> nat \<Rightarrow> nat \<Rightarrow> bool" where
  "gedge_eq g caller callee k \<longleftrightarrow> ge_caller (gr_edge g ! k) = caller \<and> ge_callee (gr_edge g ! k) = callee"

text \<open>A buffer of \<open>n\<close> entries that needs one more: its new capacity, if there is memory.\<close>

definition tab_reserve :: "heap \<Rightarrow> nat \<Rightarrow> nat \<Rightarrow> nat \<Rightarrow> bool \<times> nat \<times> heap" where
  "tab_reserve h n cap seed =
     (if n = cap then (case alloc h of (ok, h1) \<Rightarrow> if ok then (True, if cap \<noteq> 0 then sz_mul cap 2 else seed, h1) else (False, cap, h1))
      else (True, cap, h))"

text \<open>An address as the resolver reports it: the symbol that contains it, if any.\<close>

type_synonym site = "asmspy_sym option \<times> u64"

definition site_key :: "site \<Rightarrow> u64" where
  "site_key s = (case fst s of Some sy \<Rightarrow> sy_addr sy | None \<Rightarrow> snd s)"

definition is_plt :: "string \<Rightarrow> bool" where
  "is_plt name \<longleftrightarrow> 4 \<le> length name \<and> drop (length name - 4) name = ''@plt''"

definition new_gnode :: "string option \<Rightarrow> site \<Rightarrow> asmspy_gnode" where
  "new_gnode exebase s =
     (case fst s of
        Some sy \<Rightarrow> \<lparr>gn_addr = site_key s, gn_name = take 127 (sy_name sy), gn_module = take 63 (sy_module sy),
            gn_external = (sy_module sy \<noteq> ''jit'' \<and>
              (is_plt (sy_name sy) \<or> (case exebase of None \<Rightarrow> False | Some x \<Rightarrow> x \<noteq> [] \<and> sy_module sy \<noteq> x))),
            gn_invocations = 0, gn_out_calls = 0, gn_fanout = 0\<rparr>
      | None \<Rightarrow> \<lparr>gn_addr = site_key s, gn_name = ''0x'' @ fmt_hex (unat (site_key s)), gn_module = ''?'',
            gn_external = False, gn_invocations = 0, gn_out_calls = 0, gn_fanout = 0\<rparr>)"

text \<open>The results: termination, the node index or the -1 of the code, the graph and the heap.\<close>

definition gnode_get :: "heap \<Rightarrow> graph \<Rightarrow> string option \<Rightarrow> site \<Rightarrow> (nat option \<times> graph \<times> heap) option" where
  "gnode_get h g exebase s =
     (let key = site_key s; h64 = asmspy_gh_mix key; nn = length (gr_node g) in
      case (if gr_nidx g \<noteq> [] then asmspy_gh_find (gr_nidx g) h64 (gnode_eq g key)
            else Some (find (gnode_eq g key) [0..<nn])) of
        None \<Rightarrow> None
      | Some (Some k) \<Rightarrow> Some (Some k, g, h)
      | Some None \<Rightarrow>
          (case tab_reserve h nn (gr_ncap g) 64 of (ok, ncap1, h1) \<Rightarrow>
             if \<not> ok then Some (None, g, h1)
             else case asmspy_gh_grow h1 (gr_nidx g) nn (gh_node_hash g) of
               None \<Rightarrow> None
             | Some (grown, idx1, h2) \<Rightarrow>
                 (case (if grown then asmspy_gh_put idx1 h64 nn else Some idx1) of
                    None \<Rightarrow> None
                  | Some idx2 \<Rightarrow>
                      Some (Some nn, g\<lparr>gr_node := gr_node g @ [new_gnode exebase s], gr_ncap := ncap1, gr_nidx := idx2\<rparr>, h2))))"

text \<open>The three ways a call changes the counters.\<close>

definition bump_out :: "nat \<Rightarrow> asmspy_gnode list \<Rightarrow> asmspy_gnode list" where
  "bump_out i ns = ns[i := (ns ! i)\<lparr>gn_out_calls := gn_out_calls (ns ! i) + 1\<rparr>]"

definition bump_fanout :: "nat \<Rightarrow> asmspy_gnode list \<Rightarrow> asmspy_gnode list" where
  "bump_fanout i ns = ns[i := (ns ! i)\<lparr>gn_fanout := gn_fanout (ns ! i) + 1\<rparr>]"

definition bump_inv :: "nat \<Rightarrow> asmspy_gnode list \<Rightarrow> asmspy_gnode list" where
  "bump_inv i ns = ns[i := (ns ! i)\<lparr>gn_invocations := gn_invocations (ns ! i) + 1\<rparr>]"

definition count_edge :: "nat \<Rightarrow> gedge list \<Rightarrow> gedge list" where
  "count_edge i es = es[i := (es ! i)\<lparr>ge_count := ge_count (es ! i) + 1\<rparr>]"

definition add_call :: "heap \<Rightarrow> graph \<Rightarrow> nat \<Rightarrow> nat \<Rightarrow> (bool \<times> graph \<times> heap) option" where
  "add_call h g ci ki =
     (let eh = gh_edge_hash_kv ci ki; ne = length (gr_edge g) in
      case (if gr_eidx g \<noteq> [] then asmspy_gh_find (gr_eidx g) eh (gedge_eq g ci ki)
            else Some (find (gedge_eq g ci ki) [0..<ne])) of
        None \<Rightarrow> None
      | Some (Some hit) \<Rightarrow>
          Some (True, g\<lparr>gr_edge := count_edge hit (gr_edge g), gr_node := bump_inv ki (bump_out ci (gr_node g))\<rparr>, h)
      | Some None \<Rightarrow>
          (case tab_reserve h ne (gr_ecap g) 128 of (ok, ecap1, h1) \<Rightarrow>
             if \<not> ok then Some (False, g, h1)
             else case asmspy_gh_grow h1 (gr_eidx g) ne (gh_edge_hash g) of
               None \<Rightarrow> None
             | Some (grown, idx1, h2) \<Rightarrow>
                 (case (if grown then asmspy_gh_put idx1 eh ne else Some idx1) of
                    None \<Rightarrow> None
                  | Some idx2 \<Rightarrow>
                      Some (True, g\<lparr>gr_edge := gr_edge g @ [\<lparr>ge_caller = ci, ge_callee = ki, ge_count = 1\<rparr>], gr_ecap := ecap1,
                        gr_eidx := idx2, gr_node := bump_inv ki (bump_fanout ci (bump_out ci (gr_node g)))\<rparr>, h2))))"

definition grecord :: "heap \<Rightarrow> graph \<Rightarrow> string option \<Rightarrow> site \<Rightarrow> site \<Rightarrow> (bool \<times> graph \<times> heap) option" where
  "grecord h g exebase caller callee =
     (case gnode_get h g exebase caller of
        None \<Rightarrow> None
      | Some (ci, g1, h1) \<Rightarrow>
          (case gnode_get h1 g1 exebase callee of
             None \<Rightarrow> None
           | Some (ki, g2, h2) \<Rightarrow>
               (case (ci, ki) of
                  (Some c, Some k) \<Rightarrow> add_call h2 g2 c k
                | _ \<Rightarrow> Some (False, g2, h2))))"

text \<open>What the sink of a snapshot is given, with the grown scratch buffer.\<close>

definition graph_emit :: "heap \<Rightarrow> graph \<Rightarrow> nat \<Rightarrow> asmspy_gnode list \<times> (u64 \<times> u64 \<times> u64) list \<times> nat \<times> heap" where
  "graph_emit h g aecap =
     (let ne = length (gr_edge g);
          edges = map (\<lambda>e. (gn_addr (gr_node g ! ge_caller e), gn_addr (gr_node g ! ge_callee e), ge_count e)) (gr_edge g) in
      if ne > aecap
      then (case alloc h of (ok, h1) \<Rightarrow> if ok then (gr_node g, edges, ne, h1) else (gr_node g, [], aecap, h1))
      else (gr_node g, edges, aecap, h))"

section \<open>The index is the linear scan\<close>

text \<open>The key of an entry is looked up in the table the index is over.\<close>

interpretation gh: open_addressing "(!) ks" hash for ks and hash .

abbreviation index_table :: "'k list \<Rightarrow> ('k \<Rightarrow> u64) \<Rightarrow> ghash \<Rightarrow> bool" where
  "index_table ks hash \<equiv> open_addressing.table_ok ((!) ks) hash"
abbreviation index_get :: "'k list \<Rightarrow> ('k \<Rightarrow> u64) \<Rightarrow> ghash \<Rightarrow> 'k \<Rightarrow> nat option" where
  "index_get ks hash \<equiv> open_addressing.tget ((!) ks) hash"

definition idx_ok :: "('k \<Rightarrow> u64) \<Rightarrow> 'k list \<Rightarrow> ghash \<Rightarrow> bool" where
  "idx_ok hash ks slots \<longleftrightarrow> slots = [] \<or>
     (index_table ks hash slots \<and> (\<forall>i. Some i \<in> set slots \<longleftrightarrow> i < length ks) \<and> oa_used slots = length ks \<and>
      length ks * 10 < length slots * 7 \<and> (length slots = 128 \<or> length slots * 7 \<le> 20 * (length ks + 1)))"

lemma idx_ok_unalloc [simp]: "idx_ok hash ks []"
  by (simp add: idx_ok_def)

lemma find_upt_unique:
  assumes "\<And>i. i < n \<Longrightarrow> P i \<longleftrightarrow> i = j" "j < n"
  shows "find P [0..<n] = Some j"
  unfolding find_Some_iff using assms by (intro exI [of _ j]) auto

lemma index_find:
  assumes "idx_ok hash ks slots" "slots \<noteq> []" "distinct ks" "\<And>i. i < length ks \<Longrightarrow> eq i \<longleftrightarrow> ks ! i = k"
  shows "asmspy_gh_find slots (hash k) eq = Some (find eq [0..<length ks])"
proof -
  have ok: "index_table ks hash slots" and m: "\<And>i. Some i \<in> set slots \<longleftrightarrow> i < length ks"
    using assms(1,2) by (auto simp: idx_ok_def)
  obtain e where e: "length slots = 2 ^ e" using ok by (auto simp: gh.table_ok_def)
  have c: "oa_find slots eq (hash k) = oa_find slots (\<lambda>i. ks ! i = k) (hash k)"
    unfolding oa_find_def using assms(4) m by (intro probe_cong [OF _ e oa_slot_less [OF e]]) auto
  show ?thesis
  proof (cases "k \<in> set ks")
    case True
    then obtain j where j: "j < length ks" "ks ! j = k" by (auto simp: in_set_conv_nth)
    then have "index_get ks hash slots k = Some j" using gh.tget_Some [OF ok] m by blast
    moreover have "find eq [0..<length ks] = Some j"
      using assms(3,4) j by (intro find_upt_unique) (auto simp: nth_eq_iff_index_eq)
    ultimately show ?thesis
      using assms(2) c by (auto simp: asmspy_gh_find_def gh.tget_def split: probe_result.splits)
  next
    case False
    then have "index_get ks hash slots k = None" using gh.tget_Some [OF ok] m by (metis not_None_eq nth_mem)
    moreover have "find eq [0..<length ks] = None" using assms(4) False by (auto simp: find_None_iff)
    moreover have "slots ! i \<noteq> None" if "oa_find slots (\<lambda>i. ks ! i = k) (hash k) = Hit i" for i
      using that probe_Hit unfolding oa_find_def by fastforce
    ultimately show ?thesis
      using assms(2) c gh.find_not_Spin [OF ok, of "\<lambda>i. ks ! i = k" "hash k"]
      by (auto simp: asmspy_gh_find_def gh.tget_def split: probe_result.splits)
  qed
qed

text \<open>The entries' keys are all that matters of the table the index is over.\<close>

lemma table_ok_cong:
  assumes "index_table ks hash slots" "\<And>i. Some i \<in> set slots \<Longrightarrow> ks ! i = ks' ! i"
  shows "index_table ks' hash slots"
proof -
  have "busy slots (\<lambda>e. ks' ! e = q) j d" if "busy slots (\<lambda>e. ks ! e = q) j d" "0 < length slots" for q j d
    using that assms(2) unfolding busy_def by (metis mod_less_divisor nth_mem)
  moreover have "0 < length slots" using assms(1) by (auto simp: gh.table_ok_def)
  moreover have "ks ! e = ks' ! e" if "slots ! i = Some e" "i < length slots" for i e
    using that assms(2) nth_mem by metis
  ultimately show ?thesis using assms(1) unfolding gh.table_ok_def gh.chained_def by metis
qed

lemma gh_put_place:
  assumes "index_table ks hash slots" "index_get ks hash slots (ks ! i) = None" "i + 1 < 2 ^ 32"
  shows "asmspy_gh_put slots (hash (ks ! i)) i = Some (oa_place (hash \<circ> (!) ks) slots i)"
proof -
  have ne: "slots \<noteq> []" using assms(1) by (auto simp: gh.table_ok_def)
  have v: "gh_slot_val i = Some i" using assms(3) by (simp add: gh_slot_val_def)
  have "oa_find slots (\<lambda>_. False) (hash (ks ! i)) \<noteq> Hit j" for j
    unfolding oa_find_def using probe_Hit [of _ slots "\<lambda>_. False"] by blast
  then show ?thesis using ne v gh.find_not_Spin [OF assms(1), of "\<lambda>_. False" "hash (ks ! i)"]
    by (cases "oa_find slots (\<lambda>_. False) (hash (ks ! i))") (auto simp: asmspy_gh_put_def oa_place_def)
qed

lemma gh_fill_places:
  "index_table ks hash slots \<Longrightarrow> distinct (map ((!) ks) es) \<Longrightarrow> (\<And>e. e \<in> set es \<Longrightarrow> index_get ks hash slots (ks ! e) = None) \<Longrightarrow>
   oa_used slots + length es < length slots \<Longrightarrow> (\<And>e. e \<in> set es \<Longrightarrow> e + 1 < 2 ^ 32 \<and> hashof e = hash (ks ! e)) \<Longrightarrow>
   gh_fill hashof es slots = Some (foldl (oa_place (hash \<circ> (!) ks)) slots es)"
proof (induction es arbitrary: slots)
  case (Cons e es)
  have t: "index_get ks hash slots (ks ! e) = None" "Suc (oa_used slots) < length slots" "e + 1 < 2 ^ 32" "hashof e = hash (ks ! e)"
    using Cons.prems by auto
  note pn = gh.place_new [OF Cons.prems(1) t(1,2)]
  have "index_get ks hash (oa_place (hash \<circ> (!) ks) slots e) (ks ! x) = None" if "x \<in> set es" for x
  proof -
    have "ks ! e \<notin> (!) ks ` set es" using Cons.prems(2) by simp
    then have "ks ! x \<noteq> ks ! e" using that by (metis imageI)
    then show ?thesis using that Cons.prems(3) [of x] pn(4) by simp
  qed
  moreover have "asmspy_gh_put slots (hashof e) e = Some (oa_place (hash \<circ> (!) ks) slots e)"
    using gh_put_place [OF Cons.prems(1) t(1,3)] t(4) by simp
  ultimately show ?case using Cons.IH [OF pn(1)] Cons.prems(2,4,5) pn(2,3) by (simp add: comp_def)
qed simp

lemma gh_cap_loop_ok:
  assumes "n + 1 < 2 ^ 32"
  shows "j \<le> 35 \<Longrightarrow> 36 - j < rounds \<Longrightarrow> \<exists>j'. gh_cap_loop rounds n (2 ^ j) = Some (2 ^ j') \<and> (n + 1) * 10 < 2 ^ j' * 7 \<and>
    (j' = j \<or> 2 ^ j' * 7 \<le> 20 * (n + 1))"
proof (induction rounds arbitrary: j)
  case (Suc rounds)
  have p: "(2::nat) ^ j \<le> 2 ^ 35" using Suc.prems(1) by (intro power_increasing) auto
  then have sz: "sz_mul (2 ^ j) 7 = 2 ^ j * 7" "sz_mul (sz_add n 1) 10 = (n + 1) * 10" "sz_mul (2 ^ j) 2 = 2 ^ Suc j"
    using assms by (simp_all add: sz_mul_def sz_add_def)
  show ?case
  proof (cases "(n + 1) * 10 \<ge> 2 ^ j * 7")
    case True
    then have "(2::nat) ^ j < 2 ^ 34" using assms by simp
    then have "j < 34" by (rule power_less_imp_less_exp [rotated]) simp
    moreover have "36 - Suc j < rounds" using \<open>j < 34\<close> Suc.prems(2) by linarith
    ultimately obtain j' where "gh_cap_loop rounds n (2 ^ Suc j) = Some (2 ^ j') \<and> (n + 1) * 10 < 2 ^ j' * 7 \<and>
        (j' = Suc j \<or> 2 ^ j' * 7 \<le> 20 * (n + 1))" using Suc.IH [of "Suc j"] by auto
    with True sz show ?thesis by (intro exI [of _ j']) auto
  next
    case False
    then show ?thesis using sz by (intro exI [of _ j]) simp
  qed
qed simp

lemma load_exact:
  assumes "n + 1 < 2 ^ 32" "c = 128 \<or> c * 7 \<le> 20 * (n + 1)"
  shows "sz_mul (sz_add n 1) 10 = (n + 1) * 10" "sz_mul c 7 = c * 7" "sz_mul c 2 = c * 2"
proof -
  have "(n + 1) * 10 < 2 ^ 64" "c * 7 < 2 ^ 64" "c * 2 < 2 ^ 64" using assms by auto
  moreover have "sz_add n 1 = n + 1" using assms(1) by (simp add: sz_add_def)
  ultimately show "sz_mul (sz_add n 1) 10 = (n + 1) * 10" "sz_mul c 7 = c * 7" "sz_mul c 2 = c * 2"
    by (simp_all only: sz_mul_def mod_less)
qed

lemma gh_grow_ok:
  assumes ok: "idx_ok hash ks slots" and n: "length ks + 1 < 2 ^ 32" and d: "distinct ks"
    and hf: "\<And>i. i < length ks \<Longrightarrow> hashof i = hash (ks ! i)"
  obtains ok s1 h' where "asmspy_gh_grow h slots (length ks) hashof = Some (ok, s1, h')"
    "if ok then s1 \<noteq> [] \<and> idx_ok hash ks s1 \<and> (length ks + 1) * 10 < length s1 * 7 else s1 = []"
    "h = [] \<longrightarrow> h' = []"
proof (cases "slots \<noteq> [] \<and> sz_mul (sz_add (length ks) 1) 10 < sz_mul (length slots) 7")
  case True
  have "length slots = 128 \<or> length slots * 7 \<le> 20 * (length ks + 1)" using ok True by (auto simp: idx_ok_def)
  from load_exact [OF n this] True have "(length ks + 1) * 10 < length slots * 7" by simp
  then show ?thesis using True ok by (intro that [of True slots h]) (auto simp: asmspy_gh_grow_def)
next
  case False
  let ?s = "if slots \<noteq> [] then sz_mul (length slots) 2 else 128"
  obtain j where j: "?s = 2 ^ j" "j \<le> 35" "?s = 128 \<or> ?s * 7 \<le> 20 * (length ks + 1)"
  proof (cases "slots = []")
    case True
    then show ?thesis using that [of 7] by simp
  next
    case ne: False
    then have i: "index_table ks hash slots" "length slots = 128 \<or> length slots * 7 \<le> 20 * (length ks + 1)"
      using ok by (auto simp: idx_ok_def)
    then obtain e where e: "length slots = 2 ^ e" by (auto simp: gh.table_ok_def)
    have g: "length slots * 7 \<le> (length ks + 1) * 10" using False ne load_exact [OF n i(2)] by simp
    then have "length slots * 2 * 7 \<le> 20 * (length ks + 1)" by simp
    moreover have s: "?s = length slots * 2" using ne load_exact [OF n i(2)] by simp
    moreover have "(2::nat) ^ e < 2 ^ 34" using g n e by simp
    then have "e < 34" by (rule power_less_imp_less_exp [rotated]) simp
    ultimately show ?thesis using e by (intro that [of "Suc e"]) auto
  qed
  have "36 - j < (65::nat)" by linarith
  then obtain j' where j': "gh_cap_loop 65 (length ks) (2 ^ j) = Some (2 ^ j')" "(length ks + 1) * 10 < 2 ^ j' * 7"
    "j' = j \<or> 2 ^ j' * 7 \<le> 20 * (length ks + 1)" using gh_cap_loop_ok [OF n j(2), of 65] by auto
  have gr: "asmspy_gh_grow h slots (length ks) hashof = (case alloc h of (ok, h1) \<Rightarrow>
      if \<not> ok then Some (False, [], h1)
      else map_option (\<lambda>s. (True, s, h1)) (gh_fill hashof [0..<length ks] (replicate (2 ^ j') None)))"
    unfolding asmspy_gh_grow_def if_not_P [OF False] j(1) j'(1) by simp
  let ?r = "replicate (2 ^ j') None :: ghash"
  let ?f = "foldl (oa_place (hash \<circ> (!) ks)) ?r [0..<length ks]"
  have r: "index_table ks hash ?r" "oa_used ?r = 0" by (simp_all add: gh.table_ok_replicate oa_ents_def)
  have t: "index_get ks hash ?r q = None" for q
    using gh.tget_Some [OF r(1), of q] by (metis in_set_replicate not_None_eq)
  have dk: "distinct (map ((!) ks) [0..<length ks])" using d by (simp add: map_nth)
  have sz: "oa_used ?r + length [0..<length ks] < length ?r" using j'(2) r(2) by simp
  have fill: "gh_fill hashof [0..<length ks] ?r = Some ?f"
    by (rule gh_fill_places [OF r(1) dk t sz]) (use n hf in auto)
  have pa: "index_table ks hash ?f" "oa_used ?f = length ks" "length ?f = 2 ^ j'" "\<And>x. Some x \<in> set ?f \<longleftrightarrow> x < length ks"
    using gh.place_all [OF r(1) dk t sz] r(2) by auto
  have "idx_ok hash ks ?f"
    unfolding idx_ok_def using pa j'(2,3) j(1,3) by auto
  moreover have "?f \<noteq> []" using pa(3) by (metis list.size(3) power_not_zero zero_neq_numeral)
  ultimately show ?thesis
    using gr fill pa(3) j'(2)
    by (cases h; cases "hd h") (auto intro: that)
qed

text \<open>A new key enters the table and the index together, or the index is given up.\<close>

lemma index_add:
  assumes ok: "idx_ok hash ks slots" and n: "length ks + 1 < 2 ^ 32" and d: "distinct ks" and k: "k \<notin> set ks"
    and hf: "\<And>i. i < length ks \<Longrightarrow> hashof i = hash (ks ! i)"
  obtains grown s1 s2 h' where "asmspy_gh_grow h slots (length ks) hashof = Some (grown, s1, h')"
    "(if grown then asmspy_gh_put s1 (hash k) (length ks) else Some s1) = Some s2" "idx_ok hash (ks @ [k]) s2"
    "h = [] \<longrightarrow> h' = []"
proof -
  obtain grown s1 h' where g: "asmspy_gh_grow h slots (length ks) hashof = Some (grown, s1, h')"
    "if grown then s1 \<noteq> [] \<and> idx_ok hash ks s1 \<and> (length ks + 1) * 10 < length s1 * 7 else s1 = []" "h = [] \<longrightarrow> h' = []"
    using gh_grow_ok [OF ok n d hf] by metis
  show ?thesis
  proof (cases grown)
    case True
    let ?ks = "ks @ [k]" and ?n = "length ks"
    from g(2) True have s: "s1 \<noteq> []" "idx_ok hash ks s1" "(length ks + 1) * 10 < length s1 * 7" by auto
    from s have i: "index_table ks hash s1" "\<And>i. Some i \<in> set s1 \<longleftrightarrow> i < ?n" "oa_used s1 = ?n"
      "length s1 = 128 \<or> length s1 * 7 \<le> 20 * (?n + 1)" by (auto simp: idx_ok_def)
    have i': "index_table ?ks hash s1" by (rule table_ok_cong [OF i(1)]) (use i(2) in \<open>auto simp: nth_append\<close>)
    have t: "index_get ?ks hash s1 (?ks ! ?n) = None"
    proof -
      have "index_get ?ks hash s1 k \<noteq> Some x" for x
        using gh.tget_Some [OF i', of k x] i(2) [of x] k by (auto simp: nth_append)
      then show ?thesis by (cases "index_get ?ks hash s1 k") auto
    qed
    have u: "Suc (oa_used s1) < length s1" using i(3) s(3) by simp
    note pn = gh.place_new [OF i' t u]
    have "asmspy_gh_put s1 (hash k) ?n = Some (oa_place (hash \<circ> (!) ?ks) s1 ?n)"
      using gh_put_place [OF i' t] n by simp
    moreover have "idx_ok hash ?ks (oa_place (hash \<circ> (!) ?ks) s1 ?n)"
      unfolding idx_ok_def using pn i s(3) by auto
    ultimately show ?thesis using g(1,3) True by (intro that) auto
  next
    case False
    with g show ?thesis by (intro that [of False "[]" h' "[]"]) auto
  qed
qed

section \<open>The graph counts the calls\<close>

abbreviation addrs :: "graph \<Rightarrow> u64 list" where
  "addrs g \<equiv> map gn_addr (gr_node g)"
abbreviation ekeys :: "graph \<Rightarrow> (nat \<times> nat) list" where
  "ekeys g \<equiv> map (\<lambda>e. (ge_caller e, ge_callee e)) (gr_edge g)"
abbreviation edge_hash :: "nat \<times> nat \<Rightarrow> u64" where
  "edge_hash p \<equiv> gh_edge_hash_kv (fst p) (snd p)"

definition graph_ok :: "graph \<Rightarrow> bool" where
  "graph_ok g \<longleftrightarrow> distinct (addrs g) \<and> idx_ok asmspy_gh_mix (addrs g) (gr_nidx g) \<and>
     distinct (ekeys g) \<and> idx_ok edge_hash (ekeys g) (gr_eidx g) \<and>
     (\<forall>e\<in>set (gr_edge g). ge_caller e < length (gr_node g) \<and> ge_callee e < length (gr_node g))"

lemma graph_okD:
  assumes "graph_ok g"
  shows "distinct (addrs g)" "idx_ok asmspy_gh_mix (addrs g) (gr_nidx g)" "distinct (ekeys g)" "idx_ok edge_hash (ekeys g) (gr_eidx g)"
    "e \<in> set (gr_edge g) \<Longrightarrow> ge_caller e < length (gr_node g)" "e \<in> set (gr_edge g) \<Longrightarrow> ge_callee e < length (gr_node g)"
  using assms by (simp_all add: graph_ok_def)

text \<open>An edge as the sink sees it, and the counters a log of calls should leave.\<close>

definition edge_addrs :: "graph \<Rightarrow> gedge \<Rightarrow> u64 \<times> u64" where
  "edge_addrs g e = (addrs g ! ge_caller e, addrs g ! ge_callee e)"

definition node_counts :: "(u64 \<times> u64) list \<Rightarrow> asmspy_gnode \<Rightarrow> bool" where
  "node_counts log n \<longleftrightarrow>
     gn_invocations n = of_nat (length (filter (\<lambda>c. snd c = gn_addr n) log)) \<and>
     gn_out_calls n = of_nat (length (filter (\<lambda>c. fst c = gn_addr n) log)) \<and>
     gn_fanout n = of_nat (card {c \<in> set log. fst c = gn_addr n})"

definition graph_counts :: "graph \<Rightarrow> (u64 \<times> u64) list \<Rightarrow> bool" where
  "graph_counts g log \<longleftrightarrow> (\<forall>e\<in>set (gr_edge g). ge_count e = of_nat (count_list log (edge_addrs g e))) \<and>
     edge_addrs g ` set (gr_edge g) = set log \<and> (\<forall>n\<in>set (gr_node g). node_counts log n)"

lemma log_addrs:
  assumes "graph_ok g" "graph_counts g log" "c \<in> set log"
  shows "fst c \<in> set (addrs g)" "snd c \<in> set (addrs g)"
proof -
  have "c \<in> edge_addrs g ` set (gr_edge g)" using assms(2,3) by (simp add: graph_counts_def)
  then obtain e where e: "e \<in> set (gr_edge g)" "c = edge_addrs g e" by blast
  then show "fst c \<in> set (addrs g)" "snd c \<in> set (addrs g)"
    using graph_okD(5,6) [OF assms(1) e(1)] by (auto simp: edge_addrs_def)
qed

lemma new_gnode_fields [simp]:
  "gn_addr (new_gnode x s) = site_key s" "gn_invocations (new_gnode x s) = 0" "gn_out_calls (new_gnode x s) = 0" "gn_fanout (new_gnode x s) = 0"
  by (simp_all add: new_gnode_def split: option.split)

lemma new_node_counts:
  assumes "\<And>c. c \<in> set log \<Longrightarrow> fst c \<noteq> site_key s \<and> snd c \<noteq> site_key s"
  shows "node_counts log (new_gnode x s)"
proof -
  have "filter (\<lambda>c. snd c = site_key s) log = []" "filter (\<lambda>c. fst c = site_key s) log = []"
    using assms by (auto simp: filter_empty_conv)
  moreover have e: "{c \<in> set log. fst c = site_key s} = {}" using assms by auto
  ultimately show ?thesis unfolding node_counts_def new_gnode_fields e by simp
qed

lemma tab_reserve_heap: "tab_reserve h n cap seed = (ok, cap1, h1) \<Longrightarrow> h = [] \<Longrightarrow> ok \<and> h1 = []"
  by (auto simp: tab_reserve_def split: if_splits)

lemma node_lookup:
  assumes "graph_ok g"
  shows "(if gr_nidx g \<noteq> [] then asmspy_gh_find (gr_nidx g) (asmspy_gh_mix key) (gnode_eq g key)
          else Some (find (gnode_eq g key) [0..<length (gr_node g)])) = Some (find (gnode_eq g key) [0..<length (gr_node g)])"
  using index_find [OF graph_okD(2) [OF assms] _ graph_okD(1) [OF assms], of "gnode_eq g key" key]
  by (simp add: gnode_eq_def)

lemma gnode_get_ok:
  assumes ok: "graph_ok g" and c: "graph_counts g log" and n: "length (gr_node g) + 1 < 2 ^ 32"
  obtains r g' h' ns where "gnode_get h g x s = Some (r, g', h')" "graph_ok g'" "graph_counts g' log"
    "gr_node g' = gr_node g @ ns" "length ns \<le> 1" "gr_edge g' = gr_edge g" "h = [] \<longrightarrow> r \<noteq> None \<and> h' = []"
    "r = None \<or> (the r < length (gr_node g') \<and> addrs g' ! the r = site_key s)"
proof (cases "find (gnode_eq g (site_key s)) [0..<length (gr_node g)]")
  case (Some k)
  then have k: "k < length (gr_node g)" "gn_addr (gr_node g ! k) = site_key s"
    by (auto simp: find_Some_iff gnode_eq_def)
  have "gnode_get h g x s = Some (Some k, g, h)" unfolding gnode_get_def Let_def node_lookup [OF ok] unfolding Some by simp
  with k ok c show ?thesis by (intro that [of "Some k" g h "[]"]) auto
next
  case None
  then have nk: "site_key s \<notin> set (addrs g)" by (auto simp: find_None_iff gnode_eq_def in_set_conv_nth)
  obtain okr cap1 h1 where t: "tab_reserve h (length (gr_node g)) (gr_ncap g) 64 = (okr, cap1, h1)" by (metis prod_cases3)
  show ?thesis
  proof (cases okr)
    case False
    have "gnode_get h g x s = Some (None, g, h1)" unfolding gnode_get_def Let_def node_lookup [OF ok] unfolding None t using False by simp
    with ok c t False tab_reserve_heap [OF t] show ?thesis by (intro that [of None g h1 "[]"]) auto
  next
    case True
    have hf: "gh_node_hash g i = asmspy_gh_mix (addrs g ! i)" if "i < length (addrs g)" for i
      using that by (simp add: gh_node_hash_def)
    have n': "length (addrs g) + 1 < 2 ^ 32" using n by simp
    obtain grown s1 s2 h2 where a: "asmspy_gh_grow h1 (gr_nidx g) (length (addrs g)) (gh_node_hash g) = Some (grown, s1, h2)"
      "(if grown then asmspy_gh_put s1 (asmspy_gh_mix (site_key s)) (length (addrs g)) else Some s1) = Some s2"
      "idx_ok asmspy_gh_mix (addrs g @ [site_key s]) s2" "h1 = [] \<longrightarrow> h2 = []"
      by (rule index_add [OF graph_okD(2) [OF ok] n' graph_okD(1) [OF ok] nk hf])
    let ?g = "g\<lparr>gr_node := gr_node g @ [new_gnode x s], gr_ncap := cap1, gr_nidx := s2\<rparr>"
    have "gnode_get h g x s = Some (Some (length (gr_node g)), ?g, h2)"
      unfolding gnode_get_def Let_def node_lookup [OF ok] unfolding None t using True a(1,2) by (cases grown) simp_all
    note get = this
    have gok: "graph_ok ?g" using ok nk a(3) by (auto simp: graph_ok_def)
    have "edge_addrs ?g e = edge_addrs g e" if "e \<in> set (gr_edge g)" for e
      using graph_okD(5,6) [OF ok that] by (simp add: edge_addrs_def nth_append)
    moreover have "node_counts log (new_gnode x s)"
      by (rule new_node_counts) (use log_addrs [OF ok c] nk in metis)
    ultimately have "graph_counts ?g log" using c by (auto simp: graph_counts_def)
    moreover have "h = [] \<longrightarrow> h2 = []" using tab_reserve_heap [OF t] a(4) by blast
    ultimately show ?thesis using get gok by (intro that [of "Some (length (gr_node g))" ?g h2 "[new_gnode x s]"]) (auto simp: nth_append)
  qed
qed

lemma bump_nth:
  "i < length ns \<Longrightarrow> bump_inv k ns ! i = (if i = k then (ns ! i)\<lparr>gn_invocations := gn_invocations (ns ! i) + 1\<rparr> else ns ! i)"
  "i < length ns \<Longrightarrow> bump_out k ns ! i = (if i = k then (ns ! i)\<lparr>gn_out_calls := gn_out_calls (ns ! i) + 1\<rparr> else ns ! i)"
  "i < length ns \<Longrightarrow> bump_fanout k ns ! i = (if i = k then (ns ! i)\<lparr>gn_fanout := gn_fanout (ns ! i) + 1\<rparr> else ns ! i)"
  "length (bump_inv k ns) = length ns" "length (bump_out k ns) = length ns" "length (bump_fanout k ns) = length ns"
  by (simp_all add: bump_inv_def bump_out_def bump_fanout_def nth_list_update)

lemma bump_addrs [simp]:
  "map gn_addr (bump_inv k ns) = map gn_addr ns" "map gn_addr (bump_out k ns) = map gn_addr ns" "map gn_addr (bump_fanout k ns) = map gn_addr ns"
  by (rule nth_equalityI; simp add: bump_nth)+

lemma count_edge_keys [simp]:
  "map (\<lambda>e. (ge_caller e, ge_callee e)) (count_edge i es) = map (\<lambda>e. (ge_caller e, ge_callee e)) es"
  by (cases "i < length es") (auto simp: count_edge_def list_update_beyond nth_list_update intro!: nth_equalityI)

lemma card_fan: "card {c \<in> set (log @ [p]). fst c = a} =
    card {c \<in> set log. fst c = a} + (if p \<notin> set log \<and> fst p = a then 1 else 0)"
proof -
  have "{c \<in> set (log @ [p]). fst c = a} = (if fst p = a then insert p {c \<in> set log. fst c = a} else {c \<in> set log. fst c = a})" by auto
  then show ?thesis by (simp add: card_insert_if)
qed

text \<open>The counters after one more call.\<close>

lemma bump_counts:
  assumes d: "distinct (map gn_addr ns)" and c: "\<forall>n\<in>set ns. node_counts log n" and i: "ci < length ns" "ki < length ns"
  defines "p \<equiv> (gn_addr (ns ! ci), gn_addr (ns ! ki))"
  shows "\<forall>n\<in>set (bump_inv ki ((if p \<in> set log then id else bump_fanout ci) (bump_out ci ns))). node_counts (log @ [p]) n"
proof -
  let ?N = "bump_inv ki ((if p \<in> set log then id else bump_fanout ci) (bump_out ci ns))"
  have l: "length ?N = length ns" by (simp add: bump_nth)
  have "node_counts (log @ [p]) (?N ! j)" if j: "j < length ns" for j
  proof -
    have e: "gn_addr (ns ! ci) = gn_addr (ns ! j) \<longleftrightarrow> ci = j" "gn_addr (ns ! ki) = gn_addr (ns ! j) \<longleftrightarrow> ki = j"
      using d i j by (auto simp: distinct_conv_nth)
    have nc: "node_counts log (ns ! j)" using c j by simp
    have f: "gn_addr (?N ! j) = gn_addr (ns ! j)"
      "gn_invocations (?N ! j) = gn_invocations (ns ! j) + (if ki = j then 1 else 0)"
      "gn_out_calls (?N ! j) = gn_out_calls (ns ! j) + (if ci = j then 1 else 0)"
      "gn_fanout (?N ! j) = gn_fanout (ns ! j) + (if p \<notin> set log \<and> ci = j then 1 else 0)"
      using j by (simp_all add: bump_nth)
    show ?thesis
      unfolding node_counts_def f card_fan using nc e by (simp add: node_counts_def p_def)
  qed
  with l show ?thesis by (metis in_set_conv_nth)
qed

lemma edge_lookup:
  assumes "graph_ok g"
  shows "(if gr_eidx g \<noteq> [] then asmspy_gh_find (gr_eidx g) (gh_edge_hash_kv ci ki) (gedge_eq g ci ki)
          else Some (find (gedge_eq g ci ki) [0..<length (gr_edge g)])) = Some (find (gedge_eq g ci ki) [0..<length (gr_edge g)])"
  using index_find [OF graph_okD(4) [OF assms] _ graph_okD(3) [OF assms], of "gedge_eq g ci ki" "(ci, ki)"]
  by (simp add: gedge_eq_def)

lemma edge_addrs_inj:
  assumes "graph_ok g" "e \<in> set (gr_edge g)" "ci < length (gr_node g)" "ki < length (gr_node g)"
  shows "edge_addrs g e = (addrs g ! ci, addrs g ! ki) \<longleftrightarrow> (ge_caller e, ge_callee e) = (ci, ki)"
proof -
  have "addrs g ! a = addrs g ! b \<longleftrightarrow> a = b" if "a < length (gr_node g)" "b < length (gr_node g)" for a b
    using nth_eq_iff_index_eq [OF graph_okD(1) [OF assms(1)], of a b] that by simp
  then show ?thesis unfolding edge_addrs_def prod.inject using graph_okD(5,6) [OF assms(1,2)] assms(3,4) by simp
qed

lemma add_call_ok:
  assumes ok: "graph_ok g" and c: "graph_counts g log" and n: "length (gr_edge g) + 1 < 2 ^ 32"
    and i: "ci < length (gr_node g)" "ki < length (gr_node g)"
  obtains r g' h' where "add_call h g ci ki = Some (r, g', h')" "graph_ok g'"
    "graph_counts g' (if r then log @ [(addrs g ! ci, addrs g ! ki)] else log)" "length (gr_node g') = length (gr_node g)"
    "length (gr_edge g') \<le> length (gr_edge g) + 1" "h = [] \<longrightarrow> r \<and> h' = []"
proof -
  let ?p = "(addrs g ! ci, addrs g ! ki)"
  have p: "?p = (gn_addr (gr_node g ! ci), gn_addr (gr_node g ! ki))" using i by simp
  have es: "edge_addrs g ` set (gr_edge g) = set log" and ec: "\<And>e. e \<in> set (gr_edge g) \<Longrightarrow> ge_count e = of_nat (count_list log (edge_addrs g e))"
    and nc: "\<forall>n\<in>set (gr_node g). node_counts log n" using c by (auto simp: graph_counts_def)
  note bump = bump_counts [OF graph_okD(1) [OF ok] nc i, folded p]
  note inj = edge_addrs_inj [OF ok _ i]
  show ?thesis
  proof (cases "find (gedge_eq g ci ki) [0..<length (gr_edge g)]")
    case (Some j)
    then have j: "j < length (gr_edge g)" "ge_caller (gr_edge g ! j) = ci" "ge_callee (gr_edge g ! j) = ki"
      by (auto simp: find_Some_iff gedge_eq_def)
    let ?g = "g\<lparr>gr_edge := count_edge j (gr_edge g), gr_node := bump_inv ki (bump_out ci (gr_node g))\<rparr>"
    have ek: "edge_addrs g (gr_edge g ! j) = ?p" using inj [of "gr_edge g ! j"] j by simp
    then have pl: "?p \<in> set log" using es j(1) by (metis image_eqI nth_mem)
    have ga: "addrs ?g = addrs g" by simp
    have gok: "graph_ok ?g"
    proof -
      have "ge_caller e < length (gr_node g) \<and> ge_callee e < length (gr_node g)" if "e \<in> set (count_edge j (gr_edge g))" for e
        using that graph_okD(5,6) [OF ok] j(1)
        by (auto simp: count_edge_def dest!: set_update_subset_insert [THEN subsetD])
      then show ?thesis using ok ga by (auto simp: graph_ok_def bump_nth)
    qed
    have cnt: "ge_count (count_edge j (gr_edge g) ! k) = of_nat (count_list (log @ [?p]) (edge_addrs ?g (count_edge j (gr_edge g) ! k))) \<and>
        edge_addrs ?g (count_edge j (gr_edge g) ! k) = edge_addrs g (gr_edge g ! k)" if k: "k < length (gr_edge g)" for k
    proof -
      have ea: "edge_addrs ?g (count_edge j (gr_edge g) ! k) = edge_addrs g (gr_edge g ! k)"
        using k j(1) ga by (auto simp: edge_addrs_def count_edge_def nth_list_update)
      have "edge_addrs g (gr_edge g ! k) = ?p \<longleftrightarrow> k = j"
        using inj [of "gr_edge g ! k"] k j graph_okD(3) [OF ok] by (auto simp: distinct_conv_nth)
      then show ?thesis using ea ec [of "gr_edge g ! k"] ec [of "gr_edge g ! j"] k j(1) ek
        by (auto simp: count_edge_def nth_list_update)
    qed
    have l: "length (count_edge j (gr_edge g)) = length (gr_edge g)" by (simp add: count_edge_def)
    have "edge_addrs ?g ` set (count_edge j (gr_edge g)) = edge_addrs g ` set (gr_edge g)"
      unfolding set_conv_nth l using cnt by (auto simp: image_iff) (metis+)
    then have "graph_counts ?g (log @ [?p])"
      using es pl bump cnt l by (auto simp: graph_counts_def in_set_conv_nth [where xs = "count_edge j (gr_edge g)"])
    moreover have "add_call h g ci ki = Some (True, ?g, h)"
      unfolding add_call_def Let_def edge_lookup [OF ok] unfolding Some by simp
    ultimately show ?thesis using gok l by (intro that [of True ?g h]) (auto simp: bump_nth)
  next
    case None
    then have nk: "(ci, ki) \<notin> set (ekeys g)" by (auto simp: find_None_iff gedge_eq_def in_set_conv_nth)
    have pl: "?p \<notin> set log"
    proof
      assume "?p \<in> set log"
      then obtain e where "e \<in> set (gr_edge g)" "edge_addrs g e = ?p" unfolding es [symmetric] by (metis imageE)
      with inj nk show False by force
    qed
    obtain okr cap1 h1 where t: "tab_reserve h (length (gr_edge g)) (gr_ecap g) 128 = (okr, cap1, h1)" by (metis prod_cases3)
    show ?thesis
    proof (cases okr)
      case False
      have "add_call h g ci ki = Some (False, g, h1)" unfolding add_call_def Let_def edge_lookup [OF ok] unfolding None t using False by simp
      with ok c t False tab_reserve_heap [OF t] show ?thesis by (intro that [of False g h1]) auto
    next
      case True
      have hf: "gh_edge_hash g i = edge_hash (ekeys g ! i)" if "i < length (ekeys g)" for i
        using that by (simp add: gh_edge_hash_def)
      have n': "length (ekeys g) + 1 < 2 ^ 32" using n by simp
      obtain grown s1 s2 h2 where a: "asmspy_gh_grow h1 (gr_eidx g) (length (ekeys g)) (gh_edge_hash g) = Some (grown, s1, h2)"
        "(if grown then asmspy_gh_put s1 (edge_hash (ci, ki)) (length (ekeys g)) else Some s1) = Some s2"
        "idx_ok edge_hash (ekeys g @ [(ci, ki)]) s2" "h1 = [] \<longrightarrow> h2 = []"
        by (rule index_add [OF graph_okD(4) [OF ok] n' graph_okD(3) [OF ok] nk hf])
      let ?e = "\<lparr>ge_caller = ci, ge_callee = ki, ge_count = 1\<rparr>"
      let ?g = "g\<lparr>gr_edge := gr_edge g @ [?e], gr_ecap := cap1, gr_eidx := s2,
         gr_node := bump_inv ki (bump_fanout ci (bump_out ci (gr_node g)))\<rparr>"
      have add: "add_call h g ci ki = Some (True, ?g, h2)"
        unfolding add_call_def Let_def edge_lookup [OF ok] unfolding None t using True a(1,2) by (cases grown) simp_all
      have gok: "graph_ok ?g" using ok nk a(3) i by (auto simp: graph_ok_def bump_nth)
      have ea: "edge_addrs ?g e = edge_addrs g e" for e by (simp add: edge_addrs_def del: nth_map)
      have en: "edge_addrs g ?e = ?p" by (simp add: edge_addrs_def)
      have "count_list log ?p = 0" using pl by (simp add: count_list_0_iff)
      moreover have "edge_addrs g e \<noteq> ?p" if "e \<in> set (gr_edge g)" for e using that pl es by (metis imageI)
      ultimately have "graph_counts ?g (log @ [?p])"
        using es pl bump ec en unfolding graph_counts_def ea by auto
      moreover have "h = [] \<longrightarrow> h2 = []" using tab_reserve_heap [OF t] a(4) by blast
      ultimately show ?thesis using add gok by (intro that [of True ?g h2]) (auto simp: bump_nth)
    qed
  qed
qed

section \<open>A run of the builder\<close>

text \<open>All calls of a run, each with the outcome of its record.\<close>

fun graph_run :: "heap \<Rightarrow> graph \<Rightarrow> string option \<Rightarrow> (site \<times> site) list \<Rightarrow> (bool list \<times> graph \<times> heap) option" where
  "graph_run h g exebase [] = Some ([], g, h)"
| "graph_run h g exebase ((caller, callee) # cs) =
     (case grecord h g exebase caller callee of
        None \<Rightarrow> None
      | Some (r, g1, h1) \<Rightarrow> map_option (\<lambda>(rs, g2, h2). (r # rs, g2, h2)) (graph_run h1 g1 exebase cs))"

definition empty_graph :: graph where
  "empty_graph = \<lparr>gr_node = [], gr_ncap = 0, gr_nidx = [], gr_edge = [], gr_ecap = 0, gr_eidx = []\<rparr>"

text \<open>The calls that were counted, by the addresses their sites resolve to.\<close>

definition counted :: "bool list \<Rightarrow> (site \<times> site) list \<Rightarrow> (u64 \<times> u64) list" where
  "counted rs cs = map (\<lambda>(r, a, b). (site_key a, site_key b)) (filter fst (zip rs cs))"

lemma counted_simps [simp]:
  "counted [] [] = []"
  "counted (r # rs) ((a, b) # cs) = (if r then [(site_key a, site_key b)] else []) @ counted rs cs"
  by (simp_all add: counted_def)

lemma grecord_ok:
  assumes ok: "graph_ok g" and c: "graph_counts g log" and n: "length (gr_node g) + 2 < 2 ^ 32" "length (gr_edge g) + 1 < 2 ^ 32"
  obtains r g' h' where "grecord h g x a b = Some (r, g', h')" "graph_ok g'"
    "graph_counts g' (log @ (if r then [(site_key a, site_key b)] else []))" "length (gr_node g') \<le> length (gr_node g) + 2"
    "length (gr_edge g') \<le> length (gr_edge g) + 1" "h = [] \<longrightarrow> r \<and> h' = []"
proof -
  have n1: "length (gr_node g) + 1 < 2 ^ 32" using n(1) by simp
  obtain r1 g1 h1 ns1 where g1: "gnode_get h g x a = Some (r1, g1, h1)" "graph_ok g1" "graph_counts g1 log"
    "gr_node g1 = gr_node g @ ns1" "length ns1 \<le> 1" "gr_edge g1 = gr_edge g" "h = [] \<longrightarrow> r1 \<noteq> None \<and> h1 = []"
    "r1 = None \<or> (the r1 < length (gr_node g1) \<and> addrs g1 ! the r1 = site_key a)"
    by (rule gnode_get_ok [OF ok c n1])
  have n2: "length (gr_node g1) + 1 < 2 ^ 32" using n(1) g1(4,5) by simp
  obtain r2 g2 h2 ns2 where g2: "gnode_get h1 g1 x b = Some (r2, g2, h2)" "graph_ok g2" "graph_counts g2 log"
    "gr_node g2 = gr_node g1 @ ns2" "length ns2 \<le> 1" "gr_edge g2 = gr_edge g1" "h1 = [] \<longrightarrow> r2 \<noteq> None \<and> h2 = []"
    "r2 = None \<or> (the r2 < length (gr_node g2) \<and> addrs g2 ! the r2 = site_key b)"
    by (rule gnode_get_ok [OF g1(2,3) n2])
  have l: "length (gr_node g2) \<le> length (gr_node g) + 2" using g1(4,5) g2(4,5) by simp
  show ?thesis
  proof (cases "r1 = None \<or> r2 = None")
    case True
    then have "grecord h g x a b = Some (False, g2, h2)"
      using g1(1) g2(1) by (auto simp: grecord_def split: option.split)
    then show ?thesis using True g1 g2 l by (intro that [of False g2 h2]) auto
  next
    case False
    then obtain ci ki where r: "r1 = Some ci" "r2 = Some ki" by auto
    have i: "ci < length (gr_node g2)" "ki < length (gr_node g2)" "addrs g2 ! ci = site_key a" "addrs g2 ! ki = site_key b"
      using g1(8) g2(4,8) r by (auto simp: nth_append)
    have n3: "length (gr_edge g2) + 1 < 2 ^ 32" using n(2) g1(6) g2(6) by simp
    obtain r' g' h' where s: "add_call h2 g2 ci ki = Some (r', g', h')" "graph_ok g'"
      "graph_counts g' (if r' then log @ [(addrs g2 ! ci, addrs g2 ! ki)] else log)" "length (gr_node g') = length (gr_node g2)"
      "length (gr_edge g') \<le> length (gr_edge g2) + 1" "h2 = [] \<longrightarrow> r' \<and> h' = []"
      by (rule add_call_ok [OF g2(2,3) n3 i(1,2)])
    have "grecord h g x a b = Some (r', g', h')" using g1(1) g2(1) s(1) r by (simp add: grecord_def)
    moreover have "graph_counts g' (log @ (if r' then [(site_key a, site_key b)] else []))"
      using s(3) unfolding i(3,4) by (cases r') simp_all
    ultimately show ?thesis using s g1(6,7) g2(6,7) l by (intro that [of r' g' h']) auto
  qed
qed

lemma graph_run_ok:
  "graph_ok g \<Longrightarrow> graph_counts g log \<Longrightarrow> length (gr_node g) + 2 * length cs < 2 ^ 32 \<Longrightarrow> length (gr_edge g) + length cs < 2 ^ 32 \<Longrightarrow>
   \<exists>rs g' h'. graph_run h g x cs = Some (rs, g', h') \<and> length rs = length cs \<and> graph_ok g' \<and>
     graph_counts g' (log @ counted rs cs) \<and> (h = [] \<longrightarrow> (\<forall>r\<in>set rs. r))"
proof (induction cs arbitrary: h g log)
  case (Cons c cs)
  obtain a b where ab: "c = (a, b)" by (cases c)
  have n: "length (gr_node g) + 2 < 2 ^ 32" "length (gr_edge g) + 1 < 2 ^ 32" using Cons.prems(3,4) by simp_all
  obtain r g1 h1 where g1: "grecord h g x a b = Some (r, g1, h1)" "graph_ok g1"
    "graph_counts g1 (log @ (if r then [(site_key a, site_key b)] else []))" "length (gr_node g1) \<le> length (gr_node g) + 2"
    "length (gr_edge g1) \<le> length (gr_edge g) + 1" "h = [] \<longrightarrow> r \<and> h1 = []"
    by (rule grecord_ok [OF Cons.prems(1,2) n])
  have l: "length (gr_node g1) + 2 * length cs < 2 ^ 32" "length (gr_edge g1) + length cs < 2 ^ 32"
    using Cons.prems(3,4) g1(4,5) by simp_all
  obtain rs g' h' where r: "graph_run h1 g1 x cs = Some (rs, g', h')" "length rs = length cs" "graph_ok g'"
    "graph_counts g' ((log @ (if r then [(site_key a, site_key b)] else [])) @ counted rs cs)" "h1 = [] \<longrightarrow> (\<forall>r\<in>set rs. r)"
    using Cons.IH [OF g1(2,3) l, of h1] by (elim exE conjE)
  have run: "graph_run h g x ((a, b) # cs) = Some (r # rs, g', h')" using g1(1) r(1) by simp
  have cnt: "graph_counts g' (log @ counted (r # rs) ((a, b) # cs))" using r(4) by simp
  have al: "h = [] \<longrightarrow> (\<forall>y\<in>set (r # rs). y)" using g1(6) r(5) by auto
  have len: "length (r # rs) = length ((a, b) # cs)" using r(2) by simp
  show ?case unfolding ab by (intro exI conjI) (rule run len r(3) cnt al)+
qed auto

lemma emit_snapshot:
  "graph_emit he g aecap = (gr_node g,
     if aecap < length (gr_edge g) \<and> \<not> fst (alloc he) then [] else map (\<lambda>e. (fst (edge_addrs g e), snd (edge_addrs g e), ge_count e)) (gr_edge g),
     if aecap < length (gr_edge g) \<and> fst (alloc he) then length (gr_edge g) else aecap,
     if aecap < length (gr_edge g) then snd (alloc he) else he)"
  if "graph_ok g"
  using graph_okD(5,6) [OF that] by (cases "alloc he") (auto simp: graph_emit_def Let_def edge_addrs_def)

text \<open>Nodes are made for the ends of calls only.\<close>

lemma gnode_get_addrs: "gnode_get h g x s = Some (r, g', h') \<Longrightarrow> set (addrs g') \<subseteq> insert (site_key s) (set (addrs g))"
  by (auto simp: gnode_get_def Let_def split: option.splits if_splits prod.splits)

lemma add_call_addrs: "add_call h g ci ki = Some (r, g', h') \<Longrightarrow> addrs g' = addrs g"
  by (auto simp: add_call_def Let_def split: option.splits if_splits prod.splits)

lemma grecord_addrs:
  assumes "grecord h g x a b = Some (r, g', h')"
  shows "set (addrs g') \<subseteq> insert (site_key a) (insert (site_key b) (set (addrs g)))"
proof -
  obtain ci g1 h1 where g1: "gnode_get h g x a = Some (ci, g1, h1)" using assms by (auto simp: grecord_def split: option.splits)
  obtain ki g2 h2 where g2: "gnode_get h1 g1 x b = Some (ki, g2, h2)" using assms g1 by (auto simp: grecord_def split: option.splits)
  have "addrs g' = addrs g2" using assms g1 g2 add_call_addrs by (auto simp: grecord_def split: option.splits)
  then show ?thesis using gnode_get_addrs [OF g1] gnode_get_addrs [OF g2] by (simp del: set_map) blast
qed

definition call_ends :: "(u64 \<times> u64) list \<Rightarrow> u64 set" where
  "call_ends cs = fst ` set cs \<union> snd ` set cs"

lemma graph_run_addrs:
  "graph_run h g x cs = Some (rs, g', h') \<Longrightarrow> set (addrs g') \<subseteq> set (addrs g) \<union> call_ends (map (\<lambda>(a, b). (site_key a, site_key b)) cs)"
proof (induction cs arbitrary: h g rs)
  case (Cons c cs)
  obtain a b where ab: "c = (a, b)" by (cases c)
  obtain r g1 h1 where g1: "grecord h g x a b = Some (r, g1, h1)" using Cons.prems ab by (auto split: option.splits)
  then obtain rs' where "graph_run h1 g1 x cs = Some (rs', g', h')" using Cons.prems ab by auto
  have "call_ends (p # ps) = {fst p, snd p} \<union> call_ends ps" for p ps by (auto simp: call_ends_def)
  with Cons.IH [OF \<open>graph_run h1 g1 x cs = Some (rs', g', h')\<close>] grecord_addrs [OF g1] show ?case by (simp add: ab del: set_map) blast
qed simp

lemma edge_addrs_distinct:
  assumes "graph_ok g"
  shows "distinct (map (edge_addrs g) (gr_edge g))"
proof -
  have "edge_addrs g e = edge_addrs g e' \<longleftrightarrow> (ge_caller e, ge_callee e) = (ge_caller e', ge_callee e')"
    if "e \<in> set (gr_edge g)" "e' \<in> set (gr_edge g)" for e e'
    using edge_addrs_inj [OF assms that(1) graph_okD(5,6) [OF assms that(2)]] by (simp add: edge_addrs_def)
  then show ?thesis using graph_okD(3) [OF assms] unfolding distinct_map by (fastforce simp: inj_on_def)
qed

text \<open>
  C31: The call graph counts the calls. Record any sequence of calls, with any answers of the resolver and whatever allocations fail: the builder
  always returns, and the snapshot it emits has one node per function: every function that is the caller or the callee of a counted call has a node, no two nodes have the same address, and every node is the caller
  or the callee of one of the calls. Each node has its number of counted calls received and made and of distinct callees. The snapshot has one edge per pair of functions, exactly the pairs between which a counted call was
  made, with the number of its calls; only when the buffer of edges is too small and cannot be grown has it no edge at all. A lookup through
  the index never misses an entry and never merges two, nor does losing the index to a failed allocation. When no allocation fails every
  call is counted, so that the nodes are exactly the functions of the calls.
\<close>

theorem callgraph_exact:
  assumes "length calls < 2 ^ 31"
  shows "\<exists>rs g h'. graph_run h empty_graph exebase calls = Some (rs, g, h') \<and> length rs = length calls \<and>
    (h = [] \<longrightarrow> rs = replicate (length calls) True) \<and>
    (case graph_emit he g aecap of (nodes, edges, _, _) \<Rightarrow>
      distinct (map gn_addr nodes) \<and> call_ends (counted rs calls) \<subseteq> gn_addr ` set nodes \<and>
      gn_addr ` set nodes \<subseteq> call_ends (map (\<lambda>(a, b). (site_key a, site_key b)) calls) \<and>
      (\<forall>n\<in>set nodes. node_counts (counted rs calls) n) \<and>
      (if aecap < card (set (counted rs calls)) \<and> \<not> fst (alloc he) then edges = []
       else distinct (map (\<lambda>(a, b, _). (a, b)) edges) \<and>
         set edges = (\<lambda>c. (fst c, snd c, of_nat (count_list (counted rs calls) c))) ` set (counted rs calls)))"
proof -
  have e: "graph_ok empty_graph" "graph_counts empty_graph []" by (simp_all add: graph_ok_def graph_counts_def empty_graph_def)
  have l: "length (gr_node empty_graph) + 2 * length calls < 2 ^ 32" "length (gr_edge empty_graph) + length calls < 2 ^ 32"
    using assms by (simp_all add: empty_graph_def)
  obtain rs g h' where r: "graph_run h empty_graph exebase calls = Some (rs, g, h')" "length rs = length calls" "graph_ok g"
    "graph_counts g ([] @ counted rs calls)" "h = [] \<longrightarrow> (\<forall>r\<in>set rs. r)"
    using graph_run_ok [OF e l, of h exebase] by (elim exE conjE)
  let ?log = "counted rs calls" and ?es = "map (\<lambda>e. (fst (edge_addrs g e), snd (edge_addrs g e), ge_count e)) (gr_edge g)"
  have k: "edge_addrs g ` set (gr_edge g) = set ?log" "\<forall>n\<in>set (gr_node g). node_counts ?log n"
    "\<And>e. e \<in> set (gr_edge g) \<Longrightarrow> ge_count e = of_nat (count_list ?log (edge_addrs g e))"
    using r(4) by (simp_all add: graph_counts_def)
  have rep: "h = [] \<longrightarrow> rs = replicate (length calls) True" using r(2,5) by (auto intro: replicate_eqI)
  have es: "distinct (map (\<lambda>(a, b, _). (a, b)) ?es)" using edge_addrs_distinct [OF r(3)] by (simp add: comp_def)
  have eset: "set ?es = (\<lambda>c. (fst c, snd c, of_nat (count_list ?log c))) ` set ?log"
    unfolding set_map k(1) [symmetric] image_image by (rule image_cong) (simp_all add: k(3))
  have len: "length (gr_edge g) = card (set ?log)"
    using distinct_card [OF edge_addrs_distinct [OF r(3)]] k(1) by simp
  have lo: "call_ends ?log \<subseteq> gn_addr ` set (gr_node g)"
    using log_addrs [OF r(3) r(4)] by (auto simp: call_ends_def)
  have hi: "gn_addr ` set (gr_node g) \<subseteq> call_ends (map (\<lambda>(a, b). (site_key a, site_key b)) calls)"
    using graph_run_addrs [OF r(1)] by (simp add: empty_graph_def)
  have "case graph_emit he g aecap of (nodes, edges, _, _) \<Rightarrow>
      distinct (map gn_addr nodes) \<and> call_ends ?log \<subseteq> gn_addr ` set nodes \<and>
      gn_addr ` set nodes \<subseteq> call_ends (map (\<lambda>(a, b). (site_key a, site_key b)) calls) \<and>
      (\<forall>n\<in>set nodes. node_counts ?log n) \<and>
      (if aecap < card (set ?log) \<and> \<not> fst (alloc he) then edges = []
       else distinct (map (\<lambda>(a, b, _). (a, b)) edges) \<and> set edges = (\<lambda>c. (fst c, snd c, of_nat (count_list ?log c))) ` set ?log)"
    unfolding emit_snapshot [OF r(3)] prod.case len
    using graph_okD(1) [OF r(3)] lo hi k(2) es eset by (simp del: set_map)
  with r(1,2) rep show ?thesis by (intro exI [of _ rs] exI [of _ g] exI [of _ h'] conjI)
qed

theorem callgraph_exact_witness:
  "\<exists>rs g h'. graph_run [] empty_graph None [((None, 16), (None, 32)), ((None, 16), (None, 32))] = Some (rs, g, h') \<and>
     set (fst (snd (graph_emit [] g 0))) = {(16, 32, 2)} \<and> gn_addr ` set (fst (graph_emit [] g 0)) = {16, 32} \<and>
     fst (snd (graph_emit [False] g 0)) = []"
proof -
  let ?cs = "[((None, 16), (None, 32)), ((None, 16), (None, 32))] :: (site \<times> site) list"
  have n: "length ?cs < 2 ^ 31" by simp
  obtain rs g h' where r: "graph_run [] empty_graph None ?cs = Some (rs, g, h')" "rs = replicate (length ?cs) True"
    using callgraph_exact [OF n, where h = "[]" and exebase = None and he = "[]" and aecap = 0] by auto
  have c: "counted rs ?cs = [(16, 32), (16, 32)]" "map (\<lambda>(a, b). (site_key a, site_key b)) ?cs = [(16, 32), (16, 32)]"
    using r(2) by (simp_all add: site_key_def)
  have "set (fst (snd (graph_emit [] g 0))) = {(16, 32, 2)} \<and> gn_addr ` set (fst (graph_emit [] g 0)) = {16, 32}"
    using callgraph_exact [OF n, where h = "[]" and exebase = None and he = "[]" and aecap = 0] r(1) c by (auto simp: case_prod_beta call_ends_def)
  moreover have "fst (snd (graph_emit [False] g 0)) = []"
    using callgraph_exact [OF n, where h = "[]" and exebase = None and he = "[False]" and aecap = 0] r(1) c by (auto simp: case_prod_beta)
  ultimately show ?thesis using r(1) by (intro exI conjI) auto
qed

end
