(* ===== verification/Treeview.thy ===== *)
theory Treeview
  imports Prelude "HOL-Library.Sublist"
begin

text \<open>
  The call-tree view of the command-line tool: its output filter, \<^verbatim>\<open>src/cli/asmspy_treefilter.h\<close>, the per-thread
  return-address stack and pending-call check of \<^verbatim>\<open>src/cli/asmspy_engine.c\<close>, and what \<^verbatim>\<open>asmspy_engine_tree\<close> does at one single-step stop of a thread (the
  x86-64 branches). A stop carries what the engine reads there: the stack pointer, the instruction pointer, the word the stack pointer points to, and what the
  disassembler and the resolver say. An \<^verbatim>\<open>int\<close> depth is an integer; the stack has at most 4096 frames, so no conversion loses anything. Of
  \<^verbatim>\<open>thr_t\<close> the fields of this view are kept. Left out: the printed form of a line (its depth and function are kept), and the limit on the number of lines.
\<close>

section \<open>The filter\<close>

record tree_filter =
  tf_max_depth :: int
  tf_focus :: "string option"
  tf_module :: "string option"

definition TF_NO_FOCUS :: int where
  "TF_NO_FOCUS = - 1"

text \<open>A pattern that is \<^verbatim>\<open>NULL\<close> or empty.\<close>

definition no_pattern :: "string option \<Rightarrow> bool" where
  "no_pattern p \<longleftrightarrow> p = None \<or> p = Some []"

definition asmspy_tf_match :: "string option \<Rightarrow> string option \<Rightarrow> bool" where
  "asmspy_tf_match hay needle \<longleftrightarrow>
     no_pattern needle \<or> (case hay of None \<Rightarrow> False | Some s \<Rightarrow> sublist (the needle) s)"

text \<open>The result is the effective depth of a call that is shown, and the new \<^verbatim>\<open>*focus_depth\<close>.\<close>

definition focus_root :: "tree_filter option \<Rightarrow> string option \<Rightarrow> int \<Rightarrow> int \<Rightarrow> int option \<times> int" where
  "focus_root f name depth focus_depth =
     (case f of
        Some fl \<Rightarrow>
          if no_pattern (tf_focus fl) then (Some 0, focus_depth)
          else if focus_depth = TF_NO_FOCUS then
            (if \<not> asmspy_tf_match name (tf_focus fl) then (None, focus_depth) else (Some depth, depth))
          else (Some focus_depth, focus_depth)
      | None \<Rightarrow> (Some 0, focus_depth))"

definition asmspy_tree_filter_call ::
  "tree_filter option \<Rightarrow> string option \<Rightarrow> string option \<Rightarrow> int \<Rightarrow> int \<Rightarrow> int option \<times> int" where
  "asmspy_tree_filter_call f name module depth focus_depth =
     (case focus_root f name depth focus_depth of
        (None, fd) \<Rightarrow> (None, fd)
      | (Some base, fd) \<Rightarrow>
          (let d = (if depth - base < 0 then 0 else depth - base) in
           case f of
             None \<Rightarrow> (Some d, fd)
           | Some fl \<Rightarrow>
               if tf_max_depth fl > 0 \<and> d \<ge> tf_max_depth fl then (None, fd)
               else if \<not> no_pattern (tf_module fl) \<and> \<not> asmspy_tf_match module (tf_module fl) then (None, fd)
               else (Some d, fd)))"

definition asmspy_tree_filter_ret :: "tree_filter option \<Rightarrow> int \<Rightarrow> int \<Rightarrow> int" where
  "asmspy_tree_filter_ret f depth focus_depth =
     (case f of
        None \<Rightarrow> focus_depth
      | Some fl \<Rightarrow>
          if no_pattern (tf_focus fl) then focus_depth
          else if focus_depth \<noteq> TF_NO_FOCUS \<and> depth \<le> focus_depth then TF_NO_FOCUS else focus_depth)"

definition asmspy_tree_filter_active :: "tree_filter option \<Rightarrow> bool" where
  "asmspy_tree_filter_active f =
     (case f of None \<Rightarrow> False
      | Some fl \<Rightarrow> tf_max_depth fl > 0 \<or> \<not> no_pattern (tf_focus fl) \<or> \<not> no_pattern (tf_module fl))"

section \<open>The thread\<close>

definition ASMSPY_STK_MAX :: nat where
  "ASMSPY_STK_MAX = 4096"

record frame =
  fr_ret :: u64
  fr_sp :: u64

text \<open>The stack is bottom first, as the array is.\<close>

record thr =
  th_stk :: "frame list"
  th_cap :: nat
  th_focus :: int
  th_pending :: bool
  th_pend_ret :: u64
  th_pend_sp :: u64

definition frm_push :: "heap \<Rightarrow> thr \<Rightarrow> u64 \<Rightarrow> u64 \<Rightarrow> thr \<times> heap" where
  "frm_push h t ret sp =
     (if length (th_stk t) \<ge> ASMSPY_STK_MAX then (t, h)
      else if length (th_stk t) = th_cap t
      then (case alloc h of (ok, h1) \<Rightarrow>
              if \<not> ok then (t, h1)
              else (t\<lparr>th_stk := th_stk t @ [\<lparr>fr_ret = ret, fr_sp = sp\<rparr>], th_cap := (if th_cap t \<noteq> 0 then th_cap t * 2 else 32)\<rparr>, h1))
      else (t\<lparr>th_stk := th_stk t @ [\<lparr>fr_ret = ret, fr_sp = sp\<rparr>]\<rparr>, h))"

fun unwind_stk :: "u64 \<Rightarrow> frame list \<Rightarrow> frame list" where
  "unwind_stk sp [] = []"
| "unwind_stk sp (f # fs) = (if sp > fr_sp f then unwind_stk sp fs else f # fs)"

definition frm_unwind :: "thr \<Rightarrow> u64 \<Rightarrow> thr" where
  "frm_unwind t sp = t\<lparr>th_stk := rev (unwind_stk sp (rev (th_stk t)))\<rparr>"

definition call_pend_arm :: "thr \<Rightarrow> u64 \<Rightarrow> nat \<Rightarrow> u64 \<Rightarrow> thr" where
  "call_pend_arm t rip ilen sp = t\<lparr>th_pending := True, th_pend_ret := rip + of_nat ilen, th_pend_sp := sp - 8\<rparr>"

text \<open>\<open>ra\<close> is the word at the stack pointer, \<open>None\<close> where it cannot be read.\<close>

definition call_pend_at_callee :: "thr \<Rightarrow> u64 \<Rightarrow> u64 option \<Rightarrow> bool" where
  "call_pend_at_callee t sp ra \<longleftrightarrow> sp = th_pend_sp t \<and> ra = Some (th_pend_ret t)"

section \<open>A stop\<close>

text \<open>A function as the view shows it: its resolved name and module, or the raw address and a question mark.\<close>

type_synonym shown = "string \<times> string"

record stop =
  sp_sp :: u64
  sp_rip :: u64
  sp_ra :: "u64 option"
  sp_here :: shown
  sp_ilen :: nat
  sp_call :: bool
  sp_target :: "shown option"

text \<open>A line of the view: the effective depth and the function.\<close>

type_synonym line = "int \<times> shown"

definition tree_emit :: "tree_filter option \<Rightarrow> shown \<Rightarrow> int \<Rightarrow> int \<Rightarrow> line list \<times> int" where
  "tree_emit f fn depth focus_depth =
     (case asmspy_tree_filter_call f (Some (fst fn)) (Some (snd fn)) depth focus_depth of
        (None, fd) \<Rightarrow> ([], fd)
      | (Some eff, fd) \<Rightarrow> ([(eff, fn)], fd))"

definition stop_unwind :: "tree_filter option \<Rightarrow> thr \<Rightarrow> stop \<Rightarrow> thr" where
  "stop_unwind f t s =
     (let t1 = frm_unwind t (sp_sp s) in
      if length (th_stk t1) < length (th_stk t)
      then t1\<lparr>th_focus := asmspy_tree_filter_ret f (int (length (th_stk t1))) (th_focus t1)\<rparr>
      else t1)"

definition stop_pending :: "tree_filter option \<Rightarrow> thr \<Rightarrow> stop \<Rightarrow> line list \<times> thr" where
  "stop_pending f t s =
     (if \<not> th_pending t then ([], t)
      else if call_pend_at_callee t (sp_sp s) (sp_ra s)
      then (let d = (if th_stk t \<noteq> [] then int (length (th_stk t)) - 1 else 0) in
            case tree_emit f (sp_here s) d (th_focus t) of
              (ls, fd) \<Rightarrow> (ls, t\<lparr>th_focus := fd, th_pending := False\<rparr>))
      else ([], t\<lparr>th_pending := False\<rparr>))"

definition stop_call :: "tree_filter option \<Rightarrow> heap \<Rightarrow> thr \<Rightarrow> stop \<Rightarrow> line list \<times> thr \<times> heap" where
  "stop_call f h t s =
     (if \<not> sp_call s then ([], t, h)
      else let d = int (length (th_stk t)) in
        case (if sp_ilen s \<noteq> 0 then frm_push h t (sp_rip s + of_nat (sp_ilen s)) (sp_sp s - 8) else (t, h)) of
          (t1, h1) \<Rightarrow>
            (case sp_target s of
               Some fn \<Rightarrow> (case tree_emit f fn d (th_focus t1) of (ls, fd) \<Rightarrow> (ls, t1\<lparr>th_focus := fd\<rparr>, h1))
             | None \<Rightarrow> ([], if sp_ilen s \<noteq> 0 then call_pend_arm t1 (sp_rip s) (sp_ilen s) (sp_sp s) else t1, h1)))"

definition tree_stop :: "tree_filter option \<Rightarrow> heap \<Rightarrow> thr \<Rightarrow> stop \<Rightarrow> line list \<times> thr \<times> heap" where
  "tree_stop f h t s =
     (case stop_pending f (stop_unwind f t s) s of (ls1, t1) \<Rightarrow>
        case stop_call f h t1 s of (ls2, t2, h2) \<Rightarrow> (ls1 @ ls2, t2, h2))"

fun tree_run :: "tree_filter option \<Rightarrow> heap \<Rightarrow> thr \<Rightarrow> stop list \<Rightarrow> line list" where
  "tree_run f h t [] = []"
| "tree_run f h t (s # ss) = (case tree_stop f h t s of (ls, t1, h1) \<Rightarrow> ls @ tree_run f h1 t1 ss)"

definition new_thr :: thr where
  "new_thr = \<lparr>th_stk = [], th_cap = 0, th_focus = TF_NO_FOCUS, th_pending = False, th_pend_ret = 0, th_pend_sp = 0\<rparr>"

section \<open>The view as a function of the stack\<close>

text \<open>
  The specification keeps no focus: it is a stack of frames, each with the stack pointer its call left and the function it entered once that
  is known, and the promise of an indirect call whose callee is not known yet. Whether a call is shown, and where, is read off the stack: the
  first frame that matches the focus is the root.
\<close>

type_synonym vstate = "(u64 \<times> shown option) list \<times> (u64 \<times> u64) option"

definition focused :: "tree_filter option \<Rightarrow> bool" where
  "focused f \<longleftrightarrow> (case f of None \<Rightarrow> False | Some fl \<Rightarrow> \<not> no_pattern (tf_focus fl))"

definition in_focus :: "tree_filter option \<Rightarrow> shown option \<Rightarrow> bool" where
  "in_focus f fn \<longleftrightarrow> (case (f, fn) of (Some fl, Some n) \<Rightarrow> sublist (the (tf_focus fl)) (fst n) | _ \<Rightarrow> False)"

text \<open>The position of the outermost frame in focus.\<close>

definition root_of :: "tree_filter option \<Rightarrow> shown option list \<Rightarrow> nat option" where
  "root_of f names = (if \<exists>n\<in>set names. in_focus f n then Some (length (takeWhile (\<lambda>n. \<not> in_focus f n) names)) else None)"

definition passes :: "tree_filter option \<Rightarrow> nat \<Rightarrow> shown \<Rightarrow> bool" where
  "passes f d fn \<longleftrightarrow> (case f of None \<Rightarrow> True
     | Some fl \<Rightarrow> (tf_max_depth fl > 0 \<longrightarrow> int d < tf_max_depth fl) \<and>
         (no_pattern (tf_module fl) \<or> sublist (the (tf_module fl)) (snd fn)))"

text \<open>The line of a call to \<open>fn\<close> made below the frames \<open>names\<close>.\<close>

definition spec_line :: "tree_filter option \<Rightarrow> shown option list \<Rightarrow> shown \<Rightarrow> line list" where
  "spec_line f names fn =
     (case (if focused f then root_of f (names @ [Some fn]) else Some 0) of
        None \<Rightarrow> []
      | Some r \<Rightarrow> if passes f (length names - r) fn then [(int (length names - r), fn)] else [])"

definition spec_unwind :: "u64 \<Rightarrow> (u64 \<times> shown option) list \<Rightarrow> (u64 \<times> shown option) list" where
  "spec_unwind sp stk = rev (dropWhile (\<lambda>fr. sp > fst fr) (rev stk))"

text \<open>The stop is the entry of the callee an indirect call promised: the top frame gets its function.\<close>

definition entered :: "(u64 \<times> u64) option \<Rightarrow> stop \<Rightarrow> bool" where
  "entered pend s \<longleftrightarrow> (case pend of None \<Rightarrow> False | Some (ret, psp) \<Rightarrow> sp_sp s = psp \<and> sp_ra s = Some ret)"

definition spec_enter :: "tree_filter option \<Rightarrow> vstate \<Rightarrow> stop \<Rightarrow> line list \<times> (u64 \<times> shown option) list" where
  "spec_enter f v s =
     (if entered (snd v) s
      then (spec_line f (map snd (butlast (fst v))) (sp_here s), butlast (fst v) @ [(fst (last (fst v)), Some (sp_here s))])
      else ([], fst v))"

definition spec_stop :: "tree_filter option \<Rightarrow> vstate \<Rightarrow> stop \<Rightarrow> line list \<times> vstate" where
  "spec_stop f v s =
     (case spec_enter f (spec_unwind (sp_sp s) (fst v), snd v) s of (ls, stk) \<Rightarrow>
      if sp_call s
      then (ls @ (case sp_target s of Some fn \<Rightarrow> spec_line f (map snd stk) fn | None \<Rightarrow> []),
            stk @ [(sp_sp s - 8, sp_target s)],
            if sp_target s = None then Some (sp_rip s + of_nat (sp_ilen s), sp_sp s - 8) else None)
      else (ls, stk, None))"

fun spec_run :: "tree_filter option \<Rightarrow> vstate \<Rightarrow> stop list \<Rightarrow> line list" where
  "spec_run f v [] = []"
| "spec_run f v (s # ss) = (case spec_stop f v s of (ls, v1) \<Rightarrow> ls @ spec_run f v1 ss)"

section \<open>The cached focus is the root\<close>

definition focus_of :: "tree_filter option \<Rightarrow> shown option list \<Rightarrow> int" where
  "focus_of f names = (if focused f then case root_of f names of None \<Rightarrow> TF_NO_FOCUS | Some r \<Rightarrow> int r else TF_NO_FOCUS)"

lemma root_of_snoc:
  "root_of f (names @ [x]) = (case root_of f names of Some r \<Rightarrow> Some r | None \<Rightarrow> if in_focus f x then Some (length names) else None)"
proof (cases "\<exists>n\<in>set names. in_focus f n")
  case True
  then show ?thesis by (auto simp: root_of_def takeWhile_append1)
next
  case False
  then have "takeWhile (\<lambda>n. \<not> in_focus f n) (names @ [x]) = names @ (if in_focus f x then [] else [x])"
    by (subst takeWhile_append2) auto
  with False show ?thesis by (auto simp: root_of_def)
qed

lemma root_of_less: "root_of f names = Some r \<Longrightarrow> r < length names"
proof -
  assume "root_of f names = Some r"
  then have "\<exists>n\<in>set names. in_focus f n" "r = length (takeWhile (\<lambda>n. \<not> in_focus f n) names)"
    by (auto simp: root_of_def split: if_splits)
  then show ?thesis
    by (metis (no_types, lifting) length_takeWhile_le nat_less_le set_takeWhileD takeWhile_eq_take take_all_iff order_refl)
qed

lemma root_of_take: "root_of f (take m names) = (case root_of f names of Some r \<Rightarrow> if r < m then Some r else None | None \<Rightarrow> None)"
proof (induction names arbitrary: m)
  case (Cons x xs)
  show ?case
  proof (cases m)
    case (Suc k)
    then show ?thesis using Cons [of k] by (auto simp: root_of_def split: if_splits)
  qed (simp add: root_of_def split: option.split)
qed (simp add: root_of_def)

lemma root_of_None_frame: "root_of f (names @ [None]) = root_of f names"
  by (simp add: root_of_snoc in_focus_def split: option.split)

lemma emit_spec:
  "tree_emit f fn (int (length names)) (focus_of f names) = (spec_line f names fn, focus_of f (names @ [Some fn]))"
proof (cases f)
  case None
  then show ?thesis
    by (simp add: tree_emit_def asmspy_tree_filter_call_def focus_root_def spec_line_def focused_def focus_of_def passes_def)
next
  case (Some fl)
  have m: "asmspy_tf_match (Some (snd fn)) (tf_module fl) \<longleftrightarrow> no_pattern (tf_module fl) \<or> sublist (the (tf_module fl)) (snd fn)"
    by (simp add: asmspy_tf_match_def)
  have d: "(if int (length names) - int r < 0 then 0 else int (length names) - int r) = int (length names - r)" for r by auto
  have d0: "(if int (length names) - 0 < 0 then 0 else int (length names) - 0) = int (length names)" by auto
  show ?thesis
  proof (cases "focused f")
    case False
    then show ?thesis using Some m
      by (auto simp: tree_emit_def asmspy_tree_filter_call_def focus_root_def spec_line_def focused_def focus_of_def passes_def Let_def)
  next
    case True
    then have np: "\<not> no_pattern (tf_focus fl)" using Some by (simp add: focused_def)
    then have nm: "asmspy_tf_match (Some (fst fn)) (tf_focus fl) \<longleftrightarrow> in_focus f (Some fn)"
      using Some by (simp add: asmspy_tf_match_def in_focus_def)
    show ?thesis
    proof (cases "root_of f names")
      case None
      then show ?thesis using Some True np nm m
        by (auto simp: tree_emit_def asmspy_tree_filter_call_def focus_root_def spec_line_def focus_of_def root_of_snoc passes_def Let_def)
    next
      case (Some r)
      then have "int r \<noteq> TF_NO_FOCUS" by (simp add: TF_NO_FOCUS_def)
      with Some \<open>f = Some fl\<close> True np m show ?thesis
        by (auto simp: tree_emit_def asmspy_tree_filter_call_def focus_root_def spec_line_def focus_of_def root_of_snoc passes_def Let_def d)
    qed
  qed
qed

section \<open>Simulation\<close>

definition tracks :: "tree_filter option \<Rightarrow> (u64 \<times> shown option) list \<Rightarrow> thr \<Rightarrow> bool" where
  "tracks f stk t \<longleftrightarrow> map fst stk = map fr_sp (th_stk t) \<and> th_focus t = focus_of f (map snd stk)"

definition sim :: "tree_filter option \<Rightarrow> vstate \<Rightarrow> thr \<Rightarrow> bool" where
  "sim f v t \<longleftrightarrow> tracks f (fst v) t \<and> (th_pending t \<longleftrightarrow> snd v \<noteq> None) \<and>
     (\<forall>ret psp. snd v = Some (ret, psp) \<longrightarrow> th_pend_ret t = ret \<and> th_pend_sp t = psp \<and> fst v \<noteq> [] \<and> last (fst v) = (psp, None))"

lemma unwind_dropWhile: "unwind_stk sp fs = dropWhile (\<lambda>f. sp > fr_sp f) fs"
  by (induction fs) auto

lemma rev_dropWhile_take: "rev (dropWhile P (rev xs)) = take (length (dropWhile P (rev xs))) xs"
  by (induction xs rule: rev_induct) (auto simp: length_dropWhile_le [THEN order_trans])

lemma focus_ret:
  "m \<le> length names \<Longrightarrow> asmspy_tree_filter_ret f (int m) (focus_of f names) = focus_of f (take m names)"
  by (auto simp: asmspy_tree_filter_ret_def focus_of_def focused_def root_of_take TF_NO_FOCUS_def split: option.splits)

lemma unwind_tracks:
  assumes "tracks f stk t"
  shows "tracks f (spec_unwind (sp_sp s) stk) (stop_unwind f t s)"
    "th_pending (stop_unwind f t s) = th_pending t" "th_pend_ret (stop_unwind f t s) = th_pend_ret t"
    "th_pend_sp (stop_unwind f t s) = th_pend_sp t" "length (th_stk (stop_unwind f t s)) \<le> length (th_stk t)"
proof -
  let ?m = "length (dropWhile (\<lambda>fr. sp_sp s > fst fr) (rev stk))"
  have k: "map fst stk = map fr_sp (th_stk t)" "th_focus t = focus_of f (map snd stk)" using assms by (auto simp: tracks_def)
  have l: "length stk = length (th_stk t)" using k(1) by (metis length_map)
  have "length (dropWhile (\<lambda>x. sp_sp s > x) (rev (map fst stk))) = ?m"
    by (simp add: rev_map dropWhile_map comp_def)
  moreover have "length (dropWhile (\<lambda>x. sp_sp s > x) (rev (map fr_sp (th_stk t)))) = length (dropWhile (\<lambda>f. sp_sp s > fr_sp f) (rev (th_stk t)))"
    by (simp add: rev_map dropWhile_map comp_def)
  ultimately have m: "length (dropWhile (\<lambda>f. sp_sp s > fr_sp f) (rev (th_stk t))) = ?m" using k(1) by simp
  have u: "th_stk (frm_unwind t (sp_sp s)) = take ?m (th_stk t)"
    by (simp add: frm_unwind_def unwind_dropWhile rev_dropWhile_take m)
  have ml: "?m \<le> length stk" by (metis length_dropWhile_le length_rev)
  have uf: "th_focus (frm_unwind t sp) = th_focus t" "th_pending (frm_unwind t sp) = th_pending t"
    "th_pend_ret (frm_unwind t sp) = th_pend_ret t" "th_pend_sp (frm_unwind t sp) = th_pend_sp t" for sp
    by (simp_all add: frm_unwind_def)
  have st: "th_stk (stop_unwind f t s) = take ?m (th_stk t)" by (simp add: stop_unwind_def Let_def u)
  have fo: "th_focus (stop_unwind f t s) = focus_of f (take ?m (map snd stk))"
  proof (cases "?m < length stk")
    case True
    then show ?thesis using u l k(2) focus_ret [of ?m "map snd stk" f] by (simp add: stop_unwind_def Let_def uf min_def)
  next
    case False
    then show ?thesis using u l k(2) ml by (simp add: stop_unwind_def Let_def uf)
  qed
  show "tracks f (spec_unwind (sp_sp s) stk) (stop_unwind f t s)"
    unfolding tracks_def spec_unwind_def rev_dropWhile_take st fo using k(1) by (simp add: take_map [symmetric])
  show "th_pending (stop_unwind f t s) = th_pending t" "th_pend_ret (stop_unwind f t s) = th_pend_ret t"
    "th_pend_sp (stop_unwind f t s) = th_pend_sp t" "length (th_stk (stop_unwind f t s)) \<le> length (th_stk t)"
    using ml l by (simp_all add: stop_unwind_def Let_def uf u)
qed

lemma resolve_tracks:
  assumes "tracks f stk t" "stk \<noteq> []" "snd (last stk) = None"
  shows "tree_emit f fn (if th_stk t \<noteq> [] then int (length (th_stk t)) - 1 else 0) (th_focus t) =
      (spec_line f (map snd (butlast stk)) fn, focus_of f (map snd (butlast stk) @ [Some fn]))"
    and "map fst (butlast stk @ [(fst (last stk), Some fn)]) = map fr_sp (th_stk t)"
proof -
  have k: "map fst stk = map fr_sp (th_stk t)" "th_focus t = focus_of f (map snd stk)" using assms by (auto simp: tracks_def)
  have b: "stk = butlast stk @ [(fst (last stk), None)]" using assms(2,3) by (metis append_butlast_last_id prod.collapse)
  have "map snd stk = map snd (butlast stk) @ [None]" by (subst b) simp
  then have fo: "th_focus t = focus_of f (map snd (butlast stk))" using k(2) by (simp add: focus_of_def root_of_None_frame)
  have "length (th_stk t) = length stk" using k(1) by (metis length_map)
  then have d: "(if th_stk t \<noteq> [] then int (length (th_stk t)) - 1 else 0) = int (length (map snd (butlast stk)))"
    using assms(2) by (cases stk rule: rev_cases) auto
  show "tree_emit f fn (if th_stk t \<noteq> [] then int (length (th_stk t)) - 1 else 0) (th_focus t) =
      (spec_line f (map snd (butlast stk)) fn, focus_of f (map snd (butlast stk) @ [Some fn]))"
    unfolding d fo by (rule emit_spec)
  show "map fst (butlast stk @ [(fst (last stk), Some fn)]) = map fr_sp (th_stk t)"
    using assms(2) k(1) [symmetric] by (cases stk rule: rev_cases) auto
qed

lemma push_ok: "length (th_stk t) < ASMSPY_STK_MAX \<Longrightarrow>
    \<exists>c. frm_push [] t ret sp = (t\<lparr>th_stk := th_stk t @ [\<lparr>fr_ret = ret, fr_sp = sp\<rparr>], th_cap := c\<rparr>, [])"
  by (cases "length (th_stk t) = th_cap t") (auto simp: frm_push_def intro: exI [of _ "th_cap t"])

lemma call_tracks:
  assumes "tracks f stk t" "length (th_stk t) < ASMSPY_STK_MAX" "sp_call s" "sp_ilen s \<noteq> 0" "\<not> th_pending t"
  obtains t' where "stop_call f [] t s = (case sp_target s of Some fn \<Rightarrow> spec_line f (map snd stk) fn | None \<Rightarrow> [], t', [])"
    "sim f (stk @ [(sp_sp s - 8, sp_target s)],
       if sp_target s = None then Some (sp_rip s + of_nat (sp_ilen s), sp_sp s - 8) else None) t'"
    "length (th_stk t') = Suc (length (th_stk t))"
proof -
  have k: "map fst stk = map fr_sp (th_stk t)" "th_focus t = focus_of f (map snd stk)" using assms by (auto simp: tracks_def)
  have l: "length stk = length (th_stk t)" using k(1) by (metis length_map)
  obtain c where p: "frm_push [] t (sp_rip s + of_nat (sp_ilen s)) (sp_sp s - 8) =
      (t\<lparr>th_stk := th_stk t @ [\<lparr>fr_ret = sp_rip s + of_nat (sp_ilen s), fr_sp = sp_sp s - 8\<rparr>], th_cap := c\<rparr>, [])"
    using push_ok [OF assms(2)] by blast
  show ?thesis
  proof (cases "sp_target s")
    case None
    then show ?thesis using assms(3-5) p k
      by (intro that) (auto simp: stop_call_def sim_def tracks_def call_pend_arm_def focus_of_def root_of_None_frame)
  next
    case (Some fn)
    have "tree_emit f fn (int (length (th_stk t))) (th_focus t) = (spec_line f (map snd stk) fn, focus_of f (map snd stk @ [Some fn]))"
      using emit_spec [of f fn "map snd stk"] k(2) l by simp
    then show ?thesis using Some assms(3-5) p k
      by (intro that) (auto simp: stop_call_def sim_def tracks_def)
  qed
qed

lemma unwind_at_top: "stk \<noteq> [] \<Longrightarrow> sp = fst (last stk) \<Longrightarrow> spec_unwind sp stk = stk"
  by (cases stk rule: rev_cases) (simp_all add: spec_unwind_def)

lemma enter_tracks:
  assumes "sim f v t"
  obtains ls stk t' where "spec_enter f (spec_unwind (sp_sp s) (fst v), snd v) s = (ls, stk)"
    "stop_pending f (stop_unwind f t s) s = (ls, t')" "tracks f stk t'" "\<not> th_pending t'" "length (th_stk t') \<le> length (th_stk t)"
proof -
  obtain stk pend where v: "v = (stk, pend)" by (cases v)
  let ?t1 = "stop_unwind f t s"
  have tr: "tracks f stk t" and pe: "th_pending t \<longleftrightarrow> pend \<noteq> None"
    and pd: "\<And>ret psp. pend = Some (ret, psp) \<Longrightarrow> th_pend_ret t = ret \<and> th_pend_sp t = psp \<and> stk \<noteq> [] \<and> last stk = (psp, None)"
    using assms by (auto simp: sim_def v)
  note u = unwind_tracks [OF tr, of s]
  have at: "th_pending t \<Longrightarrow> call_pend_at_callee ?t1 (sp_sp s) (sp_ra s) \<longleftrightarrow> entered pend s"
    using pd pe u(3,4) by (auto simp: call_pend_at_callee_def entered_def)
  have ent: "entered pend s \<Longrightarrow> th_pending t" using pe by (cases pend) (auto simp: entered_def)
  show ?thesis
  proof (cases "entered pend s")
    case True
    then obtain ret psp where p: "pend = Some (ret, psp)" "sp_sp s = psp" by (auto simp: entered_def split: option.splits)
    have q: "stk \<noteq> []" "last stk = (psp, None)" using pd [OF p(1)] by auto
    have s1: "spec_unwind (sp_sp s) stk = stk" using q p(2) by (simp add: unwind_at_top)
    have r: "snd (last stk) = None" using q(2) by simp
    note rt = resolve_tracks [OF u(1) [unfolded s1] q(1) r, of "sp_here s"]
    let ?t2 = "?t1\<lparr>th_focus := focus_of f (map snd (butlast stk) @ [Some (sp_here s)]), th_pending := False\<rparr>"
    have "stop_pending f ?t1 s = (spec_line f (map snd (butlast stk)) (sp_here s), ?t2)"
      using ent [OF True] at True u(2) rt(1) by (simp add: stop_pending_def Let_def)
    moreover have "tracks f (butlast stk @ [(fst (last stk), Some (sp_here s))]) ?t2" using rt(2) by (simp add: tracks_def)
    ultimately show ?thesis using that True u(5) by (simp add: spec_enter_def v s1)
  next
    case False
    have "stop_pending f ?t1 s = ([], ?t1\<lparr>th_pending := False\<rparr>)"
      using at False u(2) by (cases "th_pending t") (simp_all add: stop_pending_def)
    moreover have "tracks f (spec_unwind (sp_sp s) stk) (?t1\<lparr>th_pending := False\<rparr>)" using u(1) by (simp add: tracks_def)
    ultimately show ?thesis using that False u(5) by (simp add: spec_enter_def v)
  qed
qed

lemma stop_sim:
  assumes "sim f v t" "length (th_stk t) < ASMSPY_STK_MAX" "sp_call s \<longrightarrow> sp_ilen s \<noteq> 0"
  obtains ls v' t' where "spec_stop f v s = (ls, v')" "tree_stop f [] t s = (ls, t', [])" "sim f v' t'"
    "length (th_stk t') \<le> Suc (length (th_stk t))"
proof -
  obtain ls stk t2 where e: "spec_enter f (spec_unwind (sp_sp s) (fst v), snd v) s = (ls, stk)"
    "stop_pending f (stop_unwind f t s) s = (ls, t2)" "tracks f stk t2" "\<not> th_pending t2" "length (th_stk t2) \<le> length (th_stk t)"
    by (rule enter_tracks [OF assms(1)])
  show ?thesis
  proof (cases "sp_call s")
    case True
    have l: "length (th_stk t2) < ASMSPY_STK_MAX" "sp_ilen s \<noteq> 0" using e(5) assms(2,3) True by auto
    show ?thesis
    proof (rule call_tracks [OF e(3) l(1) True l(2) e(4)])
      fix t3
      assume c: "stop_call f [] t2 s = (case sp_target s of Some fn \<Rightarrow> spec_line f (map snd stk) fn | None \<Rightarrow> [], t3, [])"
        "sim f (stk @ [(sp_sp s - 8, sp_target s)],
           if sp_target s = None then Some (sp_rip s + of_nat (sp_ilen s), sp_sp s - 8) else None) t3"
        "length (th_stk t3) = Suc (length (th_stk t2))"
      have "length (th_stk t3) \<le> Suc (length (th_stk t))" using c(3) e(5) by simp
      then show ?thesis
        by (intro that [OF _ _ c(2)]) (simp_all only: spec_stop_def tree_stop_def e(1,2) c(1) prod.case if_P [OF True])
    qed
  next
    case False
    show ?thesis
    proof (rule that)
      show "spec_stop f v s = (ls, stk, None)" using e(1) False by (simp add: spec_stop_def)
      show "tree_stop f [] t s = (ls, t2, [])" using e(2) False by (simp add: tree_stop_def stop_call_def)
      show "sim f (stk, None) t2" using e(3,4) by (simp add: sim_def)
      show "length (th_stk t2) \<le> Suc (length (th_stk t))" using e(5) by simp
    qed
  qed
qed

lemma run_sim:
  "sim f v t \<Longrightarrow> length (th_stk t) + length ss \<le> ASMSPY_STK_MAX \<Longrightarrow> \<forall>s\<in>set ss. sp_call s \<longrightarrow> sp_ilen s \<noteq> 0 \<Longrightarrow>
   tree_run f [] t ss = spec_run f v ss"
proof (induction ss arbitrary: v t)
  case (Cons s ss)
  have a: "length (th_stk t) < ASMSPY_STK_MAX" "sp_call s \<longrightarrow> sp_ilen s \<noteq> 0" using Cons.prems(2,3) by auto
  obtain ls v' t' where r: "spec_stop f v s = (ls, v')" "tree_stop f [] t s = (ls, t', [])" "sim f v' t'"
    "length (th_stk t') \<le> Suc (length (th_stk t))"
    by (rule stop_sim [OF Cons.prems(1) a])
  have "tree_run f [] t' ss = spec_run f v' ss" using Cons.prems(2,3) r(4) by (intro Cons.IH [OF r(3)]) auto
  then show ?case by (simp add: r(1,2))
qed simp

text \<open>
  C32: On every sequence of single-step stops of a thread, with memory available, no more stops than the frame stack holds and every call decoded with its
  length, the call-tree view prints exactly the lines of the specification: a call is shown when the live stack, read afresh at that stop, has a frame
  matching the focus (or the call itself matches), at its distance below the outermost such frame, if it is above the depth cap and in the module.
  The cached focus depth is never stale, over returns, long jumps over several frames, indirect calls resolved one stop later and signals that arrive
  between a call and its callee.
\<close>

theorem tree_view_exact:
  assumes "length stops \<le> ASMSPY_STK_MAX" "\<forall>s\<in>set stops. sp_call s \<longrightarrow> sp_ilen s \<noteq> 0"
  shows "tree_run f [] new_thr stops = spec_run f ([], None) stops"
proof (rule run_sim)
  show "sim f ([], None) new_thr" by (simp add: sim_def tracks_def new_thr_def focus_of_def root_of_def)
qed (use assms in \<open>simp_all add: new_thr_def\<close>)

definition stop_at :: "u64 \<Rightarrow> u64 \<Rightarrow> u64 option \<Rightarrow> string \<Rightarrow> (shown option) option \<Rightarrow> stop" where
  "stop_at sp rip ra here c = \<lparr>sp_sp = sp, sp_rip = rip, sp_ra = ra, sp_here = (here, ''app''), sp_ilen = 5,
     sp_call = (c \<noteq> None), sp_target = (case c of Some t \<Rightarrow> t | None \<Rightarrow> None)\<rparr>"

text \<open>
  In focus on \<open>work\<close>: \<open>main\<close> calls \<open>work\<close>, which calls \<open>leaf\<close> through a pointer; a jump out of both lands in \<open>main\<close>, whose next call is not shown.
\<close>

definition demo_stops :: "stop list" where
  "demo_stops = [stop_at 0x1000 0x10 None ''main'' (Some (Some (''work'', ''app''))),
     stop_at 0xff8 0x40 (Some 0x15) ''work'' (Some None),
     stop_at 0xff0 0x80 (Some 0x45) ''leaf'' None,
     stop_at 0x1000 0x20 None ''main'' (Some (Some (''log'', ''app'')))]"

definition demo_filter :: tree_filter where
  "demo_filter = \<lparr>tf_max_depth = 0, tf_focus = Some ''wor'', tf_module = None\<rparr>"

theorem tree_view_exact_witness:
  "tree_run (Some demo_filter) [] new_thr demo_stops = [(0, ''work'', ''app''), (1, ''leaf'', ''app'')]"
proof -
  have "spec_run (Some demo_filter) ([], None) demo_stops = [(0, ''work'', ''app''), (1, ''leaf'', ''app'')]" by code_simp
  moreover have "tree_run (Some demo_filter) [] new_thr demo_stops = spec_run (Some demo_filter) ([], None) demo_stops"
    by (rule tree_view_exact) (simp_all add: demo_stops_def stop_at_def ASMSPY_STK_MAX_def)
  ultimately show ?thesis by simp
qed

text \<open>
  A frame that is not recorded, for want of memory or past the cap, leaves no trace to unwind: when it is the focus root, its return does not end the
  focus, and the calls after it are shown as if they were inside. Here the first frame's allocation fails, \<open>main\<close> calls \<open>work\<close> and, after
  its return, \<open>log\<close>.
\<close>

lemma lost_root_keeps_focus:
  "tree_run (Some demo_filter) [False] new_thr
     [stop_at 0x1000 0x10 None ''main'' (Some (Some (''work'', ''app''))), stop_at 0xff8 0x40 (Some 0x15) ''work'' None,
      stop_at 0x1000 0x20 None ''main'' (Some (Some (''log'', ''app'')))]
   = [(0, ''work'', ''app''), (0, ''log'', ''app'')]"
  by code_simp

end
