(* ===== verification/Autoregion.thy ===== *)
theory Autoregion
  imports Treeview "HOL-Library.Product_Lexorder"
begin

text \<open>
  The choice of a region by sampling, \<^verbatim>\<open>src/cli/asmspy_autoregion.h\<close>, and the loops of \<^verbatim>\<open>cmd_dataflow\<close> in \<^verbatim>\<open>src/cli/asmspy.c\<close> that use it: the ranking of entry arrivals and of resident addresses, the
  chain of samplers and the walk over the ranked candidates. The resolver of addresses and the answers of the samplers and of the capture are arguments.
\<close>

section \<open>Candidates\<close>

record sample_edge =
  se_from :: u64
  se_to :: u64
  se_count :: u64
  se_mispred :: u32
  se_is_return :: u32

record ip_hit =
  ih_ip :: u64
  ih_count :: u64

record autocand =
  ac_addr :: u64
  ac_size :: u64
  ac_name :: "string option"
  ac_module :: "string option"
  ac_arrivals :: u64
  ac_sites :: u32
  ac_first_us :: u64

text \<open>The resolver: the start, the size, the name and the module of the symbol at an address.\<close>

type_synonym resolver = "u64 \<Rightarrow> (u64 \<times> u64 \<times> string option \<times> string option) option"

definition asmspy_ar_match :: "string option \<Rightarrow> string option \<Rightarrow> bool" where
  "asmspy_ar_match hay needle \<longleftrightarrow> needle = None \<or> needle = Some [] \<or> (case hay of None \<Rightarrow> False | Some s \<Rightarrow> sublist (the needle) s)"

text \<open>What an edge, or a sampled address, contributes: the symbol it counts for.\<close>

definition entry_of :: "resolver \<Rightarrow> string option \<Rightarrow> sample_edge \<Rightarrow> (u64 \<times> u64 \<times> string option \<times> string option) option" where
  "entry_of resolve filt e =
     (if se_is_return e \<noteq> 0 then None
      else case resolve (se_to e) of
        None \<Rightarrow> None
      | Some (start, sz, name, module) \<Rightarrow>
          if se_to e \<noteq> start then None
          else if sz = 0 then None
          else if \<not> asmspy_ar_match module filt then None
          else Some (start, sz, name, module))"

definition resident_of :: "resolver \<Rightarrow> string option \<Rightarrow> ip_hit \<Rightarrow> (u64 \<times> u64 \<times> string option \<times> string option) option" where
  "resident_of resolve filt hit =
     (case resolve (ih_ip hit) of
        None \<Rightarrow> None
      | Some (start, sz, name, module) \<Rightarrow>
          if sz = 0 then None
          else if ih_ip hit < start \<or> ih_ip hit \<ge> start + sz then None
          else if \<not> asmspy_ar_match module filt then None
          else Some (start, sz, name, module))"

text \<open>
  The fold table. \<open>out0\<close> is what the caller's array holds before: a slot that is filled keeps the fields that are not written.
\<close>

fun find_cand :: "u64 \<Rightarrow> autocand list \<Rightarrow> nat" where
  "find_cand a [] = 0"
| "find_cand a (c # cs) = (if ac_addr c = a then 0 else Suc (find_cand a cs))"

definition fold_cand :: "(nat \<Rightarrow> autocand) \<Rightarrow> nat \<Rightarrow> (u64 \<times> u64 \<times> string option \<times> string option) option \<Rightarrow> u64 \<Rightarrow> autocand list \<Rightarrow> autocand list" where
  "fold_cand out0 cap symb cnt out =
     (case symb of
        None \<Rightarrow> out
      | Some (start, sz, name, module) \<Rightarrow>
          (let j = find_cand start out in
           if j < length out then out[j := (out ! j)\<lparr>ac_arrivals := ac_arrivals (out ! j) + cnt, ac_sites := ac_sites (out ! j) + 1\<rparr>]
           else if length out = cap then out
           else out @ [(out0 (length out))\<lparr>ac_addr := start, ac_size := sz, ac_name := name, ac_module := module, ac_arrivals := cnt, ac_sites := 1\<rparr>]))"

text \<open>The insertion sort: descending weight, ties by ascending address.\<close>

definition ranks_after :: "autocand \<Rightarrow> autocand \<Rightarrow> bool" where
  "ranks_after c key \<longleftrightarrow> ac_arrivals c < ac_arrivals key \<or> (ac_arrivals c = ac_arrivals key \<and> ac_addr c > ac_addr key)"

fun sift :: "autocand \<Rightarrow> autocand list \<Rightarrow> nat \<Rightarrow> autocand list" where
  "sift key out 0 = out[0 := key]"
| "sift key out (Suc j) = (if ranks_after (out ! j) key then sift key (out[Suc j := out ! j]) j else out[Suc j := key])"

definition sort_cands :: "autocand list \<Rightarrow> autocand list" where
  "sort_cands out = foldl (\<lambda>out i. sift (out ! i) out i) out [1..<length out]"

definition asmspy_autoregion_rank :: "resolver \<Rightarrow> string option \<Rightarrow> (nat \<Rightarrow> autocand) \<Rightarrow> nat \<Rightarrow> sample_edge list \<Rightarrow> autocand list" where
  "asmspy_autoregion_rank resolve filt out0 cap edges =
     (if cap = 0 then [] else sort_cands (foldl (\<lambda>out e. fold_cand out0 cap (entry_of resolve filt e) (se_count e) out) [] edges))"

definition asmspy_autoregion_rank_ip :: "resolver \<Rightarrow> string option \<Rightarrow> (nat \<Rightarrow> autocand) \<Rightarrow> nat \<Rightarrow> ip_hit list \<Rightarrow> autocand list" where
  "asmspy_autoregion_rank_ip resolve filt out0 cap hits =
     (if cap = 0 then [] else sort_cands (foldl (\<lambda>out h. fold_cand out0 cap (resident_of resolve filt h) (ih_count h) out) [] hits))"

definition asmspy_edge_drill :: "resolver \<Rightarrow> sample_edge \<Rightarrow> (u64 \<times> u64 \<times> string option \<times> string option) option" where
  "asmspy_edge_drill resolve e =
     (case resolve (se_to e) of
        Some (start, sz, name, module) \<Rightarrow>
          if sz \<noteq> 0 then Some (start, sz, name, module)
          else (case resolve (se_from e) of Some (s, z, n, m) \<Rightarrow> if z \<noteq> 0 then Some (s, z, n, m) else None | None \<Rightarrow> None)
      | None \<Rightarrow> (case resolve (se_from e) of Some (s, z, n, m) \<Rightarrow> if z \<noteq> 0 then Some (s, z, n, m) else None | None \<Rightarrow> None))"

section \<open>Walks\<close>

datatype walk_action = WALK_STOP | WALK_ADVANCE | WALK_EXHAUSTED

definition asmspy_autoregion_walk :: "bool \<Rightarrow> int \<Rightarrow> int \<Rightarrow> walk_action" where
  "asmspy_autoregion_walk not_seen_entering attempt ncand =
     (if \<not> not_seen_entering then WALK_STOP else if attempt + 1 < ncand then WALK_ADVANCE else WALK_EXHAUSTED)"

datatype sampler = SMP_IBS | SMP_SW | SMP_PTRACE | SMP_NONE

definition asmspy_autoregion_sampler_next :: "sampler \<Rightarrow> bool \<Rightarrow> sampler" where
  "asmspy_autoregion_sampler_next tried ibs_substrate =
     (case tried of
        SMP_NONE \<Rightarrow> if ibs_substrate then SMP_IBS else SMP_SW
      | SMP_IBS \<Rightarrow> SMP_SW
      | SMP_SW \<Rightarrow> SMP_PTRACE
      | SMP_PTRACE \<Rightarrow> SMP_NONE)"

definition asmspy_autoregion_chain_advance :: "int \<Rightarrow> bool \<Rightarrow> bool" where
  "asmspy_autoregion_chain_advance ncand chain_auto \<longleftrightarrow> chain_auto \<and> ncand < 0"

definition AUTO_WINDOW_TRIES :: int where "AUTO_WINDOW_TRIES = 3"
definition AUTO_TRIES :: nat where "AUTO_TRIES = 3"

text \<open>The windows of one sampler: \<open>pick smp k\<close> is what its \<open>k\<close>-th window answers. The result is the answer and the number of the window.\<close>

function window_loop :: "(sampler \<Rightarrow> nat \<Rightarrow> int) \<Rightarrow> sampler \<Rightarrow> nat \<Rightarrow> int \<times> nat" where
  "window_loop pick smp wtry =
     (if pick smp wtry \<noteq> 0 \<or> asmspy_autoregion_walk True (int wtry) AUTO_WINDOW_TRIES \<noteq> WALK_ADVANCE then (pick smp wtry, wtry)
      else window_loop pick smp (wtry + 1))"
  by pat_completeness auto
termination
  by (relation "measure (\<lambda>(pick, smp, wtry). nat (AUTO_WINDOW_TRIES - int wtry))")
    (auto simp: asmspy_autoregion_walk_def AUTO_WINDOW_TRIES_def split: if_splits)

declare window_loop.simps [simp del]

fun sampler_rank :: "sampler \<Rightarrow> nat" where
  "sampler_rank SMP_IBS = 3"
| "sampler_rank SMP_SW = 2"
| "sampler_rank SMP_PTRACE = 1"
| "sampler_rank SMP_NONE = 4"

text \<open>The chain of samplers: the answer, and the samplers that were tried.\<close>

function chain_loop :: "(sampler \<Rightarrow> nat \<Rightarrow> int) \<Rightarrow> bool \<Rightarrow> bool \<Rightarrow> sampler \<Rightarrow> int \<times> sampler list" where
  "chain_loop pick chain_auto ibs_substrate smp =
     (let ncand = fst (window_loop pick smp 0) in
      if \<not> asmspy_autoregion_chain_advance ncand chain_auto then (ncand, [smp])
      else let nxt = asmspy_autoregion_sampler_next smp ibs_substrate in
        if nxt = SMP_NONE then (ncand, [smp])
        else case chain_loop pick chain_auto ibs_substrate nxt of (n, tried) \<Rightarrow> (n, smp # tried))"
  by pat_completeness auto
termination
  by (relation "measure (\<lambda>(pick, chain_auto, ibs, smp). sampler_rank smp)")
    (auto simp: asmspy_autoregion_sampler_next_def split: sampler.splits if_splits)

declare chain_loop.simps [simp del]

datatype sampler_opt = SAMPLER_AUTO | SAMPLER_IBS | SAMPLER_SW | SAMPLER_PTRACE

definition auto_region :: "(sampler \<Rightarrow> nat \<Rightarrow> int) \<Rightarrow> sampler_opt \<Rightarrow> bool \<Rightarrow> int \<times> sampler list" where
  "auto_region pick opt ibs_substrate =
     chain_loop pick (opt = SAMPLER_AUTO) ibs_substrate
       (case opt of SAMPLER_IBS \<Rightarrow> SMP_IBS | SAMPLER_SW \<Rightarrow> SMP_SW | SAMPLER_PTRACE \<Rightarrow> SMP_PTRACE
        | SAMPLER_AUTO \<Rightarrow> asmspy_autoregion_sampler_next SMP_NONE ibs_substrate)"

definition ASMSPY_REGION_NEVER_RAN :: int where "ASMSPY_REGION_NEVER_RAN = 1"

text \<open>The captures: \<open>capture k\<close> is the status of the capture of the \<open>k\<close>-th candidate. The result is the last status and its candidate.\<close>

function capture_loop :: "(nat \<Rightarrow> int) \<Rightarrow> nat \<Rightarrow> nat \<Rightarrow> int \<times> nat" where
  "capture_loop capture ncand attempt =
     (if asmspy_autoregion_walk (capture attempt = ASMSPY_REGION_NEVER_RAN) (int attempt) (int ncand) = WALK_ADVANCE
      then capture_loop capture ncand (attempt + 1) else (capture attempt, attempt))"
  by pat_completeness auto
termination
  by (relation "measure (\<lambda>(capture, ncand, attempt). ncand - attempt)")
    (auto simp: asmspy_autoregion_walk_def split: if_splits)

declare capture_loop.simps [simp del]

section \<open>The ranking\<close>

definition cand_key :: "autocand \<Rightarrow> nat \<times> nat" where
  "cand_key c = (2 ^ 64 - unat (ac_arrivals c), unat (ac_addr c))"

lemma ranks_after_key: "ranks_after c key \<longleftrightarrow> cand_key key < cand_key c"
proof -
  have "unat (ac_arrivals c) < 2 ^ 64" "unat (ac_arrivals key) < 2 ^ 64" using unsigned_less [of "ac_arrivals c"] unsigned_less [of "ac_arrivals key"] by simp_all
  then show ?thesis by (auto simp: ranks_after_def cand_key_def less_prod_def word_less_nat_alt word_unat_eq_iff)
qed

lemma sift_spec:
  "\<exists>r. sift key (p @ c # q) (length p) = r @ q \<and> mset r = mset (key # p) \<and> (sorted (map cand_key p) \<longrightarrow> sorted (map cand_key r))"
proof (induction p arbitrary: c q rule: rev_induct)
  case (snoc a p)
  show ?case
  proof (cases "ranks_after a key")
    case True
    have "sift key ((p @ [a]) @ c # q) (length (p @ [a])) = sift key (p @ a # (a # q)) (length p)"
      using True by (simp add: nth_append list_update_append)
    moreover obtain r where r: "sift key (p @ a # (a # q)) (length p) = r @ a # q" "mset r = mset (key # p)" "sorted (map cand_key p) \<longrightarrow> sorted (map cand_key r)"
      using snoc.IH [of a "a # q"] by auto
    moreover have "sorted (map cand_key (r @ [a]))" if "sorted (map cand_key (p @ [a]))"
    proof -
      have "set r = insert key (set p)" using r(2) by (metis list.set(2) set_mset_mset)
      moreover have "cand_key key \<le> cand_key a" using True by (simp add: ranks_after_key)
      ultimately show ?thesis using that r(3) by (auto simp: sorted_append)
    qed
    ultimately show ?thesis by (intro exI [of _ "r @ [a]"]) auto
  next
    case False
    have "sift key ((p @ [a]) @ c # q) (length (p @ [a])) = (p @ [a, key]) @ q" using False by (simp add: nth_append list_update_append)
    moreover have "sorted (map cand_key (p @ [a, key]))" if "sorted (map cand_key (p @ [a]))"
    proof -
      have "cand_key a \<le> cand_key key" using False by (simp add: ranks_after_key not_less)
      then show ?thesis using that by (auto simp: sorted_append intro: order_trans)
    qed
    ultimately show ?thesis by (intro exI [of _ "p @ [a, key]"]) auto
  qed
qed simp

lemma sort_cands_spec: "mset (sort_cands cs) = mset cs \<and> sorted (map cand_key (sort_cands cs))"
proof -
  let ?run = "\<lambda>n. foldl (\<lambda>out i. sift (out ! i) out i) cs [1..<n]"
  have "mset (?run n) = mset cs \<and> length (?run n) = length cs \<and> sorted (map cand_key (take n (?run n)))" if "1 \<le> n" "n \<le> length cs" for n
    using that
  proof (induction n)
    case (Suc n)
    show ?case
    proof (cases "n = 0")
      case True
      then show ?thesis using Suc.prems by (cases cs) auto
    next
      case False
      define out where "out = ?run n"
      have ih: "mset out = mset cs" "length out = length cs" "sorted (map cand_key (take n out))" using Suc False unfolding out_def by auto
      have split: "out = take n out @ out ! n # drop (Suc n) out" "length (take n out) = n" using Suc.prems(2) ih(2) by (simp_all add: id_take_nth_drop [symmetric])
      obtain r where r: "sift (out ! n) out n = r @ drop (Suc n) out" "mset r = mset (out ! n # take n out)" "sorted (map cand_key r)"
        using sift_spec [of "out ! n" "take n out" "out ! n" "drop (Suc n) out"] split ih(3) by auto
      have l: "length r = Suc n" using r(2) split(2) by (metis length_Cons mset_eq_length)
      have "?run (Suc n) = sift (out ! n) out n" using False by (simp add: out_def)
      moreover have "mset (r @ drop (Suc n) out) = mset out" using r(2) arg_cong [OF split(1), of mset] by simp
      ultimately show ?thesis using r(1,3) l ih by (metis append_eq_conv_conj mset_eq_length)
    qed
  qed simp
  from this [of "length cs"] show ?thesis by (cases "cs = []") (auto simp: sort_cands_def Suc_le_eq)
qed

text \<open>What the table should hold: for an address, the items that count for it, their total and their number, and the extent and names that the first of them gave.\<close>

type_synonym symbol = "u64 \<times> u64 \<times> string option \<times> string option"

definition counts_for :: "('e \<Rightarrow> symbol option) \<Rightarrow> u64 \<Rightarrow> 'e list \<Rightarrow> 'e list" where
  "counts_for f a es = filter (\<lambda>e. map_option fst (f e) = Some a) es"

definition cand_of :: "('e \<Rightarrow> symbol option) \<Rightarrow> ('e \<Rightarrow> u64) \<Rightarrow> 'e list \<Rightarrow> u64 \<Rightarrow> autocand" where
  "cand_of f cnt es a =
     (case the (f (hd (counts_for f a es))) of (_, sz, name, module) \<Rightarrow>
        \<lparr>ac_addr = a, ac_size = sz, ac_name = name, ac_module = module, ac_arrivals = sum_list (map cnt (counts_for f a es)),
         ac_sites = of_nat (length (counts_for f a es)), ac_first_us = 0\<rparr>)"

definition first_seen :: "'a list \<Rightarrow> 'a list" where
  "first_seen xs = rev (remdups (rev xs))"

abbreviation targets :: "('e \<Rightarrow> symbol option) \<Rightarrow> 'e list \<Rightarrow> u64 list" where
  "targets f es \<equiv> List.map_filter (\<lambda>e. map_option fst (f e)) es"

abbreviation no_us :: "autocand \<Rightarrow> autocand" where
  "no_us c \<equiv> c\<lparr>ac_first_us := 0\<rparr>"

lemma first_seen_simps [simp]:
  "first_seen [] = []" "first_seen (xs @ [x]) = (if x \<in> set xs then first_seen xs else first_seen xs @ [x])"
  "set (first_seen xs) = set xs" "distinct (first_seen xs)"
  by (simp_all add: first_seen_def)

lemma find_cand_spec:
  "find_cand a cs \<le> length cs" "find_cand a cs < length cs \<longleftrightarrow> a \<in> ac_addr ` set cs" "find_cand a cs < length cs \<Longrightarrow> ac_addr (cs ! find_cand a cs) = a"
  by (induction cs) auto

lemma cand_of_simps:
  "ac_addr (cand_of f cnt es a) = a"
  "map_option fst (f e) \<noteq> Some a \<Longrightarrow> cand_of f cnt (es @ [e]) a = cand_of f cnt es a"
  "counts_for f a es \<noteq> [] \<Longrightarrow> map_option fst (f e) = Some a \<Longrightarrow> cand_of f cnt (es @ [e]) a =
     (cand_of f cnt es a)\<lparr>ac_arrivals := ac_arrivals (cand_of f cnt es a) + cnt e, ac_sites := ac_sites (cand_of f cnt es a) + 1\<rparr>"
  "counts_for f a es = [] \<Longrightarrow> f e = Some (a, sz, name, module) \<Longrightarrow> cand_of f cnt (es @ [e]) a =
     \<lparr>ac_addr = a, ac_size = sz, ac_name = name, ac_module = module, ac_arrivals = cnt e, ac_sites = 1, ac_first_us = 0\<rparr>"
  by (auto simp: cand_of_def counts_for_def add.commute split: prod.split)

lemma counts_for_empty: "counts_for f a es = [] \<longleftrightarrow> a \<notin> set (targets f es)"
  by (induction es) (auto simp: counts_for_def List.map_filter_def)

lemma targets_snoc: "targets f (es @ [e]) = targets f es @ (case f e of None \<Rightarrow> [] | Some s \<Rightarrow> [fst s])"
  by (simp add: List.map_filter_def split: option.split)

text \<open>One more item for a candidate of the table, and for one that is not in it.\<close>

lemma fold_cand_known:
  assumes "map no_us out = map (cand_of f cnt es) zs" "distinct zs" "f e = Some (a, sz, name, module)" "a \<in> set zs" "counts_for f a es \<noteq> []"
  shows "map no_us (fold_cand out0 cap (f e) (cnt e) out) = map (cand_of f cnt (es @ [e])) zs"
proof -
  let ?j = "find_cand a out"
  have l: "length out = length zs" using arg_cong [OF assms(1), of length] by simp
  have nz: "no_us (out ! i) = cand_of f cnt es (zs ! i)" if "i < length out" for i
    using that arg_cong [OF assms(1), of "\<lambda>xs. xs ! i"] l by simp
  have at: "ac_addr (out ! i) = zs ! i" if "i < length out" for i
    using arg_cong [OF nz [OF that], of ac_addr] by (simp add: cand_of_simps(1))
  have "zs = map ac_addr out" using l at by (intro nth_equalityI) simp_all
  then have j: "?j < length out" "ac_addr (out ! ?j) = a" using assms(4) find_cand_spec(2,3) [of a out] by auto
  have e: "fold_cand out0 cap (f e) (cnt e) out = out[?j := (out ! ?j)\<lparr>ac_arrivals := ac_arrivals (out ! ?j) + cnt e, ac_sites := ac_sites (out ! ?j) + 1\<rparr>]"
    using j(1) by (simp add: fold_cand_def assms(3) Let_def)
  show ?thesis
  proof (rule nth_equalityI)
    fix i assume "i < length (map no_us (fold_cand out0 cap (f e) (cnt e) out))"
    then have i: "i < length out" by (simp add: e)
    show "map no_us (fold_cand out0 cap (f e) (cnt e) out) ! i = map (cand_of f cnt (es @ [e])) zs ! i"
    proof (cases "i = ?j")
      case False
      then have "zs ! i \<noteq> a" using assms(2) i j l at by (metis nth_eq_iff_index_eq)
      then have "cand_of f cnt (es @ [e]) (zs ! i) = cand_of f cnt es (zs ! i)" by (intro cand_of_simps(2)) (simp add: assms(3))
      then show ?thesis using False i l nz [OF i] by (simp add: e)
    next
      case True
      have "cand_of f cnt (es @ [e]) a = (cand_of f cnt es a)\<lparr>ac_arrivals := ac_arrivals (cand_of f cnt es a) + cnt e, ac_sites := ac_sites (cand_of f cnt es a) + 1\<rparr>"
        by (intro cand_of_simps(3)) (simp_all add: assms(3,5))
      moreover have "cand_of f cnt es a = no_us (out ! ?j)" using nz [OF j(1)] j at by simp
      ultimately show ?thesis using True j l at [OF j(1)] by (simp add: e)
    qed
  qed (simp add: e l)
qed

lemma fold_cand_new:
  assumes "map no_us out = map (cand_of f cnt es) zs" "f e = Some (a, sz, name, module)" "a \<notin> set zs"
  shows "length out = cap \<Longrightarrow> map no_us (fold_cand out0 cap (f e) (cnt e) out) = map (cand_of f cnt (es @ [e])) zs"
    "length out \<noteq> cap \<Longrightarrow> counts_for f a es = [] \<Longrightarrow> map no_us (fold_cand out0 cap (f e) (cnt e) out) = map (cand_of f cnt (es @ [e])) (zs @ [a])"
proof -
  have "map ac_addr out = zs"
    using arg_cong [OF assms(1), of "map ac_addr"] by (simp add: comp_def cand_of_simps(1))
  then have j: "\<not> find_cand a out < length out" using assms(3) find_cand_spec(2) [of a out] by auto
  have o: "map (cand_of f cnt (es @ [e])) zs = map (cand_of f cnt es) zs"
    using assms(3) by (intro map_cong refl cand_of_simps(2)) (auto simp: assms(2))
  show "map no_us (fold_cand out0 cap (f e) (cnt e) out) = map (cand_of f cnt (es @ [e])) zs" if "length out = cap"
    using that j o assms(1) by (simp add: fold_cand_def assms(2) Let_def)
  show "map no_us (fold_cand out0 cap (f e) (cnt e) out) = map (cand_of f cnt (es @ [e])) (zs @ [a])" if "length out \<noteq> cap" "counts_for f a es = []"
    using that(1) j o assms(1) cand_of_simps(4) [OF that(2) assms(2), of cnt] by (simp add: fold_cand_def assms(2) Let_def)
qed

lemma fold_cands_exact:
  "map no_us (foldl (\<lambda>out e. fold_cand out0 cap (f e) (cnt e) out) [] es) = map (cand_of f cnt es) (take cap (first_seen (targets f es)))"
proof (induction es rule: rev_induct)
  case (snoc e es)
  let ?F = "first_seen (targets f es)"
  define out where "out = foldl (\<lambda>out e. fold_cand out0 cap (f e) (cnt e) out) [] es"
  have ih: "map no_us out = map (cand_of f cnt es) (take cap ?F)" using snoc unfolding out_def .
  have len: "length out = min (length ?F) cap" using arg_cong [OF ih, of length] by simp
  have step: "foldl (\<lambda>out e. fold_cand out0 cap (f e) (cnt e) out) [] (es @ [e]) = fold_cand out0 cap (f e) (cnt e) out" by (simp add: out_def)
  show ?case
  proof (cases "f e")
    case None
    then have "cand_of f cnt (es @ [e]) a = cand_of f cnt es a" for a by (intro cand_of_simps(2)) simp
    then show ?thesis unfolding step using ih None by (simp add: fold_cand_def targets_snoc cong: map_cong)
  next
    case (Some y)
    obtain a sz name module where fe: "f e = Some (a, sz, name, module)" using Some by (cases y) auto
    consider "a \<in> set (take cap ?F)" | "a \<notin> set (take cap ?F)" "length out = cap" | "a \<notin> set (take cap ?F)" "length out \<noteq> cap" by blast
    then show ?thesis
    proof cases
      case 1
      then have "a \<in> set (targets f es)" using in_set_takeD [OF 1] by simp
      then show ?thesis unfolding step using fold_cand_known [OF ih _ fe 1, of out0 cap] by (simp add: counts_for_empty targets_snoc fe)
    next
      case 2
      then have "take cap (first_seen (targets f (es @ [e]))) = take cap ?F" using len by (auto simp: targets_snoc fe)
      then show ?thesis unfolding step using fold_cand_new(1) [OF ih fe 2, of out0] by simp
    next
      case 3
      then have F: "take cap ?F = ?F" "length ?F < cap" using len by auto
      then have "a \<notin> set (targets f es)" using 3(1) by simp
      then show ?thesis unfolding step using fold_cand_new(2) [OF ih fe 3, of out0] F by (simp add: counts_for_empty targets_snoc fe)
    qed
  qed
qed simp

lemma cand_key_no_us [simp]: "cand_key (no_us c) = cand_key c"
  by (simp add: cand_key_def)

lemma sort_cands_no_us:
  assumes "map no_us cs = map (cand_of f cnt es) zs" "distinct zs"
  shows "map no_us (sort_cands cs) = sort_key cand_key (map (cand_of f cnt es) zs)"
proof -
  have "inj_on cand_key (set (map (cand_of f cnt es) zs))"
    by (rule inj_onI) (auto simp: cand_key_def cand_of_simps(1) simp flip: word_unat_eq_iff)
  moreover have "mset (map (cand_of f cnt es) zs) = mset (map no_us (sort_cands cs))"
    unfolding mset_map using arg_cong [OF assms(1), of mset] sort_cands_spec [of cs] by simp
  moreover have "sorted (map cand_key (map no_us (sort_cands cs)))" using sort_cands_spec [of cs] by (simp add: comp_def)
  ultimately show ?thesis using sort_key_inj_key_eq by (metis (no_types, lifting))
qed

lemma rank_any:
  "map no_us (sort_cands (foldl (\<lambda>out e. fold_cand out0 cap (f e) (cnt e) out) [] es)) =
   sort_key cand_key (map (cand_of f cnt es) (take cap (first_seen (targets f es))))"
  by (rule sort_cands_no_us [OF fold_cands_exact]) simp

text \<open>The total weight of the candidate that comes first is greatest.\<close>

lemma head_greatest:
  assumes "map no_us cs = sort_key cand_key (map (cand_of f cnt es) zs)" "a \<in> set zs"
  shows "cs \<noteq> []" "ac_arrivals (hd cs) \<ge> sum_list (map cnt (counts_for f a es))"
proof -
  have c: "cand_of f cnt es a \<in> set (map no_us cs)" unfolding assms(1) using assms(2) by simp
  then show ne: "cs \<noteq> []" by auto
  have "sorted (map cand_key (map no_us cs))" unfolding assms(1) by simp
  then have "cand_key (no_us (hd cs)) \<le> cand_key (cand_of f cnt es a)"
    using c ne by (cases cs) auto
  moreover have "unat (ac_arrivals (hd cs)) < 2 ^ 64" "unat (sum_list (map cnt (counts_for f a es))) < 2 ^ 64"
    using unsigned_less [of "ac_arrivals (hd cs)"] unsigned_less [of "sum_list (map cnt (counts_for f a es))"] by simp_all
  moreover have "ac_arrivals (cand_of f cnt es a) = sum_list (map cnt (counts_for f a es))" by (simp add: cand_of_def split: prod.split)
  ultimately show "ac_arrivals (hd cs) \<ge> sum_list (map cnt (counts_for f a es))"
    by (auto simp: cand_key_def less_eq_prod_def word_le_nat_alt)
qed

lemma targets_length: "length (targets f es) \<le> length es"
  by (simp add: List.map_filter_def)

lemma first_seen_length: "length (first_seen xs) \<le> length xs"
  by (simp add: first_seen_def) (metis length_remdups_leq length_rev)

text \<open>
  What the comment of the ranking asks of an edge that counts for the function at \<open>a\<close>: it is not a return, it goes to \<open>a\<close>, the symbol at \<open>a\<close> starts there and has a size, and the pattern, if there is one, occurs in the name of its module.
\<close>

definition in_module :: "string option \<Rightarrow> string option \<Rightarrow> bool" where
  "in_module module filt \<longleftrightarrow> (\<forall>pat. filt = Some pat \<and> pat \<noteq> [] \<longrightarrow> (\<exists>pre post. module = Some (pre @ pat @ post)))"

definition entry_arrival :: "resolver \<Rightarrow> string option \<Rightarrow> u64 \<Rightarrow> sample_edge \<Rightarrow> bool" where
  "entry_arrival resolve filt a e \<longleftrightarrow> se_is_return e = 0 \<and> se_to e = a \<and>
     (\<exists>sz name module. resolve a = Some (a, sz, name, module) \<and> sz \<noteq> 0 \<and> in_module module filt)"

definition entered_fns :: "resolver \<Rightarrow> string option \<Rightarrow> sample_edge list \<Rightarrow> u64 list" where
  "entered_fns resolve filt edges = first_seen (map se_to (filter (\<lambda>e. entry_arrival resolve filt (se_to e) e) edges))"

definition entry_cand :: "resolver \<Rightarrow> string option \<Rightarrow> sample_edge list \<Rightarrow> u64 \<Rightarrow> autocand" where
  "entry_cand resolve filt edges a =
     (case the (resolve a) of (_, sz, name, module) \<Rightarrow>
        \<lparr>ac_addr = a, ac_size = sz, ac_name = name, ac_module = module, ac_arrivals = sum_list (map se_count (filter (entry_arrival resolve filt a) edges)),
         ac_sites = of_nat (length (filter (entry_arrival resolve filt a) edges)), ac_first_us = 0\<rparr>)"

lemma match_in_module: "asmspy_ar_match module filt \<longleftrightarrow> in_module module filt"
  by (cases filt; cases module) (auto simp: asmspy_ar_match_def in_module_def sublist_def)

lemma entry_of_iff:
  "entry_of resolve filt e = Some (a, sz, name, module) \<longleftrightarrow>
     se_is_return e = 0 \<and> se_to e = a \<and> resolve a = Some (a, sz, name, module) \<and> sz \<noteq> 0 \<and> in_module module filt"
  by (auto simp: entry_of_def match_in_module split: option.splits prod.splits)

lemma entry_of_arrival: "map_option fst (entry_of resolve filt e) = Some a \<longleftrightarrow> entry_arrival resolve filt a e"
proof
  assume "map_option fst (entry_of resolve filt e) = Some a"
  then obtain sz name module where "entry_of resolve filt e = Some (a, sz, name, module)" by auto
  then show "entry_arrival resolve filt a e" unfolding entry_of_iff entry_arrival_def by blast
next
  assume "entry_arrival resolve filt a e"
  then obtain sz name module where "entry_of resolve filt e = Some (a, sz, name, module)" unfolding entry_of_iff entry_arrival_def by blast
  then show "map_option fst (entry_of resolve filt e) = Some a" by simp
qed

lemma counts_arrivals: "counts_for (entry_of resolve filt) a edges = filter (entry_arrival resolve filt a) edges"
  unfolding counts_for_def entry_of_arrival ..

lemma targets_entered: "first_seen (targets (entry_of resolve filt) edges) = entered_fns resolve filt edges"
proof -
  have "map_option fst (entry_of resolve filt e) = (if entry_arrival resolve filt (se_to e) e then Some (se_to e) else None)" for e
  proof (cases "map_option fst (entry_of resolve filt e)")
    case (Some a)
    then have "entry_arrival resolve filt a e" unfolding entry_of_arrival .
    then show ?thesis using Some by (simp add: entry_arrival_def)
  next
    case None
    then show ?thesis using entry_of_arrival [of resolve filt e "se_to e"] by simp
  qed
  then have "targets (entry_of resolve filt) edges = map se_to (filter (\<lambda>e. entry_arrival resolve filt (se_to e) e) edges)"
    by (induction edges) (simp_all add: List.map_filter_def)
  then show ?thesis by (simp add: entered_fns_def)
qed

lemma cand_of_entry:
  assumes "a \<in> set (entered_fns resolve filt edges)"
  shows "cand_of (entry_of resolve filt) se_count edges a = entry_cand resolve filt edges a"
proof -
  let ?f = "entry_of resolve filt" let ?e = "hd (counts_for ?f a edges)"
  have "counts_for ?f a edges \<noteq> []" using assms by (auto simp: counts_for_empty targets_entered [symmetric])
  then have "?e \<in> set (filter (entry_arrival resolve filt a) edges)" unfolding counts_arrivals by (rule hd_in_set)
  then have "map_option fst (?f ?e) = Some a" unfolding entry_of_arrival by simp
  then obtain sz name module where "?f ?e = Some (a, sz, name, module)" by auto
  moreover from this have "resolve a = Some (a, sz, name, module)" by (simp add: entry_of_iff)
  ultimately show ?thesis unfolding cand_of_def entry_cand_def counts_arrivals by simp
qed

text \<open>
  C33: The ranking counts arrivals at entries, exactly. An edge counts for a function when it is not a return, goes to the address at which the resolver says the function's symbol starts, the symbol has a size, and the pattern of the module filter, if one is
  given and not empty, occurs in the name of the symbol's module. The candidates are the functions some edge counts for, one for each, with the resolver's size, name and module, whose weight is the sum of
  those edges' counts (in 64 bits) over all call sites and whose sites are their number; sorted by descending weight and then by address, whatever the order of the sample. A table smaller than the sample keeps the functions seen
  first. With a table as large as the sample none is missing and none outweighs the first.
\<close>

theorem autoregion_rank_exact:
  "map no_us (asmspy_autoregion_rank resolve filt out0 cap edges) =
     sort_key cand_key (map (entry_cand resolve filt edges) (take cap (entered_fns resolve filt edges))) \<and>
   (length edges \<le> cap \<longrightarrow> (\<forall>a\<in>set (entered_fns resolve filt edges).
      asmspy_autoregion_rank resolve filt out0 cap edges \<noteq> [] \<and>
      ac_arrivals (hd (asmspy_autoregion_rank resolve filt out0 cap edges)) \<ge> sum_list (map se_count (filter (entry_arrival resolve filt a) edges))))"
proof -
  let ?f = "entry_of resolve filt" let ?F = "entered_fns resolve filt edges"
  have e: "map no_us (asmspy_autoregion_rank resolve filt out0 cap edges) = sort_key cand_key (map (cand_of ?f se_count edges) (take cap ?F))"
    using rank_any [of out0 cap ?f se_count edges] by (simp add: asmspy_autoregion_rank_def targets_entered)
  have m: "map (cand_of ?f se_count edges) (take cap ?F) = map (entry_cand resolve filt edges) (take cap ?F)"
    by (rule map_cong [OF refl cand_of_entry]) (auto dest: in_set_takeD)
  have "take cap ?F = ?F" if "length edges \<le> cap"
    using that first_seen_length [of "targets ?f edges"] targets_length [of ?f edges] by (simp add: targets_entered)
  with head_greatest [OF e] show ?thesis unfolding counts_arrivals e m by simp
qed

text \<open>The same fold ranks residency, with the symbols that contain the sampled addresses.\<close>

lemma autoregion_rank_ip_exact:
  "map no_us (asmspy_autoregion_rank_ip resolve filt out0 cap hits) =
     sort_key cand_key (map (cand_of (resident_of resolve filt) ih_count hits) (take cap (first_seen (targets (resident_of resolve filt) hits))))"
  using rank_any [of out0 cap "resident_of resolve filt" ih_count hits] by (simp add: asmspy_autoregion_rank_ip_def)

text \<open>The ranking does not write the latency field, which keeps what the array held.\<close>

lemma first_us_kept:
  "asmspy_autoregion_rank (\<lambda>a. Some (a, 16, None, None)) None (\<lambda>_. c) 1 [\<lparr>se_from = 1, se_to = 2, se_count = 3, se_mispred = 0, se_is_return = 0\<rparr>] =
     [c\<lparr>ac_addr := 2, ac_size := 16, ac_name := None, ac_module := None, ac_arrivals := 3, ac_sites := 1\<rparr>]"
  by (simp add: asmspy_autoregion_rank_def fold_cand_def entry_of_def asmspy_ar_match_def sort_cands_def)

lemma ar_match_is_tf_match: "asmspy_ar_match = asmspy_tf_match"
  by (simp add: fun_eq_iff asmspy_ar_match_def asmspy_tf_match_def no_pattern_def)

section \<open>The searches end\<close>

definition window_answer :: "(sampler \<Rightarrow> nat \<Rightarrow> int) \<Rightarrow> sampler \<Rightarrow> int" where
  "window_answer pick smp = (case find (\<lambda>k. pick smp k \<noteq> 0) [0, 1, 2] of Some k \<Rightarrow> pick smp k | None \<Rightarrow> 0)"

definition sampler_order :: "bool \<Rightarrow> sampler list" where
  "sampler_order ibs = (if ibs then [SMP_IBS, SMP_SW, SMP_PTRACE] else [SMP_SW, SMP_PTRACE])"

lemma window_loop_answer: "fst (window_loop pick smp 0) = window_answer pick smp \<and> snd (window_loop pick smp 0) < 3"
proof -
  have u: "window_loop pick smp k = (if pick smp k \<noteq> 0 \<or> 2 \<le> k then (pick smp k, k) else window_loop pick smp (k + 1))" for k
    by (subst window_loop.simps) (auto simp: asmspy_autoregion_walk_def AUTO_WINDOW_TRIES_def)
  show ?thesis using u [of 0] u [of 1] u [of 2] by (auto simp: window_answer_def numeral_2_eq_2)
qed

text \<open>The outcome of a chain: the first sampler that does not refuse, or the last one's refusal.\<close>

fun chain_outcome :: "(sampler \<Rightarrow> int) \<Rightarrow> sampler list \<Rightarrow> int \<times> sampler list" where
  "chain_outcome ans [s] = (ans s, [s])"
| "chain_outcome ans (s # ss) = (if ans s \<ge> 0 then (ans s, [s]) else case chain_outcome ans ss of (n, tried) \<Rightarrow> (n, s # tried))"
| "chain_outcome ans [] = (0, [])"

lemma chain_loop_outcome:
  "chain_loop pick True ibs SMP_PTRACE = chain_outcome (window_answer pick) [SMP_PTRACE]"
  "chain_loop pick True ibs SMP_SW = chain_outcome (window_answer pick) [SMP_SW, SMP_PTRACE]"
  "chain_loop pick True ibs SMP_IBS = chain_outcome (window_answer pick) [SMP_IBS, SMP_SW, SMP_PTRACE]"
proof -
  note d = window_loop_answer asmspy_autoregion_chain_advance_def asmspy_autoregion_sampler_next_def Let_def
  show p: "chain_loop pick True ibs SMP_PTRACE = chain_outcome (window_answer pick) [SMP_PTRACE]"
    by (subst chain_loop.simps) (simp add: d)
  show w: "chain_loop pick True ibs SMP_SW = chain_outcome (window_answer pick) [SMP_SW, SMP_PTRACE]"
    by (subst chain_loop.simps) (simp add: d p)
  show "chain_loop pick True ibs SMP_IBS = chain_outcome (window_answer pick) [SMP_IBS, SMP_SW, SMP_PTRACE]"
    by (subst chain_loop.simps) (simp add: d w)
qed

lemma capture_loop_from:
  "capture_loop capture ncand k =
     (let i = (case find (\<lambda>i. capture i \<noteq> ASMSPY_REGION_NEVER_RAN) [k..<ncand] of Some i \<Rightarrow> i | None \<Rightarrow> max k (ncand - 1)) in (capture i, i))"
proof (induction "ncand - k" arbitrary: k)
  case 0
  then show ?case by (subst capture_loop.simps) (simp add: asmspy_autoregion_walk_def)
next
  case (Suc m)
  then have k: "k < ncand" "[k..<ncand] = k # [Suc k..<ncand]" by (simp_all add: upt_conv_Cons)
  have ih: "capture_loop capture ncand (Suc k) =
     (let i = (case find (\<lambda>i. capture i \<noteq> ASMSPY_REGION_NEVER_RAN) [Suc k..<ncand] of Some i \<Rightarrow> i | None \<Rightarrow> max (Suc k) (ncand - 1)) in (capture i, i))"
    using Suc by simp
  show ?case
  proof (cases "capture k = ASMSPY_REGION_NEVER_RAN \<and> Suc k < ncand")
    case True
    then have "Suc k \<le> ncand - 1" by linarith
    then have m: "max (Suc k) (ncand - 1) = max k (ncand - 1)" by (simp add: max_def)
    show ?thesis using True ih [unfolded m] k by (subst capture_loop.simps) (simp add: asmspy_autoregion_walk_def)
  next
    case False
    then show ?thesis using k by (subst capture_loop.simps) (auto simp: asmspy_autoregion_walk_def)
  qed
qed

text \<open>
  C34: The search for a region ends, and why. Each sampler is asked for at most three windows, until one answers other than with nothing. Without a forced sampler the chain goes from the strongest sampler the host has to the weakest, each at most
  once, and stops at the first that does not refuse; an empty answer is final, and only a refusal moves it on. A forced sampler is the only one asked. The captures then go through the candidates in their order until one is
  seen entering, at most once each, and otherwise end at the last.
\<close>

theorem auto_search_ends:
  "auto_region pick SAMPLER_AUTO ibs = chain_outcome (window_answer pick) (sampler_order ibs) \<and>
   auto_region pick SAMPLER_IBS ibs = (window_answer pick SMP_IBS, [SMP_IBS]) \<and> auto_region pick SAMPLER_SW ibs = (window_answer pick SMP_SW, [SMP_SW]) \<and>
   auto_region pick SAMPLER_PTRACE ibs = (window_answer pick SMP_PTRACE, [SMP_PTRACE]) \<and> snd (window_loop pick smp 0) < 3 \<and>
   capture_loop capture ncand 0 =
     (let i = (case find (\<lambda>i. capture i \<noteq> ASMSPY_REGION_NEVER_RAN) [0..<ncand] of Some i \<Rightarrow> i | None \<Rightarrow> ncand - 1) in (capture i, i))"
proof -
  have forced: "chain_loop pick False ibs s = (window_answer pick s, [s])" for s
    by (subst chain_loop.simps) (simp add: window_loop_answer asmspy_autoregion_chain_advance_def Let_def)
  have "capture_loop capture ncand 0 =
     (let i = (case find (\<lambda>i. capture i \<noteq> ASMSPY_REGION_NEVER_RAN) [0..<ncand] of Some i \<Rightarrow> i | None \<Rightarrow> ncand - 1) in (capture i, i))"
    using capture_loop_from [of capture ncand 0] unfolding max_0L .
  then show ?thesis
    by (simp add: auto_region_def forced asmspy_autoregion_sampler_next_def chain_loop_outcome sampler_order_def window_loop_answer)
qed

theorem autoregion_rank_exact_witness:
  "map ac_addr (asmspy_autoregion_rank (\<lambda>a. if a < 32 then Some (a div 16 * 16, 16, None, None) else None) None (\<lambda>_. undefined) 4
     [\<lparr>se_from = 1, se_to = 0, se_count = 3, se_mispred = 0, se_is_return = 0\<rparr>, \<lparr>se_from = 2, se_to = 16, se_count = 2, se_mispred = 0, se_is_return = 0\<rparr>,
      \<lparr>se_from = 3, se_to = 20, se_count = 90, se_mispred = 0, se_is_return = 0\<rparr>, \<lparr>se_from = 4, se_to = 16, se_count = 2, se_mispred = 0, se_is_return = 0\<rparr>]) = [16, 0]"
proof -
  let ?res = "(\<lambda>a. if a < 32 then Some (a div 16 * 16, 16, None, None) else None) :: resolver"
  let ?es = "[\<lparr>se_from = 1, se_to = 0, se_count = 3, se_mispred = 0, se_is_return = 0\<rparr>, \<lparr>se_from = 2, se_to = 16, se_count = 2, se_mispred = 0, se_is_return = 0\<rparr>,
      \<lparr>se_from = 3, se_to = 20, se_count = 90, se_mispred = 0, se_is_return = 0\<rparr>, \<lparr>se_from = 4, se_to = 16, se_count = 2, se_mispred = 0, se_is_return = 0\<rparr>] :: sample_edge list"
  let ?c = "entry_cand ?res None ?es"
  have t: "entered_fns ?res None ?es = [0, 16]" by (simp add: entered_fns_def entry_arrival_def in_module_def first_seen_def)
  have "map no_us (asmspy_autoregion_rank ?res None (\<lambda>_. undefined) 4 ?es) = sort_key cand_key (map ?c (take 4 (entered_fns ?res None ?es)))"
    using autoregion_rank_exact [of ?res None "\<lambda>_. undefined" 4 ?es] by blast
  also have "\<dots> = sort_key cand_key [?c 0, ?c 16]" unfolding t by simp
  also have "\<dots> = [?c 16, ?c 0]"
    by (simp add: entry_cand_def entry_arrival_def in_module_def cand_key_def)
  finally have "map ac_addr (map no_us (asmspy_autoregion_rank ?res None (\<lambda>_. undefined) 4 ?es)) = [16, 0]" by (simp add: entry_cand_def)
  then show ?thesis by (simp add: comp_def)
qed

end
