(* ===== verification/Difftest.thy ===== *)
theory Difftest
  imports Prelude "HOL-Library.Signed_Division"
begin

text \<open>
  The numeric side of the test runner, \<^verbatim>\<open>src/src/asmtest.c\<close>: the seeded generator, the distance of floating-point
  numbers in units in the last place, and differential testing against a reference with shrinking of a failing input.
  A \<^verbatim>\<open>uint64_t\<close>, a \<^verbatim>\<open>long\<close> of the generator and the bit pattern of a \<^verbatim>\<open>double\<close> are 64-bit words, read with \<^const>\<open>sint\<close> where the code
  compares them as signed; in differential testing, which only compares, copies and halves, a \<^verbatim>\<open>long\<close> is the integer it stands for.
\<close>

section \<open>The generator\<close>

text \<open>The result and the new state.\<close>

definition asmtest_rng_u64 :: "u64 \<Rightarrow> u64 \<times> u64" where
  "asmtest_rng_u64 s =
     (let s1 = s + 0x9E3779B97F4A7C15;
          z1 = (s1 XOR drop_bit 30 s1) * 0xBF58476D1CE4E5B9;
          z2 = (z1 XOR drop_bit 27 z1) * 0x94D049BB133111EB
      in (z2 XOR drop_bit 31 z2, s1))"

definition asmtest_rng_long :: "u64 \<Rightarrow> u64 \<times> u64" where
  "asmtest_rng_long s = asmtest_rng_u64 s"

definition asmtest_rng_range :: "u64 \<Rightarrow> u64 \<Rightarrow> u64 \<Rightarrow> u64 \<times> u64" where
  "asmtest_rng_range s lo hi =
     (if sint hi \<le> sint lo then (lo, s)
      else let span = hi - lo + 1 in
        case asmtest_rng_u64 s of (z, s1) \<Rightarrow>
          if span = 0 then (z, s1) else (lo + z mod span, s1))"

text \<open>The draws of a run, in order.\<close>

fun rng_draws :: "nat \<Rightarrow> u64 \<Rightarrow> u64 list" where
  "rng_draws 0 s = []"
| "rng_draws (Suc n) s = (case asmtest_rng_u64 s of (z, s1) \<Rightarrow> z # rng_draws n s1)"

section \<open>Mixing loses nothing\<close>

definition mix :: "u64 \<Rightarrow> u64" where
  "mix s = (let z1 = (s XOR drop_bit 30 s) * 0xBF58476D1CE4E5B9; z2 = (z1 XOR drop_bit 27 z1) * 0x94D049BB133111EB
            in z2 XOR drop_bit 31 z2)"

lemma rng_u64_mix: "asmtest_rng_u64 s = (mix (s + 0x9E3779B97F4A7C15), s + 0x9E3779B97F4A7C15)"
  by (simp add: asmtest_rng_u64_def mix_def Let_def)

text \<open>A shifted exclusive or is undone by the same shift repeated until it leaves the word.\<close>

lemma xorshift_undo:
  fixes z :: u64
  assumes "64 \<le> 3 * k" "y = z XOR drop_bit k z"
  shows "y XOR drop_bit k y XOR drop_bit (2 * k) y = z"
proof (rule bit_word_eqI)
  fix n :: nat
  assume "n < LENGTH(64)"
  then have "\<not> bit z (n + 3 * k)" using assms(1) by (auto dest: bit_imp_le_length)
  then show "bit (y XOR drop_bit k y XOR drop_bit (2 * k) y) n \<longleftrightarrow> bit z n"
    unfolding assms(2) by (auto simp: bit_simps mult_2 mult_2_right ac_simps numeral_eq_Suc)
qed

lemma inj_xorshift: "64 \<le> 3 * k \<Longrightarrow> inj (\<lambda>z :: u64. z XOR drop_bit k z)"
  by (rule injI) (metis xorshift_undo)

lemma inj_times: "c * d = 1 \<Longrightarrow> inj (\<lambda>z :: u64. z * c)"
proof (rule injI)
  fix x y :: u64
  assume "c * d = 1" "x * c = y * c"
  then have "x * (c * d) = y * (c * d)" by (metis mult.assoc)
  then show "x = y" using \<open>c * d = 1\<close> by simp
qed

lemma inj_mix: "inj mix"
proof -
  have m: "mix = (\<lambda>z. z XOR drop_bit 31 z) \<circ> (\<lambda>z. z * 0x94D049BB133111EB) \<circ> (\<lambda>z. z XOR drop_bit 27 z) \<circ>
      (\<lambda>z. z * 0xBF58476D1CE4E5B9) \<circ> (\<lambda>z. z XOR drop_bit 30 z)"
    by (simp add: mix_def fun_eq_iff Let_def)
  have a: "inj (\<lambda>z :: u64. z * 0x94D049BB133111EB)" by (rule inj_times [of _ "0x319642B2D24D8EC3"]) simp
  have b: "inj (\<lambda>z :: u64. z * 0xBF58476D1CE4E5B9)" by (rule inj_times [of _ "0x96DE1B173F119089"]) simp
  show ?thesis unfolding m by (intro inj_compose inj_xorshift a b) simp_all
qed

lemma bij_mix: "bij mix"
  using inj_mix by (simp add: bij_betw_def finite_UNIV_inj_surj)

lemma rng_draws_map: "rng_draws n s = map (\<lambda>k. mix (s + of_nat (Suc k) * 0x9E3779B97F4A7C15)) [0..<n]"
proof (induction n arbitrary: s)
  case (Suc n)
  have "[0..<Suc n] = 0 # map Suc [0..<n]" by (simp add: upt_conv_Cons map_Suc_upt del: upt_Suc)
  then show ?case by (simp add: rng_u64_mix Suc.IH algebra_simps comp_def)
qed simp

text \<open>
  The generator does not repeat itself: from any seed, the first \<open>n\<close> draws are pairwise different, for every \<open>n\<close> up to \<open>2 ^ 64\<close>.
  The step of the state and the mixing are both invertible on 64-bit words.
\<close>

theorem rng_draws_distinct:
  assumes "n \<le> 2 ^ 64"
  shows "distinct (rng_draws n s)"
proof -
  have "inj_on (\<lambda>k. mix (s + of_nat (Suc k) * 0x9E3779B97F4A7C15)) {0..<n}"
  proof (rule inj_onI)
    fix i j :: nat
    assume ij: "i \<in> {0..<n}" "j \<in> {0..<n}" "mix (s + of_nat (Suc i) * 0x9E3779B97F4A7C15) = mix (s + of_nat (Suc j) * 0x9E3779B97F4A7C15)"
    from injD [OF inj_mix ij(3)]
    have e: "of_nat (Suc i) * 0x9E3779B97F4A7C15 = (of_nat (Suc j) * 0x9E3779B97F4A7C15 :: u64)" by (simp only: add_left_cancel)
    have c: "inj (\<lambda>z :: u64. z * 0x9E3779B97F4A7C15)" by (rule inj_times [of _ "0xF1DE83E19937733D"]) simp
    have "of_nat (Suc i) = (of_nat (Suc j) :: u64)" by (rule injD [OF c e])
    then have "of_nat i = (of_nat j :: u64)" by simp
    then have "i mod 2 ^ 64 = j mod 2 ^ 64" by (simp add: word_of_nat_eq_iff take_bit_eq_mod)
    then show "i = j" using ij assms by simp
  qed
  then show ?thesis by (simp add: rng_draws_map distinct_map)
qed

theorem rng_draws_distinct_witness:
  "distinct (rng_draws 3 0) \<and> hd (rng_draws 3 0) = 0xE220A8397B1DCDAF"
proof
  show "distinct (rng_draws 3 0)" by (rule rng_draws_distinct) simp
  show "hd (rng_draws 3 0) = 0xE220A8397B1DCDAF" by code_simp
qed

section \<open>A draw from a range\<close>

lemma uint_diff_sint: "uint (v - w :: u64) = (sint v - sint w) mod 2 ^ 64"
proof -
  have "v - w = word_of_int (sint v - sint w)" by simp
  then show ?thesis by (simp only: uint_word_of_int) simp
qed

text \<open>Signed membership in a range is unsigned membership of the offset.\<close>

lemma in_range_offset:
  fixes v lo hi :: u64
  assumes "sint lo \<le> sint hi"
  shows "sint lo \<le> sint v \<and> sint v \<le> sint hi \<longleftrightarrow> v - lo \<le> hi - lo"
proof -
  have b: "- (2 ^ 63) \<le> sint x" "sint x < 2 ^ 63" for x :: u64 using sint_ge [of x] sint_lt [of x] by auto
  have h: "uint (hi - lo) = sint hi - sint lo" using assms b [of lo] b [of hi] by (simp add: uint_diff_sint)
  show ?thesis
  proof (cases "sint lo \<le> sint v")
    case True
    then have "uint (v - lo) = sint v - sint lo" using b [of lo] b [of v] by (simp add: uint_diff_sint)
    then show ?thesis using True h by (simp add: word_le_def)
  next
    case False
    then have "(sint v - sint lo) mod 2 ^ 64 = sint v - sint lo + 2 ^ 64"
      using b [of lo] b [of v] by (intro mod_pos_pos_trivial [of "sint v - sint lo + 2 ^ 64" "2 ^ 64", THEN trans [rotated]]) simp_all
    then have "uint (v - lo) = sint v - sint lo + 2 ^ 64" by (simp add: uint_diff_sint)
    then show ?thesis using False h b [of v] b [of hi] by (simp add: word_le_def)
  qed
qed

lemma surj_rng: "\<exists>s. asmtest_rng_u64 s = (z, s + 0x9E3779B97F4A7C15)"
proof -
  obtain y where "z = mix y" using bij_mix by (metis bij_pointE)
  then have "asmtest_rng_u64 (y - 0x9E3779B97F4A7C15) = (z, y - 0x9E3779B97F4A7C15 + 0x9E3779B97F4A7C15)"
    by (simp add: rng_u64_mix)
  then show ?thesis by blast
qed

lemma less_Suc_word: "d + 1 \<noteq> 0 \<Longrightarrow> (w :: u64) < d + 1 \<longleftrightarrow> w \<le> d"
  using unatSuc [of d] by (simp add: word_less_nat_alt word_le_nat_alt add.commute less_Suc_eq_le)

lemma range_of_draws:
  "range (\<lambda>s. fst (asmtest_rng_range s lo hi)) =
     (if sint hi \<le> sint lo then {lo} else {v. sint lo \<le> sint v \<and> sint v \<le> sint hi})"
proof (cases "sint hi \<le> sint lo")
  case True
  then show ?thesis by (auto simp: asmtest_rng_range_def)
next
  case False
  then have le: "sint lo \<le> sint hi" by simp
  let ?span = "hi - lo + 1"
  have val: "fst (asmtest_rng_range s lo hi) = (let z = fst (asmtest_rng_u64 s) in if ?span = 0 then z else lo + z mod ?span)" for s
    using False by (simp add: asmtest_rng_range_def Let_def case_prod_unfold)
  have zs: "range (\<lambda>s. fst (asmtest_rng_u64 s)) = UNIV"
  proof (rule surjI)
    show "fst (asmtest_rng_u64 (SOME s. fst (asmtest_rng_u64 s) = z)) = z" for z
      using surj_rng [of z] by (metis (mono_tags, lifting) fst_conv someI_ex)
  qed
  have "range (\<lambda>s. fst (asmtest_rng_range s lo hi)) = (\<lambda>z. if ?span = 0 then z else lo + z mod ?span) ` range (\<lambda>s. fst (asmtest_rng_u64 s))"
    by (simp add: val Let_def image_image)
  also have "\<dots> = {v. v - lo \<le> hi - lo}"
  proof (cases "?span = 0")
    case True
    then have "hi - lo = - 1" by (simp add: eq_neg_iff_add_eq_0)
    then show ?thesis using True by (simp add: zs)
  next
    case False
    have "lo + z mod ?span - lo \<le> hi - lo" for z
      using False word_mod_less_divisor [of ?span z] less_Suc_word [OF False] by (simp add: word_gt_0)
    moreover have "v = lo + (v - lo) mod ?span" if "v - lo \<le> hi - lo" for v
      using that less_Suc_word [OF False] by (simp add: mod_word_less)
    ultimately show ?thesis using False by (auto simp: zs image_iff) 
  qed
  also have "\<dots> = {v. sint lo \<le> sint v \<and> sint v \<le> sint hi}" using in_range_offset [OF le] by auto
  finally show ?thesis using False by simp
qed

text \<open>
  A draw from a range is in the range, both ends included, and every value of the range is drawn for some state: the values of
  \<open>asmtest_rng_range\<close> are exactly those between the two ends, for every pair of ends, up to the full width of a \<^verbatim>\<open>long\<close>, where the span
  wraps to zero. With the ends crossed the value is the lower end.
\<close>

theorem rng_range_exact:
  "range (\<lambda>s. fst (asmtest_rng_range s lo hi)) =
     (if sint hi \<le> sint lo then {lo} else {v. sint lo \<le> sint v \<and> sint v \<le> sint hi})"
  by (rule range_of_draws)

section \<open>Units in the last place\<close>

text \<open>
  A \<^verbatim>\<open>double\<close> is its bit pattern. The signed subtraction of the code never leaves the range of an \<^verbatim>\<open>int64_t\<close>, so it is the word subtraction.
\<close>

definition ulp_key :: "u64 \<Rightarrow> u64" where
  "ulp_key i = (if sint i < 0 then 0x8000000000000000 - i else i)"

definition fp_ulp_distance :: "u64 \<Rightarrow> u64 \<Rightarrow> u64" where
  "fp_ulp_distance a b =
     (let ia = ulp_key a; ib = ulp_key b in if sint ia > sint ib then ia - ib else ib - ia)"

definition fp_isnan :: "u64 \<Rightarrow> bool" where
  "fp_isnan a \<longleftrightarrow> drop_bit 52 (a AND 0x7FF0000000000000) = 0x7FF \<and> a AND 0x000FFFFFFFFFFFFF \<noteq> 0"

text \<open>Whether the assertion holds.\<close>

definition asmtest_assert_double_near :: "u64 \<Rightarrow> u64 \<Rightarrow> u64 \<Rightarrow> bool" where
  "asmtest_assert_double_near actual expected max_ulps =
     (if fp_isnan actual \<or> fp_isnan expected then fp_isnan actual \<and> fp_isnan expected
      else fp_ulp_distance actual expected \<le> max_ulps)"

text \<open>
  The meaning of a pattern: its sign, and its magnitude, the 63 bits below it. \<open>fp_scaled\<close> is the value of a finite number times \<open>2 ^ 1074\<close>, an integer.
\<close>

definition fp_mag :: "u64 \<Rightarrow> nat" where
  "fp_mag a = unat a mod 2 ^ 63"

definition fp_neg :: "u64 \<Rightarrow> bool" where
  "fp_neg a \<longleftrightarrow> unat a \<ge> 2 ^ 63"

definition fp_rank :: "u64 \<Rightarrow> int" where
  "fp_rank a = (if fp_neg a then - int (fp_mag a) else int (fp_mag a))"

definition mag_scaled :: "nat \<Rightarrow> int" where
  "mag_scaled k = (if k < 2 ^ 52 then int k else (2 ^ 52 + int (k mod 2 ^ 52)) * 2 ^ (k div 2 ^ 52 - 1))"

definition fp_scaled :: "u64 \<Rightarrow> int" where
  "fp_scaled a = (if fp_neg a then - mag_scaled (fp_mag a) else mag_scaled (fp_mag a))"

lemma uint_by_sint: "uint (a :: u64) = (if sint a < 0 then sint a + 2 ^ 64 else sint a)"
proof -
  have b: "- (2 ^ 63) \<le> sint a" "sint a < 2 ^ 63" using sint_ge [of a] sint_lt [of a] by auto
  have "(sint a + 2 ^ 64) mod 2 ^ 64 = sint a + 2 ^ 64" if "sint a < 0" using b that by (intro mod_pos_pos_trivial) auto
  then show ?thesis using b uint_diff_sint [of a 0] by auto
qed

lemma int_fp_mag: "int (fp_mag a) = (if sint a < 0 then sint a + 2 ^ 63 else sint a)"
proof -
  have b: "- (2 ^ 63) \<le> sint a" "sint a < 2 ^ 63" using sint_ge [of a] sint_lt [of a] by auto
  have "(sint a + 2 ^ 64) mod 2 ^ 63 = (sint a + 2 ^ 63 + 1 * 2 ^ 63) mod 2 ^ 63" by (simp add: add.commute)
  also have "\<dots> = (sint a + 2 ^ 63) mod 2 ^ 63" by (rule mod_mult_self1)
  finally have "(sint a + 2 ^ 64) mod 2 ^ 63 = sint a + 2 ^ 63" if "sint a < 0" using b that by (simp only:) (intro mod_pos_pos_trivial; simp)
  then have "uint a mod 2 ^ 63 = (if sint a < 0 then sint a + 2 ^ 63 else sint a)"
    using b by (auto simp: uint_by_sint)
  then show ?thesis by (simp add: fp_mag_def zmod_int)
qed

lemma fp_neg_sint: "fp_neg a \<longleftrightarrow> sint a < 0"
proof -
  have "fp_neg a \<longleftrightarrow> uint a \<ge> 2 ^ 63" unfolding fp_neg_def uint_nat by (metis of_nat_le_iff of_nat_numeral of_nat_power)
  then show ?thesis using uint_by_sint [of a] sint_ge [of a] sint_lt [of a] by auto
qed

lemma sint_ulp_key: "sint (ulp_key a) = fp_rank a"
proof (cases "sint a < 0")
  case True
  have b: "- (2 ^ 63) \<le> sint a" using sint_ge [of a] by simp
  have "sint (0x8000000000000000 :: u64) = - (2 ^ 63)" by simp
  then have "sint (0x8000000000000000 - a) = signed_take_bit 63 (- (2 ^ 63) - sint a)" by (simp add: sint_word_diff)
  also have "\<dots> = - (2 ^ 63) - sint a" using b True by (intro signed_take_bit_int_eq_self) auto
  finally show ?thesis using True by (simp add: ulp_key_def fp_rank_def fp_neg_sint int_fp_mag)
next
  case False
  then show ?thesis by (simp add: ulp_key_def fp_rank_def fp_neg_sint int_fp_mag)
qed

lemma uint_ulp_distance: "uint (fp_ulp_distance a b) = \<bar>fp_rank a - fp_rank b\<bar>"
proof -
  have "- (2 ^ 63) \<le> fp_rank x" "fp_rank x < 2 ^ 63" for x using sint_ge [of "ulp_key x"] sint_lt [of "ulp_key x"] by (auto simp: sint_ulp_key)
  from this [of a] this [of b] show ?thesis by (auto simp: fp_ulp_distance_def Let_def uint_diff_sint sint_ulp_key)
qed

lemma mag_scaled_Suc: "mag_scaled k < mag_scaled (Suc k)"
proof (cases "Suc (k mod 2 ^ 52) = 2 ^ 52")
  case True
  then have d: "Suc k mod 2 ^ 52 = 0" "Suc k div 2 ^ 52 = Suc (k div 2 ^ 52)" by (simp_all add: mod_Suc div_Suc)
  have m: "int (k mod 2 ^ 52) = 2 ^ 52 - 1" using True by simp
  show ?thesis
  proof (cases "k < 2 ^ 52")
    case False
    then have "k div 2 ^ 52 \<ge> 1" by (simp add: Suc_le_eq div_greater_zero_iff)
    then obtain e where "k div 2 ^ 52 = Suc e" by (metis Suc_le_D One_nat_def)
    then show ?thesis using False d m by (simp add: mag_scaled_def)
  qed (use True d in \<open>simp add: mag_scaled_def\<close>)
next
  case False
  then have d: "Suc k mod 2 ^ 52 = Suc (k mod 2 ^ 52)" "Suc k div 2 ^ 52 = k div 2 ^ 52" by (simp_all add: mod_Suc div_Suc)
  then show ?thesis using False by (auto simp: mag_scaled_def)
qed

lemma mag_scaled_less: "mag_scaled k < mag_scaled l \<longleftrightarrow> k < l"
  using lift_Suc_mono_less_iff [of mag_scaled] mag_scaled_Suc by simp

text \<open>The value as a function of the rank.\<close>

definition rank_scaled :: "int \<Rightarrow> int" where
  "rank_scaled r = (if r < 0 then - mag_scaled (nat (- r)) else mag_scaled (nat r))"

lemma mag_scaled_0: "mag_scaled 0 = 0"
  by (simp add: mag_scaled_def)

lemma mag_scaled_pos: "0 < k \<Longrightarrow> 0 < mag_scaled k"
  using mag_scaled_less [of 0 k] by (simp add: mag_scaled_0)

lemma fp_scaled_rank: "fp_scaled a = rank_scaled (fp_rank a)"
  by (simp add: fp_scaled_def fp_rank_def rank_scaled_def mag_scaled_0)

lemma rank_scaled_less: "rank_scaled q < rank_scaled r \<longleftrightarrow> q < r"
proof -
  have "strict_mono rank_scaled"
  proof (rule strict_monoI)
    fix q r :: int
    assume "q < r"
    moreover have "mag_scaled (nat r) \<ge> 0" for r using mag_scaled_pos [of "nat r"] by (cases "nat r = 0") (simp_all add: mag_scaled_0)
    moreover have "q < 0 \<Longrightarrow> mag_scaled (nat (- q)) > 0" by (rule mag_scaled_pos) simp
    ultimately show "rank_scaled q < rank_scaled r"
      by (auto simp: rank_scaled_def mag_scaled_less) (smt (verit))
  qed
  then show ?thesis by (rule strict_mono_less)
qed

lemma rank_bounds: "- (2 ^ 63) < fp_rank a" "fp_rank a < 2 ^ 63"
proof -
  have "fp_mag a < 2 ^ 63" by (simp add: fp_mag_def)
  then show "- (2 ^ 63) < fp_rank a" "fp_rank a < 2 ^ 63" by (auto simp: fp_rank_def)
qed

lemma rank_surj: "- (2 ^ 63) < r \<Longrightarrow> r < 2 ^ 63 \<Longrightarrow> \<exists>x. fp_rank x = r"
proof (cases "r < 0")
  case True
  assume "- (2 ^ 63) < r"
  then have "unat (word_of_nat (2 ^ 63 + nat (- r)) :: u64) = 2 ^ 63 + nat (- r)" using True by (intro of_nat_inverse refl) auto
  then have "fp_rank (word_of_nat (2 ^ 63 + nat (- r))) = r"
    using True \<open>- (2 ^ 63) < r\<close> unfolding fp_rank_def fp_neg_def fp_mag_def by (simp add: mod_if)
  then show ?thesis by blast
next
  case False
  assume "r < 2 ^ 63"
  then have "unat (word_of_nat (nat r) :: u64) = nat r" using False by (intro of_nat_inverse refl) auto
  then have "fp_rank (word_of_nat (nat r)) = r"
    using False \<open>r < 2 ^ 63\<close> unfolding fp_rank_def fp_neg_def fp_mag_def by (simp add: mod_if) (simp add: le_nat_iff)
  then show ?thesis by blast
qed

text \<open>
  The distance in units in the last place counts representable numbers: it is the number of values a \<^verbatim>\<open>double\<close> can have that are
  above the smaller of the two and not above the larger. So the two zeros are at distance 0, neighbours at distance 1, and the
  unsigned subtraction is right over the whole range, where the signed one would overflow.
\<close>

theorem ulp_distance_counts:
  "uint (fp_ulp_distance a b) =
     int (card {v \<in> range fp_scaled. min (fp_scaled a) (fp_scaled b) < v \<and> v \<le> max (fp_scaled a) (fp_scaled b)})"
proof -
  let ?lo = "min (fp_rank a) (fp_rank b)" and ?hi = "max (fp_rank a) (fp_rank b)"
  have le: "rank_scaled q \<le> rank_scaled r \<longleftrightarrow> q \<le> r" for q r using rank_scaled_less [of r q] by linarith
  have inj: "inj rank_scaled" by (rule injI) (metis le order_antisym order_refl)
  have mm: "min (rank_scaled q) (rank_scaled r) = rank_scaled (min q r)" "max (rank_scaled q) (rank_scaled r) = rank_scaled (max q r)" for q r
    using le by (auto simp: min_def max_def)
  have "{v \<in> range fp_scaled. min (fp_scaled a) (fp_scaled b) < v \<and> v \<le> max (fp_scaled a) (fp_scaled b)} = rank_scaled ` {?lo<..?hi}"
  proof (intro set_eqI iffI)
    fix v
    assume "v \<in> rank_scaled ` {?lo<..?hi}"
    then obtain r where r: "v = rank_scaled r" "?lo < r" "r \<le> ?hi" by auto
    then obtain x where "fp_rank x = r" using rank_surj [of r] rank_bounds [of a] rank_bounds [of b] by (auto simp: min_def max_def split: if_splits)
    then show "v \<in> {v \<in> range fp_scaled. min (fp_scaled a) (fp_scaled b) < v \<and> v \<le> max (fp_scaled a) (fp_scaled b)}"
      using r by (auto simp: fp_scaled_rank mm rank_scaled_less le)
  qed (auto simp: fp_scaled_rank mm rank_scaled_less le)
  then show ?thesis using inj by (simp add: card_image inj_on_subset uint_ulp_distance) (simp add: min_def max_def)
qed

text \<open>
  The assertion on nearness accepts two NaNs, rejects one, and accepts two numbers exactly when their distance is within the bound.
\<close>

lemma double_near_exact:
  "asmtest_assert_double_near a b m \<longleftrightarrow> fp_isnan a \<and> fp_isnan b \<or> \<not> fp_isnan a \<and> \<not> fp_isnan b \<and> \<bar>fp_rank a - fp_rank b\<bar> \<le> uint m"
  by (auto simp: asmtest_assert_double_near_def word_le_def uint_ulp_distance)

section \<open>Differential testing\<close>

text \<open>
  The routine under test and the reference are functions of their arguments; an argument array has eight entries, of which the first \<open>arity\<close> are passed.
\<close>

definition match_ref_diverges :: "(int list \<Rightarrow> int) \<Rightarrow> (int list \<Rightarrow> int) \<Rightarrow> nat \<Rightarrow> int list \<Rightarrow> bool \<times> int \<times> int" where
  "match_ref_diverges fn ref arity a =
     (let expected = ref (take (if arity = 1 then 1 else if arity = 2 then 2 else 3) a);
          got = fn (take arity a)
      in (got \<noteq> expected, got, expected))"

definition shrink_cand :: "int list" where
  "shrink_cand = [0, 1, - 1, 2 ^ 63 - 1, - (2 ^ 63)]"

text \<open>The two loops of one position, with the number of calls they make. \<open>dv\<close> says whether a tuple still diverges.\<close>

fun try_cand :: "(int list \<Rightarrow> bool) \<Rightarrow> int list \<Rightarrow> nat \<Rightarrow> int \<Rightarrow> int list \<Rightarrow> int list option \<times> nat" where
  "try_cand dv a i keep [] = (None, 0)"
| "try_cand dv a i keep (c # cs) =
     (if c = keep then try_cand dv a i keep cs
      else if dv (a[i := c]) then (Some (a[i := c]), 1)
      else case try_cand dv a i keep cs of (r, n) \<Rightarrow> (r, Suc n))"

function halve :: "(int list \<Rightarrow> bool) \<Rightarrow> int list \<Rightarrow> nat \<Rightarrow> int list \<times> nat" where
  "halve dv a i =
     (if length a \<le> i \<or> a ! i = 0 then (a, 0)
      else let a1 = a[i := (a ! i) sdiv 2] in
        if dv a1 then (case halve dv a1 i of (r, n) \<Rightarrow> (r, Suc n)) else (a, 1))"
  by pat_completeness auto

lemma abs_half: "\<bar>x sdiv 2\<bar> = \<bar>x :: int\<bar> div 2"
  by (simp add: signed_divide_int_def abs_mult sgn_if)

termination halve
  by (relation "measure (\<lambda>(dv, a, i). nat \<bar>a ! i\<bar>)") (auto simp: abs_half)

declare halve.simps [simp del]

definition shrink_at :: "(int list \<Rightarrow> bool) \<Rightarrow> int list \<Rightarrow> nat \<Rightarrow> int list \<times> nat" where
  "shrink_at dv a i =
     (case try_cand dv a i (a ! i) shrink_cand of
        (Some a1, n) \<Rightarrow> (a1, n)
      | (None, n) \<Rightarrow> (case halve dv a i of (a1, m) \<Rightarrow> (a1, n + m)))"

definition match_ref_shrink :: "(int list \<Rightarrow> int) \<Rightarrow> (int list \<Rightarrow> int) \<Rightarrow> nat \<Rightarrow> int list \<Rightarrow> int list \<times> nat" where
  "match_ref_shrink fn ref arity a =
     fold (\<lambda>i (a, n). case shrink_at (\<lambda>a. fst (match_ref_diverges fn ref arity a)) a i of (a1, m) \<Rightarrow> (a1, n + m)) [0..<arity] (a, 0)"

text \<open>The report: the trial, its input, the two answers, and the shrunk tuple with its answers where it is another one.\<close>

datatype ref_report = Ref_ok | Ref_arity int | Ref_diverges nat "int list" int int "(int list \<times> int \<times> int) option"

text \<open>The generator is a function of the caller: the state of the random numbers to the arity it returns, the array it filled and the new state.\<close>

type_synonym gen_fn = "u64 \<Rightarrow> int \<times> int list \<times> u64"

definition report_divergence :: "(int list \<Rightarrow> int) \<Rightarrow> (int list \<Rightarrow> int) \<Rightarrow> nat \<Rightarrow> nat \<Rightarrow> int list \<Rightarrow> ref_report" where
  "report_divergence fn ref arity t a =
     (case match_ref_diverges fn ref arity a of (_, got, want) \<Rightarrow>
      case match_ref_shrink fn ref arity a of (s, _) \<Rightarrow>
        Ref_diverges t a got want
          (if take arity s \<noteq> take arity a
           then (case match_ref_diverges fn ref arity s of (_, sg, sw) \<Rightarrow> Some (s, sg, sw)) else None))"

fun ref_trials :: "(int list \<Rightarrow> int) \<Rightarrow> (int list \<Rightarrow> int) \<Rightarrow> gen_fn \<Rightarrow> nat \<Rightarrow> nat \<Rightarrow> nat \<Rightarrow> u64 \<Rightarrow> ref_report" where
  "ref_trials fn ref gen arity t 0 s = Ref_ok"
| "ref_trials fn ref gen arity t (Suc k) s =
     (case gen s of (n, a, s1) \<Rightarrow>
        if n \<noteq> int arity then Ref_arity n
        else if \<not> fst (match_ref_diverges fn ref arity a) then ref_trials fn ref gen arity (Suc t) k s1
        else report_divergence fn ref arity t a)"

definition match_ref_run :: "(int list \<Rightarrow> int) \<Rightarrow> (int list \<Rightarrow> int) \<Rightarrow> gen_fn \<Rightarrow> int \<Rightarrow> nat \<Rightarrow> u64 \<Rightarrow> ref_report" where
  "match_ref_run fn ref gen trials arity seed = ref_trials fn ref gen arity 0 (nat trials) seed"

section \<open>Shrinking keeps the counterexample\<close>

lemma try_cand_result:
  "try_cand dv a i keep cs = (Some a1, n) \<Longrightarrow> \<exists>c\<in>set cs. a1 = a[i := c] \<and> dv a1"
  by (induction cs arbitrary: n) (auto split: if_splits prod.splits)

lemma try_cand_calls: "snd (try_cand dv a i keep cs) \<le> length cs"
  by (induction cs) (auto split: prod.splits)

lemma halve_calls: "\<bar>a ! i\<bar> < 2 ^ n \<Longrightarrow> snd (halve dv a i) \<le> n"
proof (induction n arbitrary: a)
  case (Suc n)
  show ?case
  proof (cases "length a \<le> i \<or> a ! i = 0")
    case False
    then have "\<bar>(a[i := (a ! i) sdiv 2]) ! i\<bar> < 2 ^ n" using Suc.prems by (simp add: abs_half)
    from Suc.IH [OF this] show ?thesis by (subst halve.simps) (auto simp: Let_def split: prod.splits)
  qed (subst halve.simps, auto)
qed (simp add: halve.simps)

text \<open>A value reached by halving another toward zero.\<close>

definition halved :: "int \<Rightarrow> int \<Rightarrow> bool" where
  "halved x y \<longleftrightarrow> (\<exists>k. y = ((\<lambda>v. v sdiv 2) ^^ k) x)"

lemma halve_result:
  "dv a \<Longrightarrow> i < length a \<Longrightarrow> halve dv a i = (a1, n) \<Longrightarrow>
   dv a1 \<and> (\<exists>v. a1 = a[i := v] \<and> halved (a ! i) v \<and> (v \<noteq> 0 \<longrightarrow> \<not> dv (a[i := v sdiv 2])))"
proof (induction dv a i arbitrary: a1 n rule: halve.induct)
  case (1 dv a i)
  let ?h = "(a ! i) sdiv 2"
  show ?case
  proof (cases "a ! i \<noteq> 0 \<and> dv (a[i := ?h])")
    case True
    then obtain m where h: "halve dv (a[i := ?h]) i = (a1, m)" using 1(4) "1.prems"(2)
      by (subst (asm) halve.simps) (auto simp: Let_def split: prod.splits)
    have "dv a1 \<and> (\<exists>v. a1 = (a[i := ?h])[i := v] \<and> halved ((a[i := ?h]) ! i) v \<and> (v \<noteq> 0 \<longrightarrow> \<not> dv ((a[i := ?h])[i := v sdiv 2])))"
      by (rule 1(1) [OF _ refl _ _ _ h]) (use True 1(3) in auto)
    then obtain v where v: "dv a1" "a1 = a[i := v]" "halved ?h v" "v \<noteq> 0 \<longrightarrow> \<not> dv (a[i := v sdiv 2])" using 1(3) by auto
    from v(3) obtain k where "v = ((\<lambda>v. v sdiv 2) ^^ k) ?h" unfolding halved_def by blast
    then have "v = ((\<lambda>v. v sdiv 2) ^^ Suc k) (a ! i)" by (simp only: funpow_Suc_right comp_apply)
    then have "halved (a ! i) v" unfolding halved_def by blast
    then show ?thesis using v by blast
  next
    case False
    then have "a1 = a" using 1(4) by (subst (asm) halve.simps) (auto simp: Let_def split: if_splits)
    moreover have "halved (a ! i) (a ! i)" unfolding halved_def by (rule exI [of _ 0]) simp
    ultimately show ?thesis using False 1(2) by (intro conjI exI [of _ "a ! i"]) auto
  qed
qed

text \<open>What one position ends as: a boundary value, or a half of what it was whose own half no longer fails.\<close>

definition shrunk_pos :: "(int list \<Rightarrow> bool) \<Rightarrow> int list \<Rightarrow> nat \<Rightarrow> int \<Rightarrow> bool" where
  "shrunk_pos dv a i v \<longleftrightarrow> v \<in> set shrink_cand \<or> halved (a ! i) v \<and> \<not> dv (a[i := v sdiv 2])"

lemma shrink_at_result:
  assumes "dv a" "i < length a" "shrink_at dv a i = (a1, n)"
  shows "dv a1 \<and> (\<exists>v. a1 = a[i := v] \<and> shrunk_pos dv a i v)"
proof (cases "try_cand dv a i (a ! i) shrink_cand")
  case (Pair r m)
  show ?thesis
  proof (cases r)
    case None
    then obtain k where "halve dv a i = (a1, k)" using assms(3) Pair by (auto simp: shrink_at_def split: prod.splits)
    then obtain v where "dv a1" "a1 = a[i := v]" "halved (a ! i) v" "v \<noteq> 0 \<longrightarrow> \<not> dv (a[i := v sdiv 2])"
      using halve_result [of dv a i a1 k] assms(1,2) by blast
    then show ?thesis by (cases "v = 0") (auto simp: shrunk_pos_def shrink_cand_def)
  next
    case (Some a')
    then have "a1 = a'" using assms(3) Pair by (simp add: shrink_at_def)
    then show ?thesis using try_cand_result [of dv a i "a ! i" shrink_cand a' m] Pair Some by (auto simp: shrunk_pos_def)
  qed
qed

lemma shrink_at_calls:
  assumes "\<bar>a ! i\<bar> \<le> 2 ^ 63" shows "snd (shrink_at dv a i) \<le> 69"
proof -
  have "snd (try_cand dv a i (a ! i) shrink_cand) \<le> 5" using try_cand_calls [of dv a i "a ! i" shrink_cand] by (simp add: shrink_cand_def)
  moreover have "snd (halve dv a i) \<le> 64" using assms by (intro halve_calls) auto
  ultimately show ?thesis by (auto simp: shrink_at_def split: prod.splits option.splits)
qed

lemma shrink_counterexample:
  assumes "fst (match_ref_diverges fn ref arity a)" "arity \<le> 8" "length a = 8" "\<forall>x\<in>set a. \<bar>x\<bar> \<le> 2 ^ 63"
  shows "case match_ref_shrink fn ref arity a of (s, calls) \<Rightarrow>
      fst (match_ref_diverges fn ref arity s) \<and> length s = 8 \<and> drop arity s = drop arity a \<and> calls \<le> 69 * arity \<and>
      (\<forall>i<arity. s ! i \<in> set shrink_cand \<or> halved (a ! i) (s ! i))"
proof -
  let ?dv = "\<lambda>a. fst (match_ref_diverges fn ref arity a)"
  let ?f = "\<lambda>i (a, n). case shrink_at ?dv a i of (a1, m) \<Rightarrow> (a1, n + m)"
  have "case fold ?f [0..<m] (a, 0) of (s, calls) \<Rightarrow> ?dv s \<and> length s = 8 \<and> drop m s = drop m a \<and> calls \<le> 69 * m \<and>
      (\<forall>i<m. s ! i \<in> set shrink_cand \<or> halved (a ! i) (s ! i))" if "m \<le> 8" for m
    using that
  proof (induction m)
    case 0
    show ?case using assms(1,3) by simp
  next
    case (Suc m)
    obtain s c where f: "fold ?f [0..<m] (a, 0) = (s, c)" by fastforce
    with Suc have IH: "?dv s" "length s = 8" "drop m s = drop m a" "c \<le> 69 * m"
      "\<forall>i<m. s ! i \<in> set shrink_cand \<or> halved (a ! i) (s ! i)" by auto
    obtain s1 k where sh: "shrink_at ?dv s m = (s1, k)" by fastforce
    have m: "m < length s" "m < length a" using Suc.prems IH(2) assms(3) by auto
    have sm: "s ! m = a ! m" using IH(3) m by (metis hd_drop_conv_nth)
    have k: "k \<le> 69" using shrink_at_calls [of s m ?dv] sh assms(4) m by (simp add: sm)
    obtain v where v: "?dv s1" "s1 = s[m := v]" "shrunk_pos ?dv s m v" using shrink_at_result [of ?dv s m s1 k] IH(1) m(1) sh by blast
    have "drop (Suc m) s1 = drop (Suc m) a" using IH(3) v(2) by (metis drop_update_cancel lessI drop_drop plus_1_eq_Suc)
    moreover have "fold ?f [0..<Suc m] (a, 0) = (s1, c + k)" by (simp add: f sh)
    moreover have "\<forall>i<Suc m. s1 ! i \<in> set shrink_cand \<or> halved (a ! i) (s1 ! i)"
      using IH(5) v(2,3) m(1) by (auto simp: less_Suc_eq nth_list_update shrunk_pos_def sm)
    ultimately show ?case using v(1,2) IH(2,4) k by simp
  qed
  from this [OF assms(2)] show ?thesis by (simp add: match_ref_shrink_def)
qed

text \<open>
  C38: Shrinking returns a counterexample and stays bounded. On a failing tuple of eight \<^verbatim>\<open>long\<close> values, of which up to three are passed, it returns a tuple
  on which routine and reference still disagree; every passed position is a boundary value (0, 1, -1, the largest or the smallest \<^verbatim>\<open>long\<close>) or was reached by
  halving the original one toward zero; the others are untouched; and it makes at most 69 calls per position.
\<close>

theorem match_ref_shrink_sound:
  assumes "fst (match_ref_diverges fn ref arity a)" "arity \<le> 8" "length a = 8" "\<forall>x\<in>set a. \<bar>x\<bar> \<le> 2 ^ 63"
  shows "case match_ref_shrink fn ref arity a of (s, calls) \<Rightarrow>
      fst (match_ref_diverges fn ref arity s) \<and> length s = 8 \<and> drop arity s = drop arity a \<and> calls \<le> 69 * arity \<and>
      (\<forall>i<arity. s ! i \<in> set shrink_cand \<or> halved (a ! i) (s ! i))"
  using shrink_counterexample [OF assms] .

text \<open>A routine that adds one where it should add nothing, against the identity: \<open>[40]\<close> shrinks to \<open>[0]\<close>.\<close>

definition demo_args :: "int list" where
  "demo_args = [40, 0, 0, 0, 0, 0, 0, 0]"

theorem match_ref_shrink_sound_witness:
  "fst (match_ref_shrink (\<lambda>a. hd a + 1) hd 1 demo_args) = [0, 0, 0, 0, 0, 0, 0, 0] \<and>
   fst (match_ref_diverges (\<lambda>a. hd a + 1) hd 1 (fst (match_ref_shrink (\<lambda>a. hd a + 1) hd 1 demo_args)))"
proof -
  have "fst (match_ref_shrink (\<lambda>a. hd a + 1) hd 1 demo_args) = [0, 0, 0, 0, 0, 0, 0, 0]"
    by (simp add: match_ref_shrink_def shrink_at_def shrink_cand_def demo_args_def match_ref_diverges_def Let_def)
  moreover have "fst (match_ref_diverges (\<lambda>a. hd a + 1) hd 1 (fst (match_ref_shrink (\<lambda>a. hd a + 1) hd 1 demo_args)))"
    using match_ref_shrink_sound [of "\<lambda>a. hd a + 1" hd 1 demo_args]
    by (simp add: demo_args_def match_ref_diverges_def Let_def case_prod_unfold)
  ultimately show ?thesis by simp
qed

text \<open>
  The candidates are tried in their order with only the present value left out, so a position that is 0 already is moved to 1 when 1 fails too, and a small
  value to the largest or smallest \<^verbatim>\<open>long\<close> when nothing between fails: the tuple gets less readable.
\<close>

lemma shrink_leaves_zero:
  "fst (match_ref_shrink (\<lambda>a. hd a + 1) hd 1 [0, 0, 0, 0, 0, 0, 0, 0]) = [1, 0, 0, 0, 0, 0, 0, 0]"
  by (simp add: match_ref_shrink_def shrink_at_def shrink_cand_def match_ref_diverges_def Let_def)

section \<open>The trials\<close>

text \<open>The state before a trial.\<close>

definition trial_state :: "gen_fn \<Rightarrow> u64 \<Rightarrow> nat \<Rightarrow> u64" where
  "trial_state gen seed t = ((\<lambda>s. snd (snd (gen s))) ^^ t) seed"

definition agrees :: "(int list \<Rightarrow> int) \<Rightarrow> (int list \<Rightarrow> int) \<Rightarrow> nat \<Rightarrow> int \<times> int list \<times> u64 \<Rightarrow> bool" where
  "agrees fn ref arity g \<longleftrightarrow> fst g = int arity \<and> fn (take arity (fst (snd g))) = ref (take arity (fst (snd g)))"

lemma trial_state_Suc: "trial_state gen seed (Suc t) = snd (snd (gen (trial_state gen seed t)))"
  by (simp add: trial_state_def)

lemma diverges_iff: "arity \<in> {1, 2, 3} \<Longrightarrow> fst (match_ref_diverges fn ref arity a) \<longleftrightarrow> fn (take arity a) \<noteq> ref (take arity a)"
  by (auto simp: match_ref_diverges_def Let_def)

lemma ref_trials_cases:
  assumes "arity \<in> {1, 2, 3}" "\<forall>t'<t. agrees fn ref arity (gen (trial_state gen seed t'))"
  shows "(\<forall>t'<t + k. agrees fn ref arity (gen (trial_state gen seed t'))) \<and> ref_trials fn ref gen arity t k (trial_state gen seed t) = Ref_ok \<or>
    (\<exists>u<t + k. (\<forall>t'<u. agrees fn ref arity (gen (trial_state gen seed t'))) \<and>
       (case gen (trial_state gen seed u) of (n, a, _) \<Rightarrow>
          if n \<noteq> int arity then ref_trials fn ref gen arity t k (trial_state gen seed t) = Ref_arity n
          else fst (match_ref_diverges fn ref arity a) \<and>
            ref_trials fn ref gen arity t k (trial_state gen seed t) = report_divergence fn ref arity u a))"
  using assms(2)
proof (induction k arbitrary: t)
  case (Suc k)
  obtain n a s1 where g: "gen (trial_state gen seed t) = (n, a, s1)" by (cases "gen (trial_state gen seed t)") auto
  have s1: "s1 = trial_state gen seed (Suc t)" by (simp add: trial_state_Suc g)
  show ?case
  proof (cases "n = int arity \<and> \<not> fst (match_ref_diverges fn ref arity a)")
    case True
    then have "agrees fn ref arity (gen (trial_state gen seed t))" using g diverges_iff [OF assms(1)] by (simp add: agrees_def)
    then have "\<forall>t'<Suc t. agrees fn ref arity (gen (trial_state gen seed t'))" using Suc.prems by (auto simp: less_Suc_eq)
    moreover have "ref_trials fn ref gen arity t (Suc k) (trial_state gen seed t) = ref_trials fn ref gen arity (Suc t) k (trial_state gen seed (Suc t))"
      using True by (simp add: g s1)
    ultimately show ?thesis using Suc.IH [of "Suc t"] by (simp only: add_Suc add_Suc_right)
  next
    case False
    then show ?thesis using Suc.prems g by (intro disjI2 exI [of _ t]) auto
  qed
qed simp

text \<open>
  Differential testing is exact about its trials. It passes exactly when the generator has the right arity and routine and reference agree on every trial;
  otherwise it stops at the first trial that does not, and reports that trial, its input, the two answers, and, if shrinking changed the
  input, a tuple on which the two still disagree, with the answers they give there.
\<close>

theorem match_ref_run_exact:
  assumes "arity \<in> {1, 2, 3}" "\<forall>s. length (fst (snd (gen s))) = 8" "\<forall>s. \<forall>x\<in>set (fst (snd (gen s))). \<bar>x\<bar> \<le> 2 ^ 63"
  shows "case match_ref_run fn ref gen trials arity seed of
      Ref_ok \<Rightarrow> \<forall>t<nat trials. agrees fn ref arity (gen (trial_state gen seed t))
    | Ref_arity n \<Rightarrow> \<exists>t<nat trials. (\<forall>t'<t. agrees fn ref arity (gen (trial_state gen seed t'))) \<and>
        n = fst (gen (trial_state gen seed t)) \<and> n \<noteq> int arity
    | Ref_diverges t a got want sh \<Rightarrow> t < nat trials \<and> (\<forall>t'<t. agrees fn ref arity (gen (trial_state gen seed t'))) \<and>
        a = fst (snd (gen (trial_state gen seed t))) \<and> got = fn (take arity a) \<and> want = ref (take arity a) \<and> got \<noteq> want \<and>
        (case sh of None \<Rightarrow> True
         | Some (s, sg, sw) \<Rightarrow> sg = fn (take arity s) \<and> sw = ref (take arity s) \<and> sg \<noteq> sw)"
proof -
  have t0: "trial_state gen seed 0 = seed" by (simp add: trial_state_def)
  have md: "match_ref_diverges fn ref arity a = (fn (take arity a) \<noteq> ref (take arity a), fn (take arity a), ref (take arity a))" for a
    using assms(1) by (auto simp: match_ref_diverges_def Let_def)
  have "\<forall>t'<0. agrees fn ref arity (gen (trial_state gen seed t'))" by simp
  from ref_trials_cases [OF assms(1) this, of "nat trials", unfolded t0 add_0, folded match_ref_run_def] show ?thesis
  proof (elim disjE exE conjE)
    fix u
    let ?g = "gen (trial_state gen seed u)"
    assume u: "u < nat trials" "\<forall>t'<u. agrees fn ref arity (gen (trial_state gen seed t'))"
      and c: "case ?g of (n, a, _) \<Rightarrow> if n \<noteq> int arity then match_ref_run fn ref gen trials arity seed = Ref_arity n
          else fst (match_ref_diverges fn ref arity a) \<and> match_ref_run fn ref gen trials arity seed = report_divergence fn ref arity u a"
    obtain n a s1 where g: "?g = (n, a, s1)" by (cases ?g) auto
    have a: "length a = 8" "\<forall>x\<in>set a. \<bar>x\<bar> \<le> 2 ^ 63" using assms(2,3) g by (metis fst_conv snd_conv)+
    show ?thesis
    proof (cases "n = int arity")
      case True
      then have d: "fst (match_ref_diverges fn ref arity a)" and r: "match_ref_run fn ref gen trials arity seed = report_divergence fn ref arity u a"
        using c g by auto
      obtain s calls where s: "match_ref_shrink fn ref arity a = (s, calls)" by fastforce
      have "fst (match_ref_diverges fn ref arity s)" using shrink_counterexample [OF d _ a] assms(1) s by auto
      then show ?thesis using r u g d by (simp add: report_divergence_def s md)
    next
      case False
      then have r: "match_ref_run fn ref gen trials arity seed = Ref_arity n" using c g by simp
      have "\<exists>t<nat trials. (\<forall>t'<t. agrees fn ref arity (gen (trial_state gen seed t'))) \<and> n = fst (gen (trial_state gen seed t)) \<and> n \<noteq> int arity"
        using u g False by (intro exI [of _ u]) simp
      then show ?thesis by (simp add: r)
    qed
  qed simp_all
qed

text \<open>The generator draws one small number per trial; the routine is wrong on 0 only.\<close>

definition demo_gen :: gen_fn where
  "demo_gen s = (1, [uint s mod 4, 0, 0, 0, 0, 0, 0, 0], s - 1)"

definition demo_fn :: "int list \<Rightarrow> int" where
  "demo_fn a = (if hd a = 0 then 7 else hd a)"

theorem match_ref_run_exact_witness:
  "match_ref_run demo_fn hd demo_gen 10 1 2 = Ref_diverges 2 [0, 0, 0, 0, 0, 0, 0, 0] 7 0 None \<and>
   agrees demo_fn hd 1 (demo_gen 2) \<and> agrees demo_fn hd 1 (demo_gen 1)"
proof -
  have r: "match_ref_run demo_fn hd demo_gen 10 1 2 = Ref_diverges 2 [0, 0, 0, 0, 0, 0, 0, 0] 7 0 None" by code_simp
  have "\<bar>uint (s :: u64) mod 4\<bar> \<le> 2 ^ 63" for s by (rule order_trans [OF less_imp_le [of _ 4]]) simp_all
  then have b: "\<forall>s. \<forall>x\<in>set (fst (snd (demo_gen s))). \<bar>x\<bar> \<le> 2 ^ 63" by (simp add: demo_gen_def)
  have "\<forall>t'<2. agrees demo_fn hd 1 (demo_gen (trial_state demo_gen 2 t'))"
    using match_ref_run_exact [where arity = 1 and gen = demo_gen and fn = demo_fn and ref = hd and trials = 10 and seed = 2] b unfolding r by (simp add: demo_gen_def)
  then have "agrees demo_fn hd 1 (demo_gen (trial_state demo_gen 2 0))" "agrees demo_fn hd 1 (demo_gen (trial_state demo_gen 2 1))" by auto
  then show ?thesis using r by (simp add: trial_state_def demo_gen_def)
qed

end
