(* ===== verification/Runner.thy ===== *)
theory Runner
  imports Difftest "HOL-Library.Multiset"
begin

text \<open>
  The test runner, \<^verbatim>\<open>src/src/asmtest.c\<close>, as built for POSIX: one test through setup, body and teardown; its isolation in a forked
  child and the record the child ships back; the parallel pool; and what \<^verbatim>\<open>main\<close> selects, runs and returns. A hook or test body is any function of the runner's
  globals that returns, jumps back into the runner, or ends the process. The kernel answers by scripts: whether each \<^verbatim>\<open>pipe\<close> and
  \<^verbatim>\<open>fork\<close> succeeds and what each \<^verbatim>\<open>poll\<close> reports; an exhausted script means success and everything ready. Left out: the wall-clock time of
  a result, the parsing of the command line and of numbers in the environment, and the captured output of test bodies.
\<close>

section \<open>Verdicts of one process\<close>

datatype outcome = ST_PASS | ST_FAIL | ST_SKIP

datatype wait_status = Exited int | Signaled int

datatype act = Returned | Jumped int | Died wait_status

definition JMP_FAIL :: int where "JMP_FAIL = 1"
definition JMP_SKIP :: int where "JMP_SKIP = 2"

record runner_g =
  g_msg :: string
  g_file :: "string option"
  g_line :: int
  g_record_dir :: string
  g_record_cur :: string
  g_note_path :: string
  g_note_step :: int
  g_timeout :: int

type_synonym callee = "runner_g \<Rightarrow> runner_g \<times> act"

record asmtest_case =
  tc_suite :: string
  tc_name :: string
  tc_fn :: callee

record asmtest_hook =
  hk_suite :: string
  hk_fn :: callee
  hk_kind :: int

text \<open>\<^verbatim>\<open>snprintf\<close> into a buffer of \<open>n\<close> bytes.\<close>

definition cbuf :: "nat \<Rightarrow> string \<Rightarrow> string" where
  "cbuf n s = take (n - 1) s"

definition asmtest_note_recording :: "string option \<Rightarrow> int \<Rightarrow> runner_g \<Rightarrow> runner_g" where
  "asmtest_note_recording path step g = g\<lparr>g_note_path := cbuf 256 (case path of Some p \<Rightarrow> p | None \<Rightarrow> []), g_note_step := step\<rparr>"

definition asmtest_record_begin :: "string \<Rightarrow> string \<Rightarrow> runner_g \<Rightarrow> runner_g" where
  "asmtest_record_begin suite name g =
     (let g1 = g\<lparr>g_note_path := [], g_note_step := - 1\<rparr> in
      if g_record_dir g1 = [] then g1\<lparr>g_record_cur := []\<rparr>
      else g1\<lparr>g_record_cur := cbuf 1024 (g_record_dir g1 @ ''/'' @ suite @ ''.'' @ name @ ''.asmtrace'')\<rparr>)"

definition asmtest_fail :: "string \<Rightarrow> int \<Rightarrow> string \<Rightarrow> callee" where
  "asmtest_fail file line msg g = (g\<lparr>g_msg := cbuf 1024 msg, g_file := Some file, g_line := line\<rparr>, Jumped JMP_FAIL)"

definition asmtest_skip :: "string option \<Rightarrow> callee" where
  "asmtest_skip reason g = (g\<lparr>g_msg := cbuf 1024 (case reason of Some r \<Rightarrow> r | None \<Rightarrow> [])\<rparr>, Jumped JMP_SKIP)"

definition SIGILL :: int where "SIGILL = 4"
definition SIGABRT :: int where "SIGABRT = 6"
definition SIGBUS :: int where "SIGBUS = 7"
definition SIGFPE :: int where "SIGFPE = 8"
definition SIGSEGV :: int where "SIGSEGV = 11"
definition SIGALRM :: int where "SIGALRM = 14"

definition sig_name :: "int \<Rightarrow> string" where
  "sig_name sig = (if sig = SIGSEGV then ''SIGSEGV'' else if sig = SIGBUS then ''SIGBUS'' else if sig = SIGFPE then ''SIGFPE''
     else if sig = SIGILL then ''SIGILL'' else if sig = SIGABRT then ''SIGABRT'' else if sig = SIGALRM then ''SIGALRM'' else ''signal'')"

text \<open>The handler, inside a test.\<close>

definition asmtest_on_signal :: "int \<Rightarrow> callee" where
  "asmtest_on_signal sig g =
     (let g1 = (if sig = SIGALRM
                then g\<lparr>g_msg := cbuf 1024 (''timed out after '' @ fmt_int (g_timeout g) @ '' s''), g_file := Some ''(timeout)''\<rparr>
                else g\<lparr>g_msg := cbuf 1024 (''caught fatal signal '' @ fmt_int sig @ '' ('' @ sig_name sig @ '')''), g_file := Some ''(signal)''\<rparr>)
      in (g1\<lparr>g_line := 0\<rparr>, Jumped JMP_FAIL))"

fun run_hooks :: "asmtest_hook list \<Rightarrow> string \<Rightarrow> int \<Rightarrow> callee" where
  "run_hooks [] suite kind g = (g, Returned)"
| "run_hooks (h # hs) suite kind g =
     (if hk_kind h = kind \<and> hk_suite h = suite
      then (case hk_fn h g of (g1, Returned) \<Rightarrow> run_hooks hs suite kind g1 | (g1, a) \<Rightarrow> (g1, a))
      else run_hooks hs suite kind g)"

text \<open>The hooks are the runner's list, newest first. The result is the outcome, or how the process ended.\<close>

definition run_body :: "asmtest_case \<Rightarrow> runner_g \<Rightarrow> runner_g \<times> (wait_status + outcome)" where
  "run_body tc g =
     (case tc_fn tc g of
        (g1, Returned) \<Rightarrow> (g1, Inr ST_PASS)
      | (g1, Jumped rc) \<Rightarrow> (g1, Inr (if rc = JMP_SKIP then ST_SKIP else ST_FAIL))
      | (g1, Died st) \<Rightarrow> (g1, Inl st))"

definition run_teardown :: "asmtest_hook list \<Rightarrow> asmtest_case \<Rightarrow> outcome \<Rightarrow> runner_g \<Rightarrow> runner_g \<times> (wait_status + outcome)" where
  "run_teardown hooks tc outcome g =
     (case run_hooks hooks (tc_suite tc) 1 g of
        (g1, Returned) \<Rightarrow> (g1, Inr outcome)
      | (g1, Jumped rc) \<Rightarrow>
          (g1, Inr (if rc = JMP_SKIP then (if outcome = ST_PASS then ST_SKIP else outcome)
                    else if outcome \<noteq> ST_FAIL then ST_FAIL else outcome))
      | (g1, Died st) \<Rightarrow> (g1, Inl st))"

definition run_one :: "asmtest_hook list \<Rightarrow> asmtest_case \<Rightarrow> runner_g \<Rightarrow> runner_g \<times> (wait_status + outcome)" where
  "run_one hooks tc g =
     (case run_hooks hooks (tc_suite tc) 0 (asmtest_record_begin (tc_suite tc) (tc_name tc) g) of
        (g1, Died st) \<Rightarrow> (g1, Inl st)
      | (g1, Jumped rc) \<Rightarrow> (g1, Inr (if rc = JMP_SKIP then ST_SKIP else ST_FAIL))
      | (g1, Returned) \<Rightarrow>
          (case run_body tc g1 of
             (g2, Inl st) \<Rightarrow> (g2, Inl st)
           | (g2, Inr outcome) \<Rightarrow> run_teardown hooks tc outcome g2))"

section \<open>Results\<close>

record wire_result =
  w_outcome :: outcome
  w_line :: int
  w_file :: string
  w_msg :: string
  w_rec_path :: string
  w_rec_step :: int

text \<open>The suite and name of a zeroed result are \<^verbatim>\<open>NULL\<close>.\<close>

record test_result =
  r_suite :: "string option"
  r_name :: "string option"
  r_outcome :: outcome
  r_line :: int
  r_file :: string
  r_msg :: string
  r_rec_path :: string
  r_rec_step :: int

definition zero_result :: test_result where
  "zero_result = \<lparr>r_suite = None, r_name = None, r_outcome = ST_PASS, r_line = 0, r_file = [], r_msg = [], r_rec_path = [], r_rec_step = 0\<rparr>"

definition capture_wire :: "runner_g \<Rightarrow> outcome \<Rightarrow> wire_result" where
  "capture_wire g outcome =
     \<lparr>w_outcome = outcome, w_line = g_line g, w_file = cbuf 256 (case g_file g of Some f \<Rightarrow> f | None \<Rightarrow> []), w_msg = cbuf 1024 (g_msg g),
      w_rec_path = cbuf 256 (g_note_path g), w_rec_step = g_note_step g\<rparr>"

definition apply_wire :: "test_result \<Rightarrow> wire_result \<Rightarrow> test_result" where
  "apply_wire res w =
     res\<lparr>r_outcome := w_outcome w, r_line := w_line w, r_file := cbuf 256 (w_file w), r_msg := cbuf 1024 (w_msg w),
         r_rec_path := cbuf 256 (w_rec_path w), r_rec_step := w_rec_step w\<rparr>"

text \<open>\<open>w\<close> is the record where the whole of it arrived.\<close>

definition reap_child :: "int \<Rightarrow> test_result \<Rightarrow> wire_result option \<Rightarrow> wait_status \<Rightarrow> test_result" where
  "reap_child timeout res w status =
     (case w of
        Some wr \<Rightarrow> apply_wire res wr
      | None \<Rightarrow>
          (let res1 = res\<lparr>r_outcome := ST_FAIL, r_line := 0, r_file := ''(child)'', r_rec_path := [], r_rec_step := - 1\<rparr> in
           case status of
             Signaled sig \<Rightarrow>
               if sig = SIGALRM then res1\<lparr>r_msg := cbuf 1024 (''timed out after '' @ fmt_int timeout @ '' s (killed)'')\<rparr>
               else res1\<lparr>r_msg := cbuf 1024 (''crashed: killed by signal '' @ fmt_int sig @ '' ('' @ sig_name sig @ '')'')\<rparr>
           | Exited n \<Rightarrow>
               if n \<noteq> 0 then res1\<lparr>r_msg := cbuf 1024 (''child exited abnormally (status '' @ fmt_int n @ '')'')\<rparr>
               else res1\<lparr>r_msg := ''no result reported by child''\<rparr>))"

text \<open>In the runner's own process; a test that ends the process ends the runner.\<close>

definition run_inproc :: "asmtest_hook list \<Rightarrow> asmtest_case \<Rightarrow> test_result \<Rightarrow> runner_g \<Rightarrow> runner_g \<times> (wait_status + test_result)" where
  "run_inproc hooks tc res g =
     (case run_one hooks tc g of
        (g1, Inl st) \<Rightarrow> (g1, Inl st)
      | (g1, Inr oc) \<Rightarrow> (g1, Inr (apply_wire res (capture_wire g1 oc))))"

text \<open>What a forked child delivers: the record it wrote, if it got there, and its status.\<close>

definition child_run :: "asmtest_hook list \<Rightarrow> asmtest_case \<Rightarrow> runner_g \<Rightarrow> wire_result option \<times> wait_status" where
  "child_run hooks tc g =
     (case run_one hooks tc g of
        (g1, Inl st) \<Rightarrow> (None, st)
      | (g1, Inr oc) \<Rightarrow> (Some (capture_wire g1 oc), Exited 0))"

definition run_forked :: "asmtest_hook list \<Rightarrow> asmtest_case \<Rightarrow> test_result \<Rightarrow> runner_g \<Rightarrow> heap \<Rightarrow> (runner_g \<times> (wait_status + test_result)) \<times> heap" where
  "run_forked hooks tc res g spawn =
     (case alloc spawn of (ok, spawn1) \<Rightarrow>
        (if \<not> ok then run_inproc hooks tc res g
         else (case child_run hooks tc g of (w, st) \<Rightarrow> (g, Inr (reap_child (g_timeout g) res w st))), spawn1))"

section \<open>The parallel pool\<close>

text \<open>A slot in flight carries what its child will deliver.\<close>

record job_slot =
  sl_fd :: int
  sl_idx :: nat
  sl_child :: "wire_result option \<times> wait_status"

datatype poll_ans = Poll_eintr | Poll_error | Poll_ready "bool list"

record pool =
  pl_slots :: "job_slot list"
  pl_next :: nat
  pl_done :: nat
  pl_results :: "test_result list"
  pl_g :: runner_g
  pl_spawn :: heap
  pl_polls :: "poll_ans list"
  pl_poll_ok :: bool
  pl_inject :: bool

text \<open>The environment of a run: the hooks, the selected tests and the kernel's choice of a file descriptor given those in use.\<close>

type_synonym penv = "asmtest_hook list \<times> asmtest_case list \<times> (int list \<Rightarrow> int)"

definition used_fds :: "pool \<Rightarrow> int list" where
  "used_fds p = map sl_fd (filter (\<lambda>s. sl_fd s \<noteq> - 1) (pl_slots p))"

text \<open>The result is the pool and whether a child is now in flight, or how an in-process test ended the runner.\<close>

definition spawn_job :: "penv \<Rightarrow> nat \<Rightarrow> nat \<Rightarrow> pool \<Rightarrow> wait_status + pool \<times> bool" where
  "spawn_job env j idx p =
     (case env of (hooks, sel, new_fd) \<Rightarrow>
      let r = (pl_results p ! idx)\<lparr>r_suite := Some (tc_suite (sel ! idx)), r_name := Some (tc_name (sel ! idx))\<rparr> in
      case alloc (pl_spawn p) of (ok, spawn1) \<Rightarrow>
        if \<not> ok then
          (case run_inproc hooks (sel ! idx) r (pl_g p) of
             (g1, Inl st) \<Rightarrow> Inl st
           | (g1, Inr r1) \<Rightarrow> Inr (p\<lparr>pl_results := (pl_results p)[idx := r1], pl_g := g1, pl_spawn := spawn1\<rparr>, False))
        else
          Inr (p\<lparr>pl_results := (pl_results p)[idx := r],
                 pl_slots := (pl_slots p)[j := \<lparr>sl_fd = new_fd (used_fds p), sl_idx = idx, sl_child = child_run hooks (sel ! idx) (pl_g p)\<rparr>],
                 pl_spawn := spawn1\<rparr>, True))"

text \<open>One iteration of the loop that fills the free slots, and the loop.\<close>

definition fill_slot :: "penv \<Rightarrow> nat \<Rightarrow> pool \<Rightarrow> wait_status + pool" where
  "fill_slot env j p =
     (if pl_next p < length (fst (snd env)) \<and> sl_fd (pl_slots p ! j) = - 1
      then (case spawn_job env j (pl_next p) p of
              Inl st \<Rightarrow> Inl st
            | Inr (p1, inflight) \<Rightarrow> Inr (p1\<lparr>pl_next := pl_next p + 1, pl_done := pl_done p1 + (if inflight then 0 else 1)\<rparr>))
      else Inr p)"

fun fill_slots :: "penv \<Rightarrow> nat list \<Rightarrow> pool \<Rightarrow> wait_status + pool" where
  "fill_slots env [] p = Inr p"
| "fill_slots env (j # js) p = (case fill_slot env j p of Inl st \<Rightarrow> Inl st | Inr p1 \<Rightarrow> fill_slots env js p1)"

text \<open>The descriptors handed to \<^verbatim>\<open>poll\<close>, in slot order, and the events it sets on them.\<close>

definition poll_fds :: "pool \<Rightarrow> int list" where
  "poll_fds p = map sl_fd (filter (\<lambda>s. \<not> sl_fd s < 0) (pl_slots p))"

definition revents :: "int list \<Rightarrow> bool list \<Rightarrow> int \<Rightarrow> bool" where
  "revents fds rs fd = foldl (\<lambda>re k. if fds ! k = fd then k < length rs \<and> rs ! k else re) False [0..<length fds]"

definition reap_slot :: "(int \<Rightarrow> bool) \<Rightarrow> nat \<Rightarrow> pool \<Rightarrow> pool" where
  "reap_slot ready j p =
     (let s = pl_slots p ! j in
      if sl_fd s < 0 \<or> \<not> ready (sl_fd s) then p
      else p\<lparr>pl_results := (pl_results p)[sl_idx s := reap_child (g_timeout (pl_g p)) (pl_results p ! sl_idx s) (fst (sl_child s)) (snd (sl_child s))],
             pl_slots := (pl_slots p)[j := s\<lparr>sl_fd := - 1\<rparr>], pl_done := pl_done p + 1\<rparr>)"

definition reap_slots :: "(int \<Rightarrow> bool) \<Rightarrow> pool \<Rightarrow> pool" where
  "reap_slots ready p = fold (reap_slot ready) [0..<length (pl_slots p)] p"

text \<open>The \<^verbatim>\<open>poll\<close> of a round: its answer and the pool after it.\<close>

definition poll_step :: "pool \<Rightarrow> poll_ans \<times> pool" where
  "poll_step p =
     (if pl_inject p then (Poll_error, p\<lparr>pl_inject := False\<rparr>)
      else case pl_polls p of
        [] \<Rightarrow> (Poll_ready (replicate (length (poll_fds p)) True), p)
      | a # as \<Rightarrow> (a, p\<lparr>pl_polls := as\<rparr>))"

definition after_fill :: "pool \<Rightarrow> pool" where
  "after_fill p =
     (if poll_fds p = [] then p
      else if \<not> pl_poll_ok p then reap_slots (\<lambda>_. True) p
      else case poll_step p of
        (Poll_eintr, p1) \<Rightarrow> p1
      | (Poll_error, p1) \<Rightarrow> reap_slots (\<lambda>_. True) (p1\<lparr>pl_poll_ok := False\<rparr>)
      | (Poll_ready rs, p1) \<Rightarrow> reap_slots (revents (poll_fds p) rs) p1)"

fun pool_loop :: "penv \<Rightarrow> nat \<Rightarrow> pool \<Rightarrow> (wait_status + pool) option" where
  "pool_loop env fuel p =
     (if \<not> pl_done p < length (fst (snd env)) then Some (Inr p)
      else case fuel of
        0 \<Rightarrow> None
      | Suc k \<Rightarrow>
          (case fill_slots env [0..<length (pl_slots p)] p of
             Inl st \<Rightarrow> Some (Inl st)
           | Inr p1 \<Rightarrow> pool_loop env k (after_fill p1)))"

declare pool_loop.simps [simp del]

definition pool_jobs :: "int \<Rightarrow> nat \<Rightarrow> nat" where
  "pool_jobs jobs n = (let j = (if jobs < 1 then 1 else jobs) in nat (if j > int n then int n else j))"

text \<open>The results, or how an in-process test ended the runner. A round consumes an answer of \<^verbatim>\<open>poll\<close> or finishes a test, so the fuel is enough.\<close>

definition run_parallel ::
  "penv \<Rightarrow> test_result list \<Rightarrow> int \<Rightarrow> runner_g \<Rightarrow> heap \<Rightarrow> poll_ans list \<Rightarrow> bool \<Rightarrow> (wait_status + test_result list) option" where
  "run_parallel env results jobs g spawn polls inject =
     (let n = length (fst (snd env));
          p = \<lparr>pl_slots = replicate (pool_jobs jobs n) \<lparr>sl_fd = - 1, sl_idx = 0, sl_child = (None, Exited 0)\<rparr>, pl_next = 0, pl_done = 0,
               pl_results = results, pl_g = g, pl_spawn = spawn, pl_polls = polls, pl_poll_ok = True, pl_inject = inject\<rparr>
      in case pool_loop env (length polls + n + 1) p of
           None \<Rightarrow> None
         | Some (Inl st) \<Rightarrow> Some (Inl st)
         | Some (Inr p1) \<Rightarrow> Some (Inr (pl_results p1)))"

section \<open>Selection\<close>

text \<open>\<open>fnmatch\<close> is the C library's: pattern, then string.\<close>

definition id_matches :: "(string \<Rightarrow> string \<Rightarrow> bool) \<Rightarrow> string \<Rightarrow> string \<Rightarrow> string \<Rightarrow> bool" where
  "id_matches fnmatch suite name glob =
     (let ident = cbuf 256 (suite @ ''.'' @ name) in fnmatch glob ident \<or> fnmatch glob suite \<or> fnmatch glob name)"

record options =
  opt_filter :: "string option"
  opt_do_list :: bool
  opt_shuffle :: bool
  opt_seed :: u64
  opt_fork_tests :: bool
  opt_jobs :: int
  opt_fail_if_no_tests :: bool
  opt_fail_fast :: bool
  opt_repeat :: int
  opt_shard_k :: int
  opt_shard_n :: int

text \<open>The selection is two arrays: the tests and their registration indices.\<close>

type_synonym selection = "asmtest_case list \<times> nat list"

definition select_tests :: "(string \<Rightarrow> string \<Rightarrow> bool) \<Rightarrow> string option \<Rightarrow> asmtest_case list \<Rightarrow> selection" where
  "select_tests fnmatch flt tests =
     (let kept = filter (\<lambda>(gi, tc). case flt of None \<Rightarrow> True | Some glob \<Rightarrow> id_matches fnmatch (tc_suite tc) (tc_name tc) glob)
                   (zip [0..<length tests] tests)
      in (map snd kept, map fst kept))"

definition shard_tests :: "int \<Rightarrow> int \<Rightarrow> selection \<Rightarrow> selection" where
  "shard_tests k n s =
     (if n > 1
      then (let kept = filter (\<lambda>i. int i mod n = k - 1) [0..<length (fst s)] in (map ((!) (fst s)) kept, map ((!) (snd s)) kept))
      else s)"

text \<open>\<open>None\<close> is the refusal of a selection that would not fit an \<^verbatim>\<open>int\<close>.\<close>

definition repeat_tests :: "int \<Rightarrow> selection \<Rightarrow> selection option" where
  "repeat_tests reps s =
     (if reps > 1 \<and> fst s \<noteq> []
      then if int (length (fst s)) > (2 ^ 31 - 1) div reps then None
           else Some (concat (replicate (nat reps) (fst s)), concat (replicate (nat reps) (snd s)))
      else Some s)"

definition swap_at :: "'a list \<Rightarrow> nat \<Rightarrow> nat \<Rightarrow> 'a list" where
  "swap_at xs i j = xs[i := xs ! j, j := xs ! i]"

fun shuffle_from :: "nat \<Rightarrow> u64 \<Rightarrow> selection \<Rightarrow> selection" where
  "shuffle_from 0 rng s = s"
| "shuffle_from (Suc i) rng s =
     (case asmtest_rng_u64 rng of (z, rng1) \<Rightarrow>
        let j = unat (z mod of_nat (Suc i + 1)) in
        shuffle_from i rng1 (swap_at (fst s) (Suc i) j, swap_at (snd s) (Suc i) j))"

definition shuffle_tests :: "u64 \<Rightarrow> selection \<Rightarrow> selection" where
  "shuffle_tests seed s = shuffle_from (length (fst s) - 1) seed s"

section \<open>The run\<close>

definition new_result :: "asmtest_case \<Rightarrow> test_result" where
  "new_result tc = zero_result\<lparr>r_suite := Some (tc_suite tc), r_name := Some (tc_name tc)\<rparr>"

fun run_serial :: "asmtest_hook list \<Rightarrow> bool \<Rightarrow> bool \<Rightarrow> asmtest_case list \<Rightarrow> runner_g \<Rightarrow> heap \<Rightarrow> wait_status + test_result list" where
  "run_serial hooks fork fail_fast [] g spawn = Inr []"
| "run_serial hooks fork fail_fast (tc # tcs) g spawn =
     (case (if fork then run_forked hooks tc (new_result tc) g spawn else (run_inproc hooks tc (new_result tc) g, spawn)) of
        ((g1, Inl st), spawn1) \<Rightarrow> Inl st
      | ((g1, Inr r), spawn1) \<Rightarrow>
          if fail_fast \<and> r_outcome r = ST_FAIL then Inr [r]
          else (case run_serial hooks fork fail_fast tcs g1 spawn1 of Inl st \<Rightarrow> Inl st | Inr rs \<Rightarrow> Inr (r # rs)))"

definition run_selected ::
  "options \<Rightarrow> penv \<Rightarrow> runner_g \<Rightarrow> heap \<Rightarrow> poll_ans list \<Rightarrow> bool \<Rightarrow> (wait_status + test_result list) option" where
  "run_selected opt env g spawn polls inject =
     (case env of (hooks, sel, new_fd) \<Rightarrow>
      if opt_fork_tests opt \<and> opt_jobs opt > 1 \<and> length sel > 1 \<and> \<not> opt_fail_fast opt
      then run_parallel env (replicate (length sel) zero_result) (opt_jobs opt) g spawn polls inject
      else Some (run_serial hooks (opt_fork_tests opt) (opt_fail_fast opt) sel g spawn))"

definition exit_status :: "options \<Rightarrow> nat \<Rightarrow> test_result list \<Rightarrow> int" where
  "exit_status opt n results =
     (if length (filter (\<lambda>r. r_outcome r \<noteq> ST_PASS \<and> r_outcome r \<noteq> ST_SKIP) results) \<noteq> 0 \<or> n = 0 \<and> opt_fail_if_no_tests opt then 1 else 0)"

text \<open>How the program ends: listed, refused, with an exit status and the results it printed, or killed by a test it ran in its own process.\<close>

datatype main_end = Listed "(string \<times> string) list" | Refused int | Finished int "test_result list" | Killed wait_status

definition asmtest_main ::
  "(string \<Rightarrow> string \<Rightarrow> bool) \<Rightarrow> options \<Rightarrow> asmtest_case list \<Rightarrow> asmtest_hook list \<Rightarrow> (int list \<Rightarrow> int) \<Rightarrow> runner_g \<Rightarrow> heap \<Rightarrow> poll_ans list \<Rightarrow> bool \<Rightarrow> main_end option" where
  "asmtest_main fnmatch opt tests hooks new_fd g spawn polls inject =
     (let s1 = shard_tests (opt_shard_k opt) (opt_shard_n opt) (select_tests fnmatch (opt_filter opt) tests) in
      if opt_do_list opt then Some (Listed (map (\<lambda>tc. (tc_suite tc, tc_name tc)) (fst s1)))
      else case repeat_tests (opt_repeat opt) s1 of
        None \<Rightarrow> Some (Refused 2)
      | Some s2 \<Rightarrow>
          (let s3 = (if opt_shuffle opt then shuffle_tests (opt_seed opt) s2 else s2) in
           case run_selected opt (hooks, fst s3, new_fd) g spawn polls inject of
             None \<Rightarrow> None
           | Some (Inl st) \<Rightarrow> Some (Killed st)
           | Some (Inr rs) \<Rightarrow> Some (Finished (exit_status opt (length (fst s3)) rs) rs)))"

section \<open>The pool finishes every test\<close>

definition titled :: "asmtest_case \<Rightarrow> test_result \<Rightarrow> test_result" where
  "titled tc res = res\<lparr>r_suite := Some (tc_suite tc), r_name := Some (tc_name tc)\<rparr>"

definition live :: "job_slot \<Rightarrow> bool" where
  "live s \<longleftrightarrow> 0 \<le> sl_fd s"

text \<open>
  A result that stems from running the test: in a child forked off the runner, or in the runner itself where forking is not certain. The runner's globals
  on these occasions satisfy \<open>Q\<close>.
\<close>

definition ran_test :: "bool \<Rightarrow> (runner_g \<Rightarrow> bool) \<Rightarrow> asmtest_hook list \<Rightarrow> asmtest_case \<Rightarrow> test_result \<Rightarrow> bool" where
  "ran_test F Q hooks tc r \<longleftrightarrow>
     (\<exists>g g'. Q g \<and> Q g' \<and> r = reap_child (g_timeout g') (titled tc zero_result) (fst (child_run hooks tc g)) (snd (child_run hooks tc g))) \<or>
     \<not> F \<and> (\<exists>g g'. Q g \<and> run_inproc hooks tc (titled tc zero_result) g = (g', Inr r))"

definition slot_ok :: "(runner_g \<Rightarrow> bool) \<Rightarrow> penv \<Rightarrow> pool \<Rightarrow> job_slot \<Rightarrow> bool" where
  "slot_ok Q env p s \<longleftrightarrow>
     (sl_fd s = - 1 \<or> 0 \<le> sl_fd s) \<and>
     (live s \<longrightarrow> sl_idx s < pl_next p \<and>
        (\<exists>res. pl_results p ! sl_idx s = titled (fst (snd env) ! sl_idx s) res) \<and>
        (\<exists>g. Q g \<and> sl_child s = child_run (fst env) (fst (snd env) ! sl_idx s) g))"

definition pool_inv :: "bool \<Rightarrow> (runner_g \<Rightarrow> bool) \<Rightarrow> penv \<Rightarrow> pool \<Rightarrow> bool" where
  "pool_inv F Q env p \<longleftrightarrow>
     length (pl_results p) = length (fst (snd env)) \<and> pl_next p \<le> length (fst (snd env)) \<and>
     pl_done p + length (filter live (pl_slots p)) = pl_next p \<and>
     (\<forall>s\<in>set (pl_slots p). slot_ok Q env p s) \<and>
     (\<forall>i<pl_next p. (\<exists>s\<in>set (pl_slots p). live s \<and> sl_idx s = i) \<or> ran_test F Q (fst env) (fst (snd env) ! i) (pl_results p ! i)) \<and>
     Q (pl_g p) \<and> (F \<longrightarrow> pl_spawn p = [])"

lemma apply_wire_titled: "apply_wire (titled tc res) w = apply_wire (titled tc res') w"
  by (simp add: apply_wire_def titled_def)

lemma reap_child_titled: "reap_child t (titled tc res) w st = reap_child t (titled tc res') w st"
  unfolding reap_child_def titled_def apply_wire_def Let_def by (cases w; cases st) simp_all

lemma reap_child_keeps_title: "\<exists>res'. reap_child t (titled tc res) w st = titled tc res'"
proof
  show "reap_child t (titled tc res) w st = titled tc (reap_child t (titled tc res) w st)"
    unfolding reap_child_def titled_def apply_wire_def Let_def by (cases w; cases st) simp_all
qed

lemma run_inproc_titled: "run_inproc hooks tc (titled tc res) g = run_inproc hooks tc (titled tc res') g"
  using apply_wire_titled by (auto simp: run_inproc_def split: prod.splits sum.splits)

lemma run_inproc_keeps_title: "run_inproc hooks tc (titled tc res) g = (g', Inr r) \<Longrightarrow> \<exists>res'. r = titled tc res'"
  by (rule exI [of _ r]) (auto simp: run_inproc_def apply_wire_def titled_def split: prod.splits sum.splits)

lemma count_update:
  "j < length xs \<Longrightarrow> length (filter P (xs[j := x])) + (if P (xs ! j) then 1 else 0) = length (filter P xs) + (if P x then 1 else 0)"
proof (induction xs arbitrary: j)
  case (Cons y ys)
  then show ?case using Cons.IH [of "j - 1"] by (cases j) auto
qed simp

lemma live_kept:
  assumes "\<exists>s\<in>set xs. live s \<and> sl_idx s = i" "\<not> live (xs ! j) \<or> sl_idx (xs ! j) \<noteq> i"
  shows "\<exists>s\<in>set (xs[j := x]). live s \<and> sl_idx s = i"
proof -
  from assms(1) obtain k where k: "k < length xs" "live (xs ! k)" "sl_idx (xs ! k) = i" by (metis in_set_conv_nth)
  moreover have "j \<noteq> k" using k assms(2) by auto
  ultimately show ?thesis by (intro bexI [of _ "xs ! k"]) (auto simp: in_set_conv_nth intro!: exI [of _ k])
qed

lemma slot_ok_results:
  assumes "slot_ok Q env p s" "pl_next p \<le> pl_next p'"
    "\<And>res. pl_results p ! sl_idx s = titled (fst (snd env) ! sl_idx s) res \<Longrightarrow> \<exists>res'. pl_results p' ! sl_idx s = titled (fst (snd env) ! sl_idx s) res'"
  shows "slot_ok Q env p' s"
  using assms unfolding slot_ok_def by (meson order_less_le_trans)

text \<open>What a step of the pool may change besides the invariant.\<close>

definition pool_mono :: "pool \<Rightarrow> pool \<Rightarrow> bool" where
  "pool_mono p p' \<longleftrightarrow> pl_polls p' = pl_polls p \<and> pl_inject p' = pl_inject p \<and> pl_poll_ok p' = pl_poll_ok p \<and>
     length (pl_slots p') = length (pl_slots p) \<and> pl_next p \<le> pl_next p' \<and> pl_done p \<le> pl_done p'"

lemma pool_mono_refl: "pool_mono p p"
  by (simp add: pool_mono_def)

lemma pool_mono_trans: "pool_mono p q \<Longrightarrow> pool_mono q r \<Longrightarrow> pool_mono p r"
  by (auto simp: pool_mono_def)

lemma fill_inproc_inv:
  assumes inv: "pool_inv False (\<lambda>_. True) env p" and n: "pl_next p < length (fst (snd env))"
    and r: "run_inproc (fst env) (fst (snd env) ! pl_next p) (titled (fst (snd env) ! pl_next p) res) g = (g1, Inr r1)"
    and p': "p' = p\<lparr>pl_results := (pl_results p)[pl_next p := r1], pl_g := g1, pl_spawn := sp, pl_next := pl_next p + 1, pl_done := pl_done p + 1\<rparr>"
  shows "pool_inv False (\<lambda>_. True) env p'"
proof -
  let ?sel = "fst (snd env)"
  have i: "length (pl_results p) = length ?sel" "pl_done p + length (filter live (pl_slots p)) = pl_next p"
    "\<And>s. s \<in> set (pl_slots p) \<Longrightarrow> slot_ok (\<lambda>_. True) env p s"
    "\<And>i. i < pl_next p \<Longrightarrow> (\<exists>s\<in>set (pl_slots p). live s \<and> sl_idx s = i) \<or> ran_test False (\<lambda>_. True) (fst env) (?sel ! i) (pl_results p ! i)"
    using inv by (auto simp: pool_inv_def)
  obtain res' where t: "r1 = titled (?sel ! pl_next p) res'" using run_inproc_keeps_title [OF r] by blast
  have "slot_ok (\<lambda>_. True) env p' s" if "s \<in> set (pl_slots p)" for s
    using i(3) [OF that] by (rule slot_ok_results) (use t p' n i(1) in \<open>auto simp: nth_list_update\<close>)
  moreover have "ran_test False (\<lambda>_. True) (fst env) (?sel ! pl_next p) r1"
    using r run_inproc_titled [of "fst env" "?sel ! pl_next p" res g zero_result] by (auto simp: ran_test_def)
  ultimately show ?thesis using i n by (auto simp: pool_inv_def p' less_Suc_eq)
qed

lemma fill_fork_inv:
  assumes inv: "pool_inv F Q env p" and n: "pl_next p < length (fst (snd env))" and j: "j < length (pl_slots p)" "sl_fd (pl_slots p ! j) = - 1"
    and fd: "0 \<le> fd" and sp: "F \<longrightarrow> sp = []"
    and p': "p' = p\<lparr>pl_results := (pl_results p)[pl_next p := titled (fst (snd env) ! pl_next p) res],
        pl_slots := (pl_slots p)[j := \<lparr>sl_fd = fd, sl_idx = pl_next p, sl_child = child_run (fst env) (fst (snd env) ! pl_next p) (pl_g p)\<rparr>],
        pl_spawn := sp, pl_next := pl_next p + 1\<rparr>"
  shows "pool_inv F Q env p'"
proof -
  let ?sel = "fst (snd env)" and ?new = "\<lparr>sl_fd = fd, sl_idx = pl_next p, sl_child = child_run (fst env) (fst (snd env) ! pl_next p) (pl_g p)\<rparr>"
  have i: "length (pl_results p) = length ?sel" "pl_done p + length (filter live (pl_slots p)) = pl_next p" "Q (pl_g p)"
    "\<And>s. s \<in> set (pl_slots p) \<Longrightarrow> slot_ok Q env p s"
    "\<And>i. i < pl_next p \<Longrightarrow> (\<exists>s\<in>set (pl_slots p). live s \<and> sl_idx s = i) \<or> ran_test F Q (fst env) (?sel ! i) (pl_results p ! i)"
    using inv by (auto simp: pool_inv_def)
  have old: "slot_ok Q env p' s" if "s \<in> set (pl_slots p)" for s
    using i(4) [OF that] by (rule slot_ok_results) (use p' n i(1) in \<open>auto simp: nth_list_update\<close>)
  have new: "slot_ok Q env p' ?new" using fd n i(1,3) by (auto simp: slot_ok_def p' live_def)
  have nl: "\<not> live (pl_slots p ! j)" using j(2) by (simp add: live_def)
  have "live ?new" using fd by (simp add: live_def)
  then have c: "length (filter live ((pl_slots p)[j := ?new])) = Suc (length (filter live (pl_slots p)))"
    using count_update [OF j(1), of live ?new] nl by simp
  have mem: "?new \<in> set ((pl_slots p)[j := ?new])" using j(1) by (simp add: set_update_memI)
  have "\<forall>s\<in>set (pl_slots p'). slot_ok Q env p' s" using old new set_update_subset_insert [of "pl_slots p" j ?new] by (auto simp: p')
  moreover have "(\<exists>s\<in>set (pl_slots p'). live s \<and> sl_idx s = i) \<or> ran_test F Q (fst env) (?sel ! i) (pl_results p' ! i)" if "i < pl_next p'" for i
  proof (cases "i = pl_next p")
    case True
    then show ?thesis using mem \<open>live ?new\<close> by (intro disjI1 bexI [of _ ?new]) (simp_all add: p')
  next
    case False
    then show ?thesis using i(5) [of i] live_kept [of "pl_slots p" i j ?new] nl that by (auto simp: p')
  qed
  ultimately show ?thesis using i(1-3) n c sp by (simp add: pool_inv_def p')
qed

lemma titled_r:
  "r\<lparr>r_suite := Some (tc_suite tc), r_name := Some (tc_name tc)\<rparr> = titled tc r"
  by (simp add: titled_def)

lemma fill_slot_inv:
  assumes inv: "pool_inv F Q env p" and j: "j < length (pl_slots p)" and fd: "\<forall>u. 0 \<le> snd (snd env) u" and FQ: "F \<or> Q = (\<lambda>_. True)"
  shows "case fill_slot env j p of
      Inl st \<Rightarrow> \<not> F
    | Inr p' \<Rightarrow> pool_inv F Q env p' \<and> pool_mono p p' \<and>
        (pl_next p < length (fst (snd env)) \<and> sl_fd (pl_slots p ! j) = - 1 \<longrightarrow> pl_next p' = pl_next p + 1)"
proof (cases "pl_next p < length (fst (snd env)) \<and> sl_fd (pl_slots p ! j) = - 1")
  case False
  then show ?thesis using inv by (auto simp: fill_slot_def pool_mono_refl)
next
  case n: True
  let ?i = "pl_next p" and ?tc = "fst (snd env) ! pl_next p"
  let ?r = "titled ?tc (pl_results p ! ?i)"
  obtain ok sp where a: "alloc (pl_spawn p) = (ok, sp)" by fastforce
  have spF: "F \<longrightarrow> ok \<and> sp = []" using inv a by (auto simp: pool_inv_def)
  have env: "env = (fst env, fst (snd env), snd (snd env))" by simp
  show ?thesis
  proof (cases ok)
    case True
    let ?p' = "p\<lparr>pl_results := (pl_results p)[?i := ?r],
        pl_slots := (pl_slots p)[j := \<lparr>sl_fd = snd (snd env) (used_fds p), sl_idx = ?i, sl_child = child_run (fst env) ?tc (pl_g p)\<rparr>],
        pl_spawn := sp, pl_next := ?i + 1\<rparr>"
    have e: "fill_slot env j p = Inr ?p'"
      using n True a by (simp add: fill_slot_def spawn_job_def case_prod_unfold Let_def titled_r)
    have "pool_inv F Q env ?p'"
      by (rule fill_fork_inv [OF inv _ j _ _ _ refl]) (use n fd spF in auto)
    moreover have "pool_mono p ?p'" by (simp add: pool_mono_def)
    ultimately show ?thesis by (simp add: e)
  next
    case False
    then have F: "\<not> F" "Q = (\<lambda>_. True)" using spF FQ by auto
    obtain g1 x where r: "run_inproc (fst env) ?tc ?r (pl_g p) = (g1, x)" by fastforce
    show ?thesis
    proof (cases x)
      case (Inl st)
      then have "fill_slot env j p = Inl st"
        using n False a r by (simp add: fill_slot_def spawn_job_def case_prod_unfold Let_def titled_r)
      then show ?thesis using F by simp
    next
      case (Inr r1)
      let ?p' = "p\<lparr>pl_results := (pl_results p)[?i := r1], pl_g := g1, pl_spawn := sp, pl_next := ?i + 1, pl_done := pl_done p + 1\<rparr>"
      have e: "fill_slot env j p = Inr ?p'"
        using n False a r Inr by (simp add: fill_slot_def spawn_job_def case_prod_unfold Let_def titled_r)
      have "pool_inv F Q env ?p'" using inv n r Inr F unfolding F(2) by (simp only: F(1)) (rule fill_inproc_inv [OF _ _ _ refl], auto)
      moreover have "pool_mono p ?p'" by (simp add: pool_mono_def)
      ultimately show ?thesis by (simp add: e)
    qed
  qed
qed

lemma fill_slots_inv:
  assumes "\<forall>u. 0 \<le> snd (snd env) u" "F \<or> Q = (\<lambda>_. True)" "pool_inv F Q env p" "\<forall>j\<in>set js. j < length (pl_slots p)"
  shows "case fill_slots env js p of Inl st \<Rightarrow> \<not> F | Inr p' \<Rightarrow> pool_inv F Q env p' \<and> pool_mono p p'"
  using assms(3,4)
proof (induction js arbitrary: p)
  case (Cons j js)
  have f: "case fill_slot env j p of Inl st \<Rightarrow> \<not> F | Inr p' \<Rightarrow> pool_inv F Q env p' \<and> pool_mono p p' \<and>
      (pl_next p < length (fst (snd env)) \<and> sl_fd (pl_slots p ! j) = - 1 \<longrightarrow> pl_next p' = pl_next p + 1)"
    using Cons.prems by (intro fill_slot_inv [OF _ _ assms(1,2)]) auto
  show ?case
  proof (cases "fill_slot env j p")
    case (Inr p1)
    then have p1: "pool_inv F Q env p1" "pool_mono p p1" using f by auto
    then have "\<forall>j\<in>set js. j < length (pl_slots p1)" using Cons.prems(2) by (auto simp: pool_mono_def)
    from Cons.IH [OF p1(1) this] show ?thesis using Inr pool_mono_trans [OF p1(2)] by (auto split: sum.splits)
  qed (use f in simp)
qed (simp add: pool_mono_refl)

lemma fill_progress:
  assumes "\<forall>u. 0 \<le> snd (snd env) u" "F \<or> Q = (\<lambda>_. True)" "pool_inv F Q env p" "pl_slots p \<noteq> []" "pl_done p < length (fst (snd env))"
    and f: "fill_slots env [0..<length (pl_slots p)] p = Inr p'"
  shows "pl_done p < pl_next p'"
proof -
  have c: "pl_done p + length (filter live (pl_slots p)) = pl_next p" using assms(3) by (simp add: pool_inv_def)
  have m: "pool_mono p p'" using fill_slots_inv [OF assms(1-3), of "[0..<length (pl_slots p)]"] f by simp
  show ?thesis
  proof (cases "filter live (pl_slots p) = []")
    case False
    then show ?thesis using c m by (auto simp: pool_mono_def simp flip: length_greater_0_conv)
  next
    case True
    then have "\<not> live (pl_slots p ! 0)" using assms(4) by (simp add: filter_empty_conv)
    moreover have "slot_ok Q env p (pl_slots p ! 0)" using assms(3,4) by (simp add: pool_inv_def)
    ultimately have fd: "sl_fd (pl_slots p ! 0) = - 1" by (simp add: slot_ok_def live_def)
    have n: "pl_next p = pl_done p" using c True by simp
    have u: "[0..<length (pl_slots p)] = 0 # [1..<length (pl_slots p)]" using assms(4) by (simp add: upt_conv_Cons)
    obtain p1 where p1: "fill_slot env 0 p = Inr p1" "fill_slots env [1..<length (pl_slots p)] p1 = Inr p'"
      using f unfolding u by (auto split: sum.splits)
    have 1: "pool_inv F Q env p1" "pool_mono p p1" "pl_next p1 = pl_next p + 1"
      using fill_slot_inv [OF assms(3) _ assms(1,2), of 0] assms(4,5) p1(1) n fd by auto
    have "pool_mono p1 p'" using fill_slots_inv [OF assms(1,2) 1(1), of "[1..<length (pl_slots p)]"] p1(2) 1(2) by (simp add: pool_mono_def)
    then show ?thesis using 1(3) n by (simp add: pool_mono_def)
  qed
qed

lemma reap_slot_inv:
  assumes inv: "pool_inv F Q env p" and j: "j < length (pl_slots p)"
  shows "pool_inv F Q env (reap_slot ready j p) \<and> pool_mono p (reap_slot ready j p) \<and>
     (live (pl_slots p ! j) \<and> ready (sl_fd (pl_slots p ! j)) \<longrightarrow> pl_done (reap_slot ready j p) = pl_done p + 1) \<and>
     (\<forall>k. k \<noteq> j \<longrightarrow> pl_slots (reap_slot ready j p) ! k = pl_slots p ! k)"
proof (cases "live (pl_slots p ! j) \<and> ready (sl_fd (pl_slots p ! j))")
  case False
  then have "reap_slot ready j p = p" by (auto simp: reap_slot_def live_def Let_def)
  then show ?thesis using inv False by (auto simp: pool_mono_refl)
next
  case True
  let ?s = "pl_slots p ! j" and ?sel = "fst (snd env)"
  let ?r = "reap_child (g_timeout (pl_g p)) (pl_results p ! sl_idx ?s) (fst (sl_child ?s)) (snd (sl_child ?s))"
  let ?p' = "p\<lparr>pl_results := (pl_results p)[sl_idx ?s := ?r], pl_slots := (pl_slots p)[j := ?s\<lparr>sl_fd := - 1\<rparr>], pl_done := pl_done p + 1\<rparr>"
  have e: "reap_slot ready j p = ?p'" using True by (simp add: reap_slot_def live_def Let_def)
  have i: "length (pl_results p) = length ?sel" "pl_next p \<le> length ?sel" "pl_done p + length (filter live (pl_slots p)) = pl_next p" "Q (pl_g p)"
    "\<And>s. s \<in> set (pl_slots p) \<Longrightarrow> slot_ok Q env p s"
    "\<And>i. i < pl_next p \<Longrightarrow> (\<exists>s\<in>set (pl_slots p). live s \<and> sl_idx s = i) \<or> ran_test F Q (fst env) (?sel ! i) (pl_results p ! i)" "F \<longrightarrow> pl_spawn p = []"
    using inv by (auto simp: pool_inv_def)
  have "slot_ok Q env p ?s" using i(5) j by simp
  then obtain res g where s: "sl_idx ?s < pl_next p" "pl_results p ! sl_idx ?s = titled (?sel ! sl_idx ?s) res" "Q g"
    "sl_child ?s = child_run (fst env) (?sel ! sl_idx ?s) g"
    using True by (auto simp: slot_ok_def)
  have il: "sl_idx ?s < length (pl_results p)" using s(1) i(1,2) by simp
  have rr: "ran_test F Q (fst env) (?sel ! sl_idx ?s) ?r"
    unfolding ran_test_def s(2,4) using i(4) s(3) reap_child_titled by blast
  obtain res' where rt: "?r = titled (?sel ! sl_idx ?s) res'" unfolding s(2) using reap_child_keeps_title by blast
  have old: "slot_ok Q env ?p' x" if "x \<in> set (pl_slots p)" for x
    using i(5) [OF that] by (rule slot_ok_results) (use rt il in \<open>auto simp: nth_list_update\<close>)
  have "slot_ok Q env ?p' (?s\<lparr>sl_fd := - 1\<rparr>)" by (simp add: slot_ok_def live_def)
  then have "\<forall>x\<in>set (pl_slots ?p'). slot_ok Q env ?p' x" using old set_update_subset_insert [of "pl_slots p" j] by auto
  moreover have "length (filter live (pl_slots ?p')) + 1 = length (filter live (pl_slots p))"
    using count_update [OF j, of live "?s\<lparr>sl_fd := - 1\<rparr>"] True by (simp add: live_def)
  moreover have "(\<exists>x\<in>set (pl_slots ?p'). live x \<and> sl_idx x = k) \<or> ran_test F Q (fst env) (?sel ! k) (pl_results ?p' ! k)" if "k < pl_next p" for k
  proof (cases "k = sl_idx ?s")
    case True
    then show ?thesis using rr il by simp
  next
    case False
    then show ?thesis using i(6) [OF that] live_kept [of "pl_slots p" k j "?s\<lparr>sl_fd := - 1\<rparr>"] by auto
  qed
  ultimately have "pool_inv F Q env ?p'" using i by (simp add: pool_inv_def)
  then show ?thesis unfolding e by (simp add: pool_mono_def)
qed

lemma reap_fold_inv:
  assumes "pool_inv F Q env p" "\<forall>j\<in>set js. j < length (pl_slots p)" "distinct js"
  shows "pool_inv F Q env (fold (reap_slot ready) js p) \<and> pool_mono p (fold (reap_slot ready) js p) \<and>
     ((\<exists>j\<in>set js. live (pl_slots p ! j) \<and> ready (sl_fd (pl_slots p ! j))) \<longrightarrow> pl_done p < pl_done (fold (reap_slot ready) js p))"
  using assms
proof (induction js arbitrary: p)
  case (Cons j js)
  let ?q = "reap_slot ready j p"
  have q: "pool_inv F Q env ?q" "pool_mono p ?q" "live (pl_slots p ! j) \<and> ready (sl_fd (pl_slots p ! j)) \<longrightarrow> pl_done ?q = pl_done p + 1"
    "\<forall>k. k \<noteq> j \<longrightarrow> pl_slots ?q ! k = pl_slots p ! k"
    using reap_slot_inv [OF Cons.prems(1), of j ready] Cons.prems(2) by auto
  have "\<forall>j\<in>set js. j < length (pl_slots ?q)" "distinct js" using Cons.prems(2,3) q(2) by (auto simp: pool_mono_def)
  note IH = Cons.IH [OF q(1) this]
  then have m: "pool_mono p (fold (reap_slot ready) js ?q)" "pool_mono ?q (fold (reap_slot ready) js ?q)" using pool_mono_trans q(2) by blast+
  have "pl_done p < pl_done (fold (reap_slot ready) js ?q)" if ex: "\<exists>k\<in>set (j # js). live (pl_slots p ! k) \<and> ready (sl_fd (pl_slots p ! k))"
  proof (cases "live (pl_slots p ! j) \<and> ready (sl_fd (pl_slots p ! j))")
    case True
    then show ?thesis using q(3) m(2) by (simp add: pool_mono_def)
  next
    case False
    then obtain k where "k \<in> set js" "live (pl_slots ?q ! k)" "ready (sl_fd (pl_slots ?q ! k))"
      using ex q(4) Cons.prems(3) by fastforce
    then have "pl_done ?q < pl_done (fold (reap_slot ready) js ?q)" using IH by blast
    then show ?thesis using q(2) by (simp add: pool_mono_def)
  qed
  then show ?case using IH m(1) by simp
qed (simp add: pool_mono_refl)

lemma reap_slots_inv:
  assumes "pool_inv F Q env p"
  shows "pool_inv F Q env (reap_slots ready p) \<and> pool_mono p (reap_slots ready p) \<and>
     ((\<exists>s\<in>set (pl_slots p). live s \<and> ready (sl_fd s)) \<longrightarrow> pl_done p < pl_done (reap_slots ready p))"
  using reap_fold_inv [OF assms, of "[0..<length (pl_slots p)]" ready] unfolding reap_slots_def by (auto simp: in_set_conv_nth)

lemma revents_all: "fd \<in> set fds \<Longrightarrow> revents fds (replicate (length fds) True) fd"
proof -
  have f: "foldl (\<lambda>re k. if fds ! k = fd then k < length fds \<and> replicate (length fds) True ! k else re) False [0..<m] \<longleftrightarrow> (\<exists>k<m. fds ! k = fd)"
    if "m \<le> length fds" for m
    using that by (induction m) (auto simp: less_Suc_eq)
  show "fd \<in> set fds \<Longrightarrow> revents fds (replicate (length fds) True) fd"
    unfolding revents_def length_replicate f [OF order_refl] by (auto simp: in_set_conv_nth)
qed

text \<open>A round leaves fewer answers of \<^verbatim>\<open>poll\<close> or fewer unfinished tests.\<close>

lemma after_fill_inv:
  assumes inv: "pool_inv F Q env p"
  shows "pool_inv F Q env (after_fill p) \<and> length (pl_slots (after_fill p)) = length (pl_slots p) \<and> pl_done p \<le> pl_done (after_fill p) \<and>
     length (pl_polls (after_fill p)) \<le> length (pl_polls p) \<and>
     (filter live (pl_slots p) \<noteq> [] \<longrightarrow> pl_done p < pl_done (after_fill p) \<or> length (pl_polls (after_fill p)) < length (pl_polls p))"
proof -
  have live_fd: "\<not> sl_fd s < 0 \<longleftrightarrow> live s" for s by (auto simp: live_def)
  have pf: "poll_fds p = map sl_fd (filter live (pl_slots p))" by (simp add: poll_fds_def live_fd)
  have inv': "pool_inv F Q env (p\<lparr>pl_inject := a, pl_polls := b, pl_poll_ok := c\<rparr>)" for a b c
    using inv unfolding pool_inv_def slot_ok_def by simp
  have all: "\<exists>s\<in>set (pl_slots p). live s" if "filter live (pl_slots p) \<noteq> []" using that by (simp add: filter_empty_conv)
  have rdy: "\<exists>s\<in>set (pl_slots p). live s \<and> revents (poll_fds p) (replicate (length (poll_fds p)) True) (sl_fd s)" if "filter live (pl_slots p) \<noteq> []"
    using all [OF that] revents_all [of _ "poll_fds p"] unfolding pf by auto
  show ?thesis
  proof (cases "poll_fds p = [] \<or> \<not> pl_poll_ok p")
    case True
    then show ?thesis using inv reap_slots_inv [OF inv, of "\<lambda>_. True"] all by (auto simp: after_fill_def pf pool_mono_def)
  next
    case False
    obtain a p1 where ps: "poll_step p = (a, p1)" by fastforce
    have p1: "\<exists>x y. p1 = p\<lparr>pl_inject := x, pl_polls := y, pl_poll_ok := pl_poll_ok p\<rparr> \<and> length y \<le> length (pl_polls p) \<and>
        (length y = length (pl_polls p) \<longrightarrow> a = Poll_error \<or> a = Poll_ready (replicate (length (poll_fds p)) True))"
      using ps by (intro exI [of _ "pl_inject p1"] exI [of _ "pl_polls p1"]) (auto simp: poll_step_def split: if_splits list.splits)
    then obtain x y where y: "p1 = p\<lparr>pl_inject := x, pl_polls := y, pl_poll_ok := pl_poll_ok p\<rparr>" "length y \<le> length (pl_polls p)"
      "length y = length (pl_polls p) \<longrightarrow> a = Poll_error \<or> a = Poll_ready (replicate (length (poll_fds p)) True)" by blast
    show ?thesis
    proof (cases a)
      case Poll_eintr
      then show ?thesis using False ps y inv' by (auto simp: after_fill_def)
    next
      case Poll_error
      then have "after_fill p = reap_slots (\<lambda>_. True) (p\<lparr>pl_inject := x, pl_polls := y, pl_poll_ok := False\<rparr>)" using False ps y(1) by (simp add: after_fill_def)
      then show ?thesis using reap_slots_inv [OF inv' [where a = x and b = y and c = False], of "\<lambda>_. True"] y(2) all by (auto simp: pool_mono_def)
    next
      case (Poll_ready rs)
      then have "after_fill p = reap_slots (revents (poll_fds p) rs) (p\<lparr>pl_inject := x, pl_polls := y, pl_poll_ok := pl_poll_ok p\<rparr>)"
        using False ps y(1) by (simp add: after_fill_def)
      then show ?thesis using reap_slots_inv [OF inv' [where a = x and b = y and c = "pl_poll_ok p"], of "revents (poll_fds p) rs"] y(2,3) rdy Poll_ready by (auto simp: pool_mono_def)
    qed
  qed
qed

lemma pool_finished:
  assumes "pool_inv F Q env p" "\<not> pl_done p < length (fst (snd env))" "i < length (fst (snd env))"
  shows "ran_test F Q (fst env) (fst (snd env) ! i) (pl_results p ! i)"
proof -
  have i: "pl_next p \<le> length (fst (snd env))" "pl_done p + length (filter live (pl_slots p)) = pl_next p"
    "\<forall>i<pl_next p. (\<exists>s\<in>set (pl_slots p). live s \<and> sl_idx s = i) \<or> ran_test F Q (fst env) (fst (snd env) ! i) (pl_results p ! i)"
    using assms(1) by (auto simp: pool_inv_def)
  then have "length (filter live (pl_slots p)) = 0" "i < pl_next p" using assms(2,3) by linarith+
  then show ?thesis using i(3) by (auto simp: filter_empty_conv)
qed

lemma pool_loop_result:
  assumes "\<forall>u. 0 \<le> snd (snd env) u" "F \<or> Q = (\<lambda>_. True)" "pool_inv F Q env p" "pl_slots p \<noteq> []"
    "length (pl_polls p) + length (fst (snd env)) \<le> fuel + pl_done p"
  shows "\<exists>x. pool_loop env fuel p = Some x \<and>
     (case x of Inl st \<Rightarrow> \<not> F
      | Inr p' \<Rightarrow> length (pl_results p') = length (fst (snd env)) \<and>
          (\<forall>i<length (fst (snd env)). ran_test F Q (fst env) (fst (snd env) ! i) (pl_results p' ! i)))"
  using assms(3-5)
proof (induction fuel arbitrary: p)
  case base: (0 p)
  show ?case
  proof (cases "pl_done p < length (fst (snd env))")
    case False
    then show ?thesis using base(1) pool_finished [of F Q env p] by (subst pool_loop.simps) (simp add: pool_inv_def)
  qed (use base(3) in simp)
next
  case (Suc fuel)
  show ?case
  proof (cases "pl_done p < length (fst (snd env))")
    case False
    then show ?thesis using Suc.prems(1) pool_finished [of F Q env p] by (subst pool_loop.simps) (simp add: pool_inv_def)
  next
    case True
    have f: "case fill_slots env [0..<length (pl_slots p)] p of Inl st \<Rightarrow> \<not> F | Inr p' \<Rightarrow> pool_inv F Q env p' \<and> pool_mono p p'"
      by (rule fill_slots_inv [OF assms(1,2) Suc.prems(1)]) simp
    show ?thesis
    proof (cases "fill_slots env [0..<length (pl_slots p)] p")
      case (Inl st)
      then show ?thesis using True f by (subst pool_loop.simps) simp
    next
      case (Inr p1)
      then have p1: "pool_inv F Q env p1" "pool_mono p p1" using f by auto
      note a = after_fill_inv [OF p1(1)]
      have pr: "pl_done p < pl_next p1" by (rule fill_progress [OF assms(1,2) Suc.prems(1,2) True Inr])
      have "pl_done p < pl_done (after_fill p1) \<or> length (pl_polls (after_fill p1)) < length (pl_polls p1)"
      proof (cases "filter live (pl_slots p1) = []")
        case True
        then have "pl_done p1 = pl_next p1" using p1(1) by (simp add: pool_inv_def)
        then show ?thesis using pr a by linarith
      next
        case False
        then show ?thesis using a p1(2) by (auto simp: pool_mono_def)
      qed
      moreover have "length (pl_polls (after_fill p1)) \<le> length (pl_polls p)" "pl_done p \<le> pl_done (after_fill p1)" "length (pl_polls p1) = length (pl_polls p)"
        using a p1(2) by (auto simp: pool_mono_def)
      ultimately have fu: "length (pl_polls (after_fill p1)) + length (fst (snd env)) \<le> fuel + pl_done (after_fill p1)" using Suc.prems(3) by linarith
      have sl: "pl_slots (after_fill p1) \<noteq> []" using a p1(2) Suc.prems(2) by (metis length_0_conv pool_mono_def)
      have "pool_loop env (Suc fuel) p = pool_loop env fuel (after_fill p1)" using True Inr by (subst pool_loop.simps) simp
      then show ?thesis using Suc.IH [OF _ sl fu] a by simp
    qed
  qed
qed

lemma pool_start_inv:
  assumes "length results = length (fst (snd env))" "Q g" "F \<longrightarrow> spawn = []"
  shows "pool_inv F Q env \<lparr>pl_slots = replicate k \<lparr>sl_fd = - 1, sl_idx = 0, sl_child = c\<rparr>, pl_next = 0, pl_done = 0,
    pl_results = results, pl_g = g, pl_spawn = spawn, pl_polls = polls, pl_poll_ok = b, pl_inject = inject\<rparr>"
  using assms by (auto simp: pool_inv_def slot_ok_def live_def)

lemma run_parallel_result:
  assumes fd: "\<forall>u. 0 \<le> new_fd u" and FQ: "F \<or> Q = (\<lambda>_. True)" and n: "length results = length sel" and Q: "Q g" and sp: "F \<longrightarrow> spawn = []"
  shows "\<exists>x. run_parallel (hooks, sel, new_fd) results jobs g spawn polls inject = Some x \<and>
     (case x of Inl st \<Rightarrow> \<not> F | Inr rs \<Rightarrow> length rs = length sel \<and> (\<forall>i<length sel. ran_test F Q hooks (sel ! i) (rs ! i)))"
proof (cases "sel = []")
  case True
  then show ?thesis using n by (simp add: run_parallel_def pool_jobs_def Let_def pool_loop.simps)
next
  case False
  let ?p = "\<lparr>pl_slots = replicate (pool_jobs jobs (length sel)) \<lparr>sl_fd = - 1, sl_idx = 0, sl_child = (None, Exited 0)\<rparr>, pl_next = 0, pl_done = 0,
    pl_results = results, pl_g = g, pl_spawn = spawn, pl_polls = polls, pl_poll_ok = True, pl_inject = inject\<rparr>"
  have "pool_jobs jobs (length sel) \<noteq> 0" using False by (auto simp: pool_jobs_def Let_def)
  then have ne: "pl_slots ?p \<noteq> []" by simp
  have inv: "pool_inv F Q (hooks, sel, new_fd) ?p" by (rule pool_start_inv) (use n Q sp in simp_all)
  have fu: "length (pl_polls ?p) + length (fst (snd (hooks, sel, new_fd))) \<le> length polls + length sel + 1 + pl_done ?p" by simp
  obtain x where "pool_loop (hooks, sel, new_fd) (length polls + length sel + 1) ?p = Some x"
    "case x of Inl st \<Rightarrow> \<not> F | Inr p' \<Rightarrow> length (pl_results p') = length sel \<and> (\<forall>i<length sel. ran_test F Q hooks (sel ! i) (pl_results p' ! i))"
    using pool_loop_result [OF _ FQ inv ne fu] fd unfolding fst_conv snd_conv by blast
  then show ?thesis by (cases x) (auto simp: run_parallel_def Let_def)
qed

text \<open>The result of a test run in a child of its own.\<close>

definition forked_result :: "asmtest_hook list \<Rightarrow> runner_g \<Rightarrow> asmtest_case \<Rightarrow> test_result" where
  "forked_result hooks g tc = reap_child (g_timeout g) (new_result tc) (fst (child_run hooks tc g)) (snd (child_run hooks tc g))"

lemma new_result_titled: "new_result tc = titled tc zero_result"
  by (simp add: new_result_def titled_def)

lemma ran_test_forked: "ran_test True (\<lambda>x. x = g) hooks tc r \<longleftrightarrow> r = forked_result hooks g tc"
  by (simp add: ran_test_def forked_result_def new_result_titled)

lemma run_serial_forked:
  "run_serial hooks True ff tcs g [] =
     Inr (let rs = map (forked_result hooks g) tcs in
          if ff then take (Suc (length (takeWhile (\<lambda>r. r_outcome r \<noteq> ST_FAIL) rs))) rs else rs)"
  by (induction tcs) (auto simp: run_forked_def forked_result_def case_prod_unfold Let_def)

lemma run_parallel_forked:
  assumes "\<forall>u. 0 \<le> new_fd u" "length results = length sel"
  shows "run_parallel (hooks, sel, new_fd) results jobs g [] polls inject = Some (Inr (map (forked_result hooks g) sel))"
proof -
  obtain x where x: "run_parallel (hooks, sel, new_fd) results jobs g [] polls inject = Some x"
    "case x of Inl st \<Rightarrow> \<not> True | Inr rs \<Rightarrow> length rs = length sel \<and> (\<forall>i<length sel. ran_test True (\<lambda>x. x = g) hooks (sel ! i) (rs ! i))"
    using run_parallel_result [OF assms(1) _ assms(2), of True "\<lambda>x. x = g" g "[]" hooks jobs polls inject] by auto
  then obtain rs where "x = Inr rs" "length rs = length sel" "\<forall>i<length sel. rs ! i = forked_result hooks g (sel ! i)"
    by (auto simp: ran_test_forked split: sum.splits)
  then show ?thesis using x(1) by (simp add: list_eq_iff_nth_eq)
qed

text \<open>Why the runner itself may end: an answer of \<^verbatim>\<open>pipe\<close> or \<^verbatim>\<open>fork\<close> was a failure, and the test that was run in the runner's own process for that ended it.\<close>

definition ended_runner :: "asmtest_hook list \<Rightarrow> asmtest_case list \<Rightarrow> heap \<Rightarrow> wait_status \<Rightarrow> bool" where
  "ended_runner hooks sel spawn st \<longleftrightarrow> False \<in> set spawn \<and> (\<exists>tc\<in>set sel. \<exists>g g'. run_one hooks tc g = (g', Inl st))"

lemma ended_runner_mono: "ended_runner hooks sel sp st \<Longrightarrow> set sp \<subseteq> set sp' \<Longrightarrow> ended_runner hooks sel sp' st"
  by (auto simp: ended_runner_def)

lemma alloc_script: "alloc h = (ok, h') \<Longrightarrow> set h' \<subseteq> set h" "alloc h = (False, h') \<Longrightarrow> False \<in> set h"
  by (cases h; auto)+

lemma run_inproc_ends: "run_inproc hooks tc r g = (g', Inl st) \<Longrightarrow> run_one hooks tc g = (g', Inl st)"
  by (auto simp: run_inproc_def split: prod.splits sum.splits)

lemma fill_slot_ends:
  "case fill_slot env j p of Inl st \<Rightarrow> ended_runner (fst env) (fst (snd env)) (pl_spawn p) st | Inr p' \<Rightarrow> set (pl_spawn p') \<subseteq> set (pl_spawn p)"
proof (cases "pl_next p < length (fst (snd env)) \<and> sl_fd (pl_slots p ! j) = - 1")
  case True
  obtain ok sp where a: "alloc (pl_spawn p) = (ok, sp)" by fastforce
  let ?tc = "fst (snd env) ! pl_next p" let ?r = "titled ?tc (pl_results p ! pl_next p)"
  obtain g1 x where r: "run_inproc (fst env) ?tc ?r (pl_g p) = (g1, x)" by fastforce
  have tc: "?tc \<in> set (fst (snd env))" using True by simp
  have e: "ended_runner (fst env) (fst (snd env)) (pl_spawn p) st" if "\<not> ok" "x = Inl st" for st
  proof -
    have "alloc (pl_spawn p) = (False, sp)" "run_inproc (fst env) ?tc ?r (pl_g p) = (g1, Inl st)" using a r that by auto
    then show ?thesis unfolding ended_runner_def using alloc_script(2) run_inproc_ends tc by blast
  qed
  show ?thesis using True a r e alloc_script(1) [OF a]
    by (cases ok; cases x) (auto simp: fill_slot_def spawn_job_def case_prod_unfold Let_def titled_r)
qed (auto simp: fill_slot_def)

lemma fill_slots_ends:
  "case fill_slots env js p of Inl st \<Rightarrow> ended_runner (fst env) (fst (snd env)) (pl_spawn p) st | Inr p' \<Rightarrow> set (pl_spawn p') \<subseteq> set (pl_spawn p)"
proof (induction js arbitrary: p)
  case (Cons j js)
  show ?case
  proof (cases "fill_slot env j p")
    case (Inr p1)
    then have "set (pl_spawn p1) \<subseteq> set (pl_spawn p)" using fill_slot_ends [where env = env and j = j and p = p] by simp
    then show ?thesis using Cons.IH [of p1] Inr ended_runner_mono by (auto split: sum.splits)
  qed (use fill_slot_ends [where env = env and j = j and p = p] in simp)
qed simp

lemma reap_fold_spawn: "pl_spawn (fold (reap_slot ready) js p) = pl_spawn p"
  by (induction js arbitrary: p) (simp_all add: reap_slot_def Let_def)

lemma after_fill_spawn: "pl_spawn (after_fill p) = pl_spawn p"
  by (auto simp: after_fill_def poll_step_def reap_slots_def reap_fold_spawn split: poll_ans.splits list.splits)

lemma pool_loop_ends: "pool_loop env fuel p = Some (Inl st) \<Longrightarrow> ended_runner (fst env) (fst (snd env)) (pl_spawn p) st"
proof (induction fuel arbitrary: p)
  case 0
  then show ?case by (subst (asm) pool_loop.simps) (simp split: if_splits)
next
  case (Suc fuel)
  show ?case
  proof (cases "fill_slots env [0..<length (pl_slots p)] p")
    case (Inl st')
    then show ?thesis using Suc.prems fill_slots_ends [where env = env and js = "[0..<length (pl_slots p)]" and p = p] by (subst (asm) pool_loop.simps) (simp split: if_splits)
  next
    case (Inr p1)
    then have "pool_loop env fuel (after_fill p1) = Some (Inl st)" using Suc.prems by (subst (asm) pool_loop.simps) (simp split: if_splits)
    from Suc.IH [OF this] have "ended_runner (fst env) (fst (snd env)) (pl_spawn p1) st" by (simp add: after_fill_spawn)
    then show ?thesis using fill_slots_ends [where env = env and js = "[0..<length (pl_slots p)]" and p = p] Inr ended_runner_mono by simp
  qed
qed

lemma run_parallel_ends: "run_parallel (hooks, sel, new_fd) results jobs g spawn polls inject = Some (Inl st) \<Longrightarrow> ended_runner hooks sel spawn st"
  using pool_loop_ends [of "(hooks, sel, new_fd)"] by (fastforce simp: run_parallel_def Let_def split: option.splits sum.splits)

text \<open>
  C5: The parallel pool ends, and no test is lost. Let every test and hook end, by returning, by jumping back into the runner or by ending its process, and let every child be reported by \<^verbatim>\<open>poll\<close> in the end (a test or a
  teardown that never ends, which only the body's timeout would interrupt, is not covered). Whatever \<^verbatim>\<open>pipe\<close>, \<^verbatim>\<open>fork\<close> and \<^verbatim>\<open>poll\<close> answer before that (failures, interruptions, any readiness), for
  any number of jobs, the pool finishes every selected test: each result is that of running the test of its place, in a child or in the runner, and none is
  left in its zeroed, passing state. There is one other end, with the status of a test of the selection that ended its process: it takes a failed \<^verbatim>\<open>pipe\<close> or \<^verbatim>\<open>fork\<close>, for which the test was run in the runner itself. A
  failed \<^verbatim>\<open>pipe\<close> or \<^verbatim>\<open>fork\<close> alone never stops the pool.
\<close>

theorem run_parallel_completes:
  assumes "\<forall>u. 0 \<le> new_fd u" "length results = length sel"
  shows "(\<exists>rs. run_parallel (hooks, sel, new_fd) results jobs g spawn polls inject = Some (Inr rs) \<and>
       length rs = length sel \<and> (\<forall>i<length sel. ran_test False (\<lambda>_. True) hooks (sel ! i) (rs ! i))) \<or>
     (\<exists>st. run_parallel (hooks, sel, new_fd) results jobs g spawn polls inject = Some (Inl st) \<and>
       False \<in> set spawn \<and> (\<exists>tc\<in>set sel. \<exists>g g'. run_one hooks tc g = (g', Inl st)))"
proof -
  obtain x where x: "run_parallel (hooks, sel, new_fd) results jobs g spawn polls inject = Some x"
    "case x of Inl st \<Rightarrow> \<not> False | Inr rs \<Rightarrow> length rs = length sel \<and> (\<forall>i<length sel. ran_test False (\<lambda>_. True) hooks (sel ! i) (rs ! i))"
    using run_parallel_result [OF assms(1) _ assms(2), of False "\<lambda>_. True" g spawn hooks jobs polls inject] by auto
  show ?thesis
  proof (cases x)
    case (Inl st)
    with x(1) run_parallel_ends have "ended_runner hooks sel spawn st" by blast
    then show ?thesis using x(1) Inl by (auto simp: ended_runner_def)
  qed (use x in auto)
qed

text \<open>
  C6: Parallel and serial runs agree: with processes to fork, the pool gives the results of the serial loop, in its order, for any number of jobs and any
  order in which the children finish.
\<close>

theorem run_parallel_is_serial:
  assumes "\<forall>u. 0 \<le> new_fd u" "length results = length sel"
  shows "run_parallel (hooks, sel, new_fd) results jobs g [] polls inject = Some (run_serial hooks True False sel g [])"
  using run_parallel_forked [OF assms] by (simp add: run_serial_forked)

section \<open>The selection\<close>

lemma mset_classes:
  assumes "distinct ks" "\<forall>x\<in>set xs. c x \<in> set ks"
  shows "mset (concat (map (\<lambda>k. filter (\<lambda>x. c x = k) xs) ks)) = mset xs"
  using assms(2)
proof (induction xs)
  case (Cons x xs)
  have "mset (concat (map (\<lambda>k. filter (\<lambda>y. c y = k) (x # xs)) ks)) =
      mset (concat (map (\<lambda>k. filter (\<lambda>y. c y = k) xs) ks)) + mset (concat (map (\<lambda>k. if c x = k then [x] else []) ks))"
    by (induction ks) auto
  moreover have "mset (concat (map (\<lambda>k. if c x = k then [x] else []) ks)) = (if c x \<in> set ks then {#x#} else {#})"
    using assms(1) by (induction ks) auto
  ultimately show ?case using Cons by simp
qed (simp add: concat_eq_Nil_conv)

text \<open>
  The shards of a selection partition it. For every number \<open>n\<close> of shards, the tests of shards 1 to \<open>n\<close> together, each with its registration index, are the
  tests of the selection: none is lost and none runs twice.
\<close>

theorem shards_partition:
  assumes "n \<ge> 1" "length (fst s) = length (snd s)"
  shows "mset (concat (map (\<lambda>k. zip (fst (shard_tests (int k) (int n) s)) (snd (shard_tests (int k) (int n) s))) [1..<Suc n])) = mset (zip (fst s) (snd s))"
proof (cases "n = 1")
  case True
  then show ?thesis by (simp add: shard_tests_def)
next
  case False
  let ?xs = "[0..<length (fst s)]" and ?p = "\<lambda>i. (fst s ! i, snd s ! i)"
  have sh: "zip (fst (shard_tests (int k) (int n) s)) (snd (shard_tests (int k) (int n) s)) = map ?p (filter (\<lambda>i. i mod n + 1 = k) ?xs)" if "k \<ge> 1" for k
  proof -
    have "int i mod int n = int k - 1 \<longleftrightarrow> i mod n + 1 = k" for i using that by (simp add: zmod_int [symmetric]) linarith
    then show ?thesis using False assms(1) by (simp add: shard_tests_def Let_def zip_map_map zip_same_conv_map comp_def)
  qed
  have c: "concat (map (\<lambda>k. zip (fst (shard_tests (int k) (int n) s)) (snd (shard_tests (int k) (int n) s))) [1..<Suc n])
      = map ?p (concat (map (\<lambda>k. filter (\<lambda>i. i mod n + 1 = k) ?xs) [1..<Suc n]))"
    unfolding map_concat map_map comp_def by (rule arg_cong [of _ _ concat], rule map_cong) (use sh in auto)
  have m: "mset (concat (map (\<lambda>k. filter (\<lambda>i. i mod n + 1 = k) ?xs) [1..<Suc n])) = mset ?xs"
    by (rule mset_classes) (use assms(1) in \<open>simp_all add: Suc_le_eq del: upt_Suc\<close>)
  have z: "map ?p ?xs = zip (fst s) (snd s)" by (rule nth_equalityI) (use assms(2) in simp_all)
  show ?thesis unfolding c mset_map m by (simp only: z flip: mset_map)
qed

lemma zip_swap_at: "i < length xs \<Longrightarrow> j < length xs \<Longrightarrow> length xs = length ys \<Longrightarrow> zip (swap_at xs i j) (swap_at ys i j) = swap_at (zip xs ys) i j"
  by (simp add: swap_at_def zip_update)

lemma shuffle_from_mset:
  "i < length (fst s) \<Longrightarrow> length (fst s) = length (snd s) \<Longrightarrow> length (fst s) < 2 ^ 31 \<Longrightarrow>
   mset (zip (fst (shuffle_from i rng s)) (snd (shuffle_from i rng s))) = mset (zip (fst s) (snd s)) \<and>
   length (fst (shuffle_from i rng s)) = length (fst s) \<and> length (snd (shuffle_from i rng s)) = length (fst s)"
proof (induction i rng s rule: shuffle_from.induct)
  case (2 i rng s)
  obtain z rng1 where z: "asmtest_rng_u64 rng = (z, rng1)" by fastforce
  let ?w = "of_nat (Suc i + 1) :: u64"
  have "unat ?w = Suc i + 1" using 2(2,4) by (intro of_nat_inverse refl) auto
  then have j: "unat (z mod ?w) < Suc i + 1" unfolding unat_mod by (metis mod_less_divisor zero_less_Suc add_Suc_right add_0_right One_nat_def)
  let ?j = "unat (z mod ?w)"
  let ?t = "(swap_at (fst s) (Suc i) ?j, swap_at (snd s) (Suc i) ?j)"
  have jl: "?j < length (fst s)" using j 2(2) by linarith
  have "zip (fst ?t) (snd ?t) = swap_at (zip (fst s) (snd s)) (Suc i) ?j" using zip_swap_at [OF 2(2) jl 2(3)] by simp
  moreover have "mset (swap_at (zip (fst s) (snd s)) (Suc i) ?j) = mset (zip (fst s) (snd s))"
    unfolding swap_at_def using 2(2,3) jl by (intro mset_swap) simp_all
  moreover have "length (fst ?t) = length (fst s)" "length (snd ?t) = length (snd s)" by (simp_all add: swap_at_def)
  ultimately show ?case using 2(1) [OF z [symmetric] refl] 2(2-4) by (simp add: z Let_def)
qed simp

text \<open>
  Shuffling is a permutation that keeps the two arrays together: for every seed, the tests with their registration indices are those of the selection,
  each as often as before.
\<close>

theorem shuffle_permutes:
  assumes "length (fst s) = length (snd s)" "length (fst s) < 2 ^ 31"
  shows "mset (zip (fst (shuffle_tests seed s)) (snd (shuffle_tests seed s))) = mset (zip (fst s) (snd s))"
  using shuffle_from_mset [of "length (fst s) - 1" s seed] assms by (cases "fst s") (auto simp: shuffle_tests_def)

section \<open>The exit status\<close>

definition base_selection :: "(string \<Rightarrow> string \<Rightarrow> bool) \<Rightarrow> options \<Rightarrow> asmtest_case list \<Rightarrow> selection" where
  "base_selection fnmatch opt tests = shard_tests (opt_shard_k opt) (opt_shard_n opt) (select_tests fnmatch (opt_filter opt) tests)"

lemma base_selection_length:
  "length (fst (base_selection fnmatch opt tests)) = length (snd (base_selection fnmatch opt tests)) \<and>
   length (fst (base_selection fnmatch opt tests)) \<le> length tests"
proof -
  let ?s = "select_tests fnmatch (opt_filter opt) tests"
  have "length (filter P (zip [0..<length tests] tests)) \<le> length tests" for P using length_filter_le [of P] by (metis length_zip length_upt min.idem minus_nat.diff_0)
  then have s: "length (fst ?s) = length (snd ?s)" "length (fst ?s) \<le> length tests" by (auto simp: select_tests_def Let_def)
  have "length (filter P [0..<length (fst ?s)]) \<le> length (fst ?s)" for P using length_filter_le [of P "[0..<length (fst ?s)]"] by simp
  then show ?thesis using s by (auto simp: base_selection_def shard_tests_def Let_def intro: order_trans)
qed

lemma repeat_tests_result:
  assumes "repeat_tests reps s = Some s2" "length (fst s) = length (snd s)" "length (fst s) < 2 ^ 31"
  shows "length (fst s2) = length (snd s2) \<and> length (fst s2) < 2 ^ 31 \<and> set (fst s2) = set (fst s)"
proof (cases "reps > 1 \<and> fst s \<noteq> []")
  case True
  then have g: "int (length (fst s)) \<le> (2 ^ 31 - 1) div reps" and s2: "s2 = (concat (replicate (nat reps) (fst s)), concat (replicate (nat reps) (snd s)))"
    using assms(1) by (auto simp: repeat_tests_def split: if_splits)
  have "int (length (fst s)) * reps \<le> 2 ^ 31 - 1"
    using mult_right_mono [OF g, of reps] True div_mult_mod_eq [of "2 ^ 31 - 1" reps] pos_mod_sign [of reps "2 ^ 31 - 1"] by linarith
  then have "int (nat reps * length (fst s)) \<le> 2 ^ 31 - 1" using True by (simp add: mult.commute)
  moreover have "int m \<le> 2 ^ 31 - 1 \<Longrightarrow> m < 2 ^ 31" for m by simp
  ultimately have "nat reps * length (fst s) < 2 ^ 31" by blast
  then have "length (concat (replicate (nat reps) (fst s))) < 2 ^ 31" by (simp add: length_concat sum_list_replicate)
  then show ?thesis using True assms(2) by (auto simp: s2 length_concat sum_list_replicate set_replicate_conv_if)
next
  case False
  then show ?thesis using assms by (auto simp: repeat_tests_def)
qed

lemma shuffle_tests_set:
  assumes "length (fst s) = length (snd s)" "length (fst s) < 2 ^ 31"
  shows "set (fst (shuffle_tests seed s)) = set (fst s) \<and> length (fst (shuffle_tests seed s)) = length (fst s)"
proof (cases "fst s")
  case (Cons x xs)
  then have m: "mset (zip (fst (shuffle_tests seed s)) (snd (shuffle_tests seed s))) = mset (zip (fst s) (snd s))"
    "length (fst (shuffle_tests seed s)) = length (fst s)" "length (snd (shuffle_tests seed s)) = length (fst s)"
    using shuffle_from_mset [of "length (fst s) - 1" s seed] assms unfolding shuffle_tests_def by auto
  have "mset (map fst (zip (fst (shuffle_tests seed s)) (snd (shuffle_tests seed s)))) = mset (map fst (zip (fst s) (snd s)))"
    using m(1) by (simp only: mset_map)
  then have "mset (fst (shuffle_tests seed s)) = mset (fst s)" using m(2,3) assms(1) by (simp add: map_fst_zip)
  then show ?thesis using m(2) by (metis set_mset_mset)
qed (use assms in \<open>simp add: shuffle_tests_def\<close>)

lemma first_failure_kept:
  "(\<exists>r\<in>set (take (Suc (length (takeWhile (\<lambda>r. \<not> P r) rs))) rs). P r) \<longleftrightarrow> (\<exists>r\<in>set rs. P r)"
  by (induction rs) auto

lemma exit_status_fails:
  "exit_status opt n rs = (if (\<exists>r\<in>set rs. r_outcome r = ST_FAIL) \<or> n = 0 \<and> opt_fail_if_no_tests opt then 1 else 0)"
proof -
  have "r_outcome r \<noteq> ST_PASS \<and> r_outcome r \<noteq> ST_SKIP \<longleftrightarrow> r_outcome r = ST_FAIL" for r by (cases "r_outcome r") auto
  then show ?thesis by (auto simp: exit_status_def filter_empty_conv)
qed

lemma run_selected_forked:
  assumes "\<forall>u. 0 \<le> new_fd u" "opt_fork_tests opt"
  shows "run_selected opt (hooks, sel, new_fd) g [] polls inject =
     Some (Inr (if opt_fail_fast opt
       then take (Suc (length (takeWhile (\<lambda>r. \<not> r_outcome r = ST_FAIL) (map (forked_result hooks g) sel)))) (map (forked_result hooks g) sel)
       else map (forked_result hooks g) sel))"
  using assms run_parallel_forked [of new_fd "replicate (length sel) zero_result" sel hooks "opt_jobs opt" g polls inject]
  by (simp add: run_selected_def run_serial_forked Let_def)

text \<open>
  What it means for a test to fail, told without the runner: functions are called one after the other until one does not return; a function goes wrong when it jumps back with anything but a skip, or ends the process in any way.
  A test fails when a setup hook of its suite goes wrong, or when all of them return and the body or a teardown hook goes wrong.
\<close>

fun in_turn :: "callee list \<Rightarrow> callee" where
  "in_turn [] g = (g, Returned)"
| "in_turn (f # fs) g = (case f g of (g1, a) \<Rightarrow> if a = Returned then in_turn fs g1 else (g1, a))"

definition goes_wrong :: "act \<Rightarrow> bool" where
  "goes_wrong a \<longleftrightarrow> a \<noteq> Returned \<and> a \<noteq> Jumped JMP_SKIP"

definition hooks_of :: "asmtest_hook list \<Rightarrow> asmtest_case \<Rightarrow> int \<Rightarrow> callee list" where
  "hooks_of hooks tc kind = map hk_fn (filter (\<lambda>h. hk_kind h = kind \<and> hk_suite h = tc_suite tc) hooks)"

definition test_fails :: "asmtest_hook list \<Rightarrow> runner_g \<Rightarrow> asmtest_case \<Rightarrow> bool" where
  "test_fails hooks g tc \<longleftrightarrow>
     (case in_turn (hooks_of hooks tc 0) (asmtest_record_begin (tc_suite tc) (tc_name tc) g) of (g1, a) \<Rightarrow>
        goes_wrong a \<or> a = Returned \<and> (case tc_fn tc g1 of (g2, b) \<Rightarrow> goes_wrong b \<or> goes_wrong (snd (in_turn (hooks_of hooks tc 1) g2))))"

text \<open>
  The tests of a run, as indices of the registered ones: those the pattern matches, in full, by suite or by name, and of these, counted from 0, those whose number leaves \<open>k - 1\<close> modulo the \<open>n\<close> shards.
\<close>

definition matches_filter :: "(string \<Rightarrow> string \<Rightarrow> bool) \<Rightarrow> options \<Rightarrow> asmtest_case \<Rightarrow> bool" where
  "matches_filter fnmatch opt tc \<longleftrightarrow> (\<forall>glob. opt_filter opt = Some glob \<longrightarrow>
     fnmatch glob (take 255 (tc_suite tc @ ''.'' @ tc_name tc)) \<or> fnmatch glob (tc_suite tc) \<or> fnmatch glob (tc_name tc))"

definition in_run :: "(string \<Rightarrow> string \<Rightarrow> bool) \<Rightarrow> options \<Rightarrow> asmtest_case list \<Rightarrow> nat \<Rightarrow> bool" where
  "in_run fnmatch opt tests i \<longleftrightarrow> matches_filter fnmatch opt (tests ! i) \<and>
     (opt_shard_n opt > 1 \<longrightarrow> int (length (filter (matches_filter fnmatch opt) (take i tests))) mod opt_shard_n opt = opt_shard_k opt - 1)"

definition chosen :: "(string \<Rightarrow> string \<Rightarrow> bool) \<Rightarrow> options \<Rightarrow> asmtest_case list \<Rightarrow> nat list" where
  "chosen fnmatch opt tests = filter (in_run fnmatch opt tests) [0..<length tests]"

lemma run_hooks_in_turn: "run_hooks hooks (tc_suite tc) kind g = in_turn (hooks_of hooks tc kind) g"
proof (induction hooks arbitrary: g)
  case (Cons h hs)
  show ?case
  proof (cases "hk_kind h = kind \<and> hk_suite h = tc_suite tc")
    case True
    obtain g1 a where "hk_fn h g = (g1, a)" by fastforce
    then show ?thesis using True Cons.IH by (cases a) (simp_all add: hooks_of_def)
  next
    case False
    then have "hooks_of (h # hs) tc kind = hooks_of hs tc kind" by (simp add: hooks_of_def)
    then show ?thesis using False Cons.IH by auto
  qed
qed (simp add: hooks_of_def)

lemma reap_outcome: "r_outcome (reap_child t res w st) = (case w of Some wr \<Rightarrow> w_outcome wr | None \<Rightarrow> ST_FAIL)"
  by (cases w; cases st) (simp_all add: reap_child_def apply_wire_def Let_def)

lemma forked_outcome:
  "r_outcome (forked_result hooks g tc) = (case snd (run_one hooks tc g) of Inl st \<Rightarrow> ST_FAIL | Inr oc \<Rightarrow> oc)"
  by (auto simp: forked_result_def reap_outcome child_run_def capture_wire_def split: prod.splits sum.splits)

lemma run_one_fails:
  "(case snd (run_one hooks tc g) of Inl st \<Rightarrow> ST_FAIL | Inr oc \<Rightarrow> oc) = ST_FAIL \<longleftrightarrow> test_fails hooks g tc"
proof -
  obtain g1 a where a: "in_turn (hooks_of hooks tc 0) (asmtest_record_begin (tc_suite tc) (tc_name tc) g) = (g1, a)" by fastforce
  obtain g2 b where b: "tc_fn tc g1 = (g2, b)" by fastforce
  obtain g3 c where c: "in_turn (hooks_of hooks tc 1) g2 = (g3, c)" by fastforce
  show ?thesis
    by (cases a; cases b; cases c) (simp_all add: run_one_def run_body_def run_teardown_def run_hooks_in_turn test_fails_def a b c goes_wrong_def)
qed

lemma forked_fails: "r_outcome (forked_result hooks g tc) = ST_FAIL \<longleftrightarrow> test_fails hooks g tc"
  unfolding forked_outcome by (rule run_one_fails)

lemma nth_of_filter:
  "map ((!) (filter P xs)) (filter Q [0..<length (filter P xs)]) =
     map ((!) xs) (filter (\<lambda>i. P (xs ! i) \<and> Q (length (filter P (take i xs)))) [0..<length xs])"
proof (induction xs rule: rev_induct)
  case (snoc x xs)
  have c: "map ((!) (ys @ zs)) (filter R [0..<length ys]) = map ((!) ys) (filter R [0..<length ys])" for ys zs :: "'a list" and R
    by (rule map_cong) (auto simp: nth_append)
  have d: "filter (\<lambda>i. P ((xs @ [x]) ! i) \<and> Q (length (filter P (take i (xs @ [x]))))) [0..<length xs] =
      filter (\<lambda>i. P (xs ! i) \<and> Q (length (filter P (take i xs)))) [0..<length xs]"
    by (rule filter_cong) (auto simp: nth_append)
  have t: "take (length xs) (xs @ [x]) = xs" by simp
  let ?R = "\<lambda>i. P (xs ! i) \<and> Q (length (filter P (take i xs)))"
  have "filter (\<lambda>i. P ((xs @ [x]) ! i) \<and> Q (length (filter P (take i (xs @ [x]))))) [0..<length (xs @ [x])] =
      filter ?R [0..<length xs] @ (if P x \<and> Q (length (filter P xs)) then [length xs] else [])"
    using d by (simp add: t del: take_append)
  then show ?case using snoc.IH c [of "filter P xs" "[x]" Q] c [where ys = xs and zs = "[x]" and R = ?R] by (simp del: take_append)
qed simp

lemma passes_filter:
  "(case opt_filter opt of None \<Rightarrow> True | Some glob \<Rightarrow> id_matches fnmatch (tc_suite tc) (tc_name tc) glob) \<longleftrightarrow> matches_filter fnmatch opt tc"
  by (auto simp: matches_filter_def id_matches_def cbuf_def Let_def split: option.splits)

lemma select_is_filter: "fst (select_tests fnmatch (opt_filter opt) tests) = filter (matches_filter fnmatch opt) tests"
proof -
  have z: "map snd (filter (\<lambda>(i, x). P x) (zip is xs)) = filter P xs" if "length is = length xs" for P and "is" :: "nat list" and xs :: "asmtest_case list"
    using that by (induction "is" xs rule: list_induct2) auto
  show ?thesis unfolding select_tests_def Let_def fst_conv passes_filter by (rule z) simp
qed

lemma base_is_chosen: "fst (base_selection fnmatch opt tests) = map ((!) tests) (chosen fnmatch opt tests)"
proof -
  let ?P = "matches_filter fnmatch opt"
  have one: "map ((!) xs) (filter (\<lambda>i. P (xs ! i)) [0..<length xs]) = filter P xs" for P and xs :: "asmtest_case list"
    using filter_map [of P "(!) xs" "[0..<length xs]"] by (simp add: map_nth comp_def)
  show ?thesis
    unfolding base_selection_def shard_tests_def select_is_filter
    using nth_of_filter [of ?P tests "\<lambda>i. int i mod opt_shard_n opt = opt_shard_k opt - 1"] one [of tests ?P]
    by (simp add: chosen_def in_run_def [abs_def] select_is_filter Let_def)
qed

text \<open>
  C35: The exit status tells the truth about the selected tests. Every \<^verbatim>\<open>pipe\<close> and \<^verbatim>\<open>fork\<close> succeeds and every test and hook ends; the tests run number, with their repetitions, no more than an \<^verbatim>\<open>int\<close> holds. The tests of the run are the
  registered ones the filter matches (the pattern matches the suite and the name joined by a dot and cut at 255 characters, the suite, or the name; without a pattern all match), and of these those of the shard, every \<open>n\<close>-th from the \<open>k\<close>-th on. The program ends with
  status 1 if one of them fails, or if there is none and the user asked for that to be an error, and with status 0 otherwise. A test fails when, of its suite's setup hooks, its body and its suite's teardown hooks, called in this order on a copy of the
  runner's state, one goes wrong: it reports a failure, or it ends the process, by a signal or by exiting with any status, 0 included; after a skipping or failing setup hook nothing else of the test counts, and a failing teardown counts whatever the
  body did. All this holds whatever the number of jobs, the repetitions, the seed of a
  shuffle, the order in which children finish and whether the run stops at the first failure.
\<close>

theorem main_exit_status:
  assumes "\<forall>u. 0 \<le> new_fd u" "opt_fork_tests opt" "\<not> opt_do_list opt" "length tests < 2 ^ 31"
    "int (length (chosen fnmatch opt tests)) * opt_repeat opt < 2 ^ 31"
  shows "\<exists>rs. asmtest_main fnmatch opt tests hooks new_fd g [] polls inject =
     Some (Finished (if (\<exists>i\<in>set (chosen fnmatch opt tests). test_fails hooks g (tests ! i)) \<or>
                        chosen fnmatch opt tests = [] \<and> opt_fail_if_no_tests opt then 1 else 0) rs)"
proof -
  let ?base = "base_selection fnmatch opt tests" and ?is = "chosen fnmatch opt tests"
  have b: "set (fst ?base) = (!) tests ` set ?is" "fst ?base = [] \<longleftrightarrow> ?is = []" "length (fst ?base) = length ?is" unfolding base_is_chosen by simp_all
  have "int (length ?is) \<le> (2 ^ 31 - 1) div opt_repeat opt" if "opt_repeat opt > 1"
    using zdiv_mono1 [of "int (length ?is) * opt_repeat opt" "2 ^ 31 - 1" "opt_repeat opt"] assms(5) that by simp
  then have "repeat_tests (opt_repeat opt) ?base \<noteq> None" using b(3) by (auto simp: repeat_tests_def)
  then obtain s2 where s2: "repeat_tests (opt_repeat opt) ?base = Some s2" by blast
  have r: "length (fst s2) = length (snd s2)" "length (fst s2) < 2 ^ 31" "set (fst s2) = set (fst ?base)"
    using repeat_tests_result [OF s2] base_selection_length [of fnmatch opt tests] assms(4) by auto
  define s3 where "s3 = (if opt_shuffle opt then shuffle_tests (opt_seed opt) s2 else s2)"
  have s3: "set (fst s3) = (!) tests ` set ?is" using shuffle_tests_set [OF r(1,2)] r(3) b(1) by (simp add: s3_def)
  then have n: "length (fst s3) = 0 \<longleftrightarrow> ?is = []" by (metis length_0_conv set_empty image_is_empty)
  obtain rs where rs: "run_selected opt (hooks, fst s3, new_fd) g [] polls inject = Some (Inr rs)"
    "(\<exists>r\<in>set rs. r_outcome r = ST_FAIL) \<longleftrightarrow> (\<exists>tc\<in>set (fst s3). r_outcome (forked_result hooks g tc) = ST_FAIL)"
    unfolding run_selected_forked [OF assms(1,2)]
    using first_failure_kept [of "\<lambda>r. r_outcome r = ST_FAIL" "map (forked_result hooks g) (fst s3)"] by auto
  have "asmtest_main fnmatch opt tests hooks new_fd g [] polls inject = Some (Finished (exit_status opt (length (fst s3)) rs) rs)"
    using assms(3) s2 rs(1) by (simp add: asmtest_main_def base_selection_def Let_def s3_def)
  then show ?thesis unfolding exit_status_fails rs(2) forked_fails s3 n by auto
qed

section \<open>Examples\<close>

text \<open>A suite of four tests: one passes, one fails an assertion, one is killed by a signal the runner does not catch, one skips.\<close>

definition demo_g :: runner_g where
  "demo_g = \<lparr>g_msg = [], g_file = None, g_line = 0, g_record_dir = [], g_record_cur = [], g_note_path = [], g_note_step = - 1, g_timeout = 10\<rparr>"

definition demo_pass :: asmtest_case where
  "demo_pass = \<lparr>tc_suite = ''s'', tc_name = ''pass'', tc_fn = (\<lambda>g. (g, Returned))\<rparr>"

definition demo_fail :: asmtest_case where
  "demo_fail = \<lparr>tc_suite = ''s'', tc_name = ''fail'', tc_fn = asmtest_fail ''t.c'' 7 ''1 != 2''\<rparr>"

definition demo_crash :: asmtest_case where
  "demo_crash = \<lparr>tc_suite = ''s'', tc_name = ''crash'', tc_fn = (\<lambda>g. (g, Died (Signaled 6)))\<rparr>"

definition demo_skip :: asmtest_case where
  "demo_skip = \<lparr>tc_suite = ''s'', tc_name = ''skip'', tc_fn = asmtest_skip (Some ''no cpu'')\<rparr>"

definition demo_fd :: "int list \<Rightarrow> int" where
  "demo_fd used = foldl max 2 used + 1"

lemma demo_fd_nonneg: "0 \<le> demo_fd u"
proof -
  have "m \<le> foldl max m us" for m :: int and us by (induction us arbitrary: m) (simp, metis foldl_Cons max.boundedE)
  from this [of 2 u] show ?thesis by (simp add: demo_fd_def)
qed

lemma demo_outcomes:
  "r_outcome (forked_result [] demo_g demo_pass) = ST_PASS" "r_outcome (forked_result [] demo_g demo_fail) = ST_FAIL"
  "r_outcome (forked_result [] demo_g demo_crash) = ST_FAIL" "r_outcome (forked_result [] demo_g demo_skip) = ST_SKIP"
  by (simp_all add: Let_def SIGALRM_def forked_result_def child_run_def run_one_def run_body_def run_teardown_def reap_child_def apply_wire_def capture_wire_def
      demo_pass_def demo_fail_def demo_crash_def demo_skip_def asmtest_fail_def asmtest_skip_def JMP_FAIL_def JMP_SKIP_def)

theorem run_parallel_is_serial_witness:
  "map_option (map_sum id (map r_outcome))
     (run_parallel ([], [demo_pass, demo_fail, demo_crash, demo_skip], demo_fd) (replicate 4 zero_result) 2 demo_g [] [Poll_eintr, Poll_ready [False, True]] False)
   = Some (Inr [ST_PASS, ST_FAIL, ST_FAIL, ST_SKIP])"
proof -
  have "run_parallel ([], [demo_pass, demo_fail, demo_crash, demo_skip], demo_fd) (replicate 4 zero_result) 2 demo_g [] [Poll_eintr, Poll_ready [False, True]] False
      = Some (run_serial [] True False [demo_pass, demo_fail, demo_crash, demo_skip] demo_g [])"
    by (rule run_parallel_is_serial) (simp_all add: demo_fd_nonneg)
  then show ?thesis by (simp add: run_serial_forked demo_outcomes del: run_serial.simps)
qed

text \<open>The second \<^verbatim>\<open>fork\<close> fails, so the second test runs in the runner: a test that skips is reported, one that kills its process kills the runner.\<close>

theorem run_parallel_completes_witness:
  "\<exists>rs. run_parallel ([], [demo_pass, demo_skip], demo_fd) (replicate 2 zero_result) 2 demo_g [True, False] [Poll_error] True = Some (Inr rs) \<and> length rs = 2"
proof -
  have "\<forall>u. 0 \<le> demo_fd u" "length (replicate 2 zero_result) = length [demo_pass, demo_skip]" by (simp_all add: demo_fd_nonneg)
  note c = run_parallel_completes [OF this, of "[]" 2 demo_g "[True, False]" "[Poll_error]" True]
  have "run_one [] tc g \<noteq> (g', Inl st)" if "tc \<in> set [demo_pass, demo_skip]" for tc g g' st
    using that by (auto simp: run_one_def run_body_def run_teardown_def demo_pass_def demo_skip_def asmtest_skip_def)
  with c show ?thesis by auto
qed

theorem shards_partition_witness:
  "mset (concat (map (\<lambda>k. zip (fst (shard_tests (int k) 2 ([demo_pass, demo_fail, demo_skip], [0, 1, 2]))) (snd (shard_tests (int k) 2 ([demo_pass, demo_fail, demo_skip], [0, 1, 2])))) [1, 2]))
   = {#(demo_pass, 0), (demo_fail, 1), (demo_skip, 2)#} \<and>
   snd (shard_tests 2 2 ([demo_pass, demo_fail, demo_skip], [0, 1, 2])) = [1]"
proof -
  have "[1..<Suc 2] = [1, 2]" by (simp add: upt_rec)
  then show ?thesis using shards_partition [of 2 "([demo_pass, demo_fail, demo_skip], [0, 1, 2])"] by (simp add: shard_tests_def upt_rec)
qed

theorem shuffle_permutes_witness:
  "mset (zip (fst (shuffle_tests 42 ([demo_pass, demo_fail, demo_skip], [0, 1, 2]))) (snd (shuffle_tests 42 ([demo_pass, demo_fail, demo_skip], [0, 1, 2]))))
   = {#(demo_pass, 0), (demo_fail, 1), (demo_skip, 2)#}"
  using shuffle_permutes [of "([demo_pass, demo_fail, demo_skip], [0, 1, 2])" 42] by simp

definition demo_opt :: options where
  "demo_opt = \<lparr>opt_filter = None, opt_do_list = False, opt_shuffle = True, opt_seed = 42, opt_fork_tests = True, opt_jobs = 4, opt_fail_if_no_tests = False,
     opt_fail_fast = False, opt_repeat = 2, opt_shard_k = 1, opt_shard_n = 2\<rparr>"

text \<open>The failing test is in the second shard, so the first succeeds.\<close>

theorem main_exit_status_witness:
  "(\<exists>rs. asmtest_main (\<lambda>_ _. True) demo_opt [demo_pass, demo_fail, demo_skip] [] demo_fd demo_g [] [] False = Some (Finished 0 rs)) \<and>
   (\<exists>rs. asmtest_main (\<lambda>_ _. True) (demo_opt\<lparr>opt_shard_k := 2\<rparr>) [demo_pass, demo_fail, demo_skip] [] demo_fd demo_g [] [] False = Some (Finished 1 rs))"
proof -
  have b: "chosen (\<lambda>_ _. True) demo_opt [demo_pass, demo_fail, demo_skip] = [0, 2]"
    "chosen (\<lambda>_ _. True) (demo_opt\<lparr>opt_shard_k := 2\<rparr>) [demo_pass, demo_fail, demo_skip] = [1]"
    by (simp_all add: chosen_def in_run_def matches_filter_def demo_opt_def upt_rec)
  have f: "\<not> test_fails [] demo_g demo_pass" "test_fails [] demo_g demo_fail" "\<not> test_fails [] demo_g demo_skip"
    by (simp_all add: test_fails_def hooks_of_def goes_wrong_def demo_pass_def demo_fail_def demo_skip_def asmtest_fail_def asmtest_skip_def JMP_FAIL_def JMP_SKIP_def)
  note m = main_exit_status [where new_fd = demo_fd and fnmatch = "\<lambda>_ _. True" and tests = "[demo_pass, demo_fail, demo_skip]" and hooks = "[]" and g = demo_g]
  show ?thesis
    using m [of demo_opt "[]" False] m [of "demo_opt\<lparr>opt_shard_k := 2\<rparr>" "[]" False] unfolding b
    by (simp add: f demo_fd_nonneg) (simp add: demo_opt_def)
qed

text \<open>
  A skip in the teardown of a test that has failed keeps the verdict but writes its reason over the message: the report of the failure shows the reason for a
  skip, at the place of the assertion.
\<close>

lemma teardown_skip_hides_message:
  "forked_result [\<lparr>hk_suite = ''s'', hk_fn = asmtest_skip (Some ''no cpu''), hk_kind = 1\<rparr>] demo_g demo_fail =
     \<lparr>r_suite = Some ''s'', r_name = Some ''fail'', r_outcome = ST_FAIL, r_line = 7, r_file = ''t.c'', r_msg = ''no cpu'', r_rec_path = [], r_rec_step = - 1\<rparr>"
  by (simp add: forked_result_def child_run_def run_one_def run_body_def run_teardown_def reap_child_def apply_wire_def capture_wire_def new_result_def zero_result_def
      demo_fail_def asmtest_fail_def asmtest_skip_def JMP_FAIL_def JMP_SKIP_def cbuf_def asmtest_record_begin_def demo_g_def)

end
