(* ===== verification/Report.thy ===== *)
theory Report
  imports Runner "HOL-Library.Sublist"
begin

text \<open>
  The reports of the test runner, \<^verbatim>\<open>src/src/asmtest.c\<close>: the TAP stream, the JUnit document and the escaping of strings in XML and JSON. Texts are lists of
  bytes. The JUnit document is the tree the code prints: its layout and the times are left out, and every string in it goes through \<open>xml_print_escaped\<close>.
\<close>

section \<open>Escaping\<close>

abbreviation NL :: char where "NL \<equiv> CHR 0x0A"

definition byte :: "char \<Rightarrow> nat" where
  "byte c = of_char c"

definition hex_upper :: "nat \<Rightarrow> char" where
  "hex_upper d = (if d < 10 then char_of (48 + d) else char_of (55 + d))"

definition xml_char :: "char \<Rightarrow> string" where
  "xml_char c =
     (if c = CHR 0x26 then ''&amp;''
      else if c = CHR 0x3C then ''&lt;''
      else if c = CHR 0x3E then ''&gt;''
      else if c = CHR 0x22 then ''&quot;''
      else if c = NL then ''&#10;''
      else if c = CHR 0x0D then ''&#13;''
      else if c = CHR 0x09 then [CHR 0x09]
      else if byte c < 0x20 then CHR 0x5C # ''x'' @ [hex_upper (byte c div 16), hex_upper (byte c mod 16)]
      else [c])"

definition xml_print_escaped :: "string \<Rightarrow> string" where
  "xml_print_escaped s = concat (map xml_char s)"

definition json_char :: "char \<Rightarrow> string" where
  "json_char c =
     (if c = CHR 0x22 then [CHR 0x5C, CHR 0x22]
      else if c = CHR 0x5C then [CHR 0x5C, CHR 0x5C]
      else if c = NL then CHR 0x5C # ''n''
      else if c = CHR 0x0D then CHR 0x5C # ''r''
      else if c = CHR 0x09 then CHR 0x5C # ''t''
      else if byte c < 0x20 then CHR 0x5C # ''u00'' @ [digit_char (byte c div 16), digit_char (byte c mod 16)]
      else [c])"

definition json_print_string :: "string option \<Rightarrow> string" where
  "json_print_string s = CHR 0x22 # concat (map json_char (case s of Some t \<Rightarrow> t | None \<Rightarrow> [])) @ [CHR 0x22]"

section \<open>Classes of results\<close>

definition error_prefixes :: "string list" where
  "error_prefixes = [''caught fatal signal'', ''timed out'', ''crashed:'', ''child exited abnormally'', ''no result reported'']"

definition result_is_error :: "test_result \<Rightarrow> bool" where
  "result_is_error r = (if r_outcome r \<noteq> ST_FAIL then False else list_ex (\<lambda>p. prefix p (r_msg r)) error_prefixes)"

section \<open>TAP\<close>

record tap_palette =
  tp_grn :: string
  tp_red :: string
  tp_yel :: string
  tp_dim :: string
  tp_rst :: string

text \<open>The lines of a message, indented under its key.\<close>

function msg_block :: "string \<Rightarrow> string" where
  "msg_block s =
     (if s = [] then []
      else let seg = takeWhile (\<lambda>c. c \<noteq> NL) s; rest = dropWhile (\<lambda>c. c \<noteq> NL) s in
        ''    '' @ seg @ [NL] @ (case rest of [] \<Rightarrow> [] | _ # s1 \<Rightarrow> msg_block s1))"
  by pat_completeness auto

termination msg_block
proof (relation "measure length")
  fix s seg rest c s1
  assume "s \<noteq> []" "rest = dropWhile (\<lambda>c. c \<noteq> NL) s" "rest = c # s1"
  then have "length (c # s1) \<le> length s" using length_dropWhile_le [of "\<lambda>c. c \<noteq> NL" s] by simp
  then show "(s1, s) \<in> measure length" by simp
qed simp

declare msg_block.simps [simp del]

definition print_tap_result :: "nat \<Rightarrow> test_result \<Rightarrow> tap_palette \<Rightarrow> string" where
  "print_tap_result num r p =
     (let ident = the (r_suite r) @ ''.'' @ the (r_name r) in
      case r_outcome r of
        ST_PASS \<Rightarrow> tp_grn p @ ''ok'' @ tp_rst p @ '' '' @ fmt_dec num @ '' - '' @ ident @ [NL]
      | ST_SKIP \<Rightarrow> tp_yel p @ ''ok'' @ tp_rst p @ '' '' @ fmt_dec num @ '' - '' @ ident @ '' '' @ tp_dim p @ ''# SKIP '' @ r_msg r @ tp_rst p @ [NL]
      | ST_FAIL \<Rightarrow>
          tp_red p @ ''not ok'' @ tp_rst p @ '' '' @ fmt_dec num @ '' - '' @ ident @ [NL] @
          ''  '' @ tp_dim p @ ''---'' @ tp_rst p @ [NL] @
          ''  at:  '' @ r_file r @ '':'' @ fmt_int (r_line r) @ [NL] @
          (if r_rec_path r \<noteq> []
           then ''  recording: '' @ r_rec_path r @ [NL] @ (if r_rec_step r \<ge> 0 then ''  step: '' @ fmt_int (r_rec_step r) @ [NL] else [])
           else []) @
          (if r_msg r = [] then ''  msg: '' @ [CHR 0x22, CHR 0x22, NL] else ''  msg: |'' @ [NL] @ msg_block (r_msg r)) @
          ''  '' @ tp_dim p @ ''...'' @ tp_rst p @ [NL])"

section \<open>JUnit\<close>

datatype junit_body =
    Jpass
  | Jproblem string string string int "(string \<times> int option) option"  \<comment> \<open>tag, message, file, line, recording with its step\<close>
  | Jskipped string

record junit_case =
  jc_class :: string
  jc_name :: string
  jc_body :: junit_body

record junit_suite =
  js_name :: string
  js_tests :: nat
  js_failures :: nat
  js_errors :: nat
  js_skipped :: nat
  js_cases :: "junit_case list"

record junit_doc =
  jd_tests :: nat
  jd_failures :: nat
  jd_errors :: nat
  jd_skipped :: nat
  jd_suites :: "junit_suite list"

definition count_failures :: "test_result list \<Rightarrow> nat" where
  "count_failures rs = length (filter (\<lambda>r. \<not> result_is_error r \<and> r_outcome r = ST_FAIL) rs)"

definition count_errors :: "test_result list \<Rightarrow> nat" where
  "count_errors rs = length (filter result_is_error rs)"

definition count_skipped :: "test_result list \<Rightarrow> nat" where
  "count_skipped rs = length (filter (\<lambda>r. \<not> result_is_error r \<and> r_outcome r \<noteq> ST_FAIL \<and> r_outcome r = ST_SKIP) rs)"

definition junit_case_of :: "string \<Rightarrow> test_result \<Rightarrow> junit_case" where
  "junit_case_of suite r =
     \<lparr>jc_class = xml_print_escaped suite, jc_name = xml_print_escaped (the (r_name r)),
      jc_body = (case r_outcome r of
          ST_FAIL \<Rightarrow> Jproblem (if result_is_error r then ''error'' else ''failure'') (xml_print_escaped (r_msg r)) (xml_print_escaped (r_file r)) (r_line r)
            (if r_rec_path r \<noteq> [] then Some (xml_print_escaped (r_rec_path r), if r_rec_step r \<ge> 0 then Some (r_rec_step r) else None) else None)
        | ST_SKIP \<Rightarrow> Jskipped (xml_print_escaped (r_msg r))
        | ST_PASS \<Rightarrow> Jpass)\<rparr>"

text \<open>The suite of result \<open>i\<close>: its results from \<open>i\<close> on, counted and printed.\<close>

definition junit_suite_at :: "test_result list \<Rightarrow> nat \<Rightarrow> junit_suite" where
  "junit_suite_at results i =
     (let suite = the (r_suite (results ! i)); rs = filter (\<lambda>r. the (r_suite r) = suite) (drop i results) in
      \<lparr>js_name = xml_print_escaped suite, js_tests = length rs, js_failures = count_failures rs, js_errors = count_errors rs, js_skipped = count_skipped rs,
       js_cases = map (junit_case_of suite) rs\<rparr>)"

definition mark_done :: "test_result list \<Rightarrow> nat \<Rightarrow> bool list \<Rightarrow> bool list" where
  "mark_done results i dn = map (\<lambda>j. dn ! j \<or> i \<le> j \<and> the (r_suite (results ! j)) = the (r_suite (results ! i))) [0..<length results]"

fun junit_loop :: "test_result list \<Rightarrow> nat list \<Rightarrow> bool list \<Rightarrow> junit_suite list" where
  "junit_loop results [] dn = []"
| "junit_loop results (i # is) dn =
     (if dn ! i then junit_loop results is dn
      else junit_suite_at results i # junit_loop results is (mark_done results i dn))"

definition render_junit :: "test_result list \<Rightarrow> junit_doc" where
  "render_junit results =
     \<lparr>jd_tests = length results, jd_failures = count_failures results, jd_errors = count_errors results, jd_skipped = count_skipped results,
      jd_suites = junit_loop results [0..<length results] (replicate (length results) False)\<rparr>"

section \<open>JSON strings read back\<close>

text \<open>The string grammar of JSON, on bytes: one escape sequence after a backslash, and the characters up to the closing quote.\<close>

definition json_escape :: "string \<Rightarrow> (char \<times> string) option" where
  "json_escape s =
     (case s of [] \<Rightarrow> None
      | e # r \<Rightarrow>
          if e = CHR 0x22 \<or> e = CHR 0x5C \<or> e = CHR 0x2F then Some (e, r)
          else if e = CHR ''n'' then Some (NL, r) else if e = CHR ''r'' then Some (CHR 0x0D, r) else if e = CHR ''t'' then Some (CHR 0x09, r)
          else if e = CHR ''b'' then Some (CHR 0x08, r) else if e = CHR ''f'' then Some (CHR 0x0C, r)
          else if e = CHR ''u'' \<and> 4 \<le> length r \<and> read_base 16 (take 4 r) < 256 then Some (char_of (read_base 16 (take 4 r)), drop 4 r)
          else None)"

lemma json_escape_shorter: "json_escape s = Some (c, r) \<Longrightarrow> length r < length s"
  by (auto simp: json_escape_def split: list.splits if_splits)

function json_read :: "string \<Rightarrow> (string \<times> string) option" where
  "json_read [] = None"
| "json_read (c # cs) =
     (if c = CHR 0x22 then Some ([], cs)
      else if c = CHR 0x5C
      then (case json_escape cs of None \<Rightarrow> None | Some (x, r) \<Rightarrow> map_option (\<lambda>(t, r'). (x # t, r')) (json_read r))
      else if byte c < 0x20 then None
      else map_option (\<lambda>(t, r'). (c # t, r')) (json_read cs))"
  by pat_completeness auto

termination json_read
  by (relation "measure length") (auto dest: json_escape_shorter)

lemma char_of_of_char_nat: "char_of (byte c) = c"
  by (simp add: byte_def)

lemma json_read_char: "json_read (json_char c @ s) = map_option (\<lambda>(t, r). (c # t, r)) (json_read s)"
proof (cases "c \<in> {CHR 0x22, CHR 0x5C, NL, CHR 0x0D, CHR 0x09} \<or> \<not> byte c < 0x20")
  case True
  then show ?thesis by (auto simp: json_char_def json_escape_def)
next
  case False
  then have e: "json_char c = CHR 0x5C # ''u00'' @ [digit_char (byte c div 16), digit_char (byte c mod 16)]" and b: "byte c < 0x20"
    by (auto simp: json_char_def)
  have "read_base 16 [CHR ''0'', CHR ''0'', digit_char (byte c div 16), digit_char (byte c mod 16)] = byte c"
    using b by (simp add: read_base_def char_digit_char) (simp add: char_digit_def)
  then show ?thesis using b by (simp add: e json_escape_def char_of_of_char_nat)
qed

text \<open>
  C37: JSON strings read back: whatever bytes a string has, quotes, backslashes and control characters included, a JSON reader gets the same string from what the
  runner prints, and goes on right after it. A missing string is read as the empty one.
\<close>

theorem json_string_roundtrip:
  "hd (json_print_string s) = CHR 0x22 \<and> json_read (tl (json_print_string s) @ rest) = Some (case s of Some t \<Rightarrow> t | None \<Rightarrow> [], rest)"
proof -
  have "json_read (concat (map json_char t) @ CHR 0x22 # rest) = Some (t, rest)" for t
    by (induction t) (simp_all add: json_read_char del: json_read.simps(2), simp)
  then show ?thesis by (simp add: json_print_string_def split: option.split)
qed

section \<open>XML text read back\<close>

definition xml_entities :: "(string \<times> char) list" where
  "xml_entities = [(''amp;'', CHR 0x26), (''lt;'', CHR 0x3C), (''gt;'', CHR 0x3E), (''quot;'', CHR 0x22), (''#10;'', NL), (''#13;'', CHR 0x0D)]"

definition xml_entity :: "string \<Rightarrow> (char \<times> string) option" where
  "xml_entity s = (case find (\<lambda>(n, c). prefix n s) xml_entities of None \<Rightarrow> None | Some (n, c) \<Rightarrow> Some (c, drop (length n) s))"

lemma xml_entity_length: "xml_entity s = Some (c, r) \<Longrightarrow> length r \<le> length s"
  by (auto simp: xml_entity_def split: option.splits)

text \<open>
  The text of an attribute or element: no markup characters, no control characters but the tab (XML 1.0 has no others, and would fold a raw newline into a space).
\<close>

function xml_read :: "string \<Rightarrow> string option" where
  "xml_read [] = Some []"
| "xml_read (c # cs) =
     (if c = CHR 0x26 then (case xml_entity cs of None \<Rightarrow> None | Some (x, r) \<Rightarrow> map_option ((#) x) (xml_read r))
      else if c = CHR 0x3C \<or> c = CHR 0x3E \<or> c = CHR 0x22 \<or> byte c < 0x20 \<and> c \<noteq> CHR 0x09 then None
      else map_option ((#) c) (xml_read cs))"
  by pat_completeness auto

termination xml_read
  by (relation "measure length") (auto dest: xml_entity_length)

text \<open>A byte as the report shows it: control characters that XML does not have are spelled out.\<close>

definition xml_shown :: "char \<Rightarrow> string" where
  "xml_shown c = (if byte c < 0x20 \<and> c \<notin> {NL, CHR 0x0D, CHR 0x09} then CHR 0x5C # ''x'' @ [hex_upper (byte c div 16), hex_upper (byte c mod 16)] else [c])"

definition xml_plain :: "char \<Rightarrow> bool" where
  "xml_plain c \<longleftrightarrow> c \<notin> {CHR 0x26, CHR 0x3C, CHR 0x3E, CHR 0x22} \<and> (byte c < 0x20 \<longrightarrow> c = CHR 0x09)"

lemma hex_upper_plain: "d < 16 \<Longrightarrow> xml_plain (hex_upper d)"
proof -
  assume "d < 16"
  then have "d \<in> set [0..<16]" by simp
  moreover have "\<forall>d\<in>set [0..<16]. xml_plain (hex_upper d)" by code_simp
  ultimately show ?thesis by blast
qed

lemma xml_read_Cons_plain: "xml_plain c \<Longrightarrow> xml_read (c # cs) = map_option ((#) c) (xml_read cs)"
  by (auto simp: xml_plain_def)

lemma xml_read_plain: "\<forall>c\<in>set t. xml_plain c \<Longrightarrow> xml_read (t @ s) = map_option ((@) t) (xml_read s)"
  by (cases "xml_read s"; induction t) (simp_all add: xml_read_Cons_plain del: xml_read.simps(2))

lemma xml_entity_at:
  "xml_entity (''amp;'' @ s) = Some (CHR 0x26, s)" "xml_entity (''lt;'' @ s) = Some (CHR 0x3C, s)" "xml_entity (''gt;'' @ s) = Some (CHR 0x3E, s)"
  "xml_entity (''quot;'' @ s) = Some (CHR 0x22, s)" "xml_entity (''#10;'' @ s) = Some (NL, s)" "xml_entity (''#13;'' @ s) = Some (CHR 0x0D, s)"
  by (simp_all add: xml_entity_def xml_entities_def)

lemma xml_shown_plain: "c \<notin> {CHR 0x26, CHR 0x3C, CHR 0x3E, CHR 0x22, NL, CHR 0x0D} \<Longrightarrow> \<forall>x\<in>set (xml_shown c). xml_plain x"
proof -
  assume c: "c \<notin> {CHR 0x26, CHR 0x3C, CHR 0x3E, CHR 0x22, NL, CHR 0x0D}"
  have "byte c < 256" by (simp add: byte_def)
  then have "xml_plain (hex_upper (byte c div 16))" "xml_plain (hex_upper (byte c mod 16))" by (auto intro!: hex_upper_plain)
  moreover have "xml_plain (CHR 0x5C)" "xml_plain (CHR ''x'')" by code_simp+
  moreover have "\<not> (byte c < 0x20 \<and> c \<notin> {NL, CHR 0x0D, CHR 0x09}) \<Longrightarrow> xml_plain c" using c by (auto simp: xml_plain_def)
  ultimately show ?thesis unfolding xml_shown_def by (simp only: set_simps split: if_split) auto
qed

lemma append_single: "(@) [x] = (#) x"
  by (simp add: fun_eq_iff)

lemma xml_read_char: "xml_read (xml_char c @ s) = map_option ((@) (xml_shown c)) (xml_read s)"
proof (cases "c \<in> {CHR 0x26, CHR 0x3C, CHR 0x3E, CHR 0x22, NL, CHR 0x0D}")
  case True
  then consider "c = CHR 0x26" | "c = CHR 0x3C" | "c = CHR 0x3E" | "c = CHR 0x22" | "c = NL" | "c = CHR 0x0D" by auto
  then show ?thesis by cases (use xml_entity_at [of s] in \<open>simp_all add: xml_char_def xml_shown_def byte_def append_single\<close>)
next
  case False
  then have "xml_char c = xml_shown c" by (auto simp: xml_char_def xml_shown_def)
  then show ?thesis using xml_read_plain [OF xml_shown_plain [OF False], of s] by simp
qed

text \<open>
  Every string of a JUnit report is well-formed XML text and reads back: the escaped form has no markup and no character XML does not have, and an XML reader gets
  back the bytes of the string, with the control characters XML cannot express spelled out as \<^verbatim>\<open>\xNN\<close>.
\<close>

theorem xml_escaped_readable:
  "xml_read (xml_print_escaped s) = Some (concat (map xml_shown s))"
  by (induction s) (simp_all add: xml_print_escaped_def xml_read_char del: xml_read.simps(2))

section \<open>The JUnit document\<close>

definition suite_of :: "test_result \<Rightarrow> string" where
  "suite_of r = the (r_suite r)"

text \<open>The document as a function of the results: a suite per name, in the order of first appearance, with the results of that name in their order.\<close>

definition spec_suite :: "test_result list \<Rightarrow> string \<Rightarrow> junit_suite" where
  "spec_suite results n =
     (let rs = filter (\<lambda>r. suite_of r = n) results in
      \<lparr>js_name = xml_print_escaped n, js_tests = length rs, js_failures = count_failures rs, js_errors = count_errors rs, js_skipped = count_skipped rs,
       js_cases = map (junit_case_of n) rs\<rparr>)"

lemma junit_suite_at_spec:
  assumes "i < length results" "suite_of (results ! i) \<notin> suite_of ` set (take i results)"
  shows "junit_suite_at results i = spec_suite results (suite_of (results ! i))"
proof -
  have "filter (\<lambda>r. suite_of r = suite_of (results ! i)) (take i results @ drop i results) = filter (\<lambda>r. suite_of r = suite_of (results ! i)) (drop i results)"
    using assms(2) by (auto simp: filter_empty_conv image_iff simp del: append_take_drop_id)
  then show ?thesis by (simp add: junit_suite_at_def spec_suite_def Let_def suite_of_def)
qed

text \<open>The flags after \<open>i\<close> results: a result is done exactly when its suite has been met.\<close>

definition flags_at :: "test_result list \<Rightarrow> nat \<Rightarrow> bool list" where
  "flags_at results i = map (\<lambda>r. suite_of r \<in> suite_of ` set (take i results)) results"

lemma mark_flags:
  assumes "i < length results" "suite_of (results ! i) \<notin> suite_of ` set (take i results)"
  shows "mark_done results i (flags_at results i) = flags_at results (Suc i)"
proof (rule nth_equalityI)
  fix j
  assume "j < length (mark_done results i (flags_at results i))"
  then have j: "j < length results" by (simp add: mark_done_def)
  have "i \<le> j" if "suite_of (results ! j) = suite_of (results ! i)"
  proof (rule ccontr)
    assume "\<not> i \<le> j"
    then have "results ! j \<in> set (take i results)" using j assms(1) by (auto simp: in_set_conv_nth intro!: exI [of _ j])
    then show False using assms(2) that by (metis imageI)
  qed
  then show "mark_done results i (flags_at results i) ! j = flags_at results (Suc i) ! j"
    using j assms(1) by (auto simp: mark_done_def flags_at_def take_Suc_conv_app_nth suite_of_def)
qed (simp add: mark_done_def flags_at_def)

lemma junit_loop_spec:
  "i \<le> length results \<Longrightarrow> map (spec_suite results) (nub (map suite_of (take i results))) @ junit_loop results [i..<length results] (flags_at results i)
     = map (spec_suite results) (nub (map suite_of results))"
proof (induction "length results - i" arbitrary: i)
  case (Suc m)
  then have i: "i < length results" by linarith
  then have u: "[i..<length results] = i # [Suc i..<length results]" and t: "take (Suc i) results = take i results @ [results ! i]"
    by (simp_all add: upt_conv_Cons take_Suc_conv_app_nth)
  have IH: "map (spec_suite results) (nub (map suite_of (take (Suc i) results))) @ junit_loop results [Suc i..<length results] (flags_at results (Suc i))
     = map (spec_suite results) (nub (map suite_of results))" using Suc by simp
  have f: "flags_at results i ! i \<longleftrightarrow> suite_of (results ! i) \<in> suite_of ` set (take i results)" using i by (simp add: flags_at_def)
  show ?case
  proof (cases "suite_of (results ! i) \<in> suite_of ` set (take i results)")
    case True
    then have "flags_at results (Suc i) = flags_at results i" by (simp add: flags_at_def t insert_absorb)
    then show ?thesis using IH True f by (simp add: u t nub_snoc)
  next
    case False
    then show ?thesis using IH f mark_flags [OF i False] junit_suite_at_spec [OF i False] by (simp add: u t nub_snoc)
  qed
qed simp

text \<open>
  C36: A JUnit report has every result exactly once. Its suites are the suite names in the order they first appear, each with all the results of that suite in
  the order they ran, and with counts of exactly those results; the loop with its marks neither drops nor repeats one.
\<close>

theorem junit_groups_results:
  "jd_suites (render_junit results) = map (spec_suite results) (nub (map suite_of results))"
proof -
  have "flags_at results 0 = replicate (length results) False" by (simp add: flags_at_def map_replicate_const)
  then show ?thesis using junit_loop_spec [of 0 results] by (simp add: render_junit_def)
qed

lemma prefix_cbuf: "prefix p s \<Longrightarrow> length p \<le> n - 1 \<Longrightarrow> prefix p (cbuf n s)"
  by (auto simp: cbuf_def prefix_def)

text \<open>
  A child that ends without its record is reported as an error, never as a pass or a failed assertion, however it ended; so is a test stopped by a
  signal or the timeout in its own process.
\<close>

theorem dead_child_is_error:
  "result_is_error (reap_child t res None st) \<and>
   result_is_error (apply_wire res (capture_wire (fst (asmtest_on_signal sig g)) ST_FAIL))"
proof
  have c: "prefix p (cbuf 1024 (p @ x))" if "length p \<le> 1023" for p x :: string using that by (intro prefix_cbuf) simp_all
  show "result_is_error (reap_child t res None st)"
    using c [of "''timed out''"] c [of "''crashed:''"] c [of "''child exited abnormally''"]
    by (cases st) (simp_all add: reap_child_def result_is_error_def error_prefixes_def Let_def)
  show "result_is_error (apply_wire res (capture_wire (fst (asmtest_on_signal sig g)) ST_FAIL))"
    using c [of "''timed out''"] c [of "''caught fatal signal''"]
    by (simp add: asmtest_on_signal_def capture_wire_def apply_wire_def result_is_error_def error_prefixes_def Let_def prefix_cbuf)
qed

section \<open>The TAP stream\<close>

text \<open>The first characters of the lines of a text, and those of the lines a TAP reader looks at: the ones that are not indented.\<close>

fun line_starts :: "bool \<Rightarrow> string \<Rightarrow> string" where
  "line_starts b [] = []"
| "line_starts b (c # cs) = (if b then [c] else []) @ line_starts (c = NL) cs"

definition tops :: "string \<Rightarrow> string" where
  "tops s = filter (\<lambda>c. c \<noteq> CHR '' '') (line_starts True s)"

definition plain_palette :: tap_palette where
  "plain_palette = \<lparr>tp_grn = [], tp_red = [], tp_yel = [], tp_dim = [], tp_rst = []\<rparr>"

definition one_line :: "string \<Rightarrow> bool" where
  "one_line s \<longleftrightarrow> NL \<notin> set s"

text \<open>Results whose names are single lines, and whose message is one if it is the reason of a skip.\<close>

definition tap_clean :: "test_result \<Rightarrow> bool" where
  "tap_clean r \<longleftrightarrow> one_line (the (r_suite r)) \<and> one_line (the (r_name r)) \<and> one_line (r_file r) \<and> one_line (r_rec_path r) \<and>
     (r_outcome r = ST_SKIP \<longrightarrow> one_line (r_msg r))"

lemma line_starts_inner: "one_line s \<Longrightarrow> line_starts False (s @ NL # t) = line_starts True t"
  by (induction s) (auto simp: one_line_def)

lemma tops_line: "one_line (c # s) \<Longrightarrow> tops (c # s @ NL # t) = (if c = CHR '' '' then [] else [c]) @ tops t"
  using line_starts_inner [of s t] by (auto simp: tops_def one_line_def)

lemma one_line_append [simp]: "one_line (s @ t) \<longleftrightarrow> one_line s \<and> one_line t"
  by (auto simp: one_line_def)

lemma one_line_Cons [simp]: "one_line (c # s) \<longleftrightarrow> c \<noteq> NL \<and> one_line s"
  by (auto simp: one_line_def)

lemma one_line_Nil [simp]: "one_line []"
  by (simp add: one_line_def)

lemma one_line_dec [simp]: "one_line (fmt_dec n)"
proof (induction "10 :: nat" n rule: fmt_base.induct)
  case (1 n)
  have "\<forall>d\<in>set [0..<10]. digit_char d \<noteq> NL" by code_simp
  then have "d < 10 \<Longrightarrow> digit_char d \<noteq> NL" for d by simp
  then show ?case using 1 by (simp add: fmt_base.simps [of 10 n])
qed

lemma one_line_int [simp]: "one_line (fmt_int i)"
  by (simp add: fmt_int_def)

lemma tops_msg_block: "tops (msg_block s @ t) = tops t"
proof (induction s rule: msg_block.induct)
  case (1 s)
  show ?case
  proof (cases "s = []")
    case False
    let ?seg = "takeWhile (\<lambda>c. c \<noteq> NL) s" and ?rest = "dropWhile (\<lambda>c. c \<noteq> NL) s"
    have o: "one_line ?seg" by (auto simp: one_line_def dest: set_takeWhileD)
    let ?more = "case ?rest of [] \<Rightarrow> [] | _ # s1 \<Rightarrow> msg_block s1"
    have "tops (?more @ t) = tops t"
    proof (cases ?rest)
      case Nil
      then show ?thesis by (simp only: list.case append_Nil)
    next
      case (Cons c s1)
      show ?thesis unfolding Cons list.case by (rule 1(1) [OF False refl refl Cons])
    qed
    moreover have "msg_block s @ t = CHR '' '' # (''   '' @ ?seg) @ NL # ?more @ t" using False by (subst msg_block.simps) (simp add: Let_def)
    ultimately show ?thesis using tops_line [of "CHR '' ''" "''   '' @ ?seg" "?more @ t"] o by simp
  qed (simp add: msg_block.simps)
qed

lemma tops_result:
  assumes "tap_clean r"
  shows "tops (print_tap_result num r plain_palette @ t) = (if r_outcome r = ST_FAIL then CHR ''n'' else CHR ''o'') # tops t"
proof (cases "r_outcome r")
  case ST_PASS
  have "tops (CHR ''o'' # (''k '' @ fmt_dec num @ '' - '' @ the (r_suite r) @ ''.'' @ the (r_name r)) @ NL # t) = CHR ''o'' # tops t"
    using assms by (subst tops_line) (simp_all add: tap_clean_def)
  then show ?thesis using ST_PASS by (simp add: print_tap_result_def plain_palette_def Let_def)
next
  case ST_SKIP
  have "tops (CHR ''o'' # (''k '' @ fmt_dec num @ '' - '' @ the (r_suite r) @ ''.'' @ the (r_name r) @ '' # SKIP '' @ r_msg r) @ NL # t) = CHR ''o'' # tops t"
    using assms ST_SKIP by (subst tops_line) (simp_all add: tap_clean_def)
  then show ?thesis using ST_SKIP by (simp add: print_tap_result_def plain_palette_def Let_def)
next
  case ST_FAIL
  have sp: "tops (CHR '' '' # x @ NL # u) = tops u" if "one_line x" for x u using tops_line [of "CHR '' ''" x u] that by simp
  note sp2 = sp [of "CHR '' '' # x" for x, simplified]
  let ?fin = "''  ...'' @ NL # t"
  let ?msg = "if r_msg r = [] then ''  msg: '' @ [CHR 0x22, CHR 0x22, NL] else ''  msg: |'' @ [NL] @ msg_block (r_msg r)"
  let ?rec = "if r_rec_path r \<noteq> []
     then ''  recording: '' @ r_rec_path r @ [NL] @ (if r_rec_step r \<ge> 0 then ''  step: '' @ fmt_int (r_rec_step r) @ [NL] else []) else []"
  have e: "tops ?fin = tops t" using sp [of "'' ...''" t] by simp
  have m: "tops (?msg @ ?fin) = tops t"
    using sp [of "'' msg: '' @ [CHR 0x22, CHR 0x22]" ?fin] sp [of "'' msg: |''" "msg_block (r_msg r) @ ?fin"] e by (simp add: tops_msg_block)
  have rc: "tops (?rec @ ?msg @ ?fin) = tops t"
    using sp [of "'' recording: '' @ r_rec_path r"] sp [of "'' step: '' @ fmt_int (r_rec_step r)"] m assms by (simp add: tap_clean_def)
  have at: "tops (''  ---'' @ NL # ''  at:  '' @ r_file r @ '':'' @ fmt_int (r_line r) @ NL # ?rec @ ?msg @ ?fin) = tops t"
    using sp [of "'' ---''"] sp [of "'' at:  '' @ r_file r @ '':'' @ fmt_int (r_line r)"] rc assms by (simp add: tap_clean_def)
  have "print_tap_result num r plain_palette @ t = CHR ''n'' # (''ot ok '' @ fmt_dec num @ '' - '' @ the (r_suite r) @ ''.'' @ the (r_name r)) @ NL #
      ''  ---'' @ NL # ''  at:  '' @ r_file r @ '':'' @ fmt_int (r_line r) @ NL # ?rec @ ?msg @ ?fin"
    using ST_FAIL by (simp add: print_tap_result_def plain_palette_def Let_def)
  then show ?thesis using ST_FAIL assms at
      tops_line [of "CHR ''n''" "''ot ok '' @ fmt_dec num @ '' - '' @ the (r_suite r) @ ''.'' @ the (r_name r)"] by (simp add: tap_clean_def)
qed

text \<open>
  The TAP stream has one result line per test. On an uncoloured stream, whatever lines a failing test's message has, the lines a TAP reader sees are one per result,
  in order: \<^verbatim>\<open>not ok\<close> for a failure and \<^verbatim>\<open>ok\<close> otherwise; everything else is indented under its result.
\<close>

theorem tap_one_line_per_test:
  assumes "\<forall>r\<in>set rs. tap_clean r"
  shows "tops (concat (map (\<lambda>(i, r). print_tap_result (i + 1) r plain_palette) (enumerate k rs))) =
     map (\<lambda>r. if r_outcome r = ST_FAIL then CHR ''n'' else CHR ''o'') rs"
  using assms by (induction rs arbitrary: k) (simp_all add: tops_result, simp add: tops_def)

theorem tap_one_line_per_test_witness:
  "tops (concat (map (\<lambda>(i, r). print_tap_result (i + 1) r plain_palette)
     (enumerate 0 [zero_result\<lparr>r_suite := Some ''s'', r_name := Some ''a'', r_outcome := ST_FAIL, r_msg := ''x'' @ [NL] @ ''ok 2''\<rparr>,
        zero_result\<lparr>r_suite := Some ''s'', r_name := Some ''b''\<rparr>]))) = ''no''"
  by (subst tap_one_line_per_test) (simp_all add: tap_clean_def zero_result_def)

text \<open>The reason of a skip is printed as it is: a newline in it starts a line of the stream, here a second result.\<close>

lemma skip_reason_breaks_stream:
  "tops (print_tap_result 1 (zero_result\<lparr>r_suite := Some ''s'', r_name := Some ''a'', r_outcome := ST_SKIP, r_msg := ''x'' @ [NL] @ ''not ok 2''\<rparr>) plain_palette) = ''on''"
  by (simp add: print_tap_result_def plain_palette_def tops_def zero_result_def fmt_base.simps digit_char_def)

end
