(* ===== verification/Asserts.thy ===== *)
theory Asserts
  imports Runner "HOL-Library.Sublist"
begin

text \<open>
  The checks a test calls, \<^verbatim>\<open>src/src/asmtest.c\<close>: register and flag checks (the System V x86-64 branches), comparison of strings and memory with the dump of
  a difference, the guard-page buffers and the calibration of a benchmark. A check that fails returns what its message is made of.
\<close>

section \<open>Registers and flags\<close>

record regs =
  rg_rbx :: u64
  rg_rbp :: u64
  rg_r12 :: u64
  rg_r13 :: u64
  rg_r14 :: u64
  rg_r15 :: u64
  rg_flags :: u64

definition abi_table :: "regs \<Rightarrow> (string \<times> u64 \<times> u64) list" where
  "abi_table r =
     [(''rbx'', rg_rbx r, 0x1111111111111111), (''rbp'', rg_rbp r, 0x2222222222222222), (''r12'', rg_r12 r, 0x3333333333333333),
      (''r13'', rg_r13 r, 0x4444444444444444), (''r14'', rg_r14 r, 0x5555555555555555), (''r15'', rg_r15 r, 0x6666666666666666)]"

fun abi_scan :: "(string \<times> u64 \<times> u64) list \<Rightarrow> (string \<times> u64 \<times> u64) option" where
  "abi_scan [] = None"
| "abi_scan ((name, got, want) # cs) = (if got \<noteq> want then Some (name, got, want) else abi_scan cs)"

definition abi_message :: "string \<times> u64 \<times> u64 \<Rightarrow> string" where
  "abi_message c = (case c of (name, got, want) \<Rightarrow>
     name @ '' not restored (got 0x'' @ fmt_hex (unat got) @ '', expected 0x'' @ fmt_hex (unat want) @ '')'')"

text \<open>The verdict and the message, where there is a buffer of \<open>n\<close> bytes for it.\<close>

definition asmtest_check_abi :: "regs \<Rightarrow> nat \<Rightarrow> int \<times> string option" where
  "asmtest_check_abi r n =
     (case abi_scan (abi_table r) of
        Some c \<Rightarrow> (1, if n \<noteq> 0 then Some (cbuf n (abi_message c)) else None)
      | None \<Rightarrow> (0, if n \<noteq> 0 then Some [] else None))"

definition asmtest_check_flag :: "regs \<Rightarrow> u64 \<Rightarrow> bool \<Rightarrow> string \<Rightarrow> nat \<Rightarrow> int \<times> string option" where
  "asmtest_check_flag r msk want_set name n =
     (if (rg_flags r AND msk \<noteq> 0) \<noteq> want_set
      then (1, if n \<noteq> 0 then Some (cbuf n (''FLAG_'' @ (if want_set then ''SET'' else ''CLEAR'') @ ''('' @ name @ ''): flags=0x'' @ fmt_hex (unat (rg_flags r)))) else None)
      else (0, if n \<noteq> 0 then Some [] else None))"

lemma abi_scan_None: "abi_scan cs = None \<longleftrightarrow> (\<forall>(name, got, want)\<in>set cs. got = want)"
  by (induction cs rule: abi_scan.induct) auto

text \<open>
  The check of the calling convention passes exactly when all six callee-saved registers hold their sentinels.
\<close>

lemma check_abi_exact:
  "fst (asmtest_check_abi r n) = 0 \<longleftrightarrow>
     rg_rbx r = 0x1111111111111111 \<and> rg_rbp r = 0x2222222222222222 \<and> rg_r12 r = 0x3333333333333333 \<and>
     rg_r13 r = 0x4444444444444444 \<and> rg_r14 r = 0x5555555555555555 \<and> rg_r15 r = 0x6666666666666666"
proof -
  have "fst (asmtest_check_abi r n) = 0 \<longleftrightarrow> abi_scan (abi_table r) = None" by (simp add: asmtest_check_abi_def split: option.split)
  then show ?thesis unfolding abi_scan_None by (simp add: abi_table_def)
qed

section \<open>Memory\<close>

definition hex2 :: "nat \<Rightarrow> string" where
  "hex2 b = [digit_char (b div 16), digit_char (b mod 16)]"

text \<open>The loop over the bytes from \<open>j\<close> to \<open>e\<close>, with \<open>off\<close> characters written.\<close>

function dump_loop :: "nat \<Rightarrow> nat list \<Rightarrow> nat \<Rightarrow> nat \<Rightarrow> nat \<Rightarrow> string" where
  "dump_loop cap p j e off =
     (if j < e \<and> off + 4 < cap
      then let s = hex2 (p ! j) @ (if j + 1 < e then '' '' else []) in s @ dump_loop cap p (j + 1) e (off + length s)
      else [])"
  by pat_completeness auto

termination dump_loop
  by (relation "measure (\<lambda>(cap, p, j, e, off). e - j)") auto

declare dump_loop.simps [simp del]

definition hexdump_window :: "nat \<Rightarrow> nat list \<Rightarrow> nat \<Rightarrow> nat \<Rightarrow> string" where
  "hexdump_window cap p start e = dump_loop cap p start e 0"

fun first_diff :: "nat list \<Rightarrow> nat list \<Rightarrow> nat \<Rightarrow> nat \<Rightarrow> nat" where
  "first_diff pa pb i 0 = i"
| "first_diff pa pb i (Suc k) = (if pa ! i = pb ! i then first_diff pa pb (i + 1) k else i)"

text \<open>A difference: where, the two bytes, the window shown, and its two dumps.\<close>

record mem_diff =
  md_at :: nat
  md_expect :: nat
  md_actual :: nat
  md_start :: nat
  md_end :: nat
  md_expect_hex :: string
  md_actual_hex :: string

definition asmtest_assert_mem_eq :: "nat list \<Rightarrow> nat list \<Rightarrow> nat \<Rightarrow> mem_diff option" where
  "asmtest_assert_mem_eq pa pb n =
     (let i = first_diff pa pb 0 n in
      if i = n then None
      else let start = (if i \<ge> 8 then i - 8 else 0); e0 = start + 16; e = (if e0 > n then n else e0) in
        Some \<lparr>md_at = i, md_expect = pb ! i, md_actual = pa ! i, md_start = start, md_end = e,
              md_expect_hex = hexdump_window 64 pb start e, md_actual_hex = hexdump_window 64 pa start e\<rparr>)"

lemma first_diff_bounds: "i \<le> first_diff pa pb i k \<and> first_diff pa pb i k \<le> i + k"
  by (induction pa pb i k rule: first_diff.induct) auto

lemma first_diff_spec:
  "(\<forall>j. i \<le> j \<and> j < first_diff pa pb i k \<longrightarrow> pa ! j = pb ! j) \<and>
   (first_diff pa pb i k < i + k \<longrightarrow> pa ! first_diff pa pb i k \<noteq> pb ! first_diff pa pb i k)"
proof (induction pa pb i k rule: first_diff.induct)
  case (2 pa pb i k)
  show ?case
  proof (cases "pa ! i = pb ! i")
    case True
    then have "j = i \<or> i + 1 \<le> j" if "i \<le> j" for j using that by linarith
    then show ?thesis using 2 True by auto
  qed simp
qed simp

text \<open>The dump of a window of at most 16 bytes fits the buffer, so it is the whole window.\<close>

lemma dump_loop_whole:
  "off + 3 * (e - j) + 2 \<le> cap \<Longrightarrow> dump_loop cap p j e off = concat (map (\<lambda>k. hex2 (p ! k) @ (if k + 1 < e then '' '' else [])) [j..<e])"
proof (induction "e - j" arbitrary: j off)
  case (Suc m)
  let ?s = "hex2 (p ! j) @ (if j + 1 < e then '' '' else [])"
  have j: "j < e" "off + 4 < cap" "m = e - (j + 1)" using Suc by auto
  have "length ?s \<le> 3" by (simp add: hex2_def)
  then have "(off + length ?s) + 3 * (e - (j + 1)) + 2 \<le> cap" using Suc(2,3) j by linarith
  from Suc(1) [OF j(3) this] show ?case using j by (subst dump_loop.simps) (simp add: Let_def upt_conv_Cons)
qed (simp add: dump_loop.simps)

text \<open>
  The memory assertion passes exactly on equal bytes. Otherwise it reports the first difference, with a window of at most 16 bytes that
  contains it and lies inside the compared range, dumped in full.
\<close>

lemma mem_eq_exact:
  assumes "length pa \<ge> n" "length pb \<ge> n"
  shows "case asmtest_assert_mem_eq pa pb n of
      None \<Rightarrow> take n pa = take n pb
    | Some d \<Rightarrow> md_at d < n \<and> take (md_at d) pa = take (md_at d) pb \<and> pa ! md_at d \<noteq> pb ! md_at d \<and>
        md_expect d = pb ! md_at d \<and> md_actual d = pa ! md_at d \<and>
        md_start d \<le> md_at d \<and> md_at d < md_end d \<and> md_end d \<le> n \<and> md_end d \<le> md_start d + 16 \<and>
        md_expect_hex d = concat (map (\<lambda>k. hex2 (pb ! k) @ (if k + 1 < md_end d then '' '' else [])) [md_start d..<md_end d]) \<and>
        md_actual_hex d = concat (map (\<lambda>k. hex2 (pa ! k) @ (if k + 1 < md_end d then '' '' else [])) [md_start d..<md_end d])"
proof -
  let ?i = "first_diff pa pb 0 n"
  have i: "?i \<le> n" "\<forall>j<?i. pa ! j = pb ! j" "?i < n \<longrightarrow> pa ! ?i \<noteq> pb ! ?i"
    using first_diff_bounds [of 0 pa pb n] first_diff_spec [of 0 pa pb n] by auto
  have t: "take ?i pa = take ?i pb" using i(1,2) assms by (intro nth_equalityI) auto
  show ?thesis
  proof (cases "?i = n")
    case True
    then show ?thesis using t by (simp add: asmtest_assert_mem_eq_def)
  next
    case False
    let ?s = "if ?i \<ge> 8 then ?i - 8 else 0" let ?e = "if ?s + 16 > n then n else ?s + 16"
    have w: "?s \<le> ?i" "?i < ?e" "?e \<le> n" "?e \<le> ?s + 16" using i(1) False by auto
    have h: "hexdump_window 64 p ?s ?e = concat (map (\<lambda>k. hex2 (p ! k) @ (if k + 1 < ?e then '' '' else [])) [?s..<?e])" for p
      unfolding hexdump_window_def using w(4) by (intro dump_loop_whole) linarith
    show ?thesis using False i(1,3) t w h unfolding asmtest_assert_mem_eq_def Let_def if_not_P [OF False] option.case mem_diff.simps by simp
  qed
qed

section \<open>Guard pages\<close>

text \<open>Sizes and addresses are natural numbers below \<open>2 ^ 64\<close>; the page size is \<open>pg\<close>.\<close>

definition round_up_page :: "nat \<Rightarrow> nat \<Rightarrow> nat" where
  "round_up_page n pg =
     (if n > SIZE_MAX - 2 * pg then 0
      else let usable = sz_mul (sz_add n (pg - 1) div pg) pg in if usable = 0 then pg else usable)"

text \<open>
  \<open>mmap\<close> answers a length with the base of a mapping, \<open>mprotect\<close> whether it succeeded on an address and a length. The result is the buffer, if any, and the
  mapping kept with its protected page.
\<close>

definition asmtest_guarded_alloc :: "nat \<Rightarrow> (nat \<Rightarrow> nat option) \<Rightarrow> (nat \<Rightarrow> nat \<Rightarrow> bool) \<Rightarrow> nat \<Rightarrow> (nat \<times> (nat \<times> nat) \<times> nat) option" where
  "asmtest_guarded_alloc pg mmap mprotect n =
     (let usable = round_up_page n pg in
      if usable = 0 then None
      else let total = sz_add usable pg in
        case mmap total of
          None \<Rightarrow> None
        | Some base \<Rightarrow> if \<not> mprotect (sz_add base usable) pg then None else Some (sz_add base (usable - n), (base, total), sz_add base usable))"

definition asmtest_guarded_free :: "nat \<Rightarrow> nat \<Rightarrow> nat \<Rightarrow> (nat \<times> nat) option" where
  "asmtest_guarded_free pg p n =
     (let usable = round_up_page n pg in if usable = 0 then None else Some (p - (usable - n), sz_add usable pg))"

definition asmtest_guarded_alloc_under :: "nat \<Rightarrow> (nat \<Rightarrow> nat option) \<Rightarrow> (nat \<Rightarrow> nat \<Rightarrow> bool) \<Rightarrow> nat \<Rightarrow> (nat \<times> (nat \<times> nat) \<times> nat) option" where
  "asmtest_guarded_alloc_under pg mmap mprotect n =
     (let usable = round_up_page n pg in
      if usable = 0 then None
      else let total = sz_add pg usable in
        case mmap total of
          None \<Rightarrow> None
        | Some base \<Rightarrow> if \<not> mprotect base pg then None else Some (sz_add base pg, (base, total), base))"

definition asmtest_guarded_free_under :: "nat \<Rightarrow> nat \<Rightarrow> nat \<Rightarrow> (nat \<times> nat) option" where
  "asmtest_guarded_free_under pg p n =
     (let usable = round_up_page n pg in if usable = 0 then None else Some (p - pg, sz_add pg usable))"

lemma round_up_page_exact:
  assumes "0 < pg" "pg < 2 ^ 32" "round_up_page n pg \<noteq> 0"
  shows "n \<le> round_up_page n pg \<and> round_up_page n pg + pg \<le> SIZE_MAX \<and> pg dvd round_up_page n pg \<and> round_up_page n pg < n + pg \<or>
    n = 0 \<and> round_up_page n pg = pg"
proof -
  have n: "n + 2 * pg \<le> SIZE_MAX" using assms by (auto simp: round_up_page_def SIZE_MAX_def split: if_splits)
  let ?u = "(n + (pg - 1)) div pg * pg"
  have u: "?u \<le> n + (pg - 1)" "n \<le> ?u" using assms(1)
    by (simp, metis Suc_diff_1 add_diff_cancel_right' add_Suc_right diff_le_self div_mult_mod_eq le_diff_conv less_Suc_eq_le linorder_not_less mod_less_divisor nat_add_left_cancel_le)
  have e: "sz_mul (sz_add n (pg - 1) div pg) pg = ?u" 
  proof -
    have "n + (pg - 1) \<le> SIZE_MAX" "?u \<le> SIZE_MAX" using n u(1) assms(1) by linarith+
    then show ?thesis by (simp only: sz_add_exact sz_mul_exact)
  qed
  have r: "round_up_page n pg = (if ?u = 0 then pg else ?u)" 
  proof -
    have "\<not> n > SIZE_MAX - 2 * pg" using n by linarith
    then show ?thesis unfolding round_up_page_def Let_def e by simp
  qed
  show ?thesis
  proof (cases "?u = 0")
    case True
    then have "n = 0" using u(2) by (metis le_zero_eq)
    then show ?thesis using True r by simp
  next
    case False
    then have e: "round_up_page n pg = ?u" using r by (simp only: if_False)
    have "?u + pg \<le> SIZE_MAX" "?u < n + pg" using u n assms(1) by linarith+
    then show ?thesis unfolding e using u(2) by (intro disjI1 conjI dvd_triv_right) assumption+
  qed
qed

text \<open>
  A guarded buffer touches its guard page and nothing else is lost. Where the allocation succeeds, for any size, the byte right after an overrun-guarded
  buffer (right before an underrun-guarded one) is the first (last) of the inaccessible page, the buffer lies inside the mapping, and freeing
  it with its size unmaps exactly the mapping that was made. Sizes near the top of the address space are refused, not wrapped.
\<close>

theorem guarded_buffers_abut:
  assumes "0 < pg" "pg < 2 ^ 32" "\<forall>len base. mmap len = Some base \<longrightarrow> base + len \<le> SIZE_MAX"
  shows "(\<forall>p base total guard. asmtest_guarded_alloc pg mmap mprotect n = Some (p, (base, total), guard) \<longrightarrow>
      base \<le> p \<and> p + n = guard \<and> guard + pg = base + total \<and> mmap total = Some base \<and> mprotect guard pg \<and> asmtest_guarded_free pg p n = Some (base, total)) \<and>
    (\<forall>p base total guard. asmtest_guarded_alloc_under pg mmap mprotect n = Some (p, (base, total), guard) \<longrightarrow>
      guard = base \<and> guard + pg = p \<and> p + n \<le> base + total \<and> mmap total = Some base \<and> mprotect guard pg \<and> asmtest_guarded_free_under pg p n = Some (base, total))"
proof (cases "round_up_page n pg = 0")
  case True
  then show ?thesis by (simp add: asmtest_guarded_alloc_def asmtest_guarded_alloc_under_def)
next
  case False
  let ?u = "round_up_page n pg"
  have n: "n + 2 * pg \<le> SIZE_MAX" using False assms(1,2) by (auto simp: round_up_page_def SIZE_MAX_def split: if_splits)
  have u: "n \<le> ?u" "?u + pg \<le> SIZE_MAX" using round_up_page_exact [OF assms(1,2) False] n by auto
  have t: "sz_add ?u pg = ?u + pg" "sz_add pg ?u = ?u + pg" using u(2) by (simp_all add: sz_add_exact add.commute)
  have m: "sz_add base ?u = base + ?u" "sz_add base (?u - n) = base + (?u - n)" "sz_add base pg = base + pg" if "mmap (?u + pg) = Some base" for base
  proof -
    have "base + (?u + pg) \<le> SIZE_MAX" using assms(3) that by blast
    then have "base + ?u \<le> SIZE_MAX" "base + (?u - n) \<le> SIZE_MAX" "base + pg \<le> SIZE_MAX" by linarith+
    then show "sz_add base ?u = base + ?u" "sz_add base (?u - n) = base + (?u - n)" "sz_add base pg = base + pg" by (simp_all only: sz_add_exact)
  qed
  show ?thesis using False u m
    by (auto simp: asmtest_guarded_alloc_def asmtest_guarded_alloc_under_def asmtest_guarded_free_def asmtest_guarded_free_under_def Let_def t
        split: option.splits if_splits)
qed

theorem guarded_buffers_abut_witness:
  "asmtest_guarded_alloc 4096 (\<lambda>_. Some 0x10000) (\<lambda>_ _. True) 10 = Some (0x10ff6, (0x10000, 8192), 0x11000) \<and> 0x10ff6 + 10 = (0x11000 :: nat) \<and>
   asmtest_guarded_free 4096 0x10ff6 10 = Some (0x10000, 8192) \<and>
   asmtest_guarded_alloc 4096 (\<lambda>_. Some 0x10000) (\<lambda>_ _. True) SIZE_MAX = None"
proof -
  let ?mmap = "\<lambda>len. if len \<le> 8192 then Some (0x10000 :: nat) else None"
  have c: "\<forall>len base. ?mmap len = Some base \<longrightarrow> base + len \<le> SIZE_MAX" by (auto simp: SIZE_MAX_def)
  have r: "round_up_page 10 4096 = 4096" "round_up_page SIZE_MAX 4096 = 0" by (simp_all add: round_up_page_def SIZE_MAX_def sz_add_def sz_mul_def)
  have "asmtest_guarded_alloc 4096 ?mmap (\<lambda>_ _. True) 10 = Some (0x10ff6, (0x10000, 8192), 0x11000)"
    by (simp add: asmtest_guarded_alloc_def r sz_add_def)
  with guarded_buffers_abut [OF _ _ c, of 4096 "\<lambda>_ _. True" 10]
  have "asmtest_guarded_free 4096 0x10ff6 10 = Some (0x10000, 8192)" by simp
  then show ?thesis by (simp add: asmtest_guarded_alloc_def r sz_add_def)
qed

section \<open>Calibration\<close>

definition BENCH_TARGET :: nat where "BENCH_TARGET = 50000"
definition BENCH_REPS_CAP :: nat where "BENCH_REPS_CAP = 5000000"

text \<open>\<open>ticks k reps\<close> is the counter difference of the \<open>k\<close>-th measurement.\<close>

function calibrate_loop :: "(nat \<Rightarrow> nat \<Rightarrow> nat) \<Rightarrow> nat \<Rightarrow> nat \<Rightarrow> nat" where
  "calibrate_loop ticks k reps =
     (if 0 < reps \<and> reps < BENCH_REPS_CAP \<and> ticks k reps < BENCH_TARGET then calibrate_loop ticks (k + 1) (reps * 2) else reps)"
  by pat_completeness auto

termination calibrate_loop
  by (relation "measure (\<lambda>(ticks, k, reps). BENCH_REPS_CAP - reps)") (auto simp: BENCH_REPS_CAP_def)

declare calibrate_loop.simps [simp del]

definition bench_calibrate :: "(nat \<Rightarrow> nat \<Rightarrow> nat) \<Rightarrow> nat" where
  "bench_calibrate ticks = (let reps = calibrate_loop ticks 0 1 in if reps > BENCH_REPS_CAP then BENCH_REPS_CAP else reps)"

text \<open>
  Calibration ends, whatever the counter reads, with between one and five million repetitions, and with fewer than that only when a
  round of them was seen to span the target.
\<close>

lemma calibrate_loop_spec:
  "0 < reps \<Longrightarrow> reps \<le> calibrate_loop ticks k reps \<and>
     (calibrate_loop ticks k reps < BENCH_REPS_CAP \<longrightarrow> (\<exists>m. ticks m (calibrate_loop ticks k reps) \<ge> BENCH_TARGET))"
proof (induction ticks k reps rule: calibrate_loop.induct)
  case (1 ticks k reps)
  then show ?case by (subst (1 2 3) calibrate_loop.simps) (auto simp: not_less intro: exI [of _ k])
qed

lemma bench_calibrate_bounds:
  "1 \<le> bench_calibrate ticks \<and> bench_calibrate ticks \<le> BENCH_REPS_CAP \<and>
   (bench_calibrate ticks < BENCH_REPS_CAP \<longrightarrow> (\<exists>m. ticks m (bench_calibrate ticks) \<ge> BENCH_TARGET))"
  using calibrate_loop_spec [of 1 ticks 0] by (auto simp: bench_calibrate_def Let_def BENCH_REPS_CAP_def)

end
