(* ===== verification/Fuzz.thy ===== *)
theory Fuzz
  imports Trace Difftest
begin

text \<open>
  Coverage-guided generation and mutation testing, \<^verbatim>\<open>src/src/fuzz.c\<close>. The emulator is an argument: \<open>run x\<close> is what a run of the routine on \<open>x\<close> appends
  to a trace, \<open>sig code x\<close> the fingerprint of a run (whether it ended, whether it faulted, and the result register). The documentation asks that
  a routine depend on its argument only, which makes both functions.
\<close>

section \<open>Generation\<close>

text \<open>A candidate, and the state of the generator after it.\<close>

definition fuzz_mutate :: "u64 list \<Rightarrow> u64 \<Rightarrow> u64 \<times> u64" where
  "fuzz_mutate corpus rng =
     (case asmtest_rng_u64 rng of (i, rng1) \<Rightarrow>
      let base = corpus ! unat (i mod of_nat (length corpus)) in
      case asmtest_rng_u64 rng1 of (c, rng2) \<Rightarrow>
        if c AND 1 \<noteq> 0
        then (case asmtest_rng_u64 rng2 of (b, rng3) \<Rightarrow> (base XOR push_bit (unat (b mod 62)) 1, rng3))
        else (case asmtest_rng_range rng2 (- 4) 4 of (d, rng3) \<Rightarrow> (base + d, rng3)))"

definition clamp :: "u64 \<Rightarrow> u64 \<Rightarrow> u64 \<Rightarrow> u64" where
  "clamp lo hi x = (let x1 = (if sint x < sint lo then lo else x) in if sint x1 > sint hi then hi else x1)"

definition fuzz_candidate :: "u64 \<Rightarrow> u64 \<Rightarrow> u64 list \<Rightarrow> u64 \<Rightarrow> u64 \<times> u64" where
  "fuzz_candidate lo hi corpus rng =
     (if corpus = [] then asmtest_rng_range rng lo hi
      else case asmtest_rng_u64 rng of (c, rng1) \<Rightarrow>
        if c AND 1 \<noteq> 0 then asmtest_rng_range rng1 lo hi
        else (case fuzz_mutate corpus rng1 of (x, rng2) \<Rightarrow> (clamp lo hi x, rng2)))"

fun fuzz_loop :: "(u64 \<Rightarrow> trace_event list) \<Rightarrow> u64 \<Rightarrow> u64 \<Rightarrow> nat \<Rightarrow> u64 list \<Rightarrow> asmtest_trace \<Rightarrow> u64 \<Rightarrow> u64 list \<times> asmtest_trace" where
  "fuzz_loop run lo hi 0 corpus uni rng = (corpus, uni)"
| "fuzz_loop run lo hi (Suc k) corpus uni rng =
     (case fuzz_candidate lo hi corpus rng of (x, rng1) \<Rightarrow>
      let uni1 = trace_run uni (run x) in
      fuzz_loop run lo hi k (if t_blocks_len uni1 > t_blocks_len uni then corpus @ [x] else corpus) uni1 rng1)"

record emu_fuzz_stat =
  fs_blocks_reached :: nat
  fs_corpus_len :: nat
  fs_iterations :: nat

definition emu_fuzz_cover1 ::
  "(u64 \<Rightarrow> trace_event list) \<Rightarrow> u64 \<Rightarrow> u64 \<Rightarrow> nat \<Rightarrow> u64 \<Rightarrow> asmtest_trace \<Rightarrow> heap \<Rightarrow> (emu_fuzz_stat \<times> u64 list \<times> asmtest_trace) option \<times> heap" where
  "emu_fuzz_cover1 run lo hi iters seed uni h =
     (if t_blocks uni = None \<or> sint hi < sint lo then (None, h)
      else case alloc h of (ok, h1) \<Rightarrow>
        if \<not> ok then (None, h1)
        else (case fuzz_loop run lo hi iters [] uni seed of (corpus, uni1) \<Rightarrow>
                Some (\<lparr>fs_blocks_reached = t_blocks_len uni1, fs_corpus_len = length corpus, fs_iterations = iters\<rparr>, corpus, uni1), h1))"

section \<open>Mutation testing\<close>

type_synonym run_sig = "bool \<times> bool \<times> u64"

definition flip_bit_at :: "8 word list \<Rightarrow> nat \<Rightarrow> 8 word list" where
  "flip_bit_at code b = code[b div 8 := code ! (b div 8) XOR push_bit (b mod 8) 1]"

fun distinguished :: "(8 word list \<Rightarrow> u64 \<Rightarrow> run_sig) \<Rightarrow> 8 word list \<Rightarrow> u64 list \<Rightarrow> run_sig list \<Rightarrow> bool" where
  "distinguished sig mut (x # xs) (s # ss) = (if sig mut x \<noteq> s then True else distinguished sig mut xs ss)"
| "distinguished sig mut _ _ = False"

fun mutant_loop ::
  "(8 word list \<Rightarrow> u64 \<Rightarrow> run_sig) \<Rightarrow> 8 word list \<Rightarrow> u64 list \<Rightarrow> run_sig list \<Rightarrow> bool \<Rightarrow> nat \<Rightarrow> nat \<Rightarrow> u64 \<Rightarrow> nat \<Rightarrow> nat \<Rightarrow> nat \<times> nat" where
  "mutant_loop sig code inputs base sweep m 0 rng killed survived = (killed, survived)"
| "mutant_loop sig code inputs base sweep m (Suc k) rng killed survived =
     (case (if sweep then (m, rng) else case asmtest_rng_u64 rng of (z, rng1) \<Rightarrow> (unat (z mod of_nat (length code * 8)), rng1)) of (b, rng1) \<Rightarrow>
        if distinguished sig (flip_bit_at code b) inputs base
        then mutant_loop sig code inputs base sweep (m + 1) k rng1 (killed + 1) survived
        else mutant_loop sig code inputs base sweep (m + 1) k rng1 killed (survived + 1))"

record emu_mutation_stat =
  ms_mutants :: nat
  ms_killed :: nat
  ms_survived :: nat

text \<open>Two allocations; the result is the number of survivors and the statistics where they were filled.\<close>

definition emu_mutation_test1 ::
  "(8 word list \<Rightarrow> u64 \<Rightarrow> run_sig) \<Rightarrow> 8 word list \<Rightarrow> u64 list \<Rightarrow> nat \<Rightarrow> u64 \<Rightarrow> heap \<Rightarrow> (nat \<times> emu_mutation_stat option) \<times> heap" where
  "emu_mutation_test1 sig code inputs max_mutants seed h =
     (if inputs = [] \<or> code = [] then ((0, None), h)
      else case alloc h of (ok1, h1) \<Rightarrow> case alloc h1 of (ok2, h2) \<Rightarrow>
        if \<not> ok1 \<or> \<not> ok2 then ((0, None), h2)
        else
          let base = map (sig code) inputs;
              total_bits = sz_mul (length code) 8;
              want = (if max_mutants = 0 \<or> max_mutants > total_bits then total_bits else max_mutants)
          in case mutant_loop sig code inputs base (want = total_bits) 0 want seed 0 0 of (killed, survived) \<Rightarrow>
               ((survived, Some \<lparr>ms_mutants = want, ms_killed = killed, ms_survived = survived\<rparr>), h2))"

section \<open>Coverage of one run\<close>

definition emu_cover_hits :: "trace_event list \<Rightarrow> nat \<Rightarrow> u64 list" where
  "emu_cover_hits es cap = buf_of (t_blocks (trace_run (zero_trace\<lparr>t_blocks := Some [], t_blocks_cap := cap\<rparr>) es))"

section \<open>The corpus carries the coverage\<close>

lemma trace_run_blocks:
  "t_blocks t \<noteq> None \<Longrightarrow> t_blocks (trace_run t es) = Some (foldl (add_distinct (t_blocks_cap t)) (buf_of (t_blocks t)) (block_offs es))"
  "t_blocks_cap (trace_run t es) = t_blocks_cap t"
  by (induction es arbitrary: t) (auto simp: trace_run_def block_offs_def sink_laws foldl_append)

lemma foldl_add_distinct_grows: "\<exists>zs. foldl (add_distinct cap) xs ys = xs @ zs"
proof (induction ys arbitrary: xs)
  case (Cons y ys)
  obtain zs where "foldl (add_distinct cap) (add_distinct cap xs y) ys = add_distinct cap xs y @ zs" using Cons by blast
  moreover have "\<exists>ws. add_distinct cap xs y = xs @ ws" by (simp add: add_distinct_def)
  ultimately show ?case by auto
qed simp

text \<open>A run that does not add a block leaves the blocks as they were.\<close>

lemma trace_run_no_growth:
  assumes "t_blocks t \<noteq> None" "\<not> t_blocks_len (trace_run t es) > t_blocks_len t"
  shows "t_blocks (trace_run t es) = t_blocks t"
proof -
  obtain zs where z: "foldl (add_distinct (t_blocks_cap t)) (buf_of (t_blocks t)) (block_offs es) = buf_of (t_blocks t) @ zs"
    using foldl_add_distinct_grows by blast
  then have "t_blocks (trace_run t es) = Some (buf_of (t_blocks t) @ zs)" using assms(1) by (simp add: trace_run_blocks)
  moreover from this have "zs = []" using assms(2) by simp
  ultimately show ?thesis using assms(1) by auto
qed

text \<open>The blocks of a trace after the given inputs, one after the other.\<close>

definition replay :: "(u64 \<Rightarrow> trace_event list) \<Rightarrow> asmtest_trace \<Rightarrow> u64 list \<Rightarrow> asmtest_trace" where
  "replay run t xs = foldl (\<lambda>t x. trace_run t (run x)) t xs"

lemma trace_run_cong:
  assumes "t_blocks t = t_blocks t'" "t_blocks_cap t = t_blocks_cap t'" "t_blocks t \<noteq> None"
  shows "t_blocks (trace_run t es) = t_blocks (trace_run t' es)"
proof -
  have n: "t_blocks t' \<noteq> None" using assms(1,3) by simp
  show ?thesis unfolding trace_run_blocks(1) [OF assms(3)] trace_run_blocks(1) [OF n] assms(1,2) ..
qed

lemma range_in: "sint lo \<le> sint hi \<Longrightarrow> sint lo \<le> sint (fst (asmtest_rng_range s lo hi)) \<and> sint (fst (asmtest_rng_range s lo hi)) \<le> sint hi"
proof (cases "sint hi \<le> sint lo")
  case True
  then show "sint lo \<le> sint hi \<Longrightarrow> ?thesis" by (simp add: asmtest_rng_range_def)
next
  case False
  have "fst (asmtest_rng_range s lo hi) \<in> range (\<lambda>s. fst (asmtest_rng_range s lo hi))" by blast
  then show "sint lo \<le> sint hi \<Longrightarrow> ?thesis" using False by (simp add: range_of_draws)
qed

lemma clamp_in: "sint lo \<le> sint hi \<Longrightarrow> sint lo \<le> sint (clamp lo hi x) \<and> sint (clamp lo hi x) \<le> sint hi"
  by (auto simp: clamp_def Let_def)

lemma candidate_in:
  assumes "sint lo \<le> sint hi"
  shows "sint lo \<le> sint (fst (fuzz_candidate lo hi corpus rng)) \<and> sint (fst (fuzz_candidate lo hi corpus rng)) \<le> sint hi"
  using range_in [OF assms] clamp_in [OF assms] by (simp add: fuzz_candidate_def split: prod.split)

lemma replay_cap: "t_blocks_cap (replay run t xs) = t_blocks_cap t" "t_blocks t \<noteq> None \<Longrightarrow> t_blocks (replay run t xs) \<noteq> None"
  by (induction xs arbitrary: t) (simp_all add: replay_def trace_run_blocks)

lemma fuzz_loop_spec:
  assumes "sint lo \<le> sint hi" "t_blocks t0 \<noteq> None"
  shows "t_blocks (replay run t0 corpus) = t_blocks uni \<Longrightarrow> t_blocks_cap uni = t_blocks_cap t0 \<Longrightarrow> \<forall>x\<in>set corpus. sint lo \<le> sint x \<and> sint x \<le> sint hi \<Longrightarrow>
    fuzz_loop run lo hi k corpus uni rng = (corpus', uni') \<Longrightarrow>
    t_blocks (replay run t0 corpus') = t_blocks uni' \<and> (\<forall>x\<in>set corpus'. sint lo \<le> sint x \<and> sint x \<le> sint hi) \<and> length corpus' \<le> length corpus + k"
proof (induction k arbitrary: corpus uni rng)
  case (Suc k)
  obtain x rng1 where c: "fuzz_candidate lo hi corpus rng = (x, rng1)" by fastforce
  have x: "sint lo \<le> sint x" "sint x \<le> sint hi" using candidate_in [OF assms(1), of corpus rng] c by auto
  let ?u = "trace_run uni (run x)"
  have n: "t_blocks uni \<noteq> None" using Suc.prems(1) replay_cap(2) [OF assms(2)] by metis
  have cap: "t_blocks_cap ?u = t_blocks_cap t0" using Suc.prems(2) by (simp add: trace_run_blocks)
  show ?case
  proof (cases "t_blocks_len ?u > t_blocks_len uni")
    case True
    have "t_blocks (replay run t0 (corpus @ [x])) = t_blocks (trace_run (replay run t0 corpus) (run x))" by (simp add: replay_def)
    also have "\<dots> = t_blocks ?u"
      by (rule trace_run_cong) (use Suc.prems(1,2) replay_cap(1) n in simp_all)
    finally have r: "t_blocks (replay run t0 (corpus @ [x])) = t_blocks ?u" .
    have l: "fuzz_loop run lo hi k (corpus @ [x]) ?u rng1 = (corpus', uni')" using Suc.prems(4) True c by simp
    have a: "\<forall>y\<in>set (corpus @ [x]). sint lo \<le> sint y \<and> sint y \<le> sint hi" using Suc.prems(3) x by auto
    show ?thesis using Suc.IH [OF r cap a l] by simp
  next
    case False
    then have r: "t_blocks (replay run t0 corpus) = t_blocks ?u" using Suc.prems(1) trace_run_no_growth [OF n] by metis
    have l: "fuzz_loop run lo hi k corpus ?u rng1 = (corpus', uni')" using Suc.prems(4) False c by simp
    show ?thesis using Suc.IH [OF r cap Suc.prems(3) l] by simp
  qed
qed simp

text \<open>
  The corpus carries the coverage. Every input the search keeps lies in the requested range, there are at most as many as iterations, and replaying
  the kept inputs alone, in order, from the trace the search started with, reaches exactly the blocks the whole search reached, in the same order;
  the statistics count them.
\<close>

theorem fuzz_corpus_replays:
  assumes "emu_fuzz_cover1 run lo hi iters seed uni h = (Some (st, corpus, uni'), h')"
  shows "buf_of (t_blocks (replay run uni corpus)) = buf_of (t_blocks uni') \<and> (\<forall>x\<in>set corpus. sint lo \<le> sint x \<and> sint x \<le> sint hi) \<and>
     length corpus \<le> iters \<and> fs_blocks_reached st = length (buf_of (t_blocks uni')) \<and> fs_corpus_len st = length corpus"
proof -
  have u: "t_blocks uni \<noteq> None" "sint lo \<le> sint hi" and l: "fuzz_loop run lo hi iters [] uni seed = (corpus, uni')"
    and s: "fs_blocks_reached st = length (buf_of (t_blocks uni'))" "fs_corpus_len st = length corpus"
    using assms by (auto simp: emu_fuzz_cover1_def split: if_splits prod.splits)
  have "t_blocks (replay run uni []) = t_blocks uni" by (simp add: replay_def)
  from fuzz_loop_spec [OF u(2,1) this refl _ l] s show ?thesis by simp
qed

section \<open>An exhaustive sweep counts survivors\<close>

text \<open>A flipped bit no input tells from the original.\<close>

definition survives :: "(8 word list \<Rightarrow> u64 \<Rightarrow> run_sig) \<Rightarrow> 8 word list \<Rightarrow> u64 list \<Rightarrow> nat \<Rightarrow> bool" where
  "survives sig code inputs b \<longleftrightarrow> (\<forall>x\<in>set inputs. sig (flip_bit_at code b) x = sig code x)"

lemma distinguished_iff: "distinguished sig mut inputs (map f inputs) \<longleftrightarrow> (\<exists>x\<in>set inputs. sig mut x \<noteq> f x)"
  by (induction inputs) auto

lemma mutant_loop_sweep:
  "mutant_loop sig code inputs (map (sig code) inputs) True m k rng killed survived =
     (killed + length (filter (\<lambda>b. \<not> survives sig code inputs b) [m..<m + k]), survived + length (filter (survives sig code inputs) [m..<m + k]))"
proof (induction k arbitrary: m rng killed survived)
  case (Suc k)
  have "[m..<m + Suc k] = m # [Suc m..<Suc m + k]" by (simp add: upt_conv_Cons)
  moreover have "distinguished sig (flip_bit_at code m) inputs (map (sig code) inputs) \<longleftrightarrow> \<not> survives sig code inputs m"
    by (auto simp: distinguished_iff survives_def)
  ultimately show ?case by (simp add: Suc.IH)
qed simp

text \<open>
  An exhaustive mutation test counts exactly. Asked for every mutant, it reports as survivors the number of bits of the routine whose flip no input
  distinguishes from the original, and as killed all the others.
\<close>

theorem mutation_sweep_exact:
  assumes "code \<noteq> []" "inputs \<noteq> []" "length code < 2 ^ 61" "max_mutants = 0 \<or> 8 * length code \<le> max_mutants"
  shows "emu_mutation_test1 sig code inputs max_mutants seed [] =
     ((card {b. b < 8 * length code \<and> survives sig code inputs b},
       Some \<lparr>ms_mutants = 8 * length code, ms_killed = card {b. b < 8 * length code \<and> \<not> survives sig code inputs b},
             ms_survived = card {b. b < 8 * length code \<and> survives sig code inputs b}\<rparr>), [])"
proof -
  have t: "sz_mul (length code) 8 = 8 * length code" using assms(3) by (simp add: sz_mul_def)
  have c: "length (filter P [0..<n]) = card {b. b < n \<and> P b}" for P and n :: nat
    by (simp add: length_filter_conv_card atLeast0LessThan[symmetric] cong: conj_cong)
  have w: "(if max_mutants = 0 \<or> max_mutants > 8 * length code then 8 * length code else max_mutants) = 8 * length code" using assms(4) by auto
  show ?thesis using assms(1,2) by (simp add: emu_mutation_test1_def t w Let_def mutant_loop_sweep c)
qed

text \<open>
  One run reports the distinct blocks it entered, in order, as far as the buffer goes.
\<close>

lemma cover_hits_exact: "emu_cover_hits es cap = take cap (nub (block_offs es))"
  using tbl.items_run [of "zero_trace\<lparr>t_blocks := Some [], t_blocks_cap := cap\<rparr>" "[]" es]
  by (simp add: emu_cover_hits_def trace_run_def block_offs_def)

section \<open>Examples\<close>

text \<open>A routine with a branch on the sign of its argument.\<close>

definition demo_run :: "u64 \<Rightarrow> trace_event list" where
  "demo_run x = [Block 0, Block (if sint x < 0 then 4 else 8)]"

theorem fuzz_corpus_replays_witness:
  "\<exists>st corpus uni'. emu_fuzz_cover1 demo_run (- 10) 10 20 7 (fresh_trace 0 8) [] = (Some (st, corpus, uni'), []) \<and>
     buf_of (t_blocks (replay demo_run (fresh_trace 0 8) corpus)) = buf_of (t_blocks uni')"
proof -
  obtain corpus uni' where l: "fuzz_loop demo_run (- 10) 10 20 [] (fresh_trace 0 8) 7 = (corpus, uni')" by fastforce
  have "emu_fuzz_cover1 demo_run (- 10) 10 20 7 (fresh_trace 0 8) [] =
      (Some (\<lparr>fs_blocks_reached = t_blocks_len uni', fs_corpus_len = length corpus, fs_iterations = 20\<rparr>, corpus, uni'), [])"
    by (simp add: emu_fuzz_cover1_def l) (simp add: fresh_trace_def)
  with fuzz_corpus_replays [OF this] show ?thesis by blast
qed

text \<open>The fingerprint reads the first byte only, so the flips of the second survive.\<close>

theorem mutation_sweep_exact_witness:
  "fst (fst (emu_mutation_test1 (\<lambda>code x. (True, False, ucast (hd code) + x)) [1, 2] [5] 0 0 [])) = 8"
proof -
  have c: "card {b. b < 16 \<and> survives (\<lambda>code x. (True, False, ucast (hd code) + x)) [1, 2] [5] b} = 8"
  proof -
    have "survives (\<lambda>code x. (True, False, ucast (hd code) + x)) [1, 2] [5] b \<longleftrightarrow> 8 \<le> b" if "b < 16" for b
    proof -
      have "\<forall>b\<in>set [0..<16]. survives (\<lambda>code x. (True, False, ucast (hd code) + x)) [1, 2] [5] b \<longleftrightarrow> 8 \<le> b" by code_simp
      then show ?thesis using that by simp
    qed
    then have "{b. b < 16 \<and> survives (\<lambda>code x. (True, False, ucast (hd code) + x)) [1, 2] [5] b} = {8..<16}" by auto
    then show ?thesis by simp
  qed
  show ?thesis
    using mutation_sweep_exact [of "[1, 2]" "[5]" 0 "\<lambda>code x. (True, False, ucast (hd code) + x)" 0] c by simp
qed

end
