(* ===== verification/Cascade.thy ===== *)
theory Cascade
  imports Trace
begin

text \<open>
  The cross-tier orchestrator, \<^verbatim>\<open>src/src/trace_auto.c\<close> and \<^verbatim>\<open>src/include/asmtest_trace_auto.h\<close>: the list of available choices, and the call-owning trace that
  escalates from tier to tier. What the tiers report of themselves and what they capture are arguments (\<open>tiers\<close>): whether each is available, and the status,
  the routine's result and the trace a capture into a given trace leaves. The pointers for the result and the choice are not \<^verbatim>\<open>NULL\<close>.
\<close>

section \<open>Choices\<close>

datatype trace_tier = TIER_HWTRACE | TIER_DYNAMORIO | TIER_EMULATOR
datatype trace_backend = INTEL_PT | CORESIGHT | AMD_LBR | SINGLESTEP
datatype trace_fidelity = FIDELITY_NATIVE | FIDELITY_VIRTUAL | FIDELITY_STATISTICAL
datatype trace_mechanism = MECH_NONE | MECH_HW_BRANCH | MECH_TF_STEP | MECH_MSR_LBR | MECH_BLOCKSTEP | MECH_PER_INSN | MECH_DBI | MECH_EMULATOR | MECH_STATISTICAL

record trace_choice =
  ch_tier :: trace_tier
  ch_backend :: trace_backend
  ch_fidelity :: trace_fidelity
  ch_mechanism :: trace_mechanism

definition POLICY_CEILING_FREE :: "32 word" where "POLICY_CEILING_FREE = 1"
definition POLICY_NATIVE_ONLY :: "32 word" where "POLICY_NATIVE_ONLY = 2"
definition POLICY_IBS_PRECOVER :: "32 word" where "POLICY_IBS_PRECOVER = 4"

definition choice :: "trace_tier \<Rightarrow> trace_backend \<Rightarrow> trace_fidelity \<Rightarrow> trace_mechanism \<Rightarrow> trace_choice" where
  "choice t b f m = \<lparr>ch_tier = t, ch_backend = b, ch_fidelity = f, ch_mechanism = m\<rparr>"

text \<open>Backend 0, where it means nothing, is the first of the enumeration.\<close>

definition CASCADE :: "trace_choice list" where
  "CASCADE =
     [choice TIER_HWTRACE INTEL_PT FIDELITY_NATIVE MECH_HW_BRANCH,
      choice TIER_HWTRACE AMD_LBR FIDELITY_NATIVE MECH_HW_BRANCH,
      choice TIER_DYNAMORIO INTEL_PT FIDELITY_NATIVE MECH_DBI,
      choice TIER_HWTRACE SINGLESTEP FIDELITY_NATIVE MECH_TF_STEP,
      choice TIER_HWTRACE CORESIGHT FIDELITY_NATIVE MECH_HW_BRANCH,
      choice TIER_EMULATOR INTEL_PT FIDELITY_VIRTUAL MECH_EMULATOR]"

text \<open>A capture: the status, the result it stored if any, and the trace it leaves.\<close>

type_synonym capture = "asmtest_trace \<Rightarrow> int \<times> u64 option \<times> asmtest_trace"

record tiers =
  hw_available :: "trace_backend \<Rightarrow> bool"
  dr_available :: bool
  hw_auto :: "bool \<Rightarrow> trace_backend option"  \<comment> \<open>the pick of the hardware tier, ceiling-free or best\<close>
  hw_init :: "trace_backend \<Rightarrow> bool"
  hw_register :: "trace_backend \<Rightarrow> bool"
  hw_traced_call :: "trace_backend \<Rightarrow> asmtest_trace \<Rightarrow> u64 \<times> asmtest_trace"
  msr_available :: bool
  msr_trace :: "asmtest_trace \<Rightarrow> int \<times> u64 \<times> asmtest_trace"
  ibs_available :: bool
  precover_built :: bool
  blockstep_available :: bool
  trace_call_blockstep :: "bool \<Rightarrow> capture"  \<comment> \<open>with or without the pre-cover table\<close>
  ptrace_available :: bool
  trace_call :: capture

definition row_available :: "tiers \<Rightarrow> 32 word \<Rightarrow> trace_choice \<Rightarrow> bool" where
  "row_available ts policy row =
     (case ch_tier row of
        TIER_HWTRACE \<Rightarrow> if policy AND POLICY_CEILING_FREE \<noteq> 0 \<and> ch_backend row = AMD_LBR then False else hw_available ts (ch_backend row)
      | TIER_DYNAMORIO \<Rightarrow> dr_available ts
      | TIER_EMULATOR \<Rightarrow> \<not> policy AND POLICY_NATIVE_ONLY \<noteq> 0)"

fun resolve_loop :: "tiers \<Rightarrow> 32 word \<Rightarrow> nat \<Rightarrow> trace_choice list \<Rightarrow> trace_choice list \<Rightarrow> trace_choice list" where
  "resolve_loop ts policy cap [] out = out"
| "resolve_loop ts policy cap (row # rows) out =
     (if \<not> length out < cap then out
      else if \<not> row_available ts policy row then resolve_loop ts policy cap rows out
      else resolve_loop ts policy cap rows (out @ [row]))"

definition asmtest_trace_resolve :: "tiers \<Rightarrow> 32 word \<Rightarrow> nat \<Rightarrow> trace_choice list" where
  "asmtest_trace_resolve ts policy cap = (if cap = 0 then [] else resolve_loop ts policy cap CASCADE [])"

definition HW_OK :: int where "HW_OK = 0"
definition HW_EINVAL :: int where "HW_EINVAL = - 1"
definition HW_EUNAVAIL :: int where "HW_EUNAVAIL = - 3"

definition asmtest_trace_auto :: "tiers \<Rightarrow> 32 word \<Rightarrow> int \<times> trace_choice option" where
  "asmtest_trace_auto ts policy =
     (case asmtest_trace_resolve ts policy 1 of [] \<Rightarrow> (HW_EUNAVAIL, None) | c # _ \<Rightarrow> (HW_OK, Some c))"

lemma resolve_loop_take:
  "length out \<le> cap \<Longrightarrow> resolve_loop ts policy cap rows out = take cap (out @ filter (row_available ts policy) rows)"
  by (induction rows arbitrary: out) (auto simp: take_Cons' not_less)

text \<open>
  The choices are the available rows of the cascade, in its order, as many as the caller has room for.
\<close>

lemma resolve_exact: "asmtest_trace_resolve ts policy cap = take cap (filter (row_available ts policy) CASCADE)"
  by (simp add: asmtest_trace_resolve_def resolve_loop_take)

section \<open>The escalating call\<close>

record call_state =
  cs_trace :: asmtest_trace
  cs_result :: "u64 option"
  cs_used :: trace_choice
  cs_ran :: bool

definition call_auto_reset :: "asmtest_trace \<Rightarrow> asmtest_trace" where
  "call_auto_reset t =
     t\<lparr>t_insns := map_option (\<lambda>_. []) (t_insns t), t_insns_total := 0, t_blocks := map_option (\<lambda>_. []) (t_blocks t), t_blocks_total := 0, t_truncated := False\<rparr>"

definition no_choice :: trace_choice where
  "no_choice = choice TIER_HWTRACE SINGLESTEP FIDELITY_NATIVE MECH_NONE"

definition asmtest_trace_auto_msr_commits :: "int \<Rightarrow> bool \<Rightarrow> bool \<Rightarrow> bool" where
  "asmtest_trace_auto_msr_commits rc truncated nonempty \<longleftrightarrow> rc = HW_OK \<and> (\<not> truncated \<or> nonempty)"

definition set_result :: "u64 option \<Rightarrow> call_state \<Rightarrow> call_state" where
  "set_result r s = (case r of None \<Rightarrow> s | Some _ \<Rightarrow> s\<lparr>cs_result := r\<rparr>)"

definition rung_fast :: "tiers \<Rightarrow> 32 word \<Rightarrow> call_state \<Rightarrow> call_state" where
  "rung_fast ts policy s =
     (case hw_auto ts (policy AND POLICY_CEILING_FREE \<noteq> 0) of
        None \<Rightarrow> s
      | Some hb \<Rightarrow>
          if hw_init ts hb \<and> hw_register ts hb
          then (case hw_traced_call ts hb (cs_trace s) of (r, t) \<Rightarrow>
                  s\<lparr>cs_trace := t, cs_result := Some r, cs_ran := True,
                    cs_used := choice TIER_HWTRACE hb FIDELITY_NATIVE (if hb = SINGLESTEP then MECH_TF_STEP else MECH_HW_BRANCH)\<rparr>)
          else s)"

text \<open>The second component says that the cascade ends here.\<close>

definition rung_msr :: "tiers \<Rightarrow> 32 word \<Rightarrow> call_state \<Rightarrow> call_state \<times> bool" where
  "rung_msr ts policy s =
     (if \<not> policy AND POLICY_CEILING_FREE \<noteq> 0 \<and> msr_available ts
      then (case msr_trace ts (call_auto_reset (cs_trace s)) of (rc, r, t) \<Rightarrow>
              if asmtest_trace_auto_msr_commits rc (t_truncated t) (t_insns_total t > 0 \<or> t_blocks_total t > 0)
              then (s\<lparr>cs_trace := t, cs_result := Some r, cs_ran := True, cs_used := choice TIER_HWTRACE AMD_LBR FIDELITY_NATIVE MECH_MSR_LBR\<rparr>, True)
              else (s\<lparr>cs_trace := t\<lparr>t_truncated := True\<rparr>, cs_ran := False\<rparr>, False))
      else (s, False))"

definition rung_blockstep :: "tiers \<Rightarrow> 32 word \<Rightarrow> call_state \<Rightarrow> call_state \<times> bool" where
  "rung_blockstep ts policy s =
     (if blockstep_available ts
      then (case trace_call_blockstep ts (policy AND POLICY_IBS_PRECOVER \<noteq> 0 \<and> ibs_available ts \<and> precover_built ts) (call_auto_reset (cs_trace s)) of (rc, r, t) \<Rightarrow>
              if rc = HW_OK
              then ((set_result r s)\<lparr>cs_trace := t, cs_ran := True, cs_used := choice TIER_HWTRACE SINGLESTEP FIDELITY_NATIVE MECH_BLOCKSTEP\<rparr>, \<not> t_truncated t)
              else ((set_result r s)\<lparr>cs_trace := t\<lparr>t_truncated := True\<rparr>, cs_ran := False\<rparr>, False))
      else (s, False))"

definition rung_per_insn :: "tiers \<Rightarrow> call_state \<Rightarrow> call_state" where
  "rung_per_insn ts s =
     (if ptrace_available ts
      then (case trace_call ts (call_auto_reset (cs_trace s)) of (rc, r, t) \<Rightarrow>
              if rc = HW_OK
              then (set_result r s)\<lparr>cs_trace := t, cs_ran := True, cs_used := choice TIER_HWTRACE SINGLESTEP FIDELITY_NATIVE MECH_PER_INSN\<rparr>
              else (set_result r s)\<lparr>cs_trace := t\<lparr>t_truncated := True\<rparr>, cs_ran := False\<rparr>)
      else s)"

definition asmtest_trace_call_auto :: "tiers \<Rightarrow> nat \<Rightarrow> int \<Rightarrow> 32 word \<Rightarrow> trace_choice \<Rightarrow> asmtest_trace \<Rightarrow> int \<times> call_state" where
  "asmtest_trace_call_auto ts len nargs policy used t0 =
     (if len = 0 \<or> nargs < 0 \<or> nargs > 6 then (HW_EINVAL, \<lparr>cs_trace = t0, cs_result = None, cs_used = used, cs_ran = False\<rparr>)
      else let s1 = rung_fast ts policy \<lparr>cs_trace = t0, cs_result = None, cs_used = no_choice, cs_ran = False\<rparr> in
        if cs_ran s1 \<and> \<not> t_truncated (cs_trace s1) then (HW_OK, s1)
        else case rung_msr ts policy s1 of (s2, end2) \<Rightarrow>
          if end2 then (HW_OK, s2)
          else case rung_blockstep ts policy s2 of (s3, end3) \<Rightarrow>
            if end3 then (HW_OK, s3)
            else let s4 = rung_per_insn ts s3 in
              if cs_ran s4 then (HW_OK, s4) else (HW_EUNAVAIL, s4\<lparr>cs_used := no_choice\<rparr>))"

text \<open>
  What the cascade relies on: a capture fills the trace's buffers and counts and leaves the buffers themselves, their presence and their capacities, as they were.
\<close>

definition keeps_buffers :: "tiers \<Rightarrow> bool" where
  "keeps_buffers ts \<longleftrightarrow>
     (\<forall>hb t. call_auto_reset (snd (hw_traced_call ts hb t)) = call_auto_reset t) \<and>
     (\<forall>t. call_auto_reset (snd (snd (msr_trace ts t))) = call_auto_reset t) \<and>
     (\<forall>b t. call_auto_reset (snd (snd (trace_call_blockstep ts b t))) = call_auto_reset t) \<and>
     (\<forall>t. call_auto_reset (snd (snd (trace_call ts t))) = call_auto_reset t)"

text \<open>What a committed state holds: one rung's capture, and nothing of the others.\<close>

definition committed :: "tiers \<Rightarrow> asmtest_trace \<Rightarrow> call_state \<Rightarrow> bool" where
  "committed ts t0 s =
     (case ch_mechanism (cs_used s) of
        MECH_MSR_LBR \<Rightarrow> \<exists>r. msr_trace ts (call_auto_reset t0) = (HW_OK, r, cs_trace s) \<and> cs_result s = Some r \<and>
          (t_truncated (cs_trace s) \<longrightarrow> t_insns_total (cs_trace s) > 0 \<or> t_blocks_total (cs_trace s) > 0)
      | MECH_BLOCKSTEP \<Rightarrow> \<exists>b r. trace_call_blockstep ts b (call_auto_reset t0) = (HW_OK, r, cs_trace s) \<and> (r \<noteq> None \<longrightarrow> cs_result s = r)
      | MECH_PER_INSN \<Rightarrow> \<exists>r. trace_call ts (call_auto_reset t0) = (HW_OK, r, cs_trace s) \<and> (r \<noteq> None \<longrightarrow> cs_result s = r)
      | MECH_HW_BRANCH \<Rightarrow> ch_backend (cs_used s) \<noteq> SINGLESTEP \<and>
          (\<exists>r. hw_traced_call ts (ch_backend (cs_used s)) t0 = (r, cs_trace s) \<and> cs_result s = Some r)
      | MECH_TF_STEP \<Rightarrow> ch_backend (cs_used s) = SINGLESTEP \<and> (\<exists>r. hw_traced_call ts SINGLESTEP t0 = (r, cs_trace s) \<and> cs_result s = Some r)
      | _ \<Rightarrow> False)"

definition rung_ok :: "tiers \<Rightarrow> asmtest_trace \<Rightarrow> call_state \<Rightarrow> bool" where
  "rung_ok ts t0 s \<longleftrightarrow> call_auto_reset (cs_trace s) = call_auto_reset t0 \<and> (cs_ran s \<longrightarrow> committed ts t0 s)"

lemma choice_sel [simp]:
  "ch_mechanism (choice t b f m) = m" "ch_backend (choice t b f m) = b" "ch_tier (choice t b f m) = t" "ch_fidelity (choice t b f m) = f"
  by (simp_all add: choice_def)

lemma reset_idem [simp]: "call_auto_reset (call_auto_reset t) = call_auto_reset t"
  by (simp add: call_auto_reset_def option.map_comp comp_def)

lemma reset_truncated [simp]: "call_auto_reset (t\<lparr>t_truncated := b\<rparr>) = call_auto_reset t"
  by (simp add: call_auto_reset_def)

lemma reset_not_truncated [simp]: "\<not> t_truncated (call_auto_reset t)"
  by (simp add: call_auto_reset_def)

lemma set_result_sel [simp]:
  "cs_trace (set_result r s) = cs_trace s" "cs_used (set_result r s) = cs_used s" "cs_ran (set_result r s) = cs_ran s"
  "cs_result (set_result r s) = (if r = None then cs_result s else r)"
  by (auto simp: set_result_def split: option.splits)

lemma committed_blockstepI:
  "ch_mechanism (cs_used s) = MECH_BLOCKSTEP \<Longrightarrow> trace_call_blockstep ts b (call_auto_reset t0) = (HW_OK, r, cs_trace s) \<Longrightarrow>
   (r \<noteq> None \<Longrightarrow> cs_result s = r) \<Longrightarrow> committed ts t0 s"
  unfolding committed_def by auto

lemma committed_per_insnI:
  "ch_mechanism (cs_used s) = MECH_PER_INSN \<Longrightarrow> trace_call ts (call_auto_reset t0) = (HW_OK, r, cs_trace s) \<Longrightarrow>
   (r \<noteq> None \<Longrightarrow> cs_result s = r) \<Longrightarrow> committed ts t0 s"
  unfolding committed_def by auto

lemma rung_fast_ok: "keeps_buffers ts \<Longrightarrow> rung_fast ts policy \<lparr>cs_trace = t0, cs_result = None, cs_used = u, cs_ran = False\<rparr> = s \<Longrightarrow> rung_ok ts t0 s"
  by (auto simp: rung_fast_def rung_ok_def committed_def keeps_buffers_def split: option.splits prod.splits if_splits)
    (metis snd_conv)+

lemma rung_msr_ok:
  assumes "keeps_buffers ts" "rung_ok ts t0 s" "rung_msr ts policy s = (s', e)"
  shows "rung_ok ts t0 s' \<and> (e \<longrightarrow> cs_ran s')"
proof -
  have "call_auto_reset t = call_auto_reset t0" if "msr_trace ts (call_auto_reset t0) = (rc, r, t)" for rc r t
    using assms(1) that unfolding keeps_buffers_def by (metis reset_idem snd_conv)
  then show ?thesis using assms(2,3)
    by (auto simp: rung_msr_def rung_ok_def committed_def asmtest_trace_auto_msr_commits_def split: prod.splits if_splits)
qed

lemma rung_blockstep_ok:
  assumes "keeps_buffers ts" "rung_ok ts t0 s" "rung_blockstep ts policy s = (s', e)"
  shows "rung_ok ts t0 s' \<and> (e \<longrightarrow> cs_ran s' \<and> \<not> t_truncated (cs_trace s'))"
proof -
  have "call_auto_reset t = call_auto_reset t0" if "trace_call_blockstep ts b (call_auto_reset t0) = (rc, r, t)" for b rc r t
    using assms(1) that unfolding keeps_buffers_def by (metis reset_idem snd_conv)
  then show ?thesis using assms(2,3)
    by (auto simp: rung_blockstep_def rung_ok_def intro: committed_blockstepI split: prod.splits if_splits)
qed

lemma rung_per_insn_ok:
  assumes "keeps_buffers ts" "rung_ok ts t0 s"
  shows "rung_ok ts t0 (rung_per_insn ts s)"
proof -
  have "call_auto_reset t = call_auto_reset t0" if "trace_call ts (call_auto_reset t0) = (rc, r, t)" for rc r t
    using assms(1) that unfolding keeps_buffers_def by (metis reset_idem snd_conv)
  then show ?thesis using assms(2)
    by (auto simp: rung_per_insn_def rung_ok_def intro: committed_per_insnI split: prod.splits if_splits)
qed

lemma call_auto_ok:
  assumes "keeps_buffers ts" "asmtest_trace_call_auto ts len nargs policy used t0 = (rc, s)" "rc \<noteq> HW_EINVAL"
  shows "(rc = HW_OK \<and> committed ts t0 s) \<or> (rc = HW_EUNAVAIL \<and> cs_used s = no_choice)"
proof -
  define s1 where "s1 = rung_fast ts policy \<lparr>cs_trace = t0, cs_result = None, cs_used = no_choice, cs_ran = False\<rparr>"
  obtain s2 e2 where m: "rung_msr ts policy s1 = (s2, e2)" by force
  obtain s3 e3 where b: "rung_blockstep ts policy s2 = (s3, e3)" by force
  have 1: "rung_ok ts t0 s1" using rung_fast_ok [OF assms(1)] s1_def by simp
  have 2: "rung_ok ts t0 s2 \<and> (e2 \<longrightarrow> cs_ran s2)" by (rule rung_msr_ok [OF assms(1) 1 m])
  have 3: "rung_ok ts t0 s3 \<and> (e3 \<longrightarrow> cs_ran s3 \<and> \<not> t_truncated (cs_trace s3))" using rung_blockstep_ok [OF assms(1) _ b] 2 by blast
  have 4: "rung_ok ts t0 (rung_per_insn ts s3)" using rung_per_insn_ok [OF assms(1)] 3 by blast
  show ?thesis
    using assms(2,3) 1 2 3 4 by (auto simp: asmtest_trace_call_auto_def s1_def [symmetric] m b Let_def rung_ok_def split: if_splits)
qed


text \<open>On failure no rung is named.\<close>

lemma call_auto_unavailable:
  "keeps_buffers ts \<Longrightarrow> asmtest_trace_call_auto ts len nargs policy used t0 = (HW_EUNAVAIL, s) \<Longrightarrow> cs_used s = no_choice"
  using call_auto_ok by (fastforce simp: HW_OK_def HW_EINVAL_def HW_EUNAVAIL_def)

text \<open>
  With a per-instruction stepper that completes, the call succeeds, and its trace is complete unless a truncated MSR read ended it.
\<close>

lemma per_insn_completes:
  assumes "keeps_buffers ts" "rung_ok ts t0 s" "ptrace_available ts" "trace_call ts (call_auto_reset t0) = (HW_OK, r, t)" "\<not> t_truncated t"
  shows "cs_ran (rung_per_insn ts s) \<and> cs_trace (rung_per_insn ts s) = t"
  using assms by (simp add: rung_per_insn_def rung_ok_def)

lemma call_auto_completes:
  assumes keep: "keeps_buffers ts" and args: "len \<noteq> 0" "0 \<le> nargs" "nargs \<le> 6"
    and step: "ptrace_available ts" "trace_call ts (call_auto_reset t0) = (HW_OK, r, t)" "\<not> t_truncated t"
    and msr: "\<not> msr_available ts \<or> \<not> t_truncated (snd (snd (msr_trace ts (call_auto_reset t0))))"
  shows "\<exists>s. asmtest_trace_call_auto ts len nargs policy used t0 = (HW_OK, s) \<and> \<not> t_truncated (cs_trace s)"
proof -
  define s1 where "s1 = rung_fast ts policy \<lparr>cs_trace = t0, cs_result = None, cs_used = no_choice, cs_ran = False\<rparr>"
  obtain s2 e2 where m: "rung_msr ts policy s1 = (s2, e2)" by force
  obtain s3 e3 where b: "rung_blockstep ts policy s2 = (s3, e3)" by force
  have 1: "rung_ok ts t0 s1" using rung_fast_ok [OF keep] s1_def by simp
  have 2: "rung_ok ts t0 s2" using rung_msr_ok [OF keep 1 m] by blast
  have e2: "e2 \<Longrightarrow> \<not> t_truncated (cs_trace s2)"
    using m msr 1 by (auto simp: rung_msr_def rung_ok_def split: if_splits prod.splits)
  have 3: "rung_ok ts t0 s3 \<and> (e3 \<longrightarrow> cs_ran s3 \<and> \<not> t_truncated (cs_trace s3))" by (rule rung_blockstep_ok [OF keep 2 b])
  have 4: "cs_ran (rung_per_insn ts s3) \<and> cs_trace (rung_per_insn ts s3) = t" using per_insn_completes [OF keep _ step] 3 by blast
  show ?thesis
    using args e2 3 4 step(3) by (auto simp: asmtest_trace_call_auto_def s1_def [symmetric] m b Let_def)
qed

section \<open>A host\<close>

text \<open>
  A host with every tier: the hardware tier picks the branch records, which overflow; a read of the records through the MSRs gets the last two
  instructions and is truncated; the steppers answer as given.
\<close>

definition host :: "bool \<Rightarrow> capture \<Rightarrow> capture \<Rightarrow> tiers" where
  "host msr bs per_insn =
     \<lparr>hw_available = (\<lambda>b. b \<noteq> CORESIGHT), dr_available = False, hw_auto = (\<lambda>cf. Some (if cf then SINGLESTEP else AMD_LBR)),
      hw_init = (\<lambda>_. True), hw_register = (\<lambda>_. True), hw_traced_call = (\<lambda>_ t. (7, t\<lparr>t_truncated := True\<rparr>)),
      msr_available = msr, msr_trace = (\<lambda>t. (HW_OK, 7, t\<lparr>t_insns_total := t_insns_total t + 2, t_truncated := True\<rparr>)),
      ibs_available = False, precover_built = False, blockstep_available = True, trace_call_blockstep = (\<lambda>_. bs), ptrace_available = True, trace_call = per_insn\<rparr>"

definition steps :: "nat \<Rightarrow> bool \<Rightarrow> capture" where
  "steps n trunc = (\<lambda>t. (HW_OK, Some 7, t\<lparr>t_insns_total := of_nat n, t_truncated := trunc\<rparr>))"

definition blocked :: capture where
  "blocked = (\<lambda>t. (- 5, None, t))"

definition t_room :: asmtest_trace where
  "t_room = \<lparr>t_insns = Some [], t_insns_cap = 8, t_insns_total = 0, t_blocks = None, t_blocks_cap = 0, t_blocks_total = 0, t_truncated = False\<rparr>"

lemma host_keeps: "bs \<in> {steps n b, blocked} \<Longrightarrow> ps \<in> {steps n' b', blocked} \<Longrightarrow> keeps_buffers (host msr bs ps)"
  by (auto simp: keeps_buffers_def host_def steps_def blocked_def call_auto_reset_def)

lemmas host_run = asmtest_trace_call_auto_def rung_fast_def rung_msr_def rung_blockstep_def rung_per_insn_def host_def steps_def blocked_def t_room_def
  call_auto_reset_def set_result_def no_choice_def asmtest_trace_auto_msr_commits_def POLICY_CEILING_FREE_def POLICY_IBS_PRECOVER_def

text \<open>The branch records overflow, block-step is cut short too, and the per-instruction stepper completes.\<close>

lemma host_escalates:
  "asmtest_trace_call_auto (host False (steps 3 True) (steps 9 False)) 16 0 0 no_choice t_room =
     (HW_OK, \<lparr>cs_trace = t_room\<lparr>t_insns_total := 9\<rparr>, cs_result = Some 7, cs_used = choice TIER_HWTRACE SINGLESTEP FIDELITY_NATIVE MECH_PER_INSN, cs_ran = True\<rparr>)"
  by (simp add: host_run Let_def)


text \<open>
  The header says the call escalates until the trace is complete or the tiers are exhausted. A truncated MSR read that recorded something ends it, although
  the block-step rung of the same host would have completed.
\<close>

lemma msr_ends_truncated:
  "(let (rc, s) = asmtest_trace_call_auto (host True (steps 9 False) (steps 9 False)) 16 0 0 no_choice t_room
    in rc = HW_OK \<and> t_truncated (cs_trace s) \<and> ch_mechanism (cs_used s) = MECH_MSR_LBR) \<and>
   \<not> t_truncated (snd (snd (trace_call_blockstep (host True (steps 9 False) (steps 9 False)) False (call_auto_reset t_room))))"
  by (simp add: host_run Let_def)

text \<open>
  The header says \<^verbatim>\<open>HW_OK\<close> is returned when some tier ran. Here block-step ran and gave a truncated trace; the per-instruction rung clears it, fails, and
  the call reports that no tier was available.
\<close>

lemma failed_floor_discards:
  "(let (rc, s) = asmtest_trace_call_auto (host False (steps 3 True) blocked) 16 0 0 no_choice t_room
    in rc = HW_EUNAVAIL \<and> t_insns_total (cs_trace s) = 0 \<and> cs_used s = no_choice) \<and>
   fst (trace_call_blockstep (host False (steps 3 True) blocked) False (call_auto_reset t_room)) = HW_OK"
  by (simp add: host_run Let_def HW_OK_def)

end
