(* ===== verification/Agg_Table.thy ===== *)
theory Agg_Table
  imports Open_Addressing Grow
begin

text \<open>
  Tables that aggregate samples, as \<^verbatim>\<open>src/src/ibs_backend.c\<close> keeps two of them (\<^verbatim>\<open>edge_hash\<close>, \<^verbatim>\<open>fetch_hash\<close>): an open-addressed table in which a sample of a
  key that is present is merged into its slot, and which doubles at a load of seven tenths. The locale states what the two share; a client
  adds a whole stream and finds, for each key, the merge of its samples in order.
\<close>

locale agg_table = open_addressing key hash
  for key :: "'e \<Rightarrow> 'k" and hash :: "'k \<Rightarrow> u64" +
  fixes bump :: "'e \<Rightarrow> 'e \<Rightarrow> 'e" and elem :: nat
  assumes key_bump: "key (bump old e) = key old" and elem_pos: "16 \<le> elem"
begin

definition merge :: "'e option \<Rightarrow> 'e \<Rightarrow> 'e option" where
  "merge prev e = Some (case prev of None \<Rightarrow> e | Some old \<Rightarrow> bump old e)"

definition agg_store :: "'e option list \<Rightarrow> nat \<Rightarrow> 'e \<Rightarrow> 'e option list \<times> nat" where
  "agg_store tab n e =
     (case oa_find tab (matches (key e)) (hash (key e)) of
        Hit j \<Rightarrow> (tab[j := Some (bump (the (tab ! j)) e)], n) | Free j \<Rightarrow> (tab[j := Some e], n + 1) | Spin \<Rightarrow> (tab, n))"

definition agg_full :: "'e option list \<Rightarrow> nat \<Rightarrow> bool" where
  "agg_full tab n \<longleftrightarrow> sz_mul (sz_add n 1) 10 \<ge> sz_mul (length tab) 7"

definition agg_grow :: "heap \<Rightarrow> 'e option list \<Rightarrow> 'e option list option \<times> heap" where
  "agg_grow h tab =
     (case asmtest_grow_pow2 (length tab) (sz_add (length tab) 1) elem of
        None \<Rightarrow> (None, h)
      | Some nc \<Rightarrow>
          (case alloc h of (ok, h') \<Rightarrow> (if ok then Some (oa_rehash (\<lambda>e. hash (key e)) (replicate nc None) tab) else None, h')))"

definition agg_add :: "heap \<Rightarrow> 'e option list \<times> nat \<Rightarrow> 'e \<Rightarrow> ('e option list \<times> nat) \<times> heap" where
  "agg_add h tn e =
     (case tn of (tab, n) \<Rightarrow>
      if agg_full tab n
      then case agg_grow h tab of (Some tab', h') \<Rightarrow> (agg_store tab' n e, h') | (None, h') \<Rightarrow> (tn, h')
      else (agg_store tab n e, h))"

text \<open>Loaded below seven tenths, with a capacity whose byte size is representable and which follows the number of entries.\<close>

definition agg_inv :: "nat \<Rightarrow> 'e option list \<times> nat \<Rightarrow> bool" where
  "agg_inv seed tn \<longleftrightarrow> (case tn of (tab, n) \<Rightarrow>
     table_ok tab \<and> n = oa_used tab \<and> n * 10 < length tab * 7 \<and> 2 \<le> length tab \<and>
     length tab * elem \<le> SIZE_MAX \<and> length tab \<le> seed + 3 * n)"

lemma tget_bump:
  assumes "table_ok tab" "Suc (oa_used tab) < length tab" "agg_store tab (oa_used tab) e = (tab', n')"
  shows "table_ok tab'" "n' = oa_used tab'" "length tab' = length tab" "n' \<le> oa_used tab + 1" "oa_used tab \<le> n'"
    "tget tab' = (tget tab)(key e := merge (tget tab (key e)) e)"
proof -
  have "table_ok tab' \<and> n' = oa_used tab' \<and> length tab' = length tab \<and> n' \<le> oa_used tab + 1 \<and> oa_used tab \<le> n' \<and>
      tget tab' = (tget tab)(key e := merge (tget tab (key e)) e)"
  proof (cases "oa_find tab (matches (key e)) (hash (key e))")
    case (Hit j)
    then obtain old where old: "tab ! j = Some old" "key old = key e" unfolding oa_find_def using probe_Hit by blast
    then have t: "tget tab (key e) = Some old" using Hit by (simp add: tget_def)
    have kb: "key (bump old e) = key e" by (simp add: key_bump old(2))
    have H: "oa_find tab (matches (key (bump old e))) (hash (key (bump old e))) = Hit j" using Hit by (simp add: kb)
    have eq: "tab' = tab[j := Some (bump old e)]" "n' = oa_used tab" using assms(3) Hit old by (auto simp: agg_store_def)
    show ?thesis
      using update_Hit [OF assms(1) H] tget_update_Hit [OF assms(1) H] t unfolding eq by (simp add: kb merge_def)
  next
    case (Free j)
    then have eq: "tab' = tab[j := Some e]" "n' = oa_used tab + 1" using assms(3) by (auto simp: agg_store_def)
    show ?thesis
      using insert_Free [OF assms(1) Free assms(2)] tget_insert_Free [OF assms(1) Free assms(2)] find_Free_None [OF assms(1) Free]
      unfolding eq by (simp add: merge_def)
  qed (use find_not_Spin [OF assms(1)] in simp)
  then show "table_ok tab'" "n' = oa_used tab'" "length tab' = length tab" "n' \<le> oa_used tab + 1" "oa_used tab \<le> n'"
    "tget tab' = (tget tab)(key e := merge (tget tab (key e)) e)" by blast+
qed

lemma full_exact:
  assumes "agg_inv seed (tab, n)"
  shows "agg_full tab n \<longleftrightarrow> length tab * 7 \<le> (n + 1) * 10"
proof -
  have c: "length tab * elem \<le> SIZE_MAX" "n * 10 < length tab * 7" "2 \<le> length tab" using assms by (auto simp: agg_inv_def)
  have "length tab * 16 \<le> SIZE_MAX" using c(1) elem_pos by (meson le_trans mult_le_mono2)
  then have a: "(n + 1) * 10 \<le> SIZE_MAX" and b: "length tab * 7 \<le> SIZE_MAX" using c(2,3) by simp_all
  have "n + 1 \<le> SIZE_MAX" using a by simp
  with a b show ?thesis by (simp add: agg_full_def sz_mul_exact sz_add_exact)
qed

text \<open>Growth doubles the table or leaves it alone.\<close>

lemma grow_double:
  assumes "agg_inv seed (tab, n)"
  shows "asmtest_grow_pow2 (length tab) (sz_add (length tab) 1) elem =
     (if length tab \<le> SIZE_MAX div elem div 2 then Some (2 * length tab) else None)"
proof -
  have c: "length tab * elem \<le> SIZE_MAX" "2 \<le> length tab" using assms by (auto simp: agg_inv_def)
  have "length tab * 16 \<le> SIZE_MAX" using c(1) elem_pos by (meson le_trans mult_le_mono2)
  then have "length tab + 1 \<le> SIZE_MAX" using c(2) by simp
  then have s: "sz_add (length tab) 1 = length tab + 1" by (simp add: sz_add_exact)
  have nz: "length tab \<noteq> 0" using c(2) by linarith
  show ?thesis
  proof (cases "length tab \<le> SIZE_MAX div elem div 2")
    case True
    have "SIZE_MAX div elem \<le> SIZE_MAX" by simp
    from pow2_step [OF True this, of 65 "length tab + 1"] True c(2) nz show ?thesis
      unfolding s by (simp add: asmtest_grow_pow2_def del: pow2_loop.simps)
  next
    case False
    then show ?thesis using nz by (simp add: asmtest_grow_pow2_def pow2_stop del: pow2_loop.simps)
  qed
qed

lemma grow_keeps:
  assumes "agg_inv seed (tab, n)" "length tab \<le> SIZE_MAX div elem div 2" "length tab * 7 \<le> (n + 1) * 10"
  defines "tab' \<equiv> oa_rehash (\<lambda>e. hash (key e)) (replicate (2 * length tab) None) tab"
  shows "table_ok tab'" "oa_used tab' = n" "length tab' = 2 * length tab" "tget tab' = tget tab"
    "Suc n < length tab'" "(n + 1) * 10 < length tab' * 7" "length tab' * elem \<le> SIZE_MAX" "length tab' \<le> seed + 3 * (n + 1)"
proof -
  have i: "table_ok tab" "n = oa_used tab" "n * 10 < length tab * 7" "2 \<le> length tab" using assms(1) by (auto simp: agg_inv_def)
  obtain k where k: "length tab = 2 ^ k" using i(1) by (auto simp: table_ok_def)
  have d: "2 * length tab = 2 ^ Suc k" by (simp add: k)
  have u: "oa_used tab < 2 ^ Suc k" using oa_used_le [of tab] i(4) by (simp add: k)
  have hk: "(\<lambda>e. hash (key e)) = hash \<circ> key" by auto
  have r': "table_ok tab' \<and> oa_used tab' = oa_used tab \<and> length tab' = 2 * length tab \<and> (\<forall>e. Some e \<in> set tab' \<longleftrightarrow> Some e \<in> set tab)"
    using rehash_ok [of tab "Suc k"] i(1) u unfolding tab'_def hk d by blast
  then show "table_ok tab'" "oa_used tab' = n" "length tab' = 2 * length tab" using i(2) by simp_all
  show "tget tab' = tget tab" using r' i(1) by (intro tget_contents) auto
  have "2 * length tab \<le> SIZE_MAX div elem" using assms(2) by linarith
  from div_SIZE_MAX_mult [OF this] show "length tab' * elem \<le> SIZE_MAX" using r' by simp
  show "Suc n < length tab'" "(n + 1) * 10 < length tab' * 7" using r' i(3,4) by simp_all
  show "length tab' \<le> seed + 3 * (n + 1)" using r' assms(3) by simp
qed

text \<open>A sample is dropped, leaving the table as it is, or merged; it is merged when memory is at hand.\<close>

definition agg_room :: "nat \<Rightarrow> nat \<Rightarrow> bool" where
  "agg_room seed n \<longleftrightarrow> 2 * (seed + 3 * n) * elem \<le> SIZE_MAX"

lemma agg_store_inv:
  assumes "table_ok tab" "(oa_used tab + 1) * 10 < length tab * 7" "2 \<le> length tab" "length tab * elem \<le> SIZE_MAX"
    "length tab \<le> seed + 3 * oa_used tab" "agg_store tab (oa_used tab) e = (tab', n')"
  shows "agg_inv seed (tab', n') \<and> n' \<le> oa_used tab + 1 \<and> tget tab' = (tget tab)(key e := merge (tget tab (key e)) e)"
proof -
  have "Suc (oa_used tab) < length tab" using assms(2,3) by simp
  note t = tget_bump [OF assms(1) this assms(6)]
  show ?thesis using t assms(2-5) by (auto simp: agg_inv_def)
qed

lemma add_cases:
  assumes inv: "agg_inv seed (tab, n)" and seed: "3 \<le> seed" and add: "agg_add h (tab, n) e = ((tab', n'), h')"
  shows "agg_inv seed (tab', n')" "n' \<le> n + 1"
    "tget tab' = (tget tab)(key e := merge (tget tab (key e)) e) \<or> (tab', n') = (tab, n)"
    "agg_room seed n \<Longrightarrow> h = [] \<Longrightarrow> tget tab' = (tget tab)(key e := merge (tget tab (key e)) e) \<and> h' = []"
proof -
  let ?merged = "tget tab' = (tget tab)(key e := merge (tget tab (key e)) e)"
  have i: "table_ok tab" "n = oa_used tab" "2 \<le> length tab" "length tab * elem \<le> SIZE_MAX" "length tab \<le> seed + 3 * n"
    using inv by (auto simp: agg_inv_def)
  have "agg_inv seed (tab', n') \<and> n' \<le> n + 1 \<and> (?merged \<or> (tab', n') = (tab, n)) \<and> (agg_room seed n \<longrightarrow> h = [] \<longrightarrow> ?merged \<and> h' = [])"
  proof (cases "agg_full tab n")
    case False
    then have "agg_store tab (oa_used tab) e = (tab', n')" "h' = h" using add i(2) by (auto simp: agg_add_def)
    moreover have "(oa_used tab + 1) * 10 < length tab * 7" using False full_exact [OF inv] i(2) by simp
    ultimately show ?thesis using agg_store_inv [OF i(1) _ i(3,4)] i(2,5) by simp
  next
    case full: True
    then have load: "length tab * 7 \<le> (n + 1) * 10" using full_exact [OF inv] by simp
    define nt where "nt = oa_rehash (\<lambda>e. hash (key e)) (replicate (2 * length tab) None) tab"
    show ?thesis
    proof (cases "length tab \<le> SIZE_MAX div elem div 2 \<and> fst (alloc h)")
      case True
      then obtain h1 where "agg_grow h tab = (Some nt, h1)" "h = [] \<longrightarrow> h1 = []"
        by (cases h) (auto simp: agg_grow_def grow_double [OF inv] nt_def simp del: One_nat_def split: prod.splits)
      then have st: "agg_store nt n e = (tab', n')" "h = [] \<longrightarrow> h' = []" using add full by (auto simp: agg_add_def)
      note g = grow_keeps [OF inv conjunct1 [OF True] load, folded nt_def]
      have "length nt \<le> seed + 3 * oa_used nt" using g(2,8) load g(3) seed i(3) by simp
      then show ?thesis using agg_store_inv [OF g(1), of seed e tab' n'] g i(3) st by simp
    next
      case False
      have no: "\<not> agg_room seed n" if "h = []"
      proof
        assume "agg_room seed n"
        then have "2 * length tab * elem \<le> SIZE_MAX" using i(5) unfolding agg_room_def
          by (meson le_trans mult_le_mono1 mult_le_mono2)
        then have "2 * length tab \<le> SIZE_MAX div elem" using elem_pos by (simp add: less_eq_div_iff_mult_less_eq)
        then show False using False that by auto
      qed
      have "fst (agg_grow h tab) = None"
        using False by (auto simp: agg_grow_def grow_double [OF inv] simp del: One_nat_def split: prod.splits)
      then have "(tab', n') = (tab, n)" using add full by (auto simp: agg_add_def split: prod.splits option.splits)
      then show ?thesis using inv no by auto
    qed
  qed
  then show "agg_inv seed (tab', n')" "n' \<le> n + 1" "?merged \<or> (tab', n') = (tab, n)"
    "agg_room seed n \<Longrightarrow> h = [] \<Longrightarrow> ?merged \<and> h' = []" by blast+
qed

text \<open>A stream of samples: each key holds the merge of its own.\<close>

lemma add_stream:
  assumes "agg_inv seed (tab, n)" "3 \<le> seed" "agg_room seed (n + length es)"
  shows "\<exists>tab' n'. foldl (\<lambda>(tn, h) e. agg_add h tn e) ((tab, n), []) es = ((tab', n'), []) \<and> agg_inv seed (tab', n') \<and> n' \<le> n + length es \<and>
     (\<forall>k. tget tab' k = foldl merge (tget tab k) (filter (\<lambda>e. key e = k) es))"
  using assms
proof (induction es arbitrary: tab n)
  case (Cons e es)
  obtain tab1 n1 h1 where a: "agg_add [] (tab, n) e = ((tab1, n1), h1)" by (metis prod.exhaust)
  have "agg_room seed n" using Cons.prems(3) unfolding agg_room_def
    by (meson add_le_mono le_add1 le_refl le_trans mult_le_mono)
  note s = add_cases [OF Cons.prems(1,2) a]
  from s(4) [OF \<open>agg_room seed n\<close>] have m: "tget tab1 = (tget tab)(key e := merge (tget tab (key e)) e)" and h: "h1 = []" by simp_all
  have "2 * (seed + 3 * (n1 + length es)) * elem \<le> 2 * (seed + 3 * (n + length (e # es))) * elem" using s(2) by (intro mult_le_mono) simp_all
  then have "agg_room seed (n1 + length es)" using Cons.prems(3) unfolding agg_room_def by linarith
  from Cons.IH [OF s(1) Cons.prems(2) this] obtain tab' n' where
    "foldl (\<lambda>(tn, h) e. agg_add h tn e) ((tab1, n1), []) es = ((tab', n'), [])" "agg_inv seed (tab', n')" "n' \<le> n1 + length es"
    "\<forall>k. tget tab' k = foldl merge (tget tab1 k) (filter (\<lambda>e. key e = k) es)" by blast
  then show ?case using a h m s(2) by auto
qed simp

text \<open>What the table holds: one entry per key that has samples.\<close>

lemma ents_distinct: "agg_inv seed (tab, n) \<Longrightarrow> distinct (map key (oa_ents tab))"
  using distinct_keys unfolding agg_inv_def by (auto intro!: distinct_key_ents)

lemma ents_tget: "agg_inv seed (tab, n) \<Longrightarrow> e \<in> set (oa_ents tab) \<longleftrightarrow> tget tab (key e) = Some e"
  using tget_Some unfolding agg_inv_def by auto

lemma agg_inv_empty:
  assumes "1 \<le> k" "2 ^ k * elem \<le> SIZE_MAX"
  shows "agg_inv (2 ^ k) (replicate (2 ^ k) None, 0)" "tget (replicate (2 ^ k) None) q = None"
proof -
  have "2 \<le> (2 :: nat) ^ k" using power_increasing [OF assms(1), of "2 :: nat"] by simp
  then show "agg_inv (2 ^ k) (replicate (2 ^ k) None, 0)" using assms(2) table_ok_replicate [of k] by (simp add: agg_inv_def oa_ents_def)
  show "tget (replicate (2 ^ k) None) q = None"
    using tget_Some [OF table_ok_replicate [of k], of q] by (metis in_set_replicate not_None_eq)
qed

end

end
