(* ===== verification/Ibs.thy ===== *)
theory Ibs
  imports Perf_Ring Agg_Table "HOL-Library.Product_Lexorder"
begin

text \<open>
  The statistical lane of \<^verbatim>\<open>src/src/ibs_backend.c\<close>: the decoders of raw IBS records, the tables that aggregate the sampled edges and fetch addresses, the drains
  of the perf ring (\<open>Perf_Ring\<close>), a survey of one thread and the block set of a survey. Opening the events, the clock and
  the threads are the kernel's; \<^verbatim>\<open>qsort\<close> is an argument with its documented contract.
\<close>

section \<open>Raw records\<close>

definition IBS_OK :: int where "IBS_OK = 0"
definition IBS_NOEDGE :: int where "IBS_NOEDGE = 1"
definition IBS_EUNAVAIL :: int where "IBS_EUNAVAIL = - 3"
definition IBS_EDECODE :: int where "IBS_EDECODE = - 8"

record ibs_edge =
  ie_from :: u64
  ie_to :: u64
  ie_count :: u64
  ie_taken :: u32
  ie_mispred :: u32
  ie_is_return :: u32

definition zero_edge :: ibs_edge where
  "zero_edge = \<lparr>ie_from = 0, ie_to = 0, ie_count = 0, ie_taken = 0, ie_mispred = 0, ie_is_return = 0\<rparr>"

definition IBS_RAW_REG_OFF :: "nat \<Rightarrow> nat" where
  "IBS_RAW_REG_OFF k = 4 + 8 * k"

definition asmtest_ibs_decode_op :: "u8 list \<Rightarrow> int \<times> ibs_edge" where
  "asmtest_ibs_decode_op raw =
     (if length raw < 68 then (IBS_EDECODE, zero_edge)
      else let caps = ld_u32 raw 0 in
        if \<not> bit caps 5 then (IBS_EDECODE, zero_edge)
        else let rip = ld_u64 raw (IBS_RAW_REG_OFF 1); data = ld_u64 raw (IBS_RAW_REG_OFF 2); tgt = ld_u64 raw (IBS_RAW_REG_OFF 7);
                 rip_invalid = (if bit caps 7 then bit data 38 else False) in
          if \<not> bit data 37 \<or> \<not> bit data 35 \<or> rip_invalid then (IBS_NOEDGE, zero_edge)
          else (IBS_OK, \<lparr>ie_from = rip, ie_to = tgt, ie_count = 1, ie_taken = 1,
                         ie_mispred = of_bool (bit data 36), ie_is_return = of_bool (bit data 34)\<rparr>))"

record ibs_fetch_sample =
  fs_fetch_addr :: u64
  fs_valid :: bool
  fs_complete :: bool
  fs_icache_miss :: bool
  fs_itlb_miss :: bool
  fs_latency :: u32

definition asmtest_ibs_decode_fetch :: "u8 list \<Rightarrow> int \<times> ibs_fetch_sample" where
  "asmtest_ibs_decode_fetch raw =
     (if length raw < 20
      then (IBS_EDECODE, \<lparr>fs_fetch_addr = 0, fs_valid = False, fs_complete = False, fs_icache_miss = False, fs_itlb_miss = False, fs_latency = 0\<rparr>)
      else let ctl = ld_u64 raw (IBS_RAW_REG_OFF 0); linad = ld_u64 raw (IBS_RAW_REG_OFF 1) in
        (if bit ctl 49 then IBS_OK else IBS_NOEDGE,
         \<lparr>fs_fetch_addr = linad, fs_valid = bit ctl 49, fs_complete = bit ctl 50, fs_icache_miss = bit ctl 51, fs_itlb_miss = bit ctl 55,
          fs_latency = ucast (drop_bit 32 ctl AND 0xFFFF)\<rparr>))"

section \<open>The edge table\<close>

record eh_slot =
  es_from :: u64
  es_to :: u64
  es_count :: u64
  es_mispred :: u32
  es_is_return :: u32

record edge_hash =
  eh_slots :: "eh_slot option list"
  eh_n :: nat

text \<open>\<^verbatim>\<open>sizeof(eh_slot)\<close>\<close>

definition eh_sizeof :: nat where "eh_sizeof = 40"

definition eh_init :: "heap \<Rightarrow> nat \<Rightarrow> edge_hash option \<times> heap" where
  "eh_init h cap = (case alloc h of (ok, h') \<Rightarrow> (if ok then Some \<lparr>eh_slots = replicate cap None, eh_n = 0\<rparr> else None, h'))"

definition eh_hash :: "u64 \<Rightarrow> u64 \<Rightarrow> u64" where
  "eh_hash from to =
     (let k = from * 0x9E3779B97F4A7C15;
          k = k XOR (to + 0x9E3779B97F4A7C15 + push_bit 6 k + drop_bit 2 k)
      in k XOR drop_bit 29 k)"

definition eh_grow :: "heap \<Rightarrow> edge_hash \<Rightarrow> edge_hash option \<times> heap" where
  "eh_grow h t =
     (case asmtest_grow_pow2 (length (eh_slots t)) (sz_add (length (eh_slots t)) 1) eh_sizeof of
        None \<Rightarrow> (None, h)
      | Some nc \<Rightarrow>
          (case eh_init h nc of
             (None, h') \<Rightarrow> (None, h')
           | (Some bigger, h') \<Rightarrow>
               (Some \<lparr>eh_slots = oa_rehash (\<lambda>s. eh_hash (es_from s) (es_to s)) (eh_slots bigger) (eh_slots t), eh_n = oa_used (eh_slots t)\<rparr>, h')))"

definition eh_store :: "edge_hash \<Rightarrow> eh_slot \<Rightarrow> edge_hash" where
  "eh_store t e =
     (case oa_find (eh_slots t) (\<lambda>s. es_from s = es_from e \<and> es_to s = es_to e) (eh_hash (es_from e) (es_to e)) of
        Free i \<Rightarrow> t\<lparr>eh_slots := (eh_slots t)[i := Some e], eh_n := eh_n t + 1\<rparr>
      | Hit i \<Rightarrow>
          (let s = the (eh_slots t ! i) in
           t\<lparr>eh_slots := (eh_slots t)[i := Some (s\<lparr>es_count := es_count s + 1, es_mispred := es_mispred s + es_mispred e,
                                                 es_is_return := es_is_return s + es_is_return e\<rparr>)]\<rparr>)
      | Spin \<Rightarrow> t)"

definition eh_add :: "heap \<Rightarrow> edge_hash \<Rightarrow> u64 \<Rightarrow> u64 \<Rightarrow> u32 \<Rightarrow> u32 \<Rightarrow> edge_hash \<times> heap" where
  "eh_add h t from to mispred is_return =
     (let e = \<lparr>es_from = from, es_to = to, es_count = 1, es_mispred = mispred, es_is_return = is_return\<rparr> in
      if sz_mul (sz_add (eh_n t) 1) 10 \<ge> sz_mul (length (eh_slots t)) 7
      then case eh_grow h t of (None, h') \<Rightarrow> (t, h') | (Some t', h') \<Rightarrow> (eh_store t' e, h')
      else (eh_store t e, h))"

text \<open>The order of the exported edges: descending count, then source, then target.\<close>

definition eh_key :: "ibs_edge \<Rightarrow> int \<times> u64 \<times> u64" where
  "eh_key e = (- uint (ie_count e), ie_from e, ie_to e)"

definition slot_edge :: "eh_slot \<Rightarrow> ibs_edge" where
  "slot_edge s = \<lparr>ie_from = es_from s, ie_to = es_to s, ie_count = es_count s, ie_taken = 1, ie_mispred = es_mispred s, ie_is_return = es_is_return s\<rparr>"

text \<open>\<open>None\<close> is the failure; \<open>armed\<close> is the test seam that injects one.\<close>

definition eh_export :: "(ibs_edge list \<Rightarrow> ibs_edge list) \<Rightarrow> bool \<Rightarrow> heap \<Rightarrow> edge_hash \<Rightarrow> ibs_edge list option \<times> heap" where
  "eh_export qsort armed h t =
     (if eh_n t = 0 then (Some [], h)
      else if armed then (None, h)
      else case alloc h of (ok, h') \<Rightarrow>
        (if ok then Some (qsort (map slot_edge (take (eh_n t) (oa_ents (eh_slots t))))) else None, h'))"

section \<open>The drain\<close>

record ibs_survey =
  sv_edges :: "ibs_edge list"
  sv_samples :: u64
  sv_branch_samples :: u64
  sv_lost :: u64
  sv_throttled :: bool

definition zero_survey :: ibs_survey where
  "zero_survey = \<lparr>sv_edges = [], sv_samples = 0, sv_branch_samples = 0, sv_lost = 0, sv_throttled = False\<rparr>"

definition IBS_MAX_RECORD :: nat where "IBS_MAX_RECORD = 8 + 8 + 8 + 4 + 68 + 16"
definition IBS_MAX_RECORD_CALLCHAIN :: nat where "IBS_MAX_RECORD_CALLCHAIN = 24 + 8 * (1 + 127 + 8) + 80 + 16"

definition ibs_max_record :: "bool \<Rightarrow> nat" where
  "ibs_max_record has_callchain = (if has_callchain then IBS_MAX_RECORD_CALLCHAIN else IBS_MAX_RECORD)"

text \<open>The pid, 0 where the record is too short to hold one, and the payload.\<close>

definition ibs_sample_raw :: "u8 list \<Rightarrow> bool \<Rightarrow> u32 \<times> u8 list option" where
  "ibs_sample_raw rec has_callchain =
     (let recsz = length rec in
      if 8 + 8 + 8 > recsz then (0, None)
      else let pid = ld_u32 rec 16; p = 24 in
        if has_callchain \<and> p + 8 > recsz then (pid, None)
        else let nr = ld 8 rec p in
          if has_callchain \<and> nr > (recsz - (p + 8)) div 8 then (pid, None)
          else let p = (if has_callchain then p + 8 + nr * 8 else p) in
            if p + 4 > recsz then (pid, None)
            else let rawsz = ld 4 rec p; p = p + 4 in
              if rawsz > recsz - p then (pid, None) else (pid, Some (take rawsz (drop p rec))))"

text \<open>The amount a record of lost samples reports.\<close>

definition lost_of :: "u8 list \<Rightarrow> u64" where
  "lost_of rec = (if length rec \<ge> 8 + 16 then ld_u64 rec (8 + 8) else 1)"

type_synonym ibs_state = "ibs_survey \<times> edge_hash \<times> heap"

definition ibs_record :: "bool \<Rightarrow> u32 \<Rightarrow> nat \<Rightarrow> u8 list \<Rightarrow> ibs_state \<Rightarrow> ibs_state" where
  "ibs_record has_callchain filter_pid ty rec st =
     (case st of (sv, t, h) \<Rightarrow>
      if ty = PERF_RECORD_SAMPLE then
        (case ibs_sample_raw rec has_callchain of (pid, raw) \<Rightarrow>
           if filter_pid = 0 \<or> pid = filter_pid then
             let sv1 = sv\<lparr>sv_samples := sv_samples sv + 1\<rparr> in
             (case raw of
                None \<Rightarrow> (sv1, t, h)
              | Some r \<Rightarrow>
                  (case asmtest_ibs_decode_op r of (rc, e) \<Rightarrow>
                     if rc = IBS_OK
                     then (case eh_add h t (ie_from e) (ie_to e) (ie_mispred e) (ie_is_return e) of (t', h') \<Rightarrow>
                             (sv1\<lparr>sv_branch_samples := sv_branch_samples sv + 1\<rparr>, t', h'))
                     else (sv1, t, h)))
           else (sv, t, h))
      else if ty = PERF_RECORD_LOST then (sv\<lparr>sv_lost := sv_lost sv + lost_of rec\<rparr>, t, h)
      else if ty = PERF_RECORD_THROTTLE then (sv\<lparr>sv_throttled := True\<rparr>, t, h)
      else (sv, t, h))"

definition ibs_drain :: "bool \<Rightarrow> u32 \<Rightarrow> perf_ring \<Rightarrow> ibs_state \<Rightarrow> perf_ring \<times> ibs_state" where
  "ibs_drain has_callchain filter_pid r st =
     (case st of (sv, t, h) \<Rightarrow>
      let span = ring_span r in
      if span = 0 then (r, st)
      else let sv1 = (if span + ibs_max_record has_callchain > pr_size r then sv\<lparr>sv_throttled := True\<rparr> else sv) in
        (r\<lparr>pr_tail := pr_tail r + of_nat span\<rparr>, perf_walk (ibs_record has_callchain filter_pid) (ring_copy r span) 0 (sv1, t, h)))"

text \<open>
  A survey of one thread. \<open>mvs\<close> is what the kernel does to the ring between the drains of the loop, which ends when the time is up; the
  last drain follows the disabling of the event.
\<close>

fun survey_loop :: "bool \<Rightarrow> (perf_ring \<Rightarrow> perf_ring) list \<Rightarrow> perf_ring \<Rightarrow> ibs_state \<Rightarrow> perf_ring \<times> ibs_state" where
  "survey_loop callchain [] r st = (r, st)"
| "survey_loop callchain (mv # mvs) r st = (case ibs_drain callchain 0 r st of (r1, st1) \<Rightarrow> survey_loop callchain mvs (mv r1) st1)"

definition asmtest_ibs_survey_pid ::
  "(ibs_edge list \<Rightarrow> ibs_edge list) \<Rightarrow> bool \<Rightarrow> bool \<Rightarrow> (perf_ring \<Rightarrow> perf_ring) list \<Rightarrow> perf_ring \<Rightarrow> heap \<Rightarrow> int \<times> ibs_survey" where
  "asmtest_ibs_survey_pid qsort armed callchain mvs r h =
     (case alloc h of (ok, h1) \<Rightarrow>
      if \<not> ok then (IBS_EUNAVAIL, zero_survey)
      else case eh_init h1 1024 of
        (None, h2) \<Rightarrow> (IBS_EUNAVAIL, zero_survey)
      | (Some t, h2) \<Rightarrow>
          (case survey_loop callchain mvs r (zero_survey, t, h2) of (r1, st1) \<Rightarrow>
           case ibs_drain callchain 0 r1 st1 of (r2, sv, t2, h3) \<Rightarrow>
           case eh_export qsort armed h3 t2 of
             (None, h4) \<Rightarrow> (IBS_EUNAVAIL, sv)
           | (Some es, h4) \<Rightarrow> (IBS_OK, sv\<lparr>sv_edges := es\<rparr>)))"

section \<open>The edge table aggregates\<close>

definition es_key :: "eh_slot \<Rightarrow> u64 \<times> u64" where
  "es_key s = (es_from s, es_to s)"

definition es_bump :: "eh_slot \<Rightarrow> eh_slot \<Rightarrow> eh_slot" where
  "es_bump s e = s\<lparr>es_count := es_count s + 1, es_mispred := es_mispred s + es_mispred e, es_is_return := es_is_return s + es_is_return e\<rparr>"

interpretation eh: agg_table es_key "\<lambda>(f, t). eh_hash f t" es_bump eh_sizeof
  by unfold_locales (simp_all add: es_key_def es_bump_def eh_sizeof_def)

definition eh_pair :: "edge_hash \<Rightarrow> eh_slot option list \<times> nat" where
  "eh_pair t = (eh_slots t, eh_n t)"

lemma eh_store_agg: "eh_pair (eh_store t e) = eh.agg_store (eh_slots t) (eh_n t) e"
proof -
  have "(\<lambda>s. es_from s = es_from e \<and> es_to s = es_to e) = (\<lambda>s. es_key s = es_key e)" by (auto simp: es_key_def)
  then show ?thesis
    by (simp add: eh_store_def eh.agg_store_def eh_pair_def es_key_def es_bump_def Let_def split: probe_result.splits)
qed

lemma eh_add_agg:
  assumes "eh.agg_inv seed (eh_pair t)" "eh_add h t f d m r = (t', h')"
  shows "eh.agg_add h (eh_pair t) \<lparr>es_from = f, es_to = d, es_count = 1, es_mispred = m, es_is_return = r\<rparr> = (eh_pair t', h')"
proof -
  have n: "eh_n t = oa_used (eh_slots t)" using assms(1) by (simp add: eh.agg_inv_def eh_pair_def)
  have k: "(\<lambda>s. eh_hash (es_from s) (es_to s)) = (\<lambda>e. case es_key e of (f, t) \<Rightarrow> eh_hash f t)" by (auto simp: es_key_def)
  show ?thesis
    using assms(2) n unfolding eh_add_def eh.agg_add_def eh.agg_full_def eh.agg_grow_def eh_grow_def eh_init_def k
    by (auto simp: eh_pair_def eh_store_agg [unfolded eh_pair_def] Let_def split: option.splits prod.splits if_splits)
qed

text \<open>
  The comment of \<^verbatim>\<open>eh_add\<close> calls a survey after a failed growth a prefix. The growth is tried again at the next sample: when it then succeeds, a later sample
  is in the table and the dropped one is not.
\<close>

lemma dropped_sample_not_last:
  assumes "eh.agg_inv seed (eh_pair t)" "3 \<le> seed" "eh.agg_room seed (eh_n t)" "eh.agg_full (eh_slots t) (eh_n t)"
    "eh.tget (eh_slots t) (f, d) = None" "(f', d') \<noteq> (f, d)"
  shows "\<exists>t'. eh_add [False] t f d m r = (t, []) \<and> eh_add [] t f' d' m' r' = (t', []) \<and>
     eh.tget (eh_slots t') (f, d) = None \<and> eh.tget (eh_slots t') (f', d') \<noteq> None"
proof -
  have full: "sz_mul (length (eh_slots t)) 7 \<le> sz_mul (sz_add (eh_n t) 1) 10" using assms(4) by (simp add: eh.agg_full_def)
  have inv: "eh.agg_inv seed (eh_slots t, eh_n t)" using assms(1) by (simp add: eh_pair_def)
  have "eh_grow [False] t = (None, []) \<or> asmtest_grow_pow2 (length (eh_slots t)) (sz_add (length (eh_slots t)) 1) eh_sizeof = None"
    by (simp add: eh_grow_def eh_init_def split: option.splits)
  moreover have "length (eh_slots t) \<le> SIZE_MAX div eh_sizeof div 2"
  proof -
    have "length (eh_slots t) \<le> seed + 3 * eh_n t" using inv by (simp add: eh.agg_inv_def)
    then have "2 * length (eh_slots t) * eh_sizeof \<le> 2 * (seed + 3 * eh_n t) * eh_sizeof" by (intro mult_le_mono) simp_all
    also have "\<dots> \<le> SIZE_MAX" using assms(3) by (simp only: eh.agg_room_def)
    finally have "2 * length (eh_slots t) * eh_sizeof \<le> SIZE_MAX" .
    then have "2 * length (eh_slots t) \<le> SIZE_MAX div eh_sizeof" by (simp add: less_eq_div_iff_mult_less_eq eh_sizeof_def)
    then show ?thesis by linarith
  qed
  ultimately have "eh_grow [False] t = (None, [])" using eh.grow_double [OF inv] by auto
  then have drop: "eh_add [False] t f d m r = (t, [])" using full by (simp add: eh_add_def Let_def)
  obtain t' h' where add: "eh_add [] t f' d' m' r' = (t', h')" by (metis prod.exhaust)
  have "eh.agg_add [] (eh_slots t, eh_n t) \<lparr>es_from = f', es_to = d', es_count = 1, es_mispred = m', es_is_return = r'\<rparr> = ((eh_slots t', eh_n t'), h')"
    using eh_add_agg [OF assms(1) add] by (simp add: eh_pair_def)
  from eh.add_cases(4) [OF inv assms(2) this assms(3)] show ?thesis
    using drop add assms(5,6) by (auto simp: es_key_def eh.merge_def)
qed

section \<open>What the kernel writes\<close>

text \<open>
  The records of a sampling event, after the kernel's documentation: a sample (address, pid and thread, the caller stack where it was asked for, and the raw
  payload with its size and padding), a count of lost records, a throttling note, or another record. The specification of a survey reads them directly.
\<close>

record ibs_sample =
  sm_ip :: nat
  sm_pid :: nat
  sm_tid :: nat
  sm_chain :: "nat list"
  sm_raw :: "u8 list"
  sm_pad :: "u8 list"

datatype ibs_event = Ev_sample ibs_sample | Ev_lost nat nat | Ev_throttle "u8 list" | Ev_other nat "u8 list"

definition sample_body :: "bool \<Rightarrow> ibs_sample \<Rightarrow> u8 list" where
  "sample_body cc s = le 8 (sm_ip s) @ le 4 (sm_pid s) @ le 4 (sm_tid s) @
     (if cc then le 8 (length (sm_chain s)) @ concat (map (le 8) (sm_chain s)) else []) @ le 4 (length (sm_raw s)) @ sm_raw s @ sm_pad s"

fun event_rec :: "bool \<Rightarrow> ibs_event \<Rightarrow> perf_rec" where
  "event_rec cc (Ev_sample s) = \<lparr>rc_type = PERF_RECORD_SAMPLE, rc_misc = 2, rc_body = sample_body cc s\<rparr>"
| "event_rec cc (Ev_lost i n) = \<lparr>rc_type = PERF_RECORD_LOST, rc_misc = 0, rc_body = le 8 i @ le 8 n\<rparr>"
| "event_rec cc (Ev_throttle b) = \<lparr>rc_type = PERF_RECORD_THROTTLE, rc_misc = 0, rc_body = b\<rparr>"
| "event_rec cc (Ev_other ty b) = \<lparr>rc_type = ty, rc_misc = 0, rc_body = b\<rparr>"

fun event_ok :: "bool \<Rightarrow> ibs_event \<Rightarrow> bool" where
  "event_ok cc (Ev_sample s) \<longleftrightarrow> sm_pid s < 2 ^ 32 \<and> 8 + length (sample_body cc s) < 2 ^ 16"
| "event_ok cc (Ev_lost i n) \<longleftrightarrow> n < 2 ^ 64"
| "event_ok cc (Ev_throttle b) \<longleftrightarrow> 8 + length b < 2 ^ 16"
| "event_ok cc (Ev_other ty b) \<longleftrightarrow> ty < 2 ^ 32 \<and> ty \<notin> {PERF_RECORD_SAMPLE, PERF_RECORD_LOST, PERF_RECORD_THROTTLE} \<and> 8 + length b < 2 ^ 16"

text \<open>The sampled edges of a stream, in order.\<close>

fun event_edge :: "ibs_event \<Rightarrow> ibs_edge option" where
  "event_edge (Ev_sample s) = (case asmtest_ibs_decode_op (sm_raw s) of (rc, e) \<Rightarrow> if rc = IBS_OK then Some e else None)"
| "event_edge _ = None"

definition edges_of :: "ibs_event list \<Rightarrow> ibs_edge list" where
  "edges_of evs = List.map_filter event_edge evs"

fun is_sample :: "ibs_event \<Rightarrow> bool" where
  "is_sample (Ev_sample s) = True"
| "is_sample _ = False"

fun event_lost :: "ibs_event \<Rightarrow> nat" where
  "event_lost (Ev_lost i n) = n"
| "event_lost _ = 0"

fun is_throttle :: "ibs_event \<Rightarrow> bool" where
  "is_throttle (Ev_throttle b) = True"
| "is_throttle _ = False"

lemma event_rec_ok: "event_ok cc ev \<Longrightarrow> rec_ok (event_rec cc ev)"
  by (cases ev) (auto simp: rec_ok_def perf_types)

text \<open>The parser finds the pid and the payload.\<close>

lemma length_chain: "length (concat (map (le 8) xs)) = 8 * length xs"
  by (induction xs) simp_all

lemma sample_raw_parse:
  assumes "event_ok cc (Ev_sample s)"
  shows "ibs_sample_raw (rec_bytes (event_rec cc (Ev_sample s))) cc = (of_nat (sm_pid s), Some (sm_raw s))"
proof -
  define rec where "rec = rec_bytes (event_rec cc (Ev_sample s))"
  define hd where "hd = le 4 PERF_RECORD_SAMPLE @ le 2 2 @ le 2 (8 + length (sample_body cc s))"
  define ch where "ch = (if cc then le 8 (length (sm_chain s)) @ concat (map (le 8) (sm_chain s)) else [])"
  have hl: "length hd = 8" by (simp add: hd_def)
  have rec: "rec = hd @ le 8 (sm_ip s) @ le 4 (sm_pid s) @ le 4 (sm_tid s) @ ch @ le 4 (length (sm_raw s)) @ sm_raw s @ sm_pad s"
    by (simp add: rec_def rec_bytes_def hd_def sample_body_def ch_def)
  have cl: "length ch = (if cc then 8 + 8 * length (sm_chain s) else 0)" by (simp add: ch_def length_chain)
  have len: "length rec = 28 + length ch + length (sm_raw s) + length (sm_pad s)" by (simp add: rec hl)
  have b: "length rec < 2 ^ 16" using assms by (simp add: rec_def)
  have pid: "ld 4 rec 16 = sm_pid s"
    using ld_le [of "sm_pid s" 4 "hd @ le 8 (sm_ip s)" 16] assms by (simp add: rec hl)
  have nr: "ld 8 rec 24 = length (sm_chain s)" if cc
    using ld_le [of "length (sm_chain s)" 8 "hd @ le 8 (sm_ip s) @ le 4 (sm_pid s) @ le 4 (sm_tid s)" 24] b that len cl
    by (simp add: rec hl ch_def)
  have rs: "ld 4 rec (24 + length ch) = length (sm_raw s)"
    using ld_le [of "length (sm_raw s)" 4 "hd @ le 8 (sm_ip s) @ le 4 (sm_pid s) @ le 4 (sm_tid s) @ ch" "24 + length ch"] b len
    by (simp add: rec hl)
  have raw: "take (length (sm_raw s)) (drop (28 + length ch) rec) = sm_raw s" by (simp add: rec hl)
  have off: "(if cc then 24 + 8 + ld 8 rec 24 * 8 else 24) = 24 + length ch" using nr cl by auto
  have fit: "\<not> (cc \<and> ld 8 rec 24 > (length rec - (24 + 8)) div 8)" using nr cl len by auto
  show ?thesis
    unfolding rec_def [symmetric] ibs_sample_raw_def Let_def off using fit cl len pid rs raw
    by (auto simp: ld_u32_def)
qed

lemma lost_parse: "n < 2 ^ 64 \<Longrightarrow> lost_of (rec_bytes (event_rec cc (Ev_lost i n))) = of_nat n"
  using ld_le [of n 8 "le 4 PERF_RECORD_LOST @ le 2 0 @ le 2 24 @ le 8 i" 16 "[]"]
  by (simp add: lost_of_def ld_u64_def rec_bytes_def)

section \<open>A drain counts what it reads\<close>

text \<open>The events a drain with a pid filter keeps.\<close>

fun keeps :: "u32 \<Rightarrow> ibs_event \<Rightarrow> bool" where
  "keeps fp (Ev_sample s) \<longleftrightarrow> fp = 0 \<or> of_nat (sm_pid s) = fp"
| "keeps fp _ = True"

definition edge_slot :: "ibs_edge \<Rightarrow> eh_slot" where
  "edge_slot e = \<lparr>es_from = ie_from e, es_to = ie_to e, es_count = 1, es_mispred = ie_mispred e, es_is_return = ie_is_return e\<rparr>"

definition tallied :: "nat \<Rightarrow> ibs_event list \<Rightarrow> ibs_state \<Rightarrow> bool" where
  "tallied seed evs st \<longleftrightarrow> (case st of (sv, t, h) \<Rightarrow>
     h = [] \<and> eh.agg_inv seed (eh_pair t) \<and> eh_n t \<le> length (edges_of evs) \<and>
     sv_samples sv = of_nat (length (filter is_sample evs)) \<and> sv_branch_samples sv = of_nat (length (edges_of evs)) \<and>
     sv_lost sv = of_nat (sum_list (map event_lost evs)) \<and> (list_ex is_throttle evs \<longrightarrow> sv_throttled sv) \<and>
     (\<forall>k. eh.tget (eh_slots t) k = foldl eh.merge None (filter (\<lambda>e. es_key e = k) (map edge_slot (edges_of evs)))))"

lemma edges_of_snoc: "edges_of (evs @ [ev]) = edges_of evs @ (case event_edge ev of None \<Rightarrow> [] | Some e \<Rightarrow> [e])"
  by (simp add: edges_of_def map_filter_def split: option.splits)

lemma tallied_quiet:
  "tallied seed evs (sv, t, h) \<Longrightarrow> event_edge ev = None \<Longrightarrow>
   sv' = sv\<lparr>sv_samples := sv_samples sv + of_bool (is_sample ev), sv_lost := sv_lost sv + of_nat (event_lost ev), sv_throttled := sv_throttled sv \<or> is_throttle ev\<rparr> \<Longrightarrow>
   tallied seed (evs @ [ev]) (sv', t, h)"
  by (auto simp: tallied_def edges_of_snoc)

lemma tallied_edge:
  assumes "tallied seed evs (sv, t, h)" "3 \<le> seed" "eh.agg_room seed (length (edges_of evs))" "event_edge ev = Some e"
    "eh_add h t (ie_from e) (ie_to e) (ie_mispred e) (ie_is_return e) = (t', h')"
    "sv' = sv\<lparr>sv_samples := sv_samples sv + 1, sv_branch_samples := sv_branch_samples sv + 1\<rparr>"
  shows "tallied seed (evs @ [ev]) (sv', t', h')"
proof -
  have h: "h = []" and inv: "eh.agg_inv seed (eh_slots t, eh_n t)" and n: "eh_n t \<le> length (edges_of evs)"
    using assms(1) by (auto simp: tallied_def eh_pair_def)
  have room: "eh.agg_room seed (eh_n t)" using assms(3) n unfolding eh.agg_room_def
    by (meson add_le_mono le_refl le_trans mult_le_mono)
  have "eh.agg_add h (eh_slots t, eh_n t) (edge_slot e) = ((eh_slots t', eh_n t'), h')"
    using eh_add_agg [OF _ assms(5)] inv by (simp add: eh_pair_def edge_slot_def)
  note a = eh.add_cases [OF inv assms(2) this]
  have smp: "is_sample ev \<and> event_lost ev = 0 \<and> \<not> is_throttle ev" using assms(4) by (cases ev) auto
  have m: "eh.tget (eh_slots t') = (eh.tget (eh_slots t))(es_key (edge_slot e) := eh.merge (eh.tget (eh_slots t) (es_key (edge_slot e))) (edge_slot e))"
    and h': "h' = []" using a(4) [OF room h] by simp_all
  show ?thesis
    using assms(1,4,6) a(1,2) m h' n smp by (auto simp: tallied_def edges_of_snoc eh_pair_def simp del: split_paired_All)
qed

lemma record_tallied:
  assumes "tallied seed (filter (keeps fp) evs) st" "3 \<le> seed" "eh.agg_room seed (length (edges_of (filter (keeps fp) evs)))" "event_ok cc ev"
  shows "tallied seed (filter (keeps fp) (evs @ [ev])) (ibs_record cc fp (rc_type (event_rec cc ev)) (rec_bytes (event_rec cc ev)) st)"
proof -
  obtain sv t h where st: "st = (sv, t, h)" by (cases st)
  note T = assms(1) [unfolded st]
  show ?thesis
  proof (cases ev)
    case (Ev_sample s)
    have p: "ibs_sample_raw (rec_bytes (event_rec cc ev)) cc = (of_nat (sm_pid s), Some (sm_raw s))"
      using sample_raw_parse assms(4) Ev_sample by blast
    obtain rc e where d: "asmtest_ibs_decode_op (sm_raw s) = (rc, e)" by (metis prod.exhaust)
    show ?thesis
    proof (cases "keeps fp ev \<and> rc = IBS_OK")
      case True
      obtain t' h' where a: "eh_add h t (ie_from e) (ie_to e) (ie_mispred e) (ie_is_return e) = (t', h')" by (metis prod.exhaust)
      show ?thesis using tallied_edge [OF T assms(2,3) _ a refl] True p d a Ev_sample by (simp add: ibs_record_def st Let_def)
    next
      case False
      then show ?thesis using T tallied_quiet [OF T _ refl, of ev] p d Ev_sample by (auto simp: ibs_record_def st Let_def)
    qed
  next
    case (Ev_lost i n)
    then show ?thesis using tallied_quiet [OF T _ refl, of ev] assms(4) lost_parse [of n cc i] by (simp add: ibs_record_def st perf_types)
  next
    case (Ev_throttle b)
    then show ?thesis using tallied_quiet [OF T _ refl, of ev] by (simp add: ibs_record_def st perf_types)
  next
    case (Ev_other ty b)
    then show ?thesis using tallied_quiet [OF T _ refl, of ev] assms(4) by (simp add: ibs_record_def st)
  qed
qed

lemma edges_of_append: "edges_of (xs @ ys) = edges_of xs @ edges_of ys"
  by (simp add: edges_of_def map_filter_def)

lemma room_mono: "eh.agg_room seed n \<Longrightarrow> m \<le> n \<Longrightarrow> eh.agg_room seed m"
  unfolding eh.agg_room_def by (meson add_le_mono le_refl le_trans mult_le_mono)

lemma records_tallied:
  assumes "tallied seed (filter (keeps fp) past) st" "3 \<le> seed" "eh.agg_room seed (length (edges_of (filter (keeps fp) (past @ evs))))" "list_all (event_ok cc) evs"
  shows "tallied seed (filter (keeps fp) (past @ evs)) (foldl (\<lambda>s r. ibs_record cc fp (rc_type r) (rec_bytes r) s) st (map (event_rec cc) evs))"
  using assms
proof (induction evs arbitrary: past st)
  case (Cons ev evs)
  have r: "eh.agg_room seed (length (edges_of (filter (keeps fp) past)))"
    by (rule room_mono [OF Cons.prems(3)]) (simp add: edges_of_append)
  have "tallied seed (filter (keeps fp) (past @ [ev])) (ibs_record cc fp (rc_type (event_rec cc ev)) (rec_bytes (event_rec cc ev)) st)"
    using record_tallied [OF Cons.prems(1,2) r] Cons.prems(4) by simp
  from Cons.IH [OF this Cons.prems(2)] Cons.prems(3,4) show ?case by simp
qed simp

abbreviation event_bytes :: "bool \<Rightarrow> ibs_event list \<Rightarrow> u8 list" where
  "event_bytes cc evs \<equiv> concat (map rec_bytes (map (event_rec cc) evs))"

lemma holds_drained: "ring_holds r bs \<Longrightarrow> ring_holds (r\<lparr>pr_tail := pr_tail r + of_nat (length bs)\<rparr>) []"
  by (auto simp: ring_holds_def algebra_simps)

lemma drain_tallied:
  assumes "tallied seed (filter (keeps fp) past) st" "3 \<le> seed" "eh.agg_room seed (length (edges_of (filter (keeps fp) (past @ evs))))" "list_all (event_ok cc) evs"
    "ring_holds r (event_bytes cc evs)" "ibs_drain cc fp r st = (r', st')"
  shows "tallied seed (filter (keeps fp) (past @ evs)) st' \<and> ring_holds r' [] \<and> pr_size r' = pr_size r"
proof -
  obtain sv t h where st: "st = (sv, t, h)" by (cases st)
  show ?thesis
  proof (cases "evs = []")
    case True
    then show ?thesis using assms(1,5,6) holds_span [OF assms(5)] by (simp add: ibs_drain_def st)
  next
    case False
    have ne: "ring_span r \<noteq> 0" using False unfolding holds_span [OF assms(5)] by (cases evs) simp_all
    define sv1 where "sv1 = (if ring_span r + ibs_max_record cc > pr_size r then sv\<lparr>sv_throttled := True\<rparr> else sv)"
    have t1: "tallied seed (filter (keeps fp) past) (sv1, t, h)" using assms(1) by (simp add: tallied_def st sv1_def)
    have ok: "list_all rec_ok (map (event_rec cc) evs)" using assms(4) event_rec_ok by (auto simp: list_all_iff)
    have "ibs_drain cc fp r st = (r\<lparr>pr_tail := pr_tail r + of_nat (ring_span r)\<rparr>, perf_walk (ibs_record cc fp) (ring_copy r (ring_span r)) 0 (sv1, t, h))"
      using ne by (simp add: ibs_drain_def st Let_def sv1_def)
    then have eq: "r' = r\<lparr>pr_tail := pr_tail r + of_nat (length (event_bytes cc evs))\<rparr>"
      "st' = foldl (\<lambda>s r. ibs_record cc fp (rc_type r) (rec_bytes r) s) (sv1, t, h) (map (event_rec cc) evs)"
      using assms(6) unfolding holds_copy [OF assms(5)] walk_records [OF ok] by (simp_all add: holds_span [OF assms(5)])
    show ?thesis using records_tallied [OF t1 assms(2-4)] holds_drained [OF assms(5)] unfolding eq by simp
  qed
qed

lemma keeps_0 [simp]: "keeps 0 ev"
  by (cases ev) simp_all

lemma filter_keeps_0: "filter (keeps 0) evs = evs"
  by simp

lemmas drain_all = drain_tallied [where fp = 0, unfolded filter_keeps_0]

lemma survey_tallied:
  assumes "tallied seed past st" "3 \<le> seed" "ring_holds r (event_bytes cc pend)" "list_all2 kernel_put mvs (map (map (event_rec cc)) evss)"
    "eh.agg_room seed (length (edges_of (past @ pend @ concat evss)))"
    "\<forall>evs\<in>set (pend # evss). list_all (event_ok cc) evs \<and> length (event_bytes cc evs) \<le> pr_size r"
    "survey_loop cc mvs r st = (r1, st1)" "ibs_drain cc 0 r1 st1 = (r2, st2)"
  shows "tallied seed (past @ pend @ concat evss) st2"
  using assms
proof (induction mvs arbitrary: past st r pend evss)
  case Nil
  then show ?case using drain_all [of seed past st pend cc r r2 st2] by simp
next
  case (Cons mv mvs)
  then obtain evs evss' where E: "evss = evs # evss'" "kernel_put mv (map (event_rec cc) evs)" "list_all2 kernel_put mvs (map (map (event_rec cc)) evss')"
    by (cases evss) auto
  obtain rd sd where d: "ibs_drain cc 0 r st = (rd, sd)" by (metis prod.exhaust)
  have rm: "eh.agg_room seed (length (edges_of (past @ pend)))" by (rule room_mono [OF Cons.prems(5)]) (simp add: edges_of_append E(1))
  have D: "tallied seed (past @ pend) sd" "ring_holds rd []" "pr_size rd = pr_size r"
    using drain_all [OF Cons.prems(1,2) rm _ Cons.prems(3) d] Cons.prems(6) by simp_all
  have K: "ring_holds (mv rd) (event_bytes cc evs)" "pr_size (mv rd) = pr_size r"
    using E(2) D(2,3) Cons.prems(6) E(1) by (auto simp: kernel_put_def)
  have "tallied seed ((past @ pend) @ evs @ concat evss') st2"
  proof (rule Cons.IH [OF D(1) Cons.prems(2) K(1) E(3) _ _ _ Cons.prems(8)])
    show "eh.agg_room seed (length (edges_of ((past @ pend) @ evs @ concat evss')))" using Cons.prems(5) by (simp add: E(1))
    show "\<forall>x\<in>set (evs # evss'). list_all (event_ok cc) x \<and> length (event_bytes cc x) \<le> pr_size (mv rd)"
      using Cons.prems(6) K(2) E(1) by simp
    show "survey_loop cc mvs (mv rd) sd = (r1, st1)" using Cons.prems(7) d by simp
  qed
  then show ?case by (simp add: E(1))
qed

section \<open>The exported survey\<close>

abbreviation ie_key :: "ibs_edge \<Rightarrow> u64 \<times> u64" where
  "ie_key e \<equiv> (ie_from e, ie_to e)"

text \<open>The sampled edges with a given source and target, as one.\<close>

definition edge_total :: "u64 \<times> u64 \<Rightarrow> ibs_edge list \<Rightarrow> ibs_edge" where
  "edge_total k es = \<lparr>ie_from = fst k, ie_to = snd k, ie_count = of_nat (length es), ie_taken = 1,
     ie_mispred = sum_list (map ie_mispred es), ie_is_return = sum_list (map ie_is_return es)\<rparr>"

definition survey_edges :: "ibs_edge list \<Rightarrow> ibs_edge set" where
  "survey_edges es = (\<lambda>k. edge_total k (filter (\<lambda>e. ie_key e = k) es)) ` (ie_key ` set es)"

lemma edge_slot_key [simp]: "es_key (edge_slot e) = ie_key e"
  by (simp add: es_key_def edge_slot_def)

lemma merge_total:
  "(\<And>e. e \<in> set es \<Longrightarrow> ie_key e = k) \<Longrightarrow>
   map_option slot_edge (foldl eh.merge None (map edge_slot es)) = (if es = [] then None else Some (edge_total k es)) \<and>
   (\<forall>s. foldl eh.merge None (map edge_slot es) = Some s \<longrightarrow> es_key s = k)"
proof (induction es rule: rev_induct)
  case (snoc e es)
  have k: "ie_key e = k" using snoc.prems by simp
  from snoc have IH: "map_option slot_edge (foldl eh.merge None (map edge_slot es)) = (if es = [] then None else Some (edge_total k es))"
    "\<forall>s. foldl eh.merge None (map edge_slot es) = Some s \<longrightarrow> es_key s = k" by simp_all
  show ?case
  proof (cases "foldl eh.merge None (map edge_slot es)")
    case None
    then have "es = []" using IH(1) by (cases "es = []") simp_all
    then have "foldl eh.merge None (map edge_slot (es @ [e])) = Some (edge_slot e)" by (simp add: eh.merge_def)
    then show ?thesis using k \<open>es = []\<close> by (auto simp: slot_edge_def edge_slot_def edge_total_def es_key_def)
  next
    case (Some s)
    then have "es \<noteq> []" by auto
    with IH(1) Some have "slot_edge s = edge_total k es" by simp
    moreover have m: "foldl eh.merge None (map edge_slot (es @ [e])) = Some (es_bump s (edge_slot e))" using Some by (simp add: eh.merge_def)
    ultimately show ?thesis unfolding m using Some IH(2) by (auto simp: slot_edge_def edge_slot_def edge_total_def es_key_def es_bump_def)
  qed
qed simp

lemma if_None: "(if b then None else Some a) = Some x \<longleftrightarrow> \<not> b \<and> a = x"
  by simp

lemma tallied_entries:
  assumes "tallied seed evs (sv, t, h)"
  shows "slot_edge ` set (oa_ents (eh_slots t)) = survey_edges (edges_of evs)" "eh_n t = oa_used (eh_slots t)"
    "distinct (map (ie_key \<circ> slot_edge) (oa_ents (eh_slots t)))"
proof -
  let ?hits = "\<lambda>k. filter (\<lambda>e. ie_key e = k) (edges_of evs)"
  have inv: "eh.agg_inv seed (eh_slots t, eh_n t)" using assms by (simp add: tallied_def eh_pair_def)
  have g: "eh.tget (eh_slots t) k = foldl eh.merge None (map edge_slot (?hits k))" for k
    using assms by (cases k) (simp add: tallied_def filter_map comp_def)
  have G: "map_option slot_edge (eh.tget (eh_slots t) k) = (if ?hits k = [] then None else Some (edge_total k (?hits k)))"
    "eh.tget (eh_slots t) k = Some s \<Longrightarrow> es_key s = k" for k s
    unfolding g using merge_total [of "?hits k" k] by auto
  show "eh_n t = oa_used (eh_slots t)" using inv by (simp add: eh.agg_inv_def)
  show "distinct (map (ie_key \<circ> slot_edge) (oa_ents (eh_slots t)))"
    using eh.ents_distinct [OF inv] by (simp add: comp_def es_key_def [abs_def] slot_edge_def)
  have "x \<in> slot_edge ` set (oa_ents (eh_slots t)) \<longleftrightarrow> (\<exists>k. map_option slot_edge (eh.tget (eh_slots t) k) = Some x)" for x
    using eh.ents_tget [OF inv] G(2) by (auto simp del: set_oa_ents split_paired_All split_paired_Ex)
  then have A: "x \<in> slot_edge ` set (oa_ents (eh_slots t)) \<longleftrightarrow> (\<exists>k. ?hits k \<noteq> [] \<and> edge_total k (?hits k) = x)" for x
    unfolding G(1) if_None by blast
  have B: "?hits k \<noteq> [] \<longleftrightarrow> k \<in> ie_key ` set (edges_of evs)" for k by (auto simp: filter_empty_conv)
  show "slot_edge ` set (oa_ents (eh_slots t)) = survey_edges (edges_of evs)"
    unfolding survey_edges_def set_eq_iff A B by blast
qed

lemma export_exact:
  assumes "tallied seed evs (sv, t, [])" "is_qsort eh_key qs"
  shows "\<exists>es. eh_export qs False [] t = (Some es, []) \<and> set es = survey_edges (edges_of evs) \<and> distinct (map ie_key es) \<and> sorted (map eh_key es)"
proof -
  note t = tallied_entries [OF assms(1)]
  show ?thesis
  proof (cases "eh_n t = 0")
    case True
    then have "oa_ents (eh_slots t) = []" using t(2) by simp
    then show ?thesis using True t(1) by (simp add: eh_export_def)
  next
    case False
    define es where "es = map slot_edge (oa_ents (eh_slots t))"
    have q: "mset (qs es) = mset es" "sorted (map eh_key (qs es))" using assms(2) by (auto simp: is_qsort_def)
    have "set (qs es) = set es" using q(1) by (rule mset_eq_setD)
    moreover have "distinct (map ie_key (qs es))"
      using q(1) t(3) by (metis (mono_tags, lifting) es_def map_map mset_eq_imp_distinct_iff mset_map)
    ultimately show ?thesis using False t q(2) by (simp add: eh_export_def es_def)
  qed
qed

text \<open>
  C30: With memory available, a survey counts every sample. Whatever the kernel writes to the ring between the drains, in whole records that fit, wherever they wrap, and with no allocation failing, the survey
  returns one edge per sampled source and target, with as many samples as were drawn of it, of them the mispredicted and the returns, sorted by descending
  count; the totals are those of the records, and a throttling record is never forgotten. The condition matters: when the table cannot grow the sample is dropped, the survey still answers \<open>OK\<close> and nothing in it tells of the loss,
  while a later sample may be counted again (\<open>dropped_sample_not_last\<close>).
\<close>

theorem ibs_survey_exact:
  assumes "is_qsort eh_key qs" and "ring_holds r []" and "list_all2 kernel_put mvs (map (map (event_rec cc)) evss)"
    and "\<forall>evs\<in>set evss. list_all (event_ok cc) evs \<and> length (event_bytes cc evs) \<le> pr_size r"
    and "length (edges_of (concat evss)) \<le> 2 ^ 50"
  shows "\<exists>sv. asmtest_ibs_survey_pid qs False cc mvs r [] = (IBS_OK, sv) \<and>
     set (sv_edges sv) = survey_edges (edges_of (concat evss)) \<and> distinct (map ie_key (sv_edges sv)) \<and> sorted (map eh_key (sv_edges sv)) \<and>
     sv_samples sv = of_nat (length (filter is_sample (concat evss))) \<and> sv_branch_samples sv = of_nat (length (edges_of (concat evss))) \<and>
     sv_lost sv = of_nat (sum_list (map event_lost (concat evss))) \<and> (list_ex is_throttle (concat evss) \<longrightarrow> sv_throttled sv)"
proof -
  define t0 :: edge_hash where "t0 = \<lparr>eh_slots = replicate 1024 None, eh_n = 0\<rparr>"
  have r0: "(replicate 1024 None :: eh_slot option list) = replicate (2 ^ 10) None" by simp
  have i0: "eh.agg_inv 1024 (replicate (2 ^ 10) None, 0)" "eh.tget (replicate (2 ^ 10) None) q = None" for q
    using eh.agg_inv_empty [of 10] by (simp_all add: eh_sizeof_def SIZE_MAX_def)
  have T0: "tallied 1024 [] (zero_survey, t0, [])"
    unfolding tallied_def t0_def r0 using i0 by (simp add: eh_pair_def edges_of_def zero_survey_def)
  have room: "eh.agg_room 1024 (length (edges_of ([] @ [] @ concat evss)))"
    using assms(5) unfolding eh.agg_room_def by (simp add: eh_sizeof_def SIZE_MAX_def)
  obtain r1 st1 where l: "survey_loop cc mvs r (zero_survey, t0, []) = (r1, st1)" by (metis prod.exhaust)
  obtain r2 sv t h where d: "ibs_drain cc 0 r1 st1 = (r2, sv, t, h)" by (metis prod.exhaust)
  have T: "tallied 1024 (concat evss) (sv, t, h)"
    using survey_tallied [OF T0 _ _ assms(3) room _ l d] assms(2,4) by simp
  then have h: "h = []" by (simp add: tallied_def)
  obtain es where e: "eh_export qs False [] t = (Some es, [])" "set es = survey_edges (edges_of (concat evss))" "distinct (map ie_key es)" "sorted (map eh_key es)"
    using export_exact [OF T [unfolded h] assms(1)] by blast
  have "asmtest_ibs_survey_pid qs False cc mvs r [] = (IBS_OK, sv\<lparr>sv_edges := es\<rparr>)"
    using l d e(1) h by (simp add: asmtest_ibs_survey_pid_def eh_init_def t0_def)
  then show ?thesis using e T by (auto simp: tallied_def)
qed

section \<open>Records of the hardware\<close>

text \<open>A raw record: the capability word and the registers.\<close>

definition ibs_raw :: "nat \<Rightarrow> nat list \<Rightarrow> u8 list" where
  "ibs_raw caps regs = le 4 caps @ concat (map (le 8) regs)"

lemma length_ibs_raw: "length (ibs_raw caps regs) = 4 + 8 * length regs"
  by (simp add: ibs_raw_def length_chain)

lemma ibs_raw_caps: "caps < 2 ^ 32 \<Longrightarrow> ld 4 (ibs_raw caps regs) 0 = caps"
  unfolding ibs_raw_def by (rule ld_le_0) simp

lemma ibs_raw_reg:
  assumes "k < length regs" "regs ! k < 2 ^ 64"
  shows "ld 8 (ibs_raw caps regs) (IBS_RAW_REG_OFF k) = regs ! k"
proof -
  have "regs = take k regs @ regs ! k # drop (Suc k) regs" using assms(1) by (rule id_take_nth_drop)
  then have e: "ibs_raw caps regs = (le 4 caps @ concat (map (le 8) (take k regs))) @ le 8 (regs ! k) @ concat (map (le 8) (drop (Suc k) regs))"
    unfolding ibs_raw_def by (metis (no_types, lifting) append.assoc concat.simps(2) concat_append list.simps(9) map_append)
  show ?thesis unfolding e by (rule ld_le) (use assms in \<open>simp_all add: length_chain IBS_RAW_REG_OFF_def\<close>)
qed

text \<open>
  Of a record with a branch target, the decoder reports an edge exactly when a branch retired, was taken and its address is valid; a record without
  one, or cut off before it, is refused.
\<close>

lemma decode_op_exact:
  assumes "caps < 2 ^ 32" "\<forall>x\<in>set regs. x < 2 ^ 64"
  shows "asmtest_ibs_decode_op (ibs_raw caps regs) =
     (if length regs < 8 \<or> \<not> bit caps 5 then (IBS_EDECODE, zero_edge)
      else if bit (regs ! 2) 37 \<and> bit (regs ! 2) 35 \<and> \<not> (bit caps 7 \<and> bit (regs ! 2) 38)
      then (IBS_OK, \<lparr>ie_from = of_nat (regs ! 1), ie_to = of_nat (regs ! 7), ie_count = 1, ie_taken = 1,
                     ie_mispred = of_bool (bit (regs ! 2) 36), ie_is_return = of_bool (bit (regs ! 2) 34)\<rparr>)
      else (IBS_NOEDGE, zero_edge))"
proof (cases "length regs < 8")
  case False
  have r: "ld_u64 (ibs_raw caps regs) (IBS_RAW_REG_OFF k) = of_nat (regs ! k)" if "k < 8" for k
    using ibs_raw_reg [of k regs caps] assms(2) False that by (simp add: ld_u64_def)
  have c: "ld_u32 (ibs_raw caps regs) 0 = of_nat caps" using ibs_raw_caps [OF assms(1)] by (simp add: ld_u32_def)
  have b: "bit (of_nat n :: u64) i \<longleftrightarrow> bit n i" if "i < 64" for n i using that by (simp add: bit_of_nat_iff)
  have b4: "bit (of_nat n :: u32) i \<longleftrightarrow> bit n i" if "i < 32" for n i using that by (simp add: bit_of_nat_iff)
  show ?thesis using False by (simp add: asmtest_ibs_decode_op_def length_ibs_raw c r b b4 Let_def)
qed (simp add: asmtest_ibs_decode_op_def length_ibs_raw)

section \<open>A survey\<close>

text \<open>
  Three samples of two threads, one of a branch that was not taken, and three lost records, in a ring of 512 bytes whose head is about to wrap.
\<close>

definition demo_sample :: "nat \<Rightarrow> nat \<Rightarrow> nat \<Rightarrow> ibs_event" where
  "demo_sample src data dst = Ev_sample \<lparr>sm_ip = src, sm_pid = 7, sm_tid = 8, sm_chain = [], sm_raw = ibs_raw 0xFF [0, src, data, 0, 0, 0, 0, dst], sm_pad = replicate 4 0\<rparr>"

definition demo_events :: "ibs_event list" where
  "demo_events = [demo_sample 0x400 (2 ^ 37 + 2 ^ 35) 0x500, demo_sample 0x410 (2 ^ 37) 0x600, Ev_lost 1 3, demo_sample 0x400 (2 ^ 37 + 2 ^ 36 + 2 ^ 35) 0x500]"

definition demo_ring :: perf_ring where
  "demo_ring = \<lparr>pr_data = replicate 512 0, pr_head = - 16, pr_tail = - 16\<rparr>"

lemma demo_edges:
  "edges_of demo_events = [\<lparr>ie_from = 0x400, ie_to = 0x500, ie_count = 1, ie_taken = 1, ie_mispred = 0, ie_is_return = 0\<rparr>,
     \<lparr>ie_from = 0x400, ie_to = 0x500, ie_count = 1, ie_taken = 1, ie_mispred = 1, ie_is_return = 0\<rparr>]"
  by (simp add: edges_of_def demo_events_def demo_sample_def map_filter_def decode_op_exact bit_nat_def IBS_OK_def IBS_NOEDGE_def)

theorem ibs_survey_exact_witness:
  "\<exists>sv. asmtest_ibs_survey_pid (sort_key eh_key) False False [put_bytes (event_bytes False demo_events)] demo_ring [] = (IBS_OK, sv) \<and>
     set (sv_edges sv) = {\<lparr>ie_from = 0x400, ie_to = 0x500, ie_count = 2, ie_taken = 1, ie_mispred = 1, ie_is_return = 0\<rparr>} \<and> sv_samples sv = 3 \<and> sv_lost sv = 3"
proof -
  have q: "is_qsort eh_key (sort_key eh_key)" by (rule is_qsort_sort_key)
  have h: "ring_holds demo_ring []" by (simp add: ring_holds_def demo_ring_def)
  have k: "list_all2 kernel_put [put_bytes (event_bytes False demo_events)] (map (map (event_rec False)) [demo_events])"
    using put_bytes_kernel [of "map (event_rec False) demo_events"] by simp
  have f: "\<forall>evs\<in>set [demo_events]. list_all (event_ok False) evs \<and> length (event_bytes False evs) \<le> pr_size demo_ring"
    by (simp add: demo_events_def demo_sample_def demo_ring_def sample_body_def length_ibs_raw)
  have c: "length (edges_of (concat [demo_events])) \<le> 2 ^ 50" by (simp add: demo_edges)
  have e: "survey_edges (edges_of (concat [demo_events])) = {\<lparr>ie_from = 0x400, ie_to = 0x500, ie_count = 2, ie_taken = 1, ie_mispred = 1, ie_is_return = 0\<rparr>}"
    by (simp add: demo_edges survey_edges_def edge_total_def)
  have n: "length (filter is_sample (concat [demo_events])) = 3" "sum_list (map event_lost (concat [demo_events])) = 3"
    by (simp_all add: demo_events_def demo_sample_def)
  show ?thesis using ibs_survey_exact [OF q h k f c] unfolding e n by auto
qed

end
