(* ===== verification/Ibs_Lanes.thy ===== *)
theory Ibs_Lanes
  imports Ibs
begin

text \<open>
  The rest of \<^verbatim>\<open>src/src/ibs_backend.c\<close>: the block set of a survey, the fetch and software-clock lanes, and the sampling period. The lanes share the ring walk and
  the aggregating table of the edge survey.
\<close>

section \<open>The block set of a survey\<close>

record ibs_block =
  ib_start :: u64
  ib_entries :: u64

definition in_blocks :: "u64 \<Rightarrow> u64 \<Rightarrow> ibs_edge \<Rightarrow> bool" where
  "in_blocks base len e \<longleftrightarrow> \<not> (len \<noteq> 0 \<and> (ie_to e < base \<or> ie_to e - base \<ge> len))"

definition block_of :: "u64 \<Rightarrow> u64 \<Rightarrow> ibs_edge \<Rightarrow> ibs_block" where
  "block_of base len e = \<lparr>ib_start = (if len \<noteq> 0 then ie_to e - base else ie_to e), ib_entries = ie_count e\<rparr>"

fun merge_blocks :: "ibs_block list \<Rightarrow> ibs_block list \<Rightarrow> ibs_block list" where
  "merge_blocks out [] = out"
| "merge_blocks out (b # bs) =
     (if out \<noteq> [] \<and> ib_start (last out) = ib_start b
      then merge_blocks (butlast out @ [(last out)\<lparr>ib_entries := ib_entries (last out) + ib_entries b\<rparr>]) bs
      else merge_blocks (out @ [b]) bs)"

definition asmtest_ibs_normalize_blocks ::
  "(ibs_block list \<Rightarrow> ibs_block list) \<Rightarrow> ibs_edge list \<Rightarrow> u64 \<Rightarrow> u64 \<Rightarrow> heap \<Rightarrow> (int \<times> ibs_block list) \<times> heap" where
  "asmtest_ibs_normalize_blocks qsort edges base len h =
     (if edges = [] then ((IBS_OK, []), h)
      else case alloc h of (ok, h') \<Rightarrow>
        (if \<not> ok then (IBS_EUNAVAIL, [])
         else let arr = map (block_of base len) (filter (in_blocks base len) edges) in
           if arr = [] then (IBS_OK, []) else (IBS_OK, merge_blocks [] (qsort arr)), h'))"

text \<open>The entries of the blocks that start at an offset.\<close>

definition entries_at :: "ibs_block list \<Rightarrow> u64 \<Rightarrow> u64" where
  "entries_at bs a = sum_list (map ib_entries (filter (\<lambda>b. ib_start b = a) bs))"

lemma entries_at_simps [simp]:
  "entries_at [] a = 0" "entries_at (xs @ ys) a = entries_at xs a + entries_at ys a"
  "entries_at (b # bs) a = (if ib_start b = a then ib_entries b else 0) + entries_at bs a"
  by (simp_all add: entries_at_def)

lemma entries_at_notin: "a \<notin> ib_start ` set bs \<Longrightarrow> entries_at bs a = 0"
  by (induction bs) auto

lemma entries_at_single: "distinct (map ib_start bs) \<Longrightarrow> b \<in> set bs \<Longrightarrow> entries_at bs (ib_start b) = ib_entries b"
  by (induction bs) (auto simp: entries_at_notin)

lemma merge_blocks_spec:
  assumes "sorted (map ib_start bs)" "sorted_wrt (<) (map ib_start out)" "out \<noteq> [] \<Longrightarrow> list_all (\<lambda>b. ib_start (last out) \<le> ib_start b) bs"
  shows "sorted_wrt (<) (map ib_start (merge_blocks out bs)) \<and> ib_start ` set (merge_blocks out bs) = ib_start ` set (out @ bs) \<and>
     entries_at (merge_blocks out bs) = entries_at (out @ bs)"
  using assms
proof (induction bs arbitrary: out)
  case (Cons b bs)
  show ?case
  proof (cases out rule: rev_cases)
    case Nil
    then show ?thesis using Cons.IH [of "[b]"] Cons.prems(1) by (auto simp: list_all_iff fun_eq_iff)
  next
    case (snoc pre x)
    show ?thesis
    proof (cases "ib_start x = ib_start b")
      case True
      define l where "l = x\<lparr>ib_entries := ib_entries x + ib_entries b\<rparr>"
      have ls: "ib_start l = ib_start b" "ib_entries l = ib_entries x + ib_entries b" using True by (simp_all add: l_def)
      have "sorted_wrt (<) (map ib_start (merge_blocks (pre @ [l]) bs)) \<and> ib_start ` set (merge_blocks (pre @ [l]) bs) = ib_start ` set ((pre @ [l]) @ bs) \<and>
          entries_at (merge_blocks (pre @ [l]) bs) = entries_at ((pre @ [l]) @ bs)"
        using Cons.prems snoc True ls by (intro Cons.IH) (auto simp: list_all_iff sorted_wrt_append)
      then show ?thesis using True snoc ls by (auto simp: l_def [symmetric] fun_eq_iff)
    next
      case False
      moreover have "ib_start x \<le> ib_start b" using Cons.prems(3) snoc by simp
      ultimately have "ib_start x < ib_start b" by (rule le_neq_trans [rotated])
      then have "sorted_wrt (<) (map ib_start (out @ [b]))" using Cons.prems(2) snoc by (auto simp: sorted_wrt_append)
      then have "sorted_wrt (<) (map ib_start (merge_blocks (out @ [b]) bs)) \<and> ib_start ` set (merge_blocks (out @ [b]) bs) = ib_start ` set ((out @ [b]) @ bs) \<and>
          entries_at (merge_blocks (out @ [b]) bs) = entries_at ((out @ [b]) @ bs)"
        using Cons.prems(1) by (intro Cons.IH) (auto simp: list_all_iff)
      then show ?thesis using False snoc by (auto simp: fun_eq_iff)
    qed
  qed
qed simp

lemma entries_at_mset: "mset xs = mset ys \<Longrightarrow> entries_at xs a = entries_at ys a"
  unfolding entries_at_def sum_mset_sum_list [symmetric] mset_map mset_filter by simp

lemma blocks_determined:
  assumes "sorted_wrt (<) (map ib_start bs)"
  shows "bs = map (\<lambda>a. \<lparr>ib_start = a, ib_entries = entries_at bs a\<rparr>) (sorted_list_of_set (ib_start ` set bs))"
proof -
  have d: "distinct (map ib_start bs)" "sorted (map ib_start bs)" using assms strict_sorted_iff by auto
  then have "sorted_list_of_set (ib_start ` set bs) = map ib_start bs"
    by (metis set_map sorted_list_of_set.idem_if_sorted_distinct)
  then show ?thesis using entries_at_single [OF d(1)] by (auto simp: comp_def intro!: nth_equalityI)
qed

text \<open>
  The block set of a list of edges. The blocks are the distinct targets inside the region, ascending, as offsets from its base (every target, as an address, when
  there is no region), each with the sum of the samples of the edges that lead to it.
\<close>

lemma normalize_blocks_exact:
  assumes "is_qsort ib_start qs"
  shows "asmtest_ibs_normalize_blocks qs edges base len [] =
     ((IBS_OK, map (\<lambda>a. \<lparr>ib_start = a, ib_entries = sum_list (map ie_count (filter (\<lambda>e. in_blocks base len e \<and> ib_start (block_of base len e) = a) edges))\<rparr>)
          (sorted_list_of_set ((ib_start \<circ> block_of base len) ` set (filter (in_blocks base len) edges)))), [])"
proof -
  let ?arr = "map (block_of base len) (filter (in_blocks base len) edges)"
  have q: "mset (qs ?arr) = mset ?arr" "sorted (map ib_start (qs ?arr))" using assms by (auto simp: is_qsort_def)
  define bs where "bs = merge_blocks [] (qs ?arr)"
  have m: "sorted_wrt (<) (map ib_start bs)" "ib_start ` set bs = ib_start ` set ?arr" "entries_at bs a = entries_at ?arr a" for a
    using merge_blocks_spec [OF q(2), of "[]"] mset_eq_setD [OF q(1)] entries_at_mset [OF q(1)] unfolding bs_def by auto
  have e: "entries_at ?arr a = sum_list (map ie_count (filter (\<lambda>e. in_blocks base len e \<and> ib_start (block_of base len e) = a) edges))" for a
    by (induction edges) (auto simp: block_of_def)
  have im: "ib_start ` set ?arr = (ib_start \<circ> block_of base len) ` set (filter (in_blocks base len) edges)" by (simp add: image_comp)
  have "bs = map (\<lambda>a. \<lparr>ib_start = a, ib_entries = entries_at ?arr a\<rparr>) (sorted_list_of_set (ib_start ` set ?arr))"
    using blocks_determined [OF m(1)] unfolding m(2,3) .
  moreover have "asmtest_ibs_normalize_blocks qs edges base len [] = ((IBS_OK, bs), [])"
  proof (cases "?arr = []")
    case True
    then have "qs ?arr = []" using q(1) by simp
    with True show ?thesis by (auto simp: asmtest_ibs_normalize_blocks_def bs_def Let_def)
  next
    case False
    then show ?thesis by (auto simp: asmtest_ibs_normalize_blocks_def bs_def Let_def)
  qed
  ultimately show ?thesis unfolding e im by simp
qed

text \<open>Over the edges of a survey the sums are numbers of samples.\<close>

lemma sum_length_filter: "finite K \<Longrightarrow> (\<Sum>k\<in>K. length (filter (\<lambda>e. f e = k) es)) = length (filter (\<lambda>e. f e \<in> K) es)"
proof (induction es)
  case (Cons e es)
  have "(\<Sum>k\<in>K. length (filter (\<lambda>e. f e = k) (e # es))) = (\<Sum>k\<in>K. (if f e = k then 1 else 0) + length (filter (\<lambda>e. f e = k) es))"
    by (rule sum.cong) auto
  also have "\<dots> = (if f e \<in> K then 1 else 0) + length (filter (\<lambda>e. f e \<in> K) es)"
    using Cons by (simp add: sum.distrib)
  finally show ?case by simp
qed simp

lemma survey_samples:
  assumes "set es' = survey_edges es" "distinct (map ie_key es')"
  shows "sum_list (map ie_count (filter (\<lambda>e. P (ie_to e)) es')) = of_nat (length (filter (\<lambda>e. P (ie_to e)) es))"
proof -
  define K where "K = {k \<in> ie_key ` set es. P (snd k)}"
  define tot where "tot = (\<lambda>k. edge_total k (filter (\<lambda>e. ie_key e = k) es))"
  have to: "ie_to (tot k) = snd k" "ie_count (tot k) = of_nat (length (filter (\<lambda>e. ie_key e = k) es))" "ie_key (tot k) = k" for k
    by (simp_all add: tot_def edge_total_def)
  have fin: "finite K" by (simp add: K_def)
  have d: "distinct (filter (\<lambda>e. P (ie_to e)) es')" using assms(2) distinct_map by (intro distinct_filter) blast
  have S: "set (filter (\<lambda>e. P (ie_to e)) es') = tot ` K"
    unfolding set_filter assms(1) survey_edges_def K_def tot_def [symmetric] by (auto simp: to)
  have inj: "inj_on tot K" by (rule inj_onI) (metis to(3))
  have "sum_list (map ie_count (filter (\<lambda>e. P (ie_to e)) es')) = sum ie_count (tot ` K)"
    unfolding S [symmetric] by (rule sum_list_distinct_conv_sum_set [OF d])
  also have "\<dots> = (\<Sum>k\<in>K. of_nat (length (filter (\<lambda>e. ie_key e = k) es)))"
    by (subst sum.reindex [OF inj]) (simp add: to comp_def)
  also have "\<dots> = of_nat (length (filter (\<lambda>e. ie_key e \<in> K) es))" by (simp flip: of_nat_sum add: sum_length_filter [OF fin])
  also have "filter (\<lambda>e. ie_key e \<in> K) es = filter (\<lambda>e. P (ie_to e)) es" by (rule filter_cong) (auto simp: K_def)
  finally show ?thesis .
qed

definition target_at :: "u64 \<Rightarrow> u64 \<Rightarrow> u64 \<Rightarrow> u64 \<Rightarrow> bool" where
  "target_at base len a to \<longleftrightarrow> (if len = 0 then to = a else base \<le> to \<and> to - base < len \<and> to - base = a)"

lemma target_at_block: "in_blocks base len e \<and> ib_start (block_of base len e) = a \<longleftrightarrow> target_at base len a (ie_to e)"
  by (auto simp: in_blocks_def block_of_def target_at_def not_less not_le)

text \<open>
  The hot blocks of a survey. Normalizing the edges of a survey of samples \<open>es\<close> against a region gives its distinct in-region targets in ascending
  order, as offsets from its base, each with the number of samples that landed on it.
\<close>

theorem ibs_hot_blocks:
  assumes "is_qsort ib_start qs" and "set edges = survey_edges es" and "distinct (map ie_key edges)"
  shows "asmtest_ibs_normalize_blocks qs edges base len [] =
     ((IBS_OK, map (\<lambda>a. \<lparr>ib_start = a, ib_entries = of_nat (length (filter (\<lambda>e. target_at base len a (ie_to e)) es))\<rparr>)
          (sorted_list_of_set {a. \<exists>e\<in>set es. target_at base len a (ie_to e)})), [])"
proof -
  have tos: "ie_to ` set edges = ie_to ` set es"
    unfolding assms(2) survey_edges_def by (auto simp: image_image edge_total_def)
  have "(ib_start \<circ> block_of base len) ` set (filter (in_blocks base len) edges) = {a. \<exists>e\<in>set edges. target_at base len a (ie_to e)}"
    using target_at_block [of base len] by (auto simp: image_iff) metis
  also have "\<dots> = {a. \<exists>e\<in>set es. target_at base len a (ie_to e)}" using tos by (auto simp: image_iff set_eq_iff) metis+
  finally have S: "(ib_start \<circ> block_of base len) ` set (filter (in_blocks base len) edges) = {a. \<exists>e\<in>set es. target_at base len a (ie_to e)}" .
  show ?thesis
    unfolding normalize_blocks_exact [OF assms(1)] target_at_block S survey_samples [OF assms(2,3)] ..
qed

definition demo_edge :: "u64 \<Rightarrow> u64 \<Rightarrow> u64 \<Rightarrow> ibs_edge" where
  "demo_edge f d n = \<lparr>ie_from = f, ie_to = d, ie_count = n, ie_taken = 1, ie_mispred = 0, ie_is_return = 0\<rparr>"

theorem ibs_hot_blocks_witness:
  "asmtest_ibs_normalize_blocks (sort_key ib_start) [demo_edge 0x410 0x408 2, demo_edge 0x430 0x408 1, demo_edge 0x404 0x900 1] 0x400 0x100 [] =
     ((IBS_OK, [\<lparr>ib_start = 8, ib_entries = 3\<rparr>]), [])"
proof -
  let ?es = "[demo_edge 0x410 0x408 1, demo_edge 0x404 0x900 1, demo_edge 0x430 0x408 1, demo_edge 0x410 0x408 1]"
  let ?edges = "[demo_edge 0x410 0x408 2, demo_edge 0x430 0x408 1, demo_edge 0x404 0x900 1]"
  have s: "set ?edges = survey_edges ?es" by (simp add: survey_edges_def edge_total_def demo_edge_def insert_commute)
  have d: "distinct (map ie_key ?edges)" by (simp add: demo_edge_def)
  have "{a. \<exists>e\<in>set ?es. target_at 0x400 0x100 a (ie_to e)} = {8}" by (auto simp: target_at_def demo_edge_def)
  then show ?thesis using ibs_hot_blocks [OF is_qsort_sort_key s d, of "0x400" "0x100"] by (simp add: target_at_def demo_edge_def)
qed

section \<open>The fetch lane\<close>

record fh_slot =
  fh_addr :: u64
  fh_count :: u64
  fh_icache_miss :: u64
  fh_itlb_miss :: u64
  fh_latency_sum :: u64

record fetch_hash =
  fh_slots :: "fh_slot option list"
  fh_n :: nat

text \<open>\<^verbatim>\<open>sizeof(fh_slot)\<close>\<close>

definition fh_sizeof :: nat where "fh_sizeof = 48"

definition fh_init :: "heap \<Rightarrow> nat \<Rightarrow> fetch_hash option \<times> heap" where
  "fh_init h cap = (case alloc h of (ok, h') \<Rightarrow> (if ok then Some \<lparr>fh_slots = replicate cap None, fh_n = 0\<rparr> else None, h'))"

definition fh_hash :: "u64 \<Rightarrow> u64" where
  "fh_hash addr = (let k = addr * 0x9E3779B97F4A7C15 in k XOR drop_bit 29 k)"

definition fh_grow :: "heap \<Rightarrow> fetch_hash \<Rightarrow> fetch_hash option \<times> heap" where
  "fh_grow h t =
     (case asmtest_grow_pow2 (length (fh_slots t)) (sz_add (length (fh_slots t)) 1) fh_sizeof of
        None \<Rightarrow> (None, h)
      | Some nc \<Rightarrow>
          (case fh_init h nc of
             (None, h') \<Rightarrow> (None, h')
           | (Some bigger, h') \<Rightarrow>
               (Some \<lparr>fh_slots = oa_rehash (\<lambda>s. fh_hash (fh_addr s)) (fh_slots bigger) (fh_slots t), fh_n = oa_used (fh_slots t)\<rparr>, h')))"

definition fh_bump :: "fh_slot \<Rightarrow> fh_slot \<Rightarrow> fh_slot" where
  "fh_bump s e = s\<lparr>fh_count := fh_count s + 1, fh_icache_miss := fh_icache_miss s + fh_icache_miss e, fh_itlb_miss := fh_itlb_miss s + fh_itlb_miss e,
                  fh_latency_sum := fh_latency_sum s + fh_latency_sum e\<rparr>"

definition fh_store :: "fetch_hash \<Rightarrow> fh_slot \<Rightarrow> fetch_hash" where
  "fh_store t e =
     (case oa_find (fh_slots t) (\<lambda>s. fh_addr s = fh_addr e) (fh_hash (fh_addr e)) of
        Free i \<Rightarrow> t\<lparr>fh_slots := (fh_slots t)[i := Some e], fh_n := fh_n t + 1\<rparr>
      | Hit i \<Rightarrow> t\<lparr>fh_slots := (fh_slots t)[i := Some (fh_bump (the (fh_slots t ! i)) e)]\<rparr>
      | Spin \<Rightarrow> t)"

definition fh_add :: "heap \<Rightarrow> fetch_hash \<Rightarrow> u64 \<Rightarrow> bool \<Rightarrow> bool \<Rightarrow> u32 \<Rightarrow> fetch_hash \<times> heap" where
  "fh_add h t addr icmiss itlbmiss lat =
     (let e = \<lparr>fh_addr = addr, fh_count = 1, fh_icache_miss = of_bool icmiss, fh_itlb_miss = of_bool itlbmiss, fh_latency_sum = ucast lat\<rparr> in
      if sz_mul (sz_add (fh_n t) 1) 10 \<ge> sz_mul (length (fh_slots t)) 7
      then case fh_grow h t of (None, h') \<Rightarrow> (t, h') | (Some t', h') \<Rightarrow> (fh_store t' e, h')
      else (fh_store t e, h))"

definition fh_key :: "fh_slot \<Rightarrow> int \<times> u64" where
  "fh_key s = (- uint (fh_count s), fh_addr s)"

text \<open>The exported rows have the fields of the slots.\<close>

definition fh_export :: "(fh_slot list \<Rightarrow> fh_slot list) \<Rightarrow> bool \<Rightarrow> heap \<Rightarrow> fetch_hash \<Rightarrow> fh_slot list option \<times> heap" where
  "fh_export qsort armed h t =
     (if fh_n t = 0 then (Some [], h)
      else if armed then (None, h)
      else case alloc h of (ok, h') \<Rightarrow> (if ok then Some (qsort (take (fh_n t) (oa_ents (fh_slots t)))) else None, h'))"

record fetch_survey =
  fv_hot :: "fh_slot list"
  fv_samples :: u64
  fv_valid_samples :: u64
  fv_icache_misses :: u64
  fv_itlb_misses :: u64
  fv_lost :: u64
  fv_throttled :: bool

type_synonym fetch_state = "fetch_survey \<times> fetch_hash \<times> heap"

definition fetch_sample :: "u8 list \<Rightarrow> fetch_state \<Rightarrow> fetch_state" where
  "fetch_sample rec st =
     (case st of (sv, t, h) \<Rightarrow>
      if length rec \<ge> 8 + 8 + 8 + 4 \<and> 28 + ld 4 rec 24 \<le> length rec
      then (case asmtest_ibs_decode_fetch (take (ld 4 rec 24) (drop 28 rec)) of (rc, fs) \<Rightarrow>
              if rc = IBS_OK
              then (case fh_add h t (fs_fetch_addr fs) (fs_icache_miss fs) (fs_itlb_miss fs) (fs_latency fs) of (t', h') \<Rightarrow>
                      (sv\<lparr>fv_valid_samples := fv_valid_samples sv + 1, fv_icache_misses := fv_icache_misses sv + of_bool (fs_icache_miss fs),
                          fv_itlb_misses := fv_itlb_misses sv + of_bool (fs_itlb_miss fs)\<rparr>, t', h'))
              else st)
      else st)"

definition fetch_record :: "nat \<Rightarrow> u8 list \<Rightarrow> fetch_state \<Rightarrow> fetch_state" where
  "fetch_record ty rec st =
     (case st of (sv, t, h) \<Rightarrow>
      if ty = PERF_RECORD_SAMPLE then fetch_sample rec (sv\<lparr>fv_samples := fv_samples sv + 1\<rparr>, t, h)
      else if ty = PERF_RECORD_LOST then (sv\<lparr>fv_lost := fv_lost sv + lost_of rec\<rparr>, t, h)
      else if ty = PERF_RECORD_THROTTLE then (sv\<lparr>fv_throttled := True\<rparr>, t, h)
      else st)"

definition ibs_fetch_drain :: "perf_ring \<Rightarrow> fetch_state \<Rightarrow> perf_ring \<times> fetch_state" where
  "ibs_fetch_drain r st =
     (case st of (sv, t, h) \<Rightarrow>
      let span = ring_span r in
      if span = 0 then (r, st)
      else let sv1 = (if span + IBS_MAX_RECORD > pr_size r then sv\<lparr>fv_throttled := True\<rparr> else sv) in
        (r\<lparr>pr_tail := pr_tail r + of_nat span\<rparr>, perf_walk fetch_record (ring_copy r span) 0 (sv1, t, h)))"

interpretation fh: agg_table fh_addr fh_hash fh_bump fh_sizeof
  by unfold_locales (simp_all add: fh_bump_def fh_sizeof_def)

lemma fh_store_agg: "(fh_slots (fh_store t e), fh_n (fh_store t e)) = fh.agg_store (fh_slots t) (fh_n t) e"
  by (simp add: fh_store_def fh.agg_store_def split: probe_result.splits)

lemma fh_add_agg:
  assumes "fh.agg_inv seed (fh_slots t, fh_n t)" "fh_add h t a i l c = (t', h')"
  shows "fh.agg_add h (fh_slots t, fh_n t) \<lparr>fh_addr = a, fh_count = 1, fh_icache_miss = of_bool i, fh_itlb_miss = of_bool l, fh_latency_sum = ucast c\<rparr> =
     ((fh_slots t', fh_n t'), h')"
proof -
  have n: "fh_n t = oa_used (fh_slots t)" using assms(1) by (simp add: fh.agg_inv_def)
  show ?thesis
    using assms(2) n unfolding fh_add_def fh.agg_add_def fh.agg_full_def fh.agg_grow_def fh_grow_def fh_init_def
    by (auto simp: fh_store_agg Let_def split: option.splits prod.splits if_splits)
qed

text \<open>A fetch sample adds one to the count of its address, and its misses and latency to theirs; no other address changes.\<close>

lemma fh_add_exact:
  assumes "fh.agg_inv seed (fh_slots t, fh_n t)" "3 \<le> seed" "fh.agg_room seed (fh_n t)" "fh_add [] t a i l c = (t', h')"
  shows "fh.agg_inv seed (fh_slots t', fh_n t') \<and>
     fh.tget (fh_slots t') = (fh.tget (fh_slots t))(a \<mapsto>
       (case fh.tget (fh_slots t) a of
          None \<Rightarrow> \<lparr>fh_addr = a, fh_count = 1, fh_icache_miss = of_bool i, fh_itlb_miss = of_bool l, fh_latency_sum = ucast c\<rparr>
        | Some s \<Rightarrow> s\<lparr>fh_count := fh_count s + 1, fh_icache_miss := fh_icache_miss s + of_bool i, fh_itlb_miss := fh_itlb_miss s + of_bool l,
                      fh_latency_sum := fh_latency_sum s + ucast c\<rparr>))"
  using fh.add_cases [OF assms(1,2) fh_add_agg [OF assms(1,4)]] assms(3) fh.merge_def by (simp add: fh_bump_def split: option.splits)

section \<open>The software-clock lane\<close>

record swclock_ip =
  sw_ip :: u64
  sw_count :: u64

record swclock_survey =
  sw_ips :: "swclock_ip list"
  sw_samples :: u64
  sw_lost :: u64
  sw_throttled :: bool

type_synonym sw_state = "swclock_survey \<times> edge_hash \<times> heap"

definition sw_record :: "nat \<Rightarrow> u8 list \<Rightarrow> sw_state \<Rightarrow> sw_state" where
  "sw_record ty rec st =
     (case st of (sv, t, h) \<Rightarrow>
      if ty = PERF_RECORD_SAMPLE then
        (if length rec \<ge> 8 + 8 + 8
         then (case eh_add h t (ld_u64 rec 8) 0 0 0 of (t', h') \<Rightarrow> (sv\<lparr>sw_samples := sw_samples sv + 1\<rparr>, t', h'))
         else st)
      else if ty = PERF_RECORD_LOST then (sv\<lparr>sw_lost := sw_lost sv + lost_of rec\<rparr>, t, h)
      else if ty = PERF_RECORD_THROTTLE then (sv\<lparr>sw_throttled := True\<rparr>, t, h)
      else st)"

definition sw_drain :: "perf_ring \<Rightarrow> sw_state \<Rightarrow> perf_ring \<times> sw_state" where
  "sw_drain r st =
     (case st of (sv, t, h) \<Rightarrow>
      let span = ring_span r in
      if span = 0 then (r, st)
      else let sv1 = (if span + IBS_MAX_RECORD > pr_size r then sv\<lparr>sw_throttled := True\<rparr> else sv) in
        (r\<lparr>pr_tail := pr_tail r + of_nat span\<rparr>, perf_walk sw_record (ring_copy r span) 0 (sv1, t, h)))"

definition sw_key :: "swclock_ip \<Rightarrow> int \<times> u64" where
  "sw_key x = (- uint (sw_count x), sw_ip x)"

definition sw_export :: "(swclock_ip list \<Rightarrow> swclock_ip list) \<Rightarrow> heap \<Rightarrow> edge_hash \<Rightarrow> swclock_ip list option \<times> heap" where
  "sw_export qsort h t =
     (if eh_n t = 0 then (Some [], h)
      else case alloc h of (ok, h') \<Rightarrow>
        (if ok then Some (qsort (map (\<lambda>s. \<lparr>sw_ip = es_from s, sw_count = es_count s\<rparr>) (take (eh_n t) (oa_ents (eh_slots t))))) else None, h'))"

text \<open>Every lane flags a ring with less room than one record.\<close>

lemma fetch_sample_throttled: "fv_throttled (fst (fetch_sample rec st)) = fv_throttled (fst st)"
  by (simp add: fetch_sample_def split: prod.splits)

lemma fetch_record_throttled: "fv_throttled (fst st) \<Longrightarrow> fv_throttled (fst (fetch_record ty rec st))"
  by (cases st) (simp add: fetch_record_def fetch_sample_throttled)

lemma sw_record_throttled: "sw_throttled (fst st) \<Longrightarrow> sw_throttled (fst (sw_record ty rec st))"
  by (cases st) (simp add: sw_record_def split: prod.splits)

lemma near_full_flagged:
  assumes "ring_span r \<noteq> 0" "pr_size r < ring_span r + IBS_MAX_RECORD" "list_all rec_ok rs" "ring_holds r (concat (map rec_bytes rs))"
  shows "fv_throttled (fst (snd (ibs_fetch_drain r (fv, ft, h))))" and "sw_throttled (fst (snd (sw_drain r (sv, st, h))))"
proof -
  have f: "fv_throttled (fst x) \<Longrightarrow> fv_throttled (fst (foldl (\<lambda>s r. fetch_record (rc_type r) (rec_bytes r) s) x rs))" for x
    by (induction rs arbitrary: x) (simp_all add: fetch_record_throttled)
  have w: "sw_throttled (fst x) \<Longrightarrow> sw_throttled (fst (foldl (\<lambda>s r. sw_record (rc_type r) (rec_bytes r) s) x rs))" for x
    by (induction rs arbitrary: x) (simp_all add: sw_record_throttled)
  show "fv_throttled (fst (snd (ibs_fetch_drain r (fv, ft, h))))" "sw_throttled (fst (snd (sw_drain r (sv, st, h))))"
    using assms(1,2) f w by (simp_all add: ibs_fetch_drain_def sw_drain_def Let_def holds_copy [OF assms(4)] walk_records [OF assms(3)])
qed

section \<open>The sampling period\<close>

record ibs_opts =
  op_sample_period :: u64
  op_flags :: u32
  op_struct_size :: u32
  op_period_jitter :: u32

definition IBS_DEFAULT_PERIOD :: u64 where "IBS_DEFAULT_PERIOD = 0x4000"
definition IBS_JITTER_FRAC :: u32 where "IBS_JITTER_FRAC = 8"
definition IBS_OPT_NO_JITTER :: nat where "IBS_OPT_NO_JITTER = 3"

definition ibs_period :: "ibs_opts option \<Rightarrow> u64" where
  "ibs_period opts =
     (let period = (case opts of Some p \<Rightarrow> if op_sample_period p \<noteq> 0 then op_sample_period p else IBS_DEFAULT_PERIOD | None \<Rightarrow> IBS_DEFAULT_PERIOD);
          period = period AND NOT 0xF
      in if period < 16 then IBS_DEFAULT_PERIOD else period)"

text \<open>The offset of the jitter field and its size: 16 and 4.\<close>

definition ibs_jitter_frac :: "ibs_opts option \<Rightarrow> u32" where
  "ibs_jitter_frac opts =
     (case opts of
        None \<Rightarrow> IBS_JITTER_FRAC
      | Some p \<Rightarrow>
          if bit (op_flags p) IBS_OPT_NO_JITTER then 0
          else if op_struct_size p \<ge> 16 + 4 \<and> op_period_jitter p \<noteq> 0 then op_period_jitter p
          else IBS_JITTER_FRAC)"

text \<open>The generator's step, from a state that is not 0, and a jittered period for a draw.\<close>

definition ibs_rand :: "u64 \<Rightarrow> u64" where
  "ibs_rand s = (let s = s XOR push_bit 13 s; s = s XOR drop_bit 7 s in s XOR push_bit 17 s)"

definition ibs_jitter_period :: "u64 \<Rightarrow> u64 \<Rightarrow> u32 \<Rightarrow> u64" where
  "ibs_jitter_period rnd base frac =
     (if frac = 0 then base
      else let amp = base div ucast frac in
        if amp = 0 then base
        else let off = rnd mod (2 * amp + 1) - amp;
                 p = base + off;
                 p = (if sint p < 16 then 16 else p);
                 period = p AND NOT 0xF
             in if period < 16 then 16 else period)"

lemma and_not_15: "unat ((x :: u64) AND NOT 0xF) = unat x - unat x mod 16"
proof -
  have m: "(0xF :: u64) = mask 4" by (simp add: mask_eq_exp_minus_1)
  have "x AND NOT 0xF = push_bit 4 (drop_bit 4 x)"
    unfolding m by (rule bit_eqI) (auto simp: bit_simps)
  also have "\<dots> = x - take_bit 4 x" using bits_ident [of 4 x] by (simp add: eq_diff_eq)
  finally have "x AND NOT 0xF = x - take_bit 4 x" .
  moreover have "unat (take_bit 4 x) = unat x mod 16" by (simp add: unsigned_take_bit_eq take_bit_eq_mod [of 4 "unat x"])
  moreover have "take_bit 4 x \<le> x" unfolding word_le_nat_alt \<open>unat (take_bit 4 x) = unat x mod 16\<close> by simp
  ultimately show ?thesis by (simp add: unat_sub)
qed

lemmas and_minus_16 = and_not_15 [simplified]

text \<open>A resolved period is a multiple of 16, and at least 16.\<close>

lemma ibs_period_granular: "16 \<le> unat (ibs_period opts) \<and> 16 dvd unat (ibs_period opts)"
proof -
  have d: "16 dvd unat (x :: u64) - unat x mod 16" for x by (rule dvd_minus_mod)
  show ?thesis
    using d by (simp add: ibs_period_def Let_def IBS_DEFAULT_PERIOD_def word_less_nat_alt and_minus_16 split: option.splits)
qed

text \<open>
  A jittered period is again a multiple of 16 and at least 16, and it is off the base by no more than the amplitude and the rounding, for every draw.
\<close>

lemma ibs_jitter_bounds:
  fixes rnd base :: u64 and frac :: u32
  assumes "16 \<le> unat base" "unat base < 2 ^ 62" "16 dvd unat base"
  defines "p \<equiv> unat (ibs_jitter_period rnd base frac)" and "amp \<equiv> unat base div unat frac"
  shows "16 \<le> p \<and> 16 dvd p \<and> p \<le> unat base + amp \<and> unat base \<le> p + amp + 15"
proof (cases "frac = 0 \<or> base div ucast frac = 0")
  case True
  then have "ibs_jitter_period rnd base frac = base" by (auto simp: ibs_jitter_period_def Let_def)
  then show ?thesis using assms(1,3) by (simp add: p_def)
next
  case False
  have uf: "unat (ucast frac :: u64) = unat frac" proof -
    have "unat frac < 2 ^ 32" using unsigned_less [of frac, where 'a = nat] by simp
    then show ?thesis by (simp add: unsigned_ucast_eq take_bit_nat_eq_self)
  qed
  define a where "a = base div (ucast frac :: u64)"
  have ua: "unat a = amp" by (simp add: a_def amp_def unat_div_distrib uf)
  have al: "amp \<le> unat base" by (simp add: amp_def)
  have m: "unat (2 * a + 1) = 2 * amp + 1" using ua al assms(2) by (simp add: unat_word_ariths)
  define r where "r = unat rnd mod (2 * amp + 1)"
  have r: "unat (rnd mod (2 * a + 1)) = r" by (simp only: unat_mod_distrib m r_def)
  have rb: "r \<le> 2 * amp" unfolding r_def using mod_less_divisor [of "2 * amp + 1" "unat rnd"] by linarith
  define z where "z = rnd mod (2 * a + 1)"
  define q where "q = base + (z - a)"
  have q: "unat q = unat base + r - amp"
  proof -
    have s: "unat (base + z) = unat base + r" using assms(2) rb al r by (simp add: unat_word_ariths z_def [symmetric])
    have "a \<le> base + z" unfolding word_le_nat_alt s ua using al by simp
    moreover have "q = (base + z) - a" by (simp add: q_def)
    ultimately show ?thesis by (simp only: unat_sub s ua)
  qed
  have sq: "sint q = int (unat q)"
  proof -
    have "(2 :: nat) ^ 63 = 2 * 2 ^ 62" by simp
    then have "unat q < 2 ^ 63" using q assms(2) rb al by linarith
    then have "int (unat q) < int (2 ^ 63)" by (rule of_nat_less_iff [THEN iffD2])
    then have "int (unat q) < 2 ^ 63" by simp
    moreover have "int (unat q) = uint q" by simp
    moreover have "- (2 ^ 63) \<le> uint q" by (rule order_trans [OF _ uint_ge_0]) simp
    ultimately show ?thesis using signed_take_bit_int_eq_self [of 63 "uint q"] by (simp add: sint_uint)
  qed
  define p1 where "p1 = (if sint q < 16 then 16 else q)"
  have p1: "unat p1 = max 16 (unat q)" proof -
    have "sint q < 16 \<longleftrightarrow> unat q < 16" unfolding sq by linarith
    then show ?thesis by (simp add: p1_def max_def)
  qed
  have "ibs_jitter_period rnd base frac = (if p1 AND NOT 0xF < 16 then 16 else p1 AND NOT 0xF)"
    using False by (simp add: ibs_jitter_period_def Let_def a_def [symmetric] z_def [symmetric] q_def [symmetric] p1_def)
  then have pe: "p = (if unat p1 - unat p1 mod 16 < 16 then 16 else unat p1 - unat p1 mod 16)" by (simp add: p_def word_less_nat_alt and_minus_16)
  have u: "16 \<le> unat p1" "unat p1 \<le> unat base + amp" "unat base \<le> unat p1 + amp"
    unfolding p1 q using assms(1) rb al by simp_all
  have t: "unat p1 - unat p1 mod 16 = 16 * (unat p1 div 16)" by (simp add: minus_mod_eq_mult_div)
  have m: "16 * (unat p1 div 16) \<le> unat p1" "unat p1 \<le> 16 * (unat p1 div 16) + 15" by linarith+
  have "p = 16 * (unat p1 div 16)" unfolding pe t using u(1) by simp
  moreover have "16 \<le> 16 * (unat p1 div 16)" using u(1) by simp
  ultimately show ?thesis using u m by simp
qed

end

