(* ===== verification/Single_Step.thy ===== *)
theory Single_Step
  imports Amd_Lbr
begin

text \<open>
  The in-process single-step back end, \<^verbatim>\<open>src/src/ss_backend.c\<close>: the stack of capture frames of a thread, the trap handler that records into every frame, the guards of a region-free frame, the
  normalization of a recorded stream into a trace, and the handles. The state of a thread (\<^verbatim>\<open>tls_frames\<close>, \<^verbatim>\<open>tls_depth\<close>, \<^verbatim>\<open>tls_gen_ctr\<close>) is a record, the globals are another. A trace
  is named by a number, 0 for \<^verbatim>\<open>NULL\<close>; \<open>traces\<close> holds their contents. The disassembler is the decoder of \<open>Bs_Recon\<close>.
\<close>

section \<open>Frames\<close>

datatype ss_guard = SS_GUARD_NONE | SS_GUARD_RING | SS_GUARD_BUDGET | SS_GUARD_DENY | SS_GUARD_WATCHDOG

definition SS_STREAM_CAP :: nat where "SS_STREAM_CAP = 2 ^ 16"
definition SS_WINDOW_CAP :: nat where "SS_WINDOW_CAP = 2 ^ 20"
definition SS_MAX_FRAMES :: nat where "SS_MAX_FRAMES = 8"
definition SS_MAX_DENY :: nat where "SS_MAX_DENY = 32"
definition SS_WINDOW_BUDGET_DEFAULT :: u64 where "SS_WINDOW_BUDGET_DEFAULT = 4 * of_nat SS_WINDOW_CAP"
definition SS_WINDOW_WATCHDOG_MS_DEFAULT :: u32 where "SS_WINDOW_WATCHDOG_MS_DEFAULT = 10000"
definition UINT64_MAX :: u64 where "UINT64_MAX = - 1"
definition UINT32_MAX :: u32 where "UINT32_MAX = - 1"

definition SS_EINVAL :: int where "SS_EINVAL = - 1"
definition SS_EFULL :: int where "SS_EFULL = - 6"

record ss_frame =
  fr_base :: u64
  fr_base_ip :: u64
  fr_len :: nat
  fr_trace :: nat
  fr_stream :: "u64 list"
  fr_cap :: nat
  fr_overflow :: bool
  fr_gen :: u32
  fr_whole :: bool
  fr_arm_tid :: int
  fr_steps :: u64
  fr_budget :: u64
  fr_watchdog :: u32
  fr_guard :: ss_guard

definition zero_frame :: ss_frame where
  "zero_frame = \<lparr>fr_base = 0, fr_base_ip = 0, fr_len = 0, fr_trace = 0, fr_stream = [], fr_cap = 0, fr_overflow = False, fr_gen = 0,
     fr_whole = False, fr_arm_tid = 0, fr_steps = 0, fr_budget = 0, fr_watchdog = 0, fr_guard = SS_GUARD_NONE\<rparr>"

record ss_thread =
  tls_frames :: "ss_frame list"
  tls_depth :: nat
  tls_gen_ctr :: u32

definition new_thread :: ss_thread where
  "new_thread = \<lparr>tls_frames = replicate SS_MAX_FRAMES zero_frame, tls_depth = 0, tls_gen_ctr = 0\<rparr>"

record ss_globals =
  g_armed :: bool
  g_installed :: bool
  g_arm_refcount :: nat
  g_deny :: "(u64 \<times> u64) list"
  g_ww_refcount :: nat
  g_ww_alarm_fired :: bool

definition ss_init :: ss_globals where
  "ss_init = \<lparr>g_armed = False, g_installed = False, g_arm_refcount = 0, g_deny = [], g_ww_refcount = 0, g_ww_alarm_fired = False\<rparr>"

section \<open>The deny table\<close>

definition ss_deny_append :: "u64 \<times> u64 \<Rightarrow> ss_globals \<Rightarrow> ss_globals" where
  "ss_deny_append e g = (if length (g_deny g) \<ge> SS_MAX_DENY \<or> snd e = 0 then g else g\<lparr>g_deny := g_deny g @ [e]\<rparr>)"

text \<open>The default entries are 64 bytes from each of the symbols \<^verbatim>\<open>dlsym\<close> found.\<close>

definition ss_deny_append_default :: "u64 list \<Rightarrow> ss_globals \<Rightarrow> ss_globals" where
  "ss_deny_append_default syms g = fold (\<lambda>a. ss_deny_append (a, 64)) syms g"

definition ss_rip_denied :: "ss_globals \<Rightarrow> u64 \<Rightarrow> bool" where
  "ss_rip_denied g rip \<longleftrightarrow> (\<exists>e\<in>set (g_deny g). fst e \<le> rip \<and> rip < fst e + snd e)"

section \<open>The trap handler\<close>

definition record_window :: "ss_globals \<Rightarrow> u64 \<Rightarrow> ss_frame \<Rightarrow> ss_frame" where
  "record_window g rip f =
     (if fr_guard f \<noteq> SS_GUARD_NONE then f
      else if g_ww_alarm_fired g then f\<lparr>fr_guard := SS_GUARD_WATCHDOG\<rparr>
      else if ss_rip_denied g rip then f\<lparr>fr_guard := SS_GUARD_DENY\<rparr>
      else let f1 = f\<lparr>fr_steps := fr_steps f + 1\<rparr>;
               f2 = (if fr_steps f1 \<ge> fr_budget f1 then f1\<lparr>fr_guard := SS_GUARD_BUDGET\<rparr> else f1)
        in if length (fr_stream f2) < fr_cap f2 then f2\<lparr>fr_stream := fr_stream f2 @ [rip]\<rparr>
           else let f3 = f2\<lparr>fr_overflow := True\<rparr> in if fr_guard f3 = SS_GUARD_NONE then f3\<lparr>fr_guard := SS_GUARD_RING\<rparr> else f3)"

definition record_region :: "u64 \<Rightarrow> ss_frame \<Rightarrow> ss_frame" where
  "record_region rip f =
     (if rip \<ge> fr_base_ip f \<and> rip < fr_base_ip f + of_nat (fr_len f)
      then if length (fr_stream f) < fr_cap f then f\<lparr>fr_stream := fr_stream f @ [rip - fr_base_ip f]\<rparr> else f\<lparr>fr_overflow := True\<rparr>
      else f)"

definition record_frame :: "ss_globals \<Rightarrow> u64 \<Rightarrow> ss_frame \<Rightarrow> ss_frame" where
  "record_frame g rip f = (if fr_whole f then record_window g rip f else record_region rip f)"

definition wants_step :: "ss_frame \<Rightarrow> bool" where
  "wants_step f \<longleftrightarrow> \<not> fr_whole f \<or> fr_guard f = SS_GUARD_NONE \<or> fr_guard f = SS_GUARD_RING"

text \<open>The result tells whether the handler asserts TF again.\<close>

definition ss_on_sigtrap :: "ss_globals \<Rightarrow> u64 \<Rightarrow> ss_thread \<Rightarrow> ss_thread \<times> bool" where
  "ss_on_sigtrap g rip th =
     (if \<not> g_armed g \<or> tls_depth th = 0 then (th, False)
      else let d = tls_depth th; fs = map (record_frame g rip) (take d (tls_frames th)) @ drop d (tls_frames th)
        in (th\<lparr>tls_frames := fs\<rparr>, list_ex wants_step (take d fs)))"

section \<open>Opening and closing frames\<close>

text \<open>
  What a caller asks for: the guards of a window, with the symbols the default deny list resolves to. The answers of \<^verbatim>\<open>malloc\<close>, \<^verbatim>\<open>mmap\<close> and \<^verbatim>\<open>sigaction\<close> are taken from the allocation
  script in turn. The result is the status and, once the frame has been filled, its index and generation.
\<close>

record ss_config =
  cf_budget :: u64
  cf_watchdog :: u32
  cf_default_deny :: bool
  cf_deny :: "(u64 \<times> u64) list"

definition no_guards :: ss_config where
  "no_guards = \<lparr>cf_budget = UINT64_MAX, cf_watchdog = UINT32_MAX, cf_default_deny = False, cf_deny = []\<rparr>"

definition ss_publish :: "u64 list \<Rightarrow> ss_config \<Rightarrow> bool \<Rightarrow> u32 \<Rightarrow> ss_globals \<Rightarrow> ss_globals" where
  "ss_publish syms cf whole watchdog g =
     (if \<not> whole then g
      else let g1 = (if cf_default_deny cf then ss_deny_append_default syms g else g);
               g2 = fold ss_deny_append (cf_deny cf) g1
        in if watchdog = UINT32_MAX then g2
           else (if g_ww_refcount g2 = 0 then g2\<lparr>g_ww_alarm_fired := False\<rparr> else g2)\<lparr>g_ww_refcount := g_ww_refcount g2 + 1\<rparr>)"

definition fill_frame :: "int \<Rightarrow> u64 \<Rightarrow> nat \<Rightarrow> nat \<Rightarrow> bool \<Rightarrow> u64 \<Rightarrow> u32 \<Rightarrow> u32 \<Rightarrow> ss_frame" where
  "fill_frame tid base len trace whole budget watchdog gen =
     \<lparr>fr_base = base, fr_base_ip = (if whole then 0 else base), fr_len = len, fr_trace = trace, fr_stream = [],
      fr_cap = (if whole then SS_WINDOW_CAP else SS_STREAM_CAP), fr_overflow = False, fr_gen = gen, fr_whole = whole, fr_arm_tid = tid,
      fr_steps = 0, fr_budget = (if whole then budget else UINT64_MAX), fr_watchdog = (if whole then watchdog else UINT32_MAX),
      fr_guard = SS_GUARD_NONE\<rparr>"

definition ss_push_frame :: "u64 list \<Rightarrow> int \<Rightarrow> u64 \<Rightarrow> nat \<Rightarrow> nat \<Rightarrow> bool \<Rightarrow> ss_config \<Rightarrow> heap \<Rightarrow> ss_globals \<Rightarrow> ss_thread \<Rightarrow>
    int \<times> (nat \<times> u32) option \<times> ss_globals \<times> ss_thread \<times> heap" where
  "ss_push_frame syms tid base len trace whole cf h g th =
     (let budget = (if whole \<and> cf_budget cf = 0 then SS_WINDOW_BUDGET_DEFAULT else cf_budget cf);
          watchdog = (if whole \<and> cf_watchdog cf = 0 then SS_WINDOW_WATCHDOG_MS_DEFAULT else cf_watchdog cf)
      in if whole \<and> (base \<noteq> 0 \<or> len \<noteq> 0) then (SS_EINVAL, None, g, th, h)
         else if \<not> whole \<and> (base = 0 \<or> len = 0) then (SS_EINVAL, None, g, th, h)
         else if tls_depth th \<ge> SS_MAX_FRAMES then (SS_EFULL, None, g, th, h)
         else case alloc h of
           (False, h1) \<Rightarrow> (SS_EINVAL, None, g, th, h1)
         | (True, h1) \<Rightarrow>
             (let idx = tls_depth th; gen = tls_gen_ctr th + 1;
                  f = fill_frame tid base len trace whole budget watchdog gen;
                  th1 = th\<lparr>tls_frames := (tls_frames th)[idx := f], tls_gen_ctr := gen\<rparr>
              in case (if g_arm_refcount g = 0 then alloc h1 else (True, h1)) of
                   (False, h2) \<Rightarrow> (SS_EINVAL, Some (idx, gen), g, th1, h2)
                 | (True, h2) \<Rightarrow>
                     (let g1 = (if g_arm_refcount g = 0 then g\<lparr>g_installed := True\<rparr> else g);
                          g2 = ss_publish syms cf whole watchdog (g1\<lparr>g_arm_refcount := g_arm_refcount g1 + 1\<rparr>)
                      in (ASMTEST_HW_OK, Some (idx, gen), g2\<lparr>g_armed := True\<rparr>, th1\<lparr>tls_depth := idx + 1\<rparr>, h2))))"

definition asmtest_ss_begin_ex where
  "asmtest_ss_begin_ex tid base len trace h g th = ss_push_frame [] tid base len trace False no_guards h g th"

definition asmtest_ss_begin_window where
  "asmtest_ss_begin_window syms tid trace cf h g th = ss_push_frame syms tid 0 0 trace True cf h g th"

text \<open>The replay of a region-free stream, and of a region's stream. \<open>False\<close> is the early return.\<close>

fun replay_window :: "u64 option \<Rightarrow> u64 list \<Rightarrow> asmtest_trace \<Rightarrow> asmtest_trace" where
  "replay_window prev [] t = t"
| "replay_window prev (a # as) t =
     (if prev = Some a then replay_window prev as t else replay_window (Some a) as (append_insn t a))"

text \<open>The previous instruction that was recorded: its offset, whether it is a branch, and the offset after it.\<close>

fun replay_region :: "decoder \<Rightarrow> (u64 \<times> bool \<times> u64) option \<Rightarrow> u64 list \<Rightarrow> asmtest_trace \<Rightarrow>
    bool \<times> (u64 \<times> bool \<times> u64) option \<times> asmtest_trace" where
  "replay_region dec prev [] t = (True, prev, t)"
| "replay_region dec prev (off # offs) t =
     (if (case prev of Some (prev_off, _, _) \<Rightarrow> off = prev_off | None \<Rightarrow> False) then replay_region dec prev offs t
      else let t1 = (if (case prev of None \<Rightarrow> True | Some (_, was_branch, expected) \<Rightarrow> off \<noteq> expected \<or> was_branch) then append_block t off else t);
               t2 = append_insn t1 off; i = dec off
        in if di_len i = 0 then (False, prev, set_truncated t2)
           else replay_region dec (Some (off, di_branch i, off + of_nat (di_len i))) offs t2)"

definition ss_normalize :: "decoder \<Rightarrow> ss_frame \<Rightarrow> asmtest_trace \<Rightarrow> asmtest_trace" where
  "ss_normalize dec fr t =
     (if fr_whole fr then
        (let t1 = replay_window None (fr_stream fr) t
         in if fr_overflow fr \<or> fr_guard fr \<noteq> SS_GUARD_NONE then set_truncated t1 else t1)
      else case replay_region dec None (fr_stream fr) t of
        (False, _, t1) \<Rightarrow> t1
      | (True, prev, t1) \<Rightarrow>
          (let t2 = (case prev of Some (_, was_branch, expected) \<Rightarrow> if \<not> was_branch \<and> expected < of_nat (fr_len fr) then set_truncated t1 else t1
                     | None \<Rightarrow> t1)
           in if fr_overflow fr then set_truncated t2 else t2))"

text \<open>The decoder is that of the region of the frame that is closed.\<close>

definition asmtest_ss_end :: "(u64 \<Rightarrow> decoder) \<Rightarrow> (nat \<Rightarrow> asmtest_trace) \<Rightarrow> ss_globals \<Rightarrow> ss_thread \<Rightarrow>
    (nat \<Rightarrow> asmtest_trace) \<times> ss_globals \<times> ss_thread" where
  "asmtest_ss_end dec traces g th =
     (let d = tls_depth th in
      if d = 0 then (traces, g, th)
      else let fr = tls_frames th ! (d - 1);
               traces1 = (if fr_trace fr = 0 then traces
                          else traces(fr_trace fr := ss_normalize (dec (fr_base fr)) fr (traces (fr_trace fr))));
               th1 = th\<lparr>tls_depth := d - 1, tls_frames := (tls_frames th)[d - 1 := fr\<lparr>fr_stream := []\<rparr>]\<rparr>;
               g1 = (if fr_whole fr \<and> fr_watchdog fr \<noteq> UINT32_MAX then g\<lparr>g_ww_refcount := g_ww_refcount g - 1\<rparr> else g);
               g2 = g1\<lparr>g_arm_refcount := g_arm_refcount g1 - 1\<rparr>
        in (traces1, (if g_arm_refcount g2 = 0 then g2\<lparr>g_installed := False, g_armed := False, g_deny := []\<rparr> else g2), th1))"

section \<open>Handles\<close>

definition asmtest_ss_frame_lookup :: "u32 \<Rightarrow> u32 \<Rightarrow> int \<Rightarrow> ss_thread \<Rightarrow> (u64 \<times> nat \<times> nat) option" where
  "asmtest_ss_frame_lookup idx gen arm_tid th =
     (if unat idx \<ge> SS_MAX_FRAMES then None
      else let f = tls_frames th ! unat idx in
        if fr_gen f \<noteq> gen \<or> fr_gen f = 0 then None
        else if fr_arm_tid f \<noteq> arm_tid then None
        else Some (fr_base f, fr_len f, fr_trace f))"

definition asmtest_ss_frame_guard :: "u32 \<Rightarrow> u32 \<Rightarrow> int \<Rightarrow> ss_thread \<Rightarrow> ss_guard option" where
  "asmtest_ss_frame_guard idx gen arm_tid th =
     (if unat idx \<ge> SS_MAX_FRAMES then None
      else let f = tls_frames th ! unat idx in
        if fr_gen f \<noteq> gen \<or> fr_gen f = 0 then None
        else if fr_arm_tid f \<noteq> arm_tid then None
        else Some (fr_guard f))"

text \<open>
  A call inside a scope: \<open>traps\<close> are the addresses at which the thread stands when it traps, \<open>result\<close> what the call returns. The traps
  go on for as long as the handler asserts TF again.
\<close>

fun ss_traps :: "ss_globals \<Rightarrow> u64 list \<Rightarrow> ss_thread \<Rightarrow> ss_thread" where
  "ss_traps g [] th = th"
| "ss_traps g (rip # rips) th = (case ss_on_sigtrap g rip th of (th1, tf) \<Rightarrow> if tf then ss_traps g rips th1 else th1)"

definition scoped_call :: "int \<Rightarrow> (u64 \<Rightarrow> decoder) \<Rightarrow> int \<Rightarrow> u64 \<Rightarrow> nat \<Rightarrow> nat \<Rightarrow> bool \<Rightarrow> int \<Rightarrow> bool \<Rightarrow> u64 list \<Rightarrow> 'r \<Rightarrow> heap \<Rightarrow>
    (nat \<Rightarrow> asmtest_trace) \<Rightarrow> ss_globals \<Rightarrow> ss_thread \<Rightarrow>
    int \<times> 'r option \<times> (nat \<times> u32) option \<times> (nat \<Rightarrow> asmtest_trace) \<times> ss_globals \<times> ss_thread \<times> heap" where
  "scoped_call maxargs dec tid base len trace fn nargs args traps result h traces g th =
     (if \<not> fn \<or> nargs < 0 \<or> nargs > maxargs \<or> (nargs > 0 \<and> \<not> args) then (SS_EINVAL, None, None, traces, g, th, h)
      else case ss_push_frame [] tid base len trace False no_guards h g th of
        (rc, hnd, g1, th1, h1) \<Rightarrow>
          if rc \<noteq> ASMTEST_HW_OK then (rc, None, hnd, traces, g1, th1, h1)
          else case asmtest_ss_end dec traces g1 (ss_traps g1 traps th1) of
            (traces2, g2, th2) \<Rightarrow> (ASMTEST_HW_OK, Some result, hnd, traces2, g2, th2, h1))"

text \<open>Integer arguments travel in six registers, floating-point ones in eight.\<close>

definition asmtest_ss_call_scoped where "asmtest_ss_call_scoped = scoped_call 6"
definition asmtest_ss_call_scoped_fp where "asmtest_ss_call_scoped_fp = scoped_call 8"

section \<open>What the handler records\<close>

abbreviation region_offs :: "u64 \<Rightarrow> nat \<Rightarrow> u64 list \<Rightarrow> u64 list" where
  "region_offs base_ip len rips \<equiv> map (\<lambda>r. r - base_ip) (filter (in_region base_ip len) rips)"

lemma record_region_fold:
  fixes rips :: "u64 list"
  assumes "length (fr_stream f) \<le> fr_cap f"
  defines "xs \<equiv> fr_stream f @ region_offs (fr_base_ip f) (fr_len f) rips"
  shows "fold record_region rips f = f\<lparr>fr_stream := take (fr_cap f) xs, fr_overflow := fr_overflow f \<or> length xs > fr_cap f\<rparr>"
  unfolding xs_def using assms(1)
proof (induction rips arbitrary: f)
  case (Cons r rips)
  show ?case
  proof (cases "in_region (fr_base_ip f) (fr_len f) r")
    case True
    show ?thesis
    proof (cases "length (fr_stream f) < fr_cap f")
      case False
      then have l: "length (fr_stream f) = fr_cap f" using Cons.prems by simp
      have "record_region r f = f\<lparr>fr_overflow := True\<rparr>" using True False by (simp add: record_region_def in_region_def)
      then show ?thesis using Cons.IH [of "f\<lparr>fr_overflow := True\<rparr>"] l True by simp
    next
      case room: True
      let ?f = "f\<lparr>fr_stream := fr_stream f @ [r - fr_base_ip f]\<rparr>"
      have "record_region r f = ?f" using True room by (simp add: record_region_def in_region_def)
      then show ?thesis using Cons.IH [of ?f] room True by simp
    qed
  next
    case False
    then have "record_region r f = f" by (auto simp: record_region_def in_region_def)
    then show ?thesis using Cons False by simp
  qed
qed simp

lemma stopped_records_nothing: "\<not> wants_step f \<Longrightarrow> fold (record_frame g) rips f = f"
proof -
  assume "\<not> wants_step f"
  then have "record_frame g r f = f" for r by (simp add: record_frame_def record_window_def wants_step_def)
  then show ?thesis by (induction rips) simp_all
qed

lemma traps_frames:
  assumes "g_armed g" "tls_depth th \<noteq> 0"
  shows "ss_traps g rips th =
    th\<lparr>tls_frames := map (fold (record_frame g) rips) (take (tls_depth th) (tls_frames th)) @ drop (tls_depth th) (tls_frames th)\<rparr>"
  using assms
proof (induction rips arbitrary: th)
  case (Cons r rips)
  let ?d = "tls_depth th" and ?fs = "tls_frames th"
  let ?fr = "map (record_frame g r) (take ?d ?fs)" let ?th = "th\<lparr>tls_frames := ?fr @ drop ?d ?fs\<rparr>"
  have tk: "take ?d (?fr @ drop ?d ?fs) = ?fr" "drop ?d (?fr @ drop ?d ?fs) = drop ?d ?fs" by (cases "?d \<le> length ?fs"; simp)+
  have o: "ss_on_sigtrap g r th = (?th, list_ex wants_step ?fr)" unfolding ss_on_sigtrap_def Let_def tk using Cons.prems by simp
  show ?case
  proof (cases "list_ex wants_step ?fr")
    case True
    then show ?thesis using Cons.IH [of ?th] Cons.prems o tk by simp
  next
    case False
    then have "\<forall>f\<in>set (take ?d ?fs). fold (record_frame g) rips (record_frame g r f) = record_frame g r f"
      by (auto simp: list_ex_iff stopped_records_nothing)
    then have "map (fold (record_frame g) (r # rips)) (take ?d ?fs) = ?fr" by simp
    then show ?thesis using False o by simp
  qed
qed simp

text \<open>A whole-window frame past its ring: no guard looks at it again, and it still asks for every step.\<close>

lemma ring_disables_guards:
  assumes "fr_whole f" "fr_guard f = SS_GUARD_RING"
  shows "fold (record_frame g) rips f = f" "wants_step f"
proof -
  have "record_frame g r f = f" for r using assms by (simp add: record_frame_def record_window_def)
  then show "fold (record_frame g) rips f = f" by (induction rips) simp_all
  show "wants_step f" using assms by (simp add: wants_step_def)
qed

text \<open>Within the ring the budget bounds the window: of a run that meets no denied address and no alarm it records the first addresses up to the budget, then stops.\<close>

lemma budget_bounds_window:
  assumes "fr_whole f" "fr_guard f = SS_GUARD_NONE" "fr_steps f = of_nat (length (fr_stream f))" "length (fr_stream f) < unat (fr_budget f)"
    and "unat (fr_budget f) \<le> fr_cap f" "\<not> g_ww_alarm_fired g" "\<forall>r\<in>set rips. \<not> ss_rip_denied g r"
  defines "xs \<equiv> fr_stream f @ rips"
  shows "fr_stream (fold (record_frame g) rips f) = take (unat (fr_budget f)) xs"
    "fr_guard (fold (record_frame g) rips f) = (if length xs < unat (fr_budget f) then SS_GUARD_NONE else SS_GUARD_BUDGET)"
    "wants_step (fold (record_frame g) rips f) \<longleftrightarrow> length xs < unat (fr_budget f)"
proof -
  have "fr_stream (fold (record_frame g) rips f) = take (unat (fr_budget f)) (fr_stream f @ rips) \<and>
    fr_guard (fold (record_frame g) rips f) = (if length (fr_stream f @ rips) < unat (fr_budget f) then SS_GUARD_NONE else SS_GUARD_BUDGET) \<and>
    fr_whole (fold (record_frame g) rips f)"
    using assms(1-7)
  proof (induction rips arbitrary: f)
    case (Cons r rips)
    let ?n = "length (fr_stream f)" and ?b = "unat (fr_budget f)"
    define f1 where "f1 = record_frame g r f"
    have le: "fr_steps f + 1 \<ge> fr_budget f \<longleftrightarrow> ?b \<le> Suc ?n"
    proof -
      have "?b < 2 ^ 64" using unsigned_less [of "fr_budget f"] by simp
      then have "unat (fr_steps f + 1) = Suc ?n" using Cons.prems(3,4) by (simp add: unat_word_ariths unat_of_nat)
      then show ?thesis by (simp add: word_le_nat_alt)
    qed
    have f1: "f1 = f\<lparr>fr_steps := fr_steps f + 1, fr_stream := fr_stream f @ [r], fr_guard := (if ?b \<le> Suc ?n then SS_GUARD_BUDGET else SS_GUARD_NONE)\<rparr>"
      using Cons.prems le by (simp add: f1_def record_frame_def record_window_def Let_def)
    have e: "fold (record_frame g) (r # rips) f = fold (record_frame g) rips f1" by (simp add: f1_def)
    show ?case
    proof (cases "?b \<le> Suc ?n")
      case True
      then have b: "?b = Suc ?n" using Cons.prems(4) by simp
      have "fold (record_frame g) rips f1 = f1" by (rule stopped_records_nothing) (use True Cons.prems(1) in \<open>simp add: f1 wants_step_def\<close>)
      then show ?thesis unfolding e using True b Cons.prems(1) by (simp add: f1)
    next
      case False
      have "fr_stream (fold (record_frame g) rips f1) = take (unat (fr_budget f1)) (fr_stream f1 @ rips) \<and>
        fr_guard (fold (record_frame g) rips f1) = (if length (fr_stream f1 @ rips) < unat (fr_budget f1) then SS_GUARD_NONE else SS_GUARD_BUDGET) \<and>
        fr_whole (fold (record_frame g) rips f1)"
        by (rule Cons.IH) (use False Cons.prems in \<open>simp_all add: f1\<close>)
      then show ?thesis unfolding e using False by (simp add: f1)
    qed
  qed simp
  then show "fr_stream (fold (record_frame g) rips f) = take (unat (fr_budget f)) xs"
    "fr_guard (fold (record_frame g) rips f) = (if length xs < unat (fr_budget f) then SS_GUARD_NONE else SS_GUARD_BUDGET)"
    "wants_step (fold (record_frame g) rips f) \<longleftrightarrow> length xs < unat (fr_budget f)"
    by (simp_all add: xs_def wants_step_def)
qed


section \<open>The normalized trace is that of the execution\<close>

text \<open>A string instruction traps at every iteration; the repetitions collapse.\<close>

lemma replay_adj:
  "replay_region dec (Some (a, br, ex)) xs t = replay_region dec (Some (a, br, ex)) (tl (remdups_adj (a # xs))) t"
proof (induction xs arbitrary: a br ex t)
  case (Cons x xs)
  show ?case
  proof (cases "x = a")
    case True
    then show ?thesis using Cons.IH [of a br ex t] by simp
  next
    case False
    have r: "tl (remdups_adj (a # x # xs)) = x # tl (remdups_adj (x # xs))"
      using False by (simp del: remdups_adj.simps(3) add: remdups_adj.simps(3) [of a x xs])
    show ?thesis unfolding r using False Cons.IH [of x] by (simp add: Let_def del: remdups_adj_Cons_alt)
  qed
qed simp

lemma replay_collapse: "replay_region dec None xs t = replay_region dec None (remdups_adj xs) t"
proof (cases xs)
  case (Cons x ys)
  have "remdups_adj (x # ys) = x # tl (remdups_adj (x # ys))" by (metis list.sel(3) remdups_adj_Cons_alt)
  then show ?thesis unfolding Cons using replay_adj [of dec x _ _ ys]
    by (metis (no_types, lifting) option.simps(4) replay_region.simps(2))
qed simp

abbreviation step_offs :: "u64 \<Rightarrow> nat \<Rightarrow> exec_step list \<Rightarrow> u64 list" where
  "step_offs base_ip len ss \<equiv> region_offs base_ip len (map st_at ss)"

text \<open>The block start that is due when the execution stands at \<open>a\<close>, after the recorded instruction \<open>prev\<close>.\<close>

definition due_block :: "u64 \<Rightarrow> nat \<Rightarrow> (u64 \<times> bool \<times> u64) option \<Rightarrow> u64 \<Rightarrow> trace_event list" where
  "due_block base_ip len prev a =
     (if in_region base_ip len a \<and> (case prev of None \<Rightarrow> True | Some (_, was_branch, expected) \<Rightarrow> a - base_ip \<noteq> expected \<or> was_branch)
      then [Block (a - base_ip)] else [])"

abbreviation prev_ok :: "u64 \<Rightarrow> nat \<Rightarrow> (u64 \<times> bool \<times> u64) option \<Rightarrow> u64 \<Rightarrow> bool" where
  "prev_ok base_ip len prev a \<equiv> in_region base_ip len a \<or> (case prev of None \<Rightarrow> True | Some (_, was_branch, _) \<Rightarrow> was_branch)"

lemma step_in_region:
  assumes "step_ok dec base_ip len s" "in_region base_ip len (st_at s)"
  defines "i \<equiv> dec (st_at s - base_ip)" and "off \<equiv> st_at s - base_ip"
  shows "di_len i \<noteq> 0"
    "step_events dec base_ip len s = Insn off # due_block base_ip len (Some (off, di_branch i, off + of_nat (di_len i))) (st_next s)"
    "prev_ok base_ip len (Some (off, di_branch i, off + of_nat (di_len i))) (st_next s)"
proof -
  show "di_len i \<noteq> 0" using assms(1,2) unfolding i_def by (simp add: step_ok_def Let_def)
  show "prev_ok base_ip len (Some (off, di_branch i, off + of_nat (di_len i))) (st_next s)"
    using assms(1,2) unfolding i_def by (cases "st_taken s") (auto simp: step_ok_def Let_def)
  show "step_events dec base_ip len s = Insn off # due_block base_ip len (Some (off, di_branch i, off + of_nat (di_len i))) (st_next s)"
  proof (cases "st_taken s")
    case True
    then have "di_branch i" using assms(1,2) unfolding i_def by (simp add: step_ok_def Let_def)
    then show ?thesis using assms(2) True by (simp add: step_events_def due_block_def off_def i_def)
  next
    case False
    then have "st_next s = st_at s + of_nat (di_len i)" using assms(1,2) unfolding i_def by (simp add: step_ok_def Let_def)
    then have "st_next s - base_ip = off + of_nat (di_len i)" by (simp add: off_def algebra_simps)
    then show ?thesis using assms(2) False by (simp add: step_events_def due_block_def off_def i_def)
  qed
qed

lemma replay_execution:
  assumes "exec_ok dec base_ip len a ss" "prev_ok base_ip len prev a"
    and "distinct_adj ((case prev of None \<Rightarrow> [] | Some (off, _) \<Rightarrow> [off]) @ step_offs base_ip len ss)"
    and "\<not> in_region base_ip len (if ss = [] then a else st_next (last ss))"
  shows "\<exists>prev'. replay_region dec prev (step_offs base_ip len ss) t = (True, prev', trace_run t (due_block base_ip len prev a @ exec_events dec base_ip len ss)) \<and>
    (case prev' of None \<Rightarrow> True | Some (_, was_branch, _) \<Rightarrow> was_branch)"
  using assms
proof (induction ss arbitrary: a prev t)
  case Nil
  then show ?case by (auto simp: due_block_def)
next
  case (Cons s ss)
  have s: "st_at s = a" "step_ok dec base_ip len s" "exec_ok dec base_ip len (st_next s) ss" using Cons.prems(1) by auto
  have last: "\<not> in_region base_ip len (if ss = [] then st_next s else st_next (last ss))" using Cons.prems(4) by (auto split: if_splits)
  show ?case
  proof (cases "in_region base_ip len a")
    case True
    let ?off = "a - base_ip" and ?i = "dec (a - base_ip)"
    let ?prev = "Some (?off, di_branch ?i, ?off + of_nat (di_len ?i))"
    note i = step_in_region [OF s(2), unfolded s(1), OF True]
    have o: "step_offs base_ip len (s # ss) = ?off # step_offs base_ip len ss" using True s(1) by simp
    have d: "distinct_adj (?off # step_offs base_ip len ss)" "case prev of Some (off, _) \<Rightarrow> ?off \<noteq> off | None \<Rightarrow> True"
      using Cons.prems(3) unfolding o by (auto split: option.splits simp: distinct_adj_Cons)
    let ?t = "append_insn (trace_run t (due_block base_ip len prev a)) ?off"
    obtain prev' where p: "replay_region dec ?prev (step_offs base_ip len ss) ?t =
        (True, prev', trace_run ?t (due_block base_ip len ?prev (st_next s) @ exec_events dec base_ip len ss))"
        "case prev' of None \<Rightarrow> True | Some (_, was_branch, _) \<Rightarrow> was_branch"
      using Cons.IH [OF s(3) i(3) _ last, of ?t] d(1) by auto
    have "replay_region dec prev (?off # step_offs base_ip len ss) t = replay_region dec ?prev (step_offs base_ip len ss) ?t"
      using d(2) i(1) True by (cases prev) (auto simp: due_block_def Let_def)
    then show ?thesis unfolding o using p i(2) by simp
  next
    case False
    have n: "due_block base_ip len prev a = []" "step_offs base_ip len (s # ss) = step_offs base_ip len ss" using False s(1) by (simp_all add: due_block_def)
    have e: "step_events dec base_ip len s = due_block base_ip len prev (st_next s)"
      using False s(1,2) Cons.prems(2) by (auto simp: step_events_def due_block_def step_ok_def split: option.splits)
    have "prev_ok base_ip len prev (st_next s)" using False Cons.prems(2) by auto
    from Cons.IH [OF s(3) this _ last] Cons.prems(3) show ?thesis unfolding n e exec_events_simps by simp
  qed
qed

lemma due_at_entry: "0 < len \<Longrightarrow> good_region dec base_ip len \<Longrightarrow> due_block base_ip len None base_ip = [Block 0]"
  by (simp add: due_block_def good_region_def in_region_unat)

section \<open>The outcomes of opening a frame\<close>

text \<open>The watchdog a frame gets.\<close>

abbreviation watchdog_of :: "bool \<Rightarrow> ss_config \<Rightarrow> u32" where
  "watchdog_of whole cf \<equiv> (if whole \<and> cf_watchdog cf = 0 then SS_WINDOW_WATCHDOG_MS_DEFAULT else cf_watchdog cf)"

abbreviation budget_of :: "bool \<Rightarrow> ss_config \<Rightarrow> u64" where
  "budget_of whole cf \<equiv> (if whole \<and> cf_budget cf = 0 then SS_WINDOW_BUDGET_DEFAULT else cf_budget cf)"

abbreviation pushed :: "int \<Rightarrow> u64 \<Rightarrow> nat \<Rightarrow> nat \<Rightarrow> bool \<Rightarrow> ss_config \<Rightarrow> ss_thread \<Rightarrow> ss_thread" where
  "pushed tid base len trace whole cf th \<equiv>
     th\<lparr>tls_frames := (tls_frames th)[tls_depth th := fill_frame tid base len trace whole (budget_of whole cf) (watchdog_of whole cf) (tls_gen_ctr th + 1)],
       tls_gen_ctr := tls_gen_ctr th + 1\<rparr>"

abbreviation armed :: "u64 list \<Rightarrow> bool \<Rightarrow> ss_config \<Rightarrow> ss_globals \<Rightarrow> ss_globals" where
  "armed syms whole cf g \<equiv>
     (ss_publish syms cf whole (watchdog_of whole cf) (g\<lparr>g_installed := g_arm_refcount g = 0 \<or> g_installed g, g_arm_refcount := g_arm_refcount g + 1\<rparr>))\<lparr>g_armed := True\<rparr>"

lemma push_fits:
  assumes "if whole then base = 0 \<and> len = 0 else base \<noteq> 0 \<and> len \<noteq> 0" "tls_depth th < SS_MAX_FRAMES" "alloc h = (True, h1)"
  shows "ss_push_frame syms tid base len trace whole cf h g th =
    (case (if g_arm_refcount g = 0 then alloc h1 else (True, h1)) of (ok, h2) \<Rightarrow>
       if ok then (ASMTEST_HW_OK, Some (tls_depth th, tls_gen_ctr th + 1), armed syms whole cf g, (pushed tid base len trace whole cf th)\<lparr>tls_depth := tls_depth th + 1\<rparr>, h2)
       else (SS_EINVAL, Some (tls_depth th, tls_gen_ctr th + 1), g, pushed tid base len trace whole cf th, h2))"
proof -
  have g: "(if g_arm_refcount g = 0 then g\<lparr>g_installed := True\<rparr> else g) = g\<lparr>g_installed := g_arm_refcount g = 0 \<or> g_installed g\<rparr>"
    "g_arm_refcount (if g_arm_refcount g = 0 then g\<lparr>g_installed := True\<rparr> else g) = g_arm_refcount g" by simp_all
  have n: "\<not> (whole \<and> (base \<noteq> 0 \<or> len \<noteq> 0))" "\<not> (\<not> whole \<and> (base = 0 \<or> len = 0))" "\<not> tls_depth th \<ge> SS_MAX_FRAMES" using assms(1,2) by (auto split: if_splits)
  show ?thesis unfolding ss_push_frame_def Let_def if_not_P [OF n(1)] if_not_P [OF n(2)] if_not_P [OF n(3)] assms(3) prod.case bool.case g
    by (simp split: prod.split bool.split)
qed

lemma push_refused:
  assumes "\<not> ((if whole then base = 0 \<and> len = 0 else base \<noteq> 0 \<and> len \<noteq> 0) \<and> tls_depth th < SS_MAX_FRAMES \<and> fst (alloc h))"
  shows "\<exists>rc h'. rc \<noteq> ASMTEST_HW_OK \<and> ss_push_frame syms tid base len trace whole cf h g th = (rc, None, g, th, h')"
  using assms by (cases "alloc h") (auto simp: ss_push_frame_def Let_def SS_EINVAL_def SS_EFULL_def hw_codes split: if_splits bool.split)

lemma push_cases:
  assumes "ss_push_frame syms tid base len trace whole cf h g th = (rc, hnd, g', th', h')"
  obtains "rc \<noteq> ASMTEST_HW_OK" "hnd = None" "g' = g" "th' = th"
  | "rc \<noteq> ASMTEST_HW_OK" "hnd = Some (tls_depth th, tls_gen_ctr th + 1)" "g' = g" "th' = pushed tid base len trace whole cf th" "tls_depth th < SS_MAX_FRAMES"
  | "rc = ASMTEST_HW_OK" "hnd = Some (tls_depth th, tls_gen_ctr th + 1)" "g' = armed syms whole cf g"
      "th' = (pushed tid base len trace whole cf th)\<lparr>tls_depth := tls_depth th + 1\<rparr>" "tls_depth th < SS_MAX_FRAMES"
proof (cases "(if whole then base = 0 \<and> len = 0 else base \<noteq> 0 \<and> len \<noteq> 0) \<and> tls_depth th < SS_MAX_FRAMES \<and> fst (alloc h)")
  case True
  then obtain h1 where a: "alloc h = (True, h1)" by (cases "alloc h") auto
  obtain ok h2 where b: "(if g_arm_refcount g = 0 then alloc h1 else (True, h1)) = (ok, h2)" by fastforce
  note e = push_fits [OF conjunct1 [OF True] conjunct1 [OF conjunct2 [OF True]] a, of syms tid trace cf g]
  show thesis
  proof (cases ok)
    case True
    with e b assms have "rc = ASMTEST_HW_OK" "hnd = Some (tls_depth th, tls_gen_ctr th + 1)" "g' = armed syms whole cf g"
      "th' = (pushed tid base len trace whole cf th)\<lparr>tls_depth := tls_depth th + 1\<rparr>" by simp_all
    then show thesis using that(3) \<open>_ \<and> tls_depth th < SS_MAX_FRAMES \<and> _\<close> by blast
  next
    case False
    with e b assms have "rc = SS_EINVAL" "hnd = Some (tls_depth th, tls_gen_ctr th + 1)" "g' = g" "th' = pushed tid base len trace whole cf th" by simp_all
    then show thesis using that(2) \<open>_ \<and> tls_depth th < SS_MAX_FRAMES \<and> _\<close> by (simp add: SS_EINVAL_def hw_codes)
  qed
next
  case False
  from push_refused [OF this, of syms tid trace cf g] assms
  have "rc \<noteq> ASMTEST_HW_OK" "hnd = None" "g' = g" "th' = th" by auto
  then show thesis by (rule that(1))
qed

lemma region_frame_fold:
  assumes "\<not> fr_whole f"
  shows "fold (record_frame g) rips f = fold record_region rips f" "fr_trace (fold record_region rips f) = fr_trace f"
    "fr_base (fold record_region rips f) = fr_base f" "fr_whole (fold record_region rips f) = fr_whole f"
    "fr_gen (fold record_region rips f) = fr_gen f" "fr_arm_tid (fold record_region rips f) = fr_arm_tid f" "fr_len (fold record_region rips f) = fr_len f"
  using assms by (induction rips arbitrary: f) (simp_all add: record_frame_def record_region_def)

lemma end_top:
  assumes "0 < tls_depth th" "tls_depth th \<le> length (tls_frames th)" "fr_trace (tls_frames th ! (tls_depth th - 1)) \<noteq> 0"
  defines "f \<equiv> tls_frames th ! (tls_depth th - 1)"
  shows "\<exists>g' th'. asmtest_ss_end dec traces g th = (traces(fr_trace f := ss_normalize (dec (fr_base f)) f (traces (fr_trace f))), g', th') \<and>
    tls_depth th' = tls_depth th - 1 \<and> tls_frames th' = (tls_frames th)[tls_depth th - 1 := f\<lparr>fr_stream := []\<rparr>]"
  using assms unfolding f_def by (simp add: asmtest_ss_end_def Let_def)

text \<open>A call in a scope whose buffer and disposition are granted: it closes the frame it opened.\<close>

lemma call_scoped_ok:
  fixes rips :: "u64 list" and tid :: int
  assumes "base \<noteq> 0" "len \<noteq> 0" "0 \<le> nargs" "nargs \<le> 6" "nargs > 0 \<longrightarrow> args" "tls_depth th < SS_MAX_FRAMES" "length (tls_frames th) = SS_MAX_FRAMES"
    and "set h \<subseteq> {True}" "trace \<noteq> 0"
  defines "f \<equiv> fold record_region rips (fill_frame tid base len trace False UINT64_MAX UINT32_MAX (tls_gen_ctr th + 1))"
  shows "\<exists>g' th' h'. asmtest_ss_call_scoped dec tid base len trace True nargs args rips result h traces g th =
     (ASMTEST_HW_OK, Some result, Some (tls_depth th, tls_gen_ctr th + 1), traces(trace := ss_normalize (dec base) f (traces trace)), g', th', h') \<and>
     tls_depth th' = tls_depth th \<and> tls_frames th' ! tls_depth th = f\<lparr>fr_stream := []\<rparr>"
proof -
  let ?d = "tls_depth th"
  obtain h1 where h1: "alloc h = (True, h1)" "set h1 \<subseteq> {True}" using assms(8) by (cases h) auto
  obtain h2 where h2: "(if g_arm_refcount g = 0 then alloc h1 else (True, h1)) = (True, h2)"
    using h1(2) by (cases "g_arm_refcount g = 0"; cases h1) auto
  define th1 where "th1 = (pushed tid base len trace False no_guards th)\<lparr>tls_depth := ?d + 1\<rparr>"
  define g1 where "g1 = armed [] False no_guards g"
  have b: "ss_push_frame [] tid base len trace False no_guards h g th = (ASMTEST_HW_OK, Some (?d, tls_gen_ctr th + 1), g1, th1, h2)"
    using push_fits [of False base len th h h1 "[]" tid trace no_guards g] assms(1,2,6) h1(1) h2 by (simp add: th1_def g1_def)
  define th2 where "th2 = ss_traps g1 rips th1"
  have t2: "th2 = th1\<lparr>tls_frames := map (fold (record_frame g1) rips) (take (?d + 1) (tls_frames th1)) @ drop (?d + 1) (tls_frames th1)\<rparr>"
    unfolding th2_def by (subst traps_frames) (simp_all add: g1_def th1_def)
  have l: "?d < length (tls_frames th)" using assms(6,7) by simp
  have f0: "tls_frames th1 ! ?d = fill_frame tid base len trace False UINT64_MAX UINT32_MAX (tls_gen_ctr th + 1)"
    using l by (simp add: th1_def fill_frame_def)
  then have "\<not> fr_whole (tls_frames th1 ! ?d)" by (simp add: fill_frame_def)
  note r = region_frame_fold [OF this]
  have f: "tls_frames th2 ! ?d = f" using l r(1) unfolding f_def f0 by (simp add: t2 th1_def nth_append no_guards_def)
  have ft: "fr_trace f = trace" "fr_base f = base" using r(2,3) [of rips] unfolding f0 f_def by (simp_all add: fill_frame_def)
  have d2: "tls_depth th2 = ?d + 1" "?d + 1 \<le> length (tls_frames th2)" using l by (simp_all add: t2 th1_def)
  from end_top [of th2 dec traces g1] d2 f ft assms(9) obtain g' th' where e: "asmtest_ss_end dec traces g1 th2 =
      (traces(trace := ss_normalize (dec base) f (traces trace)), g', th')" "tls_depth th' = ?d" "tls_frames th' = (tls_frames th2)[?d := f\<lparr>fr_stream := []\<rparr>]" by auto
  have "asmtest_ss_call_scoped dec tid base len trace True nargs args rips result h traces g th =
     (ASMTEST_HW_OK, Some result, Some (?d, tls_gen_ctr th + 1), traces(trace := ss_normalize (dec base) f (traces trace)), g', th', h2)"
    using assms(3-5) b e(1) by (auto simp: asmtest_ss_call_scoped_def scoped_call_def th2_def)
  then show ?thesis using e(2,3) d2(2) by auto
qed

text \<open>
  C22: The single-step back end and the branch-record back end agree. Take an execution that enters the region at its base and ends by leaving it, in which
  no instruction of the region is followed by itself. A scoped call that traps at every instruction of it (anywhere outside the region too, and any number of times at a repeated string
  instruction), with at most \<open>SS_STREAM_CAP\<close> traps in the region, succeeds, returns the call's result and writes to the trace exactly what the replay of the
  hardware's record of the same execution's taken branches writes: the same blocks and instructions in the same order, nothing marked truncated by either. The frame is
  gone from the stack and its handle still resolves to the region and the trace.
\<close>

theorem singlestep_matches_branch_records:
  assumes "good_region (dec base) base len" "base \<noteq> 0" "0 < len" "exec_ok (dec base) base len base ss"
    and "ss \<noteq> []" "st_taken (last ss)" "\<not> in_region base len (st_next (last ss))"
    and "distinct_adj (step_offs base len ss)" "remdups_adj (region_offs base len rips) = step_offs base len ss" "length (region_offs base len rips) \<le> SS_STREAM_CAP"
    and "map edge_of (filter (\<lambda>e. \<not> br_dropped have_spec e) br) = rev (taken_edges ss)"
    and "0 \<le> nargs" "nargs \<le> 6" "nargs > 0 \<longrightarrow> args" "tls_depth th < SS_MAX_FRAMES" "length (tls_frames th) = SS_MAX_FRAMES"
    and "set h \<subseteq> {True}" "trace \<noteq> 0" "tls_gen_ctr th + 1 \<noteq> 0"
  shows "\<exists>g' th' h'. asmtest_ss_call_scoped dec tid base len trace True nargs args rips result h traces g th =
     (ASMTEST_HW_OK, Some result, Some (tls_depth th, tls_gen_ctr th + 1),
      traces(trace := snd (amd_replay have_spec (dec base) br base len (traces trace))), g', th', h') \<and>
     tls_depth th' = tls_depth th \<and> asmtest_ss_frame_lookup (of_nat (tls_depth th)) (tls_gen_ctr th + 1) tid th' = Some (base, len, trace)"
proof -
  let ?offs = "region_offs base len rips" and ?t = "traces trace"
  define f where "f = fold record_region rips (fill_frame tid base len trace False UINT64_MAX UINT32_MAX (tls_gen_ctr th + 1))"
  have f: "fr_stream f = ?offs" "\<not> fr_overflow f" "\<not> fr_whole f" "fr_base f = base" "fr_len f = len" "fr_trace f = trace" "fr_gen f = tls_gen_ctr th + 1" "fr_arm_tid f = tid"
    unfolding f_def using assms(10) by (subst record_region_fold; simp add: fill_frame_def)+
  have out: "\<not> in_region base len (if ss = [] then base else st_next (last ss))" using assms(5,7) by simp
  from replay_execution [OF assms(4) _ _ out, of None] assms(8) obtain prev where p:
      "replay_region (dec base) None (step_offs base len ss) ?t = (True, prev, trace_run ?t (Block 0 # exec_events (dec base) base len ss))"
      "case prev of None \<Rightarrow> True | Some (_, was_branch, _) \<Rightarrow> was_branch"
    unfolding due_at_entry [OF assms(3,1)] by auto
  have e: "enters_at_base base len base ss" using assms(1,3) by (simp add: enters_at_base_def good_region_def in_region_unat)
  have "replay_region (dec base) None ?offs ?t = (True, prev, trace_run ?t (Block 0 # exec_events (dec base) base len ss))"
    using p(1) replay_collapse [of "dec base" ?offs ?t] assms(9) by simp
  then have "ss_normalize (dec base) f ?t = trace_run ?t (Block 0 # exec_events (dec base) base len ss)"
    using p(2) f by (auto simp: ss_normalize_def split: option.splits)
  also have "\<dots> = snd (amd_replay have_spec (dec base) br base len ?t)" by (simp add: replay_of_execution [OF assms(1,4) e assms(5,6,7,11)])
  finally have n: "ss_normalize (dec base) f ?t = snd (amd_replay have_spec (dec base) br base len ?t)" .
  have "unat (of_nat (tls_depth th) :: u32) = tls_depth th" using assms(15) by (simp add: unat_of_nat SS_MAX_FRAMES_def)
  then have "asmtest_ss_frame_lookup (of_nat (tls_depth th)) (tls_gen_ctr th + 1) tid th' = Some (base, len, trace)"
    if "tls_frames th' ! tls_depth th = f\<lparr>fr_stream := []\<rparr>" for th'
    using that f assms(15,19) by (simp add: asmtest_ss_frame_lookup_def Let_def)
  with call_scoped_ok [OF assms(2) _ assms(12-18), of len dec tid rips result traces g] assms(3) n
  show ?thesis unfolding f_def by fastforce
qed

section \<open>Threads\<close>

text \<open>
  A process: the globals, the traces, and the stack of every thread. \<open>log\<close> lists the handles that were issued, with the thread and what each was issued for.
\<close>

type_synonym ss_handle = "int \<times> nat \<times> u32 \<times> u64 \<times> nat \<times> nat"

record ss_process =
  pr_globals :: ss_globals
  pr_threads :: "int \<Rightarrow> ss_thread"
  pr_traces :: "nat \<Rightarrow> asmtest_trace"
  pr_log :: "ss_handle list"

definition ss_boot :: "(nat \<Rightarrow> asmtest_trace) \<Rightarrow> ss_process" where
  "ss_boot traces = \<lparr>pr_globals = ss_init, pr_threads = (\<lambda>_. new_thread), pr_traces = traces, pr_log = []\<rparr>"

datatype ss_op =
    Open int "u64 list" u64 nat nat bool ss_config heap
  | Close int "u64 \<Rightarrow> decoder"
  | Trap int u64
  | Alarm

fun ss_exec :: "ss_op \<Rightarrow> ss_process \<Rightarrow> ss_process" where
  "ss_exec (Open tid syms base len trace whole cf h) p =
     (case ss_push_frame syms tid base len trace whole cf h (pr_globals p) (pr_threads p tid) of
        (rc, hnd, g, th, h') \<Rightarrow> p\<lparr>pr_globals := g, pr_threads := (pr_threads p)(tid := th),
           pr_log := (case hnd of None \<Rightarrow> pr_log p | Some (idx, gen) \<Rightarrow> (tid, idx, gen, base, len, trace) # pr_log p)\<rparr>)"
| "ss_exec (Close tid dec) p =
     (case asmtest_ss_end dec (pr_traces p) (pr_globals p) (pr_threads p tid) of
        (traces, g, th) \<Rightarrow> p\<lparr>pr_globals := g, pr_threads := (pr_threads p)(tid := th), pr_traces := traces\<rparr>)"
| "ss_exec (Trap tid rip) p = p\<lparr>pr_threads := (pr_threads p)(tid := fst (ss_on_sigtrap (pr_globals p) rip (pr_threads p tid)))\<rparr>"
| "ss_exec Alarm p = p\<lparr>pr_globals := (pr_globals p)\<lparr>g_ww_alarm_fired := True\<rparr>\<rparr>"

text \<open>A sum over the threads, of which all but finitely many have nothing.\<close>

definition thread_sum :: "(int \<Rightarrow> nat) \<Rightarrow> nat \<Rightarrow> bool" where
  "thread_sum d n \<longleftrightarrow> finite {t. d t \<noteq> 0} \<and> n = (\<Sum>t | d t \<noteq> 0. d t)"

lemma thread_sum_upd:
  assumes "thread_sum d n"
  shows "d t \<le> n" "thread_sum (d(t := v)) (n - d t + v)"
proof -
  let ?A = "insert t {t. d t \<noteq> 0}" and ?e = "d(t := v)"
  have fin: "finite ?A" and n: "n = (\<Sum>t\<in>?A. d t)" using assms by (auto simp: thread_sum_def intro!: sum.mono_neutral_left)
  show "d t \<le> n" unfolding n by (rule member_le_sum) (use fin in auto)
  have "(\<Sum>s | ?e s \<noteq> 0. ?e s) = (\<Sum>s\<in>?A. ?e s)" by (rule sum.mono_neutral_left) (use fin in auto)
  also have "\<dots> = v + (\<Sum>s\<in>?A - {t}. d s)" by (subst sum.remove [OF fin, of t]) auto
  also have "\<dots> = n - d t + v" unfolding n by (subst sum.remove [OF fin, of t]) auto
  finally have "n - d t + v = (\<Sum>s | ?e s \<noteq> 0. ?e s)" by (rule sym)
  moreover have "finite {s. ?e s \<noteq> 0}" by (rule finite_subset [OF _ fin]) auto
  ultimately show "thread_sum ?e (n - d t + v)" unfolding thread_sum_def by blast
qed

lemma thread_sum_zero: "thread_sum d n \<Longrightarrow> n = 0 \<longleftrightarrow> (\<forall>t. d t = 0)"
  by (auto simp: thread_sum_def)

abbreviation watched :: "ss_thread \<Rightarrow> nat" where
  "watched th \<equiv> length (filter (\<lambda>f. fr_whole f \<and> fr_watchdog f \<noteq> UINT32_MAX) (take (tls_depth th) (tls_frames th)))"

definition arming_ok :: "ss_globals \<Rightarrow> (int \<Rightarrow> ss_thread) \<Rightarrow> bool" where
  "arming_ok g ths \<longleftrightarrow>
     thread_sum (\<lambda>t. tls_depth (ths t)) (g_arm_refcount g) \<and> thread_sum (\<lambda>t. watched (ths t)) (g_ww_refcount g) \<and>
     (g_armed g \<longleftrightarrow> g_arm_refcount g \<noteq> 0) \<and> (g_installed g \<longleftrightarrow> g_arm_refcount g \<noteq> 0) \<and>
     length (g_deny g) \<le> SS_MAX_DENY \<and> (g_arm_refcount g = 0 \<longrightarrow> g_deny g = []) \<and>
     (\<forall>t. tls_depth (ths t) \<le> SS_MAX_FRAMES \<and> length (tls_frames (ths t)) = SS_MAX_FRAMES)"

lemma deny_append_fields [simp]:
  "g_armed (ss_deny_append e g) = g_armed g" "g_installed (ss_deny_append e g) = g_installed g" "g_arm_refcount (ss_deny_append e g) = g_arm_refcount g"
  "g_ww_refcount (ss_deny_append e g) = g_ww_refcount g" "g_ww_alarm_fired (ss_deny_append e g) = g_ww_alarm_fired g"
  by (simp_all add: ss_deny_append_def)

lemma deny_fold_fields [simp]:
  "g_armed (fold ss_deny_append es g) = g_armed g" "g_installed (fold ss_deny_append es g) = g_installed g" "g_arm_refcount (fold ss_deny_append es g) = g_arm_refcount g"
  "g_ww_refcount (fold ss_deny_append es g) = g_ww_refcount g" "g_ww_alarm_fired (fold ss_deny_append es g) = g_ww_alarm_fired g"
  by (induction es arbitrary: g) simp_all

lemma deny_fold_bound: "length (g_deny g) \<le> SS_MAX_DENY \<Longrightarrow> length (g_deny (fold ss_deny_append es g)) \<le> SS_MAX_DENY"
  by (induction es arbitrary: g) (auto simp: ss_deny_append_def)

lemma default_is_fold: "ss_deny_append_default syms = fold ss_deny_append (map (\<lambda>a. (a, 64)) syms)"
  by (simp add: ss_deny_append_default_def fun_eq_iff fold_map comp_def)

lemma publish_fields [simp]:
  "g_armed (ss_publish syms cf whole w g) = g_armed g" "g_installed (ss_publish syms cf whole w g) = g_installed g"
  "g_arm_refcount (ss_publish syms cf whole w g) = g_arm_refcount g"
  "g_ww_refcount (ss_publish syms cf whole w g) = g_ww_refcount g + (if whole \<and> w \<noteq> UINT32_MAX then 1 else 0)"
  by (simp_all add: ss_publish_def Let_def default_is_fold)

lemma publish_bound: "length (g_deny g) \<le> SS_MAX_DENY \<Longrightarrow> length (g_deny (ss_publish syms cf whole w g)) \<le> SS_MAX_DENY"
  by (simp add: ss_publish_def Let_def default_is_fold deny_fold_bound)

lemma record_frame_fields [simp]:
  "fr_whole (record_frame g r f) = fr_whole f" "fr_watchdog (record_frame g r f) = fr_watchdog f" "fr_gen (record_frame g r f) = fr_gen f"
  "fr_arm_tid (record_frame g r f) = fr_arm_tid f" "fr_base (record_frame g r f) = fr_base f" "fr_len (record_frame g r f) = fr_len f" "fr_trace (record_frame g r f) = fr_trace f"
  by (simp_all add: record_frame_def record_window_def record_region_def Let_def)

lemma upd_depth: "(\<lambda>s. F ((ths(t := th)) s)) = (\<lambda>s. F (ths s))(t := F th)" by auto

lemma arming_upd:
  assumes "arming_ok g ths" "tls_depth th \<le> SS_MAX_FRAMES" "length (tls_frames th) = SS_MAX_FRAMES"
    and "g_arm_refcount g' = g_arm_refcount g - tls_depth (ths t) + tls_depth th" "g_ww_refcount g' = g_ww_refcount g - watched (ths t) + watched th"
    and "g_armed g' \<longleftrightarrow> g_arm_refcount g' \<noteq> 0" "g_installed g' \<longleftrightarrow> g_arm_refcount g' \<noteq> 0" "length (g_deny g') \<le> SS_MAX_DENY" "g_arm_refcount g' = 0 \<longrightarrow> g_deny g' = []"
  shows "arming_ok g' (ths(t := th))"
proof -
  have d: "thread_sum (\<lambda>s. tls_depth (ths s)) (g_arm_refcount g)" and w: "thread_sum (\<lambda>s. watched (ths s)) (g_ww_refcount g)"
    and l: "\<forall>s. tls_depth (ths s) \<le> SS_MAX_FRAMES \<and> length (tls_frames (ths s)) = SS_MAX_FRAMES"
    using assms(1) by (simp_all add: arming_ok_def)
  show ?thesis unfolding arming_ok_def upd_depth [of tls_depth] upd_depth [of watched]
    using thread_sum_upd(2) [OF d, of t "tls_depth th"] thread_sum_upd(2) [OF w, of t "watched th"] l assms(2-9) by simp
qed

lemma arming_open:
  assumes "arming_ok g ths" "ss_push_frame syms t base len trace whole cf h g (ths t) = (rc, hnd, g', th', h')"
  shows "arming_ok g' (ths(t := th'))"
proof -
  let ?th = "ths t" let ?d = "tls_depth ?th"
  have d: "thread_sum (\<lambda>s. tls_depth (ths s)) (g_arm_refcount g)" and w: "thread_sum (\<lambda>s. watched (ths s)) (g_ww_refcount g)"
    and l: "length (tls_frames ?th) = SS_MAX_FRAMES" "length (g_deny g) \<le> SS_MAX_DENY" "?d \<le> SS_MAX_FRAMES"
      "(g_arm_refcount g = 0 \<or> g_installed g) = True"
    using assms(1) by (auto simp: arming_ok_def)
  note le = thread_sum_upd(1) [OF d, of t] thread_sum_upd(1) [OF w, of t]
  show ?thesis using assms(2)
  proof (cases rule: push_cases)
    case 1
    then show ?thesis using assms(1) by simp
  next
    case 2
    show ?thesis by (rule arming_upd [OF assms(1)]) (use 2 l le assms(1) in \<open>simp_all add: arming_ok_def\<close>)
  next
    case 3
    have "take (Suc ?d) (tls_frames th') = take ?d (tls_frames ?th) @ [fill_frame t base len trace whole (budget_of whole cf) (watchdog_of whole cf) (tls_gen_ctr ?th + 1)]"
      using 3(4,5) l(1) by (simp add: take_Suc_conv_app_nth)
    then have "watched th' = watched ?th + (if whole \<and> watchdog_of whole cf \<noteq> UINT32_MAX then 1 else 0)"
      using 3(4) by (simp add: fill_frame_def)
    moreover have "length (g_deny g') \<le> SS_MAX_DENY" using 3(3) l(2) by (simp add: publish_bound)
    ultimately show ?thesis by (intro arming_upd [OF assms(1)]) (use 3 l le in simp_all)
  qed
qed

lemma arming_close:
  assumes "arming_ok g ths" "asmtest_ss_end dec traces g (ths t) = (traces', g', th')"
  shows "arming_ok g' (ths(t := th'))"
proof (cases "tls_depth (ths t) = 0")
  case True
  then have "g' = g" "th' = ths t" using assms(2) by (auto simp: asmtest_ss_end_def)
  then show ?thesis using assms(1) by (simp only: fun_upd_triv)
next
  case False
  let ?th = "ths t" let ?d = "tls_depth ?th" let ?f = "tls_frames ?th ! (?d - 1)"
  have d: "thread_sum (\<lambda>s. tls_depth (ths s)) (g_arm_refcount g)" and w: "thread_sum (\<lambda>s. watched (ths s)) (g_ww_refcount g)"
    and l: "length (tls_frames ?th) = SS_MAX_FRAMES" "?d \<le> SS_MAX_FRAMES" "length (g_deny g) \<le> SS_MAX_DENY" "g_armed g" "g_installed g"
    using assms(1) False thread_sum_upd(1) [of "\<lambda>s. tls_depth (ths s)" "g_arm_refcount g" t] by (auto simp: arming_ok_def)
  note le = thread_sum_upd(1) [OF d, of t] thread_sum_upd(1) [OF w, of t]
  define g1 where "g1 = (if fr_whole ?f \<and> fr_watchdog ?f \<noteq> UINT32_MAX then g\<lparr>g_ww_refcount := g_ww_refcount g - 1\<rparr> else g)\<lparr>g_arm_refcount := g_arm_refcount g - 1\<rparr>"
  have e: "th' = ?th\<lparr>tls_depth := ?d - 1, tls_frames := (tls_frames ?th)[?d - 1 := ?f\<lparr>fr_stream := []\<rparr>]\<rparr>"
    "g' = (if g_arm_refcount g1 = 0 then g1\<lparr>g_installed := False, g_armed := False, g_deny := []\<rparr> else g1)"
    using assms(2) False by (auto simp: asmtest_ss_end_def Let_def g1_def split: if_splits)
  have "take ?d (tls_frames ?th) = take (?d - 1) (tls_frames ?th) @ [?f]"
    using False l(1,2) take_Suc_conv_app_nth [of "?d - 1" "tls_frames ?th"] by simp
  then have "watched ?th = watched th' + (if fr_whole ?f \<and> fr_watchdog ?f \<noteq> UINT32_MAX then 1 else 0)" using e(1) by simp
  then show ?thesis by (intro arming_upd [OF assms(1)]) (use e l le False in \<open>auto simp: g1_def\<close>)
qed

lemma arming_trap:
  assumes "arming_ok g ths"
  shows "arming_ok g (ths(t := fst (ss_on_sigtrap g rip (ths t))))"
proof -
  let ?th = "ths t" let ?d = "tls_depth ?th" and ?fs = "tls_frames (ths t)"
  have l: "length ?fs = SS_MAX_FRAMES" "?d \<le> SS_MAX_FRAMES" and w: "thread_sum (\<lambda>s. watched (ths s)) (g_ww_refcount g)"
    and d: "thread_sum (\<lambda>s. tls_depth (ths s)) (g_arm_refcount g)" using assms by (simp_all add: arming_ok_def)
  define th' where "th' = fst (ss_on_sigtrap g rip ?th)"
  have th: "th' = ?th \<or> th' = ?th\<lparr>tls_frames := map (record_frame g rip) (take ?d ?fs) @ drop ?d ?fs\<rparr>" by (simp add: th'_def ss_on_sigtrap_def Let_def)
  then have "watched th' = watched ?th" "tls_depth th' = ?d" "length (tls_frames th') = SS_MAX_FRAMES" using l by (auto simp: filter_map comp_def)
  then show ?thesis unfolding th'_def [symmetric]
    by (intro arming_upd [OF assms]) (use assms l thread_sum_upd(1) [OF d, of t] thread_sum_upd(1) [OF w, of t] in \<open>simp_all add: arming_ok_def\<close>)
qed

lemma arming_exec:
  assumes "arming_ok (pr_globals p) (pr_threads p)"
  shows "arming_ok (pr_globals (ss_exec x p)) (pr_threads (ss_exec x p))"
proof (cases x)
  case (Open t syms base len trace whole cf h)
  obtain rc hnd g th h' where "ss_push_frame syms t base len trace whole cf h (pr_globals p) (pr_threads p t) = (rc, hnd, g, th, h')" by (metis prod_cases5)
  with arming_open [OF assms this] Open show ?thesis by simp
next
  case (Close t dec)
  obtain tr g th where "asmtest_ss_end dec (pr_traces p) (pr_globals p) (pr_threads p t) = (tr, g, th)" by (metis prod_cases3)
  with arming_close [OF assms this] Close show ?thesis by simp
next
  case (Trap t rip)
  then show ?thesis using arming_trap [OF assms] by simp
next
  case Alarm
  then show ?thesis using assms by (simp add: arming_ok_def)
qed

lemma arming_boot: "arming_ok (pr_globals (ss_boot traces)) (pr_threads (ss_boot traces))"
  by (simp add: ss_boot_def ss_init_def new_thread_def arming_ok_def thread_sum_def SS_MAX_FRAMES_def)

text \<open>
  C23: Arming is balanced. Let any threads open and close frames, be trapped and see the alarm in any order, with any of the openings refused for want of memory or because the
  disposition could not be installed. Then the reference count is the number of open frames of all threads; the process-wide handler is installed, and the belt that the handler tests first set, exactly while some frame
  is open; the watchdog's count is the number of open windows that armed it; the deny table never outgrows its array and is empty once no frame is open; and no thread's stack outgrows its array.
\<close>

theorem singlestep_arming_balanced:
  "arming_ok (pr_globals (fold ss_exec ops (ss_boot traces))) (pr_threads (fold ss_exec ops (ss_boot traces)))"
proof -
  have "arming_ok (pr_globals p) (pr_threads p) \<Longrightarrow> arming_ok (pr_globals (fold ss_exec ops p)) (pr_threads (fold ss_exec ops p))" for p
    by (induction ops arbitrary: p) (simp_all add: arming_exec)
  then show ?thesis using arming_boot by blast
qed

section \<open>What a handle resolves to\<close>

fun gens_ok :: "ss_handle list \<Rightarrow> bool" where
  "gens_ok [] \<longleftrightarrow> True"
| "gens_ok ((t, idx, gen, x) # L) \<longleftrightarrow> gen = of_nat (Suc (length (filter (\<lambda>e. fst e = t) L))) \<and> gens_ok L"

definition handles_ok :: "ss_handle list \<Rightarrow> (int \<Rightarrow> ss_thread) \<Rightarrow> bool" where
  "handles_ok L ths \<longleftrightarrow> gens_ok L \<and>
     (\<forall>t. tls_gen_ctr (ths t) = of_nat (length (filter (\<lambda>e. fst e = t) L)) \<and> length (tls_frames (ths t)) = SS_MAX_FRAMES \<and>
        (\<forall>i<SS_MAX_FRAMES. let f = tls_frames (ths t) ! i in fr_gen f \<noteq> 0 \<longrightarrow>
           (t, i, fr_gen f, fr_base f, fr_len f, fr_trace f) \<in> set L \<and> fr_arm_tid f = t))"

lemma gens_bound:
  "gens_ok L \<Longrightarrow> length L < 2 ^ 32 \<Longrightarrow> (t, idx, gen, x) \<in> set L \<Longrightarrow> unat gen \<le> length (filter (\<lambda>e. fst e = t) L)"
proof (induction L)
  case (Cons e L)
  obtain t' idx' gen' x' where e: "e = (t', idx', gen', x')" by (cases e)
  show ?case
  proof (cases "(t, idx, gen, x) \<in> set L")
    case True
    then show ?thesis using Cons e by fastforce
  next
    case False
    have "length (filter (\<lambda>e. fst e = t) L) < 2 ^ 32 - 1" by (rule le_less_trans [OF length_filter_le]) (use Cons.prems(2) in simp)
    moreover have "gen = of_nat (Suc (length (filter (\<lambda>e. fst e = t) L)))" "t' = t" using False Cons.prems(1,3) e by auto
    ultimately show ?thesis using e by (simp add: unat_of_nat del: of_nat_Suc)
  qed
qed simp

lemma gens_unique:
  "gens_ok L \<Longrightarrow> length L < 2 ^ 32 \<Longrightarrow> (t, idx, gen, x) \<in> set L \<Longrightarrow> (t, idx', gen, x') \<in> set L \<Longrightarrow> idx = idx' \<and> x = x'"
proof (induction L)
  case (Cons e L)
  let ?n = "length (filter (\<lambda>e. fst e = t) L)"
  have n: "?n < 2 ^ 32 - 1" by (rule le_less_trans [OF length_filter_le]) (use Cons.prems(2) in simp)
  have new: "unat gen = Suc ?n" if "e = (t, i, gen, y)" for i y using Cons.prems(1) that n by (simp add: unat_of_nat del: of_nat_Suc)
  have old: "unat gen \<le> ?n" if "(t, i, gen, y) \<in> set L" for i y using gens_bound [OF _ _ that] Cons.prems(1,2) by (cases e) simp
  show ?case
  proof (cases "e = (t, idx, gen, x) \<or> e = (t, idx', gen, x')")
    case True
    then have "unat gen = Suc ?n" using new by blast
    then have "(t, i, gen, y) \<notin> set L" for i y using old [of i y] by auto
    then show ?thesis using Cons.prems(3,4) by auto
  next
    case False
    then show ?thesis using Cons by (cases e) auto
  qed
qed simp

text \<open>An update of a thread that keeps the identity of every frame keeps the handles.\<close>

lemma handles_upd:
  assumes "handles_ok L ths" "tls_gen_ctr th = tls_gen_ctr (ths t)" "length (tls_frames th) = SS_MAX_FRAMES"
    and "\<forall>i<SS_MAX_FRAMES. let f = tls_frames th ! i; f0 = tls_frames (ths t) ! i in
      fr_gen f = fr_gen f0 \<and> fr_arm_tid f = fr_arm_tid f0 \<and> fr_base f = fr_base f0 \<and> fr_len f = fr_len f0 \<and> fr_trace f = fr_trace f0"
  shows "handles_ok L (ths(t := th))"
  using assms by (auto simp: handles_ok_def Let_def)

lemma handles_push:
  assumes "handles_ok L ths" "tls_depth (ths t) < SS_MAX_FRAMES" "th = pushed t base len trace whole cf (ths t) \<or> th = (pushed t base len trace whole cf (ths t))\<lparr>tls_depth := d\<rparr>"
  shows "handles_ok ((t, tls_depth (ths t), tls_gen_ctr (ths t) + 1, base, len, trace) # L) (ths(t := th))"
proof -
  have g: "tls_gen_ctr (ths t) = of_nat (length (filter (\<lambda>e. fst e = t) L))" and l: "length (tls_frames (ths t)) = SS_MAX_FRAMES"
    and k: "gens_ok L" using assms(1) by (simp_all add: handles_ok_def)
  have c: "tls_gen_ctr th = tls_gen_ctr (ths t) + 1" "length (tls_frames th) = SS_MAX_FRAMES" using assms(3) l by auto
  have f: "tls_frames th ! i = (if i = tls_depth (ths t) then fill_frame t base len trace whole (budget_of whole cf) (watchdog_of whole cf) (tls_gen_ctr (ths t) + 1)
      else tls_frames (ths t) ! i)" if "i < SS_MAX_FRAMES" for i using assms(3) l that by auto
  show ?thesis unfolding handles_ok_def
  proof (intro conjI allI impI)
    show "gens_ok ((t, tls_depth (ths t), tls_gen_ctr (ths t) + 1, base, len, trace) # L)" using k g by (simp add: add.commute)
  next
    fix s
    show "tls_gen_ctr ((ths(t := th)) s) = of_nat (length (filter (\<lambda>e. fst e = s) ((t, tls_depth (ths t), tls_gen_ctr (ths t) + 1, base, len, trace) # L)))"
      "length (tls_frames ((ths(t := th)) s)) = SS_MAX_FRAMES" using assms(1) c g by (auto simp: handles_ok_def add.commute)
  next
    fix s i assume i: "i < SS_MAX_FRAMES"
    show "let f = tls_frames ((ths(t := th)) s) ! i in fr_gen f \<noteq> 0 \<longrightarrow>
      (s, i, fr_gen f, fr_base f, fr_len f, fr_trace f) \<in> set ((t, tls_depth (ths t), tls_gen_ctr (ths t) + 1, base, len, trace) # L) \<and> fr_arm_tid f = s"
      using assms(1) i f [OF i] by (auto simp: handles_ok_def Let_def fill_frame_def)
  qed
qed

lemma drop_stream_fields [simp]:
  "fr_gen (fs[k := (fs ! k)\<lparr>fr_stream := []\<rparr>] ! i) = fr_gen (fs ! i)" "fr_arm_tid (fs[k := (fs ! k)\<lparr>fr_stream := []\<rparr>] ! i) = fr_arm_tid (fs ! i)"
  "fr_base (fs[k := (fs ! k)\<lparr>fr_stream := []\<rparr>] ! i) = fr_base (fs ! i)" "fr_len (fs[k := (fs ! k)\<lparr>fr_stream := []\<rparr>] ! i) = fr_len (fs ! i)"
  "fr_trace (fs[k := (fs ! k)\<lparr>fr_stream := []\<rparr>] ! i) = fr_trace (fs ! i)"
proof -
  have "fs[k := (fs ! k)\<lparr>fr_stream := []\<rparr>] ! i = (if i = k \<and> k < length fs then (fs ! i)\<lparr>fr_stream := []\<rparr> else fs ! i)"
    by (cases "k < length fs") (auto simp: nth_list_update list_update_beyond)
  then show "fr_gen (fs[k := (fs ! k)\<lparr>fr_stream := []\<rparr>] ! i) = fr_gen (fs ! i)" "fr_arm_tid (fs[k := (fs ! k)\<lparr>fr_stream := []\<rparr>] ! i) = fr_arm_tid (fs ! i)"
    "fr_base (fs[k := (fs ! k)\<lparr>fr_stream := []\<rparr>] ! i) = fr_base (fs ! i)" "fr_len (fs[k := (fs ! k)\<lparr>fr_stream := []\<rparr>] ! i) = fr_len (fs ! i)"
    "fr_trace (fs[k := (fs ! k)\<lparr>fr_stream := []\<rparr>] ! i) = fr_trace (fs ! i)" by simp_all
qed

lemma end_thread:
  assumes "asmtest_ss_end dec traces g th = (traces', g', th')"
  shows "th' = th \<or> (\<exists>k. th' = th\<lparr>tls_depth := k, tls_frames := (tls_frames th)[k := (tls_frames th ! k)\<lparr>fr_stream := []\<rparr>]\<rparr>)"
proof (cases "tls_depth th = 0")
  case True
  then show ?thesis using assms by (simp add: asmtest_ss_end_def)
next
  case False
  let ?k = "tls_depth th - 1"
  have "th' = th\<lparr>tls_depth := ?k, tls_frames := (tls_frames th)[?k := (tls_frames th ! ?k)\<lparr>fr_stream := []\<rparr>]\<rparr>"
    using arg_cong [OF assms, of "\<lambda>r. snd (snd r)"] False by (simp add: asmtest_ss_end_def Let_def)
  then show ?thesis by blast
qed

lemma handles_exec:
  assumes "handles_ok (pr_log p) (pr_threads p)"
  shows "handles_ok (pr_log (ss_exec x p)) (pr_threads (ss_exec x p))"
proof (cases x)
  case (Open t syms base len trace whole cf h)
  obtain rc hnd g th h' where e: "ss_push_frame syms t base len trace whole cf h (pr_globals p) (pr_threads p t) = (rc, hnd, g, th, h')" by (metis prod_cases5)
  from e show ?thesis
  proof (cases rule: push_cases)
    case 1
    then show ?thesis using assms Open e by simp
  next
    case 2
    have "handles_ok ((t, tls_depth (pr_threads p t), tls_gen_ctr (pr_threads p t) + 1, base, len, trace) # pr_log p) ((pr_threads p)(t := th))"
      by (rule handles_push [OF assms 2(5)]) (use 2(4) in blast)
    then show ?thesis using 2(2) Open e by simp
  next
    case 3
    have "handles_ok ((t, tls_depth (pr_threads p t), tls_gen_ctr (pr_threads p t) + 1, base, len, trace) # pr_log p) ((pr_threads p)(t := th))"
      by (rule handles_push [OF assms 3(5)]) (use 3(4) in blast)
    then show ?thesis using 3(2) Open e by simp
  qed
next
  case (Close t dec)
  obtain tr g th where e: "asmtest_ss_end dec (pr_traces p) (pr_globals p) (pr_threads p t) = (tr, g, th)" by (metis prod_cases3)
  have "handles_ok (pr_log p) ((pr_threads p)(t := th))"
    by (rule handles_upd [OF assms])
      (use end_thread [OF e] assms in \<open>auto simp: Let_def handles_ok_def\<close>)
  then show ?thesis using Close e by simp
next
  case (Trap t rip)
  have "handles_ok (pr_log p) ((pr_threads p)(t := fst (ss_on_sigtrap (pr_globals p) rip (pr_threads p t))))"
    by (rule handles_upd [OF assms])
      (use assms in \<open>auto simp: ss_on_sigtrap_def Let_def handles_ok_def nth_append min_def\<close>)
  then show ?thesis using Trap by simp
qed (use assms in simp)

lemma handles_boot: "handles_ok (pr_log (ss_boot traces)) (pr_threads (ss_boot traces))"
  by (simp add: ss_boot_def new_thread_def handles_ok_def zero_frame_def)

text \<open>
  The thread-local storage of a thread goes with the thread, and the kernel may give its number to a thread that starts later, which finds that storage zeroed. \<open>Ended t\<close> is the end of
  thread \<open>t\<close>: its stack, its generation counter and its claim to the handles issued to it are gone; the globals, which it may have left armed, stay.
\<close>

datatype ss_event = Ran ss_op | Ended int

fun ss_event_exec :: "ss_event \<Rightarrow> ss_process \<Rightarrow> ss_process" where
  "ss_event_exec (Ran x) p = ss_exec x p"
| "ss_event_exec (Ended t) p = p\<lparr>pr_threads := (pr_threads p)(t := new_thread), pr_log := filter (\<lambda>e. fst e \<noteq> t) (pr_log p)\<rparr>"

abbreviation ss_run :: "(nat \<Rightarrow> asmtest_trace) \<Rightarrow> ss_event list \<Rightarrow> ss_process" where
  "ss_run traces xs \<equiv> fold ss_event_exec xs (ss_boot traces)"

lemma count_other: "filter (\<lambda>e. fst e = s) (filter (\<lambda>e. fst e \<noteq> t) L) = (if s = t then [] else filter (\<lambda>e. fst e = s) L)"
  by (induction L) auto

lemma gens_ended: "gens_ok L \<Longrightarrow> gens_ok (filter (\<lambda>e. fst e \<noteq> t) L)"
  by (induction L rule: gens_ok.induct) (auto simp: count_other simp del: filter_filter)

lemma handles_event:
  assumes "handles_ok (pr_log p) (pr_threads p)"
  shows "handles_ok (pr_log (ss_event_exec x p)) (pr_threads (ss_event_exec x p))"
proof (cases x)
  case (Ended t)
  have "gens_ok (filter (\<lambda>e. fst e \<noteq> t) (pr_log p))" using assms by (simp add: handles_ok_def gens_ended)
  then show ?thesis using assms Ended
    by (auto simp: handles_ok_def Let_def count_other new_thread_def zero_frame_def simp del: filter_filter)
qed (simp add: handles_exec [OF assms])

lemma handles_run: "handles_ok (pr_log (ss_run traces xs)) (pr_threads (ss_run traces xs))"
proof -
  have "handles_ok (pr_log q) (pr_threads q) \<Longrightarrow> handles_ok (pr_log (fold ss_event_exec xs q)) (pr_threads (fold ss_event_exec xs q))" for q
    by (induction xs arbitrary: q) (simp_all add: handles_event)
  then show ?thesis using handles_boot by blast
qed

text \<open>
  C24: While its thread lives, a handle never resolves to a frame it was not issued for. Let threads open and close frames, be trapped, end, and start anew under a number that was used before, in any order; what is
  assumed is that fewer than \<open>2 ^ 32\<close> handles belong to living threads. Take a handle issued to thread \<open>t\<close>, with its index and generation, for a region and a trace, such that \<open>t\<close> has not ended since, and let any thread
  resolve it. If it resolves at all, the thread is \<open>t\<close> itself and what it finds are that region and that trace, although every thread numbers its own frames from 1 and a slot of the stack
  is used again after its frame is closed. Nothing of the kind holds for the handle of a thread that has ended: once a later thread has the same number, its first frame has generation 1 again, and a handle with
  index 0 and generation 1 of the dead thread resolves to it.
\<close>

theorem singlestep_handles_safe:
  "((t, idx, gen, base, len, trace) \<in> set (pr_log (ss_run traces xs)) \<and> length (pr_log (ss_run traces xs)) < 2 ^ 32 \<and>
      asmtest_ss_frame_lookup (of_nat idx) gen t (pr_threads (ss_run traces xs) t') = Some r \<longrightarrow> t' = t \<and> r = (base, len, trace)) \<and>
   (base \<noteq> 0 \<and> len \<noteq> 0 \<and> set h \<subseteq> {True} \<longrightarrow>
      asmtest_ss_frame_lookup 0 1 t (pr_threads (ss_run traces (xs @ [Ended t, Ran (Open t syms base len trace False cf h)])) t) = Some (base, len, trace))"
proof (rule conjI; rule impI; elim conjE)
  assume a: "(t, idx, gen, base, len, trace) \<in> set (pr_log (ss_run traces xs))" "length (pr_log (ss_run traces xs)) < 2 ^ 32"
    "asmtest_ss_frame_lookup (of_nat idx) gen t (pr_threads (ss_run traces xs) t') = Some r"
  have ok: "handles_ok (pr_log (ss_run traces xs)) (pr_threads (ss_run traces xs))" by (rule handles_run)
  let ?i = "unat (of_nat idx :: u32)" let ?f = "tls_frames (pr_threads (ss_run traces xs) t') ! ?i"
  have l: "?i < SS_MAX_FRAMES" "fr_gen ?f = gen" "gen \<noteq> 0" "fr_arm_tid ?f = t" "r = (fr_base ?f, fr_len ?f, fr_trace ?f)"
    using a(3) by (auto simp: asmtest_ss_frame_lookup_def Let_def split: if_splits)
  then have m: "t' = t" "(t, ?i, gen, fr_base ?f, fr_len ?f, fr_trace ?f) \<in> set (pr_log (ss_run traces xs))" using ok by (auto simp: handles_ok_def Let_def)
  have "gens_ok (pr_log (ss_run traces xs))" using ok by (simp add: handles_ok_def)
  from gens_unique [OF this a(2) m(2)] a(1) m(1) l(5) show "t' = t \<and> r = (base, len, trace)" by blast
next
  assume a: "base \<noteq> 0" "len \<noteq> 0" "set h \<subseteq> {True}"
  define p where "p = ss_event_exec (Ended t) (ss_run traces xs)"
  have "pr_threads p t = new_thread" by (simp add: p_def)
  moreover obtain h1 where h1: "alloc h = (True, h1)" "set h1 \<subseteq> {True}" using a(3) by (cases h) auto
  moreover obtain h2 where "(if g_arm_refcount (pr_globals p) = 0 then alloc h1 else (True, h1)) = (True, h2)"
    using h1(2) by (cases "g_arm_refcount (pr_globals p) = 0"; cases h1) auto
  ultimately have "ss_push_frame syms t base len trace False cf h (pr_globals p) (pr_threads p t) =
      (ASMTEST_HW_OK, Some (0, 1), armed syms False cf (pr_globals p), (pushed t base len trace False cf new_thread)\<lparr>tls_depth := 1\<rparr>, h2)"
    using push_fits [of False base len new_thread h h1 syms t trace cf "pr_globals p"] a(1,2)
    by (simp add: new_thread_def SS_MAX_FRAMES_def)
  then have "pr_threads (ss_event_exec (Ran (Open t syms base len trace False cf h)) p) t = (pushed t base len trace False cf new_thread)\<lparr>tls_depth := 1\<rparr>" by simp
  then show "asmtest_ss_frame_lookup 0 1 t (pr_threads (ss_run traces (xs @ [Ended t, Ran (Open t syms base len trace False cf h)])) t) = Some (base, len, trace)"
    by (simp add: p_def asmtest_ss_frame_lookup_def new_thread_def fill_frame_def SS_MAX_FRAMES_def Let_def)
qed

section \<open>The watchdog's flag\<close>

text \<open>With the flag set, a window opened with the watchdog switched off expires at its first trap.\<close>

lemma fired_window:
  assumes "g_ww_alarm_fired g" "tls_depth th = 0" "length (tls_frames th) = SS_MAX_FRAMES" "cf_watchdog cf = UINT32_MAX" "set h \<subseteq> {True}" "trace \<noteq> 0"
  shows "\<exists>g1 th1 h1 g2 th2. asmtest_ss_begin_window syms tid trace cf h g th = (ASMTEST_HW_OK, Some (0, tls_gen_ctr th + 1), g1, th1, h1) \<and>
    asmtest_ss_end dec traces g1 (ss_traps g1 (rip # rips) th1) = (traces(trace := set_truncated (traces trace)), g2, th2) \<and>
    snd (ss_on_sigtrap g1 rip th1) = False \<and> fr_guard (tls_frames th2 ! 0) = SS_GUARD_WATCHDOG"
proof -
  obtain h1 where h1: "alloc h = (True, h1)" "set h1 \<subseteq> {True}" using assms(5) by (cases h) auto
  obtain h2 where h2: "(if g_arm_refcount g = 0 then alloc h1 else (True, h1)) = (True, h2)"
    using h1(2) by (cases "g_arm_refcount g = 0"; cases h1) auto
  define th1 where "th1 = (pushed tid 0 0 trace True cf th)\<lparr>tls_depth := 1\<rparr>"
  define g1 where "g1 = armed syms True cf g"
  have b: "asmtest_ss_begin_window syms tid trace cf h g th = (ASMTEST_HW_OK, Some (0, tls_gen_ctr th + 1), g1, th1, h2)"
    using push_fits [of True 0 0 th h h1 syms tid trace cf g] assms(2) h1(1) h2 by (simp add: asmtest_ss_begin_window_def th1_def g1_def SS_MAX_FRAMES_def)
  have g1: "g_armed g1" "g_ww_alarm_fired g1"
    using assms(1,4) by (simp_all add: g1_def ss_publish_def Let_def default_is_fold UINT32_MAX_def)
  obtain f0 fs where fs: "tls_frames th = f0 # fs" using assms(3) by (cases "tls_frames th") (simp_all add: SS_MAX_FRAMES_def)
  define f where "f = fill_frame tid 0 0 trace True (budget_of True cf) (watchdog_of True cf) (tls_gen_ctr th + 1)"
  have f: "fr_whole f" "fr_guard f = SS_GUARD_NONE" "fr_stream f = []" "fr_trace f = trace" "fr_base f = 0" by (simp_all add: f_def fill_frame_def)
  let ?w = "f\<lparr>fr_guard := SS_GUARD_WATCHDOG\<rparr>"
  have th1: "tls_frames th1 = f # fs" "tls_depth th1 = 1" using fs assms(2) by (simp_all add: th1_def f_def)
  have "record_frame g1 rip f = ?w" using g1(2) f by (simp add: record_frame_def record_window_def)
  then have o: "ss_on_sigtrap g1 rip th1 = (th1\<lparr>tls_frames := ?w # fs\<rparr>, False)"
    using g1(1) th1 f by (simp add: ss_on_sigtrap_def Let_def wants_step_def)
  then have t: "ss_traps g1 (rip # rips) th1 = th1\<lparr>tls_frames := ?w # fs\<rparr>" by simp
  have "ss_normalize (dec 0) ?w (traces trace) = set_truncated (traces trace)" using f by (simp add: ss_normalize_def)
  then have "\<exists>g2 th2. asmtest_ss_end dec traces g1 (th1\<lparr>tls_frames := ?w # fs\<rparr>) = (traces(trace := set_truncated (traces trace)), g2, th2) \<and> fr_guard (tls_frames th2 ! 0) = SS_GUARD_WATCHDOG"
    using end_top [of "th1\<lparr>tls_frames := ?w # fs\<rparr>" dec traces g1] th1(2) assms(6) f by auto
  then show ?thesis using b t o by (metis snd_conv)
qed

lemma traps_thread:
  assumes "g_armed g" "tls_depth th \<noteq> 0" "tls_depth th \<le> length (tls_frames th)"
  shows "tls_depth (ss_traps g rips th) = tls_depth th" "tls_gen_ctr (ss_traps g rips th) = tls_gen_ctr th"
    "length (tls_frames (ss_traps g rips th)) = length (tls_frames th)"
  using assms by (simp_all add: traps_frames)

lemma traps_whole:
  assumes "g_armed g" "tls_depth th \<noteq> 0" "tls_depth th \<le> length (tls_frames th)" "i < tls_depth th"
  shows "fr_whole (tls_frames (ss_traps g rips th) ! i) = fr_whole (tls_frames th ! i)"
    "fr_watchdog (tls_frames (ss_traps g rips th) ! i) = fr_watchdog (tls_frames th ! i)"
proof -
  have "fr_whole (fold (record_frame g) rips f) = fr_whole f \<and> fr_watchdog (fold (record_frame g) rips f) = fr_watchdog f" for f
    by (induction rips arbitrary: f) simp_all
  then show "fr_whole (tls_frames (ss_traps g rips th) ! i) = fr_whole (tls_frames th ! i)"
    "fr_watchdog (tls_frames (ss_traps g rips th) ! i) = fr_watchdog (tls_frames th ! i)"
    using assms by (simp_all add: traps_frames nth_append)
qed

text \<open>
  C25: A past alarm ends windows that have no watchdog. A thread opens a window with a watchdog while no other window has one, which clears the flag the alarm's handler sets; the window is trapped any number of times, the alarm
  fires, it is trapped any number of times more, and it is closed, which leaves no window with a watchdog. A window the thread then opens with the watchdog switched off (\<open>UINT32_MAX\<close>) is
  nevertheless stopped as expired at its first trap, whatever it executes: nothing is recorded, the handler does not ask for another trap, and on closing its trace is
  marked truncated and otherwise as it was, because closing a window does not clear the flag and opening one without a watchdog does not either. The openings get the memory they ask for.
\<close>

theorem stale_alarm_stops_window:
  assumes "g_ww_refcount g = 0" "tls_depth th = 0" "length (tls_frames th) = SS_MAX_FRAMES" "cf_watchdog cf0 \<noteq> UINT32_MAX" "cf_watchdog cf = UINT32_MAX"
    and "set h0 \<subseteq> {True}" "set h \<subseteq> {True}" "trace \<noteq> 0"
  shows "\<exists>g1 th1 h1 traces2 g2 th2 g3 th3 h3 g4 th4.
    asmtest_ss_begin_window syms0 tid trace0 cf0 h0 g th = (ASMTEST_HW_OK, Some (0, tls_gen_ctr th + 1), g1, th1, h1) \<and> \<not> g_ww_alarm_fired g1 \<and> g_ww_refcount g1 = 1 \<and>
    asmtest_ss_end dec traces (g1\<lparr>g_ww_alarm_fired := True\<rparr>) (ss_traps (g1\<lparr>g_ww_alarm_fired := True\<rparr>) rips1 (ss_traps g1 rips0 th1)) = (traces2, g2, th2) \<and> g_ww_refcount g2 = 0 \<and>
    asmtest_ss_begin_window syms tid trace cf h g2 th2 = (ASMTEST_HW_OK, Some (0, tls_gen_ctr th + 2), g3, th3, h3) \<and>
    asmtest_ss_end dec traces2 g3 (ss_traps g3 (rip # rips) th3) = (traces2(trace := set_truncated (traces2 trace)), g4, th4) \<and>
    snd (ss_on_sigtrap g3 rip th3) = False \<and> fr_guard (tls_frames th4 ! 0) = SS_GUARD_WATCHDOG"
proof -
  obtain h1 where h1: "alloc h0 = (True, h1)" "set h1 \<subseteq> {True}" using assms(6) by (cases h0) auto
  obtain h2 where h2: "(if g_arm_refcount g = 0 then alloc h1 else (True, h1)) = (True, h2)"
    using h1(2) by (cases "g_arm_refcount g = 0"; cases h1) auto
  define th1 where "th1 = (pushed tid 0 0 trace0 True cf0 th)\<lparr>tls_depth := 1\<rparr>"
  define g1 where "g1 = armed syms0 True cf0 g"
  have b: "asmtest_ss_begin_window syms0 tid trace0 cf0 h0 g th = (ASMTEST_HW_OK, Some (0, tls_gen_ctr th + 1), g1, th1, h2)"
    using push_fits [of True 0 0 th h0 h1 syms0 tid trace0 cf0 g] assms(2) h1(1) h2 by (simp add: asmtest_ss_begin_window_def th1_def g1_def SS_MAX_FRAMES_def)
  have w: "watchdog_of True cf0 \<noteq> UINT32_MAX" using assms(4) by (simp add: UINT32_MAX_def SS_WINDOW_WATCHDOG_MS_DEFAULT_def)
  have g1: "g_armed g1" "\<not> g_ww_alarm_fired g1" "g_ww_refcount g1 = 1"
    using w assms(1) by (simp_all add: g1_def ss_publish_def Let_def default_is_fold)
  let ?ga = "g1\<lparr>g_ww_alarm_fired := True\<rparr>" and ?thA = "ss_traps g1 rips0 th1"
  define thB where "thB = ss_traps ?ga rips1 ?thA"
  have l: "0 < length (tls_frames th)" using assms(3) by (simp add: SS_MAX_FRAMES_def)
  have t1: "tls_depth th1 = 1" "tls_gen_ctr th1 = tls_gen_ctr th + 1" "length (tls_frames th1) = SS_MAX_FRAMES" "fr_whole (tls_frames th1 ! 0)" "fr_watchdog (tls_frames th1 ! 0) \<noteq> UINT32_MAX"
    using assms(2,3) l w by (simp_all add: th1_def fill_frame_def)
  have one: "1 \<le> SS_MAX_FRAMES" by (simp add: SS_MAX_FRAMES_def)
  have tA: "tls_depth ?thA = 1" "tls_gen_ctr ?thA = tls_gen_ctr th + 1" "length (tls_frames ?thA) = SS_MAX_FRAMES" "fr_whole (tls_frames ?thA ! 0)" "fr_watchdog (tls_frames ?thA ! 0) \<noteq> UINT32_MAX"
    using traps_thread [of g1 th1 rips0] traps_whole [of g1 th1 0 rips0] t1 g1(1) one by simp_all
  have tB: "tls_depth thB = 1" "tls_gen_ctr thB = tls_gen_ctr th + 1" "length (tls_frames thB) = SS_MAX_FRAMES" "fr_whole (tls_frames thB ! 0)" "fr_watchdog (tls_frames thB ! 0) \<noteq> UINT32_MAX"
    using traps_thread [of ?ga ?thA rips1] traps_whole [of ?ga ?thA 0 rips1] tA g1(1) one by (simp_all add: thB_def)
  obtain traces2 g2 th2 where e: "asmtest_ss_end dec traces ?ga thB = (traces2, g2, th2)" by (metis prod_cases3)
  have g2: "g_ww_alarm_fired g2" "g_ww_refcount g2 = 0" "tls_depth th2 = 0" "length (tls_frames th2) = SS_MAX_FRAMES" "tls_gen_ctr th2 = tls_gen_ctr th + 1"
    using e tB g1(3) by (auto simp: asmtest_ss_end_def Let_def split: if_splits)
  have gen: "tls_gen_ctr th2 + 1 = tls_gen_ctr th + 2" by (simp add: g2(5))
  from fired_window [OF g2(1,3,4) assms(5,7,8), of syms tid dec traces2 rip rips] obtain g3 th3 h3 g4 th4 where
    "asmtest_ss_begin_window syms tid trace cf h g2 th2 = (ASMTEST_HW_OK, Some (0, tls_gen_ctr th + 2), g3, th3, h3)"
    "asmtest_ss_end dec traces2 g3 (ss_traps g3 (rip # rips) th3) = (traces2(trace := set_truncated (traces2 trace)), g4, th4)"
    "snd (ss_on_sigtrap g3 rip th3) = False" "fr_guard (tls_frames th4 ! 0) = SS_GUARD_WATCHDOG" unfolding gen by blast
  then show ?thesis using b g1(2,3) e g2(2) unfolding thB_def by blast
qed

section \<open>Witnesses\<close>

text \<open>The loop of \<open>Amd_Lbr\<close>, stepped from a caller outside the region, with the instruction at 2 trapping twice.\<close>

theorem singlestep_matches_branch_records_witness:
  "\<exists>tr g' th' h'. asmtest_ss_call_scoped (\<lambda>_. loop_dec) 7 0x1000 5 3 True 1 True [0x9000, 0x1000, 0x1002, 0x1002, 0x1000, 0x1004, 0x5000] (42 :: int) [] (\<lambda>_. fresh_trace 8 8) ss_init new_thread =
     (ASMTEST_HW_OK, Some 42, Some (0, 1), tr, g', th', h') \<and> t_insns (tr 3) = Some [0, 2, 0, 4] \<and> \<not> t_truncated (tr 3) \<and>
     asmtest_ss_frame_lookup 0 1 7 th' = Some (0x1000, 5, 3)"
proof -
  let ?ss = "loop_exec @ [loop_ret]" and ?rips = "[0x9000, 0x1000, 0x1002, 0x1002, 0x1000, 0x1004, 0x5000] :: u64 list"
  let ?br = "[rec_of 0x1004 0x5000, rec_of 0x1000 0x1004, rec_of 0x1002 0x1000]"
  have "\<exists>g' th' h'. asmtest_ss_call_scoped (\<lambda>_. loop_dec) 7 0x1000 5 3 True 1 True ?rips (42 :: int) [] (\<lambda>_. fresh_trace 8 8) ss_init new_thread =
     (ASMTEST_HW_OK, Some 42, Some (tls_depth new_thread, tls_gen_ctr new_thread + 1),
      (\<lambda>_. fresh_trace 8 8)(3 := snd (amd_replay False loop_dec ?br 0x1000 5 (fresh_trace 8 8))), g', th', h') \<and>
     tls_depth th' = tls_depth new_thread \<and>
     asmtest_ss_frame_lookup (of_nat (tls_depth new_thread)) (tls_gen_ctr new_thread + 1) 7 th' = Some (0x1000, 5, 3)"
    by (rule singlestep_matches_branch_records [where dec = "\<lambda>_. loop_dec", OF loop_good _ _ loop_exec_ok])
      (simp_all add: loop_eval in_region_def new_thread_def SS_MAX_FRAMES_def SS_STREAM_CAP_def)
  moreover have "t_insns (snd (amd_replay False loop_dec ?br 0x1000 5 (fresh_trace 8 8))) = Some [0, 2, 0, 4]"
    "\<not> t_truncated (snd (amd_replay False loop_dec ?br 0x1000 5 (fresh_trace 8 8)))" unfolding loop_replay by (simp_all add: loop_eval)
  ultimately show ?thesis by (auto simp: new_thread_def)
qed

text \<open>
  Two threads open a frame each; thread 1 closes its own and opens another in the same slot; then thread 2 ends and another thread with its number opens a frame.
\<close>

definition two_threads :: "ss_event list" where
  "two_threads = [Ran (Open 1 [] 0x1000 5 3 False no_guards []), Ran (Open 2 [] 0x2000 6 4 False no_guards []), Ran (Close 1 (\<lambda>_. loop_dec)), Ran (Open 1 [] 0x3000 7 5 False no_guards [])]"

lemma two_threads_end:
  "pr_log (fold ss_event_exec two_threads (ss_boot (\<lambda>_. fresh_trace 8 8))) = [(1, 0, 2, 0x3000, 7, 5), (2, 0, 1, 0x2000, 6, 4), (1, 0, 1, 0x1000, 5, 3)] \<and>
   asmtest_ss_frame_lookup 0 2 1 (pr_threads (fold ss_event_exec two_threads (ss_boot (\<lambda>_. fresh_trace 8 8))) 1) = Some (0x3000, 7, 5) \<and>
   asmtest_ss_frame_lookup 0 1 1 (pr_threads (fold ss_event_exec two_threads (ss_boot (\<lambda>_. fresh_trace 8 8))) 1) = None \<and>
   asmtest_ss_frame_lookup 0 1 1 (pr_threads (fold ss_event_exec two_threads (ss_boot (\<lambda>_. fresh_trace 8 8))) 2) = None"
  by (simp add: two_threads_def ss_boot_def ss_init_def new_thread_def ss_push_frame_def no_guards_def ss_publish_def fill_frame_def SS_MAX_FRAMES_def Let_def
      asmtest_ss_end_def asmtest_ss_frame_lookup_def)

theorem singlestep_handles_safe_witness:
  "(\<exists>r. asmtest_ss_frame_lookup 0 2 1 (pr_threads (fold ss_event_exec two_threads (ss_boot (\<lambda>_. fresh_trace 8 8))) 1) = Some r \<and> r = (0x3000, 7, 5)) \<and>
   asmtest_ss_frame_lookup 0 1 2 (pr_threads (fold ss_event_exec (two_threads @ [Ended 2, Ran (Open 2 [] 0x4000 8 6 False no_guards [])]) (ss_boot (\<lambda>_. fresh_trace 8 8))) 2) =
     Some (0x4000, 8, 6)"
proof
  obtain r where r: "asmtest_ss_frame_lookup 0 2 1 (pr_threads (fold ss_event_exec two_threads (ss_boot (\<lambda>_. fresh_trace 8 8))) 1) = Some r"
    using two_threads_end by blast
  then have "r = (0x3000, 7, 5)"
    using singlestep_handles_safe [of 1 0 2 "0x3000" 7 5 two_threads "\<lambda>_. fresh_trace 8 8" 1 r] two_threads_end by simp
  then show "\<exists>r. asmtest_ss_frame_lookup 0 2 1 (pr_threads (fold ss_event_exec two_threads (ss_boot (\<lambda>_. fresh_trace 8 8))) 1) = Some r \<and> r = (0x3000, 7, 5)"
    using r by blast
  show "asmtest_ss_frame_lookup 0 1 2 (pr_threads (fold ss_event_exec (two_threads @ [Ended 2, Ran (Open 2 [] 0x4000 8 6 False no_guards [])]) (ss_boot (\<lambda>_. fresh_trace 8 8))) 2) =
     Some (0x4000, 8, 6)"
    using singlestep_handles_safe [where t = 2 and base = "0x4000" and len = 8 and trace = 6 and h = "[]" and xs = two_threads and syms = "[]" and cf = no_guards and traces = "\<lambda>_. fresh_trace 8 8"] by simp
qed

theorem stale_alarm_stops_window_witness:
  "\<exists>g1 th1 h1 traces2 g2 th2 g3 th3 h3 g4 th4.
    asmtest_ss_begin_window [] 7 2 (no_guards\<lparr>cf_watchdog := 50\<rparr>) [] ss_init new_thread = (ASMTEST_HW_OK, Some (0, 1), g1, th1, h1) \<and> \<not> g_ww_alarm_fired g1 \<and> g_ww_refcount g1 = 1 \<and>
    asmtest_ss_end (\<lambda>_. loop_dec) (\<lambda>_. fresh_trace 8 8) (g1\<lparr>g_ww_alarm_fired := True\<rparr>) (ss_traps (g1\<lparr>g_ww_alarm_fired := True\<rparr>) [0x1002] (ss_traps g1 [0x1000] th1)) = (traces2, g2, th2) \<and>
    g_ww_refcount g2 = 0 \<and>
    asmtest_ss_begin_window [] 7 3 no_guards [] g2 th2 = (ASMTEST_HW_OK, Some (0, 2), g3, th3, h3) \<and>
    asmtest_ss_end (\<lambda>_. loop_dec) traces2 g3 (ss_traps g3 [0x1000, 0x1002] th3) = (traces2(3 := set_truncated (traces2 3)), g4, th4) \<and>
    snd (ss_on_sigtrap g3 0x1000 th3) = False \<and> fr_guard (tls_frames th4 ! 0) = SS_GUARD_WATCHDOG"
  using stale_alarm_stops_window [of ss_init new_thread "no_guards\<lparr>cf_watchdog := 50\<rparr>" no_guards "[]" "[]" 3 "[]" 7 2 "\<lambda>_. loop_dec" "\<lambda>_. fresh_trace 8 8" "[0x1002]" "[0x1000]" "[]" "0x1000" "[0x1002]"]
  by (simp add: new_thread_def no_guards_def ss_init_def UINT32_MAX_def)

end
