(* ===== verification/Amd_Ring.thy ===== *)
theory Amd_Ring
  imports Amd_Lbr Perf_Ring
begin

text \<open>
  The captures of \<^verbatim>\<open>src/src/hwtrace.c\<close> that read branch stacks from the data ring of a perf event: the parser that picks a window or stitches
  all of them (\<^verbatim>\<open>asmtest_amd_ring_parse_decode\<close>), the end of a sampled region capture (\<^verbatim>\<open>hwtrace_end_amd\<close>) and the drains of the whole-window survey. The ring
  is that of \<open>Perf_Ring\<close>, the decoders are those of \<open>Amd_Lbr\<close>; \<open>depth\<close> is the answer of \<^verbatim>\<open>asmtest_amd_lbr_depth\<close>.
\<close>

section \<open>Samples\<close>

text \<open>
  A \<^verbatim>\<open>struct perf_branch_entry\<close> of 24 bytes: source, target, and a word of bit fields, of which bit 3 is \<^verbatim>\<open>abort\<close> and
  bits 24 and 25 are \<^verbatim>\<open>spec\<close>.
\<close>

definition branch_at :: "u8 list \<Rightarrow> nat \<Rightarrow> perf_branch_entry" where
  "branch_at bs p = \<lparr>pb_from = ld_u64 bs p, pb_to = ld_u64 bs (p + 8), pb_abort = bit (ld_u64 bs (p + 16)) 3,
     pb_spec = ld 8 bs (p + 16) div 2 ^ 24 mod 4\<rparr>"

text \<open>
  The stack of a sample record. The parser may load the count from the bytes after a record that is too short for it; the size check drops such a record whatever was loaded.
\<close>

definition branch_sample :: "u8 list \<Rightarrow> perf_branch_entry list option" where
  "branch_sample rb =
     (let nr = ld 8 rb 8 in
      if 0 < nr \<and> nr \<le> 64 \<and> 16 + nr * 24 \<le> length rb then Some (map (\<lambda>i. branch_at rb (16 + 24 * i)) [0..<nr]) else None)"

definition max_sample :: "int \<Rightarrow> nat" where
  "max_sample depth = 8 + 8 + nat depth * 24"

definition near_full :: "int \<Rightarrow> nat \<Rightarrow> nat \<Rightarrow> bool" where
  "near_full depth span dsz \<longleftrightarrow> dsz > 0 \<and> sz_add span (max_sample depth) > dsz"

section \<open>The parser of a region capture\<close>

text \<open>The first pass: the number of samples, and whether a record says that some were lost.\<close>

definition amd_count :: "nat \<Rightarrow> u8 list \<Rightarrow> nat \<times> bool \<Rightarrow> nat \<times> bool" where
  "amd_count type rb = (\<lambda>(n, lost).
     if type = PERF_RECORD_SAMPLE then (n + 1, lost)
     else if type = PERF_RECORD_LOST \<or> type = PERF_RECORD_THROTTLE then (n, True)
     else (n, lost))"

text \<open>The second pass: the samples that are kept, in time order, and the window with the most entries in the region.\<close>

record amd_pick =
  pk_samples :: "perf_branch_entry list list"
  pk_best :: "perf_branch_entry list option"
  pk_inregion :: nat

definition touches :: "u64 \<Rightarrow> nat \<Rightarrow> perf_branch_entry \<Rightarrow> bool" where
  "touches base_ip len e \<longleftrightarrow> in_region base_ip len (pb_from e) \<or> in_region base_ip len (pb_to e)"

definition pick_window :: "bool \<Rightarrow> u64 \<Rightarrow> nat \<Rightarrow> perf_branch_entry list \<Rightarrow> amd_pick \<Rightarrow> amd_pick" where
  "pick_window keep base_ip len e p =
     (let p1 = (if keep then p\<lparr>pk_samples := pk_samples p @ [e]\<rparr> else p);
          inregion = length (filter (touches base_ip len) e) in
      if pk_best p1 = None \<or> inregion > pk_inregion p1 then p1\<lparr>pk_best := Some e, pk_inregion := inregion\<rparr> else p1)"

definition amd_pick_record :: "bool \<Rightarrow> u64 \<Rightarrow> nat \<Rightarrow> nat \<Rightarrow> u8 list \<Rightarrow> amd_pick \<Rightarrow> amd_pick" where
  "amd_pick_record keep base_ip len type rb p =
     (if type = PERF_RECORD_SAMPLE
      then case branch_sample rb of None \<Rightarrow> p | Some e \<Rightarrow> pick_window keep base_ip len e p
      else p)"

definition no_pick :: amd_pick where
  "no_pick = \<lparr>pk_samples = [], pk_best = None, pk_inregion = 0\<rparr>"

text \<open>Both passes, with the two arrays allocated between them.\<close>

definition amd_scan :: "heap \<Rightarrow> u64 \<Rightarrow> nat \<Rightarrow> u8 list \<Rightarrow> amd_pick \<times> bool \<times> heap" where
  "amd_scan h base_ip len bs =
     (case perf_walk amd_count bs 0 (0, False) of (n, lost) \<Rightarrow>
        (case (if n > 0 then (case alloc h of (ok1, h1) \<Rightarrow> case alloc h1 of (ok2, h2) \<Rightarrow> (ok1 \<and> ok2, h2)) else (False, h)) of
           (keep, h2) \<Rightarrow> (perf_walk (amd_pick_record keep base_ip len) bs 0 no_pick, lost, h2)))"

text \<open>The stitched decode, when the window overflowed and there is more than one; \<open>None\<close> when it did not take place.\<close>

definition amd_tier_b :: "bool \<Rightarrow> decoder option \<Rightarrow> int \<Rightarrow> heap \<Rightarrow> amd_pick \<Rightarrow> nat \<Rightarrow> bool \<Rightarrow> u64 \<Rightarrow> nat \<Rightarrow> asmtest_trace option \<Rightarrow>
    asmtest_trace option option \<times> heap" where
  "amd_tier_b have_spec dec depth h p best_nr lost base len trace =
     (let n_samples = length (pk_samples p) in
      if best_nr \<ge> nat depth \<and> n_samples > 1 then
        (case alloc h of
           (False, h1) \<Rightarrow> (None, h1)
         | (True, h1) \<Rightarrow>
             (case asmtest_amd_stitch (if base = 0 then None else dec) (pk_samples p) base len (n_samples + nat depth) of (out, gap) \<Rightarrow>
                if length out > 0 then (Some (snd (asmtest_amd_decode_stitched have_spec dec out base len trace (gap \<or> lost))), h1)
                else (None, h1)))
      else (None, h))"

text \<open>The decode of the single window, with its check that the window holds the exit.\<close>

definition leaves_region :: "u64 \<Rightarrow> nat \<Rightarrow> perf_branch_entry \<Rightarrow> bool" where
  "leaves_region base_ip len e \<longleftrightarrow> in_region base_ip len (pb_from e) \<and> \<not> in_region base_ip len (pb_to e)"

definition amd_tier_a :: "bool \<Rightarrow> decoder option \<Rightarrow> int \<Rightarrow> perf_branch_entry list \<Rightarrow> u64 \<Rightarrow> nat \<Rightarrow> asmtest_trace option \<Rightarrow> asmtest_trace option" where
  "amd_tier_a have_spec dec depth best base len trace =
     (case asmtest_amd_decode_reach have_spec dec depth best base len trace of (rc, reached_exit, trace1) \<Rightarrow>
        if reached_exit \<or> (\<exists>e\<in>set best. leaves_region base len e) then trace1
        else map_option set_truncated trace1)"

definition amd_decode_pick :: "bool \<Rightarrow> decoder option \<Rightarrow> int \<Rightarrow> heap \<Rightarrow> amd_pick \<Rightarrow> bool \<Rightarrow> u64 \<Rightarrow> nat \<Rightarrow> asmtest_trace option \<Rightarrow>
    asmtest_trace option \<times> heap" where
  "amd_decode_pick have_spec dec depth h p lost base len trace =
     (case pk_best p of
        Some best \<Rightarrow>
          if length best > 0 \<and> pk_inregion p > 0 then
            (case amd_tier_b have_spec dec depth h p (length best) lost base len trace of
               (Some trace1, h1) \<Rightarrow> (trace1, h1)
             | (None, h1) \<Rightarrow> (amd_tier_a have_spec dec depth best base len trace, h1))
          else (map_option set_truncated trace, h)
      | None \<Rightarrow> (map_option set_truncated trace, h))"

text \<open>The two flags that hold whatever decoded: samples were lost, or nothing was reconstructed.\<close>

definition amd_flag :: "bool \<Rightarrow> asmtest_trace \<Rightarrow> asmtest_trace" where
  "amd_flag lost t = (if lost \<or> t_insns_total t = 0 then set_truncated t else t)"

definition asmtest_amd_ring_parse_decode :: "bool \<Rightarrow> decoder option \<Rightarrow> int \<Rightarrow> heap \<Rightarrow> u8 list option \<Rightarrow> nat \<Rightarrow> nat \<Rightarrow> u64 \<Rightarrow> nat \<Rightarrow>
    asmtest_trace option \<Rightarrow> asmtest_trace option \<times> heap" where
  "asmtest_amd_ring_parse_decode have_spec dec depth h buf span dsz base len trace =
     (case (case buf of Some bs \<Rightarrow> if span > 0 then amd_scan h base len (take span bs) else (no_pick, False, h)
            | None \<Rightarrow> (no_pick, False, h)) of
        (p, lost, h1) \<Rightarrow>
          (let lost1 = (lost \<or> near_full depth span dsz) in
           case amd_decode_pick have_spec dec depth h1 p lost1 base len trace of
             (trace1, h2) \<Rightarrow> (map_option (amd_flag lost1) trace1, h2)))"

text \<open>The end of a sampled capture: the unread bytes are copied out, decoded, and consumed.\<close>

definition hwtrace_end_amd :: "bool \<Rightarrow> decoder option \<Rightarrow> int \<Rightarrow> heap \<Rightarrow> perf_ring \<Rightarrow> u64 \<Rightarrow> nat \<Rightarrow> asmtest_trace option \<Rightarrow>
    asmtest_trace option \<times> perf_ring \<times> heap" where
  "hwtrace_end_amd have_spec dec depth h r base len trace =
     (let dsz = pr_size r; span = unat (pr_head r - pr_tail r) in
      case (if span > 0 \<and> span \<le> dsz
            then (case alloc h of (ok, h1) \<Rightarrow> (if ok then Some (ring_copy r span) else None, h1))
            else (None, h)) of
        (buf, h1) \<Rightarrow>
          (case asmtest_amd_ring_parse_decode have_spec dec depth h1 buf span dsz base len trace of
             (trace1, h2) \<Rightarrow> (trace1, r\<lparr>pr_tail := pr_head r\<rparr>, h2)))"


section \<open>What the kernel writes\<close>

text \<open>A sample record with the stack \<open>s\<close>: the count and the entries, whose other bit fields are arbitrary.\<close>

definition entry_rep :: "u8 list \<Rightarrow> perf_branch_entry \<Rightarrow> bool" where
  "entry_rep b e \<longleftrightarrow> length b = 24 \<and> branch_at b 0 = e"

definition carries :: "perf_rec \<Rightarrow> perf_branch_entry list \<Rightarrow> bool" where
  "carries r s \<longleftrightarrow> rc_type r = PERF_RECORD_SAMPLE \<and> (\<exists>bss. rc_body r = le 8 (length s) @ concat bss \<and> list_all2 entry_rep bss s)"

abbreviation is_branch_sample :: "perf_rec \<Rightarrow> bool" where
  "is_branch_sample r \<equiv> rc_type r = PERF_RECORD_SAMPLE"

text \<open>The samples of the records \<open>rs\<close> are the stacks \<open>ws\<close>, and no record tells of a loss.\<close>

definition writes_stacks :: "perf_rec list \<Rightarrow> perf_branch_entry list list \<Rightarrow> bool" where
  "writes_stacks rs ws \<longleftrightarrow> list_all rec_ok rs \<and> list_all2 carries (filter is_branch_sample rs) ws \<and>
     (\<forall>r\<in>set rs. rc_type r \<noteq> PERF_RECORD_LOST \<and> rc_type r \<noteq> PERF_RECORD_THROTTLE)"

lemma branch_at_skip: "length pre \<le> p \<Longrightarrow> branch_at (pre @ bs) p = branch_at bs (p - length pre)"
  by (simp add: branch_at_def ld_u64_def ld_skip)

lemma ld_prefix: "p + n \<le> length b \<Longrightarrow> ld n (b @ rest) p = ld n b p"
  by (simp add: ld_def)

lemma branch_at_prefix: "p + 24 \<le> length b \<Longrightarrow> branch_at (b @ rest) p = branch_at b p"
  by (simp add: branch_at_def ld_u64_def ld_prefix)

lemma entries_read: "list_all2 entry_rep bss s \<Longrightarrow> map (\<lambda>i. branch_at (concat bss) (24 * i)) [0..<length s] = s"
proof (induction bss s rule: list_all2_induct)
  case (Cons b bss e s)
  have "branch_at (concat (b # bss)) (24 * Suc i) = branch_at (concat bss) (24 * i)" for i
    using Cons.hyps(1) branch_at_skip [of b "24 * Suc i" "concat bss"] by (simp add: entry_rep_def)
  then have "map (\<lambda>i. branch_at (concat (b # bss)) (24 * i)) [Suc 0..<Suc (length s)] = s"
    using Cons.IH unfolding map_Suc_upt [symmetric] map_map comp_def by simp
  moreover have "branch_at (concat (b # bss)) (24 * 0) = e"
    using Cons.hyps(1) branch_at_prefix [of 0 b "concat bss"] by (simp add: entry_rep_def)
  ultimately show ?case by (simp add: upt_conv_Cons del: upt_Suc)
qed simp

lemma length_entries: "list_all2 entry_rep bss s \<Longrightarrow> length (concat bss) = 24 * length s"
  by (induction bss s rule: list_all2_induct) (simp_all add: entry_rep_def)

lemma branch_sample_rec:
  assumes "carries r s" "s \<noteq> []" "length s \<le> 64"
  shows "branch_sample (rec_bytes r) = Some s"
proof -
  obtain bss where b: "rc_body r = le 8 (length s) @ concat bss" "list_all2 entry_rep bss s" using assms(1) by (auto simp: carries_def)
  let ?h = "le 4 (rc_type r) @ le 2 (rc_misc r) @ le 2 (8 + length (rc_body r))"
  have r: "rec_bytes r = (?h @ le 8 (length s)) @ concat bss" by (simp add: rec_bytes_def b(1))
  have nr: "ld 8 (rec_bytes r) 8 = length s"
    unfolding r using ld_le [of "length s" 8 ?h 8 "concat bss"] assms(3) by simp
  have "branch_at (rec_bytes r) (16 + 24 * i) = branch_at (concat bss) (24 * i)" for i
    unfolding r using branch_at_skip [of "?h @ le 8 (length s)" "16 + 24 * i" "concat bss"] by simp
  then have "map (\<lambda>i. branch_at (rec_bytes r) (16 + 24 * i)) [0..<length s] = s" using entries_read [OF b(2)] by simp
  moreover have "length (rec_bytes r) = 16 + 24 * length s" using length_entries [OF b(2)] by (simp add: b(1))
  ultimately show ?thesis using assms(2,3) by (simp add: branch_sample_def Let_def nr)
qed

lemma count_records:
  "\<forall>r\<in>set rs. rc_type r \<noteq> PERF_RECORD_LOST \<and> rc_type r \<noteq> PERF_RECORD_THROTTLE \<Longrightarrow>
   foldl (\<lambda>s r. amd_count (rc_type r) (rec_bytes r) s) (n, lost) rs = (n + length (filter is_branch_sample rs), lost)"
  by (induction rs arbitrary: n) (simp_all add: amd_count_def)

lemma pick_records:
  "list_all2 carries (filter is_branch_sample rs) ws \<Longrightarrow> \<forall>w\<in>set ws. w \<noteq> [] \<and> length w \<le> 64 \<Longrightarrow>
   foldl (\<lambda>s r. amd_pick_record keep base_ip len (rc_type r) (rec_bytes r) s) p rs = foldl (\<lambda>p w. pick_window keep base_ip len w p) p ws"
proof (induction rs arbitrary: p ws)
  case (Cons r rs)
  show ?case
  proof (cases "is_branch_sample r")
    case True
    then obtain w ws' where w: "ws = w # ws'" "carries r w" "list_all2 carries (filter is_branch_sample rs) ws'"
      using Cons.prems(1) by (auto simp: list_all2_Cons1)
    then have "branch_sample (rec_bytes r) = Some w" using Cons.prems(2) branch_sample_rec by simp
    then show ?thesis using True w Cons by (simp add: amd_pick_record_def)
  qed (use Cons in \<open>simp add: amd_pick_record_def\<close>)
qed simp

text \<open>The scan of the bytes of such records gives the stacks and the choice among them.\<close>

lemma scan_records:
  assumes "writes_stacks rs ws" "\<forall>w\<in>set ws. w \<noteq> [] \<and> length w \<le> 64" "ws \<noteq> []"
  shows "amd_scan [] base_ip len (concat (map rec_bytes rs)) = (foldl (\<lambda>p w. pick_window True base_ip len w p) no_pick ws, False, [])"
proof -
  have w: "list_all rec_ok rs" "list_all2 carries (filter is_branch_sample rs) ws"
    and l: "\<forall>r\<in>set rs. rc_type r \<noteq> PERF_RECORD_LOST \<and> rc_type r \<noteq> PERF_RECORD_THROTTLE"
    using assms(1) by (auto simp: writes_stacks_def)
  have n: "length (filter is_branch_sample rs) > 0" using list_all2_lengthD [OF w(2)] assms(3) by simp
  show ?thesis unfolding amd_scan_def walk_records [OF w(1)] count_records [OF l] pick_records [OF w(2) assms(2)] using n by simp
qed

section \<open>The choice of a window\<close>

abbreviation in_count :: "u64 \<Rightarrow> nat \<Rightarrow> perf_branch_entry list \<Rightarrow> nat" where
  "in_count base_ip len w \<equiv> length (filter (touches base_ip len) w)"

lemma pick_keeps:
  assumes "pk_best p \<noteq> None" "\<forall>v\<in>set ws. in_count base_ip len v \<le> pk_inregion p"
  shows "foldl (\<lambda>p w. pick_window True base_ip len w p) p ws = p\<lparr>pk_samples := pk_samples p @ ws\<rparr>"
  using assms by (induction ws arbitrary: p) (auto simp: pick_window_def Let_def)

lemma pick_below:
  assumes "\<forall>v\<in>set ws. in_count base_ip len v < n" "pk_best p = None \<or> pk_inregion p < n"
  shows "pk_samples (foldl (\<lambda>p w. pick_window True base_ip len w p) p ws) = pk_samples p @ ws"
    "pk_best (foldl (\<lambda>p w. pick_window True base_ip len w p) p ws) = None \<or>
     pk_inregion (foldl (\<lambda>p w. pick_window True base_ip len w p) p ws) < n"
  using assms by (induction ws arbitrary: p) (auto simp: pick_window_def Let_def)

text \<open>The first of the windows with the most entries in the region is taken.\<close>

lemma pick_first_max:
  assumes "\<forall>v\<in>set ws. in_count base_ip len v < in_count base_ip len w" "\<forall>v\<in>set vs. in_count base_ip len v \<le> in_count base_ip len w"
  shows "foldl (\<lambda>p w. pick_window True base_ip len w p) no_pick (ws @ w # vs) =
    \<lparr>pk_samples = ws @ w # vs, pk_best = Some w, pk_inregion = in_count base_ip len w\<rparr>"
proof -
  let ?p = "foldl (\<lambda>p w. pick_window True base_ip len w p) no_pick ws"
  note b = pick_below [OF assms(1), of no_pick]
  have "pick_window True base_ip len w ?p = \<lparr>pk_samples = ws @ [w], pk_best = Some w, pk_inregion = in_count base_ip len w\<rparr>"
    using b by (auto simp: pick_window_def Let_def no_pick_def)
  with assms(2) pick_keeps [of "\<lparr>pk_samples = ws @ [w], pk_best = Some w, pk_inregion = in_count base_ip len w\<rparr>" vs] show ?thesis by simp
qed


text \<open>
  When the branches that touch the region are consecutive, no window holds more of them than the first one that reached the
  exit or the depth.
\<close>

lemma in_count_mono: "in_count base_ip len (drop n w) \<le> in_count base_ip len w" "in_count base_ip len (take n w) \<le> in_count base_ip len w"
  by (metis append_take_drop_id filter_append length_append le_add1 le_add2)+

lemma window_count:
  fixes A B C :: "perf_branch_entry list" and depth :: nat
  defines "E \<equiv> A @ B @ C" and "m \<equiv> min (length B) depth"
  assumes "\<forall>e\<in>set A \<union> set C. \<not> touches base_ip len e" "\<forall>e\<in>set B. touches base_ip len e"
  shows "i < length A + m \<Longrightarrow> 0 < m \<Longrightarrow> in_count base_ip len (lbr_window depth E i) < m"
    "in_count base_ip len (lbr_window depth E i) \<le> m"
    "in_count base_ip len (lbr_window depth E (length A + m)) = m"
proof -
  have f: "filter (touches base_ip len) A = []" "filter (touches base_ip len) C = []" "filter (touches base_ip len) B = B"
    using assms(3,4) by (auto simp: filter_empty_conv filter_id_conv)
  have fA: "filter (touches base_ip len) (take n A) = []" "filter (touches base_ip len) (drop n A) = []" "filter (touches base_ip len) (take n C) = []" for n
    using assms(3) by (auto simp: filter_empty_conv dest: in_set_takeD in_set_dropD)
  have fB: "filter (touches base_ip len) (take n B) = take n B" for n
    using assms(4) by (auto simp: filter_id_conv dest: in_set_takeD)
  have t: "in_count base_ip len (take i E) = min (length B) (i - length A)" for i by (simp add: E_def fA fB)
  show "in_count base_ip len (lbr_window depth E i) < m" if "i < length A + m" "0 < m"
    using in_count_mono(1) [of base_ip len "i - depth" "take i E"] t [of i] that unfolding lbr_window_def by linarith
  have "in_count base_ip len (lbr_window depth E i) \<le> length (lbr_window depth E i)" by (rule length_filter_le)
  also have "\<dots> \<le> depth" by (simp add: lbr_window_def)
  finally show "in_count base_ip len (lbr_window depth E i) \<le> m"
    using in_count_mono(1) [of base_ip len "i - depth" "take i E"] t [of i] by (simp add: lbr_window_def m_def)
  have "length A + m - depth \<le> length A" by (simp add: m_def)
  then have "lbr_window depth E (length A + m) = drop (length A + m - depth) A @ take m B"
    by (simp add: lbr_window_def E_def m_def)
  then show "in_count base_ip len (lbr_window depth E (length A + m)) = m" by (simp add: fA fB) (simp add: m_def)
qed

lemma pick_of_run:
  fixes A B C :: "perf_branch_entry list" and depth :: nat
  defines "E \<equiv> A @ B @ C" and "m \<equiv> min (length B) depth"
  assumes "\<forall>e\<in>set A \<union> set C. \<not> touches base_ip len e" "\<forall>e\<in>set B. touches base_ip len e" "B \<noteq> []" "0 < depth"
  shows "foldl (\<lambda>p w. pick_window True base_ip len w p) no_pick (lbr_samples depth E 1) =
    \<lparr>pk_samples = lbr_samples depth E 1, pk_best = Some (rev (lbr_window depth E (length A + m))), pk_inregion = m\<rparr>"
proof -
  note c = window_count [OF assms(3,4), where depth = depth, folded E_def m_def]
  let ?b = "length A + m" and ?w = "\<lambda>i. rev (lbr_window depth E i)"
  have m: "0 < m" using assms(5,6) by (simp add: m_def)
  have le: "?b < Suc (length E)" by (simp add: E_def m_def)
  have "[1..<Suc (length E)] = [1..<?b] @ ?b # [Suc ?b..<Suc (length E)]"
    using upt_add_eq_append [of 1 ?b "Suc (length E) - ?b"] upt_conv_Cons [OF le] le m by simp
  then have s: "lbr_samples depth E 1 = map ?w [1..<?b] @ ?w ?b # map ?w [Suc ?b..<Suc (length E)]" by (simp add: lbr_samples_def del: upt_Suc)
  show ?thesis unfolding s
    using c m by (subst pick_first_max) (auto simp: rev_filter [symmetric] simp del: upt_Suc)
qed

section \<open>Where an execution leaves the region\<close>

lemma filter_split:
  "map f (filter Q ss) = xs @ ys \<Longrightarrow> xs \<noteq> [] \<Longrightarrow>
   \<exists>us vs. ss = us @ vs \<and> map f (filter Q us) = xs \<and> map f (filter Q vs) = ys \<and> us \<noteq> [] \<and> Q (last us)"
proof (induction ss arbitrary: xs)
  case (Cons s ss)
  show ?case
  proof (cases "Q s")
    case True
    then obtain xs' where x: "xs = f s # xs'" "map f (filter Q ss) = xs' @ ys" using Cons.prems by (cases xs) auto
    show ?thesis
    proof (cases "xs' = []")
      case True
      then show ?thesis using x \<open>Q s\<close> by (intro exI [of _ "[s]"] exI [of _ ss]) simp
    next
      case False
      from Cons.IH [OF x(2) False] obtain us vs where "ss = us @ vs" "map f (filter Q us) = xs'" "map f (filter Q vs) = ys" "us \<noteq> []" "Q (last us)" by blast
      then show ?thesis using x \<open>Q s\<close> by (intro exI [of _ "s # us"] exI [of _ vs]) simp
    qed
  next
    case False
    then have "map f (filter Q ss) = xs @ ys" using Cons.prems(1) by simp
    from Cons.IH [OF this Cons.prems(2)] obtain us vs where "ss = us @ vs" "map f (filter Q us) = xs" "map f (filter Q vs) = ys" "us \<noteq> []" "Q (last us)" by blast
    then show ?thesis using False by (intro exI [of _ "s # us"] exI [of _ vs]) simp
  qed
qed simp

abbreviation edge_touches :: "u64 \<Rightarrow> nat \<Rightarrow> u64 \<times> u64 \<Rightarrow> bool" where
  "edge_touches base_ip len e \<equiv> in_region base_ip len (fst e) \<or> in_region base_ip len (snd e)"

lemma stays_outside:
  "exec_ok dec base_ip len p ss \<Longrightarrow> \<not> in_region base_ip len p \<Longrightarrow> \<forall>e\<in>set (taken_edges ss). \<not> edge_touches base_ip len e \<Longrightarrow>
   exec_events dec base_ip len ss = []"
  by (induction ss arbitrary: p) (auto simp: step_ok_def step_events_def taken_edges_def)

lemma stays_inside:
  "exec_ok dec base_ip len p ss \<Longrightarrow> in_region base_ip len p \<Longrightarrow> \<forall>e\<in>set (taken_edges ss). \<not> edge_touches base_ip len e \<Longrightarrow>
   in_region base_ip len (if ss = [] then p else st_next (last ss))"
proof (induction ss arbitrary: p)
  case (Cons s ss)
  then have "\<not> st_taken s" by (auto simp: taken_edges_def)
  then have "in_region base_ip len (st_next s)" using Cons.prems by (auto simp: step_ok_def Let_def)
  then show ?case using Cons \<open>\<not> st_taken s\<close> by (auto simp: taken_edges_def)
qed simp

lemma exit_split:
  assumes "exec_ok dec base_ip len a ss" "ss \<noteq> []" "\<not> in_region base_ip len (st_next (last ss))"
    and "taken_edges ss = P @ C" "P \<noteq> []" "edge_touches base_ip len (last P)" "\<forall>e\<in>set C. \<not> edge_touches base_ip len e"
  shows "\<exists>us vs. ss = us @ vs \<and> us \<noteq> [] \<and> st_taken (last us) \<and> taken_edges us = P \<and> \<not> in_region base_ip len (st_next (last us)) \<and>
    in_region base_ip len (st_at (last us)) \<and> exec_events dec base_ip len vs = [] \<and> last P = (st_at (last us), st_next (last us))"
proof -
  obtain us vs where s: "ss = us @ vs" "taken_edges us = P" "taken_edges vs = C" "us \<noteq> []" "st_taken (last us)"
    using filter_split [OF assms(4) [unfolded taken_edges_def] assms(5)] unfolding taken_edges_def by blast
  have e: "exec_ok dec base_ip len (st_next (last us)) vs" using assms(1) s(1,4) by (simp add: exec_ok_append)
  obtain us' u where u: "us = us' @ [u]" using s(4) by (cases us rule: rev_cases) auto
  have l: "last P = (st_at (last us), st_next (last us))" using s(2,5) unfolding u taken_edges_def by auto
  have o: "\<not> in_region base_ip len (st_next (last us))"
    using stays_inside [OF e] assms(3,7) s(1,3,4) by (cases vs) auto
  then have "in_region base_ip len (st_at (last us))" using assms(6) l by simp
  with s l o stays_outside [OF e o] assms(7) show ?thesis by blast
qed


lemma exit_insn:
  assumes "exec_ok dec base_ip len a ss" "s \<in> set ss" "in_region base_ip len (st_at s)"
  shows "0 < length (insn_offs (exec_events dec base_ip len ss))" "length (insn_offs (exec_events dec base_ip len ss)) \<le> length ss"
proof -
  have o: "insn_offs (exec_events dec base_ip len ss) = concat (map (\<lambda>s. if in_region base_ip len (st_at s) then [st_at s - base_ip] else []) ss)" for ss
    by (induction ss) (simp_all add: insn_offs_def step_events_def)
  show "0 < length (insn_offs (exec_events dec base_ip len ss))" using assms(2,3) by (auto simp: o)
  show "length (insn_offs (exec_events dec base_ip len ss)) \<le> length ss" unfolding o by (induction ss) simp_all
qed

lemma window_length: "i \<le> length E \<Longrightarrow> length (lbr_window depth E i) = min i depth"
  by (auto simp: lbr_window_def)

lemma samples_fit: "0 < depth \<Longrightarrow> w \<in> set (lbr_samples depth E 1) \<Longrightarrow> w \<noteq> [] \<and> length w \<le> depth"
proof -
  assume d: "0 < depth" and "w \<in> set (lbr_samples depth E 1)"
  then obtain i where "w = rev (lbr_window depth E i)" "0 < i" "i \<le> length E" by (auto simp: lbr_samples_def simp del: upt_Suc)
  with window_length [of i E depth] d show ?thesis by (metis length_greater_0_conv length_rev min.cobounded2 min_less_iff_conj)
qed

text \<open>
  The common hypotheses: an execution that enters the region at its base, is recorded completely in \<open>A @ B @ C\<close>, touches the region in the branches
  \<open>B\<close> only, and ends outside it.
\<close>

definition leaf_run :: "bool \<Rightarrow> decoder \<Rightarrow> u64 \<Rightarrow> nat \<Rightarrow> u64 \<Rightarrow> exec_step list \<Rightarrow> perf_branch_entry list \<Rightarrow> perf_branch_entry list \<Rightarrow> perf_branch_entry list \<Rightarrow> bool" where
  "leaf_run have_spec dec base_ip len a ss A B C \<longleftrightarrow>
     good_region dec base_ip len \<and> base_ip \<noteq> 0 \<and> exec_ok dec base_ip len a ss \<and> enters_at_base base_ip len a ss \<and>
     ss \<noteq> [] \<and> st_taken (last ss) \<and> \<not> in_region base_ip len (st_next (last ss)) \<and> length ss < 2 ^ 64 \<and>
     map edge_of (A @ B @ C) = taken_edges ss \<and> (\<forall>e\<in>set (A @ B @ C). \<not> br_dropped have_spec e) \<and>
     (\<forall>e\<in>set A \<union> set C. \<not> touches base_ip len e) \<and> (\<forall>e\<in>set B. touches base_ip len e) \<and> B \<noteq> []"

lemma leaf_exit:
  assumes "leaf_run have_spec dec base_ip len a ss A B C"
  shows "\<exists>us vs. ss = us @ vs \<and> us \<noteq> [] \<and> st_taken (last us) \<and> taken_edges us = map edge_of (A @ B) \<and>
    \<not> in_region base_ip len (st_next (last us)) \<and> in_region base_ip len (st_at (last us)) \<and> exec_events dec base_ip len vs = [] \<and>
    leaves_region base_ip len (last B)"
proof -
  have l: "last (map edge_of (A @ B)) = edge_of (last B)" using assms by (simp add: leaf_run_def last_map)
  have "edge_touches base_ip len (edge_of (last B))" "\<forall>e\<in>set (map edge_of C). \<not> edge_touches base_ip len e"
    using assms by (auto simp: leaf_run_def touches_def edge_of_def)
  with exit_split [of dec base_ip len a ss "map edge_of (A @ B)" "map edge_of C"] assms l show ?thesis
    by (fastforce simp: leaf_run_def leaves_region_def edge_of_def)
qed

lemma leaf_tier_a:
  assumes l: "leaf_run have_spec dec base_ip len a ss A B C" and n: "int (length (A @ B)) < depth" "depth \<le> 64" and "0 < len"
  shows "amd_tier_a have_spec (Some dec) depth (rev (A @ B)) base_ip len (Some t) = Some (trace_run t (Block 0 # exec_events dec base_ip len ss))"
proof -
  obtain us vs where s: "ss = us @ vs" "us \<noteq> []" "st_taken (last us)" "taken_edges us = map edge_of (A @ B)"
    "\<not> in_region base_ip len (st_next (last us))" "exec_events dec base_ip len vs = []" "leaves_region base_ip len (last B)"
    using leaf_exit [OF l] by blast
  have e: "good_region dec base_ip len" "exec_ok dec base_ip len a us" using l s(1) by (auto simp: leaf_run_def exec_ok_append)
  have b: "enters_at_base base_ip len a us"
    using l s(1) by (auto simp: leaf_run_def enters_at_base_def find_append split: if_splits option.splits)
  have f: "filter (\<lambda>e. \<not> br_dropped have_spec e) (A @ B) = A @ B" using l by (auto simp: leaf_run_def filter_id_conv)
  have "map edge_of (filter (\<lambda>e. \<not> br_dropped have_spec e) (rev (A @ B))) = rev (taken_edges us)"
    unfolding rev_filter [symmetric] f s(4) by (simp add: rev_map)
  note r = replay_of_execution [OF e b s(2,3,5) this, of t]
  have "to_int32 (length (rev (A @ B))) = int (length (A @ B))" using n by (simp add: to_int32_small)
  moreover have "rev (A @ B) \<noteq> []" "base_ip \<noteq> 0" "\<exists>e\<in>set (rev (A @ B)). leaves_region base_ip len e"
    using l s(7) by (auto simp: leaf_run_def intro!: bexI [of _ "last B"])
  ultimately show ?thesis
    using n(1) r s(1,6) assms(4)
    by (auto simp: amd_tier_a_def asmtest_amd_decode_reach_def asmtest_amd_decode_reach_hw_def simp del: rev_append)
qed


lemma leaf_tier_b:
  assumes l: "leaf_run have_spec dec base_ip len a ss A B C" and "2 \<le> depth" "nat depth \<le> best_nr" "best_nr \<le> length (A @ B @ C)" "0 < len"
    and "pk_samples p = lbr_samples (nat depth) (A @ B @ C) 1"
  shows "amd_tier_b have_spec (Some dec) depth [] p best_nr False base_ip len (Some t) =
    (Some (Some (trace_run t (Block 0 # exec_events dec base_ip len ss))), [])"
proof -
  let ?E = "A @ B @ C"
  have n: "length (pk_samples p) = length ?E" "1 < length ?E" using assms(2-4,6) by (auto simp: lbr_samples_def)
  have "good_region dec base_ip len" "base_ip \<noteq> 0" "exec_ok dec base_ip len a ss" "enters_at_base base_ip len a ss" "ss \<noteq> []" "st_taken (last ss)"
    "\<not> in_region base_ip len (st_next (last ss))" "map edge_of ?E = taken_edges ss" "\<forall>e\<in>set ?E. \<not> br_dropped have_spec e"
    using l by (simp_all add: leaf_run_def)
  note st = stitched_exact [OF this(1-7) assms(5) this(8,9), where depth = "nat depth" and k = 1 and out_cap = "length ?E + nat depth"]
  show ?thesis using st assms(2,3,6) n \<open>base_ip \<noteq> 0\<close> by (auto simp: amd_tier_b_def Let_def simp del: length_append append_assoc rev_append)
qed

lemma leaf_decode:
  assumes l: "leaf_run have_spec dec base_ip len a ss A B C" and d: "2 \<le> depth" "depth \<le> 64" and "0 < len"
  defines "p \<equiv> foldl (\<lambda>p w. pick_window True base_ip len w p) no_pick (lbr_samples (nat depth) (A @ B @ C) 1)"
  shows "amd_decode_pick have_spec (Some dec) depth [] p False base_ip len (Some t) =
    (Some (trace_run t (Block 0 # exec_events dec base_ip len ss)), [])"
proof -
  let ?E = "A @ B @ C" and ?m = "min (length B) (nat depth)"
  have "\<forall>e\<in>set A \<union> set C. \<not> touches base_ip len e" "\<forall>e\<in>set B. touches base_ip len e" "B \<noteq> []" using l by (auto simp: leaf_run_def)
  note pk = pick_of_run [OF this, of "nat depth"]
  have p: "pk_samples p = lbr_samples (nat depth) ?E 1" "pk_best p = Some (rev (lbr_window (nat depth) ?E (length A + ?m)))" "0 < pk_inregion p"
    using pk d(1) \<open>B \<noteq> []\<close> by (simp_all add: p_def)
  have w: "length (lbr_window (nat depth) ?E (length A + ?m)) = min (length A + ?m) (nat depth)" by (rule window_length) simp
  have ne: "0 < length A + ?m" using \<open>B \<noteq> []\<close> d(1) by simp
  show ?thesis
  proof (cases "length A + ?m < nat depth")
    case True
    then have m: "?m = length B" by simp
    then have e: "lbr_window (nat depth) ?E (length A + ?m) = A @ B" using True by (simp add: lbr_window_def)
    have "amd_tier_b have_spec (Some dec) depth [] p (length (A @ B)) False base_ip len (Some t) = (None, [])"
      using True m by (simp add: amd_tier_b_def Let_def)
    moreover have "int (length (A @ B)) < depth" using True m by simp
    ultimately show ?thesis using p e ne \<open>B \<noteq> []\<close> leaf_tier_a [OF l _ d(2) assms(4), of t]
      by (simp add: amd_decode_pick_def del: rev_append)
  next
    case False
    then have "amd_tier_b have_spec (Some dec) depth [] p (nat depth) False base_ip len (Some t) =
        (Some (Some (trace_run t (Block 0 # exec_events dec base_ip len ss))), [])"
      by (intro leaf_tier_b [OF l d(1) _ _ assms(4) p(1)]) simp_all
    then show ?thesis using p w False d(1) by (simp add: amd_decode_pick_def)
  qed
qed

text \<open>
  C20: A sampled capture of a leaf routine is exact, from the bytes of the ring to the trace. Let the routine enter its region at the base, be left by its last branch
  and not call out of the region in between, with any code before and after it; let the hardware keep the last \<open>depth\<close> branches (2 to 64) and the kernel write one sample after
  every branch, among other records, none of which tells of a loss, into a ring with room for another sample. Then the trace at the end of the capture is the trace of the execution: whether
  the parser picks one window or stitches all of them, no instruction or block is lost or made up, and no truncation is set beyond that of a full trace buffer.
\<close>

theorem amd_capture_exact:
  assumes "leaf_run have_spec dec base_ip len a ss A B C" and "2 \<le> depth" "depth \<le> 64"
    and "writes_stacks rs (lbr_samples (nat depth) (A @ B @ C) 1)" and "kernel_put mv rs" and "ring_holds r []"
    and "length (concat (map rec_bytes rs)) + max_sample depth \<le> pr_size r" and "t_insns_total t = 0"
  shows "hwtrace_end_amd have_spec (Some dec) depth [] (mv r) base_ip len (Some t) =
    (Some (trace_run t (Block 0 # exec_events dec base_ip len ss)), (mv r)\<lparr>pr_tail := pr_head (mv r)\<rparr>, [])"
proof -
  let ?bs = "concat (map rec_bytes rs)" and ?ws = "lbr_samples (nat depth) (A @ B @ C) 1" and ?t = "trace_run t (Block 0 # exec_events dec base_ip len ss)"
  have B: "B \<noteq> []" "\<forall>e\<in>set B. touches base_ip len e" using assms(1) by (auto simp: leaf_run_def)
  then obtain e where "touches base_ip len e" using hd_in_set [of B] by blast
  then have len: "0 < len" by (cases "len = 0") (auto simp: touches_def in_region_def)
  have ws: "?ws \<noteq> []" "\<forall>w\<in>set ?ws. w \<noteq> [] \<and> length w \<le> 64"
  proof -
    show "?ws \<noteq> []" using B(1) by (simp add: lbr_samples_def del: upt_Suc)
    have "0 < nat depth" "nat depth \<le> 64" using assms(2,3) by auto
    then show "\<forall>w\<in>set ?ws. w \<noteq> [] \<and> length w \<le> 64" using samples_fit [of "nat depth"] by (meson le_trans)
  qed
  have "rs \<noteq> []" using assms(4) ws(1) by (auto simp: writes_stacks_def)
  then have bs: "0 < length ?bs" by (cases rs) simp_all
  have h: "ring_holds (mv r) ?bs" "pr_size (mv r) = pr_size r" using assms(5-7) by (auto simp: kernel_put_def)
  then have sp: "unat (pr_head (mv r) - pr_tail (mv r)) = length ?bs" "length ?bs \<le> pr_size (mv r)" "pr_size (mv r) < 2 ^ 64"
    by (auto simp: ring_holds_def unat_of_nat)
  have cp: "ring_copy (mv r) (length ?bs) = ?bs" using holds_copy [OF h(1)] holds_span [OF h(1)] by simp
  have nf: "\<not> near_full depth (length ?bs) (pr_size (mv r))" using assms(7) sp(3) h(2) by (simp add: near_full_def sz_add_def)
  obtain us vs where u: "ss = us @ vs" "us \<noteq> []" "in_region base_ip len (st_at (last us))" using leaf_exit [OF assms(1)] by blast
  let ?n = "length (insn_offs (exec_events dec base_ip len ss))"
  have ok: "exec_ok dec base_ip len a ss" "length ss < 2 ^ 64" "last us \<in> set ss" using assms(1) u by (auto simp: leaf_run_def)
  then have "0 < ?n" "?n < 2 ^ 64" using exit_insn [OF ok(1,3) u(3)] by auto
  then have "(of_nat ?n :: u64) \<noteq> 0" by (simp add: word_unat_eq_iff unat_of_nat)
  then have "t_insns_total ?t \<noteq> 0" unfolding run_totals assms(8) by (simp add: insn_offs_def)
  then have "asmtest_amd_ring_parse_decode have_spec (Some dec) depth [] (Some ?bs) (length ?bs) (pr_size (mv r)) base_ip len (Some t) = (Some ?t, [])"
    using bs nf leaf_decode [OF assms(1-3) len] by (simp add: asmtest_amd_ring_parse_decode_def scan_records [OF assms(4) ws(2,1)] amd_flag_def)
  then show ?thesis using sp bs by (simp add: hwtrace_end_amd_def Let_def cp)
qed


section \<open>Lossy captures\<close>

lemma count_lost: "snd (foldl (\<lambda>s r. amd_count (rc_type r) (rec_bytes r) s) (n, lost) rs) \<longleftrightarrow>
   lost \<or> (\<exists>r\<in>set rs. rc_type r = PERF_RECORD_LOST \<or> rc_type r = PERF_RECORD_THROTTLE)"
  by (induction rs arbitrary: n lost) (auto simp: amd_count_def perf_types)

lemma flagged_when_lost: "fst (asmtest_amd_ring_parse_decode have_spec dec depth h buf span dsz base_ip len trace) = Some t1 \<Longrightarrow>
    near_full depth span dsz \<or> (\<exists>bs. buf = Some bs \<and> span > 0 \<and> snd (perf_walk amd_count (take span bs) 0 (0, False))) \<or> buf = None \<Longrightarrow> t_truncated t1"
  by (auto simp: asmtest_amd_ring_parse_decode_def amd_scan_def amd_flag_def amd_decode_pick_def no_pick_def Let_def split: prod.splits option.splits if_splits)

text \<open>
  Whatever the kernel wrote and whichever allocations fail: a capture in whose ring there is a record of a loss, or no room for another sample, is flagged
  as truncated.
\<close>

lemma lossy_capture_flagged:
  assumes "list_all rec_ok rs" "ring_holds r (concat (map rec_bytes rs))" "rs \<noteq> []"
    and "near_full depth (length (concat (map rec_bytes rs))) (pr_size r) \<or> (\<exists>x\<in>set rs. rc_type x = PERF_RECORD_LOST \<or> rc_type x = PERF_RECORD_THROTTLE)"
    and "hwtrace_end_amd have_spec dec depth h r base_ip len trace = (Some t1, r1, h1)"
  shows "t_truncated t1"
proof -
  let ?bs = "concat (map rec_bytes rs)"
  have sp: "unat (pr_head r - pr_tail r) = length ?bs" "length ?bs \<le> pr_size r" using assms(2) by (auto simp: ring_holds_def unat_of_nat)
  have cp: "ring_copy r (length ?bs) = ?bs" using holds_copy [OF assms(2)] holds_span [OF assms(2)] by simp
  have bs: "0 < length ?bs" using assms(3) by (cases rs) simp_all
  obtain h2 ok where a: "alloc h = (ok, h2)" by fastforce
  have f: "fst (asmtest_amd_ring_parse_decode have_spec dec depth h2 (if ok then Some ?bs else None) (length ?bs) (pr_size r) base_ip len trace) = Some t1"
    using assms(5) sp bs a by (auto simp: hwtrace_end_amd_def Let_def cp split: prod.splits)
  have "snd (perf_walk amd_count (take (length ?bs) ?bs) 0 (0, False))" if "\<not> near_full depth (length ?bs) (pr_size r)"
    using assms(4) that by (simp add: walk_records [OF assms(1)] count_lost)
  with flagged_when_lost [OF f] bs show ?thesis by (cases ok) auto
qed

section \<open>Examples\<close>

definition entry_bytes :: "perf_branch_entry \<Rightarrow> u8 list" where
  "entry_bytes e = le 8 (unat (pb_from e)) @ le 8 (unat (pb_to e)) @ le 8 ((if pb_abort e then 8 else 0) + pb_spec e * 2 ^ 24)"

definition stack_rec :: "perf_branch_entry list \<Rightarrow> perf_rec" where
  "stack_rec s = \<lparr>rc_type = PERF_RECORD_SAMPLE, rc_misc = 0, rc_body = le 8 (length s) @ concat (map entry_bytes s)\<rparr>"

lemma entry_bytes_rep: "\<not> pb_abort e \<Longrightarrow> pb_spec e = 0 \<Longrightarrow> entry_rep (entry_bytes e) e"
proof -
  assume e: "\<not> pb_abort e" "pb_spec e = 0"
  have u: "unat (x :: u64) < 256 ^ 8" for x using unsigned_less [of x] by simp
  have "ld 8 (entry_bytes e) 0 = unat (pb_from e)" using ld_le_0 [OF u] by (simp add: entry_bytes_def)
  moreover have "ld 8 (entry_bytes e) 8 = unat (pb_to e)"
    using ld_le [OF u, of "le 8 (unat (pb_from e))" 8 "pb_to e"] by (simp add: entry_bytes_def)
  moreover have "ld 8 (entry_bytes e) 16 = 0"
    using ld_le [of 0 8 "le 8 (unat (pb_from e)) @ le 8 (unat (pb_to e))" 16 "[]"] by (simp add: entry_bytes_def e)
  ultimately show ?thesis using e by (simp add: entry_rep_def branch_at_def ld_u64_def) (simp add: entry_bytes_def)
qed

lemma stack_recs_written:
  assumes "\<forall>w\<in>set ws. length w \<le> 64 \<and> (\<forall>e\<in>set w. \<not> pb_abort e \<and> pb_spec e = 0)"
  shows "writes_stacks (map stack_rec ws) ws"
proof -
  have "list_all2 entry_rep (map entry_bytes w) w" if "w \<in> set ws" for w
    using assms that entry_bytes_rep by (auto simp: list_all2_conv_all_nth)
  then have "carries (stack_rec w) w" if "w \<in> set ws" for w using that by (auto simp: carries_def stack_rec_def)
  moreover have "length (concat (map entry_bytes w)) = 24 * length w" for w by (induction w) (simp_all add: entry_bytes_def)
  ultimately show ?thesis
    using assms by (auto simp: writes_stacks_def list_all_iff rec_ok_def stack_rec_def perf_types list_all2_conv_all_nth filter_map comp_def)
qed


lemma stack_bytes:
  "\<forall>w\<in>set ws. length w \<le> n \<Longrightarrow> length (concat (map rec_bytes (map stack_rec ws))) \<le> length ws * (16 + 24 * n)"
  "length ws \<le> length (concat (map rec_bytes (map stack_rec ws)))"
proof -
  have "length (concat (map entry_bytes w)) = 24 * length w" for w by (induction w) (simp_all add: entry_bytes_def)
  then have l: "length (rec_bytes (stack_rec w)) = 16 + 24 * length w" for w by (simp add: stack_rec_def)
  show "\<forall>w\<in>set ws. length w \<le> n \<Longrightarrow> length (concat (map rec_bytes (map stack_rec ws))) \<le> length ws * (16 + 24 * n)"
    by (induction ws) (auto simp: l simp del: length_rec_bytes)
  show "length ws \<le> length (concat (map rec_bytes (map stack_rec ws)))" by (induction ws) (auto simp: l simp del: length_rec_bytes)
qed

lemma samples_written:
  assumes "\<forall>e\<in>set E. \<not> pb_abort e \<and> pb_spec e = 0" "0 < depth" "depth \<le> 64"
  shows "writes_stacks (map stack_rec (lbr_samples depth E 1)) (lbr_samples depth E 1)"
proof (rule stack_recs_written, intro ballI)
  fix w assume w: "w \<in> set (lbr_samples depth E 1)"
  then have "set w \<subseteq> set E" by (auto simp: lbr_samples_def lbr_window_def dest!: in_set_dropD in_set_takeD)
  with samples_fit [OF assms(2) w] assms(1,3) show "length w \<le> 64 \<and> (\<forall>e\<in>set w. \<not> pb_abort e \<and> pb_spec e = 0)" by auto
qed

text \<open>The loop of \<open>Amd_Lbr\<close>, called from 0x9000; after its return to 0x5000 there is one more branch.\<close>

abbreviation loop_glue :: exec_step where
  "loop_glue \<equiv> \<lparr>st_at = 0x5000, st_taken = True, st_next = 0x6000\<rparr>"

abbreviation loop_branches :: "perf_branch_entry list" where
  "loop_branches \<equiv> [rec_of 0x9000 0x1000, rec_of 0x1002 0x1000, rec_of 0x1000 0x1004, rec_of 0x1004 0x5000]"

lemma loop_leaf: "leaf_run False loop_dec 0x1000 5 0x9000 (loop_call # loop_exec @ [loop_ret, loop_glue]) [] loop_branches [rec_of 0x5000 0x6000]"
  unfolding leaf_run_def using loop_good by (simp add: step_ok_def loop_eval touches_def)

theorem amd_capture_exact_witness:
  "\<exists>mv t r1. kernel_put mv (map stack_rec (lbr_samples 16 (loop_branches @ [rec_of 0x5000 0x6000]) 1)) \<and>
     hwtrace_end_amd False (Some loop_dec) 16 [] (mv \<lparr>pr_data = replicate 1024 0, pr_head = 0, pr_tail = 0\<rparr>) 0x1000 5 (Some (fresh_trace 8 8)) = (Some t, r1, []) \<and>
     t_insns t = Some [0, 2, 0, 4] \<and> t_blocks t = Some [0, 2, 4] \<and> \<not> t_truncated t"
proof -
  let ?E = "loop_branches @ [rec_of 0x5000 0x6000]" and ?r = "\<lparr>pr_data = replicate 1024 0, pr_head = 0, pr_tail = 0\<rparr>"
  let ?rs = "map stack_rec (lbr_samples 16 ?E 1)"
  let ?mv = "put_bytes (concat (map rec_bytes ?rs))" and ?ss = "loop_call # loop_exec @ [loop_ret, loop_glue]"
  let ?t = "trace_run (fresh_trace 8 8) (Block 0 # exec_events loop_dec 0x1000 5 ?ss)"
  have ws: "lbr_samples 16 ?E 1 = [rev (take 1 ?E), rev (take 2 ?E), rev (take 3 ?E), rev (take 4 ?E), rev (take 5 ?E)]"
    by (simp add: lbr_samples_def lbr_window_def upt_rec)
  have w: "writes_stacks ?rs (lbr_samples (nat 16) ([] @ loop_branches @ [rec_of 0x5000 0x6000]) 1)"
    using samples_written [of ?E 16] by (simp add: rec_of_def)
  have "length (concat (map rec_bytes ?rs)) = 440" unfolding ws by (simp add: stack_rec_def entry_bytes_def)
  then have "length (concat (map rec_bytes ?rs)) + max_sample 16 \<le> pr_size ?r" by (simp add: max_sample_def)
  moreover have "ring_holds ?r []" by (simp add: ring_holds_def)
  ultimately have "hwtrace_end_amd False (Some loop_dec) 16 [] (?mv ?r) 0x1000 5 (Some (fresh_trace 8 8)) = (Some ?t, (?mv ?r)\<lparr>pr_tail := pr_head (?mv ?r)\<rparr>, [])"
    by (intro amd_capture_exact [OF loop_leaf _ _ w put_bytes_kernel]) (simp_all add: fresh_trace_def zero_trace_def)
  moreover have "t_insns ?t = Some [0, 2, 0, 4]" "t_blocks ?t = Some [0, 2, 4]" "\<not> t_truncated ?t" by (simp_all add: loop_eval)
  ultimately show ?thesis using put_bytes_kernel by blast
qed

text \<open>
  A routine that calls out: at offset 0 a call of 0x7000, at 5 a return. The callee takes fourteen branches, so that the stack no longer holds the entry when the routine
  returns: the window after the call and the window after the return both have two branches in the region, the earlier one is picked, and its call counts as the exit. The capture, in which no sample was lost,
  lacks the instructions after the call and is reported as complete.
\<close>

definition call_dec :: decoder where
  "call_dec off =
     (if off = 0 then \<lparr>di_len = 5, di_call = True, di_ret = False, di_branch = True, di_target = Some 0x7000, di_uncond = False\<rparr>
      else if off = 5 then \<lparr>di_len = 1, di_call = False, di_ret = True, di_branch = True, di_target = None, di_uncond = False\<rparr>
      else \<lparr>di_len = 0, di_call = False, di_ret = False, di_branch = False, di_target = None, di_uncond = False\<rparr>)"

definition call_exec :: "exec_step list" where
  "call_exec = [\<lparr>st_at = 0x9000, st_taken = True, st_next = 0x1000\<rparr>, \<lparr>st_at = 0x1000, st_taken = True, st_next = 0x7000\<rparr>] @
     replicate 14 \<lparr>st_at = 0x7000, st_taken = True, st_next = 0x7000\<rparr> @
     [\<lparr>st_at = 0x7000, st_taken = True, st_next = 0x1005\<rparr>, \<lparr>st_at = 0x1005, st_taken = True, st_next = 0x9005\<rparr>]"

definition call_branches :: "perf_branch_entry list" where
  "call_branches = map (\<lambda>s. rec_of (st_at s) (st_next s)) call_exec"

lemma replicate_14: "replicate 14 x = [x, x, x, x, x, x, x, x, x, x, x, x, x, x]"
  by (simp add: numeral_eq_Suc)

lemma call_pick:
  "foldl (\<lambda>p w. pick_window True 0x1000 6 w p) no_pick (lbr_samples 16 call_branches 1) =
     \<lparr>pk_samples = lbr_samples 16 call_branches 1, pk_best = Some (rev (take 2 call_branches)), pk_inregion = 2\<rparr>"
proof -
  let ?w = "\<lambda>i. rev (lbr_window 16 call_branches i)"
  have "[1..<Suc (length call_branches)] = [1] @ 2 # [3..<19]" by (simp add: call_branches_def call_exec_def upt_rec)
  then have s: "lbr_samples 16 call_branches 1 = [?w 1] @ ?w 2 # map ?w [3..<19]" unfolding lbr_samples_def by (simp del: upt_Suc)
  have n: "in_count 0x1000 6 (?w i) = length (filter id (drop (i - 16) (take i ([True, True] @ replicate 14 False @ [True, True]))))" for i
  proof -
    have m: "map (touches 0x1000 6) call_branches = [True, True] @ replicate 14 False @ [True, True]"
      by (simp add: call_branches_def call_exec_def rec_of_def touches_def in_region_def)
    have "in_count 0x1000 6 (?w i) = length (filter id (map (touches 0x1000 6) (lbr_window 16 call_branches i)))"
      by (simp add: rev_filter [symmetric] filter_map)
    then show ?thesis by (simp only: lbr_window_def drop_map [symmetric] take_map [symmetric] m)
  qed
  have "list_all (\<lambda>i. length (filter id (drop (i - 16) (take i ([True, True] @ replicate 14 False @ [True, True])))) \<le> 2) [3..<19]" by code_simp
  then have c: "in_count 0x1000 6 (?w 1) < 2" "in_count 0x1000 6 (?w 2) = 2" "\<forall>i\<in>set [3..<19]. in_count 0x1000 6 (?w i) \<le> 2" "?w 2 = rev (take 2 call_branches)"
    unfolding n list_all_iff by (simp_all add: lbr_window_def)
  show ?thesis unfolding s using c by (subst pick_first_max) auto
qed

lemma call_out_lost:
  defines "bs \<equiv> concat (map rec_bytes (map stack_rec (lbr_samples 16 call_branches 1)))"
  shows "exec_ok call_dec 0x1000 6 0x9000 call_exec \<and> insn_offs (exec_events call_dec 0x1000 6 call_exec) = [0, 5] \<and>
    map edge_of call_branches = taken_edges call_exec \<and>
    (\<exists>t. asmtest_amd_ring_parse_decode False (Some call_dec) 16 [] (Some bs) (length bs) 0x10000 0x1000 6 (Some (fresh_trace 8 8)) = (Some t, []) \<and>
       t_insns t = Some [0] \<and> \<not> t_truncated t)"
proof (intro conjI)
  show "exec_ok call_dec 0x1000 6 0x9000 call_exec" by (simp add: call_exec_def step_ok_def in_region_def call_dec_def Let_def replicate_14)
  show "insn_offs (exec_events call_dec 0x1000 6 call_exec) = [0, 5]"
    by (simp add: call_exec_def exec_events_def step_events_def in_region_def insn_offs_def call_dec_def replicate_14)
  show "map edge_of call_branches = taken_edges call_exec" by (simp add: call_branches_def taken_edges_def call_exec_def edge_of_def rec_of_def)
  let ?ws = "lbr_samples 16 call_branches 1"
  have w: "writes_stacks (map stack_rec ?ws) ?ws" by (rule samples_written) (auto simp: call_branches_def rec_of_def)
  have ws: "\<forall>w\<in>set ?ws. w \<noteq> [] \<and> length w \<le> 64" "?ws \<noteq> []"
    using samples_fit [of 16 _ call_branches] by (fastforce, simp add: lbr_samples_def call_branches_def call_exec_def)
  have "length ?ws = 18" by (simp add: lbr_samples_def call_branches_def call_exec_def)
  then have l: "0 < length bs" "length bs \<le> 18 * 400"
    using stack_bytes(1) [of ?ws 16] stack_bytes(2) [of ?ws] samples_fit [of 16 _ call_branches] unfolding bs_def by (linarith, simp)
  let ?t = "append_insn (append_block (append_block (fresh_trace 8 8) 0) 0) 0"
    and ?p = "\<lparr>pk_samples = ?ws, pk_best = Some (rev (take 2 call_branches)), pk_inregion = 2\<rparr>"
  have "amd_tier_a False (Some call_dec) 16 (rev (take 2 call_branches)) 0x1000 6 (Some (fresh_trace 8 8)) = Some ?t"
    by (simp add: call_branches_def call_exec_def amd_tier_a_def asmtest_amd_decode_reach_def asmtest_amd_decode_reach_hw_def amd_replay_def
        land_at_def tail_fill_def amd_walk_numeral leaves_region_def to_int32_def loop_eval call_dec_def)
  moreover have "length (rev (take 2 call_branches)) = 2" by (simp add: call_branches_def call_exec_def)
  ultimately have d: "amd_decode_pick False (Some call_dec) 16 [] ?p False 0x1000 6 (Some (fresh_trace 8 8)) = (Some ?t, [])"
    by (simp add: amd_decode_pick_def amd_tier_b_def del: rev_take)
  have sc: "amd_scan [] 0x1000 6 bs = (?p, False, [])" unfolding bs_def using scan_records [OF w ws] call_pick by simp
  have nf: "\<not> near_full 16 (length bs) 0x10000" using l by (simp add: near_full_def max_sample_def sz_add_def)
  have "t_insns_total ?t \<noteq> 0" by (simp add: append_insn_def append_block_def fresh_trace_def zero_trace_def)
  then have "asmtest_amd_ring_parse_decode False (Some call_dec) 16 [] (Some bs) (length bs) 0x10000 0x1000 6 (Some (fresh_trace 8 8)) = (Some ?t, [])"
    using l(1) by (simp add: asmtest_amd_ring_parse_decode_def sc nf d amd_flag_def del: length_greater_0_conv One_nat_def)
  then show "\<exists>t. asmtest_amd_ring_parse_decode False (Some call_dec) 16 [] (Some bs) (length bs) 0x10000 0x1000 6 (Some (fresh_trace 8 8)) = (Some t, []) \<and>
       t_insns t = Some [0] \<and> \<not> t_truncated t"
    by (simp add: append_insn_def append_block_def fresh_trace_def zero_trace_def)
qed

end
