(* ===== verification/Hw_Survey.thy ===== *)
theory Hw_Survey
  imports Amd_Ring Ibs
begin

text \<open>
  The whole-window survey of \<^verbatim>\<open>src/src/hwtrace.c\<close>: the endpoints drained from sampled branch stacks, one per branch or weighted by the length of the straight-line block they
  close, the same stream made from an IBS survey, and the buckets by label that make a histogram of hot methods of it. What opening and running the event gives is an argument; so are
  the two resolvers that read \<^verbatim>\<open>/tmp/perf-<pid>.map\<close> and \<^verbatim>\<open>/proc/<pid>/maps\<close>.
\<close>

definition ASMTEST_HW_EINVAL :: int where "ASMTEST_HW_EINVAL = - 1"
definition ASMTEST_HW_ESTATE :: int where "ASMTEST_HW_ESTATE = - 2"
definition ASMTEST_HW_EUNAVAIL :: int where "ASMTEST_HW_EUNAVAIL = - 3"
definition ASMTEST_HW_EFULL :: int where "ASMTEST_HW_EFULL = - 6"

section \<open>Endpoints\<close>

definition AMD_BLOCK_AVG_INSN_BYTES :: u64 where "AMD_BLOCK_AVG_INSN_BYTES = 4"
definition AMD_BLOCK_WEIGHT_MAX :: u64 where "AMD_BLOCK_WEIGHT_MAX = 64"
definition AMD_BLOCK_SPAN_MAX :: u64 where "AMD_BLOCK_SPAN_MAX = 0x10000"

definition block_weight :: "u64 \<Rightarrow> u64 \<Rightarrow> u64" where
  "block_weight head src =
     (let w = (if src \<ge> head \<and> src - head \<le> AMD_BLOCK_SPAN_MAX then (src - head) div AMD_BLOCK_AVG_INSN_BYTES + 1 else 1) in
      if w > AMD_BLOCK_WEIGHT_MAX then AMD_BLOCK_WEIGHT_MAX else w)"

text \<open>The walk over a stack, oldest record first; \<open>head\<close> is the target that opened the current block.\<close>

fun weigh_loop :: "nat \<Rightarrow> u64 option \<Rightarrow> perf_branch_entry list \<Rightarrow> u64 list \<Rightarrow> u64 list" where
  "weigh_loop cap head [] ips = (case head of Some blk \<Rightarrow> if length ips < cap then ips @ [blk] else ips | None \<Rightarrow> ips)"
| "weigh_loop cap head (e # es) ips =
     (if pb_abort e then weigh_loop cap head es ips
      else weigh_loop cap (Some (pb_to e)) es
        (case head of
           Some blk \<Rightarrow> if length ips < cap then ips @ replicate (min (unat (block_weight blk (pb_from e))) (cap - length ips)) blk else ips
         | None \<Rightarrow> ips))"

definition asmtest_amd_block_weight_sample :: "perf_branch_entry list \<Rightarrow> u64 list \<Rightarrow> nat \<Rightarrow> u64 list" where
  "asmtest_amd_block_weight_sample e ips cap = weigh_loop cap None (rev e) ips"

fun target_loop :: "nat \<Rightarrow> perf_branch_entry list \<Rightarrow> u64 list \<Rightarrow> u64 list" where
  "target_loop cap [] ips = ips"
| "target_loop cap (e # es) ips =
     (if \<not> length ips < cap then ips
      else if pb_abort e then target_loop cap es ips
      else target_loop cap es (ips @ [pb_to e]))"

definition survey_record :: "bool \<Rightarrow> nat \<Rightarrow> nat \<Rightarrow> u8 list \<Rightarrow> u64 list \<times> bool \<Rightarrow> u64 list \<times> bool" where
  "survey_record weight cap type rb = (\<lambda>(ips, lost).
     if type = PERF_RECORD_LOST \<or> type = PERF_RECORD_THROTTLE then (ips, True)
     else if type = PERF_RECORD_SAMPLE \<and> length rb \<ge> 16 then
       (case branch_sample rb of
          None \<Rightarrow> (ips, lost)
        | Some e \<Rightarrow>
            (let ips1 = (if weight then asmtest_amd_block_weight_sample e ips cap else target_loop cap e ips) in
             (ips1, lost \<or> length ips1 \<ge> cap)))
     else (ips, lost))"

text \<open>The drain both forms of the survey share: near-full check, copy, walk, consumption. The endpoints drained so far go in.\<close>

definition survey_drain :: "bool \<Rightarrow> int \<Rightarrow> heap \<Rightarrow> nat \<Rightarrow> u64 list \<times> bool \<Rightarrow> perf_ring \<Rightarrow> (u64 list \<times> bool) \<times> perf_ring \<times> heap" where
  "survey_drain weight depth h cap acc r =
     (let dsz = pr_size r; span = unat (pr_head r - pr_tail r);
          acc1 = (fst acc, snd acc \<or> near_full depth span dsz) in
      case (if cap > 0 \<and> span > 0 \<and> span \<le> dsz
            then (case alloc h of (ok, h1) \<Rightarrow> (if ok then perf_walk (survey_record weight cap) (ring_copy r span) 0 acc1 else acc1, h1))
            else (acc1, h)) of
        (acc2, h2) \<Rightarrow> (acc2, r\<lparr>pr_tail := pr_head r\<rparr>, h2))"

text \<open>The flag of both forms: a loss, or nothing at all.\<close>

definition survey_truncated :: "u64 list \<times> bool \<Rightarrow> bool" where
  "survey_truncated acc \<longleftrightarrow> snd acc \<or> fst acc = []"

fun ips_loop :: "nat \<Rightarrow> ibs_edge list \<Rightarrow> u64 list \<Rightarrow> u64 list \<times> bool" where
  "ips_loop cap [] ips = (ips, False)"
| "ips_loop cap (e # es) ips =
     (let n = unat (ie_count e); room = cap - length ips in
      if n > room then (ips @ replicate room (ie_to e), True)
      else ips_loop cap es (ips @ replicate n (ie_to e)))"

definition ibs_survey_to_ips :: "ibs_survey \<Rightarrow> nat \<Rightarrow> u64 list \<times> bool" where
  "ibs_survey_to_ips sv cap =
     (case ips_loop cap (sv_edges sv) [] of (ips, overflow) \<Rightarrow> (ips, overflow \<or> sv_throttled sv \<or> sv_lost sv \<noteq> 0))"

text \<open>
  A survey: what the host answers (whether the branch event opens, whether the IBS path is forced, what IBS gives, whether the ring maps and the event enables), the endpoints of the checkpoint
  tiles, and the ring after the window has run. The results are the status, the endpoints and the flag.
\<close>

record window_env =
  we_fd :: bool
  we_forced :: bool
  we_ibs :: "ibs_survey option"
  we_mapped :: bool
  we_enabled :: bool
  we_tile :: "(u64 list \<times> bool) option"
  we_ring :: perf_ring

definition sample_window_ibs :: "ibs_survey option \<Rightarrow> nat \<Rightarrow> int \<times> u64 list \<times> bool" where
  "sample_window_ibs ibs cap =
     (case ibs of
        None \<Rightarrow> (ASMTEST_HW_EUNAVAIL, [], False)
      | Some sv \<Rightarrow> (let acc = ibs_survey_to_ips sv cap in (ASMTEST_HW_OK, fst acc, survey_truncated acc)))"


definition sample_window_amd_impl :: "bool \<Rightarrow> bool \<Rightarrow> int \<Rightarrow> heap \<Rightarrow> window_env \<Rightarrow> nat \<Rightarrow> (int \<times> u64 list \<times> bool) \<times> heap" where
  "sample_window_amd_impl args_ok weight depth h env cap =
     (if \<not> args_ok \<or> cap = 0 then ((ASMTEST_HW_EINVAL, [], False), h)
      else if \<not> we_fd env \<or> we_forced env then (sample_window_ibs (we_ibs env) cap, h)
      else if \<not> we_mapped env \<or> \<not> we_enabled env then ((ASMTEST_HW_EUNAVAIL, [], False), h)
      else case survey_drain weight depth h cap (case we_tile env of Some t \<Rightarrow> t | None \<Rightarrow> ([], False)) (we_ring env) of
        (acc, _, h1) \<Rightarrow> ((ASMTEST_HW_OK, fst acc, survey_truncated acc), h1))"

text \<open>
  The end of a survey begun by \<^verbatim>\<open>asmtest_hwtrace_sample_begin_amd\<close>; \<open>ctx\<close> is an IBS window's survey or a ring. An array that is \<^verbatim>\<open>NULL\<close> has capacity 0 here.
\<close>

definition asmtest_hwtrace_sample_end_amd :: "(ibs_survey + perf_ring) option \<Rightarrow> int \<Rightarrow> heap \<Rightarrow> nat \<Rightarrow> (int \<times> u64 list \<times> bool) \<times> heap" where
  "asmtest_hwtrace_sample_end_amd ctx depth h cap =
     (case ctx of
        None \<Rightarrow> ((ASMTEST_HW_EINVAL, [], False), h)
      | Some (Inl sv) \<Rightarrow>
          (let acc = (if cap > 0 then ibs_survey_to_ips sv cap else ([], sv_throttled sv \<or> sv_lost sv \<noteq> 0)) in
           ((ASMTEST_HW_OK, fst acc, survey_truncated acc), h))
      | Some (Inr r) \<Rightarrow>
          (case survey_drain False depth h cap ([], False) r of
             (acc, _, h1) \<Rightarrow> ((ASMTEST_HW_OK, fst acc, survey_truncated acc), h1)))"

section \<open>Buckets\<close>

record bucket =
  bk_label :: string
  bk_count :: u64

fun bucket_hit :: "string \<Rightarrow> bucket list \<Rightarrow> bucket list option" where
  "bucket_hit label [] = None"
| "bucket_hit label (b # bs) =
     (if bk_label b = label then Some (b\<lparr>bk_count := bk_count b + 1\<rparr> # bs)
      else map_option ((#) b) (bucket_hit label bs))"

definition bucket_add :: "nat \<Rightarrow> bucket list \<Rightarrow> string \<Rightarrow> bucket list" where
  "bucket_add cap bs label =
     (case bucket_hit label bs of
        Some bs1 \<Rightarrow> bs1
      | None \<Rightarrow> if length bs \<ge> cap then bs else bs @ [\<lparr>bk_label = label, bk_count = 1\<rparr>])"

text \<open>The label of an address: a JIT symbol, else the name of its mapping, else unknown. The resolvers answer a label cut to their buffer.\<close>

definition label_of :: "(u64 \<Rightarrow> string option) \<Rightarrow> (u64 \<Rightarrow> string option) \<Rightarrow> u64 \<Rightarrow> string" where
  "label_of perfmap region ip =
     (case perfmap ip of Some l \<Rightarrow> l | None \<Rightarrow> (case region ip of Some l \<Rightarrow> l | None \<Rightarrow> ''[unknown]''))"

definition asmtest_hwtrace_symbolize_bucket :: "(u64 \<Rightarrow> string option) \<Rightarrow> (u64 \<Rightarrow> string option) \<Rightarrow> u64 list \<Rightarrow> nat \<Rightarrow> bucket list" where
  "asmtest_hwtrace_symbolize_bucket perfmap region ips cap =
     (if cap = 0 then [] else foldl (\<lambda>bs ip. bucket_add cap bs (label_of perfmap region ip)) [] ips)"

record named_region =
  nr_name :: string
  nr_base :: u64
  nr_len :: u64

definition window_label :: "(u64 \<Rightarrow> string option) \<Rightarrow> (u64 \<Rightarrow> string option) \<Rightarrow> named_region list \<Rightarrow> u64 \<Rightarrow> string" where
  "window_label perfmap region regions addr =
     (case find (\<lambda>r. nr_len r \<noteq> 0 \<and> addr \<ge> nr_base r \<and> addr < nr_base r + nr_len r) regions of
        Some r \<Rightarrow> if nr_name r \<noteq> [] then nr_name r else label_of perfmap region addr
      | None \<Rightarrow> label_of perfmap region addr)"

text \<open>\<open>frame\<close> is what \<^verbatim>\<open>asmtest_ss_frame_lookup\<close> finds for the handle: a base, a length and a trace.\<close>

definition asmtest_hwtrace_attribute_window :: "(u64 \<Rightarrow> string option) \<Rightarrow> (u64 \<Rightarrow> string option) \<Rightarrow> (u64 \<times> nat \<times> asmtest_trace option) option \<Rightarrow>
    named_region list \<Rightarrow> nat \<Rightarrow> int \<times> bucket list" where
  "asmtest_hwtrace_attribute_window perfmap region frame regions cap =
     (if cap = 0 then (ASMTEST_HW_EINVAL, [])
      else case frame of
        Some (base, len, Some t) \<Rightarrow>
          if base \<noteq> 0 \<or> len \<noteq> 0 then (ASMTEST_HW_EINVAL, [])
          else (ASMTEST_HW_OK, foldl (\<lambda>bs a. bucket_add cap bs (window_label perfmap region regions a)) [] (buf_of (t_insns t)))
      | _ \<Rightarrow> (ASMTEST_HW_EINVAL, []))"

section \<open>What the drains give\<close>

definition retired :: "perf_branch_entry list \<Rightarrow> u64 list" where
  "retired w = map pb_to (filter (\<lambda>e. \<not> pb_abort e) w)"

lemma take_take_append: "take n (take n xs @ ys) = take n (xs @ ys)"
  by (cases "length xs \<le> n") simp_all

lemma target_loop_eq: "length ips \<le> cap \<Longrightarrow> target_loop cap e ips = take cap (ips @ retired e)"
proof (induction e arbitrary: ips)
  case (Cons x e)
  have "target_loop cap e (ips @ [pb_to x]) = take cap (ips @ pb_to x # retired e)" if "length ips < cap" using Cons.IH [of "ips @ [pb_to x]"] that by simp
  moreover have "take cap (ips @ xs) = ips" if "\<not> length ips < cap" for xs using Cons.prems that by simp
  ultimately show ?case using Cons by (cases "length ips < cap") (auto simp: retired_def simp del: take_append)
qed (simp add: retired_def)

lemma survey_stacks:
  assumes "list_all2 carries (filter is_branch_sample rs) ws" "\<forall>w\<in>set ws. w \<noteq> [] \<and> length w \<le> 64"
    and "\<forall>r\<in>set rs. rc_type r \<noteq> PERF_RECORD_LOST \<and> rc_type r \<noteq> PERF_RECORD_THROTTLE" "length ips \<le> cap"
  shows "foldl (\<lambda>s r. survey_record False cap (rc_type r) (rec_bytes r) s) (ips, lost) rs =
    (take cap (ips @ concat (map retired ws)), lost \<or> (ws \<noteq> [] \<and> cap \<le> length (ips @ concat (map retired ws))))"
  using assms
proof (induction rs arbitrary: ips ws lost)
  case (Cons r rs)
  show ?case
  proof (cases "is_branch_sample r")
    case True
    then obtain w ws' where w: "ws = w # ws'" "carries r w" "list_all2 carries (filter is_branch_sample rs) ws'"
      using Cons.prems(1) by (auto simp: list_all2_Cons1)
    have bs: "branch_sample (rec_bytes r) = Some w" using w(1,2) Cons.prems(2) branch_sample_rec by simp
    have len: "16 \<le> length (rec_bytes r)" using w(2) by (auto simp: carries_def)
    let ?ips = "take cap (ips @ retired w)"
    have "survey_record False cap (rc_type r) (rec_bytes r) (ips, lost) = (?ips, lost \<or> cap \<le> length (ips @ retired w))"
      using True len bs target_loop_eq [OF Cons.prems(4), of w] by (simp add: survey_record_def perf_types Let_def) arith
    moreover have "foldl (\<lambda>s r. survey_record False cap (rc_type r) (rec_bytes r) s) (?ips, lost \<or> cap \<le> length (ips @ retired w)) rs =
        (take cap (?ips @ concat (map retired ws')),
         (lost \<or> cap \<le> length (ips @ retired w)) \<or> (ws' \<noteq> [] \<and> cap \<le> length (?ips @ concat (map retired ws'))))"
      by (rule Cons.IH [OF w(3)]) (use Cons.prems(2,3) w(1) in \<open>simp_all del: take_append\<close>)
    moreover have "take cap (?ips @ concat (map retired ws')) = take cap (ips @ concat (map retired ws))"
      using take_take_append [of cap "ips @ retired w"] by (simp add: w(1) del: take_append)
    moreover have "cap \<le> length (?ips @ concat (map retired ws')) \<longleftrightarrow> cap \<le> length (ips @ concat (map retired ws))" by (simp add: w(1) del: take_append) arith
    ultimately show ?thesis using w(1) by (auto simp del: take_append)
  qed (use Cons in \<open>auto simp: survey_record_def\<close>)
qed simp


section \<open>Weighted endpoints\<close>

text \<open>Every block is credited to its head, from once to 64 times.\<close>

lemma block_weight_bounds: "1 \<le> unat (block_weight hp src) \<and> unat (block_weight hp src) \<le> 64"
proof -
  have *: "1 \<le> w div 4 + (1 :: u64)" if "w \<le> 0x10000" for w :: u64
  proof -
    have "unat (w div 4) = unat w div 4" "unat w \<le> 0x10000" using that by (simp_all add: unat_div word_le_nat_alt)
    then have "unat (w div 4 + 1) = unat w div 4 + 1" by (simp add: unat_word_ariths)
    then show ?thesis by (simp add: word_le_nat_alt)
  qed
  have "1 \<le> block_weight hp src" "block_weight hp src \<le> 64"
    using * [of "src - hp"]
    by (auto simp: block_weight_def Let_def AMD_BLOCK_WEIGHT_MAX_def AMD_BLOCK_SPAN_MAX_def AMD_BLOCK_AVG_INSN_BYTES_def)
  then show ?thesis by (auto simp: word_le_nat_alt)
qed

fun credits :: "u64 option \<Rightarrow> perf_branch_entry list \<Rightarrow> u64 list" where
  "credits hp [] = (case hp of Some b \<Rightarrow> [b] | None \<Rightarrow> [])"
| "credits hp (e # es) =
     (case hp of Some b \<Rightarrow> replicate (unat (block_weight b (pb_from e))) b | None \<Rightarrow> []) @ credits (Some (pb_to e)) es"

lemma weigh_loop_eq: "length ips \<le> cap \<Longrightarrow> weigh_loop cap hp es ips = take cap (ips @ credits hp (filter (\<lambda>e. \<not> pb_abort e) es))"
proof (induction es arbitrary: hp ips)
  case (Cons e es)
  show ?case
  proof (cases "pb_abort e")
    case False
    let ?c = "case hp of Some b \<Rightarrow> replicate (unat (block_weight b (pb_from e))) b | None \<Rightarrow> []"
    have "(case hp of Some b \<Rightarrow> if length ips < cap then ips @ replicate (min (unat (block_weight b (pb_from e))) (cap - length ips)) b else ips
         | None \<Rightarrow> ips) = take cap (ips @ ?c)"
      using Cons.prems by (auto split: option.split)
    then have "weigh_loop cap hp (e # es) ips = weigh_loop cap (Some (pb_to e)) es (take cap (ips @ ?c))"
      using False by (simp del: take_append)
    also have "\<dots> = take cap (take cap (ips @ ?c) @ credits (Some (pb_to e)) (filter (\<lambda>e. \<not> pb_abort e) es))" by (rule Cons.IH) simp
    finally show ?thesis using False by (simp add: take_take_append del: take_append)
  qed (use Cons in simp)
qed (auto split: option.split)

lemma credits_set: "set (credits hp es) = set_option hp \<union> pb_to ` set es"
proof (induction es arbitrary: hp)
  case (Cons e es)
  have "unat (block_weight b (pb_from e)) \<noteq> 0" for b using block_weight_bounds [of b "pb_from e"] by simp
  then show ?case using Cons by (auto split: option.split)
qed (auto split: option.split)

text \<open>
  The weighted drain of a stack, as long as the array has room: the credits of its blocks follow the endpoints before them, every retired target of the stack is
  credited and no other address is.
\<close>

lemma weighted_sample:
  assumes "length ips \<le> cap"
  shows "asmtest_amd_block_weight_sample e ips cap = take cap (ips @ credits None (filter (\<lambda>e. \<not> pb_abort e) (rev e)))"
    "set (credits None (filter (\<lambda>e. \<not> pb_abort e) (rev e))) = set (retired e)"
  using weigh_loop_eq [OF assms] by (auto simp: asmtest_amd_block_weight_sample_def credits_set retired_def)

section \<open>IBS surveys as endpoints\<close>

lemma ips_loop_eq:
  "length ips \<le> cap \<Longrightarrow> ips_loop cap es ips =
     (take cap (ips @ concat (map (\<lambda>e. replicate (unat (ie_count e)) (ie_to e)) es)),
      cap < length (ips @ concat (map (\<lambda>e. replicate (unat (ie_count e)) (ie_to e)) es)))"
proof (induction es arbitrary: ips)
  case (Cons e es)
  show ?case
  proof (cases "unat (ie_count e) > cap - length ips")
    case True
    then show ?thesis using Cons.prems by (simp add: Let_def)
  next
    case False
    then show ?thesis using Cons.IH [of "ips @ replicate (unat (ie_count e)) (ie_to e)"] Cons.prems by (simp add: Let_def)
  qed
qed simp

text \<open>An IBS survey that fits its array becomes a stream in which every target occurs as often as its edges were sampled.\<close>

lemma ibs_endpoints:
  assumes "(\<Sum>e\<leftarrow>sv_edges sv. unat (ie_count e)) \<le> cap"
  shows "count_list (fst (ibs_survey_to_ips sv cap)) a = (\<Sum>e\<leftarrow>filter (\<lambda>e. ie_to e = a) (sv_edges sv). unat (ie_count e))"
    "snd (ibs_survey_to_ips sv cap) \<longleftrightarrow> sv_throttled sv \<or> sv_lost sv \<noteq> 0"
proof -
  have l: "length (concat (map (\<lambda>e. replicate (unat (ie_count e)) (ie_to e)) es)) = (\<Sum>e\<leftarrow>es. unat (ie_count e))" for es
    by (induction es) simp_all
  have r: "count_list (replicate n x) a = (if x = a then n else 0)" for n x by (induction n) auto
  have c: "count_list (concat (map (\<lambda>e. replicate (unat (ie_count e)) (ie_to e)) es)) a = (\<Sum>e\<leftarrow>filter (\<lambda>e. ie_to e = a) es. unat (ie_count e))" for es
    by (induction es) (simp_all add: r)
  show "count_list (fst (ibs_survey_to_ips sv cap)) a = (\<Sum>e\<leftarrow>filter (\<lambda>e. ie_to e = a) (sv_edges sv). unat (ie_count e))"
    "snd (ibs_survey_to_ips sv cap) \<longleftrightarrow> sv_throttled sv \<or> sv_lost sv \<noteq> 0"
    using assms ips_loop_eq [of "[]" cap "sv_edges sv"] l [of "sv_edges sv"] by (simp_all add: ibs_survey_to_ips_def c)
qed

section \<open>Histograms\<close>

definition histogram :: "nat \<Rightarrow> string list \<Rightarrow> bucket list" where
  "histogram cap ls = map (\<lambda>l. \<lparr>bk_label = l, bk_count = of_nat (count_list ls l)\<rparr>) (take cap (nub ls))"

lemma bucket_hit_map:
  "distinct ks \<Longrightarrow> bucket_hit l (map (\<lambda>k. \<lparr>bk_label = k, bk_count = c k\<rparr>) ks) =
     (if l \<in> set ks then Some (map (\<lambda>k. \<lparr>bk_label = k, bk_count = (if k = l then c k + 1 else c k)\<rparr>) ks) else None)"
  by (induction ks) auto

lemma histogram_snoc: "bucket_add cap (histogram cap ls) l = histogram cap (ls @ [l])"
proof -
  let ?ks = "take cap (nub ls)"
  have cl: "count_list (ls @ [l]) k = count_list ls k + (if k = l then 1 else 0)" for k by auto
  have d: "distinct ?ks" by simp
  have h: "bucket_hit l (histogram cap ls) = (if l \<in> set ?ks then
      Some (map (\<lambda>k. \<lparr>bk_label = k, bk_count = of_nat (count_list (ls @ [l]) k)\<rparr>) ?ks) else None)"
    unfolding histogram_def bucket_hit_map [OF d] cl by (auto simp del: count_list_append)
  consider "l \<in> set ?ks" | "l \<notin> set ?ks" "cap \<le> length (nub ls)" | "l \<notin> set ?ks" "length (nub ls) < cap" by linarith
  then show ?thesis
  proof cases
    case 1
    then have "l \<in> set ls" by (metis in_set_takeD set_nub)
    then show ?thesis using 1 h by (simp add: bucket_add_def histogram_def nub_snoc del: count_list_append)
  next
    case 2
    have "take cap (nub (ls @ [l])) = ?ks" using 2(2) by (simp add: nub_snoc)
    then show ?thesis using 2 h by (auto simp: bucket_add_def histogram_def)
  next
    case 3
    then have "l \<notin> set ls" by simp
    then show ?thesis using 3 h by (auto simp: bucket_add_def histogram_def nub_snoc count_list_0_iff)
  qed
qed

lemma histogram_foldl: "foldl (\<lambda>bs x. bucket_add cap bs (f x)) [] xs = histogram cap (map f xs)"
proof (induction xs rule: rev_induct)
  case (snoc x xs)
  then show ?case using histogram_snoc by simp
qed (simp add: histogram_def)


lemma drain_stacks:
  assumes "writes_stacks rs ws" "\<forall>w\<in>set ws. w \<noteq> [] \<and> length w \<le> 64" "ws \<noteq> []" "ring_holds r (concat (map rec_bytes rs))" "0 < cap"
  shows "fst (survey_drain False depth [] cap ([], False) r) =
    (take cap (concat (map retired ws)), near_full depth (length (concat (map rec_bytes rs))) (pr_size r) \<or> cap \<le> length (concat (map retired ws)))"
proof -
  let ?bs = "concat (map rec_bytes rs)"
  have w: "list_all rec_ok rs" "list_all2 carries (filter is_branch_sample rs) ws"
    "\<forall>r\<in>set rs. rc_type r \<noteq> PERF_RECORD_LOST \<and> rc_type r \<noteq> PERF_RECORD_THROTTLE" using assms(1) by (auto simp: writes_stacks_def)
  have "rs \<noteq> []" using w(2) assms(3) by auto
  then have bs: "0 < length ?bs" by (cases rs) simp_all
  have sp: "unat (pr_head r - pr_tail r) = length ?bs" "length ?bs \<le> pr_size r" using assms(4) by (auto simp: ring_holds_def unat_of_nat)
  have cp: "ring_copy r (length ?bs) = ?bs" using holds_copy [OF assms(4)] holds_span [OF assms(4)] by simp
  show ?thesis using sp bs assms(3,5) by (simp add: survey_drain_def Let_def cp walk_records [OF w(1)] survey_stacks [OF w(2) assms(2) w(3)] split: prod.split)
qed

text \<open>
  C21: In its plain form (every branch counted once, no tile given, a hardware stack, no allocation failing) the survey of a window is a faithful histogram of the sampled branches, from the bytes of the ring to the buckets. Let the kernel have
  written the stacks \<open>ws\<close> (among other records, none of which tells of a loss). The endpoints
  are the targets of the branches of the stacks that were not rolled back, stack by stack, cut at the capacity of the array; the survey is flagged as a prefix exactly when
  the ring had no room for another sample, the array is full or nothing was sampled. The buckets made of the endpoints for a table of \<open>nb\<close> entries are the first \<open>nb\<close> labels in order of their first occurrence, each with the number
  of endpoints it labels; endpoints whose label comes after these are in no bucket.
\<close>

theorem window_survey_exact:
  assumes "writes_stacks rs ws" "\<forall>w\<in>set ws. w \<noteq> [] \<and> length w \<le> 64" "ws \<noteq> []" "ring_holds (we_ring env) (concat (map rec_bytes rs))"
    and "we_fd env" "\<not> we_forced env" "we_mapped env" "we_enabled env" "we_tile env = None" "0 < cap" "0 < nb"
  shows "\<exists>ips tr. sample_window_amd_impl True False depth [] env cap = ((ASMTEST_HW_OK, ips, tr), []) \<and> ips = take cap (concat (map retired ws)) \<and>
    (tr \<longleftrightarrow> near_full depth (length (concat (map rec_bytes rs))) (pr_size (we_ring env)) \<or> cap \<le> length (concat (map retired ws)) \<or> concat (map retired ws) = []) \<and>
    asmtest_hwtrace_symbolize_bucket perfmap region ips nb = histogram nb (map (label_of perfmap region) ips)"
proof -
  obtain acc r1 h1 where d: "survey_drain False depth [] cap ([], False) (we_ring env) = (acc, r1, h1)" by (metis prod_cases3)
  have h: "h1 = []" using d by (auto simp: survey_drain_def Let_def split: if_splits prod.splits)
  have a: "acc = (take cap (concat (map retired ws)),
      near_full depth (length (concat (map rec_bytes rs))) (pr_size (we_ring env)) \<or> cap \<le> length (concat (map retired ws)))"
    using drain_stacks [OF assms(1-4,10), of depth] d by simp
  have "asmtest_hwtrace_symbolize_bucket perfmap region ips nb = histogram nb (map (label_of perfmap region) ips)" for ips
    using assms(11) histogram_foldl [of nb "label_of perfmap region" ips] by (simp add: asmtest_hwtrace_symbolize_bucket_def)
  then show ?thesis using assms(5-10) d h by (simp add: sample_window_amd_impl_def a survey_truncated_def take_eq_Nil)
qed

theorem window_survey_exact_witness:
  "\<exists>r ips tr. sample_window_amd_impl True False 16 [] \<lparr>we_fd = True, we_forced = False, we_ibs = None, we_mapped = True, we_enabled = True, we_tile = None, we_ring = r\<rparr> 8 =
       ((ASMTEST_HW_OK, ips, tr), []) \<and> ips = [0x1000, 0x7000, 0x1000] \<and> \<not> tr \<and>
     asmtest_hwtrace_symbolize_bucket (\<lambda>a. if a = 0x1000 then Some ''f'' else None) (\<lambda>_. None) ips 4 =
       [\<lparr>bk_label = ''f'', bk_count = 2\<rparr>, \<lparr>bk_label = ''[unknown]'', bk_count = 1\<rparr>]"
proof -
  let ?x = "[[rec_of 0x9000 0x1000], [rec_of 0x1000 0x7000, rec_of 0x9000 0x1000]]"
  let ?rs = "map stack_rec ?x" and ?empty = "\<lparr>pr_data = replicate 1024 0, pr_head = 0, pr_tail = 0\<rparr>"
  let ?r = "put_bytes (concat (map rec_bytes ?rs)) ?empty"
  let ?env = "\<lparr>we_fd = True, we_forced = False, we_ibs = None, we_mapped = True, we_enabled = True, we_tile = None, we_ring = ?r\<rparr>"
  let ?pm = "\<lambda>a. if a = 0x1000 then Some ''f'' else None" and ?rg = "\<lambda>_. None"
  have w: "writes_stacks ?rs ?x" by (rule stack_recs_written) (simp add: rec_of_def)
  have l: "length (concat (map rec_bytes ?rs)) = 104" by (simp add: stack_rec_def entry_bytes_def)
  have "ring_holds ?empty []" by (simp add: ring_holds_def)
  then have r: "ring_holds ?r (concat (map rec_bytes ?rs))" "pr_size ?r = 1024" using put_bytes_holds [of ?empty "concat (map rec_bytes ?rs)"] l by auto
  have "\<exists>ips tr. sample_window_amd_impl True False 16 [] ?env 8 = ((ASMTEST_HW_OK, ips, tr), []) \<and> ips = take 8 (concat (map retired ?x)) \<and>
    (tr \<longleftrightarrow> near_full 16 (length (concat (map rec_bytes ?rs))) (pr_size (we_ring ?env)) \<or> 8 \<le> length (concat (map retired ?x)) \<or> concat (map retired ?x) = []) \<and>
    asmtest_hwtrace_symbolize_bucket ?pm ?rg ips 4 = histogram 4 (map (label_of ?pm ?rg) ips)"
    by (rule window_survey_exact [OF w]) (use r(1) in simp_all)
  then obtain ips tr where o: "sample_window_amd_impl True False 16 [] ?env 8 = ((ASMTEST_HW_OK, ips, tr), [])" "ips = take 8 (concat (map retired ?x))"
    "tr \<longleftrightarrow> near_full 16 (length (concat (map rec_bytes ?rs))) (pr_size (we_ring ?env)) \<or> 8 \<le> length (concat (map retired ?x)) \<or> concat (map retired ?x) = []"
    "asmtest_hwtrace_symbolize_bucket ?pm ?rg ips 4 = histogram 4 (map (label_of ?pm ?rg) ips)" by blast
  have nf: "\<not> near_full 16 (length (concat (map rec_bytes ?rs))) (pr_size (we_ring ?env))" unfolding l using r(2) by (simp add: near_full_def max_sample_def sz_add_def)
  have P: "concat (map retired ?x) = [0x1000, 0x7000, 0x1000]" by (simp add: retired_def rec_of_def)
  have ips: "ips = [0x1000, 0x7000, 0x1000]" "\<not> tr" using o(2,3) nf unfolding P by simp_all
  have "histogram 4 (map (label_of ?pm ?rg) [0x1000, 0x7000, 0x1000]) = [\<lparr>bk_label = ''f'', bk_count = 2\<rparr>, \<lparr>bk_label = ''[unknown]'', bk_count = 1\<rparr>]"
    by (simp add: histogram_def label_of_def nub_def)
  then have "asmtest_hwtrace_symbolize_bucket ?pm ?rg ips 4 = [\<lparr>bk_label = ''f'', bk_count = 2\<rparr>, \<lparr>bk_label = ''[unknown]'', bk_count = 1\<rparr>]"
    unfolding o(4) unfolding ips(1) .
  with o(1) ips show ?thesis by blast
qed

text \<open>A window scope's addresses are counted under the caller's named regions first.\<close>

lemma attribute_window_exact:
  assumes "0 < cap" "t_insns t = Some xs"
  shows "asmtest_hwtrace_attribute_window perfmap region (Some (0, 0, Some t)) regions cap =
    (ASMTEST_HW_OK, histogram cap (map (window_label perfmap region regions) xs))"
  using assms histogram_foldl [of cap "window_label perfmap region regions" xs] by (simp add: asmtest_hwtrace_attribute_window_def buf_of_def)

end
