(* ===== verification/Hw_Front.thy ===== *)
theory Hw_Front
  imports Hw_Survey Cascade
begin

text \<open>
  The front end of the hardware tier, \<^verbatim>\<open>src/src/hwtrace.c\<close>: the choice of a backend, the options and the registry of regions, the sizes and the reading of rings, the enumeration of
  a region's exits, and the filter of a decoded trace. Availability of a backend, the page size and the disassembler are arguments.
\<close>

section \<open>The choice of a backend\<close>

definition hw_order :: "trace_backend list" where
  "hw_order = [INTEL_PT, AMD_LBR, SINGLESTEP, CORESIGHT]"

fun hw_resolve_loop :: "(trace_backend \<Rightarrow> bool) \<Rightarrow> bool \<Rightarrow> nat \<Rightarrow> trace_backend list \<Rightarrow> trace_backend list \<Rightarrow> trace_backend list" where
  "hw_resolve_loop avail ceiling_free cap [] out = out"
| "hw_resolve_loop avail ceiling_free cap (b # bs) out =
     (if \<not> length out < cap then out
      else if ceiling_free \<and> b = AMD_LBR then hw_resolve_loop avail ceiling_free cap bs out
      else hw_resolve_loop avail ceiling_free cap bs (if avail b then out @ [b] else out))"

definition asmtest_hwtrace_resolve :: "(trace_backend \<Rightarrow> bool) \<Rightarrow> bool \<Rightarrow> nat \<Rightarrow> trace_backend list" where
  "asmtest_hwtrace_resolve avail ceiling_free cap = (if cap = 0 then [] else hw_resolve_loop avail ceiling_free cap hw_order [])"

text \<open>A status is negative, a backend is its number.\<close>

fun backend_code :: "trace_backend \<Rightarrow> int" where
  "backend_code INTEL_PT = 0"
| "backend_code CORESIGHT = 1"
| "backend_code AMD_LBR = 2"
| "backend_code SINGLESTEP = 3"

definition asmtest_hwtrace_auto :: "(trace_backend \<Rightarrow> bool) \<Rightarrow> bool \<Rightarrow> int" where
  "asmtest_hwtrace_auto avail ceiling_free =
     (case asmtest_hwtrace_resolve avail ceiling_free 1 of [] \<Rightarrow> ASMTEST_HW_EUNAVAIL | b # _ \<Rightarrow> backend_code b)"

definition asmtest_hwtrace_window_auto :: "(trace_backend \<Rightarrow> bool) \<Rightarrow> bool \<Rightarrow> int" where
  "asmtest_hwtrace_window_auto avail pt_window_trusted =
     (if avail INTEL_PT \<and> pt_window_trusted then backend_code INTEL_PT
      else if avail SINGLESTEP then backend_code SINGLESTEP
      else ASMTEST_HW_EUNAVAIL)"

section \<open>Options and regions\<close>

text \<open>
  The options are the bytes of \<^verbatim>\<open>asmtest_hwtrace_options_t\<close>, 56 of them: the caller's size at offset 0, the backend at 8. A region's name is the string its array holds;
  a trace is the address of its record.
\<close>

definition SIZEOF_OPTS :: nat where "SIZEOF_OPTS = 56"
definition OPTS_MIN :: nat where "OPTS_MIN = 8 + 4"
definition MAX_REGIONS :: nat where "MAX_REGIONS = 32"

record hw_region =
  rg_name :: string
  rg_base :: u64
  rg_len :: nat
  rg_trace :: u64
  rg_arm_tid :: int

record hw_state =
  g_inited :: bool
  g_opts :: "u8 list"
  g_regions :: "hw_region list"

text \<open>\<open>avail\<close> is asked for the number in the caller's bytes; \<open>live\<close> says that a capture is active.\<close>

definition asmtest_hwtrace_init :: "(nat \<Rightarrow> bool) \<Rightarrow> bool \<Rightarrow> u8 list option \<Rightarrow> hw_state \<Rightarrow> int \<times> hw_state" where
  "asmtest_hwtrace_init avail live opts st =
     (case opts of
        None \<Rightarrow> (ASMTEST_HW_EINVAL, st)
      | Some ob \<Rightarrow>
          (let sz = ld 8 ob 0 in
           if sz = 0 then (ASMTEST_HW_EINVAL, st)
           else if sz < OPTS_MIN then (ASMTEST_HW_EINVAL, st)
           else let n = (if sz > SIZEOF_OPTS then SIZEOF_OPTS else sz) in
             if live then (ASMTEST_HW_ESTATE, st)
             else if \<not> avail (ld 4 ob 8) then (ASMTEST_HW_EUNAVAIL, st)
             else (ASMTEST_HW_OK,
               \<lparr>g_inited = True, g_opts = le 8 SIZEOF_OPTS @ drop 8 (take n ob @ replicate (SIZEOF_OPTS - n) 0), g_regions = []\<rparr>)))"

fun find_region :: "string \<Rightarrow> hw_region list \<Rightarrow> hw_region option" where
  "find_region name [] = None"
| "find_region name (r # rs) = (if rg_name r = name then Some r else find_region name rs)"

fun refresh_region :: "string \<Rightarrow> u64 \<Rightarrow> nat \<Rightarrow> u64 \<Rightarrow> hw_region list \<Rightarrow> hw_region list" where
  "refresh_region name base len trace [] = []"
| "refresh_region name base len trace (r # rs) =
     (if rg_name r = name then r\<lparr>rg_base := base, rg_len := len, rg_trace := trace\<rparr> # rs
      else r # refresh_region name base len trace rs)"

text \<open>A name is stored in 64 bytes, so a longer one is cut to its first 63 characters.\<close>

definition asmtest_hwtrace_register_region :: "string option \<Rightarrow> u64 \<Rightarrow> nat \<Rightarrow> u64 \<Rightarrow> hw_state \<Rightarrow> int \<times> hw_state" where
  "asmtest_hwtrace_register_region name base len trace st =
     (if \<not> g_inited st then (ASMTEST_HW_ESTATE, st)
      else case name of
        None \<Rightarrow> (ASMTEST_HW_EINVAL, st)
      | Some nm \<Rightarrow>
          if base = 0 \<or> len = 0 \<or> trace = 0 then (ASMTEST_HW_EINVAL, st)
          else if find_region nm (g_regions st) \<noteq> None then
            (ASMTEST_HW_OK, st\<lparr>g_regions := refresh_region nm base len trace (g_regions st)\<rparr>)
          else if length (g_regions st) \<ge> MAX_REGIONS then (ASMTEST_HW_EFULL, st)
          else (ASMTEST_HW_OK, st\<lparr>g_regions := g_regions st @
                 [\<lparr>rg_name = take 63 nm, rg_base = base, rg_len = len, rg_trace = trace, rg_arm_tid = 0\<rparr>]\<rparr>))"

section \<open>Rings\<close>

function next_pow2 :: "nat \<Rightarrow> nat \<Rightarrow> nat" where
  "next_pow2 p pages = (if 0 < p \<and> p < pages then next_pow2 (2 * p) pages else p)"
  by pat_completeness auto
termination
  by (relation "measure (\<lambda>(p, pages). pages - p)") auto

declare next_pow2.simps [simp del]

definition MAX_RING :: nat where "MAX_RING = 2 ^ 30"

definition round_pages :: "int \<Rightarrow> nat \<Rightarrow> nat \<Rightarrow> nat" where
  "round_pages sysconf_pg want dflt =
     (let pg = nat (if sysconf_pg \<le> 0 then 4096 else sysconf_pg);
          v = (if want \<noteq> 0 then want else dflt);
          v1 = (if v > MAX_RING then MAX_RING else v);
          pages = sz_add v1 (pg - 1) div pg
      in sz_mul (next_pow2 1 pages) pg)"

definition asmtest_pt_aux_dewrap :: "u8 list \<Rightarrow> u64 \<Rightarrow> u64 \<Rightarrow> u8 list" where
  "asmtest_pt_aux_dewrap ring tail head =
     (let aux_sz = length ring in
      if aux_sz = 0 \<or> head \<le> tail then []
      else let n = unat (head - tail); start = unat tail mod aux_sz;
               first = (if n < aux_sz - start then n else aux_sz - start)
        in take first (drop start ring) @ take (n - first) ring)"

definition PERF_RECORD_AUX :: nat where "PERF_RECORD_AUX = 11"
definition PERF_AUX_FLAG_TRUNCATED :: nat where "PERF_AUX_FLAG_TRUNCATED = 1"

text \<open>The bytes at a position of the ring; a round of the scan moves on by the size of a header at least, so a round for each byte of the ring is enough.\<close>

definition ring_bytes :: "perf_ring \<Rightarrow> u64 \<Rightarrow> nat \<Rightarrow> u8 list" where
  "ring_bytes r off n = map (\<lambda>i. pr_data r ! (unat (off + of_nat i) mod pr_size r)) [0..<n]"

fun aux_scan :: "perf_ring \<Rightarrow> nat \<Rightarrow> u64 \<Rightarrow> bool \<Rightarrow> bool" where
  "aux_scan r 0 off trunc = trunc"
| "aux_scan r (Suc rounds) off trunc =
     (if off + 8 \<le> pr_head r then
        (let h = ring_bytes r off 8; size = ld 2 h 6 in
         if size < 8 then trunc
         else aux_scan r rounds (off + of_nat size)
           (trunc \<or> (ld 4 h 0 = PERF_RECORD_AUX \<and> odd (ld 8 (ring_bytes r (off + 8 + 16) 8) 0 div PERF_AUX_FLAG_TRUNCATED))))
      else trunc)"

definition aux_data_ring_truncated :: "perf_ring \<Rightarrow> bool \<times> perf_ring" where
  "aux_data_ring_truncated r = (aux_scan r (pr_size r) (pr_tail r) False, r\<lparr>pr_tail := pr_head r\<rparr>)"

section \<open>Exits and filters\<close>

definition is_exit_insn :: "decoder \<Rightarrow> u64 \<Rightarrow> nat \<Rightarrow> u64 \<Rightarrow> bool" where
  "is_exit_insn dec base_ip len off =
     (let i = dec off in
      di_ret i \<or> (di_uncond i \<and> (case di_target i of Some tgt \<Rightarrow> \<not> in_region base_ip len tgt | None \<Rightarrow> False)))"

function exits_from :: "decoder \<Rightarrow> u64 \<Rightarrow> nat \<Rightarrow> nat \<Rightarrow> nat list" where
  "exits_from dec base_ip len off =
     (if off < len then
        (let l = di_len (dec (of_nat off)) in
         if l = 0 then []
         else (if is_exit_insn dec base_ip len (of_nat off) then [off] else []) @ exits_from dec base_ip len (off + l))
      else [])"
  by pat_completeness auto
termination
  by (relation "measure (\<lambda>(dec, base_ip, len, off). len - off)") auto

declare exits_from.simps [simp del]

text \<open>The last exit, the exits that fit, and their number.\<close>

definition asmtest_amd_all_exits :: "decoder option \<Rightarrow> u64 \<Rightarrow> nat \<Rightarrow> nat \<Rightarrow> nat option \<times> nat list \<times> nat" where
  "asmtest_amd_all_exits dec base len cap =
     (case dec of
        None \<Rightarrow> (None, [], 0)
      | Some d \<Rightarrow>
          (let es = exits_from d base len 0 in (if es = [] then None else Some (last es), take cap es, length es)))"

definition asmtest_amd_last_exit_off :: "decoder option \<Rightarrow> u64 \<Rightarrow> nat \<Rightarrow> nat option \<times> nat" where
  "asmtest_amd_last_exit_off dec base len = (case asmtest_amd_all_exits dec base len 0 of (last_exit, _, n) \<Rightarrow> (last_exit, n))"

text \<open>The compaction of an array in place, and the filter of a trace by it.\<close>

function compact :: "(u64 \<Rightarrow> bool) \<Rightarrow> u64 list \<Rightarrow> nat \<Rightarrow> nat \<Rightarrow> u64 list" where
  "compact keep xs i w =
     (if i < length xs then
        (if keep (xs ! i) then compact keep (xs[w := xs ! i]) (i + 1) (w + 1) else compact keep xs (i + 1) w)
      else take w xs)"
  by pat_completeness auto
termination
  by (relation "measure (\<lambda>(keep, xs, i, w). length xs - i)") auto

declare compact.simps [simp del]

definition asmtest_pt_ip_postfilter :: "asmtest_trace \<Rightarrow> nat \<Rightarrow> nat \<Rightarrow> u64 \<Rightarrow> u64 \<Rightarrow> nat \<Rightarrow> asmtest_trace" where
  "asmtest_pt_ip_postfilter t insn0 blk0 base_ip region_base region_len =
     (if region_len = 0 then t
      else let keep = (\<lambda>off. base_ip + off \<ge> region_base \<and> base_ip + off < region_base + of_nat region_len)
        in t\<lparr>t_insns := map_option (\<lambda>xs. compact keep xs insn0 insn0) (t_insns t),
             t_blocks := map_option (\<lambda>xs. compact keep xs blk0 blk0) (t_blocks t)\<rparr>)"


section \<open>Properties: the choice\<close>

definition hw_allowed :: "(trace_backend \<Rightarrow> bool) \<Rightarrow> bool \<Rightarrow> trace_backend \<Rightarrow> bool" where
  "hw_allowed avail ceiling_free b \<longleftrightarrow> avail b \<and> \<not> (ceiling_free \<and> b = AMD_LBR)"

lemma hw_resolve_eq: "length out \<le> cap \<Longrightarrow> hw_resolve_loop avail cf cap bs out = take cap (out @ filter (hw_allowed avail cf) bs)"
proof (induction bs arbitrary: out)
  case (Cons b bs)
  show ?case
  proof (cases "length out < cap")
    case True
    then have "hw_resolve_loop avail cf cap bs (out @ [b]) = take cap (out @ b # filter (hw_allowed avail cf) bs)"
      using Cons.IH [of "out @ [b]"] by simp
    then show ?thesis using True Cons by (auto simp: hw_allowed_def simp del: take_append)
  qed (use Cons.prems in simp)
qed simp

text \<open>The cross-tier cascade offers the hardware backends exactly as the hardware tier itself does, in the same order.\<close>

lemma cascade_hw_rows:
  "map ch_backend (filter (\<lambda>c. ch_tier c = TIER_HWTRACE) (asmtest_trace_resolve ts policy (length CASCADE))) =
     asmtest_hwtrace_resolve (hw_available ts) (policy AND POLICY_CEILING_FREE \<noteq> 0) (length hw_order)"
proof -
  let ?cf = "policy AND POLICY_CEILING_FREE \<noteq> 0"
  have r: "row_available ts policy c \<longleftrightarrow> hw_allowed (hw_available ts) ?cf (ch_backend c)" if "ch_tier c = TIER_HWTRACE" for c
    using that by (auto simp: row_available_def hw_allowed_def)
  have "map ch_backend (filter (\<lambda>c. ch_tier c = TIER_HWTRACE) (filter (row_available ts policy) cs)) =
      filter (hw_allowed (hw_available ts) ?cf) (map ch_backend (filter (\<lambda>c. ch_tier c = TIER_HWTRACE) cs))" for cs
    by (induction cs) (auto simp: r)
  moreover have "map ch_backend (filter (\<lambda>c. ch_tier c = TIER_HWTRACE) CASCADE) = hw_order" by (simp add: CASCADE_def choice_def hw_order_def)
  moreover have "CASCADE \<noteq> []" "hw_order \<noteq> []" by (simp_all add: CASCADE_def hw_order_def)
  ultimately show ?thesis
    by (simp add: asmtest_trace_resolve_def asmtest_hwtrace_resolve_def resolve_loop_take hw_resolve_eq)
qed

section \<open>Properties: the registry\<close>

text \<open>A registry: at most 32 regions, of distinct names that fit their arrays.\<close>

definition regions_ok :: "hw_region list \<Rightarrow> bool" where
  "regions_ok rs \<longleftrightarrow> length rs \<le> MAX_REGIONS \<and> distinct (map rg_name rs) \<and> (\<forall>r\<in>set rs. length (rg_name r) \<le> 63)"

lemma find_region_name: "find_region n rs = Some r \<Longrightarrow> rg_name r = n \<and> r \<in> set rs"
  by (induction rs) (auto split: if_splits)

lemma find_region_None: "find_region n rs = None \<longleftrightarrow> n \<notin> rg_name ` set rs"
  by (induction rs) auto

lemma find_refresh:
  "find_region m (refresh_region n b l t rs) =
     (if m = n then map_option (\<lambda>r. r\<lparr>rg_base := b, rg_len := l, rg_trace := t\<rparr>) (find_region n rs) else find_region m rs)"
  by (induction rs) auto

lemma refresh_names [simp]: "map rg_name (refresh_region n b l t rs) = map rg_name rs"
  by (induction rs) auto

lemma refresh_length [simp]: "length (refresh_region n b l t rs) = length rs"
  by (induction rs) auto

lemma find_region_append: "find_region n (rs @ qs) = (case find_region n rs of Some r \<Rightarrow> Some r | None \<Rightarrow> find_region n qs)"
  by (induction rs) auto

text \<open>
  Registration by a name that fits its array is idempotent by name. From a registry, it keeps a registry and answers 0 unless the name is new and the table is full; the name then finds the region, length and trace just
  given, every other name finds what it found before, and the table grows only if the name is new.
\<close>

lemma register_region_exact:
  assumes "g_inited st" "regions_ok (g_regions st)" "length nm \<le> 63" "base \<noteq> 0" "len \<noteq> 0" "trace \<noteq> 0"
    and "asmtest_hwtrace_register_region (Some nm) base len trace st = (rc, st1)"
  shows "regions_ok (g_regions st1)"
    "rc = (if find_region nm (g_regions st) = None \<and> length (g_regions st) = MAX_REGIONS then ASMTEST_HW_EFULL else ASMTEST_HW_OK)"
    "rc = ASMTEST_HW_OK \<Longrightarrow> \<exists>r. find_region nm (g_regions st1) = Some r \<and> rg_base r = base \<and> rg_len r = len \<and> rg_trace r = trace"
    "m \<noteq> nm \<Longrightarrow> find_region m (g_regions st1) = find_region m (g_regions st)"
    "length (g_regions st1) = length (g_regions st) + (if find_region nm (g_regions st) = None \<and> rc = ASMTEST_HW_OK then 1 else 0)"
proof -
  let ?rs = "g_regions st"
  have names: "length (rg_name r) \<le> 63" if "r \<in> set (refresh_region nm base len trace ?rs)" for r
    using that assms(2) refresh_names [of nm base len trace ?rs] unfolding regions_ok_def by (metis (no_types, lifting) image_iff list.set_map)
  have full: "length ?rs \<ge> MAX_REGIONS \<longleftrightarrow> length ?rs = MAX_REGIONS" using assms(2) by (auto simp: regions_ok_def)
  note d = assms(7) [symmetric] assms(1,3-6)
  show "regions_ok (g_regions st1)"
    using d names assms(2) find_region_None [of nm ?rs] by (auto simp: asmtest_hwtrace_register_region_def regions_ok_def split: if_splits)
  show "rc = (if find_region nm ?rs = None \<and> length ?rs = MAX_REGIONS then ASMTEST_HW_EFULL else ASMTEST_HW_OK)"
    using d full by (auto simp: asmtest_hwtrace_register_region_def split: if_splits)
  show "\<exists>r. find_region nm (g_regions st1) = Some r \<and> rg_base r = base \<and> rg_len r = len \<and> rg_trace r = trace" if "rc = ASMTEST_HW_OK"
    using d that by (auto simp: asmtest_hwtrace_register_region_def find_refresh find_region_append hw_codes ASMTEST_HW_EFULL_def split: if_splits)
  show "find_region m (g_regions st1) = find_region m ?rs" if "m \<noteq> nm"
    using d that by (auto simp: asmtest_hwtrace_register_region_def find_refresh find_region_append split: if_splits option.splits)
  show "length (g_regions st1) = length ?rs + (if find_region nm ?rs = None \<and> rc = ASMTEST_HW_OK then 1 else 0)"
    using d by (auto simp: asmtest_hwtrace_register_region_def hw_codes ASMTEST_HW_EFULL_def split: if_splits)
qed

text \<open>
  Of a name that does not fit, the opposite holds: it is stored cut, is not found, and every registration takes another slot, although the comment
  promises one slot for each name.
\<close>

lemma long_name_not_idempotent:
  assumes "g_inited st" "63 < length nm" "\<forall>r\<in>set (g_regions st). length (rg_name r) \<le> 63" "length (g_regions st) + 2 \<le> MAX_REGIONS"
    "base \<noteq> 0" "len \<noteq> 0" "trace \<noteq> 0"
  shows "\<exists>st1 st2. asmtest_hwtrace_register_region (Some nm) base len trace st = (ASMTEST_HW_OK, st1) \<and>
    asmtest_hwtrace_register_region (Some nm) base len trace st1 = (ASMTEST_HW_OK, st2) \<and> find_region nm (g_regions st2) = None \<and>
    length (g_regions st2) = length (g_regions st) + 2"
proof -
  have n: "nm \<notin> rg_name ` set (g_regions st)" "take 63 nm \<noteq> nm" using assms(2,3) by (auto simp: take_all_iff)
  then have "find_region nm (g_regions st) = None" by (simp add: find_region_None)
  then show ?thesis using assms(1,4-7) n by (simp add: asmtest_hwtrace_register_region_def find_region_append)
qed

lemma nth_past_size: "8 \<le> i \<Longrightarrow> i < length c \<Longrightarrow> (le 8 v @ drop 8 c) ! i = c ! i"
  by (simp add: nth_append)

text \<open>The copy of the options: the caller's bytes as far as both sizes reach, and zeros after them.\<close>

lemma init_options:
  assumes "asmtest_hwtrace_init avail live (Some ob) st = (ASMTEST_HW_OK, st1)" "ld 8 ob 0 \<le> length ob"
  shows "length (g_opts st1) = SIZEOF_OPTS \<and> ld 8 (g_opts st1) 0 = SIZEOF_OPTS \<and> g_regions st1 = [] \<and>
    (\<forall>i. 8 \<le> i \<longrightarrow> i < SIZEOF_OPTS \<longrightarrow> g_opts st1 ! i = (if i < ld 8 ob 0 then ob ! i else 0))"
proof -
  define n where "n = min (ld 8 ob 0) SIZEOF_OPTS"
  define c where "c = take n ob @ replicate (SIZEOF_OPTS - n) 0"
  have st: "st1 = \<lparr>g_inited = True, g_opts = le 8 SIZEOF_OPTS @ drop 8 c, g_regions = []\<rparr>"
    using assms(1) by (auto simp: asmtest_hwtrace_init_def Let_def hw_codes ASMTEST_HW_EINVAL_def ASMTEST_HW_ESTATE_def ASMTEST_HW_EUNAVAIL_def c_def n_def min_def split: if_splits)
  have l: "length c = SIZEOF_OPTS" using assms(2) by (simp add: c_def n_def)
  have "c ! i = (if i < ld 8 ob 0 then ob ! i else 0)" if "i < SIZEOF_OPTS" for i using that assms(2) by (simp add: c_def n_def nth_append)
  then show ?thesis using nth_past_size [of _ c SIZEOF_OPTS] ld_le_0 [of SIZEOF_OPTS 8 "drop 8 c"] l by (simp add: st SIZEOF_OPTS_def)
qed


section \<open>Properties: rings\<close>

lemma next_pow2_bounds: "0 < p \<Longrightarrow> (\<exists>k. next_pow2 p n = 2 ^ k * p) \<and> n \<le> next_pow2 p n \<and> (next_pow2 p n = p \<or> next_pow2 p n < 2 * n)"
proof (induction p n rule: next_pow2.induct)
  case (1 p n)
  show ?case
  proof (cases "p < n")
    case True
    then have e: "next_pow2 p n = next_pow2 (2 * p) n" using 1(2) by (simp add: next_pow2.simps [of p])
    obtain k where "next_pow2 (2 * p) n = 2 ^ k * (2 * p)" "n \<le> next_pow2 (2 * p) n" "next_pow2 (2 * p) n = 2 * p \<or> next_pow2 (2 * p) n < 2 * n"
      using 1 True by auto
    then show ?thesis unfolding e using True by (auto intro!: exI [of _ "Suc k"])
  qed (use 1 in \<open>auto simp: next_pow2.simps [of p] intro: exI [of _ 0]\<close>)
qed

text \<open>
  The size of a ring: for any request, a power-of-two number of pages that covers it, or the ceiling of 1 GiB where the request is larger, and never more than
  twice what was asked for plus two pages; the computation does not wrap for pages of up to 1 GiB.
\<close>

lemma round_pages_bounds:
  fixes pg :: int and want dflt :: nat
  assumes "0 < pg" "pg \<le> 2 ^ 30"
  defines "v \<equiv> min (if want \<noteq> 0 then want else dflt) MAX_RING"
  shows "\<exists>k. round_pages pg want dflt = 2 ^ k * nat pg \<and> v \<le> round_pages pg want dflt \<and> round_pages pg want dflt < 2 * (v + nat pg)"
proof -
  let ?pg = "nat pg"
  define n where "n = (v + (nat pg - 1)) div nat pg"
  have pg: "0 < ?pg" "?pg \<le> 2 ^ 30" using assms(1,2) by auto
  have v: "v \<le> 2 ^ 30" by (simp add: v_def MAX_RING_def)
  obtain k where k: "next_pow2 1 n = 2 ^ k" "n \<le> next_pow2 1 n" "next_pow2 1 n = 1 \<or> next_pow2 1 n < 2 * n"
    using next_pow2_bounds [of 1 n] by (metis mult_1_right zero_less_one)
  have n: "n * ?pg \<le> v + (?pg - 1)" by (simp add: n_def)
  have "v + (?pg - 1) < (n + 1) * ?pg" using dividend_less_div_times [OF pg(1), of "v + (?pg - 1)"] by (simp add: n_def algebra_simps)
  then have "v + ?pg < n * ?pg + ?pg + 1" using pg(1) by (simp add: add_mult_distrib)
  then have "v \<le> n * ?pg" by linarith
  also have "\<dots> \<le> next_pow2 1 n * ?pg" using k(2) by (rule mult_le_mono1)
  finally have lo: "v \<le> next_pow2 1 n * ?pg" .
  have hi: "next_pow2 1 n * ?pg < 2 * (v + ?pg)"
  proof (cases "next_pow2 1 n = 1")
    case False
    then have "next_pow2 1 n * ?pg < 2 * n * ?pg" using k(3) pg(1) by simp
    also have "\<dots> \<le> 2 * (v + (?pg - 1))" using n by (simp add: mult.assoc)
    finally show ?thesis by simp
  qed (use pg(1) in simp)
  have "2 * (v + ?pg) < 2 ^ 64" using v pg(2) by simp
  then have w: "sz_add v (?pg - 1) = v + (?pg - 1)" "sz_mul (next_pow2 1 n) ?pg = next_pow2 1 n * ?pg"
    using hi by (simp_all add: sz_add_def sz_mul_def)
  have "(if (if want \<noteq> 0 then want else dflt) > MAX_RING then MAX_RING else if want \<noteq> 0 then want else dflt) = v" by (simp add: v_def min_def)
  then have "round_pages pg want dflt = sz_mul (next_pow2 1 (sz_add v (?pg - 1) div ?pg)) ?pg"
    using assms(1) unfolding round_pages_def Let_def by simp
  then have "round_pages pg want dflt = next_pow2 1 n * ?pg" using w by (simp only: n_def)
  with k(1) lo hi show ?thesis by auto
qed

text \<open>The two copies of a wrapped buffer are the bytes from tail to head, position by position.\<close>

lemma aux_dewrap_exact:
  assumes "tail \<le> head" "unat (head - tail) \<le> length ring"
  shows "asmtest_pt_aux_dewrap ring tail head = map (\<lambda>i. ring ! ((unat tail + i) mod length ring)) [0..<unat (head - tail)]"
proof (cases "head = tail \<or> ring = []")
  case True
  then show ?thesis using assms by (auto simp: asmtest_pt_aux_dewrap_def Let_def)
next
  case False
  let ?n = "unat (head - tail)" and ?s = "unat tail mod length ring" and ?N = "length ring"
  define f where "f = min ?n (?N - ?s)"
  have N: "0 < ?N" "?s < ?N" using False by auto
  have e: "asmtest_pt_aux_dewrap ring tail head = take f (drop ?s ring) @ take (?n - f) ring"
    using False assms(1) by (auto simp: asmtest_pt_aux_dewrap_def Let_def f_def min_def)
  have m: "(unat tail + i) mod ?N = (if i < ?N - ?s then ?s + i else ?s + i - ?N)" if "i < ?n" for i
  proof -
    have "(unat tail + i) mod ?N = (?s + i) mod ?N" by (simp add: mod_add_left_eq)
    moreover have "?s + i < 2 * ?N" using that assms(2) N by linarith
    ultimately show ?thesis using N by (cases "?s + i < ?N") (auto simp: le_mod_geq)
  qed
  show ?thesis unfolding e
    by (rule nth_equalityI) (use assms(2) N in \<open>auto simp: nth_append m [unfolded add.commute [of "unat tail"]] f_def add.commute\<close>)
qed


lemma ring_bytes_holds: "ring_holds r bs \<Longrightarrow> p + n \<le> length bs \<Longrightarrow> ring_bytes r (pr_tail r + of_nat p) n = take n (drop p bs)"
  by (rule nth_equalityI) (simp_all add: ring_bytes_def ring_holds_def add.assoc flip: of_nat_add)

lemma ld_take: "p + n \<le> m \<Longrightarrow> ld n (take m bs) p = ld n bs p"
  by (simp add: ld_def drop_take min_def)

lemma ld_drop: "ld n (drop q bs) p = ld n bs (q + p)"
  by (simp add: ld_def add.commute)

lemma aux_scan_records:
  assumes "ring_holds r (pre @ concat (map rec_bytes rs))" "list_all rec_ok rs" "\<forall>x\<in>set rs. rc_type x = PERF_RECORD_AUX \<longrightarrow> 24 \<le> length (rc_body x)"
    and "unat (pr_tail r) + length (pre @ concat (map rec_bytes rs)) + 8 < 2 ^ 64" "length rs \<le> rounds"
  shows "aux_scan r rounds (pr_tail r + of_nat (length pre)) trunc \<longleftrightarrow>
    trunc \<or> (\<exists>x\<in>set rs. rc_type x = PERF_RECORD_AUX \<and> odd (ld 8 (rc_body x) 16))"
  using assms
proof (induction rs arbitrary: pre trunc rounds)
  case Nil
  have h: "pr_head r = pr_tail r + of_nat (length pre)" using Nil.prems(1) by (simp add: ring_holds_def algebra_simps)
  have "\<not> pr_tail r + of_nat (length pre) + 8 \<le> pr_head r"
    unfolding h using Nil.prems(4) by (simp add: word_le_nat_alt unat_word_ariths unat_of_nat)
  then show ?case by (cases rounds) auto
next
  case (Cons x rs)
  let ?bs = "pre @ rec_bytes x @ concat (map rec_bytes rs)" and ?off = "pr_tail r + of_nat (length pre)"
  obtain n where n: "rounds = Suc n" using Cons.prems(5) by (cases rounds) auto
  have x: "rec_ok x" using Cons.prems(2) by simp
  have hb: "ring_holds r ?bs" using Cons.prems(1) by simp
  then have "pr_head r = pr_tail r + of_nat (length ?bs)" by (simp add: ring_holds_def algebra_simps)
  then have in_ring: "?off + 8 \<le> pr_head r" using Cons.prems(4) by (simp add: word_le_nat_alt unat_word_ariths unat_of_nat)
  have h8: "ring_bytes r ?off 8 = take 8 (drop (length pre) ?bs)" by (rule ring_bytes_holds [OF hb]) simp
  have size: "ld 2 (ring_bytes r ?off 8) 6 = 8 + length (rc_body x)" and type: "ld 4 (ring_bytes r ?off 8) 0 = rc_type x"
    unfolding h8 using rec_header [OF x, of pre "concat (map rec_bytes rs)"] by (simp_all only: ld_take ld_drop) simp_all
  have flag: "ld 8 (ring_bytes r (?off + 8 + 16) 8) 0 = ld 8 (rc_body x) 16" if "rc_type x = PERF_RECORD_AUX"
  proof -
    have l: "24 \<le> length (rc_body x)" using Cons.prems(3) that by simp
    have "ring_bytes r (pr_tail r + of_nat (length pre + 24)) 8 = take 8 (drop (length pre + 24) ?bs)"
      by (rule ring_bytes_holds [OF hb]) (use l in simp)
    moreover have "drop (length pre + 24) ?bs = drop 16 (rc_body x) @ concat (map rec_bytes rs)" using l by (simp add: rec_bytes_def)
    ultimately show ?thesis using l by (simp add: ld_take ld_prefix ld_drop algebra_simps)
  qed
  have f1: "(rc_type x = PERF_RECORD_AUX \<and> odd (ld 8 (ring_bytes r (?off + 8 + 16) 8) 0 div PERF_AUX_FLAG_TRUNCATED)) =
      (rc_type x = PERF_RECORD_AUX \<and> odd (ld 8 (rc_body x) 16))"
    using flag by (metis PERF_AUX_FLAG_TRUNCATED_def div_by_1)
  have f2: "?off + of_nat (8 + length (rc_body x)) = pr_tail r + of_nat (length (pre @ rec_bytes x))" by simp
  have "aux_scan r rounds ?off trunc = aux_scan r n (pr_tail r + of_nat (length (pre @ rec_bytes x)))
      (trunc \<or> (rc_type x = PERF_RECORD_AUX \<and> odd (ld 8 (rc_body x) 16)))"
    unfolding n aux_scan.simps Let_def size type f1 f2 using in_ring by simp
  also have "\<dots> \<longleftrightarrow> (trunc \<or> (rc_type x = PERF_RECORD_AUX \<and> odd (ld 8 (rc_body x) 16))) \<or>
      (\<exists>x\<in>set rs. rc_type x = PERF_RECORD_AUX \<and> odd (ld 8 (rc_body x) 16))"
    by (rule Cons.IH) (use Cons.prems n in simp_all)
  finally show ?case by auto
qed

text \<open>The scan for a lost trace: it answers true exactly when one of the unread records is an AUX record with the truncation flag, and consumes the records.\<close>

lemma aux_truncated_exact:
  assumes "ring_holds r (concat (map rec_bytes rs))" "list_all rec_ok rs" "\<forall>x\<in>set rs. rc_type x = PERF_RECORD_AUX \<longrightarrow> 24 \<le> length (rc_body x)"
    and "unat (pr_tail r) + length (concat (map rec_bytes rs)) + 8 < 2 ^ 64"
  shows "aux_data_ring_truncated r = (\<exists>x\<in>set rs. rc_type x = PERF_RECORD_AUX \<and> odd (ld 8 (rc_body x) 16), r\<lparr>pr_tail := pr_head r\<rparr>)"
proof -
  have "length rs \<le> length (concat (map rec_bytes rs))" by (induction rs) auto
  then have "length rs \<le> pr_size r" using assms(1) by (simp add: ring_holds_def)
  with aux_scan_records [of r "[]" rs "pr_size r" False] assms show ?thesis by (simp add: aux_data_ring_truncated_def)
qed

section \<open>Properties: exits and filters\<close>

text \<open>The offsets a sweep from \<open>off\<close> decodes.\<close>

inductive swept :: "decoder \<Rightarrow> nat \<Rightarrow> nat \<Rightarrow> nat \<Rightarrow> bool" for dec len where
  here: "off < len \<Longrightarrow> di_len (dec (of_nat off)) \<noteq> 0 \<Longrightarrow> swept dec len off off"
| further: "off < len \<Longrightarrow> di_len (dec (of_nat off)) \<noteq> 0 \<Longrightarrow> swept dec len (off + di_len (dec (of_nat off))) x \<Longrightarrow> swept dec len off x"

inductive_simps swept_iff: "swept dec len off x"

lemma exits_from_iff: "x \<in> set (exits_from dec base_ip len off) \<longleftrightarrow> swept dec len off x \<and> is_exit_insn dec base_ip len (of_nat x)"
proof (induction dec base_ip len off rule: exits_from.induct)
  case (1 dec base_ip len off)
  show ?case
  proof (cases "off < len \<and> di_len (dec (of_nat off)) \<noteq> 0")
    case True
    then have "exits_from dec base_ip len off = (if is_exit_insn dec base_ip len (of_nat off) then [off] else []) @ exits_from dec base_ip len (off + di_len (dec (of_nat off)))"
      by (simp add: exits_from.simps [of dec base_ip len off] Let_def)
    moreover have "swept dec len off x \<longleftrightarrow> x = off \<or> swept dec len (off + di_len (dec (of_nat off))) x"
      using True by (auto simp: swept_iff [of dec len off])
    ultimately show ?thesis using 1 True by auto
  next
    case False
    then have "exits_from dec base_ip len off = []" by (subst exits_from.simps) (auto simp: Let_def)
    moreover have "\<not> swept dec len off x" using False by (auto elim: swept.cases)
    ultimately show ?thesis by simp
  qed
qed

text \<open>
  An execution that leaves the region by a return or a direct jump, at an instruction of the sweep, leaves it at an enumerated exit; so when there are no more exits
  than breakpoints, one of them is hit.
\<close>

lemma exit_enumerated:
  assumes "is_exit dec base_ip len x" "swept dec len 0 (unat (st_at x - base_ip))" "asmtest_amd_all_exits (Some dec) base_ip len cap = (l, es, n)" "n \<le> cap"
  shows "unat (st_at x - base_ip) \<in> set es"
proof -
  have "is_exit_insn dec base_ip len (st_at x - base_ip)"
    using assms(1) by (auto simp: is_exit_def is_exit_insn_def Let_def)
  then show ?thesis using assms(2-4) exits_from_iff [of "unat (st_at x - base_ip)" dec base_ip len 0]
    by (auto simp: asmtest_amd_all_exits_def Let_def)
qed

lemma compact_filter: "w \<le> i \<Longrightarrow> i \<le> length xs \<Longrightarrow> compact keep xs i w = take w xs @ filter keep (drop i xs)"
proof (induction keep xs i w rule: compact.induct)
  case (1 keep xs i w)
  show ?case
  proof (cases "i < length xs")
    case True
    then have d: "drop i xs = xs ! i # drop (Suc i) xs" by (simp add: Cons_nth_drop_Suc)
    have "take (w + 1) (xs[w := xs ! i]) = take w xs @ [xs ! i]" "drop (i + 1) (xs[w := xs ! i]) = drop (Suc i) xs"
      using 1(3,4) True by (simp_all add: take_Suc_conv_app_nth)
    then show ?thesis using 1 True d by (simp add: compact.simps [of keep xs i w])
  next
    case False
    then have "i = length xs" using 1(4) by simp
    then show ?thesis by (simp add: compact.simps [of keep xs "length xs" w])
  qed
qed

text \<open>The filter keeps what was there before, and of what was added the entries of the region, in order.\<close>

lemma postfilter_exact:
  fixes base_ip region_base :: u64
  assumes "t_insns t = Some xs" "t_blocks t = Some bs" "insn0 \<le> length xs" "blk0 \<le> length bs" "region_len \<noteq> 0"
  defines "keep \<equiv> \<lambda>off. in_region region_base region_len (base_ip + off)"
  shows "asmtest_pt_ip_postfilter t insn0 blk0 base_ip region_base region_len =
    t\<lparr>t_insns := Some (take insn0 xs @ filter keep (drop insn0 xs)), t_blocks := Some (take blk0 bs @ filter keep (drop blk0 bs))\<rparr>"
  using assms by (simp add: asmtest_pt_ip_postfilter_def compact_filter in_region_def Let_def)

end
