(* ===== verification/Hw_Scope.thy ===== *)
theory Hw_Scope
  imports Single_Step Hw_Front Codeimage
begin

text \<open>
  Scopes and windows of the hardware tier, \<^verbatim>\<open>src/src/hwtrace.c\<close>, over the single-step back end: name-keyed and handle-keyed regions, the region-free window with its guards, the slot of the
  Intel PT window, the rendering of a trace, and the stitching of slices. What a thread of the process sees is the record \<open>hw_ctx\<close>. The captures of the other back ends are
  arguments (\<open>other\<close>, \<open>pt_begin\<close>, \<open>pt_drain\<close>), and so are the disassembler's text and the answers of the environment.
\<close>

section \<open>Rendering\<close>

text \<open>A buffer is the characters it holds, \<open>buflen\<close> of them, or \<open>None\<close> for \<^verbatim>\<open>NULL\<close>.\<close>

abbreviation nul :: char where "nul \<equiv> CHR 0x00"

definition render_emit :: "string option \<Rightarrow> nat \<Rightarrow> nat \<Rightarrow> string \<Rightarrow> string option" where
  "render_emit buf buflen pos src =
     (case buf of
        None \<Rightarrow> None
      | Some b \<Rightarrow>
          if pos \<ge> buflen then Some b
          else let room = buflen - pos - 1; n = (if length src \<le> room then length src else room)
            in Some (take pos b @ take n src @ nul # drop (pos + n + 1) b))"

text \<open>A number in hexadecimal, padded on the left; the text of an instruction fits 128 characters with its NUL.\<close>

definition pad_hex :: "nat \<Rightarrow> u64 \<Rightarrow> string" where
  "pad_hex w a = (let s = fmt_hex (unat a) in replicate (w - length s) (CHR '' '') @ s)"

definition render_line :: "nat \<Rightarrow> string \<Rightarrow> u64 \<Rightarrow> string \<Rightarrow> string" where
  "render_line w missing a txt = pad_hex w a @ [CHR '':'', CHR 0x09] @ (let t = take 127 txt in if t \<noteq> [] then t else missing) @ [CHR 0x0A]"

definition truncated_line :: "asmtest_trace \<Rightarrow> string" where
  "truncated_line t = ''; trace truncated '' @ [CHR 0xE2, CHR 0x80, CHR 0x94] @ '' '' @ fmt_dec (t_insns_len t) @ '' of '' @ fmt_dec (unat (t_insns_total t)) @
     '' instructions shown'' @ [CHR 0x0A]"

fun render_loop :: "string option \<Rightarrow> nat \<Rightarrow> nat \<Rightarrow> string list \<Rightarrow> string option \<times> nat" where
  "render_loop buf buflen pos [] = (buf, pos)"
| "render_loop buf buflen pos (l # ls) = render_loop (render_emit buf buflen pos l) buflen (pos + length l) ls"

text \<open>The result is cut to an \<^verbatim>\<open>int\<close>.\<close>

definition c_int :: "nat \<Rightarrow> int" where
  "c_int n = sint (of_nat n :: 32 word)"

definition render_trace_with :: "(u64 \<Rightarrow> string) \<Rightarrow> asmtest_trace \<Rightarrow> string option \<Rightarrow> nat \<Rightarrow> int \<times> string option" where
  "render_trace_with line t buf buflen =
     (let buf0 = map_option (\<lambda>b. if buflen > 0 then nul # tl b else b) buf;
          (b1, n1) = render_loop buf0 buflen 0 (map line (buf_of (t_insns t)));
          (b2, n2) = (if t_truncated t \<or> unat (t_insns_total t) > t_insns_len t
                      then (render_emit b1 buflen n1 (truncated_line t), n1 + length (truncated_line t)) else (b1, n1))
      in (c_int n2, b2))"

text \<open>\<open>disas\<close> is the disassembler, if it is built in: the text at an offset of the live bytes of a region, or at an address of given bytes.\<close>

definition render_trace_into :: "(u64 \<Rightarrow> nat \<Rightarrow> u64 \<Rightarrow> string) option \<Rightarrow> asmtest_trace option \<Rightarrow> u64 \<Rightarrow> nat \<Rightarrow> string option \<Rightarrow> nat \<Rightarrow> int \<times> string option" where
  "render_trace_into disas trace base len buf buflen =
     (case trace of
        None \<Rightarrow> (ASMTEST_HW_EINVAL, buf)
      | Some t \<Rightarrow>
          if base = 0 then (ASMTEST_HW_EINVAL, buf)
          else case disas of
            None \<Rightarrow> (ASMTEST_HW_ENOSYS, buf)
          | Some txt \<Rightarrow> render_trace_with (\<lambda>off. render_line 8 ''(undecodable)'' off (txt base len off)) t buf buflen)"

definition asmtest_hwtrace_render_versioned :: "(u8 list \<Rightarrow> u64 \<Rightarrow> string) option \<Rightarrow> 'ev asmtest_codeimage option \<Rightarrow> u64 \<Rightarrow> asmtest_trace option \<Rightarrow>
    string option \<Rightarrow> nat \<Rightarrow> int \<times> string option" where
  "asmtest_hwtrace_render_versioned disas img when trace buf buflen =
     (case trace of
        None \<Rightarrow> (ASMTEST_HW_EINVAL, buf)
      | Some t \<Rightarrow>
          if img = None then (ASMTEST_HW_EINVAL, buf)
          else case disas of
            None \<Rightarrow> (ASMTEST_HW_ENOSYS, buf)
          | Some txt \<Rightarrow>
              render_trace_with (\<lambda>addr. render_line 12 ''(no bytes @version)'' addr
                (case asmtest_codeimage_bytes_at img addr when of
                   (rc, Some (bs, avail)) \<Rightarrow> if rc = ASMTEST_CI_OK \<and> avail > 0 then txt (take avail bs) addr else []
                 | _ \<Rightarrow> [])) t buf buflen)"

text \<open>The live bytes: \<open>readv\<close> answers with the bytes of the whole range or with nothing.\<close>

definition hw_read_self_live :: "(u64 \<Rightarrow> nat \<Rightarrow> u8 list option) \<Rightarrow> int \<Rightarrow> nat \<Rightarrow> u64 \<Rightarrow> u8 list option" where
  "hw_read_self_live readv page sz ip =
     (case readv ip sz of
        Some (b # bs) \<Rightarrow> Some (b # bs)
      | _ \<Rightarrow>
          (let psz = (if page > 0 then of_int page else 4096) :: u64;
               avail = unat (((ip + psz) AND NOT (psz - 1)) - ip)
           in if avail = 0 \<or> avail \<ge> sz then None
              else case readv ip avail of Some (b # bs) \<Rightarrow> Some (b # bs) | _ \<Rightarrow> None))"

section \<open>Contexts and handles\<close>

record scope_handle =
  sc_idx :: u32
  sc_gen :: u32
  sc_arm_tid :: int

definition no_scope :: scope_handle where
  "no_scope = \<lparr>sc_idx = 0xffffffff, sc_gen = 0, sc_arm_tid = - 1\<rparr>"

definition PT_SENTINEL :: u32 where "PT_SENTINEL = 0xfffffffe"
definition ASMTEST_HW_EMANAGED :: int where "ASMTEST_HW_EMANAGED = - 4"

datatype pt_win = NoWindow | Reserved | Window nat

record pt_slot =
  pt_win :: pt_win
  pt_gen :: u32
  pt_tid :: int

record hw_ctx =
  cx_hw :: hw_state
  cx_ss :: ss_globals
  cx_th :: ss_thread
  cx_tid :: int
  cx_arm_tid :: int
  cx_traces :: "nat \<Rightarrow> asmtest_trace"
  cx_pt :: pt_slot
  cx_heap :: heap

definition hw_backend :: "hw_ctx \<Rightarrow> nat" where
  "hw_backend cx = ld 4 (g_opts (cx_hw cx)) 8"

abbreviation single_step :: "hw_ctx \<Rightarrow> bool" where
  "single_step cx \<equiv> int (hw_backend cx) = backend_code SINGLESTEP"

definition trace_at :: "hw_ctx \<Rightarrow> nat \<Rightarrow> asmtest_trace option" where
  "trace_at cx p = (if p = 0 then None else Some (cx_traces cx p))"

definition flag_truncated :: "nat \<Rightarrow> hw_ctx \<Rightarrow> hw_ctx" where
  "flag_truncated p cx = (if p = 0 then cx else cx\<lparr>cx_traces := (cx_traces cx)(p := set_truncated (cx_traces cx p))\<rparr>)"

fun arm_region :: "string \<Rightarrow> int \<Rightarrow> hw_region list \<Rightarrow> hw_region list" where
  "arm_region name tid [] = []"
| "arm_region name tid (r # rs) = (if rg_name r = name then r\<lparr>rg_arm_tid := tid\<rparr> # rs else r # arm_region name tid rs)"

definition arm_named :: "string \<Rightarrow> hw_ctx \<Rightarrow> hw_ctx" where
  "arm_named name cx = cx\<lparr>cx_hw := (cx_hw cx)\<lparr>g_regions := arm_region name (cx_tid cx) (g_regions (cx_hw cx))\<rparr>, cx_arm_tid := cx_tid cx\<rparr>"

definition made_scope :: "(nat \<times> u32) option \<Rightarrow> hw_ctx \<Rightarrow> scope_handle" where
  "made_scope hnd cx = (case hnd of None \<Rightarrow> no_scope | Some (idx, gen) \<Rightarrow> \<lparr>sc_idx = of_nat idx, sc_gen = gen, sc_arm_tid = cx_tid cx\<rparr>)"

section \<open>Regions by name\<close>

definition asmtest_hwtrace_try_begin :: "(string \<Rightarrow> hw_ctx \<Rightarrow> int \<times> hw_ctx) \<Rightarrow> string \<Rightarrow> hw_ctx \<Rightarrow> int \<times> hw_ctx" where
  "asmtest_hwtrace_try_begin other name cx =
     (if \<not> g_inited (cx_hw cx) then (ASMTEST_HW_ESTATE, cx)
      else if single_step cx then
        (case find_region name (g_regions (cx_hw cx)) of
           None \<Rightarrow> (ASMTEST_HW_EINVAL, cx)
         | Some r \<Rightarrow>
             (case asmtest_ss_begin_ex (cx_tid cx) (rg_base r) (rg_len r) (unat (rg_trace r)) (cx_heap cx) (cx_ss cx) (cx_th cx) of
                (rc, _, g, th, h) \<Rightarrow> (rc, (arm_named name cx)\<lparr>cx_ss := g, cx_th := th, cx_heap := h\<rparr>)))
      else other name cx)"

definition ss_close :: "(u64 \<Rightarrow> decoder) \<Rightarrow> hw_ctx \<Rightarrow> hw_ctx" where
  "ss_close dec cx =
     (case asmtest_ss_end dec (cx_traces cx) (cx_ss cx) (cx_th cx) of
        (traces, g, th) \<Rightarrow> cx\<lparr>cx_traces := traces, cx_ss := g, cx_th := th, cx_arm_tid := - 1\<rparr>)"

definition asmtest_hwtrace_end :: "(hw_ctx \<Rightarrow> hw_ctx) \<Rightarrow> (u64 \<Rightarrow> decoder) \<Rightarrow> string option \<Rightarrow> hw_ctx \<Rightarrow> hw_ctx" where
  "asmtest_hwtrace_end other dec name cx =
     (if single_step cx then
        (let cx1 = (case name of
                      None \<Rightarrow> cx
                    | Some nm \<Rightarrow>
                        (case find_region nm (g_regions (cx_hw cx)) of
                           None \<Rightarrow> cx
                         | Some r \<Rightarrow> if rg_arm_tid r \<noteq> 0 \<and> rg_arm_tid r \<noteq> cx_tid cx then flag_truncated (unat (rg_trace r)) cx else cx))
         in ss_close dec cx1)
      else other cx)"

definition asmtest_hwtrace_render :: "(u64 \<Rightarrow> nat \<Rightarrow> u64 \<Rightarrow> string) option \<Rightarrow> string option \<Rightarrow> string option \<Rightarrow> nat \<Rightarrow> hw_ctx \<Rightarrow> int \<times> string option" where
  "asmtest_hwtrace_render disas name buf buflen cx =
     (case name of
        None \<Rightarrow> (ASMTEST_HW_EINVAL, buf)
      | Some nm \<Rightarrow>
          (case find_region nm (g_regions (cx_hw cx)) of
             None \<Rightarrow> (ASMTEST_HW_EINVAL, buf)
           | Some r \<Rightarrow> render_trace_into disas (trace_at cx (unat (rg_trace r))) (rg_base r) (rg_len r) buf buflen))"

section \<open>Scopes by handle\<close>

text \<open>The handle is the value of \<^verbatim>\<open>*out\<close>.\<close>

definition asmtest_hwtrace_begin_scope :: "(string \<Rightarrow> hw_ctx \<Rightarrow> int \<times> hw_ctx) \<Rightarrow> string \<Rightarrow> hw_ctx \<Rightarrow> int \<times> scope_handle \<times> hw_ctx" where
  "asmtest_hwtrace_begin_scope other name cx =
     (if \<not> g_inited (cx_hw cx) then (ASMTEST_HW_ESTATE, no_scope, cx)
      else if single_step cx then
        (case find_region name (g_regions (cx_hw cx)) of
           None \<Rightarrow> (ASMTEST_HW_EINVAL, no_scope, cx)
         | Some r \<Rightarrow>
             (case asmtest_ss_begin_ex (cx_tid cx) (rg_base r) (rg_len r) (unat (rg_trace r)) (cx_heap cx) (cx_ss cx) (cx_th cx) of
                (rc, hnd, g, th, h) \<Rightarrow>
                  (rc, if rc \<noteq> ASMTEST_HW_OK then no_scope else made_scope hnd cx, (arm_named name cx)\<lparr>cx_ss := g, cx_th := th, cx_heap := h\<rparr>)))
      else case asmtest_hwtrace_try_begin other name cx of (rc, cx1) \<Rightarrow> (rc, no_scope, cx1))"

text \<open>The three lazily armed calls; \<open>traps\<close> and \<open>result\<close> are the addresses at which the call traps and its result.\<close>

definition scoped_region :: "int \<Rightarrow> (u64 \<Rightarrow> decoder) \<Rightarrow> u64 \<Rightarrow> nat \<Rightarrow> nat \<Rightarrow> bool \<Rightarrow> int \<Rightarrow> bool \<Rightarrow> u64 list \<Rightarrow> 'r \<Rightarrow> hw_ctx \<Rightarrow> int \<times> 'r option \<times> scope_handle \<times> hw_ctx" where
  "scoped_region maxargs dec base len trace fn nargs args traps result cx =
     (case scoped_call maxargs dec (cx_tid cx) base len trace fn nargs args traps result (cx_heap cx) (cx_traces cx) (cx_ss cx) (cx_th cx) of
        (rc, res, hnd, traces, g, th, h) \<Rightarrow>
          (rc, res, if rc \<noteq> ASMTEST_HW_OK then no_scope else made_scope hnd cx, cx\<lparr>cx_traces := traces, cx_ss := g, cx_th := th, cx_heap := h\<rparr>))"

definition scoped_named :: "int \<Rightarrow> (u64 \<Rightarrow> decoder) \<Rightarrow> string \<Rightarrow> bool \<Rightarrow> int \<Rightarrow> bool \<Rightarrow> u64 list \<Rightarrow> 'r \<Rightarrow> hw_ctx \<Rightarrow> int \<times> 'r option \<times> scope_handle \<times> hw_ctx" where
  "scoped_named maxargs dec name fn nargs args traps result cx =
     (if \<not> g_inited (cx_hw cx) then (ASMTEST_HW_ESTATE, None, no_scope, cx)
      else if single_step cx then
        (case find_region name (g_regions (cx_hw cx)) of
           None \<Rightarrow> (ASMTEST_HW_EINVAL, None, no_scope, cx)
         | Some r \<Rightarrow> scoped_region maxargs dec (rg_base r) (rg_len r) (unat (rg_trace r)) fn nargs args traps result (arm_named name cx))
      else (ASMTEST_HW_EUNAVAIL, None, no_scope, cx))"

definition asmtest_hwtrace_call_scoped where "asmtest_hwtrace_call_scoped = scoped_named 6"
definition asmtest_hwtrace_call_scoped_fp where "asmtest_hwtrace_call_scoped_fp = scoped_named 8"

definition asmtest_hwtrace_call_scoped_ex :: "(u64 \<Rightarrow> decoder) \<Rightarrow> u64 \<Rightarrow> nat \<Rightarrow> nat \<Rightarrow> bool \<Rightarrow> int \<Rightarrow> bool \<Rightarrow> u64 list \<Rightarrow> 'r \<Rightarrow> hw_ctx \<Rightarrow> int \<times> 'r option \<times> scope_handle \<times> hw_ctx" where
  "asmtest_hwtrace_call_scoped_ex dec base len trace fn nargs args traps result cx =
     (if \<not> g_inited (cx_hw cx) then (ASMTEST_HW_ESTATE, None, no_scope, cx)
      else if single_step cx then
        (if base = 0 \<or> len = 0 \<or> trace = 0 then (ASMTEST_HW_EINVAL, None, no_scope, cx)
         else scoped_region 6 dec base len trace fn nargs args traps result cx)
      else (ASMTEST_HW_EUNAVAIL, None, no_scope, cx))"

definition scope_lookup :: "scope_handle \<Rightarrow> hw_ctx \<Rightarrow> (u64 \<times> nat \<times> nat) option" where
  "scope_lookup hnd cx = asmtest_ss_frame_lookup (sc_idx hnd) (sc_gen hnd) (sc_arm_tid hnd) (cx_th cx)"

definition asmtest_hwtrace_render_scope :: "(u64 \<Rightarrow> nat \<Rightarrow> u64 \<Rightarrow> string) option \<Rightarrow> scope_handle \<Rightarrow> string option \<Rightarrow> nat \<Rightarrow> hw_ctx \<Rightarrow> int \<times> string option" where
  "asmtest_hwtrace_render_scope disas hnd buf buflen cx =
     (case scope_lookup hnd cx of
        None \<Rightarrow> (ASMTEST_HW_EINVAL, buf)
      | Some (base, len, trace) \<Rightarrow> render_trace_into disas (trace_at cx trace) base len buf buflen)"

section \<open>Windows\<close>

text \<open>
  The guards are the bytes of \<^verbatim>\<open>asmtest_hwtrace_window_guards_t\<close>, 40 of them: the caller's size, the budget, the watchdog at 16, the switch of the default deny list at 20, the array of regions at 24 and their
  number at 32. \<open>deny_at\<close> reads the regions from an address.
\<close>

definition SIZEOF_GUARDS :: nat where "SIZEOF_GUARDS = 40"

definition window_guards :: "(u64 \<Rightarrow> nat \<Rightarrow> (u64 \<times> u64) list) \<Rightarrow> u8 list option \<Rightarrow> int + ss_config" where
  "window_guards deny_at gb =
     (case gb of
        None \<Rightarrow> Inr \<lparr>cf_budget = 0, cf_watchdog = 0, cf_default_deny = False, cf_deny = []\<rparr>
      | Some g \<Rightarrow>
          (let sz = ld 8 g 0 in
           if sz = 0 then Inl ASMTEST_HW_EINVAL
           else let n = (if sz < SIZEOF_GUARDS then sz else SIZEOF_GUARDS); gc = take n g @ replicate (SIZEOF_GUARDS - n) 0;
                    deny = of_nat (ld 8 gc 24); deny_len = ld 8 gc 32
             in if deny_len > 32 then Inl ASMTEST_HW_EINVAL
                else Inr \<lparr>cf_budget = of_nat (ld 8 gc 8), cf_watchdog = of_nat (ld 4 gc 16), cf_default_deny = ld 4 gc 20 \<noteq> 0,
                          cf_deny = (if deny \<noteq> 0 then deny_at deny deny_len else [])\<rparr>))"

definition pt_reserve :: "pt_slot \<Rightarrow> pt_slot option" where
  "pt_reserve s = (if pt_win s \<noteq> NoWindow then None else Some (s\<lparr>pt_win := Reserved\<rparr>))"

definition pt_release :: "pt_slot \<Rightarrow> pt_slot" where
  "pt_release s = s\<lparr>pt_win := NoWindow\<rparr>"

text \<open>The generation is counted only for a caller that takes the handle.\<close>

definition pt_publish :: "nat \<Rightarrow> int \<Rightarrow> bool \<Rightarrow> pt_slot \<Rightarrow> scope_handle \<times> pt_slot" where
  "pt_publish w tid out s =
     (if out then (\<lparr>sc_idx = PT_SENTINEL, sc_gen = pt_gen s + 1, sc_arm_tid = tid\<rparr>, \<lparr>pt_win = Window w, pt_gen = pt_gen s + 1, pt_tid = tid\<rparr>)
      else (no_scope, \<lparr>pt_win = Window w, pt_gen = pt_gen s, pt_tid = tid\<rparr>))"

definition pt_take :: "scope_handle \<Rightarrow> pt_slot \<Rightarrow> (pt_win \<times> int \<times> pt_slot) option" where
  "pt_take hnd s =
     (if pt_win s \<noteq> NoWindow \<and> sc_gen hnd = pt_gen s \<and> sc_arm_tid hnd = pt_tid s
      then Some (pt_win s, pt_tid s, s\<lparr>pt_win := NoWindow, pt_tid := 0\<rparr>) else None)"

text \<open>
  \<open>managed\<close> says that the safe-managed policy is on and a managed runtime present, \<open>pt_begin\<close> is what arming the PT capture answers, \<open>syms\<close> the default deny symbols, \<open>out\<close> whether the caller takes the handle.
\<close>

definition asmtest_hwtrace_begin_window_ex :: "bool \<Rightarrow> int \<times> nat \<Rightarrow> u64 list \<Rightarrow> (u64 \<Rightarrow> nat \<Rightarrow> (u64 \<times> u64) list) \<Rightarrow> nat \<Rightarrow> u8 list option \<Rightarrow> bool \<Rightarrow> hw_ctx \<Rightarrow>
    int \<times> scope_handle \<times> hw_ctx" where
  "asmtest_hwtrace_begin_window_ex managed pt_begin syms deny_at trace gb out cx =
     (if trace = 0 then (ASMTEST_HW_EINVAL, no_scope, cx)
      else case window_guards deny_at gb of
        Inl rc \<Rightarrow> (rc, no_scope, cx)
      | Inr cf \<Rightarrow>
          if \<not> g_inited (cx_hw cx) then (ASMTEST_HW_ESTATE, no_scope, cx)
          else if single_step cx then
            (if managed then (ASMTEST_HW_EMANAGED, no_scope, cx)
             else case asmtest_ss_begin_window syms (cx_tid cx) trace cf (cx_heap cx) (cx_ss cx) (cx_th cx) of
               (rc, hnd, g, th, h) \<Rightarrow>
                 (let cx1 = cx\<lparr>cx_ss := g, cx_th := th, cx_heap := h\<rparr>
                  in if rc \<noteq> ASMTEST_HW_OK then (rc, no_scope, cx1\<lparr>cx_arm_tid := - 1\<rparr>)
                     else (ASMTEST_HW_OK, made_scope hnd cx, cx1\<lparr>cx_arm_tid := cx_tid cx\<rparr>)))
          else if int (hw_backend cx) = backend_code INTEL_PT then
            (case pt_reserve (cx_pt cx) of
               None \<Rightarrow> (ASMTEST_HW_ESTATE, no_scope, cx)
             | Some s \<Rightarrow>
                 if fst pt_begin \<noteq> ASMTEST_HW_OK then (fst pt_begin, no_scope, cx\<lparr>cx_pt := pt_release s\<rparr>)
                 else case pt_publish (snd pt_begin) (cx_tid cx) out s of
                   (hnd, s1) \<Rightarrow> (ASMTEST_HW_OK, hnd, cx\<lparr>cx_pt := s1, cx_arm_tid := cx_tid cx\<rparr>))
          else (ASMTEST_HW_EUNAVAIL, no_scope, cx))"

definition asmtest_hwtrace_begin_window where
  "asmtest_hwtrace_begin_window managed pt_begin syms deny_at trace out cx = asmtest_hwtrace_begin_window_ex managed pt_begin syms deny_at trace None out cx"

fun guard_code :: "ss_guard \<Rightarrow> int" where
  "guard_code SS_GUARD_NONE = 0"
| "guard_code SS_GUARD_RING = 1"
| "guard_code SS_GUARD_BUDGET = 2"
| "guard_code SS_GUARD_DENY = 3"
| "guard_code SS_GUARD_WATCHDOG = 4"

definition asmtest_hwtrace_window_guard :: "scope_handle \<Rightarrow> hw_ctx \<Rightarrow> int" where
  "asmtest_hwtrace_window_guard hnd cx =
     (case asmtest_ss_frame_guard (sc_idx hnd) (sc_gen hnd) (sc_arm_tid hnd) (cx_th cx) of None \<Rightarrow> ASMTEST_HW_EINVAL | Some g \<Rightarrow> guard_code g)"

text \<open>\<open>pt_drain\<close> ends the PT capture and decodes it into the trace.\<close>

definition asmtest_hwtrace_end_window :: "(u64 \<Rightarrow> decoder) \<Rightarrow> (pt_win \<Rightarrow> asmtest_trace option \<Rightarrow> int \<times> asmtest_trace option) \<Rightarrow> scope_handle \<Rightarrow> nat \<Rightarrow> hw_ctx \<Rightarrow> int \<times> hw_ctx" where
  "asmtest_hwtrace_end_window dec pt_drain hnd trace cx =
     (if sc_idx hnd = PT_SENTINEL then
        (case pt_take hnd (cx_pt cx) of
           None \<Rightarrow> (ASMTEST_HW_OK, flag_truncated trace cx)
         | Some (w, tid, s) \<Rightarrow>
             (case pt_drain w (trace_at cx trace) of
                (rc, t) \<Rightarrow>
                  (let cx1 = cx\<lparr>cx_pt := s, cx_arm_tid := - 1,
                              cx_traces := (case t of None \<Rightarrow> cx_traces cx | Some t1 \<Rightarrow> (cx_traces cx)(trace := t1))\<rparr>
                   in (rc, if cx_tid cx \<noteq> tid then flag_truncated trace cx1 else cx1))))
      else if scope_lookup hnd cx \<noteq> None then (ASMTEST_HW_OK, ss_close dec cx)
      else (ASMTEST_HW_OK, flag_truncated trace cx))"

definition asmtest_hwtrace_pt_window_reserve_test :: "pt_slot \<Rightarrow> int \<times> pt_slot" where
  "asmtest_hwtrace_pt_window_reserve_test s = (case pt_reserve s of None \<Rightarrow> (0, s) | Some s1 \<Rightarrow> (1, s1))"

definition asmtest_hwtrace_pt_window_release_test :: "pt_slot \<Rightarrow> pt_slot" where
  "asmtest_hwtrace_pt_window_release_test s = s\<lparr>pt_win := NoWindow, pt_tid := 0\<rparr>"

definition asmtest_hwtrace_render_window :: "(u8 list \<Rightarrow> u64 \<Rightarrow> string) option \<Rightarrow> (u64 \<Rightarrow> nat \<Rightarrow> u8 list option) \<Rightarrow> int \<Rightarrow> scope_handle \<Rightarrow> string option \<Rightarrow> nat \<Rightarrow> hw_ctx \<Rightarrow>
    int \<times> string option" where
  "asmtest_hwtrace_render_window disas readv page hnd buf buflen cx =
     (case scope_lookup hnd cx of
        None \<Rightarrow> (ASMTEST_HW_EINVAL, buf)
      | Some (base, len, trace) \<Rightarrow>
          if trace = 0 then (ASMTEST_HW_EINVAL, buf)
          else case disas of
            None \<Rightarrow> (ASMTEST_HW_ENOSYS, buf)
          | Some txt \<Rightarrow>
              render_trace_with (\<lambda>addr. render_line 12 ''(undecodable)'' addr
                (case hw_read_self_live readv page 16 addr of None \<Rightarrow> [] | Some code \<Rightarrow> txt code addr)) (cx_traces cx trace) buf buflen)"

section \<open>A rendering is cut like \<^verbatim>\<open>snprintf\<close>'s\<close>

definition render_text :: "(u64 \<Rightarrow> string) \<Rightarrow> asmtest_trace \<Rightarrow> string" where
  "render_text line t = concat (map line (buf_of (t_insns t))) @
     (if t_truncated t \<or> unat (t_insns_total t) > t_insns_len t then truncated_line t else [])"

text \<open>The buffer \<open>b\<close> once \<open>p\<close> has been printed into it.\<close>

definition printed :: "string \<Rightarrow> string \<Rightarrow> string" where
  "printed b p = take (length b - 1) p @ nul # drop (min (length b - 1) (length p) + 1) b"

lemma emit_printed:
  assumes "b \<noteq> []"
  shows "render_emit (Some (printed b p)) (length b) (length p) src = Some (printed b (p @ src))"
proof (cases "length p \<ge> length b")
  case True
  then show ?thesis by (simp add: render_emit_def printed_def)
next
  case False
  let ?room = "length b - length p - 1" and ?n = "min (length src) (length b - length p - 1)"
  have p: "printed b p = p @ nul # drop (length p + 1) b" using False by (simp add: printed_def min_def)
  have "render_emit (Some (printed b p)) (length b) (length p) src = Some (p @ take ?n src @ nul # drop (length p + ?n + 1) b)"
    using False by (simp add: render_emit_def p Let_def min_def add.commute add.left_commute)
  moreover have "take (length b - 1) (p @ src) = p @ take ?n src" using False by (simp add: min_def)
  moreover have "min (length b - 1) (length (p @ src)) = length p + ?n" using False by (auto simp: min_def)
  ultimately show ?thesis by (simp add: printed_def)
qed

lemma loop_printed:
  "b \<noteq> [] \<Longrightarrow> render_loop (Some (printed b p)) (length b) (length p) ls = (Some (printed b (p @ concat ls)), length (p @ concat ls))"
  by (induction ls arbitrary: p) (simp_all add: emit_printed flip: length_append append_assoc)

lemma loop_NULL: "render_loop None buflen pos ls = (None, pos + length (concat ls))"
  by (induction ls arbitrary: pos) (simp_all add: render_emit_def)

lemma c_int_small: "n < 2 ^ 31 \<Longrightarrow> c_int n = int n"
  by (simp add: c_int_def signed_of_nat signed_take_bit_int_eq_self)

lemma render_with_exact:
  assumes "length (render_text line t) < 2 ^ 31"
  shows "b \<noteq> [] \<Longrightarrow> render_trace_with line t (Some b) (length b) = (int (length (render_text line t)), Some (printed b (render_text line t)))"
    "render_trace_with line t None buflen = (int (length (render_text line t)), None)"
proof -
  let ?ls = "map line (buf_of (t_insns t))"
  assume b: "b \<noteq> []"
  have "nul # tl b = printed b []" using b by (cases b) (simp_all add: printed_def)
  then have "render_loop (Some (nul # tl b)) (length b) 0 ?ls = (Some (printed b (concat ?ls)), length (concat ?ls))"
    using loop_printed [OF b, of "[]" ?ls] by simp
  then show "render_trace_with line t (Some b) (length b) = (int (length (render_text line t)), Some (printed b (render_text line t)))"
    using b assms c_int_small [OF assms] emit_printed [OF b, of "concat ?ls"]
    by (auto simp: render_trace_with_def render_text_def Let_def)
next
  show "render_trace_with line t None buflen = (int (length (render_text line t)), None)"
    using assms c_int_small [OF assms] by (auto simp: render_trace_with_def render_text_def Let_def loop_NULL render_emit_def)
qed

text \<open>A printed line fits the 192 characters of the buffer it is formatted in.\<close>

lemma fmt_hex_length: "length (fmt_hex n) \<le> k" if "0 < k" "n < 16 ^ k"
  using that
proof (induction k arbitrary: n)
  case (Suc k)
  show ?case
  proof (cases "n < 16")
    case True
    then show ?thesis by (simp add: fmt_base.simps)
  next
    case False
    then have "k \<noteq> 0" using Suc.prems(2) by (cases k) auto
    moreover have "n div 16 < 16 ^ k" using Suc.prems(2) by (simp add: less_mult_imp_div_less mult.commute)
    ultimately have "length (fmt_hex (n div 16)) \<le> k" by (intro Suc.IH) auto
    then show ?thesis using False by (simp add: fmt_base.simps [of 16 n])
  qed
qed simp

lemma render_line_fits: "w \<le> 16 \<Longrightarrow> length missing \<le> 127 \<Longrightarrow> length (render_line w missing a txt) < 192"
proof -
  assume a: "w \<le> 16" "length missing \<le> 127"
  have "unat a < 16 ^ 16" using unsigned_less [of a] by simp
  then have "length (fmt_hex (unat a)) \<le> 16" by (intro fmt_hex_length) simp_all
  then show ?thesis using a by (auto simp: render_line_def pad_hex_def Let_def)
qed

abbreviation scope_text :: "(u64 \<Rightarrow> nat \<Rightarrow> u64 \<Rightarrow> string) \<Rightarrow> u64 \<Rightarrow> nat \<Rightarrow> asmtest_trace \<Rightarrow> string" where
  "scope_text txt base len t \<equiv> render_text (\<lambda>off. render_line 8 ''(undecodable)'' off (txt base len off)) t"

text \<open>
  C28: Rendering a scope follows \<^verbatim>\<open>snprintf\<close>. Let a handle resolve to a region and a trace, whether or not a region is registered for it, with a disassembler available (without one both calls say \<open>ENOSYS\<close> and leave the buffer alone), and let
  the text, one line for each recorded instruction in order and a closing line if the trace is truncated or lost
  instructions, be shorter than \<open>2 ^ 31\<close>. Then the sizing call without a buffer returns the length of the whole text, and a call with a buffer of any size at least 1 returns the same and leaves in the buffer as much of the text
  as fits before a NUL, every character behind which is what it was: no character is written past the buffer. If moreover a region is registered under some name with that base, length and trace, rendering by the name gives the same.
\<close>

theorem render_scope_snprintf:
  assumes "scope_lookup hnd cx = Some (base, len, trace)" "base \<noteq> 0" "trace \<noteq> 0" "b \<noteq> []"
    and "length (scope_text txt base len (cx_traces cx trace)) < 2 ^ 31"
  shows "asmtest_hwtrace_render_scope None hnd buf n cx = (ASMTEST_HW_ENOSYS, buf) \<and>
    asmtest_hwtrace_render_scope (Some txt) hnd None 0 cx = (int (length (scope_text txt base len (cx_traces cx trace))), None) \<and>
    asmtest_hwtrace_render_scope (Some txt) hnd (Some b) (length b) cx =
      (int (length (scope_text txt base len (cx_traces cx trace))),
       Some (take (length b - 1) (scope_text txt base len (cx_traces cx trace)) @
         nul # drop (min (length b - 1) (length (scope_text txt base len (cx_traces cx trace))) + 1) b)) \<and>
    (\<forall>nm r. find_region nm (g_regions (cx_hw cx)) = Some r \<and> rg_base r = base \<and> rg_len r = len \<and> unat (rg_trace r) = trace \<longrightarrow>
      asmtest_hwtrace_render (Some txt) (Some nm) (Some b) (length b) cx = asmtest_hwtrace_render_scope (Some txt) hnd (Some b) (length b) cx)"
  using assms(1-4) render_with_exact [OF assms(5)]
  by (simp add: asmtest_hwtrace_render_scope_def asmtest_hwtrace_render_def render_trace_into_def trace_at_def printed_def)

section \<open>Windows record what the thread executes\<close>

lemma replay_window_prev:
  "replay_window (Some a) xs t = trace_run t (map Insn (tl (remdups_adj (a # xs))))"
proof (induction xs arbitrary: a t)
  case (Cons x xs)
  show ?case
  proof (cases "x = a")
    case True
    then show ?thesis using Cons.IH [of a t] by simp
  next
    case False
    have e: "tl (remdups_adj (a # x # xs)) = x # tl (remdups_adj (x # xs))" using False by (simp del: remdups_adj.simps(3) add: remdups_adj.simps(3) [of a x xs])
    show ?thesis unfolding e using False Cons.IH [of x "append_insn t x"] by (simp del: remdups_adj_Cons_alt)
  qed
qed simp

lemma replay_window_run: "replay_window None xs t = trace_run t (map Insn (remdups_adj xs))"
proof (cases xs)
  case (Cons x ys)
  have "remdups_adj (x # ys) = x # tl (remdups_adj (x # ys))" by (metis list.sel(3) remdups_adj_Cons_alt)
  then have "map Insn (remdups_adj (x # ys)) = Insn x # map Insn (tl (remdups_adj (x # ys)))" by (metis list.simps(9))
  then show ?thesis unfolding Cons using replay_window_prev [of x ys "append_insn t x"] by simp
qed simp

text \<open>
  What a thread sees while a window is open: it traps at addresses, and between two traps the globals may change, as the alarm fires or other threads open windows that publish deny entries. Each trap comes with the globals at
  that moment.
\<close>

fun traps_seen :: "(ss_globals \<times> u64) list \<Rightarrow> ss_thread \<Rightarrow> ss_thread" where
  "traps_seen [] th = th"
| "traps_seen ((g, rip) # evs) th = (case ss_on_sigtrap g rip th of (th1, tf) \<Rightarrow> if tf then traps_seen evs th1 else th1)"

abbreviation record_seen :: "ss_globals \<times> u64 \<Rightarrow> ss_frame \<Rightarrow> ss_frame" where
  "record_seen e \<equiv> record_frame (fst e) (snd e)"

lemma stopped_seen: "\<not> wants_step f \<Longrightarrow> fold record_seen evs f = f"
proof -
  assume "\<not> wants_step f"
  then have "record_seen e f = f" for e by (simp add: record_frame_def record_window_def wants_step_def)
  then show ?thesis by (induction evs) simp_all
qed

lemma traps_seen_frames:
  assumes "\<forall>e\<in>set evs. g_armed (fst e)" "tls_depth th \<noteq> 0"
  shows "traps_seen evs th =
    th\<lparr>tls_frames := map (fold record_seen evs) (take (tls_depth th) (tls_frames th)) @ drop (tls_depth th) (tls_frames th)\<rparr>"
  using assms
proof (induction evs arbitrary: th)
  case (Cons e evs)
  obtain g r where e: "e = (g, r)" by (cases e)
  let ?d = "tls_depth th" and ?fs = "tls_frames th"
  let ?fr = "map (record_frame g r) (take ?d ?fs)" let ?th = "th\<lparr>tls_frames := ?fr @ drop ?d ?fs\<rparr>"
  have tk: "take ?d (?fr @ drop ?d ?fs) = ?fr" "drop ?d (?fr @ drop ?d ?fs) = drop ?d ?fs" by (cases "?d \<le> length ?fs"; simp)+
  have o: "ss_on_sigtrap g r th = (?th, list_ex wants_step ?fr)" unfolding ss_on_sigtrap_def Let_def tk using Cons.prems e by simp
  show ?case
  proof (cases "list_ex wants_step ?fr")
    case True
    then show ?thesis using Cons.IH [of ?th] Cons.prems o tk e by simp
  next
    case False
    then have "\<forall>f\<in>set (take ?d ?fs). fold record_seen evs (record_frame g r f) = record_frame g r f"
      by (auto simp: list_ex_iff stopped_seen)
    then have "map (fold record_seen (e # evs)) (take ?d ?fs) = ?fr" by (simp add: e)
    then show ?thesis using False o e by simp
  qed
qed simp

text \<open>The traps before the first that finds the alarm fired or its address denied, and what ends a window whose ring holds them.\<close>

definition undisturbed :: "ss_globals \<times> u64 \<Rightarrow> bool" where
  "undisturbed e \<longleftrightarrow> \<not> g_ww_alarm_fired (fst e) \<and> (\<forall>(lo, n)\<in>set (g_deny (fst e)). \<not> (lo \<le> snd e \<and> snd e < lo + n))"

definition window_end :: "nat \<Rightarrow> (ss_globals \<times> u64) list \<Rightarrow> ss_guard" where
  "window_end cap evs =
     (if length (takeWhile undisturbed evs) > cap then SS_GUARD_RING
      else case dropWhile undisturbed evs of [] \<Rightarrow> SS_GUARD_NONE
        | (g, _) # _ \<Rightarrow> if g_ww_alarm_fired g then SS_GUARD_WATCHDOG else SS_GUARD_DENY)"

lemma undisturbed_alt: "undisturbed e \<longleftrightarrow> \<not> g_ww_alarm_fired (fst e) \<and> \<not> ss_rip_denied (fst e) (snd e)"
  by (auto simp: undisturbed_def ss_rip_denied_def)

lemma window_fold:
  assumes "fr_whole f" "fr_guard f = SS_GUARD_NONE" "fr_steps f = of_nat (length (fr_stream f))" "length (fr_stream f) \<le> fr_cap f"
    and "fr_cap f + 1 < unat (fr_budget f)"
  shows "\<exists>n. fold record_seen evs f = f\<lparr>fr_stream := take (fr_cap f) (fr_stream f @ map snd (takeWhile undisturbed evs)), fr_steps := n,
    fr_guard := window_end (fr_cap f - length (fr_stream f)) evs,
    fr_overflow := fr_overflow f \<or> length (fr_stream f) + length (takeWhile undisturbed evs) > fr_cap f\<rparr>"
  using assms
proof (induction evs arbitrary: f)
  case Nil
  then show ?case by (intro exI [of _ "fr_steps f"]) (cases f, simp add: window_end_def)
next
  case (Cons e evs)
  let ?n = "length (fr_stream f)"
  have "unat (fr_budget f) < 2 ^ 64" using unsigned_less [of "fr_budget f"] by simp
  then have "unat (fr_steps f + 1) = Suc ?n" using Cons.prems(3-5) by (simp add: unat_word_ariths unat_of_nat)
  then have b: "\<not> fr_steps f + 1 \<ge> fr_budget f" using Cons.prems(4,5) by (simp add: word_le_nat_alt)
  consider (quiet) "undisturbed e" "?n < fr_cap f" | (full) "undisturbed e" "\<not> ?n < fr_cap f" | (stop) "\<not> undisturbed e" by blast
  then show ?case
  proof cases
    case quiet
    then have r: "record_seen e f = f\<lparr>fr_steps := fr_steps f + 1, fr_stream := fr_stream f @ [snd e]\<rparr>"
      using Cons.prems b by (simp add: record_frame_def record_window_def Let_def undisturbed_alt)
    have "window_end (fr_cap f - ?n) (e # evs) = window_end (fr_cap f - Suc ?n) evs" using quiet by (simp add: window_end_def) linarith
    then show ?thesis using Cons.IH [of "record_seen e f"] Cons.prems quiet by (simp add: r)
  next
    case full
    then have r: "record_seen e f = f\<lparr>fr_steps := fr_steps f + 1, fr_overflow := True, fr_guard := SS_GUARD_RING\<rparr>"
      using Cons.prems b by (simp add: record_frame_def record_window_def Let_def undisturbed_alt)
    have "record_seen x (record_seen e f) = record_seen e f" for x unfolding r using Cons.prems(1) by (simp add: record_frame_def record_window_def)
    then have "fold record_seen evs (record_seen e f) = record_seen e f" by (induction evs) simp_all
    then have "fold record_seen (e # evs) f = f\<lparr>fr_steps := fr_steps f + 1, fr_overflow := True, fr_guard := SS_GUARD_RING\<rparr>" by (simp add: r)
    then show ?thesis using full Cons.prems(4) by (intro exI [of _ "fr_steps f + 1"]) (simp add: window_end_def)
  next
    case stop
    let ?g = "if g_ww_alarm_fired (fst e) then SS_GUARD_WATCHDOG else SS_GUARD_DENY"
    from stop have r: "record_seen e f = f\<lparr>fr_guard := ?g\<rparr>"
      using Cons.prems by (auto simp: record_frame_def record_window_def undisturbed_alt)
    have "fold record_seen evs (record_seen e f) = record_seen e f" by (rule stopped_seen) (simp add: r wants_step_def Cons.prems(1))
    then have "fold record_seen (e # evs) f = f\<lparr>fr_guard := ?g\<rparr>" by (simp add: r)
    then show ?thesis using stop Cons.prems(4) by (intro exI [of _ "fr_steps f"]) (cases e, cases f, simp add: window_end_def)
  qed
qed

abbreviation safe_defaults :: ss_config where
  "safe_defaults \<equiv> \<lparr>cf_budget = 0, cf_watchdog = 0, cf_default_deny = False, cf_deny = []\<rparr>"

abbreviation plain_window :: "int \<Rightarrow> nat \<Rightarrow> u32 \<Rightarrow> ss_frame" where
  "plain_window tid trace gen \<equiv> fill_frame tid 0 0 trace True SS_WINDOW_BUDGET_DEFAULT SS_WINDOW_WATCHDOG_MS_DEFAULT gen"

lemma plain_window_fold:
  "\<exists>n. fold record_seen evs (plain_window tid trace gen) = (plain_window tid trace gen)\<lparr>fr_stream := take SS_WINDOW_CAP (map snd (takeWhile undisturbed evs)), fr_steps := n,
    fr_guard := window_end SS_WINDOW_CAP evs, fr_overflow := length (takeWhile undisturbed evs) > SS_WINDOW_CAP\<rparr>"
  using window_fold [of "plain_window tid trace gen" evs]
  by (simp add: fill_frame_def SS_WINDOW_CAP_def SS_WINDOW_BUDGET_DEFAULT_def)

text \<open>Closing the window with its handle on the thread that opened it.\<close>

lemma made_lookup:
  assumes "tls_frames (cx_th cx) ! d = f" "d < SS_MAX_FRAMES" "fr_gen f = gen" "gen \<noteq> 0" "fr_arm_tid f = tid"
  shows "scope_lookup \<lparr>sc_idx = of_nat d, sc_gen = gen, sc_arm_tid = tid\<rparr> cx = Some (fr_base f, fr_len f, fr_trace f)"
    "asmtest_hwtrace_window_guard \<lparr>sc_idx = of_nat d, sc_gen = gen, sc_arm_tid = tid\<rparr> cx = guard_code (fr_guard f)"
    "(of_nat d :: u32) \<noteq> PT_SENTINEL"
proof -
  have d: "unat (of_nat d :: u32) = d" using assms(2) by (simp add: unat_of_nat SS_MAX_FRAMES_def)
  then show "scope_lookup \<lparr>sc_idx = of_nat d, sc_gen = gen, sc_arm_tid = tid\<rparr> cx = Some (fr_base f, fr_len f, fr_trace f)"
    "asmtest_hwtrace_window_guard \<lparr>sc_idx = of_nat d, sc_gen = gen, sc_arm_tid = tid\<rparr> cx = guard_code (fr_guard f)"
    using assms by (simp_all add: scope_lookup_def asmtest_ss_frame_lookup_def asmtest_hwtrace_window_guard_def asmtest_ss_frame_guard_def Let_def)
  show "(of_nat d :: u32) \<noteq> PT_SENTINEL"
  proof
    assume "(of_nat d :: u32) = PT_SENTINEL"
    then have "d = unat PT_SENTINEL" using d by simp
    then show False using assms(2) by (simp add: PT_SENTINEL_def SS_MAX_FRAMES_def)
  qed
qed

abbreviation opened :: "nat \<Rightarrow> hw_ctx \<Rightarrow> ss_thread" where
  "opened trace cx \<equiv> (cx_th cx)\<lparr>tls_frames := (tls_frames (cx_th cx))[tls_depth (cx_th cx) := plain_window (cx_tid cx) trace (tls_gen_ctr (cx_th cx) + 1)],
     tls_gen_ctr := tls_gen_ctr (cx_th cx) + 1, tls_depth := tls_depth (cx_th cx) + 1\<rparr>"

abbreviation top_handle :: "hw_ctx \<Rightarrow> scope_handle" where
  "top_handle cx \<equiv> \<lparr>sc_idx = of_nat (tls_depth (cx_th cx)), sc_gen = tls_gen_ctr (cx_th cx) + 1, sc_arm_tid = cx_tid cx\<rparr>"

lemma window_opens:
  assumes "g_inited (cx_hw cx)" "single_step cx" "trace \<noteq> 0" "tls_depth (cx_th cx) < SS_MAX_FRAMES" "set (cx_heap cx) \<subseteq> {True}"
  obtains g h where "asmtest_hwtrace_begin_window False pt_begin syms deny_at trace True cx =
      (ASMTEST_HW_OK, top_handle cx, cx\<lparr>cx_ss := g, cx_th := opened trace cx, cx_heap := h, cx_arm_tid := cx_tid cx\<rparr>)"
    "g_armed g"
proof -
  obtain h1 where h1: "alloc (cx_heap cx) = (True, h1)" "set h1 \<subseteq> {True}" using assms(5) by (cases "cx_heap cx") auto
  obtain h2 where h2: "(if g_arm_refcount (cx_ss cx) = 0 then alloc h1 else (True, h1)) = (True, h2)" "set h2 \<subseteq> {True}"
    using h1(2) by (cases "g_arm_refcount (cx_ss cx) = 0"; cases h1) auto
  define g1 where "g1 = armed syms True safe_defaults (cx_ss cx)"
  have "asmtest_ss_begin_window syms (cx_tid cx) trace safe_defaults (cx_heap cx) (cx_ss cx) (cx_th cx) =
      (ASMTEST_HW_OK, Some (tls_depth (cx_th cx), tls_gen_ctr (cx_th cx) + 1), g1, opened trace cx, h2)"
    using push_fits [of True 0 0 "cx_th cx" "cx_heap cx" h1 syms "cx_tid cx" trace safe_defaults "cx_ss cx"] assms(4) h1(1) h2
    by (simp add: asmtest_ss_begin_window_def g1_def)
  then have "asmtest_hwtrace_begin_window False pt_begin syms deny_at trace True cx =
      (ASMTEST_HW_OK, top_handle cx, cx\<lparr>cx_ss := g1, cx_th := opened trace cx, cx_heap := h2, cx_arm_tid := cx_tid cx\<rparr>)"
    using assms(1-3) by (simp add: asmtest_hwtrace_begin_window_def asmtest_hwtrace_begin_window_ex_def window_guards_def made_scope_def Let_def)
  moreover have "g_armed g1" by (simp add: g1_def)
  ultimately show thesis using that by blast
qed

text \<open>
  C26: A plain window records what its thread executes until something ends it. On an initialized single-step tier, with room on the thread's stack and memory for the ring, opening a window with the default guards succeeds. Let the thread then trap
  any number of times, while the globals change between the traps in any way that leaves the handler armed: the window's own alarm may fire, other windows may publish deny entries. The window counts until the first trap that finds the alarm fired or its address
  inside a denied range. Closing the window with its handle on that thread, whatever the globals are then, appends the addresses of these traps in order, at most the first \<open>SS_WINDOW_CAP\<close> of them, and of equal addresses that follow
  each other only one, be they the repetitions of a string instruction or the iterations of a branch to itself. The guard reported says what ended the recording: the ring when there were more than it holds, else the watchdog or the deny
  table when a trap met one of them, else none; the trace is marked truncated exactly when there was one. The default budget never ends a window. The frames below stay open.
\<close>

theorem window_records_execution:
  assumes "g_inited (cx_hw cx)" "single_step cx" "trace \<noteq> 0" "tls_depth (cx_th cx) < SS_MAX_FRAMES"
    and "length (tls_frames (cx_th cx)) = SS_MAX_FRAMES" "tls_gen_ctr (cx_th cx) + 1 \<noteq> 0" "set (cx_heap cx) \<subseteq> {True}" "\<forall>e\<in>set evs. g_armed (fst e)"
  shows "\<exists>hnd cx1 cx2. asmtest_hwtrace_begin_window False pt_begin syms deny_at trace True cx = (ASMTEST_HW_OK, hnd, cx1) \<and>
    asmtest_hwtrace_end_window dec pt_drain hnd trace (cx1\<lparr>cx_th := traps_seen evs (cx_th cx1), cx_ss := g\<rparr>) = (ASMTEST_HW_OK, cx2) \<and>
    cx_traces cx2 = (cx_traces cx)(trace := (if window_end SS_WINDOW_CAP evs \<noteq> SS_GUARD_NONE then set_truncated else id)
      (trace_run (cx_traces cx trace) (map Insn (remdups_adj (take SS_WINDOW_CAP (map snd (takeWhile undisturbed evs))))))) \<and>
    asmtest_hwtrace_window_guard hnd cx2 = guard_code (window_end SS_WINDOW_CAP evs) \<and> tls_depth (cx_th cx2) = tls_depth (cx_th cx)"
proof -
  let ?th = "cx_th cx" let ?d = "tls_depth ?th" and ?gen = "tls_gen_ctr (cx_th cx) + 1" and ?seen = "map snd (takeWhile undisturbed evs)"
  define f where "f = plain_window (cx_tid cx) trace ?gen"
  define th1 where "th1 = opened trace cx"
  define hnd where "hnd = top_handle cx"
  obtain g1 h2 where b: "asmtest_hwtrace_begin_window False pt_begin syms deny_at trace True cx =
      (ASMTEST_HW_OK, hnd, cx\<lparr>cx_ss := g1, cx_th := th1, cx_heap := h2, cx_arm_tid := cx_tid cx\<rparr>)"
    unfolding hnd_def th1_def by (rule window_opens [OF assms(1-4,7)])
  define cx1 where "cx1 = cx\<lparr>cx_ss := g1, cx_th := th1, cx_heap := h2, cx_arm_tid := cx_tid cx\<rparr>"
  define th2 where "th2 = traps_seen evs th1"
  have t2: "th2 = th1\<lparr>tls_frames := map (fold record_seen evs) (take (?d + 1) (tls_frames th1)) @ drop (?d + 1) (tls_frames th1)\<rparr>"
    unfolding th2_def by (subst traps_seen_frames [OF assms(8)]) (simp_all add: th1_def)
  have l: "?d < length (tls_frames ?th)" using assms(4,5) by simp
  obtain n where n: "fold record_seen evs f = f\<lparr>fr_stream := take SS_WINDOW_CAP ?seen, fr_steps := n,
      fr_guard := window_end SS_WINDOW_CAP evs, fr_overflow := length (takeWhile undisturbed evs) > SS_WINDOW_CAP\<rparr>"
    unfolding f_def using plain_window_fold by blast
  define f2 where "f2 = fold record_seen evs f"
  have f2: "fr_trace f2 = trace" "fr_base f2 = 0" "fr_gen f2 = ?gen" "fr_arm_tid f2 = cx_tid cx" "fr_whole f2" "fr_stream f2 = take SS_WINDOW_CAP ?seen"
    "fr_overflow f2 \<or> fr_guard f2 \<noteq> SS_GUARD_NONE \<longleftrightarrow> window_end SS_WINDOW_CAP evs \<noteq> SS_GUARD_NONE" "fr_guard f2 = window_end SS_WINDOW_CAP evs"
    unfolding f2_def n by (simp_all add: f_def fill_frame_def) (auto simp: window_end_def)
  have th2: "tls_frames th2 ! ?d = f2" "tls_depth th2 = ?d + 1" "?d + 1 \<le> length (tls_frames th2)"
    using l unfolding t2 f2_def f_def by (simp_all add: th1_def nth_append)
  define cxs where "cxs = cx1\<lparr>cx_th := traps_seen evs (cx_th cx1), cx_ss := g\<rparr>"
  have c: "cx_th cxs = th2" "cx_ss cxs = g" "cx_traces cxs = cx_traces cx" by (simp_all add: cxs_def cx1_def th2_def)
  have look: "scope_lookup hnd cxs \<noteq> None" "sc_idx hnd \<noteq> PT_SENTINEL"
    using made_lookup [of cxs ?d f2 ?gen "cx_tid cx"] th2(1) assms(4,6) f2 by (simp_all add: hnd_def c)
  obtain g2 th3 where e: "asmtest_ss_end dec (cx_traces cx) g th2 = ((cx_traces cx)(trace := ss_normalize (dec 0) f2 (cx_traces cx trace)), g2, th3)"
      "tls_depth th3 = ?d" "tls_frames th3 = (tls_frames th2)[?d := f2\<lparr>fr_stream := []\<rparr>]"
    using end_top [of th2 dec "cx_traces cx" g] th2 f2 assms(3) by auto
  define cx2 where "cx2 = ss_close dec cxs"
  have c2: "cx_th cx2 = th3" "cx_traces cx2 = (cx_traces cx)(trace := ss_normalize (dec 0) f2 (cx_traces cx trace))"
    by (simp_all add: cx2_def ss_close_def c e(1))
  have "ss_normalize (dec 0) f2 (cx_traces cx trace) = (if window_end SS_WINDOW_CAP evs \<noteq> SS_GUARD_NONE then set_truncated else id)
      (trace_run (cx_traces cx trace) (map Insn (remdups_adj (take SS_WINDOW_CAP ?seen))))"
    using f2(2,5-7) by (simp add: ss_normalize_def replay_window_run)
  moreover have "asmtest_hwtrace_end_window dec pt_drain hnd trace cxs = (ASMTEST_HW_OK, cx2)"
    using look by (simp add: asmtest_hwtrace_end_window_def cx2_def)
  moreover have "asmtest_hwtrace_window_guard hnd cx2 = guard_code (window_end SS_WINDOW_CAP evs)"
    using made_lookup(2) [of cx2 ?d "f2\<lparr>fr_stream := []\<rparr>" ?gen "cx_tid cx"] assms(4,6) f2 e(3) th2(3) by (simp add: hnd_def c2)
  ultimately show ?thesis using b c2 e(2) unfolding cxs_def cx1_def by auto
qed

text \<open>Closing with a handle of another thread leaves every frame as it is.\<close>

lemma foreign_close:
  assumes "sc_idx hnd \<noteq> PT_SENTINEL" "sc_arm_tid hnd \<noteq> cx_tid cx"
    and "\<forall>i<SS_MAX_FRAMES. fr_gen (tls_frames (cx_th cx) ! i) \<noteq> 0 \<longrightarrow> fr_arm_tid (tls_frames (cx_th cx) ! i) = cx_tid cx"
  shows "asmtest_hwtrace_end_window dec pt_drain hnd trace cx = (ASMTEST_HW_OK, flag_truncated trace cx)"
  using assms by (auto simp: asmtest_hwtrace_end_window_def scope_lookup_def asmtest_ss_frame_lookup_def Let_def)

text \<open>The handle of a closed window still resolves, and closing with it again closes the frame that is on top by then.\<close>

lemma closed_handle_closes_next:
  assumes "scope_lookup hnd cx \<noteq> None" "sc_idx hnd \<noteq> PT_SENTINEL" "0 < tls_depth (cx_th cx)" "tls_depth (cx_th cx) \<le> unat (sc_idx hnd)"
  shows "\<exists>cx1. asmtest_hwtrace_end_window dec pt_drain hnd trace cx = (ASMTEST_HW_OK, cx1) \<and> tls_depth (cx_th cx1) = tls_depth (cx_th cx) - 1"
proof -
  have "tls_depth (cx_th (ss_close dec cx)) = tls_depth (cx_th cx) - 1"
    using assms(3) by (simp add: ss_close_def asmtest_ss_end_def Let_def)
  then show ?thesis using assms(1,2) by (simp add: asmtest_hwtrace_end_window_def)
qed

section \<open>The slot of the PT window\<close>

text \<open>
  Threads that open and close PT windows, one critical section at a time: reserving the slot, giving it back after a failed arm, publishing the context that was armed (contexts are numbered as they are armed), and
  matching a handle to close. \<open>ps_arming\<close> are the threads between reserving and publishing, \<open>ps_log\<close> the handles issued with their contexts, \<open>ps_drained\<close> what was drained.
\<close>

record pt_sys =
  ps_slot :: pt_slot
  ps_arming :: "int set"
  ps_log :: "(scope_handle \<times> nat) list"
  ps_drained :: "pt_win list"

definition pt_boot :: pt_sys where
  "pt_boot = \<lparr>ps_slot = \<lparr>pt_win = NoWindow, pt_gen = 0, pt_tid = 0\<rparr>, ps_arming = {}, ps_log = [], ps_drained = []\<rparr>"

inductive pt_step :: "pt_sys \<Rightarrow> pt_sys \<Rightarrow> bool" where
  reserve: "0 < t \<Longrightarrow> pt_reserve (ps_slot p) = Some s \<Longrightarrow> pt_step p (p\<lparr>ps_slot := s, ps_arming := insert t (ps_arming p)\<rparr>)"
| give_back: "t \<in> ps_arming p \<Longrightarrow> pt_step p (p\<lparr>ps_slot := pt_release (ps_slot p), ps_arming := ps_arming p - {t}\<rparr>)"
| publish: "t \<in> ps_arming p \<Longrightarrow> pt_publish (length (ps_log p)) t True (ps_slot p) = (hnd, s) \<Longrightarrow>
    pt_step p (p\<lparr>ps_slot := s, ps_arming := ps_arming p - {t}, ps_log := (hnd, length (ps_log p)) # ps_log p\<rparr>)"
| take_slot: "hnd \<in> fst ` set (ps_log p) \<Longrightarrow> pt_take hnd (ps_slot p) = Some (w, t, s) \<Longrightarrow> pt_step p (p\<lparr>ps_slot := s, ps_drained := w # ps_drained p\<rparr>)"

inductive pt_reach :: "pt_sys \<Rightarrow> bool" where
  boot: "pt_reach pt_boot"
| step: "pt_reach p \<Longrightarrow> pt_step p q \<Longrightarrow> pt_reach q"

fun pt_log_ok :: "(scope_handle \<times> nat) list \<Rightarrow> bool" where
  "pt_log_ok [] \<longleftrightarrow> True"
| "pt_log_ok ((hnd, c) # L) \<longleftrightarrow> c = length L \<and> sc_gen hnd = of_nat (Suc c) \<and> 0 < sc_arm_tid hnd \<and> pt_log_ok L"

definition pt_inv :: "pt_sys \<Rightarrow> bool" where
  "pt_inv p \<longleftrightarrow> pt_log_ok (ps_log p) \<and> pt_gen (ps_slot p) = of_nat (length (ps_log p)) \<and> (\<forall>t\<in>ps_arming p. 0 < t) \<and>
     (case pt_win (ps_slot p) of
        NoWindow \<Rightarrow> ps_arming p = {} \<and> pt_tid (ps_slot p) = 0 \<and> set (ps_drained p) = Window ` {..<length (ps_log p)}
      | Reserved \<Rightarrow> (\<exists>t. ps_arming p = {t}) \<and> pt_tid (ps_slot p) = 0 \<and> set (ps_drained p) = Window ` {..<length (ps_log p)}
      | Window w \<Rightarrow> ps_arming p = {} \<and> length (ps_log p) = Suc w \<and> set (ps_drained p) = Window ` {..<w}) \<and>
     distinct (ps_drained p)"

lemma pt_log_entry:
  "pt_log_ok L \<Longrightarrow> (hnd, c) \<in> set L \<Longrightarrow> c < length L \<and> sc_gen hnd = of_nat (Suc c) \<and> 0 < sc_arm_tid hnd"
  by (induction L rule: pt_log_ok.induct) auto

lemma pt_inv_step:
  assumes "pt_inv p" "pt_step p q"
  shows "pt_inv q"
  using assms(2)
proof (cases rule: pt_step.cases)
  case (reserve t s)
  then show ?thesis using assms(1) by (auto simp: pt_inv_def pt_reserve_def split: if_splits)
next
  case (give_back t)
  then show ?thesis using assms(1) by (auto simp: pt_inv_def pt_release_def split: pt_win.splits)
next
  case (publish t hnd s)
  then show ?thesis using assms(1) by (auto simp: pt_inv_def pt_publish_def split: pt_win.splits)
next
  case (take_slot hnd w t s)
  then obtain c where "(hnd, c) \<in> set (ps_log p)" by auto
  from pt_log_entry [OF _ this] assms(1) have "0 < sc_arm_tid hnd" by (simp add: pt_inv_def)
  then show ?thesis using assms(1) take_slot by (auto simp: pt_inv_def pt_take_def lessThan_Suc split: pt_win.splits if_splits)
qed

lemma pt_inv_boot: "pt_inv pt_boot"
  by (simp add: pt_boot_def pt_inv_def)

lemma pt_inv_reach: "pt_reach p \<Longrightarrow> pt_inv p"
  by (induction rule: pt_reach.induct) (rule pt_inv_boot, rule pt_inv_step)

text \<open>
  C27: One PT window at a time, and every handle closes its own. Let threads reserve, arm, fail, publish and close in any interleaving of the critical sections, and let every opening take its handle. At most one thread is
  arming, and none while a window is open. Every context that was armed has been drained, exactly once, except that of the open window. And as long as fewer than \<open>2 ^ 32\<close> handles have been issued, a handle that matches the slot
  takes the context it was issued for, never another window's and never a reservation.
\<close>

theorem pt_window_slot_safe:
  assumes "pt_reach p"
  shows "(\<exists>t. ps_arming p \<subseteq> {t}) \<and> (ps_arming p \<noteq> {} \<longleftrightarrow> pt_win (ps_slot p) = Reserved) \<and>
    distinct (ps_drained p) \<and> set (ps_drained p) = Window ` {..<length (ps_log p)} - {pt_win (ps_slot p)} \<and>
    (length (ps_log p) < 2 ^ 32 \<longrightarrow> (\<forall>hnd c w t s. (hnd, c) \<in> set (ps_log p) \<longrightarrow> pt_take hnd (ps_slot p) = Some (w, t, s) \<longrightarrow> w = Window c))"
proof -
  have i: "pt_inv p" by (rule pt_inv_reach [OF assms])
  have own: "w = Window c" if "length (ps_log p) < 2 ^ 32" "(hnd, c) \<in> set (ps_log p)" "pt_take hnd (ps_slot p) = Some (w, t, s)" for hnd c w t s
  proof -
    have e: "c < length (ps_log p)" "sc_gen hnd = of_nat (Suc c)" "0 < sc_arm_tid hnd" using pt_log_entry [OF _ that(2)] i by (auto simp: pt_inv_def)
    have m: "pt_win (ps_slot p) \<noteq> NoWindow" "sc_gen hnd = of_nat (length (ps_log p))" "sc_arm_tid hnd = pt_tid (ps_slot p)" "w = pt_win (ps_slot p)"
      using that(3) i by (auto simp: pt_take_def pt_inv_def split: if_splits)
    have "unat (of_nat (Suc c) :: u32) = unat (of_nat (length (ps_log p)) :: u32)" using e(2) m(2) by simp
    then have "Suc c = length (ps_log p)" using e(1) that(1) by (simp add: unat_of_nat del: of_nat_Suc)
    then show ?thesis using i m e(3) by (auto simp: pt_inv_def split: pt_win.splits)
  qed
  show ?thesis
    by (intro conjI impI allI)
      (use i own in \<open>auto simp: pt_inv_def lessThan_Suc split: pt_win.splits\<close>)
qed

text \<open>An opening that takes no handle does not count the generation, so that the handle of the window before it, closed already, closes it.\<close>

lemma unclaimed_window_taken_by_stale_handle:
  assumes "pt_publish c t True s = (hnd, s1)" "pt_take hnd s1 = Some (Window c, t, s2)" "pt_reserve s2 = Some s3" "pt_publish c' t False s3 = (hnd', s4)"
  shows "pt_take hnd s4 = Some (Window c', t, s4\<lparr>pt_win := NoWindow, pt_tid := 0\<rparr>)"
  using assms by (auto simp: pt_publish_def pt_take_def pt_reserve_def split: if_splits)

section \<open>Witnesses\<close>

text \<open>A thread 7 on an initialized single-step tier, with the region \<open>r\<close> registered for trace 3.\<close>

definition demo_ctx :: hw_ctx where
  "demo_ctx = \<lparr>cx_hw = \<lparr>g_inited = True, g_opts = [56, 0, 0, 0, 0, 0, 0, 0, 3, 0, 0, 0] @ replicate 44 0, g_regions = [\<lparr>rg_name = ''r'', rg_base = 0x1000, rg_len = 5, rg_trace = 3, rg_arm_tid = 0\<rparr>]\<rparr>,
     cx_ss = ss_init, cx_th = new_thread, cx_tid = 7, cx_arm_tid = - 1, cx_traces = (\<lambda>_. fresh_trace 8 8), cx_pt = \<lparr>pt_win = NoWindow, pt_gen = 0, pt_tid = 0\<rparr>, cx_heap = []\<rparr>"

text \<open>The same after a closed scope over the region that recorded two instructions.\<close>

definition demo_closed :: hw_ctx where
  "demo_closed = demo_ctx\<lparr>cx_th := new_thread\<lparr>tls_frames := (tls_frames new_thread)[0 := fill_frame 7 0x1000 5 3 False 0 0 1], tls_gen_ctr := 1\<rparr>,
     cx_traces := (\<lambda>_. trace_run (fresh_trace 8 8) [Block 0, Insn 0, Insn 2])\<rparr>"

abbreviation demo_txt :: "u64 \<Rightarrow> nat \<Rightarrow> u64 \<Rightarrow> string" where
  "demo_txt base len off \<equiv> (if off = 0 then ''nop'' else [])"

lemma demo_digits: "fmt_hex 0 = ''0''" "fmt_hex 2 = ''2''" "replicate 7 (CHR '' '') = ''       ''"
proof -
  have "digit_char 0 = CHR ''0''" "digit_char 2 = CHR ''2''" by code_simp+
  then show "fmt_hex 0 = ''0''" "fmt_hex 2 = ''2''" by (subst fmt_base.simps, simp)+
  show "replicate 7 (CHR '' '') = ''       ''" by (simp add: numeral_eq_Suc)
qed

theorem render_scope_snprintf_witness:
  "asmtest_hwtrace_render_scope (Some demo_txt) \<lparr>sc_idx = 0, sc_gen = 1, sc_arm_tid = 7\<rparr> None 0 demo_closed = (38, None) \<and>
   asmtest_hwtrace_render_scope (Some demo_txt) \<lparr>sc_idx = 0, sc_gen = 1, sc_arm_tid = 7\<rparr> (Some (replicate 12 (CHR ''x''))) 12 demo_closed =
     (38, Some (''       0:'' @ [CHR 0x09] @ ''n'' @ [nul]))"
proof -
  let ?hnd = "\<lparr>sc_idx = 0, sc_gen = 1, sc_arm_tid = 7\<rparr>" and ?b = "replicate 12 (CHR ''x'')"
  let ?r = "\<lparr>rg_name = ''r'', rg_base = 0x1000, rg_len = 5, rg_trace = 3, rg_arm_tid = 0\<rparr> :: hw_region"
  have t: "scope_text demo_txt 0x1000 5 (cx_traces demo_closed 3) =
      ''       0:'' @ [CHR 0x09] @ ''nop'' @ [CHR 0x0A] @ ''       2:'' @ [CHR 0x09] @ ''(undecodable)'' @ [CHR 0x0A]"
    by (simp add: demo_closed_def loop_eval render_text_def render_line_def pad_hex_def Let_def demo_digits)
  have "asmtest_hwtrace_render_scope (Some demo_txt) ?hnd None 0 demo_closed = (int (length (scope_text demo_txt 0x1000 5 (cx_traces demo_closed 3))), None) \<and>
    asmtest_hwtrace_render_scope (Some demo_txt) ?hnd (Some ?b) (length ?b) demo_closed =
      (int (length (scope_text demo_txt 0x1000 5 (cx_traces demo_closed 3))),
       Some (take (length ?b - 1) (scope_text demo_txt 0x1000 5 (cx_traces demo_closed 3)) @
         nul # drop (min (length ?b - 1) (length (scope_text demo_txt 0x1000 5 (cx_traces demo_closed 3))) + 1) ?b)) \<and>
    asmtest_hwtrace_render (Some demo_txt) (Some ''r'') (Some ?b) (length ?b) demo_closed = asmtest_hwtrace_render_scope (Some demo_txt) ?hnd (Some ?b) (length ?b) demo_closed"
    using render_scope_snprintf [of ?hnd demo_closed "0x1000" 5 3 ?b demo_txt None 0] unfolding t
    by (simp add: demo_closed_def demo_ctx_def scope_lookup_def asmtest_ss_frame_lookup_def new_thread_def SS_MAX_FRAMES_def fill_frame_def Let_def)
  then show ?thesis unfolding t by simp
qed

text \<open>Three traps, then another window denies the page of the fourth.\<close>

definition demo_armed :: ss_globals where
  "demo_armed = ss_init\<lparr>g_armed := True, g_installed := True, g_arm_refcount := 1\<rparr>"

definition window_events :: "(ss_globals \<times> u64) list" where
  "window_events = [(demo_armed, 0x1000), (demo_armed, 0x1000), (demo_armed, 0x1004), (demo_armed\<lparr>g_deny := [(0x2000, 0x1000)]\<rparr>, 0x2010), (demo_armed, 0x1006)]"

theorem window_records_execution_witness:
  "\<exists>hnd cx1 cx2. asmtest_hwtrace_begin_window False (0, 0) [] (\<lambda>_ _. []) 3 True demo_ctx = (ASMTEST_HW_OK, hnd, cx1) \<and>
    asmtest_hwtrace_end_window (\<lambda>_. loop_dec) (\<lambda>_ t. (0, t)) hnd 3 (cx1\<lparr>cx_th := traps_seen window_events (cx_th cx1), cx_ss := demo_armed\<rparr>) = (ASMTEST_HW_OK, cx2) \<and>
    t_insns (cx_traces cx2 3) = Some [0x1000, 0x1004] \<and> t_truncated (cx_traces cx2 3) \<and> asmtest_hwtrace_window_guard hnd cx2 = 3"
proof -
  have s: "single_step demo_ctx" by (simp add: demo_ctx_def hw_backend_def ld_def)
  have w: "takeWhile undisturbed window_events = take 3 window_events" "window_end SS_WINDOW_CAP window_events = SS_GUARD_DENY"
    by (simp_all add: window_events_def demo_armed_def ss_init_def undisturbed_def window_end_def SS_WINDOW_CAP_def)
  have "\<exists>hnd cx1 cx2. asmtest_hwtrace_begin_window False (0, 0) [] (\<lambda>_ _. []) 3 True demo_ctx = (ASMTEST_HW_OK, hnd, cx1) \<and>
    asmtest_hwtrace_end_window (\<lambda>_. loop_dec) (\<lambda>_ t. (0, t)) hnd 3 (cx1\<lparr>cx_th := traps_seen window_events (cx_th cx1), cx_ss := demo_armed\<rparr>) = (ASMTEST_HW_OK, cx2) \<and>
    cx_traces cx2 = (cx_traces demo_ctx)(3 := (if window_end SS_WINDOW_CAP window_events \<noteq> SS_GUARD_NONE then set_truncated else id)
      (trace_run (cx_traces demo_ctx 3) (map Insn (remdups_adj (take SS_WINDOW_CAP (map snd (takeWhile undisturbed window_events))))))) \<and>
    asmtest_hwtrace_window_guard hnd cx2 = guard_code (window_end SS_WINDOW_CAP window_events) \<and> tls_depth (cx_th cx2) = tls_depth (cx_th demo_ctx)"
    by (rule window_records_execution [OF _ s]) (simp_all add: demo_ctx_def ss_init_def new_thread_def SS_MAX_FRAMES_def window_events_def demo_armed_def)
  then show ?thesis unfolding w by (auto simp: demo_ctx_def window_events_def SS_WINDOW_CAP_def loop_eval)
qed

theorem pt_window_slot_safe_witness:
  "\<exists>p. pt_reach p \<and> ps_drained p = [Window 0] \<and> length (ps_log p) = 1 \<and> distinct (ps_drained p) \<and> (\<exists>t. ps_arming p \<subseteq> {t})"
proof -
  define p1 where "p1 = pt_boot\<lparr>ps_slot := \<lparr>pt_win = Reserved, pt_gen = 0, pt_tid = 0\<rparr>, ps_arming := {7}\<rparr>"
  define hnd where "hnd = \<lparr>sc_idx = PT_SENTINEL, sc_gen = 1, sc_arm_tid = 7\<rparr>"
  define p2 where "p2 = p1\<lparr>ps_slot := \<lparr>pt_win = Window 0, pt_gen = 1, pt_tid = 7\<rparr>, ps_arming := {}, ps_log := [(hnd, 0)]\<rparr>"
  define p3 where "p3 = p2\<lparr>ps_slot := \<lparr>pt_win = NoWindow, pt_gen = 1, pt_tid = 0\<rparr>, ps_drained := [Window 0]\<rparr>"
  have "pt_step pt_boot p1" using pt_step.reserve [of 7 pt_boot] by (simp add: p1_def pt_boot_def pt_reserve_def)
  moreover have "pt_step p1 p2" using pt_step.publish [of 7 p1] by (simp add: p1_def p2_def pt_boot_def pt_publish_def hnd_def)
  moreover have "pt_step p2 p3" using pt_step.take_slot [of hnd p2] by (simp add: p1_def p2_def p3_def pt_boot_def pt_take_def hnd_def)
  ultimately have r: "pt_reach p3" by (blast intro: pt_reach.intros)
  have "ps_drained p3 = [Window 0]" "length (ps_log p3) = 1" by (simp_all add: p3_def p2_def)
  then show ?thesis using r pt_window_slot_safe [OF r] by blast
qed

end
