(* ===== verification/Hw_Stitch.thy ===== *)
theory Hw_Stitch
  imports Hw_Front
begin

text \<open>
  The merge of the slices of one logical operation, \<^verbatim>\<open>asmtest_hwtrace_stitch\<close> and \<^verbatim>\<open>asmtest_hwtrace_stitch_handles\<close> of \<^verbatim>\<open>src/src/hwtrace.c\<close>: the slices, already decoded, are put in the order
  of their sequence numbers by a selection sort of their indices and appended to one trace, with a note of where each begins.
\<close>

section \<open>The model\<close>

record slice =
  sl_scope_id :: u64
  sl_seq :: u32
  sl_tid :: int
  sl_version :: u64
  sl_trace :: asmtest_trace

record slice_bound =
  sb_insn_off :: nat
  sb_scope_id :: u64
  sb_seq :: u32
  sb_tid :: int
  sb_version :: u64

definition STITCH_MAX_SLICES :: nat where "STITCH_MAX_SLICES = 4096"

text \<open>One round of the selection sort: the position of the first least key from \<open>i\<close> on, and the exchange.\<close>

definition least_from :: "('a \<Rightarrow> 'k :: linorder) \<Rightarrow> 'a list \<Rightarrow> nat \<Rightarrow> nat" where
  "least_from key ord i = foldl (\<lambda>m j. if key (ord ! j) < key (ord ! m) then j else m) i [i + 1..<length ord]"

definition select_step :: "('a \<Rightarrow> 'k :: linorder) \<Rightarrow> 'a list \<Rightarrow> nat \<Rightarrow> 'a list" where
  "select_step key ord i = (let m = least_from key ord i in if m \<noteq> i then ord[i := ord ! m, m := ord ! i] else ord)"

definition select_sort :: "('a \<Rightarrow> 'k :: linorder) \<Rightarrow> 'a list \<Rightarrow> 'a list" where
  "select_sort key ord = foldl (select_step key) ord [0..<length ord - 1]"

definition bound_at :: "asmtest_trace \<Rightarrow> slice \<Rightarrow> slice_bound" where
  "bound_at out s = \<lparr>sb_insn_off = t_insns_len out, sb_scope_id = sl_scope_id s, sb_seq = sl_seq s, sb_tid = sl_tid s, sb_version = sl_version s\<rparr>"

definition append_slice :: "asmtest_trace \<Rightarrow> slice \<Rightarrow> asmtest_trace" where
  "append_slice out s =
     (let t = sl_trace s; out1 = foldl append_insn out (buf_of (t_insns t)); out2 = foldl append_block out1 (buf_of (t_blocks t))
      in if t_truncated t then set_truncated out2 else out2)"

fun merge_slices :: "slice list \<Rightarrow> asmtest_trace \<Rightarrow> slice_bound list \<Rightarrow> asmtest_trace \<times> slice_bound list" where
  "merge_slices [] out bounds = (out, bounds)"
| "merge_slices (s # ss) out bounds = merge_slices ss (append_slice out s) (bounds @ [bound_at out s])"

text \<open>The status, the trace and the bounds; \<open>None\<close> for a \<^verbatim>\<open>NULL\<close> array.\<close>

definition asmtest_hwtrace_stitch :: "slice list option \<Rightarrow> heap \<Rightarrow> asmtest_trace option \<Rightarrow> int \<times> asmtest_trace option \<times> slice_bound list \<times> heap" where
  "asmtest_hwtrace_stitch slices h out =
     (case (slices, out) of
        (Some ss, Some o1) \<Rightarrow>
          if length ss > STITCH_MAX_SLICES then (ASMTEST_HW_EINVAL, out, [], h)
          else if ss = [] then (ASMTEST_HW_OK, out, [], h)
          else (case alloc h of
            (False, h1) \<Rightarrow> (ASMTEST_HW_EUNAVAIL, out, [], h1)
          | (True, h1) \<Rightarrow>
              (case merge_slices (map (\<lambda>i. ss ! i) (select_sort (\<lambda>i. sl_seq (ss ! i)) [0..<length ss])) o1 [] of
                 (o2, bounds) \<Rightarrow> (ASMTEST_HW_OK, Some o2, bounds, h1)))
      | _ \<Rightarrow> (ASMTEST_HW_EINVAL, out, [], h))"

text \<open>The parallel arrays may each be missing; a sequence number is then the index, the other numbers 0.\<close>

definition handle_slice :: "u64 list option \<Rightarrow> u32 list option \<Rightarrow> int list option \<Rightarrow> u64 list option \<Rightarrow> nat \<Rightarrow> asmtest_trace \<Rightarrow> slice" where
  "handle_slice scope_ids seqs tids versions i t =
     \<lparr>sl_scope_id = (case scope_ids of None \<Rightarrow> 0 | Some xs \<Rightarrow> xs ! i), sl_seq = (case seqs of None \<Rightarrow> of_nat i | Some xs \<Rightarrow> xs ! i),
      sl_tid = (case tids of None \<Rightarrow> 0 | Some xs \<Rightarrow> xs ! i), sl_version = (case versions of None \<Rightarrow> 0 | Some xs \<Rightarrow> xs ! i), sl_trace = t\<rparr>"

definition asmtest_hwtrace_stitch_handles :: "asmtest_trace option list option \<Rightarrow> u64 list option \<Rightarrow> u32 list option \<Rightarrow> int list option \<Rightarrow> u64 list option \<Rightarrow>
    heap \<Rightarrow> asmtest_trace option \<Rightarrow> int \<times> asmtest_trace option \<times> slice_bound list \<times> heap" where
  "asmtest_hwtrace_stitch_handles traces scope_ids seqs tids versions h out =
     (case traces of
        None \<Rightarrow> (ASMTEST_HW_EINVAL, out, [], h)
      | Some ts \<Rightarrow>
          if out = None then (ASMTEST_HW_EINVAL, out, [], h)
          else if ts = [] then (ASMTEST_HW_OK, out, [], h)
          else case alloc h of
            (False, h1) \<Rightarrow> (ASMTEST_HW_EUNAVAIL, out, [], h1)
          | (True, h1) \<Rightarrow>
              if None \<in> set ts then (ASMTEST_HW_EINVAL, out, [], h1)
              else asmtest_hwtrace_stitch (Some (map (\<lambda>i. handle_slice scope_ids seqs tids versions i (the (ts ! i))) [0..<length ts])) h1 out)"

section \<open>The selection sort\<close>

lemma least_from_spec:
  fixes key :: "'a \<Rightarrow> 'k :: linorder"
  assumes "i < length ord"
  defines "m \<equiv> least_from key ord i"
  shows "i \<le> m" "m < length ord" "\<forall>j\<in>{i..<length ord}. key (ord ! m) \<le> key (ord ! j)"
proof -
  have "i \<le> M \<and> M < n \<and> (\<forall>j\<in>{i..<n}. key (ord ! M) \<le> key (ord ! j))"
    if "i < n" "M = foldl (\<lambda>m j. if key (ord ! j) < key (ord ! m) then j else m) i [i + 1..<n]" for n M
    using that
  proof (induction n arbitrary: M)
    case (Suc n)
    show ?case
    proof (cases "i = n")
      case False
      define M0 where "M0 = foldl (\<lambda>m j. if key (ord ! j) < key (ord ! m) then j else m) i [i + 1..<n]"
      have ih: "i \<le> M0" "M0 < n" "\<forall>j\<in>{i..<n}. key (ord ! M0) \<le> key (ord ! j)" using Suc.IH [OF _ M0_def] Suc.prems(1) False by auto
      have "[i + 1..<Suc n] = [i + 1..<n] @ [n]" using Suc.prems(1) False by simp
      then have M: "M = (if key (ord ! n) < key (ord ! M0) then n else M0)" unfolding Suc.prems(2) M0_def by simp
      have "key (ord ! M) \<le> key (ord ! j)" if "j \<in> {i..<Suc n}" for j
      proof (cases "j = n")
        case False
        then have "key (ord ! M0) \<le> key (ord ! j)" using ih(3) that by auto
        then show ?thesis using M by auto
      qed (use M in auto)
      then show ?thesis using M ih(1,2) Suc.prems(1) by auto
    qed (use Suc.prems in simp)
  qed simp
  from this [OF assms(1) refl] show "i \<le> m" "m < length ord" "\<forall>j\<in>{i..<length ord}. key (ord ! m) \<le> key (ord ! j)"
    unfolding m_def least_from_def by auto
qed

lemma select_step_spec:
  fixes key :: "'a \<Rightarrow> 'k :: linorder"
  assumes "i < length ord"
  defines "ord1 \<equiv> select_step key ord i"
  shows "mset ord1 = mset ord" "length ord1 = length ord" "take i ord1 = take i ord"
    "\<forall>x\<in>set (drop (Suc i) ord1). key (ord1 ! i) \<le> key x"
proof -
  let ?m = "least_from key ord i"
  note m = least_from_spec [OF assms(1), where key = key]
  have e: "ord1 = ord[i := ord ! ?m, ?m := ord ! i]" unfolding ord1_def select_step_def Let_def by simp
  show "mset ord1 = mset ord" unfolding e using m(2) assms(1) by (metis mset_swap)
  show l: "length ord1 = length ord" by (simp add: e)
  show "take i ord1 = take i ord" unfolding e using m(1) by simp
  have at: "ord1 ! i = ord ! ?m" using m(1,2) assms(1) by (cases "?m = i") (simp_all add: e)
  show "\<forall>x\<in>set (drop (Suc i) ord1). key (ord1 ! i) \<le> key x"
  proof
    fix x assume "x \<in> set (drop (Suc i) ord1)"
    then obtain k where k: "k < length ord - Suc i" "x = ord1 ! (Suc i + k)" using l by (auto simp: in_set_conv_nth)
    then have "x \<in> (!) ord ` {i..<length ord}"
      using m assms(1) by (cases "Suc i + k = ?m") (auto simp: e nth_list_update)
    then show "key (ord1 ! i) \<le> key x" using m(3) at by auto
  qed
qed

lemma select_sort_sorts:
  shows "mset (select_sort key ord) = mset ord" "sorted (map key (select_sort key ord))"
proof -
  let ?run = "\<lambda>n. foldl (select_step key) ord [0..<n]"
  have inv: "mset (?run n) = mset ord \<and> length (?run n) = length ord \<and> sorted (map key (take n (?run n))) \<and>
      (\<forall>x\<in>set (take n (?run n)). \<forall>y\<in>set (drop n (?run n)). key x \<le> key y)" if "n < length ord" for n
    using that
  proof (induction n)
    case (Suc n)
    define q where "q = ?run n"
    have n: "n < length q" and ih: "mset q = mset ord" "length q = length ord" "sorted (map key (take n q))" "\<forall>x\<in>set (take n q). \<forall>y\<in>set (drop n q). key x \<le> key y"
      using Suc unfolding q_def by auto
    define r where "r = select_step key q n"
    note s = select_step_spec [OF n, where key = key, folded r_def]
    have run: "?run (Suc n) = r" by (simp add: r_def q_def)
    have tk: "take (Suc n) r = take n q @ [r ! n]" using s(2,3) n by (simp add: take_Suc_conv_app_nth)
    have "mset (drop n r) = mset (drop n q)" using s(1,3) by (metis add_left_imp_eq append_take_drop_id mset_append)
    then have d: "set (drop n r) = set (drop n q)" by (metis set_mset_mset)
    have rn: "r ! n \<in> set (drop n q)" "set (drop (Suc n) r) \<subseteq> set (drop n q)"
      using n s(2) unfolding d [symmetric] by (auto simp flip: Cons_nth_drop_Suc)
    have "sorted (map key (take (Suc n) r))" unfolding tk using ih(3,4) rn(1) by (auto simp: sorted_append)
    moreover have "\<forall>x\<in>set (take (Suc n) r). \<forall>y\<in>set (drop (Suc n) r). key x \<le> key y" unfolding tk using ih(4) rn(2) s(4) by auto
    ultimately show ?case unfolding run using s(1,2) ih by simp
  qed simp
  show "mset (select_sort key ord) = mset ord" unfolding select_sort_def using inv [of "length ord - 1"] by (cases "ord = []") simp_all
  show "sorted (map key (select_sort key ord))"
  proof (cases "ord = []")
    case False
    define r where "r = ?run (length ord - 1)"
    have i: "length r = length ord" "sorted (map key (take (length ord - 1) r))" "\<forall>x\<in>set (take (length ord - 1) r). \<forall>y\<in>set (drop (length ord - 1) r). key x \<le> key y"
      using inv [of "length ord - 1"] False unfolding r_def by auto
    have "drop (length ord - 1) r = [r ! (length ord - 1)]" using Cons_nth_drop_Suc [of "length ord - 1" r] i(1) False by simp
    then have "sorted (map key (take (length ord - 1) r @ drop (length ord - 1) r))" using i(2,3) unfolding map_append sorted_append by auto
    then show ?thesis unfolding select_sort_def r_def by simp
  qed (simp add: select_sort_def)
qed

section \<open>The merge\<close>

lemma merge_slices_eq:
  "merge_slices ss out bs = (foldl append_slice out ss, bs @ map (\<lambda>k. bound_at (foldl append_slice out (take k ss)) (ss ! k)) [0..<length ss])"
proof (induction ss arbitrary: out bs)
  case (Cons s ss)
  have "map (\<lambda>k. bound_at (foldl append_slice out (take k (s # ss))) ((s # ss) ! k)) [0..<length (s # ss)] =
      bound_at out s # map (\<lambda>k. bound_at (foldl append_slice (append_slice out s) (take k ss)) (ss ! k)) [0..<length ss]"
    by (simp add: upt_conv_Cons map_Suc_upt [symmetric] del: upt_Suc)
  then show ?case using Cons.IH by simp
qed simp

lemma stitch_order:
  assumes "distinct (map sl_seq ss)"
  shows "map (\<lambda>i. ss ! i) (select_sort (\<lambda>i. sl_seq (ss ! i)) [0..<length ss]) = sort_key sl_seq ss"
proof -
  let ?ys = "map (\<lambda>i. ss ! i) (select_sort (\<lambda>i. sl_seq (ss ! i)) [0..<length ss])"
  have "mset ?ys = image_mset ((!) ss) (mset [0..<length ss])" by (simp add: select_sort_sorts(1))
  also have "\<dots> = mset ss" by (metis map_nth mset_map)
  finally have "mset ss = mset ?ys" by (rule sym)
  moreover have "sorted (map sl_seq ?ys)" using select_sort_sorts(2) [of "\<lambda>i. sl_seq (ss ! i)" "[0..<length ss]"] by (simp add: comp_def)
  ultimately show ?thesis using assms by (metis distinct_map sort_key_inj_key_eq)
qed

abbreviation slice_insns :: "slice \<Rightarrow> u64 list" where
  "slice_insns s \<equiv> buf_of (t_insns (sl_trace s))"

lemma append_insns_room:
  "t_insns t = Some xs \<Longrightarrow> length xs + length as \<le> t_insns_cap t \<Longrightarrow>
   t_insns (foldl append_insn t as) = Some (xs @ as) \<and> t_insns_cap (foldl append_insn t as) = t_insns_cap t \<and> t_truncated (foldl append_insn t as) = t_truncated t"
proof (induction as arbitrary: t xs)
  case (Cons a as)
  have "t_insns (append_insn t a) = Some (xs @ [a])" "t_insns_cap (append_insn t a) = t_insns_cap t" "t_truncated (append_insn t a) = t_truncated t"
    using Cons.prems by (simp_all add: append_insn_def)
  then show ?case using Cons.IH [of "append_insn t a" "xs @ [a]"] Cons.prems(2) by simp
qed simp

lemma append_blocks_insns:
  "t_insns (foldl append_block t bs) = t_insns t \<and> t_insns_cap (foldl append_block t bs) = t_insns_cap t \<and> (t_truncated t \<longrightarrow> t_truncated (foldl append_block t bs))"
proof (induction bs arbitrary: t)
  case (Cons b bs)
  have "t_insns (append_block t b) = t_insns t" "t_insns_cap (append_block t b) = t_insns_cap t" "t_truncated t \<Longrightarrow> t_truncated (append_block t b)"
    by (auto simp: append_block_def Let_def split: option.splits)
  then show ?case using Cons.IH [of "append_block t b"] by simp
qed simp

lemma append_slice_insns:
  assumes "t_insns out = Some xs" "length xs + length (slice_insns s) \<le> t_insns_cap out"
  shows "t_insns (append_slice out s) = Some (xs @ slice_insns s)" "t_insns_cap (append_slice out s) = t_insns_cap out"
    "t_truncated out \<or> t_truncated (sl_trace s) \<Longrightarrow> t_truncated (append_slice out s)"
  using append_insns_room [OF assms] append_blocks_insns [of "foldl append_insn out (slice_insns s)" "buf_of (t_blocks (sl_trace s))"]
  by (auto simp: append_slice_def Let_def)

lemma append_slices_insns:
  "t_insns out = Some xs \<Longrightarrow> length xs + length (concat (map slice_insns ss)) \<le> t_insns_cap out \<Longrightarrow>
   t_insns (foldl append_slice out ss) = Some (xs @ concat (map slice_insns ss)) \<and>
   (t_truncated out \<or> (\<exists>s\<in>set ss. t_truncated (sl_trace s)) \<longrightarrow> t_truncated (foldl append_slice out ss))"
proof (induction ss arbitrary: out xs)
  case (Cons s ss)
  have r: "length xs + length (slice_insns s) \<le> t_insns_cap out" using Cons.prems(2) by simp
  note a = append_slice_insns [OF Cons.prems(1) r]
  show ?case using Cons.IH [OF a(1)] Cons.prems(2) a(2,3) by auto
qed simp

text \<open>
  C29: Stitching puts the slices in the order of their sequence numbers. Take at most 4096 slices with distinct sequence numbers, in any order, and a trace with room for all their instructions. The merged trace holds, after what it
  held before, the instructions of every slice in the order of the sequence numbers and none else; it is marked truncated if some slice was; and the \<open>k\<close>-th bound carries the \<open>k\<close>-th sequence number and the place where that slice begins.
\<close>

theorem stitch_in_order:
  assumes "ss \<noteq> []" "length ss \<le> STITCH_MAX_SLICES" "alloc h = (True, h1)" "distinct (map sl_seq ss)"
    and "t_insns out = Some xs" "length xs + length (concat (map slice_insns ss)) \<le> t_insns_cap out"
  shows "\<exists>o2 bounds. asmtest_hwtrace_stitch (Some ss) h (Some out) = (ASMTEST_HW_OK, Some o2, bounds, h1) \<and>
    t_insns o2 = Some (xs @ concat (map slice_insns (sort_key sl_seq ss))) \<and> ((\<exists>s\<in>set ss. t_truncated (sl_trace s)) \<longrightarrow> t_truncated o2) \<and>
    map sb_seq bounds = sort (map sl_seq ss) \<and>
    map sb_insn_off bounds = map (\<lambda>k. length xs + length (concat (map slice_insns (take k (sort_key sl_seq ss))))) [0..<length ss]"
proof -
  let ?ss = "sort_key sl_seq ss"
  define bounds where "bounds = map (\<lambda>k. bound_at (foldl append_slice out (take k ?ss)) (?ss ! k)) [0..<length ?ss]"
  have e: "asmtest_hwtrace_stitch (Some ss) h (Some out) = (ASMTEST_HW_OK, Some (foldl append_slice out ?ss), bounds, h1)"
    using assms(1-4) by (simp add: asmtest_hwtrace_stitch_def stitch_order merge_slices_eq bounds_def)
  have "mset (map (length \<circ> slice_insns) ?ss) = mset (map (length \<circ> slice_insns) ss)" by simp
  then have len: "length (concat (map slice_insns ?ss)) = length (concat (map slice_insns ss))"
    unfolding length_concat map_map by (metis sum_mset_sum_list)
  have room: "length xs + length (concat (map slice_insns (take k ?ss))) \<le> t_insns_cap out" for k
  proof -
    have "length (concat (map slice_insns (take k ?ss))) \<le> length (concat (map slice_insns (take k ?ss @ drop k ?ss)))" unfolding map_append concat_append by simp
    then show ?thesis using assms(6) len by simp
  qed
  have r: "t_insns (foldl append_slice out (take k ?ss)) = Some (xs @ concat (map slice_insns (take k ?ss)))" for k
    using append_slices_insns [OF assms(5) room] by blast
  have "map sb_seq bounds = map sl_seq ?ss" unfolding bounds_def by (rule nth_equalityI) (simp_all add: bound_at_def)
  then have "map sb_seq bounds = sort (map sl_seq ss)"
    by (metis mset_map mset_sort properties_for_sort sorted_sort_key)
  moreover have "map sb_insn_off bounds = map (\<lambda>k. length xs + length (concat (map slice_insns (take k ?ss)))) [0..<length ss]"
    unfolding bounds_def by (simp add: bound_at_def r comp_def)
  moreover have "t_insns (foldl append_slice out ?ss) = Some (xs @ concat (map slice_insns ?ss))" "(\<exists>s\<in>set ss. t_truncated (sl_trace s)) \<longrightarrow> t_truncated (foldl append_slice out ?ss)"
    using append_slices_insns [OF assms(5), of ?ss] assms(6) len by auto
  ultimately show ?thesis using e by blast
qed

text \<open>Slices with equal sequence numbers are not kept in their order: the exchange carries the first one behind the second.\<close>

lemma stitch_not_stable: "select_sort (\<lambda>i. [2, 2, 1 :: u32] ! i) [0, 1, 2] = [2, 1, 0]"
  by (simp add: select_sort_def select_step_def least_from_def upt_rec)

text \<open>With no sequence numbers the traces are merged in the order they are given.\<close>

lemma handles_default_order:
  fixes scope_ids versions :: "u64 list option" and tids :: "int list option"
  assumes "length ts \<le> STITCH_MAX_SLICES"
  defines "ss \<equiv> map (\<lambda>i. handle_slice scope_ids None tids versions i (the (ts ! i))) [0..<length ts]"
  shows "sort_key sl_seq ss = ss" "distinct (map sl_seq ss)"
proof -
  have m: "map sl_seq ss = map of_nat [0..<length ts]" by (simp add: ss_def handle_slice_def comp_def)
  have "sorted_wrt (<) (map (of_nat :: nat \<Rightarrow> u32) [0..<length ts])"
    using assms(1) by (simp add: STITCH_MAX_SLICES_def sorted_wrt_iff_nth_less word_less_nat_alt unat_of_nat)
  then have "sorted (map sl_seq ss)" "distinct (map sl_seq ss)" unfolding m by (simp_all add: strict_sorted_iff)
  then show "sort_key sl_seq ss = ss" "distinct (map sl_seq ss)" by (simp_all add: sort_key_id_if_sorted)
qed

theorem stitch_in_order_witness:
  "\<exists>o2 bounds. asmtest_hwtrace_stitch (Some [\<lparr>sl_scope_id = 1, sl_seq = 5, sl_tid = 7, sl_version = 0, sl_trace = append_insn (fresh_trace 4 4) 0x20\<rparr>,
      \<lparr>sl_scope_id = 1, sl_seq = 2, sl_tid = 8, sl_version = 0, sl_trace = append_insn (append_insn (fresh_trace 4 4) 0x10) 0x14\<rparr>]) [] (Some (fresh_trace 8 8)) =
      (ASMTEST_HW_OK, Some o2, bounds, []) \<and> t_insns o2 = Some [0x10, 0x14, 0x20] \<and> map sb_seq bounds = [2, 5] \<and> map sb_insn_off bounds = [0, 2]"
proof -
  let ?ss = "[\<lparr>sl_scope_id = 1, sl_seq = 5, sl_tid = 7, sl_version = 0, sl_trace = append_insn (fresh_trace 4 4) 0x20\<rparr>,
      \<lparr>sl_scope_id = 1, sl_seq = 2, sl_tid = 8, sl_version = 0, sl_trace = append_insn (append_insn (fresh_trace 4 4) 0x10) 0x14\<rparr>]"
  have "\<exists>o2 bounds. asmtest_hwtrace_stitch (Some ?ss) [] (Some (fresh_trace 8 8)) = (ASMTEST_HW_OK, Some o2, bounds, []) \<and>
    t_insns o2 = Some ([] @ concat (map slice_insns (sort_key sl_seq ?ss))) \<and> ((\<exists>s\<in>set ?ss. t_truncated (sl_trace s)) \<longrightarrow> t_truncated o2) \<and>
    map sb_seq bounds = sort (map sl_seq ?ss) \<and>
    map sb_insn_off bounds = map (\<lambda>k. length ([] :: u64 list) + length (concat (map slice_insns (take k (sort_key sl_seq ?ss))))) [0..<length ?ss]"
    by (rule stitch_in_order) (simp_all add: STITCH_MAX_SLICES_def loop_eval)
  then show ?thesis by (simp add: loop_eval upt_rec, simp add: numeral_2_eq_2)
qed

end
