(* ===== verification/Spec2Isabelle.thy ===== *)
theory Spec2Isabelle
  imports Elf_Syms Trace Srcmap Valtrace Slice Objid Helpers Glob Addr_Channel Descent Codeimage Amd_Lbr Callgraph Autoregion Report Asserts Fuzz Cascade Ibs_Lanes Hw_Scope Hw_Stitch
begin

text \<open>
  A verification library for the core of asm-test, a framework that runs assembly routines, records what they
  executed and which values they moved, and answers questions about the recording. The C sources are under
  \<^verbatim>\<open>src/src\<close>, their public records under \<^verbatim>\<open>src/include\<close>. The model is a shallow embedding: C records are
  records, enumerations datatypes, functions definitions of the same name; machine integers are words of their width, or natural numbers with
  the wrap-around written out (\<open>sz_add\<close>, \<open>sz_mul\<close>, \<open>to_int32\<close>). Every \<^verbatim>\<open>malloc\<close>, \<^verbatim>\<open>calloc\<close> and \<^verbatim>\<open>realloc\<close> draws its outcome
  from an allocation script, so the out-of-memory paths are modelled and the script \<open>[]\<close> is the run in which none fails.
  A function whose loop may not end returns an option, and the properties about it prove that it returns.

  \<^bold>\<open>How the parts interact.\<close> A back end runs a routine and feeds two sinks: the execution trace (instruction and block
  offsets) and the value trace (one record per operand read or written). The hardware back ends do not see instructions but
  branches, and reconstruct the instruction stream from branch records and the code bytes, which the code-image recorder
  keeps by version. Over the value trace work the analyses: the def-use builder links each read to the writes it sees, slices
  are reachability over those links, and three passes prepare a managed runtime's trace for it: garbage-collector moves
  and object identities rename addresses, helper summaries replace the inside of runtime helpers by their effect. Reports and
  source maps attribute the result to lines and methods.

  \<^bold>\<open>Shared layer.\<close> \<open>Prelude\<close>: integer types, allocation, loops over lists, printed numbers, the contract of \<^verbatim>\<open>qsort\<close>.
  \<open>Sink\<close>: the append and truncate contract of every trace buffer (locales \<open>bounded_sink\<close>, \<open>dedup_sink\<close>), interpreted by
  \<open>Trace\<close> and \<open>Valtrace\<close>. \<open>Grow\<close>: \<^verbatim>\<open>asmtest_grow.h\<close>, the two growth policies and their overflow guards. \<open>Open_Addressing\<close>: the
  linear-probing tables of the program (locale \<open>open_addressing\<close>, what a lookup returns after a store, and that
  a table below its load limit always has a free slot, so a probe ends) and the map with an allocation budget
  (\<open>budget_map\<close>), interpreted by \<open>Lastwriter\<close>, \<open>Helpers\<close> and \<open>Callgraph\<close>. \<open>Agg_Table\<close>: a table that grows and adds each entry into
  the slot of its key (locale \<open>agg_table\<close>): after a stream of entries it holds the total of each key. \<open>Perf_Ring\<close>: the ring the kernel shares with a sampling event, its
  copy and the walk over its records; \<open>kernel_put\<close> is what the kernel is documented to do, and the walk then gives back the records it wrote.

  \<^bold>\<open>Recording.\<close> \<open>Trace\<close>: \<^verbatim>\<open>trace.c\<close>, the sink, its accessors and reports; a whole run stores the first entries and distinct
  blocks and flags exactly the runs that lost one. \<open>Srcmap\<close>: \<^verbatim>\<open>trace.c\<close>, line tables, source reports and the version-keyed source registry.
  \<open>Valtrace\<close>: \<^verbatim>\<open>dataflow.c\<close>, the value trace. \<open>Descent\<close>: \<^verbatim>\<open>descent.c\<close>, the pools of call frames and edges. \<open>Addr_Channel\<close>:
  \<^verbatim>\<open>asmtest_addr_channel.h\<close>, the shared-memory ring between a JIT and the tracer, as atomic operations and interleaved access by access.
  \<open>Codeimage\<close>: \<^verbatim>\<open>codeimage.c\<close>, the recorder of code versions; the kernel is a parameter with the documented soft-dirty
  behaviour (\<open>soft_dirty_os\<close>), and what the target does between the scan and the clearing of the soft-dirty bits is an argument; with memory available, after every successful refresh the newest bytes are the bytes the target held at the scan.

  \<^bold>\<open>Reconstruction.\<close> \<open>Bs_Recon\<close>: \<^verbatim>\<open>bs_recon.c\<close>, the scan for the branch that ended a straight-line run. \<open>Amd_Lbr\<close>: \<^verbatim>\<open>amd_backend.c\<close>
  and the stop pairing of \<^verbatim>\<open>ss_btf.c\<close>. The disassembler is a parameter (\<open>decoder\<close>) of which only this is assumed: an instruction ends inside the region it
  was decoded from. An execution is a chain of steps (\<open>exec_ok\<close>), the hardware's record its taken branches; the theorems say that replay,
  stitching and pairing give back the execution, or flag that they do not.

  \<^bold>\<open>Sampling.\<close> \<open>Ibs\<close> and \<open>Ibs_Lanes\<close>: \<^verbatim>\<open>ibs_backend.c\<close>. The decoders of a tagged operation and of a tagged fetch, the two aggregating tables, the drains of the
  operation, fetch and software-clock lanes, the survey of a thread, the block set made of its edges, the sampling period and its jitter. What the kernel writes between two drains is
  an argument; a survey of which no allocation failed lists exactly the sampled branches with their counts, and counts the samples it was told are lost.

  \<^bold>\<open>Single-stepping.\<close> \<open>Single_Step\<close>: \<^verbatim>\<open>ss_backend.c\<close>, the stack of capture frames of each thread, the trap handler with its ring, budget, deny table and watchdog, opening and closing under the
  process-wide reference count, the normalization into a trace, and the handles. A scoped call writes the trace that the branch-record replay of the same execution writes; over any
  interleaving of threads the arming stays balanced and a handle resolves only to the frame it was issued for as long as its thread lives.

  \<^bold>\<open>The hardware tier.\<close> \<^verbatim>\<open>hwtrace.c\<close> puts these back ends behind one interface. \<open>Amd_Ring\<close>: a capture from the ring of branch stacks, exact for a routine that does not call out. \<open>Hw_Survey\<close>: the
  sampled survey of a whole window and the histogram of its addresses. \<open>Hw_Front\<close>: the choice of a backend, options, the registry of regions, ring sizes, the AUX ring, exits of a region, the filter of a
  decoded trace. \<open>Hw_Scope\<close>: regions by name, scopes by handle, the region-free window with its guards, the slot of the one PT window (a step relation over the critical sections), and the
  renderings, which print like \<^verbatim>\<open>snprintf\<close>; it is the composition of \<open>Single_Step\<close>, \<open>Hw_Front\<close> and \<open>Codeimage\<close>. \<open>Hw_Stitch\<close>: the merge of the slices of one operation in the order of their sequence numbers.

  \<^bold>\<open>Analysis.\<close> \<open>Lastwriter\<close>, \<open>Defuse\<close> and \<open>Slice\<close>: \<^verbatim>\<open>dataflow.c\<close>; on a trace whose memory records use one kind of address the builder's edges are exactly the last-writer relation on bytes of
  registers and memory, slices are reachability. \<open>Gcmove\<close>, \<open>Objid\<close>, \<open>Method\<close>, \<open>Helpers\<close>: \<^verbatim>\<open>dataflow_gcmove.c\<close>,
  \<^verbatim>\<open>dataflow_objid.c\<close>, \<^verbatim>\<open>dataflow_method.c\<close>, \<^verbatim>\<open>dataflow_helpers.c\<close>. \<open>Glob\<close>: \<^verbatim>\<open>glob_match.c\<close>, the name matcher, against a
  declarative meaning of patterns.

  \<^bold>\<open>Views.\<close> Of the command-line tool, the two views that keep a model of the target: \<open>Callgraph\<close>, \<^verbatim>\<open>cli/asmspy_ghash.h\<close> and the call-graph builder of
  \<^verbatim>\<open>cli/asmspy_engine.c\<close>, whose nodes, edges and counts are those of the calls recorded; and \<open>Treeview\<close>, \<^verbatim>\<open>cli/asmspy_treefilter.h\<close> and the stop
  handling of \<^verbatim>\<open>asmspy_engine_tree\<close>, which refines a specification that reads the focus off the live stack at every stop. And \<open>Autoregion\<close>,
  \<^verbatim>\<open>cli/asmspy_autoregion.h\<close> with the loops of \<^verbatim>\<open>cmd_dataflow\<close> in \<^verbatim>\<open>cli/asmspy.c\<close>: the ranking of regions by sampled entries or residency, which is exact whatever the order of the sample, and the searches over
  samplers, windows and candidates, which end.

  \<open>Elf_File\<close> and \<open>Elf_Syms\<close>: the symbol reader of \<^verbatim>\<open>cli/asmspy_proc.c\<close>, over files of the inspected process. Reads outside the mapped bytes are \<open>None\<close>: whatever the files hold there is none, except through one check of the
  program headers that wraps round; a debug file is used only when its build-id or its checksum matches, and the checksum is the bit-serial CRC-32.

  \<^bold>\<open>Running tests.\<close> \<^verbatim>\<open>asmtest.c\<close> runs the registered tests, each in a forked child that reports over a pipe. \<open>Runner\<close>: one test with its setup and
  teardown hooks (a body is a function of the runner's globals that returns, jumps or dies: one that never ends is not modelled), the child and its reaping, the pool of parallel children, the selection by
  filter, shard, repetition and shuffle, and the exit status. The answers of \<^verbatim>\<open>fork\<close> and \<^verbatim>\<open>pipe\<close> are an allocation script, those of \<^verbatim>\<open>poll\<close> a list: whatever they are, the
  pool finishes every test, its results are those of the serial run, and with processes to fork the program fails exactly when a test of the filter and shard failed. \<open>Report\<close>: the TAP lines, the JUnit document and both
  escapers, with readers of JSON and XML strings as their specification. \<open>Difftest\<close>: the random numbers (a draw is a bijection of the state, so no draw of a
  period repeats), the distance of doubles on their bit patterns, the comparison with a reference and the shrinking of a counterexample. \<open>Asserts\<close>: register, flag and
  memory checks, guard-page buffers, benchmark calibration. \<open>Fuzz\<close>: \<^verbatim>\<open>fuzz.c\<close>, with a run of the emulator as an argument. \<open>Cascade\<close>: \<^verbatim>\<open>trace_auto.c\<close>, the choice of a tier and
  the call that escalates from tier to tier, with the tiers' answers as arguments.

  \<^bold>\<open>Bounds and fuel.\<close> Where the code bounds a loop the model counts the same rounds down: \<open>len + 1\<close> rounds of the terminator scan, of the walk to
  a branch source, of the splice check and of the tail scan; the theorems show the bound is not met on real executions. The doubling
  loops of the growth helpers and of the last-writer table have at most 65 rounds, since the 65th doubling of a positive \<^verbatim>\<open>size_t\<close> wraps to 0.
  The entry fill and the commit loops have as many rounds as bytes, one byte at least per round. Properties of the tables assume room (fewer than
  \<open>2 ^ 50\<close> entries, \<open>2 ^ 44\<close> records, \<open>2 ^ 32\<close> steps), below which no size computation wraps. The pool has a round for every answer of
  \<^verbatim>\<open>poll\<close> in the script, every test and one more: a round that does not consume an answer finishes a test.

  \<^bold>\<open>Not modelled.\<close> The back ends that drive the kernel or hardware (ptrace, Intel PT, CoreSight, MSRs, Mach, the Windows stepper) and the emulator
  front end (Unicorn), whose logic is the sequence of their system or library calls; the disassembler and assembler wrappers (Capstone, Keystone);
  the DynamoRIO clients; the rest of the command-line tool (terminal interface, ptrace sessions, process probing); the desktop
  application, the bindings, the eBPF programs and the tools. Within modelled files: freeing, debug output, and the availability probes that only read
  files or issue system calls; of the runner, the parsing of the command line, wall-clock times, the redirection of captured output, the Win64 branches, the vector
  assertions, the floating-point comparison with a reference and the statistics of a benchmark; of the IBS back end, opening and mapping the events, the enumeration of threads,
  the process-wide survey and the window primitives; of the single-step back end, the calls that set dispositions, timers and the trap flag, whose answers are arguments; of the hardware tier, opening, mapping and
  arming events, the PT and CoreSight captures, the readers of proc files and the stealth process. The operand enumerator (\<^verbatim>\<open>dataflow_operands.c\<close>) is a
  translation of Capstone's operand detail, which is not part of the sources.
\<close>

end
